(* ===== verification/Prelude.thy ===== *)
theory Prelude
  imports Main "HOL-Library.Word"
begin

text \<open>
  What the component theories share: the byte type and the memory operations of the C code
  (a block of memory is a list of bytes; \<open>slice\<close> reads a range and \<open>splice\<close> overwrites one,
  so \<open>memcpy\<close>, \<open>memmove\<close> and pointer stores are both), the little endian integers the code
  stores through casts of \<open>char *\<close>, decimal notation, and the interface of a
  self-delimiting encoding.
\<close>

unbundle bit_operations_syntax

type_synonym byte = "8 word"
type_synonym bytes = "8 word list"

named_theorems mem_simps \<open>reads and writes of memory blocks\<close>
named_theorems le_simps \<open>little endian integers\<close>

subsection \<open>Memory blocks\<close>

definition slice :: "nat \<Rightarrow> nat \<Rightarrow> 'a list \<Rightarrow> 'a list" where
  "slice off n xs = take n (drop off xs)"

definition splice :: "nat \<Rightarrow> 'a list \<Rightarrow> 'a list \<Rightarrow> 'a list" where
  "splice off ys xs = take off xs @ ys @ drop (off + length ys) xs"

text \<open>\<open>zrealloc\<close> keeps the common prefix. The bytes a growing block gains are
  indeterminate in C; they are zero here, and no theorem depends on them.\<close>

definition resize :: "nat \<Rightarrow> bytes \<Rightarrow> bytes" where
  "resize n xs = take n xs @ replicate (n - length xs) 0"

lemma length_slice [mem_simps]: "length (slice off n xs) = min n (length xs - off)"
  by (simp add: slice_def)

lemma length_splice [mem_simps]:
  "off + length ys \<le> length xs \<Longrightarrow> length (splice off ys xs) = length xs"
  by (simp add: splice_def)

lemma length_resize [mem_simps]: "length (resize n xs) = n"
  by (simp add: resize_def)

lemma nth_slice [mem_simps]:
  "i < n \<Longrightarrow> off + i < length xs \<Longrightarrow> slice off n xs ! i = xs ! (off + i)"
  by (simp add: slice_def)

lemma nth_splice:
  assumes "off + length ys \<le> length xs" "i < length xs"
  shows "splice off ys xs ! i =
    (if i < off then xs ! i else if i < off + length ys then ys ! (i - off) else xs ! i)"
  using assms by (auto simp: splice_def nth_append min_def)

lemma slice_splice_same [mem_simps]:
  "off + length ys \<le> length xs \<Longrightarrow> n = length ys \<Longrightarrow> slice off n (splice off ys xs) = ys"
  by (simp add: slice_def splice_def)

lemma slice_splice_before [mem_simps]:
  "o1 + n \<le> off \<Longrightarrow> off + length ys \<le> length xs \<Longrightarrow>
   slice o1 n (splice off ys xs) = slice o1 n xs"
  by (rule nth_equalityI) (auto simp: mem_simps nth_splice)

lemma slice_splice_after [mem_simps]:
  "off + length ys \<le> o1 \<Longrightarrow> off + length ys \<le> length xs \<Longrightarrow>
   slice o1 n (splice off ys xs) = slice o1 n xs"
  by (rule nth_equalityI) (auto simp: mem_simps nth_splice)

lemma slice_splice_inside [mem_simps]:
  "off \<le> o1 \<Longrightarrow> o1 + n \<le> off + length ys \<Longrightarrow> off + length ys \<le> length xs \<Longrightarrow>
   slice o1 n (splice off ys xs) = slice (o1 - off) n ys"
  by (rule nth_equalityI) (auto simp: mem_simps nth_splice)

lemma slice_resize [mem_simps]:
  "off + k \<le> length xs \<Longrightarrow> off + k \<le> n \<Longrightarrow> slice off k (resize n xs) = slice off k xs"
  by (simp add: slice_def resize_def drop_take min_def)

lemma slice_slice [mem_simps]:
  "o2 + n2 \<le> n1 \<Longrightarrow> slice o2 n2 (slice o1 n1 xs) = slice (o1 + o2) n2 xs"
  by (simp add: slice_def drop_take add.commute)

lemma slice_all [mem_simps]: "length xs \<le> n \<Longrightarrow> slice 0 n xs = xs"
  by (simp add: slice_def)

lemma splice_append_left [mem_simps]:
  "off + length zs \<le> length xs \<Longrightarrow> splice off zs (xs @ ys) = splice off zs xs @ ys"
  by (simp add: splice_def)

lemma splice_append_mid [mem_simps]:
  "off = length xs \<Longrightarrow> length zs = length ys \<Longrightarrow> splice off zs (xs @ ys) = xs @ zs"
  by (simp add: splice_def)

lemma list_update_splice: "i < length xs \<Longrightarrow> xs[i := a] = splice i [a] xs"
  by (simp add: splice_def upd_conv_take_nth_drop)

lemma splice_splice_adjacent:
  "off + length xs \<le> length zs \<Longrightarrow> off + length xs + length ys \<le> length zs \<Longrightarrow>
   splice off xs (splice (off + length xs) ys zs) = splice off (xs @ ys) zs"
  by (rule nth_equalityI) (auto simp: mem_simps nth_splice nth_append)

lemma splice_full: "length ys = length xs \<Longrightarrow> splice 0 ys xs = ys"
  by (simp add: splice_def)

lemma take_splice_0: "take (length ys) (splice 0 ys xs) = ys"
  by (simp add: splice_def)

subsection \<open>Little endian integers\<close>

text \<open>\<open>le_bytes n v\<close> is the object representation of the \<open>8 * n\<close> bit integer \<open>v\<close> (two's
  complement when \<open>v\<close> is negative) on the little endian machines the server runs on.\<close>

fun le_bytes :: "nat \<Rightarrow> int \<Rightarrow> bytes" where
  "le_bytes 0 v = []"
| "le_bytes (Suc n) v = word_of_int v # le_bytes n (v div 256)"

fun le_uint :: "bytes \<Rightarrow> int" where
  "le_uint [] = 0"
| "le_uint (b # bs) = uint b + 256 * le_uint bs"

definition sext :: "nat \<Rightarrow> int \<Rightarrow> int" where
  "sext n v = (if v < 2 ^ (8 * n - 1) then v else v - 2 ^ (8 * n))"

definition le_sint :: "bytes \<Rightarrow> int" where
  "le_sint bs = sext (length bs) (le_uint bs)"

lemma length_le_bytes [simp]: "length (le_bytes n v) = n"
  by (induction n arbitrary: v) auto

lemma le_uint_nonneg: "0 \<le> le_uint bs"
  by (induction bs) auto

lemma le_uint_less: "le_uint bs < 256 ^ length bs"
proof (induction bs)
  case (Cons b bs)
  have "uint b < 256" using uint_lt2p [of b] by simp
  with Cons show ?case by simp
qed simp

lemma le_uint_le_bytes [le_simps]: "le_uint (le_bytes n v) = v mod 256 ^ n"
proof (induction n arbitrary: v)
  case (Suc n)
  have "v mod 256 ^ Suc n = v mod 256 + 256 * (v div 256 mod 256 ^ n)"
    by (simp add: zmod_zmult2_eq)
  with Suc show ?case by (simp add: uint_word_of_int take_bit_eq_mod)
qed simp

lemma le_bytes_le_uint [le_simps]: "le_bytes (length bs) (le_uint bs) = bs"
proof (induction bs)
  case (Cons b bs)
  have b: "uint b < 256" "0 \<le> uint b" using uint_lt2p [of b] by simp_all
  then have "(uint b + 256 * le_uint bs) div 256 = le_uint bs" by simp
  moreover have "(word_of_int (uint b + 256 * le_uint bs) :: 8 word) = b"
  proof -
    have "(word_of_int (256 * le_uint bs) :: 8 word) = 0"
      by (subst word_of_int_eq_0_iff) simp
    then show ?thesis by (metis add.right_neutral wi_hom_add word_of_int_uint)
  qed
  ultimately show ?case using Cons by simp
qed simp

definition in_srange :: "nat \<Rightarrow> int \<Rightarrow> bool" where
  "in_srange n v \<longleftrightarrow> - (2 ^ (8 * n - 1)) \<le> v \<and> v < 2 ^ (8 * n - 1)"

lemma le_sint_le_bytes [le_simps]:
  assumes "0 < n" "in_srange n v"
  shows "le_sint (le_bytes n v) = v"
proof -
  have p: "(256::int) ^ n = 2 * 2 ^ (8 * n - 1)"
  proof -
    have "(256::int) ^ n = (2 ^ 8) ^ n" by simp
    also have "\<dots> = 2 ^ (8 * n)" by (simp only: power_mult)
    also have "8 * n = Suc (8 * n - 1)" using assms(1) by simp
    finally show ?thesis by simp
  qed
  then have q: "(2::int) ^ (8 * n) = 2 * 2 ^ (8 * n - 1)"
    using power_mult [of "2::int" 8 n] by simp
  show ?thesis
  proof (cases "0 \<le> v")
    case True
    with assms(2) p have "v mod 256 ^ n = v" by (simp add: in_srange_def)
    with True assms(2) show ?thesis
      by (simp add: le_sint_def sext_def le_uint_le_bytes in_srange_def)
  next
    case False
    have "v mod 256 ^ n = (v + 256 ^ n) mod 256 ^ n" by simp
    also have "\<dots> = v + 256 ^ n"
      using False assms(2) p by (intro mod_pos_pos_trivial) (auto simp: in_srange_def)
    finally have "v mod 256 ^ n = v + 256 ^ n" .
    with False assms(2) p q show ?thesis
      by (simp add: le_sint_def sext_def le_uint_le_bytes in_srange_def)
  qed
qed

lemma le_sint_range:
  assumes "bs \<noteq> []"
  shows "in_srange (length bs) (le_sint bs)"
proof -
  have q: "(2::int) ^ (8 * length bs) = 2 * 2 ^ (8 * length bs - 1)"
  proof -
    have "8 * length bs = Suc (8 * length bs - 1)" using assms by (cases bs) auto
    then show ?thesis by (metis power_Suc)
  qed
  have "(256::int) ^ length bs = 2 ^ (8 * length bs)"
    using power_mult [of "2::int" 8 "length bs"] by simp
  with le_uint_less [of bs] le_uint_nonneg [of bs] q show ?thesis
    by (auto simp: le_sint_def sext_def in_srange_def)
qed

text \<open>Signed 64 bit arithmetic as the compiled code does it: the result wraps.\<close>

definition wrap_s64 :: "int \<Rightarrow> int" where
  "wrap_s64 v = sext 8 (v mod 2 ^ 64)"

lemma wrap_s64_id: "in_srange 8 v \<Longrightarrow> wrap_s64 v = v"
  using le_sint_le_bytes [of 8 v] by (simp add: wrap_s64_def le_sint_def le_uint_le_bytes)

subsection \<open>Decimal notation\<close>

text \<open>The reference for the number printers and parsers: the digits of a natural number, and
  the sign in front of those of a negative integer.\<close>

definition digit :: "nat \<Rightarrow> byte" where
  "digit n = word_of_nat (48 + n)"

fun dec_nat :: "nat \<Rightarrow> bytes" where
  "dec_nat n = (if n < 10 then [digit n] else dec_nat (n div 10) @ [digit (n mod 10)])"

declare dec_nat.simps [simp del]

definition dec_int :: "int \<Rightarrow> bytes" where
  "dec_int v = (if v < 0 then 45 # dec_nat (nat (- v)) else dec_nat (nat v))"

definition is_digit :: "byte \<Rightarrow> bool" where
  "is_digit c \<longleftrightarrow> 48 \<le> c \<and> c \<le> 57"

lemma is_digit_unat: "is_digit c \<longleftrightarrow> 48 \<le> unat c \<and> unat c \<le> 57"
  by (simp add: is_digit_def word_le_nat_alt)

lemma unat_digit [simp]: "n < 10 \<Longrightarrow> unat (digit n) = 48 + n"
  by (simp only: digit_def unat_of_nat) simp

lemma digit_lt: "is_digit c \<Longrightarrow> unat c - 48 < 10"
  unfolding is_digit_unat by arith

lemma digit_unat: "is_digit c \<Longrightarrow> digit (unat c - 48) = c"
  by (simp add: is_digit_unat digit_def)

lemma dec_nat_nonempty [simp]: "dec_nat n \<noteq> []"
  by (subst dec_nat.simps) simp

lemma dec_nat_small: "n < 10 \<Longrightarrow> dec_nat n = [digit n]"
  by (subst dec_nat.simps) simp

lemma dec_nat_big: "10 \<le> n \<Longrightarrow> dec_nat n = dec_nat (n div 10) @ [digit (n mod 10)]"
  by (subst dec_nat.simps) simp

lemma dec_nat_digits: "c \<in> set (dec_nat n) \<Longrightarrow> is_digit c"
proof (induction n rule: dec_nat.induct)
  case (1 n)
  show ?case
  proof (cases "n < 10")
    case True
    with "1.prems" show ?thesis by (simp add: dec_nat_small is_digit_unat)
  next
    case False
    with "1.prems" have "c \<in> set (dec_nat (n div 10)) \<or> c = digit (n mod 10)"
      by (auto simp: dec_nat_big)
    with "1.IH" [OF False] show ?thesis by (auto simp: is_digit_unat)
  qed
qed

lemma length_dec_nat:
  "0 < k \<Longrightarrow> 10 ^ (k - 1) \<le> n \<or> n = 0 \<and> k = 1 \<Longrightarrow> n < 10 ^ k \<Longrightarrow> length (dec_nat n) = k"
proof (induction n arbitrary: k rule: dec_nat.induct)
  case (1 n)
  show ?case
  proof (cases "n < 10")
    case True
    have "k = 1"
    proof (rule ccontr)
      assume "k \<noteq> 1"
      with "1.prems" have "10 ^ 1 \<le> (10::nat) ^ (k - 1)" by (intro power_increasing) auto
      with "1.prems" True \<open>k \<noteq> 1\<close> show False by auto
    qed
    with True show ?thesis by (simp add: dec_nat_small)
  next
    case False
    then have "k \<noteq> 1" using "1.prems" by auto
    with \<open>0 < k\<close> obtain j where k: "k = Suc (Suc j)" by (cases k; cases "k - 1") auto
    with "1.prems" False have "10 ^ Suc j \<le> n" "n < 10 ^ Suc (Suc j)" by auto
    then have "10 ^ j \<le> n div 10" "n div 10 < 10 ^ Suc j" by auto
    with "1.IH" [OF False, of "Suc j"] False k show ?thesis by (simp add: dec_nat_big)
  qed
qed


text \<open>Reading digits from the left, as the parsers do.\<close>

definition dec_val :: "nat \<Rightarrow> bytes \<Rightarrow> nat" where
  "dec_val v cs = foldl (\<lambda>v c. v * 10 + (unat c - 48)) v cs"

lemma dec_val_simps [simp]:
  "dec_val v [] = v"
  "dec_val v (c # cs) = dec_val (v * 10 + (unat c - 48)) cs"
  "dec_val v (cs @ [c]) = dec_val v cs * 10 + (unat c - 48)"
  by (simp_all add: dec_val_def)

lemma dec_val_ge: "v \<le> dec_val v cs"
  by (induction cs rule: rev_induct) auto

lemma dec_val_dec_nat: "dec_val 0 (dec_nat n) = n"
proof (induction n rule: dec_nat.induct)
  case (1 n)
  then show ?case by (cases "n < 10") (simp_all add: dec_nat_small dec_nat_big)
qed

lemma dec_nat_dec_val:
  assumes "is_digit c" "c \<noteq> 48" "\<forall>d \<in> set cs. is_digit d"
  shows "dec_nat (dec_val 0 (c # cs)) = c # cs"
  using assms(3)
proof (induction cs rule: rev_induct)
  case Nil
  have "unat c - 48 < 10" using assms(1) by (rule digit_lt)
  with assms(1) show ?case by (simp add: dec_nat_small digit_unat)
next
  case (snoc d cs)
  have "unat c \<noteq> 48"
    using assms(2) by (simp add: word_unat_eq_iff)
  then have "1 \<le> unat c - 48" using assms(1) unfolding is_digit_unat by arith
  then have "1 \<le> dec_val 0 (c # cs)" using dec_val_ge [of "unat c - 48" cs] by simp
  moreover have "unat d - 48 < 10" "digit (unat d - 48) = d"
    using snoc.prems by (simp_all add: digit_lt digit_unat)
  ultimately show ?case using snoc by (simp add: dec_nat_big)
qed

lemma dec_nat_Cons:
  "0 < n \<Longrightarrow> \<exists>c cs. dec_nat n = c # cs \<and> is_digit c \<and> c \<noteq> 48 \<and> (\<forall>d \<in> set cs. is_digit d)"
proof (induction n rule: dec_nat.induct)
  case (1 n)
  show ?case
  proof (cases "n < 10")
    case True
    have "digit n \<noteq> 48"
    proof
      assume "digit n = 48"
      then have "unat (digit n) = unat (48 :: byte)" by simp
      with True \<open>0 < n\<close> show False by simp
    qed
    with True show ?thesis by (simp add: dec_nat_small is_digit_unat)
  next
    case False
    then have "is_digit (digit (n mod 10))" by (simp add: is_digit_unat)
    moreover from False have "0 < n div 10" by auto
    with "1.IH" [OF False] obtain c cs where "dec_nat (n div 10) = c # cs" "is_digit c"
        "c \<noteq> 48" "\<forall>d \<in> set cs. is_digit d"
      by blast
    ultimately show ?thesis using False by (auto simp: dec_nat_big)
  qed
qed

end
