(* ===== verification/Interfaces.thy ===== *)
theory Interfaces
  imports Prelude
begin

text \<open>
  The interfaces between components, as locales: what a client relies on are the laws in
  \<open>assumes\<close>, and what follows from the laws alone is proved here once. Every locale is
  interpreted in the theory of the component that provides the operations.
\<close>

subsection \<open>Sets\<close>

text \<open>A mutable set: \<open>add\<close> and \<open>del\<close> return whether they changed the set. \<open>dom_ok\<close> bounds the
  elements and \<open>cap\<close> the number of elements up to which \<open>add\<close> may be called.\<close>

locale set_spec =
  fixes empty :: "'s"
    and add :: "'s \<Rightarrow> 'a \<Rightarrow> bool \<times> 's"
    and del :: "'s \<Rightarrow> 'a \<Rightarrow> bool \<times> 's"
    and mem :: "'s \<Rightarrow> 'a \<Rightarrow> bool"
    and elems :: "'s \<Rightarrow> 'a set"
    and invar :: "'s \<Rightarrow> bool"
    and dom_ok :: "'a \<Rightarrow> bool"
    and cap :: nat
  assumes invar_empty: "invar empty"
    and elems_empty: "elems empty = {}"
    and finite_elems: "invar s \<Longrightarrow> finite (elems s)"
    and mem_iff: "invar s \<Longrightarrow> dom_ok x \<Longrightarrow> mem s x \<longleftrightarrow> x \<in> elems s"
    and invar_add: "invar s \<Longrightarrow> dom_ok x \<Longrightarrow> card (elems s) < cap \<Longrightarrow> invar (snd (add s x))"
    and elems_add: "invar s \<Longrightarrow> dom_ok x \<Longrightarrow> card (elems s) < cap \<Longrightarrow>
      elems (snd (add s x)) = insert x (elems s)"
    and added: "invar s \<Longrightarrow> dom_ok x \<Longrightarrow> card (elems s) < cap \<Longrightarrow> fst (add s x) \<longleftrightarrow> x \<notin> elems s"
    and invar_del: "invar s \<Longrightarrow> dom_ok x \<Longrightarrow> invar (snd (del s x))"
    and elems_del: "invar s \<Longrightarrow> dom_ok x \<Longrightarrow> elems (snd (del s x)) = elems s - {x}"
    and deleted: "invar s \<Longrightarrow> dom_ok x \<Longrightarrow> fst (del s x) \<longleftrightarrow> x \<in> elems s"
begin

text \<open>Adding a list of elements one after the other, counting the new ones, as \<open>SADD\<close> does.\<close>

fun add_all :: "'s \<Rightarrow> 'a list \<Rightarrow> nat \<times> 's" where
  "add_all s [] = (0, s)"
| "add_all s (x # xs) =
     (case add s x of (new, s1) \<Rightarrow>
        case add_all s1 xs of (n, s2) \<Rightarrow> ((if new then Suc n else n), s2))"

lemma add_all_spec:
  assumes "invar s" "\<forall>x \<in> set xs. dom_ok x" "card (elems s) + length xs \<le> cap"
    and "add_all s xs = (n, t)"
  shows "invar t \<and> elems t = elems s \<union> set xs \<and> n + card (elems s) = card (elems t)"
  using assms
proof (induction xs arbitrary: s n)
  case (Cons x xs)
  obtain new s1 where a: "add s x = (new, s1)" by fastforce
  obtain m t' where r: "add_all s1 xs = (m, t')" by fastforce
  from Cons.prems a r have t: "t' = t" and n: "n = (if new then Suc m else m)" by auto
  have x: "dom_ok x" and c: "card (elems s) < cap" using Cons.prems by auto
  have s1: "invar s1" "elems s1 = insert x (elems s)" "new \<longleftrightarrow> x \<notin> elems s"
    using invar_add [OF Cons.prems(1) x c] elems_add [OF Cons.prems(1) x c]
      added [OF Cons.prems(1) x c] a by simp_all
  then have card: "card (elems s1) = (if new then Suc (card (elems s)) else card (elems s))"
    using finite_elems [OF Cons.prems(1)] by (simp add: card_insert_if)
  with Cons.prems have "card (elems s1) + length xs \<le> cap" by (simp split: if_splits)
  from Cons.IH [OF s1(1) _ this] Cons.prems(2) r t
  have "invar t \<and> elems t = elems s1 \<union> set xs \<and> m + card (elems s1) = card (elems t)" by simp
  with s1(2) n card show ?case by (auto split: if_splits)
qed simp

lemma add_del_fresh:
  assumes "invar s" "dom_ok x" "card (elems s) < cap" "x \<notin> elems s"
  shows "elems (snd (del (snd (add s x)) x)) = elems s"
  using assms by (simp add: elems_del invar_add elems_add)

lemma mem_add:
  assumes "invar s" "dom_ok x" "dom_ok y" "card (elems s) < cap"
  shows "mem (snd (add s x)) y \<longleftrightarrow> y = x \<or> mem s y"
  using assms by (simp add: mem_iff invar_add elems_add)

end

subsection \<open>Finite maps\<close>

text \<open>A mutable map whose operations may reorganise the store, lookups included. \<open>add\<close> fails on a key
  that is present, \<open>put\<close> overwrites; below \<open>cap\<close> keys neither leaves its memory (the result
  \<open>None\<close>).\<close>

locale map_spec =
  fixes add :: "'s \<Rightarrow> 'k \<Rightarrow> 'v \<Rightarrow> (bool \<times> 's) option"
    and put :: "'s \<Rightarrow> 'k \<Rightarrow> 'v \<Rightarrow> (bool \<times> 's) option"
    and get :: "'s \<Rightarrow> 'k \<Rightarrow> 'v option \<times> 's"
    and del :: "'s \<Rightarrow> 'k \<Rightarrow> bool \<times> 's"
    and abs :: "'s \<Rightarrow> 'k \<rightharpoonup> 'v"
    and invar :: "'s \<Rightarrow> bool"
    and cap :: nat
  assumes finite_dom: "invar s \<Longrightarrow> finite (dom (abs s))"
    and add_ok: "invar s \<Longrightarrow> card (dom (abs s)) < cap \<Longrightarrow>
      \<exists>ok t. add s k v = Some (ok, t) \<and> invar t \<and> (ok \<longleftrightarrow> abs s k = None) \<and>
        abs t = (if ok then (abs s)(k \<mapsto> v) else abs s)"
    and put_ok: "invar s \<Longrightarrow> card (dom (abs s)) < cap \<Longrightarrow>
      \<exists>new t. put s k v = Some (new, t) \<and> invar t \<and> (new \<longleftrightarrow> abs s k = None) \<and> abs t = (abs s)(k \<mapsto> v)"
    and get_ok: "invar s \<Longrightarrow> get s k = (r, t) \<Longrightarrow> invar t \<and> r = abs s k \<and> abs t = abs s"
    and del_ok: "invar s \<Longrightarrow> del s k = (ok, t) \<Longrightarrow>
      invar t \<and> (ok \<longleftrightarrow> abs s k \<noteq> None) \<and> abs t = (abs s)(k := None)"
begin

fun put_all :: "'s \<Rightarrow> ('k \<times> 'v) list \<Rightarrow> 's option" where
  "put_all s [] = Some s"
| "put_all s ((k, v) # kvs) = (case put s k v of None \<Rightarrow> None | Some (new, s) \<Rightarrow> put_all s kvs)"

lemma put_all_ok:
  "invar s \<Longrightarrow> card (dom (abs s)) + length kvs \<le> cap \<Longrightarrow>
   \<exists>t. put_all s kvs = Some t \<and> invar t \<and> abs t = abs s ++ map_of (rev kvs)"
proof (induction kvs arbitrary: s)
  case (Cons kv kvs)
  obtain k v where kv: "kv = (k, v)" by (cases kv)
  from Cons.prems have "card (dom (abs s)) < cap" by simp
  from put_ok [OF Cons.prems(1) this] obtain new t where
    p: "put s k v = Some (new, t)" and t: "invar t" "abs t = (abs s)(k \<mapsto> v)" by blast
  have "card (dom (abs t)) \<le> Suc (card (dom (abs s)))"
    using finite_dom [OF Cons.prems(1)] by (simp add: t(2) card_insert_if)
  with Cons.prems have "card (dom (abs t)) + length kvs \<le> cap" by simp
  moreover have "abs s ++ map_of (rev (kv # kvs)) = abs t ++ map_of (rev kvs)" by (simp add: kv t(2))
  ultimately show ?case using Cons.IH [OF t(1)] by (simp add: kv p)
qed simp

text \<open>A key that was just stored is found, with the value stored last.\<close>

lemma get_put:
  assumes "invar s" "card (dom (abs s)) < cap"
  shows "\<exists>new t. put s k v = Some (new, t) \<and> fst (get t k') = (if k' = k then Some v else abs s k')"
proof -
  from put_ok [OF assms] obtain new t where
    p: "put s k v = Some (new, t)" and t: "invar t" "abs t = (abs s)(k \<mapsto> v)" by blast
  obtain r u where g: "get t k' = (r, u)" by fastforce
  from get_ok [OF t(1) g] t(2) show ?thesis by (simp add: p g)
qed

end

subsection \<open>Self-delimiting encodings\<close>

text \<open>An encoding whose decoder takes a value off the front of the input and returns the rest.\<close>

locale codec =
  fixes enc :: "'a \<Rightarrow> bytes"
    and dec :: "bytes \<Rightarrow> ('a \<times> bytes) option"
    and ok :: "'a \<Rightarrow> bool"
  assumes dec_enc: "ok x \<Longrightarrow> dec (enc x @ rest) = Some (x, rest)"
begin

fun dec_many :: "nat \<Rightarrow> bytes \<Rightarrow> ('a list \<times> bytes) option" where
  "dec_many 0 bs = Some ([], bs)"
| "dec_many (Suc n) bs =
     (case dec bs of
        None \<Rightarrow> None
      | Some (x, rest) \<Rightarrow>
          (case dec_many n rest of None \<Rightarrow> None | Some (xs, rest') \<Rightarrow> Some (x # xs, rest')))"

lemma dec_many_enc:
  "\<forall>x \<in> set xs. ok x \<Longrightarrow> dec_many (length xs) (concat (map enc xs) @ rest) = Some (xs, rest)"
  by (induction xs) (simp_all add: dec_enc)

lemma enc_inj: "ok x \<Longrightarrow> ok y \<Longrightarrow> enc x = enc y \<Longrightarrow> x = y"
  using dec_enc [of x "[]"] dec_enc [of y "[]"] by simp

text \<open>No encoding is a proper prefix of another one.\<close>

lemma enc_prefix_free: "ok x \<Longrightarrow> ok y \<Longrightarrow> enc x @ r = enc y @ r' \<Longrightarrow> x = y \<and> r = r'"
  by (metis Pair_inject dec_enc option.inject)

end

subsection \<open>Growing buffers\<close>

text \<open>Output that is only appended to, up to a capacity: strings, reply buffers, dumps.\<close>

locale appender =
  fixes app :: "'s \<Rightarrow> bytes \<Rightarrow> 's"
    and val :: "'s \<Rightarrow> bytes"
    and invar :: "'s \<Rightarrow> bool"
    and cap :: nat
  assumes invar_app: "invar s \<Longrightarrow> length (val s) + length t \<le> cap \<Longrightarrow> invar (app s t)"
    and val_app: "invar s \<Longrightarrow> length (val s) + length t \<le> cap \<Longrightarrow> val (app s t) = val s @ t"
begin

lemma app_all:
  assumes "invar s" "length (val s) + length (concat ts) \<le> cap"
  shows "invar (foldl app s ts) \<and> val (foldl app s ts) = val s @ concat ts"
  using assms
proof (induction ts arbitrary: s)
  case (Cons t ts)
  then have "length (val s) + length t \<le> cap" by simp
  with Cons.prems invar_app [of s t] val_app [of s t] Cons.IH [of "app s t"] show ?case by simp
qed simp

end

end
