(* ===== verification/Intset.thy ===== *)
theory Intset
  imports Interfaces
begin

text \<open>
  The compact integer set of \<open>src/src/src/intset.c\<close>: a header with the width of the elements
  (2, 4 or 8 bytes) and their number, followed by the elements as little endian integers
  in increasing order. The blob is a list of bytes here as it is in the code, and the
  operations move bytes. Shown: the elements stay strictly sorted and of the current
  width, the binary search decides membership, an insertion widens the whole set when the
  value asks for it, and the set of elements changes as the operation promises.
\<close>

definition INT16_MIN :: int where "INT16_MIN = - 32768"
definition INT16_MAX :: int where "INT16_MAX = 32767"
definition INT32_MIN :: int where "INT32_MIN = - 2147483648"
definition INT32_MAX :: int where "INT32_MAX = 2147483647"

lemmas int_limits = INT16_MIN_def INT16_MAX_def INT32_MIN_def INT32_MAX_def

definition INTSET_ENC_INT16 :: nat where "INTSET_ENC_INT16 = 2"
definition INTSET_ENC_INT32 :: nat where "INTSET_ENC_INT32 = 4"
definition INTSET_ENC_INT64 :: nat where "INTSET_ENC_INT64 = 8"

lemmas intset_encs = INTSET_ENC_INT16_def INTSET_ENC_INT32_def INTSET_ENC_INT64_def

record intset =
  encoding :: nat
  is_length :: nat
  contents :: bytes

definition intsetValueEncoding :: "int \<Rightarrow> nat" where
  "intsetValueEncoding v =
     (if v < INT32_MIN \<or> v > INT32_MAX then INTSET_ENC_INT64
      else if v < INT16_MIN \<or> v > INT16_MAX then INTSET_ENC_INT32
      else INTSET_ENC_INT16)"

definition intsetGetEncoded :: "intset \<Rightarrow> nat \<Rightarrow> nat \<Rightarrow> int" where
  "intsetGetEncoded s pos enc =
     (if enc = INTSET_ENC_INT64 then le_sint (slice (8 * pos) 8 (contents s))
      else if enc = INTSET_ENC_INT32 then le_sint (slice (4 * pos) 4 (contents s))
      else le_sint (slice (2 * pos) 2 (contents s)))"

definition intsetGetAt :: "intset \<Rightarrow> nat \<Rightarrow> int" where
  "intsetGetAt s pos = intsetGetEncoded s pos (encoding s)"

definition intsetSet :: "intset \<Rightarrow> nat \<Rightarrow> int \<Rightarrow> intset" where
  "intsetSet s pos v =
     (if encoding s = INTSET_ENC_INT64
      then s\<lparr>contents := splice (8 * pos) (le_bytes 8 v) (contents s)\<rparr>
      else if encoding s = INTSET_ENC_INT32
      then s\<lparr>contents := splice (4 * pos) (le_bytes 4 v) (contents s)\<rparr>
      else s\<lparr>contents := splice (2 * pos) (le_bytes 2 v) (contents s)\<rparr>)"

definition intsetNew :: intset where
  "intsetNew = \<lparr>encoding = INTSET_ENC_INT16, is_length = 0, contents = []\<rparr>"

definition intsetResize :: "intset \<Rightarrow> nat \<Rightarrow> intset" where
  "intsetResize s len =
     (let size = (len * encoding s) mod 2 ^ 32 in s\<lparr>contents := resize size (contents s)\<rparr>)"

text \<open>The loop of the binary search: \<open>min\<close>, \<open>max\<close>, and the last probe \<open>mid\<close> with its value.\<close>

function search_loop :: "intset \<Rightarrow> int \<Rightarrow> int \<Rightarrow> int \<Rightarrow> int \<Rightarrow> int \<Rightarrow> int \<times> int \<times> int" where
  "search_loop s value mn mx mid cur =
     (if mx \<ge> mn then
        let mid' = (mn + mx) div 2; cur' = intsetGetAt s (nat mid') in
          if value > cur' then search_loop s value (mid' + 1) mx mid' cur'
          else if value < cur' then search_loop s value mn (mid' - 1) mid' cur'
          else (mn, mid', cur')
      else (mn, mid, cur))"
  by pat_completeness auto
termination
  by (relation "measure (\<lambda>(s, value, mn, mx, mid, cur). nat (mx - mn + 1))") auto

declare search_loop.simps [simp del]

definition intsetSearch :: "intset \<Rightarrow> int \<Rightarrow> bool \<times> nat" where
  "intsetSearch s value =
     (if is_length s = 0 then (False, 0)
      else if value > intsetGetAt s (is_length s - 1) then (False, is_length s)
      else if value < intsetGetAt s 0 then (False, 0)
      else
        (case search_loop s value 0 (int (is_length s) - 1) (- 1) (- 1) of
           (mn, mid, cur) \<Rightarrow> if value = cur then (True, nat mid) else (False, nat mn)))"

text \<open>\<open>while (length--)\<close>, from the last element to the first.\<close>

fun upgrade_loop :: "intset \<Rightarrow> nat \<Rightarrow> nat \<Rightarrow> nat \<Rightarrow> intset" where
  "upgrade_loop s prepend curenc 0 = s"
| "upgrade_loop s prepend curenc (Suc k) =
     upgrade_loop (intsetSet s (k + prepend) (intsetGetEncoded s k curenc)) prepend curenc k"

definition intsetUpgradeAndAdd :: "intset \<Rightarrow> int \<Rightarrow> intset" where
  "intsetUpgradeAndAdd s value =
     (let curenc = encoding s;
          newenc = intsetValueEncoding value;
          len = is_length s;
          prepend = (if value < 0 then 1 else 0);
          s1 = intsetResize (s\<lparr>encoding := newenc\<rparr>) (is_length s + 1);
          s2 = upgrade_loop s1 prepend curenc len;
          s3 = (if prepend = 1 then intsetSet s2 0 value else intsetSet s2 (is_length s2) value)
      in s3\<lparr>is_length := (is_length s3 + 1) mod 2 ^ 32\<rparr>)"

definition intsetMoveTail :: "intset \<Rightarrow> nat \<Rightarrow> nat \<Rightarrow> intset" where
  "intsetMoveTail s from to =
     (let n = is_length s - from;
          w = (if encoding s = INTSET_ENC_INT64 then 8
               else if encoding s = INTSET_ENC_INT32 then 4 else 2);
          bytes = (n * w) mod 2 ^ 32
      in s\<lparr>contents := splice (w * to) (slice (w * from) bytes (contents s)) (contents s)\<rparr>)"

text \<open>The new set and \<open>*success\<close>.\<close>

definition intsetAdd :: "intset \<Rightarrow> int \<Rightarrow> bool \<times> intset" where
  "intsetAdd s value =
     (let valenc = intsetValueEncoding value in
        if valenc > encoding s then (True, intsetUpgradeAndAdd s value)
        else
          (case intsetSearch s value of
             (True, _) \<Rightarrow> (False, s)
           | (False, pos) \<Rightarrow>
               let s1 = intsetResize s (is_length s + 1);
                   s2 = (if pos < is_length s1 then intsetMoveTail s1 pos (pos + 1) else s1);
                   s3 = intsetSet s2 pos value
               in (True, s3\<lparr>is_length := (is_length s3 + 1) mod 2 ^ 32\<rparr>)))"

definition intsetRemove :: "intset \<Rightarrow> int \<Rightarrow> bool \<times> intset" where
  "intsetRemove s value =
     (let valenc = intsetValueEncoding value in
        if valenc \<le> encoding s then
          (case intsetSearch s value of
             (True, pos) \<Rightarrow>
               let len = is_length s;
                   s1 = (if pos < len - 1 then intsetMoveTail s (pos + 1) pos else s);
                   s2 = intsetResize s1 (len - 1)
               in (True, s2\<lparr>is_length := len - 1\<rparr>)
           | (False, _) \<Rightarrow> (False, s))
        else (False, s))"

definition intsetFind :: "intset \<Rightarrow> int \<Rightarrow> bool" where
  "intsetFind s value \<longleftrightarrow>
     intsetValueEncoding value \<le> encoding s \<and> fst (intsetSearch s value)"

text \<open>\<open>rand()\<close> is an argument.\<close>

definition intsetRandom :: "nat \<Rightarrow> intset \<Rightarrow> int" where
  "intsetRandom rnd s = intsetGetAt s (rnd mod is_length s)"

definition intsetGet :: "intset \<Rightarrow> nat \<Rightarrow> int option" where
  "intsetGet s pos = (if pos < is_length s then Some (intsetGetAt s pos) else None)"

definition intsetLen :: "intset \<Rightarrow> nat" where
  "intsetLen s = is_length s"

definition intsetBlobLen :: "intset \<Rightarrow> nat" where
  "intsetBlobLen s = 8 + (is_length s * encoding s) mod 2 ^ 32"

subsection \<open>The elements and the invariant\<close>

definition is_vals :: "intset \<Rightarrow> int list" where
  "is_vals s = map (intsetGetAt s) [0..<is_length s]"

definition intset_wf :: "intset \<Rightarrow> bool" where
  "intset_wf s \<longleftrightarrow>
     encoding s \<in> {2, 4, 8} \<and> length (contents s) = is_length s * encoding s \<and>
     is_length s * 8 < 2 ^ 32 \<and> sorted_wrt (<) (is_vals s)"

lemma get_encoded: "enc \<in> {2, 4, 8} \<Longrightarrow>
   intsetGetEncoded s pos enc = le_sint (slice (enc * pos) enc (contents s))"
  by (auto simp: intsetGetEncoded_def intset_encs)

lemma set_encoded: "encoding s \<in> {2, 4, 8} \<Longrightarrow>
   intsetSet s pos v =
   s\<lparr>contents := splice (encoding s * pos) (le_bytes (encoding s) v) (contents s)\<rparr>"
  by (auto simp: intsetSet_def intset_encs)

lemma move_encoded: "encoding s \<in> {2, 4, 8} \<Longrightarrow> is_length s * 8 < 2 ^ 32 \<Longrightarrow>
   intsetMoveTail s from to =
   s\<lparr>contents := splice (encoding s * to)
       (slice (encoding s * from) ((is_length s - from) * encoding s) (contents s)) (contents s)\<rparr>"
  by (auto simp: intsetMoveTail_def intset_encs Let_def)

lemma value_encoding_cases: "intsetValueEncoding v \<in> {2, 4, 8}"
  by (simp add: intsetValueEncoding_def intset_encs)

lemma value_encoding_iff:
  "enc \<in> {2, 4, 8} \<Longrightarrow> in_srange 8 v \<Longrightarrow> intsetValueEncoding v \<le> enc \<longleftrightarrow> in_srange enc v"
  by (auto simp: intsetValueEncoding_def intset_encs int_limits in_srange_def)

lemma srange_mono: "in_srange m v \<Longrightarrow> m \<le> n \<Longrightarrow> in_srange n v"
proof -
  assume v: "in_srange m v" and "m \<le> n"
  then have "(2::int) ^ (8 * m - 1) \<le> 2 ^ (8 * n - 1)" by (intro power_increasing) auto
  with v show ?thesis unfolding in_srange_def by linarith
qed

lemma encoded_range:
  "enc \<in> {2, 4, 8} \<Longrightarrow> enc * Suc pos \<le> length (contents s) \<Longrightarrow>
   in_srange enc (intsetGetEncoded s pos enc)"
  using le_sint_range [of "slice (enc * pos) enc (contents s)"]
  by (auto simp: get_encoded mem_simps simp flip: length_greater_0_conv)

lemma elem_le: "i < j \<Longrightarrow> (e::nat) * i + e \<le> e * j"
  by (metis Suc_leI add.commute mult_Suc_right mult_le_mono2)

lemma get_set:
  assumes "encoding s \<in> {2, 4, 8}" "encoding s * Suc pos \<le> length (contents s)"
    and "in_srange (encoding s) v"
  shows "intsetGetAt (intsetSet s pos v) i = (if i = pos then v else intsetGetAt s i)"
proof -
  have "slice (encoding s * i) (encoding s) (splice (encoding s * pos) (le_bytes (encoding s) v) (contents s)) =
      (if i = pos then le_bytes (encoding s) v else slice (encoding s * i) (encoding s) (contents s))"
    using assms(2) elem_le [of i pos "encoding s"] elem_le [of pos i "encoding s"]
    by (cases i pos rule: linorder_cases) (simp_all add: mem_simps)
  moreover have "0 < encoding s" using assms(1) by auto
  ultimately show ?thesis
    using assms by (simp add: intsetGetAt_def set_encoded get_encoded le_sint_le_bytes)
qed

lemma get_encoded_set_below:
  assumes "encoding s \<in> {2, 4, 8}" "encoding s * Suc pos \<le> length (contents s)"
    and "enc \<in> {2, 4, 8}" "enc * i + enc \<le> encoding s * pos"
  shows "intsetGetEncoded (intsetSet s pos v) i enc = intsetGetEncoded s i enc"
  using assms by (simp add: set_encoded get_encoded mem_simps)

lemma set_fields [simp]:
  "encoding (intsetSet s pos v) = encoding s" "is_length (intsetSet s pos v) = is_length s"
  by (simp_all add: intsetSet_def)

lemma length_set [simp]:
  "encoding s \<in> {2, 4, 8} \<Longrightarrow> encoding s * Suc pos \<le> length (contents s) \<Longrightarrow>
   length (contents (intsetSet s pos v)) = length (contents s)"
  by (simp add: set_encoded mem_simps)

lemma move_fields [simp]:
  "encoding (intsetMoveTail s from to) = encoding s"
  "is_length (intsetMoveTail s from to) = is_length s"
  by (simp_all add: intsetMoveTail_def Let_def)

lemma move_bounds:
  assumes "e * (from + n) \<le> L" "e * (to + n) \<le> (L::nat)"
  shows "e * from + n * e \<le> L" "e * to + n * e \<le> L"
  using assms by (simp_all add: algebra_simps)

lemma length_move [simp]:
  assumes "encoding s \<in> {2, 4, 8}" "is_length s * 8 < 2 ^ 32"
    and "encoding s * (from + (is_length s - from)) \<le> length (contents s)"
    and "encoding s * (to + (is_length s - from)) \<le> length (contents s)"
  shows "length (contents (intsetMoveTail s from to)) = length (contents s)"
  using move_bounds [OF assms(3,4)] by (simp add: move_encoded [OF assms(1,2)] mem_simps)

lemma get_move:
  assumes e: "encoding s \<in> {2, 4, 8}" and len: "is_length s * 8 < 2 ^ 32"
    and src: "encoding s * (from + (is_length s - from)) \<le> length (contents s)"
    and dst: "encoding s * (to + (is_length s - from)) \<le> length (contents s)"
  shows "intsetGetAt (intsetMoveTail s from to) i =
    (if to \<le> i \<and> i < to + (is_length s - from) then intsetGetAt s (from + (i - to))
     else intsetGetAt s i)"
proof -
  let ?e = "encoding s" and ?n = "is_length s - from" and ?c = "contents s"
  let ?mv = "slice (?e * from) (?n * ?e) ?c"
  note bounds = move_bounds [OF src dst]
  have lmv: "length ?mv = ?n * ?e" using bounds(1) by (simp add: mem_simps)
  have "slice (?e * i) ?e (splice (?e * to) ?mv ?c) =
      (if to \<le> i \<and> i < to + ?n then slice (?e * (from + (i - to))) ?e ?c else slice (?e * i) ?e ?c)"
  proof (cases "to \<le> i \<and> i < to + ?n")
    case True
    then obtain k where k: "i = to + k" "k < ?n" using le_Suc_ex by auto
    have "?e * k + ?e \<le> ?n * ?e" using elem_le [OF k(2), of ?e] by (simp add: mult.commute)
    then have "slice (?e * i) ?e (splice (?e * to) ?mv ?c) = slice (?e * k) ?e ?mv"
      using k bounds lmv by (subst slice_splice_inside) (auto simp: algebra_simps)
    also have "\<dots> = slice (?e * k + ?e * from) ?e ?c"
      using \<open>?e * k + ?e \<le> ?n * ?e\<close> by (simp add: slice_slice add.commute)
    finally have "slice (?e * i) ?e (splice (?e * to) ?mv ?c) = slice (?e * (from + k)) ?e ?c"
      by (simp add: distrib_left add.commute)
    with True k show ?thesis by simp
  next
    case False
    then consider "i < to" | "to + ?n \<le> i" by linarith
    then show ?thesis
    proof cases
      case 1
      then show ?thesis using elem_le [of i to ?e] bounds lmv
        by (simp add: slice_splice_before)
    next
      case 2
      then have "?e * (to + ?n) \<le> ?e * i" by (rule mult_le_mono2)
      with 2 bounds lmv show ?thesis
        by (simp add: slice_splice_after algebra_simps)
    qed
  qed
  then show ?thesis using e by (simp add: intsetGetAt_def move_encoded [OF e len] get_encoded)
qed

subsection \<open>The search\<close>

lemma search_loop_spec:
  assumes mono: "\<And>i j. i < j \<Longrightarrow> j < n \<Longrightarrow> intsetGetAt s i < intsetGetAt s j"
    and "0 \<le> mn" "mx < int n" "mn \<le> mx + 1" "mn \<le> mx \<or> cur \<noteq> v"
    and "\<And>i. i < n \<Longrightarrow> int i < mn \<Longrightarrow> intsetGetAt s i < v"
    and "\<And>i. i < n \<Longrightarrow> mx < int i \<Longrightarrow> v < intsetGetAt s i"
    and "search_loop s v mn mx mid cur = (m, d, c)"
  shows "if v = c then 0 \<le> d \<and> d < int n \<and> intsetGetAt s (nat d) = v
    else 0 \<le> m \<and> m \<le> int n \<and> (\<forall>i < n. int i < m \<longrightarrow> intsetGetAt s i < v) \<and>
      (\<forall>i < n. m \<le> int i \<longrightarrow> v < intsetGetAt s i)"
  using assms
proof (induction s v mn mx mid cur rule: search_loop.induct)
  case (1 s v mn mx mid cur)
  let ?d = "(mn + mx) div 2"
  let ?c = "intsetGetAt s (nat ?d)"
  note mono = "1.prems"(1)
  show ?case
  proof (cases "mn \<le> mx")
    case False
    with "1.prems"(2-) show ?thesis by (subst (asm) search_loop.simps) auto
  next
    case True
    with "1.prems"(2,3) have d: "mn \<le> ?d" "?d \<le> mx" "nat ?d < n" by auto
    consider "v > ?c" | "v < ?c" | "v = ?c" by linarith
    then show ?thesis
    proof cases
      case 1
      have below: "intsetGetAt s i < v" if "i < n" "int i < ?d + 1" for i
      proof (cases "i = nat ?d")
        case False
        with that d(1) have "i < nat ?d" by linarith
        with mono [OF this d(3)] 1 show ?thesis by linarith
      qed (use 1 in simp)
      have "search_loop s v (?d + 1) mx ?d ?c = (m, d, c)"
        using "1.prems"(8) True 1 by (subst (asm) search_loop.simps) (simp add: Let_def)
      then show ?thesis
        using "1.IH"(1) [OF True refl refl 1 mono] "1.prems"(2-7) 1 d below by simp
    next
      case 2
      then have n: "\<not> ?c < v" by simp
      have above: "v < intsetGetAt s i" if "i < n" "?d - 1 < int i" for i
      proof (cases "i = nat ?d")
        case False
        with that d(1) have "nat ?d < i" using "1.prems"(2) by linarith
        with mono [OF this that(1)] 2 show ?thesis by linarith
      qed (use 2 in simp)
      have "search_loop s v mn (?d - 1) ?d ?c = (m, d, c)"
        using "1.prems"(8) True 2 by (subst (asm) search_loop.simps) (simp add: Let_def)
      then show ?thesis
        using "1.IH"(2) [OF True refl refl n 2 mono] "1.prems"(2-7) 2 d above by simp
    next
      case 3
      with True "1.prems"(8) have "(m, d, c) = (mn, ?d, ?c)"
        by (subst (asm) search_loop.simps) (auto simp: Let_def)
      with 3 d "1.prems"(2,3) show ?thesis by auto
    qed
  qed
qed

lemma wf_mono:
  assumes "intset_wf s" "i < j" "j < is_length s"
  shows "intsetGetAt s i < intsetGetAt s j"
  using assms sorted_wrt_nth_less [of "(<)" "is_vals s" i j] by (simp add: intset_wf_def is_vals_def)

lemma set_is_vals: "x \<in> set (is_vals s) \<longleftrightarrow> (\<exists>i < is_length s. intsetGetAt s i = x)"
  by (auto simp: is_vals_def)

text \<open>The position the search returns splits the elements around the value.\<close>

lemma search_spec:
  assumes wf: "intset_wf s" and r: "intsetSearch s v = (found, pos)"
  shows "(found \<longrightarrow> pos < is_length s \<and> intsetGetAt s pos = v) \<and>
    (\<not> found \<longrightarrow> pos \<le> is_length s \<and> (\<forall>i < pos. intsetGetAt s i < v) \<and>
       (\<forall>i < is_length s. pos \<le> i \<longrightarrow> v < intsetGetAt s i))"
proof (cases "is_length s = 0")
  case True
  with r show ?thesis by (auto simp: intsetSearch_def)
next
  case False
  let ?n = "is_length s"
  consider (above) "v > intsetGetAt s (?n - 1)"
    | (below) "v \<le> intsetGetAt s (?n - 1)" "v < intsetGetAt s 0"
    | (inside) "v \<le> intsetGetAt s (?n - 1)" "intsetGetAt s 0 \<le> v" by linarith
  then show ?thesis
  proof cases
    case above
    have "intsetGetAt s i < v" if "i < ?n" for i
    proof (cases "i = ?n - 1")
      case False
      with that have "i < ?n - 1" "?n - 1 < ?n" by linarith+
      with wf_mono [OF wf this] above show ?thesis by linarith
    qed (use above in simp)
    with above r False show ?thesis by (auto simp: intsetSearch_def)
  next
    case below
    have "v < intsetGetAt s i" if "i < ?n" for i
      using that below wf_mono [OF wf, of 0 i] by (cases "i = 0") auto
    with below r False show ?thesis by (auto simp: intsetSearch_def)
  next
    case inside
    obtain m d c where l: "search_loop s v 0 (int ?n - 1) (- 1) (- 1) = (m, d, c)"
      by (metis prod_cases3)
    have "if v = c then 0 \<le> d \<and> d < int ?n \<and> intsetGetAt s (nat d) = v
      else 0 \<le> m \<and> m \<le> int ?n \<and> (\<forall>i < ?n. int i < m \<longrightarrow> intsetGetAt s i < v) \<and>
        (\<forall>i < ?n. m \<le> int i \<longrightarrow> v < intsetGetAt s i)"
      by (rule search_loop_spec [OF wf_mono [OF wf] _ _ _ _ _ _ l]) (use False in auto)
    with inside r False l show ?thesis
      by (cases "v = c") (auto simp: intsetSearch_def)
  qed
qed

lemma search_found_iff:
  assumes wf: "intset_wf s"
  shows "fst (intsetSearch s v) \<longleftrightarrow> v \<in> set (is_vals s)"
proof -
  obtain found pos where r: "intsetSearch s v = (found, pos)" by fastforce
  from search_spec [OF wf r] show ?thesis
    using r by (cases found) (auto simp: set_is_vals, metis leI less_irrefl)
qed

lemma vals_in_range:
  assumes "intset_wf s" "x \<in> set (is_vals s)"
  shows "in_srange (encoding s) x"
proof -
  from assms(2) obtain i where i: "i < is_length s" "x = intsetGetAt s i" by (auto simp: set_is_vals)
  then have "encoding s * Suc i \<le> length (contents s)"
    using assms(1) elem_le [of i "is_length s" "encoding s"] by (simp add: intset_wf_def algebra_simps)
  with i assms(1) show ?thesis
    using encoded_range [of "encoding s" i s] by (simp add: intset_wf_def intsetGetAt_def)
qed

lemma find_iff:
  assumes "intset_wf s" "in_srange 8 v"
  shows "intsetFind s v \<longleftrightarrow> v \<in> set (is_vals s)"
proof -
  have "v \<in> set (is_vals s) \<Longrightarrow> intsetValueEncoding v \<le> encoding s"
    using assms vals_in_range [OF assms(1)] value_encoding_iff [of "encoding s" v]
    by (auto simp: intset_wf_def)
  then show ?thesis using search_found_iff [OF assms(1)] by (auto simp: intsetFind_def)
qed

subsection \<open>Removal\<close>

text \<open>A set is described by its width, its length and its elements.\<close>

lemma wfI:
  assumes "encoding s \<in> {2, 4, 8}" "length (contents s) = is_length s * encoding s"
    and "is_length s * 8 < 2 ^ 32" "sorted_wrt (<) xs" "is_length s = length xs"
    and "\<And>i. i < length xs \<Longrightarrow> intsetGetAt s i = xs ! i"
  shows "intset_wf s \<and> is_vals s = xs"
proof -
  have "is_vals s = xs" using assms(5,6) by (intro nth_equalityI) (auto simp: is_vals_def)
  with assms show ?thesis by (simp add: intset_wf_def)
qed

lemma get_resize:
  assumes "encoding s \<in> {2, 4, 8}" "i < is_length s" "is_length s * encoding s \<le> length (contents s)"
    and "i < n" "n * encoding s < 2 ^ 32"
  shows "intsetGetAt (intsetResize s n) i = intsetGetAt s i"
proof -
  have "encoding s * i + encoding s \<le> length (contents s)"
    using elem_le [OF assms(2), of "encoding s"] assms(3) by (simp add: mult.commute)
  moreover have "encoding s * i + encoding s \<le> n * encoding s"
    using elem_le [OF assms(4), of "encoding s"] by (simp add: mult.commute)
  ultimately show ?thesis
    using assms by (simp add: intsetResize_def intsetGetAt_def get_encoded mem_simps)
qed

lemma resize_fields [simp]:
  "encoding (intsetResize s n) = encoding s" "is_length (intsetResize s n) = is_length s"
  by (simp_all add: intsetResize_def)

lemma length_intsetResize [simp]:
  "n * encoding s < 2 ^ 32 \<Longrightarrow> length (contents (intsetResize s n)) = n * encoding s"
  by (simp add: intsetResize_def mem_simps)

lemma remove_found:
  assumes wf: "intset_wf s" and found: "intsetSearch s v = (True, pos)"
    and enc: "intsetValueEncoding v \<le> encoding s"
  shows "fst (intsetRemove s v) \<and> intset_wf (snd (intsetRemove s v)) \<and>
    is_vals (snd (intsetRemove s v)) = take pos (is_vals s) @ drop (Suc pos) (is_vals s)"
proof -
  let ?n = "is_length s" and ?e = "encoding s"
  define s1 where "s1 = (if pos < ?n - 1 then intsetMoveTail s (pos + 1) pos else s)"
  define s2 where "s2 = intsetResize s1 (?n - 1)"
  have e: "?e \<in> {2, 4, 8}" and len: "?n * 8 < 2 ^ 32" and lc: "length (contents s) = ?n * ?e"
    using wf by (simp_all add: intset_wf_def)
  have pos: "pos < ?n" using search_spec [OF wf found] by simp
  have run: "intsetRemove s v = (True, s2\<lparr>is_length := ?n - 1\<rparr>)"
    using enc found by (simp add: intsetRemove_def s1_def s2_def Let_def)
  have b1: "?e * (pos + 1 + (?n - (pos + 1))) \<le> length (contents s)" using pos lc by simp
  have "?e * (pos + (?n - (pos + 1))) \<le> ?e * ?n" using pos by (intro mult_le_mono2) simp
  then have b2: "?e * (pos + (?n - (pos + 1))) \<le> length (contents s)" using lc by (simp add: mult.commute)
  have s1: "encoding s1 = ?e" "is_length s1 = ?n" "length (contents s1) = ?n * ?e"
    using length_move [OF e len b1 b2] lc by (simp_all add: s1_def)
  have g1: "intsetGetAt s1 i = (if i < pos then intsetGetAt s i else intsetGetAt s (Suc i))"
    if "i < ?n - 1" for i
    using that get_move [OF e len b1 b2, of i] pos by (auto simp: s1_def)
  have "(?n - 1) * ?e \<le> (?n - 1) * 8" using e by (intro mult_le_mono2) auto
  then have small: "(?n - 1) * ?e < 2 ^ 32" using len by linarith
  have g2: "intsetGetAt s2 i = intsetGetAt s1 i" if "i < ?n - 1" for i
    unfolding s2_def using that e s1 small by (intro get_resize) auto
  let ?vs = "take pos (is_vals s) @ drop (Suc pos) (is_vals s)"
  have split: "is_vals s = take pos (is_vals s) @ is_vals s ! pos # drop (Suc pos) (is_vals s)"
    by (rule id_take_nth_drop) (use pos in \<open>simp add: is_vals_def\<close>)
  have "sorted_wrt (<) (take pos (is_vals s) @ is_vals s ! pos # drop (Suc pos) (is_vals s))"
    by (rule subst [OF split, of "sorted_wrt (<)"]) (use wf in \<open>simp add: intset_wf_def\<close>)
  then have "sorted_wrt (<) ?vs" by (auto simp: sorted_wrt_append)
  moreover have "?vs ! i = (if i < pos then intsetGetAt s i else intsetGetAt s (Suc i))"
    if "i < ?n - 1" for i
    using that pos by (auto simp: nth_append is_vals_def)
  ultimately have "intset_wf (s2\<lparr>is_length := ?n - 1\<rparr>) \<and> is_vals (s2\<lparr>is_length := ?n - 1\<rparr>) = ?vs"
    using e s1 small len pos g1 g2
    by (intro wfI) (auto simp: s2_def is_vals_def intsetGetAt_def get_encoded)
  with run show ?thesis by simp
qed

subsection \<open>Insertion\<close>

text \<open>Placing a value at the position that splits the elements around it.\<close>

lemma sorted_insert_at:
  assumes "sorted_wrt (<) xs" "p \<le> length xs" "\<forall>i < p. xs ! i < v"
    and "\<forall>i < length xs. p \<le> i \<longrightarrow> (v::int) < xs ! i"
  shows "sorted_wrt (<) (take p xs @ v # drop p xs)"
proof -
  have "sorted_wrt (<) (take p xs @ drop p xs)" using assms(1) by simp
  moreover have "\<forall>x \<in> set (take p xs). x < v"
    using assms(2,3) by (auto simp: in_set_conv_nth)
  moreover have "\<forall>x \<in> set (drop p xs). v < x"
    using assms(4) by (auto simp: in_set_conv_nth)
  ultimately show ?thesis unfolding sorted_wrt_append by auto
qed

lemma set_insert_at: "set (take p xs @ v # drop p xs) = insert v (set xs)"
  by (metis Un_insert_right append_take_drop_id list.set(2) set_append)

lemma add_result:
  assumes wf: "intset_wf s" and room: "(is_length s + 1) * 8 < 2 ^ 32"
    and e: "e \<in> {2, 4, 8}" and t: "encoding t = e" "is_length t = is_length s"
      "length (contents t) = (is_length s + 1) * e"
    and p: "p \<le> is_length s" "\<forall>i < p. intsetGetAt s i < v"
      "\<forall>i < is_length s. p \<le> i \<longrightarrow> v < intsetGetAt s i"
    and get: "\<And>i. i < is_length s + 1 \<Longrightarrow> intsetGetAt t i =
      (if i < p then intsetGetAt s i else if i = p then v else intsetGetAt s (i - 1))"
  shows "intset_wf (t\<lparr>is_length := (is_length t + 1) mod 2 ^ 32\<rparr>) \<and>
    is_vals (t\<lparr>is_length := (is_length t + 1) mod 2 ^ 32\<rparr>) = take p (is_vals s) @ v # drop p (is_vals s)"
proof -
  let ?vs = "take p (is_vals s) @ v # drop p (is_vals s)"
  have n: "(is_length t + 1) mod 2 ^ 32 = is_length s + 1" using room t by simp
  have "sorted_wrt (<) ?vs"
    using wf p by (intro sorted_insert_at) (auto simp: intset_wf_def is_vals_def)
  moreover have "?vs ! i =
      (if i < p then intsetGetAt s i else if i = p then v else intsetGetAt s (i - 1))"
    if "i < is_length s + 1" for i
    using that p(1) by (auto simp: nth_append is_vals_def nth_Cons' min_def)
  moreover have "length ?vs = is_length s + 1" using p(1) by (simp add: is_vals_def)
  ultimately show ?thesis
    unfolding n using e t room get
    by (intro wfI) (auto simp: intsetGetAt_def get_encoded)
qed

lemma add_no_upgrade:
  assumes wf: "intset_wf s" and room: "(is_length s + 1) * 8 < 2 ^ 32"
    and v: "in_srange 8 v" "intsetValueEncoding v \<le> encoding s"
    and nf: "intsetSearch s v = (False, pos)"
  shows "fst (intsetAdd s v) \<and> intset_wf (snd (intsetAdd s v)) \<and>
    is_vals (snd (intsetAdd s v)) = take pos (is_vals s) @ v # drop pos (is_vals s)"
proof -
  let ?n = "is_length s" and ?e = "encoding s"
  define s1 where "s1 = intsetResize s (?n + 1)"
  define s2 where "s2 = (if pos < is_length s1 then intsetMoveTail s1 pos (pos + 1) else s1)"
  define s3 where "s3 = intsetSet s2 pos v"
  have e: "?e \<in> {2, 4, 8}" and len: "?n * 8 < 2 ^ 32" and lc: "length (contents s) = ?n * ?e"
    using wf by (simp_all add: intset_wf_def)
  have pos: "pos \<le> ?n" "\<forall>i < pos. intsetGetAt s i < v" "\<forall>i < ?n. pos \<le> i \<longrightarrow> v < intsetGetAt s i"
    using search_spec [OF wf nf] by auto
  have "(?n + 1) * ?e \<le> (?n + 1) * 8" using e by (intro mult_le_mono2) auto
  then have small: "(?n + 1) * ?e < 2 ^ 32" using room by linarith
  have s1: "encoding s1 = ?e" "is_length s1 = ?n" "length (contents s1) = (?n + 1) * ?e"
    using small by (simp_all add: s1_def)
  have g1: "intsetGetAt s1 i = intsetGetAt s i" if "i < ?n" for i
    unfolding s1_def using that e lc small by (intro get_resize) auto
  have e1: "encoding s1 \<in> {2, 4, 8}" and len1: "is_length s1 * 8 < 2 ^ 32" using e len s1 by simp_all
  have le: "?e * k \<le> length (contents s1)" if "k \<le> ?n + 1" for k
    using mult_le_mono2 [OF that, of ?e] s1(3) by (simp add: mult.commute)
  have b1: "encoding s1 * (pos + (is_length s1 - pos)) \<le> length (contents s1)"
    and b2: "encoding s1 * (pos + 1 + (is_length s1 - pos)) \<le> length (contents s1)"
    using le [of ?n] le [of "?n + 1"] pos(1) s1 by simp_all
  have s2: "encoding s2 = ?e" "is_length s2 = ?n" "length (contents s2) = (?n + 1) * ?e"
    using length_move [OF e1 len1 b1 b2] s1 by (simp_all add: s2_def)
  have g2: "intsetGetAt s2 i = (if pos + 1 \<le> i then intsetGetAt s (i - 1) else intsetGetAt s1 i)"
    if "i < ?n + 1" for i
    using that get_move [OF e1 len1 b1 b2, of i] g1 s1(2) pos(1) by (auto simp: s2_def)
  have pc: "encoding s2 * Suc pos \<le> length (contents s2)"
    using le [of "Suc pos"] pos(1) s1 s2 by simp
  have rng: "in_srange (encoding s2) v" using value_encoding_iff [OF e v(1)] v(2) s2 by simp
  have e2: "encoding s2 \<in> {2, 4, 8}" using e s2 by simp
  have s3: "encoding s3 = ?e" "is_length s3 = ?n" "length (contents s3) = (?n + 1) * ?e"
    using length_set [OF e2 pc] s2 by (simp_all add: s3_def)
  have g3: "intsetGetAt s3 i =
      (if i < pos then intsetGetAt s i else if i = pos then v else intsetGetAt s (i - 1))"
    if "i < ?n + 1" for i
    using that g2 g1 pos(1) get_set [OF e2 pc rng] by (auto simp: s3_def)
  have "intsetAdd s v = (True, s3\<lparr>is_length := (is_length s3 + 1) mod 2 ^ 32\<rparr>)"
    using v(2) nf by (simp add: intsetAdd_def s1_def s2_def s3_def Let_def)
  then show ?thesis
    using add_result [OF wf room e s3 pos g3] by simp
qed

text \<open>Widening: the elements are moved from the last to the first, so none is overwritten
  before it is read.\<close>

lemma upgrade_loop_spec:
  assumes "encoding s \<in> {2, 4, 8}" "ce \<in> {2, 4, 8}" "ce \<le> encoding s"
    and "encoding s * (k + p) \<le> length (contents s)"
  shows "encoding (upgrade_loop s p ce k) = encoding s \<and>
    is_length (upgrade_loop s p ce k) = is_length s \<and>
    length (contents (upgrade_loop s p ce k)) = length (contents s) \<and>
    (\<forall>i. intsetGetAt (upgrade_loop s p ce k) i =
       (if p \<le> i \<and> i < k + p then intsetGetEncoded s (i - p) ce else intsetGetAt s i))"
  using assms
proof (induction k arbitrary: s)
  case (Suc k)
  let ?v = "intsetGetEncoded s k ce" and ?e = "encoding s"
  let ?t = "intsetSet s (k + p) ?v"
  have pc: "?e * Suc (k + p) \<le> length (contents s)" using Suc.prems(4) by simp
  have "ce * Suc k \<le> ?e * Suc (k + p)" using Suc.prems(3) by (intro mult_le_mono) auto
  then have "ce * Suc k \<le> length (contents s)" using pc by linarith
  then have rng: "in_srange ?e ?v"
    using encoded_range [OF Suc.prems(2)] Suc.prems(3) srange_mono by blast
  have below: "intsetGetEncoded ?t i ce = intsetGetEncoded s i ce" if "i < k" for i
  proof (rule get_encoded_set_below [OF Suc.prems(1) pc Suc.prems(2)])
    have "ce * i + ce \<le> ce * k" using that by (rule elem_le)
    also have "\<dots> \<le> ?e * (k + p)" using Suc.prems(3) by (intro mult_le_mono) auto
    finally show "ce * i + ce \<le> ?e * (k + p)" .
  qed
  have "?e * (k + p) \<le> length (contents ?t)" using pc length_set [OF Suc.prems(1) pc] by simp
  from Suc.IH [of ?t] this Suc.prems length_set [OF Suc.prems(1) pc]
  have IH: "encoding (upgrade_loop ?t p ce k) = ?e"
    "is_length (upgrade_loop ?t p ce k) = is_length s"
    "length (contents (upgrade_loop ?t p ce k)) = length (contents s)"
    "\<And>i. intsetGetAt (upgrade_loop ?t p ce k) i =
       (if p \<le> i \<and> i < k + p then intsetGetEncoded ?t (i - p) ce else intsetGetAt ?t i)"
    by simp_all
  show ?case
    using IH below get_set [OF Suc.prems(1) pc rng] by (auto simp: not_less less_Suc_eq)
qed simp

lemma add_upgrade:
  assumes wf: "intset_wf s" and room: "(is_length s + 1) * 8 < 2 ^ 32"
    and v: "in_srange 8 v" "encoding s < intsetValueEncoding v"
  shows "fst (intsetAdd s v) \<and> intset_wf (snd (intsetAdd s v)) \<and>
    is_vals (snd (intsetAdd s v)) = (if v < 0 then v # is_vals s else is_vals s @ [v])"
proof -
  let ?n = "is_length s" and ?e = "intsetValueEncoding v"
  define p where "p = (if v < 0 then 1 else 0 :: nat)"
  define s1 where "s1 = intsetResize (s\<lparr>encoding := ?e\<rparr>) (?n + 1)"
  define s2 where "s2 = upgrade_loop s1 p (encoding s) ?n"
  define pos where "pos = (if v < 0 then 0 else ?n)"
  define s3 where "s3 = intsetSet s2 pos v"
  have ce: "encoding s \<in> {2, 4, 8}" and len: "?n * 8 < 2 ^ 32" and lc: "length (contents s) = ?n * encoding s"
    using wf by (simp_all add: intset_wf_def)
  have e: "?e \<in> {2, 4, 8}" by (rule value_encoding_cases)
  have "(?n + 1) * ?e \<le> (?n + 1) * 8" using e by (intro mult_le_mono2) auto
  then have small: "(?n + 1) * ?e < 2 ^ 32" using room by linarith
  have s1: "encoding s1 = ?e" "is_length s1 = ?n" "length (contents s1) = (?n + 1) * ?e"
    using small length_intsetResize [of "?n + 1" "s\<lparr>encoding := ?e\<rparr>"] by (simp_all add: s1_def)
  have g1: "intsetGetEncoded s1 i (encoding s) = intsetGetAt s i" if "i < ?n" for i
  proof -
    have "encoding s * i + encoding s \<le> encoding s * ?n" using that by (rule elem_le)
    moreover have "encoding s * ?n \<le> ?e * (?n + 1)" using v(2) by (intro mult_le_mono) auto
    ultimately show ?thesis
      using ce lc small by (simp add: s1_def intsetResize_def intsetGetAt_def get_encoded mem_simps mult.commute)
  qed
  have "?n + p \<le> ?n + 1" by (simp add: p_def)
  then have "?e * (?n + p) \<le> ?e * (?n + 1)" by (rule mult_le_mono2)
  then have b: "encoding s1 * (?n + p) \<le> length (contents s1)" using s1 by (simp add: mult.commute)
  from upgrade_loop_spec [of s1 "encoding s" ?n p] e ce v(2) b s1
  have s2: "encoding s2 = ?e" "is_length s2 = ?n" "length (contents s2) = (?n + 1) * ?e"
    "\<And>i. intsetGetAt s2 i =
       (if p \<le> i \<and> i < ?n + p then intsetGetEncoded s1 (i - p) (encoding s) else intsetGetAt s1 i)"
    by (simp_all add: s2_def)
  have "Suc pos \<le> ?n + 1" by (simp add: pos_def)
  then have "?e * Suc pos \<le> ?e * (?n + 1)" by (rule mult_le_mono2)
  then have pc: "encoding s2 * Suc pos \<le> length (contents s2)" using s2 by (simp add: mult.commute)
  have e2: "encoding s2 \<in> {2, 4, 8}" using e s2 by simp
  have rng: "in_srange (encoding s2) v" using value_encoding_iff [OF e v(1)] s2 by simp
  have s3: "encoding s3 = ?e" "is_length s3 = ?n" "length (contents s3) = (?n + 1) * ?e"
    using length_set [OF e2 pc] s2 by (simp_all add: s3_def)
  have g3: "intsetGetAt s3 i =
      (if i < pos then intsetGetAt s i else if i = pos then v else intsetGetAt s (i - 1))"
    if "i < ?n + 1" for i
    using that s2(4) g1 get_set [OF e2 pc rng] by (auto simp: s3_def p_def pos_def)
  have out: "\<not> in_srange (encoding s) v" using value_encoding_iff [OF ce v(1)] v(2) by simp
  have "in_srange (encoding s) (intsetGetAt s i)" if "i < ?n" for i
    using vals_in_range [OF wf] that by (auto simp: set_is_vals)
  with out have ord: "if v < 0 then v < intsetGetAt s i else intsetGetAt s i < v" if "i < ?n" for i
    using that by (fastforce simp: in_srange_def split: if_splits)
  have "intsetAdd s v = (True, s3\<lparr>is_length := (is_length s3 + 1) mod 2 ^ 32\<rparr>)"
    using v(2) s2(2)
    by (auto simp: intsetAdd_def intsetUpgradeAndAdd_def s1_def s2_def s3_def p_def pos_def Let_def)
  moreover have "take pos (is_vals s) @ v # drop pos (is_vals s) =
      (if v < 0 then v # is_vals s else is_vals s @ [v])"
    by (simp add: pos_def is_vals_def)
  ultimately show ?thesis
    using add_result [OF wf room e s3 _ _ _ g3] ord by (auto simp: pos_def)
qed

subsection \<open>The contract of the set\<close>

lemma encoding_upgrade_loop [simp]: "encoding (upgrade_loop s p ce k) = encoding s"
  by (induction k arbitrary: s) auto

lemma encoding_add:
  "encoding (snd (intsetAdd s v)) =
     (if fst (intsetAdd s v) then max (encoding s) (intsetValueEncoding v) else encoding s)"
  by (auto simp: intsetAdd_def intsetUpgradeAndAdd_def Let_def split: bool.splits prod.splits)

lemma distinct_is_vals: "intset_wf s \<Longrightarrow> distinct (is_vals s)"
  by (auto simp: intset_wf_def strict_sorted_iff)

lemma length_is_vals [simp]: "length (is_vals s) = is_length s"
  by (simp add: is_vals_def)

lemma card_is_vals: "intset_wf s \<Longrightarrow> card (set (is_vals s)) = is_length s"
  using distinct_card [OF distinct_is_vals] by simp

lemma add_spec:
  assumes "intset_wf s" "is_length s + 1 < 2 ^ 29" "in_srange 8 v"
  shows "intset_wf (snd (intsetAdd s v)) \<and>
    set (is_vals (snd (intsetAdd s v))) = insert v (set (is_vals s)) \<and>
    (fst (intsetAdd s v) \<longleftrightarrow> v \<notin> set (is_vals s))"
proof (cases "encoding s < intsetValueEncoding v")
  case True
  then have "v \<notin> set (is_vals s)"
    using find_iff [OF assms(1,3)] by (auto simp: intsetFind_def)
  with True show ?thesis using add_upgrade [of s v] assms by auto
next
  case False
  obtain found pos where r: "intsetSearch s v = (found, pos)" by fastforce
  show ?thesis
  proof (cases found)
    case True
    with r False have "intsetAdd s v = (False, s)" by (simp add: intsetAdd_def)
    moreover have "v \<in> set (is_vals s)" using search_found_iff [OF assms(1), of v] r True by simp
    ultimately show ?thesis using assms(1) by auto
  next
    case nf: False
    then have "v \<notin> set (is_vals s)" using search_found_iff [OF assms(1), of v] r by simp
    with nf r False show ?thesis
      using add_no_upgrade [of s v pos] assms by (simp add: set_insert_at del: set_append)
  qed
qed

lemma remove_spec:
  assumes "intset_wf s" "in_srange 8 v"
  shows "intset_wf (snd (intsetRemove s v)) \<and>
    set (is_vals (snd (intsetRemove s v))) = set (is_vals s) - {v} \<and>
    (fst (intsetRemove s v) \<longleftrightarrow> v \<in> set (is_vals s))"
proof (cases "intsetFind s v")
  case False
  then have "intsetRemove s v = (False, s)"
    by (auto simp: intsetRemove_def intsetFind_def Let_def split: prod.splits bool.splits)
  with False assms show ?thesis using find_iff by auto
next
  case True
  then obtain pos where r: "intsetSearch s v = (True, pos)" and e: "intsetValueEncoding v \<le> encoding s"
    by (cases "intsetSearch s v") (auto simp: intsetFind_def)
  have pos: "pos < is_length s" "intsetGetAt s pos = v" using search_spec [OF assms(1) r] by simp_all
  then have nth: "is_vals s ! pos = v" "pos < length (is_vals s)" by (simp_all add: is_vals_def)
  have "set (take pos (is_vals s) @ drop (Suc pos) (is_vals s)) = set (is_vals s) - {v}"
  proof -
    have split: "is_vals s = take pos (is_vals s) @ v # drop (Suc pos) (is_vals s)"
      using id_take_nth_drop [OF nth(2)] nth(1) by simp
    have "distinct (take pos (is_vals s) @ v # drop (Suc pos) (is_vals s))"
      by (rule subst [OF split, of distinct]) (rule distinct_is_vals [OF assms(1)])
    then show ?thesis by (subst (3) split) auto
  qed
  with True remove_found [OF assms(1) r e] find_iff [OF assms] show ?thesis by simp
qed

interpretation iset: set_spec intsetNew intsetAdd intsetRemove intsetFind
    "\<lambda>s. set (is_vals s)" intset_wf "in_srange 8" "2 ^ 29 - 1"
proof (unfold_locales, goal_cases)
  case 1 show ?case by (simp add: intset_wf_def intsetNew_def is_vals_def intset_encs)
next
  case 2 show ?case by (simp add: intsetNew_def is_vals_def)
next
  case (4 s x) then show ?case by (rule find_iff)
next
  case (5 s x) then show ?case using add_spec [of s x] by (simp add: card_is_vals)
next
  case (6 s x) then show ?case using add_spec [of s x] by (simp add: card_is_vals)
next
  case (7 s x) then show ?case using add_spec [of s x] by (simp add: card_is_vals)
qed (use remove_spec in auto)

text \<open>
  C37. Inserting a value keeps the set well formed (sorted without duplicates, every element
  of the current width, the blob of the right size), adds exactly this value, reports
  whether it was new, and widens the encoding exactly when the value needs it.
\<close>
theorem intsetAdd_correct:
  assumes "intset_wf s" and "is_length s + 1 < 2 ^ 29" and "in_srange 8 v"
    and "intsetAdd s v = (new, t)"
  shows "intset_wf t \<and> set (is_vals t) = insert v (set (is_vals s)) \<and>
    (new \<longleftrightarrow> v \<notin> set (is_vals s)) \<and>
    encoding t = (if new then max (encoding s) (intsetValueEncoding v) else encoding s)"
  using add_spec [OF assms(1-3)] encoding_add [of s v] assms(4) by simp

theorem intsetAdd_correct_witness:
  "intset_wf intsetNew \<and> intset_wf (snd (intsetAdd intsetNew 70000)) \<and>
   fst (intsetAdd intsetNew 70000) \<and> encoding (snd (intsetAdd intsetNew 70000)) = 4"
proof -
  have v: "in_srange 8 70000" by (simp add: in_srange_def)
  have l: "is_length intsetNew + 1 < 2 ^ 29" by (simp add: intsetNew_def)
  obtain new t where r: "intsetAdd intsetNew 70000 = (new, t)" by fastforce
  from intsetAdd_correct [OF iset.invar_empty l v r] iset.elems_empty r iset.invar_empty
  show ?thesis
    by (simp add: intsetNew_def intsetValueEncoding_def intset_encs int_limits)
qed

text \<open>
  Removing a value keeps the set well formed, removes exactly this value, and reports
  whether it was present.
\<close>
theorem intsetRemove_correct:
  assumes "intset_wf s" and "in_srange 8 v" and "intsetRemove s v = (removed, t)"
  shows "intset_wf t \<and> set (is_vals t) = set (is_vals s) - {v} \<and> (removed \<longleftrightarrow> v \<in> set (is_vals s))"
  using remove_spec [OF assms(1,2)] assms(3) by simp

theorem intsetRemove_correct_witness:
  "intset_wf (snd (intsetAdd intsetNew 5)) \<and>
   (\<exists>t. intsetRemove (snd (intsetAdd intsetNew 5)) 5 = (True, t) \<and> is_vals t = [])"
proof -
  have v: "in_srange 8 5" by (simp add: in_srange_def)
  let ?s = "snd (intsetAdd intsetNew 5)"
  have s: "intset_wf ?s" "set (is_vals ?s) = {5}"
    using iset.invar_add [OF iset.invar_empty v] iset.elems_add [OF iset.invar_empty v] iset.elems_empty
    by simp_all
  obtain removed t where r: "intsetRemove ?s 5 = (removed, t)" by fastforce
  from intsetRemove_correct [OF s(1) v r] s show ?thesis using r by auto
qed

text \<open>
  C27. Adding any list of 64 bit values to the empty set, one after the other, yields the
  sorted list of the distinct values, and the number of successful insertions is the
  number of distinct values; membership is then membership in the list.
\<close>
theorem intset_of_list:
  assumes "\<forall>x \<in> set xs. in_srange 8 x" and "length xs < 2 ^ 29"
    and "iset.add_all intsetNew xs = (n, s)"
  shows "is_vals s = sorted_list_of_set (set xs) \<and> n = card (set xs) \<and>
    (\<forall>v. in_srange 8 v \<longrightarrow> intsetFind s v = (v \<in> set xs))"
proof -
  have s: "intset_wf s" "set (is_vals s) = set xs" "n = card (set xs)"
    using iset.add_all_spec [OF iset.invar_empty assms(1) _ assms(3)] assms(2) iset.elems_empty
    by auto
  have "is_vals s = sorted_list_of_set (set (is_vals s))"
    using s(1) by (intro strict_sorted_equal) (auto simp: intset_wf_def)
  with s find_iff [OF s(1)] show ?thesis by simp
qed

theorem intset_of_list_witness:
  "is_vals (snd (iset.add_all intsetNew [70000, - 3, 5, - 3])) = [- 3, 5, 70000]"
proof -
  have r: "\<forall>x \<in> set [70000, - 3, 5, - 3]. in_srange 8 x" by (simp add: in_srange_def)
  obtain n s where a: "iset.add_all intsetNew [70000, - 3, 5, - 3] = (n, s)" by fastforce
  have "sorted_list_of_set (set [70000, - 3, 5, - 3]) = [- 3, 5, 70000 :: int]"
    by (simp only: sorted_list_of_set_sort_remdups) simp
  with intset_of_list [OF r _ a] a show ?thesis by simp
qed

end
