(* ===== verification/Util.thy ===== *)
theory Util
  imports Prelude
begin

text \<open>
  The number conversions of \<open>src/src/src/util.c\<close>: memory sizes (\<open>memtoll\<close>), the number of
  decimal digits (\<open>digits10\<close>), the integer printer (\<open>ll2string\<close>) and the strict integer parsers
  (\<open>string2ll\<close>, \<open>string2l\<close>). A C string is the list of its bytes without the terminating NUL;
  the output buffer of the printer is a block of memory. Printer and parser are shown to
  be inverse to each other and the parser to accept exactly the canonical decimals of the
  64 bit range.
\<close>

definition LLONG_MAX :: int where
  "LLONG_MAX = 9223372036854775807"

definition LLONG_MIN :: int where
  "LLONG_MIN = - 9223372036854775808"

definition ULLONG_MAX :: nat where
  "ULLONG_MAX = 18446744073709551615"

subsection \<open>Memory sizes\<close>

definition tolower_b :: "byte \<Rightarrow> byte" where
  "tolower_b c = (if 65 \<le> c \<and> c \<le> 90 then c + 32 else c)"

definition strcaseeq :: "bytes \<Rightarrow> bytes \<Rightarrow> bool" where
  "strcaseeq a b \<longleftrightarrow> map tolower_b a = map tolower_b b"

text \<open>\<open>strtoll\<close> of the C library in base 10, on input that starts with a digit or a minus sign:
  the value, saturated at the ends of the range, and the unread rest. Without a digit
  nothing is read and the value is 0.\<close>

definition strtoll10 :: "bytes \<Rightarrow> int \<times> bytes" where
  "strtoll10 s =
     (let neg = (s \<noteq> [] \<and> hd s = 45);
          p = (if neg then tl s else s);
          ds = takeWhile is_digit p;
          v = int (dec_val 0 ds);
          sv = (if neg then - v else v)
      in if ds = [] then (0, s)
         else (max LLONG_MIN (min LLONG_MAX sv), dropWhile is_digit p))"

definition memtoll_unit :: "bytes \<Rightarrow> int option" where
  "memtoll_unit u =
     (if u = [] \<or> strcaseeq u (map of_char ''b'') then Some 1
      else if strcaseeq u (map of_char ''k'') then Some 1000
      else if strcaseeq u (map of_char ''kb'') then Some 1024
      else if strcaseeq u (map of_char ''m'') then Some (1000 * 1000)
      else if strcaseeq u (map of_char ''mb'') then Some (1024 * 1024)
      else if strcaseeq u (map of_char ''g'') then Some (1000 * 1000 * 1000)
      else if strcaseeq u (map of_char ''gb'') then Some (1024 * 1024 * 1024)
      else None)"

text \<open>\<open>None\<close> is the error return (\<open>*err = 1\<close> and the value 0). The product is a signed
  64 bit multiplication, which the compiled code lets wrap.\<close>

definition memtoll :: "bytes \<Rightarrow> int option" where
  "memtoll p =
     (let sgn = (if p \<noteq> [] \<and> hd p = 45 then 1 else 0);
          digits = sgn + length (takeWhile is_digit (drop sgn p))
      in case memtoll_unit (drop digits p) of
           None \<Rightarrow> None
         | Some mul \<Rightarrow>
             if digits \<ge> 128 then None
             else (case strtoll10 (take digits p) of
                     (val, rest) \<Rightarrow> if rest \<noteq> [] then None else Some (wrap_s64 (val * mul))))"

subsection \<open>Decimal digits\<close>

fun digits10 :: "nat \<Rightarrow> nat" where
  "digits10 v =
     (if v < 10 then 1
      else if v < 100 then 2
      else if v < 1000 then 3
      else if v < 1000000000000 then
        (if v < 100000000 then
           (if v < 1000000 then
              (if v < 10000 then 4 else 5 + (if v \<ge> 100000 then 1 else 0))
            else 7 + (if v \<ge> 10000000 then 1 else 0))
         else if v < 10000000000 then 9 + (if v \<ge> 1000000000 then 1 else 0)
         else 11 + (if v \<ge> 100000000000 then 1 else 0))
      else 12 + digits10 (v div 1000000000000))"

declare digits10.simps [simp del]

subsection \<open>Printing\<close>

definition digit_pairs :: bytes where
  "digit_pairs = map of_char (
     ''0001020304050607080910111213141516171819'' @
     ''2021222324252627282930313233343536373839'' @
     ''4041424344454647484950515253545556575859'' @
     ''6061626364656667686970717273747576777879'' @
     ''8081828384858687888990919293949596979899'')"

fun ll2s_loop :: "bytes \<Rightarrow> nat \<Rightarrow> nat \<Rightarrow> bytes \<times> nat \<times> nat" where
  "ll2s_loop dst next value =
     (if value \<ge> 100 then
        let i = (value mod 100) * 2;
            dst1 = dst[next := digit_pairs ! (i + 1)];
            dst2 = dst1[next - 1 := digit_pairs ! i]
        in ll2s_loop dst2 (next - 2) (value div 100)
      else (dst, next, value))"

declare ll2s_loop.simps [simp del]

text \<open>The handling of the last one or two digits.\<close>

definition ll2s_last :: "bytes \<times> nat \<times> nat \<Rightarrow> bytes" where
  "ll2s_last s =
     (case s of (dst, next, value) \<Rightarrow>
        if value < 10 then dst[next := digit value]
        else let i = value * 2
             in (dst[next := digit_pairs ! (i + 1)])[next - 1 := digit_pairs ! i])"

definition ll2string :: "bytes \<Rightarrow> nat \<Rightarrow> int \<Rightarrow> nat \<times> bytes" where
  "ll2string dst dstlen svalue =
     (let value = (if svalue < 0
                   then (if svalue \<noteq> LLONG_MIN then nat (- svalue) else nat LLONG_MAX + 1)
                   else nat svalue);
          negative = (if svalue < 0 then 1 else 0);
          len = digits10 value + negative
      in if len \<ge> dstlen then (0, dst)
         else
           let dst1 = dst[len := 0];
               dst2 = ll2s_last (ll2s_loop dst1 (len - 1) value);
               dst3 = (if negative = 1 then dst2[0 := 45] else dst2)
           in (len, dst3))"

subsection \<open>Parsing\<close>

fun s2ll_loop :: "nat \<Rightarrow> bytes \<Rightarrow> (nat \<times> bytes) option" where
  "s2ll_loop v [] = Some (v, [])"
| "s2ll_loop v (c # p) =
     (if is_digit c then
        if v > ULLONG_MAX div 10 then None
        else let v1 = v * 10
             in if v1 > ULLONG_MAX - (unat c - 48) then None
                else s2ll_loop (v1 + (unat c - 48)) p
      else Some (v, c # p))"

definition string2ll :: "bytes \<Rightarrow> int option" where
  "string2ll s =
     (if s = [] then None
      else if s = [48] then Some 0
      else
        let negative = (hd s = 45);
            p = (if negative then tl s else s)
        in case p of
             [] \<Rightarrow> None
           | c # cs \<Rightarrow>
               if 49 \<le> c \<and> c \<le> 57 then
                 (case s2ll_loop (unat c - 48) cs of
                    None \<Rightarrow> None
                  | Some (v, rest) \<Rightarrow>
                      if rest \<noteq> [] then None
                      else if negative then
                        (if v > nat (- (LLONG_MIN + 1)) + 1 then None else Some (- int v))
                      else if v > nat LLONG_MAX then None
                      else Some (int v))
               else if c = 48 \<and> length s = 1 then Some 0
               else None)"

text \<open>\<open>PORT_LONG\<close> is \<open>__int64\<close> in the 64 bit build and \<open>long\<close> (32 bits) in the 32 bit build.\<close>

definition string2l :: "bool \<Rightarrow> bytes \<Rightarrow> int option" where
  "string2l win64 s =
     (case string2ll s of
        None \<Rightarrow> None
      | Some ll \<Rightarrow>
          let lmin = (if win64 then LLONG_MIN else - 2147483648);
              lmax = (if win64 then LLONG_MAX else 2147483647)
          in if ll < lmin \<or> ll > lmax then None else Some ll)"

subsection \<open>The number of digits\<close>

lemma length_dec_nat_shift:
  "10 ^ k \<le> v \<Longrightarrow> length (dec_nat v) = k + length (dec_nat (v div 10 ^ k))"
proof (induction k arbitrary: v)
  case (Suc k)
  have "10 ^ 1 \<le> (10::nat) ^ Suc k" by (rule power_increasing) auto
  with Suc.prems have "10 \<le> v" by (metis le_trans power_one_right)
  moreover from Suc.prems have "10 ^ k \<le> v div 10" by simp
  ultimately show ?case using Suc.IH [of "v div 10"] by (simp add: dec_nat_big div_mult2_eq)
qed simp

lemma digits10_length: "digits10 v = length (dec_nat v)"
proof (induction v rule: digits10.induct)
  case (1 v)
  have l: "length (dec_nat v) = k" if "10 ^ (k - 1) \<le> v" "v < 10 ^ k" "0 < k" for k
    using that by (intro length_dec_nat) auto
  show ?case
  proof (cases "v < 1000000000000")
    case True
    show ?thesis
      apply (subst digits10.simps)
      using True dec_nat_small [of v] l [of 2] l [of 3] l [of 4] l [of 5] l [of 6] l [of 7] l [of 8] l [of 9]
        l [of 10] l [of 11] l [of 12]
      by (simp split: if_splits)
  next
    case False
    then show ?thesis
      using "1" length_dec_nat_shift [of 12 v] by (subst digits10.simps) simp
  qed
qed


text \<open>
  \<open>digits10\<close> computes the length of the decimal representation of every value, which is what
  \<open>ll2string\<close> relies on to place the digits.
\<close>
theorem digits10_correct: "digits10 v = length (dec_nat v)"
  by (rule digits10_length)

subsection \<open>Correctness of the printer\<close>

lemma digit_pairs_table:
  "digit_pairs = concat (map (\<lambda>i. [digit (i div 10), digit (i mod 10)]) [0..<100])"
  by (simp add: digit_pairs_def digit_def upt_conv_Cons)

lemma nth_concat_pairs:
  "i < n \<Longrightarrow> concat (map (\<lambda>i. [f i, g i]) [0..<n]) ! (i * 2) = f i \<and>
   concat (map (\<lambda>i. [f i, g i]) [0..<n]) ! (i * 2 + 1) = g i"
proof (induction n)
  case (Suc n)
  have "length (concat (map (\<lambda>i. [f i, g i]) [0..<n])) = n * 2" by (induction n) auto
  with Suc show ?case by (cases "i = n") (auto simp: nth_append)
qed simp

lemma digit_pairs_nth:
  assumes "i < 100"
  shows "digit_pairs ! (i * 2) = digit (i div 10)"
    and "digit_pairs ! (i * 2 + 1) = digit (i mod 10)"
    and "digit_pairs ! Suc (i * 2) = digit (i mod 10)"
  using nth_concat_pairs [OF assms, of "\<lambda>i. digit (i div 10)" "\<lambda>i. digit (i mod 10)"]
  by (simp_all add: digit_pairs_table)

lemma dec_nat_two:
  "10 \<le> v \<Longrightarrow> v < 100 \<Longrightarrow> dec_nat v = [digit (v div 10), digit (v mod 10)]"
  by (simp add: dec_nat_big dec_nat_small)

lemma dec_nat_hundred:
  assumes "100 \<le> v"
  shows "dec_nat v = dec_nat (v div 100) @ [digit (v mod 100 div 10), digit (v mod 100 mod 10)]"
proof -
  have "dec_nat v = dec_nat (v div 10 div 10) @ [digit (v div 10 mod 10), digit (v mod 10)]"
    using assms by (simp add: dec_nat_big)
  moreover have "v mod 100 = 10 * (v div 10 mod 10) + v mod 10"
    using mod_mult2_eq [of v 10 10] by simp
  then have "v div 10 mod 10 = v mod 100 div 10" "v mod 100 mod 10 = v mod 10" by simp_all
  ultimately show ?thesis by (simp add: div_mult2_eq [symmetric])
qed

lemma update_two_splice: "Suc m < length xs \<Longrightarrow> xs[Suc m := b, m := a] = splice m [a, b] xs"
  using splice_splice_adjacent [of m "[a]" xs "[b]"]
  by (simp add: list_update_splice mem_simps)

lemma ll2s_digits:
  "off + length (dec_nat v) \<le> length dst \<Longrightarrow> next = off + length (dec_nat v) - 1 \<Longrightarrow>
   ll2s_last (ll2s_loop dst next v) = splice off (dec_nat v) dst"
proof (induction dst "next" v rule: ll2s_loop.induct)
  case (1 dst "next" v)
  show ?case
  proof (cases "100 \<le> v")
    case True
    let ?q = "dec_nat (v div 100)" and ?ab = "[digit (v mod 100 div 10), digit (v mod 100 mod 10)]"
    have d: "dec_nat v = ?q @ ?ab" using True by (rule dec_nat_hundred)
    have q: "0 < length ?q" by simp
    let ?dst = "splice (next - 1) ?ab dst"
    have "next = Suc (off + length ?q)" "next < length dst" using "1.prems" d by simp_all
    then have u: "(dst[next := digit_pairs ! (v mod 100 * 2 + 1)])
        [next - 1 := digit_pairs ! (v mod 100 * 2)] = ?dst"
      using digit_pairs_nth [of "v mod 100"] by (simp add: update_two_splice)
    have len: "length ?dst = length dst"
      using \<open>next < length dst\<close> \<open>next = Suc _\<close> by (simp add: mem_simps)
    have "ll2s_last (ll2s_loop ?dst (next - 2) (v div 100)) = splice off ?q ?dst"
      using "1.IH" [OF True refl refl refl] u len "1.prems" d q
      by (simp add: Let_def)
    also have "\<dots> = splice off (?q @ ?ab) dst"
      using splice_splice_adjacent [of off ?q dst ?ab] \<open>next = Suc _\<close> \<open>next < length dst\<close> by simp
    finally show ?thesis
      using True u d by (subst ll2s_loop.simps) (simp add: Let_def)
  next
    case False
    then have l: "ll2s_loop dst next v = (dst, next, v)" by (subst ll2s_loop.simps) simp
    show ?thesis
    proof (cases "v < 10")
      case True
      with "1.prems" l show ?thesis
        by (simp add: ll2s_last_def dec_nat_small list_update_splice)
    next
      case big: False
      with False have d: "dec_nat v = [digit (v div 10), digit (v mod 10)]"
        by (intro dec_nat_two) auto
      with "1.prems" have "next = Suc off" "next < length dst" by simp_all
      with l d big False digit_pairs_nth [of v] show ?thesis
        by (simp add: ll2s_last_def Let_def update_two_splice)
    qed
  qed
qed

lemma splice_then_before:
  "off + length ys \<le> n \<Longrightarrow> n < length xs \<Longrightarrow> splice off ys (xs[n := a]) = (splice off ys xs)[n := a]"
  by (rule nth_equalityI) (auto simp: mem_simps nth_splice nth_list_update)

lemma splice_head: "length ys < length xs \<Longrightarrow> (splice 1 ys xs)[0 := a] = splice 0 (a # ys) xs"
  by (cases xs) (simp_all add: splice_def)

lemma length_dec_nat_le: "n < 10 ^ k \<Longrightarrow> 0 < k \<Longrightarrow> length (dec_nat n) \<le> k"
proof (induction k arbitrary: n)
  case (Suc k)
  show ?case
  proof (cases "n < 10")
    case False
    with Suc.prems have "n div 10 < 10 ^ k" by auto
    moreover from this False have "0 < k" by (cases k) auto
    ultimately show ?thesis using Suc.IH [of "n div 10"] False by (simp add: dec_nat_big)
  qed (simp add: dec_nat_small)
qed simp

lemma ll2string_splice:
  assumes "in_srange 8 v" and "dstlen \<le> length dst"
  shows "ll2string dst dstlen v =
    (if length (dec_int v) < dstlen
     then (length (dec_int v), splice 0 (dec_int v @ [0]) dst)
     else (0, dst))"
proof -
  define u where "u = nat \<bar>v\<bar>"
  define neg where "neg = (if v < 0 then 1 else 0 :: nat)"
  have val: "(if v < 0 then (if v \<noteq> LLONG_MIN then nat (- v) else nat LLONG_MAX + 1) else nat v) = u"
    by (simp add: u_def LLONG_MIN_def LLONG_MAX_def)
  have dec: "dec_int v = (if v < 0 then [45] else []) @ dec_nat u"
    by (simp add: dec_int_def u_def)
  have len: "digits10 u + neg = length (dec_int v)"
    by (simp add: digits10_length dec neg_def)
  let ?n = "length (dec_int v)"
  let ?w = "ll2s_last (ll2s_loop (dst[?n := 0]) (?n - 1) u)"
  have "neg = 1 \<longleftrightarrow> v < 0" by (simp add: neg_def)
  then have run: "ll2string dst dstlen v =
      (if ?n \<ge> dstlen then (0, dst) else (?n, if v < 0 then ?w[0 := 45] else ?w))"
    by (simp only: ll2string_def val Let_def neg_def [symmetric] len)
  have n: "neg + length (dec_nat u) = ?n" by (simp add: dec neg_def)
  have "(if v < 0 then ?w[0 := 45] else ?w) = splice 0 (dec_int v @ [0]) dst" if fits: "?n < dstlen"
  proof -
    have "?w = splice neg (dec_nat u) (dst[?n := 0])"
      using fits assms(2) n by (intro ll2s_digits) auto
    also have "\<dots> = splice neg (dec_nat u @ [0]) dst"
      using splice_splice_adjacent [of neg "dec_nat u" dst "[0]"] fits assms(2) n
      by (simp add: list_update_splice)
    finally show ?thesis
      using fits assms(2) n splice_head [of "dec_nat u @ [0]" dst 45]
      by (cases "v < 0") (simp_all add: dec neg_def)
  qed
  with run show ?thesis by (simp add: not_le)
qed

lemma ll2string_small:
  assumes "in_srange 8 v" "21 < n" "n \<le> length dst"
  shows "ll2string dst n v = (length (dec_int v), splice 0 (dec_int v @ [0]) dst)"
proof -
  have "\<bar>v\<bar> < 10 ^ 19" using assms(1) by (auto simp: in_srange_def)
  then have "nat \<bar>v\<bar> < 10 ^ 19" by (simp add: nat_less_iff)
  then have "length (dec_nat (nat \<bar>v\<bar>)) \<le> 19" by (rule length_dec_nat_le) simp
  then have "length (dec_int v) \<le> 20" by (cases "v < 0") (simp_all add: dec_int_def)
  with assms show ?thesis by (simp add: ll2string_splice)
qed

text \<open>
  The integer printer writes exactly the decimal notation of its argument followed by a
  NUL byte at the start of the buffer and returns its length; when the buffer is too
  small it returns 0 and does not touch the buffer. Every value of the 64 bit range is
  covered, the smallest one included.
\<close>
theorem ll2string_correct:
  assumes "in_srange 8 v" and "dstlen \<le> length dst"
  shows "ll2string dst dstlen v =
    (if length (dec_int v) < dstlen
     then (length (dec_int v), splice 0 (dec_int v @ [0]) dst)
     else (0, dst))"
  using assms by (rule ll2string_splice)

theorem ll2string_correct_witness:
  "in_srange 8 (- 9223372036854775808) \<and>
   ll2string (replicate 21 1) 21 (- 9223372036854775808) =
     (20, splice 0 (dec_int (- 9223372036854775808) @ [0]) (replicate 21 1))"
proof -
  have r: "in_srange 8 (- 9223372036854775808)" by (simp add: in_srange_def)
  have "length (dec_int (- 9223372036854775808)) = 20"
    by (simp add: dec_int_def digits10_length [symmetric] digits10.simps)
  with r ll2string_correct [OF r, of 21 "replicate 21 1"] show ?thesis by simp
qed

subsection \<open>Correctness of the parser\<close>

lemma s2ll_loop_Some:
  "s2ll_loop v p = Some (r, []) \<longleftrightarrow>
     (\<forall>c \<in> set p. is_digit c) \<and> r = dec_val v p \<and> (p = [] \<or> r \<le> ULLONG_MAX)"
proof (induction p arbitrary: v)
  case (Cons c p)
  show ?case
  proof (cases "is_digit c")
    case True
    let ?v = "v * 10 + (unat c - 48)"
    have d: "unat c - 48 < 10" using True by (rule digit_lt)
    have ge: "?v \<le> dec_val ?v p" by (rule dec_val_ge)
    have fits: "\<not> v > ULLONG_MAX div 10 \<and> \<not> v * 10 > ULLONG_MAX - (unat c - 48) \<longleftrightarrow> ?v \<le> ULLONG_MAX"
      using d unfolding ULLONG_MAX_def by arith
    have step: "s2ll_loop v (c # p) = (if ?v \<le> ULLONG_MAX then s2ll_loop ?v p else None)"
      using True fits by (auto simp: Let_def)
    show ?thesis
    proof (cases "?v \<le> ULLONG_MAX")
      case True
      with step Cons.IH [of ?v] \<open>is_digit c\<close> show ?thesis by auto
    next
      case False
      with step ge show ?thesis by auto
    qed
  qed simp
qed auto

lemma digit_1_9: "49 \<le> c \<and> c \<le> 57 \<longleftrightarrow> is_digit c \<and> c \<noteq> (48 :: byte)"
  by (auto simp: is_digit_def word_le_nat_alt word_unat_eq_iff)

lemma digits_split:
  "0 < n \<and> p = dec_nat n \<longleftrightarrow>
   (\<exists>c cs. p = c # cs \<and> 49 \<le> c \<and> c \<le> 57 \<and> (\<forall>d \<in> set cs. is_digit d) \<and> n = dec_val (unat c - 48) cs)"
    (is "?L \<longleftrightarrow> ?R")
proof
  assume L: ?L
  then obtain c cs where c: "p = c # cs" "is_digit c" "c \<noteq> 48" "\<forall>d \<in> set cs. is_digit d"
    using dec_nat_Cons [of n] by auto
  moreover from L c(1) have "n = dec_val 0 (c # cs)"
    using dec_val_dec_nat [of n] by metis
  ultimately show ?R using digit_1_9 by auto
next
  assume ?R
  then obtain c cs where c: "p = c # cs" "is_digit c" "c \<noteq> 48" "\<forall>d \<in> set cs. is_digit d"
      "n = dec_val (unat c - 48) cs"
    using digit_1_9 by blast
  have "unat c \<noteq> 48" using c(3) by (simp add: word_unat_eq_iff)
  with c(2) have "0 < unat c - 48" unfolding is_digit_unat by arith
  with dec_val_ge [of "unat c - 48" cs] c(5) have "0 < n" by simp
  with dec_nat_dec_val [OF c(2-4)] c(1,5) show ?L by simp
qed

lemma dec_nat_hd_not_minus: "dec_nat n \<noteq> 45 # p"
  using dec_nat_digits [of 45 n] by (auto simp: is_digit_def)

lemma string2ll_body:
  assumes "s \<noteq> []" "s \<noteq> [48]"
  shows "string2ll s = Some v \<longleftrightarrow>
    (\<exists>n. 0 < n \<and> (if hd s = 45 then tl s = dec_nat n \<and> n \<le> 2 ^ 63 \<and> v = - int n
                  else s = dec_nat n \<and> n < 2 ^ 63 \<and> v = int n))"
proof -
  define p where "p = (if hd s = 45 then tl s else s)"
  have lim: "nat (- (LLONG_MIN + 1)) + 1 = 2 ^ 63" "nat LLONG_MAX = 2 ^ 63 - 1"
    by (simp_all add: LLONG_MIN_def LLONG_MAX_def)
  have small: "n \<le> 2 ^ 63 \<Longrightarrow> n \<le> ULLONG_MAX" for n by (simp add: ULLONG_MAX_def)
  have parse: "string2ll s = (case p of [] \<Rightarrow> None | c # cs \<Rightarrow>
      if 49 \<le> c \<and> c \<le> 57 then
        (case s2ll_loop (unat c - 48) cs of None \<Rightarrow> None
         | Some (r, rest) \<Rightarrow> if rest \<noteq> [] then None
             else if hd s = 45 then (if r > 2 ^ 63 then None else Some (- int r))
             else if r > 2 ^ 63 - 1 then None else Some (int r))
      else None)"
    using assms unfolding string2ll_def p_def [symmetric] lim Let_def
    by (auto simp: p_def split: list.splits)
  have "string2ll s = Some v \<longleftrightarrow>
    (\<exists>c cs. p = c # cs \<and> 49 \<le> c \<and> c \<le> 57 \<and>
      (\<exists>r. s2ll_loop (unat c - 48) cs = Some (r, []) \<and>
        (if hd s = 45 then r \<le> 2 ^ 63 \<and> v = - int r else r < 2 ^ 63 \<and> v = int r)))"
    unfolding parse by (auto split: list.splits option.splits if_splits)
  also have "\<dots> \<longleftrightarrow> (\<exists>n. (0 < n \<and> p = dec_nat n) \<and>
        (if hd s = 45 then n \<le> 2 ^ 63 \<and> v = - int n else n < 2 ^ 63 \<and> v = int n))"
    unfolding digits_split s2ll_loop_Some using small by (fastforce split: if_splits)
  finally show ?thesis by (auto simp: p_def)
qed

lemma string2ll_iff: "string2ll s = Some v \<longleftrightarrow> in_srange 8 v \<and> s = dec_int v"
proof (cases "s = [] \<or> s = [48]")
  case True
  have "dec_int v = [48] \<longleftrightarrow> v = 0"
  proof
    assume a: "dec_int v = [48]"
    then have "dec_nat (nat v) = [48]" "\<not> v < 0" by (auto simp: dec_int_def split: if_splits)
    then show "v = 0" using dec_val_dec_nat [of "nat v"] by simp
  qed (simp add: dec_int_def dec_nat_small digit_def)
  moreover have "dec_int v \<noteq> []" by (simp add: dec_int_def)
  ultimately show ?thesis using True by (auto simp: string2ll_def in_srange_def)
next
  case False
  have z: "v \<noteq> 0" if "s = dec_int v" using False that by (auto simp: dec_int_def dec_nat_small digit_def)
  show ?thesis
  proof (cases "hd s = 45")
    case True
    with False obtain p where s: "s = 45 # p" by (cases s) auto
    have "string2ll s = Some v \<longleftrightarrow> (\<exists>n. 0 < n \<and> p = dec_nat n \<and> n \<le> 2 ^ 63 \<and> v = - int n)"
      using False s string2ll_body [of s v] by auto
    also have "\<dots> \<longleftrightarrow> v < 0 \<and> - (2 ^ 63) \<le> v \<and> p = dec_nat (nat (- v))"
      by (auto intro!: exI [of _ "nat (- v)"])
    also have "\<dots> \<longleftrightarrow> in_srange 8 v \<and> s = dec_int v"
      using s dec_nat_hd_not_minus [of "nat v" p, THEN not_sym] by (auto simp: in_srange_def dec_int_def)
    finally show ?thesis .
  next
    case f: False
    have "string2ll s = Some v \<longleftrightarrow> (\<exists>n. 0 < n \<and> s = dec_nat n \<and> n < 2 ^ 63 \<and> v = int n)"
      using False f string2ll_body [of s v] by auto
    also have "\<dots> \<longleftrightarrow> 0 < v \<and> v < 2 ^ 63 \<and> s = dec_nat (nat v)"
      by (auto intro!: exI [of _ "nat v"])
    also have "\<dots> \<longleftrightarrow> in_srange 8 v \<and> s = dec_int v"
    proof (cases "0 < v")
      case True
      then show ?thesis by (simp add: in_srange_def dec_int_def)
    next
      case False
      with f z have "s \<noteq> dec_int v" by (cases "v < 0") (auto simp: dec_int_def)
      with False show ?thesis by simp
    qed
    finally show ?thesis .
  qed
qed

text \<open>
  The strict parser accepts a string if and only if it is the canonical decimal notation
  of a 64 bit integer (no leading zero, no plus sign, no blank, no minus zero), and then
  returns that integer: it is the exact inverse of the printer.
\<close>
theorem string2ll_canonical: "string2ll s = Some v \<longleftrightarrow> in_srange 8 v \<and> s = dec_int v"
  by (rule string2ll_iff)

lemma string2ll_dec_int: "in_srange 8 v \<Longrightarrow> string2ll (dec_int v) = Some v"
  by (simp add: string2ll_iff)

lemma string2l_win64 [simp]: "string2l True s = string2ll s"
proof (cases "string2ll s")
  case (Some v)
  then have "in_srange 8 v" by (simp add: string2ll_iff)
  with Some show ?thesis by (simp add: string2l_def in_srange_def LLONG_MIN_def LLONG_MAX_def)
qed (simp add: string2l_def)

subsection \<open>Memory sizes\<close>

lemma tolower_b_digit: "is_digit c \<Longrightarrow> tolower_b c = c"
  by (auto simp: tolower_b_def is_digit_def word_le_nat_alt)

lemma memtoll_unit_no_digit:
  assumes "memtoll_unit u = Some mul" "u \<noteq> []"
  shows "\<not> is_digit (hd u)"
proof
  assume d: "is_digit (hd u)"
  have "\<exists>t \<in> set [''b'', ''k'', ''kb'', ''m'', ''mb'', ''g'', ''gb'']. strcaseeq u (map of_char t)"
  proof (rule ccontr)
    assume "\<not> ?thesis"
    with assms show False by (simp add: memtoll_unit_def)
  qed
  then obtain t where t: "t \<in> set [''b'', ''k'', ''kb'', ''m'', ''mb'', ''g'', ''gb'']"
    and e: "strcaseeq u (map of_char t)" by (rule bexE)
  from e have u: "map tolower_b u = map tolower_b (map of_char t)" by (simp only: strcaseeq_def)
  from assms(2) u have "tolower_b (hd u) = tolower_b (of_char (hd t))" by (cases u; cases t) auto
  with d have "is_digit (tolower_b (of_char (hd t)))" by (simp add: tolower_b_digit)
  with t show False by (auto simp: is_digit_def tolower_b_def)
qed

lemma takeWhile_dec_nat:
  assumes "u = [] \<or> \<not> is_digit (hd u)"
  shows "takeWhile is_digit (dec_nat n @ u) = dec_nat n"
proof -
  have "takeWhile is_digit u = []" using assms by (cases u) auto
  then show ?thesis using dec_nat_digits by (subst takeWhile_append2) auto
qed

lemma dec_nat_takeWhile [simp]: "takeWhile is_digit (dec_nat n) = dec_nat n"
  using takeWhile_dec_nat [of "[]" n] by simp

lemma dec_nat_dropWhile [simp]: "dropWhile is_digit (dec_nat n) = []"
  using dec_nat_digits by (simp add: dropWhile_eq_Nil_conv)

lemma dec_nat_hd [simp]: "hd (dec_nat n) \<noteq> 45"
  using dec_nat_hd_not_minus [of n] by (cases "dec_nat n") (use dec_nat_nonempty in auto)

lemma strtoll10_dec_int: "in_srange 8 v \<Longrightarrow> strtoll10 (dec_int v) = (v, [])"
  by (auto simp: strtoll10_def dec_int_def Let_def dec_val_dec_nat in_srange_def
      LLONG_MAX_def LLONG_MIN_def dest: dec_nat_digits)

text \<open>
  A memory size written as a decimal 64 bit integer followed by one of the units \<open>b\<close>,
  \<open>k\<close>, \<open>kb\<close>, \<open>m\<close>, \<open>mb\<close>, \<open>g\<close>, \<open>gb\<close> (in any case, or no unit) is read as the product of the two,
  reduced to 64 bits: the multiplication is not checked for overflow.
\<close>
theorem memtoll_correct:
  assumes "in_srange 8 v" and "memtoll_unit u = Some mul"
  shows "memtoll (dec_int v @ u) = Some (wrap_s64 (v * mul))"
proof -
  have u: "u = [] \<or> \<not> is_digit (hd u)" using memtoll_unit_no_digit assms(2) by blast
  have "\<bar>v\<bar> < 10 ^ 19" using assms(1) by (auto simp: in_srange_def)
  then have "nat \<bar>v\<bar> < 10 ^ 19" by (simp add: nat_less_iff)
  then have len: "length (dec_nat (nat \<bar>v\<bar>)) \<le> 19" by (rule length_dec_nat_le) simp
  define sgn where "sgn = (if v < 0 then 1 else 0 :: nat)"
  have d: "dec_int v = replicate sgn 45 @ dec_nat (nat \<bar>v\<bar>)" by (simp add: dec_int_def sgn_def)
  have s1: "(if dec_int v @ u \<noteq> [] \<and> hd (dec_int v @ u) = 45 then 1 else 0) = sgn"
    by (simp add: dec_int_def sgn_def)
  have s2: "sgn + length (takeWhile is_digit (drop sgn (dec_int v @ u))) = length (dec_int v)"
    by (simp add: d takeWhile_dec_nat [OF u])
  have "length (dec_int v) < 128" using len by (cases "v < 0") (simp_all add: d sgn_def)
  then show ?thesis
    unfolding memtoll_def Let_def s1 s2 by (simp add: assms(2) strtoll10_dec_int [OF assms(1)])
qed

theorem memtoll_correct_witness:
  "in_srange 8 8589934592 \<and> memtoll_unit (map of_char ''GB'') = Some 1073741824 \<and>
   memtoll (dec_int 8589934592 @ map of_char ''GB'') = Some (- 9223372036854775808)"
proof -
  have r: "in_srange 8 8589934592" by (simp add: in_srange_def)
  have u: "memtoll_unit (map of_char ''GB'') = Some 1073741824"
    by (simp add: memtoll_unit_def strcaseeq_def tolower_b_def)
  have "wrap_s64 (8589934592 * 1073741824) = - 9223372036854775808"
    by (simp add: wrap_s64_def sext_def)
  with r u memtoll_correct [OF r u] show ?thesis by simp
qed

end
