(* ===== verification/Glob.thy ===== *)
theory Glob
  imports Util
begin

text \<open>
  The glob matcher \<open>stringmatchlen\<close> of \<open>src/src/src/util.c\<close>, which the server uses for
  \<open>KEYS\<close>, \<open>SCAN ... MATCH\<close>, \<open>PSUBSCRIBE\<close> and \<open>CONFIG GET\<close>. The two pointers of the C code
  are positions in the pattern and in the string; both buffers end with a NUL byte that
  the code may read (\<open>rd\<close>). \<open>None\<close> stands for an access or a pointer beyond that NUL byte,
  which is undefined behaviour. On patterns without classes and NUL bytes the matcher is shown to
  decide the usual meaning of globs; classes and NUL bytes at the ends break it.
\<close>

definition rd :: "bytes \<Rightarrow> nat \<Rightarrow> byte option" where
  "rd xs k = (if k < length xs then Some (xs ! k) else if k = length xs then Some 0 else None)"

text \<open>\<open>string++; stringLen--\<close>\<close>

definition adv :: "bytes \<Rightarrow> nat \<Rightarrow> nat option" where
  "adv s j = (if j \<le> length s then Some (Suc j) else None)"

text \<open>\<open>tolower\<close> of a \<open>char\<close>, which is signed.\<close>

definition tolower_i :: "int \<Rightarrow> int" where
  "tolower_i c = (if 65 \<le> c \<and> c \<le> 90 then c + 32 else c)"

definition ch_eq :: "bool \<Rightarrow> byte \<Rightarrow> byte \<Rightarrow> bool" where
  "ch_eq nocase a b \<longleftrightarrow>
     (if \<not> nocase then a = b else tolower_i (sint a) = tolower_i (sint b))"

text \<open>\<open>c >= start && c <= end\<close> after the swap and the case folding of the code.\<close>

definition in_range_ch :: "bool \<Rightarrow> byte \<Rightarrow> byte \<Rightarrow> byte \<Rightarrow> bool" where
  "in_range_ch nocase a b x \<longleftrightarrow>
     (let start = sint a; end' = sint b; c = sint x;
          (start, end') = (if start > end' then (end', start) else (start, end'));
          (start, end', c) =
            (if nocase then (tolower_i start, tolower_i end', tolower_i c) else (start, end', c))
      in c \<ge> start \<and> c \<le> end')"

text \<open>The loop over a character class, from the byte after \<open>[\<close> or \<open>[^\<close>.\<close>

function class_loop :: "bytes \<Rightarrow> bytes \<Rightarrow> bool \<Rightarrow> nat \<Rightarrow> nat \<Rightarrow> bool \<Rightarrow> (nat \<times> bool) option" where
  "class_loop p s nocase i j mt =
     (case rd p i of
        None \<Rightarrow> None
      | Some c \<Rightarrow>
          if c = 92 then
            (case (rd p (i + 1), rd s j) of
               (Some c1, Some x) \<Rightarrow> class_loop p s nocase (i + 2) j (mt \<or> c1 = x)
             | _ \<Rightarrow> None)
          else if c = 93 then Some (i, mt)
          else if i = length p then Some (i - 1, mt)
          else
            (case (rd p (i + 1), rd s j) of
               (Some c1, Some x) \<Rightarrow>
                 if c1 = 45 \<and> length p - i \<ge> 3 then
                   (case rd p (i + 2) of
                      None \<Rightarrow> None
                    | Some c2 \<Rightarrow> class_loop p s nocase (i + 3) j (mt \<or> in_range_ch nocase c c2 x))
                 else class_loop p s nocase (i + 1) j (mt \<or> ch_eq nocase c x)
             | _ \<Rightarrow> None))"
  by pat_completeness auto
termination
  by (relation "measure (\<lambda>(p, s, nocase, i, j, mt). length p + 1 - i)")
    (auto simp: rd_def split: if_splits)

declare class_loop.simps [simp del]

lemma class_loop_ge: "class_loop p s nocase i j mt = Some (k, mt') \<Longrightarrow> i \<le> k + 1"
proof (induction p s nocase i j mt rule: class_loop.induct)
  case (1 p s nocase i j mt)
  note run = "1.prems" [unfolded class_loop.simps [of p s nocase i j mt]]
  then obtain c where c: "rd p i = Some c" by (auto split: option.splits)
  show ?case
  proof (cases "c = 92 \<or> c = 93 \<or> i = length p")
    case True
    with run c show ?thesis by (auto split: option.splits if_splits dest!: "1.IH"(1) [OF c])
  next
    case False
    with run c obtain c1 x where rds: "rd p (i + 1) = Some c1" "rd s j = Some x"
      by (auto split: option.splits)
    show ?thesis
    proof (cases "c1 = 45 \<and> length p - i \<ge> 3")
      case True
      with run c False rds show ?thesis
        using "1.IH"(2) [OF c _ _ _ refl rds] by (auto split: option.splits)
    next
      case no_range: False
      with run c False rds show ?thesis
        using "1.IH"(3) [OF c _ _ _ refl rds] by (auto split: option.splits)
    qed
  qed
qed

text \<open>\<open>while (pattern[1] == '*')\<close> and \<open>while (*pattern == '*')\<close>\<close>

function skip_stars :: "bytes \<Rightarrow> nat \<Rightarrow> nat" where
  "skip_stars p i = (if i < length p \<and> p ! i = 42 then skip_stars p (Suc i) else i)"
  by pat_completeness auto
termination
  by (relation "measure (\<lambda>(p, i). length p - i)") auto

declare skip_stars.simps [simp del]

lemma skip_stars_ge: "i \<le> skip_stars p i"
proof (induction p i rule: skip_stars.induct)
  case (1 p i)
  then show ?case by (subst skip_stars.simps) auto
qed

text \<open>
  The matcher from pattern position \<open>i\<close> and string position \<open>j\<close>; \<open>star_loop\<close> is its inner loop
  that tries the rest of the pattern on every suffix of the string. \<open>patternLen\<close> and
  \<open>stringLen\<close> are the distances to the two ends; the string position may be one beyond the
  NUL byte (\<open>stringLen = -1\<close>).
\<close>

function match_at :: "bytes \<Rightarrow> bytes \<Rightarrow> bool \<Rightarrow> nat \<Rightarrow> nat \<Rightarrow> bool option"
  and match_next :: "bytes \<Rightarrow> bytes \<Rightarrow> bool \<Rightarrow> nat \<Rightarrow> nat \<Rightarrow> bool option"
  and star_loop :: "bytes \<Rightarrow> bytes \<Rightarrow> bool \<Rightarrow> nat \<Rightarrow> nat \<Rightarrow> bool option"
where
  "match_at p s nocase i j =
     (if i = length p then Some (j = length s)
      else case rd p i of
        None \<Rightarrow> None
      | Some c \<Rightarrow>
          if c = 42 then
            (let k = skip_stars p (i + 1) in
               if k = length p then Some True else star_loop p s nocase k j)
          else if c = 63 then
            (if j = length s then Some False
             else case adv s j of None \<Rightarrow> None | Some j' \<Rightarrow> match_next p s nocase i j')
          else if c = 91 then
            (case rd p (i + 1) of
               None \<Rightarrow> None
             | Some c1 \<Rightarrow>
                 let neg = (c1 = 94) in
                   (case class_loop p s nocase (if neg then i + 2 else i + 1) j False of
                      None \<Rightarrow> None
                    | Some (k, mt) \<Rightarrow>
                        if neg = mt then Some False
                        else case adv s j of
                               None \<Rightarrow> None
                             | Some j' \<Rightarrow> match_next p s nocase k j'))
          else
            (let k = (if c = 92 \<and> length p - i \<ge> 2 then i + 1 else i) in
               case (rd p k, rd s j) of
                 (Some a, Some b) \<Rightarrow>
                   if \<not> ch_eq nocase a b then Some False
                   else (case adv s j of None \<Rightarrow> None | Some j' \<Rightarrow> match_next p s nocase k j')
               | _ \<Rightarrow> None))"
| "match_next p s nocase i j =
     (if i > length p then None
      else if j = length s then Some (skip_stars p (i + 1) = length p)
      else match_at p s nocase (i + 1) j)"
| "star_loop p s nocase k j =
     (if j = length s then Some False
      else case match_at p s nocase k j of
             None \<Rightarrow> None
           | Some True \<Rightarrow> Some True
           | Some False \<Rightarrow>
               (case adv s j of None \<Rightarrow> None | Some j' \<Rightarrow> star_loop p s nocase k j'))"
  by pat_completeness auto
termination
proof (relation "measures
    [\<lambda>x. case x of Inl (p, s, nocase, i, j) \<Rightarrow> 3 * (length p + 1 - i) + 1
       | Inr (Inl (p, s, nocase, i, j)) \<Rightarrow> 3 * (length p + 1 - i)
       | Inr (Inr (p, s, nocase, k, j)) \<Rightarrow> 3 * (length p + 1 - k) + 2,
     \<lambda>x. case x of Inr (Inr (p, s, nocase, k, j)) \<Rightarrow> length s + 2 - j | _ \<Rightarrow> 0]",
   goal_cases)
  case 1 show ?case by simp
next
  case (2 p s nocase i j)
  then show ?case using skip_stars_ge [of "i + 1" p] by (auto simp: rd_def split: if_splits)
next
  case (4 p s nocase i j)
  then show ?case by (auto simp: rd_def split: if_splits dest!: class_loop_ge)
qed (auto simp: rd_def adv_def split: if_splits)

declare match_at.simps [simp del] match_next.simps [simp del] star_loop.simps [simp del]

definition stringmatchlen :: "bytes \<Rightarrow> bytes \<Rightarrow> bool \<Rightarrow> bool option" where
  "stringmatchlen p s nocase = match_at p s nocase 0 0"

subsection \<open>The meaning of globs\<close>

text \<open>The meaning of a pattern without classes: stars, question marks and literal bytes, where a
  backslash takes the next byte literally, or itself at the end. \<open>class_free\<close>: no \<open>[\<close> that is not
  escaped; \<open>gmatch\<close> is the set of strings a pattern stands for.\<close>

datatype glob = Star | Any | Lit byte

definition glob1 :: "byte \<Rightarrow> glob" where
  "glob1 c = (if c = 42 then Star else if c = 63 then Any else Lit c)"

fun glob_of :: "bytes \<Rightarrow> glob list" where
  "glob_of [] = []"
| "glob_of [c] = [glob1 c]"
| "glob_of (c # d # p) = (if c = 92 then Lit d # glob_of p else glob1 c # glob_of (d # p))"

fun class_free :: "bytes \<Rightarrow> bool" where
  "class_free [] \<longleftrightarrow> True"
| "class_free [c] \<longleftrightarrow> c \<noteq> 91"
| "class_free (c # d # p) \<longleftrightarrow> (if c = 92 then class_free p else c \<noteq> 91 \<and> class_free (d # p))"

fun gmatch :: "bool \<Rightarrow> glob list \<Rightarrow> bytes \<Rightarrow> bool" where
  "gmatch nc [] s = (s = [])"
| "gmatch nc (Star # gs) [] = gmatch nc gs []"
| "gmatch nc (Star # gs) (c # s) = (gmatch nc gs (c # s) \<or> gmatch nc (Star # gs) s)"
| "gmatch nc (Any # gs) s = (case s of [] \<Rightarrow> False | c # s' \<Rightarrow> gmatch nc gs s')"
| "gmatch nc (Lit x # gs) s = (case s of [] \<Rightarrow> False | c # s' \<Rightarrow> ch_eq nc x c \<and> gmatch nc gs s')"

lemma glob_of_Cons: "c \<noteq> 92 \<Longrightarrow> glob_of (c # p) = glob1 c # glob_of p"
  by (cases p) simp_all

lemma class_free_Cons: "c \<noteq> 92 \<Longrightarrow> class_free (c # p) \<longleftrightarrow> c \<noteq> 91 \<and> class_free p"
  by (cases p) simp_all

lemma gmatch_star: "gmatch nc (Star # gs) s \<longleftrightarrow> (\<exists>k \<le> length s. gmatch nc gs (drop k s))"
proof (induction s)
  case (Cons c s)
  have "(\<exists>k \<le> Suc (length s). gmatch nc gs (drop k (c # s))) \<longleftrightarrow>
      gmatch nc gs (c # s) \<or> (\<exists>k \<le> length s. gmatch nc gs (drop k s))"
    by (metis Suc_le_mono drop0 drop_Suc_Cons le0 not0_implies_Suc)
  with Cons show ?case by simp
qed simp

lemma gmatch_star_star: "gmatch nc (Star # Star # gs) s = gmatch nc (Star # gs) s"
  by (induction s) auto

lemma gmatch_stars: "gmatch nc (replicate (Suc k) Star @ gs) s = gmatch nc (Star # gs) s"
  by (induction k) (use gmatch_star_star in auto)

text \<open>The run of stars at the head of a pattern, and what follows it.\<close>

definition stars :: "bytes \<Rightarrow> nat" where
  "stars p = length (takeWhile (\<lambda>c. c = 42) p)"

lemma stars_split: "p = replicate (stars p) 42 @ drop (stars p) p"
proof (induction p)
  case (Cons c p)
  then show ?case by (cases "c = 42") (auto simp: stars_def)
qed (simp add: stars_def)

lemma drop_stars_hd: "drop (stars p) p = [] \<or> hd (drop (stars p) p) \<noteq> 42"
  using hd_dropWhile [of "\<lambda>c. c = 42" p] by (auto simp: stars_def dropWhile_eq_drop)

lemma stars_le: "stars p \<le> length p"
  by (simp add: stars_def length_takeWhile_le)

lemma skip_stars_run:
  "q = [] \<or> hd q \<noteq> 42 \<Longrightarrow> skip_stars (p @ replicate k 42 @ q) (length p) = length p + k"
proof (induction k arbitrary: p)
  case 0
  then show ?case by (cases q) (subst skip_stars.simps, auto simp: nth_append)+
next
  case (Suc k)
  have "skip_stars ((p @ [42]) @ replicate k 42 @ q) (length (p @ [42])) = length (p @ [42]) + k"
    using Suc by blast
  then show ?case by (subst skip_stars.simps) (simp add: nth_append)
qed

lemma skip_stars_at: "skip_stars (q @ p) (length q) = length q + stars p"
  using skip_stars_run [OF drop_stars_hd, of q "stars p" p] stars_split [of p] by simp

lemma glob_of_stars: "glob_of (replicate n 42 @ p) = replicate n Star @ glob_of p"
  by (induction n) (simp_all add: glob_of_Cons glob1_def)

lemma class_free_stars: "class_free (replicate n 42 @ p) = class_free p"
  by (induction n) (simp_all add: class_free_Cons)

lemma gmatch_empty: "gmatch nc (glob_of p) [] \<longleftrightarrow> stars p = length p"
proof (induction p rule: glob_of.induct)
  case (3 c d p)
  then show ?case using stars_le [of "d # p"] by (cases "c = 42") (auto simp: stars_def glob1_def)
qed (auto simp: stars_def glob1_def)

lemma ch_eq_nul: "c \<noteq> 0 \<Longrightarrow> \<not> ch_eq nc c 0"
proof
  assume c: "c \<noteq> 0" and e: "ch_eq nc c 0"
  have "sint c \<noteq> 0"
  proof
    assume "sint c = 0"
    then have "word_of_int (sint c) = (0 :: byte)" by simp
    with c show False by simp
  qed
  with e c show False by (auto simp: ch_eq_def tolower_i_def split: if_splits)
qed

text \<open>What the matcher does from the pattern position \<open>length q\<close>, for the rest \<open>p\<close> of the pattern.\<close>

definition decides :: "bytes \<Rightarrow> bool \<Rightarrow> bytes \<Rightarrow> bool" where
  "decides s nc p \<longleftrightarrow>
     (\<forall>q j. j \<le> length s \<longrightarrow> match_at (q @ p) s nc (length q) j = Some (gmatch nc (glob_of p) (drop j s)))"

lemma match_next_at:
  assumes "decides s nc p" "j \<le> length s" "Suc i = length q"
  shows "match_next (q @ p) s nc i j = Some (gmatch nc (glob_of p) (drop j s))"
proof (cases "j = length s")
  case True
  with assms(3) show ?thesis
    using skip_stars_at [of q p] by (subst match_next.simps) (simp add: gmatch_empty)
next
  case False
  with assms show ?thesis by (subst match_next.simps) (simp add: decides_def)
qed

lemma star_loop_at:
  assumes "decides s nc p" "j \<le> length s"
  shows "star_loop (q @ p) s nc (length q) j =
    Some (\<exists>k. j \<le> k \<and> k < length s \<and> gmatch nc (glob_of p) (drop k s))"
  using assms(2)
proof (induction "length s - j" arbitrary: j)
  case 0
  then show ?case by (subst star_loop.simps) auto
next
  case (Suc d)
  then have j: "j < length s" by linarith
  have IH: "match_at (q @ p) s nc (length q) j = Some (gmatch nc (glob_of p) (drop j s))"
    using assms(1) j by (simp add: decides_def)
  have next': "star_loop (q @ p) s nc (length q) (Suc j) =
      Some (\<exists>k. Suc j \<le> k \<and> k < length s \<and> gmatch nc (glob_of p) (drop k s))"
    using Suc by (intro Suc.hyps(1)) auto
  show ?case
  proof (cases "gmatch nc (glob_of p) (drop j s)")
    case True
    with j IH show ?thesis by (subst star_loop.simps) auto
  next
    case False
    then have "(\<exists>k. Suc j \<le> k \<and> k < length s \<and> gmatch nc (glob_of p) (drop k s)) \<longleftrightarrow>
        (\<exists>k. j \<le> k \<and> k < length s \<and> gmatch nc (glob_of p) (drop k s))"
      by (metis Suc_leD le_antisym not_less_eq_eq)
    with False j IH next' show ?thesis by (subst star_loop.simps) (simp add: adv_def)
  qed
qed

lemma drop_one: "j < length s \<Longrightarrow> drop j s = s ! j # drop (Suc j) s"
  by (simp add: Cons_nth_drop_Suc)

lemma decides_any:
  assumes "decides s nc p"
  shows "decides s nc (63 # p)"
  unfolding decides_def
proof (intro allI impI)
  fix q j
  assume j: "j \<le> length s"
  have "match_next ((q @ [63]) @ p) s nc (length q) (Suc j) = Some (gmatch nc (glob_of p) (drop (Suc j) s))" if "j < length s"
    using that by (intro match_next_at [OF assms]) simp_all
  moreover have "rd (q @ 63 # p) (length q) = Some 63" by (simp add: rd_def)
  ultimately show "match_at (q @ 63 # p) s nc (length q) j = Some (gmatch nc (glob_of (63 # p)) (drop j s))"
    using j by (subst match_at.simps) (auto simp: adv_def glob_of_Cons glob1_def drop_one split: list.split)
qed

text \<open>A literal byte \<open>x\<close>, written as \<open>u\<close>.\<close>

lemma decides_lit:
  assumes "decides s nc p" "x \<noteq> 0" "glob_of (u @ p) = Lit x # glob_of p"
    "u = [x] \<and> x \<notin> {42, 63, 91} \<and> (x = 92 \<longrightarrow> p = []) \<or> u = [92, x]"
  shows "decides s nc (u @ p)"
  unfolding decides_def
proof (intro allI impI)
  fix q j
  assume j: "j \<le> length s"
  let ?P = "q @ u @ p"
  define k where "k = length q + length u - 1"
  have k: "Suc k = length (q @ u)" "rd ?P k = Some x" "length ?P \<noteq> length q"
    using assms(4) by (auto simp: k_def rd_def nth_append)
  have st: "match_at ?P s nc (length q) j =
      (case rd s j of None \<Rightarrow> None | Some b \<Rightarrow>
         if \<not> ch_eq nc x b then Some False
         else case adv s j of None \<Rightarrow> None | Some j' \<Rightarrow> match_next ?P s nc k j')"
  proof (cases "u = [92, x]")
    case True
    then have "rd ?P (length q) = Some 92" "length ?P - length q \<ge> 2" "k = Suc (length q)"
      by (simp_all add: rd_def k_def)
    then show ?thesis using k by (subst match_at.simps) (simp add: Let_def split: option.splits)
  next
    case False
    then have u: "u = [x]" "x \<notin> {42, 63, 91}" "x = 92 \<longrightarrow> p = []" using assms(4) by auto
    have r: "rd (q @ [x] @ p) (length q) = Some x" and kq: "k = length q" by (simp_all add: rd_def k_def u(1))
    have "match_at (q @ [x] @ p) s nc (length q) j =
      (case rd s j of None \<Rightarrow> None | Some b \<Rightarrow>
         if \<not> ch_eq nc x b then Some False
         else case adv s j of None \<Rightarrow> None | Some j' \<Rightarrow> match_next (q @ [x] @ p) s nc (length q) j')"
      using r u(2,3) by (cases "x = 92"; subst match_at.simps) (simp_all add: Let_def split: option.splits)
    then show ?thesis by (simp only: u(1) kq)
  qed
  show "match_at ?P s nc (length q) j = Some (gmatch nc (glob_of (u @ p)) (drop j s))"
  proof (cases "j = length s")
    case True
    with st assms(2,3) show ?thesis by (simp add: rd_def ch_eq_nul)
  next
    case False
    with j have l: "j < length s" by simp
    have "match_next ((q @ u) @ p) s nc k (Suc j) = Some (gmatch nc (glob_of p) (drop (Suc j) s))"
      by (rule match_next_at [OF assms(1) _ k(1)]) (use l in simp)
    with st l assms(3) show ?thesis by (simp add: rd_def adv_def drop_one)
  qed
qed

lemma decides_star:
  assumes "stars p = length p \<or> decides s nc (drop (stars p) p)"
  shows "decides s nc (42 # p)"
  unfolding decides_def
proof (intro allI impI)
  fix q j
  assume j: "j \<le> length s"
  let ?n = "stars p" and ?r = "drop (stars p) p" and ?P = "q @ 42 # p"
  let ?q = "q @ 42 # replicate ?n 42"
  have rd42: "rd ?P (length q) = Some 42" "length ?P \<noteq> length q" by (simp_all add: rd_def)
  have skip: "skip_stars ?P (Suc (length q)) = length ?q" using skip_stars_at [of "q @ [42]" p] by simp
  have p: "p = replicate ?n 42 @ ?r" by (rule stars_split)
  have "glob_of (42 # p) = replicate (Suc ?n) Star @ glob_of ?r"
    using glob_of_stars [of "Suc ?n" ?r] p by simp
  then have gm: "gmatch nc (glob_of (42 # p)) t = gmatch nc (Star # glob_of ?r) t" for t
    using gmatch_stars by metis
  show "match_at ?P s nc (length q) j = Some (gmatch nc (glob_of (42 # p)) (drop j s))"
  proof (cases "?n = length p")
    case True
    then have "length ?q = length ?P" by simp
    moreover have "gmatch nc (Star # glob_of ?r) (drop j s)" using True by (auto simp: gmatch_star)
    ultimately show ?thesis using rd42 skip gm by (subst match_at.simps) simp
  next
    case False
    then have ne: "?r \<noteq> []" using stars_le [of p] by simp
    have PP: "?P = ?q @ ?r" using p by simp
    have nl: "length ?q \<noteq> length ?P" using ne unfolding PP by simp
    have "stars ?r = 0" using drop_stars_hd [of p] ne by (cases ?r) (simp_all add: stars_def)
    then have nomatch: "\<not> gmatch nc (glob_of ?r) []" using ne by (simp add: gmatch_empty)
    have "decides s nc ?r" using assms False by simp
    then have "star_loop (?q @ ?r) s nc (length ?q) j =
        Some (\<exists>k. j \<le> k \<and> k < length s \<and> gmatch nc (glob_of ?r) (drop k s))"
      by (rule star_loop_at [OF _ j])
    also have "(\<exists>k. j \<le> k \<and> k < length s \<and> gmatch nc (glob_of ?r) (drop k s)) \<longleftrightarrow>
        gmatch nc (Star # glob_of ?r) (drop j s)"
    proof
      assume "\<exists>k. j \<le> k \<and> k < length s \<and> gmatch nc (glob_of ?r) (drop k s)"
      then obtain k where "j \<le> k" "k < length s" "gmatch nc (glob_of ?r) (drop (k - j) (drop j s))" by auto
      then show "gmatch nc (Star # glob_of ?r) (drop j s)"
        unfolding gmatch_star by (intro exI [of _ "k - j"]) auto
    next
      assume "gmatch nc (Star # glob_of ?r) (drop j s)"
      then obtain k where "k \<le> length (drop j s)" "gmatch nc (glob_of ?r) (drop (k + j) s)"
        unfolding gmatch_star by auto
      moreover from this nomatch have "k + j < length s" by (metis drop_all not_le)
      ultimately show "\<exists>k. j \<le> k \<and> k < length s \<and> gmatch nc (glob_of ?r) (drop k s)"
        by (intro exI [of _ "k + j"]) auto
    qed
    finally show ?thesis using rd42 skip nl gm PP by (subst match_at.simps) simp
  qed
qed

lemma class_free_decides: "class_free p \<Longrightarrow> 0 \<notin> set p \<Longrightarrow> decides s nc p"
proof (induction p rule: length_induct)
  case (1 p)
  have IH: "decides s nc r" if "length r < length p" "class_free r" "set r \<subseteq> set p" for r
    using "1.IH" "1.prems"(2) that by blast
  show ?case
  proof (cases p)
    case Nil
    then show ?thesis by (auto simp: decides_def match_at.simps)
  next
    case (Cons c p')
    consider "c = 42" | "c = 63" | d r where "c = 92" "p' = d # r" | "c = 92" "p' = []" | "c \<notin> {42, 63, 92}"
      by (cases p') auto
    then show ?thesis
    proof cases
      case 1
      have cf: "class_free p'" using "1.prems"(1) Cons 1 by (simp add: class_free_Cons)
      have "class_free (drop (stars p') p')"
        using cf class_free_stars [of "stars p'" "drop (stars p') p'"] stars_split [of p'] by simp
      then have "decides s nc (drop (stars p') p')"
        using Cons by (intro IH) (auto dest: in_set_dropD)
      then show ?thesis unfolding Cons 1 by (intro decides_star) simp
    next
      case 2
      have "decides s nc p'" using "1.prems"(1) Cons 2 by (intro IH) (auto simp: class_free_Cons)
      then show ?thesis unfolding Cons 2 by (rule decides_any)
    next
      case 3
      have "decides s nc r" using "1.prems"(1) Cons 3 by (intro IH) auto
      then have "decides s nc ([92, d] @ r)"
        by (rule decides_lit) (use "1.prems"(2) Cons 3 in auto)
      then show ?thesis by (simp add: Cons 3)
    next
      case 4
      have "decides s nc []" using Cons by (intro IH) auto
      then have "decides s nc ([92] @ [])"
        by (rule decides_lit [where x = 92]) (simp_all add: glob1_def)
      then show ?thesis by (simp add: Cons 4)
    next
      case 5
      have "decides s nc p'" using "1.prems"(1) Cons 5 by (intro IH) (auto simp: class_free_Cons)
      then have "decides s nc ([c] @ p')"
        by (rule decides_lit [where x = c])
          (use "1.prems" Cons 5 in \<open>auto simp: glob_of_Cons class_free_Cons glob1_def\<close>)
      then show ?thesis by (simp add: Cons)
    qed
  qed
qed

text \<open>
  C35. On every pattern without a class (no \<open>[\<close> that is not escaped) and without a NUL byte, and
  every string, the matcher returns, stays inside both buffers, and answers exactly whether the
  string belongs to the language of the pattern, with and without case folding.
\<close>
theorem stringmatchlen_correct:
  assumes "class_free p" "0 \<notin> set p"
  shows "stringmatchlen p s nocase = Some (gmatch nocase (glob_of p) s)"
  using class_free_decides [OF assms, of s nocase] unfolding decides_def stringmatchlen_def
  by (metis append_Nil drop0 le0 list.size(3))

text \<open>The pattern \<open>a*?\*\<close>, and a string that matches it only without regard to case.\<close>

theorem stringmatchlen_correct_witness:
  "stringmatchlen [97, 42, 63, 92, 42] [65, 98, 99, 42] True = Some True \<and>
   stringmatchlen [97, 42, 63, 92, 42] [65, 98, 99, 42] False = Some False"
proof -
  have "class_free [97, 42, 63, 92, 42]" "0 \<notin> set ([97, 42, 63, 92, 42] :: bytes)" by simp_all
  from stringmatchlen_correct [OF this, of "[65, 98, 99, 42]"] show ?thesis
    by (simp add: glob1_def ch_eq_def tolower_i_def)
qed

text \<open>
  A NUL byte in the pattern breaks it: it equals the terminator of the string, so that the pattern
  of a NUL byte and a star matches the empty string.
\<close>
theorem stringmatchlen_nul:
  "stringmatchlen [0, 42] [] nocase = Some True \<and> \<not> gmatch nocase (glob_of [0, 42]) []"
proof -
  have "skip_stars [0, 42] (Suc (Suc 0)) = 2" by (subst skip_stars.simps) simp
  then have "stringmatchlen [0, 42] [] nocase = Some True"
    unfolding stringmatchlen_def
    by (simp add: match_at.simps [of _ _ _ 0] match_at.simps [of _ _ _ "Suc 0"] match_next.simps rd_def adv_def ch_eq_def)
  then show ?thesis by (simp add: glob1_def)
qed

text \<open>
  Classes break the matcher at its ends. The pattern \<open>[^a]*\<close> matches the empty string,
  although a class stands for exactly one byte, because the string length is decremented
  below zero and a trailing star accepts anything; and a pattern that ends inside a class
  after a backslash is read beyond its terminating NUL byte, whatever the string is.
\<close>
theorem stringmatchlen_class_ends:
  "stringmatchlen [91, 94, 97, 93, 42] [] nocase = Some True \<and>
   stringmatchlen [91, 92] s nocase = None"
proof
  have "class_loop [91, 94, 97, 93, 42] [] nocase (Suc (Suc 0)) 0 False = Some (3, False)"
    by (simp add: class_loop.simps rd_def ch_eq_def tolower_i_def)
  moreover have "skip_stars [91, 94, 97, 93, 42] 5 = 5" by (subst skip_stars.simps) simp
  ultimately show "stringmatchlen [91, 94, 97, 93, 42] [] nocase = Some True"
    unfolding stringmatchlen_def
    by (simp add: match_at.simps [of _ _ _ 0] match_at.simps [of _ _ _ 4] match_next.simps rd_def adv_def)
next
  have "class_loop [91, 92] s nocase 1 0 False = None"
    by (simp add: class_loop.simps [of _ _ _ "Suc 0"] class_loop.simps [of _ _ _ "Suc (Suc (Suc 0))"] rd_def split: option.splits)
  then show "stringmatchlen [91, 92] s nocase = None"
    unfolding stringmatchlen_def by (subst match_at.simps) (simp add: rd_def)
qed

end
