(* ===== verification/Clib.thy ===== *)
theory Clib
  imports Util
begin

text \<open>
  The C library functions the server relies on, in the \<open>"C"\<close> locale the server starts in.
  A C string in a buffer ends at the first NUL byte.
\<close>

definition cstr :: "bytes \<Rightarrow> bytes" where
  "cstr s = takeWhile (\<lambda>c. c \<noteq> 0) s"

definition isspace :: "byte \<Rightarrow> bool" where
  "isspace c \<longleftrightarrow> c = 32 \<or> (9 \<le> c \<and> c \<le> 13)"

definition isprint :: "byte \<Rightarrow> bool" where
  "isprint c \<longleftrightarrow> 32 \<le> c \<and> c \<le> 126"

definition toupper_b :: "byte \<Rightarrow> byte" where
  "toupper_b c = (if 97 \<le> c \<and> c \<le> 122 then c - 32 else c)"

text \<open>\<open>strchr\<close> finds the terminating NUL of the set, too.\<close>

definition strchr_found :: "bytes \<Rightarrow> byte \<Rightarrow> bool" where
  "strchr_found cset c \<longleftrightarrow> c = 0 \<or> c \<in> set (cstr cset)"

text \<open>\<open>memcmp\<close> on the first \<open>n\<close> bytes; only the sign of the result is specified.\<close>

fun memcmp :: "bytes \<Rightarrow> bytes \<Rightarrow> nat \<Rightarrow> int" where
  "memcmp a b 0 = 0"
| "memcmp (x # a) (y # b) (Suc n) = (if x < y then -1 else if y < x then 1 else memcmp a b n)"
| "memcmp a b n = 0"

text \<open>The order of byte strings: the first difference decides, and a proper prefix is smaller.\<close>

fun bytes_cmp :: "bytes \<Rightarrow> bytes \<Rightarrow> int" where
  "bytes_cmp [] [] = 0"
| "bytes_cmp [] (y # b) = -1"
| "bytes_cmp (x # a) [] = 1"
| "bytes_cmp (x # a) (y # b) = (if x < y then -1 else if y < x then 1 else bytes_cmp a b)"

lemma bytes_cmp_0_iff: "bytes_cmp a b = 0 \<longleftrightarrow> a = b"
  by (induction a b rule: bytes_cmp.induct) auto

lemma bytes_cmp_antisym: "bytes_cmp a b = - bytes_cmp b a"
  by (induction a b rule: bytes_cmp.induct) auto

lemma bytes_cmp_less_trans: "bytes_cmp a b < 0 \<Longrightarrow> bytes_cmp b c < 0 \<Longrightarrow> bytes_cmp a c < 0"
proof (induction a b arbitrary: c rule: bytes_cmp.induct)
  case (2 y b)
  then show ?case by (cases c) auto
next
  case (4 x a y b)
  then show ?case by (cases c) (auto split: if_splits)
qed auto

text \<open>The comparison of two counted strings: \<open>memcmp\<close> on the common length, then the lengths.\<close>

lemma memcmp_prefix:
  "sgn (if memcmp a b (min (length a) (length b)) = 0 then int (length a) - int (length b)
        else memcmp a b (min (length a) (length b))) = bytes_cmp a b"
  by (induction a b rule: bytes_cmp.induct) auto

lemma memcmp_eq_0: "n \<le> length a \<Longrightarrow> n \<le> length b \<Longrightarrow> memcmp a b n = 0 \<longleftrightarrow> take n a = take n b"
  by (induction a b n rule: memcmp.induct) auto

text \<open>\<open>strtoll(s, &endptr, 10)\<close> in full: leading white space, one optional sign, digits; the
  value saturates and \<open>ERANGE\<close> is reported. Without digits the end pointer is the start.\<close>

definition strtoll_full :: "bytes \<Rightarrow> int \<times> bytes \<times> bool" where
  "strtoll_full s =
     (let p = dropWhile isspace s;
          neg = (p \<noteq> [] \<and> hd p = 45);
          q = (if p \<noteq> [] \<and> (hd p = 45 \<or> hd p = 43) then tl p else p);
          ds = takeWhile is_digit q;
          v = int (dec_val 0 ds);
          sv = (if neg then - v else v)
      in if ds = [] then (0, s, False)
         else (max LLONG_MIN (min LLONG_MAX sv), dropWhile is_digit q, sv < LLONG_MIN \<or> sv > LLONG_MAX))"

lemma isspace_cases: "isspace c \<longleftrightarrow> unat c = 32 \<or> (9 \<le> unat c \<and> unat c \<le> 13)"
  by (simp add: isspace_def word_le_nat_alt word_unat_eq_iff)

lemma is_digit_not_space: "is_digit c \<Longrightarrow> \<not> isspace c"
  unfolding isspace_cases is_digit_unat by linarith

lemma is_digit_not_sign: "is_digit c \<Longrightarrow> c \<noteq> 45 \<and> c \<noteq> 43 \<and> c \<noteq> 0"
  by (auto simp: is_digit_unat)

lemma dec_int_head: "\<exists>c cs. dec_int v = c # cs \<and> \<not> isspace c \<and> c \<noteq> 43"
proof (cases "v < 0")
  case True
  then show ?thesis by (simp add: dec_int_def isspace_def)
next
  case False
  obtain c cs where "dec_nat (nat v) = c # cs" by (cases "dec_nat (nat v)") auto
  moreover from this have "is_digit c" using dec_nat_digits [of c "nat v"] by simp
  ultimately show ?thesis using False is_digit_not_space is_digit_not_sign by (simp add: dec_int_def)
qed

lemma strtoll_full_dec_int: "in_srange 8 v \<Longrightarrow> strtoll_full (dec_int v) = (v, [], False)"
proof -
  assume v: "in_srange 8 v"
  obtain c cs where c: "dec_int v = c # cs" "\<not> isspace c" "c \<noteq> 43"
    using dec_int_head by blast
  have ds: "dropWhile isspace (dec_int v) = dec_int v" using c by simp
  have n43: "hd (dec_nat k) \<noteq> 43" for k
    using dec_nat_digits [of "hd (dec_nat k)" k] is_digit_not_sign by auto
  show ?thesis
  proof (cases "v < 0")
    case True
    then have "dec_int v = 45 # dec_nat (nat (- v))" by (simp add: dec_int_def)
    with v True ds show ?thesis
      by (simp add: strtoll_full_def Let_def dec_val_dec_nat in_srange_def LLONG_MAX_def LLONG_MIN_def)
  next
    case False
    then have "dec_int v = dec_nat (nat v)" by (simp add: dec_int_def)
    with v False ds n43 show ?thesis
      by (simp add: strtoll_full_def Let_def dec_val_dec_nat in_srange_def LLONG_MAX_def LLONG_MIN_def)
  qed
qed

lemma dec_int_no_nul: "c \<in> set (dec_int v) \<Longrightarrow> c \<noteq> 0"
  using dec_nat_digits is_digit_not_sign by (auto simp: dec_int_def split: if_splits)

lemma cstr_id: "0 \<notin> set s \<Longrightarrow> cstr s = s"
  by (induction s) (auto simp: cstr_def)

lemma cstr_dec_int [simp]: "cstr (dec_int v) = dec_int v"
  using dec_int_no_nul [of 0 v] by (intro cstr_id) auto

lemma cstr_append_nul: "0 \<notin> set s \<Longrightarrow> cstr (s @ 0 # t) = s"
  by (induction s) (auto simp: cstr_def)

end
