(* ===== verification/Sds.thy ===== *)
theory Sds
  imports Clib Interfaces
begin

text \<open>
  The dynamic strings of \<open>src/src/src/sds.c\<close>. A string is its header (\<open>len\<close>, \<open>free\<close>, both
  32 bit unsigned) and its allocated buffer; the buffer has \<open>len + free + 1\<close> bytes and a NUL
  byte at \<open>len\<close> (\<open>sds_ok\<close>). Allocation never returns \<open>NULL\<close> here (\<open>zmalloc\<close> aborts the
  process instead). The header fields are stored modulo \<open>2 ^ 32\<close> as the casts of the code do,
  so the properties carry the bound below which this does not matter. Printf style
  formatting (\<open>sdscatvprintf\<close>) is left to the C library and not modelled.
\<close>

record sds =
  sds_len :: nat
  sds_free :: nat
  sds_buf :: bytes

definition u32 :: "int \<Rightarrow> nat" where "u32 n = nat (n mod 2 ^ 32)"

lemma u32_of_nat [simp]: "n < 2 ^ 32 \<Longrightarrow> u32 (int n) = n"
  by (simp add: u32_def)

lemma u32_0 [simp]: "u32 0 = 0"
  by (simp add: u32_def)

lemma u32_add [simp]: "a + b < 2 ^ 32 \<Longrightarrow> u32 (int a + int b) = a + b"
  by (simp add: u32_def flip: of_nat_add)

lemma u32_add_diff [simp]:
  "c \<le> b \<Longrightarrow> a + (b - c) < 2 ^ 32 \<Longrightarrow> u32 (int a + (int b - int c)) = a + (b - c)"
  by (simp add: u32_def flip: of_nat_diff of_nat_add)

lemma u32_diff [simp]: "b \<le> a \<Longrightarrow> a < 2 ^ 32 \<Longrightarrow> u32 (int a - int b) = a - b"
  by (simp add: u32_def flip: of_nat_diff)

definition sds_ok :: "sds \<Rightarrow> bool" where
  "sds_ok s \<longleftrightarrow> length (sds_buf s) = sds_len s + sds_free s + 1 \<and> sds_buf s ! sds_len s = 0 \<and>
     sds_len s + sds_free s < 2 ^ 32"

definition sds_val :: "sds \<Rightarrow> bytes" where
  "sds_val s = take (sds_len s) (sds_buf s)"

subsection \<open>Allocation and length\<close>

definition sdsnewlen :: "bytes option \<Rightarrow> nat \<Rightarrow> sds" where
  "sdsnewlen init initlen =
     \<lparr>sds_len = u32 (int initlen), sds_free = 0,
      sds_buf = (case init of Some b \<Rightarrow> take initlen b | None \<Rightarrow> replicate initlen 0) @ [0]\<rparr>"

definition sdsempty :: sds where "sdsempty = sdsnewlen (Some []) 0"

definition sdsnew :: "bytes option \<Rightarrow> sds" where
  "sdsnew init =
     (let initlen = (case init of None \<Rightarrow> 0 | Some b \<Rightarrow> length (cstr b)) in sdsnewlen init initlen)"

definition sdsdup :: "sds \<Rightarrow> sds" where
  "sdsdup s = sdsnewlen (Some (sds_buf s)) (sds_len s)"

definition sdsupdatelen :: "sds \<Rightarrow> sds" where
  "sdsupdatelen s =
     (let reallen = length (cstr (sds_buf s))
      in s\<lparr>sds_free := u32 (int (sds_free s) + (int (sds_len s) - int reallen)), sds_len := reallen\<rparr>)"

definition sdsclear :: "sds \<Rightarrow> sds" where
  "sdsclear s =
     s\<lparr>sds_free := u32 (int (sds_free s) + int (sds_len s)), sds_len := 0, sds_buf := (sds_buf s)[0 := 0]\<rparr>"

definition SDS_MAX_PREALLOC :: nat where "SDS_MAX_PREALLOC = 1024 * 1024"

definition sdsMakeRoomFor :: "sds \<Rightarrow> nat \<Rightarrow> sds" where
  "sdsMakeRoomFor s addlen =
     (if sds_free s \<ge> addlen then s
      else
        let len = sds_len s;
            newlen = len + addlen;
            newlen = (if newlen < SDS_MAX_PREALLOC then newlen * 2 else newlen + SDS_MAX_PREALLOC)
        in s\<lparr>sds_buf := resize (newlen + 1) (sds_buf s), sds_free := u32 (int newlen - int len)\<rparr>)"

definition sdsRemoveFreeSpace :: "sds \<Rightarrow> sds" where
  "sdsRemoveFreeSpace s = s\<lparr>sds_buf := resize (sds_len s + 1) (sds_buf s), sds_free := 0\<rparr>"

definition sdsAllocSize :: "sds \<Rightarrow> nat" where
  "sdsAllocSize s = 8 + sds_len s + sds_free s + 1"

text \<open>\<open>None\<close> is a failed assertion.\<close>

definition sdsIncrLen :: "sds \<Rightarrow> int \<Rightarrow> sds option" where
  "sdsIncrLen s incr =
     (if (if incr \<ge> 0 then int (sds_free s) \<ge> incr else int (sds_len s) \<ge> - incr)
      then let len = u32 (int (sds_len s) + incr)
           in Some (s\<lparr>sds_len := len, sds_free := u32 (int (sds_free s) - incr),
                      sds_buf := (sds_buf s)[len := 0]\<rparr>)
      else None)"

definition sdsgrowzero :: "sds \<Rightarrow> nat \<Rightarrow> sds" where
  "sdsgrowzero s len =
     (let curlen = sds_len s
      in if len \<le> curlen then s
         else
           let s = sdsMakeRoomFor s (len - curlen);
               buf = splice curlen (replicate (len - curlen + 1) 0) (sds_buf s);
               totlen = sds_len s + sds_free s
           in s\<lparr>sds_buf := buf, sds_len := u32 (int len), sds_free := u32 (int totlen - int len)\<rparr>)"

subsection \<open>Concatenation and copy\<close>

definition sdscatlen :: "sds \<Rightarrow> bytes \<Rightarrow> sds" where
  "sdscatlen s t =
     (let len = length t;
          curlen = sds_len s;
          s = sdsMakeRoomFor s len;
          buf = splice curlen t (sds_buf s)
      in s\<lparr>sds_len := u32 (int (curlen + len)), sds_free := u32 (int (sds_free s) - int len),
           sds_buf := buf[curlen + len := 0]\<rparr>)"

definition sdscat :: "sds \<Rightarrow> bytes \<Rightarrow> sds" where "sdscat s t = sdscatlen s (cstr t)"

definition sdscatsds :: "sds \<Rightarrow> sds \<Rightarrow> sds" where "sdscatsds s t = sdscatlen s (sds_val t)"

definition sdscpylen :: "sds \<Rightarrow> bytes \<Rightarrow> sds" where
  "sdscpylen s t =
     (let len = length t;
          s = (if sds_free s + sds_len s < len then sdsMakeRoomFor s (len - sds_len s) else s);
          totlen = sds_free s + sds_len s;
          buf = splice 0 t (sds_buf s)
      in s\<lparr>sds_buf := buf[len := 0], sds_len := u32 (int len), sds_free := u32 (int totlen - int len)\<rparr>)"

definition sdscpy :: "sds \<Rightarrow> bytes \<Rightarrow> sds" where "sdscpy s t = sdscpylen s (cstr t)"

subsection \<open>Numbers\<close>

text \<open>The digits are stored from the last one on and the string is then reversed in place.\<close>

function ull_digits :: "bytes \<Rightarrow> nat \<Rightarrow> nat \<Rightarrow> bytes \<times> nat" where
  "ull_digits buf p v =
     (let buf = buf[p := digit (v mod 10)]; v = v div 10
      in if v \<noteq> 0 then ull_digits buf (p + 1) v else (buf, p + 1))"
  by pat_completeness auto
termination by (relation "measure (\<lambda>(buf, p, v). v)") auto

declare ull_digits.simps [simp del]

function rev_loop :: "bytes \<Rightarrow> nat \<Rightarrow> int \<Rightarrow> bytes" where
  "rev_loop buf s p =
     (if int s < p
      then rev_loop (buf[s := buf ! nat p, nat p := buf ! s]) (s + 1) (p - 1)
      else buf)"
  by pat_completeness auto
termination by (relation "measure (\<lambda>(buf, s, p). nat (p - int s))") auto

declare rev_loop.simps [simp del]

definition sdsll2str :: "bytes \<Rightarrow> int \<Rightarrow> nat \<times> bytes" where
  "sdsll2str buf value =
     (let v = nat ((if value < 0 then - value else value) mod 2 ^ 64);
          (buf, p) = ull_digits buf 0 v;
          (buf, p) = (if value < 0 then (buf[p := 45], p + 1) else (buf, p));
          l = p;
          buf = buf[p := 0]
      in (l, rev_loop buf 0 (int p - 1)))"

definition sdsull2str :: "bytes \<Rightarrow> nat \<Rightarrow> nat \<times> bytes" where
  "sdsull2str buf v =
     (let (buf, p) = ull_digits buf 0 v; buf = buf[p := 0] in (p, rev_loop buf 0 (int p - 1)))"

definition SDS_LLSTR_SIZE :: nat where "SDS_LLSTR_SIZE = 21"

definition sdsfromlonglong :: "int \<Rightarrow> sds" where
  "sdsfromlonglong value =
     (case sdsll2str (replicate SDS_LLSTR_SIZE 0) value of (len, buf) \<Rightarrow> sdsnewlen (Some buf) len)"

text \<open>\<open>sdscatfmt\<close>, with the variable arguments as a list. \<open>None\<close> is a missing argument.\<close>

datatype fmt_arg = FStr bytes | FSds sds | FInt int | FUInt nat

definition cat_piece :: "sds \<Rightarrow> bytes \<Rightarrow> sds" where
  "cat_piece s str =
     (let l = length str;
          s = (if sds_free s < l then sdsMakeRoomFor s l else s)
      in s\<lparr>sds_buf := splice (sds_len s) str (sds_buf s), sds_len := u32 (int (sds_len s) + int l),
           sds_free := u32 (int (sds_free s) - int l)\<rparr>)"

fun fmt_piece :: "byte \<Rightarrow> fmt_arg \<Rightarrow> bytes option" where
  "fmt_piece k (FStr str) = (if k = 115 then Some (cstr str) else None)"
| "fmt_piece k (FSds t) = (if k = 83 then Some (sds_val t) else None)"
| "fmt_piece k (FInt num) =
     (if k = 105 \<or> k = 73
      then (case sdsll2str (replicate SDS_LLSTR_SIZE 0) num of (l, buf) \<Rightarrow> Some (take l buf))
      else None)"
| "fmt_piece k (FUInt num) =
     (if k = 117 \<or> k = 85
      then (case sdsull2str (replicate SDS_LLSTR_SIZE 0) num of (l, buf) \<Rightarrow> Some (take l buf))
      else None)"

fun catfmt_loop :: "sds \<Rightarrow> bytes \<Rightarrow> fmt_arg list \<Rightarrow> sds option" where
  "catfmt_loop s [] ap = Some (s\<lparr>sds_buf := (sds_buf s)[sds_len s := 0]\<rparr>)"
| "catfmt_loop s (c # f) ap =
     (let s = (if sds_free s = 0 then sdsMakeRoomFor s 1 else s)
      in if c = 37 then
           (case f of
              [] \<Rightarrow> None
            | k # f' \<Rightarrow>
                if k \<in> {115, 83, 105, 73, 117, 85} then
                  (case ap of
                     [] \<Rightarrow> None
                   | a # ap' \<Rightarrow>
                       (case fmt_piece k a of
                          None \<Rightarrow> None
                        | Some str \<Rightarrow> catfmt_loop (cat_piece s str) f' ap'))
                else catfmt_loop (cat_piece s [k]) f' ap)
         else catfmt_loop (cat_piece s [c]) f ap)"

definition sdscatfmt :: "sds \<Rightarrow> bytes \<Rightarrow> fmt_arg list \<Rightarrow> sds option" where
  "sdscatfmt s fmt ap = catfmt_loop s (cstr fmt) ap"

subsection \<open>Trimming and ranges\<close>

function trim_left :: "bytes \<Rightarrow> bytes \<Rightarrow> int \<Rightarrow> int \<Rightarrow> int" where
  "trim_left buf cset sp e =
     (if sp \<le> e \<and> strchr_found cset (buf ! nat sp) then trim_left buf cset (sp + 1) e else sp)"
  by pat_completeness auto
termination by (relation "measure (\<lambda>(buf, cset, sp, e). nat (e - sp + 1))") auto

function trim_right :: "bytes \<Rightarrow> bytes \<Rightarrow> int \<Rightarrow> int \<Rightarrow> int" where
  "trim_right buf cset start ep =
     (if ep > start \<and> strchr_found cset (buf ! nat ep) then trim_right buf cset start (ep - 1) else ep)"
  by pat_completeness auto
termination by (relation "measure (\<lambda>(buf, cset, start, ep). nat (ep - start))") auto

declare trim_left.simps [simp del] trim_right.simps [simp del]

definition sdstrim :: "sds \<Rightarrow> bytes \<Rightarrow> sds" where
  "sdstrim s cset =
     (let e = int (sds_len s) - 1;
          sp = trim_left (sds_buf s) cset 0 e;
          ep = trim_right (sds_buf s) cset 0 e;
          len = (if sp > ep then 0 else nat (ep - sp + 1));
          buf = splice 0 (slice (nat sp) len (sds_buf s)) (sds_buf s)
      in s\<lparr>sds_buf := buf[len := 0], sds_free := u32 (int (sds_free s) + (int (sds_len s) - int len)),
           sds_len := u32 (int len)\<rparr>)"

text \<open>The range as the start and the length of what remains, from the two inclusive indexes.\<close>

definition range_bounds :: "int \<Rightarrow> int \<Rightarrow> int \<Rightarrow> int \<times> int" where
  "range_bounds len start end' =
     (let start = (if start < 0 then max 0 (len + start) else start);
          end' = (if end' < 0 then max 0 (len + end') else end');
          newlen = (if start > end' then 0 else end' - start + 1)
      in if newlen \<noteq> 0 then
           (if start \<ge> len then (start, 0)
            else if end' \<ge> len
            then (let end' = len - 1 in (start, if start > end' then 0 else end' - start + 1))
            else (start, newlen))
         else (0, newlen))"

definition sdsrange :: "sds \<Rightarrow> int \<Rightarrow> int \<Rightarrow> sds" where
  "sdsrange s start end' =
     (let len = sds_len s
      in if len = 0 then s
         else case range_bounds (int len) start end' of
                (start, newlen) \<Rightarrow>
                  (let newlen = nat newlen;
                       buf = (if start \<noteq> 0 \<and> newlen \<noteq> 0
                              then splice 0 (slice (nat start) newlen (sds_buf s)) (sds_buf s)
                              else sds_buf s)
                   in s\<lparr>sds_buf := buf[newlen := 0],
                        sds_free := u32 (int (sds_free s) + (int len - int newlen)),
                        sds_len := u32 (int newlen)\<rparr>))"

definition sdstolower :: "sds \<Rightarrow> sds" where
  "sdstolower s = s\<lparr>sds_buf := map tolower_b (sds_val s) @ drop (sds_len s) (sds_buf s)\<rparr>"

definition sdstoupper :: "sds \<Rightarrow> sds" where
  "sdstoupper s = s\<lparr>sds_buf := map toupper_b (sds_val s) @ drop (sds_len s) (sds_buf s)\<rparr>"

text \<open>The difference of the lengths is truncated to an \<open>int\<close>.\<close>

definition sdscmp :: "sds \<Rightarrow> sds \<Rightarrow> int" where
  "sdscmp s1 s2 =
     (let l1 = sds_len s1;
          l2 = sds_len s2;
          minlen = (if l1 < l2 then l1 else l2);
          cmp = memcmp (sds_buf s1) (sds_buf s2) minlen
      in if cmp = 0 then sext 4 ((int l1 - int l2) mod 2 ^ 32) else cmp)"

subsection \<open>Splitting and joining\<close>

text \<open>\<open>None\<close> is \<open>NULL\<close>. \<open>start\<close> is where the current token begins and \<open>j\<close> the position
  compared with the separator; the array that grows is the list of tokens.\<close>

function split_loop :: "bytes \<Rightarrow> bytes \<Rightarrow> nat \<Rightarrow> nat \<Rightarrow> bytes list \<Rightarrow> bytes list" where
  "split_loop s sep start j tokens =
     (if j + length sep \<le> length s \<and> sep \<noteq> [] then
        if (length sep = 1 \<and> s ! j = sep ! 0) \<or> memcmp (drop j s) sep (length sep) = 0
        then split_loop s sep (j + length sep) (j + length sep - 1 + 1)
               (tokens @ [slice start (j - start) s])
        else split_loop s sep start (j + 1) tokens
      else tokens @ [slice start (length s - start) s])"
  by pat_completeness auto
termination
proof (relation "measure (\<lambda>(s, sep, start, j, tokens). length s - j)", goal_cases)
  case (2 s sep start j tokens)
  then have "0 < length sep" "j + length sep \<le> length s" by simp_all
  then show ?case by (simp only: in_measure prod.case)
next
  case (3 s sep start j tokens)
  then have "0 < length sep" "j + length sep \<le> length s" by simp_all
  then show ?case by (simp only: in_measure prod.case)
qed simp

declare split_loop.simps [simp del]

definition sdssplitlen :: "bytes \<Rightarrow> bytes \<Rightarrow> bytes list option" where
  "sdssplitlen s sep =
     (if length sep < 1 then None
      else if length s = 0 then Some []
      else Some (split_loop s sep 0 0 []))"

fun join_loop :: "sds \<Rightarrow> bytes list \<Rightarrow> bytes \<Rightarrow> sds" where
  "join_loop join [] sep = join"
| "join_loop join [a] sep = sdscat join a"
| "join_loop join (a # b # argv) sep = join_loop (sdscat (sdscat join a) sep) (b # argv) sep"

definition sdsjoin :: "bytes list \<Rightarrow> bytes \<Rightarrow> sds" where
  "sdsjoin argv sep = join_loop sdsempty argv sep"

fun map_char :: "bytes \<Rightarrow> bytes \<Rightarrow> byte \<Rightarrow> byte" where
  "map_char (f # from) (t # to) c = (if c = f then t else map_char from to c)"
| "map_char _ _ c = c"

definition sdsmapchars :: "sds \<Rightarrow> bytes \<Rightarrow> bytes \<Rightarrow> sds" where
  "sdsmapchars s from to =
     s\<lparr>sds_buf := map (map_char from to) (sds_val s) @ drop (sds_len s) (sds_buf s)\<rparr>"

subsection \<open>Quoted arguments\<close>

definition hex_char :: "nat \<Rightarrow> byte" where
  "hex_char n = word_of_nat (if n < 10 then 48 + n else 87 + n)"

definition repr_char :: "byte \<Rightarrow> bytes" where
  "repr_char c =
     (if c = 92 \<or> c = 34 then [92, c]
      else if c = 10 then [92, 110]
      else if c = 13 then [92, 114]
      else if c = 9 then [92, 116]
      else if c = 7 then [92, 97]
      else if c = 8 then [92, 98]
      else if isprint c then [c]
      else [92, 120, hex_char (unat c div 16), hex_char (unat c mod 16)])"

definition sdscatrepr :: "sds \<Rightarrow> bytes \<Rightarrow> sds" where
  "sdscatrepr s p = sdscatlen (foldl (\<lambda>s c. sdscatlen s (repr_char c)) (sdscatlen s [34]) p) [34]"

definition is_hex_digit :: "byte \<Rightarrow> bool" where
  "is_hex_digit c \<longleftrightarrow> (48 \<le> c \<and> c \<le> 57) \<or> (97 \<le> c \<and> c \<le> 102) \<or> (65 \<le> c \<and> c \<le> 70)"

definition hex_digit_to_int :: "byte \<Rightarrow> nat" where
  "hex_digit_to_int c =
     (if 48 \<le> c \<and> c \<le> 57 then unat c - 48
      else if 97 \<le> c \<and> c \<le> 102 then unat c - 87
      else if 65 \<le> c \<and> c \<le> 70 then unat c - 55
      else 0)"

definition unescape :: "byte \<Rightarrow> byte" where
  "unescape c =
     (if c = 110 then 10 else if c = 114 then 13 else if c = 116 then 9
      else if c = 98 then 8 else if c = 97 then 7 else c)"

datatype quoting = Bare | InQ | InSQ

text \<open>One token. The line is the list of the bytes up to its NUL, so \<open>[]\<close> is \<open>*p == 0\<close>; \<open>None\<close>
  is the jump to \<open>err\<close>.\<close>

function token_loop :: "quoting \<Rightarrow> bytes \<Rightarrow> bytes \<Rightarrow> (bytes \<times> bytes) option" where
  "token_loop Bare [] cur = Some (cur, [])"
| "token_loop InQ [] cur = None"
| "token_loop InSQ [] cur = None"
| "token_loop InQ (c # p) cur =
     (if c = 92 \<and> length p \<ge> 3 \<and> p ! 0 = 120 \<and> is_hex_digit (p ! 1) \<and> is_hex_digit (p ! 2)
      then token_loop InQ (drop 3 p)
             (cur @ [word_of_nat (hex_digit_to_int (p ! 1) * 16 + hex_digit_to_int (p ! 2))])
      else if c = 92 \<and> p \<noteq> [] then token_loop InQ (tl p) (cur @ [unescape (hd p)])
      else if c = 34 then (if p \<noteq> [] \<and> \<not> isspace (hd p) then None else Some (cur, p))
      else token_loop InQ p (cur @ [c]))"
| "token_loop InSQ (c # p) cur =
     (if c = 92 \<and> p \<noteq> [] \<and> hd p = 39 then token_loop InSQ (tl p) (cur @ [39])
      else if c = 39 then (if p \<noteq> [] \<and> \<not> isspace (hd p) then None else Some (cur, p))
      else token_loop InSQ p (cur @ [c]))"
| "token_loop Bare (c # p) cur =
     (if c = 32 \<or> c = 10 \<or> c = 13 \<or> c = 9 then Some (cur, p)
      else if c = 34 then token_loop InQ p cur
      else if c = 39 then token_loop InSQ p cur
      else token_loop Bare p (cur @ [c]))"
  by pat_completeness auto
termination by (relation "measure (\<lambda>(q, p, cur). length p)") auto

declare token_loop.simps [simp del]

lemma token_loop_shorter: "token_loop q p cur = Some (t, r) \<Longrightarrow> length r \<le> length p - 1"
proof (induction q p cur rule: token_loop.induct)
  case (4 c p cur)
  consider (hex) "c = 92 \<and> length p \<ge> 3 \<and> p ! 0 = 120 \<and> is_hex_digit (p ! 1) \<and> is_hex_digit (p ! 2)"
    | (esc) "\<not> (c = 92 \<and> length p \<ge> 3 \<and> p ! 0 = 120 \<and> is_hex_digit (p ! 1) \<and> is_hex_digit (p ! 2))"
        "c = 92 \<and> p \<noteq> []"
    | (other) "\<not> (c = 92 \<and> p \<noteq> [])" by blast
  then show ?case
  proof cases
    case hex
    from "4.IH"(1) [OF hex] "4.prems" hex show ?thesis by (simp add: token_loop.simps(4))
  next
    case esc
    from "4.IH"(2) [OF esc] "4.prems" esc have "length r \<le> length (tl p) - 1"
      by (auto simp: token_loop.simps(4))
    then show ?thesis by simp
  next
    case other
    then have h: "\<not> (c = 92 \<and> length p \<ge> 3 \<and> p ! 0 = 120 \<and> is_hex_digit (p ! 1) \<and> is_hex_digit (p ! 2))"
      by auto
    show ?thesis
    proof (cases "c = 34")
      case True
      with "4.prems" show ?thesis by (auto simp: token_loop.simps(4) split: if_splits)
    next
      case False
      from "4.IH"(3) [OF h other False] "4.prems" h other False show ?thesis
        by (auto simp: token_loop.simps(4))
    qed
  qed
next
  case (5 c p cur)
  show ?case
  proof (cases "c = 92 \<and> p \<noteq> [] \<and> hd p = 39")
    case True
    from "5.IH"(1) [OF this] "5.prems" True show ?thesis by (simp add: token_loop.simps(5))
  next
    case esc: False
    show ?thesis
    proof (cases "c = 39")
      case True
      with "5.prems" show ?thesis by (auto simp: token_loop.simps(5) split: if_splits)
    next
      case False
      from "5.IH"(2) [OF esc False] "5.prems" esc False show ?thesis
        by (auto simp: token_loop.simps(5))
    qed
  qed
next
  case (6 c p cur)
  show ?case
  proof (cases "c = 32 \<or> c = 10 \<or> c = 13 \<or> c = 9")
    case True
    with "6.prems" show ?thesis by (auto simp: token_loop.simps(6))
  next
    case False
    with 6 show ?thesis by (cases "c = 34"; cases "c = 39") (auto simp: token_loop.simps(6))
  qed
qed (auto simp: token_loop.simps(1-3))

function args_loop :: "bytes \<Rightarrow> bytes list \<Rightarrow> bytes list option" where
  "args_loop p vector =
     (let p = dropWhile isspace p
      in if p = [] then Some vector
         else case token_loop Bare p [] of
                None \<Rightarrow> None
              | Some (cur, p') \<Rightarrow> args_loop p' (vector @ [cur]))"
  by pat_completeness auto
termination
proof (relation "measure (\<lambda>(p, v). length p)", goal_cases)
  case (2 p v x z cur p')
  have "length x \<le> length p" using 2 by (simp add: length_dropWhile_le)
  moreover from 2 have "token_loop Bare x [] = Some (cur, p')" by simp
  then have "length p' \<le> length x - 1" by (rule token_loop_shorter)
  moreover from 2 have "0 < length x" by simp
  ultimately show ?case by (simp only: in_measure prod.case)
qed simp

declare args_loop.simps [simp del]

definition sdssplitargs :: "bytes \<Rightarrow> bytes list option" where
  "sdssplitargs line = args_loop (cstr line) []"

subsection \<open>The invariant and the contents\<close>

definition SDS_MAX :: nat where "SDS_MAX = 2 ^ 31 - SDS_MAX_PREALLOC - 1"

lemma length_sds_val: "sds_ok s \<Longrightarrow> length (sds_val s) = sds_len s"
  by (simp add: sds_ok_def sds_val_def)

lemma sds_eqI: "sds_ok s \<Longrightarrow> sds_len s = length v \<Longrightarrow> sds_val s = v \<Longrightarrow> take (length v) (sds_buf s) = v"
  by (simp add: sds_val_def)

lemma sdsnewlen_ok:
  assumes "n < 2 ^ 32" "\<And>b. init = Some b \<Longrightarrow> n \<le> length b"
  shows "sds_ok (sdsnewlen init n) \<and>
    sds_val (sdsnewlen init n) = (case init of Some b \<Rightarrow> take n b | None \<Rightarrow> replicate n 0)"
  using assms by (cases init) (auto simp: sds_ok_def sds_val_def sdsnewlen_def nth_append min_def)

lemma sdsempty_ok [simp]: "sds_ok sdsempty" "sds_val sdsempty = []" "sds_len sdsempty = 0"
  using sdsnewlen_ok [of 0 "Some []"] by (simp_all add: sdsempty_def sdsnewlen_def)

lemma sdsMakeRoomFor_ok:
  assumes "sds_ok s" "sds_len s + n \<le> SDS_MAX"
  shows "sds_ok (sdsMakeRoomFor s n)" "sds_val (sdsMakeRoomFor s n) = sds_val s"
    "sds_len (sdsMakeRoomFor s n) = sds_len s" "n \<le> sds_free (sdsMakeRoomFor s n)"
proof -
  have "sds_ok (sdsMakeRoomFor s n) \<and> sds_val (sdsMakeRoomFor s n) = sds_val s \<and>
    sds_len (sdsMakeRoomFor s n) = sds_len s \<and> n \<le> sds_free (sdsMakeRoomFor s n)"
  proof (cases "n \<le> sds_free s")
    case True
    with assms show ?thesis by (simp add: sdsMakeRoomFor_def)
  next
    case False
    define k where "k = (if sds_len s + n < SDS_MAX_PREALLOC then (sds_len s + n) * 2
      else sds_len s + n + SDS_MAX_PREALLOC)"
    have k: "sds_len s + n \<le> k" "k < 2 ^ 32"
      using assms(2) by (auto simp: k_def SDS_MAX_def SDS_MAX_PREALLOC_def)
    let ?s = "sdsMakeRoomFor s n"
    have s: "?s = s\<lparr>sds_buf := resize (k + 1) (sds_buf s), sds_free := k - sds_len s\<rparr>"
      using False k by (simp add: sdsMakeRoomFor_def k_def Let_def nat_diff_distrib' flip: of_nat_diff)
    have b: "length (sds_buf s) = sds_len s + sds_free s + 1" using assms(1) by (simp add: sds_ok_def)
    have r: "slice off m (resize (k + 1) (sds_buf s)) = slice off m (sds_buf s)"
      if "off + m \<le> sds_len s + 1" for off m
      using that b k by (intro slice_resize) auto
    from r [of 0 "sds_len s"] have v: "sds_val ?s = sds_val s"
      unfolding s by (simp add: sds_val_def slice_def)
    from r [of "sds_len s" 1] have "resize (k + 1) (sds_buf s) ! sds_len s = sds_buf s ! sds_len s"
      using b k by (simp add: slice_def take_Suc hd_drop_conv_nth length_resize)
    with assms(1) k v show ?thesis by (simp add: s sds_ok_def length_resize)
  qed
  then show "sds_ok (sdsMakeRoomFor s n)" "sds_val (sdsMakeRoomFor s n) = sds_val s"
    "sds_len (sdsMakeRoomFor s n) = sds_len s" "n \<le> sds_free (sdsMakeRoomFor s n)" by auto
qed

text \<open>Writing \<open>t\<close> at the end of the string into its free space, and the new terminator.\<close>

lemma sds_write_end:
  assumes "sds_ok s" "length t \<le> sds_free s"
    and "r = s\<lparr>sds_len := sds_len s + length t, sds_free := sds_free s - length t,
        sds_buf := (splice (sds_len s) t (sds_buf s))[sds_len s + length t := 0]\<rparr>"
  shows "sds_ok r \<and> sds_val r = sds_val s @ t"
proof -
  have l: "length (sds_buf s) = sds_len s + sds_free s + 1" using assms(1) by (simp add: sds_ok_def)
  then have ls: "length (splice (sds_len s) t (sds_buf s)) = length (sds_buf s)"
    using assms(2) by (simp add: length_splice)
  have "take (sds_len s + length t) (splice (sds_len s) t (sds_buf s)) = take (sds_len s) (sds_buf s) @ t"
    using l assms(2) by (simp add: splice_def)
  with l ls assms show ?thesis by (simp add: sds_ok_def sds_val_def)
qed

lemma sdscatlen_ok:
  assumes "sds_ok s" "sds_len s + length t \<le> SDS_MAX"
  shows "sds_ok (sdscatlen s t) \<and> sds_val (sdscatlen s t) = sds_val s @ t"
proof -
  note r = sdsMakeRoomFor_ok [OF assms]
  let ?s = "sdsMakeRoomFor s (length t)"
  have b: "sds_len s + length t < 2 ^ 32" "sds_free ?s < 2 ^ 32"
    using assms(2) r(1) by (auto simp: SDS_MAX_def SDS_MAX_PREALLOC_def sds_ok_def)
  have "sds_ok (sdscatlen s t) \<and> sds_val (sdscatlen s t) = sds_val ?s @ t"
  proof (rule sds_write_end [OF r(1) r(4)])
    show "sdscatlen s t = ?s\<lparr>sds_len := sds_len ?s + length t, sds_free := sds_free ?s - length t,
        sds_buf := (splice (sds_len ?s) t (sds_buf ?s))[sds_len ?s + length t := 0]\<rparr>"
      using b r(3,4) by (simp add: sdscatlen_def Let_def flip: of_nat_diff of_nat_add)
  qed
  with r(2) show ?thesis by simp
qed

interpretation sdsb: appender sdscatlen sds_val sds_ok SDS_MAX
  by unfold_locales (simp_all add: sdscatlen_ok length_sds_val)

text \<open>
  Appending to a string of at most 2 GB less a megabyte in total keeps it well formed, gives
  exactly the concatenation, with embedded NUL bytes kept, and leaves the earlier contents in
  place.
\<close>
theorem sdscatlen_correct:
  assumes "sds_ok s" "sds_len s + length t \<le> SDS_MAX"
  shows "sds_ok (sdscatlen s t) \<and> sds_val (sdscatlen s t) = sds_val s @ t"
  using assms by (rule sdscatlen_ok)

theorem sdscatlen_correct_witness:
  "sds_ok sdsempty \<and> sds_len sdsempty + length [1::byte, 0, 2] \<le> SDS_MAX \<and>
   sds_val (sdscatlen sdsempty [1, 0, 2]) = [1, 0, 2]"
  using sdscatlen_correct [of sdsempty "[1, 0, 2]"] by (simp add: SDS_MAX_def SDS_MAX_PREALLOC_def)

lemma sdsgrowzero_ok:
  assumes "sds_ok s" "len \<le> SDS_MAX"
  shows "sds_ok (sdsgrowzero s len) \<and>
    sds_val (sdsgrowzero s len) = sds_val s @ replicate (len - sds_len s) 0"
proof (cases "len \<le> sds_len s")
  case True
  with assms show ?thesis by (simp add: sdsgrowzero_def)
next
  case False
  then have "sds_len s + (len - sds_len s) \<le> SDS_MAX" using assms(2) by simp
  note r = sdsMakeRoomFor_ok [OF assms(1) this]
  let ?s = "sdsMakeRoomFor s (len - sds_len s)" and ?z = "replicate (len - sds_len s) (0 :: byte)"
  have b: "sds_len ?s + sds_free ?s < 2 ^ 32" "length (sds_buf ?s) = sds_len ?s + sds_free ?s + 1"
    using r(1) by (simp_all add: sds_ok_def)
  have sp: "splice (sds_len ?s) (replicate (len - sds_len s + 1) 0) (sds_buf ?s)
      = (splice (sds_len ?s) ?z (sds_buf ?s))[sds_len ?s + length ?z := 0]"
    by (rule nth_equalityI) (use b r(3,4) False in \<open>auto simp: mem_simps nth_splice nth_list_update simp del: replicate_Suc\<close>)
  have "sds_ok (sdsgrowzero s len) \<and> sds_val (sdsgrowzero s len) = sds_val ?s @ ?z"
  proof (rule sds_write_end [OF r(1)])
    show "length ?z \<le> sds_free ?s" using r(4) by simp
    have "sds_len ?s + sds_free ?s - len = sds_free ?s - (len - sds_len s)" using r(3,4) False by simp
    moreover have "len \<le> sds_len ?s + sds_free ?s" "len < 2 ^ 32" using b r(3,4) by linarith+
    ultimately show "sdsgrowzero s len = ?s\<lparr>sds_len := sds_len ?s + length ?z, sds_free := sds_free ?s - length ?z,
        sds_buf := (splice (sds_len ?s) ?z (sds_buf ?s))[sds_len ?s + length ?z := 0]\<rparr>"
      using sp False r(3) b by (simp add: sdsgrowzero_def Let_def del: of_nat_add)
  qed
  with r(2) show ?thesis by simp
qed

lemma sdscpylen_ok:
  assumes "sds_ok s" "length t \<le> SDS_MAX"
  shows "sds_ok (sdscpylen s t) \<and> sds_val (sdscpylen s t) = t"
proof -
  define s1 where "s1 = (if sds_free s + sds_len s < length t
    then sdsMakeRoomFor s (length t - sds_len s) else s)"
  have s1: "sds_ok s1 \<and> length t \<le> sds_len s1 + sds_free s1"
  proof (cases "sds_free s + sds_len s < length t")
    case True
    then have "sds_len s + (length t - sds_len s) \<le> SDS_MAX" using assms(2) by simp
    from sdsMakeRoomFor_ok [OF assms(1) this] True show ?thesis by (simp add: s1_def)
  next
    case False
    with assms show ?thesis by (simp add: s1_def)
  qed
  then have b: "sds_len s1 + sds_free s1 < 2 ^ 32" "length (sds_buf s1) = sds_len s1 + sds_free s1 + 1"
    by (simp_all add: sds_ok_def)
  have "sdscpylen s t = s1\<lparr>sds_buf := (splice 0 t (sds_buf s1))[length t := 0],
      sds_len := length t, sds_free := sds_free s1 + sds_len s1 - length t\<rparr>"
    using s1 b by (simp add: sdscpylen_def s1_def [symmetric] Let_def flip: of_nat_diff of_nat_add)
  with s1 b show ?thesis
    by (simp add: sds_ok_def sds_val_def length_splice take_splice_0)
qed

lemma sds_shrink:
  assumes "sds_ok s" "k + n \<le> sds_len s"
    and "r = s\<lparr>sds_buf := (splice 0 (slice k n (sds_buf s)) (sds_buf s))[n := 0],
      sds_free := sds_free s + (sds_len s - n), sds_len := n\<rparr>"
  shows "sds_ok r \<and> sds_val r = slice k n (sds_val s)"
proof -
  have b: "length (sds_buf s) = sds_len s + sds_free s + 1" "sds_len s + sds_free s < 2 ^ 32"
    using assms(1) by (simp_all add: sds_ok_def)
  have l: "length (slice k n (sds_buf s)) = n" using assms(2) b by (simp add: length_slice)
  then have "length (splice 0 (slice k n (sds_buf s)) (sds_buf s)) = length (sds_buf s)"
    "take n (splice 0 (slice k n (sds_buf s)) (sds_buf s)) = slice k n (sds_buf s)"
    using assms(2) b take_splice_0 [of "slice k n (sds_buf s)"] by (simp_all add: length_splice)
  moreover have "slice k n (sds_val s) = slice k n (sds_buf s)"
    using assms(2) by (simp add: sds_val_def slice_def drop_take min_def)
  ultimately show ?thesis using assms(2,3) b by (simp add: sds_ok_def sds_val_def)
qed

lemma sdsclear_ok: "sds_ok s \<Longrightarrow> sds_ok (sdsclear s) \<and> sds_val (sdsclear s) = []"
  using sds_shrink [of s 0 0 "sdsclear s"]
  by (simp add: sdsclear_def slice_def splice_def sds_ok_def)

lemma sdsRemoveFreeSpace_ok:
  assumes "sds_ok s"
  shows "sds_ok (sdsRemoveFreeSpace s) \<and> sds_val (sdsRemoveFreeSpace s) = sds_val s"
  using assms by (simp add: sdsRemoveFreeSpace_def sds_ok_def sds_val_def resize_def nth_append)

lemma sdsIncrLen_ok:
  assumes "sds_ok s" "- int (sds_len s) \<le> incr" "incr \<le> int (sds_free s)" "sdsIncrLen s incr = Some r"
  shows "sds_ok r \<and> int (sds_len r) = int (sds_len s) + incr \<and>
    sds_val r = take (nat (int (sds_len s) + incr)) (sds_buf s)"
proof -
  have b: "sds_len s + sds_free s < 2 ^ 32" "length (sds_buf s) = sds_len s + sds_free s + 1"
    using assms(1) by (simp_all add: sds_ok_def)
  define n where "n = nat (int (sds_len s) + incr)"
  have n: "int n = int (sds_len s) + incr" using assms(2) by (simp add: n_def)
  then have "n \<le> sds_len s + sds_free s" using assms(3) by linarith
  moreover from this n have "int (sds_free s) - incr = int (sds_len s + sds_free s - n)" by linarith
  ultimately have "u32 (int (sds_len s) + incr) = n"
      "u32 (int (sds_free s) - incr) = sds_len s + sds_free s - n"
    using b by (simp_all only: n [symmetric] u32_of_nat le_less_trans less_imp_diff_less)
  then have "r = s\<lparr>sds_len := n, sds_free := sds_len s + sds_free s - n, sds_buf := (sds_buf s)[n := 0]\<rparr>"
    using assms(2-4) by (auto simp: sdsIncrLen_def Let_def split: if_splits)
  moreover have "n \<le> sds_len s + sds_free s" using n assms(3) by linarith
  ultimately show ?thesis using b n by (simp add: sds_ok_def sds_val_def n [symmetric])
qed

subsection \<open>Trimming and ranges: correctness\<close>

definition trim_spec :: "(byte \<Rightarrow> bool) \<Rightarrow> bytes \<Rightarrow> bytes" where
  "trim_spec P v = rev (dropWhile P (rev (dropWhile P v)))"

lemma trim_specI:
  assumes "\<forall>x \<in> set a. P x" "\<forall>x \<in> set b. P x" "m \<noteq> [] \<Longrightarrow> \<not> P (hd m) \<and> \<not> P (last m)"
  shows "trim_spec P (a @ m @ b) = m"
proof (cases "m = []")
  case True
  have "dropWhile P (a @ b) = []" using assms(1,2) by (auto simp: dropWhile_eq_Nil_conv)
  with True show ?thesis unfolding trim_spec_def by (simp only: append_Nil rev.simps dropWhile.simps)
next
  case False
  then obtain x xs where "m = x # xs" by (cases m) auto
  with False assms(3) have "dropWhile P (m @ b) = m @ b" by simp
  moreover have "dropWhile P (rev m) = rev m"
    using False assms(3) by (cases "rev m") (auto simp: hd_rev [symmetric])
  ultimately show ?thesis using assms(1,2) by (simp add: trim_spec_def dropWhile_append)
qed

lemma trim_left_spec:
  assumes "0 \<le> sp" "sp \<le> e + 1"
  shows "\<exists>k. trim_left buf cset sp e = int k \<and> sp \<le> int k \<and> int k \<le> e + 1 \<and>
    (\<forall>i. sp \<le> int i \<and> i < k \<longrightarrow> strchr_found cset (buf ! i)) \<and>
    (int k \<le> e \<longrightarrow> \<not> strchr_found cset (buf ! k))"
  using assms
proof (induction buf cset sp e rule: trim_left.induct)
  case (1 buf cset sp e)
  show ?case
  proof (cases "sp \<le> e \<and> strchr_found cset (buf ! nat sp)")
    case True
    from "1.IH" [OF True] "1.prems" True obtain k where k:
      "trim_left buf cset (sp + 1) e = int k" "sp + 1 \<le> int k" "int k \<le> e + 1"
      "\<forall>i. sp + 1 \<le> int i \<and> i < k \<longrightarrow> strchr_found cset (buf ! i)"
      "int k \<le> e \<longrightarrow> \<not> strchr_found cset (buf ! k)" by auto
    have "\<forall>i. sp \<le> int i \<and> i < k \<longrightarrow> strchr_found cset (buf ! i)"
    proof (intro allI impI)
      fix i assume "sp \<le> int i \<and> i < k"
      with k(4) True show "strchr_found cset (buf ! i)" by (cases "int i = sp") auto
    qed
    with k True show ?thesis by (subst trim_left.simps) auto
  next
    case False
    then have "trim_left buf cset sp e = int (nat sp)"
      using "1.prems" by (subst trim_left.simps) auto
    moreover have "sp \<le> e \<longrightarrow> \<not> strchr_found cset (buf ! nat sp)" using False by blast
    ultimately show ?thesis using "1.prems" by (intro exI [of _ "nat sp"]) auto
  qed
qed

lemma trim_right_spec:
  assumes "0 \<le> ep"
  shows "\<exists>k. trim_right buf cset 0 ep = int k \<and> int k \<le> ep \<and>
    (\<forall>i. k < i \<and> int i \<le> ep \<longrightarrow> strchr_found cset (buf ! i)) \<and>
    (k = 0 \<or> \<not> strchr_found cset (buf ! k))"
  using assms
proof (induction buf cset "0 :: int" ep rule: trim_right.induct)
  case (1 buf cset ep)
  show ?case
  proof (cases "0 < ep \<and> strchr_found cset (buf ! nat ep)")
    case True
    from 1(1) [OF True] True obtain k where k:
      "trim_right buf cset 0 (ep - 1) = int k" "int k \<le> ep - 1"
      "\<forall>i. k < i \<and> int i \<le> ep - 1 \<longrightarrow> strchr_found cset (buf ! i)"
      "k = 0 \<or> \<not> strchr_found cset (buf ! k)" by auto
    have "\<forall>i. k < i \<and> int i \<le> ep \<longrightarrow> strchr_found cset (buf ! i)"
    proof (intro allI impI)
      fix i assume "k < i \<and> int i \<le> ep"
      with k(3) True show "strchr_found cset (buf ! i)" by (cases "int i = ep") auto
    qed
    with k True show ?thesis by (subst trim_right.simps) auto
  next
    case False
    with 1(2) show ?thesis
      by (subst trim_right.simps) (auto intro!: exI [of _ "nat ep"])
  qed
qed

lemma sdstrim_ok:
  assumes "sds_ok s"
  shows "sds_ok (sdstrim s cset) \<and> sds_val (sdstrim s cset) = trim_spec (strchr_found cset) (sds_val s)"
proof -
  let ?P = "strchr_found cset" and ?b = "sds_buf s" and ?n = "sds_len s"
  have b: "length ?b = ?n + sds_free s + 1" "?n + sds_free s < 2 ^ 32"
    using assms by (simp_all add: sds_ok_def)
  obtain k where k: "trim_left ?b cset 0 (int ?n - 1) = int k" "k \<le> ?n"
    "\<forall>i < k. ?P (?b ! i)" "k < ?n \<longrightarrow> \<not> ?P (?b ! k)"
    using trim_left_spec [of 0 "int ?n - 1" ?b cset] by auto
  define len where "len = (if int k > trim_right ?b cset 0 (int ?n - 1) then 0
    else nat (trim_right ?b cset 0 (int ?n - 1) - int k + 1))"
  have len: "k + len \<le> ?n \<and> (\<forall>i. k + len \<le> i \<and> i < ?n \<longrightarrow> ?P (?b ! i)) \<and>
    (0 < len \<longrightarrow> \<not> ?P (?b ! k) \<and> \<not> ?P (?b ! (k + len - 1)))"
  proof (cases "?n = 0")
    case True
    with k have "k = 0" by simp
    moreover have "trim_right ?b cset 0 (-1) = -1" by (subst trim_right.simps) simp
    ultimately show ?thesis using True by (simp add: len_def)
  next
    case False
    then obtain r where r: "trim_right ?b cset 0 (int ?n - 1) = int r" "int r \<le> int ?n - 1"
      "\<forall>i. r < i \<and> int i \<le> int ?n - 1 \<longrightarrow> ?P (?b ! i)" "r = 0 \<or> \<not> ?P (?b ! r)"
      using trim_right_spec [of "int ?n - 1" ?b cset] by auto
    show ?thesis
    proof (cases "r < k")
      case True
      with r have "len = 0" by (simp add: len_def)
      moreover have "\<forall>i. k \<le> i \<and> i < ?n \<longrightarrow> ?P (?b ! i)" using r(3) True by auto
      ultimately show ?thesis using k(2) by simp
    next
      case False
      with r(1) have l: "len = r - k + 1" by (simp add: len_def nat_add_distrib flip: of_nat_diff)
      then have "k + len = r + 1" using False by simp
      moreover have "k < ?n" using False r(2) by linarith
      then have "\<not> ?P (?b ! r)" using r(4) k(4) False by (cases "r = 0") auto
      ultimately show ?thesis using r k(4) \<open>k < ?n\<close> l by auto
    qed
  qed
  then have "sdstrim s cset = s\<lparr>sds_buf := (splice 0 (slice k len ?b) ?b)[len := 0],
      sds_free := sds_free s + (?n - len), sds_len := len\<rparr>"
  proof -
    have "u32 (int (sds_free s) + (int ?n - int len)) = sds_free s + (?n - len)"
      using len b by simp
    moreover have "u32 (int len) = len" using len b by simp
    ultimately show ?thesis unfolding sdstrim_def Let_def k(1) len_def [symmetric] by simp
  qed
  from sds_shrink [OF assms _ this] len
  have "sds_ok (sdstrim s cset) \<and> sds_val (sdstrim s cset) = slice k len (sds_val s)" by simp
  moreover have "trim_spec ?P (sds_val s) = slice k len (sds_val s)"
  proof -
    let ?v = "sds_val s"
    have v: "length ?v = ?n" "\<And>i. i < ?n \<Longrightarrow> ?v ! i = ?b ! i"
      using b by (simp_all add: sds_val_def)
    have sp: "?v = take k ?v @ slice k len ?v @ drop (k + len) ?v"
      by (simp add: slice_def) (metis append_take_drop_id drop_drop add.commute)
    have "\<forall>x \<in> set (take k ?v). ?P x" "\<forall>x \<in> set (drop (k + len) ?v). ?P x"
      using k(2,3) len v by (auto simp: in_set_conv_nth)
    moreover have "slice k len ?v \<noteq> [] \<Longrightarrow> \<not> ?P (hd (slice k len ?v)) \<and> \<not> ?P (last (slice k len ?v))"
    proof -
      assume ne: "slice k len ?v \<noteq> []"
      have l: "length (slice k len ?v) = len" using len v by (simp add: length_slice min_def) linarith
      with ne have "0 < len" by (metis length_greater_0_conv)
      then have e: "k + (len - Suc 0) = k + len - Suc 0" "len - Suc 0 < len" by simp_all
      have lt: "k + len - Suc 0 < ?n" using \<open>0 < len\<close> len by linarith
      have "slice k len ?v ! (len - Suc 0) = ?v ! (k + len - Suc 0)"
        using e lt v nth_slice [of "len - Suc 0" len k ?v] by simp
      moreover note lt
      ultimately have "hd (slice k len ?v) = ?b ! k" "last (slice k len ?v) = ?b ! (k + len - 1)"
        using ne l len v \<open>0 < len\<close> by (simp_all add: hd_conv_nth last_conv_nth nth_slice)
      with len \<open>0 < len\<close> show ?thesis by simp
    qed
    ultimately show ?thesis by (subst sp) (rule trim_specI)
  qed
  ultimately show ?thesis by simp
qed

text \<open>
  Trimming removes exactly the bytes of the set from both ends and keeps the string well
  formed; because \<open>strchr\<close> also finds the terminator of the set, NUL bytes at the ends are
  removed, too, whatever the set is.
\<close>
theorem sdstrim_correct:
  assumes "sds_ok s"
  shows "sds_ok (sdstrim s cset) \<and>
    sds_val (sdstrim s cset) = trim_spec (\<lambda>c. c = 0 \<or> c \<in> set (cstr cset)) (sds_val s)"
proof -
  have "strchr_found cset = (\<lambda>c. c = 0 \<or> c \<in> set (cstr cset))"
    by (rule ext) (simp add: strchr_found_def)
  with sdstrim_ok [OF assms, of cset] show ?thesis by simp
qed

theorem sdstrim_correct_witness:
  "sds_ok (sdsnewlen (Some [32, 0, 97, 32]) 4) \<and>
   sds_val (sdstrim (sdsnewlen (Some [32, 0, 97, 32]) 4) [32]) = [97]"
proof -
  have ok: "sds_ok (sdsnewlen (Some [32, 0, 97, 32]) 4)"
    using sdsnewlen_ok [of 4 "Some [32, 0, 97, 32]"] by simp
  with sdstrim_correct [OF ok, of "[32]"] show ?thesis
    by (simp add: trim_spec_def cstr_def sds_val_def sdsnewlen_def u32_def)
qed

definition range_spec :: "int \<Rightarrow> int \<Rightarrow> bytes \<Rightarrow> bytes" where
  "range_spec st en v =
     (let a = (if st < 0 then max 0 (int (length v) + st) else st);
          b = (if en < 0 then max 0 (int (length v) + en) else en)
      in if a \<le> b then slice (nat a) (nat (b - a + 1)) v else [])"

lemma range_bounds_ok:
  assumes "range_bounds (int (length v)) st en = (start, newlen)" "v \<noteq> []"
  shows "\<exists>k n. newlen = int n \<and> (n \<noteq> 0 \<longrightarrow> start = int k) \<and> (n = 0 \<longrightarrow> k = 0) \<and>
    k + n \<le> length v \<and> range_spec st en v = slice k n v"
proof -
  define a where "a = (if st < 0 then max 0 (int (length v) + st) else st)"
  define b where "b = (if en < 0 then max 0 (int (length v) + en) else en)"
  have a0: "0 \<le> a" "0 \<le> b" by (auto simp: a_def b_def)
  have r: "range_bounds (int (length v)) st en =
    (if a > b then (0, 0) else if a \<ge> int (length v) then (a, 0)
     else (a, min b (int (length v) - 1) - a + 1))"
    unfolding range_bounds_def a_def [symmetric] b_def [symmetric] Let_def by auto
  have sp: "range_spec st en v = (if a \<le> b then slice (nat a) (nat (b - a + 1)) v else [])"
    unfolding range_spec_def a_def [symmetric] b_def [symmetric] Let_def ..
  consider "a > b" | "a \<le> b" "a \<ge> int (length v)" | "a \<le> b" "a < int (length v)" by linarith
  then show ?thesis
  proof cases
    case 1
    with r sp assms(1) show ?thesis by (intro exI [of _ 0]) (simp add: slice_def)
  next
    case 2
    with r sp assms(1) show ?thesis by (intro exI [of _ 0]) (simp add: slice_def)
  next
    case 3
    define n where "n = nat (min b (int (length v) - 1) - a + 1)"
    have n: "int n = min b (int (length v) - 1) - a + 1" using 3 by (simp add: n_def)
    have kn: "nat a + n \<le> length v" using n 3 a0 by linarith
    have "slice (nat a) (nat (b - a + 1)) v = slice (nat a) n v"
    proof (cases "b < int (length v)")
      case True
      then show ?thesis by (simp add: n_def min_def)
    next
      case False
      then have "nat a + n = length v" "length v \<le> nat a + nat (b - a + 1)" using n 3 a0 by linarith+
      then show ?thesis by (simp add: slice_def)
    qed
    with r sp n kn 3 a0 assms(1) show ?thesis
      by (intro exI [of _ "nat a"] exI [of _ n]) auto
  qed
qed

lemma sdsrange_ok:
  assumes "sds_ok s"
  shows "sds_ok (sdsrange s st en) \<and> sds_val (sdsrange s st en) = range_spec st en (sds_val s)"
proof (cases "sds_len s = 0")
  case True
  with assms show ?thesis by (simp add: sdsrange_def sds_val_def slice_def range_spec_def Let_def)
next
  case False
  let ?n = "sds_len s" and ?b = "sds_buf s"
  have b: "length ?b = ?n + sds_free s + 1" "?n + sds_free s < 2 ^ 32"
    using assms by (simp_all add: sds_ok_def)
  have v: "length (sds_val s) = ?n" "sds_val s \<noteq> []"
    using length_sds_val [OF assms] False by auto
  obtain start newlen where r: "range_bounds (int ?n) st en = (start, newlen)" by fastforce
  with range_bounds_ok [of "sds_val s" st en start newlen] v obtain k n where
    kn: "newlen = int n" "n \<noteq> 0 \<longrightarrow> start = int k" "n = 0 \<longrightarrow> k = 0" "k + n \<le> ?n"
      "range_spec st en (sds_val s) = slice k n (sds_val s)"
    by auto
  have "splice 0 (slice 0 n ?b) ?b = ?b" using kn(4) b by (simp add: splice_def slice_def)
  then have buf: "(if start \<noteq> 0 \<and> n \<noteq> 0 then splice 0 (slice (nat start) n ?b) ?b else ?b)
      = splice 0 (slice k n ?b) ?b"
    using kn(2,3) by (cases "n = 0"; cases "k = 0") auto
  have u: "u32 (int (sds_free s) + (int ?n - int n)) = sds_free s + (?n - n)" "u32 (int n) = n"
    using kn(4) b by simp_all
  have "sdsrange s st en = s\<lparr>sds_buf := (splice 0 (slice k n ?b) ?b)[n := 0],
      sds_free := sds_free s + (?n - n), sds_len := n\<rparr>"
    unfolding sdsrange_def Let_def r kn(1) prod.case nat_int buf u using False by simp
  from sds_shrink [OF assms kn(4) this] kn(5) show ?thesis by simp
qed

text \<open>
  \<open>sdsrange\<close> keeps exactly the bytes between the two inclusive indexes, negative ones counted
  from the end and clamped to 0, and keeps the string well formed; an end index below
  \<open>-len\<close> is clamped to 0, too, so that the first byte is kept.
\<close>
theorem sdsrange_correct:
  assumes "sds_ok s"
  shows "sds_ok (sdsrange s st en) \<and> sds_val (sdsrange s st en) = range_spec st en (sds_val s)"
  using assms by (rule sdsrange_ok)

theorem sdsrange_correct_witness:
  "sds_ok (sdsnewlen (Some [1, 2, 3]) 3) \<and>
   sds_val (sdsrange (sdsnewlen (Some [1, 2, 3]) 3) (-2) (-1)) = [2, 3] \<and>
   sds_val (sdsrange (sdsnewlen (Some [1, 2, 3]) 3) 0 (-9)) = [1]"
proof -
  have ok: "sds_ok (sdsnewlen (Some [1, 2, 3]) 3)"
    using sdsnewlen_ok [of 3 "Some [1, 2, 3]"] by simp
  with sdsrange_correct [OF ok, of "-2" "-1"] sdsrange_correct [OF ok, of 0 "-9"] show ?thesis
    by (simp add: range_spec_def slice_def sds_val_def sdsnewlen_def u32_def)
qed

subsection \<open>Comparison\<close>

lemma sext4_small: "- (2 ^ 31) < d \<Longrightarrow> d < 2 ^ 31 \<Longrightarrow> sext 4 (d mod 2 ^ 32) = d"
  using le_sint_le_bytes [of 4 d] by (simp add: le_sint_def le_uint_le_bytes in_srange_def)

lemma memcmp_take: "memcmp (take m a) (take m' b) n = memcmp a b n" if "n \<le> m" "n \<le> m'" for n
  using that
proof (induction a b n arbitrary: m m' rule: memcmp.induct)
  case (2 x a y b n)
  then show ?case by (cases m; cases m') auto
qed (auto simp: take_Cons' split: if_splits)

lemma sdscmp_ok:
  assumes "sds_ok s1" "sds_ok s2" "sds_len s1 < 2 ^ 31" "sds_len s2 < 2 ^ 31"
  shows "sgn (sdscmp s1 s2) = bytes_cmp (sds_val s1) (sds_val s2)"
proof -
  define m where "m = min (sds_len s1) (sds_len s2)"
  have l: "length (sds_val s1) = sds_len s1" "length (sds_val s2) = sds_len s2"
    using assms(1,2) by (simp_all add: length_sds_val)
  have c: "memcmp (sds_buf s1) (sds_buf s2) m = memcmp (sds_val s1) (sds_val s2) m"
    unfolding sds_val_def by (rule memcmp_take [symmetric]) (simp_all add: m_def)
  have m: "(if sds_len s1 < sds_len s2 then sds_len s1 else sds_len s2) = m" by (simp add: m_def)
  have d: "sext 4 ((int (sds_len s1) - int (sds_len s2)) mod 2 ^ 32) = int (sds_len s1) - int (sds_len s2)"
    using assms(3,4) by (intro sext4_small) simp_all
  have "sdscmp s1 s2 = (if memcmp (sds_val s1) (sds_val s2) m = 0
      then int (sds_len s1) - int (sds_len s2) else memcmp (sds_val s1) (sds_val s2) m)"
    unfolding sdscmp_def Let_def m c d ..
  then show ?thesis
    using memcmp_prefix [of "sds_val s1" "sds_val s2"] unfolding l m_def [symmetric] by simp
qed

subsection \<open>Numbers\<close>

lemma ull_digits_ok:
  "p + length (dec_nat v) \<le> length buf \<Longrightarrow>
   ull_digits buf p v = (splice p (rev (dec_nat v)) buf, p + length (dec_nat v))"
proof (induction buf p v rule: ull_digits.induct)
  case (1 buf p v)
  show ?case
  proof (cases "v < 10")
    case True
    with "1.prems" show ?thesis
      by (subst ull_digits.simps) (simp add: Let_def dec_nat_small list_update_splice)
  next
    case False
    then have d: "dec_nat v = dec_nat (v div 10) @ [digit (v mod 10)]" by (simp add: dec_nat_big)
    have v: "v div 10 \<noteq> 0" using False by linarith
    let ?buf = "buf[p := digit (v mod 10)]"
    have "ull_digits ?buf (p + 1) (v div 10) = (splice (p + 1) (rev (dec_nat (v div 10))) ?buf,
        p + 1 + length (dec_nat (v div 10)))"
      using "1.IH" [OF refl refl v] "1.prems" d by simp
    moreover have "splice (p + 1) (rev (dec_nat (v div 10))) ?buf
        = splice p (digit (v mod 10) # rev (dec_nat (v div 10))) buf"
      using "1.prems" d by (intro nth_equalityI) (auto simp: mem_simps nth_splice nth_list_update nth_Cons')
    ultimately show ?thesis using v d by (subst ull_digits.simps) (simp add: Let_def)
  qed
qed

lemma rev_loop_ok:
  "int s \<le> p + 1 \<Longrightarrow> p < int (length buf) \<Longrightarrow>
   length (rev_loop buf s p) = length buf \<and>
   (\<forall>i < length buf. rev_loop buf s p ! i =
      (if s \<le> i \<and> int i \<le> p then buf ! (s + nat p - i) else buf ! i))"
proof (induction buf s p rule: rev_loop.induct)
  case (1 buf s p)
  show ?case
  proof (cases "int s < p")
    case True
    define b1 where "b1 = buf[s := buf ! nat p, nat p := buf ! s]"
    have l: "length b1 = length buf" by (simp add: b1_def)
    have e: "rev_loop buf s p = rev_loop b1 (s + 1) (p - 1)"
      using True by (subst rev_loop.simps) (simp add: b1_def)
    have ih: "length (rev_loop b1 (s + 1) (p - 1)) = length b1 \<and>
      (\<forall>i < length b1. rev_loop b1 (s + 1) (p - 1) ! i =
        (if s + 1 \<le> i \<and> int i \<le> p - 1 then b1 ! (s + 1 + nat (p - 1) - i) else b1 ! i))"
    proof (rule "1.IH" [OF True, folded b1_def])
      show "int (s + 1) \<le> p - 1 + 1" "p - 1 < int (length b1)" using "1.prems" True l by linarith+
    qed
    show ?thesis unfolding e
    proof (intro conjI allI impI)
      show "length (rev_loop b1 (s + 1) (p - 1)) = length buf" using ih l by simp
      fix i assume i: "i < length buf"
      have sp: "s + 1 + nat (p - 1) = s + nat p" using True by linarith
      have np: "nat p < length buf" "s < nat p" using "1.prems" True by linarith+
      consider "i < s" | "i = s" | "s < i" "i < nat p" | "i = nat p" | "nat p < i" by linarith
      then show "rev_loop b1 (s + 1) (p - 1) ! i =
          (if s \<le> i \<and> int i \<le> p then buf ! (s + nat p - i) else buf ! i)"
      proof cases
        case 3
        then have "s < s + nat p - i" "s + nat p - i < nat p" by linarith+
        then have "b1 ! (s + nat p - i) = buf ! (s + nat p - i)" by (simp add: b1_def)
        moreover have "s + 1 \<le> i \<and> int i \<le> p - 1" "s \<le> i \<and> int i \<le> p" using 3 by linarith+
        moreover have "rev_loop b1 (s + 1) (p - 1) ! i =
            (if s + 1 \<le> i \<and> int i \<le> p - 1 then b1 ! (s + nat p - i) else b1 ! i)"
          using ih i unfolding l sp by blast
        ultimately show ?thesis by (simp only: if_True simp_thms)
      qed (use ih i l np True in \<open>auto simp: b1_def\<close>)
    qed
  next
    case False
    then have e: "rev_loop buf s p = buf" by (subst rev_loop.simps) simp
    have "s + nat p - i = i" if "s \<le> i" "int i \<le> p" for i using that False by linarith
    with e show ?thesis by auto
  qed
qed

lemma rev_loop_prefix:
  assumes "length xs \<le> length buf" "take (length xs) buf = rev xs"
  shows "take (length xs) (rev_loop buf 0 (int (length xs) - 1)) = xs"
    and "length (rev_loop buf 0 (int (length xs) - 1)) = length buf"
proof -
  have r: "length (rev_loop buf 0 (int (length xs) - 1)) = length buf"
    "\<And>i. i < length xs \<Longrightarrow> rev_loop buf 0 (int (length xs) - 1) ! i = buf ! (length xs - 1 - i)"
    using rev_loop_ok [of 0 "int (length xs) - 1" buf] assms(1) by (auto simp: nat_diff_distrib)
  show "take (length xs) (rev_loop buf 0 (int (length xs) - 1)) = xs"
  proof (rule nth_equalityI)
    fix i assume "i < length (take (length xs) (rev_loop buf 0 (int (length xs) - 1)))"
    then have i: "i < length xs" by simp
    then have "buf ! (length xs - 1 - i) = rev xs ! (length xs - 1 - i)"
      using assms(2) by (metis diff_less_Suc diff_Suc_eq_diff_pred less_imp_diff_less nth_take
          Suc_pred' length_greater_0_conv list.size(3) not_less_zero less_Suc_eq_le diff_le_self le_less_trans zero_less_one diff_less)
    also have "\<dots> = xs ! i" using i by (simp add: rev_nth)
    finally show "take (length xs) (rev_loop buf 0 (int (length xs) - 1)) ! i = xs ! i"
      using i r by simp
  qed (use r assms in simp)
  show "length (rev_loop buf 0 (int (length xs) - 1)) = length buf" by (rule r(1))
qed

lemma length_dec_int_le: "in_srange 8 v \<Longrightarrow> length (dec_int v) \<le> 20"
proof -
  assume "in_srange 8 v"
  then have "\<bar>v\<bar> < 10 ^ 19" by (auto simp: in_srange_def)
  then have "nat \<bar>v\<bar> < 10 ^ 19" by (simp add: nat_less_iff)
  then have "length (dec_nat (nat \<bar>v\<bar>)) \<le> 19" by (rule length_dec_nat_le) simp
  then show ?thesis by (cases "v < 0") (simp_all add: dec_int_def)
qed

lemma sdsll2str_ok:
  assumes "in_srange 8 v" "21 \<le> length buf"
  shows "\<exists>b. sdsll2str buf v = (length (dec_int v), b) \<and> take (length (dec_int v)) b = dec_int v \<and>
    length b = length buf"
proof -
  define u where "u = nat \<bar>v\<bar>"
  have u: "nat ((if v < 0 then - v else v) mod 2 ^ 64) = u"
    using assms(1) by (auto simp: u_def in_srange_def)
  have len: "length (dec_int v) \<le> 20" using assms(1) by (rule length_dec_int_le)
  have dec: "dec_int v = (if v < 0 then [45] else []) @ dec_nat u" by (simp add: dec_int_def u_def)
  define b1 where "b1 = splice 0 (rev (dec_nat u)) buf"
  have d: "ull_digits buf 0 u = (b1, length (dec_nat u))"
    using ull_digits_ok [of 0 u buf] len assms(2) dec by (simp add: b1_def split: if_splits)
  define b2 where "b2 = (if v < 0 then b1[length (dec_nat u) := 45] else b1)"
  define b3 where "b3 = b2[length (dec_int v) := 0]"
  have s: "sdsll2str buf v = (length (dec_int v), rev_loop b3 0 (int (length (dec_int v)) - 1))"
    unfolding sdsll2str_def Let_def u d prod.case b3_def b2_def by (simp add: dec)
  have l1: "length b1 = length buf" using len assms(2) dec by (simp add: b1_def length_splice split: if_splits)
  then have l: "length b3 = length buf" by (simp add: b3_def b2_def)
  have "take (length (dec_nat u)) b1 = rev (dec_nat u)"
    using take_splice_0 [of "rev (dec_nat u)" buf] by (simp add: b1_def)
  then have "take (length (dec_int v)) b2 = rev (dec_int v)"
    using len l1 assms(2) by (simp add: b2_def dec take_Suc_conv_app_nth)
  then have "take (length (dec_int v)) b3 = rev (dec_int v)" by (simp add: b3_def)
  from rev_loop_prefix [OF _ this] l len assms(2) s show ?thesis by auto
qed

lemma sdsfromlonglong_ok:
  assumes "in_srange 8 v"
  shows "sds_ok (sdsfromlonglong v) \<and> sds_val (sdsfromlonglong v) = dec_int v"
proof -
  obtain b where b: "sdsll2str (replicate SDS_LLSTR_SIZE 0) v = (length (dec_int v), b)"
    "take (length (dec_int v)) b = dec_int v" "length b = 21"
    using sdsll2str_ok [OF assms, of "replicate SDS_LLSTR_SIZE 0"] by (auto simp: SDS_LLSTR_SIZE_def)
  have "length (dec_int v) \<le> 20" using assms by (rule length_dec_int_le)
  with sdsnewlen_ok [of "length (dec_int v)" "Some b"] b show ?thesis
    by (simp add: sdsfromlonglong_def)
qed

subsection \<open>Splitting: correctness\<close>

fun join_sep :: "bytes \<Rightarrow> bytes list \<Rightarrow> bytes" where
  "join_sep sep [] = []"
| "join_sep sep [a] = a"
| "join_sep sep (a # b # ts) = a @ sep @ join_sep sep (b # ts)"

lemma join_sep_snoc: "join_sep sep (ts @ [a]) = concat (map (\<lambda>t. t @ sep) ts) @ a"
  by (induction ts rule: induct_list012) auto

text \<open>\<open>free_of sep t\<close>: the separator does not occur in the token.\<close>

definition free_of :: "bytes \<Rightarrow> bytes \<Rightarrow> bool" where
  "free_of sep t \<longleftrightarrow> (\<forall>i. i + length sep \<le> length t \<longrightarrow> slice i (length sep) t \<noteq> sep)"

lemma split_loop_ok:
  assumes "sep \<noteq> []" "start \<le> j" "j \<le> length s"
    and "concat (map (\<lambda>t. t @ sep) tokens) = take start s"
    and "\<forall>t \<in> set tokens. free_of sep t"
    and "\<forall>i. start \<le> i \<and> i < j \<longrightarrow> slice i (length sep) s \<noteq> sep"
  shows "join_sep sep (split_loop s sep start j tokens) = s \<and>
    (\<forall>t \<in> set (split_loop s sep start j tokens). free_of sep t)"
  using assms
proof (induction s sep start j tokens rule: split_loop.induct)
  case (1 s sep start j tokens)
  have free: "free_of sep (slice start k s)"
    if "start + k \<le> length s" "\<forall>i. start \<le> i \<and> i + length sep \<le> start + k \<longrightarrow> slice i (length sep) s \<noteq> sep" for k
    using that by (auto simp: free_of_def mem_simps add.commute)
  show ?case
  proof (cases "j + length sep \<le> length s")
    case False
    then have e: "split_loop s sep start j tokens = tokens @ [slice start (length s - start) s]"
      by (subst split_loop.simps) simp
    have "take start s @ slice start (length s - start) s = s"
      using "1.prems"(2,3) by (simp add: slice_def)
    moreover have "free_of sep (slice start (length s - start) s)"
      using "1.prems"(2,3,6) False by (intro free) auto
    ultimately show ?thesis using "1.prems"(4,5) unfolding e by (simp add: join_sep_snoc)
  next
    case True
    with "1.prems"(1) have g: "j + length sep \<le> length s \<and> sep \<noteq> []" by simp
    have m: "((length sep = 1 \<and> s ! j = sep ! 0) \<or> memcmp (drop j s) sep (length sep) = 0)
        \<longleftrightarrow> slice j (length sep) s = sep"
    proof -
      have "memcmp (drop j s) sep (length sep) = 0 \<longleftrightarrow> slice j (length sep) s = sep"
        using True by (simp add: memcmp_eq_0 slice_def)
      moreover have "slice j (length sep) s = sep" if "length sep = 1" "s ! j = sep ! 0"
        using that True by (cases sep) (auto simp: slice_def take_Suc hd_drop_conv_nth)
      ultimately show ?thesis by blast
    qed
    show ?thesis
    proof (cases "slice j (length sep) s = sep")
      case hit: True
      let ?t = "slice start (j - start) s"
      have e: "split_loop s sep start j tokens
          = split_loop s sep (j + length sep) (j + length sep - 1 + 1) (tokens @ [?t])"
        using g m hit by (subst split_loop.simps) simp
      have pos: "0 < length sep" using "1.prems"(1) by simp
      then have j1: "j + length sep - 1 + 1 = j + length sep" by linarith
      have "take (j + length sep) s = take start s @ ?t @ sep"
      proof -
        have "take (j + length sep) s = take j s @ slice j (length sep) s"
          by (simp add: take_add slice_def)
        moreover have "take (start + (j - start)) s = take start s @ ?t"
          unfolding take_add slice_def ..
        ultimately show ?thesis using hit "1.prems"(2) by simp
      qed
      moreover have "free_of sep ?t"
      proof (rule free)
        show "start + (j - start) \<le> length s" using "1.prems"(2,3) by simp
        show "\<forall>i. start \<le> i \<and> i + length sep \<le> start + (j - start) \<longrightarrow> slice i (length sep) s \<noteq> sep"
        proof (intro allI impI)
          fix i assume "start \<le> i \<and> i + length sep \<le> start + (j - start)"
          with pos "1.prems"(2) have "start \<le> i \<and> i < j" by linarith
          with "1.prems"(6) show "slice i (length sep) s \<noteq> sep" by blast
        qed
      qed
      ultimately show ?thesis unfolding e
        using "1.prems"(1,4,5) g by (intro "1.IH"(1) [OF g]) (use m hit j1 in auto)
    next
      case miss: False
      have e: "split_loop s sep start j tokens = split_loop s sep start (j + 1) tokens"
        using g m miss by (subst split_loop.simps) (simp only: if_True if_False simp_thms)
      have "j < length s" using g by (cases sep) auto
      then show ?thesis unfolding e using "1.prems" miss m
        by (intro "1.IH"(2) [OF g]) (auto simp: less_Suc_eq)
    qed
  qed
qed

text \<open>
  Splitting a non-empty string yields tokens none of which contains the separator, and the
  tokens joined with the separator give the string back.
\<close>
theorem sdssplitlen_correct:
  assumes "s \<noteq> []" "sep \<noteq> []"
  shows "\<exists>ts. sdssplitlen s sep = Some ts \<and> join_sep sep ts = s \<and> (\<forall>t. t \<in> set ts \<longrightarrow> free_of sep t)"
  using split_loop_ok [of sep 0 0 s "[]"] assms
  by (cases sep) (auto simp: sdssplitlen_def)

theorem sdssplitlen_correct_witness:
  "\<exists>ts. sdssplitlen [1, 9, 9, 2, 9] [9, 9] = Some ts \<and> join_sep [9, 9] ts = [1, 9, 9, 2, 9]"
  using sdssplitlen_correct [of "[1, 9, 9, 2, 9]" "[9, 9]"] by blast

lemma sdsjoin_app: "join_loop join argv sep
    = foldl sdscatlen join (case argv of [] \<Rightarrow> [] | a # as \<Rightarrow> cstr a # concat (map (\<lambda>b. [cstr sep, cstr b]) as))"
  by (induction join argv sep rule: join_loop.induct) (simp_all add: sdscat_def split: list.splits)

lemma sdsjoin_ok:
  assumes "length (join_sep (cstr sep) (map cstr argv)) \<le> SDS_MAX"
  shows "sds_ok (sdsjoin argv sep) \<and> sds_val (sdsjoin argv sep) = join_sep (cstr sep) (map cstr argv)"
proof -
  have c: "concat (case argv of [] \<Rightarrow> [] | a # as \<Rightarrow> cstr a # concat (map (\<lambda>b. [cstr sep, cstr b]) as))
      = join_sep (cstr sep) (map cstr argv)"
    by (induction argv rule: induct_list012) auto
  from sdsb.app_all [of sdsempty, unfolded sdsempty_ok] assms show ?thesis
    unfolding sdsjoin_def sdsjoin_app c [symmetric] by simp
qed

subsection \<open>Quoting: correctness\<close>

lemma sdscatrepr_ok:
  assumes "sds_ok s" "sds_len s + length (34 # concat (map repr_char p) @ [34]) \<le> SDS_MAX"
  shows "sds_ok (sdscatrepr s p) \<and>
    sds_val (sdscatrepr s p) = sds_val s @ 34 # concat (map repr_char p) @ [34]"
proof -
  have f: "foldl (\<lambda>s c. sdscatlen s (repr_char c)) r p = foldl sdscatlen r (map repr_char p)" for r
    by (induction p arbitrary: r) auto
  have "sdscatrepr s p = foldl sdscatlen s ([34] # map repr_char p @ [[34]])"
    by (simp add: sdscatrepr_def f)
  with sdsb.app_all [OF assms(1), of "[34] # map repr_char p @ [[34]]"] assms
  show ?thesis by (simp add: length_sds_val)
qed

lemma hex_char_ok:
  assumes "n < 16"
  shows "is_hex_digit (hex_char n) \<and> hex_digit_to_int (hex_char n) = n \<and> isprint (hex_char n) \<and>
    hex_char n \<noteq> 0"
proof -
  have "\<forall>n \<in> set [0..<16]. is_hex_digit (hex_char n) \<and> hex_digit_to_int (hex_char n) = n \<and>
      isprint (hex_char n) \<and> hex_char n \<noteq> 0"
    by code_simp
  with assms show ?thesis by simp
qed

lemma token_loop_repr_char:
  "token_loop InQ (repr_char c @ rest) cur = token_loop InQ rest (cur @ [c])"
proof -
  consider "c \<in> {92, 34, 10, 13, 9, 7, 8}" | "c \<notin> {92, 34, 10, 13, 9, 7, 8}" "isprint c"
    | "c \<notin> {92, 34, 10, 13, 9, 7, 8}" "\<not> isprint c" by blast
  then show ?thesis
  proof cases
    case 1
    then show ?thesis
      by (elim insertE emptyE) (simp_all add: repr_char_def token_loop.simps(4) unescape_def)
  next
    case 2
    then show ?thesis by (auto simp: repr_char_def token_loop.simps(4))
  next
    case 3
    define h where "h = unat c div 16"
    define l where "l = unat c mod 16"
    have "unat c < 256" using unsigned_less [of c, where ?'a = nat] by simp
    then have "h < 16" by (simp add: h_def less_mult_imp_div_less)
    moreover have "l < 16" by (simp add: l_def)
    moreover have "h * 16 + l = unat c" by (simp add: h_def l_def)
    moreover have "repr_char c = [92, 120, hex_char h, hex_char l]"
      using 3 by (simp add: repr_char_def h_def l_def)
    ultimately show ?thesis by (simp add: token_loop.simps(4) hex_char_ok)
  qed
qed

lemma token_loop_repr:
  "token_loop InQ (concat (map repr_char p) @ 34 # rest) cur =
    (if rest \<noteq> [] \<and> \<not> isspace (hd rest) then None else Some (cur @ p, rest))"
proof (induction p arbitrary: cur)
  case Nil
  then show ?case by (simp add: token_loop.simps(4))
next
  case (Cons c p)
  then show ?case by (simp add: token_loop_repr_char)
qed

definition repr :: "bytes \<Rightarrow> bytes" where
  "repr p = 34 # concat (map repr_char p) @ [34]"

lemma repr_char_no_nul: "0 \<notin> set (repr_char c)"
proof -
  have "unat c < 256" using unsigned_less [of c, where ?'a = nat] by simp
  then have h: "unat c div 16 < 16" by (simp add: less_mult_imp_div_less)
  from hex_char_ok [OF h] hex_char_ok [of "unat c mod 16"] show ?thesis
    by (auto simp: repr_char_def isprint_def)
qed

lemma args_loop_repr:
  "args_loop (join_sep [32] (map repr ps)) v = Some (v @ ps)"
proof (induction ps arbitrary: v rule: induct_list012)
  case 1
  then show ?case by (subst args_loop.simps) simp
next
  case (2 p)
  have q: "\<not> isspace 34" by (simp add: isspace_def)
  have "token_loop Bare (repr p) [] = Some (p, [])"
    using token_loop_repr [of p "[]" "[]"] by (simp add: repr_def token_loop.simps(6))
  moreover have "dropWhile isspace (repr p) = repr p" "repr p \<noteq> []" using q by (simp_all add: repr_def)
  moreover have "args_loop [] w = Some w" for w by (subst args_loop.simps) simp
  ultimately show ?case by (subst args_loop.simps) (simp add: Let_def)
next
  case (3 p p' ps)
  let ?r = "32 # join_sep [32] (map repr (p' # ps))"
  have q: "\<not> isspace 34" "isspace 32" by (simp_all add: isspace_def)
  have "token_loop Bare (repr p @ ?r) [] = Some (p, ?r)"
    using token_loop_repr [of p ?r "[]"] q by (simp add: repr_def token_loop.simps(6))
  moreover have "dropWhile isspace (repr p @ ?r) = repr p @ ?r" using q by (simp add: repr_def)
  moreover have "args_loop ?r w = args_loop (join_sep [32] (map repr (p' # ps))) w" for w
    using q by (subst (1 2) args_loop.simps) simp
  ultimately show ?case using "3.IH"(2) [of "v @ [p]"] by (subst args_loop.simps) (simp add: Let_def)
qed

text \<open>
  Quoting and parsing are inverse to each other: \<open>sdscatrepr\<close> appends the quoted form of its
  argument, and \<open>sdssplitargs\<close> on the quoted forms of any binary strings, separated by
  blanks, returns exactly these strings.
\<close>
theorem repr_splitargs_roundtrip:
  "sdssplitargs (join_sep [32] (map repr ps)) = Some ps \<and>
   (length (repr p) \<le> SDS_MAX \<longrightarrow> sds_val (sdscatrepr sdsempty p) = repr p)"
proof
  have "0 \<notin> set (join_sep [32] (map repr ps))"
    by (induction ps rule: induct_list012) (auto simp: repr_def repr_char_no_nul)
  then show "sdssplitargs (join_sep [32] (map repr ps)) = Some ps"
    using args_loop_repr [of ps "[]"] by (simp add: sdssplitargs_def cstr_id)
  show "length (repr p) \<le> SDS_MAX \<longrightarrow> sds_val (sdscatrepr sdsempty p) = repr p"
    using sdscatrepr_ok [of sdsempty p] by (simp add: repr_def)
qed

theorem repr_splitargs_roundtrip_witness:
  "length (repr [0, 34, 255]) \<le> SDS_MAX \<and>
   sds_val (sdscatrepr sdsempty [0, 34, 255]) = [34, 92, 120, 48, 48, 92, 34, 92, 120, 102, 102, 34] \<and>
   sdssplitargs (join_sep [32] (map repr [[0, 34, 255], [32]])) = Some [[0, 34, 255], [32]]"
proof -
  have r: "repr [0, 34, 255] = [34, 92, 120, 48, 48, 92, 34, 92, 120, 102, 102, 34]"
    by (simp add: repr_def repr_char_def isprint_def hex_char_def)
  then have l: "length (repr [0, 34, 255]) \<le> SDS_MAX" by (simp add: SDS_MAX_def SDS_MAX_PREALLOC_def)
  with repr_splitargs_roundtrip [of "[[0, 34, 255], [32]]" "[0, 34, 255]"] r show ?thesis by simp
qed

end
