(* ===== verification/Object.thy ===== *)
theory Object
  imports Sds
begin

text \<open>
  String objects, \<open>src/src/src/object.c\<close>: their three encodings (a string of its own, a string
  embedded in the object, an integer in place of the pointer), creation, the conversion
  between encodings, comparison and the reading of integers. The build is the 64 bit one, where
  \<open>PORT_LONG\<close> has 64 bits. \<open>shared.integers\<close> is a table of objects that is passed along
  because taking one counts a reference. Shown: whatever the encodings, every operation is a
  function of the byte strings the objects stand for (\<open>obj_val\<close>).
\<close>

datatype encoding = ENC_RAW | ENC_INT | ENC_EMBSTR

datatype sptr = Str sds | Num int

record robj =
  encoding :: encoding
  ptr :: sptr
  refcount :: int

type_synonym shared_ints = "int \<Rightarrow> robj"

definition sdsEncodedObject :: "robj \<Rightarrow> bool" where
  "sdsEncodedObject o1 \<longleftrightarrow> encoding o1 = ENC_RAW \<or> encoding o1 = ENC_EMBSTR"

fun ptr_sds :: "sptr \<Rightarrow> sds" where
  "ptr_sds (Str s) = s"
| "ptr_sds (Num v) = sdsempty"

fun ptr_num :: "sptr \<Rightarrow> int" where
  "ptr_num (Num v) = v"
| "ptr_num (Str s) = 0"

definition obj_val :: "robj \<Rightarrow> bytes" where
  "obj_val o1 = (case ptr o1 of Str s \<Rightarrow> sds_val s | Num v \<Rightarrow> dec_int v)"

definition obj_ok :: "robj \<Rightarrow> bool" where
  "obj_ok o1 \<longleftrightarrow>
     (case ptr o1 of
        Str s \<Rightarrow> sdsEncodedObject o1 \<and> sds_ok s
      | Num v \<Rightarrow> encoding o1 = ENC_INT \<and> in_srange 8 v)"

subsection \<open>Creation\<close>

definition createObject :: "sptr \<Rightarrow> robj" where
  "createObject p = \<lparr>encoding = ENC_RAW, ptr = p, refcount = 1\<rparr>"

definition createRawStringObject :: "bytes option \<Rightarrow> nat \<Rightarrow> robj" where
  "createRawStringObject p len = createObject (Str (sdsnewlen p len))"

definition createEmbeddedStringObject :: "bytes option \<Rightarrow> nat \<Rightarrow> robj" where
  "createEmbeddedStringObject p len =
     \<lparr>encoding = ENC_EMBSTR,
      ptr = Str \<lparr>sds_len = u32 (int len), sds_free = 0,
                 sds_buf = (case p of Some b \<Rightarrow> take len b @ [0] | None \<Rightarrow> replicate (len + 1) 0)\<rparr>,
      refcount = 1\<rparr>"

definition EMBSTR_SIZE_LIMIT :: nat where "EMBSTR_SIZE_LIMIT = 39"

definition createStringObject :: "bytes option \<Rightarrow> nat \<Rightarrow> robj" where
  "createStringObject p len =
     (if len \<le> EMBSTR_SIZE_LIMIT then createEmbeddedStringObject p len
      else createRawStringObject p len)"

definition SHARED_INTEGERS :: int where "SHARED_INTEGERS = 10000"

definition incrRefCount :: "robj \<Rightarrow> robj" where
  "incrRefCount o1 = o1\<lparr>refcount := refcount o1 + 1\<rparr>"

text \<open>\<open>None\<close>: the object was freed. A count that is not positive is a panic in the code.\<close>

datatype decr_result = Freed | Panicked | Kept robj

definition decrRefCount :: "robj \<Rightarrow> decr_result" where
  "decrRefCount o1 =
     (if refcount o1 \<le> 0 then Panicked
      else if refcount o1 = 1 then Freed
      else Kept (o1\<lparr>refcount := refcount o1 - 1\<rparr>))"

definition createStringObjectFromLongLong :: "shared_ints \<Rightarrow> int \<Rightarrow> robj \<times> shared_ints" where
  "createStringObjectFromLongLong sh value =
     (if 0 \<le> value \<and> value < SHARED_INTEGERS then
        let o1 = incrRefCount (sh value) in (o1, sh(value := o1))
      else if value \<ge> LLONG_MIN \<and> value \<le> LLONG_MAX then
        ((createObject (Num value))\<lparr>encoding := ENC_INT\<rparr>, sh)
      else (createObject (Str (sdsfromlonglong value)), sh))"

definition dupStringObject :: "robj \<Rightarrow> robj" where
  "dupStringObject o1 =
     (case encoding o1 of
        ENC_RAW \<Rightarrow> createRawStringObject (Some (sds_buf (ptr_sds (ptr o1)))) (sds_len (ptr_sds (ptr o1)))
      | ENC_EMBSTR \<Rightarrow> createEmbeddedStringObject (Some (sds_buf (ptr_sds (ptr o1)))) (sds_len (ptr_sds (ptr o1)))
      | ENC_INT \<Rightarrow> (createObject (ptr o1))\<lparr>encoding := ENC_INT\<rparr>)"

subsection \<open>Encodings\<close>

definition isObjectRepresentableAsLongLong :: "robj \<Rightarrow> int option" where
  "isObjectRepresentableAsLongLong o1 =
     (if encoding o1 = ENC_INT then Some (ptr_num (ptr o1)) else string2ll (sds_val (ptr_sds (ptr o1))))"

text \<open>\<open>maxmemory\<close> and \<open>policy\<close> are the fields of \<open>server\<close>; 0 and 3 are the two LRU policies.\<close>

definition tryObjectEncoding ::
  "nat \<Rightarrow> nat \<Rightarrow> shared_ints \<Rightarrow> robj \<Rightarrow> robj \<times> shared_ints" where
  "tryObjectEncoding maxmemory policy sh o1 =
     (if \<not> sdsEncodedObject o1 then (o1, sh)
      else if refcount o1 > 1 then (o1, sh)
      else
        let s = ptr_sds (ptr o1);
            len = sds_len s
        in case (if len \<le> 21 then string2l True (sds_val s) else None) of
             Some value \<Rightarrow>
               if (maxmemory = 0 \<or> (policy \<noteq> 0 \<and> policy \<noteq> 3)) \<and> 0 \<le> value \<and> value < SHARED_INTEGERS
               then (let o2 = incrRefCount (sh value) in (o2, sh(value := o2)))
               else (o1\<lparr>encoding := ENC_INT, ptr := Num value\<rparr>, sh)
           | None \<Rightarrow>
               if len \<le> EMBSTR_SIZE_LIMIT then
                 (if encoding o1 = ENC_EMBSTR then (o1, sh)
                  else (createEmbeddedStringObject (Some (sds_buf s)) (sds_len s), sh))
               else if encoding o1 = ENC_RAW \<and> sds_free s > len div 10
               then (o1\<lparr>ptr := Str (sdsRemoveFreeSpace s)\<rparr>, sh)
               else (o1, sh))"

text \<open>A new object for an integer; the object itself with one more reference otherwise.\<close>

definition getDecodedObject :: "robj \<Rightarrow> robj" where
  "getDecodedObject o1 =
     (if sdsEncodedObject o1 then incrRefCount o1
      else let buf = snd (ll2string (replicate 32 0) 32 (ptr_num (ptr o1)))
           in createStringObject (Some buf) (length (cstr buf)))"

subsection \<open>Comparison and length\<close>

text \<open>The bytes to compare and their number: the string, or the integer printed on the stack.\<close>

definition text_of :: "robj \<Rightarrow> bytes \<times> nat" where
  "text_of o1 =
     (if sdsEncodedObject o1 then (sds_buf (ptr_sds (ptr o1)), sds_len (ptr_sds (ptr o1)))
      else case ll2string (replicate 128 0) 128 (ptr_num (ptr o1)) of (n, buf) \<Rightarrow> (buf, n))"

definition compareStringObjects :: "robj \<Rightarrow> robj \<Rightarrow> int" where
  "compareStringObjects a b =
     (case text_of a of
        (astr, alen) \<Rightarrow>
          (case text_of b of
             (bstr, blen) \<Rightarrow>
               let minlen = (if alen < blen then alen else blen);
                   cmp = memcmp astr bstr minlen
               in if cmp = 0 then sext 4 ((int alen - int blen) mod 2 ^ 32) else cmp))"

definition equalStringObjects :: "robj \<Rightarrow> robj \<Rightarrow> bool" where
  "equalStringObjects a b =
     (if encoding a = ENC_INT \<and> encoding b = ENC_INT then ptr_num (ptr a) = ptr_num (ptr b)
      else compareStringObjects a b = 0)"

definition stringObjectLen :: "robj \<Rightarrow> nat" where
  "stringObjectLen o1 =
     (if sdsEncodedObject o1 then sds_len (ptr_sds (ptr o1))
      else fst (ll2string (replicate 32 0) 32 (ptr_num (ptr o1))))"

text \<open>The reading of an integer argument or value; \<open>None\<close> for the object is a missing key, the
  result \<open>None\<close> is \<open>REDIS_ERR\<close>.\<close>

definition getLongLongFromObject :: "robj option \<Rightarrow> int option" where
  "getLongLongFromObject o1 =
     (case o1 of
        None \<Rightarrow> Some 0
      | Some ob \<Rightarrow>
          if sdsEncodedObject ob then
            (let s = sds_buf (ptr_sds (ptr ob))
             in case strtoll_full (cstr s) of
                  (value, rest, erange) \<Rightarrow>
                    if isspace (s ! 0) \<or> rest \<noteq> [] \<or> erange then None else Some value)
          else Some (ptr_num (ptr ob)))"

definition LRU_CLOCK_MAX :: nat where "LRU_CLOCK_MAX = 2 ^ 24 - 1"

definition estimateObjectIdleTime :: "nat \<Rightarrow> nat \<Rightarrow> nat" where
  "estimateObjectIdleTime lruclock lru =
     (if lruclock \<ge> lru then (lruclock - lru) * 1000
      else (lruclock + (LRU_CLOCK_MAX - lru)) * 1000)"

subsection \<open>Facts about creation\<close>

lemma obj_cases [consumes 1]:
  assumes "obj_ok o1"
  obtains (str) s where "ptr o1 = Str s" "sdsEncodedObject o1" "encoding o1 \<noteq> ENC_INT" "sds_ok s"
  | (num) v where "ptr o1 = Num v" "\<not> sdsEncodedObject o1" "encoding o1 = ENC_INT" "in_srange 8 v"
  using assms by (cases "ptr o1") (auto simp: obj_ok_def sdsEncodedObject_def)

lemma createEmbedded_ok:
  assumes "n < 2 ^ 32" "n \<le> length b"
  shows "obj_ok (createEmbeddedStringObject (Some b) n) \<and>
    obj_val (createEmbeddedStringObject (Some b) n) = take n b"
  using assms
  by (simp add: createEmbeddedStringObject_def obj_ok_def obj_val_def sdsEncodedObject_def sds_ok_def
      sds_val_def nth_append min_def)

lemma createRaw_ok:
  assumes "n < 2 ^ 32" "n \<le> length b"
  shows "obj_ok (createRawStringObject (Some b) n) \<and> obj_val (createRawStringObject (Some b) n) = take n b"
  using assms sdsnewlen_ok [of n "Some b"]
  by (simp add: createRawStringObject_def createObject_def obj_ok_def obj_val_def sdsEncodedObject_def)

lemma createString_ok:
  assumes "n < 2 ^ 32" "n \<le> length b"
  shows "obj_ok (createStringObject (Some b) n) \<and> obj_val (createStringObject (Some b) n) = take n b"
  using assms createEmbedded_ok createRaw_ok by (simp add: createStringObject_def)

lemma createString_enc [simp]: "sdsEncodedObject (createStringObject p n)"
  by (simp add: createStringObject_def createEmbeddedStringObject_def createRawStringObject_def
      createObject_def sdsEncodedObject_def)

text \<open>The table of shared integers as \<open>createSharedObjects\<close> sets it up.\<close>

definition shared_ok :: "shared_ints \<Rightarrow> bool" where
  "shared_ok sh \<longleftrightarrow> (\<forall>v. 0 \<le> v \<and> v < SHARED_INTEGERS \<longrightarrow> encoding (sh v) = ENC_INT \<and> ptr (sh v) = Num v)"

lemma shared_take:
  assumes "shared_ok sh" "0 \<le> v" "v < SHARED_INTEGERS"
  shows "obj_ok (incrRefCount (sh v))" "obj_val (incrRefCount (sh v)) = dec_int v"
    "shared_ok (sh(v := incrRefCount (sh v)))" "encoding (incrRefCount (sh v)) = ENC_INT"
  using assms
  by (auto simp: shared_ok_def incrRefCount_def obj_ok_def obj_val_def SHARED_INTEGERS_def in_srange_def)

lemma createFromLongLong_ok:
  assumes "shared_ok sh" "in_srange 8 v" "createStringObjectFromLongLong sh v = (o1, sh')"
  shows "obj_ok o1 \<and> obj_val o1 = dec_int v \<and> encoding o1 = ENC_INT \<and> shared_ok sh'"
proof (cases "0 \<le> v \<and> v < SHARED_INTEGERS")
  case True
  with assms shared_take [OF assms(1)] show ?thesis
    by (auto simp: createStringObjectFromLongLong_def Let_def)
next
  case False
  have "LLONG_MIN \<le> v \<and> v \<le> LLONG_MAX"
    using assms(2) by (simp add: in_srange_def LLONG_MIN_def LLONG_MAX_def)
  with False assms show ?thesis
    by (auto simp: createStringObjectFromLongLong_def createObject_def obj_ok_def obj_val_def)
qed

lemma string2l_dec: "string2l True s = Some v \<longleftrightarrow> in_srange 8 v \<and> s = dec_int v"
  by (simp add: string2ll_iff)

lemma tryObjectEncoding_ok:
  assumes "obj_ok o1" "shared_ok sh" "tryObjectEncoding maxmemory policy sh o1 = (o2, sh')"
  shows "obj_ok o2 \<and> obj_val o2 = obj_val o1 \<and> shared_ok sh' \<and>
    (encoding o2 = ENC_INT \<longleftrightarrow> encoding o1 = ENC_INT \<or>
       refcount o1 \<le> 1 \<and> (\<exists>v. in_srange 8 v \<and> obj_val o1 = dec_int v))"
  using assms(1)
proof (cases rule: obj_cases)
  case (num v)
  with assms show ?thesis by (simp add: tryObjectEncoding_def)
next
  case (str s)
  have val: "obj_val o1 = sds_val s" using str by (simp add: obj_val_def)
  show ?thesis
  proof (cases "refcount o1 > 1")
    case True
    with str assms show ?thesis by (auto simp: tryObjectEncoding_def)
  next
    case ref: False
    have len: "length (sds_val s) = sds_len s" using str(4) by (rule length_sds_val)
    show ?thesis
    proof (cases "\<exists>v. in_srange 8 v \<and> sds_val s = dec_int v")
      case True
      then obtain v where v: "in_srange 8 v" "sds_val s = dec_int v" by blast
      then have "string2l True (sds_val s) = Some v" by (simp add: string2ll_iff)
      moreover have "sds_len s \<le> 21" using length_dec_int_le [OF v(1)] v(2) len by simp
      ultimately have e: "tryObjectEncoding maxmemory policy sh o1 =
        (if (maxmemory = 0 \<or> (policy \<noteq> 0 \<and> policy \<noteq> 3)) \<and> 0 \<le> v \<and> v < SHARED_INTEGERS
         then (incrRefCount (sh v), sh(v := incrRefCount (sh v)))
         else (o1\<lparr>encoding := ENC_INT, ptr := Num v\<rparr>, sh))"
        using str ref by (auto simp: tryObjectEncoding_def Let_def)
      show ?thesis
      proof (cases "(maxmemory = 0 \<or> (policy \<noteq> 0 \<and> policy \<noteq> 3)) \<and> 0 \<le> v \<and> v < SHARED_INTEGERS")
        case True
        with e assms(3) have "o2 = incrRefCount (sh v)" "sh' = sh(v := incrRefCount (sh v))" by auto
        with shared_take [OF assms(2)] True v val ref show ?thesis by auto
      next
        case False
        then have "o2 = o1\<lparr>encoding := ENC_INT, ptr := Num v\<rparr>" "sh' = sh" using e assms(3) by auto
        with v val ref assms(2) show ?thesis by (auto simp: obj_ok_def obj_val_def)
      qed
    next
      case False
      then have none: "string2l True (sds_val s) = None"
        by (cases "string2l True (sds_val s)") (auto simp: string2ll_iff)
      then have none': "(if sds_len s \<le> 21 then string2l True (sds_val s) else None) = None" by simp
      then have e: "(o2, sh') =
        (if sds_len s \<le> EMBSTR_SIZE_LIMIT then
           (if encoding o1 = ENC_EMBSTR then (o1, sh)
            else (createEmbeddedStringObject (Some (sds_buf s)) (sds_len s), sh))
         else if encoding o1 = ENC_RAW \<and> sds_free s > sds_len s div 10
         then (o1\<lparr>ptr := Str (sdsRemoveFreeSpace s)\<rparr>, sh)
         else (o1, sh))"
        using assms(3) str(2) ref
        unfolding tryObjectEncoding_def Let_def str(1) ptr_sds.simps none' option.case by simp
      have "obj_ok o2 \<and> obj_val o2 = obj_val o1 \<and> shared_ok sh' \<and> encoding o2 \<noteq> ENC_INT"
      proof -
        have c: "obj_ok (createEmbeddedStringObject (Some (sds_buf s)) (sds_len s))"
          "obj_val (createEmbeddedStringObject (Some (sds_buf s)) (sds_len s)) = sds_val s"
          "encoding (createEmbeddedStringObject (Some (sds_buf s)) (sds_len s)) \<noteq> ENC_INT"
          using createEmbedded_ok [of "sds_len s" "sds_buf s"] str(4)
          by (simp_all add: sds_ok_def sds_val_def createEmbeddedStringObject_def)
        have r: "obj_ok (o1\<lparr>ptr := Str (sdsRemoveFreeSpace s)\<rparr>)"
          "obj_val (o1\<lparr>ptr := Str (sdsRemoveFreeSpace s)\<rparr>) = sds_val s"
          using sdsRemoveFreeSpace_ok [OF str(4)] str(2)
          by (simp_all add: obj_ok_def obj_val_def sdsEncodedObject_def)
        from e c r assms(1,2) val str(3) show ?thesis by (auto split: if_splits)
      qed
      with False val str(3) ref show ?thesis by auto
    qed
  qed
qed

text \<open>
  Re-encoding a string object never changes the byte string it stands for, and keeps the
  object and the table of shared integers well formed; an unshared string object becomes integer
  encoded exactly when its string is the canonical decimal notation of a 64 bit integer.
\<close>
theorem tryObjectEncoding_correct:
  assumes "obj_ok o1" "shared_ok sh" "tryObjectEncoding maxmemory policy sh o1 = (o2, sh')"
  shows "obj_ok o2 \<and> obj_val o2 = obj_val o1 \<and> shared_ok sh' \<and>
    (encoding o2 = ENC_INT \<longleftrightarrow> encoding o1 = ENC_INT \<or>
       refcount o1 \<le> 1 \<and> (\<exists>v. in_srange 8 v \<and> obj_val o1 = dec_int v))"
  by (rule tryObjectEncoding_ok [OF assms])

theorem tryObjectEncoding_correct_witness:
  "let o1 = createRawStringObject (Some [45, 55]) 2;
       sh = (\<lambda>v. \<lparr>encoding = ENC_INT, ptr = Num v, refcount = 1\<rparr>);
       r = tryObjectEncoding 0 0 sh o1
   in obj_val o1 = dec_int (-7) \<and> obj_val (fst r) = obj_val o1 \<and> encoding (fst r) = ENC_INT"
proof -
  define o1 where "o1 = createRawStringObject (Some [45, 55]) 2"
  define sh :: shared_ints where "sh = (\<lambda>v. \<lparr>encoding = ENC_INT, ptr = Num v, refcount = 1\<rparr>)"
  obtain o2 sh' where r: "tryObjectEncoding 0 0 sh o1 = (o2, sh')" by fastforce
  have o: "obj_ok o1" "obj_val o1 = [45, 55]" "refcount o1 = 1"
    using createRaw_ok [of 2 "[45, 55]"]
    by (simp_all add: o1_def createRawStringObject_def createObject_def)
  have d: "dec_int (-7) = [45, 55]" by (simp add: dec_int_def dec_nat_small digit_def)
  have "in_srange 8 (-7)" by (simp add: in_srange_def)
  moreover have "shared_ok sh" by (simp add: shared_ok_def sh_def)
  ultimately show ?thesis
    using tryObjectEncoding_correct [OF o(1) _ r] o(2,3) d r
    unfolding o1_def [symmetric] sh_def [symmetric] Let_def by (auto intro!: exI [of _ "-7"])
qed

subsection \<open>Facts about comparison\<close>

lemma text_of_ok:
  assumes "obj_ok o1"
  shows "\<exists>buf. text_of o1 = (buf, length (obj_val o1)) \<and> length (obj_val o1) \<le> length buf \<and>
    take (length (obj_val o1)) buf = obj_val o1"
  using assms
proof (cases rule: obj_cases)
  case (str s)
  have "length (sds_val s) = sds_len s" using str(4) by (rule length_sds_val)
  with str show ?thesis by (simp add: text_of_def obj_val_def sds_val_def sds_ok_def)
next
  case (num v)
  have l: "length (dec_int v) \<le> 20" using num(4) by (rule length_dec_int_le)
  have p: "ll2string (replicate 128 0) 128 v
      = (length (dec_int v), splice 0 (dec_int v @ [0]) (replicate 128 0))"
    using ll2string_small [OF num(4), of 128 "replicate 128 0"] by simp
  have "length (splice 0 (dec_int v @ [0]) (replicate 128 0)) = 128"
    using l by (simp add: length_splice)
  moreover have "take (length (dec_int v)) (splice 0 (dec_int v @ [0]) (replicate 128 0)) = dec_int v"
    by (simp add: splice_def)
  ultimately show ?thesis using num p l by (simp add: text_of_def obj_val_def)
qed

lemma compareStringObjects_ok:
  assumes "obj_ok a" "obj_ok b" "length (obj_val a) < 2 ^ 31" "length (obj_val b) < 2 ^ 31"
  shows "sgn (compareStringObjects a b) = bytes_cmp (obj_val a) (obj_val b)"
proof -
  obtain bufa bufb where t: "text_of a = (bufa, length (obj_val a))" "text_of b = (bufb, length (obj_val b))"
    "take (length (obj_val a)) bufa = obj_val a" "take (length (obj_val b)) bufb = obj_val b"
    using text_of_ok [OF assms(1)] text_of_ok [OF assms(2)] by blast
  define m where "m = min (length (obj_val a)) (length (obj_val b))"
  have m: "(if length (obj_val a) < length (obj_val b) then length (obj_val a) else length (obj_val b)) = m"
    by (simp add: m_def)
  have c: "memcmp bufa bufb m = memcmp (obj_val a) (obj_val b) m"
    using memcmp_take [of m "length (obj_val a)" "length (obj_val b)" bufa bufb]
    unfolding t(3,4) by (simp add: m_def)
  have d: "sext 4 ((int (length (obj_val a)) - int (length (obj_val b))) mod 2 ^ 32)
      = int (length (obj_val a)) - int (length (obj_val b))"
    using assms(3,4) by (intro sext4_small) simp_all
  show ?thesis
    using memcmp_prefix [of "obj_val a" "obj_val b"]
    unfolding compareStringObjects_def t(1,2) prod.case Let_def m c d m_def [symmetric] by simp
qed

text \<open>
  Comparing two string objects orders the byte strings they stand for, bytes as unsigned
  numbers and a proper prefix first, whatever their encodings; equality is equality of the
  strings, also where only the stored integers are compared.
\<close>
theorem compareStringObjects_correct:
  assumes "obj_ok a" "obj_ok b" "length (obj_val a) < 2 ^ 31" "length (obj_val b) < 2 ^ 31"
  shows "sgn (compareStringObjects a b) = bytes_cmp (obj_val a) (obj_val b) \<and>
    equalStringObjects a b = (obj_val a = obj_val b)"
proof
  show c: "sgn (compareStringObjects a b) = bytes_cmp (obj_val a) (obj_val b)"
    using assms by (rule compareStringObjects_ok)
  show "equalStringObjects a b = (obj_val a = obj_val b)"
  proof (cases "encoding a = ENC_INT \<and> encoding b = ENC_INT")
    case True
    obtain v where v: "ptr a = Num v" "in_srange 8 v" using assms(1) True by (cases rule: obj_cases) auto
    obtain w where w: "ptr b = Num w" "in_srange 8 w" using assms(2) True by (cases rule: obj_cases) auto
    have "dec_int v = dec_int w \<longleftrightarrow> v = w"
      using string2ll_dec_int [OF v(2)] string2ll_dec_int [OF w(2)] by (metis option.inject)
    with True v w show ?thesis by (simp add: equalStringObjects_def obj_val_def)
  next
    case False
    then have "equalStringObjects a b = (sgn (compareStringObjects a b) = 0)"
      by (auto simp: equalStringObjects_def sgn_0_0)
    with c show ?thesis by (simp add: bytes_cmp_0_iff)
  qed
qed

theorem compareStringObjects_correct_witness:
  "let a = createStringObject (Some [49, 48]) 2; b = (createObject (Num 9))\<lparr>encoding := ENC_INT\<rparr>
   in obj_ok a \<and> obj_ok b \<and> sgn (compareStringObjects a b) = -1 \<and> \<not> equalStringObjects a b"
proof -
  let ?a = "createStringObject (Some [49, 48]) 2"
  let ?b = "(createObject (Num 9))\<lparr>encoding := ENC_INT\<rparr>"
  have a: "obj_ok ?a" "obj_val ?a = [49, 48]" using createString_ok [of 2 "[49, 48]"] by simp_all
  have b: "obj_ok ?b" "obj_val ?b = [57]"
    by (simp_all add: obj_ok_def createObject_def in_srange_def obj_val_def dec_int_def dec_nat_small digit_def)
  from compareStringObjects_correct [OF a(1) b(1)] a b show ?thesis by (simp add: Let_def)
qed

lemma stringObjectLen_ok:
  assumes "obj_ok o1"
  shows "stringObjectLen o1 = length (obj_val o1)"
  using assms
proof (cases rule: obj_cases)
  case (str s)
  then show ?thesis by (simp add: stringObjectLen_def obj_val_def length_sds_val)
next
  case (num v)
  with ll2string_small [OF num(4), of 32 "replicate 32 0"] show ?thesis
    by (simp add: stringObjectLen_def obj_val_def)
qed

lemma getDecodedObject_ok:
  assumes "obj_ok o1"
  shows "obj_ok (getDecodedObject o1) \<and> obj_val (getDecodedObject o1) = obj_val o1 \<and>
    sdsEncodedObject (getDecodedObject o1)"
  using assms
proof (cases rule: obj_cases)
  case (str s)
  then show ?thesis
    by (simp add: getDecodedObject_def incrRefCount_def obj_ok_def obj_val_def sdsEncodedObject_def)
next
  case (num v)
  define b :: bytes where "b = splice 0 (dec_int v @ [0]) (replicate 32 0)"
  have l: "length (dec_int v) \<le> 20" using num(4) by (rule length_dec_int_le)
  have p: "snd (ll2string (replicate 32 0) 32 v) = b"
    using ll2string_small [OF num(4), of 32 "replicate 32 0"] by (simp add: b_def)
  have "0 \<notin> set (dec_int v)" using dec_int_no_nul by blast
  then have c: "cstr b = dec_int v" by (simp add: b_def splice_def cstr_append_nul)
  have lb: "length b = 32" using l by (simp add: b_def length_splice)
  have tb: "take (length (dec_int v)) b = dec_int v" by (simp add: b_def splice_def)
  have "getDecodedObject o1 = createStringObject (Some b) (length (dec_int v))"
    using num p c by (simp add: getDecodedObject_def)
  with createString_ok [of "length (dec_int v)" b] l lb tb num(1) show ?thesis
    by (simp add: obj_val_def)
qed

subsection \<open>Reading integers\<close>

lemma strtoll_full_iff:
  assumes "s = [] \<or> \<not> isspace (hd s)"
  shows "strtoll_full s = (n, [], False) \<longleftrightarrow>
    (s = [] \<and> n = 0) \<or>
    (\<exists>sgn ds. s = sgn @ ds \<and> sgn \<in> {[], [43], [45]} \<and> ds \<noteq> [] \<and> (\<forall>c \<in> set ds. is_digit c) \<and>
       n = (if sgn = [45] then - int (dec_val 0 ds) else int (dec_val 0 ds)) \<and> in_srange 8 n)"
    (is "_ \<longleftrightarrow> _ \<or> ?R")
proof (cases "s = []")
  case True
  then show ?thesis by (auto simp: strtoll_full_def)
next
  case False
  have dw: "dropWhile isspace s = s" using assms by (cases s) auto
  define sg where "sg = (if hd s = 45 then [45] else if hd s = 43 then [43] else [] :: bytes)"
  define q where "q = (if hd s = 45 \<or> hd s = 43 then tl s else s)"
  have sq: "s = sg @ q" "sg \<in> {[], [43], [45]}" using False by (cases s; auto simp: sg_def q_def)+
  define v where "v = (if sg = [45] then - int (dec_val 0 (takeWhile is_digit q))
    else int (dec_val 0 (takeWhile is_digit q)))"
  have r: "strtoll_full s = (if takeWhile is_digit q = [] then (0, s, False)
    else (max LLONG_MIN (min LLONG_MAX v), dropWhile is_digit q, v < LLONG_MIN \<or> v > LLONG_MAX))"
    using False dw by (simp add: strtoll_full_def Let_def q_def v_def sg_def)
  have rng: "in_srange 8 v \<longleftrightarrow> \<not> (v < LLONG_MIN \<or> v > LLONG_MAX)"
    by (auto simp: in_srange_def LLONG_MIN_def LLONG_MAX_def)
  have uniq: "sgn = sg \<and> ds = q"
    if "s = sgn @ ds" "sgn \<in> {[], [43], [45]}" "ds \<noteq> []" "\<forall>c \<in> set ds. is_digit c" for sgn ds
  proof -
    have "is_digit (hd ds)" using that(3,4) by simp
    then have "hd ds \<noteq> 45 \<and> hd ds \<noteq> 43" using is_digit_not_sign by blast
    with that(1-3) show ?thesis by (auto simp: sg_def q_def)
  qed
  show ?thesis
  proof (cases "q \<noteq> [] \<and> (\<forall>c \<in> set q. is_digit c)")
    case True
    then have t: "takeWhile is_digit q = q" "dropWhile is_digit q = []"
      by (auto simp: takeWhile_eq_all_conv dropWhile_eq_Nil_conv)
    have v: "v = (if sg = [45] then - int (dec_val 0 q) else int (dec_val 0 q))" by (simp add: v_def t)
    have "?R \<longleftrightarrow> n = v \<and> in_srange 8 v"
    proof
      assume ?R
      then obtain sgn ds where sd: "s = sgn @ ds" "sgn \<in> {[], [43], [45]}" "ds \<noteq> []"
        "\<forall>c \<in> set ds. is_digit c"
        "n = (if sgn = [45] then - int (dec_val 0 ds) else int (dec_val 0 ds))" "in_srange 8 n" by blast
      from uniq [OF sd(1-4)] sd(5) have "n = v" by (simp only: v)
      with sd(6) show "n = v \<and> in_srange 8 v" by simp
    next
      assume "n = v \<and> in_srange 8 v"
      with sq True v show ?R by blast
    qed
    moreover have "max LLONG_MIN (min LLONG_MAX v) = v" if "in_srange 8 v"
      using that by (simp add: rng)
    ultimately show ?thesis using r t True False rng by auto
  next
    case no: False
    then have "\<not> ?R" using uniq by blast
    moreover have "strtoll_full s \<noteq> (n, [], False)"
    proof
      assume "strtoll_full s = (n, [], False)"
      with r False have q: "takeWhile is_digit q \<noteq> [] \<and> [] = dropWhile is_digit q"
        by (auto split: if_splits)
      then have "\<forall>c \<in> set q. is_digit c" by (metis dropWhile_eq_Nil_conv)
      moreover have "q \<noteq> []" using q by auto
      ultimately show False using no by blast
    qed
    ultimately show ?thesis using False by simp
  qed
qed

text \<open>
  An integer is read from a string object exactly when its bytes before the first NUL are
  empty (the value is then 0), or an optional sign and decimal digits in the 64 bit range;
  what follows an embedded NUL byte is ignored.
\<close>
theorem getLongLongFromObject_correct:
  assumes "obj_ok o1" "encoding o1 \<noteq> ENC_INT" "s = cstr (obj_val o1)"
  shows "getLongLongFromObject (Some o1) = Some n \<longleftrightarrow>
    (s = [] \<and> n = 0) \<or>
    (\<exists>sgn ds. s = sgn @ ds \<and> sgn \<in> {[], [43], [45]} \<and> ds \<noteq> [] \<and> set ds \<subseteq> Collect is_digit \<and>
       n = (if sgn = [45] then - int (dec_val 0 ds) else int (dec_val 0 ds)) \<and> in_srange 8 n)"
proof -
  obtain t where t: "ptr o1 = Str t" "sdsEncodedObject o1" "sds_ok t"
    using assms(1,2) by (cases rule: obj_cases) auto
  have b: "sds_buf t = sds_val t @ 0 # drop (sds_len t + 1) (sds_buf t)"
    using t(3) unfolding sds_ok_def sds_val_def by (metis Suc_eq_plus1 id_take_nth_drop less_add_Suc1 add_Suc_right add_Suc)
  have c: "cstr (sds_buf t) = s"
  proof -
    have "cstr (v @ 0 # w) = cstr v" for v w :: bytes by (induction v) (auto simp: cstr_def)
    with b show ?thesis using assms(3) t(1) by (metis obj_val_def sptr.simps(5))
  qed
  have ne: "sds_buf t \<noteq> []" using b by auto
  have sp: "isspace (sds_buf t ! 0) \<longleftrightarrow> s \<noteq> [] \<and> isspace (hd s)"
    using ne unfolding c [symmetric] by (cases "sds_buf t") (auto simp: cstr_def isspace_def)
  show ?thesis
  proof (cases "s \<noteq> [] \<and> isspace (hd s)")
    case True
    then have "getLongLongFromObject (Some o1) = None"
      using t sp by (simp add: getLongLongFromObject_def Let_def split: prod.splits)
    moreover have "\<not> (\<exists>sgn ds. s = sgn @ ds \<and> sgn \<in> {[], [43], [45]} \<and> ds \<noteq> [] \<and> set ds \<subseteq> Collect is_digit \<and>
       n = (if sgn = [45] then - int (dec_val 0 ds) else int (dec_val 0 ds)) \<and> in_srange 8 n)"
    proof (intro notI, elim exE conjE)
      fix sgn ds assume s: "s = sgn @ ds" "sgn \<in> {[], [43], [45]}" "ds \<noteq> []" "set ds \<subseteq> Collect is_digit"
      then have "is_digit (hd ds)" by (cases ds) auto
      then have "\<not> isspace (hd ds)" by (rule is_digit_not_space)
      with True s show False by (auto simp: isspace_def)
    qed
    ultimately show ?thesis using True by simp
  next
    case False
    then have "getLongLongFromObject (Some o1) = Some n \<longleftrightarrow> strtoll_full s = (n, [], False)"
      using t sp c by (auto simp: getLongLongFromObject_def Let_def split: prod.splits)
    moreover have "s = [] \<or> \<not> isspace (hd s)" using False by blast
    moreover have "(set ds \<subseteq> Collect is_digit) = (\<forall>c \<in> set ds. is_digit c)" for ds by auto
    ultimately show ?thesis using strtoll_full_iff [of s n] by (simp only:)
  qed
qed

theorem getLongLongFromObject_correct_witness:
  "let o1 = createStringObject (Some [49, 50, 0, 120]) 4
   in obj_ok o1 \<and> obj_val o1 = [49, 50, 0, 120] \<and> getLongLongFromObject (Some o1) = Some 12"
proof -
  let ?o = "createStringObject (Some [49, 50, 0, 120]) 4"
  have o: "obj_ok ?o" "obj_val ?o = [49, 50, 0, 120]" "encoding ?o \<noteq> ENC_INT"
    using createString_ok [of 4 "[49, 50, 0, 120]"]
    by (simp_all add: createStringObject_def EMBSTR_SIZE_LIMIT_def createEmbeddedStringObject_def)
  have "getLongLongFromObject (Some ?o) = Some 12"
    by (rule getLongLongFromObject_correct [OF o(1) o(3) refl, THEN iffD2],
        intro disjI2 exI [of _ "[]"] exI [of _ "[49, 50]"])
      (simp add: o(2) cstr_def is_digit_def in_srange_def)
  with o show ?thesis by simp
qed

end
