(* ===== verification/Lzf.thy ===== *)
theory Lzf
  imports Prelude
begin

text \<open>
  The compressor the database dumps use, \<open>src/src/src/lzf_c.c\<close> and \<open>lzf_d.c\<close>, in the
  configuration of \<open>lzfP.h\<close> (\<open>HLOG = 16\<close>, \<open>VERY_FAST\<close>, \<open>CHECK_INPUT\<close>, the hash table not
  initialised). The input is a list of bytes with the position \<open>ip\<close>; the output pointer is
  the end of the list written so far, so \<open>*op++ = b\<close> appends. The hash table holds pointers
  as offsets from the start of the input, and its initial contents are arbitrary: they are
  an argument of the model. Shown: whatever the table holds at the start, decompressing
  what was compressed gives the input back, and no input makes the decompressor access memory
  outside of its two buffers.
\<close>

subsection \<open>The decompressor\<close>

text \<open>The code returns 0 and sets \<open>errno\<close> for the first two errors. \<open>OOB\<close> is an access outside of the
  buffers: every read and write of a byte below checks that it is inside, and gives \<open>OOB\<close> if not.\<close>

datatype lzf_error = E2BIG | EINVAL | OOB

text \<open>\<open>*op++ = *ip++\<close> and \<open>*op++ = *ref++\<close>, so many times; \<open>ref\<close> is an offset from \<open>out_data\<close>, and
  only the bytes written so far have a value.\<close>

fun copy_lit :: "nat \<Rightarrow> nat \<Rightarrow> bytes \<Rightarrow> bytes \<Rightarrow> lzf_error + bytes \<times> bytes" where
  "copy_lit out_len 0 ip out = Inr (ip, out)"
| "copy_lit out_len (Suc n) ip out =
     (case ip of
        [] \<Rightarrow> Inl OOB
      | b # ip \<Rightarrow> if out_len \<le> length out then Inl OOB else copy_lit out_len n ip (out @ [b]))"

fun copy_ref :: "nat \<Rightarrow> nat \<Rightarrow> int \<Rightarrow> bytes \<Rightarrow> lzf_error + bytes" where
  "copy_ref out_len 0 ref out = Inr out"
| "copy_ref out_len (Suc n) ref out =
     (if ref < 0 \<or> int (length out) \<le> ref \<or> out_len \<le> length out then Inl OOB
      else copy_ref out_len n (ref + 1) (out @ [out ! nat ref]))"

text \<open>The bytes of a back reference after its first one: \<open>len\<close>, the distance from \<open>op\<close> back to
  \<open>ref\<close>, and the rest of the input.\<close>

definition ref_header :: "byte \<Rightarrow> bytes \<Rightarrow> lzf_error + nat \<times> nat \<times> bytes" where
  "ref_header c ip =
     (let len = unat c div 32; dist = (unat c mod 32) * 256 + 1 in
        if ip = [] then Inl EINVAL
        else if len = 7 then
          (case ip of
             [] \<Rightarrow> Inl OOB
           | b # ip \<Rightarrow>
               if ip = [] then Inl EINVAL
               else case ip of [] \<Rightarrow> Inl OOB | b' # ip \<Rightarrow> Inr (len + unat b, dist + unat b', ip))
        else case ip of [] \<Rightarrow> Inl OOB | b # ip \<Rightarrow> Inr (len, dist + unat b, ip))"

lemma copy_lit_shorter: "copy_lit out_len n ip out = Inr (ip', out') \<Longrightarrow> length ip' \<le> length ip"
  by (induction n arbitrary: ip out) (auto split: list.splits if_splits dest: le_SucI)

lemma ref_header_shorter: "ref_header c ip = Inr (len, dist, ip2) \<Longrightarrow> length ip2 < length ip"
  by (auto simp: ref_header_def Let_def split: if_splits list.splits)

text \<open>The loop from the rest of the input and the output so far.\<close>

function lzf_dec :: "bytes \<Rightarrow> bytes \<Rightarrow> nat \<Rightarrow> lzf_error + bytes" where
  "lzf_dec [] out out_len = Inl OOB"
| "lzf_dec (c # ip) out out_len =
     (if unat c < 32 then
        let ctrl = unat c + 1 in
          if length out + ctrl > out_len then Inl E2BIG
          else if ctrl > length ip then Inl EINVAL
          else
            (case copy_lit out_len ctrl ip out of
               Inl e \<Rightarrow> Inl e
             | Inr (ip', out') \<Rightarrow> if ip' = [] then Inr out' else lzf_dec ip' out' out_len)
      else
        (case ref_header c ip of
           Inl e \<Rightarrow> Inl e
         | Inr (len, dist, ip') \<Rightarrow>
             if length out + len + 2 > out_len then Inl E2BIG
             else if int (length out) - int dist < 0 then Inl EINVAL
             else
               (case copy_ref out_len (len + 2) (int (length out) - int dist) out of
                  Inl e \<Rightarrow> Inl e
                | Inr out' \<Rightarrow> if ip' = [] then Inr out' else lzf_dec ip' out' out_len)))"
  by pat_completeness auto
termination
  by (relation "measure (\<lambda>(ip, out, n). length ip)") (auto simp: less_Suc_eq_le simp del: copy_lit.simps copy_ref.simps dest!: ref_header_shorter copy_lit_shorter)

declare lzf_dec.simps [simp del]

definition lzf_decompress :: "bytes \<Rightarrow> nat \<Rightarrow> lzf_error + bytes" where
  "lzf_decompress in_data out_len = lzf_dec in_data [] out_len"

subsection \<open>The compressor\<close>

definition MAX_LIT :: nat where "MAX_LIT = 32"
definition MAX_OFF :: int where "MAX_OFF = 8192"
definition MAX_REF :: nat where "MAX_REF = 256 + 8"

text \<open>A read beyond the input (the code reads \<open>ip[1]\<close> of a one byte input) is 0 here; the value
  only selects a slot of the table.\<close>

definition byte_at :: "bytes \<Rightarrow> nat \<Rightarrow> 32 word" where
  "byte_at d i = (if i < length d then ucast (d ! i) else 0)"

definition FRST :: "bytes \<Rightarrow> nat \<Rightarrow> 32 word" where
  "FRST d ip = push_bit 8 (byte_at d ip) OR byte_at d (ip + 1)"

definition NEXT :: "32 word \<Rightarrow> bytes \<Rightarrow> nat \<Rightarrow> 32 word" where
  "NEXT v d ip = push_bit 8 v OR byte_at d (ip + 2)"

definition IDX :: "32 word \<Rightarrow> nat" where
  "IDX h = unat ((drop_bit (3 * 8 - 16) h - h * 5) AND 65535)"

text \<open>The sixteen unrolled comparisons: whether one of them failed, and \<open>len\<close>.\<close>

fun match_unrolled :: "bytes \<Rightarrow> nat \<Rightarrow> nat \<Rightarrow> nat \<Rightarrow> nat \<Rightarrow> bool \<times> nat" where
  "match_unrolled d ref ip len 0 = (False, len)"
| "match_unrolled d ref ip len (Suc k) =
     (let len = len + 1 in
        if d ! (ref + len) \<noteq> d ! (ip + len) then (True, len)
        else match_unrolled d ref ip len k)"

function match_tail :: "bytes \<Rightarrow> nat \<Rightarrow> nat \<Rightarrow> nat \<Rightarrow> nat \<Rightarrow> nat" where
  "match_tail d ref ip len maxlen =
     (let len = len + 1 in
        if len < maxlen \<and> d ! (ref + len) = d ! (ip + len)
        then match_tail d ref ip len maxlen else len)"
  by pat_completeness auto
termination
  by (relation "measure (\<lambda>(d, ref, ip, len, maxlen). maxlen - len)") auto

declare match_tail.simps [simp del]

definition match_len :: "bytes \<Rightarrow> nat \<Rightarrow> nat \<Rightarrow> nat \<Rightarrow> nat" where
  "match_len d ref ip maxlen =
     (if maxlen > 16 then
        (case match_unrolled d ref ip 2 16 of
           (True, len) \<Rightarrow> len
         | (False, len) \<Rightarrow> match_tail d ref ip len maxlen)
      else match_tail d ref ip 2 maxlen)"

text \<open>\<open>op[-lit-1] = lit-1; op -= !lit\<close>: the length byte of the run in front of its literals.\<close>

definition set_run :: "bytes \<Rightarrow> nat \<Rightarrow> bytes" where
  "set_run out lit = out[length out - lit - 1 := word_of_int (int lit - 1)]"

definition stop_run :: "bytes \<Rightarrow> nat \<Rightarrow> bytes" where
  "stop_run out lit = (if lit = 0 then butlast (set_run out lit) else set_run out lit)"

text \<open>A back reference to \<open>off + 1\<close> bytes before the current one, of \<open>len + 2\<close> bytes.\<close>

definition put_ref :: "nat \<Rightarrow> nat \<Rightarrow> bytes" where
  "put_ref off len =
     (if len < 7 then [word_of_nat (off div 256 + len * 32)]
      else [word_of_nat (off div 256 + 7 * 32), word_of_nat (len - 7)]) @ [word_of_nat off]"

text \<open>One more literal byte; a full run is closed and a new one started.\<close>

definition put_lit :: "bytes \<Rightarrow> nat \<Rightarrow> byte \<Rightarrow> bytes \<times> nat" where
  "put_lit out lit b =
     (let lit = lit + 1; out = out @ [b] in
        if lit = MAX_LIT then (set_run out lit @ [0], 0) else (out, lit))"

lemma match_tail_ge: "len < match_tail d ref ip len maxlen"
proof (induction d ref ip len maxlen rule: match_tail.induct)
  case (1 d ref ip len maxlen)
  then show ?case by (subst match_tail.simps) (auto simp: Let_def)
qed

lemma match_unrolled_ge: "match_unrolled d ref ip len k = (b, l) \<Longrightarrow> len + (if k = 0 then 0 else 1) \<le> l"
proof (induction k arbitrary: len)
  case (Suc k)
  show ?case
  proof (cases "d ! (ref + (len + 1)) = d ! (ip + (len + 1))")
    case True
    with Suc.prems have "match_unrolled d ref ip (len + 1) k = (b, l)" by (simp add: Let_def)
    from Suc.IH [OF this] show ?thesis by (simp split: if_splits)
  qed (use Suc.prems in \<open>auto simp: Let_def\<close>)
qed simp

lemma match_len_ge3: "3 \<le> match_len d ref ip maxlen"
proof (cases "maxlen > 16")
  case True
  obtain b l where u: "match_unrolled d ref ip 2 16 = (b, l)" by fastforce
  then have "3 \<le> l" using match_unrolled_ge [OF u] by simp
  with True u match_tail_ge [of l d ref ip maxlen] show ?thesis
    by (cases b) (simp_all add: match_len_def)
next
  case False
  with match_tail_ge [of 2 d ref ip maxlen] show ?thesis by (simp add: match_len_def)
qed

text \<open>The hash table updates after a match (\<open>VERY_FAST\<close>), from the position after the match.\<close>

definition rehash_after :: "bytes \<Rightarrow> nat \<Rightarrow> (nat \<Rightarrow> int) \<Rightarrow> 32 word \<times> (nat \<Rightarrow> int)" where
  "rehash_after d ip htab =
     (let hval = NEXT (FRST d (ip - 2)) d (ip - 2);
          htab = htab(IDX hval := int (ip - 2));
          hval = NEXT hval d (ip - 1);
          htab = htab(IDX hval := int (ip - 1))
      in (hval, htab))"

definition lzf_match :: "bytes \<Rightarrow> nat \<Rightarrow> int \<Rightarrow> bool" where
  "lzf_match d ip ref \<longleftrightarrow>
     0 \<le> int ip - ref - 1 \<and> int ip - ref - 1 < MAX_OFF \<and> ip + 4 < length d \<and> ref > 0 \<and>
     d ! nat ref = d ! ip \<and> d ! (nat ref + 1) = d ! (ip + 1) \<and> d ! (nat ref + 2) = d ! (ip + 2)"

function lzf_main ::
  "bytes \<Rightarrow> nat \<Rightarrow> nat \<Rightarrow> bytes \<Rightarrow> nat \<Rightarrow> 32 word \<Rightarrow> (nat \<Rightarrow> int) \<Rightarrow> (nat \<times> bytes \<times> nat) option"
where
  "lzf_main d out_len ip out lit hval htab =
     (if int ip < int (length d) - 2 then
        let hval = NEXT hval d ip;
            ref = htab (IDX hval);
            htab = htab(IDX hval := int ip)
        in if lzf_match d ip ref then
             let maxlen = min (length d - ip - 2) MAX_REF;
                 out = stop_run out lit
             in if length out + 3 + 1 \<ge> out_len then None
                else
                  let len = match_len d (nat ref) ip maxlen - 2;
                      out = out @ put_ref (ip - nat ref - 1) len @ [0];
                      ip = ip + len + 2
                  in if int ip \<ge> int (length d) - 2 then Some (ip, out, 0)
                     else (case rehash_after d ip htab of
                             (hval, htab) \<Rightarrow> lzf_main d out_len ip out 0 hval htab)
           else if length out \<ge> out_len then None
           else (case put_lit out lit (d ! ip) of
                   (out, lit) \<Rightarrow> lzf_main d out_len (ip + 1) out lit hval htab)
      else Some (ip, out, lit))"
  by pat_completeness auto
termination
proof (relation "measure (\<lambda>(d, out_len, ip, out, lit, hval, htab). length d - ip)", goal_cases)
  case 1
  show ?case by simp
next
  case (2 d out_len ip)
  then have "ip < length d" by linarith
  with 2(11) show ?case by simp
next
  case (3 d out_len ip)
  then have "ip < length d" by linarith
  then show ?case by simp
qed

declare lzf_main.simps [simp del]

text \<open>\<open>while (ip < in_end)\<close>: the last bytes are literals.\<close>

fun lzf_rest :: "bytes \<Rightarrow> bytes \<Rightarrow> nat \<Rightarrow> bytes \<times> nat" where
  "lzf_rest [] out lit = (out, lit)"
| "lzf_rest (b # bs) out lit = (case put_lit out lit b of (out, lit) \<Rightarrow> lzf_rest bs out lit)"

definition lzf_compress :: "(nat \<Rightarrow> int) \<Rightarrow> bytes \<Rightarrow> nat \<Rightarrow> bytes option" where
  "lzf_compress htab d out_len =
     (if length d = 0 \<or> out_len = 0 then None
      else
        case lzf_main d out_len 0 [0] 0 (FRST d 0) htab of
          None \<Rightarrow> None
        | Some (ip, out, lit) \<Rightarrow>
            if length out + 3 > out_len then None
            else (case lzf_rest (drop ip d) out lit of (out, lit) \<Rightarrow> Some (stop_run out lit)))"

subsection \<open>Safety of the decompressor\<close>

text \<open>The copy of a back reference as a function, and the loop once more, with the accesses that the
  checks of the code keep inside of the buffers.\<close>

fun copy_back :: "bytes \<Rightarrow> nat \<Rightarrow> nat \<Rightarrow> bytes" where
  "copy_back out ref 0 = out"
| "copy_back out ref (Suc n) = copy_back (out @ [out ! ref]) (Suc ref) n"

lemma length_copy_back [simp]: "length (copy_back out r n) = length out + n"
  by (induction n arbitrary: out r) auto

lemma copy_lit_inside:
  "n \<le> length ip \<Longrightarrow> length out + n \<le> out_len \<Longrightarrow> copy_lit out_len n ip out = Inr (drop n ip, out @ take n ip)"
  by (induction n arbitrary: ip out) (auto split: list.split)

lemma copy_ref_inside:
  "r < length out \<Longrightarrow> length out + n \<le> out_len \<Longrightarrow> copy_ref out_len n (int r) out = Inr (copy_back out r n)"
proof (induction n arbitrary: r out)
  case (Suc n)
  from Suc.IH [of "Suc r" "out @ [out ! r]"] Suc.prems show ?case by (simp add: add.commute)
qed simp

lemma lzf_dec_Cons:
  "lzf_dec (c # ip) out n =
     (if unat c < 32 then
        let ctrl = unat c + 1 in
          if length out + ctrl > n then Inl E2BIG
          else if ctrl > length ip then Inl EINVAL
          else
            let out' = out @ take ctrl ip; ip' = drop ctrl ip
            in if ip' = [] then Inr out' else lzf_dec ip' out' n
      else
        (case ref_header c ip of
           Inl e \<Rightarrow> Inl e
         | Inr (len, dist, ip') \<Rightarrow>
             if length out + len + 2 > n then Inl E2BIG
             else if dist > length out then Inl EINVAL
             else
               let out' = copy_back out (length out - dist) (len + 2)
               in if ip' = [] then Inr out' else lzf_dec ip' out' n))"
proof (cases "unat c < 32")
  case True
  then show ?thesis using copy_lit_inside [of "unat c + 1" ip out n]
    by (subst lzf_dec.simps) (simp add: Let_def del: copy_lit.simps)
next
  case False
  show ?thesis
  proof (cases "ref_header c ip")
    case (Inl e)
    with False show ?thesis by (subst lzf_dec.simps) simp
  next
    case (Inr x)
    obtain len dist ip' where x: "x = (len, dist, ip')" by (cases x)
    with Inr have d: "1 \<le> dist" by (auto simp: ref_header_def Let_def split: if_splits list.splits)
    have i: "copy_ref n (len + 2) (int (length out) - int dist) out = Inr (copy_back out (length out - dist) (len + 2))"
      if "\<not> dist > length out" "\<not> length out + len + 2 > n"
      using copy_ref_inside [of "length out - dist" out "len + 2" n] that d by (simp add: of_nat_diff del: copy_ref.simps copy_back.simps)
    show ?thesis
    proof (cases "dist > length out \<or> length out + len + 2 > n")
      case True
      with False Inr x show ?thesis by (subst lzf_dec.simps) auto
    next
      case in_bounds: False
      with i have "copy_ref n (len + 2) (int (length out) - int dist) out = Inr (copy_back out (length out - dist) (len + 2))"
        by blast
      with False Inr x in_bounds show ?thesis
        by (subst lzf_dec.simps) (simp add: Let_def del: copy_ref.simps copy_back.simps)
    qed
  qed
qed

lemma ref_header_inside: "ref_header c ip = Inl e \<Longrightarrow> e = EINVAL"
  by (auto simp: ref_header_def Let_def split: if_splits list.splits)

lemma lzf_dec_safe:
  "c \<noteq> [] \<Longrightarrow> lzf_dec c out n \<in> {Inl E2BIG, Inl EINVAL} \<union> Inr ` {r. length r \<le> n}"
proof (induction c arbitrary: out rule: length_induct)
  case (1 c)
  obtain b ip where c: "c = b # ip" using "1.prems" by (cases c) auto
  have IH: "lzf_dec ip' out' n \<in> {Inl E2BIG, Inl EINVAL} \<union> Inr ` {r. length r \<le> n}"
    if "length ip' \<le> length ip" "ip' \<noteq> []" for ip' out'
    using "1.IH" that c by simp
  show ?case
  proof (cases "unat b < 32")
    case True
    have "drop (unat b + 1) ip \<noteq> [] \<Longrightarrow> lzf_dec (drop (unat b + 1) ip) (out @ take (unat b + 1) ip) n \<in>
        {Inl E2BIG, Inl EINVAL} \<union> Inr ` {r. length r \<le> n}"
      by (rule IH) simp_all
    with True show ?thesis unfolding c by (subst lzf_dec_Cons) (simp add: Let_def)
  next
    case False
    show ?thesis
    proof (cases "ref_header b ip")
      case (Inl e)
      with False ref_header_inside [OF Inl] show ?thesis unfolding c by (subst lzf_dec_Cons) simp
    next
      case (Inr x)
      obtain len dist ip' where x: "x = (len, dist, ip')" by (cases x)
      have "length ip' \<le> length ip" using ref_header_shorter Inr x by fastforce
      with IH [of ip'] False Inr x show ?thesis
        unfolding c by (subst lzf_dec_Cons) (simp add: Let_def del: copy_back.simps)
    qed
  qed
qed

text \<open>
  C29. On any input that is not empty, however corrupt, the decompressor terminates, and reads and
  writes only inside of the input and the output buffer: it returns at most \<open>out_len\<close> bytes, or one
  of its two errors. (On an empty input it reads the byte after it.)
\<close>
theorem lzf_decompress_safe:
  assumes "c \<noteq> []"
  shows "(\<exists>r. lzf_decompress c n = Inr r \<and> length r \<le> n) \<or> lzf_decompress c n = Inl E2BIG \<or>
    lzf_decompress c n = Inl EINVAL"
  using lzf_dec_safe [OF assms, of "[]" n] by (auto simp: lzf_decompress_def)

theorem lzf_decompress_safe_witness:
  "lzf_decompress [3, 1, 2, 3, 4, 32, 3] 7 \<noteq> Inl OOB"
  using lzf_decompress_safe [of "[3, 1, 2, 3, 4, 32, 3]" 7] by auto

subsection \<open>Round trip\<close>

text \<open>The compressed stream as tokens: a run of literals, or a copy of \<open>len + 2\<close> bytes from
  \<open>off + 1\<close> bytes back.\<close>

datatype tok = Run bytes | Back nat nat

fun enc_tok :: "tok \<Rightarrow> bytes" where
  "enc_tok (Run bs) = word_of_int (int (length bs) - 1) # bs"
| "enc_tok (Back off len) = put_ref off len"

fun exp_tok :: "bytes \<Rightarrow> tok \<Rightarrow> bytes" where
  "exp_tok out (Run bs) = out @ bs"
| "exp_tok out (Back off len) = copy_back out (length out - (off + 1)) (len + 2)"

fun tok_ok :: "bytes \<Rightarrow> tok \<Rightarrow> bool" where
  "tok_ok out (Run bs) \<longleftrightarrow> bs \<noteq> [] \<and> length bs \<le> 32"
| "tok_ok out (Back off len) \<longleftrightarrow> off < 8192 \<and> off < length out \<and> 1 \<le> len \<and> len \<le> 262"

fun toks_ok :: "bytes \<Rightarrow> tok list \<Rightarrow> bool" where
  "toks_ok out [] \<longleftrightarrow> True"
| "toks_ok out (t # ts) \<longleftrightarrow> tok_ok out t \<and> toks_ok (exp_tok out t) ts"

lemma toks_ok_snoc [simp]:
  "toks_ok out (ts @ [t]) \<longleftrightarrow> toks_ok out ts \<and> tok_ok (foldl exp_tok out ts) t"
  by (induction ts arbitrary: out) auto

lemma length_exp_tok: "length out \<le> length (exp_tok out t)"
  by (cases t) auto

lemma length_exp_toks: "length out \<le> length (foldl exp_tok out ts)"
  by (induction ts arbitrary: out) (auto intro: order_trans [OF length_exp_tok])

lemma enc_tok_nonempty: "enc_tok t \<noteq> []"
  by (cases t) (auto simp: put_ref_def)

lemma unat_word_of_nat8: "n < 256 \<Longrightarrow> unat (word_of_nat n :: byte) = n"
  by (simp add: unat_of_nat)

lemma ref_header_put_ref:
  assumes "off < 8192" "1 \<le> len" "len \<le> 262"
  obtains c ip where "put_ref off len @ rest = c # ip" "32 \<le> unat c"
    "ref_header c ip = Inr (len, off mod 256 + off div 256 * 256 + 1, rest)"
proof -
  have h: "off div 256 < 32" using assms(1) by linarith
  have l: "unat (word_of_nat off :: byte) = off mod 256" by (simp add: unat_of_nat)
  show thesis
  proof (cases "len < 7")
    case True
    define c :: byte where "c = word_of_nat (off div 256 + len * 32)"
    from True h have "off div 256 + len * 32 < 256" by linarith
    then have c: "unat c = off div 256 + len * 32" unfolding c_def by (rule unat_word_of_nat8)
    have d: "unat c div 32 = len" "unat c mod 32 = off div 256" using h by (simp_all add: c)
    show thesis
    proof (rule that)
      show "put_ref off len @ rest = c # word_of_nat off # rest"
        using True by (simp add: put_ref_def c_def)
      show "32 \<le> unat c" using assms(2) c by simp
      show "ref_header c (word_of_nat off # rest)
          = Inr (len, off mod 256 + off div 256 * 256 + 1, rest)"
        using True by (simp add: ref_header_def d l)
    qed
  next
    case False
    define c :: byte where "c = word_of_nat (off div 256 + 7 * 32)"
    from h have "off div 256 + 7 * 32 < 256" by linarith
    then have c: "unat c = off div 256 + 7 * 32" unfolding c_def by (rule unat_word_of_nat8)
    have d: "unat c div 32 = 7" "unat c mod 32 = off div 256"
      unfolding c using h div_mult_self2 [of 32 "off div 256" 7] mod_mult_self2 [of "off div 256" 32 7]
      by simp_all
    obtain m where m: "len = m + 7" using False by (metis add.commute le_Suc_ex not_less)
    with assms(3) have "m < 256" by linarith
    then have k: "unat (word_of_nat m :: byte) = m" by (rule unat_word_of_nat8)
    show thesis
    proof (rule that)
      show "put_ref off len @ rest = c # word_of_nat m # word_of_nat off # rest"
        using m by (simp add: put_ref_def c_def)
      show "32 \<le> unat c" using c by simp
      show "ref_header c (word_of_nat m # word_of_nat off # rest)
          = Inr (len, off mod 256 + off div 256 * 256 + 1, rest)"
        using m by (simp add: ref_header_def d l k)
    qed
  qed
qed

lemma lzf_dec_tok:
  assumes "tok_ok out t" "length (exp_tok out t) \<le> n"
  shows "lzf_dec (enc_tok t @ rest) out n =
    (if rest = [] then Inr (exp_tok out t) else lzf_dec rest (exp_tok out t) n)"
proof (cases t)
  case (Run bs)
  define c :: byte where "c = word_of_int (int (length bs) - 1)"
  have b: "1 \<le> length bs" "length bs \<le> 32" using assms(1) Run by (cases bs; simp)+
  then have "(int (length bs) - 1) mod 256 = int (length bs) - 1"
    by (intro mod_pos_pos_trivial) linarith+
  then have "uint c = int (length bs) - 1"
    unfolding c_def by (simp only: uint_word_of_int) simp
  then have c: "unat c = length bs - 1" using b(1) by (simp add: unat_eq_nat_uint)
  with b have "unat c < 32" "unat c + 1 = length bs" by linarith+
  then have "lzf_dec (c # bs @ rest) out n =
      (if rest = [] then Inr (out @ bs) else lzf_dec rest (out @ bs) n)"
    using assms(2) Run by (subst lzf_dec_Cons) (simp add: Let_def)
  then show ?thesis using Run by (simp add: c_def)
next
  case (Back off len)
  with assms(1) have "off < 8192" "1 \<le> len" "len \<le> 262" and o: "off < length out" by auto
  then obtain c ip where p: "put_ref off len @ rest = c # ip" "32 \<le> unat c"
    "ref_header c ip = Inr (len, off mod 256 + off div 256 * 256 + 1, rest)"
    using ref_header_put_ref by blast
  have e: "off mod 256 + off div 256 * 256 = off" by simp
  from assms(2) Back have "length out + len + 2 \<le> n" by simp
  with p o show ?thesis
    unfolding Back enc_tok.simps exp_tok.simps p(1)
    by (subst lzf_dec_Cons) (simp add: Let_def e)
qed

lemma lzf_dec_toks:
  assumes "toks_ok out ts" "ts \<noteq> []" "length (foldl exp_tok out ts) \<le> n"
  shows "lzf_dec (concat (map enc_tok ts)) out n = Inr (foldl exp_tok out ts)"
  using assms
proof (induction ts arbitrary: out)
  case (Cons t ts)
  have le: "length (exp_tok out t) \<le> n"
    using Cons.prems(3) length_exp_toks [of "exp_tok out t" ts] by simp
  have step: "lzf_dec (enc_tok t @ concat (map enc_tok ts)) out n =
    (if concat (map enc_tok ts) = [] then Inr (exp_tok out t)
     else lzf_dec (concat (map enc_tok ts)) (exp_tok out t) n)"
    using lzf_dec_tok [OF _ le] Cons.prems(1) by simp
  show ?case
  proof (cases ts)
    case Nil
    with step show ?thesis by simp
  next
    case (Cons t' ts')
    then have "concat (map enc_tok ts) \<noteq> []" by (simp add: enc_tok_nonempty)
    moreover have "lzf_dec (concat (map enc_tok ts)) (exp_tok out t) n
        = Inr (foldl exp_tok (exp_tok out t) ts)"
      using Cons.IH [of "exp_tok out t"] Cons.prems Cons by simp
    ultimately show ?thesis using step by (simp only: list.map concat.simps foldl.simps if_False)
  qed
qed simp

lemma copy_back_take:
  assumes "\<forall>i < n. d ! (r + i) = d ! (p + i)" "r < p" "p + n \<le> length d"
  shows "copy_back (take p d) r n = take (p + n) d"
  using assms
proof (induction n arbitrary: r p)
  case (Suc n)
  have "take p d ! r = d ! p" using Suc.prems(1,2) by (force dest: spec [of _ 0])
  then have s: "take p d @ [take p d ! r] = take (Suc p) d"
    using Suc.prems(3) by (simp add: take_Suc_conv_app_nth)
  have "\<forall>i < n. d ! (Suc r + i) = d ! (Suc p + i)"
    using Suc.prems(1) by (metis Suc_less_eq add_Suc_shift)
  then have "copy_back (take (Suc p) d) (Suc r) n = take (Suc p + n) d"
    using Suc.prems by (intro Suc.IH) auto
  with s show ?case by simp
qed simp

text \<open>The length of a match: the bytes before it agree, and it fits the input and the format.\<close>

lemma match_tail_match:
  assumes "\<forall>i < Suc len. d ! (r + i) = d ! (p + i)" "i < match_tail d r p len m"
  shows "d ! (r + i) = d ! (p + i)"
  using assms
proof (induction d r p len m rule: match_tail.induct)
  case (1 d r p len m)
  show ?case
  proof (cases "len + 1 < m \<and> d ! (r + (len + 1)) = d ! (p + (len + 1))")
    case True
    with "1.prems" have "\<forall>i < Suc (len + 1). d ! (r + i) = d ! (p + i)"
      by (auto simp: less_Suc_eq)
    with "1.IH" [OF refl True] "1.prems"(2) True show ?thesis
      by (subst (asm) match_tail.simps) (simp add: Let_def)
  next
    case False
    with "1.prems" show ?thesis by (subst (asm) match_tail.simps) (auto simp: Let_def)
  qed
qed

lemma match_tail_le: "match_tail d r p len m \<le> max m (len + 1)"
proof (induction d r p len m rule: match_tail.induct)
  case (1 d r p len m)
  show ?case
  proof (cases "len + 1 < m \<and> d ! (r + (len + 1)) = d ! (p + (len + 1))")
    case True
    with "1.IH" [OF refl True] show ?thesis
      by (subst match_tail.simps) (simp add: Let_def)
  next
    case False
    then show ?thesis by (subst match_tail.simps) (auto simp: Let_def)
  qed
qed

lemma match_unrolled_match:
  assumes "match_unrolled d r p len k = (b, l)" "\<forall>i < Suc len. d ! (r + i) = d ! (p + i)"
  shows "(\<forall>i < (if b then l else Suc l). d ! (r + i) = d ! (p + i)) \<and> l \<le> len + k \<and>
         (\<not> b \<longrightarrow> l = len + k)"
  using assms
proof (induction k arbitrary: len)
  case (Suc k)
  show ?case
  proof (cases "d ! (r + (len + 1)) = d ! (p + (len + 1))")
    case True
    with Suc.prems(2) have "\<forall>i < Suc (len + 1). d ! (r + i) = d ! (p + i)"
      by (auto simp: less_Suc_eq)
    with Suc.IH [of "len + 1"] Suc.prems(1) True show ?thesis by (simp add: Let_def)
  next
    case False
    with Suc.prems show ?thesis by (auto simp: Let_def)
  qed
qed auto

lemma match_len_correct:
  assumes "\<forall>i < 3. d ! (r + i) = d ! (p + i)" "3 \<le> m"
  shows "(\<forall>i < match_len d r p m. d ! (r + i) = d ! (p + i)) \<and> match_len d r p m \<le> m + 2"
    and "m \<le> 264 \<Longrightarrow> match_len d r p m \<le> 264"
proof -
  have a: "\<forall>i < Suc 2. d ! (r + i) = d ! (p + i)" using assms(1) by simp
  have "(\<forall>i < match_len d r p m. d ! (r + i) = d ! (p + i)) \<and>
    match_len d r p m \<le> max m 19 \<and> match_len d r p m \<le> m + 2"
  proof (cases "m > 16")
    case True
    obtain b l where u: "match_unrolled d r p 2 16 = (b, l)" by fastforce
    from match_unrolled_match [OF u a]
    have m: "\<forall>i < (if b then l else Suc l). d ! (r + i) = d ! (p + i)" "l \<le> 18" "\<not> b \<longrightarrow> l = 18"
      by auto
    show ?thesis
    proof (cases b)
      case True
      with m u \<open>m > 16\<close> show ?thesis by (simp add: match_len_def)
    next
      case False
      with m have "\<forall>i < Suc l. d ! (r + i) = d ! (p + i)" by simp
      with match_tail_match [of l d r p _ m] match_tail_le [of d r p l m] False m u \<open>m > 16\<close>
      show ?thesis by (simp add: match_len_def)
    qed
  next
    case False
    with match_tail_match [OF a, of _ m] match_tail_le [of d r p 2 m] assms(2)
    show ?thesis by (simp add: match_len_def)
  qed
  then show "(\<forall>i < match_len d r p m. d ! (r + i) = d ! (p + i)) \<and> match_len d r p m \<le> m + 2"
    and "m \<le> 264 \<Longrightarrow> match_len d r p m \<le> 264" by auto
qed

text \<open>What the loop has written: tokens for the input before the literals of the open run, the
  length byte of that run still to be set.\<close>

definition covers :: "bytes \<Rightarrow> nat \<Rightarrow> bytes \<Rightarrow> nat \<Rightarrow> bool" where
  "covers d ip out lit \<longleftrightarrow> ip \<le> length d \<and> lit < 32 \<and>
     (\<exists>ts x lits. out = concat (map enc_tok ts) @ x # lits \<and> lit = length lits \<and>
        toks_ok [] ts \<and> foldl exp_tok [] ts @ lits = take ip d)"

lemma set_run_append:
  "lit = length lits \<Longrightarrow> set_run (o1 @ x # lits) lit = o1 @ word_of_int (int lit - 1) # lits"
  by (simp add: set_run_def list_update_append)

lemma covers_stop_run:
  assumes "covers d ip out lit"
  obtains ts where "stop_run out lit = concat (map enc_tok ts)" "toks_ok [] ts"
    "foldl exp_tok [] ts = take ip d"
proof -
  from assms obtain ts x lits where c: "out = concat (map enc_tok ts) @ x # lits"
    "lit = length lits" "toks_ok [] ts" "foldl exp_tok [] ts @ lits = take ip d" "lit < 32"
    by (auto simp: covers_def)
  show thesis
  proof (cases "lits = []")
    case True
    with c show thesis by (intro that [of ts]) (simp_all add: stop_run_def set_run_append butlast_append)
  next
    case False
    with c show thesis
      by (intro that [of "ts @ [Run lits]"]) (simp_all add: stop_run_def set_run_append)
  qed
qed

lemma covers_put_lit:
  assumes "covers d ip out lit" "ip < length d" "put_lit out lit (d ! ip) = (out', lit')"
  shows "covers d (Suc ip) out' lit'"
proof -
  from assms(1) obtain ts x lits where c: "out = concat (map enc_tok ts) @ x # lits"
    "lit = length lits" "toks_ok [] ts" "foldl exp_tok [] ts @ lits = take ip d" "lit < 32"
    by (auto simp: covers_def)
  let ?l = "lits @ [d ! ip]"
  have t: "foldl exp_tok [] ts @ ?l = take (Suc ip) d"
    using c(4) assms(2) by (simp add: take_Suc_conv_app_nth)
  show ?thesis
  proof (cases "Suc lit = 32")
    case True
    have "set_run (concat (map enc_tok ts) @ x # ?l) (Suc lit)
        = concat (map enc_tok (ts @ [Run ?l]))"
      using c(2) by (subst set_run_append) simp_all
    with assms(3) c(1) True have o: "out' = concat (map enc_tok (ts @ [Run ?l])) @ 0 # []" "lit' = 0"
      by (auto simp: put_lit_def MAX_LIT_def)
    have "toks_ok [] (ts @ [Run ?l])" using c True by simp
    moreover have "foldl exp_tok [] (ts @ [Run ?l]) @ [] = take (Suc ip) d" using t by simp
    ultimately show ?thesis unfolding covers_def using o assms(2)
      by (intro conjI exI [of _ "ts @ [Run ?l]"] exI [of _ 0] exI [of _ "[]"]) auto
  next
    case False
    with assms(3) c have "out' = concat (map enc_tok ts) @ x # ?l" "lit' = Suc lit"
      by (simp_all add: put_lit_def MAX_LIT_def)
    with c t False assms(2) show ?thesis unfolding covers_def
      by (intro conjI exI [of _ ts] exI [of _ x] exI [of _ ?l]) simp_all
  qed
qed

lemma covers_back:
  assumes "covers d ip out lit" "lzf_match d ip ref"
    and "len = match_len d (nat ref) ip (min (length d - ip - 2) MAX_REF) - 2"
  shows "covers d (ip + len + 2) (stop_run out lit @ put_ref (ip - nat ref - 1) len @ [0]) 0"
proof -
  obtain ts where ts: "stop_run out lit = concat (map enc_tok ts)" "toks_ok [] ts"
    "foldl exp_tok [] ts = take ip d" using covers_stop_run [OF assms(1)] .
  define r where "r = nat ref"
  from assms(2) have m: "r < ip" "ip - r - 1 < 8192" "ip + 4 < length d"
    "d ! r = d ! ip" "d ! (r + 1) = d ! (ip + 1)" "d ! (r + 2) = d ! (ip + 2)"
    by (auto simp: lzf_match_def MAX_OFF_def r_def)
  have "\<forall>i < 3. d ! (r + i) = d ! (ip + i)"
  proof (intro allI impI)
    fix i :: nat assume "i < 3"
    then consider "i = 0" | "i = 1" | "i = 2" by linarith
    then show "d ! (r + i) = d ! (ip + i)" by cases (use m in auto)
  qed
  moreover define mx where "mx = min (length d - ip - 2) MAX_REF"
  moreover from m(3) have mx: "3 \<le> mx" "mx \<le> 264" "mx + 2 \<le> length d - ip"
    by (simp_all add: mx_def MAX_REF_def)
  ultimately have ml: "\<forall>i < match_len d r ip mx. d ! (r + i) = d ! (ip + i)"
    "match_len d r ip mx \<le> mx + 2" "match_len d r ip mx \<le> 264"
    using match_len_correct by blast+
  have "len + 2 = match_len d r ip mx"
    using assms(3) match_len_ge3 [of d r ip mx] unfolding mx_def r_def by linarith
  then have l: "\<forall>i < len + 2. d ! (r + i) = d ! (ip + i)" "1 \<le> len" "len \<le> 262"
      "ip + (len + 2) \<le> length d"
    using ml mx match_len_ge3 [of d r ip mx] m(3) by simp_all
  have cp: "copy_back (take ip d) r (len + 2) = take (ip + (len + 2)) d"
    using l(1) m(1) l(4) by (rule copy_back_take)
  have len: "length (take ip d) = ip" using m(3) by simp
  let ?b = "Back (ip - r - 1) len"
  have "toks_ok [] (ts @ [?b])" using ts l m by auto
  moreover have "ip - (ip - r - 1 + 1) = r" using m(1) by simp
  then have "foldl exp_tok [] (ts @ [?b]) = take (ip + (len + 2)) d"
    using ts(3) cp len by (simp only: foldl_append foldl.simps exp_tok.simps)
  ultimately show ?thesis unfolding covers_def using ts(1) l(4)
    by (intro conjI exI [of _ "ts @ [?b]"] exI [of _ 0] exI [of _ "[]"]) (simp_all add: r_def add.assoc)
qed

lemma lzf_main_covers:
  assumes "lzf_main d n ip out lit hval htab = Some (ip', out', lit')" "covers d ip out lit"
  shows "covers d ip' out' lit' \<and> length d \<le> ip' + 2"
  using assms
proof (induction d n ip out lit hval htab rule: lzf_main.induct)
  case (1 d n ip out lit hval htab)
  define hval1 where "hval1 = NEXT hval d ip"
  define ref where "ref = htab (IDX hval1)"
  define htab1 where "htab1 = htab(IDX hval1 := int ip)"
  show ?case
  proof (cases "int ip < int (length d) - 2")
    case False
    with "1.prems" show ?thesis by (subst (asm) lzf_main.simps) auto
  next
    case ip: True
    show ?thesis
    proof (cases "lzf_match d ip ref")
      case m: True
      define out1 where "out1 = stop_run out lit"
      define len where "len = match_len d (nat ref) ip (min (length d - ip - 2) MAX_REF) - 2"
      define out2 where "out2 = out1 @ put_ref (ip - nat ref - 1) len @ [0]"
      have c: "covers d (ip + len + 2) out2 0"
        using covers_back [OF "1.prems"(2) m len_def] by (simp add: out2_def out1_def)
      have full: "\<not> n \<le> length out1 + 3 + 1"
        using "1.prems"(1) ip m
        by (subst (asm) lzf_main.simps)
          (auto simp: Let_def out1_def ref_def hval1_def split: if_splits)
      show ?thesis
      proof (cases "int (length d) - 2 \<le> int (ip + len + 2)")
        case True
        with "1.prems"(1) ip m full have "ip' = ip + len + 2 \<and> out' = out2 \<and> lit' = 0"
          by (subst (asm) lzf_main.simps)
            (simp add: Let_def ref_def hval1_def htab1_def out1_def len_def out2_def)
        with c True show ?thesis by auto
      next
        case False
        obtain h t where r: "rehash_after d (ip + len + 2) htab1 = (h, t)" by fastforce
        from "1.prems"(1) ip m full False r
        have "lzf_main d n (ip + len + 2) out2 0 h t = Some (ip', out', lit')"
          by (subst (asm) lzf_main.simps)
            (simp add: Let_def ref_def hval1_def htab1_def out1_def len_def out2_def)
        from "1.IH"(1) [OF ip hval1_def ref_def htab1_def m refl out1_def full len_def out2_def
            refl False r [symmetric] this c]
        show ?thesis .
      qed
    next
      case m: False
      obtain out1 lit1 where p: "put_lit out lit (d ! ip) = (out1, lit1)" by fastforce
      from ip have "ip < length d" by linarith
      from covers_put_lit [OF "1.prems"(2) this p] have c: "covers d (ip + 1) out1 lit1" by simp
      have full: "\<not> n \<le> length out"
        using "1.prems"(1) ip m
        by (subst (asm) lzf_main.simps) (auto simp: Let_def ref_def hval1_def split: if_splits)
      from "1.prems"(1) ip m full p
      have "lzf_main d n (ip + 1) out1 lit1 hval1 htab1 = Some (ip', out', lit')"
        by (subst (asm) lzf_main.simps) (simp add: Let_def ref_def hval1_def htab1_def)
      from "1.IH"(2) [OF ip hval1_def ref_def htab1_def m full p [symmetric] this c]
      show ?thesis .
    qed
  qed
qed

lemma lzf_rest_covers:
  assumes "lzf_rest (drop ip d) out lit = (out', lit')" "covers d ip out lit"
  shows "covers d (length d) out' lit'"
  using assms
proof (induction "length d - ip" arbitrary: ip out lit)
  case 0
  then have "drop ip d = []" "ip = length d" by (auto simp: covers_def)
  with 0 show ?case by simp
next
  case (Suc n)
  then have ip: "ip < length d" by linarith
  then have dr: "drop ip d = d ! ip # drop (Suc ip) d" by (simp add: Cons_nth_drop_Suc)
  obtain o1 l1 where p: "put_lit out lit (d ! ip) = (o1, l1)" by fastforce
  from Suc.prems(1) dr p have r: "lzf_rest (drop (Suc ip) d) o1 l1 = (out', lit')" by simp
  from Suc.hyps(2) have "n = length d - Suc ip" by linarith
  from Suc.hyps(1) [OF this r covers_put_lit [OF Suc.prems(2) ip p]] show ?case .
qed

lemma lzf_rest_length:
  "lzf_rest bs out lit = (out', lit') \<Longrightarrow> length bs \<le> 2 \<Longrightarrow> length (stop_run out' lit') \<le> length out + 3"
proof -
  assume r: "lzf_rest bs out lit = (out', lit')" and "length bs \<le> 2"
  then consider "bs = []" | b where "bs = [b]" | a b where "bs = [a, b]"
    by (cases bs; cases "tl bs") auto
  then have "length out' \<le> length out + 3"
    by cases (use r in \<open>auto simp: put_lit_def Let_def MAX_LIT_def set_run_def split: if_splits\<close>)
  then show ?thesis by (simp add: stop_run_def set_run_def le_diff_conv)
qed

lemma lzf_compress_inverse:
  assumes "lzf_compress htab d n = Some c"
  shows "lzf_decompress c (length d) = Inr d \<and> length c \<le> n"
proof -
  from assms have d: "d \<noteq> []" by (auto simp: lzf_compress_def)
  from assms obtain ip out lit where m: "lzf_main d n 0 [0] 0 (FRST d 0) htab = Some (ip, out, lit)"
      and fit: "length out + 3 \<le> n"
    by (auto simp: lzf_compress_def split: if_splits option.splits)
  obtain out1 lit1 where r: "lzf_rest (drop ip d) out lit = (out1, lit1)" by fastforce
  with assms m have c: "c = stop_run out1 lit1"
    by (auto simp: lzf_compress_def split: if_splits)
  have "covers d 0 [0] 0"
    unfolding covers_def by (intro conjI exI [of _ "[]"] exI [of _ 0]) auto
  from lzf_main_covers [OF m this] have cv: "covers d ip out lit" "length d \<le> ip + 2" by auto
  from covers_stop_run [OF lzf_rest_covers [OF r cv(1)]] obtain ts where ts:
    "stop_run out1 lit1 = concat (map enc_tok ts)" "toks_ok [] ts" "foldl exp_tok [] ts = d"
    by auto
  with d have "ts \<noteq> []" by auto
  with ts lzf_dec_toks [of "[]" ts "length d"] c have "lzf_decompress c (length d) = Inr d"
    by (simp add: lzf_decompress_def)
  moreover from cv(2) have "length (drop ip d) \<le> 2" by simp
  from lzf_rest_length [OF r this] fit c have "length c \<le> n" by simp
  ultimately show ?thesis by simp
qed

text \<open>
  C28. Whatever the uninitialised hash table contains, compressed data fits the output buffer
  and decompressing it gives the input back.
\<close>
theorem lzf_roundtrip:
  assumes "lzf_compress htab d n = Some c"
  shows "lzf_decompress c (length d) = Inr d \<and> length c \<le> n"
  using assms by (rule lzf_compress_inverse)

theorem lzf_roundtrip_witness:
  "\<exists>c. lzf_compress (\<lambda>_. 1) [7, 7, 7, 7, 7, 7, 7, 7] 13 = Some c \<and>
       lzf_decompress c 8 = Inr [7, 7, 7, 7, 7, 7, 7, 7]"
proof -
  have "lzf_compress (\<lambda>_. 1) [7, 7, 7, 7, 7, 7, 7, 7] 13 = Some [1, 7, 7, 64, 0, 1, 7, 7]"
    by (simp add: lzf_compress_def lzf_main.simps Let_def FRST_def NEXT_def byte_at_def IDX_def
      lzf_match_def MAX_OFF_def put_lit_def MAX_LIT_def stop_run_def set_run_def put_ref_def
      match_len_def match_tail.simps MAX_REF_def)
  from lzf_roundtrip [OF this] this show ?thesis by (simp add: eval_nat_numeral)
qed

end
