(* ===== verification/Rdb.thy ===== *)
theory Rdb
  imports Object Lzf
begin

text \<open>
  The dump format of \<open>src/src/src/rdb.c\<close>, over the channels of \<open>rio.c\<close>: the buffer that \<open>DUMP\<close>,
  \<open>RESTORE\<close> and \<open>MIGRATE\<close> use, appended to and read from a position, and the file of \<open>SAVE\<close>, whose
  writes may fail. Modelled are types, times, lengths, and strings in their four encodings
  (verbatim, small integers, LZF compressed). A saving function returns its C result (-1 on a
  write error) and the channel; a loading function returns an error value or the result and the
  channel. The results of the saving functions are integers here and a C \<open>int\<close> in the code: the same
  below 2 GB, four times the longest string that the server accepts. Shown: everything that is
  saved without an error is loaded again unchanged, leaving exactly the bytes that follow, and a
  write that fails makes the saving of a string fail.
\<close>

subsection \<open>The channel\<close>

record rio =
  io_ptr :: bytes
  io_pos :: nat
  io_faults :: "nat option list"

definition rioInitWithBuffer :: "bytes \<Rightarrow> rio" where
  "rioInitWithBuffer s = \<lparr>io_ptr = s, io_pos = 0, io_faults = []\<rparr>"

definition rioBufferWrite :: "rio \<Rightarrow> bytes \<Rightarrow> nat \<times> rio" where
  "rioBufferWrite r buf = (1, r\<lparr>io_ptr := io_ptr r @ buf, io_pos := io_pos r + length buf\<rparr>)"

definition rioBufferRead :: "rio \<Rightarrow> nat \<Rightarrow> (bytes \<times> rio) option" where
  "rioBufferRead r len =
     (if length (io_ptr r) - io_pos r < len then None
      else Some (slice (io_pos r) len (io_ptr r), r\<lparr>io_pos := io_pos r + len\<rparr>))"

text \<open>What becomes of the coming calls of \<open>fwrite\<close> is given by \<open>io_faults\<close>: \<open>None\<close> is a call that
  succeeds, \<open>Some k\<close> one that fails after \<open>k\<close> bytes, and all calls after the end of the list succeed.
  On a buffer the list is empty. The writer of a dump sets no \<open>autosync\<close>.\<close>

definition rioFileWrite :: "rio \<Rightarrow> bytes \<Rightarrow> nat \<times> rio" where
  "rioFileWrite r buf =
     (case io_faults r of
        [] \<Rightarrow> rioBufferWrite r buf
      | None # fs \<Rightarrow> rioBufferWrite (r\<lparr>io_faults := fs\<rparr>) buf
      | Some k # fs \<Rightarrow> (0, snd (rioBufferWrite (r\<lparr>io_faults := fs\<rparr>) (take k buf))))"

text \<open>\<open>rioWrite\<close> does not call the channel for an empty buffer.\<close>

definition rdbWriteRaw :: "rio \<Rightarrow> bytes \<Rightarrow> int \<times> rio" where
  "rdbWriteRaw r p =
     (case (if p = [] then (1, r) else rioFileWrite r p) of
        (n, r) \<Rightarrow> if n = 0 then (-1, r) else (int (length p), r))"

subsection \<open>Types, times and lengths\<close>

definition rdbSaveType :: "rio \<Rightarrow> byte \<Rightarrow> int \<times> rio" where
  "rdbSaveType r t = rdbWriteRaw r [t]"

definition rdbLoadType :: "rio \<Rightarrow> int \<times> rio" where
  "rdbLoadType r = (case rioBufferRead r 1 of None \<Rightarrow> (-1, r) | Some (b, r) \<Rightarrow> (uint (hd b), r))"

definition rdbLoadTime :: "rio \<Rightarrow> int \<times> rio" where
  "rdbLoadTime r = (case rioBufferRead r 4 of None \<Rightarrow> (-1, r) | Some (b, r) \<Rightarrow> (le_sint b, r))"

definition rdbSaveMillisecondTime :: "rio \<Rightarrow> int \<Rightarrow> int \<times> rio" where
  "rdbSaveMillisecondTime r t = rdbWriteRaw r (le_bytes 8 t)"

definition rdbLoadMillisecondTime :: "rio \<Rightarrow> int \<times> rio" where
  "rdbLoadMillisecondTime r =
     (case rioBufferRead r 8 of None \<Rightarrow> (-1, r) | Some (b, r) \<Rightarrow> (le_sint b, r))"

definition RDB_6BITLEN :: byte where "RDB_6BITLEN = 0"
definition RDB_14BITLEN :: byte where "RDB_14BITLEN = 1"
definition RDB_32BITLEN :: byte where "RDB_32BITLEN = 2"
definition RDB_ENCVAL :: byte where "RDB_ENCVAL = 3"
definition RDB_LENERR :: nat where "RDB_LENERR = 2 ^ 32 - 1"

definition rdbSaveLen :: "rio \<Rightarrow> nat \<Rightarrow> int \<times> rio" where
  "rdbSaveLen r len =
     (if len < 64 then
        (case rdbWriteRaw r [word_of_nat len OR push_bit 6 RDB_6BITLEN] of
           (n, r) \<Rightarrow> if n = -1 then (-1, r) else (1, r))
      else if len < 16384 then
        (case rdbWriteRaw r [word_of_nat (len div 256) OR push_bit 6 RDB_14BITLEN, word_of_nat len] of
           (n, r) \<Rightarrow> if n = -1 then (-1, r) else (2, r))
      else
        (case rdbWriteRaw r [push_bit 6 RDB_32BITLEN] of
           (n, r) \<Rightarrow>
             if n = -1 then (-1, r)
             else (case rdbWriteRaw r (rev (le_bytes 4 (int len))) of
                     (n, r) \<Rightarrow> if n = -1 then (-1, r) else (1 + 4, r))))"

text \<open>The flag \<open>isencoded\<close>, the length (or the kind of encoding), and the channel.\<close>

definition rdbLoadLen :: "rio \<Rightarrow> bool \<times> nat \<times> rio" where
  "rdbLoadLen r =
     (case rioBufferRead r 1 of
        None \<Rightarrow> (False, RDB_LENERR, r)
      | Some (buf, r) \<Rightarrow>
          let b0 = hd buf; type = drop_bit 6 (b0 AND 192)
          in if type = RDB_ENCVAL then (True, unat (b0 AND 63), r)
             else if type = RDB_6BITLEN then (False, unat (b0 AND 63), r)
             else if type = RDB_14BITLEN then
               (case rioBufferRead r 1 of
                  None \<Rightarrow> (False, RDB_LENERR, r)
                | Some (buf1, r) \<Rightarrow> (False, unat (b0 AND 63) * 256 + unat (hd buf1), r))
             else
               (case rioBufferRead r 4 of
                  None \<Rightarrow> (False, RDB_LENERR, r)
                | Some (lenb, r) \<Rightarrow> (False, nat (le_uint (rev lenb)), r)))"

subsection \<open>Strings\<close>

definition RDB_ENC_INT8 :: nat where "RDB_ENC_INT8 = 0"
definition RDB_ENC_INT16 :: nat where "RDB_ENC_INT16 = 1"
definition RDB_ENC_INT32 :: nat where "RDB_ENC_INT32 = 2"
definition RDB_ENC_LZF :: nat where "RDB_ENC_LZF = 3"

definition enc_byte :: "nat \<Rightarrow> byte" where
  "enc_byte kind = push_bit 6 RDB_ENCVAL OR word_of_nat kind"

text \<open>The bytes stored in \<open>enc\<close>; none where the code returns 0.\<close>

definition rdbEncodeInteger :: "int \<Rightarrow> bytes" where
  "rdbEncodeInteger value =
     (if value \<ge> - (2 ^ 7) \<and> value \<le> 2 ^ 7 - 1 then
        [enc_byte RDB_ENC_INT8, word_of_int value]
      else if value \<ge> - (2 ^ 15) \<and> value \<le> 2 ^ 15 - 1 then
        [enc_byte RDB_ENC_INT16, word_of_int value, word_of_int (value div 2 ^ 8)]
      else if value \<ge> - (2 ^ 31) \<and> value \<le> 2 ^ 31 - 1 then
        [enc_byte RDB_ENC_INT32, word_of_int value, word_of_int (value div 2 ^ 8),
         word_of_int (value div 2 ^ 16), word_of_int (value div 2 ^ 24)]
      else [])"

text \<open>\<open>LoadNull\<close> is a \<open>NULL\<close> result, \<open>LoadPanic\<close> aborts the server, \<open>LoadOob\<close> is a read beyond
  the compressed data.\<close>

datatype load_error = LoadNull | LoadPanic | LoadOob

definition int_object :: "shared_ints \<Rightarrow> bool \<Rightarrow> int \<Rightarrow> robj \<times> shared_ints" where
  "int_object sh encode val =
     (if encode then createStringObjectFromLongLong sh val
      else (createObject (Str (sdsfromlonglong val)), sh))"

definition rdbLoadIntegerObject ::
  "shared_ints \<Rightarrow> rio \<Rightarrow> nat \<Rightarrow> bool \<Rightarrow> load_error + robj \<times> shared_ints \<times> rio" where
  "rdbLoadIntegerObject sh r enctype encode =
     (if enctype = RDB_ENC_INT8 \<or> enctype = RDB_ENC_INT16 \<or> enctype = RDB_ENC_INT32 then
        (case rioBufferRead r (if enctype = RDB_ENC_INT8 then 1 else if enctype = RDB_ENC_INT16 then 2 else 4) of
           None \<Rightarrow> Inl LoadNull
         | Some (enc, r) \<Rightarrow>
             (case int_object sh encode (le_sint enc) of (o1, sh) \<Rightarrow> Inr (o1, sh, r)))
      else Inl LoadPanic)"

text \<open>\<open>s\<close> is the memory from the pointer on, \<open>len\<close> the length of the string in it.\<close>

definition rdbTryIntegerEncoding :: "bytes \<Rightarrow> nat \<Rightarrow> bytes" where
  "rdbTryIntegerEncoding s len =
     (case strtoll_full (cstr s) of
        (value, rest, erange) \<Rightarrow>
          if rest \<noteq> [] then []
          else
            let buf = snd (ll2string (replicate 32 0) 32 value)
            in if length (cstr buf) \<noteq> len \<or> memcmp buf s len \<noteq> 0 then []
               else rdbEncodeInteger value)"

definition rdbSaveLzfStringObject :: "(nat \<Rightarrow> int) \<Rightarrow> rio \<Rightarrow> bytes \<Rightarrow> int \<times> rio" where
  "rdbSaveLzfStringObject htab r s =
     (if length s \<le> 4 then (0, r)
      else
        case lzf_compress htab s (length s - 4) of
          None \<Rightarrow> (0, r)
        | Some out \<Rightarrow>
            (case rdbWriteRaw r [enc_byte RDB_ENC_LZF] of
               (n1, r) \<Rightarrow>
                 if n1 = -1 then (-1, r)
                 else case rdbSaveLen r (length out) of
                   (n2, r) \<Rightarrow>
                     if n2 = -1 then (-1, r)
                     else case rdbSaveLen r (length s) of
                       (n3, r) \<Rightarrow>
                         if n3 = -1 then (-1, r)
                         else case rdbWriteRaw r out of
                           (n4, r) \<Rightarrow> if n4 = -1 then (-1, r) else (n1 + n2 + n3 + n4, r)))"

text \<open>The decompressor writes into the zeroed string of the announced length.\<close>

definition rdbLoadLzfStringObject :: "rio \<Rightarrow> load_error + robj \<times> rio" where
  "rdbLoadLzfStringObject r =
     (case rdbLoadLen r of
        (_, clen, r) \<Rightarrow>
          if clen = RDB_LENERR then Inl LoadNull
          else case rdbLoadLen r of
            (_, len, r) \<Rightarrow>
              if len = RDB_LENERR then Inl LoadNull
              else case rioBufferRead r clen of
                None \<Rightarrow> Inl LoadNull
              | Some (c, r) \<Rightarrow>
                  let val = sdsnewlen None len
                  in case lzf_decompress c len of
                       Inl OOB \<Rightarrow> Inl LoadOob
                     | Inl _ \<Rightarrow> Inl LoadNull
                     | Inr out \<Rightarrow>
                         if out = [] then Inl LoadNull
                         else Inr (createObject (Str (val\<lparr>sds_buf := splice 0 out (sds_buf val)\<rparr>)), r))"

definition rdbSaveRawString :: "bool \<Rightarrow> (nat \<Rightarrow> int) \<Rightarrow> rio \<Rightarrow> bytes \<Rightarrow> nat \<Rightarrow> int \<times> rio" where
  "rdbSaveRawString compression htab r s len =
     (let buf = (if len \<le> 11 then rdbTryIntegerEncoding s len else [])
      in if length buf > 0 then
           (case rdbWriteRaw r buf of (n, r) \<Rightarrow> if n = -1 then (-1, r) else (int (length buf), r))
         else
           case (if compression \<and> len > 20 then rdbSaveLzfStringObject htab r (take len s) else (0, r)) of
             (n, r) \<Rightarrow>
               if n = -1 then (-1, r)
               else if n > 0 then (n, r)
               else case rdbSaveLen r len of
                 (n, r) \<Rightarrow>
                   if n = -1 then (-1, r)
                   else if len > 0 then
                     (case rdbWriteRaw r (take len s) of
                        (m, r) \<Rightarrow> if m = -1 then (-1, r) else (n + int len, r))
                   else (n, r))"

definition rdbSaveLongLongAsStringObject :: "rio \<Rightarrow> int \<Rightarrow> int \<times> rio" where
  "rdbSaveLongLongAsStringObject r value =
     (let enc = rdbEncodeInteger value
      in if length enc > 0 then rdbWriteRaw r enc
         else case ll2string (replicate 32 0) 32 value of
           (enclen, buf) \<Rightarrow>
             (case rdbSaveLen r enclen of
                (n, r) \<Rightarrow>
                  if n = -1 then (-1, r)
                  else case rdbWriteRaw r (take enclen buf) of
                    (m, r) \<Rightarrow> if m = -1 then (-1, r) else (n + m, r)))"

definition rdbSaveStringObject :: "bool \<Rightarrow> (nat \<Rightarrow> int) \<Rightarrow> rio \<Rightarrow> robj \<Rightarrow> int \<times> rio" where
  "rdbSaveStringObject compression htab r obj =
     (if encoding obj = ENC_INT then rdbSaveLongLongAsStringObject r (ptr_num (ptr obj))
      else rdbSaveRawString compression htab r (sds_buf (ptr_sds (ptr obj))) (sds_len (ptr_sds (ptr obj))))"

definition set_contents :: "robj \<Rightarrow> bytes \<Rightarrow> robj" where
  "set_contents o1 b =
     o1\<lparr>ptr := Str ((ptr_sds (ptr o1))\<lparr>sds_buf := splice 0 b (sds_buf (ptr_sds (ptr o1)))\<rparr>)\<rparr>"

definition rdbGenericLoadStringObject ::
  "shared_ints \<Rightarrow> rio \<Rightarrow> bool \<Rightarrow> load_error + robj \<times> shared_ints \<times> rio" where
  "rdbGenericLoadStringObject sh r encode =
     (case rdbLoadLen r of
        (isencoded, len, r) \<Rightarrow>
          if isencoded then
            (if len = RDB_ENC_INT8 \<or> len = RDB_ENC_INT16 \<or> len = RDB_ENC_INT32
             then rdbLoadIntegerObject sh r len encode
             else if len = RDB_ENC_LZF then
               (case rdbLoadLzfStringObject r of Inl e \<Rightarrow> Inl e | Inr (o1, r) \<Rightarrow> Inr (o1, sh, r))
             else Inl LoadPanic)
          else if len = RDB_LENERR then Inl LoadNull
          else
            let o1 = (if encode then createStringObject None len else createRawStringObject None len)
            in if len \<noteq> 0 then
                 (case rioBufferRead r len of
                    None \<Rightarrow> Inl LoadNull
                  | Some (b, r) \<Rightarrow> Inr (set_contents o1 b, sh, r))
               else Inr (o1, sh, r))"

subsection \<open>Facts about the channel\<close>

text \<open>What is still to be read, and the channel after reading some of it.\<close>

definition avail :: "rio \<Rightarrow> bytes" where "avail r = drop (io_pos r) (io_ptr r)"

definition advance :: "rio \<Rightarrow> nat \<Rightarrow> rio" where "advance r n = r\<lparr>io_pos := io_pos r + n\<rparr>"

definition appended :: "rio \<Rightarrow> bytes \<Rightarrow> rio" where
  "appended r b = r\<lparr>io_ptr := io_ptr r @ b, io_pos := io_pos r + length b\<rparr>"

lemma avail_advance [simp]: "avail (advance r n) = drop n (avail r)"
  by (simp add: avail_def advance_def add.commute)

lemma advance_advance [simp]: "advance (advance r n) m = advance r (n + m)"
  by (simp add: advance_def)

lemma advance_0 [simp]: "advance r 0 = r"
  by (simp add: advance_def)

lemma appended_appended [simp]: "appended (appended r a) b = appended r (a @ b)"
  by (simp add: appended_def)

lemma appended_Nil [simp]: "appended r [] = r"
  by (simp add: appended_def)

lemma rioBufferRead_avail:
  "rioBufferRead r n = (if n \<le> length (avail r) then Some (take n (avail r), advance r n) else None)"
  by (auto simp: rioBufferRead_def avail_def advance_def slice_def)

lemma io_faults_simps [simp]:
  "io_faults (appended r b) = io_faults r" "io_faults (advance r n) = io_faults r"
  "io_faults (rioInitWithBuffer b) = []"
  by (simp_all add: appended_def advance_def rioInitWithBuffer_def)

lemma rioFileWrite_appended: "io_faults r = [] \<Longrightarrow> rioFileWrite r b = (1, appended r b)"
  by (simp add: rioFileWrite_def rioBufferWrite_def appended_def)

lemma rdbWriteRaw_appended [simp]: "io_faults r = [] \<Longrightarrow> rdbWriteRaw r b = (int (length b), appended r b)"
  by (simp add: rdbWriteRaw_def rioFileWrite_appended)

subsection \<open>Write errors\<close>

text \<open>A function that writes to a channel is honest, for the results \<open>bad\<close> that tell of an error, when
  every other result means that nothing went wrong: it has done what it does on a channel without
  faults. And when no call fails, it does just that.\<close>

definition clean :: "rio \<Rightarrow> rio" where "clean r = r\<lparr>io_faults := []\<rparr>"

definition honest :: "('n \<Rightarrow> bool) \<Rightarrow> (rio \<Rightarrow> 'n \<times> rio) \<Rightarrow> bool" where
  "honest bad f \<longleftrightarrow>
     (\<forall>r n r'. f r = (n, r') \<longrightarrow>
        (\<not> bad n \<longrightarrow> f (clean r) = (n, clean r')) \<and>
        (set (io_faults r) \<subseteq> {None} \<longrightarrow> f (clean r) = (n, clean r') \<and> set (io_faults r') \<subseteq> {None}))"

lemma clean_simps [simp]:
  "io_ptr (clean r) = io_ptr r" "io_pos (clean r) = io_pos r" "io_faults (clean r) = []"
  by (simp_all add: clean_def)

lemma honest_const [intro, simp]: "honest bad (\<lambda>r. (n, r))"
  by (simp add: honest_def)

text \<open>The shape of the code: an error of one step is returned at once.\<close>

lemma honest_bind:
  assumes "honest b f" "\<And>n. honest b' (g n)" "b' e"
  shows "honest b' (\<lambda>r. case f r of (n, r) \<Rightarrow> if b n then (e, r) else g n r)"
  unfolding honest_def
proof (intro allI impI)
  fix r n r'
  assume h: "(case f r of (n, r) \<Rightarrow> if b n then (e, r) else g n r) = (n, r')"
  obtain m q where f: "f r = (m, q)" by fastforce
  note hf = assms(1) [unfolded honest_def, rule_format, OF f]
  note hg = assms(2) [of m, unfolded honest_def, rule_format, of q n r']
  show "(\<not> b' n \<longrightarrow> (case f (clean r) of (n, r) \<Rightarrow> if b n then (e, r) else g n r) = (n, clean r')) \<and>
    (set (io_faults r) \<subseteq> {None} \<longrightarrow>
      (case f (clean r) of (n, r) \<Rightarrow> if b n then (e, r) else g n r) = (n, clean r') \<and> set (io_faults r') \<subseteq> {None})"
    using h hf hg assms(3) f by (cases "b m") auto
qed

lemma honest_if: "honest b f \<Longrightarrow> honest b g \<Longrightarrow> honest b (\<lambda>r. if P then f r else g r)"
  by (cases P) simp_all

text \<open>A step may depend on what has been written and on the position.\<close>

lemma honest_reads:
  assumes "\<And>x. honest b (g x)" "\<And>r. h (clean r) = h r"
  shows "honest b (\<lambda>r. g (h r) r)"
  unfolding honest_def using assms(1) [unfolded honest_def, rule_format] assms(2) by simp

lemma honest_rioFileWrite: "honest (\<lambda>n. n = 0) (\<lambda>r. rioFileWrite r b)"
  by (auto simp: honest_def rioFileWrite_def rioBufferWrite_def clean_def split: list.splits option.splits)

lemma honest_rdbWriteRaw: "honest (\<lambda>n. n = -1) (\<lambda>r. rdbWriteRaw r b)"
proof (cases "b = []")
  case True
  then show ?thesis by (simp add: rdbWriteRaw_def)
next
  case False
  have "honest (\<lambda>n. n = -1) (\<lambda>r. case rioFileWrite r b of (n, r) \<Rightarrow> if n = 0 then (-1, r) else (int (length b), r))"
    by (rule honest_bind [OF honest_rioFileWrite honest_const]) simp
  with False show ?thesis by (simp add: rdbWriteRaw_def)
qed

text \<open>No step of the saving of a string drops an error.\<close>

lemma honest_rdbSaveLen: "honest (\<lambda>n. n = -1) (\<lambda>r. rdbSaveLen r len)"
  unfolding rdbSaveLen_def
  by (intro honest_if honest_bind honest_rdbWriteRaw honest_const refl)

lemma honest_rdbSaveLzf: "honest (\<lambda>n. n = -1) (\<lambda>r. rdbSaveLzfStringObject htab r s)"
proof (cases "lzf_compress htab s (length s - 4)")
  case None
  then show ?thesis by (simp add: rdbSaveLzfStringObject_def honest_if)
next
  case (Some out)
  show ?thesis
    unfolding rdbSaveLzfStringObject_def Some option.case
    by (intro honest_if honest_bind honest_rdbWriteRaw honest_rdbSaveLen honest_const refl)
qed

lemma honest_rdbSaveRawString: "honest (\<lambda>n. n = -1) (\<lambda>r. rdbSaveRawString c htab r s len)"
  unfolding rdbSaveRawString_def Let_def
  by (intro honest_if honest_bind honest_rdbWriteRaw honest_rdbSaveLen honest_rdbSaveLzf honest_const refl)

lemma honest_rdbSaveStringObject: "honest (\<lambda>n. n = -1) (\<lambda>r. rdbSaveStringObject c htab r obj)"
proof -
  have "honest (\<lambda>n. n = -1) (\<lambda>r. rdbSaveLongLongAsStringObject r num)" for num
    unfolding rdbSaveLongLongAsStringObject_def Let_def
    by (cases "ll2string (replicate 32 0) 32 num")
      (simp only: prod.case, intro honest_if honest_bind honest_rdbWriteRaw honest_rdbSaveLen honest_const refl)
  then show ?thesis
    unfolding rdbSaveStringObject_def by (intro honest_if honest_rdbSaveRawString)
qed

subsection \<open>Lengths: round trip\<close>

definition len_bytes :: "nat \<Rightarrow> bytes" where
  "len_bytes n =
     (if n < 64 then [word_of_nat n OR push_bit 6 RDB_6BITLEN]
      else if n < 16384 then [word_of_nat (n div 256) OR push_bit 6 RDB_14BITLEN, word_of_nat n]
      else push_bit 6 RDB_32BITLEN # rev (le_bytes 4 (int n)))"

lemma le_bytes_4: "le_bytes 4 v = [word_of_int v, word_of_int (v div 256),
    word_of_int (v div 256 div 256), word_of_int (v div 256 div 256 div 256)]"
  by (simp add: eval_nat_numeral)

lemma length_len_bytes: "length (len_bytes n) \<in> {1, 2, 5}"
  by (simp add: len_bytes_def)

lemma rdbSaveLen_ok:
  "io_faults r = [] \<Longrightarrow> rdbSaveLen r n = (int (length (len_bytes n)), appended r (len_bytes n))"
  by (simp add: rdbSaveLen_def len_bytes_def)

lemma len_byte_6:
  assumes "n < 64"
  shows "drop_bit 6 ((word_of_nat n OR push_bit 6 RDB_6BITLEN) AND 192 :: byte) = RDB_6BITLEN"
    and "unat ((word_of_nat n OR push_bit 6 RDB_6BITLEN) AND 63 :: byte) = n"
proof -
  have "\<forall>n \<in> set [0..<64]. drop_bit 6 ((word_of_nat n OR push_bit 6 RDB_6BITLEN) AND 192 :: byte) = RDB_6BITLEN
    \<and> unat ((word_of_nat n OR push_bit 6 RDB_6BITLEN) AND 63 :: byte) = n" by code_simp
  with assms show "drop_bit 6 ((word_of_nat n OR push_bit 6 RDB_6BITLEN) AND 192 :: byte) = RDB_6BITLEN"
    and "unat ((word_of_nat n OR push_bit 6 RDB_6BITLEN) AND 63 :: byte) = n" by simp_all
qed

lemma len_byte_14:
  assumes "n < 64"
  shows "drop_bit 6 ((word_of_nat n OR push_bit 6 RDB_14BITLEN) AND 192 :: byte) = RDB_14BITLEN"
    and "unat ((word_of_nat n OR push_bit 6 RDB_14BITLEN) AND 63 :: byte) = n"
proof -
  have "\<forall>n \<in> set [0..<64]. drop_bit 6 ((word_of_nat n OR push_bit 6 RDB_14BITLEN) AND 192 :: byte) = RDB_14BITLEN
    \<and> unat ((word_of_nat n OR push_bit 6 RDB_14BITLEN) AND 63 :: byte) = n" by code_simp
  with assms show "drop_bit 6 ((word_of_nat n OR push_bit 6 RDB_14BITLEN) AND 192 :: byte) = RDB_14BITLEN"
    and "unat ((word_of_nat n OR push_bit 6 RDB_14BITLEN) AND 63 :: byte) = n" by simp_all
qed

lemma rdb_types [simp]:
  "RDB_6BITLEN \<noteq> RDB_ENCVAL" "RDB_14BITLEN \<noteq> RDB_ENCVAL" "RDB_32BITLEN \<noteq> RDB_ENCVAL"
  "RDB_14BITLEN \<noteq> RDB_6BITLEN" "RDB_32BITLEN \<noteq> RDB_6BITLEN" "RDB_32BITLEN \<noteq> RDB_14BITLEN"
  by (simp_all add: RDB_6BITLEN_def RDB_14BITLEN_def RDB_32BITLEN_def RDB_ENCVAL_def)

lemma rdbLoadLen_ok:
  assumes "avail r = len_bytes n @ rest" "n < 2 ^ 32"
  shows "rdbLoadLen r = (False, n, advance r (length (len_bytes n)))"
proof -
  consider "n < 64" | "64 \<le> n" "n < 16384" | "16384 \<le> n" by linarith
  then show ?thesis
  proof cases
    case 1
    with assms len_byte_6 [OF 1] show ?thesis
      by (simp add: rdbLoadLen_def rioBufferRead_avail len_bytes_def Let_def)
  next
    case 2
    have h: "n div 256 < 64" using 2 by linarith
    have "n div 256 * 256 + unat (word_of_nat n :: byte) = n" by (simp add: unat_of_nat)
    with 2 assms len_byte_14 [OF h] show ?thesis
      by (simp add: rdbLoadLen_def rioBufferRead_avail len_bytes_def Let_def)
  next
    case 3
    have t: "drop_bit 6 (push_bit 6 RDB_32BITLEN AND 192 :: byte) = RDB_32BITLEN"
      by (simp add: RDB_32BITLEN_def)
    have "le_uint (le_bytes 4 (int n)) = int n"
      using assms(2) by (simp add: le_uint_le_bytes)
    with 3 assms t show ?thesis
      by (simp add: rdbLoadLen_def rioBufferRead_avail len_bytes_def Let_def)
  qed
qed

text \<open>A length saved to an empty channel, and the length at the front of some input. The largest
  32 bit number is also the error value, so it cannot be told from a failure.\<close>

definition len_enc :: "nat \<Rightarrow> bytes" where
  "len_enc n = io_ptr (snd (rdbSaveLen (rioInitWithBuffer []) n))"

definition len_dec :: "bytes \<Rightarrow> (nat \<times> bytes) option" where
  "len_dec bs =
     (case rdbLoadLen (rioInitWithBuffer bs) of
        (isencoded, n, r) \<Rightarrow> if isencoded \<or> n = RDB_LENERR then None else Some (n, avail r))"

lemma len_enc_bytes: "len_enc n = len_bytes n"
  by (simp add: len_enc_def rdbSaveLen_ok appended_def rioInitWithBuffer_def)

interpretation lenc: codec len_enc len_dec "\<lambda>n. n < RDB_LENERR"
proof
  fix n rest assume n: "n < RDB_LENERR"
  have "rdbLoadLen (rioInitWithBuffer (len_bytes n @ rest))
      = (False, n, advance (rioInitWithBuffer (len_bytes n @ rest)) (length (len_bytes n)))"
    by (rule rdbLoadLen_ok) (use n in \<open>simp_all add: RDB_LENERR_def rioInitWithBuffer_def avail_def\<close>)
  with n show "len_dec (len_enc n @ rest) = Some (n, rest)"
    by (simp add: len_dec_def len_enc_bytes) (simp add: rioInitWithBuffer_def avail_def)
qed

text \<open>
  Any sequence of lengths below the error value that is saved one after the other is read
  back unchanged, whatever follows, and no two different lengths share a prefix.
\<close>
theorem rdb_lengths_roundtrip:
  assumes "list_all (\<lambda>n. n < RDB_LENERR) ns"
  shows "lenc.dec_many (length ns) (concat (map len_enc ns) @ rest) = Some (ns, rest)"
  using assms by (intro lenc.dec_many_enc) (simp add: list_all_iff)

theorem rdb_lengths_roundtrip_witness:
  "concat (map len_enc [5, 300, 70000]) = [5, 65, 44, 128, 0, 1, 17, 112] \<and>
   lenc.dec_many 3 (concat (map len_enc [5, 300, 70000]) @ [9]) = Some ([5, 300, 70000], [9])"
proof
  have l: "length [5, 300, 70000 :: nat] = 3" by simp
  show "concat (map len_enc [5, 300, 70000]) = [5, 65, 44, 128, 0, 1, 17, 112]"
    by (simp add: len_enc_bytes len_bytes_def RDB_6BITLEN_def RDB_14BITLEN_def RDB_32BITLEN_def
        le_bytes_4)
  show "lenc.dec_many 3 (concat (map len_enc [5, 300, 70000]) @ [9]) = Some ([5, 300, 70000], [9])"
    using rdb_lengths_roundtrip [of "[5, 300, 70000]" "[9]", unfolded l] by (simp add: RDB_LENERR_def)
qed

subsection \<open>Strings: round trip\<close>

lemma enc_byte_ok:
  assumes "k < 4"
  shows "drop_bit 6 (enc_byte k AND 192) = RDB_ENCVAL" "unat (enc_byte k AND 63) = k"
proof -
  have "\<forall>k \<in> set [0..<4]. drop_bit 6 (enc_byte k AND 192) = RDB_ENCVAL \<and> unat (enc_byte k AND 63) = k"
    by code_simp
  with assms show "drop_bit 6 (enc_byte k AND 192) = RDB_ENCVAL" "unat (enc_byte k AND 63) = k"
    by simp_all
qed

lemma rdbLoadLen_enc:
  assumes "avail r = enc_byte k # rest" "k < 4"
  shows "rdbLoadLen r = (True, k, advance r 1)"
  using assms enc_byte_ok [OF assms(2)]
  by (simp add: rdbLoadLen_def rioBufferRead_avail Let_def)

definition int_width :: "int \<Rightarrow> nat" where
  "int_width v = (if in_srange 1 v then 1 else if in_srange 2 v then 2 else 4)"

lemma rdbEncodeInteger_ok:
  "rdbEncodeInteger v =
    (if in_srange 4 v
     then enc_byte (if in_srange 1 v then RDB_ENC_INT8 else if in_srange 2 v then RDB_ENC_INT16
                    else RDB_ENC_INT32) # le_bytes (int_width v) v
     else [])"
proof -
  have "v div 256 div 256 = v div 65536" "v div 65536 div 256 = v div 16777216"
    by (simp_all flip: zdiv_zmult2_eq)
  then show ?thesis
    by (simp add: rdbEncodeInteger_def in_srange_def int_width_def le_bytes_4 eval_nat_numeral)
qed

lemma in_srange_mono: "in_srange m v \<Longrightarrow> 0 < m \<Longrightarrow> m \<le> n \<Longrightarrow> in_srange n v"
proof -
  assume a: "in_srange m v" "0 < m" "m \<le> n"
  have "(2::int) ^ (8 * m - 1) \<le> 2 ^ (8 * n - 1)" using a by (intro power_increasing) auto
  with a(1) show ?thesis unfolding in_srange_def by linarith
qed

lemma in_srange_48: "in_srange 4 v \<Longrightarrow> in_srange 8 v"
  by (rule in_srange_mono) auto

lemma dec_int_inj4: "in_srange 4 v \<Longrightarrow> in_srange 4 w \<Longrightarrow> dec_int v = dec_int w \<Longrightarrow> v = w"
  by (metis in_srange_48 option.inject string2ll_dec_int)

lemma the_int4: "in_srange 4 v \<Longrightarrow> t = dec_int v \<Longrightarrow> (THE v. in_srange 4 v \<and> t = dec_int v) = v"
  by (rule the_equality) (auto dest: dec_int_inj4)

text \<open>The ways a string may be stored.\<close>

definition stored :: "bytes \<Rightarrow> bytes \<Rightarrow> bool" where
  "stored s w \<longleftrightarrow>
     (\<exists>v. in_srange 4 v \<and> s = dec_int v \<and> w = rdbEncodeInteger v) \<or>
     w = len_bytes (length s) @ s \<or>
     (\<exists>htab out. 4 < length s \<and> lzf_compress htab s (length s - 4) = Some out \<and>
        w = enc_byte RDB_ENC_LZF # len_bytes (length out) @ len_bytes (length s) @ out)"

lemma strtoll_full_range: "strtoll_full s = (v, rest, e) \<Longrightarrow> in_srange 8 v"
  by (auto simp: strtoll_full_def Let_def in_srange_def LLONG_MIN_def LLONG_MAX_def split: if_splits)

lemma ll2string_32:
  assumes "in_srange 8 v"
  shows "\<exists>buf. ll2string (replicate 32 0) 32 v = (length (dec_int v), buf) \<and> cstr buf = dec_int v \<and>
    length buf = 32 \<and> take (length (dec_int v)) buf = dec_int v"
proof -
  define b :: bytes where "b = splice 0 (dec_int v @ [0]) (replicate 32 0)"
  have l: "length (dec_int v) \<le> 20" using assms by (rule length_dec_int_le)
  have "0 \<notin> set (dec_int v)" using dec_int_no_nul by blast
  then have "cstr b = dec_int v" by (simp add: b_def splice_def cstr_append_nul)
  moreover have "length b = 32" using l by (simp add: b_def length_splice)
  moreover have "take (length (dec_int v)) b = dec_int v" by (simp add: b_def splice_def)
  moreover have "ll2string (replicate 32 0) 32 v = (length (dec_int v), b)"
    using ll2string_small [OF assms, of 32 "replicate 32 0"] by (simp add: b_def)
  ultimately show ?thesis by blast
qed

lemma rdbTryIntegerEncoding_ok:
  assumes "n < length buf" "buf ! n = 0"
  shows "rdbTryIntegerEncoding buf n =
    (if \<exists>v. in_srange 4 v \<and> take n buf = dec_int v
     then rdbEncodeInteger (THE v. in_srange 4 v \<and> take n buf = dec_int v) else [])"
proof (cases "\<exists>v. in_srange 4 v \<and> take n buf = dec_int v")
  case True
  then obtain v where v: "in_srange 4 v" "take n buf = dec_int v" by blast
  have v8: "in_srange 8 v" using v(1) by (rule in_srange_48)
  have "buf = dec_int v @ 0 # drop (Suc n) buf"
    using assms v(2) by (metis id_take_nth_drop)
  moreover have "0 \<notin> set (dec_int v)" using dec_int_no_nul by blast
  ultimately have c: "cstr buf = dec_int v" by (metis cstr_append_nul)
  obtain b where b: "ll2string (replicate 32 0) 32 v = (length (dec_int v), b)" "cstr b = dec_int v"
    "length b = 32" "take (length (dec_int v)) b = dec_int v" using ll2string_32 [OF v8] by blast
  have n: "length (dec_int v) = n" using v(2) assms(1) by (metis length_take min.absorb4)
  have "n \<le> 32" using length_dec_int_le [OF v8] n by simp
  then have "memcmp b buf n = 0" using b v(2) n assms(1) by (simp add: memcmp_eq_0)
  then have "rdbTryIntegerEncoding buf n = rdbEncodeInteger v"
    using c b n by (simp add: rdbTryIntegerEncoding_def strtoll_full_dec_int [OF v8])
  moreover have "(THE v. in_srange 4 v \<and> take n buf = dec_int v) = v" using v by (rule the_int4)
  ultimately show ?thesis using True by simp
next
  case False
  obtain v rest e where s: "strtoll_full (cstr buf) = (v, rest, e)" by (metis prod_cases3)
  then have v8: "in_srange 8 v" by (rule strtoll_full_range)
  obtain b where b: "ll2string (replicate 32 0) 32 v = (length (dec_int v), b)" "cstr b = dec_int v"
    "length b = 32" "take (length (dec_int v)) b = dec_int v" using ll2string_32 [OF v8] by blast
  have "rdbTryIntegerEncoding buf n = []"
  proof (cases "rest \<noteq> [] \<or> length (cstr b) \<noteq> n \<or> memcmp b buf n \<noteq> 0")
    case True
    with s b show ?thesis by (auto simp: rdbTryIntegerEncoding_def)
  next
    case ok: False
    then have "length (dec_int v) = n" using b by simp
    moreover from this have "n \<le> 32" using length_dec_int_le [OF v8] by simp
    ultimately have "take n buf = dec_int v" using ok b assms(1) by (simp add: memcmp_eq_0)
    with False have "\<not> in_srange 4 v" by blast
    then have "rdbEncodeInteger v = []" by (simp add: rdbEncodeInteger_ok)
    with s b show ?thesis by (simp add: rdbTryIntegerEncoding_def)
  qed
  with False show ?thesis by (simp only: if_False)
qed

lemma rdbSaveRawString_ok:
  assumes "n < length buf" "buf ! n = 0" and r: "io_faults r = []"
  shows "\<exists>w. rdbSaveRawString compression htab r buf n = (int (length w), appended r w) \<and>
    stored (take n buf) w \<and> (in_srange 4 v \<and> take n buf = dec_int v \<longrightarrow> w = rdbEncodeInteger v)"
proof -
  have len: "length (take n buf) = n" using assms(1) by simp
  define e where "e = (if n \<le> 11 then rdbTryIntegerEncoding buf n else [])"
  show ?thesis
  proof (cases "e = []")
    case False
    then obtain w where w: "in_srange 4 w" "take n buf = dec_int w" "e = rdbEncodeInteger w"
    proof -
      assume that: "\<And>w. in_srange 4 w \<Longrightarrow> take n buf = dec_int w \<Longrightarrow> e = rdbEncodeInteger w \<Longrightarrow> thesis"
      from False have ex: "\<exists>v. in_srange 4 v \<and> take n buf = dec_int v"
        using rdbTryIntegerEncoding_ok [OF assms(1,2)] by (auto simp: e_def split: if_splits)
      then obtain w where w: "in_srange 4 w" "take n buf = dec_int w" by blast
      then have "(THE v. in_srange 4 v \<and> take n buf = dec_int v) = w" by (rule the_int4)
      then have "e = rdbEncodeInteger w"
        using False ex rdbTryIntegerEncoding_ok [OF assms(1,2)] by (auto simp: e_def split: if_splits)
      with w that show thesis by blast
    qed
    have same: "u = w" if "in_srange 4 u" "take n buf = dec_int u" for u
      using that w(1,2) dec_int_inj4 by metis
    from False have "rdbSaveRawString compression htab r buf n = (int (length e), appended r e)"
      by (simp add: rdbSaveRawString_def e_def [symmetric] r)
    moreover have "stored (take n buf) e" using w unfolding stored_def by blast
    ultimately show ?thesis using same w(3) by blast
  next
    case True
    have noint: "\<not> (in_srange 4 v \<and> take n buf = dec_int v)"
    proof
      assume v: "in_srange 4 v \<and> take n buf = dec_int v"
      then have "nat \<bar>v\<bar> < 10 ^ 10" by (auto simp: in_srange_def)
      then have "length (dec_nat (nat \<bar>v\<bar>)) \<le> 10" by (rule length_dec_nat_le) simp
      then have "length (dec_int v) \<le> 11" by (cases "v < 0") (simp_all add: dec_int_def)
      with v len have n: "n \<le> 11" by simp
      have "(THE v. in_srange 4 v \<and> take n buf = dec_int v) = v" using v by (intro the_int4) auto
      with v n rdbTryIntegerEncoding_ok [OF assms(1,2)] have "e = rdbEncodeInteger v" by (auto simp: e_def)
      with v True show False by (simp add: rdbEncodeInteger_ok)
    qed
    define z where "z = (if compression \<and> n > 20 then rdbSaveLzfStringObject htab r (take n buf) else (0, r))"
    have save: "rdbSaveRawString compression htab r buf n =
      (case z of (k, r) \<Rightarrow>
         if k = -1 then (-1, r) else if k > 0 then (k, r)
         else (int (length (len_bytes n)) + int n, appended r (len_bytes n @ take n buf)))"
      if "io_faults (snd z) = []"
      using True len that
      by (cases z) (simp add: rdbSaveRawString_def e_def [symmetric] z_def [symmetric] rdbSaveLen_ok)
    show ?thesis
    proof (cases "compression \<and> n > 20 \<and> lzf_compress htab (take n buf) (n - 4) \<noteq> None")
      case c: True
      then obtain out where out: "lzf_compress htab (take n buf) (n - 4) = Some out" by blast
      let ?w = "enc_byte RDB_ENC_LZF # len_bytes (length out) @ len_bytes n @ out"
      have "z = (int (length ?w), appended r ?w)"
        using c out len by (simp add: z_def rdbSaveLzfStringObject_def rdbSaveLen_ok r)
      then have "rdbSaveRawString compression htab r buf n = (int (length ?w), appended r ?w)"
        using save r by simp
      moreover have "stored (take n buf) ?w"
        unfolding stored_def using c out len by auto
      ultimately show ?thesis using noint by blast
    next
      case False
      then have "z = (0, r)"
        using len by (auto simp: z_def rdbSaveLzfStringObject_def split: option.splits)
      then have "rdbSaveRawString compression htab r buf n
          = (int (length (len_bytes n @ take n buf)), appended r (len_bytes n @ take n buf))"
        using save len r by simp
      moreover have "stored (take n buf) (len_bytes n @ take n buf)"
        unfolding stored_def using len by simp
      ultimately show ?thesis using noint by blast
    qed
  qed
qed

lemma int_object_ok:
  assumes "shared_ok sh" "in_srange 8 v" "int_object sh encode v = (o1, sh')"
  shows "obj_ok o1 \<and> obj_val o1 = dec_int v \<and> shared_ok sh'"
proof (cases encode)
  case True
  with assms(3) have "createStringObjectFromLongLong sh v = (o1, sh')" by (simp add: int_object_def)
  from createFromLongLong_ok [OF assms(1,2) this] show ?thesis by blast
next
  case False
  with assms sdsfromlonglong_ok [OF assms(2)] show ?thesis
    by (auto simp: int_object_def createObject_def obj_ok_def obj_val_def sdsEncodedObject_def)
qed

lemma rdbLoadIntegerObject_ok:
  assumes "in_srange 4 v" "shared_ok sh" "avail r = le_bytes (int_width v) v @ rest"
  shows "\<exists>o1 sh'. rdbLoadIntegerObject sh r
      (if in_srange 1 v then RDB_ENC_INT8 else if in_srange 2 v then RDB_ENC_INT16 else RDB_ENC_INT32) encode
      = Inr (o1, sh', advance r (int_width v)) \<and> obj_ok o1 \<and> obj_val o1 = dec_int v \<and> shared_ok sh'"
proof -
  obtain o1 sh' where o1: "int_object sh encode v = (o1, sh')" by fastforce
  have "in_srange (int_width v) v" "0 < int_width v" using assms(1) by (simp_all add: int_width_def)
  then have le: "le_sint (le_bytes (int_width v) v) = v" by (intro le_sint_le_bytes)
  have rd: "rioBufferRead r (int_width v) = Some (le_bytes (int_width v) v, advance r (int_width v))"
    using assms(3) by (simp add: rioBufferRead_avail)
  have w: "int_width v = (if in_srange 1 v then 1 else if in_srange 2 v then 2 else 4)"
    by (simp add: int_width_def)
  have "rdbLoadIntegerObject sh r
      (if in_srange 1 v then RDB_ENC_INT8 else if in_srange 2 v then RDB_ENC_INT16 else RDB_ENC_INT32) encode
      = Inr (o1, sh', advance r (int_width v))"
    using rd le o1 unfolding rdbLoadIntegerObject_def
    by (simp add: w RDB_ENC_INT8_def RDB_ENC_INT16_def RDB_ENC_INT32_def split: if_splits)
  with int_object_ok [OF assms(2) in_srange_48 [OF assms(1)] o1] show ?thesis by blast
qed

lemma set_contents_ok:
  assumes "length b = n" "n < 2 ^ 32"
  shows "obj_ok (set_contents (createRawStringObject None n) b) \<and>
      obj_val (set_contents (createRawStringObject None n) b) = b"
    and "obj_ok (set_contents (createStringObject None n) b) \<and>
      obj_val (set_contents (createStringObject None n) b) = b"
proof -
  have s: "take n (splice 0 b (replicate n 0 @ [0])) = b" "length (splice 0 b (replicate n 0 @ [0])) = n + 1"
    "splice 0 b (replicate n 0 @ [0]) ! n = 0"
    "replicate n 0 @ [0 :: byte] = 0 # replicate n 0"
    using assms(1) by (simp_all add: splice_def nth_append replicate_append_same nth_Cons')
  then show "obj_ok (set_contents (createRawStringObject None n) b) \<and>
      obj_val (set_contents (createRawStringObject None n) b) = b"
    and "obj_ok (set_contents (createStringObject None n) b) \<and>
      obj_val (set_contents (createStringObject None n) b) = b"
    using assms
    by (simp_all add: set_contents_def createStringObject_def createRawStringObject_def createObject_def
        createEmbeddedStringObject_def sdsnewlen_def obj_ok_def obj_val_def sdsEncodedObject_def
        sds_ok_def sds_val_def)
qed

lemma rdbLoadLzf_ok:
  assumes "lzf_compress htab s (length s - 4) = Some out" "4 < length s" "length s < RDB_LENERR"
    and "avail r = len_bytes (length out) @ len_bytes (length s) @ out @ rest"
  shows "\<exists>o1. rdbLoadLzfStringObject r
      = Inr (o1, advance r (length (len_bytes (length out) @ len_bytes (length s) @ out))) \<and>
    obj_ok o1 \<and> obj_val o1 = s"
proof -
  have lz: "lzf_decompress out (length s) = Inr s" "length out \<le> length s - 4"
    using lzf_compress_inverse [OF assms(1)] by simp_all
  have b: "length out < RDB_LENERR" "length s < 2 ^ 32" "length out < 2 ^ 32"
    using lz(2) assms(3) by (auto simp: RDB_LENERR_def)
  have r1: "rdbLoadLen r = (False, length out, advance r (length (len_bytes (length out))))"
    using assms(4) b by (intro rdbLoadLen_ok) auto
  have r2: "rdbLoadLen (advance r (length (len_bytes (length out)))) = (False, length s,
      advance r (length (len_bytes (length out)) + length (len_bytes (length s))))"
    using rdbLoadLen_ok [of "advance r (length (len_bytes (length out)))" "length s" "out @ rest"]
      assms(4) b by simp
  have r3: "rioBufferRead (advance r (length (len_bytes (length out)) + length (len_bytes (length s))))
      (length out) = Some (out, advance r (length (len_bytes (length out)) +
        length (len_bytes (length s)) + length out))"
    using assms(4) by (simp add: rioBufferRead_avail)
  define val where "val = sdsnewlen None (length s)"
  define o1 where "o1 = createObject (Str (val\<lparr>sds_buf := splice 0 s (sds_buf val)\<rparr>))"
  have "s \<noteq> []" using assms(2) by auto
  have "rdbLoadLzfStringObject r = Inr (o1, advance r (length (len_bytes (length out)) +
        length (len_bytes (length s)) + length out))"
    unfolding rdbLoadLzfStringObject_def r1 prod.case r2 r3 option.case Let_def
    using b assms(3) lz \<open>s \<noteq> []\<close> by (simp add: o1_def val_def)
  moreover have "o1 = set_contents (createRawStringObject None (length s)) s"
    by (simp add: o1_def val_def set_contents_def createRawStringObject_def createObject_def)
  ultimately show ?thesis using set_contents_ok(1) [OF refl b(2)] by (simp add: add.assoc)
qed

lemma rdbLoadString_ok:
  assumes "stored s w" "length s < RDB_LENERR" "shared_ok sh" "avail r = w @ rest"
  shows "\<exists>o1 sh'. rdbGenericLoadStringObject sh r encode = Inr (o1, sh', advance r (length w)) \<and>
    obj_ok o1 \<and> obj_val o1 = s \<and> shared_ok sh'"
proof -
  have k4: "RDB_ENC_INT8 < 4" "RDB_ENC_INT16 < 4" "RDB_ENC_INT32 < 4" "RDB_ENC_LZF < 4"
    by (simp_all add: RDB_ENC_INT8_def RDB_ENC_INT16_def RDB_ENC_INT32_def RDB_ENC_LZF_def)
  from assms(1) consider
      (int) v where "in_srange 4 v" "s = dec_int v" "w = rdbEncodeInteger v"
    | (raw) "w = len_bytes (length s) @ s"
    | (lzf) htab out where "4 < length s" "lzf_compress htab s (length s - 4) = Some out"
        "w = enc_byte RDB_ENC_LZF # len_bytes (length out) @ len_bytes (length s) @ out"
    unfolding stored_def by blast
  then show ?thesis
  proof cases
    case int
    define k where "k = (if in_srange 1 v then RDB_ENC_INT8 else if in_srange 2 v then RDB_ENC_INT16
      else RDB_ENC_INT32)"
    have k: "k < 4" "k = RDB_ENC_INT8 \<or> k = RDB_ENC_INT16 \<or> k = RDB_ENC_INT32" using k4 by (auto simp: k_def)
    have w: "w = enc_byte k # le_bytes (int_width v) v"
      using int by (simp add: rdbEncodeInteger_ok k_def)
    have l: "rdbLoadLen r = (True, k, advance r 1)"
      using assms(4) w k(1) by (intro rdbLoadLen_enc) auto
    have "avail (advance r 1) = le_bytes (int_width v) v @ rest" using assms(4) w by simp
    from rdbLoadIntegerObject_ok [OF int(1) assms(3) this, of encode] obtain o1 sh' where
      "rdbLoadIntegerObject sh (advance r 1) k encode = Inr (o1, sh', advance r (1 + int_width v))"
      "obj_ok o1" "obj_val o1 = dec_int v" "shared_ok sh'"
      by (auto simp: k_def)
    then show ?thesis using l k(2) w int(2) unfolding rdbGenericLoadStringObject_def by auto
  next
    case raw
    have b: "length s < 2 ^ 32" using assms(2) by (simp add: RDB_LENERR_def)
    have l: "rdbLoadLen r = (False, length s, advance r (length (len_bytes (length s))))"
      using assms(4) raw b by (intro rdbLoadLen_ok [of _ _ "s @ rest"]) auto
    have rd: "rioBufferRead (advance r (length (len_bytes (length s)))) (length s)
        = Some (s, advance r (length w))"
      using assms(4) raw by (simp add: rioBufferRead_avail)
    define o1 where "o1 = (if encode then createStringObject None (length s)
      else createRawStringObject None (length s))"
    have "rdbGenericLoadStringObject sh r encode = Inr (set_contents o1 s, sh, advance r (length w))"
    proof (cases "s = []")
      case True
      have "set_contents o1 [] = o1"
        by (simp add: o1_def set_contents_def splice_def createStringObject_def
          createEmbeddedStringObject_def createRawStringObject_def createObject_def)
      with True l assms(2) raw show ?thesis
        by (simp add: rdbGenericLoadStringObject_def o1_def [symmetric]) (simp add: o1_def)
    next
      case False
      with l rd assms(2) show ?thesis by (simp add: rdbGenericLoadStringObject_def o1_def)
    qed
    moreover have "obj_ok (set_contents o1 s) \<and> obj_val (set_contents o1 s) = s"
      using set_contents_ok [OF refl b] by (simp add: o1_def)
    ultimately show ?thesis using assms(3) by blast
  next
    case lzf
    have l: "rdbLoadLen r = (True, RDB_ENC_LZF, advance r 1)"
      using assms(4) lzf(3) k4(4) by (intro rdbLoadLen_enc) auto
    have "avail (advance r 1) = len_bytes (length out) @ len_bytes (length s) @ out @ rest"
      using assms(4) lzf(3) by simp
    from rdbLoadLzf_ok [OF lzf(2) lzf(1) assms(2) this] obtain o1 where
      "rdbLoadLzfStringObject (advance r 1)
        = Inr (o1, advance r (length w))" "obj_ok o1" "obj_val o1 = s"
      using lzf(3) by auto
    then show ?thesis using l assms(3)
      unfolding rdbGenericLoadStringObject_def
      by (simp add: RDB_ENC_LZF_def RDB_ENC_INT8_def RDB_ENC_INT16_def RDB_ENC_INT32_def)
  qed
qed

lemma rdbSaveStringObject_ok:
  assumes "obj_ok obj" and r: "io_faults r = []"
  shows "\<exists>w. rdbSaveStringObject compression htab r obj = (int (length w), appended r w) \<and>
    stored (obj_val obj) w"
  using assms(1)
proof (cases rule: obj_cases)
  case (str s)
  have "sds_len s < length (sds_buf s)" "sds_buf s ! sds_len s = 0"
    using str(4) by (simp_all add: sds_ok_def)
  from rdbSaveRawString_ok [OF this r, of compression htab] obtain w where
    "rdbSaveRawString compression htab r (sds_buf s) (sds_len s) = (int (length w), appended r w)"
    "stored (take (sds_len s) (sds_buf s)) w" by blast
  with str show ?thesis by (auto simp: rdbSaveStringObject_def obj_val_def sds_val_def)
next
  case (num v)
  show ?thesis
  proof (cases "in_srange 4 v")
    case True
    have "rdbSaveStringObject compression htab r obj
        = (int (length (rdbEncodeInteger v)), appended r (rdbEncodeInteger v))"
      using num True
      by (simp add: rdbSaveStringObject_def rdbSaveLongLongAsStringObject_def rdbEncodeInteger_ok r)
    moreover have "stored (obj_val obj) (rdbEncodeInteger v)"
      using True num unfolding stored_def obj_val_def by auto
    ultimately show ?thesis by blast
  next
    case False
    obtain b where b: "ll2string (replicate 32 0) 32 v = (length (dec_int v), b)"
      "take (length (dec_int v)) b = dec_int v" "length b = 32" using ll2string_32 [OF num(4)] by blast
    have "length (dec_int v) \<le> 20" using num(4) by (rule length_dec_int_le)
    then have "rdbSaveStringObject compression htab r obj
        = (int (length (len_bytes (length (dec_int v)) @ dec_int v)),
           appended r (len_bytes (length (dec_int v)) @ dec_int v))"
      using num False b
      by (simp add: rdbSaveStringObject_def rdbSaveLongLongAsStringObject_def rdbEncodeInteger_ok
          rdbSaveLen_ok r)
    moreover have "stored (obj_val obj) (len_bytes (length (dec_int v)) @ dec_int v)"
      using num unfolding stored_def obj_val_def by auto
    ultimately show ?thesis by blast
  qed
qed

text \<open>
  C4. Saving a string object and loading it again, with or without compression and into either
  kind of object, gives an object for the same byte string, consumes exactly the bytes that
  were written, and the save reports their number.
\<close>
theorem rdb_string_roundtrip:
  assumes "obj_ok obj" "length (obj_val obj) < RDB_LENERR" "shared_ok sh"
    and "rdbSaveStringObject compression htab (rioInitWithBuffer []) obj = (n, w)"
  shows "n = int (length (io_ptr w)) \<and>
    (\<exists>o1 sh' r. rdbGenericLoadStringObject sh (rioInitWithBuffer (io_ptr w @ rest)) encode = Inr (o1, sh', r) \<and>
       obj_ok o1 \<and> obj_val o1 = obj_val obj \<and> avail r = rest)"
proof -
  obtain b where b: "n = int (length b)" "w = appended (rioInitWithBuffer []) b" "stored (obj_val obj) b"
    using rdbSaveStringObject_ok [OF assms(1), of "rioInitWithBuffer []" compression htab] assms(4) by auto
  then have w: "io_ptr w = b" by (simp add: appended_def rioInitWithBuffer_def)
  let ?r = "rioInitWithBuffer (b @ rest)"
  have "avail ?r = b @ rest" by (simp add: avail_def rioInitWithBuffer_def)
  from rdbLoadString_ok [OF b(3) assms(2,3) this, of encode] obtain o1 sh' where
    "rdbGenericLoadStringObject sh ?r encode = Inr (o1, sh', advance ?r (length b))"
    "obj_ok o1" "obj_val o1 = obj_val obj" by blast
  moreover have "avail (advance ?r (length b)) = rest" by (simp add: avail_def advance_def rioInitWithBuffer_def)
  ultimately show ?thesis unfolding w b(1) by blast
qed

theorem rdb_string_roundtrip_witness:
  "let obj = createRawStringObject (Some [45, 57]) 2;
       sh = (\<lambda>v. \<lparr>encoding = ENC_INT, ptr = Num v, refcount = 1\<rparr>);
       w = snd (rdbSaveStringObject True (\<lambda>_. 0) (rioInitWithBuffer []) obj)
   in \<exists>o1 sh' r. rdbGenericLoadStringObject sh (rioInitWithBuffer (io_ptr w @ [1])) True = Inr (o1, sh', r) \<and>
        obj_val o1 = [45, 57] \<and> avail r = [1]"
proof -
  let ?o = "createRawStringObject (Some [45, 57]) 2"
  let ?sh = "(\<lambda>v. \<lparr>encoding = ENC_INT, ptr = Num v, refcount = 1\<rparr>) :: shared_ints"
  obtain n w where s: "rdbSaveStringObject True (\<lambda>_. 0) (rioInitWithBuffer []) ?o = (n, w)" by fastforce
  have o: "obj_ok ?o" "obj_val ?o = [45, 57]" using createRaw_ok [of 2 "[45, 57]"] by simp_all
  then have l: "length (obj_val ?o) < RDB_LENERR" by (simp add: RDB_LENERR_def)
  have sh: "shared_ok ?sh" by (simp add: shared_ok_def)
  from rdb_string_roundtrip [OF o(1) l sh s, of "[1]" True] o(2) s show ?thesis
    by (auto simp: Let_def)
qed

end
