(* ===== verification/Crc.thy ===== *)
theory Crc
  imports Prelude
begin

text \<open>
  The checksums: \<open>src/src/src/crc64.c\<close> (at the end of a dump), \<open>crc16.c\<close> and \<open>keyHashSlot\<close>
  of \<open>cluster.c\<close> (the slot of a key), with the tables of the code. Shown: the table driven
  loops compute the bitwise shift register of the polynomial, a change of one byte
  always changes the checksum, and the slot of a key is that of its hash tag.
\<close>

subsection \<open>CRC-64\<close>

definition crc64_tab :: "64 word list" where
  "crc64_tab = [
    0x0000000000000000, 0x7ad870c830358979, 0xf5b0e190606b12f2,
    0x8f689158505e9b8b, 0xc038e5739841b68f, 0xbae095bba8743ff6,
    0x358804e3f82aa47d, 0x4f50742bc81f2d04, 0xab28ecb46814fe75,
    0xd1f09c7c5821770c, 0x5e980d24087fec87, 0x24407dec384a65fe,
    0x6b1009c7f05548fa, 0x11c8790fc060c183, 0x9ea0e857903e5a08,
    0xe478989fa00bd371, 0x7d08ff3b88be6f81, 0x07d08ff3b88be6f8,
    0x88b81eabe8d57d73, 0xf2606e63d8e0f40a, 0xbd301a4810ffd90e,
    0xc7e86a8020ca5077, 0x4880fbd87094cbfc, 0x32588b1040a14285,
    0xd620138fe0aa91f4, 0xacf86347d09f188d, 0x2390f21f80c18306,
    0x594882d7b0f40a7f, 0x1618f6fc78eb277b, 0x6cc0863448deae02,
    0xe3a8176c18803589, 0x997067a428b5bcf0, 0xfa11fe77117cdf02,
    0x80c98ebf2149567b, 0x0fa11fe77117cdf0, 0x75796f2f41224489,
    0x3a291b04893d698d, 0x40f16bccb908e0f4, 0xcf99fa94e9567b7f,
    0xb5418a5cd963f206, 0x513912c379682177, 0x2be1620b495da80e,
    0xa489f35319033385, 0xde51839b2936bafc, 0x9101f7b0e12997f8,
    0xebd98778d11c1e81, 0x64b116208142850a, 0x1e6966e8b1770c73,
    0x8719014c99c2b083, 0xfdc17184a9f739fa, 0x72a9e0dcf9a9a271,
    0x08719014c99c2b08, 0x4721e43f0183060c, 0x3df994f731b68f75,
    0xb29105af61e814fe, 0xc849756751dd9d87, 0x2c31edf8f1d64ef6,
    0x56e99d30c1e3c78f, 0xd9810c6891bd5c04, 0xa3597ca0a188d57d,
    0xec09088b6997f879, 0x96d1784359a27100, 0x19b9e91b09fcea8b,
    0x636199d339c963f2, 0xdf7adabd7a6e2d6f, 0xa5a2aa754a5ba416,
    0x2aca3b2d1a053f9d, 0x50124be52a30b6e4, 0x1f423fcee22f9be0,
    0x659a4f06d21a1299, 0xeaf2de5e82448912, 0x902aae96b271006b,
    0x74523609127ad31a, 0x0e8a46c1224f5a63, 0x81e2d7997211c1e8,
    0xfb3aa75142244891, 0xb46ad37a8a3b6595, 0xceb2a3b2ba0eecec,
    0x41da32eaea507767, 0x3b024222da65fe1e, 0xa2722586f2d042ee,
    0xd8aa554ec2e5cb97, 0x57c2c41692bb501c, 0x2d1ab4dea28ed965,
    0x624ac0f56a91f461, 0x1892b03d5aa47d18, 0x97fa21650afae693,
    0xed2251ad3acf6fea, 0x095ac9329ac4bc9b, 0x7382b9faaaf135e2,
    0xfcea28a2faafae69, 0x8632586aca9a2710, 0xc9622c4102850a14,
    0xb3ba5c8932b0836d, 0x3cd2cdd162ee18e6, 0x460abd1952db919f,
    0x256b24ca6b12f26d, 0x5fb354025b277b14, 0xd0dbc55a0b79e09f,
    0xaa03b5923b4c69e6, 0xe553c1b9f35344e2, 0x9f8bb171c366cd9b,
    0x10e3202993385610, 0x6a3b50e1a30ddf69, 0x8e43c87e03060c18,
    0xf49bb8b633338561, 0x7bf329ee636d1eea, 0x012b592653589793,
    0x4e7b2d0d9b47ba97, 0x34a35dc5ab7233ee, 0xbbcbcc9dfb2ca865,
    0xc113bc55cb19211c, 0x5863dbf1e3ac9dec, 0x22bbab39d3991495,
    0xadd33a6183c78f1e, 0xd70b4aa9b3f20667, 0x985b3e827bed2b63,
    0xe2834e4a4bd8a21a, 0x6debdf121b863991, 0x1733afda2bb3b0e8,
    0xf34b37458bb86399, 0x8993478dbb8deae0, 0x06fbd6d5ebd3716b,
    0x7c23a61ddbe6f812, 0x3373d23613f9d516, 0x49aba2fe23cc5c6f,
    0xc6c333a67392c7e4, 0xbc1b436e43a74e9d, 0x95ac9329ac4bc9b5,
    0xef74e3e19c7e40cc, 0x601c72b9cc20db47, 0x1ac40271fc15523e,
    0x5594765a340a7f3a, 0x2f4c0692043ff643, 0xa02497ca54616dc8,
    0xdafce7026454e4b1, 0x3e847f9dc45f37c0, 0x445c0f55f46abeb9,
    0xcb349e0da4342532, 0xb1eceec59401ac4b, 0xfebc9aee5c1e814f,
    0x8464ea266c2b0836, 0x0b0c7b7e3c7593bd, 0x71d40bb60c401ac4,
    0xe8a46c1224f5a634, 0x927c1cda14c02f4d, 0x1d148d82449eb4c6,
    0x67ccfd4a74ab3dbf, 0x289c8961bcb410bb, 0x5244f9a98c8199c2,
    0xdd2c68f1dcdf0249, 0xa7f41839ecea8b30, 0x438c80a64ce15841,
    0x3954f06e7cd4d138, 0xb63c61362c8a4ab3, 0xcce411fe1cbfc3ca,
    0x83b465d5d4a0eece, 0xf96c151de49567b7, 0x76048445b4cbfc3c,
    0x0cdcf48d84fe7545, 0x6fbd6d5ebd3716b7, 0x15651d968d029fce,
    0x9a0d8ccedd5c0445, 0xe0d5fc06ed698d3c, 0xaf85882d2576a038,
    0xd55df8e515432941, 0x5a3569bd451db2ca, 0x20ed197575283bb3,
    0xc49581ead523e8c2, 0xbe4df122e51661bb, 0x3125607ab548fa30,
    0x4bfd10b2857d7349, 0x04ad64994d625e4d, 0x7e7514517d57d734,
    0xf11d85092d094cbf, 0x8bc5f5c11d3cc5c6, 0x12b5926535897936,
    0x686de2ad05bcf04f, 0xe70573f555e26bc4, 0x9ddd033d65d7e2bd,
    0xd28d7716adc8cfb9, 0xa85507de9dfd46c0, 0x273d9686cda3dd4b,
    0x5de5e64efd965432, 0xb99d7ed15d9d8743, 0xc3450e196da80e3a,
    0x4c2d9f413df695b1, 0x36f5ef890dc31cc8, 0x79a59ba2c5dc31cc,
    0x037deb6af5e9b8b5, 0x8c157a32a5b7233e, 0xf6cd0afa9582aa47,
    0x4ad64994d625e4da, 0x300e395ce6106da3, 0xbf66a804b64ef628,
    0xc5bed8cc867b7f51, 0x8aeeace74e645255, 0xf036dc2f7e51db2c,
    0x7f5e4d772e0f40a7, 0x05863dbf1e3ac9de, 0xe1fea520be311aaf,
    0x9b26d5e88e0493d6, 0x144e44b0de5a085d, 0x6e963478ee6f8124,
    0x21c640532670ac20, 0x5b1e309b16452559, 0xd476a1c3461bbed2,
    0xaeaed10b762e37ab, 0x37deb6af5e9b8b5b, 0x4d06c6676eae0222,
    0xc26e573f3ef099a9, 0xb8b627f70ec510d0, 0xf7e653dcc6da3dd4,
    0x8d3e2314f6efb4ad, 0x0256b24ca6b12f26, 0x788ec2849684a65f,
    0x9cf65a1b368f752e, 0xe62e2ad306bafc57, 0x6946bb8b56e467dc,
    0x139ecb4366d1eea5, 0x5ccebf68aecec3a1, 0x2616cfa09efb4ad8,
    0xa97e5ef8cea5d153, 0xd3a62e30fe90582a, 0xb0c7b7e3c7593bd8,
    0xca1fc72bf76cb2a1, 0x45775673a732292a, 0x3faf26bb9707a053,
    0x70ff52905f188d57, 0x0a2722586f2d042e, 0x854fb3003f739fa5,
    0xff97c3c80f4616dc, 0x1bef5b57af4dc5ad, 0x61372b9f9f784cd4,
    0xee5fbac7cf26d75f, 0x9487ca0fff135e26, 0xdbd7be24370c7322,
    0xa10fceec0739fa5b, 0x2e675fb4576761d0, 0x54bf2f7c6752e8a9,
    0xcdcf48d84fe75459, 0xb71738107fd2dd20, 0x387fa9482f8c46ab,
    0x42a7d9801fb9cfd2, 0x0df7adabd7a6e2d6, 0x772fdd63e7936baf,
    0xf8474c3bb7cdf024, 0x829f3cf387f8795d, 0x66e7a46c27f3aa2c,
    0x1c3fd4a417c62355, 0x935745fc4798b8de, 0xe98f353477ad31a7,
    0xa6df411fbfb21ca3, 0xdc0731d78f8795da, 0x536fa08fdfd90e51,
    0x29b7d047efec8728]"

definition crc64 :: "64 word \<Rightarrow> bytes \<Rightarrow> 64 word" where
  "crc64 crc s =
     foldl (\<lambda>crc byte. (crc64_tab ! unat (ucast crc XOR byte :: byte)) XOR drop_bit 8 crc) crc s"

text \<open>The shift register, least significant bit first; the polynomial 0xad93d23594c935a9 with its
  bits reversed.\<close>

definition crc64_poly :: "64 word" where "crc64_poly = 0x95ac9329ac4bc9b5"

definition crc64_bit :: "64 word \<Rightarrow> 64 word" where
  "crc64_bit c = drop_bit 1 c XOR (if bit c 0 then crc64_poly else 0)"

definition crc64_ref :: "64 word \<Rightarrow> bytes \<Rightarrow> 64 word" where
  "crc64_ref crc s = foldl (\<lambda>crc byte. (crc64_bit ^^ 8) (crc XOR ucast byte)) crc s"

text \<open>A table that is linear over XOR, from its entries at the powers of two (largest first).\<close>

fun lin_tab :: "'a::len word list \<Rightarrow> 'a word list" where
  "lin_tab [] = [0]"
| "lin_tab (b # bs) = (let t = lin_tab bs in t @ map (\<lambda>x. b XOR x) t)"

lemma crc64_tab_linear: "crc64_tab = lin_tab
    [0x95ac9329ac4bc9b5, 0xdf7adabd7a6e2d6f, 0xfa11fe77117cdf02, 0x7d08ff3b88be6f81, 0xab28ecb46814fe75, 0xc038e5739841b68f, 0xf5b0e190606b12f2, 0x7ad870c830358979]"
  unfolding crc64_tab_def by (simp add: Let_def)

lemma length_lin_tab [simp]: "length (lin_tab bs) = 2 ^ length bs"
  by (induction bs) (simp_all add: Let_def)

lemma power_xor_small:
  assumes "i < 2 ^ k"
  shows "(word_of_nat (2 ^ k + i) :: 'a::len word) = 2 ^ k XOR word_of_nat i"
proof -
  have "(2 ^ k :: nat) AND i = 0"
    using assms by (subst and.commute) (simp add: and_exp_eq_0_iff_not_bit bit_iff_odd)
  then have "2 ^ k + i = 2 ^ k XOR i" by (rule disjunctive_add_eq_xor)
  then show ?thesis by (simp add: of_nat_xor_eq)
qed

lemma lin_tab_nth:
  fixes L :: "'b::len word \<Rightarrow> 'a::len word"
  assumes lin: "\<And>x y. L (x XOR y) = L x XOR L y"
  shows "i < 2 ^ k \<Longrightarrow> lin_tab (map (\<lambda>j. L (2 ^ j)) (rev [0..<k])) ! i = L (word_of_nat i)"
proof (induction k arbitrary: i)
  case 0
  have "L 0 = 0" using lin [of 0 0] by simp
  with 0 show ?case by simp
next
  case (Suc k)
  show ?case
  proof (cases "i < 2 ^ k")
    case True
    with Suc.IH show ?thesis by (simp add: Let_def nth_append)
  next
    case False
    with Suc.prems have j: "i - 2 ^ k < 2 ^ k" "2 ^ k + (i - 2 ^ k) = i" by simp_all
    then have "(word_of_nat i :: 'b word) = 2 ^ k XOR word_of_nat (i - 2 ^ k)"
      using power_xor_small [OF j(1)] by metis
    then have "L (word_of_nat i) = L (2 ^ k) XOR L (word_of_nat (i - 2 ^ k))" using lin by metis
    with False j(1) Suc.IH [OF j(1)] show ?thesis by (simp add: Let_def nth_append)
  qed
qed

lemma funpow_xor:
  fixes f :: "'a::len word \<Rightarrow> 'a word"
  assumes "\<And>x y. f (x XOR y) = f x XOR f y"
  shows "(f ^^ n) (x XOR y) = (f ^^ n) x XOR (f ^^ n) y"
  by (induction n) (simp_all add: assms)

lemma crc64_bit_xor: "crc64_bit (x XOR y) = crc64_bit x XOR crc64_bit y"
  by (auto simp: crc64_bit_def drop_bit_xor bit_xor_iff ac_simps)

lemma crc64_bit_power: "Suc j < 64 \<Longrightarrow> crc64_bit (2 ^ Suc j) = 2 ^ j"
proof -
  assume "Suc j < 64"
  then have "drop_bit 1 (2 ^ Suc j :: 64 word) = 2 ^ j" "\<not> bit (2 ^ Suc j :: 64 word) 0"
    by (auto intro!: bit_word_eqI simp: bit_exp_iff bit_drop_bit_eq simp del: power_Suc)
  then show ?thesis by (simp add: crc64_bit_def del: power_Suc)
qed

lemma crc64_bit_funpow: "j < 64 \<Longrightarrow> (crc64_bit ^^ j) (2 ^ j) = 1"
proof (induction j)
  case (Suc j)
  have "(crc64_bit ^^ Suc j) (2 ^ Suc j) = (crc64_bit ^^ j) (crc64_bit (2 ^ Suc j))"
    by (simp only: funpow_Suc_right o_apply)
  with Suc show ?case by (simp add: crc64_bit_power del: power_Suc)
qed simp

lemma crc64_basis: "j < 8 \<Longrightarrow> (crc64_bit ^^ 8) (2 ^ j) = (crc64_bit ^^ (7 - j)) crc64_poly"
proof -
  assume j: "j < 8"
  have "(crc64_bit ^^ 8) (2 ^ j) = (crc64_bit ^^ ((7 - j) + (1 + j))) (2 ^ j)" using j by simp
  also have "\<dots> = (crc64_bit ^^ (7 - j)) (crc64_bit ((crc64_bit ^^ j) (2 ^ j)))"
    by (simp only: funpow_add o_apply) simp
  also have "(crc64_bit ^^ j) (2 ^ j) = 1" using j by (intro crc64_bit_funpow) simp
  also have "crc64_bit 1 = crc64_poly" by (simp add: crc64_bit_def)
  finally show ?thesis .
qed

lemma crc64_steps:
  "crc64_bit 0x95ac9329ac4bc9b5 = 0xdf7adabd7a6e2d6f"
  "crc64_bit 0xdf7adabd7a6e2d6f = 0xfa11fe77117cdf02"
  "crc64_bit 0xfa11fe77117cdf02 = 0x7d08ff3b88be6f81"
  "crc64_bit 0x7d08ff3b88be6f81 = 0xab28ecb46814fe75"
  "crc64_bit 0xab28ecb46814fe75 = 0xc038e5739841b68f"
  "crc64_bit 0xc038e5739841b68f = 0xf5b0e190606b12f2"
  "crc64_bit 0xf5b0e190606b12f2 = 0x7ad870c830358979"
  by (simp_all add: crc64_bit_def crc64_poly_def)

lemma crc64_table:
  assumes "i < 256"
  shows "crc64_tab ! i = (crc64_bit ^^ 8) (word_of_nat i)"
proof -
  have "map (\<lambda>j. (crc64_bit ^^ 8) (2 ^ j)) (rev [0..<8]) = map (\<lambda>k. (crc64_bit ^^ k) crc64_poly) [0..<8]"
    by (rule nth_equalityI) (simp_all add: rev_nth crc64_basis)
  also have "lin_tab \<dots> = crc64_tab"
    unfolding crc64_tab_linear by (simp add: upt_conv_Cons crc64_steps crc64_poly_def)
  finally have "crc64_tab = lin_tab (map (\<lambda>j. (crc64_bit ^^ 8) (2 ^ j)) (rev [0..<8]))" by simp
  moreover have i: "i < 2 ^ 8" using assms by simp
  ultimately show ?thesis
    using lin_tab_nth [where L = "crc64_bit ^^ 8", OF funpow_xor [OF crc64_bit_xor] i] by simp
qed

lemma crc64_bit_push:
  "n < 64 \<Longrightarrow> (\<And>i. bit y i \<Longrightarrow> i < 63 - n) \<Longrightarrow> crc64_bit (push_bit (Suc n) y) = push_bit n y"
proof -
  assume n: "n < 64" and b: "\<And>i. bit y i \<Longrightarrow> i < 63 - n"
  have "drop_bit 1 (push_bit (Suc n) y) = push_bit n y"
    by (rule bit_word_eqI) (auto simp: bit_drop_bit_eq bit_push_bit_iff simp del: push_bit_Suc dest: b)
  then show ?thesis by (simp add: crc64_bit_def bit_push_bit_iff del: push_bit_Suc)
qed

lemma crc64_funpow_push:
  "n < 64 \<Longrightarrow> (\<And>i. bit y i \<Longrightarrow> i < 64 - n) \<Longrightarrow> (crc64_bit ^^ n) (push_bit n y) = y"
proof (induction n)
  case (Suc n)
  have "i < 64 - n" if "bit y i" for i using Suc.prems(2) [OF that] by linarith
  with Suc have "(crc64_bit ^^ n) (push_bit n y) = y" by simp
  moreover have "i < 63 - n" if "bit y i" for i using Suc.prems(2) [OF that] by linarith
  then have "crc64_bit (push_bit (Suc n) y) = push_bit n y" using Suc.prems(1) by (intro crc64_bit_push) auto
  ultimately show ?case by (simp only: funpow_Suc_right o_apply)
qed simp

lemma crc64_step:
  "(crc64_tab ! unat (ucast crc XOR byte :: byte)) XOR drop_bit 8 crc = (crc64_bit ^^ 8) (crc XOR ucast byte)"
proof -
  define x where "x = crc XOR ucast byte"
  define lo :: byte where "lo = ucast crc XOR byte"
  have "unat lo < 256" using unsigned_less [of lo, where ?'a = nat] by simp
  from crc64_table [OF this] have t: "crc64_tab ! unat lo = (crc64_bit ^^ 8) (ucast lo)" by simp
  have x: "x = ucast lo XOR push_bit 8 (drop_bit 8 crc)"
    by (rule bit_word_eqI)
      (auto simp: x_def lo_def bit_xor_iff bit_push_bit_iff bit_drop_bit_eq bit_ucast_iff)
  have "(crc64_bit ^^ 8) (push_bit 8 (drop_bit 8 crc)) = drop_bit 8 crc"
  proof (rule crc64_funpow_push)
    fix i assume "bit (drop_bit 8 crc) i"
    then have "8 + i < 64" by (auto simp: bit_drop_bit_eq dest: bit_imp_le_length)
    then show "i < 64 - 8" by simp
  qed simp
  with x t show ?thesis
    unfolding x_def [symmetric] lo_def [symmetric] by (simp add: funpow_xor [OF crc64_bit_xor])
qed

lemma crc64_eq_ref: "crc64 crc s = crc64_ref crc s"
  by (simp add: crc64_def crc64_ref_def crc64_step)

lemma xor_cancel: "(a :: 'a::len word) XOR c = b XOR c \<longleftrightarrow> a = b"
proof
  assume "a XOR c = b XOR c"
  then have "(a XOR c) XOR c = (b XOR c) XOR c" by simp
  then show "a = b" by (simp add: xor.assoc)
qed simp

lemma crc64_bit_inj: "crc64_bit x = crc64_bit y \<Longrightarrow> x = y"
proof -
  assume e: "crc64_bit x = crc64_bit y"
  have top: "bit (crc64_bit z) 63 \<longleftrightarrow> bit z 0" for z
    by (auto simp: crc64_bit_def bit_xor_iff bit_drop_bit_eq crc64_poly_def dest: bit_imp_le_length)
  from e have z: "bit x 0 = bit y 0" using top by metis
  with e have d: "drop_bit 1 x = drop_bit 1 y" by (auto simp: crc64_bit_def xor_cancel split: if_splits)
  show ?thesis
  proof (rule bit_word_eqI)
    fix n assume "n < LENGTH(64)"
    show "bit x n = bit y n"
    proof (cases n)
      case (Suc m)
      have "bit (drop_bit 1 x) m = bit (drop_bit 1 y) m" using d by simp
      with Suc show ?thesis by (simp add: bit_drop_bit_eq)
    qed (simp add: z)
  qed
qed

lemma crc64_funpow_inj: "(crc64_bit ^^ n) x = (crc64_bit ^^ n) y \<Longrightarrow> x = y"
  by (induction n) (auto dest: crc64_bit_inj)

lemma crc64_ref_inj: "crc64_ref c s = crc64_ref d s \<Longrightarrow> c = d"
proof (induction s arbitrary: c d)
  case (Cons b s)
  then have "(crc64_bit ^^ 8) (c XOR ucast b) = (crc64_bit ^^ 8) (d XOR ucast b)"
    by (simp add: crc64_ref_def)
  then have "c XOR ucast b = d XOR ucast b" by (rule crc64_funpow_inj)
  then show ?case by (simp add: xor_cancel)
qed (simp add: crc64_ref_def)

text \<open>
  The table driven CRC-64 computes the bitwise shift register of the Jones polynomial; it may be
  computed chunk by chunk, as the dump channel does; and a dump in which a single byte was
  changed never has the checksum of the original.
\<close>
theorem crc64_correct:
  "crc64 crc s = crc64_ref crc s \<and> crc64 crc (s @ t) = crc64 (crc64 crc s) t \<and>
   (crc64 crc (s @ x # t) = crc64 crc (s @ y # t) \<longleftrightarrow> x = y)"
proof (intro conjI iffI)
  show "crc64 crc s = crc64_ref crc s" by (rule crc64_eq_ref)
  show "crc64 crc (s @ t) = crc64 (crc64 crc s) t" by (simp add: crc64_def)
  assume "crc64 crc (s @ x # t) = crc64 crc (s @ y # t)"
  then have "crc64_ref ((crc64_bit ^^ 8) (crc64_ref crc s XOR ucast x)) t
      = crc64_ref ((crc64_bit ^^ 8) (crc64_ref crc s XOR ucast y)) t"
    by (simp add: crc64_eq_ref) (simp add: crc64_ref_def)
  from crc64_funpow_inj [OF crc64_ref_inj [OF this]]
  have "crc64_ref crc s XOR ucast x = crc64_ref crc s XOR ucast y" .
  then have "crc64_ref crc s XOR (crc64_ref crc s XOR ucast x) = crc64_ref crc s XOR (crc64_ref crc s XOR ucast y)"
    by simp
  then have "(ucast x :: 64 word) = ucast y" by (simp flip: xor.assoc)
  then have e: "bit (ucast x :: 64 word) n = bit (ucast y :: 64 word) n" for n by simp
  show "x = y"
  proof (rule bit_word_eqI)
    fix n assume "n < LENGTH(8)"
    with e [of n] show "bit x n = bit y n" by (simp add: bit_ucast_iff)
  qed
qed simp

subsection \<open>CRC-16 and the slot of a key\<close>

definition crc16tab :: "16 word list" where
  "crc16tab = [
    0x0000, 0x1021, 0x2042, 0x3063, 0x4084, 0x50a5, 0x60c6, 0x70e7,
    0x8108, 0x9129, 0xa14a, 0xb16b, 0xc18c, 0xd1ad, 0xe1ce, 0xf1ef,
    0x1231, 0x0210, 0x3273, 0x2252, 0x52b5, 0x4294, 0x72f7, 0x62d6,
    0x9339, 0x8318, 0xb37b, 0xa35a, 0xd3bd, 0xc39c, 0xf3ff, 0xe3de,
    0x2462, 0x3443, 0x0420, 0x1401, 0x64e6, 0x74c7, 0x44a4, 0x5485,
    0xa56a, 0xb54b, 0x8528, 0x9509, 0xe5ee, 0xf5cf, 0xc5ac, 0xd58d,
    0x3653, 0x2672, 0x1611, 0x0630, 0x76d7, 0x66f6, 0x5695, 0x46b4,
    0xb75b, 0xa77a, 0x9719, 0x8738, 0xf7df, 0xe7fe, 0xd79d, 0xc7bc,
    0x48c4, 0x58e5, 0x6886, 0x78a7, 0x0840, 0x1861, 0x2802, 0x3823,
    0xc9cc, 0xd9ed, 0xe98e, 0xf9af, 0x8948, 0x9969, 0xa90a, 0xb92b,
    0x5af5, 0x4ad4, 0x7ab7, 0x6a96, 0x1a71, 0x0a50, 0x3a33, 0x2a12,
    0xdbfd, 0xcbdc, 0xfbbf, 0xeb9e, 0x9b79, 0x8b58, 0xbb3b, 0xab1a,
    0x6ca6, 0x7c87, 0x4ce4, 0x5cc5, 0x2c22, 0x3c03, 0x0c60, 0x1c41,
    0xedae, 0xfd8f, 0xcdec, 0xddcd, 0xad2a, 0xbd0b, 0x8d68, 0x9d49,
    0x7e97, 0x6eb6, 0x5ed5, 0x4ef4, 0x3e13, 0x2e32, 0x1e51, 0x0e70,
    0xff9f, 0xefbe, 0xdfdd, 0xcffc, 0xbf1b, 0xaf3a, 0x9f59, 0x8f78,
    0x9188, 0x81a9, 0xb1ca, 0xa1eb, 0xd10c, 0xc12d, 0xf14e, 0xe16f,
    0x1080, 0x00a1, 0x30c2, 0x20e3, 0x5004, 0x4025, 0x7046, 0x6067,
    0x83b9, 0x9398, 0xa3fb, 0xb3da, 0xc33d, 0xd31c, 0xe37f, 0xf35e,
    0x02b1, 0x1290, 0x22f3, 0x32d2, 0x4235, 0x5214, 0x6277, 0x7256,
    0xb5ea, 0xa5cb, 0x95a8, 0x8589, 0xf56e, 0xe54f, 0xd52c, 0xc50d,
    0x34e2, 0x24c3, 0x14a0, 0x0481, 0x7466, 0x6447, 0x5424, 0x4405,
    0xa7db, 0xb7fa, 0x8799, 0x97b8, 0xe75f, 0xf77e, 0xc71d, 0xd73c,
    0x26d3, 0x36f2, 0x0691, 0x16b0, 0x6657, 0x7676, 0x4615, 0x5634,
    0xd94c, 0xc96d, 0xf90e, 0xe92f, 0x99c8, 0x89e9, 0xb98a, 0xa9ab,
    0x5844, 0x4865, 0x7806, 0x6827, 0x18c0, 0x08e1, 0x3882, 0x28a3,
    0xcb7d, 0xdb5c, 0xeb3f, 0xfb1e, 0x8bf9, 0x9bd8, 0xabbb, 0xbb9a,
    0x4a75, 0x5a54, 0x6a37, 0x7a16, 0x0af1, 0x1ad0, 0x2ab3, 0x3a92,
    0xfd2e, 0xed0f, 0xdd6c, 0xcd4d, 0xbdaa, 0xad8b, 0x9de8, 0x8dc9,
    0x7c26, 0x6c07, 0x5c64, 0x4c45, 0x3ca2, 0x2c83, 0x1ce0, 0x0cc1,
    0xef1f, 0xff3e, 0xcf5d, 0xdf7c, 0xaf9b, 0xbfba, 0x8fd9, 0x9ff8,
    0x6e17, 0x7e36, 0x4e55, 0x5e74, 0x2e93, 0x3eb2, 0x0ed1, 0x1ef0]"

definition crc16 :: "bytes \<Rightarrow> 16 word" where
  "crc16 buf =
     foldl (\<lambda>crc b. push_bit 8 crc XOR (crc16tab ! unat ((drop_bit 8 crc XOR scast b) AND 0x00FF))) 0 buf"

text \<open>The index of the first occurrence of a byte, or the length.\<close>

fun index_of :: "byte \<Rightarrow> bytes \<Rightarrow> nat" where
  "index_of c [] = 0"
| "index_of c (x # xs) = (if x = c then 0 else Suc (index_of c xs))"

definition keyHashSlot :: "bytes \<Rightarrow> nat" where
  "keyHashSlot key =
     (let keylen = length key;
          s = index_of 123 key
      in if s = keylen then unat (crc16 key AND 0x3FFF)
         else
           let e = s + 1 + index_of 125 (drop (s + 1) key)
           in if e = keylen \<or> e = s + 1 then unat (crc16 key AND 0x3FFF)
              else unat (crc16 (slice (s + 1) (e - s - 1) key) AND 0x3FFF))"

text \<open>The shift register, most significant bit first (XMODEM).\<close>

definition crc16_bit :: "16 word \<Rightarrow> 16 word" where
  "crc16_bit c = push_bit 1 c XOR (if bit c 15 then 0x1021 else 0)"

definition crc16_ref :: "bytes \<Rightarrow> 16 word" where
  "crc16_ref buf = foldl (\<lambda>crc b. (crc16_bit ^^ 8) (crc XOR push_bit 8 (ucast b))) 0 buf"

lemma crc16_bit_xor: "crc16_bit (x XOR y) = crc16_bit x XOR crc16_bit y"
  by (auto simp: crc16_bit_def push_bit_xor bit_xor_iff ac_simps)

lemma crc16_tab_linear: "crc16tab = lin_tab
    [0x9188, 0x48c4, 0x2462, 0x1231, 0x8108, 0x4084, 0x2042, 0x1021]"
  unfolding crc16tab_def by (simp add: Let_def)

lemma crc16_steps:
  "crc16_bit 0x1021 = 0x2042"
  "crc16_bit 0x2042 = 0x4084"
  "crc16_bit 0x4084 = 0x8108"
  "crc16_bit 0x8108 = 0x1231"
  "crc16_bit 0x1231 = 0x2462"
  "crc16_bit 0x2462 = 0x48c4"
  "crc16_bit 0x48c4 = 0x9188"
  by (simp_all add: crc16_bit_def)

lemma crc16_bit_power: "j < 15 \<Longrightarrow> crc16_bit (2 ^ j) = 2 ^ Suc j"
  by (simp add: crc16_bit_def bit_exp_iff)

lemma crc16_funpow_power: "j + n \<le> 15 \<Longrightarrow> (crc16_bit ^^ n) (2 ^ j) = 2 ^ (j + n)"
proof (induction n)
  case (Suc n)
  then show ?case using crc16_bit_power [of "j + n"] by simp
qed simp

lemma crc16_basis: "j < 8 \<Longrightarrow> (crc16_bit ^^ 8) (push_bit 8 (2 ^ j)) = (crc16_bit ^^ j) 0x1021"
proof -
  assume j: "j < 8"
  have "(crc16_bit ^^ 8) (push_bit 8 (2 ^ j)) = (crc16_bit ^^ (j + (1 + (7 - j)))) (2 ^ (8 + j))"
    using j by (simp add: push_bit_eq_mult power_add mult.commute)
  also have "\<dots> = (crc16_bit ^^ j) (crc16_bit ((crc16_bit ^^ (7 - j)) (2 ^ (8 + j))))"
    by (simp only: funpow_add o_apply) simp
  also have "(crc16_bit ^^ (7 - j)) (2 ^ (8 + j)) = 2 ^ 15" using crc16_funpow_power [of "8 + j" "7 - j"] j by simp
  also have "crc16_bit (2 ^ 15) = 0x1021" by (simp add: crc16_bit_def)
  finally show ?thesis .
qed

lemma crc16_table:
  assumes "i < 256"
  shows "crc16tab ! i = (crc16_bit ^^ 8) (push_bit 8 (word_of_nat i))"
proof -
  have "map (\<lambda>j. (crc16_bit ^^ 8) (push_bit 8 (2 ^ j))) (rev [0..<8])
      = rev (map (\<lambda>k. (crc16_bit ^^ k) 0x1021) [0..<8])"
    by (simp add: rev_map crc16_basis)
  also have "lin_tab \<dots> = crc16tab"
    unfolding crc16_tab_linear by (simp add: upt_conv_Cons crc16_steps)
  finally have "crc16tab = lin_tab (map (\<lambda>j. (crc16_bit ^^ 8) (push_bit 8 (2 ^ j))) (rev [0..<8]))" by simp
  moreover have i: "i < 2 ^ 8" using assms by simp
  moreover have "(crc16_bit ^^ 8) (push_bit 8 (x XOR y))
      = (crc16_bit ^^ 8) (push_bit 8 x) XOR (crc16_bit ^^ 8) (push_bit 8 y)" for x y
    by (simp add: funpow_xor [OF crc16_bit_xor])
  ultimately show ?thesis
    using lin_tab_nth [where L = "\<lambda>x. (crc16_bit ^^ 8) (push_bit 8 x)", OF _ i] by simp
qed

lemma crc16_funpow_low:
  "(\<And>i. bit y i \<Longrightarrow> i + n < 16) \<Longrightarrow> (crc16_bit ^^ n) y = push_bit n y"
proof (induction n)
  case (Suc n)
  have "i + n < 16" if "bit y i" for i using Suc.prems [OF that] by linarith
  with Suc have "(crc16_bit ^^ n) y = push_bit n y" by simp
  moreover have "\<not> bit (push_bit n y) 15"
    using Suc.prems [of "15 - n"] by (auto simp: bit_push_bit_iff)
  then have "crc16_bit (push_bit n y) = push_bit (Suc n) y"
    unfolding crc16_bit_def by (simp add: push_bit_push_bit del: push_bit_Suc)
  ultimately show ?case by simp
qed simp

lemma crc16_step:
  "push_bit 8 crc XOR (crc16tab ! unat ((drop_bit 8 crc XOR scast (b :: byte)) AND 0x00FF :: 16 word))
    = (crc16_bit ^^ 8) (crc XOR push_bit 8 (ucast b))"
proof -
  define i :: "16 word" where "i = (drop_bit 8 crc XOR scast b) AND 0x00FF"
  have m: "(0x00FF :: 16 word) = mask 8" by (simp add: mask_eq_exp_minus_1)
  have "i = take_bit 8 i" by (simp add: i_def m take_bit_eq_mask flip: and.assoc)
  then have "unat i = unat (take_bit 8 i)" by simp
  also have "\<dots> = take_bit 8 (unat i)" by (rule unsigned_take_bit_eq)
  also have "\<dots> < 2 ^ 8" by (rule take_bit_nat_less_exp)
  finally have "unat i < 256" by simp
  from crc16_table [OF this] have t: "crc16tab ! unat i = (crc16_bit ^^ 8) (push_bit 8 i)" by simp
  have x: "crc XOR push_bit 8 (ucast b) = push_bit 8 i XOR take_bit 8 crc"
    by (rule bit_word_eqI)
      (auto simp: i_def m bit_xor_iff bit_push_bit_iff bit_drop_bit_eq bit_ucast_iff bit_and_iff
        bit_mask_iff bit_take_bit_iff bit_signed_iff)
  have "(crc16_bit ^^ 8) (take_bit 8 crc) = push_bit 8 crc"
  proof -
    have "(crc16_bit ^^ 8) (take_bit 8 crc) = push_bit 8 (take_bit 8 crc)"
      by (rule crc16_funpow_low) (auto simp: bit_take_bit_iff)
    also have "\<dots> = push_bit 8 crc"
      by (rule bit_word_eqI) (auto simp: bit_push_bit_iff bit_take_bit_iff)
    finally show ?thesis .
  qed
  with x t show ?thesis
    unfolding i_def [symmetric] by (simp add: funpow_xor [OF crc16_bit_xor] xor.commute)
qed

lemma crc16_eq_ref: "crc16 s = crc16_ref s"
  by (simp add: crc16_def crc16_ref_def crc16_step)

lemma index_of_notin: "c \<notin> set p \<Longrightarrow> index_of c (p @ c # q) = length p"
  by (induction p) auto

lemma index_of_none: "c \<notin> set p \<Longrightarrow> index_of c p = length p"
  by (induction p) auto

text \<open>
  The slot of a key is below 16384; it is the XMODEM CRC-16 of the bytes between the first opening
  brace and the first closing brace after it when these are not empty, so that all keys with
  the same tag share a slot; without such a tag it is the CRC-16 of the whole key.
\<close>
theorem keyHashSlot_correct:
  "keyHashSlot key < 16384 \<and>
   (123 \<notin> set key \<longrightarrow> keyHashSlot key = unat (crc16_ref key) mod 16384) \<and>
   (123 \<notin> set p \<and> 125 \<notin> set tag \<longrightarrow>
      keyHashSlot (p @ 123 # tag @ 125 # q) =
        unat (crc16_ref (if tag = [] then p @ 123 # tag @ 125 # q else tag)) mod 16384)"
proof (intro conjI impI)
  have slot: "unat (w AND 0x3FFF :: 16 word) = unat w mod 16384" for w
  proof -
    have "w AND 0x3FFF = take_bit 14 w" by (simp add: take_bit_eq_mask mask_eq_exp_minus_1)
    then show ?thesis by (simp add: take_bit_eq_mod unat_mod)
  qed
  show "keyHashSlot key < 16384" by (simp add: keyHashSlot_def Let_def slot)
  show "keyHashSlot key = unat (crc16_ref key) mod 16384" if "123 \<notin> set key"
    using that by (simp add: keyHashSlot_def index_of_none slot crc16_eq_ref)
  assume a: "123 \<notin> set p \<and> 125 \<notin> set tag"
  have s: "index_of 123 (p @ 123 # tag @ 125 # q) = length p" using a by (simp add: index_of_notin)
  have e: "index_of 125 (drop (length p + 1) (p @ 123 # tag @ 125 # q)) = length tag"
    using a by (simp add: index_of_notin)
  have "slice (length p + 1) (length tag) (p @ 123 # tag @ 125 # q) = tag" by (simp add: slice_def)
  with s e show "keyHashSlot (p @ 123 # tag @ 125 # q) =
      unat (crc16_ref (if tag = [] then p @ 123 # tag @ 125 # q else tag)) mod 16384"
    unfolding keyHashSlot_def Let_def s e by (simp add: slot crc16_eq_ref)
qed

theorem keyHashSlot_correct_witness:
  "keyHashSlot [97, 123, 120, 125, 98] = keyHashSlot [123, 120, 125]"
proof -
  have "keyHashSlot ([97] @ 123 # [120] @ 125 # [98]) = unat (crc16_ref [120]) mod 16384"
    using keyHashSlot_correct [of "[]" "[97]" "[120]" "[98]"] by simp
  moreover have "keyHashSlot ([] @ 123 # [120] @ 125 # []) = unat (crc16_ref [120]) mod 16384"
    using keyHashSlot_correct [of "[]" "[]" "[120]" "[]"] by simp
  ultimately show ?thesis by simp
qed

end
