(* ===== verification/Rand.thy ===== *)
theory Rand
  imports Prelude
begin

text \<open>
  The portable pseudo random numbers of \<open>src/src/src/rand.c\<close> (used by scripts, so that masters
  and slaves compute the same) and the byte swaps of \<open>endianconv.c\<close>. Shown: the step on
  three 16 bit limbs is the 48 bit linear congruential generator, and the swaps reverse the
  bytes.
\<close>

subsection \<open>rand.c\<close>

definition LOW :: "int \<Rightarrow> int" where "LOW x = x mod 2 ^ 32 mod 2 ^ 16"
definition HIGH :: "int \<Rightarrow> int" where "HIGH x = LOW (x div 2 ^ 16)"

text \<open>\<open>MUL(x, y, z)\<close>: the product, cut to \<open>int32_t\<close>, as two limbs. \<open>CARRY\<close> and \<open>ADDEQU\<close>.\<close>

definition MUL :: "int \<Rightarrow> int \<Rightarrow> int \<times> int" where
  "MUL x y = (let l = sext 4 (x * y mod 2 ^ 32) in (LOW l, HIGH l))"

definition CARRY :: "int \<Rightarrow> int \<Rightarrow> int" where
  "CARRY x y = (if x + y > 65535 then 1 else 0)"

definition ADDEQU :: "int \<Rightarrow> int \<Rightarrow> int \<times> int" where
  "ADDEQU x y = (LOW (x + y), CARRY x y)"

definition X0 :: int where "X0 = 0x330E"
definition X1 :: int where "X1 = 0xABCD"
definition X2 :: int where "X2 = 0x1234"
definition A0 :: int where "A0 = 0xE66D"
definition A1 :: int where "A1 = 0xDEEC"
definition A2 :: int where "A2 = 0x5"
definition C_ADD :: int where "C_ADD = 0xB"

text \<open>The state is \<open>x[0]\<close>, \<open>x[1]\<close>, \<open>x[2]\<close>; \<open>a\<close> and \<open>c\<close> never change.\<close>

type_synonym rand_state = "int \<times> int \<times> int"

definition next_step :: "rand_state \<Rightarrow> rand_state" where
  "next_step s =
     (case s of (x0, x1, x2) \<Rightarrow>
        let (p0, p1) = MUL A0 x0;
            (p0, carry0) = ADDEQU p0 C_ADD;
            (p1, carry1) = ADDEQU p1 carry0;
            (q0, q1) = MUL A0 x1;
            (p1, carry0) = ADDEQU p1 q0;
            (r0, r1) = MUL A1 x0
        in (LOW p0, LOW (p1 + r0),
            LOW (carry0 + carry1 + CARRY p1 r0 + q1 + r1 + A0 * x2 + A1 * x1 + A2 * x0)))"

definition redisLrand48 :: "rand_state \<Rightarrow> int \<times> rand_state" where
  "redisLrand48 s =
     (case next_step s of (x0, x1, x2) \<Rightarrow> (x2 * 2 ^ 15 + x1 div 2, (x0, x1, x2)))"

definition redisSrand48 :: "int \<Rightarrow> rand_state" where
  "redisSrand48 seedval = (X0, LOW seedval, HIGH seedval)"

subsection \<open>endianconv.c\<close>

definition memrev16 :: "bytes \<Rightarrow> bytes" where
  "memrev16 x = (let t = x ! 0; x = x[0 := x ! 1] in x[1 := t])"

definition memrev32 :: "bytes \<Rightarrow> bytes" where
  "memrev32 x =
     (let t = x ! 0; x = x[0 := x ! 3]; x = x[3 := t];
          t = x ! 1; x = x[1 := x ! 2]
      in x[2 := t])"

definition memrev64 :: "bytes \<Rightarrow> bytes" where
  "memrev64 x =
     (let t = x ! 0; x = x[0 := x ! 7]; x = x[7 := t];
          t = x ! 1; x = x[1 := x ! 6]; x = x[6 := t];
          t = x ! 2; x = x[2 := x ! 5]; x = x[5 := t];
          t = x ! 3; x = x[3 := x ! 4]
      in x[4 := t])"

definition intrev16 :: "nat \<Rightarrow> nat" where "intrev16 v = nat (le_uint (memrev16 (le_bytes 2 (int v))))"
definition intrev32 :: "nat \<Rightarrow> nat" where "intrev32 v = nat (le_uint (memrev32 (le_bytes 4 (int v))))"
definition intrev64 :: "nat \<Rightarrow> nat" where "intrev64 v = nat (le_uint (memrev64 (le_bytes 8 (int v))))"

subsection \<open>The generator\<close>

definition rand_ok :: "rand_state \<Rightarrow> bool" where
  "rand_ok s \<longleftrightarrow> (case s of (x0, x1, x2) \<Rightarrow> x0 \<in> {0..<65536} \<and> x1 \<in> {0..<65536} \<and> x2 \<in> {0..<65536})"

definition rand_val :: "rand_state \<Rightarrow> int" where
  "rand_val s = (case s of (x0, x1, x2) \<Rightarrow> x0 + x1 * 2 ^ 16 + x2 * 2 ^ 32)"

lemma LOW_mod: "LOW x = x mod 65536"
  using mod_mod_cancel [of "65536 :: int" "4294967296" x] by (simp add: LOW_def)

lemma LOW_range: "0 \<le> LOW x \<and> LOW x < 65536"
  by (simp add: LOW_mod)

lemma MUL_split:
  assumes "0 \<le> x" "x < 65536" "0 \<le> y" "y < 65536" "MUL x y = (l, h)"
  shows "x * y = l + h * 65536 \<and> 0 \<le> l \<and> l < 65536 \<and> 0 \<le> h \<and> h < 65536"
proof -
  have "x * y \<le> 65535 * 65535" using assms by (intro mult_mono) auto
  then have b: "0 \<le> x * y" "x * y < 2 ^ 32" using assms by auto
  then have m: "x * y mod 2 ^ 32 = x * y" by simp
  have s: "sext 4 (x * y) = x * y \<or> sext 4 (x * y) = x * y - 2 ^ 32" by (simp add: sext_def)
  have lo: "LOW (sext 4 (x * y)) = x * y mod 65536"
    using s by (elim disjE) (simp_all add: LOW_mod mod_diff_eq [symmetric])
  have "HIGH (sext 4 (x * y)) = x * y div 65536"
  proof -
    have d: "x * y div 65536 < 65536" "0 \<le> x * y div 65536" using b by auto
    have "(x * y - 2 ^ 32) div 65536 = x * y div 65536 - 65536"
      using div_mult_self1 [of "65536 :: int" "x * y" "- 65536"] by simp
    with s d show ?thesis by (elim disjE) (simp_all add: HIGH_def LOW_mod)
  qed
  with lo m assms(5) have "l = x * y mod 65536" "h = x * y div 65536" by (auto simp: MUL_def Let_def)
  with b show ?thesis by auto
qed

lemma ADDEQU_split:
  assumes "0 \<le> x" "x < 65536" "0 \<le> y" "y < 65536" "ADDEQU x y = (l, c)"
  shows "x + y = l + c * 65536 \<and> 0 \<le> l \<and> l < 65536 \<and> 0 \<le> c \<and> c \<le> 1"
proof (cases "x + y > 65535")
  case True
  have "(x + y) mod 65536 = x + y - 65536"
  proof -
    have "(x + y) mod 65536 = (x + y - 65536) mod 65536" by simp
    also have "\<dots> = x + y - 65536" using True assms by (intro mod_pos_pos_trivial) auto
    finally show ?thesis .
  qed
  with True assms show ?thesis by (auto simp: ADDEQU_def CARRY_def LOW_mod)
next
  case False
  then have "(x + y) mod 65536 = x + y" using assms by (intro mod_pos_pos_trivial) auto
  with False assms show ?thesis by (auto simp: ADDEQU_def CARRY_def LOW_mod)
qed

lemma next_step_ok:
  assumes "rand_ok s"
  shows "rand_ok (next_step s) \<and>
    rand_val (next_step s) = (0x5DEECE66D * rand_val s + 0xB) mod 2 ^ 48"
proof -
  obtain x0 x1 x2 where s: "s = (x0, x1, x2)" by (cases s)
  with assms have x: "0 \<le> x0" "x0 < 65536" "0 \<le> x1" "x1 < 65536" "0 \<le> x2" "x2 < 65536"
    by (auto simp: rand_ok_def)
  have A: "0 \<le> A0" "A0 < 65536" "0 \<le> A1" "A1 < 65536" "0 \<le> C_ADD" "C_ADD < 65536"
    by (simp_all add: A0_def A1_def C_ADD_def)
  obtain p0 p1 where p: "MUL A0 x0 = (p0, p1)" by fastforce
  note P = MUL_split [OF A(1,2) x(1,2) p]
  obtain p0' c0 where ad0: "ADDEQU p0 C_ADD = (p0', c0)" by fastforce
  from P have pr: "0 \<le> p0" "p0 < 65536" "0 \<le> p1" "p1 < 65536" by auto
  note AD0 = ADDEQU_split [OF pr(1,2) A(5,6) ad0]
  then have c0: "0 \<le> c0" "c0 < 65536" by auto
  obtain p1' c1 where ad1: "ADDEQU p1 c0 = (p1', c1)" by fastforce
  note AD1 = ADDEQU_split [OF pr(3,4) c0 ad1]
  obtain q0 q1 where q: "MUL A0 x1 = (q0, q1)" by fastforce
  note Q = MUL_split [OF A(1,2) x(3,4) q]
  from AD1 Q have r1: "0 \<le> p1'" "p1' < 65536" "0 \<le> q0" "q0 < 65536" by auto
  obtain p1'' c0' where ad2: "ADDEQU p1' q0 = (p1'', c0')" by fastforce
  note AD2 = ADDEQU_split [OF r1 ad2]
  obtain r0 r1 where r: "MUL A1 x0 = (r0, r1)" by fastforce
  note R = MUL_split [OF A(3,4) x(1,2) r]
  from AD2 R have r2: "0 \<le> p1''" "p1'' < 65536" "0 \<le> r0" "r0 < 65536" by auto
  have "ADDEQU p1'' r0 = (LOW (p1'' + r0), CARRY p1'' r0)" by (simp add: ADDEQU_def)
  note AD3 = ADDEQU_split [OF r2 this]
  define T where "T = c0' + c1 + CARRY p1'' r0 + q1 + r1 + A0 * x2 + A1 * x1 + A2 * x0"
  have lp: "LOW p0' = p0'" using AD0 by (simp add: LOW_mod)
  have n: "next_step s = (p0', LOW (p1'' + r0), LOW T)"
    by (simp add: next_step_def s p ad0 ad1 q ad2 r T_def lp)
  have "p0' + LOW (p1'' + r0) * 65536 + T * 4294967296
      = 0x5DEECE66D * (x0 + x1 * 65536 + x2 * 4294967296) + 0xB
        - (A1 * x2 + A2 * x1) * 281474976710656 - A2 * x2 * 18446744073709551616"
    using P [THEN conjunct1] AD0 [THEN conjunct1] AD1 [THEN conjunct1] Q [THEN conjunct1]
      AD2 [THEN conjunct1] R [THEN conjunct1] AD3 [THEN conjunct1]
    unfolding T_def A0_def A1_def A2_def C_ADD_def by (simp add: algebra_simps)
  moreover have "T = LOW T + T div 65536 * 65536" by (simp add: LOW_mod)
  ultimately have e: "p0' + LOW (p1'' + r0) * 65536 + LOW T * 4294967296
      = 0x5DEECE66D * (x0 + x1 * 65536 + x2 * 4294967296) + 0xB
        + (- A1 * x2 - A2 * x1 - A2 * x2 * 65536 - T div 65536) * 281474976710656"
    by (simp add: algebra_simps)
  have rng: "0 \<le> p0' + LOW (p1'' + r0) * 65536 + LOW T * 4294967296"
    "p0' + LOW (p1'' + r0) * 65536 + LOW T * 4294967296 < 281474976710656"
    using AD0 LOW_range [of "p1'' + r0"] LOW_range [of T] by linarith+
  have "p0' + LOW (p1'' + r0) * 65536 + LOW T * 4294967296
      = (p0' + LOW (p1'' + r0) * 65536 + LOW T * 4294967296) mod 281474976710656"
    using rng by (rule mod_pos_pos_trivial [symmetric])
  also have "\<dots> = (0x5DEECE66D * (x0 + x1 * 65536 + x2 * 4294967296) + 0xB) mod 281474976710656"
    unfolding e by (rule mod_mult_self1)
  finally show ?thesis
    using AD0 LOW_range [of "p1'' + r0"] LOW_range [of T]
    unfolding n by (simp add: s rand_ok_def rand_val_def)
qed

text \<open>
  From any well-formed state the generator makes one step of the linear congruence
  \<open>X := 0x5DEECE66D * X + 0xB (mod 2^48)\<close>, as \<open>lrand48\<close> of the C library does, and returns the 31
  most significant bits; seeding always gives a well-formed state.
\<close>
theorem redisLrand48_correct:
  assumes "rand_ok s" "redisLrand48 s = (r, s')"
  shows "rand_ok s' \<and> rand_val s' = (0x5DEECE66D * rand_val s + 0xB) mod 2 ^ 48 \<and>
    r = rand_val s' div 2 ^ 17 \<and> rand_ok (redisSrand48 seed)"
proof -
  obtain x0 x1 x2 where n: "next_step s = (x0, x1, x2)" by (cases "next_step s")
  with assms(2) have s': "s' = (x0, x1, x2)" "r = x2 * 2 ^ 15 + x1 div 2"
    by (auto simp: redisLrand48_def)
  note k = next_step_ok [OF assms(1), unfolded n, folded s'(1)]
  have x0: "0 \<le> x0" "x0 < 65536" using k s' by (auto simp: rand_ok_def)
  have "rand_val s' div 2 ^ 17 = (x0 + (x1 + x2 * 65536) * 65536) div 65536 div 2"
    by (simp add: rand_val_def s' algebra_simps flip: zdiv_zmult2_eq)
  also have "(x0 + (x1 + x2 * 65536) * 65536) div 65536 = x1 + x2 * 65536" using x0 by simp
  also have "(x1 + x2 * 65536) div 2 = r" by (simp add: s'(2))
  finally have "r = rand_val s' div 2 ^ 17" by simp
  moreover have "rand_ok (redisSrand48 seed)"
    using LOW_range by (simp add: rand_ok_def redisSrand48_def X0_def HIGH_def)
  ultimately show ?thesis using k by simp
qed

theorem redisLrand48_correct_witness:
  "rand_ok (redisSrand48 0) \<and> redisLrand48 (redisSrand48 0) = (366850414, (20737, 25308, 11195)) \<and>
   366850414 = rand_val (20737, 25308, 11195) div 2 ^ 17"
proof -
  have r: "redisLrand48 (redisSrand48 0) = (366850414, (20737, 25308, 11195))" by code_simp
  have ok: "rand_ok (redisSrand48 0)" by (simp add: rand_ok_def redisSrand48_def X0_def LOW_def HIGH_def)
  from redisLrand48_correct [OF ok r, of 0] ok r show ?thesis by blast
qed

subsection \<open>Byte swaps\<close>

lemma memrev_rev:
  "length x = 2 \<Longrightarrow> memrev16 x = rev x"
  "length x = 4 \<Longrightarrow> memrev32 x = rev x"
  "length x = 8 \<Longrightarrow> memrev64 x = rev x"
  by (auto simp: memrev16_def memrev32_def memrev64_def Let_def length_Suc_conv eval_nat_numeral)

text \<open>
  The in-place swaps reverse the bytes of a word, so that swapping twice is the identity, on memory
  and on values of the width.
\<close>
theorem memrev_correct:
  "(length x = 8 \<longrightarrow> memrev64 x = rev x \<and> memrev64 (memrev64 x) = x) \<and>
   (length y = 4 \<longrightarrow> memrev32 y = rev y \<and> memrev32 (memrev32 y) = y) \<and>
   (length z = 2 \<longrightarrow> memrev16 z = rev z \<and> memrev16 (memrev16 z) = z) \<and>
   (v < 2 ^ 64 \<longrightarrow> intrev64 (intrev64 v) = v)"
proof (intro conjI impI)
  assume v: "v < 2 ^ 64"
  let ?b = "memrev64 (le_bytes 8 (int v))"
  have l: "length ?b = 8" by (simp add: memrev_rev)
  have "le_bytes 8 (le_uint ?b) = ?b" using le_bytes_le_uint [of ?b] l by simp
  then have "intrev64 (intrev64 v) = nat (le_uint (memrev64 ?b))"
    by (simp add: intrev64_def le_uint_nonneg)
  also have "memrev64 ?b = le_bytes 8 (int v)" by (simp add: memrev_rev)
  also have "nat (le_uint \<dots>) = v" using v by (simp add: le_uint_le_bytes)
  finally show "intrev64 (intrev64 v) = v" .
qed (simp_all add: memrev_rev)

theorem memrev_correct_witness:
  "length [1, 2, 3, 4 :: byte] = 4 \<and> memrev32 [1, 2, 3, 4] = [4, 3, 2, 1]"
  using memrev_correct [of "[]" "[1, 2, 3, 4]" "[]" 0] by simp

end
