(* ===== verification/Adlist.thy ===== *)
theory Adlist
  imports Prelude
begin

text \<open>
  The doubly linked lists of \<open>src/src/src/adlist.c\<close>, on an explicit heap: a node is a cell at an
  address with its two pointers, and \<open>None\<close> is \<open>NULL\<close>. The address \<open>zmalloc\<close> returns for a new
  node is an argument of the operation that allocates. The \<open>match\<close> method is an argument; the
  \<open>free\<close> method runs outside the list and is not modelled. Shown: on a well-formed list every
  operation does on the sequence of values what its name says, and keeps the list well formed,
  so that it can be walked in both directions.
\<close>

type_synonym addr = nat

record 'v lnode =
  prev :: "addr option"
  nxt :: "addr option"
  node_val :: 'v

record dlist =
  head :: "addr option"
  tail :: "addr option"
  len :: nat

record list_iter =
  iter_next :: "addr option"
  from_head :: bool

type_synonym 'v heap = "addr \<Rightarrow> 'v lnode option"

text \<open>\<open>p->next = q\<close> and \<open>p->prev = q\<close>, nothing when \<open>p\<close> is \<open>NULL\<close>.\<close>

definition set_next :: "'v heap \<Rightarrow> addr option \<Rightarrow> addr option \<Rightarrow> 'v heap" where
  "set_next h p q = (case p of None \<Rightarrow> h | Some a \<Rightarrow> h(a := map_option (nxt_update (\<lambda>_. q)) (h a)))"

definition set_prev :: "'v heap \<Rightarrow> addr option \<Rightarrow> addr option \<Rightarrow> 'v heap" where
  "set_prev h p q = (case p of None \<Rightarrow> h | Some a \<Rightarrow> h(a := map_option (prev_update (\<lambda>_. q)) (h a)))"

definition get_next :: "'v heap \<Rightarrow> addr \<Rightarrow> addr option" where
  "get_next h a = (case h a of None \<Rightarrow> None | Some n \<Rightarrow> nxt n)"

definition get_prev :: "'v heap \<Rightarrow> addr \<Rightarrow> addr option" where
  "get_prev h a = (case h a of None \<Rightarrow> None | Some n \<Rightarrow> prev n)"

subsection \<open>Operations\<close>

definition listCreate :: dlist where
  "listCreate = \<lparr>head = None, tail = None, len = 0\<rparr>"

definition listAddNodeHead :: "'v heap \<Rightarrow> dlist \<Rightarrow> addr \<Rightarrow> 'v \<Rightarrow> 'v heap \<times> dlist" where
  "listAddNodeHead h l node v =
     (if len l = 0 then
        (h(node := Some \<lparr>prev = None, nxt = None, node_val = v\<rparr>),
         l\<lparr>head := Some node, tail := Some node, len := len l + 1\<rparr>)
      else
        (set_prev (h(node := Some \<lparr>prev = None, nxt = head l, node_val = v\<rparr>)) (head l) (Some node),
         l\<lparr>head := Some node, len := len l + 1\<rparr>))"

definition listAddNodeTail :: "'v heap \<Rightarrow> dlist \<Rightarrow> addr \<Rightarrow> 'v \<Rightarrow> 'v heap \<times> dlist" where
  "listAddNodeTail h l node v =
     (if len l = 0 then
        (h(node := Some \<lparr>prev = None, nxt = None, node_val = v\<rparr>),
         l\<lparr>head := Some node, tail := Some node, len := len l + 1\<rparr>)
      else
        (set_next (h(node := Some \<lparr>prev = tail l, nxt = None, node_val = v\<rparr>)) (tail l) (Some node),
         l\<lparr>tail := Some node, len := len l + 1\<rparr>))"

definition listInsertNode ::
  "'v heap \<Rightarrow> dlist \<Rightarrow> addr \<Rightarrow> addr \<Rightarrow> 'v \<Rightarrow> bool \<Rightarrow> 'v heap \<times> dlist" where
  "listInsertNode h l old_node node v after =
     (let (p, q, l) =
        (if after
         then (Some old_node, get_next h old_node,
               if tail l = Some old_node then l\<lparr>tail := Some node\<rparr> else l)
         else (get_prev h old_node, Some old_node,
               if head l = Some old_node then l\<lparr>head := Some node\<rparr> else l));
          h = h(node := Some \<lparr>prev = p, nxt = q, node_val = v\<rparr>);
          h = set_next h p (Some node);
          h = set_prev h q (Some node)
      in (h, l\<lparr>len := len l + 1\<rparr>))"

definition listDelNode :: "'v heap \<Rightarrow> dlist \<Rightarrow> addr \<Rightarrow> 'v heap \<times> dlist" where
  "listDelNode h l node =
     (let p = get_prev h node;
          q = get_next h node;
          (h1, l1) = (if p \<noteq> None then (set_next h p q, l) else (h, l\<lparr>head := q\<rparr>));
          (h2, l2) = (if q \<noteq> None then (set_prev h1 q p, l1) else (h1, l1\<lparr>tail := p\<rparr>))
      in (h2(node := None), l2\<lparr>len := len l2 - 1\<rparr>))"

definition listGetIterator :: "dlist \<Rightarrow> bool \<Rightarrow> list_iter" where
  "listGetIterator l start_head =
     \<lparr>iter_next = (if start_head then head l else tail l), from_head = start_head\<rparr>"

definition listRewind :: "dlist \<Rightarrow> list_iter" where
  "listRewind l = \<lparr>iter_next = head l, from_head = True\<rparr>"

definition listRewindTail :: "dlist \<Rightarrow> list_iter" where
  "listRewindTail l = \<lparr>iter_next = tail l, from_head = False\<rparr>"

definition listNext :: "'v heap \<Rightarrow> list_iter \<Rightarrow> addr option \<times> list_iter" where
  "listNext h iter =
     (case iter_next iter of
        None \<Rightarrow> (None, iter)
      | Some a \<Rightarrow> (Some a, iter\<lparr>iter_next := if from_head iter then get_next h a else get_prev h a\<rparr>))"

text \<open>The loop stops after \<open>fuel\<close> nodes with \<open>None\<close>; a well-formed list has \<open>len\<close> nodes.\<close>

fun search_loop :: "'v heap \<Rightarrow> ('v \<Rightarrow> bool) \<Rightarrow> list_iter \<Rightarrow> nat \<Rightarrow> addr option option" where
  "search_loop h match iter 0 = None"
| "search_loop h match iter (Suc fuel) =
     (case listNext h iter of
        (None, iter) \<Rightarrow> Some None
      | (Some a, iter) \<Rightarrow>
          (case h a of
             None \<Rightarrow> None
           | Some n \<Rightarrow> if match (node_val n) then Some (Some a) else search_loop h match iter fuel))"

definition listSearchKey :: "'v heap \<Rightarrow> dlist \<Rightarrow> ('v \<Rightarrow> bool) \<Rightarrow> addr option option" where
  "listSearchKey h l match = search_loop h match (listGetIterator l True) (Suc (len l))"

fun walk :: "(addr \<Rightarrow> addr option) \<Rightarrow> nat \<Rightarrow> addr option \<Rightarrow> addr option" where
  "walk step 0 n = n"
| "walk step (Suc index) n = (case n of None \<Rightarrow> None | Some a \<Rightarrow> walk step index (step a))"

definition listIndex :: "'v heap \<Rightarrow> dlist \<Rightarrow> int \<Rightarrow> addr option" where
  "listIndex h l index =
     (if index < 0 then walk (get_prev h) (nat (- index - 1)) (tail l)
      else walk (get_next h) (nat index) (head l))"

definition listRotate :: "'v heap \<Rightarrow> dlist \<Rightarrow> 'v heap \<times> dlist" where
  "listRotate h l =
     (let t = tail l
      in if len l \<le> 1 then (h, l)
         else
           let tail' = (case t of None \<Rightarrow> None | Some a \<Rightarrow> get_prev h a);
               h = set_next h tail' None;
               h = set_prev h (head l) t;
               h = set_prev h t None;
               h = set_next h t (head l)
           in (h, l\<lparr>tail := tail', head := t\<rparr>))"

subsection \<open>Well-formed lists\<close>

text \<open>\<open>seg h pv xs nx\<close>: the cells of \<open>xs\<close> (addresses and values) are linked in both directions,
  between the pointers \<open>pv\<close> and \<open>nx\<close> at the two ends.\<close>

definition first :: "(addr \<times> 'v) list \<Rightarrow> addr option \<Rightarrow> addr option" where
  "first xs nx = (case xs of [] \<Rightarrow> nx | x # _ \<Rightarrow> Some (fst x))"

definition final :: "addr option \<Rightarrow> (addr \<times> 'v) list \<Rightarrow> addr option" where
  "final pv xs = (if xs = [] then pv else Some (fst (last xs)))"

fun seg :: "'v heap \<Rightarrow> addr option \<Rightarrow> (addr \<times> 'v) list \<Rightarrow> addr option \<Rightarrow> bool" where
  "seg h pv [] nx \<longleftrightarrow> True"
| "seg h pv ((a, v) # xs) nx \<longleftrightarrow>
     h a = Some \<lparr>prev = pv, nxt = first xs nx, node_val = v\<rparr> \<and> seg h (Some a) xs nx"

definition dlist_ok :: "'v heap \<Rightarrow> dlist \<Rightarrow> (addr \<times> 'v) list \<Rightarrow> bool" where
  "dlist_ok h l xs \<longleftrightarrow> seg h None xs None \<and> distinct (map fst xs) \<and>
     head l = first xs None \<and> tail l = final None xs \<and> len l = length xs"

lemma first_simps [simp]:
  "first [] nx = nx" "first (x # xs) nx = Some (fst x)" "first (xs @ ys) nx = first xs (first ys nx)"
  by (simp_all add: first_def split: list.split)

lemma final_simps [simp]:
  "final pv [] = pv" "final pv (xs @ [x]) = Some (fst x)" "final pv (x # xs) = final (Some (fst x)) xs"
  "final pv (xs @ ys) = final (final pv xs) ys"
  by (simp_all add: final_def)

lemma seg_append: "seg h pv (xs @ ys) nx \<longleftrightarrow> seg h pv xs (first ys nx) \<and> seg h (final pv xs) ys nx"
proof (induction xs arbitrary: pv)
  case (Cons x xs)
  then show ?case by (cases x) simp
qed simp

lemma seg_update [simp]: "a \<notin> fst ` set xs \<Longrightarrow> seg (h(a := z)) pv xs nx = seg h pv xs nx"
  by (induction xs arbitrary: pv) auto

lemma seg_set_next_other [simp]: "(\<And>a. p = Some a \<Longrightarrow> a \<notin> fst ` set xs) \<Longrightarrow> seg (set_next h p q) pv xs nx = seg h pv xs nx"
  by (cases p) (auto simp: set_next_def)

lemma seg_set_prev_other [simp]: "(\<And>a. p = Some a \<Longrightarrow> a \<notin> fst ` set xs) \<Longrightarrow> seg (set_prev h p q) pv xs nx = seg h pv xs nx"
  by (cases p) (auto simp: set_prev_def)

lemma final_None_cases: "xs = [] \<or> (\<exists>ys a v. xs = ys @ [(a, v)])"
  by (cases xs rule: rev_cases) auto

lemma seg_relink_next:
  assumes "seg h pv xs nx" "distinct (map fst xs)"
  shows "seg (set_next h (final None xs) nx') pv xs nx'"
  using assms final_None_cases [of xs]
  by (auto simp: seg_append set_next_def)

lemma seg_relink_prev:
  assumes "seg h pv xs nx" "distinct (map fst xs)"
  shows "seg (set_prev h (first xs None) pv') pv' xs nx"
  using assms by (cases xs) (auto simp: set_prev_def)

lemma final_in: "final None xs = Some a \<Longrightarrow> a \<in> fst ` set xs"
  by (auto simp: final_def split: if_splits)

lemma first_in: "first xs None = Some a \<Longrightarrow> a \<in> fst ` set xs"
  by (auto simp: first_def split: list.splits)

text \<open>Linking two segments: the pointers at the cut are set, and nothing else changes.\<close>

lemma seg_join:
  assumes "seg h None xs nx" "seg h pv ys None" "distinct (map fst (xs @ ys))"
  shows "seg (set_prev (set_next h (final None xs) (first ys None)) (first ys None) (final None xs)) None (xs @ ys) None"
proof -
  have d: "distinct (map fst xs)" "distinct (map fst ys)" "fst ` set xs \<inter> fst ` set ys = {}"
    using assms(3) by auto
  let ?h = "set_next h (final None xs) (first ys None)"
  have x: "seg ?h None xs (first ys None)" using assms(1) d(1) by (rule seg_relink_next)
  have y: "seg ?h pv ys None"
    using assms(2) d(3) by (subst seg_set_next_other) (auto dest!: final_in)
  from y d(2) have "seg (set_prev ?h (first ys None) (final None xs)) (final None xs) ys None"
    by (rule seg_relink_prev)
  moreover have "seg (set_prev ?h (first ys None) (final None xs)) None xs (first ys None)"
    using x d(3) by (subst seg_set_prev_other) (auto dest!: first_in)
  ultimately show ?thesis by (simp add: seg_append)
qed

lemma dlist_ok_cell:
  assumes "dlist_ok h l (xs @ (a, v) # ys)"
  shows "get_prev h a = final None xs" "get_next h a = first ys None"
    "h a = Some \<lparr>prev = final None xs, nxt = first ys None, node_val = v\<rparr>"
  using assms by (auto simp: dlist_ok_def seg_append get_prev_def get_next_def)

lemma set_next_fresh: "h n = None \<Longrightarrow> p \<noteq> Some n \<Longrightarrow>
   set_next (h(n := z)) p q = (set_next h p q)(n := z)"
  by (cases p) (auto simp: set_next_def)

text \<open>A new cell with both its pointers set, between two segments.\<close>

lemma seg_insert:
  assumes "seg h None xs nx" "seg h pv ys None" "distinct (map fst (xs @ ys))"
    and "n \<notin> fst ` set (xs @ ys)"
  shows "seg (set_prev (set_next (h(n := Some \<lparr>prev = final None xs, nxt = first ys None, node_val = v\<rparr>))
    (final None xs) (Some n)) (first ys None) (Some n)) None (xs @ (n, v) # ys) None"
proof -
  let ?c = "Some \<lparr>prev = final None xs, nxt = first ys None, node_val = v\<rparr>"
  let ?h = "set_next (h(n := ?c)) (final None xs) (Some n)"
  have d: "distinct (map fst xs)" "distinct (map fst ys)" "fst ` set xs \<inter> fst ` set ys = {}"
    using assms(3) by auto
  have n: "n \<notin> fst ` set xs" "n \<notin> fst ` set ys" using assms(4) by auto
  have x: "seg ?h None xs (Some n)" using assms(1) n d(1) by (intro seg_relink_next [where nx = nx]) simp_all
  have y: "seg ?h pv ys None" using assms(2) n d(3) by (subst seg_set_next_other) (auto dest!: final_in)
  have c: "?h n = ?c" using assms(4) by (auto simp: set_next_def split: option.splits dest!: final_in)
  from y d(2) have "seg (set_prev ?h (first ys None) (Some n)) (Some n) ys None" by (rule seg_relink_prev)
  moreover have "seg (set_prev ?h (first ys None) (Some n)) None xs (Some n)"
    using x d(3) by (subst seg_set_prev_other) (auto dest!: first_in)
  moreover have "set_prev ?h (first ys None) (Some n) n = ?c"
  proof -
    have "first ys None \<noteq> Some n" using n(2) first_in by blast
    then have "set_prev ?h (first ys None) (Some n) n = ?h n" by (auto simp: set_prev_def split: option.splits)
    with c show ?thesis by simp
  qed
  ultimately show ?thesis by (simp add: seg_append)
qed

lemma dlist_head_iff: "dlist_ok h l (xs @ (a, v) # ys) \<Longrightarrow> head l = Some a \<longleftrightarrow> xs = []"
  by (cases xs) (auto simp: dlist_ok_def)

lemma dlist_tail_iff: "dlist_ok h l (xs @ (a, v) # ys) \<Longrightarrow> tail l = Some a \<longleftrightarrow> ys = []"
  using final_None_cases [of ys] by (auto simp: dlist_ok_def)

text \<open>
  Adding at the head, at the tail, before or after a given node, with a new address each time, puts
  the value exactly there in the sequence and keeps the list well formed.
\<close>
theorem list_add_correct:
  assumes "dlist_ok h l xs" "n \<notin> fst ` set xs"
  shows "(case listAddNodeHead h l n v of (h', l') \<Rightarrow> dlist_ok h' l' ((n, v) # xs)) \<and>
    (case listAddNodeTail h l n v of (h', l') \<Rightarrow> dlist_ok h' l' (xs @ [(n, v)])) \<and>
    (xs = ys @ (a, w) # zs \<longrightarrow>
       (case listInsertNode h l a n v True of (h', l') \<Rightarrow> dlist_ok h' l' (ys @ (a, w) # (n, v) # zs)) \<and>
       (case listInsertNode h l a n v False of (h', l') \<Rightarrow> dlist_ok h' l' (ys @ (n, v) # (a, w) # zs)))"
proof (intro conjI impI)
  have s: "seg h None xs None" "distinct (map fst xs)" using assms(1) by (simp_all add: dlist_ok_def)
  show "case listAddNodeHead h l n v of (h', l') \<Rightarrow> dlist_ok h' l' ((n, v) # xs)"
  proof (cases "xs = []")
    case True
    with assms show ?thesis by (simp add: listAddNodeHead_def dlist_ok_def)
  next
    case False
    have "seg (set_prev (set_next (h(n := Some \<lparr>prev = None, nxt = first xs None, node_val = v\<rparr>)) None (Some n))
        (first xs None) (Some n)) None ((n, v) # xs) None"
      using seg_insert [of h "[]" None None xs n v] s assms(2) by simp
    moreover have "final (Some n) xs = final None xs" using False by (simp add: final_def)
    ultimately show ?thesis using False assms
      by (simp add: listAddNodeHead_def dlist_ok_def set_next_def)
  qed
  show "case listAddNodeTail h l n v of (h', l') \<Rightarrow> dlist_ok h' l' (xs @ [(n, v)])"
  proof (cases "xs = []")
    case True
    with assms show ?thesis by (simp add: listAddNodeTail_def dlist_ok_def)
  next
    case False
    have "seg (set_prev (set_next (h(n := Some \<lparr>prev = final None xs, nxt = None, node_val = v\<rparr>))
        (final None xs) (Some n)) None (Some n)) None (xs @ [(n, v)]) None"
      using seg_insert [of h xs None None "[]" n v] s assms(2) by simp
    moreover have "first xs (Some n) = first xs None" using False by (cases xs) simp_all
    ultimately show ?thesis using False assms
      by (simp add: listAddNodeTail_def dlist_ok_def set_prev_def)
  qed
  assume x: "xs = ys @ (a, w) # zs"
  note cell = dlist_ok_cell [OF assms(1) [unfolded x]]
  have sy: "seg h None (ys @ [(a, w)]) (first zs None)" "seg h (Some a) zs None"
    "seg h None ys (Some a)" "seg h (final None ys) ((a, w) # zs) None"
    using s(1) by (simp_all add: x seg_append)
  show "case listInsertNode h l a n v True of (h', l') \<Rightarrow> dlist_ok h' l' (ys @ (a, w) # (n, v) # zs)"
  proof -
    have "seg (set_prev (set_next (h(n := Some \<lparr>prev = Some a, nxt = first zs None, node_val = v\<rparr>))
        (Some a) (Some n)) (first zs None) (Some n)) None ((ys @ [(a, w)]) @ (n, v) # zs) None"
      using seg_insert [OF sy(1,2), of n v] s(2) assms(2) by (simp add: x)
    moreover have "final (Some n) zs = final (Some a) zs" if "zs \<noteq> []" using that by (simp add: final_def)
    ultimately show ?thesis
      using assms s(2) cell dlist_tail_iff [OF assms(1) [unfolded x]]
      by (auto simp: listInsertNode_def Let_def dlist_ok_def x)
  qed
  show "case listInsertNode h l a n v False of (h', l') \<Rightarrow> dlist_ok h' l' (ys @ (n, v) # (a, w) # zs)"
  proof -
    have "seg (set_prev (set_next (h(n := Some \<lparr>prev = final None ys, nxt = Some a, node_val = v\<rparr>))
        (final None ys) (Some n)) (Some a) (Some n)) None (ys @ (n, v) # (a, w) # zs) None"
      using seg_insert [OF sy(3,4), of n v] s(2) assms(2) by (simp add: x)
    moreover have "first ys (Some n) = first ys (Some a)" if "ys \<noteq> []" using that by (cases ys) simp_all
    ultimately show ?thesis
      using assms s(2) cell dlist_head_iff [OF assms(1) [unfolded x]]
      by (auto simp: listInsertNode_def Let_def dlist_ok_def x)
  qed
qed

theorem list_add_correct_witness:
  "let h = (\<lambda>_. None)(7 := Some \<lparr>prev = None, nxt = None, node_val = CHR ''x''\<rparr>);
       l = \<lparr>head = Some 7, tail = Some 7, len = 1\<rparr>
   in dlist_ok (h :: char heap) l [(7, CHR ''x'')] \<and>
      (case listInsertNode h l 7 3 CHR ''y'' False of (h', l') \<Rightarrow> dlist_ok h' l' [(3, CHR ''y''), (7, CHR ''x'')])"
proof -
  define h :: "char heap" where "h = (\<lambda>_. None)(7 := Some \<lparr>prev = None, nxt = None, node_val = CHR ''x''\<rparr>)"
  define l where "l = \<lparr>head = Some 7, tail = Some 7, len = 1\<rparr>"
  have ok: "dlist_ok h l [(7, CHR ''x'')]" by (simp add: dlist_ok_def h_def l_def)
  from list_add_correct [OF ok, of 3 "CHR ''y''" "[]" 7 "CHR ''x''" "[]"] ok show ?thesis
    unfolding h_def l_def Let_def by simp
qed

text \<open>
  Deleting a node takes exactly its value out of the sequence and frees its cell; rotating moves the
  last value to the front; both keep the list well formed.
\<close>
theorem list_del_rotate_correct:
  assumes "dlist_ok h l (xs @ [(a, v)] @ ys)"
  shows "(case listDelNode h l a of (h', l') \<Rightarrow> dlist_ok h' l' (xs @ ys) \<and> h' a = None) \<and>
    (ys = [] \<longrightarrow> (case listRotate h l of (h', l') \<Rightarrow> dlist_ok h' l' ((a, v) # xs)))"
proof (intro conjI impI)
  from assms have ok: "dlist_ok h l (xs @ (a, v) # ys)" by simp
  note cell = dlist_ok_cell [OF ok]
  have s: "seg h None xs (Some a)" "seg h (Some a) ys None" "distinct (map fst (xs @ ys))"
    "a \<notin> fst ` set (xs @ ys)"
    using ok by (auto simp: dlist_ok_def seg_append)
  let ?h = "set_prev (set_next h (final None xs) (first ys None)) (first ys None) (final None xs)"
  have "seg (?h(a := None)) None (xs @ ys) None"
    using seg_join [OF s(1-3)] s(4) by simp
  moreover have "(case listDelNode h l a of (h', l') \<Rightarrow> h' = ?h(a := None) \<and>
      l' = \<lparr>head = first (xs @ ys) None, tail = final None (xs @ ys), len = length (xs @ ys)\<rparr>)"
  proof -
    have xs: "final None xs = None \<longleftrightarrow> xs = []" by (simp add: final_def)
    have ys: "first ys None = None \<longleftrightarrow> ys = []" by (cases ys) simp_all
    have "final pv ys = final pv' ys" if "ys \<noteq> []" for pv pv' using that by (simp add: final_def)
    moreover have "first xs n = first xs n'" if "xs \<noteq> []" for n n' using that by (cases xs) simp_all
    ultimately show ?thesis
      using ok cell xs ys
      by (cases "xs = []"; cases "ys = []"; cases l)
        (auto simp: listDelNode_def Let_def dlist_ok_def set_next_def set_prev_def)
  qed
  ultimately show "case listDelNode h l a of (h', l') \<Rightarrow> dlist_ok h' l' (xs @ ys) \<and> h' a = None"
    using s(3) by (auto simp: dlist_ok_def split: prod.splits)
next
  assume "ys = []"
  with assms have ok: "dlist_ok h l (xs @ [(a, v)])" by simp
  note cell = dlist_ok_cell [OF ok]
  show "case listRotate h l of (h', l') \<Rightarrow> dlist_ok h' l' ((a, v) # xs)"
  proof (cases "xs = []")
    case True
    with ok show ?thesis by (simp add: listRotate_def dlist_ok_def)
  next
    case False
    then obtain x w zs where xs: "xs = (x, w) # zs" by (cases xs) auto
    have s: "seg h None xs (Some a)" "distinct (map fst xs)" "a \<notin> fst ` set xs"
      using ok by (auto simp: dlist_ok_def seg_append)
    let ?h1 = "set_next h (final None xs) None"
    let ?h2 = "set_prev ?h1 (Some x) (Some a)"
    have "seg ?h1 None xs None" using s by (intro seg_relink_next)
    then have h2: "seg ?h2 (Some a) xs None" using seg_relink_prev [OF _ s(2)] xs by simp
    let ?h4 = "set_next (set_prev ?h2 (Some a) None) (Some a) (Some x)"
    have "seg ?h4 (Some a) xs None" using h2 s(3) by (simp add: set_next_def set_prev_def)
    moreover have "?h4 a = Some \<lparr>prev = None, nxt = Some x, node_val = v\<rparr>"
    proof -
      have "final None xs \<noteq> Some a" using s(3) final_in by blast
      then have "?h1 a = h a" by (auto simp: set_next_def split: option.splits)
      then have "?h2 a = h a" using s(3) xs by (simp add: set_prev_def)
      then show ?thesis using cell by (simp add: set_next_def set_prev_def)
    qed
    ultimately have "seg ?h4 None ((a, v) # xs) None" by (simp add: xs)
    moreover have "listRotate h l = (?h4, l\<lparr>tail := final None xs, head := Some a\<rparr>)"
      using ok cell xs by (simp add: listRotate_def Let_def dlist_ok_def)
    ultimately show ?thesis using ok s xs by (simp add: dlist_ok_def)
  qed
qed

theorem list_del_rotate_correct_witness:
  "let h = (\<lambda>_. None)(7 := Some \<lparr>prev = None, nxt = Some 8, node_val = CHR ''x''\<rparr>,
                       8 := Some \<lparr>prev = Some 7, nxt = None, node_val = CHR ''y''\<rparr>);
       l = \<lparr>head = Some 7, tail = Some 8, len = 2\<rparr>
   in case listRotate (h :: char heap) l of (h', l') \<Rightarrow> dlist_ok h' l' [(8, CHR ''y''), (7, CHR ''x'')]"
proof -
  define h :: "char heap" where "h = (\<lambda>_. None)(7 := Some \<lparr>prev = None, nxt = Some 8, node_val = CHR ''x''\<rparr>,
    8 := Some \<lparr>prev = Some 7, nxt = None, node_val = CHR ''y''\<rparr>)"
  define l where "l = \<lparr>head = Some 7, tail = Some (8 :: nat), len = 2\<rparr>"
  have ok: "dlist_ok h l ([(7, CHR ''x'')] @ [(8, CHR ''y'')] @ [])" by (simp add: dlist_ok_def h_def l_def)
  from list_del_rotate_correct [OF ok] show ?thesis unfolding h_def l_def Let_def by simp
qed

lemma walk_next:
  "seg h pv xs None \<Longrightarrow> walk (get_next h) i (first xs None) = (if i < length xs then Some (fst (xs ! i)) else None)"
proof (induction xs arbitrary: pv i)
  case Nil
  then show ?case by (cases i) simp_all
next
  case (Cons x xs)
  obtain a v where x: "x = (a, v)" by (cases x)
  with Cons.prems have "get_next h a = first xs None" "seg h (Some a) xs None" by (simp_all add: get_next_def)
  with x Cons.IH show ?case by (cases i) simp_all
qed

lemma walk_prev:
  "seg h None xs nx \<Longrightarrow> walk (get_prev h) i (final None xs) = (if i < length xs then Some (fst (rev xs ! i)) else None)"
proof (induction xs arbitrary: nx i rule: rev_induct)
  case Nil
  then show ?case by (cases i) simp_all
next
  case (snoc x xs)
  obtain a v where x: "x = (a, v)" by (cases x)
  with snoc.prems have "get_prev h a = final None xs" "seg h None xs (Some a)"
    by (simp_all add: get_prev_def seg_append)
  with x snoc.IH show ?case by (cases i) simp_all
qed

lemma search_loop_ok:
  "seg h pv xs None \<Longrightarrow> length xs < fuel \<Longrightarrow>
   search_loop h match \<lparr>iter_next = first xs None, from_head = True\<rparr> fuel =
     Some (map_option fst (List.find (\<lambda>x. match (snd x)) xs))"
proof (induction xs arbitrary: pv fuel)
  case Nil
  then show ?case by (cases fuel) (simp_all add: listNext_def)
next
  case (Cons x xs)
  obtain a v where x: "x = (a, v)" by (cases x)
  obtain k where k: "fuel = Suc k" "length xs < k" using Cons.prems(2) by (cases fuel) auto
  from Cons.prems x have n: "get_next h a = first xs None" "seg h (Some a) xs None"
    "h a = Some \<lparr>prev = pv, nxt = first xs None, node_val = v\<rparr>" by (simp_all add: get_next_def)
  with x k Cons.IH [OF n(2) k(2)] show ?case by (simp add: listNext_def)
qed

text \<open>
  On a well-formed list the index, from the head or with negative numbers from the tail, gives the
  node at that position and \<open>NULL\<close> out of range, and the search ends with the first node that matches.
\<close>
theorem list_lookup_correct:
  assumes "dlist_ok h l xs"
  shows "listIndex h l i =
      (if 0 \<le> i \<and> i < int (length xs) then Some (fst (xs ! nat i))
       else if i < 0 \<and> - i \<le> int (length xs) then Some (fst (xs ! nat (int (length xs) + i)))
       else None) \<and>
    listSearchKey h l match = Some (map_option fst (List.find (\<lambda>x. match (snd x)) xs))"
proof
  have s: "seg h None xs None" "head l = first xs None" "tail l = final None xs" "len l = length xs"
    using assms by (simp_all add: dlist_ok_def)
  show "listSearchKey h l match = Some (map_option fst (List.find (\<lambda>x. match (snd x)) xs))"
    using search_loop_ok [OF s(1), of "Suc (length xs)" match] s
    by (simp add: listSearchKey_def listGetIterator_def)
  show "listIndex h l i =
      (if 0 \<le> i \<and> i < int (length xs) then Some (fst (xs ! nat i))
       else if i < 0 \<and> - i \<le> int (length xs) then Some (fst (xs ! nat (int (length xs) + i)))
       else None)"
  proof (cases "i < 0")
    case True
    have "rev xs ! nat (- i - 1) = xs ! nat (int (length xs) + i)" if "- i \<le> int (length xs)"
    proof -
      have "length xs - Suc (nat (- i - 1)) = nat (int (length xs) + i)" using True that by linarith
      moreover have "nat (- i - 1) < length xs" using True that by linarith
      ultimately show ?thesis by (simp add: rev_nth)
    qed
    moreover have "nat (- i - 1) < length xs \<longleftrightarrow> - i \<le> int (length xs)" using True by linarith
    ultimately show ?thesis using True walk_prev [OF s(1)] s by (simp add: listIndex_def)
  next
    case False
    then have "nat i < length xs \<longleftrightarrow> i < int (length xs)" by linarith
    with False walk_next [OF s(1)] s show ?thesis by (simp add: listIndex_def)
  qed
qed

theorem list_lookup_correct_witness:
  "let h = (\<lambda>_. None)(7 := Some \<lparr>prev = None, nxt = Some 8, node_val = CHR ''x''\<rparr>,
                       8 := Some \<lparr>prev = Some 7, nxt = None, node_val = CHR ''y''\<rparr>);
       l = \<lparr>head = Some 7, tail = Some 8, len = 2\<rparr>
   in listIndex (h :: char heap) l (-1) = Some 8 \<and> listSearchKey h l (\<lambda>v. v = CHR ''z'') = Some None"
proof -
  define h :: "char heap" where "h = (\<lambda>_. None)(7 := Some \<lparr>prev = None, nxt = Some 8, node_val = CHR ''x''\<rparr>,
    8 := Some \<lparr>prev = Some 7, nxt = None, node_val = CHR ''y''\<rparr>)"
  define l where "l = \<lparr>head = Some 7, tail = Some (8 :: nat), len = 2\<rparr>"
  have ok: "dlist_ok h l [(7, CHR ''x''), (8, CHR ''y'')]" by (simp add: dlist_ok_def h_def l_def)
  from list_lookup_correct [OF ok, of "-1" "\<lambda>v. v = CHR ''z''"] show ?thesis
    unfolding h_def l_def Let_def by simp
qed

end
