(* ===== verification/Dict.thy ===== *)
theory Dict
  imports Clib Interfaces
begin

text \<open>
  The hash tables of \<open>src/src/src/dict.c\<close>: chaining, two tables, and incremental rehashing, where
  every lookup and update first moves one bucket from the old table to the new one. Keys are
  values (\<open>keyCompare\<close> is equality), a bucket is the list of its entries, and a table of size 0
  is the \<open>NULL\<close> table. The hash function, whether resizing is allowed and whether the
  process is the forked saving child (which never rehashes) are the environment. Shown: the
  dictionary is a finite map under every operation, wherever the rehashing stands, as long as it has
  fewer than \<open>2 ^ 30\<close> keys: \<open>_dictKeyIndex\<close> returns the number of a bucket as an \<open>int\<close>, in which -1
  means that the key is there, so with \<open>2 ^ 32\<close> buckets a key can be lost (\<open>dictAdd_loses_key\<close>).
\<close>

record 'k dict_env =
  hash_of :: "'k \<Rightarrow> nat"
  can_resize :: bool
  forked :: bool

record ('k, 'v) dictht =
  ht_table :: "('k \<times> 'v) list list"
  ht_size :: nat
  ht_used :: nat

record ('k, 'v) dict =
  ht0 :: "('k, 'v) dictht"
  ht1 :: "('k, 'v) dictht"
  rehashidx :: int
  iterators :: nat

definition DICT_HT_INITIAL_SIZE :: nat where "DICT_HT_INITIAL_SIZE = 4"
definition dict_force_resize_ratio :: nat where "dict_force_resize_ratio = 5"

subsection \<open>Hash functions\<close>

definition dictIntHashFunction :: "32 word \<Rightarrow> 32 word" where
  "dictIntHashFunction key =
     (let key = key + NOT (push_bit 15 key);
          key = key XOR drop_bit 10 key;
          key = key + push_bit 3 key;
          key = key XOR drop_bit 6 key;
          key = key + NOT (push_bit 11 key)
      in key XOR drop_bit 16 key)"

definition murmur_m :: "32 word" where "murmur_m = 0x5bd1e995"

definition murmur_mix :: "32 word \<Rightarrow> bytes \<Rightarrow> 32 word" where
  "murmur_mix h four =
     (let k = word_of_int (le_uint four) * murmur_m;
          k = k XOR drop_bit 24 k;
          k = k * murmur_m
      in (h * murmur_m) XOR k)"

fun murmur_loop :: "32 word \<Rightarrow> bytes \<Rightarrow> 32 word" where
  "murmur_loop h (a # b # c # d # data) = murmur_loop (murmur_mix h [a, b, c, d]) data"
| "murmur_loop h [a, b, c] = (h XOR push_bit 16 (ucast c) XOR push_bit 8 (ucast b) XOR ucast a) * murmur_m"
| "murmur_loop h [a, b] = (h XOR push_bit 8 (ucast b) XOR ucast a) * murmur_m"
| "murmur_loop h [a] = (h XOR ucast a) * murmur_m"
| "murmur_loop h [] = h"

definition dictGenHashFunction :: "32 word \<Rightarrow> bytes \<Rightarrow> 32 word" where
  "dictGenHashFunction seed key =
     (let h = murmur_loop (seed XOR word_of_nat (length key)) key;
          h = h XOR drop_bit 13 h;
          h = h * murmur_m
      in h XOR drop_bit 15 h)"

definition dictGenCaseHashFunction :: "32 word \<Rightarrow> bytes \<Rightarrow> 32 word" where
  "dictGenCaseHashFunction seed buf =
     foldl (\<lambda>hash c. (push_bit 5 hash + hash) + ucast (tolower_b c)) seed buf"

subsection \<open>Creation and resizing\<close>

definition dictReset :: "('k, 'v) dictht" where
  "dictReset = \<lparr>ht_table = [], ht_size = 0, ht_used = 0\<rparr>"

definition dictCreate :: "('k, 'v) dict" where
  "dictCreate = \<lparr>ht0 = dictReset, ht1 = dictReset, rehashidx = -1, iterators = 0\<rparr>"

definition dictIsRehashing :: "('k, 'v) dict \<Rightarrow> bool" where
  "dictIsRehashing d \<longleftrightarrow> rehashidx d \<noteq> -1"

definition dictSize :: "('k, 'v) dict \<Rightarrow> nat" where
  "dictSize d = ht_used (ht0 d) + ht_used (ht1 d)"

function next_power :: "nat \<Rightarrow> nat \<Rightarrow> nat" where
  "next_power i sz = (if i \<ge> sz \<or> i = 0 then i else next_power (i * 2) sz)"
  by pat_completeness auto
termination by (relation "measure (\<lambda>(i, sz). sz - i)") auto

declare next_power.simps [simp del]

definition dictNextPower :: "nat \<Rightarrow> nat" where
  "dictNextPower sz =
     (if sz \<ge> 2 ^ 63 - 1 then 2 ^ 63 - 1 else next_power DICT_HT_INITIAL_SIZE sz)"

text \<open>The result tells \<open>DICT_OK\<close> from \<open>DICT_ERR\<close>.\<close>

definition dictExpand :: "('k, 'v) dict \<Rightarrow> nat \<Rightarrow> bool \<times> ('k, 'v) dict" where
  "dictExpand d sz =
     (let realsize = dictNextPower sz
      in if dictIsRehashing d \<or> ht_used (ht0 d) > sz then (False, d)
         else if realsize = ht_size (ht0 d) then (False, d)
         else
           let n = \<lparr>ht_table = replicate realsize [], ht_size = realsize, ht_used = 0\<rparr>
           in if ht_size (ht0 d) = 0 then (True, d\<lparr>ht0 := n\<rparr>)
              else (True, d\<lparr>ht1 := n, rehashidx := 0\<rparr>))"

definition dictResize :: "'k dict_env \<Rightarrow> ('k, 'v) dict \<Rightarrow> bool \<times> ('k, 'v) dict" where
  "dictResize env d =
     (if \<not> can_resize env \<or> dictIsRehashing d then (False, d)
      else
        let minimal = sint (word_of_nat (ht_used (ht0 d)) :: 32 word);
            minimal = (if minimal < int DICT_HT_INITIAL_SIZE then int DICT_HT_INITIAL_SIZE else minimal)
        in dictExpand d (nat minimal))"

definition dictExpandIfNeeded :: "'k dict_env \<Rightarrow> ('k, 'v) dict \<Rightarrow> bool \<times> ('k, 'v) dict" where
  "dictExpandIfNeeded env d =
     (if dictIsRehashing d then (True, d)
      else if ht_size (ht0 d) = 0 then dictExpand d DICT_HT_INITIAL_SIZE
      else if ht_used (ht0 d) \<ge> ht_size (ht0 d) \<and>
              (can_resize env \<or> ht_used (ht0 d) div ht_size (ht0 d) > dict_force_resize_ratio)
      then dictExpand d (ht_used (ht0 d) * 2)
      else (True, d))"

subsection \<open>Incremental rehashing\<close>

definition hidx :: "'k dict_env \<Rightarrow> ('k, 'v) dictht \<Rightarrow> 'k \<Rightarrow> nat" where
  "hidx env ht k = hash_of env k AND (ht_size ht - 1)"

definition push_entry :: "'k dict_env \<Rightarrow> ('k, 'v) dictht \<Rightarrow> 'k \<times> 'v \<Rightarrow> ('k, 'v) dictht" where
  "push_entry env ht e =
     (let h = hidx env ht (fst e)
      in ht\<lparr>ht_table := (ht_table ht)[h := e # ht_table ht ! h], ht_used := ht_used ht + 1\<rparr>)"

text \<open>The inner loop over empty buckets: \<open>None\<close> when the budget of empty visits is used up, with
  the index reached, or the next bucket that is not empty and the budget left.\<close>

function skip_empty :: "('k \<times> 'v) list list \<Rightarrow> nat \<Rightarrow> nat \<Rightarrow> nat \<times> nat option" where
  "skip_empty tab idx visits =
     (if idx < length tab \<and> tab ! idx = [] then
        (if visits - 1 = 0 then (idx + 1, None) else skip_empty tab (idx + 1) (visits - 1))
      else (idx, Some visits))"
  by pat_completeness auto
termination by (relation "measure (\<lambda>(tab, idx, visits). length tab - idx)") auto

declare skip_empty.simps [simp del]

text \<open>One bucket: all its entries go to the new table.\<close>

definition move_bucket :: "'k dict_env \<Rightarrow> ('k, 'v) dict \<Rightarrow> nat \<Rightarrow> ('k, 'v) dict" where
  "move_bucket env d idx =
     (let bucket = ht_table (ht0 d) ! idx
      in d\<lparr>ht0 := (ht0 d)\<lparr>ht_table := (ht_table (ht0 d))[idx := []],
                           ht_used := ht_used (ht0 d) - length bucket\<rparr>,
           ht1 := foldl (push_entry env) (ht1 d) bucket,
           rehashidx := int idx + 1\<rparr>)"

text \<open>The outer loop; the flag is set when it returns early.\<close>

fun rehash_loop :: "'k dict_env \<Rightarrow> nat \<Rightarrow> nat \<Rightarrow> ('k, 'v) dict \<Rightarrow> bool \<times> ('k, 'v) dict" where
  "rehash_loop env 0 visits d = (False, d)"
| "rehash_loop env (Suc n) visits d =
     (if ht_used (ht0 d) = 0 then (False, d)
      else case skip_empty (ht_table (ht0 d)) (nat (rehashidx d)) visits of
             (idx, None) \<Rightarrow> (True, d\<lparr>rehashidx := int idx\<rparr>)
           | (idx, Some visits) \<Rightarrow> rehash_loop env n visits (move_bucket env d idx))"

definition dictRehash :: "'k dict_env \<Rightarrow> ('k, 'v) dict \<Rightarrow> nat \<Rightarrow> bool \<times> ('k, 'v) dict" where
  "dictRehash env d n =
     (if forked env then (False, d)
      else if \<not> dictIsRehashing d then (False, d)
      else case rehash_loop env n (n * 10) d of
             (True, d) \<Rightarrow> (True, d)
           | (False, d) \<Rightarrow>
               if ht_used (ht0 d) = 0
               then (False, d\<lparr>ht0 := ht1 d, ht1 := dictReset, rehashidx := -1\<rparr>)
               else (True, d))"

definition dictRehashStep :: "'k dict_env \<Rightarrow> ('k, 'v) dict \<Rightarrow> ('k, 'v) dict" where
  "dictRehashStep env d = (if iterators d = 0 then snd (dictRehash env d 1) else d)"

definition rehash_if :: "'k dict_env \<Rightarrow> ('k, 'v) dict \<Rightarrow> ('k, 'v) dict" where
  "rehash_if env d = (if dictIsRehashing d then dictRehashStep env d else d)"

subsection \<open>Lookup and update\<close>

definition in_bucket :: "'k dict_env \<Rightarrow> ('k, 'v) dictht \<Rightarrow> 'k \<Rightarrow> 'v option" where
  "in_bucket env ht k = map_of (ht_table ht ! hidx env ht k) k"

text \<open>The bucket number is an \<open>unsigned int\<close> that is returned as an \<open>int\<close>: from \<open>2 ^ 31\<close> buckets on
  it can be negative, and the last of \<open>2 ^ 32\<close> buckets is -1, the answer for a key that exists. The
  index is that of the table the new entry goes to.\<close>

definition int_of_uint :: "nat \<Rightarrow> int" where
  "int_of_uint n = sint (word_of_nat n :: 32 word)"

definition dictKeyIndex :: "'k dict_env \<Rightarrow> ('k, 'v) dict \<Rightarrow> 'k \<Rightarrow> int \<times> ('k, 'v) dict" where
  "dictKeyIndex env d k =
     (case dictExpandIfNeeded env d of
        (False, d) \<Rightarrow> (-1, d)
      | (True, d) \<Rightarrow>
          if in_bucket env (ht0 d) k \<noteq> None then (-1, d)
          else if \<not> dictIsRehashing d then (int_of_uint (hidx env (ht0 d) k), d)
          else if in_bucket env (ht1 d) k \<noteq> None then (-1, d)
          else (int_of_uint (hidx env (ht1 d) k), d))"

text \<open>The new entry at the head of its chain. \<open>None\<close>: the index is not one of the table.\<close>

definition add_at :: "('k, 'v) dictht \<Rightarrow> int \<Rightarrow> 'k \<Rightarrow> 'v \<Rightarrow> ('k, 'v) dictht option" where
  "add_at ht index k v =
     (if index < 0 \<or> int (length (ht_table ht)) \<le> index then None
      else Some (ht\<lparr>ht_table := (ht_table ht)[nat index := (k, v) # ht_table ht ! nat index],
                    ht_used := ht_used ht + 1\<rparr>))"

text \<open>\<open>dictAddRaw\<close> followed by the setting of the value.\<close>

definition dictAdd :: "'k dict_env \<Rightarrow> ('k, 'v) dict \<Rightarrow> 'k \<Rightarrow> 'v \<Rightarrow> (bool \<times> ('k, 'v) dict) option" where
  "dictAdd env d k v =
     (case dictKeyIndex env (rehash_if env d) k of
        (index, d) \<Rightarrow>
          if index = -1 then Some (False, d)
          else if dictIsRehashing d then map_option (\<lambda>ht. (True, d\<lparr>ht1 := ht\<rparr>)) (add_at (ht1 d) index k v)
          else map_option (\<lambda>ht. (True, d\<lparr>ht0 := ht\<rparr>)) (add_at (ht0 d) index k v))"

definition dictFind :: "'k dict_env \<Rightarrow> ('k, 'v) dict \<Rightarrow> 'k \<Rightarrow> 'v option \<times> ('k, 'v) dict" where
  "dictFind env d k =
     (if ht_size (ht0 d) = 0 then (None, d)
      else
        let d = rehash_if env d
        in case in_bucket env (ht0 d) k of
             Some v \<Rightarrow> (Some v, d)
           | None \<Rightarrow> if \<not> dictIsRehashing d then (None, d) else (in_bucket env (ht1 d) k, d))"

text \<open>The assignment of a value to the entry of a key in a chain, and the removal of the entry.\<close>

fun set_chain :: "'k \<Rightarrow> 'v \<Rightarrow> ('k \<times> 'v) list \<Rightarrow> ('k \<times> 'v) list" where
  "set_chain k v [] = []"
| "set_chain k v (e # es) = (if fst e = k then (k, v) # es else e # set_chain k v es)"

fun unlink_chain :: "'k \<Rightarrow> ('k \<times> 'v) list \<Rightarrow> ('k \<times> 'v) list" where
  "unlink_chain k [] = []"
| "unlink_chain k (e # es) = (if fst e = k then es else e # unlink_chain k es)"

definition set_val :: "'k dict_env \<Rightarrow> ('k, 'v) dictht \<Rightarrow> 'k \<Rightarrow> 'v \<Rightarrow> ('k, 'v) dictht" where
  "set_val env ht k v =
     (let h = hidx env ht k
      in ht\<lparr>ht_table := (ht_table ht)[h := set_chain k v (ht_table ht ! h)]\<rparr>)"

definition dictReplace :: "'k dict_env \<Rightarrow> ('k, 'v) dict \<Rightarrow> 'k \<Rightarrow> 'v \<Rightarrow> (bool \<times> ('k, 'v) dict) option" where
  "dictReplace env d k v =
     (case dictAdd env d k v of
        None \<Rightarrow> None
      | Some (True, d) \<Rightarrow> Some (True, d)
      | Some (False, d) \<Rightarrow>
          let d = snd (dictFind env d k)
          in if in_bucket env (ht0 d) k \<noteq> None
             then Some (False, d\<lparr>ht0 := set_val env (ht0 d) k v\<rparr>)
             else Some (False, d\<lparr>ht1 := set_val env (ht1 d) k v\<rparr>))"

definition unlink :: "'k dict_env \<Rightarrow> ('k, 'v) dictht \<Rightarrow> 'k \<Rightarrow> ('k, 'v) dictht" where
  "unlink env ht k =
     (let h = hidx env ht k
      in ht\<lparr>ht_table := (ht_table ht)[h := unlink_chain k (ht_table ht ! h)],
            ht_used := ht_used ht - 1\<rparr>)"

definition dictDelete :: "'k dict_env \<Rightarrow> ('k, 'v) dict \<Rightarrow> 'k \<Rightarrow> bool \<times> ('k, 'v) dict" where
  "dictDelete env d k =
     (if ht_size (ht0 d) = 0 then (False, d)
      else
        let d = rehash_if env d
        in if in_bucket env (ht0 d) k \<noteq> None then (True, d\<lparr>ht0 := unlink env (ht0 d) k\<rparr>)
           else if \<not> dictIsRehashing d then (False, d)
           else if in_bucket env (ht1 d) k \<noteq> None then (True, d\<lparr>ht1 := unlink env (ht1 d) k\<rparr>)
           else (False, d))"

definition dictEmpty :: "('k, 'v) dict \<Rightarrow> ('k, 'v) dict" where
  "dictEmpty d = d\<lparr>ht0 := dictReset, ht1 := dictReset, rehashidx := -1, iterators := 0\<rparr>"

subsection \<open>The invariant\<close>

definition ht_ok :: "'k dict_env \<Rightarrow> ('k, 'v) dictht \<Rightarrow> bool" where
  "ht_ok env ht \<longleftrightarrow> length (ht_table ht) = ht_size ht \<and> ht_used ht = length (concat (ht_table ht)) \<and>
     (ht_size ht = 0 \<or> (\<exists>n. ht_size ht = 2 ^ n)) \<and>
     (\<forall>i < ht_size ht. distinct (map fst (ht_table ht ! i)) \<and>
        (\<forall>k \<in> fst ` set (ht_table ht ! i). hidx env ht k = i))"

definition ht_map :: "('k, 'v) dictht \<Rightarrow> 'k \<rightharpoonup> 'v" where
  "ht_map ht = map_of (concat (ht_table ht))"

definition dict_map :: "('k, 'v) dict \<Rightarrow> 'k \<rightharpoonup> 'v" where
  "dict_map d = ht_map (ht1 d) ++ ht_map (ht0 d)"

text \<open>Below the rehashing index the old table is empty; without rehashing there is no new table.\<close>

definition dict_ok :: "'k dict_env \<Rightarrow> ('k, 'v) dict \<Rightarrow> bool" where
  "dict_ok env d \<longleftrightarrow> ht_ok env (ht0 d) \<and> ht_ok env (ht1 d) \<and>
     dom (ht_map (ht0 d)) \<inter> dom (ht_map (ht1 d)) = {} \<and>
     (if dictIsRehashing d
      then 0 \<le> rehashidx d \<and> rehashidx d \<le> int (ht_size (ht0 d)) \<and> 0 < ht_size (ht0 d) \<and> 0 < ht_size (ht1 d) \<and>
           (\<forall>i. int i < rehashidx d \<and> i < ht_size (ht0 d) \<longrightarrow> ht_table (ht0 d) ! i = [])
      else ht1 d = dictReset)"

lemma ht_map_dictReset [simp]: "ht_map dictReset = Map.empty"
  by (simp add: ht_map_def dictReset_def)

lemma ht_ok_dictReset [simp]: "ht_ok env dictReset"
  by (simp add: ht_ok_def dictReset_def)

lemma hidx_less:
  assumes "ht_ok env ht" "0 < ht_size ht"
  shows "hidx env ht k < ht_size ht"
proof -
  obtain n where n: "ht_size ht = 2 ^ n" using assms by (auto simp: ht_ok_def)
  have "hidx env ht k = take_bit n (hash_of env k)"
    by (simp add: hidx_def n take_bit_eq_mask mask_eq_exp_minus_1)
  then show ?thesis by (simp add: n)
qed

lemma map_of_concat_one:
  "i < length tab \<Longrightarrow> \<forall>j < length tab. j \<noteq> i \<longrightarrow> k \<notin> fst ` set (tab ! j) \<Longrightarrow>
   map_of (concat tab) k = map_of (tab ! i) k"
proof (induction tab arbitrary: i)
  case (Cons b tab)
  show ?case
  proof (cases i)
    case 0
    have "k \<notin> fst ` set (concat tab)"
    proof
      assume "k \<in> fst ` set (concat tab)"
      then obtain j where "j < length tab" "k \<in> fst ` set (tab ! j)" by (force simp: in_set_conv_nth)
      with Cons.prems(2) 0 show False by (metis Suc_less_eq length_Cons nat.distinct(1) nth_Cons_Suc)
    qed
    then have "map_of (concat tab) k = None" by (simp add: map_of_eq_None_iff)
    with 0 show ?thesis by (simp add: map_add_def split: option.split)
  next
    case (Suc j)
    have "k \<notin> fst ` set b" using Cons.prems(2) Suc by (metis length_Cons nat.distinct(1) nth_Cons_0 zero_less_Suc)
    then have "map_of b k = None" by (simp add: map_of_eq_None_iff)
    moreover have "map_of (concat tab) k = map_of (tab ! j) k"
      using Cons.prems Suc by (intro Cons.IH) force+
    ultimately show ?thesis using Suc by (simp add: map_add_def)
  qed
qed simp

text \<open>The chain of a key decides: this is what makes the lookup in one bucket correct.\<close>

lemma ht_map_bucket:
  assumes "ht_ok env ht" "0 < ht_size ht"
  shows "ht_map ht k = map_of (ht_table ht ! hidx env ht k) k"
  unfolding ht_map_def
proof (rule map_of_concat_one)
  show "hidx env ht k < length (ht_table ht)"
    using hidx_less [OF assms] assms by (simp add: ht_ok_def)
  show "\<forall>j < length (ht_table ht). j \<noteq> hidx env ht k \<longrightarrow> k \<notin> fst ` set (ht_table ht ! j)"
    using assms(1) by (auto simp: ht_ok_def)
qed

lemma in_bucket_map: "ht_ok env ht \<Longrightarrow> 0 < ht_size ht \<Longrightarrow> in_bucket env ht k = ht_map ht k"
  by (simp add: in_bucket_def ht_map_bucket)

lemma length_concat_update:
  "i < length tab \<Longrightarrow> length (concat (tab[i := b])) + length (tab ! i) = length (concat tab) + length b"
  by (induction tab arbitrary: i) (auto split: nat.split)

text \<open>Replacing one chain by another one with keys of the same bucket.\<close>

lemma ht_update:
  assumes "ht_ok env ht" "i < ht_size ht"
    and "distinct (map fst b)" "\<forall>k \<in> fst ` set b. hidx env ht k = i"
    and "ht' = ht\<lparr>ht_table := (ht_table ht)[i := b],
      ht_used := ht_used ht + length b - length (ht_table ht ! i)\<rparr>"
  shows "ht_ok env ht'" and "ht_size ht' = ht_size ht"
    and "ht_map ht' k = (if hidx env ht k = i then map_of b k else ht_map ht k)"
proof -
  have h: "hidx env ht' = hidx env ht" by (simp add: hidx_def assms(5) fun_eq_iff)
  have l: "length (ht_table ht) = ht_size ht" using assms(1) by (simp add: ht_ok_def)
  show s: "ht_size ht' = ht_size ht" by (simp add: assms(5))
  show ok: "ht_ok env ht'"
    using assms l length_concat_update [of i "ht_table ht" b]
    unfolding ht_ok_def h by (auto simp: nth_list_update)
  have "0 < ht_size ht" using assms(2) by simp
  with ht_map_bucket [OF ok] ht_map_bucket [OF assms(1)] s h l assms(2) hidx_less [OF assms(1)]
  show "ht_map ht' k = (if hidx env ht k = i then map_of b k else ht_map ht k)"
    by (simp add: assms(5) nth_list_update)
qed

lemma push_entry_ok:
  assumes "ht_ok env ht" "0 < ht_size ht" "ht_map ht k = None"
  shows "ht_ok env (push_entry env ht (k, v))"
    and "ht_size (push_entry env ht (k, v)) = ht_size ht"
    and "ht_map (push_entry env ht (k, v)) = (ht_map ht)(k \<mapsto> v)"
proof -
  let ?i = "hidx env ht k" and ?ht = "push_entry env ht (k, v)"
  let ?b = "(k, v) # ht_table ht ! ?i"
  have i: "?i < ht_size ht" by (rule hidx_less [OF assms(1,2)])
  have nk: "map_of (ht_table ht ! ?i) k = None"
    using assms by (simp add: ht_map_bucket)
  then have d: "distinct (map fst ?b)" "\<forall>k \<in> fst ` set ?b. hidx env ht k = ?i"
    using assms(1) i by (auto simp: ht_ok_def map_of_eq_None_iff)
  have e: "?ht = ht\<lparr>ht_table := (ht_table ht)[?i := ?b],
      ht_used := ht_used ht + length ?b - length (ht_table ht ! ?i)\<rparr>"
    by (simp add: push_entry_def Let_def)
  note u = ht_update [OF assms(1) i d e]
  show "ht_ok env ?ht" "ht_size ?ht = ht_size ht" by (rule u)+
  show "ht_map ?ht = (ht_map ht)(k \<mapsto> v)"
    using u(3) ht_map_bucket [OF assms(1,2)] by (auto simp: fun_eq_iff)
qed

lemma int_of_uint_small:
  assumes "n < 2 ^ 31"
  shows "int_of_uint n = int n"
proof -
  have "int n < 2 ^ 31" using assms by simp
  then have "signed_take_bit 31 (int n) = int n" by (intro signed_take_bit_int_eq_self) simp_all
  then show ?thesis by (simp add: int_of_uint_def signed_of_nat)
qed

lemma add_at_push:
  assumes "ht_ok env ht" "0 < ht_size ht" "ht_size ht \<le> 2 ^ 31"
  shows "int_of_uint (hidx env ht k) \<noteq> -1"
    "add_at ht (int_of_uint (hidx env ht k)) k v = Some (push_entry env ht (k, v))"
proof -
  have h: "hidx env ht k < ht_size ht" by (rule hidx_less [OF assms(1,2)])
  then have i: "int_of_uint (hidx env ht k) = int (hidx env ht k)" using assms(3) by (intro int_of_uint_small) simp
  then show "int_of_uint (hidx env ht k) \<noteq> -1" by simp
  have "length (ht_table ht) = ht_size ht" using assms(1) by (simp add: ht_ok_def)
  with h show "add_at ht (int_of_uint (hidx env ht k)) k v = Some (push_entry env ht (k, v))"
    by (simp add: i add_at_def push_entry_def Let_def)
qed

lemma push_entries_ok:
  "ht_ok env ht \<Longrightarrow> 0 < ht_size ht \<Longrightarrow> distinct (map fst es) \<Longrightarrow>
   \<forall>k \<in> fst ` set es. ht_map ht k = None \<Longrightarrow>
   ht_ok env (foldl (push_entry env) ht es) \<and> ht_size (foldl (push_entry env) ht es) = ht_size ht \<and>
   ht_map (foldl (push_entry env) ht es) = ht_map ht ++ map_of es"
proof (induction es arbitrary: ht)
  case (Cons e es)
  obtain k v where e: "e = (k, v)" by (cases e)
  with Cons.prems have n: "ht_map ht k = None" by simp
  note p = push_entry_ok [OF Cons.prems(1,2) n, of v]
  have "ht_ok env (foldl (push_entry env) (push_entry env ht (k, v)) es) \<and>
    ht_size (foldl (push_entry env) (push_entry env ht (k, v)) es) = ht_size (push_entry env ht (k, v)) \<and>
    ht_map (foldl (push_entry env) (push_entry env ht (k, v)) es) =
    ht_map (push_entry env ht (k, v)) ++ map_of es"
    using Cons.prems e by (intro Cons.IH) (auto simp: p)
  moreover have "map_of es k = None"
    using Cons.prems(3) e by (simp add: map_of_eq_None_iff)
  ultimately show ?case by (auto simp: e p map_add_def fun_eq_iff split: option.split)
qed simp

lemma set_chain_ok:
  "map fst (set_chain k v es) = map fst es"
  "map_of es k \<noteq> None \<Longrightarrow> map_of (set_chain k v es) = (map_of es)(k \<mapsto> v)"
  by (induction es) (auto simp: fun_eq_iff)

lemma set_val_ok:
  assumes "ht_ok env ht" "0 < ht_size ht" "ht_map ht k \<noteq> None"
  shows "ht_ok env (set_val env ht k v)"
    and "ht_size (set_val env ht k v) = ht_size ht"
    and "ht_map (set_val env ht k v) = (ht_map ht)(k \<mapsto> v)"
proof -
  let ?i = "hidx env ht k" and ?ht = "set_val env ht k v"
  let ?b = "set_chain k v (ht_table ht ! ?i)"
  have i: "?i < ht_size ht" by (rule hidx_less [OF assms(1,2)])
  have kk: "map_of (ht_table ht ! ?i) k \<noteq> None"
    using assms by (simp add: ht_map_bucket)
  have f: "fst ` set ?b = fst ` set (ht_table ht ! ?i)"
    by (metis set_chain_ok(1) list.set_map)
  have d: "distinct (map fst ?b)" "\<forall>k \<in> fst ` set ?b. hidx env ht k = ?i"
    using assms(1) i unfolding f set_chain_ok(1) by (auto simp: ht_ok_def)
  have "length ?b = length (ht_table ht ! ?i)" using set_chain_ok(1) by (metis length_map)
  then have e: "?ht = ht\<lparr>ht_table := (ht_table ht)[?i := ?b],
      ht_used := ht_used ht + length ?b - length (ht_table ht ! ?i)\<rparr>"
    by (simp add: set_val_def Let_def)
  note u = ht_update [OF assms(1) i d e]
  show "ht_ok env ?ht" "ht_size ?ht = ht_size ht" by (rule u)+
  show "ht_map ?ht = (ht_map ht)(k \<mapsto> v)"
    using u(3) ht_map_bucket [OF assms(1,2)] by (auto simp: fun_eq_iff set_chain_ok(2) [OF kk])
qed

lemma unlink_chain_ok:
  "distinct (map fst es) \<Longrightarrow> map_of (unlink_chain k es) = (map_of es)(k := None)"
  "set (unlink_chain k es) \<subseteq> set es"
  "distinct (map fst es) \<Longrightarrow> distinct (map fst (unlink_chain k es))"
  "map_of es k \<noteq> None \<Longrightarrow> Suc (length (unlink_chain k es)) = length es"
proof -
  show s: "set (unlink_chain k es) \<subseteq> set es" for es :: "('a \<times> 'b) list" by (induction es) auto
  show "distinct (map fst es) \<Longrightarrow> map_of (unlink_chain k es) = (map_of es)(k := None)"
    by (induction es) (auto simp: fun_eq_iff map_of_eq_None_iff)
  show "distinct (map fst es) \<Longrightarrow> distinct (map fst (unlink_chain k es))"
  proof (induction es)
    case (Cons e es)
    then show ?case using s [of es] by auto
  qed simp
  show "map_of es k \<noteq> None \<Longrightarrow> Suc (length (unlink_chain k es)) = length es"
    by (induction es) auto
qed

lemma unlink_ok:
  assumes "ht_ok env ht" "0 < ht_size ht" "ht_map ht k \<noteq> None"
  shows "ht_ok env (unlink env ht k)"
    and "ht_size (unlink env ht k) = ht_size ht"
    and "ht_map (unlink env ht k) = (ht_map ht)(k := None)"
proof -
  let ?i = "hidx env ht k" and ?ht = "unlink env ht k"
  let ?c = "ht_table ht ! ?i" let ?b = "unlink_chain k ?c"
  have i: "?i < ht_size ht" by (rule hidx_less [OF assms(1,2)])
  have kk: "map_of ?c k \<noteq> None"
    using assms by (simp add: ht_map_bucket)
  have c: "distinct (map fst ?c)" "\<forall>k \<in> fst ` set ?c. hidx env ht k = ?i"
    using assms(1) i by (auto simp: ht_ok_def)
  have d: "distinct (map fst ?b)" "\<forall>k \<in> fst ` set ?b. hidx env ht k = ?i"
    using c(2) unlink_chain_ok(2) [of k ?c] by (blast intro: unlink_chain_ok(3) [OF c(1)])+
  have "Suc (length ?b) = length ?c" by (rule unlink_chain_ok(4) [OF kk])
  then have e: "?ht = ht\<lparr>ht_table := (ht_table ht)[?i := ?b],
      ht_used := ht_used ht + length ?b - length ?c\<rparr>"
    by (simp add: unlink_def Let_def)
  note u = ht_update [OF assms(1) i d e]
  show "ht_ok env ?ht" "ht_size ?ht = ht_size ht" by (rule u)+
  show "ht_map ?ht = (ht_map ht)(k := None)"
    using u(3) ht_map_bucket [OF assms(1,2)] unlink_chain_ok(1) [OF c(1), of k]
    by (auto simp: fun_eq_iff)
qed

text \<open>The number of entries is that of the keys.\<close>

lemma distinct_keys:
  "\<forall>i < length tab. distinct (map fst (tab ! i)) \<and> (\<forall>k \<in> fst ` set (tab ! i). h k = f i) \<Longrightarrow>
   inj_on f {..< length tab} \<Longrightarrow> distinct (map fst (concat tab))"
proof (induction tab arbitrary: f)
  case (Cons b tab)
  have "distinct (map fst (concat tab))"
  proof (rule Cons.IH [of "\<lambda>i. f (Suc i)"])
    show "\<forall>i < length tab. distinct (map fst (tab ! i)) \<and>
      (\<forall>k \<in> fst ` set (tab ! i). h k = f (Suc i))"
      using Cons.prems(1) by (metis Suc_less_eq length_Cons nth_Cons_Suc)
    show "inj_on (\<lambda>i. f (Suc i)) {..< length tab}"
      using Cons.prems(2) by (auto simp: inj_on_def)
  qed
  moreover have "fst ` set b \<inter> fst ` set (concat tab) = {}"
  proof -
    have False if "k \<in> fst ` set b" "k \<in> fst ` set (concat tab)" for k
    proof -
      from that(2) obtain j where j: "j < length tab" "k \<in> fst ` set (tab ! j)"
        by (force simp: in_set_conv_nth)
      have "h k = f 0" using Cons.prems(1) that(1) by (metis length_Cons nth_Cons_0 zero_less_Suc)
      moreover have "h k = f (Suc j)"
        using Cons.prems(1) j by (metis Suc_less_eq length_Cons nth_Cons_Suc)
      ultimately show False using Cons.prems(2) j(1) by (force simp: inj_on_def)
    qed
    then show ?thesis by blast
  qed
  moreover have "distinct (map fst b)" using Cons.prems(1) by (metis length_Cons nth_Cons_0 zero_less_Suc)
  ultimately show ?case by auto
qed simp

lemma ht_distinct: "ht_ok env ht \<Longrightarrow> distinct (map fst (concat (ht_table ht)))"
  by (rule distinct_keys [where h = "hidx env ht" and f = id]) (auto simp: ht_ok_def)

lemma ht_used_card:
  assumes "ht_ok env ht"
  shows "ht_used ht = card (dom (ht_map ht))"
proof -
  have "card (fst ` set (concat (ht_table ht))) = length (concat (ht_table ht))"
    using distinct_card [OF ht_distinct [OF assms]] by simp
  then show ?thesis using assms by (simp add: ht_ok_def ht_map_def dom_map_of_conv_image_fst)
qed

lemma dictSize_card:
  assumes "dict_ok env d"
  shows "dictSize d = card (dom (dict_map d))" and "finite (dom (dict_map d))"
proof -
  have f: "finite (dom (ht_map ht))" for ht :: "('a, 'b) dictht" by (simp add: ht_map_def finite_dom_map_of)
  show "finite (dom (dict_map d))" by (simp add: dict_map_def f)
  show "dictSize d = card (dom (dict_map d))"
    using assms f
    by (simp add: ht_used_card [of env] dictSize_def dict_map_def dict_ok_def card_Un_disjoint)
qed

subsection \<open>Rehashing keeps the map\<close>

abbreviation rehash_inv :: "'k dict_env \<Rightarrow> ('k, 'v) dict \<Rightarrow> ('k, 'v) dict \<Rightarrow> bool" where
  "rehash_inv env d d' \<equiv> dict_ok env d' \<and> dict_map d' = dict_map d"

lemma move_bucket_ok:
  assumes "dict_ok env d" "dictIsRehashing d" "idx < ht_size (ht0 d)"
    and "\<forall>i < idx. ht_table (ht0 d) ! i = []"
  shows "rehash_inv env d (move_bucket env d idx)" and "dictIsRehashing (move_bucket env d idx)"
proof -
  let ?b = "ht_table (ht0 d) ! idx" and ?d = "move_bucket env d idx"
  let ?h0 = "(ht0 d)\<lparr>ht_table := (ht_table (ht0 d))[idx := []],
    ht_used := ht_used (ht0 d) - length ?b\<rparr>"
  let ?h1 = "foldl (push_entry env) (ht1 d) ?b"
  have ok: "ht_ok env (ht0 d)" "ht_ok env (ht1 d)" "0 < ht_size (ht0 d)" "0 < ht_size (ht1 d)"
      "dom (ht_map (ht0 d)) \<inter> dom (ht_map (ht1 d)) = {}"
    using assms(1,2) by (auto simp: dict_ok_def)
  have b: "distinct (map fst ?b)" "\<forall>k \<in> fst ` set ?b. hidx env (ht0 d) k = idx"
    using ok(1) assms(3) by (auto simp: ht_ok_def)
  have m0: "ht_map (ht0 d) k = (if hidx env (ht0 d) k = idx then map_of ?b k else ht_map (ht0 d) k)" for k
    using ht_map_bucket [OF ok(1,3)] by auto
  have kb: "map_of ?b k = (if hidx env (ht0 d) k = idx then ht_map (ht0 d) k else None)" for k
    using m0 [of k] b(2) by (auto simp: map_of_eq_None_iff)
  have u: "ht_ok env ?h0" "ht_size ?h0 = ht_size (ht0 d)"
      "ht_map ?h0 k = (if hidx env (ht0 d) k = idx then None else ht_map (ht0 d) k)" for k
    using ht_update [OF ok(1) assms(3), of "[]" ?h0] by simp_all
  have "\<forall>k \<in> fst ` set ?b. ht_map (ht1 d) k = None"
  proof
    fix k assume k: "k \<in> fst ` set ?b"
    then have "map_of ?b k \<noteq> None" by (simp add: map_of_eq_None_iff)
    then have "k \<in> dom (ht_map (ht0 d))" using kb [of k] by (auto split: if_splits)
    with ok(5) show "ht_map (ht1 d) k = None" by blast
  qed
  with push_entries_ok [OF ok(2,4) b(1)]
  have p: "ht_ok env ?h1" "ht_size ?h1 = ht_size (ht1 d)" "ht_map ?h1 = ht_map (ht1 d) ++ map_of ?b"
    by auto
  have d: "ht0 ?d = ?h0" "ht1 ?d = ?h1" "rehashidx ?d = int idx + 1"
    by (simp_all add: move_bucket_def Let_def)
  show r: "dictIsRehashing ?d" by (simp add: dictIsRehashing_def d)
  have "dom (ht_map ?h0) \<inter> dom (ht_map ?h1) = {}"
    using ok(5) u(3) unfolding p(3) by (force simp: kb split: if_splits)
  moreover have "ht_table ?h0 ! i = []" if "int i < int idx + 1" "i < ht_size (ht0 d)" for i
    using that assms(4) ok(1) by (cases "i = idx") (auto simp: ht_ok_def)
  ultimately have "dict_ok env ?d"
    using ok p u r assms(3) by (simp add: dict_ok_def d)
  moreover have "dict_map ?d k = dict_map d k" for k
    using ok(5) by (auto simp: dict_map_def d u p kb map_add_def split: option.split)
  ultimately show "rehash_inv env d ?d" by (simp add: fun_eq_iff)
qed

lemma skip_empty_ok:
  "skip_empty tab idx visits = (j, r) \<Longrightarrow>
   idx \<le> j \<and> (idx \<le> length tab \<longrightarrow> j \<le> length tab) \<and> (\<forall>i. idx \<le> i \<and> i < j \<longrightarrow> tab ! i = []) \<and>
   (r \<noteq> None \<longrightarrow> length tab \<le> j \<or> tab ! j \<noteq> [])"
proof (induction tab idx visits rule: skip_empty.induct)
  case (1 tab idx visits)
  consider "idx < length tab" "tab ! idx = []" "visits - 1 = 0"
    | "idx < length tab" "tab ! idx = []" "visits - 1 \<noteq> 0" | "\<not> (idx < length tab \<and> tab ! idx = [])"
    by blast
  then show ?case
  proof cases
    case 1
    with "1.prems" have "j = idx + 1" "r = None" by (auto simp: skip_empty.simps [of tab idx])
    with 1 show ?thesis by (auto simp: less_Suc_eq)
  next
    case 2
    with "1.prems" have "skip_empty tab (idx + 1) (visits - 1) = (j, r)"
      by (simp add: skip_empty.simps [of tab idx])
    with 2 "1.IH" have "idx + 1 \<le> j \<and> (idx + 1 \<le> length tab \<longrightarrow> j \<le> length tab) \<and> (\<forall>i. idx + 1 \<le> i \<and> i < j \<longrightarrow> tab ! i = []) \<and>
      (r \<noteq> None \<longrightarrow> length tab \<le> j \<or> tab ! j \<noteq> [])" by blast
    moreover from this 2 have "\<forall>i. idx \<le> i \<and> i < j \<longrightarrow> tab ! i = []"
      by (metis Suc_eq_plus1 le_antisym not_less_eq_eq)
    ultimately show ?thesis using 2(1) by simp
  next
    case 3
    with "1.prems" have "j = idx" "r = Some visits" by (auto simp: skip_empty.simps [of tab idx] split: if_splits)
    with 3 show ?thesis by auto
  qed
qed

lemma ht_used_0: "ht_ok env ht \<Longrightarrow> ht_used ht = 0 \<Longrightarrow> ht_map ht = Map.empty"
  by (simp add: ht_ok_def ht_map_def)

lemma all_empty_used: "ht_ok env ht \<Longrightarrow> \<forall>i < ht_size ht. ht_table ht ! i = [] \<Longrightarrow> ht_used ht = 0"
  by (auto simp: ht_ok_def in_set_conv_nth)

lemma rehash_loop_ok:
  "dict_ok env d \<Longrightarrow> dictIsRehashing d \<Longrightarrow> rehash_loop env n visits d = (early, d') \<Longrightarrow>
   rehash_inv env d d' \<and> dictIsRehashing d'"
proof (induction env n visits d rule: rehash_loop.induct)
  case (2 env n visits d)
  obtain j r where s: "skip_empty (ht_table (ht0 d)) (nat (rehashidx d)) visits = (j, r)" by fastforce
  have ok: "ht_ok env (ht0 d)" "0 \<le> rehashidx d" "0 < ht_size (ht0 d)" "length (ht_table (ht0 d)) = ht_size (ht0 d)"
      "\<forall>i. int i < rehashidx d \<and> i < ht_size (ht0 d) \<longrightarrow> ht_table (ht0 d) ! i = []"
    using "2.prems"(1,2) by (auto simp: dict_ok_def ht_ok_def)
  have e: "ht_table (ht0 d) ! i = []" if "i < j" "i < ht_size (ht0 d)" for i
  proof (cases "int i < rehashidx d")
    case False
    then have "nat (rehashidx d) \<le> i" by simp
    with skip_empty_ok [OF s] that show ?thesis by blast
  qed (use ok that in blast)
  show ?case
  proof (cases "ht_used (ht0 d) = 0")
    case False
    show ?thesis
    proof (cases r)
      case None
      with s False "2.prems" have d': "d' = d\<lparr>rehashidx := int j\<rparr>" by simp
      have r: "dictIsRehashing d'" by (simp add: d' dictIsRehashing_def)
      have "nat (rehashidx d) \<le> length (ht_table (ht0 d))" using "2.prems"(1,2) ok(4) by (simp add: dict_ok_def nat_le_iff)
      then have "j \<le> ht_size (ht0 d)" using skip_empty_ok [OF s] ok(4) by simp
      then have "dict_ok env d'" using "2.prems"(1,2) r e by (simp add: dict_ok_def d')
      with r show ?thesis by (simp add: d' dict_map_def)
    next
      case (Some v)
      have j: "j < ht_size (ht0 d)"
      proof (rule ccontr)
        assume "\<not> j < ht_size (ht0 d)"
        with e have "\<forall>i < ht_size (ht0 d). ht_table (ht0 d) ! i = []" by simp
        with all_empty_used [OF ok(1)] False show False by simp
      qed
      from s Some False "2.prems"(3) have l: "rehash_loop env n v (move_bucket env d j) = (early, d')" by simp
      have m: "rehash_inv env d (move_bucket env d j)" "dictIsRehashing (move_bucket env d j)"
        using move_bucket_ok [OF "2.prems"(1,2) j] e j by auto
      with "2.IH" [OF False s [symmetric] Some] l show ?thesis by simp
    qed
  qed (use "2.prems" in simp)
qed auto

lemma dictRehash_ok:
  assumes "dict_ok env d"
  shows "rehash_inv env d (snd (dictRehash env d n)) \<and>
    (0 < ht_size (ht0 d) \<longrightarrow> 0 < ht_size (ht0 (snd (dictRehash env d n))))"
proof (cases "forked env \<or> \<not> dictIsRehashing d")
  case False
  obtain early d' where l: "rehash_loop env n (n * 10) d = (early, d')" by fastforce
  have d': "rehash_inv env d d'" "dictIsRehashing d'" using rehash_loop_ok [OF assms _ l] False by auto
  show ?thesis
  proof (cases "early \<or> ht_used (ht0 d') \<noteq> 0")
    case True
    then have "snd (dictRehash env d n) = d'" using False l by (cases early) (auto simp: dictRehash_def)
    with d' show ?thesis by (simp add: dict_ok_def)
  next
    case f: False
    have "snd (dictRehash env d n) = d'\<lparr>ht0 := ht1 d', ht1 := dictReset, rehashidx := -1\<rparr>"
      using f False l by (auto simp: dictRehash_def)
    moreover have "ht_map (ht0 d') = Map.empty"
      using d'(1) f by (intro ht_used_0 [of env]) (auto simp: dict_ok_def)
    ultimately show ?thesis
      using d' by (auto simp: dict_ok_def dict_map_def dictIsRehashing_def)
  qed
qed (auto simp: dictRehash_def assms)

lemma rehash_if_ok:
  "dict_ok env d \<Longrightarrow> rehash_inv env d (rehash_if env d) \<and>
   (0 < ht_size (ht0 d) \<longrightarrow> 0 < ht_size (ht0 (rehash_if env d)))"
  by (simp add: rehash_if_def dictRehashStep_def dictRehash_ok)

subsection \<open>Growing\<close>

lemma next_power_ok:
  "0 < i \<Longrightarrow> sz \<le> next_power i sz \<and> (\<exists>n. next_power i sz = i * 2 ^ n)"
proof (induction i sz rule: next_power.induct)
  case (1 i sz)
  show ?case
  proof (cases "i \<ge> sz")
    case True
    then have "next_power i sz = i * 2 ^ 0" by (simp add: next_power.simps [of i])
    with True show ?thesis by (metis mult.right_neutral power_0)
  next
    case False
    with "1.prems" have e: "next_power i sz = next_power (i * 2) sz" by (simp add: next_power.simps [of i])
    from False "1.prems" "1.IH" obtain n where n: "sz \<le> next_power (i * 2) sz" "next_power (i * 2) sz = i * 2 * 2 ^ n"
      by auto
    then have "next_power i sz = i * 2 ^ Suc n" by (simp add: e)
    with n e show ?thesis by metis
  qed
qed

lemma dictNextPower_ok:
  assumes "sz < 2 ^ 63 - 1"
  shows "sz \<le> dictNextPower sz" and "\<exists>n. dictNextPower sz = 2 ^ n" and "0 < dictNextPower sz"
proof -
  have n: "dictNextPower sz = next_power DICT_HT_INITIAL_SIZE sz" using assms by (simp add: dictNextPower_def)
  have p: "0 < DICT_HT_INITIAL_SIZE" "DICT_HT_INITIAL_SIZE = 2 ^ 2" by (simp_all add: DICT_HT_INITIAL_SIZE_def)
  from next_power_ok [OF p(1), of sz] obtain m
    where m: "sz \<le> next_power DICT_HT_INITIAL_SIZE sz" "next_power DICT_HT_INITIAL_SIZE sz = 2 ^ 2 * 2 ^ m"
    unfolding p(2) by auto
  then show "sz \<le> dictNextPower sz" by (simp add: n)
  have e: "dictNextPower sz = 2 ^ (2 + m)" using m n by (simp add: power_add)
  then show "\<exists>n. dictNextPower sz = 2 ^ n" by blast
  show "0 < dictNextPower sz" by (simp add: e)
qed

lemma dictExpand_ok:
  assumes "dict_ok env d" "sz < 2 ^ 63 - 1" "dictExpand d sz = (ok, d')"
  shows "rehash_inv env d d'"
    and "ok \<longleftrightarrow> \<not> dictIsRehashing d \<and> ht_used (ht0 d) \<le> sz \<and> dictNextPower sz \<noteq> ht_size (ht0 d)"
    and "ok \<Longrightarrow> dictIsRehashing d' \<or> 0 < ht_size (ht0 d')"
proof -
  let ?r = "dictNextPower sz"
  let ?n = "\<lparr>ht_table = replicate ?r [], ht_size = ?r, ht_used = 0\<rparr> :: ('a, 'b) dictht"
  show iff: "ok \<longleftrightarrow> \<not> dictIsRehashing d \<and> ht_used (ht0 d) \<le> sz \<and> ?r \<noteq> ht_size (ht0 d)"
    using assms(3) by (auto simp: dictExpand_def Let_def split: if_splits)
  have n: "ht_ok env ?n" "ht_map ?n = Map.empty"
    using dictNextPower_ok [OF assms(2)] by (auto simp: ht_ok_def ht_map_def)
  have "rehash_inv env d d' \<and> (ok \<longrightarrow> dictIsRehashing d' \<or> 0 < ht_size (ht0 d'))"
  proof (cases ok)
    case False
    with assms(1,3) show ?thesis by (auto simp: dictExpand_def Let_def split: if_splits)
  next
    case True
    with iff have c: "\<not> dictIsRehashing d" "ht_used (ht0 d) \<le> sz" "?r \<noteq> ht_size (ht0 d)" by auto
    show ?thesis
    proof (cases "ht_size (ht0 d) = 0")
      case z: True
      with c assms(3) have d': "d' = d\<lparr>ht0 := ?n\<rparr>" by (simp add: dictExpand_def Let_def)
      have "ht_map (ht0 d) = Map.empty" using assms(1) z by (simp add: dict_ok_def ht_ok_def ht_map_def)
      with assms(1) c n dictNextPower_ok(3) [OF assms(2)] show ?thesis
        by (simp add: d' dict_ok_def dict_map_def dictIsRehashing_def)
    next
      case z: False
      with c assms(3) have d': "d' = d\<lparr>ht1 := ?n, rehashidx := 0\<rparr>" by (simp add: dictExpand_def Let_def)
      with assms(1) c n z dictNextPower_ok(3) [OF assms(2)] show ?thesis
        by (auto simp: d' dict_ok_def dict_map_def dictIsRehashing_def)
    qed
  qed
  then show "rehash_inv env d d'" and "ok \<Longrightarrow> dictIsRehashing d' \<or> 0 < ht_size (ht0 d')" by simp_all
qed

lemma dictResize_ok:
  assumes "dict_ok env d"
  shows "rehash_inv env d (snd (dictResize env d))"
proof (cases "\<not> can_resize env \<or> dictIsRehashing d")
  case False
  let ?m = "sint (word_of_nat (ht_used (ht0 d)) :: 32 word)"
  let ?s = "nat (if ?m < int DICT_HT_INITIAL_SIZE then int DICT_HT_INITIAL_SIZE else ?m)"
  have "?m < 2 ^ (32 - 1)"
    using sint_lt [of "word_of_nat (ht_used (ht0 d)) :: 32 word"] by simp
  then have "?s < 2 ^ 63 - 1" by (simp add: DICT_HT_INITIAL_SIZE_def nat_less_iff)
  moreover obtain ok d' where e: "dictExpand d ?s = (ok, d')" by fastforce
  ultimately have "rehash_inv env d d'" by (intro dictExpand_ok(1) [OF assms])
  with e False show ?thesis by (simp add: dictResize_def Let_def)
qed (simp add: dictResize_def assms)

text \<open>Below this number of entries no table grows beyond \<open>2 ^ 31\<close> buckets, so that every index is an
  \<open>int\<close>.\<close>

definition dict_cap :: nat where "dict_cap = 2 ^ 30"

definition index_fits :: "('k, 'v) dict \<Rightarrow> bool" where
  "index_fits d \<longleftrightarrow> ht_size (ht0 d) \<le> 2 ^ 31 \<and> ht_size (ht1 d) \<le> 2 ^ 31"

lemma push_entries_size [simp]: "ht_size (foldl (push_entry env) ht es) = ht_size ht"
  by (induction es arbitrary: ht) (simp_all add: push_entry_def Let_def)

lemma rehash_loop_size:
  "rehash_loop env n visits d = (early, d') \<Longrightarrow> ht_size (ht0 d') = ht_size (ht0 d) \<and> ht_size (ht1 d') = ht_size (ht1 d)"
  by (induction env n visits d rule: rehash_loop.induct)
    (auto simp: move_bucket_def Let_def split: if_splits prod.splits option.splits)

lemma dictRehash_fits: "index_fits d \<Longrightarrow> index_fits (snd (dictRehash env d n))"
  by (cases "rehash_loop env n (n * 10) d")
    (auto simp: dictRehash_def index_fits_def dictReset_def dest: rehash_loop_size split: bool.split)

lemma rehash_if_fits: "index_fits d \<Longrightarrow> index_fits (rehash_if env d)"
  by (simp add: rehash_if_def dictRehashStep_def dictRehash_fits)

lemma next_power_le: "i \<le> 2 ^ n \<Longrightarrow> (\<exists>a. i = 2 ^ a) \<Longrightarrow> sz \<le> 2 ^ n \<Longrightarrow> next_power i sz \<le> 2 ^ n"
proof (induction i sz rule: next_power.induct)
  case (1 i sz)
  show ?case
  proof (cases "i \<ge> sz \<or> i = 0")
    case False
    then have "i < 2 ^ n" using "1.prems"(3) by linarith
    obtain a where a: "i = 2 ^ a" using "1.prems"(2) by blast
    with \<open>i < 2 ^ n\<close> have "Suc a \<le> n" by (metis Suc_leI nat_power_less_imp_less zero_less_numeral)
    then have "(2 :: nat) ^ Suc a \<le> 2 ^ n" by (rule power_increasing) simp
    then have i2: "i * 2 \<le> 2 ^ n" by (simp add: a)
    have "\<exists>b. i * 2 = 2 ^ b" using a by (intro exI [of _ "Suc a"]) simp
    from "1.IH" [OF False i2 this "1.prems"(3)] show ?thesis using False by (simp add: next_power.simps [of i sz])
  qed (use "1.prems" in \<open>auto simp: next_power.simps [of i sz]\<close>)
qed

lemma dictExpand_fits:
  assumes "index_fits d" "sz \<le> 2 ^ 31"
  shows "index_fits (snd (dictExpand d sz))"
proof -
  have "\<exists>a. DICT_HT_INITIAL_SIZE = 2 ^ a" by (intro exI [of _ 2]) (simp add: DICT_HT_INITIAL_SIZE_def)
  then have "next_power DICT_HT_INITIAL_SIZE sz \<le> 2 ^ 31"
    by (intro next_power_le assms(2)) (simp add: DICT_HT_INITIAL_SIZE_def)
  then have "dictNextPower sz \<le> 2 ^ 31" using assms(2) by (simp add: dictNextPower_def)
  with assms(1) show ?thesis by (simp add: dictExpand_def index_fits_def Let_def)
qed

lemma dictResize_fits:
  assumes "index_fits d"
  shows "index_fits (snd (dictResize env d))"
proof -
  let ?m = "sint (word_of_nat (ht_used (ht0 d)) :: 32 word)"
  have "?m < 2 ^ (32 - 1)" using sint_lt [of "word_of_nat (ht_used (ht0 d)) :: 32 word"] by simp
  then have "nat (if ?m < int DICT_HT_INITIAL_SIZE then int DICT_HT_INITIAL_SIZE else ?m) \<le> 2 ^ 31"
    by (simp add: DICT_HT_INITIAL_SIZE_def nat_le_iff)
  from dictExpand_fits [OF assms this] assms show ?thesis by (simp add: dictResize_def Let_def)
qed

lemma dictExpandIfNeeded_fits:
  assumes "index_fits d" "dictSize d < dict_cap"
  shows "index_fits (snd (dictExpandIfNeeded env d))"
proof -
  have "ht_used (ht0 d) * 2 \<le> 2 ^ 31" using assms(2) by (simp add: dictSize_def dict_cap_def)
  then have "index_fits (snd (dictExpand d (ht_used (ht0 d) * 2)))" by (rule dictExpand_fits [OF assms(1)])
  moreover have "index_fits (snd (dictExpand d DICT_HT_INITIAL_SIZE))"
    by (rule dictExpand_fits [OF assms(1)]) (simp add: DICT_HT_INITIAL_SIZE_def)
  ultimately show ?thesis using assms(1) by (simp add: dictExpandIfNeeded_def)
qed

lemma dictFind_fits: "index_fits d \<Longrightarrow> index_fits (snd (dictFind env d k))"
  using rehash_if_fits [of d env] by (simp add: dictFind_def Let_def split: option.split)

lemma dictDelete_fits: "index_fits d \<Longrightarrow> index_fits (snd (dictDelete env d k))"
  using rehash_if_fits [of d env] by (simp add: dictDelete_def Let_def index_fits_def unlink_def)

lemma dictExpandIfNeeded_ok:
  assumes "dict_ok env d" "dictSize d < dict_cap" "dictExpandIfNeeded env d = (ok, d')"
  shows "ok \<and> rehash_inv env d d' \<and> 0 < ht_size (ht0 d')"
proof -
  have pos: "0 < ht_size (ht0 d)" if "dict_ok env d" "dictIsRehashing d" for d :: "('a, 'b) dict"
    using that by (simp add: dict_ok_def)
  have u: "ht_used (ht0 d) < 2 ^ 30" using assms(2) by (simp add: dictSize_def dict_cap_def)
  consider "dictIsRehashing d" | "\<not> dictIsRehashing d" "ht_size (ht0 d) = 0"
    | "\<not> dictIsRehashing d" "ht_size (ht0 d) \<noteq> 0" by blast
  then show ?thesis
  proof cases
    case 1
    with assms pos show ?thesis by (simp add: dictExpandIfNeeded_def)
  next
    case 2
    with assms(3) have e: "dictExpand d DICT_HT_INITIAL_SIZE = (ok, d')" by (simp add: dictExpandIfNeeded_def)
    have i: "DICT_HT_INITIAL_SIZE < 2 ^ 63 - 1" by (simp add: DICT_HT_INITIAL_SIZE_def)
    have "ht_used (ht0 d) = 0" using assms(1) 2 by (simp add: dict_ok_def ht_ok_def)
    with 2 dictExpand_ok(2) [OF assms(1) i e] dictNextPower_ok(3) [OF i] have "ok" by simp
    with dictExpand_ok(1,3) [OF assms(1) i e] pos show ?thesis by blast
  next
    case 3
    show ?thesis
    proof (cases "ht_used (ht0 d) \<ge> ht_size (ht0 d) \<and>
        (can_resize env \<or> ht_used (ht0 d) div ht_size (ht0 d) > dict_force_resize_ratio)")
      case True
      with 3 assms(3) have e: "dictExpand d (ht_used (ht0 d) * 2) = (ok, d')"
        by (simp add: dictExpandIfNeeded_def)
      have i: "ht_used (ht0 d) * 2 < 2 ^ 63 - 1" using u by simp
      have "ht_size (ht0 d) < dictNextPower (ht_used (ht0 d) * 2)"
        using True 3 dictNextPower_ok(1) [OF i] by linarith
      with 3 dictExpand_ok(2) [OF assms(1) i e] have "ok" by simp
      with dictExpand_ok(1,3) [OF assms(1) i e] pos show ?thesis by blast
    next
      case False
      with 3 assms show ?thesis by (simp add: dictExpandIfNeeded_def del: de_Morgan_conj)
    qed
  qed
qed

subsection \<open>The operations on the map\<close>

lemma dict_map_lookup:
  assumes "dict_ok env d" "0 < ht_size (ht0 d)"
  shows "dict_map d k =
    (case in_bucket env (ht0 d) k of Some v \<Rightarrow> Some v
     | None \<Rightarrow> if dictIsRehashing d then in_bucket env (ht1 d) k else None)"
  using assms by (auto simp: dict_ok_def dict_map_def in_bucket_map map_add_def split: option.split)

lemma dict_ok_h0:
  assumes "dict_ok env d" "ht_ok env h" "ht_size h = ht_size (ht0 d)" "0 < ht_size h"
    "dom (ht_map h) \<inter> dom (ht_map (ht1 d)) = {}"
    "\<not> dictIsRehashing d \<or> (\<forall>i. ht_table (ht0 d) ! i = [] \<longrightarrow> i < ht_size (ht0 d) \<longrightarrow> ht_table h ! i = [])"
  shows "dict_ok env (d\<lparr>ht0 := h\<rparr>)"
  using assms by (auto simp: dict_ok_def dictIsRehashing_def)

lemma dict_ok_h1:
  assumes "dict_ok env d" "dictIsRehashing d" "ht_ok env h" "ht_size h = ht_size (ht1 d)"
    "dom (ht_map (ht0 d)) \<inter> dom (ht_map h) = {}"
  shows "dict_ok env (d\<lparr>ht1 := h\<rparr>)"
  using assms by (auto simp: dict_ok_def dictIsRehashing_def)

lemma set_unlink_nil:
  assumes "ht_table ht ! i = []"
  shows "ht_table (set_val env ht k v) ! i = []" "ht_table (unlink env ht k) ! i = []"
proof -
  have "(xs[j := y]) ! i = []" if "xs ! i = []" "xs ! j = [] \<Longrightarrow> y = []" for xs :: "('a \<times> 'b) list list" and j y
    using that by (cases "i = j"; cases "j < length xs") (auto simp: nth_list_update list_update_beyond)
  then show "ht_table (set_val env ht k v) ! i = []" "ht_table (unlink env ht k) ! i = []"
    using assms by (auto simp: set_val_def unlink_def Let_def)
qed

lemma dictAdd_ok:
  assumes "dict_ok env d" "index_fits d" "dictSize d < dict_cap"
  shows "\<exists>ok t. dictAdd env d k v = Some (ok, t) \<and> dict_ok env t \<and> index_fits t \<and> (ok \<longleftrightarrow> dict_map d k = None) \<and>
    dict_map t = (if ok then (dict_map d)(k \<mapsto> v) else dict_map d) \<and> 0 < ht_size (ht0 t)"
proof -
  let ?r = "rehash_if env d"
  have r: "dict_ok env ?r" "dict_map ?r = dict_map d" using rehash_if_ok [OF assms(1)] by auto
  then have sz: "dictSize ?r < dict_cap" using assms dictSize_card(1) by metis
  obtain b e where e: "dictExpandIfNeeded env ?r = (b, e)" by fastforce
  with sz have b: b and eo: "dict_ok env e" "dict_map e = dict_map d" and pos: "0 < ht_size (ht0 e)"
    using dictExpandIfNeeded_ok [OF r(1)] r(2) by auto
  have fits: "index_fits e" using dictExpandIfNeeded_fits [OF rehash_if_fits [OF assms(2)] sz, of env] e by simp
  note l = dict_map_lookup [OF eo(1) pos, of k, unfolded eo(2)]
  show ?thesis
  proof (cases "dict_map d k")
    case (Some w)
    then have "dictKeyIndex env ?r k = (-1, e)"
      using b e l by (auto simp: dictKeyIndex_def split: option.splits if_splits)
    with Some eo pos fits show ?thesis by (auto simp: dictAdd_def)
  next
    case n: None
    then have n0: "in_bucket env (ht0 e) k = None" using l by (auto split: option.splits)
    show ?thesis
    proof (cases "dictIsRehashing e")
      case True
      with n l n0 have n1: "in_bucket env (ht1 e) k = None" by simp
      have h1: "ht_ok env (ht1 e)" "0 < ht_size (ht1 e)" using eo(1) True by (auto simp: dict_ok_def)
      note p = push_entry_ok [OF h1, of k v, folded in_bucket_map [OF h1], OF n1]
      let ?t = "e\<lparr>ht1 := push_entry env (ht1 e) (k, v)\<rparr>"
      have "dictKeyIndex env ?r k = (int_of_uint (hidx env (ht1 e) k), e)"
        using b e n0 n1 True by (simp add: dictKeyIndex_def)
      moreover have "ht_size (ht1 e) \<le> 2 ^ 31" using fits by (simp add: index_fits_def)
      ultimately have t: "dictAdd env d k v = Some (True, ?t)"
        using True add_at_push [OF h1] by (simp add: dictAdd_def)
      have f: "index_fits ?t" using fits p(2) by (simp add: index_fits_def)
      have h0: "ht_ok env (ht0 e)" using eo(1) by (simp add: dict_ok_def)
      then have k0: "ht_map (ht0 e) k = None" using n0 by (simp add: in_bucket_map pos)
      then have "dict_ok env ?t" using eo(1) True p by (intro dict_ok_h1) (auto simp: dict_ok_def)
      moreover have "dict_map ?t = (dict_map e)(k \<mapsto> v)"
        using p k0 by (auto simp: dict_map_def map_add_def fun_eq_iff split: option.split)
      ultimately show ?thesis using n t f eo(2) pos by auto
    next
      case False
      have h0: "ht_ok env (ht0 e)" using eo(1) by (simp add: dict_ok_def)
      note p = push_entry_ok [OF h0 pos, of k v, folded in_bucket_map [OF h0 pos], OF n0]
      let ?t = "e\<lparr>ht0 := push_entry env (ht0 e) (k, v)\<rparr>"
      have "dictKeyIndex env ?r k = (int_of_uint (hidx env (ht0 e) k), e)"
        using b e n0 False by (simp add: dictKeyIndex_def)
      moreover have "ht_size (ht0 e) \<le> 2 ^ 31" using fits by (simp add: index_fits_def)
      ultimately have t: "dictAdd env d k v = Some (True, ?t)"
        using False add_at_push [OF h0 pos] by (simp add: dictAdd_def)
      have f: "index_fits ?t" using fits p(2) by (simp add: index_fits_def)
      have z: "ht1 e = dictReset" using eo(1) False by (simp add: dict_ok_def)
      then have "dict_ok env ?t" using eo(1) False p pos by (intro dict_ok_h0) auto
      moreover have "dict_map ?t = (dict_map e)(k \<mapsto> v)" using p z by (simp add: dict_map_def)
      ultimately show ?thesis using n t f eo(2) pos p by auto
    qed
  qed
qed

lemma dictFind_ok:
  assumes "dict_ok env d" "dictFind env d k = (r, t)"
  shows "rehash_inv env d t \<and> r = dict_map d k"
proof (cases "ht_size (ht0 d) = 0")
  case True
  have "\<not> dictIsRehashing d" using True assms(1) by (auto simp: dict_ok_def)
  then have "dict_map d = Map.empty"
    using True assms(1) by (simp add: dict_ok_def dict_map_def ht_ok_def ht_map_def dictReset_def)
  with True assms show ?thesis by (simp add: dictFind_def)
next
  case False
  have r: "dict_ok env (rehash_if env d)" "dict_map (rehash_if env d) = dict_map d"
    using rehash_if_ok [OF assms(1)] by auto
  have "0 < ht_size (ht0 (rehash_if env d))" using rehash_if_ok [OF assms(1)] False by simp
  note l = dict_map_lookup [OF r(1) this, of k, unfolded r(2)]
  from assms(2) False r l show ?thesis
    by (auto simp: dictFind_def Let_def split: option.splits if_splits)
qed

lemma dictReplace_ok:
  assumes "dict_ok env d" "index_fits d" "dictSize d < dict_cap"
  shows "\<exists>new t. dictReplace env d k v = Some (new, t) \<and> dict_ok env t \<and> index_fits t \<and>
    (new \<longleftrightarrow> dict_map d k = None) \<and> dict_map t = (dict_map d)(k \<mapsto> v)"
proof -
  obtain ok a where a: "dictAdd env d k v = Some (ok, a)" and A: "dict_ok env a" "index_fits a"
    "ok \<longleftrightarrow> dict_map d k = None" "dict_map a = (if ok then (dict_map d)(k \<mapsto> v) else dict_map d)" "0 < ht_size (ht0 a)"
    using dictAdd_ok [OF assms, of k v] by blast
  show ?thesis
  proof (cases ok)
    case True
    with a A show ?thesis by (auto simp: dictReplace_def)
  next
    case False
    obtain r f where f: "dictFind env a k = (r, f)" by fastforce
    from A False have ao: "dict_ok env a" "dict_map a = dict_map d" "dict_map d k \<noteq> None" by auto
    from dictFind_ok [OF ao(1) f] ao have fo: "dict_ok env f" "dict_map f = dict_map d" by auto
    have fits: "index_fits f" using dictFind_fits [OF A(2), of env k] f by simp
    have "f = rehash_if env a" using f A by (auto simp: dictFind_def Let_def split: option.splits if_splits)
    then have pos: "0 < ht_size (ht0 f)" using rehash_if_ok [OF ao(1)] A by simp
    note l = dict_map_lookup [OF fo(1) pos, of k, unfolded fo(2)]
    have h: "ht_ok env (ht0 f)" "ht_ok env (ht1 f)" "dom (ht_map (ht0 f)) \<inter> dom (ht_map (ht1 f)) = {}"
      using fo(1) by (simp_all add: dict_ok_def)
    show ?thesis
    proof (cases "in_bucket env (ht0 f) k = None")
      case n: False
      then have nn: "ht_map (ht0 f) k \<noteq> None" using in_bucket_map [OF h(1) pos, of k] by simp
      note p = set_val_ok [OF h(1) pos nn, of v]
      let ?t = "f\<lparr>ht0 := set_val env (ht0 f) k v\<rparr>"
      have t: "dictReplace env d k v = Some (False, ?t)" "index_fits ?t"
        using a f False n fits p(2) by (auto simp: dictReplace_def index_fits_def)
      have "dict_ok env ?t"
        using fo(1) p pos h(3) nn set_unlink_nil(1) by (intro dict_ok_h0) auto
      moreover have "dict_map ?t = (dict_map f)(k \<mapsto> v)"
        using p by (simp add: t(2) dict_map_def)
      ultimately show ?thesis using t ao fo by simp
    next
      case n: True
      with l ao(3) have rh: "dictIsRehashing f" and b: "in_bucket env (ht1 f) k \<noteq> None"
        by (auto split: if_splits)
      from rh have pos1: "0 < ht_size (ht1 f)" using fo(1) by (simp add: dict_ok_def)
      have nn: "ht_map (ht1 f) k \<noteq> None" using in_bucket_map [OF h(2) pos1, of k] b by simp
      have n0: "ht_map (ht0 f) k = None" using in_bucket_map [OF h(1) pos, of k] n by simp
      note p = set_val_ok [OF h(2) pos1 nn, of v]
      let ?t = "f\<lparr>ht1 := set_val env (ht1 f) k v\<rparr>"
      have t: "dictReplace env d k v = Some (False, ?t)" "index_fits ?t"
        using a f False n fits p(2) by (auto simp: dictReplace_def index_fits_def)
      have "dict_ok env ?t"
        using fo(1) p rh h(3) nn by (intro dict_ok_h1) auto
      moreover have "dict_map ?t = (dict_map f)(k \<mapsto> v)"
        using p n0 by (auto simp: dict_map_def map_add_def fun_eq_iff split: option.split)
      ultimately show ?thesis using t ao fo by simp
    qed
  qed
qed

lemma dictDelete_ok:
  assumes "dict_ok env d" "dictDelete env d k = (ok, t)"
  shows "dict_ok env t \<and> (ok \<longleftrightarrow> dict_map d k \<noteq> None) \<and> dict_map t = (dict_map d)(k := None)"
proof (cases "ht_size (ht0 d) = 0")
  case True
  have "\<not> dictIsRehashing d" using True assms(1) by (auto simp: dict_ok_def)
  then have "dict_map d = Map.empty"
    using True assms(1) by (simp add: dict_ok_def dict_map_def ht_ok_def ht_map_def dictReset_def)
  with True assms show ?thesis by (simp add: dictDelete_def)
next
  case False
  let ?f = "rehash_if env d"
  have fo: "dict_ok env ?f" "dict_map ?f = dict_map d" and pos: "0 < ht_size (ht0 ?f)"
    using rehash_if_ok [OF assms(1)] False by auto
  note l = dict_map_lookup [OF fo(1) pos, of k, unfolded fo(2)]
  have h: "ht_ok env (ht0 ?f)" "ht_ok env (ht1 ?f)" "dom (ht_map (ht0 ?f)) \<inter> dom (ht_map (ht1 ?f)) = {}"
    using fo(1) by (simp_all add: dict_ok_def)
  note b0 = in_bucket_map [OF h(1) pos, of k]
  show ?thesis
  proof (cases "in_bucket env (ht0 ?f) k")
    case (Some w)
    then have nn: "ht_map (ht0 ?f) k \<noteq> None" using b0 by simp
    note p = unlink_ok [OF h(1) pos nn]
    have t: "ok" "t = ?f\<lparr>ht0 := unlink env (ht0 ?f) k\<rparr>"
      using assms(2) False Some by (auto simp: dictDelete_def Let_def)
    have "ht_map (ht1 ?f) k = None" using h(3) nn by blast
    then have "dict_map t = (dict_map ?f)(k := None)"
      using p by (auto simp: t(2) dict_map_def map_add_def fun_eq_iff split: option.split)
    moreover have "dict_ok env t"
      using fo(1) p pos h(3) nn set_unlink_nil(2) unfolding t(2) by (intro dict_ok_h0) auto
    ultimately show ?thesis using t l Some fo by simp
  next
    case None
    show ?thesis
    proof (cases "dictIsRehashing ?f \<and> in_bucket env (ht1 ?f) k \<noteq> None")
      case True
      then have pos1: "0 < ht_size (ht1 ?f)" using fo(1) by (simp add: dict_ok_def)
      have nn: "ht_map (ht1 ?f) k \<noteq> None" using in_bucket_map [OF h(2) pos1, of k] True by simp
      note p = unlink_ok [OF h(2) pos1 nn]
      have t: "ok" "t = ?f\<lparr>ht1 := unlink env (ht1 ?f) k\<rparr>"
        using assms(2) False None True by (auto simp: dictDelete_def Let_def)
      have "dict_map t = (dict_map ?f)(k := None)"
        using p b0 None by (auto simp: t(2) dict_map_def map_add_def fun_eq_iff split: option.split)
      moreover have "dict_ok env t"
        using fo(1) p True h(3) nn unfolding t(2) by (intro dict_ok_h1) auto
      ultimately show ?thesis using t l True None fo by auto
    next
      case f: False
      then have t: "\<not> ok" "t = ?f" using assms(2) False None by (auto simp: dictDelete_def Let_def split: if_splits)
      have "dict_map d k = None" using l None f by auto
      with t fo show ?thesis by (auto simp: fun_eq_iff)
    qed
  qed
qed

lemma dictCreate_ok: "dict_ok env dictCreate" "dict_map dictCreate = Map.empty"
  by (simp_all add: dict_ok_def dictCreate_def dict_map_def dictIsRehashing_def)

interpretation dd: map_spec "dictAdd env" "dictReplace env" "dictFind env" "dictDelete env"
  dict_map "\<lambda>d. dict_ok env d \<and> index_fits d" dict_cap for env
proof
  fix s :: "('a, 'b) dict" and k v
  assume s: "dict_ok env s \<and> index_fits s"
  then show "finite (dom (dict_map s))" by (intro dictSize_card(2) [of env]) simp
  {
    assume "card (dom (dict_map s)) < dict_cap"
    with s have "dictSize s < dict_cap" using dictSize_card(1) [of env s] by simp
    with s dictAdd_ok [of env s k v] dictReplace_ok [of env s k v]
    show "\<exists>ok t. dictAdd env s k v = Some (ok, t) \<and> (dict_ok env t \<and> index_fits t) \<and> (ok \<longleftrightarrow> dict_map s k = None) \<and>
        dict_map t = (if ok then (dict_map s)(k \<mapsto> v) else dict_map s)"
      and "\<exists>new t. dictReplace env s k v = Some (new, t) \<and> (dict_ok env t \<and> index_fits t) \<and>
        (new \<longleftrightarrow> dict_map s k = None) \<and> dict_map t = (dict_map s)(k \<mapsto> v)" by blast+
  }
next
  fix s t :: "('a, 'b) dict" and k r ok
  assume s: "dict_ok env s \<and> index_fits s"
  {
    assume "dictFind env s k = (r, t)"
    with s dictFind_ok [of env s k r t] dictFind_fits [of s env k]
    show "(dict_ok env t \<and> index_fits t) \<and> r = dict_map s k \<and> dict_map t = dict_map s" by simp
  next
    assume "dictDelete env s k = (ok, t)"
    with s dictDelete_ok [of env s k ok t] dictDelete_fits [of s env k]
    show "(dict_ok env t \<and> index_fits t) \<and> (ok \<longleftrightarrow> dict_map s k \<noteq> None) \<and> dict_map t = (dict_map s)(k := None)" by simp
  }
qed

subsection \<open>Runs of operations\<close>

text \<open>A client's operations, with the two global flags as they are at that moment; the
  results of the same operations on a finite map.\<close>

datatype ('k, 'v) dict_op =
    OAdd 'k 'v
  | OReplace 'k 'v
  | OFind 'k
  | ODelete 'k
  | OResize
  | ORehash nat

datatype 'v dict_res = RFlag bool | RVal "'v option" | RUnit

fun exec_op :: "'k dict_env \<Rightarrow> ('k, 'v) dict_op \<Rightarrow> ('k, 'v) dict \<Rightarrow> ('v dict_res \<times> ('k, 'v) dict) option" where
  "exec_op env (OAdd k v) d = map_option (\<lambda>(ok, d). (RFlag ok, d)) (dictAdd env d k v)"
| "exec_op env (OReplace k v) d = map_option (\<lambda>(new, d). (RFlag new, d)) (dictReplace env d k v)"
| "exec_op env (OFind k) d = (case dictFind env d k of (r, d) \<Rightarrow> Some (RVal r, d))"
| "exec_op env (ODelete k) d = (case dictDelete env d k of (ok, d) \<Rightarrow> Some (RFlag ok, d))"
| "exec_op env OResize d = Some (RUnit, snd (dictResize env d))"
| "exec_op env (ORehash n) d = Some (RUnit, snd (dictRehash env d n))"

fun spec_op :: "('k, 'v) dict_op \<Rightarrow> ('k \<rightharpoonup> 'v) \<Rightarrow> 'v dict_res \<times> ('k \<rightharpoonup> 'v)" where
  "spec_op (OAdd k v) m = (if m k = None then (RFlag True, m(k \<mapsto> v)) else (RFlag False, m))"
| "spec_op (OReplace k v) m = (RFlag (m k = None), m(k \<mapsto> v))"
| "spec_op (OFind k) m = (RVal (m k), m)"
| "spec_op (ODelete k) m = (RFlag (m k \<noteq> None), m(k := None))"
| "spec_op OResize m = (RUnit, m)"
| "spec_op (ORehash n) m = (RUnit, m)"

fun exec_ops :: "('k \<Rightarrow> nat) \<Rightarrow> (bool \<times> bool \<times> ('k, 'v) dict_op) list \<Rightarrow> ('k, 'v) dict \<Rightarrow>
    ('v dict_res list \<times> ('k, 'v) dict) option" where
  "exec_ops h [] d = Some ([], d)"
| "exec_ops h ((resizable, child, op) # ops) d =
     (case exec_op \<lparr>hash_of = h, can_resize = resizable, forked = child\<rparr> op d of
        None \<Rightarrow> None
      | Some (r, d) \<Rightarrow> map_option (\<lambda>(rs, d). (r # rs, d)) (exec_ops h ops d))"

fun spec_ops :: "(bool \<times> bool \<times> ('k, 'v) dict_op) list \<Rightarrow> ('k \<rightharpoonup> 'v) \<Rightarrow> 'v dict_res list \<times> ('k \<rightharpoonup> 'v)" where
  "spec_ops [] m = ([], m)"
| "spec_ops ((_, _, op) # ops) m =
     (case spec_op op m of (r, m) \<Rightarrow> case spec_ops ops m of (rs, m) \<Rightarrow> (r # rs, m))"

text \<open>Before each operation of the run, the map has fewer than \<open>dict_cap\<close> keys.\<close>

fun stays_small :: "(bool \<times> bool \<times> ('k, 'v) dict_op) list \<Rightarrow> ('k \<rightharpoonup> 'v) \<Rightarrow> bool" where
  "stays_small [] m \<longleftrightarrow> True"
| "stays_small ((_, _, op) # ops) m \<longleftrightarrow> card (dom m) < dict_cap \<and> stays_small ops (snd (spec_op op m))"

lemma dict_ok_env: "hash_of env = hash_of env' \<Longrightarrow> dict_ok env d = dict_ok env' d"
  by (simp add: dict_ok_def ht_ok_def hidx_def)

lemma exec_op_ok:
  assumes "dict_ok env d \<and> index_fits d" "card (dom (dict_map d)) < dict_cap"
  shows "\<exists>r t. exec_op env op d = Some (r, t) \<and> dict_ok env t \<and> index_fits t \<and> (r, dict_map t) = spec_op op (dict_map d)"
proof (cases op)
  case (OAdd k v)
  obtain ok t where "dictAdd env d k v = Some (ok, t)" "dict_ok env t \<and> index_fits t" "ok \<longleftrightarrow> dict_map d k = None"
    "dict_map t = (if ok then (dict_map d)(k \<mapsto> v) else dict_map d)" using dd.add_ok [OF assms, of k v] by blast
  with OAdd show ?thesis by (cases ok) auto
next
  case (OReplace k v)
  obtain new t where "dictReplace env d k v = Some (new, t)" "dict_ok env t \<and> index_fits t"
    "new \<longleftrightarrow> dict_map d k = None" "dict_map t = (dict_map d)(k \<mapsto> v)" using dd.put_ok [OF assms, of k v] by blast
  with OReplace show ?thesis by simp
next
  case (OFind k)
  obtain r t where e: "dictFind env d k = (r, t)" by fastforce
  with dd.get_ok [OF assms(1) e] OFind show ?thesis by auto
next
  case (ODelete k)
  obtain ok t where e: "dictDelete env d k = (ok, t)" by fastforce
  with dd.del_ok [OF assms(1) e] ODelete show ?thesis by auto
qed (use assms(1) in \<open>simp_all add: dictResize_ok dictRehash_ok dictResize_fits dictRehash_fits\<close>)

lemma exec_ops_ok:
  assumes "dict_ok \<lparr>hash_of = h, can_resize = a, forked = b\<rparr> d" "index_fits d" "stays_small ops (dict_map d)"
  shows "\<exists>rs d'. exec_ops h ops d = Some (rs, d') \<and> dict_ok \<lparr>hash_of = h, can_resize = a, forked = b\<rparr> d' \<and>
    spec_ops ops (dict_map d) = (rs, dict_map d')"
  using assms
proof (induction ops arbitrary: d)
  case (Cons x ops)
  obtain c f op where x: "x = (c, f, op)" by (cases x)
  let ?e = "\<lparr>hash_of = h, can_resize = c, forked = f\<rparr>"
  have "dict_ok ?e d" using Cons.prems(1) dict_ok_env by (metis dict_env.select_convs(1))
  moreover have c: "card (dom (dict_map d)) < dict_cap" using Cons.prems(3) by (simp add: x)
  ultimately obtain r d1 where o: "exec_op ?e op d = Some (r, d1)" "dict_ok ?e d1" "index_fits d1"
    "(r, dict_map d1) = spec_op op (dict_map d)" using exec_op_ok [of ?e d op] Cons.prems(2) by blast
  have d1: "dict_ok \<lparr>hash_of = h, can_resize = a, forked = b\<rparr> d1"
    using o(2) dict_ok_env by (metis dict_env.select_convs(1))
  have "stays_small ops (dict_map d1)" using Cons.prems(3) by (simp add: x o(4) [symmetric])
  from Cons.IH [OF d1 o(3) this] show ?case by (auto simp: x o(1) o(4) [symmetric])
qed simp

text \<open>
  C1. Refinement: whatever the hash function, and however \<open>dict_can_resize\<close> and the
  forked-process flag change between calls, a run of \<open>dictAdd\<close>, \<open>dictReplace\<close>,
  \<open>dictFind\<close>, \<open>dictDelete\<close>, \<open>dictResize\<close> and \<open>dictRehash\<close> from an empty dictionary, of any length
  but with fewer than \<open>2 ^ 30\<close> keys at a time, never uses an index outside of a table, returns
  what the same run on a finite map returns, and \<open>dictSize\<close> is the number of its keys.
\<close>

theorem dict_refines_map:
  assumes "stays_small ops Map.empty"
  shows "\<exists>rs d. exec_ops h ops dictCreate = Some (rs, d) \<and> spec_ops ops Map.empty = (rs, dict_map d) \<and>
    dictSize d = card (dom (dict_map d))"
proof -
  have "index_fits (dictCreate :: ('a, 'b) dict)" by (simp add: index_fits_def dictCreate_def dictReset_def)
  with exec_ops_ok [OF dictCreate_ok(1), of ops h True False] assms dictSize_card(1)
  show ?thesis by (fastforce simp: dictCreate_ok(2))
qed

theorem dict_refines_map_witness:
  "\<exists>d. exec_ops (\<lambda>k. k) [(True, False, OAdd 1 ''a''), (True, False, OAdd (5::nat) ''b''), (True, False, OFind 5)]
     dictCreate = Some ([RFlag True, RFlag True, RVal (Some ''b'')], d) \<and> dictSize d = 2"
proof -
  let ?ops = "[(True, False, OAdd 1 ''a''), (True, False, OAdd (5::nat) ''b''), (True, False, OFind 5)]"
  have "stays_small ?ops Map.empty" by (simp add: dict_cap_def)
  from dict_refines_map [OF this, of "\<lambda>k. k"] obtain rs d where
    "exec_ops (\<lambda>k. k) ?ops dictCreate = Some (rs, d)" "spec_ops ?ops Map.empty = (rs, dict_map d)"
    "dictSize d = card (dom (dict_map d))" by blast
  then show ?thesis by (auto simp: fun_upd_def [symmetric] dest: sym)
qed

text \<open>
  Beyond the bound: with \<open>2 ^ 32\<close> buckets and no need to grow, a new key that hashes to the last
  bucket gets the index -1, so that \<open>dictAdd\<close> reports it as present and does not store it.
\<close>

theorem dictAdd_loses_key:
  assumes "\<not> dictIsRehashing d" "ht_size (ht0 d) = 2 ^ 32" "ht_used (ht0 d) < 2 ^ 32"
    "hash_of env k = 2 ^ 32 - 1" "in_bucket env (ht0 d) k = None"
  shows "dictAdd env d k v = Some (False, d)"
proof -
  have "hidx env (ht0 d) k = 2 ^ 32 - 1" by (simp add: hidx_def assms(2,4))
  then have "int_of_uint (hidx env (ht0 d) k) = -1" by (simp add: int_of_uint_def)
  moreover have "dictExpandIfNeeded env d = (True, d)" using assms(1-3) by (simp add: dictExpandIfNeeded_def)
  ultimately show ?thesis using assms(1,5) by (simp add: dictAdd_def dictKeyIndex_def rehash_if_def)
qed

subsection \<open>The rehashing ends\<close>

lemma rehash_loop_progress:
  assumes "dict_ok env d" "dictIsRehashing d" "rehash_loop env (Suc 0) (Suc v) d = (early, d')"
    "ht_used (ht0 d) \<noteq> 0"
  shows "rehashidx d < rehashidx d' \<and> ht_size (ht0 d') = ht_size (ht0 d) \<and> iterators d' = iterators d \<and>
    (early \<longrightarrow> ht_used (ht0 d') \<noteq> 0)"
proof -
  obtain j r where s: "skip_empty (ht_table (ht0 d)) (nat (rehashidx d)) (Suc v) = (j, r)" by fastforce
  have p: "0 \<le> rehashidx d" using assms(1,2) by (simp add: dict_ok_def)
  have "nat (rehashidx d) \<le> j" using skip_empty_ok [OF s] by blast
  show ?thesis
  proof (cases r)
    case (Some w)
    then have "d' = move_bucket env d j" "\<not> early" using assms(3,4) s by (auto split: if_splits)
    with p \<open>nat (rehashidx d) \<le> j\<close> show ?thesis by (simp add: move_bucket_def Let_def)
  next
    case None
    have "nat (rehashidx d) < j"
    proof (rule ccontr)
      assume "\<not> nat (rehashidx d) < j"
      with \<open>nat (rehashidx d) \<le> j\<close> have "j = nat (rehashidx d)" by simp
      with s None skip_empty_ok show False
        by (cases "nat (rehashidx d) < length (ht_table (ht0 d)) \<and> ht_table (ht0 d) ! nat (rehashidx d) = []")
          (auto simp: skip_empty.simps [of _ "nat (rehashidx d)"] split: if_splits dest!: skip_empty_ok)
    qed
    moreover have "d' = d\<lparr>rehashidx := int j\<rparr>" using assms(3,4) s None by simp
    ultimately show ?thesis using p assms(4) by simp
  qed
qed

lemma dictRehashStep_progress:
  assumes "dict_ok env d" "dictIsRehashing d" "\<not> forked env" "iterators d = 0"
    "dictIsRehashing (dictRehashStep env d)"
  shows "rehashidx d < rehashidx (dictRehashStep env d) \<and>
    rehashidx (dictRehashStep env d) < int (ht_size (ht0 d)) \<and>
    ht_size (ht0 (dictRehashStep env d)) = ht_size (ht0 d) \<and> iterators (dictRehashStep env d) = 0"
proof -
  obtain early d' where l: "rehash_loop env (Suc 0) (Suc 9) d = (early, d')" by fastforce
  let ?s = "dictRehashStep env d"
  have s: "?s = (case (early, d') of (True, d) \<Rightarrow> d | (False, d) \<Rightarrow>
      if ht_used (ht0 d) = 0 then d\<lparr>ht0 := ht1 d, ht1 := dictReset, rehashidx := -1\<rparr> else d)"
    using assms(2-4) l by (cases early) (simp_all add: dictRehashStep_def dictRehash_def)
  have "?s = d'"
    using assms(5) s by (cases early) (auto simp: dictIsRehashing_def split: if_splits)
  have u: "ht_used (ht0 d) \<noteq> 0"
  proof
    assume "ht_used (ht0 d) = 0"
    with l have "\<not> early" "ht_used (ht0 d') = 0" by auto
    with s assms(5) show False by (simp add: dictIsRehashing_def)
  qed
  have p: "rehashidx d < rehashidx d' \<and> ht_size (ht0 d') = ht_size (ht0 d) \<and> iterators d' = iterators d \<and>
      (early \<longrightarrow> ht_used (ht0 d') \<noteq> 0)"
    by (rule rehash_loop_progress [OF assms(1,2) l u])
  have ok: "dict_ok env d'" "dictIsRehashing d'"
    using rehash_loop_ok [OF assms(1,2) l] by auto
  have "rehashidx d' < int (ht_size (ht0 d'))"
  proof (rule ccontr)
    assume "\<not> ?thesis"
    then have "ht_used (ht0 d') = 0"
      using ok by (intro all_empty_used [of env]) (auto simp: dict_ok_def)
    with p s assms(5) show False by (auto simp: dictIsRehashing_def)
  qed
  with p \<open>?s = d'\<close> assms(4) show ?thesis by simp
qed

lemma dictRehashStep_ok: "dict_ok env d \<Longrightarrow> rehash_inv env d (dictRehashStep env d)"
  using dictRehash_ok [of env d 1] by (simp add: dictRehashStep_def)

lemma dictRehashStep_steps:
  "dict_ok env d \<Longrightarrow> \<not> forked env \<Longrightarrow> iterators d = 0 \<Longrightarrow>
   dictIsRehashing ((dictRehashStep env ^^ n) d) \<Longrightarrow>
   dict_ok env ((dictRehashStep env ^^ n) d) \<and> iterators ((dictRehashStep env ^^ n) d) = 0 \<and>
   ht_size (ht0 ((dictRehashStep env ^^ n) d)) = ht_size (ht0 d) \<and>
   rehashidx d + int n \<le> rehashidx ((dictRehashStep env ^^ n) d) \<and>
   (n = 0 \<or> rehashidx ((dictRehashStep env ^^ n) d) < int (ht_size (ht0 d)))"
proof (induction n)
  case (Suc n)
  let ?d = "(dictRehashStep env ^^ n) d"
  have r: "dictIsRehashing ?d"
  proof (rule ccontr)
    assume n: "\<not> dictIsRehashing ?d"
    then have "dictRehashStep env ?d = ?d" by (simp add: dictRehashStep_def dictRehash_def)
    with n Suc.prems(4) show False by simp
  qed
  note ih = Suc.IH [OF Suc.prems(1-3) r]
  then have "dict_ok env ?d" "iterators ?d = 0" by auto
  with dictRehashStep_progress [OF _ r Suc.prems(2)] Suc.prems(4) ih dictRehashStep_ok
  show ?case by fastforce
qed simp

text \<open>
  C36. Liveness of incremental rehashing: in a process that is not the forked child, and with no
  iterator, a rehashing is over after at most as many calls of \<open>_dictRehashStep\<close> as the old
  table has buckets, and the dictionary still holds the same map.
\<close>

theorem dictRehashStep_ends:
  assumes "dict_ok env d" "\<not> forked env" "iterators d = 0" "ht_size (ht0 d) \<le> n" "0 < n"
  shows "\<not> dictIsRehashing ((dictRehashStep env ^^ n) d) \<and>
    dict_map ((dictRehashStep env ^^ n) d) = dict_map d"
proof
  show "\<not> dictIsRehashing ((dictRehashStep env ^^ n) d)"
  proof
    assume r: "dictIsRehashing ((dictRehashStep env ^^ n) d)"
    have d: "dictIsRehashing d"
    proof (rule ccontr)
      assume no: "\<not> dictIsRehashing d"
      have "(dictRehashStep env ^^ n) d = d"
        by (induction n) (simp_all add: dictRehashStep_def dictRehash_def no)
      with r no show False by simp
    qed
    with assms(1) have "0 \<le> rehashidx d" by (simp add: dict_ok_def)
    with dictRehashStep_steps [OF assms(1-3) r] assms(4,5) show False by simp
  qed
  have "rehash_inv env d ((dictRehashStep env ^^ m) d)" for m
  proof (induction m)
    case (Suc m)
    then show ?case using dictRehashStep_ok by fastforce
  qed (simp add: assms(1))
  then show "dict_map ((dictRehashStep env ^^ n) d) = dict_map d" by blast
qed

lemma dictRehashStep_ends_witness:
  "dictIsRehashing (snd (dictExpand (snd (dictExpand (dictCreate :: (nat, bool) dict) 4)) 8)) \<and>
   \<not> dictIsRehashing ((dictRehashStep \<lparr>hash_of = (\<lambda>k. k), can_resize = True, forked = False\<rparr> ^^ 4)
     (snd (dictExpand (snd (dictExpand (dictCreate :: (nat, bool) dict) 4)) 8)))"
proof -
  let ?env = "\<lparr>hash_of = (\<lambda>k. k), can_resize = True, forked = False\<rparr> :: nat dict_env"
  obtain a d where d: "dictExpand (dictCreate :: (nat, bool) dict) 4 = (a, d)" by fastforce
  obtain b e where e: "dictExpand d 8 = (b, e)" by fastforce
  have "dict_ok ?env d" using dictExpand_ok(1) [OF dictCreate_ok(1) _ d] by simp
  from dictExpand_ok(1) [OF this _ e] have ok: "dict_ok ?env e" by simp
  have n: "next_power 4 4 = 4" "next_power 4 8 = 8" by (simp_all add: next_power.simps)
  have dd: "d = \<lparr>ht0 = \<lparr>ht_table = replicate 4 [], ht_size = 4, ht_used = 0\<rparr>, ht1 = dictReset,
      rehashidx = -1, iterators = 0\<rparr>"
    using d n by (auto simp: dictExpand_def dictNextPower_def DICT_HT_INITIAL_SIZE_def dictCreate_def
        dictReset_def dictIsRehashing_def)
  have "ht_size (ht0 e) = 4 \<and> iterators e = 0 \<and> dictIsRehashing e"
    using e n by (auto simp: dd dictExpand_def dictNextPower_def DICT_HT_INITIAL_SIZE_def
        dictReset_def dictIsRehashing_def)
  with dictRehashStep_ends [OF ok, of 4] d e show ?thesis by simp
qed

lemma case_hash_tolower:
  "dictGenCaseHashFunction seed buf = foldl (\<lambda>h c. h * 33 + ucast c) seed (map tolower_b buf)"
proof -
  have "push_bit 5 h + h = h * 33" for h :: "32 word" by (simp add: push_bit_eq_mult)
  then have "dictGenCaseHashFunction seed buf = foldl (\<lambda>h c. h * 33 + ucast (tolower_b c)) seed buf"
    unfolding dictGenCaseHashFunction_def by presburger
  then show ?thesis by (simp add: foldl_map)
qed

text \<open>
  The case insensitive hash is djb's \<open>hash * 33 + c\<close> modulo \<open>2 ^ 32\<close> over the lower
  case letters, so names that differ in case only, as in the command table, get one bucket.
\<close>

theorem dictGenCaseHashFunction_correct:
  "dictGenCaseHashFunction seed buf = foldl (\<lambda>h c. h * 33 + ucast c) seed (map tolower_b buf) \<and>
   dictGenCaseHashFunction seed (map toupper_b buf) = dictGenCaseHashFunction seed buf"
proof -
  have A: "\<forall>n \<in> set [0..<256]. tolower_b (toupper_b (word_of_nat n)) = tolower_b (word_of_nat n)" by code_simp
  have "tolower_b (toupper_b c) = tolower_b c" for c
  proof -
    have "unat c \<in> set [0..<256]" using unsigned_less [of c, where ?'a = nat] by simp
    with A have "tolower_b (toupper_b (word_of_nat (unat c))) = tolower_b (word_of_nat (unat c))" by blast
    then show ?thesis by simp
  qed
  then show ?thesis by (simp add: case_hash_tolower comp_def)
qed

end
