(* ===== verification/DictScan.thy ===== *)
theory DictScan
  imports Dict
begin

text \<open>
  The stateless scan of \<open>src/src/src/dict.c\<close>: \<open>dictScan\<close> visits the buckets in the order of the
  reversed bits of the cursor, so that a table may grow between two calls. Shown: a scan returns
  every element that stays in the dictionary from its start to its end, provided the smaller
  table never shrinks meanwhile, and it ends; when the table shrinks an element can be missed.
\<close>

subsection \<open>Bit reversal\<close>

function rev64_loop :: "nat \<Rightarrow> 64 word \<Rightarrow> 64 word \<Rightarrow> 64 word" where
  "rev64_loop s msk v =
     (let s = s div 2
      in if s = 0 then v
         else let msk = msk XOR push_bit s msk
              in rev64_loop s msk ((drop_bit s v AND msk) OR (push_bit s v AND NOT msk)))"
  by pat_completeness auto
termination by (relation "measure fst") (auto simp: Let_def)

declare rev64_loop.simps [simp del]

definition rev64 :: "64 word \<Rightarrow> 64 word" where
  "rev64 v = rev64_loop 64 (NOT 0) v"

definition rev_stage :: "nat \<Rightarrow> 64 word \<Rightarrow> 64 word \<Rightarrow> 64 word" where
  "rev_stage s msk v = (drop_bit s v AND msk) OR (push_bit s v AND NOT msk)"

lemma rev64_loop_stage:
  "s \<noteq> 0 \<Longrightarrow> msk' = msk XOR push_bit s msk \<Longrightarrow>
   rev64_loop (2 * s) msk v = rev64_loop s msk' (rev_stage s msk' v)"
  by (subst rev64_loop.simps) (simp add: Let_def rev_stage_def)

lemma rev64_stages:
  "rev64 v = rev_stage 1 0x5555555555555555 (rev_stage 2 0x3333333333333333
     (rev_stage 4 0x0F0F0F0F0F0F0F0F (rev_stage 8 0x00FF00FF00FF00FF
     (rev_stage 16 0x0000FFFF0000FFFF (rev_stage 32 0x00000000FFFFFFFF v)))))"
proof -
  have "rev64 v = rev64_loop (2 * 32) (NOT 0) v" by (simp add: rev64_def)
  also have "\<dots> = rev64_loop (2 * 16) 0x00000000FFFFFFFF (rev_stage 32 0x00000000FFFFFFFF v)"
    by (subst rev64_loop_stage [where msk' = "0x00000000FFFFFFFF"]) (simp_all add: mask_eq_exp_minus_1)
  also have "\<dots> = rev64_loop (2 * 8) 0x0000FFFF0000FFFF (rev_stage 16 0x0000FFFF0000FFFF
      (rev_stage 32 0x00000000FFFFFFFF v))" (is "_ = rev64_loop _ _ ?a")
    by (subst rev64_loop_stage [where msk' = "0x0000FFFF0000FFFF"]) simp_all
  also have "\<dots> = rev64_loop (2 * 4) 0x00FF00FF00FF00FF (rev_stage 8 0x00FF00FF00FF00FF ?a)"
    (is "_ = rev64_loop _ _ ?b")
    by (subst rev64_loop_stage [where msk' = "0x00FF00FF00FF00FF"]) simp_all
  also have "\<dots> = rev64_loop (2 * 2) 0x0F0F0F0F0F0F0F0F (rev_stage 4 0x0F0F0F0F0F0F0F0F ?b)"
    (is "_ = rev64_loop _ _ ?c")
    by (subst rev64_loop_stage [where msk' = "0x0F0F0F0F0F0F0F0F"]) simp_all
  also have "\<dots> = rev64_loop (2 * 1) 0x3333333333333333 (rev_stage 2 0x3333333333333333 ?c)"
    (is "_ = rev64_loop _ _ ?d")
    by (subst rev64_loop_stage [where msk' = "0x3333333333333333"]) simp_all
  also have "\<dots> = rev64_loop 1 0x5555555555555555 (rev_stage 1 0x5555555555555555 ?d)"
    by (subst rev64_loop_stage [where msk' = "0x5555555555555555"]) simp_all
  also have "\<dots> = rev_stage 1 0x5555555555555555 ?d" by (subst rev64_loop.simps) simp
  finally show ?thesis .
qed

text \<open>A stage exchanges neighbouring groups of \<open>s\<close> bits: the mask has the even groups.\<close>

lemma bit_rev_stage:
  assumes "\<And>i. i < 64 \<Longrightarrow> bit msk i = even (i div s)" "i < 64" "0 < s"
  shows "bit (rev_stage s msk v) i = bit v (if even (i div s) then i + s else i - s)"
proof -
  have "s \<le> i" if "odd (i div s)" using that by (rule contrapos_np) (simp add: div_less)
  with assms show ?thesis by (auto simp: rev_stage_def bit_simps add.commute)
qed

lemma bits_64: "(\<And>i. i \<in> set [0..<64] \<Longrightarrow> P i) \<Longrightarrow> i < 64 \<Longrightarrow> P (i::nat)"
  by simp

lemma rev_masks:
  "i < 64 \<Longrightarrow> bit (0x5555555555555555 :: 64 word) i = even (i div 1)"
  "i < 64 \<Longrightarrow> bit (0x3333333333333333 :: 64 word) i = even (i div 2)"
  "i < 64 \<Longrightarrow> bit (0x0F0F0F0F0F0F0F0F :: 64 word) i = even (i div 4)"
  "i < 64 \<Longrightarrow> bit (0x00FF00FF00FF00FF :: 64 word) i = even (i div 8)"
  "i < 64 \<Longrightarrow> bit (0x0000FFFF0000FFFF :: 64 word) i = even (i div 16)"
  "i < 64 \<Longrightarrow> bit (0x00000000FFFFFFFF :: 64 word) i = even (i div 32)"
  by (rule bits_64 [of _ i]; auto simp: upt_rec)+

definition stage_idx :: "nat \<Rightarrow> nat \<Rightarrow> nat" where
  "stage_idx s i = (if even (i div s) then i + s else i - s)"

lemma stage_idx_all:
  "i < 64 \<Longrightarrow> stage_idx 32 (stage_idx 16 (stage_idx 8 (stage_idx 4 (stage_idx 2 (stage_idx 1 i))))) = 63 - i"
proof (rule bits_64 [of _ i])
  fix i :: nat
  assume "i \<in> set [0..<64]"
  then show "stage_idx 32 (stage_idx 16 (stage_idx 8 (stage_idx 4 (stage_idx 2 (stage_idx 1 i))))) = 63 - i"
    by (simp add: upt_rec; elim disjE; simp add: stage_idx_def)
qed

lemma stage_idx_less: "s \<in> {32, 16, 8, 4, 2, 1} \<Longrightarrow> i < 64 \<Longrightarrow> stage_idx s i < 64"
proof (rule bits_64 [of _ i])
  fix i :: nat
  assume "s \<in> {32, 16, 8, 4, 2, 1}" "i \<in> set [0..<64]"
  then show "stage_idx s i < 64"
    by (simp add: upt_rec; elim disjE; simp add: stage_idx_def)
qed

lemma bit_stages:
  "i < 64 \<Longrightarrow> bit (rev_stage 1 0x5555555555555555 v) i = bit v (stage_idx 1 i)"
  "i < 64 \<Longrightarrow> bit (rev_stage 2 0x3333333333333333 v) i = bit v (stage_idx 2 i)"
  "i < 64 \<Longrightarrow> bit (rev_stage 4 0x0F0F0F0F0F0F0F0F v) i = bit v (stage_idx 4 i)"
  "i < 64 \<Longrightarrow> bit (rev_stage 8 0x00FF00FF00FF00FF v) i = bit v (stage_idx 8 i)"
  "i < 64 \<Longrightarrow> bit (rev_stage 16 0x0000FFFF0000FFFF v) i = bit v (stage_idx 16 i)"
  "i < 64 \<Longrightarrow> bit (rev_stage 32 0x00000000FFFFFFFF v) i = bit v (stage_idx 32 i)"
  by (rule bit_rev_stage [folded stage_idx_def, OF rev_masks(1)]
      bit_rev_stage [folded stage_idx_def, OF rev_masks(2)]
      bit_rev_stage [folded stage_idx_def, OF rev_masks(3)]
      bit_rev_stage [folded stage_idx_def, OF rev_masks(4)]
      bit_rev_stage [folded stage_idx_def, OF rev_masks(5)]
      bit_rev_stage [folded stage_idx_def, OF rev_masks(6)]; simp)+

lemma bit_rev64:
  assumes "i < 64"
  shows "bit (rev64 v) i \<longleftrightarrow> bit v (63 - i)"
proof -
  have "bit (rev64 v) i = bit v (stage_idx 32 (stage_idx 16 (stage_idx 8 (stage_idx 4 (stage_idx 2 (stage_idx 1 i))))))"
    unfolding rev64_stages
    by (simp only: bit_stages stage_idx_less assms insert_iff simp_thms)
  moreover have "stage_idx 32 (stage_idx 16 (stage_idx 8 (stage_idx 4 (stage_idx 2 (stage_idx 1 i))))) = 63 - i"
    by (rule stage_idx_all [OF assms])
  ultimately show ?thesis by simp
qed

lemma rev64_rev64 [simp]: "rev64 (rev64 v) = v"
  by (rule bit_word_eqI) (simp add: bit_rev64)

subsection \<open>The scan\<close>

definition sizemask :: "('k, 'v) dictht \<Rightarrow> 64 word" where
  "sizemask ht = word_of_nat (ht_size ht - 1)"

text \<open>The increment of the reversed cursor.\<close>

definition scan_next :: "64 word \<Rightarrow> 64 word \<Rightarrow> 64 word" where
  "scan_next m0 v =
     (let v = v OR NOT m0;
          v = rev64 v;
          v = v + 1
      in rev64 v)"

text \<open>The loop over the expansions of the cursor in the larger table.\<close>

definition expand_step :: "64 word \<Rightarrow> 64 word \<Rightarrow> 64 word" where
  "expand_step m0 v = (((v OR m0) + 1) AND NOT m0) OR (v AND m0)"

partial_function (option) expand_loop ::
    "64 word \<Rightarrow> 64 word \<Rightarrow> ('k \<times> 'v) list list \<Rightarrow> 64 word \<Rightarrow> (('k \<times> 'v) list \<times> 64 word) option" where
  "expand_loop m0 m1 tab v =
     (let out = tab ! unat (v AND m1);
          v = expand_step m0 v
      in if v AND (m0 XOR m1) \<noteq> 0
         then Option.bind (expand_loop m0 m1 tab v) (\<lambda>(outs, v). Some (out @ outs, v))
         else Some (out, v))"

text \<open>The entries passed to the callback, and the next cursor.\<close>

definition dictScan :: "('k, 'v) dict \<Rightarrow> 64 word \<Rightarrow> (('k \<times> 'v) list \<times> 64 word) option" where
  "dictScan d v =
     (if dictSize d = 0 then Some ([], 0)
      else if \<not> dictIsRehashing d then
        let t0 = ht0 d;
            m0 = sizemask t0
        in Some (ht_table t0 ! unat (v AND m0), scan_next m0 v)
      else
        let (t0, t1) = (if ht_size (ht0 d) > ht_size (ht1 d) then (ht1 d, ht0 d) else (ht0 d, ht1 d));
            m0 = sizemask t0;
            m1 = sizemask t1;
            out = ht_table t0 ! unat (v AND m0)
        in case expand_loop m0 m1 (ht_table t1) v of
             None \<Rightarrow> None
           | Some (outs, v) \<Rightarrow> Some (out @ outs, scan_next m0 v))"

subsection \<open>The order of the cursors\<close>

definition rkey :: "64 word \<Rightarrow> nat" where
  "rkey v = unat (rev64 v)"

lemma rkey_less: "rkey v < 2 ^ 64"
  using unsigned_less [of "rev64 v", where ?'a = nat] by (simp add: rkey_def)

lemma rkey_0 [simp]: "rkey v = 0 \<longleftrightarrow> v = 0"
proof -
  have "rev64 0 = 0" by (rule bit_word_eqI) (simp add: bit_rev64)
  then show ?thesis by (metis rev64_rev64 rkey_def unat_eq_zero unsigned_0)
qed

lemma rkey_zero [simp]: "rkey 0 = 0"
  by (simp only: rkey_0)

text \<open>Two hashes share a bucket exactly when they share an interval of reversed values.\<close>

lemma same_bucket:
  assumes "n \<le> 64"
  shows "take_bit n h = take_bit n v \<longleftrightarrow> rkey h div 2 ^ (64 - n) = rkey v div 2 ^ (64 - n)"
proof -
  have "rkey h div 2 ^ (64 - n) = rkey v div 2 ^ (64 - n) \<longleftrightarrow>
    drop_bit (64 - n) (rev64 h) = drop_bit (64 - n) (rev64 v)"
    unfolding rkey_def word_unat_eq_iff unat_drop_bit_eq drop_bit_eq_div [where 'a = nat] ..
  also have "\<dots> \<longleftrightarrow> take_bit n h = take_bit n v"
  proof
    assume e: "drop_bit (64 - n) (rev64 h) = drop_bit (64 - n) (rev64 v)"
    show "take_bit n h = take_bit n v"
    proof (rule bit_word_eqI)
      fix i assume i: "i < LENGTH(64)"
      have "bit (drop_bit (64 - n) (rev64 h)) (n - 1 - i) = bit (drop_bit (64 - n) (rev64 v)) (n - 1 - i)"
        by (simp only: e)
      then show "bit (take_bit n h) i = bit (take_bit n v) i"
        using i assms by (cases "i < n") (auto simp: bit_simps bit_rev64)
    qed
  next
    assume e: "take_bit n h = take_bit n v"
    show "drop_bit (64 - n) (rev64 h) = drop_bit (64 - n) (rev64 v)"
    proof (rule bit_word_eqI)
      fix i assume i: "i < LENGTH(64)"
      have "bit (take_bit n h) (63 - (64 - n + i)) = bit (take_bit n v) (63 - (64 - n + i))"
        by (simp only: e)
      then show "bit (drop_bit (64 - n) (rev64 h)) i = bit (drop_bit (64 - n) (rev64 v)) i"
        using i assms by (cases "i < n") (auto simp: bit_simps bit_rev64 dest: bit_imp_le_length)
    qed
  qed
  finally show ?thesis by simp
qed

lemma nat_or_mask: "(x :: nat) OR mask k = x div 2 ^ k * 2 ^ k + (2 ^ k - 1)"
proof -
  have "x OR mask k = push_bit k (drop_bit k (x OR mask k)) + take_bit k (x OR mask k)"
    by (simp only: bits_ident)
  moreover have "drop_bit k (x OR mask k) = drop_bit k x" by (rule bit_eqI) (auto simp: bit_simps)
  moreover have "take_bit k (x OR mask k) = mask k" by (rule bit_eqI) (auto simp: bit_simps)
  ultimately show ?thesis by (simp add: push_bit_eq_mult drop_bit_eq_div mask_eq_exp_minus_1)
qed

lemma unat_or_mask_Suc:
  assumes "k \<le> 64"
  shows "unat ((x OR mask k) + 1 :: 64 word) = (unat x div 2 ^ k + 1) * 2 ^ k mod 2 ^ 64"
proof -
  have "unat (x OR mask k) = unat x OR mask k"
    by (rule bit_eqI) (use assms in \<open>auto simp: bit_simps\<close>)
  then have "unat ((x OR mask k) + 1) = (unat x div 2 ^ k * 2 ^ k + (2 ^ k - 1) + 1) mod 2 ^ 64"
    by (simp add: unat_word_ariths nat_or_mask mod_Suc_eq)
  also have "unat x div 2 ^ k * 2 ^ k + (2 ^ k - 1) + 1 = (unat x div 2 ^ k + 1) * 2 ^ k"
    by simp
  finally show ?thesis .
qed

lemma scan_next_mask:
  assumes "n \<le> 64"
  shows "scan_next (mask n) v = rev64 ((rev64 v OR mask (64 - n)) + 1)"
proof -
  have "rev64 (v OR NOT (mask n)) = rev64 v OR mask (64 - n)"
    using assms by (intro bit_word_eqI) (auto simp: bit_simps bit_rev64)
  then show ?thesis by (simp add: scan_next_def Let_def)
qed

lemma rkey_scan_next:
  assumes "n \<le> 64"
  shows "rkey (scan_next (mask n) v) = (rkey v div 2 ^ (64 - n) + 1) * 2 ^ (64 - n) mod 2 ^ 64"
  using assms by (simp add: rkey_def scan_next_mask unat_or_mask_Suc)

subsection \<open>The expansions\<close>

lemma unat_take_bit_mod: "unat (take_bit n w) = unat w mod 2 ^ n"
  by (simp only: unsigned_take_bit_eq take_bit_eq_mod [where 'a = nat])

lemma unat_drop_bit_div: "unat (drop_bit n w) = unat w div 2 ^ n"
  by (simp only: unat_drop_bit_eq drop_bit_eq_div [where 'a = nat])

text \<open>The bits of the cursor above the smaller mask.\<close>

definition upper :: "nat \<Rightarrow> 64 word \<Rightarrow> nat" where
  "upper a v = unat v div 2 ^ a"

lemma expand_step_upper:
  assumes "a < 64"
  shows "upper a (expand_step (mask a) v) = (upper a v + 1) mod 2 ^ (64 - a)"
    and "take_bit a (expand_step (mask a) v) = take_bit a v"
proof -
  let ?w = "(v OR mask a) + 1 :: 64 word" and ?x = "upper a v + 1"
  have w: "unat ?w = ?x * 2 ^ a mod 2 ^ 64" using assms by (simp add: unat_or_mask_Suc upper_def)
  have "(2::nat) ^ 64 = 2 ^ a * 2 ^ (64 - a)" using assms by (simp flip: power_add)
  then have w': "unat ?w = 2 ^ a * (?x mod 2 ^ (64 - a))" by (simp only: w mult.commute [of ?x] mult_mod_right)
  have "take_bit a ?w = 0"
  proof -
    have "unat (take_bit a ?w) = 0" by (simp only: unat_take_bit_mod w') simp
    then show ?thesis by (simp add: unat_eq_zero)
  qed
  then have lo: "\<not> bit ?w i" if "i < a" for i using that by (metis bit_0_eq bit_take_bit_iff bot_apply bot_bool_def)
  show "take_bit a (expand_step (mask a) v) = take_bit a v"
    unfolding expand_step_def using lo by (intro bit_word_eqI) (auto simp: bit_simps)
  have "drop_bit a (expand_step (mask a) v) = drop_bit a ?w"
    unfolding expand_step_def by (intro bit_word_eqI) (auto simp: bit_simps dest: bit_imp_le_length)
  then have "unat (expand_step (mask a) v) div 2 ^ a = unat ?w div 2 ^ a"
    unfolding word_unat_eq_iff unat_drop_bit_div .
  then show "upper a (expand_step (mask a) v) = ?x mod 2 ^ (64 - a)"
    unfolding w' by (simp add: upper_def)
qed

text \<open>The next cursor depends on the bits below the smaller mask only.\<close>

lemma scan_next_low:
  assumes "take_bit a v' = take_bit a v"
  shows "scan_next (mask a) v' = scan_next (mask a) v"
proof -
  have "v' OR NOT (mask a) = v OR NOT (mask a)"
  proof (rule bit_word_eqI)
    fix i
    have "bit (take_bit a v') i = bit (take_bit a v) i" by (simp only: assms)
    then show "bit (v' OR NOT (mask a)) i = bit (v OR NOT (mask a)) i"
      by (auto simp: bit_simps dest: bit_imp_le_length)
  qed
  then show ?thesis by (simp add: scan_next_def)
qed

lemma expand_test:
  assumes "a \<le> b" "b < 64"
  shows "v AND (mask a XOR mask b) = 0 \<longleftrightarrow> upper a v mod 2 ^ (b - a) = 0"
proof -
  have "v AND (mask a XOR mask b) = 0 \<longleftrightarrow> take_bit (b - a) (drop_bit a v) = 0"
  proof
    assume z: "v AND (mask a XOR mask b) = 0"
    show "take_bit (b - a) (drop_bit a v) = 0"
    proof (rule bit_word_eqI)
      fix i assume i: "i < LENGTH(64)"
      have "bit (v AND (mask a XOR mask b)) (a + i) = bit (0 :: 64 word) (a + i)" by (simp only: z)
      with assms i show "bit (take_bit (b - a) (drop_bit a v)) i = bit (0 :: 64 word) i"
        by (auto simp: bit_simps dest: bit_imp_le_length)
    qed
  next
    assume z: "take_bit (b - a) (drop_bit a v) = 0"
    show "v AND (mask a XOR mask b) = 0"
    proof (rule bit_word_eqI)
      fix i assume i: "i < LENGTH(64)"
      have "bit (take_bit (b - a) (drop_bit a v)) (i - a) = bit (0 :: 64 word) (i - a)" by (simp only: z)
      with assms i show "bit (v AND (mask a XOR mask b)) i = bit (0 :: 64 word) i"
        by (cases "i < a") (auto simp: bit_simps)
    qed
  qed
  also have "\<dots> \<longleftrightarrow> unat (take_bit (b - a) (drop_bit a v)) = 0" by (simp add: unat_eq_zero)
  also have "unat (take_bit (b - a) (drop_bit a v)) = upper a v mod 2 ^ (b - a)"
    unfolding upper_def unat_take_bit_mod unat_drop_bit_div ..
  finally show ?thesis .
qed

lemma expand_index:
  assumes "a \<le> b"
  shows "unat (v AND mask b) = unat v mod 2 ^ a + 2 ^ a * (upper a v mod 2 ^ (b - a))"
proof -
  have "unat (v AND mask b) = unat v mod (2 ^ a * 2 ^ (b - a))"
    unfolding take_bit_eq_mask [symmetric] unat_take_bit_mod using assms by (simp flip: power_add)
  then show ?thesis by (simp add: mod_mult2_eq upper_def)
qed

lemma expand_loop_ok:
  assumes "a \<le> b" "b < 64"
  shows "\<exists>v'. expand_loop (mask a) (mask b) tab v =
      Some (concat (map (\<lambda>g. tab ! (unat v mod 2 ^ a + 2 ^ a * g)) [upper a v mod 2 ^ (b - a)..<2 ^ (b - a)]), v') \<and>
      take_bit a v' = take_bit a v"
proof (induction "2 ^ (b - a) - upper a v mod 2 ^ (b - a)" arbitrary: v rule: less_induct)
  case less
  let ?n = "2 ^ (b - a) :: nat" and ?v = "expand_step (mask a) v" and ?f = "upper a v mod 2 ^ (b - a)"
  let ?e = "\<lambda>v g. tab ! (unat v mod 2 ^ a + 2 ^ a * g)"
  have "a < 64" using assms by simp
  note st = expand_step_upper [OF this, of v]
  have "?n dvd 2 ^ (64 - a)" using assms by (simp add: le_imp_power_dvd)
  then have f': "upper a ?v mod ?n = (?f + 1) mod ?n" by (simp add: st mod_mod_cancel mod_simps)
  have lo: "unat ?v mod 2 ^ a = unat v mod 2 ^ a"
    using st(2) unfolding word_unat_eq_iff unat_take_bit_mod .
  have fl: "?f < ?n" by simp
  show ?case
  proof (cases "?f + 1 = ?n")
    case True
    then have "upper a ?v mod ?n = 0" by (simp add: f')
    then have "?v AND (mask a XOR mask b) = 0" by (rule iffD2 [OF expand_test [OF assms]])
    then have "expand_loop (mask a) (mask b) tab v = Some (tab ! unat (v AND mask b), ?v)"
      by (subst expand_loop.simps) (simp add: Let_def)
    moreover have "[?f..<?n] = [?f]" using True fl by (metis Suc_eq_plus1 upt_conv_Cons upt_conv_Nil order_refl)
    ultimately show ?thesis using st(2) expand_index [OF assms(1), of v] by simp
  next
    case False
    then have n: "upper a ?v mod ?n = ?f + 1" using f' fl by simp
    then have "upper a ?v mod ?n \<noteq> 0" by simp
    then have "?v AND (mask a XOR mask b) \<noteq> 0" by (simp only: expand_test [OF assms] not_False_eq_True)
    then have l: "expand_loop (mask a) (mask b) tab v =
      Option.bind (expand_loop (mask a) (mask b) tab ?v) (\<lambda>(outs, v'). Some (tab ! unat (v AND mask b) @ outs, v'))"
      by (subst expand_loop.simps) (simp add: Let_def)
    have "?n - upper a ?v mod ?n < ?n - ?f" using n fl by linarith
    from less.hyps [OF this] obtain v' where
      "expand_loop (mask a) (mask b) tab ?v = Some (concat (map (?e v) [?f + 1..<?n]), v')"
      "take_bit a v' = take_bit a v"
      using n lo st(2) by auto
    moreover have "[?f..<?n] = ?f # [?f + 1..<?n]" using fl by (simp add: upt_conv_Cons)
    ultimately show ?thesis using l expand_index [OF assms(1), of v] by simp
  qed
qed

subsection \<open>One call\<close>

definition khash :: "'k dict_env \<Rightarrow> 'k \<Rightarrow> 64 word" where
  "khash env k = word_of_nat (hash_of env k)"

text \<open>The number of buckets the cursor runs over: that of the smaller table.\<close>

definition scan_size :: "('k, 'v) dict \<Rightarrow> nat" where
  "scan_size d = (if dictIsRehashing d then min (ht_size (ht0 d)) (ht_size (ht1 d)) else ht_size (ht0 d))"

definition scannable :: "'k dict_env \<Rightarrow> ('k, 'v) dict \<Rightarrow> bool" where
  "scannable env d \<longleftrightarrow> dict_ok env d \<and> ht_size (ht0 d) < 2 ^ 64 \<and> ht_size (ht1 d) < 2 ^ 64"

lemma ht_bucket_of:
  assumes "ht_ok env ht" "0 < ht_size ht" "ht_size ht < 2 ^ 64"
  obtains n where "n < 64" "ht_size ht = 2 ^ n" "sizemask ht = mask n"
    "\<And>k v. ht_map ht k = Some v \<Longrightarrow> (k, v) \<in> set (ht_table ht ! unat (khash env k AND mask n))"
    "\<And>i e. i < ht_size ht \<Longrightarrow> e \<in> set (ht_table ht ! i) \<Longrightarrow> ht_map ht (fst e) = Some (snd e)"
proof -
  from assms obtain n where n: "ht_size ht = 2 ^ n" by (auto simp: ht_ok_def)
  have n64: "n < 64"
  proof (rule ccontr)
    assume "\<not> n < 64"
    then have "(2::nat) ^ 64 \<le> 2 ^ n" by (intro power_increasing) auto
    with assms(3) n show False by simp
  qed
  have m: "sizemask ht = mask n" by (simp add: sizemask_def n mask_eq_exp_minus_1)
  have h: "unat (khash env k AND mask n) = hidx env ht k" for k
  proof -
    have "unat (khash env k AND mask n) = hash_of env k mod 2 ^ 64 mod 2 ^ n"
      unfolding take_bit_eq_mask [symmetric] unat_take_bit_mod khash_def
      by (simp add: unat_of_nat)
    also have "\<dots> = hash_of env k mod 2 ^ n" 
      by (rule mod_mod_cancel, rule le_imp_power_dvd) (use n64 in simp)
    also have "\<dots> = hidx env ht k"
      unfolding hidx_def n mask_eq_exp_minus_1 [symmetric] take_bit_eq_mask [symmetric] take_bit_eq_mod ..
    finally show ?thesis .
  qed
  have e: "(k, v) \<in> set (ht_table ht ! unat (khash env k AND mask n))" if "ht_map ht k = Some v" for k v
    using that ht_map_bucket [OF assms(1,2), of k] by (simp add: h map_of_SomeD)
  have s: "ht_map ht (fst e) = Some (snd e)" if "i < ht_size ht" "e \<in> set (ht_table ht ! i)" for i e
  proof -
    have "distinct (map fst (ht_table ht ! i))" "hidx env ht (fst e) = i"
      using assms(1) that by (auto simp: ht_ok_def)
    then show ?thesis using that(2) ht_map_bucket [OF assms(1,2), of "fst e"]
      by (simp add: map_of_is_SomeI)
  qed
  show thesis by (rule that [OF n64 n m e s])
qed

lemma rkey_next_cases:
  assumes "n < 64" "v' = scan_next (mask n) v"
  shows "rkey v \<le> rkey h \<Longrightarrow> v' = 0 \<or> rkey h < rkey v' \<Longrightarrow> take_bit n h = take_bit n v"
    and "v' \<noteq> 0 \<Longrightarrow> rkey v < rkey v' \<and> unat v' < 2 ^ n"
    and "rkey v' = (rkey v div 2 ^ (64 - n) + 1) * 2 ^ (64 - n) mod 2 ^ 64"
proof -
  let ?P = "2 ^ (64 - n) :: nat" and ?q = "rkey v div 2 ^ (64 - n)"
  show r: "rkey v' = (?q + 1) * ?P mod 2 ^ 64" using assms by (simp add: rkey_scan_next)
  have p64: "(2::nat) ^ 64 = 2 ^ n * ?P" using assms(1) by (simp flip: power_add)
  have q: "?q < 2 ^ n"
    using rkey_less [of v] unfolding p64 by (simp add: less_mult_imp_div_less)
  have c: "v' = 0 \<or> rkey v' = (?q + 1) * ?P"
  proof (cases "?q + 1 = 2 ^ n")
    case True
    then have "rkey v' = 0" unfolding r p64 True by simp
    then show ?thesis by simp
  next
    case False
    with q have "?q + 1 < 2 ^ n" by simp
    then have "(?q + 1) * ?P < 2 ^ 64" unfolding p64 by (rule mult_strict_right_mono) simp
    then show ?thesis by (simp add: r)
  qed
  have vq: "rkey v < (?q + 1) * ?P" 
  proof -
    have "rkey v = ?q * ?P + rkey v mod ?P" by (simp only: div_mult_mod_eq)
    also have "\<dots> < ?q * ?P + ?P" by (intro add_strict_left_mono mod_less_divisor) simp
    finally show ?thesis by simp
  qed
  show "take_bit n h = take_bit n v" if a: "rkey v \<le> rkey h" "v' = 0 \<or> rkey h < rkey v'"
  proof -
    have "rkey h < (?q + 1) * ?P"
    proof (cases "v' = 0")
      case True
      have "?q + 1 = 2 ^ n"
      proof (rule ccontr)
        assume "?q + 1 \<noteq> 2 ^ n"
        with q have "?q + 1 < 2 ^ n" by simp
        then have "(?q + 1) * ?P < 2 ^ 64" unfolding p64 by (rule mult_strict_right_mono) simp
        with r True show False by simp
      qed
      then show ?thesis using rkey_less [of h] by (simp only: p64)
    qed (use a c in auto)
    then have "rkey h div ?P < ?q + 1" by (simp add: less_mult_imp_div_less)
    moreover have "?q \<le> rkey h div ?P" using a(1) by (rule div_le_mono)
    ultimately have "rkey h div ?P = ?q" by simp
    then show ?thesis using same_bucket [of n h v] assms(1) by simp
  qed
  show "rkey v < rkey v' \<and> unat v' < 2 ^ n" if "v' \<noteq> 0"
  proof
    show "rkey v < rkey v'" using c vq that by simp
    have "rkey v' mod ?P = 0" using c that by auto
    then have "take_bit (64 - n) (rev64 v') = 0"
      unfolding rkey_def by (simp only: word_unat_eq_iff unat_take_bit_mod unsigned_0)
    then have z: "\<not> bit (rev64 v') i" if "i < 64 - n" for i
      using that by (metis bit_0_eq bit_take_bit_iff bot_apply bot_bool_def)
    have "\<not> bit v' i" if "n \<le> i" "i < 64" for i
      using z [of "63 - i"] that bit_rev64 [of "63 - i" v'] assms(1) by simp
    then have "take_bit n v' = v'" by (intro bit_word_eqI) (auto simp: bit_simps not_le [symmetric])
    then have "unat v' mod 2 ^ n = unat v'" by (metis unat_take_bit_mod)
    then show "unat v' < 2 ^ n" by (metis mod_less_divisor zero_less_numeral zero_less_power)
  qed
qed

lemma dictScan_step:
  assumes "scannable env d" "v = 0 \<or> unat v < scan_size d"
  obtains out v' where "dictScan d v = Some (out, v')"
    "\<And>k x. dict_map d k = Some x \<Longrightarrow> rkey v \<le> rkey (khash env k) \<Longrightarrow>
       v' = 0 \<or> rkey (khash env k) < rkey v' \<Longrightarrow> (k, x) \<in> set out"
    "\<And>k x. (k, x) \<in> set out \<Longrightarrow> dict_map d k = Some x"
    "v' \<noteq> 0 \<Longrightarrow> rkey v < rkey v' \<and> unat v' < scan_size d"
    "dictSize d \<noteq> 0 \<Longrightarrow> \<exists>n. scan_size d = 2 ^ n \<and> n < 64 \<and> v' = scan_next (mask n) v"
proof (cases "dictSize d = 0")
  case True
  with assms(1) dictSize_card [of env d] have "dict_map d = Map.empty" by (simp add: scannable_def)
  with True show thesis by (intro that [of "[]" 0]) (simp_all add: dictScan_def)
next
  case ne: False
  have ok: "dict_ok env d" "ht_ok env (ht0 d)" "ht_ok env (ht1 d)" "ht_size (ht0 d) < 2 ^ 64" "ht_size (ht1 d) < 2 ^ 64"
      "dom (ht_map (ht0 d)) \<inter> dom (ht_map (ht1 d)) = {}"
    using assms(1) by (simp_all add: scannable_def dict_ok_def)
  show thesis
  proof (cases "dictIsRehashing d")
    case False
    have z: "ht1 d = dictReset" using ok(1) False by (simp add: dict_ok_def)
    have "ht_used (ht0 d) \<noteq> 0" using ne z by (simp add: dictSize_def dictReset_def)
    then have p: "0 < ht_size (ht0 d)" using ok(2) by (auto simp: ht_ok_def)
    obtain n where n: "n < 64" "ht_size (ht0 d) = 2 ^ n" "sizemask (ht0 d) = mask n"
      "\<And>k v. ht_map (ht0 d) k = Some v \<Longrightarrow> (k, v) \<in> set (ht_table (ht0 d) ! unat (khash env k AND mask n))"
      "\<And>i e. i < ht_size (ht0 d) \<Longrightarrow> e \<in> set (ht_table (ht0 d) ! i) \<Longrightarrow> ht_map (ht0 d) (fst e) = Some (snd e)"
      by (rule ht_bucket_of [OF ok(2) p ok(4)]) blast
    have m: "dict_map d = ht_map (ht0 d)" by (simp add: dict_map_def z)
    let ?v = "scan_next (mask n) v" and ?b = "ht_table (ht0 d) ! unat (v AND mask n)"
    have i: "unat (v AND mask n) < ht_size (ht0 d)"
      unfolding take_bit_eq_mask [symmetric] unat_take_bit_mod n(2) by simp
    show thesis
    proof (rule that [of ?b ?v])
      show "dictScan d v = Some (?b, ?v)" using ne False by (simp add: dictScan_def Let_def n(3))
      show "(k, x) \<in> set ?b" if "dict_map d k = Some x" "rkey v \<le> rkey (khash env k)"
          "?v = 0 \<or> rkey (khash env k) < rkey ?v" for k x
        using rkey_next_cases(1) [OF n(1) refl that(2,3)] n(4) [of k x] that(1)
        by (simp add: m flip: take_bit_eq_mask)
      show "dict_map d k = Some x" if "(k, x) \<in> set ?b" for k x
        using n(5) [OF i that] by (simp add: m)
      show "rkey v < rkey ?v \<and> unat ?v < scan_size d" if "?v \<noteq> 0"
        using rkey_next_cases(2) [OF n(1) refl that] by (simp add: scan_size_def False n(2))
      show "\<exists>j. scan_size d = 2 ^ j \<and> j < 64 \<and> ?v = scan_next (mask j) v"
        using n(1,2) False by (auto simp: scan_size_def)
    qed
  next
    case True
    let ?big = "ht_size (ht0 d) > ht_size (ht1 d)"
    define t0 where "t0 = (if ?big then ht1 d else ht0 d)"
    define t1 where "t1 = (if ?big then ht0 d else ht1 d)"
    have t: "ht_ok env t0" "ht_ok env t1" "0 < ht_size t0" "0 < ht_size t1" "ht_size t0 < 2 ^ 64" "ht_size t1 < 2 ^ 64"
        "ht_size t0 \<le> ht_size t1" "scan_size d = ht_size t0"
      using ok True by (auto simp: t0_def t1_def dict_ok_def scan_size_def)
    have m: "dict_map d k = Some x \<longleftrightarrow> ht_map t0 k = Some x \<or> ht_map t1 k = Some x" for k x
      using ok(6) by (auto simp: t0_def t1_def dict_map_def map_add_Some_iff)
    obtain a where a: "a < 64" "ht_size t0 = 2 ^ a" "sizemask t0 = mask a"
      "\<And>k v. ht_map t0 k = Some v \<Longrightarrow> (k, v) \<in> set (ht_table t0 ! unat (khash env k AND mask a))"
      "\<And>i e. i < ht_size t0 \<Longrightarrow> e \<in> set (ht_table t0 ! i) \<Longrightarrow> ht_map t0 (fst e) = Some (snd e)"
      by (rule ht_bucket_of [OF t(1,3,5)]) blast
    obtain b where b: "b < 64" "ht_size t1 = 2 ^ b" "sizemask t1 = mask b"
      "\<And>k v. ht_map t1 k = Some v \<Longrightarrow> (k, v) \<in> set (ht_table t1 ! unat (khash env k AND mask b))"
      "\<And>i e. i < ht_size t1 \<Longrightarrow> e \<in> set (ht_table t1 ! i) \<Longrightarrow> ht_map t1 (fst e) = Some (snd e)"
      by (rule ht_bucket_of [OF t(2,4,6)]) blast
    have ab: "a \<le> b" using t(7) unfolding a(2) b(2) by simp
    have "upper a v = 0" using assms(2) by (auto simp: upper_def t(8) a(2))
    then obtain v1 where e: "expand_loop (mask a) (mask b) (ht_table t1) v =
        Some (concat (map (\<lambda>g. ht_table t1 ! (unat v mod 2 ^ a + 2 ^ a * g)) [0..<2 ^ (b - a)]), v1)"
        "take_bit a v1 = take_bit a v"
      using expand_loop_ok [OF ab b(1), of "ht_table t1" v] by auto
    let ?v = "scan_next (mask a) v"
    have v1: "scan_next (mask a) v1 = ?v" by (rule scan_next_low [OF e(2)])
    let ?b0 = "ht_table t0 ! unat (v AND mask a)"
    let ?b1 = "concat (map (\<lambda>g. ht_table t1 ! (unat v mod 2 ^ a + 2 ^ a * g)) [0..<2 ^ (b - a)])"
    have i0: "unat (v AND mask a) < ht_size t0"
      unfolding take_bit_eq_mask [symmetric] unat_take_bit_mod a(2) by simp
    have i1: "unat v mod 2 ^ a + 2 ^ a * g < ht_size t1" if "g < 2 ^ (b - a)" for g
    proof -
      have "unat v mod 2 ^ a + 2 ^ a * g < 2 ^ a * (g + 1)" by simp
      also have "\<dots> \<le> 2 ^ a * 2 ^ (b - a)" using that by (intro mult_le_mono2) simp
      also have "\<dots> = 2 ^ b" using ab by (simp flip: power_add)
      finally show ?thesis by (simp add: b(2))
    qed
    show thesis
    proof (rule that [of "?b0 @ ?b1" ?v])
      show "dictScan d v = Some (?b0 @ ?b1, ?v)"
        using ne True e(1) a(3) b(3) v1
        by (cases ?big) (simp_all add: dictScan_def Let_def t0_def t1_def)
      show "(k, x) \<in> set (?b0 @ ?b1)" if "dict_map d k = Some x" "rkey v \<le> rkey (khash env k)"
          "?v = 0 \<or> rkey (khash env k) < rkey ?v" for k x
      proof -
        have tb: "take_bit a (khash env k) = take_bit a v" by (rule rkey_next_cases(1) [OF a(1) refl that(2,3)])
        from that(1) m consider "ht_map t0 k = Some x" | "ht_map t1 k = Some x" by blast
        then show ?thesis
        proof cases
          case 1
          then show ?thesis using a(4) [of k x] tb by (simp flip: take_bit_eq_mask)
        next
          case 2
          have "unat (khash env k) mod 2 ^ a = unat v mod 2 ^ a" using tb by (metis unat_take_bit_mod)
          then have "(k, x) \<in> set (ht_table t1 ! (unat v mod 2 ^ a + 2 ^ a * (upper a (khash env k) mod 2 ^ (b - a))))"
            using b(4) [OF 2] expand_index [OF ab, of "khash env k"] by simp
          moreover have "upper a (khash env k) mod 2 ^ (b - a) \<in> set [0..<2 ^ (b - a)]" by simp
          ultimately show ?thesis by fastforce
        qed
      qed
      show "dict_map d k = Some x" if "(k, x) \<in> set (?b0 @ ?b1)" for k x
      proof -
        from that consider "(k, x) \<in> set ?b0"
          | g where "g < 2 ^ (b - a)" "(k, x) \<in> set (ht_table t1 ! (unat v mod 2 ^ a + 2 ^ a * g))" by auto
        then show ?thesis
          by cases (use a(5) [OF i0, of "(k, x)"] b(5) [OF i1, of _ "(k, x)"] in \<open>simp_all add: m\<close>)
      qed
      show "rkey v < rkey ?v \<and> unat ?v < scan_size d" if "?v \<noteq> 0"
        using rkey_next_cases(2) [OF a(1) refl that] by (simp add: t(8) a(2))
      show "\<exists>j. scan_size d = 2 ^ j \<and> j < 64 \<and> ?v = scan_next (mask j) v"
        using a(1,2) by (auto simp: t(8))
    qed
  qed
qed

subsection \<open>Whole scans\<close>

text \<open>The dictionaries found by the successive calls; what the client gets, and the cursor.\<close>

fun scan_run :: "('k, 'v) dict list \<Rightarrow> 64 word \<Rightarrow> (('k \<times> 'v) list \<times> 64 word) option" where
  "scan_run [] v = Some ([], v)"
| "scan_run (d # ds) v =
     (case dictScan d v of
        None \<Rightarrow> None
      | Some (out, v) \<Rightarrow>
          (case scan_run ds v of None \<Rightarrow> None | Some (outs, v) \<Rightarrow> Some (out @ outs, v)))"

lemma scan_run_complete:
  assumes "\<forall>d \<in> set ds. scannable env d \<and> dict_map d k = Some x" "sorted (map scan_size ds)"
    "ds \<noteq> []" "v = 0 \<or> unat v < scan_size (hd ds)" "scan_run ds v = Some (out, 0)"
    "rkey v \<le> rkey (khash env k)"
  shows "(k, x) \<in> set out"
  using assms
proof (induction ds arbitrary: v out)
  case (Cons d ds)
  from Cons.prems(1) have d: "scannable env d" "dict_map d k = Some x" by auto
  from Cons.prems(4) have v: "v = 0 \<or> unat v < scan_size d" by simp
  obtain o1 v1 where s: "dictScan d v = Some (o1, v1)"
    "\<And>k x. dict_map d k = Some x \<Longrightarrow> rkey v \<le> rkey (khash env k) \<Longrightarrow>
       v1 = 0 \<or> rkey (khash env k) < rkey v1 \<Longrightarrow> (k, x) \<in> set o1"
    "v1 \<noteq> 0 \<Longrightarrow> rkey v < rkey v1 \<and> unat v1 < scan_size d"
    by (rule dictScan_step [OF d(1) v]) blast
  from Cons.prems(5) s(1) obtain o2 where r: "scan_run ds v1 = Some (o2, 0)" "out = o1 @ o2"
    by (auto split: option.splits)
  show ?case
  proof (cases "v1 = 0 \<or> rkey (khash env k) < rkey v1")
    case True
    with s(2) [OF d(2) Cons.prems(6)] r(2) show ?thesis by simp
  next
    case False
    then have "ds \<noteq> []" using r(1) by auto
    moreover from this Cons.prems(2) have "scan_size d \<le> scan_size (hd ds)" by (cases ds) auto
    ultimately have "(k, x) \<in> set o2"
      using Cons.IH [of v1 o2] Cons.prems(1,2) False s(3) r(1) by fastforce
    then show ?thesis by (simp add: r(2))
  qed
qed simp

lemma scan_run_sound:
  "\<forall>d \<in> set ds. scannable env d \<Longrightarrow> sorted (map scan_size ds) \<Longrightarrow>
   ds \<noteq> [] \<longrightarrow> v = 0 \<or> unat v < scan_size (hd ds) \<Longrightarrow>
   \<exists>out v'. scan_run ds v = Some (out, v') \<and> (\<forall>(k, x) \<in> set out. \<exists>d \<in> set ds. dict_map d k = Some x)"
proof (induction ds arbitrary: v)
  case (Cons d ds)
  obtain o1 v1 where s: "dictScan d v = Some (o1, v1)"
    "\<And>k x. (k, x) \<in> set o1 \<Longrightarrow> dict_map d k = Some x"
    "v1 \<noteq> 0 \<Longrightarrow> rkey v < rkey v1 \<and> unat v1 < scan_size d"
    by (rule dictScan_step [of env d v]) (use Cons.prems in auto)
  have "ds \<noteq> [] \<longrightarrow> v1 = 0 \<or> unat v1 < scan_size (hd ds)"
    using s(3) Cons.prems(2) by (cases ds) force+
  with Cons.IH [of v1] Cons.prems obtain o2 v2 where r: "scan_run ds v1 = Some (o2, v2)"
    "\<forall>(k, x) \<in> set o2. \<exists>d \<in> set ds. dict_map d k = Some x" by auto
  then have "scan_run (d # ds) v = Some (o1 @ o2, v2)" by (simp add: s(1))
  with r(2) s(2) show ?case by fastforce
qed simp

text \<open>
  C3. The guarantee of \<open>dictScan\<close>: when a scan starts with cursor 0 and goes on until the
  cursor is 0 again, every element that was in the dictionary at each of the calls has been
  returned, although the dictionary was updated, rehashed and grown between the calls, as long
  as the smaller table never shrank; and whatever was returned was in the dictionary at one call.
\<close>

theorem dictScan_complete:
  assumes "\<forall>d \<in> set ds. scannable env d" "sorted (map scan_size ds)" "ds \<noteq> []"
    "scan_run ds 0 = Some (out, 0)"
  shows "((\<forall>d \<in> set ds. dict_map d k = Some x) \<longrightarrow> (k, x) \<in> set out) \<and>
    ((k, x) \<in> set out \<longrightarrow> (\<exists>d \<in> set ds. dict_map d k = Some x))"
proof (intro conjI impI)
  show "(k, x) \<in> set out" if "\<forall>d \<in> set ds. dict_map d k = Some x"
    using scan_run_complete [of ds env k x 0 out] assms that by simp
  show "\<exists>d \<in> set ds. dict_map d k = Some x" if "(k, x) \<in> set out"
    using scan_run_sound [of ds env 0] assms that by auto
qed

text \<open>On a dictionary that does not change the cursor counts the buckets.\<close>

lemma scan_run_count:
  assumes "scannable env d" "dictSize d \<noteq> 0" "scan_size d = 2 ^ n" "n < 64"
  shows "j + m \<le> 2 ^ n \<Longrightarrow> v = 0 \<or> unat v < scan_size d \<Longrightarrow> rkey v = j * 2 ^ (64 - n) mod 2 ^ 64 \<Longrightarrow>
    \<exists>out v'. scan_run (replicate m d) v = Some (out, v') \<and> rkey v' = (j + m) * 2 ^ (64 - n) mod 2 ^ 64"
proof (induction m arbitrary: j v)
  case (Suc m)
  obtain o1 v1 where s: "dictScan d v = Some (o1, v1)"
    "v1 \<noteq> 0 \<Longrightarrow> rkey v < rkey v1 \<and> unat v1 < scan_size d"
    "\<exists>n. scan_size d = 2 ^ n \<and> n < 64 \<and> v1 = scan_next (mask n) v"
    by (rule dictScan_step [OF assms(1) Suc.prems(2)]) (use assms(2) in auto)
  have "v1 = scan_next (mask n) v" using s(3) assms(3) by auto
  then have r: "rkey v1 = (rkey v div 2 ^ (64 - n) + 1) * 2 ^ (64 - n) mod 2 ^ 64"
    using rkey_scan_next [of n v] assms(4) by simp
  have p64: "(2::nat) ^ 64 = 2 ^ n * 2 ^ (64 - n)" using assms(4) by (simp flip: power_add)
  have "j < 2 ^ n" using Suc.prems(1) by simp
  then have "j * 2 ^ (64 - n) < 2 ^ 64" unfolding p64 by (rule mult_strict_right_mono) simp
  then have "rkey v = j * 2 ^ (64 - n)" using Suc.prems(3) by (simp only: mod_less)
  then have "rkey v div 2 ^ (64 - n) = j" by simp
  then have "rkey v1 = Suc j * 2 ^ (64 - n) mod 2 ^ 64" unfolding r by simp
  moreover have "v1 = 0 \<or> unat v1 < scan_size d" using s(2) by blast
  ultimately obtain o2 v2 where "scan_run (replicate m d) v1 = Some (o2, v2)"
      "rkey v2 = (Suc j + m) * 2 ^ (64 - n) mod 2 ^ 64"
    using Suc.IH [of "Suc j" v1] Suc.prems(1) by auto
  then show ?case by (simp add: s(1))
qed simp

lemma scan_ends:
  assumes "scannable env d" "m = (if dictSize d = 0 then 1 else scan_size d)"
  shows "\<exists>out. scan_run (replicate m d) 0 = Some (out, 0) \<and> set out = {(k, x). dict_map d k = Some x}"
proof -
  have "\<exists>out. scan_run (replicate m d) 0 = Some (out, 0) \<and> 0 < m"
  proof (cases "dictSize d = 0")
    case True
    with assms(2) show ?thesis by (simp add: dictScan_def)
  next
    case False
    obtain n where n: "scan_size d = 2 ^ n" "n < 64"
      by (rule dictScan_step [OF assms(1), of 0]) (use False in auto)
    obtain out v' where r: "scan_run (replicate (2 ^ n) d) 0 = Some (out, v')"
        "rkey v' = (0 + 2 ^ n) * 2 ^ (64 - n) mod 2 ^ 64"
      using scan_run_count [OF assms(1) False n, of 0 "2 ^ n" 0] by auto
    have "(2::nat) ^ 64 = 2 ^ n * 2 ^ (64 - n)" using n(2) by (simp flip: power_add)
    then have "rkey v' = 0" using r(2) by simp
    with r(1) n(1) assms(2) False show ?thesis by simp
  qed
  then obtain out where r: "scan_run (replicate m d) 0 = Some (out, 0)" "0 < m" by blast
  have "(k, x) \<in> set out \<longleftrightarrow> dict_map d k = Some x" for k x
  proof
    assume "(k, x) \<in> set out"
    with scan_run_sound [of "replicate m d" env 0] assms(1) r show "dict_map d k = Some x"
      by (auto simp: sorted_replicate)
  next
    assume "dict_map d k = Some x"
    with scan_run_complete [of "replicate m d" env k x 0 out] assms(1) r show "(k, x) \<in> set out"
      by (auto simp: sorted_replicate)
  qed
  with r(1) show ?thesis by auto
qed

text \<open>
  A scan ends: on a dictionary that does not change, also in the middle of a rehashing, the
  cursor is 0 again after as many calls as the smaller table has buckets, the loop over the
  expansions ends in each call, and the elements returned are those of the dictionary.
\<close>

theorem dictScan_terminates:
  assumes "scannable env d" "m = (if dictSize d = 0 then 1 else scan_size d)"
  shows "\<exists>out. scan_run (replicate m d) 0 = Some (out, 0) \<and> set out = {(k, x). dict_map d k = Some x}"
  by (rule scan_ends [OF assms])

subsection \<open>A table that shrinks\<close>

text \<open>One key with hash 4 in a table of 16 buckets, and the same dictionary when it has been
  resized to 4 buckets and no entry has moved yet.\<close>

definition scan_env :: "nat dict_env" where
  "scan_env = \<lparr>hash_of = (\<lambda>k. k), can_resize = True, forked = False\<rparr>"

definition wide :: "(nat, bool) dict" where
  "wide = \<lparr>ht0 = \<lparr>ht_table = (replicate 16 [])[4 := [(4, True)]], ht_size = 16, ht_used = 1\<rparr>,
     ht1 = dictReset, rehashidx = -1, iterators = 0\<rparr>"

definition shrinking :: "(nat, bool) dict" where
  "shrinking = snd (dictResize scan_env wide)"

lemma shrinking_eq:
  "shrinking = wide\<lparr>ht1 := \<lparr>ht_table = replicate 4 [], ht_size = 4, ht_used = 0\<rparr>, rehashidx := 0\<rparr>"
proof -
  have "next_power 4 4 = 4" by (simp add: next_power.simps)
  then show ?thesis
    by (simp add: shrinking_def wide_def scan_env_def dictResize_def dictExpand_def dictNextPower_def
        DICT_HT_INITIAL_SIZE_def dictIsRehashing_def Let_def dictReset_def)
qed

lemma wide_ok: "dict_ok scan_env wide" "dict_map wide 4 = Some True"
proof -
  have t: "ht_table (ht0 wide) = [[], [], [], [], [(4, True)], [], [], [], [], [], [], [], [], [], [], []]"
    by (simp add: wide_def numeral_eq_Suc)
  have n: "ht_table (ht0 wide) ! i = (if i = 4 then [(4, True)] else [])" if "i < 16" for i
    using that by (simp add: wide_def nth_list_update)
  have "ht_size (ht0 wide) = 2 ^ 4" "ht_size (ht0 wide) = 16" "ht_used (ht0 wide) = 1" by (simp_all add: wide_def)
  moreover have "hidx scan_env (ht0 wide) 4 = 4" by (simp add: hidx_def scan_env_def wide_def)
  moreover have "\<exists>n. (2::nat) ^ n = 16" by (rule exI [of _ 4]) simp
  ultimately have "ht_ok scan_env (ht0 wide)"
    unfolding ht_ok_def using n by (auto simp: t)
  then show "dict_ok scan_env wide"
    by (simp add: dict_ok_def dictIsRehashing_def) (simp add: wide_def)
  show "dict_map wide 4 = Some True"
    by (simp add: dict_map_def ht_map_def t)
qed

lemma rev64_values:
  "rev64 0 = 0" "rev64 8 = 0x1000000000000000" "rev64 2 = 0x4000000000000000"
  "rev64 1 = 0x8000000000000000" "rev64 3 = 0xC000000000000000"
proof -
  have *: "rev64 v = w" if "\<And>i. i \<in> set [0..<64] \<Longrightarrow> bit v (63 - i) = bit w i" for v w
    using that by (intro bit_word_eqI) (simp add: bit_rev64)
  show "rev64 0 = 0" "rev64 8 = 0x1000000000000000" "rev64 2 = 0x4000000000000000"
    "rev64 1 = 0x8000000000000000" "rev64 3 = 0xC000000000000000"
    by (rule *; auto simp: upt_rec)+
qed

lemma scan_next_values:
  "scan_next (mask 4) 0 = 8" "scan_next (mask 2) 8 = 2" "scan_next (mask 2) 2 = 1"
  "scan_next (mask 2) 1 = 3" "scan_next (mask 2) 3 = 0"
proof -
  have m: "(mask 60 :: 64 word) = 0xFFFFFFFFFFFFFFF" "(mask 62 :: 64 word) = 0x3FFFFFFFFFFFFFFF"
    by (simp_all add: mask_eq_exp_minus_1)
  have *: "scan_next (mask n) v = w" if "n \<le> 64" "(rev64 v OR mask (64 - n)) + 1 = rev64 w" for n v w
    using that by (simp add: scan_next_mask)
  show "scan_next (mask 4) 0 = 8" "scan_next (mask 2) 8 = 2" "scan_next (mask 2) 2 = 1"
    "scan_next (mask 2) 1 = 3" "scan_next (mask 2) 3 = 0"
    by (rule *; simp add: rev64_values m)+
qed

text \<open>
  C40. The scan is over and the key, which was there all the time, has not been returned.\<close>

lemma dictScan_misses_when_shrinking:
  "scan_run [wide, shrinking, shrinking, shrinking, shrinking] 0 = Some ([], 0) \<and>
   dict_map wide 4 = Some True \<and> dict_map shrinking 4 = Some True"
proof -
  let ?t0 = "replicate 4 [] :: (nat \<times> bool) list list" and ?t1 = "ht_table (ht0 wide)"
  have m: "(15 :: 64 word) = mask 4" "(3 :: 64 word) = mask 2" by (simp_all add: mask_eq_exp_minus_1)
  have nr: "dictSize wide = 1" "\<not> dictIsRehashing wide" "ht_size (ht0 wide) = 16"
    by (simp_all add: dictSize_def wide_def dictReset_def dictIsRehashing_def)
  have r: "dictSize shrinking = 1" "dictIsRehashing shrinking" "ht0 shrinking = ht0 wide"
      "ht_table (ht1 shrinking) = ?t0" "ht_size (ht1 shrinking) = 4"
    by (simp_all add: shrinking_eq dictSize_def dictIsRehashing_def) (simp add: wide_def)
  have w: "dictScan wide v = Some (?t1 ! unat (v AND mask 4), scan_next (mask 4) v)" for v
    by (simp add: dictScan_def nr Let_def sizemask_def) (simp add: m)
  have n: "?t1 ! i = []" if "i < 16" "i \<noteq> 4" for i
    using that by (simp add: wide_def nth_list_update)
  have s: "dictScan shrinking v = Some ([], scan_next (mask 2) v)"
    if "\<forall>g \<in> set [upper 2 v mod 4..<4]. unat v mod 4 + 4 * g \<noteq> 4" for v
  proof -
    obtain u where u: "expand_loop (mask 2) (mask 4) ?t1 v =
        Some (concat (map (\<lambda>g. ?t1 ! (unat v mod 4 + 4 * g)) [upper 2 v mod 4..<4]), u)"
        "take_bit 2 u = take_bit 2 v"
      using expand_loop_ok [of 2 4 ?t1 v] by auto
    have z: "?t1 ! (unat v mod 4 + 4 * g) = []" if "g \<in> set [upper 2 v mod 4..<4]" for g
    proof (rule n)
      have "unat v mod 4 < 4" "g < 4" using that by simp_all
      then show "unat v mod 4 + 4 * g < 16" by linarith
    qed (use \<open>\<forall>g \<in> set _. _\<close> that in blast)
    then have "concat (map (\<lambda>g. ?t1 ! (unat v mod 4 + 4 * g)) [upper 2 v mod 4..<4]) = []"
      by simp
    with u(1) have e: "expand_loop (mask 2) (mask 4) ?t1 v = Some ([], u)" by simp
    have "unat (v AND mask 2) < 4"
      unfolding take_bit_eq_mask [symmetric] unat_take_bit_mod by simp
    then have t0: "?t0 ! unat (v AND mask 2) = []" by simp
    have "dictScan shrinking v = (case expand_loop (mask 2) (mask 4) ?t1 v of None \<Rightarrow> None
        | Some (outs, u) \<Rightarrow> Some (?t0 ! unat (v AND mask 2) @ outs, scan_next (mask 2) u))"
      by (simp add: dictScan_def r nr Let_def sizemask_def split: option.split) (simp add: m)
    then show ?thesis by (simp add: e t0 scan_next_low [OF u(2)])
  qed
  have v8: "dictScan shrinking 8 = Some ([], 2)" by (subst s) (simp_all add: upper_def scan_next_values upt_rec)
  have v2: "dictScan shrinking 2 = Some ([], 1)" by (subst s) (simp_all add: upper_def scan_next_values upt_rec)
  have v1: "dictScan shrinking 1 = Some ([], 3)" by (subst s) (simp_all add: upper_def scan_next_values upt_rec)
  have v3: "dictScan shrinking 3 = Some ([], 0)" by (subst s) (simp_all add: upper_def scan_next_values upt_rec)
  have v0: "dictScan wide 0 = Some ([], 8)" by (simp add: w scan_next_values n)
  have "dict_map shrinking 4 = Some True"
    using wide_ok(2) by (simp add: dict_map_def r) (simp add: ht_map_def r wide_def dictReset_def)
  with v0 v8 v2 v1 v3 wide_ok(2) show ?thesis by simp
qed

subsection \<open>Witnesses\<close>

lemma wide_facts: "scannable scan_env wide" "scan_size wide = 16" "dictSize wide = 1"
proof -
  show "scannable scan_env wide" using wide_ok(1) by (simp add: scannable_def) (simp add: wide_def dictReset_def)
  show "scan_size wide = 16" "dictSize wide = 1"
    by (simp_all add: scan_size_def dictIsRehashing_def dictSize_def wide_def dictReset_def)
qed

lemma dictScan_terminates_witness:
  "\<exists>out. scan_run (replicate 16 wide) 0 = Some (out, 0) \<and> set out = {(k, x). dict_map wide k = Some x}"
  by (rule dictScan_terminates [OF wide_facts(1)]) (simp add: wide_facts)

lemma dictScan_complete_witness:
  "\<exists>out. scan_run (replicate 16 wide) 0 = Some (out, 0) \<and> (4, True) \<in> set out"
proof -
  obtain out where out: "scan_run (replicate 16 wide) 0 = Some (out, 0)"
    using scan_ends [OF wide_facts(1), of 16] wide_facts by auto
  have "\<forall>d \<in> set (replicate 16 wide). scannable scan_env d" using wide_facts(1) by simp
  moreover have "sorted (map scan_size (replicate 16 wide))" by (simp add: sorted_replicate)
  moreover have "replicate 16 wide \<noteq> []" by simp
  ultimately have "(\<forall>d \<in> set (replicate 16 wide). dict_map d 4 = Some True) \<longrightarrow> (4, True) \<in> set out"
    using dictScan_complete [OF _ _ _ out] by blast
  with out wide_ok(2) show ?thesis by simp
qed

end
