(* ===== verification/DictIter.thy ===== *)
theory DictIter
  imports DictScan
begin

text \<open>
  Iterators and random access of \<open>src/src/src/dict.c\<close>. An iterator walks the buckets of the old
  table and then those of the new one; the pointer \<open>nextEntry\<close> is the rest of the chain it points
  to. Addresses (for the fingerprint of an unsafe iterator) and the values of \<open>random\<close> are
  parameters. Shown: an iteration returns every entry once and its release finds the
  dictionary unchanged; random access returns entries of the dictionary only, within its bounds.
\<close>

subsection \<open>Iterators\<close>

record ('k, 'v) dict_iter =
  it_table :: nat
  it_index :: int
  it_safe :: bool
  it_entry :: "('k \<times> 'v) option"
  it_next :: "('k \<times> 'v) list"
  it_fingerprint :: "64 word"

text \<open>Thomas Wang's 64 bit integer hash; the right shifts are those of a signed type.\<close>

definition wang64 :: "64 word \<Rightarrow> 64 word" where
  "wang64 hash =
     (let hash = NOT hash + push_bit 21 hash;
          hash = hash XOR signed_drop_bit 24 hash;
          hash = (hash + push_bit 3 hash) + push_bit 8 hash;
          hash = hash XOR signed_drop_bit 14 hash;
          hash = (hash + push_bit 2 hash) + push_bit 4 hash;
          hash = hash XOR signed_drop_bit 28 hash
      in hash + push_bit 31 hash)"

definition dictFingerprint :: "(('k, 'v) dictht \<Rightarrow> 64 word) \<Rightarrow> ('k, 'v) dict \<Rightarrow> 64 word" where
  "dictFingerprint addr d =
     foldl (\<lambda>hash i. wang64 (hash + i)) 0
       [addr (ht0 d), word_of_nat (ht_size (ht0 d)), word_of_nat (ht_used (ht0 d)),
        addr (ht1 d), word_of_nat (ht_size (ht1 d)), word_of_nat (ht_used (ht1 d))]"

definition dictGetIterator :: "('k, 'v) dict_iter" where
  "dictGetIterator = \<lparr>it_table = 0, it_index = -1, it_safe = False, it_entry = None, it_next = [],
     it_fingerprint = 0\<rparr>"

definition dictGetSafeIterator :: "('k, 'v) dict_iter" where
  "dictGetSafeIterator = dictGetIterator\<lparr>it_safe := True\<rparr>"

definition iter_ht :: "('k, 'v) dict \<Rightarrow> nat \<Rightarrow> ('k, 'v) dictht" where
  "iter_ht d t = (if t = 0 then ht0 d else ht1 d)"

text \<open>The first visit registers a safe iterator and takes the fingerprint for an unsafe one.\<close>

definition iter_start :: "(('k, 'v) dictht \<Rightarrow> 64 word) \<Rightarrow> ('k, 'v) dict \<Rightarrow> ('k, 'v) dict_iter \<Rightarrow>
    ('k, 'v) dict \<times> ('k, 'v) dict_iter" where
  "iter_start addr d it =
     (if it_index it = -1 \<and> it_table it = 0 then
        (if it_safe it then (d\<lparr>iterators := iterators d + 1\<rparr>, it)
         else (d, it\<lparr>it_fingerprint := dictFingerprint addr d\<rparr>))
      else (d, it))"

text \<open>The next bucket, or \<open>None\<close> behind the last one, with the index where it stopped.\<close>

definition iter_bucket :: "('k, 'v) dict \<Rightarrow> ('k, 'v) dict_iter \<Rightarrow>
    ('k \<times> 'v) list option \<times> ('k, 'v) dict_iter" where
  "iter_bucket d it =
     (let it = it\<lparr>it_index := it_index it + 1\<rparr>
      in if it_index it \<ge> int (ht_size (iter_ht d (it_table it))) then
           (if dictIsRehashing d \<and> it_table it = 0
            then let it = it\<lparr>it_table := 1, it_index := 0\<rparr> in (Some (ht_table (ht1 d) ! 0), it)
            else (None, it))
         else (Some (ht_table (iter_ht d (it_table it)) ! nat (it_index it)), it))"

definition iter_left :: "('k, 'v) dict \<Rightarrow> ('k, 'v) dict_iter \<Rightarrow> nat" where
  "iter_left d it =
     (if it_table it = 0 then nat (int (ht_size (ht0 d)) - it_index it) + ht_size (ht1 d) + 2
      else nat (int (ht_size (iter_ht d (it_table it))) - it_index it))"

lemma iter_left_entry [simp]: "iter_left d (it\<lparr>it_entry := x\<rparr>) = iter_left d it"
  by (simp add: iter_left_def)

lemma iter_bucket_left:
  "iter_bucket d it = (Some b, it') \<Longrightarrow> it_entry it' = it_entry it \<and> iter_left d it' < iter_left d it"
  by (auto simp: iter_bucket_def iter_left_def iter_ht_def Let_def split: if_splits)

lemma iter_start_same:
  "iter_start addr d it = (d', it') \<Longrightarrow> it_entry it' = it_entry it \<and> iter_left d' it' = iter_left d it \<and>
   it_table it' = it_table it \<and> it_index it' = it_index it \<and> it_safe it' = it_safe it \<and>
   ht0 d' = ht0 d \<and> ht1 d' = ht1 d \<and> rehashidx d' = rehashidx d"
  by (auto simp: iter_start_def iter_left_def iter_ht_def split: if_splits)

text \<open>The loop takes the rest of the current chain, or goes to the next bucket.\<close>

function dictNext :: "(('k, 'v) dictht \<Rightarrow> 64 word) \<Rightarrow> ('k, 'v) dict \<Rightarrow> ('k, 'v) dict_iter \<Rightarrow>
    ('k \<times> 'v) option \<times> ('k, 'v) dict \<times> ('k, 'v) dict_iter" where
  "dictNext addr d it =
     (case it_entry it of
        Some _ \<Rightarrow>
          (case it_next it of
             e # es \<Rightarrow> (Some e, d, it\<lparr>it_entry := Some e, it_next := es\<rparr>)
           | [] \<Rightarrow> dictNext addr d (it\<lparr>it_entry := None\<rparr>))
      | None \<Rightarrow>
          (case iter_start addr d it of
             (d, it) \<Rightarrow>
               (case iter_bucket d it of
                  (None, it) \<Rightarrow> (None, d, it)
                | (Some (e # es), it) \<Rightarrow> (Some e, d, it\<lparr>it_entry := Some e, it_next := es\<rparr>)
                | (Some [], it) \<Rightarrow> dictNext addr d it)))"
  by pat_completeness auto
termination
  by (relation "measure (\<lambda>(addr, d, it). 2 * iter_left d it + (if it_entry it = None then 0 else 1))")
    (auto dest!: sym [of _ "iter_start _ _ _"] sym [of _ "iter_bucket _ _"] iter_start_same iter_bucket_left)

declare dictNext.simps [simp del]

text \<open>\<open>None\<close> is the failed assertion on the fingerprint.\<close>

definition dictReleaseIterator :: "(('k, 'v) dictht \<Rightarrow> 64 word) \<Rightarrow> ('k, 'v) dict \<Rightarrow> ('k, 'v) dict_iter \<Rightarrow>
    ('k, 'v) dict option" where
  "dictReleaseIterator addr d it =
     (if \<not> (it_index it = -1 \<and> it_table it = 0) then
        (if it_safe it then Some (d\<lparr>iterators := iterators d - 1\<rparr>)
         else if it_fingerprint it = dictFingerprint addr d then Some d else None)
      else Some d)"

subsection \<open>What an iteration returns\<close>

definition entries :: "('k, 'v) dict \<Rightarrow> ('k \<times> 'v) list" where
  "entries d = concat (ht_table (ht0 d)) @ concat (ht_table (ht1 d))"

text \<open>The entries the iterator has still to return.\<close>

definition pending :: "('k, 'v) dict \<Rightarrow> ('k, 'v) dict_iter \<Rightarrow> ('k \<times> 'v) list" where
  "pending d it =
     (if it_entry it = None then [] else it_next it) @
     concat (drop (nat (it_index it + 1)) (ht_table (iter_ht d (it_table it)))) @
     (if it_table it = 0 then concat (ht_table (ht1 d)) else [])"

definition iter_ok :: "('k, 'v) dict_iter \<Rightarrow> bool" where
  "iter_ok it \<longleftrightarrow> -1 \<le> it_index it"

text \<open>\<open>n\<close> calls of \<open>dictNext\<close>.\<close>

fun iterate :: "nat \<Rightarrow> (('k, 'v) dictht \<Rightarrow> 64 word) \<Rightarrow> ('k, 'v) dict \<Rightarrow> ('k, 'v) dict_iter \<Rightarrow>
    ('k \<times> 'v) option list \<times> ('k, 'v) dict \<times> ('k, 'v) dict_iter" where
  "iterate 0 addr d it = ([], d, it)"
| "iterate (Suc n) addr d it =
     (case dictNext addr d it of
        (r, d, it) \<Rightarrow> case iterate n addr d it of (rs, d, it) \<Rightarrow> (r # rs, d, it))"

lemma iter_bucket_pending:
  assumes "dict_ok env d" "iter_ok it" "it_entry it = None" "iter_bucket d it = (b, it')"
  shows "iter_ok it'" "it_entry it' = None" "it_safe it' = it_safe it" "it_fingerprint it' = it_fingerprint it"
    "pending d it = (case b of None \<Rightarrow> [] | Some es \<Rightarrow> es @ pending d it')"
    "\<not> (it_index it' = -1 \<and> it_table it' = 0)"
proof -
  have l: "length (ht_table (ht0 d)) = ht_size (ht0 d)" "length (ht_table (ht1 d)) = ht_size (ht1 d)"
    using assms(1) by (simp_all add: dict_ok_def ht_ok_def)
  have i: "-1 \<le> it_index it" using assms(2) by (simp add: iter_ok_def)
  show "iter_ok it'" "it_entry it' = None" "it_safe it' = it_safe it" "it_fingerprint it' = it_fingerprint it"
    "\<not> (it_index it' = -1 \<and> it_table it' = 0)"
    using assms(3,4) i by (auto simp: iter_bucket_def Let_def iter_ok_def split: if_splits)
  have z: "ht_table (ht1 d) = []" if "\<not> dictIsRehashing d"
    using assms(1) that by (simp add: dict_ok_def dictReset_def)
  have c: "concat (drop n xs) = xs ! n @ concat (drop (n + 1) xs)" if "n < length xs" for n and xs :: "('a \<times> 'b) list list"
    using that by (simp flip: Cons_nth_drop_Suc)
  let ?t = "iter_ht d (it_table it)"
  have lt: "length (ht_table ?t) = ht_size ?t" by (simp add: iter_ht_def l)
  show "pending d it = (case b of None \<Rightarrow> [] | Some es \<Rightarrow> es @ pending d it')"
  proof (cases "it_index it + 1 \<ge> int (ht_size ?t)")
    case True
    then have dr: "drop (nat (it_index it + 1)) (ht_table ?t) = []" using lt by simp
    show ?thesis
    proof (cases "dictIsRehashing d \<and> it_table it = 0")
      case r: True
      then have "0 < ht_size (ht1 d)" using assms(1) by (simp add: dict_ok_def)
      then have "concat (ht_table (ht1 d)) = ht_table (ht1 d) ! 0 @ concat (drop 1 (ht_table (ht1 d)))"
        using c [of 0 "ht_table (ht1 d)"] l by simp
      then show ?thesis using assms(3,4) True r dr
        by (auto simp: iter_bucket_def Let_def pending_def iter_ht_def)
    next
      case False
      then show ?thesis using assms(3,4) True dr z
        by (auto simp: iter_bucket_def Let_def pending_def)
    qed
  next
    case False
    then have n: "nat (it_index it + 1) < length (ht_table ?t)" using lt i by linarith
    have "nat (it_index it + 1 + 1) = nat (it_index it + 1) + 1" using i by simp
    then show ?thesis using assms(3,4) False c [OF n]
      by (auto simp: iter_bucket_def Let_def pending_def)
  qed
qed

text \<open>How the dictionary and the iterator stand to the dictionary at the start.\<close>

definition started :: "('k, 'v) dict_iter \<Rightarrow> bool" where
  "started it \<longleftrightarrow> \<not> (it_index it = -1 \<and> it_table it = 0)"

definition iter_inv :: "(('k, 'v) dictht \<Rightarrow> 64 word) \<Rightarrow> ('k, 'v) dict \<Rightarrow> ('k, 'v) dict \<Rightarrow> ('k, 'v) dict_iter \<Rightarrow> bool" where
  "iter_inv addr d0 d it \<longleftrightarrow> iter_ok it \<and> (it_entry it \<noteq> None \<longrightarrow> started it) \<and>
     (if \<not> started it then d = d0
      else if it_safe it then d = d0\<lparr>iterators := iterators d0 + 1\<rparr>
      else d = d0 \<and> it_fingerprint it = dictFingerprint addr d0)"

lemma iter_inv_tabs:
  assumes "iter_inv addr d0 d it"
  shows "dict_ok env d = dict_ok env d0" "ht0 d = ht0 d0" "ht1 d = ht1 d0" "rehashidx d = rehashidx d0"
proof -
  have "d = d0 \<or> d = d0\<lparr>iterators := iterators d0 + 1\<rparr>" using assms by (auto simp: iter_inv_def split: if_splits)
  then show "dict_ok env d = dict_ok env d0" "ht0 d = ht0 d0" "ht1 d = ht1 d0" "rehashidx d = rehashidx d0"
    by (elim disjE; simp add: dict_ok_def dictIsRehashing_def)+
qed

lemma iter_start_inv:
  assumes "iter_inv addr d0 d it" "it_entry it = None" "iter_start addr d it = (d1, it1)"
  shows "iter_ok it1 \<and> it_entry it1 = None \<and> pending d1 it1 = pending d it \<and> it_safe it1 = it_safe it \<and>
    (if it_safe it then d1 = d0\<lparr>iterators := iterators d0 + 1\<rparr> else d1 = d0 \<and> it_fingerprint it1 = dictFingerprint addr d0)"
  using assms by (auto simp: iter_start_def iter_inv_def iter_ok_def started_def pending_def iter_ht_def
      split: if_splits)

lemma dictNext_ok:
  "dict_ok env d \<Longrightarrow> iter_inv addr d0 d it \<Longrightarrow> dictNext addr d it = (r, d', it') \<Longrightarrow>
   iter_inv addr d0 d' it' \<and> started it' \<and> it_safe it' = it_safe it \<and>
   (case r of None \<Rightarrow> pending d it = [] | Some e \<Rightarrow> pending d it = e # pending d' it')"
proof (induction addr d it arbitrary: r d' it' rule: dictNext.induct)
  case (1 addr d it)
  show ?case
  proof (cases "it_entry it")
    case (Some x)
    show ?thesis
    proof (cases "it_next it")
      case (Cons e es)
      with Some "1.prems"(3) have "r = Some e" "d' = d" "it' = it\<lparr>it_entry := Some e, it_next := es\<rparr>"
        by (auto simp: dictNext.simps [of addr d it])
      with "1.prems"(2) Some Cons show ?thesis
        by (auto simp: iter_inv_def pending_def started_def iter_ok_def)
    next
      case Nil
      with Some "1.prems"(3) have n: "dictNext addr d (it\<lparr>it_entry := None\<rparr>) = (r, d', it')"
        by (simp add: dictNext.simps [of addr d it])
      have inv: "iter_inv addr d0 d (it\<lparr>it_entry := None\<rparr>)"
        using "1.prems"(2) by (simp add: iter_inv_def started_def iter_ok_def)
      have p: "pending d (it\<lparr>it_entry := None\<rparr>) = pending d it" using Some Nil by (simp add: pending_def)
      from "1.IH"(2) [OF Some Nil "1.prems"(1) inv n] show ?thesis unfolding p by simp
    qed
  next
    case None
    obtain d1 it1 where s: "iter_start addr d it = (d1, it1)" by fastforce
    note S = iter_start_inv [OF "1.prems"(2) None s]
    have ok: "dict_ok env d1"
      using iter_start_same [OF s] "1.prems"(1) by (simp add: dict_ok_def dictIsRehashing_def)
    obtain b it2 where b: "iter_bucket d1 it1 = (b, it2)" by fastforce
    from S have "iter_ok it1" "it_entry it1 = None" by auto
    note B = iter_bucket_pending [OF ok this b]
    have inv: "iter_inv addr d0 d1 it2" "started it2"
      using S B by (auto simp: iter_inv_def started_def)
    show ?thesis
    proof (cases b)
      case n: None
      with None s b "1.prems"(3) have "r = None" "d' = d1" "it' = it2"
        by (auto simp: dictNext.simps [of addr d it])
      with inv B S n show ?thesis by simp
    next
      case bs: (Some es)
      show ?thesis
      proof (cases es)
        case (Cons e es')
        with None s b bs "1.prems"(3) have "r = Some e" "d' = d1" "it' = it2\<lparr>it_entry := Some e, it_next := es'\<rparr>"
          by (auto simp: dictNext.simps [of addr d it])
        with inv B S bs Cons show ?thesis
          by (auto simp: iter_inv_def pending_def started_def iter_ok_def)
      next
        case Nil
        with None s b bs "1.prems"(3) have n: "dictNext addr d1 it2 = (r, d', it')"
          by (simp add: dictNext.simps [of addr d it])
        from "1.IH"(1) [OF None s [symmetric] b [symmetric] bs Nil ok inv(1) n] B S bs Nil
        show ?thesis by (cases r) simp_all
      qed
    qed
  qed
qed

lemma iterate_ok:
  "dict_ok env d \<Longrightarrow> iter_inv addr d0 d it \<Longrightarrow> pending d it = es @ rest \<Longrightarrow>
   \<exists>d' it'. iterate (length es) addr d it = (map Some es, d', it') \<and> iter_inv addr d0 d' it' \<and>
     pending d' it' = rest \<and> it_safe it' = it_safe it"
proof (induction es arbitrary: d it)
  case (Cons e es)
  obtain r d1 it1 where n: "dictNext addr d it = (r, d1, it1)" by (metis prod_cases3)
  from dictNext_ok [OF Cons.prems(1,2) n] Cons.prems(3)
  have o: "r = Some e" "pending d1 it1 = es @ rest" "iter_inv addr d0 d1 it1" "it_safe it1 = it_safe it"
    by (auto split: option.splits)
  have "dict_ok env d1" using Cons.prems(1) iter_inv_tabs(1) [OF Cons.prems(2)] iter_inv_tabs(1) [OF o(3)] by simp
  from Cons.IH [OF this o(3,2)] o(1,4) n show ?case by auto
qed simp

lemma entries_length: "dict_ok env d \<Longrightarrow> length (entries d) = dictSize d"
  by (simp add: entries_def dictSize_def dict_ok_def ht_ok_def)

lemma entries_map:
  assumes "dict_ok env d"
  shows "distinct (map fst (entries d)) \<and> map_of (entries d) = dict_map d"
proof
  have h: "ht_ok env (ht0 d)" "ht_ok env (ht1 d)" "dom (ht_map (ht0 d)) \<inter> dom (ht_map (ht1 d)) = {}"
    using assms by (simp_all add: dict_ok_def)
  show "distinct (map fst (entries d))"
    using ht_distinct [OF h(1)] ht_distinct [OF h(2)] h(3)
    by (simp add: entries_def ht_map_def dom_map_of_conv_image_fst)
  show "map_of (entries d) = dict_map d"
    by (simp add: entries_def dict_map_def ht_map_def map_of_append)
qed

lemma entries_set: "dict_ok env d \<Longrightarrow> set (entries d) = {(k, x). dict_map d k = Some x}"
  using entries_map [of env d] map_of_eq_Some_iff [of "entries d"] by auto

text \<open>
  An iteration over a dictionary, with a safe or an unsafe iterator and also in the middle of
  a rehashing: \<open>dictSize\<close> calls of \<open>dictNext\<close> return each entry once, the following call returns
  \<open>NULL\<close>, and \<open>dictReleaseIterator\<close> (whose fingerprint assertion holds) gives the
  dictionary back as it was.
\<close>

theorem dict_iteration_correct:
  assumes "dict_ok env d" "it = (if safe then dictGetSafeIterator else dictGetIterator)"
  shows "\<exists>d1 it1 d2 it2. iterate (dictSize d) addr d it = (map Some (entries d), d1, it1) \<and>
    dictNext addr d1 it1 = (None, d2, it2) \<and> dictReleaseIterator addr d2 it2 = Some d \<and>
    distinct (map fst (entries d)) \<and> map_of (entries d) = dict_map d"
proof -
  have i: "iter_inv addr d d it" "pending d it = entries d" "it_safe it = safe"
    by (simp_all add: assms(2) iter_inv_def iter_ok_def started_def pending_def entries_def iter_ht_def
        dictGetSafeIterator_def dictGetIterator_def)
  obtain d1 it1 where l: "iterate (dictSize d) addr d it = (map Some (entries d), d1, it1)"
    "iter_inv addr d d1 it1" "pending d1 it1 = []" "it_safe it1 = safe"
    using iterate_ok [OF assms(1) i(1), of "entries d" "[]"] i entries_length [OF assms(1)] by auto
  obtain r d2 it2 where n: "dictNext addr d1 it1 = (r, d2, it2)" by (metis prod_cases3)
  have "dict_ok env d1" using assms(1) iter_inv_tabs(1) [OF l(2)] by simp
  from dictNext_ok [OF this l(2) n] l(3,4)
  have o: "r = None" "iter_inv addr d d2 it2" "started it2" "it_safe it2 = safe"
    by (auto split: option.splits)
  have "dictReleaseIterator addr d2 it2 = Some d"
    using o(2-4) by (auto simp: dictReleaseIterator_def iter_inv_def started_def split: if_splits)
  moreover note entries_map [OF assms(1)]
  ultimately show ?thesis using l(1) n o(1) by blast
qed

subsection \<open>Random entries\<close>

text \<open>\<open>rnd i\<close> is the value of the \<open>i\<close>-th call of \<open>random\<close>; the index is an unsigned 32 bit integer.\<close>

definition random_index :: "('k, 'v) dict \<Rightarrow> nat \<Rightarrow> nat" where
  "random_index d r =
     (if dictIsRehashing d
      then nat (rehashidx d + int r mod (int (ht_size (ht0 d)) + int (ht_size (ht1 d)) - rehashidx d)) mod 2 ^ 32
      else r AND (ht_size (ht0 d) - 1))"

definition random_bucket :: "('k, 'v) dict \<Rightarrow> nat \<Rightarrow> ('k \<times> 'v) list" where
  "random_bucket d h =
     (if dictIsRehashing d \<and> h \<ge> ht_size (ht0 d) then ht_table (ht1 d) ! (h - ht_size (ht0 d))
      else ht_table (ht0 d) ! h)"

partial_function (option) find_bucket ::
    "('k, 'v) dict \<Rightarrow> (nat \<Rightarrow> nat) \<Rightarrow> nat \<Rightarrow> (('k \<times> 'v) list \<times> nat) option" where
  "find_bucket d rnd i =
     (let he = random_bucket d (random_index d (rnd i))
      in if he = [] then find_bucket d rnd (i + 1) else Some (he, i + 1))"

text \<open>The outer option is the loop that does not end, the inner one \<open>NULL\<close>.\<close>

definition dictGetRandomKey :: "'k dict_env \<Rightarrow> ('k, 'v) dict \<Rightarrow> (nat \<Rightarrow> nat) \<Rightarrow>
    (('k \<times> 'v) option \<times> ('k, 'v) dict) option" where
  "dictGetRandomKey env d rnd =
     (if dictSize d = 0 then Some (None, d)
      else
        let d = rehash_if env d
        in case find_bucket d rnd 0 of
             None \<Rightarrow> None
           | Some (he, i) \<Rightarrow>
               let listele = rnd i mod length he
               in Some (Some (he ! listele), d))"

lemma find_bucket_some:
  assumes "random_bucket d (random_index d (rnd (i + n))) \<noteq> []"
  shows "\<exists>he j. find_bucket d rnd i = Some (he, j) \<and> he \<noteq> [] \<and> (\<exists>k. he = random_bucket d (random_index d (rnd k)))"
  using assms
proof (induction n arbitrary: i)
  case 0
  then show ?case by (subst find_bucket.simps) (auto simp: Let_def)
next
  case (Suc n)
  then have "\<exists>he j. find_bucket d rnd (i + 1) = Some (he, j) \<and> he \<noteq> [] \<and>
      (\<exists>k. he = random_bucket d (random_index d (rnd k)))"
    by (intro Suc.IH) simp
  then show ?case by (subst find_bucket.simps) (auto simp: Let_def)
qed

lemma random_bucket_entries:
  assumes "dict_ok env d" "0 < ht_size (ht0 d)"   shows "set (random_bucket d (random_index d r)) \<subseteq> set (entries d)"
proof -
  have l: "length (ht_table (ht0 d)) = ht_size (ht0 d)" "length (ht_table (ht1 d)) = ht_size (ht1 d)"
    using assms(1) by (simp_all add: dict_ok_def ht_ok_def)
  have s: "set (t ! i) \<subseteq> set (concat t)" if "i < length t" for t :: "('a \<times> 'b) list list" and i
    using nth_mem [OF that] by auto
  show ?thesis
  proof (cases "dictIsRehashing d")
    case True
    let ?n = "int (ht_size (ht0 d)) + int (ht_size (ht1 d)) - rehashidx d"
    have p: "0 \<le> rehashidx d" "0 < ht_size (ht1 d)" "rehashidx d \<le> int (ht_size (ht0 d))"
      using assms(1) True by (simp_all add: dict_ok_def)
    have "0 < ?n" using p by simp
    then have m: "0 \<le> int r mod ?n" "int r mod ?n < ?n" by simp_all
    then have b: "nat (rehashidx d + int r mod ?n) < ht_size (ht0 d) + ht_size (ht1 d)" using p by linarith
    have "random_index d r \<le> nat (rehashidx d + int r mod ?n)" by (simp add: random_index_def True)
    with b have i: "random_index d r < ht_size (ht0 d) + ht_size (ht1 d)" by linarith
    show ?thesis
    proof (cases "random_index d r \<ge> ht_size (ht0 d)")
      case True
      with i have "random_index d r - ht_size (ht0 d) < length (ht_table (ht1 d))" using l by simp
      from s [OF this] True \<open>dictIsRehashing d\<close> show ?thesis by (auto simp: random_bucket_def entries_def)
    next
      case False
      then have "random_index d r < length (ht_table (ht0 d))" using l by simp
      from s [OF this] False show ?thesis by (auto simp: random_bucket_def entries_def)
    qed
  next
    case False
    obtain n where n: "ht_size (ht0 d) = 2 ^ n" using assms(1,2) by (auto simp: dict_ok_def ht_ok_def)
    have "random_index d r = take_bit n r"
      by (simp add: random_index_def False n take_bit_eq_mask mask_eq_exp_minus_1)
    then have "random_index d r < length (ht_table (ht0 d))" by (simp add: l n)
    from s [OF this] False show ?thesis by (auto simp: random_bucket_def entries_def)
  qed
qed

text \<open>
  \<open>dictGetRandomKey\<close> of a dictionary that is not empty: if some value of \<open>random\<close> hits a
  bucket that is not empty, the search ends, and it returns an entry of the dictionary; the
  rehashing step it makes keeps the map. An empty dictionary gives \<open>NULL\<close>.
\<close>

theorem dictGetRandomKey_correct:
  assumes "dict_ok env d" "d' = (if dictSize d = 0 then d else rehash_if env d)"
    "random_bucket d' (random_index d' (rnd n)) \<noteq> [] \<or> dictSize d = 0"
  shows "\<exists>r. dictGetRandomKey env d rnd = Some (r, d') \<and> dict_map d' = dict_map d \<and>
    (case r of None \<Rightarrow> dictSize d = 0 | Some e \<Rightarrow> dict_map d (fst e) = Some (snd e))"
proof (cases "dictSize d = 0")
  case True
  with assms(2) show ?thesis by (simp add: dictGetRandomKey_def)
next
  case False
  have d': "dict_ok env d'" "dict_map d' = dict_map d" using rehash_if_ok [OF assms(1)] assms(2) False by auto
  have "0 < ht_size (ht0 d)"
  proof (rule ccontr)
    assume "\<not> 0 < ht_size (ht0 d)"
    then have "ht_used (ht0 d) = 0 \<and> \<not> dictIsRehashing d"
      using assms(1) by (auto simp: dict_ok_def ht_ok_def)
    then show False using False assms(1) by (auto simp: dictSize_def dict_ok_def dictReset_def)
  qed
  then have p: "0 < ht_size (ht0 d')" using rehash_if_ok [OF assms(1)] assms(2) False by auto
  obtain he j k where f: "find_bucket d' rnd 0 = Some (he, j)" "he \<noteq> []"
      "he = random_bucket d' (random_index d' (rnd k))"
    using find_bucket_some [of d' rnd 0 n] assms(3) False by auto
  let ?e = "he ! (rnd j mod length he)"
  have "?e \<in> set he" using f(2) by (intro nth_mem) simp
  then have "?e \<in> set (entries d')" using random_bucket_entries [OF d'(1) p, of "rnd k"] f(3) by blast
  then have "dict_map d (fst ?e) = Some (snd ?e)" using entries_set [OF d'(1)] d'(2) by auto
  moreover have "dictGetRandomKey env d rnd = Some (Some ?e, d')"
    using False f(1) assms(2) by (simp add: dictGetRandomKey_def Let_def)
  ultimately show ?thesis using d'(2) by auto
qed

subsection \<open>Samples\<close>

record ('k, 'v) sampler =
  s_idx :: nat
  s_empty :: nat
  s_out :: "('k \<times> 'v) list"
  s_pos :: nat

fun some_rehash :: "'k dict_env \<Rightarrow> nat \<Rightarrow> ('k, 'v) dict \<Rightarrow> ('k, 'v) dict" where
  "some_rehash env 0 d = d"
| "some_rehash env (Suc n) d =
     (if dictIsRehashing d then some_rehash env n (dictRehashStep env d) else d)"

text \<open>The body of the loop over the tables; the entries are stored up to the number wanted.\<close>

definition visit :: "nat \<Rightarrow> nat \<Rightarrow> ('k, 'v) dict \<Rightarrow> (nat \<Rightarrow> nat) \<Rightarrow> nat \<Rightarrow> nat \<Rightarrow> ('k, 'v) sampler \<Rightarrow> ('k, 'v) sampler" where
  "visit cnt tables d rnd msk j s =
     (if tables = 2 \<and> j = 0 \<and> s_idx s < nat (rehashidx d) then
        (if s_idx s \<ge> ht_size (ht1 d) then s\<lparr>s_idx := nat (rehashidx d)\<rparr> else s)
      else if s_idx s \<ge> ht_size (iter_ht d j) then s
      else
        (case ht_table (iter_ht d j) ! s_idx s of
           [] \<Rightarrow>
             let e = s_empty s + 1
             in if e \<ge> 5 \<and> e > cnt
                then s\<lparr>s_idx := rnd (s_pos s) AND msk, s_empty := 0, s_pos := s_pos s + 1\<rparr>
                else s\<lparr>s_empty := e\<rparr>
         | he \<Rightarrow> s\<lparr>s_empty := 0, s_out := s_out s @ take (cnt - length (s_out s)) he\<rparr>))"

fun sample_loop :: "nat \<Rightarrow> nat \<Rightarrow> nat \<Rightarrow> ('k, 'v) dict \<Rightarrow> (nat \<Rightarrow> nat) \<Rightarrow> nat \<Rightarrow> ('k, 'v) sampler \<Rightarrow> ('k, 'v) sampler" where
  "sample_loop 0 cnt tables d rnd msk s = s"
| "sample_loop (Suc maxsteps) cnt tables d rnd msk s =
     (if length (s_out s) \<ge> cnt then s
      else
        let s = visit cnt tables d rnd msk 0 s
        in if length (s_out s) = cnt then s
           else
             let s = (if tables = 2 then visit cnt tables d rnd msk 1 s else s)
             in if length (s_out s) = cnt then s
                else sample_loop maxsteps cnt tables d rnd msk (s\<lparr>s_idx := (s_idx s + 1) AND msk\<rparr>))"

definition dictGetSomeKeys :: "'k dict_env \<Rightarrow> ('k, 'v) dict \<Rightarrow> nat \<Rightarrow> (nat \<Rightarrow> nat) \<Rightarrow>
    ('k \<times> 'v) list \<times> ('k, 'v) dict" where
  "dictGetSomeKeys env d cnt rnd =
     (let cnt = (if dictSize d < cnt then dictSize d else cnt);
          maxsteps = cnt * 10 mod 2 ^ 32;
          d = some_rehash env cnt d;
          tables = (if dictIsRehashing d then 2 else 1);
          m0 = (ht_size (ht0 d) - 1) mod 2 ^ 32;
          msk = (if tables > 1 \<and> m0 < ht_size (ht1 d) - 1 then (ht_size (ht1 d) - 1) mod 2 ^ 32 else m0);
          s = sample_loop maxsteps cnt tables d rnd msk
                \<lparr>s_idx = rnd 0 AND msk, s_empty = 0, s_out = [], s_pos = 1\<rparr>
      in (s_out s, d))"

lemma visit_ok:
  assumes "dict_ok env d" "length (s_out s) \<le> cnt" "set (s_out s) \<subseteq> set (entries d)"
  shows "length (s_out (visit cnt tables d rnd msk j s)) \<le> cnt \<and>
    set (s_out (visit cnt tables d rnd msk j s)) \<subseteq> set (entries d)"
proof (cases "s_idx s < ht_size (iter_ht d j)")
  case True
  let ?b = "ht_table (iter_ht d j) ! s_idx s"
  have "length (ht_table (iter_ht d j)) = ht_size (iter_ht d j)"
    using assms(1) by (simp add: dict_ok_def ht_ok_def iter_ht_def)
  with True have "?b \<in> set (ht_table (iter_ht d j))" by simp
  then have "set ?b \<subseteq> set (entries d)" by (auto simp: entries_def iter_ht_def)
  then have b: "set (take n ?b) \<subseteq> set (entries d)" for n using set_take_subset by fast
  then have b': "set (take n (e # es)) \<subseteq> set (entries d)" if "?b = e # es" for n e es using that by metis
  show ?thesis
  proof (cases ?b)
    case Nil
    with assms(2,3) show ?thesis by (simp add: visit_def Let_def)
  next
    case (Cons e es)
    have "length (s_out s @ take (cnt - length (s_out s)) (e # es)) \<le> cnt" using assms(2) by simp
    with assms(2,3) b' [OF Cons] show ?thesis by (simp add: visit_def Cons)
  qed
qed (use assms(2,3) in \<open>simp add: visit_def\<close>)

lemma sample_loop_ok:
  "dict_ok env d \<Longrightarrow> length (s_out s) \<le> cnt \<Longrightarrow> set (s_out s) \<subseteq> set (entries d) \<Longrightarrow>
   length (s_out (sample_loop n cnt tables d rnd msk s)) \<le> cnt \<and>
   set (s_out (sample_loop n cnt tables d rnd msk s)) \<subseteq> set (entries d)"
proof (induction n arbitrary: s)
  case (Suc n)
  let ?a = "visit cnt tables d rnd msk 0 s"
  let ?b = "if tables = 2 then visit cnt tables d rnd msk 1 ?a else ?a"
  note a = visit_ok [OF Suc.prems, of tables rnd msk 0]
  then have b: "length (s_out ?b) \<le> cnt \<and> set (s_out ?b) \<subseteq> set (entries d)"
    using visit_ok [OF Suc.prems(1), of ?a cnt tables rnd msk 1]
    by (cases "tables = 2") (simp_all only: if_True if_False refl)
  let ?c = "?b\<lparr>s_idx := (s_idx ?b + 1) AND msk\<rparr>"
  have c: "length (s_out ?c) \<le> cnt" "set (s_out ?c) \<subseteq> set (entries d)" using b by simp_all
  have "sample_loop (Suc n) cnt tables d rnd msk s =
    (if length (s_out s) \<ge> cnt then s else if length (s_out ?a) = cnt then ?a
     else if length (s_out ?b) = cnt then ?b else sample_loop n cnt tables d rnd msk ?c)"
    by (simp only: sample_loop.simps Let_def)
  with Suc.IH [OF Suc.prems(1) c] Suc.prems(2,3) a b show ?case by presburger
qed simp

lemma some_rehash_ok: "dict_ok env d \<Longrightarrow> rehash_inv env d (some_rehash env n d)"
proof (induction n arbitrary: d)
  case (Suc n)
  then show ?case using dictRehashStep_ok [OF Suc.prems] by fastforce
qed simp

text \<open>
  \<open>dictGetSomeKeys\<close> stores at most \<open>count\<close> entries, and not more than the dictionary has,
  so an array of \<open>count\<close> pointers is never overrun; each is an entry of the dictionary, and
  the rehashing it does on the way keeps the map.
\<close>

theorem dictGetSomeKeys_bounds:
  assumes "dict_ok env d" "dictGetSomeKeys env d cnt rnd = (es, d')"
  shows "length es \<le> cnt \<and> length es \<le> dictSize d \<and> dict_ok env d' \<and> dict_map d' = dict_map d \<and>
    set es \<subseteq> {(k, x). dict_map d k = Some x}"
proof -
  let ?c = "if dictSize d < cnt then dictSize d else cnt"
  let ?d = "some_rehash env ?c d"
  have o: "dict_ok env ?d" "dict_map ?d = dict_map d" using some_rehash_ok [OF assms(1)] by auto
  obtain n t m s0 where e: "d' = ?d" "es = s_out (sample_loop n ?c t ?d rnd m s0)" "s_out s0 = []"
    using assms(2) unfolding dictGetSomeKeys_def Let_def
    by (metis (no_types, lifting) Pair_inject sampler.select_convs(3))
  have "length es \<le> ?c \<and> set es \<subseteq> set (entries ?d)"
    unfolding e(2) using o(1) e(3) by (intro sample_loop_ok) simp_all
  moreover note entries_set [OF o(1)]
  ultimately show ?thesis using o e(1) by (simp split: if_splits)
qed

subsection \<open>Witnesses\<close>

lemma one_entry:
  obtains d where "dict_ok \<lparr>hash_of = (\<lambda>k. k), can_resize = True, forked = False\<rparr> d"
    "dict_map d = [7 :: nat \<mapsto> True]"
proof -
  let ?env = "\<lparr>hash_of = (\<lambda>k. k), can_resize = True, forked = False\<rparr> :: nat dict_env"
  let ?d = "dictCreate :: (nat, bool) dict"
  have "index_fits ?d" "dictSize ?d < dict_cap"
    by (simp_all add: index_fits_def dictSize_def dictCreate_def dictReset_def dict_cap_def)
  from dictAdd_ok [OF dictCreate_ok(1) this, of ?env 7 True] that show thesis by (auto simp: dictCreate_ok(2))
qed

lemma dictGetRandomKey_correct_witness:
  "dictGetRandomKey scan_env wide (\<lambda>_. 20) = Some (Some (4, True), wide)"
proof -
  have n: "\<not> dictIsRehashing wide" by (simp add: wide_def dictIsRehashing_def)
  have b: "random_bucket wide (random_index wide 20) = [(4, True)]"
    by (simp add: random_bucket_def random_index_def n) (simp add: wide_def)
  have r: "rehash_if scan_env wide = wide" by (simp add: rehash_if_def n)
  have "\<exists>r. dictGetRandomKey scan_env wide (\<lambda>_. 20) = Some (r, wide) \<and> dict_map wide = dict_map wide \<and>
      (case r of None \<Rightarrow> dictSize wide = 0 | Some e \<Rightarrow> dict_map wide (fst e) = Some (snd e))"
    by (rule dictGetRandomKey_correct [OF wide_ok(1)]) (simp_all add: r b wide_facts)
  then obtain e where e: "dictGetRandomKey scan_env wide (\<lambda>_. 20) = Some (Some e, wide)"
      "dict_map wide (fst e) = Some (snd e)"
    using wide_facts(3) by (auto split: option.splits)
  have "dict_map wide k = (if k = 4 then Some True else None)" for k
    by (simp add: dict_map_def ht_map_def wide_def dictReset_def numeral_eq_Suc)
  with e show ?thesis by (cases e) (simp split: if_splits)
qed

lemma dictGetSomeKeys_bounds_witness:
  "\<exists>d. dict_map d = [7 :: nat \<mapsto> True] \<and>
     length (fst (dictGetSomeKeys \<lparr>hash_of = (\<lambda>k. k), can_resize = True, forked = False\<rparr> d 3 (\<lambda>_. 5))) \<le> 1"
proof -
  let ?env = "\<lparr>hash_of = (\<lambda>k. k), can_resize = True, forked = False\<rparr> :: nat dict_env"
  obtain d where d: "dict_ok ?env d" "dict_map d = [7 :: nat \<mapsto> True]" by (rule one_entry)
  obtain es d' where e: "dictGetSomeKeys ?env d 3 (\<lambda>_. 5) = (es, d')" by fastforce
  have "dictSize d = 1" using dictSize_card(1) [OF d(1)] d(2) by simp
  with dictGetSomeKeys_bounds [OF d(1) e] e d(2) show ?thesis by auto
qed

lemma dict_iteration_correct_witness:
  "\<exists>d d1 it1 d2 it2. dict_map d = [7 \<mapsto> True] \<and>
    iterate (dictSize d) (\<lambda>_. 0) d dictGetSafeIterator = ([Some (7 :: nat, True)], d1, it1) \<and>
    dictNext (\<lambda>_. 0) d1 it1 = (None, d2, it2) \<and> dictReleaseIterator (\<lambda>_. 0) d2 it2 = Some d"
proof -
  obtain d where d: "dict_ok \<lparr>hash_of = (\<lambda>k. k), can_resize = True, forked = False\<rparr> d"
    "dict_map d = [7 :: nat \<mapsto> True]" by (rule one_entry)
  obtain d1 it1 d2 it2 where i:
    "iterate (dictSize d) (\<lambda>_. 0) d dictGetSafeIterator = (map Some (entries d), d1, it1)"
    "dictNext (\<lambda>_. 0) d1 it1 = (None, d2, it2)" "dictReleaseIterator (\<lambda>_. 0) d2 it2 = Some d"
    "map_of (entries d) = dict_map d"
    using dict_iteration_correct [OF d(1), of dictGetSafeIterator True "\<lambda>_. 0"] by auto
  have "length (entries d) = 1"
    using entries_length [OF d(1)] dictSize_card(1) [OF d(1)] d(2) by simp
  then obtain e where e: "entries d = [e]" by (cases "entries d") auto
  with i(4) d(2) have "map_of [e] 7 = Some True" by simp
  then have "e = (7, True)" by (cases e) (simp split: if_splits)
  with i e d(2) show ?thesis by auto
qed

end
