(* ===== verification/Proto.thy ===== *)
theory Proto
  imports Sds
begin

text \<open>
  The request protocol of \<open>src/src/src/networking.c\<close>: reading from a client into the query buffer
  and turning the buffer into commands, inline or multi bulk. The query buffer is the content of
  its sds (\<open>sdsrange(buf, pos, -1)\<close> drops \<open>pos\<close> bytes, see \<open>sdsrange_drop\<close>); a failed
  assertion of the server is \<open>None\<close>. Command execution (\<open>processCommand\<close>) is an argument: it
  gets the arguments, the client's flags and the rest of the server's state, and tells
  \<open>REDIS_OK\<close> from \<open>REDIS_ERR\<close>. Shown: a stream of commands is executed command by command
  however the network cuts it into reads, and the assertions of the parser hold on any input.
\<close>

lemma sdsrange_drop:
  assumes "sds_ok s"
  shows "sds_val (sdsrange s (int p) (-1)) = drop p (sds_val s)"
proof -
  have "range_spec (int p) (-1) xs = drop p xs" for xs :: bytes
    by (auto simp: range_spec_def slice_def Let_def)
  with sdsrange_ok [OF assms] show ?thesis by simp
qed

definition INLINE_MAX_SIZE :: nat where "INLINE_MAX_SIZE = 65536"
definition MBULK_BIG_ARG :: int where "MBULK_BIG_ARG = 32768"
definition IOBUF_LEN :: nat where "IOBUF_LEN = 16384"
definition MAX_QUERYBUF_LEN :: nat where "MAX_QUERYBUF_LEN = 1024 * 1024 * 1024"

datatype reqtype = REQ_UNKNOWN | REQ_INLINE | REQ_MULTIBULK

datatype proto_error =
    TooBigInline
  | UnbalancedQuotes
  | TooBigMbulkCount
  | InvalidMultibulkLength
  | TooBigBulkCount
  | ExpectedDollar byte
  | InvalidBulkLength

record cflags =
  is_slave :: bool
  is_blocked :: bool
  close_after_reply :: bool
  in_multi :: bool
  is_asking :: bool
  last_is_asking :: bool

record client =
  querybuf :: bytes
  reqtype :: reqtype
  multibulklen :: nat
  bulklen :: int
  argv :: "bytes list"
  cf :: cflags
  errs :: "proto_error list"
  repl_ack_time :: int

text \<open>\<open>strchr\<close> stops at a NUL byte of the buffer.\<close>

fun strchr :: "bytes \<Rightarrow> byte \<Rightarrow> nat option" where
  "strchr [] c = None"
| "strchr (b # bs) c =
     (if b = c then Some 0 else if b = 0 then None else map_option Suc (strchr bs c))"

definition reset_flags :: "cflags \<Rightarrow> cflags" where
  "reset_flags f = (if \<not> in_multi f \<and> \<not> last_is_asking f then f\<lparr>is_asking := False\<rparr> else f)"

definition resetClient :: "client \<Rightarrow> client" where
  "resetClient c =
     c\<lparr>argv := [], reqtype := REQ_UNKNOWN, multibulklen := 0, bulklen := -1, cf := reset_flags (cf c)\<rparr>"

text \<open>\<open>addReplyError\<close> followed by \<open>setProtocolError\<close>.\<close>

definition setProtocolError :: "proto_error \<Rightarrow> nat \<Rightarrow> client \<Rightarrow> client" where
  "setProtocolError e pos c =
     c\<lparr>cf := (cf c)\<lparr>close_after_reply := True\<rparr>, querybuf := drop pos (querybuf c), errs := errs c @ [e]\<rparr>"

text \<open>The flag is \<open>REDIS_OK\<close>.\<close>

definition processInlineBuffer :: "int \<Rightarrow> client \<Rightarrow> bool \<times> client" where
  "processInlineBuffer unixtime c =
     (case strchr (querybuf c) 10 of
        None \<Rightarrow>
          (False, if length (querybuf c) > INLINE_MAX_SIZE then setProtocolError TooBigInline 0 c else c)
      | Some newline \<Rightarrow>
          let querylen = (if newline \<noteq> 0 \<and> querybuf c ! (newline - 1) = 13 then newline - 1 else newline)
          in case sdssplitargs (take querylen (querybuf c)) of
               None \<Rightarrow> (False, setProtocolError UnbalancedQuotes 0 c)
             | Some args \<Rightarrow>
                 let c = (if querylen = 0 \<and> is_slave (cf c) then c\<lparr>repl_ack_time := unixtime\<rparr> else c)
                 in (True, c\<lparr>querybuf := drop (querylen + 2) (querybuf c), argv := filter (\<lambda>a. a \<noteq> []) args\<rparr>))"

text \<open>Reading the length of an argument: wait for more input, protocol error, or the client and
  the position behind the line.\<close>

datatype header = NeedMore | Bad client | Header client nat

definition bulk_header :: "client \<Rightarrow> nat \<Rightarrow> header" where
  "bulk_header c pos =
     (case strchr (drop pos (querybuf c)) 13 of
        None \<Rightarrow>
          if length (querybuf c) > INLINE_MAX_SIZE then Bad (setProtocolError TooBigBulkCount 0 c) else NeedMore
      | Some n \<Rightarrow>
          if int (pos + n) > int (length (querybuf c)) - 2 then NeedMore
          else if querybuf c ! pos \<noteq> 36 then Bad (setProtocolError (ExpectedDollar (querybuf c ! pos)) pos c)
          else
            case string2ll (slice (pos + 1) (n - 1) (querybuf c)) of
              None \<Rightarrow> Bad (setProtocolError InvalidBulkLength pos c)
            | Some ll \<Rightarrow>
                if ll < 0 \<or> ll > 512 * 1024 * 1024 then Bad (setProtocolError InvalidBulkLength pos c)
                else
                  let pos = pos + n + 2
                  in if ll \<ge> MBULK_BIG_ARG
                     then Header (c\<lparr>querybuf := drop pos (querybuf c), bulklen := ll\<rparr>) 0
                     else Header (c\<lparr>bulklen := ll\<rparr>) pos)"

text \<open>A header leaves the number of arguments to read as it is.\<close>

lemma bulk_header_multibulklen:
  "bulk_header c pos = Header c' pos' \<Longrightarrow> multibulklen c' = multibulklen c \<and> argv c' = argv c \<and> cf c' = cf c"
  by (auto simp: bulk_header_def Let_def split: option.splits if_splits)

text \<open>The loop over the arguments, left by a \<open>break\<close> or at the end (\<open>Inl\<close>), or by a protocol
  error (\<open>Inr\<close>). A large argument that fills the buffer exactly takes the buffer over.\<close>

function bulk_loop :: "client \<Rightarrow> nat \<Rightarrow> client \<times> nat + client" where
  "bulk_loop c pos =
     (if multibulklen c = 0 then Inl (c, pos)
      else
        case (if bulklen c = -1 then bulk_header c pos else Header c pos) of
          NeedMore \<Rightarrow> Inl (c, pos)
        | Bad c \<Rightarrow> Inr c
        | Header c pos \<Rightarrow>
            if int (length (querybuf c) - pos) < bulklen c + 2 then Inl (c, pos)
            else if pos = 0 \<and> bulklen c \<ge> MBULK_BIG_ARG \<and> int (length (querybuf c)) = bulklen c + 2
            then bulk_loop (c\<lparr>argv := argv c @ [take (length (querybuf c) - 2) (querybuf c)], querybuf := [],
                              bulklen := -1, multibulklen := multibulklen c - 1\<rparr>) 0
            else bulk_loop (c\<lparr>argv := argv c @ [slice pos (nat (bulklen c)) (querybuf c)],
                              bulklen := -1, multibulklen := multibulklen c - 1\<rparr>) (pos + nat (bulklen c) + 2))"
  by pat_completeness auto

termination
  by (relation "measure (\<lambda>(c, pos). multibulklen c)")
    (auto split: if_splits dest!: bulk_header_multibulklen)

declare bulk_loop.simps [simp del]

definition bulk_stage :: "client \<Rightarrow> nat \<Rightarrow> (bool \<times> client) option" where
  "bulk_stage c pos =
     (case bulk_loop c pos of
        Inr c \<Rightarrow> Some (False, c)
      | Inl (c, pos) \<Rightarrow>
          let c = c\<lparr>querybuf := drop pos (querybuf c)\<rparr>
          in Some (multibulklen c = 0, c))"

definition processMultibulkBuffer :: "client \<Rightarrow> (bool \<times> client) option" where
  "processMultibulkBuffer c =
     (if multibulklen c = 0 then
        if argv c \<noteq> [] then None
        else
          case strchr (querybuf c) 13 of
            None \<Rightarrow>
              Some (False, if length (querybuf c) > INLINE_MAX_SIZE then setProtocolError TooBigMbulkCount 0 c else c)
          | Some newline \<Rightarrow>
              if int newline > int (length (querybuf c)) - 2 then Some (False, c)
              else if querybuf c ! 0 \<noteq> 42 then None
              else
                case string2ll (slice 1 (newline - 1) (querybuf c)) of
                  None \<Rightarrow> Some (False, setProtocolError InvalidMultibulkLength 0 c)
                | Some ll \<Rightarrow>
                    if ll > 1024 * 1024 then Some (False, setProtocolError InvalidMultibulkLength 0 c)
                    else if ll \<le> 0 then Some (True, c\<lparr>querybuf := drop (newline + 2) (querybuf c)\<rparr>)
                    else bulk_stage (c\<lparr>multibulklen := nat ll\<rparr>) (newline + 2)
      else bulk_stage c 0)"

text \<open>Every request that is processed makes the buffer shorter: the loop over the buffer ends.\<close>

lemma bulk_header_shorter:
  "bulk_header c pos = Header h p \<Longrightarrow> length (querybuf h) - p \<le> length (querybuf c) - pos"
  by (auto simp: bulk_header_def Let_def split: if_splits option.splits)

lemma bulk_loop_shorter:
  "bulk_loop c pos = Inl (c', pos') \<Longrightarrow>
   length (querybuf c') - pos' \<le> length (querybuf c) - pos \<and>
   (multibulklen c \<noteq> 0 \<and> multibulklen c' = 0 \<and> 0 < length (querybuf c) - pos \<longrightarrow>
    length (querybuf c') - pos' < length (querybuf c) - pos)"
proof (induction c pos arbitrary: c' pos' rule: bulk_loop.induct)
  case (1 c pos)
  let ?h = "if bulklen c = -1 then bulk_header c pos else Header c pos"
  show ?case
  proof (cases "multibulklen c = 0")
    case True
    with "1.prems"(1) show ?thesis by (simp add: bulk_loop.simps [of c])
  next
    case mb: False
    show ?thesis
    proof (cases ?h)
      case NeedMore
      with mb "1.prems"(1) show ?thesis by (subst (asm) bulk_loop.simps) auto
    next
      case (Bad b)
      with mb "1.prems"(1) show ?thesis by (subst (asm) bulk_loop.simps) simp
    next
      case (Header h p)
      have h: "length (querybuf h) - p \<le> length (querybuf c) - pos" "multibulklen h = multibulklen c"
        using Header bulk_header_shorter [of c pos h p] bulk_header_multibulklen [of c pos h p]
        by (auto split: if_splits)
      consider (stop) "int (length (querybuf h) - p) < bulklen h + 2"
        | (big) "\<not> int (length (querybuf h) - p) < bulklen h + 2"
            "p = 0 \<and> bulklen h \<ge> MBULK_BIG_ARG \<and> int (length (querybuf h)) = bulklen h + 2"
        | (small) "\<not> int (length (querybuf h) - p) < bulklen h + 2"
            "\<not> (p = 0 \<and> bulklen h \<ge> MBULK_BIG_ARG \<and> int (length (querybuf h)) = bulklen h + 2)" by blast
      then show ?thesis
      proof cases
        case stop
        with mb "1.prems"(1) Header have "c' = h" "pos' = p" by (subst (asm) bulk_loop.simps; simp)+
        with h mb show ?thesis by simp
      next
        case big
        with mb "1.prems"(1) Header "1.IH"(1) [OF mb Header big] show ?thesis
          using h by (subst (asm) bulk_loop.simps) force
      next
        case small
        with mb "1.prems"(1) Header "1.IH"(2) [OF mb Header small] show ?thesis
          using h by (subst (asm) bulk_loop.simps) force
      qed
    qed
  qed
qed

lemma bulk_stage_shorter:
  assumes "bulk_stage c pos = Some (True, c')" "multibulklen c \<noteq> 0" "pos < length (querybuf c)"
  shows "length (querybuf c') < length (querybuf c)"
proof -
  obtain d p where d: "bulk_loop c pos = Inl (d, p)" "c' = d\<lparr>querybuf := drop p (querybuf d)\<rparr>" "multibulklen d = 0"
    using assms(1) by (auto simp: bulk_stage_def Let_def split: sum.splits prod.splits)
  with bulk_loop_shorter [OF d(1)] assms(2,3) show ?thesis by auto
qed

lemma processMultibulkBuffer_shorter:
  assumes "processMultibulkBuffer c = Some (True, c')" "querybuf c \<noteq> []"
  shows "length (querybuf c') < length (querybuf c)"
proof (cases "multibulklen c = 0")
  case False
  with assms bulk_stage_shorter [of c 0 c'] show ?thesis by (simp add: processMultibulkBuffer_def)
next
  case True
  have *: "length (querybuf c') < length (querybuf c)"
    if st: "bulk_stage (c\<lparr>multibulklen := n\<rparr>) p = Some (True, c')" and "0 < n" "0 < p" "querybuf c \<noteq> []" for n p
  proof (cases "p < length (querybuf c)")
    case True
    with bulk_stage_shorter [OF that(1)] that show ?thesis by simp
  next
    case False
    obtain d q where d: "bulk_loop (c\<lparr>multibulklen := n\<rparr>) p = Inl (d, q)"
        "c' = d\<lparr>querybuf := drop q (querybuf d)\<rparr>"
      using st by (auto simp: bulk_stage_def Let_def split: sum.splits prod.splits)
    with bulk_loop_shorter [OF d(1)] False \<open>querybuf c \<noteq> []\<close> show ?thesis by auto
  qed
  from True assms show ?thesis
    by (auto simp: processMultibulkBuffer_def split: option.splits if_splits intro: *)
qed

lemma processInlineBuffer_shorter:
  "processInlineBuffer t c = (True, c') \<Longrightarrow> querybuf c \<noteq> [] \<Longrightarrow> length (querybuf c') < length (querybuf c)"
  by (auto simp: processInlineBuffer_def Let_def split: option.splits if_splits)

text \<open>The type of the request is decided by its first byte.\<close>

definition set_reqtype :: "client \<Rightarrow> client" where
  "set_reqtype c =
     (if reqtype c = REQ_UNKNOWN
      then c\<lparr>reqtype := (if querybuf c ! 0 = 42 then REQ_MULTIBULK else REQ_INLINE)\<rparr> else c)"

definition processRequest :: "int \<Rightarrow> client \<Rightarrow> (bool \<times> client) option" where
  "processRequest unixtime c =
     (if reqtype c = REQ_INLINE then Some (processInlineBuffer unixtime c) else processMultibulkBuffer c)"

lemma processRequest_shorter:
  "processRequest t c = Some (True, c') \<Longrightarrow> querybuf c \<noteq> [] \<Longrightarrow> length (querybuf c') < length (querybuf c)"
  using processInlineBuffer_shorter [of t c c'] processMultibulkBuffer_shorter [of c c']
  by (auto simp: processRequest_def split: if_splits)

type_synonym 'w exec = "bytes list \<Rightarrow> cflags \<Rightarrow> 'w \<Rightarrow> bool \<times> cflags \<times> 'w"

function processInputBuffer :: "'w exec \<Rightarrow> bool \<Rightarrow> int \<Rightarrow> client \<Rightarrow> 'w \<Rightarrow> (client \<times> 'w) option" where
  "processInputBuffer exec paused unixtime c w =
     (if querybuf c = [] then Some (c, w)
      else if \<not> is_slave (cf c) \<and> paused then Some (c, w)
      else if is_blocked (cf c) then Some (c, w)
      else if close_after_reply (cf c) then Some (c, w)
      else
        case processRequest unixtime (set_reqtype c) of
          None \<Rightarrow> None
        | Some (False, c) \<Rightarrow> Some (c, w)
        | Some (True, c) \<Rightarrow>
            if argv c = [] then processInputBuffer exec paused unixtime (resetClient c) w
            else
              case exec (argv c) (cf c) w of
                (ok, f, w) \<Rightarrow>
                  let c = c\<lparr>cf := f\<rparr>
                  in processInputBuffer exec paused unixtime (if ok then resetClient c else c) w)"
  by pat_completeness auto
termination
proof (relation "measure (\<lambda>(exec, paused, t, c, w). length (querybuf c))", goal_cases)
  case 1
  show ?case by simp
qed (auto simp: resetClient_def set_reqtype_def Let_def dest!: sym [of _ "processRequest _ _"]
      dest: processRequest_shorter split: if_splits)

declare processInputBuffer.simps [simp del]

subsection \<open>Reading from the client\<close>

definition readlen :: "client \<Rightarrow> int" where
  "readlen c =
     (if reqtype c = REQ_MULTIBULK \<and> multibulklen c \<noteq> 0 \<and> bulklen c \<noteq> -1 \<and> bulklen c \<ge> MBULK_BIG_ARG
      then min (int IOBUF_LEN) (bulklen c + 2 - int (length (querybuf c))) else int IOBUF_LEN)"

text \<open>What \<open>read\<close> returns, and what becomes of the client.\<close>

datatype net_event = Received bytes | Again | Failed | Closed

datatype 'w connection = Connected client 'w | Freed 'w

definition readQueryFromClient :: "'w exec \<Rightarrow> bool \<Rightarrow> int \<Rightarrow> client \<Rightarrow> 'w \<Rightarrow> net_event \<Rightarrow> 'w connection option" where
  "readQueryFromClient exec paused unixtime c w ev =
     (case ev of
        Failed \<Rightarrow> Some (Freed w)
      | Closed \<Rightarrow> Some (Freed w)
      | Again \<Rightarrow> Some (Connected c w)
      | Received data \<Rightarrow>
          let c = c\<lparr>querybuf := querybuf c @ data\<rparr>
          in if length (querybuf c) > MAX_QUERYBUF_LEN then Some (Freed w)
             else map_option (\<lambda>(c, w). Connected c w) (processInputBuffer exec paused unixtime c w))"

subsection \<open>Requests on the wire\<close>

definition enc_line :: "byte \<Rightarrow> nat \<Rightarrow> bytes" where
  "enc_line b n = b # dec_nat n @ [13, 10]"

definition enc_arg :: "bytes \<Rightarrow> bytes" where
  "enc_arg a = enc_line 36 (length a) @ a @ [13, 10]"

definition enc_cmd :: "bytes list \<Rightarrow> bytes" where
  "enc_cmd args = enc_line 42 (length args) @ concat (map enc_arg args)"

definition valid_arg :: "bytes \<Rightarrow> bool" where
  "valid_arg a \<longleftrightarrow> length a \<le> 512 * 1024 * 1024"

definition valid_cmd :: "bytes list \<Rightarrow> bool" where
  "valid_cmd args \<longleftrightarrow> args \<noteq> [] \<and> length args \<le> 1024 * 1024 \<and> (\<forall>a \<in> set args. valid_arg a)"

lemma strchr_append:
  "\<forall>b \<in> set xs. b \<noteq> c \<and> b \<noteq> 0 \<Longrightarrow> strchr (xs @ c # ys) c = Some (length xs)"
  by (induction xs) auto

lemma strchr_none: "\<forall>b \<in> set xs. b \<noteq> c \<Longrightarrow> strchr xs c = None"
  by (induction xs) auto

lemma dec_nat_not: "b \<in> set (dec_nat n) \<Longrightarrow> b \<noteq> 13 \<and> b \<noteq> 0"
  using dec_nat_digits [of b n] by (auto simp: is_digit_def)

lemma length_enc_line:
  assumes "n < 10 ^ 10"
  shows "length (enc_line b n) \<le> 13"
  using length_dec_nat_le [OF assms] by (simp add: enc_line_def)

text \<open>A buffer that starts with a whole line, and one that does not have all of it.\<close>

lemma line_complete:
  assumes "buf = enc_line b n @ xs" "b \<noteq> 13" "b \<noteq> 0"
  shows "strchr buf 13 = Some (length (enc_line b n) - 2)" and "buf ! 0 = b"
    and "slice 1 (length (enc_line b n) - 2 - 1) buf = dec_nat n"
    and "drop (length (enc_line b n)) buf = xs"
proof -
  have "buf = (b # dec_nat n) @ 13 # 10 # xs" by (simp add: assms(1) enc_line_def)
  moreover have "\<forall>x \<in> set (b # dec_nat n). x \<noteq> 13 \<and> x \<noteq> 0" using assms(2,3) dec_nat_not by auto
  ultimately show "strchr buf 13 = Some (length (enc_line b n) - 2)"
    using strchr_append [of "b # dec_nat n" 13 "10 # xs"] by (simp add: enc_line_def)
  show "buf ! 0 = b" "slice 1 (length (enc_line b n) - 2 - 1) buf = dec_nat n"
    "drop (length (enc_line b n)) buf = xs"
    by (simp_all add: assms(1) enc_line_def slice_def)
qed

lemma line_incomplete:
  assumes "buf @ fut = enc_line b n @ xs" "length buf < length (enc_line b n)" "b \<noteq> 13" "b \<noteq> 0"
  shows "strchr buf 13 = None \<or> strchr buf 13 = Some (length buf - 1) \<and> buf \<noteq> []"
proof -
  have "take (length buf) (buf @ fut) = take (length buf) (enc_line b n @ xs)" by (simp only: assms(1))
  then have b: "buf = take (length buf) (b # dec_nat n @ [13, 10])"
    using assms(2) by (simp flip: enc_line_def)
  show ?thesis
  proof (cases "length buf \<le> Suc (length (dec_nat n))")
    case True
    with b have "buf = take (length buf) (b # dec_nat n)"
      by (metis append_Cons length_Cons take_all_iff take_append append_Nil2 diff_is_0_eq take_0)
    then have "\<forall>x \<in> set buf. x \<noteq> 13"
      using assms(3) dec_nat_not by (metis in_set_takeD set_ConsD)
    then show ?thesis using strchr_none [of buf 13] by simp
  next
    case False
    with assms(2) have "length buf = Suc (Suc (length (dec_nat n)))" by (simp add: enc_line_def)
    with b have "buf = (b # dec_nat n) @ [13]" by simp
    moreover have "\<forall>x \<in> set (b # dec_nat n). x \<noteq> 13 \<and> x \<noteq> 0" using assms(3,4) dec_nat_not by auto
    ultimately show ?thesis using strchr_append [of "b # dec_nat n" 13 "[]"] by simp
  qed
qed

lemma string2ll_dec_nat: "n < 2 ^ 63 \<Longrightarrow> string2ll (dec_nat n) = Some (int n)"
  using string2ll_dec_int [of "int n"] by (simp add: dec_int_def in_srange_def)

text \<open>The stages of a request in the middle of its arguments: what is still to come of it.\<close>

definition todo_args :: "bytes option \<Rightarrow> bytes list \<Rightarrow> bytes" where
  "todo_args cur rest = (case cur of None \<Rightarrow> [] | Some a \<Rightarrow> a @ [13, 10]) @ concat (map enc_arg rest)"

definition arg_state :: "client \<Rightarrow> bytes option \<Rightarrow> bytes list \<Rightarrow> bool" where
  "arg_state c cur rest \<longleftrightarrow>
     bulklen c = (case cur of None \<Rightarrow> -1 | Some a \<Rightarrow> int (length a)) \<and>
     multibulklen c = length rest + (case cur of None \<Rightarrow> 0 | Some a \<Rightarrow> 1) \<and>
     (\<forall>a \<in> set rest \<union> set_option cur. valid_arg a)"

text \<open>Not enough input for the next line, or for the current argument.\<close>

definition arg_short :: "bytes \<Rightarrow> bytes option \<Rightarrow> bytes list \<Rightarrow> bool" where
  "arg_short buf cur rest =
     (case cur of
        None \<Rightarrow> rest \<noteq> [] \<and> length buf < length (enc_line 36 (length (hd rest)))
      | Some a \<Rightarrow> length buf < length a + 2)"

text \<open>The bound on the buffer that keeps the size checks of incomplete lines from failing.\<close>

definition buf_bound :: "client \<Rightarrow> nat \<Rightarrow> bool" where
  "buf_bound c pos \<longleftrightarrow> pos \<le> length (querybuf c) \<and>
     (length (querybuf c) \<le> INLINE_MAX_SIZE \<or>
      pos = 0 \<and> MBULK_BIG_ARG \<le> bulklen c \<and> int (length (querybuf c)) \<le> bulklen c + 2)"

lemma bulk_header_stream:
  assumes "arg_state c None (a # as)" "buf_bound c pos"
    "drop pos (querybuf c) @ fut = enc_arg a @ X"
  shows "bulk_header c pos = NeedMore \<and> arg_short (drop pos (querybuf c)) None (a # as) \<or>
    (\<exists>h p. bulk_header c pos = Header h p \<and> h = c\<lparr>querybuf := querybuf h, bulklen := int (length a)\<rparr> \<and>
       buf_bound h p \<and> drop p (querybuf h) @ fut = a @ [13, 10] @ X)"
proof -
  let ?l = "enc_line 36 (length a)" and ?buf = "drop pos (querybuf c)"
  have va: "length a \<le> 512 * 1024 * 1024" using assms(1) by (simp add: arg_state_def valid_arg_def)
  have b: "pos \<le> length (querybuf c)" "length (querybuf c) \<le> INLINE_MAX_SIZE"
    using assms(1,2) by (auto simp: buf_bound_def arg_state_def MBULK_BIG_ARG_def)
  have e: "?buf @ fut = ?l @ (a @ [13, 10] @ X)" using assms(3) by (simp add: enc_arg_def)
  show ?thesis
  proof (cases "length ?buf < length ?l")
    case True
    from line_incomplete [OF e True] b have "bulk_header c pos = NeedMore"
      by (auto simp: bulk_header_def)
    with True show ?thesis by (simp add: arg_short_def)
  next
    case False
    then have "take (length ?l) (?buf @ fut) = take (length ?l) ?buf" by simp
    then have "take (length ?l) ?buf = ?l" by (simp add: e)
    then have bl: "?buf = ?l @ drop (length ?l) ?buf" by (metis append_take_drop_id)
    have "(36 :: byte) \<noteq> 13" "(36 :: byte) \<noteq> 0" by simp_all
    note L = line_complete [OF bl this]
    let ?p = "pos + length ?l"
    have ll: "3 \<le> length ?l" by (simp add: enc_line_def)
    have n: "strchr ?buf 13 = Some (length ?l - 2)" using L(1) by simp
    have g: "\<not> int (pos + (length ?l - 2)) > int (length (querybuf c)) - 2" using False ll b(1) by simp
    have d: "querybuf c ! pos = 36" using L(2) b(1) False ll by (simp add: nth_append)
    have sl: "slice (pos + 1) (length ?l - 2 - 1) (querybuf c) = dec_nat (length a)"
      using L(3) by (simp add: slice_def add.commute)
    have v: "string2ll (dec_nat (length a)) = Some (int (length a))" using va by (intro string2ll_dec_nat) simp
    have p: "pos + (length ?l - 2) + 2 = ?p" using ll by simp
    have rest: "drop ?p (querybuf c) @ fut = a @ [13, 10] @ X"
    proof -
      have "(?l @ drop (length ?l) ?buf) @ fut = ?l @ (a @ [13, 10] @ X)" using e bl by metis
      then show ?thesis by (simp add: add.commute)
    qed
    let ?h = "if int (length a) \<ge> MBULK_BIG_ARG
      then c\<lparr>querybuf := drop ?p (querybuf c), bulklen := int (length a)\<rparr> else c\<lparr>bulklen := int (length a)\<rparr>"
    let ?q = "if int (length a) \<ge> MBULK_BIG_ARG then 0 else ?p"
    have "bulk_header c pos = Header ?h ?q"
      unfolding bulk_header_def n option.simps(5) sl v
      using g d va p by (simp only: if_False simp_thms Let_def option.simps(5)) simp
    moreover have "?h = c\<lparr>querybuf := querybuf ?h, bulklen := int (length a)\<rparr>" by simp
    moreover have "buf_bound ?h ?q"
    proof -
      have "?p \<le> length (querybuf c)" using False b(1) unfolding length_drop by linarith
      moreover from b(2) have "length (drop ?p (querybuf c)) \<le> INLINE_MAX_SIZE" by simp
      ultimately show ?thesis using b(2) by (auto simp: buf_bound_def)
    qed
    moreover have "drop ?q (querybuf ?h) @ fut = a @ [13, 10] @ X" using rest by simp
    ultimately show ?thesis by blast
  qed
qed

lemma bulk_loop_arg:
  assumes "arg_state c (Some a) rest" "buf_bound c pos" "drop pos (querybuf c) @ fut = a @ [13, 10] @ X"
  shows "int (length (querybuf c) - pos) < bulklen c + 2 \<and> arg_short (drop pos (querybuf c)) (Some a) rest \<or>
    (\<exists>h p. bulk_loop c pos = bulk_loop h p \<and>
       h = c\<lparr>argv := argv c @ [a], querybuf := querybuf h, bulklen := -1, multibulklen := length rest\<rparr> \<and>
       buf_bound h p \<and> drop p (querybuf h) @ fut = X)"
proof (cases "int (length (querybuf c) - pos) < bulklen c + 2")
  case True
  then show ?thesis using assms(1) by (simp add: arg_short_def arg_state_def)
next
  case False
  let ?buf = "drop pos (querybuf c)"
  have s: "bulklen c = int (length a)" "multibulklen c = Suc (length rest)" "bulklen c \<noteq> -1"
    using assms(1) by (simp_all add: arg_state_def)
  then have len: "length a + 2 \<le> length ?buf" using False by simp
  then have "take (length a + 2) (?buf @ fut) = take (length a + 2) ?buf" by simp
  then have "take (length a + 2) ?buf = a @ [13, 10]" unfolding assms(3) by simp
  then have bl: "?buf = a @ [13, 10] @ drop (length a + 2) ?buf" by (metis append_assoc append_take_drop_id)
  then have ta: "take (length a) ?buf = a" by (metis append_eq_conv_conj)
  have X: "drop (length a + 2) ?buf @ fut = X"
  proof -
    have "(a @ [13, 10] @ drop (length a + 2) ?buf) @ fut = a @ [13, 10] @ X" using bl assms(3) by metis
    then show ?thesis by simp
  qed
  show ?thesis
  proof (cases "pos = 0 \<and> bulklen c \<ge> MBULK_BIG_ARG \<and> int (length (querybuf c)) = bulklen c + 2")
    case True
    let ?h = "c\<lparr>argv := argv c @ [a], querybuf := [], bulklen := -1, multibulklen := length rest\<rparr>"
    have "length (querybuf c) = length a + 2" using True s(1) by linarith
    then have "length (querybuf c) - 2 = length a" "length (querybuf c) = length a + 2" by simp_all
    then have "take (length (querybuf c) - 2) (querybuf c) = a" using ta True by simp
    then have "bulk_loop c pos = bulk_loop ?h 0"
      using True False s by (simp add: bulk_loop.simps [of c])
    moreover have "drop 0 (querybuf ?h) @ fut = X" using X True \<open>length (querybuf c) = length a + 2\<close> by simp
    moreover have "buf_bound ?h 0" by (simp add: buf_bound_def)
    moreover have "?h = c\<lparr>argv := argv c @ [a], querybuf := querybuf ?h, bulklen := -1, multibulklen := length rest\<rparr>" by simp
    ultimately show ?thesis by blast
  next
    case nb: False
    let ?h = "c\<lparr>argv := argv c @ [a], bulklen := -1, multibulklen := length rest\<rparr>"
    let ?p = "pos + length a + 2"
    have "bulk_loop c pos = bulk_loop ?h ?p"
    proof -
      have "multibulklen c \<noteq> 0" using s(2) by simp
      then have "bulk_loop c pos = bulk_loop (c\<lparr>argv := argv c @ [slice pos (nat (bulklen c)) (querybuf c)],
          bulklen := -1, multibulklen := multibulklen c - 1\<rparr>) (pos + nat (bulklen c) + 2)"
        by (subst bulk_loop.simps) (simp only: False nb s(3) if_False header.case)
      with s ta show ?thesis by (simp add: slice_def)
    qed
    moreover have "buf_bound ?h ?p"
      using assms(2) nb len s by (auto simp: buf_bound_def)
    moreover have "drop ?p (querybuf ?h) @ fut = X" using X by (simp add: add.commute add.left_commute)
    moreover have "?h = c\<lparr>argv := argv c @ [a], querybuf := querybuf ?h, bulklen := -1, multibulklen := length rest\<rparr>" by simp
    ultimately show ?thesis by blast
  qed
qed

text \<open>The loop over a prefix of the rest of a request: all of it, or up to where input is missing.\<close>

definition loop_done :: "client \<Rightarrow> bytes option \<Rightarrow> bytes list \<Rightarrow> client \<Rightarrow> bool" where
  "loop_done c cur rest c' \<longleftrightarrow>
     c' = c\<lparr>querybuf := querybuf c', argv := argv c @ (case cur of None \<Rightarrow> [] | Some a \<Rightarrow> [a]) @ rest,
            multibulklen := 0, bulklen := -1\<rparr>"

definition loop_stuck :: "client \<Rightarrow> bytes option \<Rightarrow> bytes list \<Rightarrow> client \<Rightarrow> bytes option \<Rightarrow> bytes list \<Rightarrow> bool" where
  "loop_stuck c cur rest c' cur' rest' \<longleftrightarrow>
     c' = c\<lparr>querybuf := querybuf c', argv := argv c', multibulklen := multibulklen c', bulklen := bulklen c'\<rparr> \<and>
     arg_state c' cur' rest' \<and>
     argv c @ (case cur of None \<Rightarrow> [] | Some a \<Rightarrow> [a]) @ rest =
     argv c' @ (case cur' of None \<Rightarrow> [] | Some a \<Rightarrow> [a]) @ rest'"

lemma bulk_loop_stream:
  assumes "arg_state c cur rest" "buf_bound c pos" "drop pos (querybuf c) @ fut = todo_args cur rest @ X"
  shows "\<exists>c' p. bulk_loop c pos = Inl (c', p) \<and> buf_bound c' p \<and>
    (loop_done c cur rest c' \<and> drop p (querybuf c') @ fut = X \<or>
     (\<exists>cur' rest'. loop_stuck c cur rest c' cur' rest' \<and> arg_short (drop p (querybuf c')) cur' rest' \<and>
        drop p (querybuf c') @ fut = todo_args cur' rest' @ X))"
  using assms
proof (induction "2 * length rest + (if cur = None then 0 else 1)" arbitrary: c pos cur rest rule: less_induct)
  case less
  note pl = less.prems(2)
  show ?case
  proof (cases cur)
    case None
    show ?thesis
    proof (cases rest)
      case Nil
      with None less.prems have "bulk_loop c pos = Inl (c, pos)" "loop_done c cur rest c"
          "drop pos (querybuf c) @ fut = X"
        by (simp_all add: bulk_loop.simps [of c] arg_state_def loop_done_def todo_args_def)
      with pl show ?thesis by blast
    next
      case (Cons a as)
      have st: "arg_state c None (a # as)" using less.prems(1) None Cons by simp
      have mb: "multibulklen c \<noteq> 0" "bulklen c = -1" using st by (simp_all add: arg_state_def)
      have "drop pos (querybuf c) @ fut = enc_arg a @ (todo_args None as @ X)"
        using less.prems(3) None Cons by (simp add: todo_args_def)
      from bulk_header_stream [OF st less.prems(2) this] show ?thesis
      proof (elim disjE exE conjE)
        assume h: "bulk_header c pos = NeedMore" "arg_short (drop pos (querybuf c)) None (a # as)"
        then have "bulk_loop c pos = Inl (c, pos)" using mb by (simp add: bulk_loop.simps [of c])
        moreover have "loop_stuck c cur rest c None (a # as)" using st None Cons by (simp add: loop_stuck_def)
        ultimately show ?thesis using h(2) less.prems(3) None Cons pl by blast
      next
        fix h p
        assume h: "bulk_header c pos = Header h p" "h = c\<lparr>querybuf := querybuf h, bulklen := int (length a)\<rparr>"
          "buf_bound h p" "drop p (querybuf h) @ fut = a @ [13, 10] @ todo_args None as @ X"
        have hs: "bulklen h = int (length a)" "multibulklen h = multibulklen c" "argv h = argv c"
          by (subst h(2), simp)+
        have st': "arg_state h (Some a) as" using st by (simp add: arg_state_def hs)
        have "bulklen h \<noteq> -1" "multibulklen h \<noteq> 0" using hs mb by simp_all
        then have e: "bulk_loop c pos = bulk_loop h p"
          using mb h(1) by (simp add: bulk_loop.simps [of c] bulk_loop.simps [of h])
        have "drop p (querybuf h) @ fut = todo_args (Some a) as @ X" using h(4) by (simp add: todo_args_def)
        moreover have "2 * length as + (if Some a = None then 0 else 1) < 2 * length rest + (if cur = None then 0 else 1)"
          using None Cons by simp
        ultimately obtain c' q where r: "bulk_loop h p = Inl (c', q)" "buf_bound c' q"
          "loop_done h (Some a) as c' \<and> drop q (querybuf c') @ fut = X \<or>
           (\<exists>cur' rest'. loop_stuck h (Some a) as c' cur' rest' \<and> arg_short (drop q (querybuf c')) cur' rest' \<and>
              drop q (querybuf c') @ fut = todo_args cur' rest' @ X)"
          using less.hyps [of as "Some a" h p] st' h(3) by blast
        have "loop_done h (Some a) as c' \<Longrightarrow> loop_done c cur rest c'"
          unfolding loop_done_def hs(3) by (subst (asm) h(2)) (simp add: None Cons)
        moreover have "loop_stuck h (Some a) as c' cur' rest' \<Longrightarrow> loop_stuck c cur rest c' cur' rest'" for cur' rest'
          unfolding loop_stuck_def hs(3) by (subst (asm) h(2)) (simp add: None Cons)
        ultimately show ?thesis using r e by metis
      qed
    qed
  next
    case (Some a)
    have st: "arg_state c (Some a) rest" using less.prems(1) Some by simp
    have mb: "multibulklen c \<noteq> 0" "bulklen c \<noteq> -1" using st by (simp_all add: arg_state_def)
    have "drop pos (querybuf c) @ fut = a @ [13, 10] @ (todo_args None rest @ X)"
      using less.prems(3) Some by (simp add: todo_args_def)
    from bulk_loop_arg [OF st less.prems(2) this] show ?thesis
    proof (elim disjE exE conjE)
      assume h: "int (length (querybuf c) - pos) < bulklen c + 2" "arg_short (drop pos (querybuf c)) (Some a) rest"
      then have "bulk_loop c pos = Inl (c, pos)" using mb by (simp add: bulk_loop.simps [of c])
      moreover have "loop_stuck c cur rest c (Some a) rest" using st Some by (simp add: loop_stuck_def)
      ultimately show ?thesis using h(2) less.prems(3) Some pl by blast
    next
      fix h p
      assume h: "bulk_loop c pos = bulk_loop h p"
        "h = c\<lparr>argv := argv c @ [a], querybuf := querybuf h, bulklen := -1, multibulklen := length rest\<rparr>"
        "buf_bound h p" "drop p (querybuf h) @ fut = todo_args None rest @ X"
      have hs: "bulklen h = -1" "multibulklen h = length rest" "argv h = argv c @ [a]"
        by (subst h(2), simp)+
      have st': "arg_state h None rest" using st by (simp add: arg_state_def hs)
      have "2 * length rest + (if (None :: bytes option) = None then 0 else 1) < 2 * length rest + (if cur = None then 0 else 1)"
        using Some by simp
      then obtain c' q where r: "bulk_loop h p = Inl (c', q)" "buf_bound c' q"
        "loop_done h None rest c' \<and> drop q (querybuf c') @ fut = X \<or>
         (\<exists>cur' rest'. loop_stuck h None rest c' cur' rest' \<and> arg_short (drop q (querybuf c')) cur' rest' \<and>
            drop q (querybuf c') @ fut = todo_args cur' rest' @ X)"
        using less.hyps [of rest None h p] st' h(3,4) by blast
      have "loop_done h None rest c' \<Longrightarrow> loop_done c cur rest c'"
        unfolding loop_done_def hs(3) by (subst (asm) h(2)) (simp add: Some)
      moreover have "loop_stuck h None rest c' cur' rest' \<Longrightarrow> loop_stuck c cur rest c' cur' rest'" for cur' rest'
        unfolding loop_stuck_def hs(3) by (subst (asm) h(2)) (simp add: Some)
      ultimately show ?thesis using r h(1) by metis
    qed
  qed
qed

subsection \<open>A stream of requests\<close>

definition ready_flags :: "cflags \<Rightarrow> bool" where
  "ready_flags f \<longleftrightarrow> \<not> is_blocked f \<and> \<not> close_after_reply f"

definition idle :: "client \<Rightarrow> bool" where
  "idle c \<longleftrightarrow> argv c = [] \<and> multibulklen c = 0 \<and> bulklen c = -1 \<and>
     (reqtype c = REQ_UNKNOWN \<or> reqtype c = REQ_MULTIBULK \<and> querybuf c \<noteq> [])"

definition in_request :: "client \<Rightarrow> bytes option \<Rightarrow> bytes list \<Rightarrow> bool" where
  "in_request c cur rest \<longleftrightarrow> reqtype c = REQ_MULTIBULK \<and> multibulklen c \<noteq> 0 \<and> arg_state c cur rest"

text \<open>The buffer and the future input are the rest of a stream of commands; \<open>waiting\<close>: nothing more
  can be done before the next read.\<close>

definition opt_list :: "'a option \<Rightarrow> 'a list" where
  "opt_list x = (case x of None \<Rightarrow> [] | Some a \<Rightarrow> [a])"

definition streaming :: "client \<Rightarrow> bytes list list \<Rightarrow> bytes \<Rightarrow> bool" where
  "streaming c cmds fut \<longleftrightarrow> ready_flags (cf c) \<and>
     (idle c \<and> length (querybuf c) \<le> INLINE_MAX_SIZE \<and> querybuf c @ fut = concat (map enc_cmd cmds) \<or>
      (\<exists>cur rest cs. in_request c cur rest \<and> buf_bound c 0 \<and> cmds = (argv c @ opt_list cur @ rest) # cs \<and>
         querybuf c @ fut = todo_args cur rest @ concat (map enc_cmd cs)))"

definition waiting :: "client \<Rightarrow> bytes list list \<Rightarrow> bytes \<Rightarrow> bool" where
  "waiting c cmds fut \<longleftrightarrow> ready_flags (cf c) \<and>
     (idle c \<and> (querybuf c \<noteq> [] \<longrightarrow> length (querybuf c) < length (enc_line 42 (length (hd cmds)))) \<and>
        querybuf c @ fut = concat (map enc_cmd cmds) \<or>
      (\<exists>cur rest cs. in_request c cur rest \<and> arg_short (querybuf c) cur rest \<and>
         cmds = (argv c @ opt_list cur @ rest) # cs \<and>
         querybuf c @ fut = todo_args cur rest @ concat (map enc_cmd cs)))"

text \<open>The commands one after the other, each followed by the reset of the client.\<close>

fun run_cmds :: "'w exec \<Rightarrow> bytes list list \<Rightarrow> cflags \<Rightarrow> 'w \<Rightarrow> cflags \<times> 'w" where
  "run_cmds exec [] f w = (f, w)"
| "run_cmds exec (cmd # cmds) f w =
     (case exec cmd f w of (ok, f, w) \<Rightarrow> run_cmds exec cmds (reset_flags f) w)"

text \<open>Commands that neither block the client nor close the connection.\<close>

definition plain_exec :: "'w exec \<Rightarrow> bool" where
  "plain_exec exec \<longleftrightarrow>
     (\<forall>cmd f w. ready_flags f \<longrightarrow> (case exec cmd f w of (ok, f', w') \<Rightarrow> ok \<and> ready_flags f'))"

lemma run_cmds_append:
  "run_cmds exec (as @ bs) f w = (case run_cmds exec as f w of (f, w) \<Rightarrow> run_cmds exec bs f w)"
  by (induction as arbitrary: f w) (auto split: prod.split)

lemma bulk_stage_stream:
  assumes "arg_state c cur rest" "multibulklen c \<noteq> 0" "buf_bound c pos" "reqtype c = REQ_MULTIBULK"
    "ready_flags (cf c)" "drop pos (querybuf c) @ fut = todo_args cur rest @ concat (map enc_cmd cs)"
  shows "(\<exists>c'. bulk_stage c pos = Some (True, c') \<and> argv c' = argv c @ opt_list cur @ rest \<and>
      cf c' = cf c \<and> length (querybuf c') \<le> INLINE_MAX_SIZE \<and> querybuf c' @ fut = concat (map enc_cmd cs)) \<or>
    (\<exists>c'. bulk_stage c pos = Some (False, c') \<and> cf c' = cf c \<and>
      waiting c' ((argv c @ opt_list cur @ rest) # cs) fut)"
proof -
  obtain c' p where r: "bulk_loop c pos = Inl (c', p)" "buf_bound c' p"
    "loop_done c cur rest c' \<and> drop p (querybuf c') @ fut = concat (map enc_cmd cs) \<or>
     (\<exists>cur' rest'. loop_stuck c cur rest c' cur' rest' \<and> arg_short (drop p (querybuf c')) cur' rest' \<and>
        drop p (querybuf c') @ fut = todo_args cur' rest' @ concat (map enc_cmd cs))"
    using bulk_loop_stream [OF assms(1,3,6)] by blast
  let ?c = "c'\<lparr>querybuf := drop p (querybuf c')\<rparr>"
  have b: "bulk_stage c pos = Some (multibulklen c' = 0, ?c)" using r(1) by (simp add: bulk_stage_def)
  from r(3) show ?thesis
  proof (elim disjE conjE exE)
    assume d: "loop_done c cur rest c'" "drop p (querybuf c') @ fut = concat (map enc_cmd cs)"
    have e: "multibulklen c' = 0" "bulklen c' = -1" "argv c' = argv c @ opt_list cur @ rest" "cf c' = cf c"
      by (subst d(1) [unfolded loop_done_def], simp add: opt_list_def)+
    have "length (querybuf c') \<le> INLINE_MAX_SIZE" using r(2) e(2) by (auto simp: buf_bound_def MBULK_BIG_ARG_def)
    with b d(2) e show ?thesis by (intro disjI1 exI [of _ ?c]) auto
  next
    fix cur' rest'
    assume d: "loop_stuck c cur rest c' cur' rest'" "arg_short (drop p (querybuf c')) cur' rest'"
      "drop p (querybuf c') @ fut = todo_args cur' rest' @ concat (map enc_cmd cs)"
    have e1: "c' = c\<lparr>querybuf := querybuf c', argv := argv c', multibulklen := multibulklen c', bulklen := bulklen c'\<rparr>"
      and e2: "arg_state c' cur' rest'"
      and e3: "argv c @ opt_list cur @ rest = argv c' @ opt_list cur' @ rest'"
      using d(1) by (simp_all add: loop_stuck_def opt_list_def)
    have e4: "cf c' = cf c" "reqtype c' = reqtype c" by (subst e1, simp)+
    have "multibulklen c' \<noteq> 0" using d(2) e2 by (auto simp: arg_short_def arg_state_def split: option.splits)
    moreover from this have "waiting ?c ((argv c @ opt_list cur @ rest) # cs) fut"
      using assms(4,5) d(2,3) e2 e3 e4
      by (auto simp: waiting_def in_request_def arg_state_def)
    ultimately show ?thesis using b e4 by (intro disjI2 exI [of _ ?c]) auto
  qed
qed

lemma processRequest_stream:
  assumes "streaming c cmds fut" "\<forall>cmd \<in> set cmds. valid_cmd cmd" "querybuf c \<noteq> []"
  shows "(\<exists>c' cmd cs. cmds = cmd # cs \<and> processRequest t (set_reqtype c) = Some (True, c') \<and> argv c' = cmd \<and>
      cf c' = cf c \<and> length (querybuf c') \<le> INLINE_MAX_SIZE \<and> querybuf c' @ fut = concat (map enc_cmd cs)) \<or>
    (\<exists>c'. processRequest t (set_reqtype c) = Some (False, c') \<and> cf c' = cf c \<and> waiting c' cmds fut)"
proof -
  have f: "ready_flags (cf c)" using assms(1) by (simp add: streaming_def)
  from assms(1) consider
      (idle) "idle c" "length (querybuf c) \<le> INLINE_MAX_SIZE" "querybuf c @ fut = concat (map enc_cmd cmds)"
    | (busy) cur rest cs where "in_request c cur rest" "buf_bound c 0"
        "cmds = (argv c @ opt_list cur @ rest) # cs" "querybuf c @ fut = todo_args cur rest @ concat (map enc_cmd cs)"
    by (auto simp: streaming_def)
  then show ?thesis
  proof cases
    case busy
    have st: "arg_state c cur rest" "multibulklen c \<noteq> 0" "reqtype c = REQ_MULTIBULK"
      using busy(1) by (simp_all add: in_request_def)
    then have e: "processRequest t (set_reqtype c) = bulk_stage c 0"
      by (simp add: processRequest_def set_reqtype_def processMultibulkBuffer_def)
    have "drop 0 (querybuf c) @ fut = todo_args cur rest @ concat (map enc_cmd cs)" using busy(4) by simp
    from bulk_stage_stream [OF st(1,2) busy(2) st(3) f this] show ?thesis unfolding e busy(3) by blast
  next
    case idle
    obtain cmd cs where cmds: "cmds = cmd # cs" using idle(3) assms(3) by (cases cmds) auto
    let ?l = "enc_line 42 (length cmd)" and ?d = "c\<lparr>reqtype := REQ_MULTIBULK\<rparr>"
    let ?X = "concat (map enc_arg cmd) @ concat (map enc_cmd cs)"
    have v: "cmd \<noteq> []" "length cmd \<le> 1024 * 1024" "\<forall>a \<in> set cmd. valid_arg a"
      using assms(2) cmds by (auto simp: valid_cmd_def)
    have e: "querybuf c @ fut = ?l @ ?X" using idle(3) cmds by (simp add: enc_cmd_def)
    have i: "argv c = []" "multibulklen c = 0" "bulklen c = -1"
      "reqtype c = REQ_UNKNOWN \<or> reqtype c = REQ_MULTIBULK" using idle(1) by (auto simp: idle_def)
    have h42: "querybuf c ! 0 = 42"
    proof -
      have "(querybuf c @ fut) ! 0 = 42" unfolding e by (simp add: enc_line_def)
      then show ?thesis using assms(3) by (simp add: nth_append)
    qed
    then have "set_reqtype c = ?d" using i(4) by (auto simp: set_reqtype_def)
    then have pr: "processRequest t (set_reqtype c) = processMultibulkBuffer ?d" by (simp add: processRequest_def)
    show ?thesis
    proof (cases "length (querybuf c) < length ?l")
      case True
      have "(42 :: byte) \<noteq> 13" "(42 :: byte) \<noteq> 0" by simp_all
      from line_incomplete [OF e True this] have "processMultibulkBuffer ?d = Some (False, ?d)"
        using i idle(2) by (auto simp: processMultibulkBuffer_def)
      moreover have "waiting ?d cmds fut"
        using f i True idle(3) assms(3) cmds by (simp add: waiting_def idle_def)
      ultimately show ?thesis unfolding pr by (intro disjI2 exI [of _ ?d]) simp
    next
      case False
      then have "take (length ?l) (querybuf c @ fut) = take (length ?l) (querybuf c)" by simp
      then have "take (length ?l) (querybuf c) = ?l" by (simp add: e)
      then have bl: "querybuf c = ?l @ drop (length ?l) (querybuf c)" by (metis append_take_drop_id)
      have "(42 :: byte) \<noteq> 13" "(42 :: byte) \<noteq> 0" by simp_all
      note L = line_complete [OF bl this]
      have ll: "3 \<le> length ?l" by (simp add: enc_line_def)
      have sv: "string2ll (slice 1 (length ?l - 2 - 1) (querybuf c)) = Some (int (length cmd))"
        unfolding L(3) using v(2) by (intro string2ll_dec_nat) simp
      have g: "\<not> int (length ?l - 2) > int (length (querybuf c)) - 2" using False ll by simp
      have p: "length ?l - 2 + 2 = length ?l" using ll by simp
      let ?c = "?d\<lparr>multibulklen := length cmd\<rparr>"
      have m0: "multibulklen ?d = 0" "argv ?d = []" "querybuf ?d = querybuf c" using i by simp_all
      have n0: "\<not> int (length cmd) > 1024 * 1024" "\<not> int (length cmd) \<le> 0" using v by auto
      have "processMultibulkBuffer ?d = bulk_stage (?d\<lparr>multibulklen := nat (int (length cmd))\<rparr>) (length ?l - 2 + 2)"
        unfolding processMultibulkBuffer_def m0 L(1) option.simps(5) sv
        using g h42 n0 by (simp only: if_True if_False not_True_eq_False simp_thms option.simps(5))
      then have b: "processMultibulkBuffer ?d = bulk_stage ?c (length ?l)" by (simp only: p nat_int)
      have a: "arg_state ?c None cmd" using i v by (simp add: arg_state_def)
      have a': "multibulklen ?c \<noteq> 0" "reqtype ?c = REQ_MULTIBULK" "ready_flags (cf ?c)" using v f by simp_all
      have a'': "buf_bound ?c (length ?l)" using False idle(2) by (simp add: buf_bound_def)
      have "drop (length ?l) (querybuf ?c) @ fut = todo_args None cmd @ concat (map enc_cmd cs)"
      proof -
        have "(?l @ drop (length ?l) (querybuf c)) @ fut = ?l @ ?X" using e bl by metis
        then show ?thesis by (simp add: todo_args_def)
      qed
      note bulk_stage_stream [OF a a'(1) a'' a'(2,3) this]
      then show ?thesis unfolding pr b by (simp add: i(1) opt_list_def cmds)
    qed
  qed
qed

lemma streaming_empty:
  assumes "streaming c cmds fut" "querybuf c = []"
  shows "waiting c cmds fut"
proof -
  from assms consider "idle c" "querybuf c @ fut = concat (map enc_cmd cmds)"
    | cur rest cs where "in_request c cur rest" "cmds = (argv c @ opt_list cur @ rest) # cs"
        "querybuf c @ fut = todo_args cur rest @ concat (map enc_cmd cs)"
    by (auto simp: streaming_def)
  then show ?thesis
  proof cases
    case 1
    with assms show ?thesis by (simp add: waiting_def streaming_def)
  next
    case 2
    have "arg_short [] cur rest"
      using 2(1) by (auto simp: arg_short_def in_request_def arg_state_def enc_line_def split: option.splits)
    with 2 assms show ?thesis unfolding waiting_def streaming_def by auto
  qed
qed

lemma processInputBuffer_stream:
  "streaming c cmds fut \<Longrightarrow> \<forall>cmd \<in> set cmds. valid_cmd cmd \<Longrightarrow> plain_exec exec \<Longrightarrow>
   \<exists>done cmds' c' w'. cmds = done @ cmds' \<and> processInputBuffer exec False t c w = Some (c', w') \<and>
     run_cmds exec done (cf c) w = (cf c', w') \<and> waiting c' cmds' fut"
proof (induction "length (querybuf c)" arbitrary: c w cmds rule: less_induct)
  case less
  have f: "\<not> is_blocked (cf c)" "\<not> close_after_reply (cf c)"
    using less.prems(1) by (simp_all add: streaming_def ready_flags_def)
  show ?case
  proof (cases "querybuf c = []")
    case True
    then have "processInputBuffer exec False t c w = Some (c, w)" by (simp add: processInputBuffer.simps [of _ _ _ c])
    with streaming_empty [OF less.prems(1) True] show ?thesis by fastforce
  next
    case False
    have st: "processInputBuffer exec False t c w =
      (case processRequest t (set_reqtype c) of None \<Rightarrow> None | Some (False, c) \<Rightarrow> Some (c, w)
       | Some (True, c) \<Rightarrow>
           if argv c = [] then processInputBuffer exec False t (resetClient c) w
           else case exec (argv c) (cf c) w of (ok, f, w) \<Rightarrow>
             let c = c\<lparr>cf := f\<rparr> in processInputBuffer exec False t (if ok then resetClient c else c) w)"
      using False f by (simp add: processInputBuffer.simps [of _ _ _ c])
    from processRequest_stream [OF less.prems(1,2) False, of t] show ?thesis
    proof (elim disjE exE conjE)
      fix c'
      assume "processRequest t (set_reqtype c) = Some (False, c')" "cf c' = cf c" "waiting c' cmds fut"
      then show ?thesis using st by fastforce
    next
      fix c' cmd cs
      assume r: "cmds = cmd # cs" "processRequest t (set_reqtype c) = Some (True, c')" "argv c' = cmd" "cf c' = cf c"
        "length (querybuf c') \<le> INLINE_MAX_SIZE" "querybuf c' @ fut = concat (map enc_cmd cs)"
      obtain ok g u where x: "exec cmd (cf c) w = (ok, g, u)" by (metis prod_cases3)
      have "ready_flags (cf c)" using f by (simp add: ready_flags_def)
      with less.prems(3) have "case exec cmd (cf c) w of (ok, f', w') \<Rightarrow> ok \<and> ready_flags f'"
        by (simp add: plain_exec_def)
      with x have g: "ok" "ready_flags g" by simp_all
      let ?d = "resetClient (c'\<lparr>cf := g\<rparr>)"
      have ne: "argv c' \<noteq> []" using r(1,3) less.prems(2) by (auto simp: valid_cmd_def)
      have e: "processInputBuffer exec False t c w = processInputBuffer exec False t ?d u"
        unfolding st r(2) using ne x g(1) by (simp add: r(3,4))
      have "streaming ?d cs fut"
        using g(2) r(5,6) by (auto simp: streaming_def idle_def resetClient_def ready_flags_def reset_flags_def)
      moreover have "querybuf (set_reqtype c) = querybuf c" by (simp add: set_reqtype_def)
      then have "length (querybuf ?d) < length (querybuf c)"
        using processRequest_shorter [OF r(2)] False by (simp add: resetClient_def)
      ultimately obtain dn cmds' c2 w2 where i: "cs = dn @ cmds'" "processInputBuffer exec False t ?d u = Some (c2, w2)"
        "run_cmds exec dn (cf ?d) u = (cf c2, w2)" "waiting c2 cmds' fut"
        using less.hyps [of ?d cs u] less.prems(2,3) r(1) by auto
      have "cmds = (cmd # dn) @ cmds'" "run_cmds exec (cmd # dn) (cf c) w = (cf c2, w2)"
        using i(1,3) r(1) x by (simp_all add: resetClient_def)
      with i(2,4) e show ?thesis by metis
    qed
  qed
qed

text \<open>The reads of a connection, each of at most the size that was asked for.\<close>

fun serve :: "'w exec \<Rightarrow> int \<Rightarrow> client \<Rightarrow> 'w \<Rightarrow> bytes list \<Rightarrow> 'w connection option" where
  "serve exec t c w [] = Some (Connected c w)"
| "serve exec t c w (d # ds) =
     (case readQueryFromClient exec False t c w (Received d) of
        Some (Connected c w) \<Rightarrow> serve exec t c w ds
      | r \<Rightarrow> r)"

fun fits :: "'w exec \<Rightarrow> int \<Rightarrow> client \<Rightarrow> 'w \<Rightarrow> bytes list \<Rightarrow> bool" where
  "fits exec t c w [] \<longleftrightarrow> True"
| "fits exec t c w (d # ds) \<longleftrightarrow> d \<noteq> [] \<and> int (length d) \<le> readlen c \<and>
     (case readQueryFromClient exec False t c w (Received d) of
        Some (Connected c w) \<Rightarrow> fits exec t c w ds
      | _ \<Rightarrow> True)"

lemma streaming_read:
  assumes "waiting c cmds (d @ fut)" "\<forall>cmd \<in> set cmds. valid_cmd cmd" "int (length d) \<le> readlen c"
  shows "streaming (c\<lparr>querybuf := querybuf c @ d\<rparr>) cmds fut \<and> length (querybuf c @ d) \<le> MAX_QUERYBUF_LEN"
proof -
  let ?c = "c\<lparr>querybuf := querybuf c @ d\<rparr>"
  have rl: "int (length d) \<le> 16384"
    using assms(3) by (auto simp: readlen_def IOBUF_LEN_def min_def split: if_splits)
  have small: "length (enc_line b n) \<le> 13" if "n \<le> 512 * 1024 * 1024" for b n
    using that by (intro length_enc_line) simp
  from assms(1) consider
      (idle) "idle c" "querybuf c \<noteq> [] \<longrightarrow> length (querybuf c) < length (enc_line 42 (length (hd cmds)))"
        "querybuf c @ d @ fut = concat (map enc_cmd cmds)"
    | (busy) cur rest cs where "in_request c cur rest" "arg_short (querybuf c) cur rest"
        "cmds = (argv c @ opt_list cur @ rest) # cs" "querybuf c @ d @ fut = todo_args cur rest @ concat (map enc_cmd cs)"
    by (auto simp: waiting_def)
  then show ?thesis
  proof cases
    case idle
    have "length (querybuf c) \<le> 13"
    proof (cases "querybuf c = []")
      case False
      then obtain cmd cs where "cmds = cmd # cs" using idle(3) by (cases cmds) auto
      with assms(2) have "length (hd cmds) \<le> 512 * 1024 * 1024" by (auto simp: valid_cmd_def)
      from small [OF this] idle(2) False show ?thesis using less_le_trans less_imp_le by blast
    qed simp
    with rl have l: "length (querybuf c @ d) \<le> 16400" by simp
    have "idle ?c" using idle(1) by (auto simp: idle_def)
    with l idle(3) assms(1) show ?thesis
      by (simp add: streaming_def waiting_def INLINE_MAX_SIZE_def MAX_QUERYBUF_LEN_def)
  next
    case busy
    have st: "arg_state c cur rest" "multibulklen c \<noteq> 0" "reqtype c = REQ_MULTIBULK"
      using busy(1) by (simp_all add: in_request_def)
    have b: "buf_bound ?c 0 \<and> length (querybuf c @ d) \<le> MAX_QUERYBUF_LEN"
    proof (cases cur)
      case None
      then obtain a as where r: "rest = a # as" using busy(2) by (cases rest) (auto simp: arg_short_def)
      have "length a \<le> 512 * 1024 * 1024" using st(1) r by (simp add: arg_state_def valid_arg_def)
      from small [OF this, of 36] have "length (querybuf c) < 13" using busy(2) None r by (simp add: arg_short_def)
      with rl show ?thesis by (simp add: buf_bound_def INLINE_MAX_SIZE_def MAX_QUERYBUF_LEN_def)
    next
      case (Some a)
      have a: "length a \<le> 512 * 1024 * 1024" "bulklen c = int (length a)"
        using st(1) Some by (simp_all add: arg_state_def valid_arg_def)
      have q: "length (querybuf c) < length a + 2" using busy(2) Some by (simp add: arg_short_def)
      show ?thesis
      proof (cases "MBULK_BIG_ARG \<le> int (length a)")
        case True
        then have "readlen c \<le> int (length a) + 2 - int (length (querybuf c))"
          using st a by (simp add: readlen_def)
        with assms(3) have "int (length (querybuf c @ d)) \<le> int (length a) + 2" by simp
        with True a show ?thesis by (simp add: buf_bound_def MAX_QUERYBUF_LEN_def)
      next
        case False
        with q rl show ?thesis by (simp add: buf_bound_def INLINE_MAX_SIZE_def MAX_QUERYBUF_LEN_def MBULK_BIG_ARG_def)
      qed
    qed
    have "in_request ?c cur rest" using busy(1)
      by (auto simp: in_request_def arg_state_def split: option.splits)
    moreover have "querybuf ?c @ fut = todo_args cur rest @ concat (map enc_cmd cs)" using busy(4) by simp
    moreover have "cmds = (argv ?c @ opt_list cur @ rest) # cs" using busy(3) by simp
    moreover have "ready_flags (cf ?c)" using assms(1) by (simp add: waiting_def)
    ultimately show ?thesis using b unfolding streaming_def by blast
  qed
qed

lemma waiting_end:
  assumes "waiting c cmds []"
  shows "cmds = [] \<and> querybuf c = [] \<and> idle c"
proof -
  from assms consider
      (idle) "idle c" "querybuf c \<noteq> [] \<longrightarrow> length (querybuf c) < length (enc_line 42 (length (hd cmds)))"
        "querybuf c = concat (map enc_cmd cmds)"
    | (busy) cur rest cs where "in_request c cur rest" "arg_short (querybuf c) cur rest"
        "querybuf c = todo_args cur rest @ concat (map enc_cmd cs)"
    by (auto simp: waiting_def)
  then show ?thesis
  proof cases
    case idle
    have "cmds = []"
    proof (cases cmds)
      case (Cons cmd cs)
      then have "length (enc_line 42 (length cmd)) \<le> length (querybuf c)"
        using idle(3) by (simp add: enc_cmd_def)
      moreover from this have "querybuf c \<noteq> []" by (auto simp: enc_line_def)
      ultimately show ?thesis using idle(2) Cons by simp
    qed simp
    with idle show ?thesis by simp
  next
    case busy
    then show ?thesis
      by (cases cur; cases rest) (auto simp: arg_short_def todo_args_def enc_arg_def)
  qed
qed

text \<open>What is still to come of the request in progress is missing at least its last byte.\<close>

lemma waiting_bounds:
  assumes "waiting c cmds fut"
  shows "length (concat (map enc_cmd cmds)) \<ge> length fut \<and> ready_flags (cf c) \<and>
    (cmds \<noteq> [] \<longrightarrow> length (concat (map enc_cmd (tl cmds))) < length fut) \<and> (cmds = [] \<longrightarrow> fut = [])"
proof -
  have f: "ready_flags (cf c)" using assms by (simp add: waiting_def)
  from assms consider
      (idle) "idle c" "querybuf c \<noteq> [] \<longrightarrow> length (querybuf c) < length (enc_line 42 (length (hd cmds)))"
        "querybuf c @ fut = concat (map enc_cmd cmds)"
    | (busy) cur rest cs where "in_request c cur rest" "arg_short (querybuf c) cur rest"
        "cmds = (argv c @ opt_list cur @ rest) # cs" "querybuf c @ fut = todo_args cur rest @ concat (map enc_cmd cs)"
    by (auto simp: waiting_def)
  then show ?thesis
  proof cases
    case idle
    then have l: "length (querybuf c) + length fut = length (concat (map enc_cmd cmds))" by (metis length_append)
    show ?thesis
    proof (cases cmds)
      case Nil
      with l f show ?thesis by simp
    next
      case (Cons cmd cs)
      have "length (querybuf c) < length (enc_cmd cmd)"
        using idle(2) Cons by (cases "querybuf c = []") (auto simp: enc_cmd_def enc_line_def)
      with l f Cons show ?thesis by simp
    qed
  next
    case busy
    then have l: "length (querybuf c) + length fut = length (todo_args cur rest) + length (concat (map enc_cmd cs))"
      by (metis length_append)
    have q: "length (querybuf c) < length (todo_args cur rest)"
      using busy(2) by (cases cur; cases rest) (auto simp: arg_short_def todo_args_def enc_arg_def)
    have "length (todo_args cur rest) \<le> length (enc_cmd (argv c @ opt_list cur @ rest))"
      by (cases cur) (simp_all add: todo_args_def opt_list_def enc_cmd_def enc_arg_def)
    with l q f busy(3) show ?thesis by simp
  qed
qed

lemma serve_stream:
  "waiting c cmds (concat ds @ fut) \<Longrightarrow> \<forall>cmd \<in> set cmds. valid_cmd cmd \<Longrightarrow> plain_exec exec \<Longrightarrow> fits exec t c w ds \<Longrightarrow>
   \<exists>dn rest c' w'. cmds = dn @ rest \<and> serve exec t c w ds = Some (Connected c' w') \<and>
     run_cmds exec dn (cf c) w = (cf c', w') \<and> waiting c' rest fut"
proof (induction ds arbitrary: c w cmds)
  case Nil
  then show ?case by fastforce
next
  case (Cons d ds)
  have f: "d \<noteq> []" "int (length d) \<le> readlen c" using Cons.prems(4) by simp_all
  have "waiting c cmds (d @ concat ds @ fut)" using Cons.prems(1) by simp
  note S = streaming_read [OF this Cons.prems(2) f(2)]
  obtain dn cmds' c1 w1 where p: "cmds = dn @ cmds'"
    "processInputBuffer exec False t (c\<lparr>querybuf := querybuf c @ d\<rparr>) w = Some (c1, w1)"
    "run_cmds exec dn (cf c) w = (cf c1, w1)" "waiting c1 cmds' (concat ds @ fut)"
    using processInputBuffer_stream [OF conjunct1 [OF S] Cons.prems(2,3), of t w] by auto
  have r: "readQueryFromClient exec False t c w (Received d) = Some (Connected c1 w1)"
    using S p(2) by (simp add: readQueryFromClient_def)
  have "fits exec t c1 w1 ds" using Cons.prems(4) r by simp
  from Cons.IH [OF p(4) _ Cons.prems(3) this] Cons.prems(2) p(1)
  obtain dn' rest c' w' where i: "cmds' = dn' @ rest" "serve exec t c1 w1 ds = Some (Connected c' w')"
    "run_cmds exec dn' (cf c1) w1 = (cf c', w')" "waiting c' rest fut" by auto
  have "cmds = (dn @ dn') @ rest" using p(1) i(1) by simp
  moreover have "run_cmds exec (dn @ dn') (cf c) w = (cf c', w')" using p(3) i(3) by (simp add: run_cmds_append)
  moreover have "serve exec t c w (d # ds) = Some (Connected c' w')" using r i(2) by simp
  ultimately show ?case using i(4) by blast
qed

definition fresh :: "client \<Rightarrow> bool" where
  "fresh c \<longleftrightarrow> querybuf c = [] \<and> reqtype c = REQ_UNKNOWN \<and> multibulklen c = 0 \<and> bulklen c = -1 \<and> argv c = [] \<and>
     ready_flags (cf c)"

lemma fresh_waiting: "fresh c \<Longrightarrow> waiting c cmds (concat (map enc_cmd cmds))"
  by (simp add: fresh_def waiting_def idle_def)

text \<open>
  C2. The request parser does not depend on how the network cuts the input: a client sends
  commands (any binary arguments of up to 512 MB, up to 1024 * 1024 of them) in the multi bulk
  encoding, and some first part of that stream has arrived, in any pieces of at most the size that
  \<open>readQueryFromClient\<close> asks for. Then exactly the commands whose last byte has arrived were
  executed, in their order, once each; the one that has not fully arrived was not; the client is
  neither blocked nor marked for closing, so no protocol error was raised; and if everything has
  arrived, nothing is left in the buffer and the parser is at rest. This is for commands that
  neither block the client nor close its connection (\<open>plain_exec\<close>).
\<close>

theorem request_stream_correct:
  assumes "fresh c" "\<forall>cmd \<in> set cmds. valid_cmd cmd" "plain_exec exec"
    "concat reads @ missing = concat (map enc_cmd cmds)" "fits exec t c w reads"
  shows "\<exists>done rest c' w'. cmds = done @ rest \<and> serve exec t c w reads = Some (Connected c' w') \<and>
    run_cmds exec done (cf c) w = (cf c', w') \<and> ready_flags (cf c') \<and>
    length (concat (map enc_cmd done)) \<le> length (concat reads) \<and>
    (rest \<noteq> [] \<longrightarrow> length (concat reads) < length (concat (map enc_cmd (done @ [hd rest])))) \<and>
    (missing = [] \<longrightarrow> rest = [] \<and> querybuf c' = [] \<and> idle c')"
proof -
  have w0: "waiting c cmds (concat reads @ missing)" using fresh_waiting [OF assms(1), of cmds] assms(4) by simp
  obtain dn rest c' w' where p: "cmds = dn @ rest" "serve exec t c w reads = Some (Connected c' w')"
    "run_cmds exec dn (cf c) w = (cf c', w')" "waiting c' rest missing"
    using serve_stream [OF w0 assms(2,3,5)] by blast
  have l: "length (concat reads) + length missing =
      length (concat (map enc_cmd dn)) + length (concat (map enc_cmd rest))"
    using arg_cong [OF assms(4), of length] p(1) by simp
  note b = waiting_bounds [OF p(4)]
  have "length (concat reads) < length (concat (map enc_cmd (dn @ [hd rest])))" if "rest \<noteq> []"
    using b l that by (cases rest) simp_all
  moreover have "rest = [] \<and> querybuf c' = [] \<and> idle c'" if "missing = []"
    using waiting_end p(4) that by simp
  moreover have "length (concat (map enc_cmd dn)) \<le> length (concat reads)" using b l by simp
  ultimately show ?thesis using p b by blast
qed

definition fresh_client :: client where
  "fresh_client =
     \<lparr>querybuf = [], reqtype = REQ_UNKNOWN, multibulklen = 0, bulklen = -1, argv = [],
      cf = \<lparr>is_slave = False, is_blocked = False, close_after_reply = False, in_multi = False, is_asking = False,
        last_is_asking = False\<rparr>, errs = [], repl_ack_time = 0\<rparr>"

text \<open>One command and the first bytes of another: one is executed.\<close>

lemma request_stream_correct_witness:
  "\<exists>c'. serve (\<lambda>cmd f w. (True, f, w @ [cmd])) 0 fresh_client [] [enc_cmd [[71, 0, 13]] @ take 9 (enc_cmd [[80], []])] =
     Some (Connected c' [[[71, 0, 13]]])"
proof -
  let ?x = "\<lambda>cmd f w. (True, f, w @ [cmd])" and ?cs = "[[[71, 0, 13]], [[80], []]] :: bytes list list"
  let ?d = "enc_cmd [[71, 0, 13]] @ take 9 (enc_cmd [[80], []])" and ?m = "drop 9 (enc_cmd [[80], []])"
  have f: "fresh fresh_client" by (simp add: fresh_def fresh_client_def ready_flags_def)
  have v: "\<forall>cmd \<in> set ?cs. valid_cmd cmd" by (simp add: valid_cmd_def valid_arg_def)
  have x: "plain_exec ?x" by (simp add: plain_exec_def)
  have m: "concat [?d] @ ?m = concat (map enc_cmd ?cs)" by simp
  have e: "length (enc_cmd [[71, 0, 13]]) = 13" "length (enc_cmd [[80], []]) = 17"
    by (simp_all add: enc_cmd_def enc_arg_def enc_line_def dec_nat_small)
  then have "fits ?x 0 fresh_client [] [?d]"
    by (auto simp: readlen_def fresh_client_def IOBUF_LEN_def split: option.split connection.split)
  from request_stream_correct [OF f v x m this] obtain dn rest c' w' where p: "?cs = dn @ rest"
    "serve ?x 0 fresh_client [] [?d] = Some (Connected c' w')" "run_cmds ?x dn (cf fresh_client) [] = (cf c', w')"
    "length (concat (map enc_cmd dn)) \<le> length (concat [?d])"
    "rest \<noteq> [] \<longrightarrow> length (concat [?d]) < length (concat (map enc_cmd (dn @ [hd rest])))" by blast
  have d: "length (concat [?d]) = 22" using e by simp
  have "dn = [[[71, 0, 13]]]"
  proof (cases dn)
    case Nil
    then have "rest = ?cs" using p(1) by simp
    with p(5) d e Nil show ?thesis by simp
  next
    case (Cons a as)
    show ?thesis
    proof (cases as)
      case Nil
      with Cons p(1) show ?thesis by simp
    next
      case (Cons b bs)
      with \<open>dn = a # as\<close> p(1) have "dn = ?cs" by (cases bs) auto
      with p(4) d e show ?thesis by simp
    qed
  qed
  with p(2,3) show ?thesis by simp
qed

subsection \<open>Any input\<close>

text \<open>What holds of every client between two reads, whatever it sent.\<close>

definition client_ok :: "client \<Rightarrow> bool" where
  "client_ok c \<longleftrightarrow> (reqtype c = REQ_MULTIBULK \<longrightarrow> multibulklen c + length (argv c) \<le> 1024 * 1024) \<and>
     -1 \<le> bulklen c \<and> bulklen c \<le> 512 * 1024 * 1024 \<and>
     (close_after_reply (cf c) \<or>
      (case reqtype c of
         REQ_UNKNOWN \<Rightarrow> argv c = [] \<and> multibulklen c = 0
       | REQ_INLINE \<Rightarrow> argv c = [] \<and> multibulklen c = 0
       | REQ_MULTIBULK \<Rightarrow> multibulklen c = 0 \<longrightarrow> argv c = [] \<and> querybuf c \<noteq> [] \<and> querybuf c ! 0 = 42))"

text \<open>A command that is not acknowledged closes the connection, as \<open>QUIT\<close> does.\<close>

definition quitting_exec :: "'w exec \<Rightarrow> bool" where
  "quitting_exec exec \<longleftrightarrow>
     (\<forall>cmd f w. case exec cmd f w of (ok, f', w') \<Rightarrow> ok \<or> close_after_reply f')"

definition bulk_ok :: "client \<Rightarrow> client \<Rightarrow> bool" where
  "bulk_ok c c' \<longleftrightarrow> multibulklen c' + length (argv c') = multibulklen c + length (argv c) \<and>
     -1 \<le> bulklen c' \<and> bulklen c' \<le> 512 * 1024 * 1024 \<and> reqtype c' = reqtype c"

lemma bulk_header_any:
  assumes "-1 \<le> bulklen c" "bulklen c \<le> 512 * 1024 * 1024"
  shows "case bulk_header c pos of NeedMore \<Rightarrow> True
    | Bad c' \<Rightarrow> bulk_ok c c' \<and> close_after_reply (cf c')
    | Header c' p \<Rightarrow> bulk_ok c c' \<and> cf c' = cf c \<and> multibulklen c' = multibulklen c"
  using assms
  by (auto simp: bulk_header_def setProtocolError_def bulk_ok_def Let_def split: option.splits)

lemma bulk_loop_any:
  "-1 \<le> bulklen c \<Longrightarrow> bulklen c \<le> 512 * 1024 * 1024 \<Longrightarrow>
   case bulk_loop c pos of
     Inl (c', p) \<Rightarrow> bulk_ok c c' \<and> cf c' = cf c
   | Inr c' \<Rightarrow> bulk_ok c c' \<and> close_after_reply (cf c')"
proof (induction c pos rule: bulk_loop.induct)
  case (1 c pos)
  let ?h = "if bulklen c = -1 then bulk_header c pos else Header c pos"
  have r: "bulk_ok c c" using "1.prems" by (simp add: bulk_ok_def)
  show ?case
  proof (cases "multibulklen c = 0")
    case True
    with r show ?thesis by (simp add: bulk_loop.simps [of c])
  next
    case mb: False
    show ?thesis
    proof (cases ?h)
      case NeedMore
      with mb r show ?thesis by (subst bulk_loop.simps) simp
    next
      case (Bad b)
      then have "bulk_header c pos = Bad b" by (auto split: if_splits)
      with bulk_header_any [OF "1.prems", of pos] Bad mb show ?thesis by (subst bulk_loop.simps) simp
    next
      case (Header h p)
      have h: "bulk_ok c h \<and> cf h = cf c \<and> multibulklen h = multibulklen c"
        using Header bulk_header_any [OF "1.prems", of pos] r by (auto split: if_splits)
      consider (stop) "int (length (querybuf h) - p) < bulklen h + 2"
        | (big) "\<not> int (length (querybuf h) - p) < bulklen h + 2"
            "p = 0 \<and> bulklen h \<ge> MBULK_BIG_ARG \<and> int (length (querybuf h)) = bulklen h + 2"
        | (small) "\<not> int (length (querybuf h) - p) < bulklen h + 2"
            "\<not> (p = 0 \<and> bulklen h \<ge> MBULK_BIG_ARG \<and> int (length (querybuf h)) = bulklen h + 2)" by blast
      then show ?thesis
      proof cases
        case stop
        with mb Header h show ?thesis by (subst bulk_loop.simps) simp
      next
        case big
        let ?d = "h\<lparr>argv := argv h @ [take (length (querybuf h) - 2) (querybuf h)], querybuf := [],
          bulklen := -1, multibulklen := multibulklen h - 1\<rparr>"
        have e: "bulk_loop c pos = bulk_loop ?d 0"
          using mb Header big by (subst bulk_loop.simps) simp
        have "bulk_ok c d' \<and> cf ?d = cf c" if "bulk_ok ?d d'" for d' using h mb that by (auto simp: bulk_ok_def)
        with "1.IH"(1) [OF mb Header big] show ?thesis unfolding e by (auto split: sum.splits)
      next
        case small
        let ?d = "h\<lparr>argv := argv h @ [slice p (nat (bulklen h)) (querybuf h)], bulklen := -1,
          multibulklen := multibulklen h - 1\<rparr>"
        have e: "bulk_loop c pos = bulk_loop ?d (p + nat (bulklen h) + 2)"
          using mb Header small by (subst bulk_loop.simps) (simp only: if_False header.case)
        have "bulk_ok c d' \<and> cf ?d = cf c" if "bulk_ok ?d d'" for d' using h mb that by (auto simp: bulk_ok_def)
        with "1.IH"(2) [OF mb Header small] show ?thesis unfolding e by (auto split: sum.splits)
      qed
    qed
  qed
qed

lemma bulk_stage_any:
  assumes "-1 \<le> bulklen c" "bulklen c \<le> 512 * 1024 * 1024" "reqtype c = REQ_MULTIBULK"
    "multibulklen c \<noteq> 0" "multibulklen c + length (argv c) \<le> 1024 * 1024"
  obtains b c' where "bulk_stage c pos = Some (b, c')" "bulk_ok c c'" "b \<Longrightarrow> argv c' \<noteq> [] \<and> multibulklen c' = 0"
    "\<not> b \<Longrightarrow> client_ok c'" "b \<Longrightarrow> cf c' = cf c"
proof (cases "bulk_loop c pos")
  case (Inr d)
  with bulk_loop_any [OF assms(1,2), of pos] have "bulk_ok c d" "close_after_reply (cf d)" by auto
  with assms(5) show thesis
    by (intro that [of False d]) (simp_all add: bulk_stage_def Inr client_ok_def bulk_ok_def)
next
  case (Inl x)
  then obtain d p where d: "bulk_loop c pos = Inl (d, p)" by (cases x) auto
  with bulk_loop_any [OF assms(1,2), of pos] have o: "bulk_ok c d" "cf d = cf c" by auto
  let ?d = "d\<lparr>querybuf := drop p (querybuf d)\<rparr>"
  show thesis
  proof (rule that [of "multibulklen d = 0" ?d])
    show "bulk_stage c pos = Some (multibulklen d = 0, ?d)" by (simp add: bulk_stage_def d)
    show "bulk_ok c ?d" "cf ?d = cf c" using o by (simp_all add: bulk_ok_def)
    show "argv ?d \<noteq> [] \<and> multibulklen ?d = 0" if "multibulklen d = 0"
      using that o(1) assms(4) by (auto simp: bulk_ok_def)
    show "client_ok ?d" if "multibulklen d \<noteq> 0"
      using that o assms(3,5) by (auto simp: bulk_ok_def client_ok_def)
  qed
qed

definition mid_ok :: "client \<Rightarrow> bool" where
  "mid_ok c \<longleftrightarrow> (reqtype c = REQ_MULTIBULK \<longrightarrow> multibulklen c + length (argv c) \<le> 1024 * 1024) \<and>
     -1 \<le> bulklen c \<and> bulklen c \<le> 512 * 1024 * 1024"

lemma processInlineBuffer_any:
  assumes "reqtype c = REQ_INLINE" "argv c = []" "multibulklen c = 0" "mid_ok c"
  shows "case processInlineBuffer t c of (b, c') \<Rightarrow> if b then mid_ok c' else client_ok c'"
  using assms
  by (auto simp: processInlineBuffer_def setProtocolError_def mid_ok_def client_ok_def Let_def
      split: option.splits)

lemma processMultibulkBuffer_any:
  assumes "reqtype c = REQ_MULTIBULK" "client_ok c" "\<not> close_after_reply (cf c)"
  shows "\<exists>b c'. processMultibulkBuffer c = Some (b, c') \<and> (if b then mid_ok c' else client_ok c')"
proof -
  have bl: "-1 \<le> bulklen c" "bulklen c \<le> 512 * 1024 * 1024" "multibulklen c + length (argv c) \<le> 1024 * 1024"
    using assms(1,2) by (simp_all add: client_ok_def)
  have st: "\<exists>b c'. bulk_stage d p = Some (b, c') \<and> (if b then mid_ok c' else client_ok c')"
    if d: "reqtype d = REQ_MULTIBULK" "bulklen d = bulklen c" "multibulklen d \<noteq> 0"
      "multibulklen d + length (argv d) \<le> 1024 * 1024" for d p
  proof -
    obtain b c' where "bulk_stage d p = Some (b, c')" "bulk_ok d c'" "\<not> b \<Longrightarrow> client_ok c'"
      by (rule bulk_stage_any [of d p]) (use d bl in auto)
    with d(4) show ?thesis by (auto simp: mid_ok_def bulk_ok_def)
  qed
  show ?thesis
  proof (cases "multibulklen c = 0")
    case False
    with st [of c 0] assms(1) bl show ?thesis by (simp add: processMultibulkBuffer_def)
  next
    case True
    have a: "argv c = []" "querybuf c \<noteq> []" "querybuf c ! 0 = 42"
      using assms True by (auto simp: client_ok_def)
    have er: "client_ok (setProtocolError e 0 c)" for e
      using assms(1,2) True a by (simp add: client_ok_def setProtocolError_def)
    have ok: "mid_ok (c\<lparr>querybuf := q\<rparr>)" for q using bl by (simp add: mid_ok_def)
    show ?thesis
    proof (cases "strchr (querybuf c) 13")
      case None
      with True a have "processMultibulkBuffer c =
          Some (False, if length (querybuf c) > INLINE_MAX_SIZE then setProtocolError TooBigMbulkCount 0 c else c)"
        by (simp add: processMultibulkBuffer_def)
      with er assms(2) show ?thesis by auto
    next
      case (Some n)
      show ?thesis
      proof (cases "int n > int (length (querybuf c)) - 2")
        case g: True
        with True a Some have "processMultibulkBuffer c = Some (False, c)" by (simp add: processMultibulkBuffer_def)
        with assms(2) show ?thesis by auto
      next
        case g: False
        show ?thesis
        proof (cases "string2ll (slice 1 (n - 1) (querybuf c))")
          case None
          with True a Some g have "processMultibulkBuffer c =
              Some (False, setProtocolError InvalidMultibulkLength 0 c)" by (simp add: processMultibulkBuffer_def)
          with er show ?thesis by auto
        next
          case (Some ll)
          have e: "processMultibulkBuffer c =
            (if ll > 1024 * 1024 then Some (False, setProtocolError InvalidMultibulkLength 0 c)
             else if ll \<le> 0 then Some (True, c\<lparr>querybuf := drop (n + 2) (querybuf c)\<rparr>)
             else bulk_stage (c\<lparr>multibulklen := nat ll\<rparr>) (n + 2))"
            unfolding processMultibulkBuffer_def
            using True a \<open>strchr _ _ = Some n\<close> g Some by (simp only: if_True if_False simp_thms option.simps(5))
          have "\<exists>b c'. bulk_stage (c\<lparr>multibulklen := nat ll\<rparr>) (n + 2) = Some (b, c') \<and> (if b then mid_ok c' else client_ok c')"
            if "\<not> ll > 1024 * 1024" "\<not> ll \<le> 0"
            using that assms(1) a(1) by (intro st) auto
          then show ?thesis unfolding e using er ok by auto
        qed
      qed
    qed
  qed
qed

lemma processRequest_any:
  assumes "client_ok c" "\<not> close_after_reply (cf c)" "querybuf c \<noteq> []"
  shows "\<exists>b c'. processRequest t (set_reqtype c) = Some (b, c') \<and> (if b then mid_ok c' else client_ok c')"
proof -
  let ?c = "set_reqtype c"
  have s: "cf ?c = cf c" "querybuf ?c = querybuf c" "argv ?c = argv c" "bulklen ?c = bulklen c"
    "multibulklen ?c = multibulklen c" by (simp_all add: set_reqtype_def)
  have b: "-1 \<le> bulklen c" "bulklen c \<le> 512 * 1024 * 1024" using assms(1) by (simp_all add: client_ok_def)
  show ?thesis
  proof (cases "reqtype ?c = REQ_INLINE")
    case True
    then have "argv c = []" "multibulklen c = 0"
      using assms(1,2) by (auto simp: client_ok_def set_reqtype_def split: if_splits reqtype.splits)
    with processInlineBuffer_any [OF True, of t] s b show ?thesis
      by (cases "processInlineBuffer t ?c") (simp add: processRequest_def True mid_ok_def)
  next
    case False
    then have m: "reqtype ?c = REQ_MULTIBULK" by (cases "reqtype c") (auto simp: set_reqtype_def split: if_splits)
    have "client_ok ?c"
      using assms m by (cases "reqtype c") (auto simp: client_ok_def set_reqtype_def split: if_splits)
    with processMultibulkBuffer_any [OF m this] assms(2) False show ?thesis by (simp add: processRequest_def s)
  qed
qed

lemma processInputBuffer_any:
  "client_ok c \<Longrightarrow> quitting_exec exec \<Longrightarrow>
   \<exists>c' w'. processInputBuffer exec paused t c w = Some (c', w') \<and> client_ok c'"
proof (induction "length (querybuf c)" arbitrary: c w rule: less_induct)
  case less
  show ?case
  proof (cases "querybuf c = [] \<or> \<not> is_slave (cf c) \<and> paused \<or> is_blocked (cf c) \<or> close_after_reply (cf c)")
    case True
    then have "processInputBuffer exec paused t c w = Some (c, w)"
      by (auto simp: processInputBuffer.simps [of _ _ _ c])
    with less.prems(1) show ?thesis by blast
  next
    case False
    then have ne: "querybuf c \<noteq> []" "\<not> close_after_reply (cf c)" by auto
    obtain b d where r: "processRequest t (set_reqtype c) = Some (b, d)" "if b then mid_ok d else client_ok d"
      using processRequest_any [OF less.prems(1) ne(2,1), of t] by blast
    have st: "processInputBuffer exec paused t c w =
      (if \<not> b then Some (d, w)
       else if argv d = [] then processInputBuffer exec paused t (resetClient d) w
       else case exec (argv d) (cf d) w of (ok, f, w) \<Rightarrow>
             processInputBuffer exec paused t (if ok then resetClient (d\<lparr>cf := f\<rparr>) else d\<lparr>cf := f\<rparr>) w)"
      using False r(1) by (cases b) (auto simp: processInputBuffer.simps [of _ _ _ c] Let_def)
    show ?thesis
    proof (cases b)
      case False
      with r st show ?thesis by simp
    next
      case True
      have "querybuf (set_reqtype c) = querybuf c" by (simp add: set_reqtype_def)
      with processRequest_shorter [of t "set_reqtype c" d] r(1) True ne(1)
      have l: "length (querybuf d) < length (querybuf c)" by simp
      have rs: "client_ok (resetClient d')" for d' by (simp add: client_ok_def resetClient_def)
      have rl: "length (querybuf (resetClient d')) = length (querybuf d')" for d' by (simp add: resetClient_def)
      show ?thesis
      proof (cases "argv d = []")
        case e: True
        with less.hyps [of "resetClient d" w] l rs rl less.prems(2) True show ?thesis by (simp add: st)
      next
        case e: False
        obtain ok f u where x: "exec (argv d) (cf d) w = (ok, f, u)" by (metis prod_cases3)
        have q: "ok \<or> close_after_reply f"
        proof -
          have "case exec (argv d) (cf d) w of (ok, f', w') \<Rightarrow> ok \<or> close_after_reply f'"
            using less.prems(2) by (simp add: quitting_exec_def)
          with x show ?thesis by simp
        qed
        let ?d = "if ok then resetClient (d\<lparr>cf := f\<rparr>) else d\<lparr>cf := f\<rparr>"
        have "client_ok ?d" using q rs r(2) True by (auto simp: client_ok_def mid_ok_def)
        moreover have "length (querybuf ?d) < length (querybuf c)" using l rl by simp
        ultimately show ?thesis using less.hyps [of ?d u] less.prems(2) True e x by (simp add: st)
      qed
    qed
  qed
qed

text \<open>
  C30. Whatever bytes a client sends, and however they are cut: no assertion of the parser fails
  (\<open>None\<close>), the loop over the buffer ends, and between two reads the argument count is at most
  1024 * 1024 and the length of the current argument at most 512 MB.
\<close>

theorem readQueryFromClient_safe:
  assumes "client_ok c" "quitting_exec exec"
  shows "\<exists>r. readQueryFromClient exec paused t c w ev = Some r \<and>
    (case r of Freed w' \<Rightarrow> True | Connected c' w' \<Rightarrow> client_ok c')"
proof (cases ev)
  case (Received data)
  let ?c = "c\<lparr>querybuf := querybuf c @ data\<rparr>"
  have "client_ok ?c" using assms(1) by (auto simp: client_ok_def nth_append split: reqtype.splits)
  from processInputBuffer_any [OF this assms(2), of paused t w] Received show ?thesis
    by (auto simp: readQueryFromClient_def Let_def)
qed (use assms(1) in \<open>simp_all add: readQueryFromClient_def\<close>)

lemma readQueryFromClient_safe_witness:
  "\<exists>r. readQueryFromClient (\<lambda>cmd f w. (True, f, w @ [cmd])) False 0 fresh_client [] (Received [42, 45, 0, 13, 10, 36]) = Some r \<and>
     (case r of Freed w' \<Rightarrow> True | Connected c' w' \<Rightarrow> client_ok c')"
  by (rule readQueryFromClient_safe) (simp_all add: client_ok_def fresh_client_def quitting_exec_def)

subsection \<open>Inline requests\<close>

text \<open>
  An inline request that ends with \<open>\r\n\<close> takes just its line off the buffer, but when the
  line ends with a lone \<open>\n\<close> the byte behind it is lost: two such requests sent together are not
  two requests.
\<close>

theorem inline_lone_newline:
  "processInlineBuffer t (c\<lparr>querybuf := [80, 13, 10] @ rest\<rparr>) =
     (True, c\<lparr>querybuf := rest, argv := [[80]]\<rparr>) \<and>
   processInlineBuffer t (c\<lparr>querybuf := [80, 10] @ b # rest\<rparr>) =
     (True, c\<lparr>querybuf := rest, argv := [[80]]\<rparr>)"
proof -
  have "sdssplitargs [80] = Some [[80]]" by code_simp
  then show ?thesis by (simp add: processInlineBuffer_def Let_def)
qed

end
