(* ===== verification/Aof.thy ===== *)
theory Aof
  imports Proto Object
begin

text \<open>
  The append only file of \<open>src/src/src/aof.c\<close>: \<open>catAppendOnlyGenericCommand\<close>, which writes a
  command, and the loader, with its handling of a file that was cut off. The file is the list of
  its bytes; \<open>lookupCommand\<close> and the commands are an argument (\<open>None\<close>: unknown command), and
  so is the test for an open transaction. Shown: a file cut off anywhere is loaded up to its
  last whole command and truncated there, and what the writer writes is what the request parser
  of the server reads.
\<close>

subsection \<open>Writing\<close>

definition aof_line :: "byte \<Rightarrow> int \<Rightarrow> sds \<Rightarrow> sds" where
  "aof_line c n dst =
     (case ll2string (replicate 31 0) 31 n of
        (len, digits) \<Rightarrow>
          let buf = c # digits;
              len = 1 + len;
              buf = buf[len := 13];
              buf = buf[len + 1 := 10]
          in sdscatlen dst (take (len + 2) buf))"

definition catAppendOnlyGenericCommand :: "sds \<Rightarrow> robj list \<Rightarrow> sds" where
  "catAppendOnlyGenericCommand dst args =
     foldl (\<lambda>dst a.
         let v = sds_val (ptr_sds (ptr (getDecodedObject a)));
             dst = aof_line 36 (int (length v)) dst;
             dst = sdscatlen dst v
         in sdscatlen dst [13, 10])
       (aof_line 42 (int (length args)) dst) args"

subsection \<open>Reading\<close>

text \<open>\<open>fgets\<close> with room for \<open>n\<close> bytes: up to and including the end of a line.\<close>

fun fgets :: "nat \<Rightarrow> bytes \<Rightarrow> bytes \<times> bytes" where
  "fgets 0 bs = ([], bs)"
| "fgets (Suc n) [] = ([], [])"
| "fgets (Suc n) (b # bs) =
     (if b = 10 then ([b], bs) else (case fgets n bs of (line, rest) \<Rightarrow> (b # line, rest)))"

text \<open>\<open>atoi\<close>, whose \<open>int\<close> is 32 bit, and \<open>strtol\<close>, which the port defines as the 64 bit one.\<close>

definition c_atoi :: "bytes \<Rightarrow> int" where
  "c_atoi s = max (- (2 ^ 31)) (min (2 ^ 31 - 1) (fst (strtoll_full (cstr s))))"

definition c_strtol :: "bytes \<Rightarrow> int" where
  "c_strtol s = fst (strtoll_full (cstr s))"

text \<open>\<open>AShort\<close>: the file ended inside a command, and \<open>feof\<close> tells so. \<open>AUnreadable\<close>: a \<open>readerr\<close>
  that is not at the end of the file.\<close>

datatype 'a aof_item = AEof | AShort | AUnreadable | AFormat | AUndefined | AItem 'a bytes

text \<open>A negative length, converted to an unsigned one, makes \<open>sdsnewlen\<close> misbehave.\<close>

definition aof_arg :: "bytes \<Rightarrow> bytes aof_item" where
  "aof_arg bs =
     (if bs = [] then AShort
      else
        case fgets 127 bs of
          (buf, bs) \<Rightarrow>
            if hd buf \<noteq> 36 then AFormat
            else
              let len = c_strtol (tl buf)
              in if len < 0 then AUndefined
                 else if nat len \<noteq> 0 \<and> length bs < nat len then AShort
                 else
                   let arg = take (nat len) bs;
                       bs = drop (nat len) bs
                   in if length bs < 2 then AShort else AItem arg (drop 2 bs))"

fun aof_args :: "nat \<Rightarrow> bytes \<Rightarrow> bytes list aof_item" where
  "aof_args 0 bs = AItem [] bs"
| "aof_args (Suc n) bs =
     (case aof_arg bs of
        AItem a bs \<Rightarrow> (case aof_args n bs of AItem as bs \<Rightarrow> AItem (a # as) bs | r \<Rightarrow> r)
      | AEof \<Rightarrow> AEof
      | AShort \<Rightarrow> AShort
      | AUnreadable \<Rightarrow> AUnreadable
      | AFormat \<Rightarrow> AFormat
      | AUndefined \<Rightarrow> AUndefined)"

definition aof_command :: "bytes \<Rightarrow> bytes list aof_item" where
  "aof_command bs =
     (if bs = [] then AEof
      else
        case fgets 127 bs of
          (buf, bs) \<Rightarrow>
            if hd buf \<noteq> 42 then AFormat
            else if tl buf = [] \<or> hd (tl buf) = 0 then
              (if bs = [] \<and> last buf \<noteq> 10 \<and> length buf < 127 then AShort else AUnreadable)
            else
              let argc = c_atoi (tl buf)
              in if argc < 1 then AFormat else aof_args (nat argc) bs)"

lemma fgets_shorter: "fgets n bs = (line, rest) \<Longrightarrow> length line + length rest = length bs"
  by (induction n bs arbitrary: line rest rule: fgets.induct) (auto split: prod.splits if_splits)

lemma aof_arg_shorter: "aof_arg bs = AItem a rest \<Longrightarrow> length rest \<le> length bs"
  by (auto simp: aof_arg_def Let_def split: if_splits prod.splits dest: fgets_shorter)

lemma aof_args_shorter: "aof_args n bs = AItem as rest \<Longrightarrow> length rest \<le> length bs"
  by (induction n arbitrary: bs as) (auto split: aof_item.splits dest!: aof_arg_shorter intro: le_trans)

lemma aof_command_shorter:
  assumes "aof_command bs = AItem args rest"
  shows "length rest < length bs"
proof -
  obtain b bs' where b: "bs = b # bs'" using assms by (cases bs) (auto simp: aof_command_def)
  obtain line r where f: "fgets 127 bs = (line, r)" by fastforce
  have "line \<noteq> []" using f b by (auto simp: numeral_eq_Suc split: if_splits prod.splits)
  with fgets_shorter [OF f] have "length r < length bs" by (cases line) auto
  with assms f b show ?thesis
    by (auto simp: aof_command_def Let_def split: if_splits dest!: aof_args_shorter)
qed

text \<open>What becomes of the load. \<open>AofTruncated\<close> has the size the file is cut to.\<close>

datatype 'w aof_result =
    AofEmpty
  | AofLoaded 'w
  | AofTruncated 'w nat
  | AofReadError
  | AofFormatError
  | AofUnknownCommand
  | AofUndefined

definition aof_unexpected_eof :: "bool \<Rightarrow> 'w \<Rightarrow> nat \<Rightarrow> 'w aof_result" where
  "aof_unexpected_eof load_truncated w valid_up_to =
     (if load_truncated then AofTruncated w valid_up_to else AofReadError)"

text \<open>\<open>off\<close> is the position in the file.\<close>

function aof_loop :: "(bytes list \<Rightarrow> 'w \<Rightarrow> 'w option) \<Rightarrow> ('w \<Rightarrow> bool) \<Rightarrow> bool \<Rightarrow> bytes \<Rightarrow> nat \<Rightarrow> nat \<Rightarrow> 'w \<Rightarrow> 'w aof_result" where
  "aof_loop exec multi load_truncated bs off valid_up_to w =
     (case aof_command bs of
        AEof \<Rightarrow> if multi w then aof_unexpected_eof load_truncated w valid_up_to else AofLoaded w
      | AShort \<Rightarrow> aof_unexpected_eof load_truncated w valid_up_to
      | AUnreadable \<Rightarrow> AofReadError
      | AFormat \<Rightarrow> AofFormatError
      | AUndefined \<Rightarrow> AofUndefined
      | AItem args rest \<Rightarrow>
          case exec args w of
            None \<Rightarrow> AofUnknownCommand
          | Some w \<Rightarrow>
              let off = off + (length bs - length rest)
              in aof_loop exec multi load_truncated rest off (if load_truncated then off else valid_up_to) w)"
  by pat_completeness auto
termination
  by (relation "measure (\<lambda>(exec, multi, lt, bs, off, valid, w). length bs)") (auto dest: aof_command_shorter)

declare aof_loop.simps [simp del]

definition loadAppendOnlyFile :: "(bytes list \<Rightarrow> 'w \<Rightarrow> 'w option) \<Rightarrow> ('w \<Rightarrow> bool) \<Rightarrow> bool \<Rightarrow> bytes \<Rightarrow> 'w \<Rightarrow> 'w aof_result" where
  "loadAppendOnlyFile exec multi load_truncated file w =
     (if file = [] then AofEmpty else aof_loop exec multi load_truncated file 0 0 w)"

subsection \<open>The writer\<close>

lemma aof_line_ok:
  assumes "sds_ok dst" "0 \<le> n" "n < 2 ^ 31" "sds_len dst + length (enc_line c (nat n)) \<le> SDS_MAX"
  shows "sds_ok (aof_line c n dst) \<and> sds_val (aof_line c n dst) = sds_val dst @ enc_line c (nat n)"
proof -
  let ?d = "dec_int n"
  have r: "in_srange 8 n" using assms(2,3) by (simp add: in_srange_def)
  have l: "length ?d \<le> 20" by (rule length_dec_int_le [OF r])
  have ll: "ll2string (replicate 31 0) 31 n = (length ?d, splice 0 (?d @ [0]) (replicate 31 0))"
    using ll2string_small [OF r, of 31 "replicate 31 0"] by simp
  have sp: "splice 0 (?d @ [0]) (replicate 31 0) = ?d @ replicate (31 - length ?d) 0"
    using l by (simp add: splice_def replicate_append_same flip: replicate_Suc)
  have rr: "replicate (31 - length ?d) (0 :: byte) = 0 # 0 # replicate (29 - length ?d) 0"
    using l by (simp add: numeral_eq_Suc Suc_diff_le flip: replicate_Suc)
  have "aof_line c n dst = sdscatlen dst (c # ?d @ [13, 10])"
    by (simp add: aof_line_def ll sp rr Let_def list_update_append)
  moreover have "c # ?d @ [13, 10] = enc_line c (nat n)" using assms(2) by (simp add: enc_line_def dec_int_def)
  ultimately show ?thesis using sdscatlen_ok [OF assms(1,4)] by simp
qed

lemma sds_len_val: "sds_ok s \<Longrightarrow> sds_len s = length (sds_val s)"
  by (simp add: length_sds_val)

lemma aof_args_written:
  "sds_ok dst \<Longrightarrow> \<forall>a \<in> set args. obj_ok a \<and> length (obj_val a) < 2 ^ 31 \<Longrightarrow>
   length (sds_val dst) + length (concat (map (\<lambda>a. enc_arg (obj_val a)) args)) \<le> SDS_MAX \<Longrightarrow>
   let r = foldl (\<lambda>dst a.
         let v = sds_val (ptr_sds (ptr (getDecodedObject a)));
             dst = aof_line 36 (int (length v)) dst;
             dst = sdscatlen dst v
         in sdscatlen dst [13, 10]) dst args
   in sds_ok r \<and> sds_val r = sds_val dst @ concat (map (\<lambda>a. enc_arg (obj_val a)) args)"
proof (induction args arbitrary: dst)
  case (Cons a args)
  let ?v = "obj_val a"
  have a: "obj_ok a" "length ?v < 2 ^ 31" using Cons.prems(2) by simp_all
  have g: "sds_val (ptr_sds (ptr (getDecodedObject a))) = ?v"
    using getDecodedObject_ok [OF a(1)]
    by (auto simp: obj_ok_def obj_val_def sdsEncodedObject_def split: sptr.splits)
  have l: "length (sds_val dst) + length (enc_arg ?v) + length (concat (map (\<lambda>a. enc_arg (obj_val a)) args)) \<le> SDS_MAX"
    using Cons.prems(3) by simp
  let ?d1 = "aof_line 36 (int (length ?v)) dst"
  have d1: "sds_ok ?d1 \<and> sds_val ?d1 = sds_val dst @ enc_line 36 (length ?v)"
    using aof_line_ok [OF Cons.prems(1), of "int (length ?v)" 36] a(2) l sds_len_val [OF Cons.prems(1)]
    by (simp add: enc_arg_def)
  let ?d2 = "sdscatlen ?d1 ?v"
  have d2: "sds_ok ?d2 \<and> sds_val ?d2 = sds_val ?d1 @ ?v"
    using d1 l sds_len_val [of ?d1] by (intro sdscatlen_ok) (simp_all add: enc_arg_def)
  let ?d3 = "sdscatlen ?d2 [13, 10]"
  have d3: "sds_ok ?d3 \<and> sds_val ?d3 = sds_val ?d2 @ [13, 10]"
    using d1 d2 l sds_len_val [of ?d2] by (intro sdscatlen_ok) (simp_all add: enc_arg_def)
  have v: "sds_val ?d3 = sds_val dst @ enc_arg ?v" using d1 d2 d3 by (simp add: enc_arg_def)
  from Cons.IH [of ?d3] d3 Cons.prems(2) l show ?case by (simp add: Let_def g v)
qed simp

lemma catAppendOnlyGenericCommand_ok:
  assumes "sds_ok dst" "\<forall>a \<in> set args. obj_ok a \<and> length (obj_val a) < 2 ^ 31" "length args < 2 ^ 31"
    "length (sds_val dst) + length (enc_cmd (map obj_val args)) \<le> SDS_MAX"
  shows "sds_ok (catAppendOnlyGenericCommand dst args) \<and>
    sds_val (catAppendOnlyGenericCommand dst args) = sds_val dst @ enc_cmd (map obj_val args)"
proof -
  let ?d = "aof_line 42 (int (length args)) dst"
  have d: "sds_ok ?d \<and> sds_val ?d = sds_val dst @ enc_line 42 (length args)"
    using aof_line_ok [OF assms(1), of "int (length args)" 42] assms(3,4) sds_len_val [OF assms(1)]
    by (simp add: enc_cmd_def)
  have "length (sds_val ?d) + length (concat (map (\<lambda>a. enc_arg (obj_val a)) args)) \<le> SDS_MAX"
    using d assms(4) by (simp add: enc_cmd_def comp_def)
  from aof_args_written [OF conjunct1 [OF d] assms(2) this] d show ?thesis
    by (simp add: catAppendOnlyGenericCommand_def Let_def enc_cmd_def comp_def)
qed

subsection \<open>The reader\<close>

lemma fgets_line: "\<forall>b \<in> set xs. b \<noteq> 10 \<Longrightarrow> length xs < n \<Longrightarrow> fgets n (xs @ 10 # ys) = (xs @ [10], ys)"
proof (induction xs arbitrary: n)
  case Nil
  then show ?case by (cases n) auto
next
  case (Cons x xs)
  then show ?case by (cases n) auto
qed

lemma fgets_short: "\<forall>b \<in> set xs. b \<noteq> 10 \<Longrightarrow> length xs \<le> n \<Longrightarrow> fgets n xs = (xs, [])"
proof (induction xs arbitrary: n)
  case Nil
  then show ?case by (cases n) auto
next
  case (Cons x xs)
  then show ?case by (cases n) auto
qed

lemma c_strtol_digits:
  assumes "\<forall>b \<in> set ds. is_digit b" "x = [] \<or> x = [13] \<or> x = [13, 10]"
  shows "c_strtol (ds @ x) = (if ds = [] then 0 else min LLONG_MAX (int (dec_val 0 ds)))"
proof -
  have nd: "\<not> is_digit 13" "\<not> is_digit 10" by (simp_all add: is_digit_def)
  have "0 \<notin> set (ds @ x)" using assms by (auto simp: is_digit_def)
  then have c: "cstr (ds @ x) = ds @ x" by (rule cstr_id)
  have tw: "takeWhile is_digit (ds @ x) = ds" using assms nd by (auto simp: takeWhile_append takeWhile_eq_all_conv)
  show ?thesis
  proof (cases ds)
    case Nil
    have dw: "dropWhile isspace x = []" using assms(2) by (elim disjE) (simp_all add: isspace_def)
    have "strtoll_full x = (0, x, False)" unfolding strtoll_full_def Let_def dw by simp
    with c Nil show ?thesis by (simp add: c_strtol_def)
  next
    case (Cons d ds')
    have "is_digit d" using assms(1) Cons by simp
    then have h: "\<not> isspace d" "d \<noteq> 45" "d \<noteq> 43" using is_digit_not_space is_digit_not_sign by simp_all
    let ?v = "int (dec_val 0 ds)"
    have "strtoll_full (ds @ x) = (max LLONG_MIN (min LLONG_MAX ?v), dropWhile is_digit (ds @ x), ?v < LLONG_MIN \<or> ?v > LLONG_MAX)"
      unfolding strtoll_full_def using h tw Cons by (simp add: Let_def)
    then show ?thesis using Cons c by (simp add: c_strtol_def LLONG_MIN_def LLONG_MAX_def)
  qed
qed

text \<open>A line that is there in full, and what \<open>fgets\<close> gives when the file ends inside it.\<close>

lemma dec_nat_line: "n < 10 ^ 19 \<Longrightarrow> length (dec_nat n) < 100 \<and> (\<forall>b \<in> set (dec_nat n). b \<noteq> 10)"
  using length_dec_nat_le [of n 19] dec_nat_digits [of 10 n] by (auto simp: is_digit_def [of 10])

lemma fgets_enc_line:
  assumes "n < 10 ^ 19" "b \<noteq> 10"
  shows "fgets 127 (enc_line b n @ ys) = (enc_line b n, ys)"
  using fgets_line [of "b # dec_nat n @ [13]" 127 ys] dec_nat_line [OF assms(1)] assms(2)
  by (simp add: enc_line_def)

lemma fgets_cut_line:
  assumes "n < 10 ^ 19" "b \<noteq> 10" "bs @ fut = enc_line b n @ ys" "length bs < length (enc_line b n)" "bs \<noteq> []"
  shows "\<exists>ds x. fgets 127 bs = (bs, []) \<and> bs = b # ds @ x \<and> (\<forall>c \<in> set ds. is_digit c) \<and> (x = [] \<or> x = [13]) \<and>
    (ds = [] \<longrightarrow> bs = [b]) \<and> (\<exists>es. dec_nat n = ds @ es)"
proof -
  have "bs = take (length bs) (bs @ fut)" by simp
  then have b: "bs = take (length bs) (enc_line b n)" using assms(3,4) by simp
  obtain k where k: "length bs = Suc k" using assms(5) by (cases bs) auto
  have l: "k < length (dec_nat n) + 2" using k assms(4) by (simp add: enc_line_def)
  have bs: "bs = b # take k (dec_nat n) @ take (k - length (dec_nat n)) [13, 10]"
    using b k by (simp add: enc_line_def)
  define x where "x = take (k - length (dec_nat n)) [13, 10 :: byte]"
  have kk: "k - length (dec_nat n) = 0 \<or> k - length (dec_nat n) = 1" using l by arith
  then have x: "x = [] \<or> x = [13]" unfolding x_def by (elim disjE) simp_all
  have ds: "\<forall>c \<in> set (take k (dec_nat n)). is_digit c" using dec_nat_digits in_set_takeD by metis
  have "\<forall>c \<in> set bs. c \<noteq> 10" using bs x ds assms(2) unfolding x_def [symmetric] by (auto simp: is_digit_def)
  moreover have "length bs \<le> 127" using k l dec_nat_line [OF assms(1)] by simp
  ultimately have "fgets 127 bs = (bs, [])" by (rule fgets_short)
  moreover have "bs = [b]" if "take k (dec_nat n) = []" using that bs by simp
  moreover have "dec_nat n = take k (dec_nat n) @ drop k (dec_nat n)" by simp
  ultimately show ?thesis using bs x ds unfolding x_def [symmetric] by blast
qed


text \<open>Whatever is read is either there in full or recognised as cut off.\<close>

definition aof_arg_fits :: "bytes \<Rightarrow> bool" where
  "aof_arg_fits a \<longleftrightarrow> length a < 2 ^ 63"

definition aof_cmd_fits :: "bytes list \<Rightarrow> bool" where
  "aof_cmd_fits args \<longleftrightarrow> args \<noteq> [] \<and> length args < 2 ^ 31 \<and> (\<forall>a \<in> set args. aof_arg_fits a)"

lemma line_value:
  assumes "n < 2 ^ 63"
  shows "c_strtol (tl (enc_line b n)) = int n"
  using c_strtol_digits [of "dec_nat n" "[13, 10]"] dec_nat_digits [of _ n] assms
  by (simp add: enc_line_def dec_val_dec_nat LLONG_MAX_def)

lemma c_atoi_strtol: "c_atoi s = max (- (2 ^ 31)) (min (2 ^ 31 - 1) (c_strtol s))"
  by (simp add: c_atoi_def c_strtol_def)

lemma split_stream:
  assumes "bs @ fut = X @ Y"
  shows "(\<exists>bs'. bs = X @ bs' \<and> bs' @ fut = Y) \<or> length bs < length X"
proof (cases "length bs < length X")
  case False
  then have "take (length X) bs = X" using assms by (metis append_eq_conv_conj linorder_not_less take_append take_all_iff append.right_neutral diff_is_0_eq take_0)
  then have "bs = X @ drop (length X) bs" by (metis append_take_drop_id)
  moreover from this have "drop (length X) bs @ fut = Y" using assms by (metis append.assoc same_append_eq)
  ultimately show ?thesis by blast
qed simp

lemma aof_arg_whole:
  assumes "aof_arg_fits a"
  shows "aof_arg (enc_arg a @ ys) = AItem a ys"
proof -
  have n: "length a < 2 ^ 63" using assms by (simp add: aof_arg_fits_def)
  have "enc_arg a @ ys = enc_line 36 (length a) @ a @ [13, 10] @ ys" by (simp add: enc_arg_def)
  moreover have "fgets 127 (enc_line 36 (length a) @ a @ [13, 10] @ ys) = (enc_line 36 (length a), a @ [13, 10] @ ys)"
    using n by (intro fgets_enc_line) simp_all
  moreover have "hd (enc_line 36 (length a)) = 36" by (simp add: enc_line_def)
  moreover have "enc_line 36 (length a) \<noteq> []" by (simp add: enc_line_def)
  ultimately show ?thesis using line_value [OF n, of 36] by (simp add: aof_arg_def Let_def)
qed

lemma aof_arg_cut:
  assumes "aof_arg_fits a" "bs @ fut = enc_arg a @ ys" "length bs < length (enc_arg a)"
  shows "aof_arg bs = AShort"
proof (cases "bs = []")
  case False
  let ?l = "enc_line 36 (length a)"
  have n: "length a < 2 ^ 63" using assms(1) by (simp add: aof_arg_fits_def)
  then have n': "length a < 10 ^ 19" by simp
  have eq: "bs @ fut = ?l @ a @ [13, 10] @ ys" using assms(2) by (simp add: enc_arg_def)
  from split_stream [OF eq] show ?thesis
  proof
    assume "\<exists>bs'. bs = ?l @ bs' \<and> bs' @ fut = a @ [13, 10] @ ys"
    then obtain bs' where b: "bs = ?l @ bs'" "bs' @ fut = a @ [13, 10] @ ys" by blast
    have f: "fgets 127 bs = (?l, bs')" unfolding b(1) using n' by (intro fgets_enc_line) simp_all
    have l: "length bs' < length a + 2" using assms(3) b(1) by (simp add: enc_arg_def)
    have h: "hd ?l = 36" by (simp add: enc_line_def)
    show ?thesis using False f h l line_value [OF n, of 36] by (auto simp: aof_arg_def Let_def)
  next
    assume "length bs < length ?l"
    from fgets_cut_line [OF n' _ eq this False]
    obtain ds x where f: "fgets 127 bs = (bs, [])" "bs = 36 # ds @ x" "\<forall>c \<in> set ds. is_digit c"
      "x = [] \<or> x = [13]" by auto
    have "0 \<le> c_strtol (tl bs)" using c_strtol_digits [of ds x] f by (auto simp: LLONG_MAX_def)
    then show ?thesis using f(1,2) by (auto simp: aof_arg_def Let_def)
  qed
qed (simp add: aof_arg_def)

lemma aof_args_stream:
  assumes "\<forall>a \<in> set as. aof_arg_fits a" "bs @ fut = concat (map enc_arg as) @ ys"
  shows "(\<exists>bs'. bs = concat (map enc_arg as) @ bs' \<and> aof_args (length as) bs = AItem as bs') \<or>
    length bs < length (concat (map enc_arg as)) \<and> aof_args (length as) bs = AShort"
  using assms
proof (induction as arbitrary: bs)
  case (Cons a as)
  have a: "aof_arg_fits a" using Cons.prems(1) by simp
  have eq: "bs @ fut = enc_arg a @ concat (map enc_arg as) @ ys" using Cons.prems(2) by simp
  from split_stream [OF eq] show ?case
  proof
    assume "\<exists>bs'. bs = enc_arg a @ bs' \<and> bs' @ fut = concat (map enc_arg as) @ ys"
    then obtain bs' where b: "bs = enc_arg a @ bs'" "bs' @ fut = concat (map enc_arg as) @ ys" by blast
    have "aof_args (length (a # as)) bs = (case aof_args (length as) bs' of AItem as bs \<Rightarrow> AItem (a # as) bs | r \<Rightarrow> r)"
      using aof_arg_whole [OF a, of bs'] b(1) by simp
    with Cons.IH [OF _ b(2)] Cons.prems(1) b(1) show ?thesis by auto
  next
    assume l: "length bs < length (enc_arg a)"
    from aof_arg_cut [OF a eq l] l show ?thesis by simp
  qed
qed simp

lemma aof_command_whole:
  assumes "aof_cmd_fits args"
  shows "aof_command (enc_cmd args @ ys) = AItem args ys"
proof -
  let ?l = "enc_line 42 (length args)"
  have n: "length args < 2 ^ 31" "args \<noteq> []" "\<forall>a \<in> set args. aof_arg_fits a"
    using assms by (simp_all add: aof_cmd_fits_def)
  have e: "enc_cmd args @ ys = ?l @ concat (map enc_arg args) @ ys" by (simp add: enc_cmd_def)
  have f: "fgets 127 (?l @ concat (map enc_arg args) @ ys) = (?l, concat (map enc_arg args) @ ys)"
    using n(1) by (intro fgets_enc_line) simp_all
  have h: "?l \<noteq> []" "hd ?l = 42" "tl ?l \<noteq> []" by (simp_all add: enc_line_def)
  have z: "hd (tl ?l) \<noteq> 0"
    using dec_nat_not [of "hd (dec_nat (length args))" "length args"] by (simp add: enc_line_def)
  have v: "c_atoi (tl ?l) = int (length args)"
    using line_value [of "length args" 42] n(1) by (simp add: c_atoi_strtol)
  have "aof_args (length args) (concat (map enc_arg args) @ ys) = AItem args ys"
    using aof_args_stream [OF n(3), of "concat (map enc_arg args) @ ys" "[]" ys] by auto
  with e f h z v n(2) show ?thesis by (simp add: aof_command_def Let_def)
qed

lemma dec_val_prefix_pos:
  assumes "dec_nat n = ds @ es" "ds \<noteq> []" "n \<noteq> 0"
  shows "0 < dec_val 0 ds"
proof -
  obtain c cs where c: "dec_nat n = c # cs" "is_digit c" "c \<noteq> 48" using dec_nat_Cons [of n] assms(3) by auto
  then obtain ds' where ds: "ds = c # ds'" using assms(1,2) by (cases ds) auto
  have "unat c \<noteq> 48" using c(3) by (simp add: word_unat_eq_iff)
  then have "0 < unat c - 48" using c(2) unfolding is_digit_unat by arith
  then show ?thesis using dec_val_ge [of "unat c - 48" ds'] ds by simp
qed

lemma aof_command_cut:
  assumes "aof_cmd_fits args" "bs @ fut = enc_cmd args @ ys" "length bs < length (enc_cmd args)" "bs \<noteq> []"
  shows "aof_command bs = AShort"
proof -
  let ?l = "enc_line 42 (length args)"
  have n: "length args < 2 ^ 31" "args \<noteq> []" "\<forall>a \<in> set args. aof_arg_fits a"
    using assms(1) by (simp_all add: aof_cmd_fits_def)
  have n': "length args < 10 ^ 19" using n(1) by simp
  have eq: "bs @ fut = ?l @ concat (map enc_arg args) @ ys" using assms(2) by (simp add: enc_cmd_def)
  from split_stream [OF eq] show ?thesis
  proof
    assume "\<exists>bs'. bs = ?l @ bs' \<and> bs' @ fut = concat (map enc_arg args) @ ys"
    then obtain bs' where b: "bs = ?l @ bs'" "bs' @ fut = concat (map enc_arg args) @ ys" by blast
    have f: "fgets 127 bs = (?l, bs')" unfolding b(1) using n' by (intro fgets_enc_line) simp_all
    have h: "hd ?l = 42" "tl ?l \<noteq> []" by (simp_all add: enc_line_def)
    have z: "hd (tl ?l) \<noteq> 0"
      using dec_nat_not [of "hd (dec_nat (length args))" "length args"] by (simp add: enc_line_def)
    have v: "c_atoi (tl ?l) = int (length args)"
      using line_value [of "length args" 42] n(1) by (simp add: c_atoi_strtol)
    have "length bs' < length (concat (map enc_arg args))" using assms(3) b(1) by (simp add: enc_cmd_def)
    then have "aof_args (length args) bs' = AShort" using aof_args_stream [OF n(3) b(2)] by auto
    with f h z v n(2) assms(4) show ?thesis by (simp add: aof_command_def Let_def)
  next
    assume "length bs < length ?l"
    from fgets_cut_line [OF n' _ eq this assms(4)]
    obtain ds x es where f: "fgets 127 bs = (bs, [])" "bs = 42 # ds @ x" "\<forall>c \<in> set ds. is_digit c"
      "x = [] \<or> x = [13]" "ds = [] \<longrightarrow> bs = [42]" "dec_nat (length args) = ds @ es" by auto
    show ?thesis
    proof (cases "ds = []")
      case True
      with f(1,5) show ?thesis by (simp add: aof_command_def)
    next
      case False
      have p: "0 < dec_val 0 ds" using dec_val_prefix_pos [OF f(6) False] n(2) by simp
      then have "1 \<le> c_atoi (tl bs)"
        using c_strtol_digits [of ds x] f False by (auto simp: LLONG_MAX_def c_atoi_strtol)
      moreover obtain k where "nat (c_atoi (tl bs)) = Suc k" using calculation by (cases "nat (c_atoi (tl bs))") auto
      moreover have "hd (tl bs) \<noteq> 0" using f(2,3) False by (cases ds) (auto simp: is_digit_def)
      ultimately show ?thesis using f(1,2) False by (simp add: aof_command_def Let_def aof_arg_def)
    qed
  qed
qed

subsection \<open>The load\<close>

text \<open>The commands that are in the first \<open>k\<close> bytes of the file in full.\<close>

fun whole_cmds :: "nat \<Rightarrow> bytes list list \<Rightarrow> bytes list list" where
  "whole_cmds k [] = []"
| "whole_cmds k (cmd # cmds) =
     (if length (enc_cmd cmd) \<le> k then cmd # whole_cmds (k - length (enc_cmd cmd)) cmds else [])"

definition aof_size :: "bytes list list \<Rightarrow> nat" where
  "aof_size cmds = length (concat (map enc_cmd cmds))"

definition load_outcome :: "('w \<Rightarrow> bool) \<Rightarrow> bool \<Rightarrow> 'w \<Rightarrow> bool \<Rightarrow> nat \<Rightarrow> 'w aof_result" where
  "load_outcome multi load_truncated w clean end_of_last =
     (if clean \<and> \<not> multi w then AofLoaded w
      else if load_truncated then AofTruncated w end_of_last else AofReadError)"

lemma enc_cmd_nonempty: "enc_cmd cmd \<noteq> []"
  by (simp add: enc_cmd_def enc_line_def)

lemma aof_loop_stream:
  assumes "\<forall>cmd \<in> set cmds. aof_cmd_fits cmd \<and> (\<forall>w. exec cmd w = Some (step cmd w))"
    "lt \<longrightarrow> valid = off"
  shows "aof_loop exec multi lt (take k (concat (map enc_cmd cmds))) off valid w =
    load_outcome multi lt (fold step (whole_cmds k cmds) w)
      (aof_size (whole_cmds k cmds) = min k (aof_size cmds)) (off + aof_size (whole_cmds k cmds))"
  using assms
proof (induction cmds arbitrary: k off valid w)
  case Nil
  have "aof_loop exec multi lt [] off valid w = load_outcome multi lt w True off"
    using Nil.prems(2) by (subst aof_loop.simps) (auto simp: aof_command_def load_outcome_def aof_unexpected_eof_def)
  then show ?case by (simp add: aof_size_def)
next
  case (Cons cmd cmds)
  let ?n = "length (enc_cmd cmd)" and ?bs = "take k (concat (map enc_cmd (cmd # cmds)))"
  have fit: "aof_cmd_fits cmd" and known: "exec cmd w = Some (step cmd w)" using Cons.prems(1) by simp_all
  show ?case
  proof (cases "?n \<le> k")
    case True
    let ?rest = "take (k - ?n) (concat (map enc_cmd cmds))"
    have bs: "?bs = enc_cmd cmd @ ?rest" using True by simp
    have "aof_loop exec multi lt ?bs off valid w =
        aof_loop exec multi lt ?rest (off + ?n) (if lt then off + ?n else valid) (step cmd w)"
      unfolding bs by (subst aof_loop.simps) (simp add: aof_command_whole [OF fit] known Let_def)
    also have "\<dots> = load_outcome multi lt (fold step (whole_cmds (k - ?n) cmds) (step cmd w))
        (aof_size (whole_cmds (k - ?n) cmds) = min (k - ?n) (aof_size cmds))
        (off + ?n + aof_size (whole_cmds (k - ?n) cmds))"
      using Cons.prems(1) by (intro Cons.IH) simp_all
    also have "(aof_size (whole_cmds (k - ?n) cmds) = min (k - ?n) (aof_size cmds)) =
        (aof_size (whole_cmds k (cmd # cmds)) = min k (aof_size (cmd # cmds)))"
      using True by (auto simp: aof_size_def)
    finally show ?thesis using True by (simp add: aof_size_def add.assoc)
  next
    case False
    have v: "lt \<longrightarrow> valid = off" by (rule Cons.prems(2))
    show ?thesis
    proof (cases "k = 0")
      case True
      then show ?thesis using v
        by (subst aof_loop.simps) (auto simp: aof_size_def aof_command_def load_outcome_def aof_unexpected_eof_def enc_cmd_nonempty)
    next
      case k: False
      have eq: "?bs @ drop k (concat (map enc_cmd (cmd # cmds))) = enc_cmd cmd @ concat (map enc_cmd cmds)"
        unfolding append_take_drop_id by simp
      have ne: "?bs \<noteq> []" using k enc_cmd_nonempty [of cmd] by simp
      have l: "length ?bs < ?n" using False by simp
      have "aof_command ?bs = AShort" by (rule aof_command_cut [OF fit eq l ne])
      then have "aof_loop exec multi lt ?bs off valid w = aof_unexpected_eof lt w valid"
        by (subst aof_loop.simps) simp
      moreover have "min k (aof_size (cmd # cmds)) \<noteq> 0" using k enc_cmd_nonempty [of cmd] by (simp add: aof_size_def)
      ultimately show ?thesis using False v k
        by (simp add: load_outcome_def aof_unexpected_eof_def aof_size_def)
    qed
  qed
qed

lemma loadAppendOnlyFile_stream:
  assumes "\<forall>cmd \<in> set cmds. aof_cmd_fits cmd \<and> (\<forall>w. exec cmd w = Some (step cmd w))" "0 < k" "cmds \<noteq> []"
  shows "loadAppendOnlyFile exec multi lt (take k (concat (map enc_cmd cmds))) w =
    load_outcome multi lt (fold step (whole_cmds k cmds) w)
      (aof_size (whole_cmds k cmds) = min k (aof_size cmds)) (aof_size (whole_cmds k cmds))"
proof -
  have "take k (concat (map enc_cmd cmds)) \<noteq> []"
    using assms(2,3) enc_cmd_nonempty by (cases cmds) auto
  then show ?thesis unfolding loadAppendOnlyFile_def
    using aof_loop_stream [OF assms(1), of lt 0 0 multi k w] by (simp del: take_eq_Nil)
qed

lemma whole_cmds_all: "aof_size cmds \<le> k \<Longrightarrow> whole_cmds k cmds = cmds"
  by (induction cmds arbitrary: k) (auto simp: aof_size_def)

text \<open>
  C26. What the loader makes of an append only file of which only the first bytes reached the disk
  (a crash while a command was written): it runs the commands that are there in full, in order,
  and no other. When the file ends between two commands and no transaction is open it is loaded.
  Otherwise the file is cut after its last whole command if \<open>aof-load-truncated\<close> is set, and the
  server refuses to start if it is not; the loader never reports a format error and never runs
  part of a command. A file that ends inside a transaction is cut at its own length, so its
  \<open>MULTI\<close> stays open in the file that the server appends to afterwards. The arguments are strings as
  the server stores them, of at most 512 MB; the length field of an sds string has 32 bits, which the
  lists of bytes here do not have.
\<close>

theorem aof_cut_load:
  assumes "\<forall>cmd \<in> set cmds. aof_cmd_fits cmd \<and> (\<forall>w. exec cmd w = Some (step cmd w))" "0 < k" "cmds \<noteq> []"
  shows "loadAppendOnlyFile exec multi lt (take k (concat (map enc_cmd cmds))) w =
    load_outcome multi lt (fold step (whole_cmds k cmds) w)
      (aof_size (whole_cmds k cmds) = min k (aof_size cmds)) (aof_size (whole_cmds k cmds))"
  by (rule loadAppendOnlyFile_stream [OF assms])

lemma aof_cut_load_witness:
  "loadAppendOnlyFile (\<lambda>cmd n. Some (Suc n)) (\<lambda>n. False) True
     (take 30 (concat (map enc_cmd [[[83], [1, 2]], [[84, 85]]]))) 0 = AofTruncated 1 19"
proof -
  have f: "aof_cmd_fits [[83], [1, 2]]" "aof_cmd_fits [[84, 85]]" by (simp_all add: aof_cmd_fits_def aof_arg_fits_def)
  have e: "length (enc_cmd [[83], [1, 2]]) = 19" "length (enc_cmd [[84, 85]]) = 12"
    by (simp_all add: enc_cmd_def enc_arg_def enc_line_def dec_nat_small)
  have w: "whole_cmds 30 [[[83], [1, 2]], [[84, 85]]] = [[[83], [1, 2]]]" by (simp add: e)
  have s: "aof_size [[[83], [1, 2]]] = 19" "aof_size [[[83], [1, 2]], [[84, 85]]] = 31"
    by (simp_all add: aof_size_def e)
  show ?thesis
    using aof_cut_load [of "[[[83], [1, 2]], [[84, 85]]]" "\<lambda>cmd n. Some (Suc n)" "\<lambda>cmd. Suc" 30 "\<lambda>n. False" True 0] f w s
    by (simp add: load_outcome_def del: whole_cmds.simps)
qed

text \<open>The commands the server can write: string objects, within the size of a string.\<close>

definition aof_writable :: "robj list \<Rightarrow> bool" where
  "aof_writable args \<longleftrightarrow> args \<noteq> [] \<and> length args < 2 ^ 31 \<and>
     (\<forall>a \<in> set args. obj_ok a \<and> length (obj_val a) < 2 ^ 31) \<and>
     length (enc_cmd (map obj_val args)) \<le> SDS_MAX"

definition aof_written :: "robj list list \<Rightarrow> bytes" where
  "aof_written cmds = concat (map (\<lambda>args. sds_val (catAppendOnlyGenericCommand sdsempty args)) cmds)"

lemma aof_written_enc:
  assumes "\<forall>args \<in> set cmds. aof_writable args"
  shows "aof_written cmds = concat (map enc_cmd (map (map obj_val) cmds))"
proof -
  have "sds_val (catAppendOnlyGenericCommand sdsempty args) = enc_cmd (map obj_val args)" if "args \<in> set cmds" for args
    using catAppendOnlyGenericCommand_ok [of sdsempty args] assms that by (simp add: aof_writable_def)
  then show ?thesis by (simp add: aof_written_def comp_def cong: map_cong)
qed

lemma aof_writable_fits: "aof_writable args \<Longrightarrow> aof_cmd_fits (map obj_val args)"
  by (auto simp: aof_writable_def aof_cmd_fits_def aof_arg_fits_def intro: less_trans)

text \<open>
  C34. The writer and the loader agree: the file to which the server appended its commands one
  after the other, whatever objects held their arguments, holds the requests in the form the
  clients send them, and loading it runs exactly these commands in order.
\<close>

theorem aof_roundtrip:
  assumes "\<forall>args \<in> set cmds. aof_writable args" "cmds \<noteq> []"
    "\<forall>cmd w. exec cmd w = Some (step cmd w)" "\<not> multi (fold step (map (map obj_val) cmds) w)"
  shows "loadAppendOnlyFile exec multi lt (aof_written cmds) w = AofLoaded (fold step (map (map obj_val) cmds) w)"
proof -
  let ?cs = "map (map obj_val) cmds"
  have f: "\<forall>cmd \<in> set ?cs. aof_cmd_fits cmd \<and> (\<forall>w. exec cmd w = Some (step cmd w))"
    using assms(1,3) aof_writable_fits by auto
  have n: "0 < aof_size ?cs" using assms(2) enc_cmd_nonempty by (cases cmds) (auto simp: aof_size_def)
  have t: "aof_written cmds = take (aof_size ?cs) (concat (map enc_cmd ?cs))"
    by (simp only: aof_written_enc [OF assms(1)] aof_size_def take_all [OF order_refl])
  from loadAppendOnlyFile_stream [OF f n, of multi lt w] assms(2,4) show ?thesis
    unfolding t by (simp add: load_outcome_def whole_cmds_all)
qed

lemma aof_roundtrip_witness:
  "loadAppendOnlyFile (\<lambda>cmd log. Some (log @ [cmd])) (\<lambda>log. False) True
     (aof_written [[createStringObject (Some [83]) 1, (createObject (Num 9))\<lparr>encoding := ENC_INT\<rparr>]]) [] =
   AofLoaded [[[83], [57]]]"
proof -
  let ?a = "createStringObject (Some [83]) 1" and ?b = "(createObject (Num 9))\<lparr>encoding := ENC_INT\<rparr>"
  have a: "obj_ok ?a" "obj_val ?a = [83]" using createString_ok [of 1 "[83]"] by simp_all
  have b: "obj_ok ?b" "obj_val ?b = [57]"
    by (simp_all add: obj_ok_def obj_val_def createObject_def sdsEncodedObject_def in_srange_def
        dec_int_def dec_nat_small digit_def)
  have e: "length (enc_cmd [[83], [57]]) = 18"
    by (simp add: enc_cmd_def enc_arg_def enc_line_def dec_nat_small)
  have "aof_writable [?a, ?b]" using a b e by (simp add: aof_writable_def SDS_MAX_def SDS_MAX_PREALLOC_def)
  then show ?thesis
    using aof_roundtrip [of "[[?a, ?b]]" "\<lambda>cmd log. Some (log @ [cmd])" "\<lambda>cmd log. log @ [cmd]" "\<lambda>log. False" "[]" True] a b
    by simp
qed

end
