(* ===== verification/Server.thy ===== *)
theory Server
  imports Object "HOL-Library.Finite_Map"
begin

text \<open>
  The state of the server that the commands share, and the two interfaces every command goes
  through: the key space (\<open>src/src/src/db.c\<close>) with the expiry of keys, and the bookkeeping of
  watched keys (\<open>src/src/src/multi.c\<close>). \<open>dict.c\<close> is proved to implement finite maps in the
  theory Dict, so a dictionary is a finite map here. Objects are values: a change in place
  writes the changed object back, which is what the code does when the reference count is 1.
  The counts of stored objects are otherwise not relied on, and a failed assertion is recorded
  in the field \<open>failed\<close>. \<open>mstime()\<close> is constant during a command; \<open>clock\<close> says how many milliseconds
  pass before each of the next commands of a transaction. Not modelled: the LRU clock of objects, the slot index of the cluster, and the wake up of clients blocked on lists.
\<close>

subsection \<open>State\<close>

text \<open>A value is a string object or one of the other types (lists, sets, hashes and sorted sets),
  which the commands here only move around.\<close>

datatype 'o val = SVal robj | OVal 'o

record 'o redisDb =
  kdict :: "(bytes, 'o val) fmap"
  kexpires :: "(bytes, int) fmap"
  watchers :: "(bytes, nat list) fmap"

text \<open>A client of \<open>redis.h\<close>: the fields that the commands and transactions use. \<open>'c\<close> is the type
  of commands.\<close>

record 'c mclient =
  cdb :: nat
  multi :: bool
  dirty_cas :: bool
  dirty_exec :: bool
  commands :: "('c \<times> robj list) list"
  watched_keys :: "(nat \<times> bytes) list"

record config =
  dbnum :: nat
  maxmemory :: nat
  maxmemory_policy :: nat
  cluster_enabled :: bool

text \<open>What is sent to the append only file and to the replicas: the \<open>DEL\<close> of an expired key, or a
  command with its arguments. Each entry carries the number of its data base.\<close>

datatype 'c op = OpDel bytes | OpCmd 'c "robj list"

record ('c, 'o) server =
  dbs :: "nat \<Rightarrow> 'o redisDb"
  clients :: "nat \<Rightarrow> 'c mclient option"
  shared :: shared_ints
  mstime :: int
  clock :: "nat list"
  lua_time :: "int option"
  loading :: bool
  masterhost :: bool
  conf :: config
  dirty :: int
  keyspace_hits :: nat
  keyspace_misses :: nat
  stat_expired :: nat
  events :: "(string \<times> bytes \<times> nat) list"
  prop_log :: "(nat \<times> 'c op) list"
  rewritten :: "('c \<times> robj list) option"
  failed :: bool

definition redisAssert :: "bool \<Rightarrow> ('c, 'o) server \<Rightarrow> ('c, 'o) server" where
  "redisAssert b s = (if b then s else s\<lparr>failed := True\<rparr>)"

definition set_db :: "nat \<Rightarrow> 'o redisDb \<Rightarrow> ('c, 'o) server \<Rightarrow> ('c, 'o) server" where
  "set_db d x s = s\<lparr>dbs := (dbs s)(d := x)\<rparr>"

definition notifyKeyspaceEvent :: "string \<Rightarrow> bytes \<Rightarrow> nat \<Rightarrow> ('c, 'o) server \<Rightarrow> ('c, 'o) server" where
  "notifyKeyspaceEvent ev k d s = s\<lparr>events := events s @ [(ev, k, d)]\<rparr>"

definition add_dirty :: "int \<Rightarrow> ('c, 'o) server \<Rightarrow> ('c, 'o) server" where
  "add_dirty n s = s\<lparr>dirty := dirty s + n\<rparr>"

definition dictSizeOf :: "(bytes, 'v) fmap \<Rightarrow> nat" where
  "dictSizeOf m = fcard (fmdom m)"

subsection \<open>Watched keys\<close>

text \<open>\<open>watchForKey\<close>, \<open>unwatchAllKeys\<close>, \<open>touchWatchedKey\<close> and \<open>touchWatchedKeysOnFlush\<close> of
  \<open>multi.c\<close>. The client is given by its number.\<close>

definition set_client :: "nat \<Rightarrow> 'c mclient \<Rightarrow> ('c, 'o) server \<Rightarrow> ('c, 'o) server" where
  "set_client i c s = s\<lparr>clients := (clients s)(i := Some c)\<rparr>"

definition watchForKey :: "nat \<Rightarrow> bytes \<Rightarrow> ('c, 'o) server \<Rightarrow> ('c, 'o) server" where
  "watchForKey i key s =
     (case clients s i of
        None \<Rightarrow> s
      | Some c \<Rightarrow>
          if (cdb c, key) \<in> set (watched_keys c) then s
          else
            let db = dbs s (cdb c);
                cls = (case fmlookup (watchers db) key of None \<Rightarrow> [] | Some cls \<Rightarrow> cls);
                s = set_db (cdb c) (db\<lparr>watchers := fmupd key (cls @ [i]) (watchers db)\<rparr>) s
            in set_client i (c\<lparr>watched_keys := watched_keys c @ [(cdb c, key)]\<rparr>) s)"

definition unwatchKey :: "nat \<Rightarrow> nat \<times> bytes \<Rightarrow> ('c, 'o) server \<Rightarrow> ('c, 'o) server" where
  "unwatchKey i wk s =
     (case wk of
        (d, key) \<Rightarrow>
          let db = dbs s d in
            case fmlookup (watchers db) key of
              None \<Rightarrow> redisAssert False s
            | Some cls \<Rightarrow>
                let cls = remove1 i cls
                in set_db d (db\<lparr>watchers := (if cls = [] then fmdrop key (watchers db)
                                            else fmupd key cls (watchers db))\<rparr>) s)"

definition unwatchAllKeys :: "nat \<Rightarrow> ('c, 'o) server \<Rightarrow> ('c, 'o) server" where
  "unwatchAllKeys i s =
     (case clients s i of
        None \<Rightarrow> s
      | Some c \<Rightarrow>
          if watched_keys c = [] then s
          else set_client i (c\<lparr>watched_keys := []\<rparr>) (fold (unwatchKey i) (watched_keys c) s))"

definition flag_dirty :: "(nat \<Rightarrow> 'c mclient \<Rightarrow> bool) \<Rightarrow> ('c, 'o) server \<Rightarrow> ('c, 'o) server" where
  "flag_dirty p s =
     s\<lparr>clients := (\<lambda>i. case clients s i of
                       None \<Rightarrow> None
                     | Some c \<Rightarrow> Some (if p i c then c\<lparr>dirty_cas := True\<rparr> else c))\<rparr>"

definition touchWatchedKey :: "nat \<Rightarrow> bytes \<Rightarrow> ('c, 'o) server \<Rightarrow> ('c, 'o) server" where
  "touchWatchedKey d key s =
     (case fmlookup (watchers (dbs s d)) key of
        None \<Rightarrow> s
      | Some cls \<Rightarrow> flag_dirty (\<lambda>i c. i \<in> set cls) s)"

text \<open>\<open>None\<close> stands for the \<open>dbid\<close> \<open>-1\<close> of \<open>FLUSHALL\<close>.\<close>

definition touchWatchedKeysOnFlush :: "nat option \<Rightarrow> ('c, 'o) server \<Rightarrow> ('c, 'o) server" where
  "touchWatchedKeysOnFlush dbid s =
     flag_dirty (\<lambda>i c. \<exists>(d, key) \<in> set (watched_keys c).
                    (dbid = None \<or> dbid = Some d) \<and> fmlookup (kdict (dbs s d)) key \<noteq> None) s"

definition signalModifiedKey :: "nat \<Rightarrow> bytes \<Rightarrow> ('c, 'o) server \<Rightarrow> ('c, 'o) server" where
  "signalModifiedKey d key s = touchWatchedKey d key s"

definition signalFlushedDb :: "nat option \<Rightarrow> ('c, 'o) server \<Rightarrow> ('c, 'o) server" where
  "signalFlushedDb dbid s = touchWatchedKeysOnFlush dbid s"

subsection \<open>Key space\<close>

definition lookupKey :: "nat \<Rightarrow> bytes \<Rightarrow> ('c, 'o) server \<Rightarrow> 'o val option" where
  "lookupKey d key s = fmlookup (kdict (dbs s d)) key"

definition dbExists :: "nat \<Rightarrow> bytes \<Rightarrow> ('c, 'o) server \<Rightarrow> bool" where
  "dbExists d key s \<longleftrightarrow> fmlookup (kdict (dbs s d)) key \<noteq> None"

definition dbDelete :: "nat \<Rightarrow> bytes \<Rightarrow> ('c, 'o) server \<Rightarrow> bool \<times> ('c, 'o) server" where
  "dbDelete d key s =
     (let db = dbs s d;
          db = (if dictSizeOf (kexpires db) > 0 then db\<lparr>kexpires := fmdrop key (kexpires db)\<rparr> else db)
      in if fmlookup (kdict db) key \<noteq> None
         then (True, set_db d (db\<lparr>kdict := fmdrop key (kdict db)\<rparr>) s)
         else (False, set_db d db s))"

definition getExpire :: "nat \<Rightarrow> bytes \<Rightarrow> ('c, 'o) server \<Rightarrow> int \<times> ('c, 'o) server" where
  "getExpire d key s =
     (let db = dbs s d in
        if dictSizeOf (kexpires db) = 0 then (-1, s)
        else case fmlookup (kexpires db) key of
               None \<Rightarrow> (-1, s)
             | Some when \<Rightarrow> (when, redisAssert (fmlookup (kdict db) key \<noteq> None) s))"

definition propagateExpire :: "nat \<Rightarrow> bytes \<Rightarrow> ('c, 'o) server \<Rightarrow> ('c, 'o) server" where
  "propagateExpire d key s = s\<lparr>prop_log := prop_log s @ [(d, OpDel key)]\<rparr>"

definition expireIfNeeded :: "nat \<Rightarrow> bytes \<Rightarrow> ('c, 'o) server \<Rightarrow> bool \<times> ('c, 'o) server" where
  "expireIfNeeded d key s =
     (case getExpire d key s of
        (when, s) \<Rightarrow>
          if when < 0 then (False, s)
          else if loading s then (False, s)
          else
            let now = (case lua_time s of Some t \<Rightarrow> t | None \<Rightarrow> mstime s)
            in if masterhost s then (now > when, s)
               else if now \<le> when then (False, s)
               else
                 let s = s\<lparr>stat_expired := stat_expired s + 1\<rparr>;
                     s = propagateExpire d key s;
                     s = notifyKeyspaceEvent ''expired'' key d s
                 in dbDelete d key s)"

definition lookupKeyRead :: "nat \<Rightarrow> bytes \<Rightarrow> ('c, 'o) server \<Rightarrow> 'o val option \<times> ('c, 'o) server" where
  "lookupKeyRead d key s =
     (let s = snd (expireIfNeeded d key s);
          val = lookupKey d key s
      in (val, if val = None then s\<lparr>keyspace_misses := keyspace_misses s + 1\<rparr>
               else s\<lparr>keyspace_hits := keyspace_hits s + 1\<rparr>))"

definition lookupKeyWrite :: "nat \<Rightarrow> bytes \<Rightarrow> ('c, 'o) server \<Rightarrow> 'o val option \<times> ('c, 'o) server" where
  "lookupKeyWrite d key s = (let s = snd (expireIfNeeded d key s) in (lookupKey d key s, s))"

definition put_val :: "nat \<Rightarrow> bytes \<Rightarrow> 'o val \<Rightarrow> ('c, 'o) server \<Rightarrow> ('c, 'o) server" where
  "put_val d key v s = (let db = dbs s d in set_db d (db\<lparr>kdict := fmupd key v (kdict db)\<rparr>) s)"

definition dbAdd :: "nat \<Rightarrow> bytes \<Rightarrow> 'o val \<Rightarrow> ('c, 'o) server \<Rightarrow> ('c, 'o) server" where
  "dbAdd d key v s =
     (if fmlookup (kdict (dbs s d)) key \<noteq> None then redisAssert False s else put_val d key v s)"

definition dbOverwrite :: "nat \<Rightarrow> bytes \<Rightarrow> 'o val \<Rightarrow> ('c, 'o) server \<Rightarrow> ('c, 'o) server" where
  "dbOverwrite d key v s = put_val d key v (redisAssert (fmlookup (kdict (dbs s d)) key \<noteq> None) s)"

definition removeExpire :: "nat \<Rightarrow> bytes \<Rightarrow> ('c, 'o) server \<Rightarrow> bool \<times> ('c, 'o) server" where
  "removeExpire d key s =
     (let s = redisAssert (fmlookup (kdict (dbs s d)) key \<noteq> None) s;
          db = dbs s d
      in (fmlookup (kexpires db) key \<noteq> None, set_db d (db\<lparr>kexpires := fmdrop key (kexpires db)\<rparr>) s))"

definition setExpire :: "nat \<Rightarrow> bytes \<Rightarrow> int \<Rightarrow> ('c, 'o) server \<Rightarrow> ('c, 'o) server" where
  "setExpire d key when s =
     (let s = redisAssert (fmlookup (kdict (dbs s d)) key \<noteq> None) s;
          db = dbs s d
      in set_db d (db\<lparr>kexpires := fmupd key when (kexpires db)\<rparr>) s)"

fun incr_val :: "'o val \<Rightarrow> 'o val" where
  "incr_val (SVal ob) = SVal (incrRefCount ob)"
| "incr_val (OVal x) = OVal x"

definition setKey :: "nat \<Rightarrow> bytes \<Rightarrow> 'o val \<Rightarrow> ('c, 'o) server \<Rightarrow> ('c, 'o) server" where
  "setKey d key v s =
     (case lookupKeyWrite d key s of
        (old, s) \<Rightarrow>
          let s = (if old = None then dbAdd d key (incr_val v) s else dbOverwrite d key (incr_val v) s);
              s = snd (removeExpire d key s)
          in signalModifiedKey d key s)"

definition dbUnshareStringValue :: "nat \<Rightarrow> bytes \<Rightarrow> robj \<Rightarrow> ('c, 'o) server \<Rightarrow> robj \<times> ('c, 'o) server" where
  "dbUnshareStringValue d key ob s =
     (if refcount ob \<noteq> 1 \<or> encoding ob \<noteq> ENC_RAW then
        let decoded = ptr_sds (ptr (getDecodedObject ob));
            ob = createRawStringObject (Some (sds_buf decoded)) (sds_len decoded)
        in (ob, dbOverwrite d key (SVal ob) s)
      else (ob, s))"

definition empty_db :: "'o redisDb \<Rightarrow> 'o redisDb" where
  "empty_db db = db\<lparr>kdict := fmempty, kexpires := fmempty\<rparr>"

definition emptyDb :: "('c, 'o) server \<Rightarrow> nat \<times> ('c, 'o) server" where
  "emptyDb s =
     (sum_list (map (\<lambda>d. dictSizeOf (kdict (dbs s d))) [0..<dbnum (conf s)]),
      s\<lparr>dbs := (\<lambda>d. if d < dbnum (conf s) then empty_db (dbs s d) else dbs s d)\<rparr>)"

definition selectDb :: "nat \<Rightarrow> int \<Rightarrow> ('c, 'o) server \<Rightarrow> bool \<times> ('c, 'o) server" where
  "selectDb i ix s =
     (if ix < 0 \<or> ix \<ge> int (dbnum (conf s)) then (False, s)
      else case clients s i of
             None \<Rightarrow> (False, s)
           | Some c \<Rightarrow> (True, set_client i (c\<lparr>cdb := nat ix\<rparr>) s))"

subsection \<open>What a state stands for\<close>

text \<open>The stored value of a key without its encoding, its time of expiry, and what a reader sees:
  nothing if the key is past its time.\<close>

definition val_of :: "'o val \<Rightarrow> bytes + 'o" where
  "val_of v = (case v of SVal ob \<Rightarrow> Inl (obj_val ob) | OVal x \<Rightarrow> Inr x)"

definition stored :: "('c, 'o) server \<Rightarrow> nat \<Rightarrow> bytes \<Rightarrow> (bytes + 'o) option" where
  "stored s d k = map_option val_of (fmlookup (kdict (dbs s d)) k)"

definition exp_of :: "('c, 'o) server \<Rightarrow> nat \<Rightarrow> bytes \<Rightarrow> int option" where
  "exp_of s d k = fmlookup (kexpires (dbs s d)) k"

definition now_of :: "('c, 'o) server \<Rightarrow> int" where
  "now_of s = (case lua_time s of Some t \<Rightarrow> t | None \<Rightarrow> mstime s)"

definition past :: "int \<Rightarrow> int option \<Rightarrow> bool" where
  "past now e \<longleftrightarrow> (case e of None \<Rightarrow> False | Some w \<Rightarrow> 0 \<le> w \<and> w < now)"

definition expired :: "('c, 'o) server \<Rightarrow> nat \<Rightarrow> bytes \<Rightarrow> bool" where
  "expired s d k \<longleftrightarrow> \<not> loading s \<and> \<not> masterhost s \<and> past (now_of s) (exp_of s d k)"

definition view :: "('c, 'o) server \<Rightarrow> nat \<Rightarrow> bytes \<Rightarrow> ((bytes + 'o) \<times> int option) option" where
  "view s d k =
     (if expired s d k then None else map_option (\<lambda>v. (v, exp_of s d k)) (stored s d k))"

subsection \<open>Invariants\<close>

definition val_ok :: "'o val \<Rightarrow> bool" where
  "val_ok v \<longleftrightarrow> (case v of SVal ob \<Rightarrow> obj_ok ob | OVal x \<Rightarrow> True)"

text \<open>Only existing keys have a time of expiry, and the string objects are well formed.\<close>

definition db_inv :: "('c, 'o) server \<Rightarrow> bool" where
  "db_inv s \<longleftrightarrow> shared_ok (shared s) \<and>
     (\<forall>d k. (exp_of s d k \<noteq> None \<longrightarrow> fmlookup (kdict (dbs s d)) k \<noteq> None) \<and>
            (\<forall>v. fmlookup (kdict (dbs s d)) k = Some v \<longrightarrow> val_ok v))"

text \<open>The two sides of the bookkeeping agree: a client is in the list of a key if and only if the
  key is in the list of the client.\<close>

definition watch_inv :: "('c, 'o) server \<Rightarrow> bool" where
  "watch_inv s \<longleftrightarrow>
     (\<forall>d k. case fmlookup (watchers (dbs s d)) k of
              None \<Rightarrow> \<forall>i c. clients s i = Some c \<longrightarrow> (d, k) \<notin> set (watched_keys c)
            | Some cls \<Rightarrow> cls \<noteq> [] \<and> distinct cls \<and>
                (\<forall>i. i \<in> set cls \<longleftrightarrow> (\<exists>c. clients s i = Some c \<and> (d, k) \<in> set (watched_keys c)))) \<and>
     (\<forall>i c. clients s i = Some c \<longrightarrow> distinct (watched_keys c))"

text \<open>What all operations on the key space leave alone.\<close>

definition env_of :: "('c, 'o) server \<Rightarrow> int \<times> nat list \<times> int option \<times> bool \<times> bool \<times> config" where
  "env_of s = (mstime s, clock s, lua_time s, loading s, masterhost s, conf s)"

text \<open>The clients are as before, except that more of them may be flagged.\<close>

definition flagged :: "'c mclient option \<Rightarrow> 'c mclient option \<Rightarrow> bool" where
  "flagged a b \<longleftrightarrow>
     (case a of
        None \<Rightarrow> b = None
      | Some c \<Rightarrow> b = Some c \<or> b = Some (c\<lparr>dirty_cas := True\<rparr>))"

definition same_watch :: "('c, 'o) server \<Rightarrow> ('c, 'o) server \<Rightarrow> bool" where
  "same_watch s s' \<longleftrightarrow> (\<forall>d. watchers (dbs s' d) = watchers (dbs s d)) \<and>
     (\<forall>i. flagged (clients s i) (clients s' i))"

text \<open>A key that an operation does not change: its entry is the same, or it was expired and is
  gone now.\<close>

definition kept :: "('c, 'o) server \<Rightarrow> ('c, 'o) server \<Rightarrow> nat \<Rightarrow> bytes \<Rightarrow> bool" where
  "kept s s' d k \<longleftrightarrow>
     stored s' d k = stored s d k \<and> exp_of s' d k = exp_of s d k \<or>
     expired s d k \<and> stored s' d k = None \<and> exp_of s' d k = None"

definition changes :: "(nat \<times> bytes) set \<Rightarrow> ('c, 'o) server \<Rightarrow> ('c, 'o) server \<Rightarrow> bool" where
  "changes K s s' \<longleftrightarrow> env_of s' = env_of s \<and> same_watch s s' \<and> failed s' = failed s \<and>
     (db_inv s \<longrightarrow> db_inv s') \<and> (\<forall>d k. (d, k) \<notin> K \<longrightarrow> kept s s' d k)"

lemma flagged_refl [simp]: "flagged a a"
  by (simp add: flagged_def split: option.split)

lemma flagged_trans: "flagged a b \<Longrightarrow> flagged b c \<Longrightarrow> flagged a c"
  by (cases a) (auto simp: flagged_def)

lemma same_watch_refl [simp]: "same_watch s s"
  by (simp add: same_watch_def)

lemma same_watch_trans: "same_watch s t \<Longrightarrow> same_watch t u \<Longrightarrow> same_watch s u"
  unfolding same_watch_def using flagged_trans by metis

lemma expired_env: "env_of s' = env_of s \<Longrightarrow> exp_of s' d k = exp_of s d k \<Longrightarrow> expired s' d k = expired s d k"
  by (simp add: expired_def env_of_def now_of_def cong: option.case_cong)

lemma kept_trans:
  assumes "env_of t = env_of s" "kept s t d k" "kept t u d k"
  shows "kept s u d k"
proof (cases "exp_of t d k = exp_of s d k")
  case True
  with expired_env [OF assms(1) True] assms(2,3) show ?thesis unfolding kept_def by auto
next
  case False
  with assms(2) have "exp_of t d k = None" "stored t d k = None" "expired s d k" by (auto simp: kept_def)
  moreover from this have "\<not> expired t d k" by (simp add: expired_def past_def)
  ultimately show ?thesis using assms(3) by (auto simp: kept_def)
qed

lemma kept_view:
  assumes "env_of s' = env_of s" "kept s s' d k"
  shows "view s' d k = view s d k"
proof (cases "exp_of s' d k = exp_of s d k")
  case True
  with expired_env [OF assms(1) True] assms(2) show ?thesis by (auto simp: kept_def view_def)
next
  case False
  with assms(2) show ?thesis by (auto simp: kept_def view_def)
qed

lemma changes_refl [simp, intro!]: "changes K s s"
  by (simp add: changes_def kept_def)

lemma changes_trans:
  assumes "changes K s t" "changes L t u"
  shows "changes (K \<union> L) s u"
  using assms unfolding changes_def by (auto intro: same_watch_trans kept_trans)

lemma changes_mono: "changes K s t \<Longrightarrow> K \<subseteq> L \<Longrightarrow> changes L s t"
  unfolding changes_def by blast

lemma changes_then:
  assumes "changes K s t" "changes L t u" "K \<subseteq> M" "L \<subseteq> M"
  shows "changes M s u"
  using changes_mono [OF changes_trans [OF assms(1,2)], of M] assms(3,4) by blast

lemma changes_step:
  assumes "changes K s t" "changes L t u" "L \<subseteq> K"
  shows "changes K s u"
  using changes_then [OF assms(1,2) order_refl assms(3)] .

lemma changes_view:
  assumes "changes K s s'" "(d, k) \<notin> K"
  shows "view s' d k = view s d k"
  using assms by (intro kept_view) (simp_all add: changes_def)

lemma changes_inv: "changes K s s' \<Longrightarrow> db_inv s \<Longrightarrow> db_inv s'"
  by (simp add: changes_def)

lemma changes_env: "changes K s s' \<Longrightarrow> env_of s' = env_of s"
  by (simp add: changes_def)

lemma changes_failed: "changes K s s' \<Longrightarrow> failed s' = failed s"
  by (simp add: changes_def)

subsection \<open>The primitives\<close>

text \<open>Operations that leave data base, clients and environment alone.\<close>

definition same_core :: "('c, 'o) server \<Rightarrow> ('c, 'o) server \<Rightarrow> bool" where
  "same_core s s' \<longleftrightarrow> dbs s' = dbs s \<and> clients s' = clients s \<and> shared s' = shared s \<and>
     env_of s' = env_of s \<and> failed s' = failed s"

lemma same_core_changes: "same_core s s' \<Longrightarrow> changes K s s'"
  by (simp add: same_core_def changes_def same_watch_def kept_def stored_def exp_of_def db_inv_def)

lemma core_simps [simp]:
  "dbs (add_dirty n s) = dbs s" "clients (add_dirty n s) = clients s" "env_of (add_dirty n s) = env_of s"
  "shared (add_dirty n s) = shared s" "failed (add_dirty n s) = failed s"
  "dbs (notifyKeyspaceEvent e k d s) = dbs s" "clients (notifyKeyspaceEvent e k d s) = clients s"
  "env_of (notifyKeyspaceEvent e k d s) = env_of s" "shared (notifyKeyspaceEvent e k d s) = shared s"
  "failed (notifyKeyspaceEvent e k d s) = failed s"
  "dbs (propagateExpire d k s) = dbs s" "clients (propagateExpire d k s) = clients s"
  "env_of (propagateExpire d k s) = env_of s" "shared (propagateExpire d k s) = shared s"
  "failed (propagateExpire d k s) = failed s"
  "redisAssert True s = s"
  by (simp_all add: add_dirty_def notifyKeyspaceEvent_def propagateExpire_def redisAssert_def env_of_def)

lemma changes_add_dirty [intro!, simp]: "changes K s (add_dirty n s)"
  and changes_notify [intro!, simp]: "changes K s (notifyKeyspaceEvent e k d s)"
  by (intro same_core_changes; simp add: same_core_def)+

lemma set_db_simps [simp]:
  "dbs (set_db d x s) = (dbs s)(d := x)" "clients (set_db d x s) = clients s"
  "shared (set_db d x s) = shared s" "env_of (set_db d x s) = env_of s" "failed (set_db d x s) = failed s"
  by (simp_all add: set_db_def env_of_def)

text \<open>A change of one entry of one data base.\<close>

lemma changes_entry:
  assumes "db = dbs s d" "watchers db' = watchers db"
    "\<And>k'. k' \<noteq> k \<Longrightarrow> fmlookup (kdict db') k' = fmlookup (kdict db) k' \<and>
       fmlookup (kexpires db') k' = fmlookup (kexpires db) k'"
    "fmlookup (kexpires db') k \<noteq> None \<Longrightarrow> fmlookup (kdict db') k \<noteq> None"
    "\<And>v. db_inv s \<Longrightarrow> fmlookup (kdict db') k = Some v \<Longrightarrow> val_ok v"
  shows "changes {(d, k)} s (set_db d db' s)"
proof -
  have kept: "kept s (set_db d db' s) d' k'" if "(d', k') \<noteq> (d, k)" for d' k'
    using that assms(1,3) by (auto simp: kept_def stored_def exp_of_def)
  have "db_inv (set_db d db' s)" if inv: "db_inv s"
    unfolding db_inv_def
  proof (intro conjI allI impI)
    show "shared_ok (shared (set_db d db' s))" using inv by (simp add: db_inv_def)
  next
    fix d' k'
    assume "exp_of (set_db d db' s) d' k' \<noteq> None"
    then show "fmlookup (kdict (dbs (set_db d db' s) d')) k' \<noteq> None"
      using inv assms(1,4) assms(3) [of k'] by (cases "d' = d"; cases "k' = k") (auto simp: exp_of_def db_inv_def)
  next
    fix d' k' v
    assume "fmlookup (kdict (dbs (set_db d db' s) d')) k' = Some v"
    then show "val_ok v"
      using inv assms(1) assms(3) [of k'] assms(5) by (cases "d' = d"; cases "k' = k") (auto simp: db_inv_def)
  qed
  with kept assms(1,2) show ?thesis by (auto simp: changes_def same_watch_def)
qed

lemma dictSizeOf_0: "dictSizeOf m = 0 \<longleftrightarrow> (\<forall>k. fmlookup m k = None)"
proof -
  have "dictSizeOf m = 0 \<longleftrightarrow> fmdom m = {||}" by (simp add: dictSizeOf_def)
  also have "\<dots> \<longleftrightarrow> (\<forall>k. fmlookup m k = None)"
    by (metis fmdom'_notD fmdom_empty fmempty_lookup fmap_ext fmdom_notI fempty_iff fmdom_notD)
  finally show ?thesis .
qed

lemma getExpire_eq:
  assumes "db_inv s"
  shows "getExpire d k s = (case exp_of s d k of None \<Rightarrow> -1 | Some w \<Rightarrow> w, s)"
proof -
  have "exp_of s d k \<noteq> None \<Longrightarrow> fmlookup (kdict (dbs s d)) k \<noteq> None" using assms by (simp add: db_inv_def)
  then show ?thesis using dictSizeOf_0 [of "kexpires (dbs s d)"]
    by (auto simp: getExpire_def exp_of_def Let_def split: option.split)
qed

text \<open>Deleting a key.\<close>

definition deleted_db :: "bytes \<Rightarrow> 'o redisDb \<Rightarrow> 'o redisDb" where
  "deleted_db k db = db\<lparr>kexpires := fmdrop k (kexpires db), kdict := fmdrop k (kdict db)\<rparr>"

lemma fmdrop_None: "fmlookup m k = None \<Longrightarrow> fmdrop k m = m"
  by (rule fmap_ext) (auto simp: fmlookup_drop)

lemma redisDb_same [simp]: "db\<lparr>kexpires := kexpires db, kdict := kdict db\<rparr> = db"
  by simp

lemma dbDelete_eq: "dbDelete d k s = (stored s d k \<noteq> None, set_db d (deleted_db k (dbs s d)) s)"
proof -
  have e: "(if dictSizeOf (kexpires (dbs s d)) > 0 then (dbs s d)\<lparr>kexpires := fmdrop k (kexpires (dbs s d))\<rparr> else dbs s d)
      = (dbs s d)\<lparr>kexpires := fmdrop k (kexpires (dbs s d))\<rparr>"
    using dictSizeOf_0 [of "kexpires (dbs s d)"] by (auto simp: fmdrop_None)
  show ?thesis
  proof (cases "fmlookup (kdict (dbs s d)) k")
    case None
    then have "(dbs s d)\<lparr>kexpires := fmdrop k (kexpires (dbs s d))\<rparr> = deleted_db k (dbs s d)"
      by (simp add: deleted_db_def fmdrop_None)
    with None show ?thesis unfolding dbDelete_def Let_def e by (simp add: stored_def deleted_db_def)
  next
    case (Some v)
    then show ?thesis unfolding dbDelete_def Let_def e by (simp add: stored_def deleted_db_def)
  qed
qed

lemma changes_dbDelete: "changes {(d, k)} s (snd (dbDelete d k s))"
  unfolding dbDelete_eq snd_conv
  by (rule changes_entry) (auto simp: deleted_db_def fmlookup_drop split: if_splits)

lemma dbDelete_entry [simp]:
  "stored (snd (dbDelete d k s)) d k = None" "exp_of (snd (dbDelete d k s)) d k = None"
  "fst (dbDelete d k s) \<longleftrightarrow> stored s d k \<noteq> None"
  by (simp_all add: dbDelete_eq stored_def exp_of_def deleted_db_def)

text \<open>Expiry.\<close>

lemma expireIfNeeded_changes:
  assumes "db_inv s"
  shows "changes {} s (snd (expireIfNeeded d k s))"
    and "\<not> expired (snd (expireIfNeeded d k s)) d k"
    and "\<not> expired s d k \<Longrightarrow> snd (expireIfNeeded d k s) = s"
    and "expired s d k \<Longrightarrow> stored (snd (expireIfNeeded d k s)) d k = None"
proof -
  let ?t = "notifyKeyspaceEvent ''expired'' k d (propagateExpire d k (s\<lparr>stat_expired := stat_expired s + 1\<rparr>))"
  have core: "same_core s ?t"
    by (simp add: same_core_def) (simp add: env_of_def)
  have eq: "expireIfNeeded d k s =
      (if expired s d k then dbDelete d k ?t
       else (\<not> loading s \<and> masterhost s \<and> past (now_of s) (exp_of s d k), s))"
    by (auto simp: expireIfNeeded_def getExpire_eq [OF assms] expired_def now_of_def past_def Let_def
        split: option.splits)
  have t: "expired ?t d k = expired s d k" "stored ?t d' k' = stored s d' k'" "exp_of ?t d' k' = exp_of s d' k'" for d' k'
    using core expired_env [of ?t s d k] by (simp_all add: same_core_def stored_def exp_of_def)
  show "\<not> expired (snd (expireIfNeeded d k s)) d k"
  proof (cases "expired s d k")
    case True
    then have "exp_of (snd (expireIfNeeded d k s)) d k = None" by (simp add: eq)
    then show ?thesis by (simp add: expired_def past_def)
  qed (simp add: eq)
  show "\<not> expired s d k \<Longrightarrow> snd (expireIfNeeded d k s) = s" by (simp add: eq)
  show "expired s d k \<Longrightarrow> stored (snd (expireIfNeeded d k s)) d k = None" by (simp add: eq)
  show "changes {} s (snd (expireIfNeeded d k s))"
  proof (cases "expired s d k")
    case True
    have c: "changes {(d, k)} s (snd (dbDelete d k ?t))"
      by (rule changes_then [OF same_core_changes [OF core, of "{}"] changes_dbDelete]) simp_all
    moreover have "kept s (snd (dbDelete d k ?t)) d k" using True by (simp add: kept_def)
    ultimately show ?thesis unfolding eq using True by (auto simp: changes_def)
  qed (simp add: eq)
qed

lemma stored_iff: "fmlookup (kdict (dbs s d)) k = None \<longleftrightarrow> stored s d k = None"
  by (simp add: stored_def)

text \<open>What a lookup for reading or writing returns, and the state after it.\<close>

definition looked_up :: "nat \<Rightarrow> bytes \<Rightarrow> ('c, 'o) server \<Rightarrow> 'o val option \<Rightarrow> ('c, 'o) server \<Rightarrow> bool" where
  "looked_up d k s v s' \<longleftrightarrow> changes {} s s' \<and> db_inv s' \<and> \<not> expired s' d k \<and>
     v = fmlookup (kdict (dbs s' d)) k \<and> (\<forall>x. v = Some x \<longrightarrow> val_ok x) \<and>
     view s d k = map_option (\<lambda>x. (val_of x, exp_of s' d k)) v \<and> clients s' = clients s"

lemma looked_upI:
  assumes "changes {} s s'" "db_inv s" "\<not> expired s' d k" "v = fmlookup (kdict (dbs s' d)) k" "clients s' = clients s"
  shows "looked_up d k s v s'"
proof -
  have i: "db_inv s'" by (rule changes_inv [OF assms(1,2)])
  have "view s' d k = view s d k" by (rule changes_view [OF assms(1)]) simp
  then have "view s d k = map_option (\<lambda>x. (val_of x, exp_of s' d k)) v"
    using assms(3,4) by (simp add: view_def stored_def option.map_comp comp_def)
  moreover have "\<forall>x. v = Some x \<longrightarrow> val_ok x" using i assms(4) by (simp add: db_inv_def)
  ultimately show ?thesis using assms i by (simp add: looked_up_def)
qed

lemma dbDelete_clients [simp]: "clients (snd (dbDelete d k s)) = clients s"
  by (simp add: dbDelete_eq)

lemma expireIfNeeded_clients: "db_inv s \<Longrightarrow> clients (snd (expireIfNeeded d k s)) = clients s"
  by (simp add: expireIfNeeded_def getExpire_eq Let_def split: option.split)

lemma lookupKeyWrite_ok: "db_inv s \<Longrightarrow> lookupKeyWrite d k s = (v, s') \<Longrightarrow> looked_up d k s v s'"
  by (intro looked_upI) (auto simp: lookupKeyWrite_def Let_def lookupKey_def expireIfNeeded_changes expireIfNeeded_clients)

lemma lookupKeyRead_ok:
  assumes "db_inv s" "lookupKeyRead d k s = (v, s')"
  shows "looked_up d k s v s'"
proof -
  let ?t = "snd (expireIfNeeded d k s)"
  have v: "v = lookupKey d k ?t" "s' = (if v = None then ?t\<lparr>keyspace_misses := keyspace_misses ?t + 1\<rparr>
      else ?t\<lparr>keyspace_hits := keyspace_hits ?t + 1\<rparr>)"
    using assms(2) by (auto simp: lookupKeyRead_def Let_def)
  then have c: "same_core ?t s'" by (auto simp: same_core_def env_of_def)
  have "changes {} s s'"
    using changes_then [OF expireIfNeeded_changes(1) [OF assms(1)] same_core_changes [OF c, of "{}"], of "{}"] by simp
  moreover have "\<not> expired s' d k"
    using expireIfNeeded_changes(2) [OF assms(1)] expired_env [of s' ?t d k] c
    by (simp add: same_core_def exp_of_def)
  ultimately show ?thesis
    using v(1) c assms(1) by (intro looked_upI) (simp_all add: lookupKey_def same_core_def expireIfNeeded_clients)
qed

text \<open>Writing.\<close>

lemma put_val_ok:
  assumes "val_ok v"
  shows "changes {(d, k)} s (put_val d k v s)" "stored (put_val d k v s) d k = Some (val_of v)"
    "exp_of (put_val d k v s) d k = exp_of s d k" "fmlookup (kdict (dbs (put_val d k v s) d)) k = Some v"
    "clients (put_val d k v s) = clients s"
proof -
  show "changes {(d, k)} s (put_val d k v s)"
    unfolding put_val_def Let_def by (rule changes_entry) (use assms in auto)
qed (simp_all add: put_val_def Let_def stored_def exp_of_def)

lemma dbAdd_eq: "stored s d k = None \<Longrightarrow> dbAdd d k v s = put_val d k v s"
  by (simp add: dbAdd_def stored_def)

lemma dbOverwrite_eq: "stored s d k \<noteq> None \<Longrightarrow> dbOverwrite d k v s = put_val d k v s"
  by (simp add: dbOverwrite_def stored_iff)

lemma removeExpire_ok:
  assumes "stored s d k \<noteq> None"
  shows "changes {(d, k)} s (snd (removeExpire d k s))" "stored (snd (removeExpire d k s)) d k = stored s d k"
    "exp_of (snd (removeExpire d k s)) d k = None" "fst (removeExpire d k s) \<longleftrightarrow> exp_of s d k \<noteq> None"
    "clients (snd (removeExpire d k s)) = clients s"
proof -
  have e: "removeExpire d k s = (exp_of s d k \<noteq> None,
      set_db d ((dbs s d)\<lparr>kexpires := fmdrop k (kexpires (dbs s d))\<rparr>) s)"
    using assms by (simp add: removeExpire_def stored_iff exp_of_def Let_def)
  show "changes {(d, k)} s (snd (removeExpire d k s))"
    unfolding e snd_conv by (rule changes_entry) (auto simp: fmlookup_drop db_inv_def)
  show "stored (snd (removeExpire d k s)) d k = stored s d k"
    "exp_of (snd (removeExpire d k s)) d k = None" "fst (removeExpire d k s) \<longleftrightarrow> exp_of s d k \<noteq> None"
    "clients (snd (removeExpire d k s)) = clients s"
    unfolding e by (simp_all add: stored_def exp_of_def)
qed

lemma setExpire_ok:
  assumes "stored s d k \<noteq> None"
  shows "changes {(d, k)} s (setExpire d k w s)" "stored (setExpire d k w s) d k = stored s d k"
    "exp_of (setExpire d k w s) d k = Some w" "clients (setExpire d k w s) = clients s"
proof -
  have e: "setExpire d k w s = set_db d ((dbs s d)\<lparr>kexpires := fmupd k w (kexpires (dbs s d))\<rparr>) s"
    using assms by (simp add: setExpire_def stored_iff Let_def)
  show "changes {(d, k)} s (setExpire d k w s)"
    unfolding e by (rule changes_entry) (use assms in \<open>auto simp: stored_def db_inv_def\<close>)
  show "stored (setExpire d k w s) d k = stored s d k"
    "exp_of (setExpire d k w s) d k = Some w" "clients (setExpire d k w s) = clients s"
    unfolding e by (simp_all add: stored_def exp_of_def)
qed

text \<open>Touching: every client that watches the key is flagged, and stays flagged.\<close>

definition all_dirty :: "('c, 'o) server \<Rightarrow> nat \<Rightarrow> bytes \<Rightarrow> bool" where
  "all_dirty s d k \<longleftrightarrow>
     (\<forall>cls i c. fmlookup (watchers (dbs s d)) k = Some cls \<longrightarrow> i \<in> set cls \<longrightarrow> clients s i = Some c \<longrightarrow> dirty_cas c)"

lemma flagged_dirty: "flagged a b \<Longrightarrow> b = Some c' \<Longrightarrow> \<exists>c. a = Some c \<and> (dirty_cas c \<longrightarrow> dirty_cas c')"
  by (cases a) (auto simp: flagged_def)

lemma all_dirty_mono:
  assumes "changes K s s'" "all_dirty s d k"
  shows "all_dirty s' d k"
  using assms unfolding changes_def same_watch_def all_dirty_def by (metis flagged_dirty)

lemma flag_dirty_changes: "changes K s (flag_dirty p s)"
  by (simp add: changes_def same_watch_def flag_dirty_def kept_def stored_def exp_of_def db_inv_def env_of_def
      flagged_def split: option.split)

lemma touch_changes [intro!, simp]: "changes K s (signalModifiedKey d k s)"
  by (simp add: signalModifiedKey_def touchWatchedKey_def flag_dirty_changes split: option.split)

lemma flag_dirty_dbs [simp]: "dbs (flag_dirty p s) = dbs s"
  by (simp add: flag_dirty_def)

lemma signal_dbs [simp]: "dbs (signalModifiedKey d k s) = dbs s"
  by (simp add: signalModifiedKey_def touchWatchedKey_def split: option.split)

lemma entry_dbs: "dbs s' = dbs s \<Longrightarrow> stored s' d k = stored s d k \<and> exp_of s' d k = exp_of s d k"
  by (simp add: stored_def exp_of_def)

lemma signal_entry [simp]: "stored (signalModifiedKey d k s) d' k' = stored s d' k'"
  "exp_of (signalModifiedKey d k s) d' k' = exp_of s d' k'"
  by (simp_all add: stored_def exp_of_def)

lemma core_entry [simp]:
  "stored (add_dirty n s) d k = stored s d k" "exp_of (add_dirty n s) d k = exp_of s d k"
  "stored (notifyKeyspaceEvent e k' d' s) d k = stored s d k" "exp_of (notifyKeyspaceEvent e k' d' s) d k = exp_of s d k"
  by (simp_all add: stored_def exp_of_def)

lemma signal_all_dirty: "all_dirty (signalModifiedKey d k s) d k"
  by (auto simp: all_dirty_def signalModifiedKey_def touchWatchedKey_def flag_dirty_def split: option.splits if_splits)

lemma val_of_incr [simp]: "val_of (incr_val v) = val_of v" "val_ok (incr_val v) = val_ok v"
  by (cases v; simp add: val_of_def val_ok_def incrRefCount_def obj_val_def obj_ok_def sdsEncodedObject_def cong: sptr.case_cong)+

lemma looked_up_simps:
  assumes "looked_up d k s v s'"
  shows "changes {} s s'" "db_inv s'" "stored s' d k = map_option val_of v" "\<not> expired s' d k" "clients s' = clients s"
  using assms by (simp_all add: looked_up_def stored_def)

lemma setKey_ok:
  assumes "db_inv s" "val_ok v"
  shows "changes {(d, k)} s (setKey d k v s)" "stored (setKey d k v s) d k = Some (val_of v)"
    "exp_of (setKey d k v s) d k = None" "all_dirty (setKey d k v s) d k"
proof -
  obtain old t where l: "lookupKeyWrite d k s = (old, t)" by fastforce
  note lu = looked_up_simps [OF lookupKeyWrite_ok [OF assms(1) l]]
  let ?u = "put_val d k (incr_val v) t"
  have vok: "val_ok (incr_val v)" using assms(2) by simp
  have u: "(if old = None then dbAdd d k (incr_val v) t else dbOverwrite d k (incr_val v) t) = ?u"
    using lu(3) by (simp add: dbAdd_eq dbOverwrite_eq)
  have eq: "setKey d k v s = signalModifiedKey d k (snd (removeExpire d k ?u))"
    by (simp only: setKey_def l prod.case Let_def u)
  have su: "stored ?u d k \<noteq> None" using put_val_ok(2) [OF vok, of d k t] by simp
  have c: "changes {(d, k)} s ?u"
    by (rule changes_then [OF lu(1) put_val_ok(1) [OF vok]]) simp_all
  have "changes {(d, k)} s (snd (removeExpire d k ?u))"
    by (rule changes_then [OF c removeExpire_ok(1) [OF su]]) simp_all
  then show "changes {(d, k)} s (setKey d k v s)"
    unfolding eq by (rule changes_step [OF _ touch_changes order_refl])
  show "stored (setKey d k v s) d k = Some (val_of v)" "exp_of (setKey d k v s) d k = None"
    unfolding eq using removeExpire_ok [OF su] put_val_ok(2) [OF vok, of d k t] by simp_all
  show "all_dirty (setKey d k v s) d k" unfolding eq by (rule signal_all_dirty)
qed

lemma dbUnshareStringValue_ok:
  fixes s :: "('c, 'o) server"
  assumes "db_inv s" "fmlookup (kdict (dbs s d)) k = Some (SVal ob)" "dbUnshareStringValue d k ob s = (ob', s')"
  shows "changes {(d, k)} s s'" "stored s' d k = stored s d k" "exp_of s' d k = exp_of s d k"
    "obj_ok ob'" "obj_val ob' = obj_val ob" "encoding ob' = ENC_RAW" "\<exists>t. ptr ob' = Str t \<and> sds_ok t"
proof -
  have ok: "obj_ok ob" using assms(1,2) unfolding db_inv_def val_ok_def by (metis val.simps(5))
  have st: "stored s d k = Some (Inl (obj_val ob))" using assms(2) by (simp add: stored_def val_of_def)
  let ?dec = "ptr_sds (ptr (getDecodedObject ob))"
  let ?new = "createRawStringObject (Some (sds_buf ?dec)) (sds_len ?dec)"
  have dec: "sds_ok ?dec" "sds_val ?dec = obj_val ob"
    using getDecodedObject_ok [OF ok] by (auto simp: obj_ok_def obj_val_def sdsEncodedObject_def split: sptr.splits)
  have new: "obj_ok ?new" "obj_val ?new = obj_val ob"
    using createRaw_ok [of "sds_len ?dec" "sds_buf ?dec"] dec by (auto simp: sds_ok_def sds_val_def)
  have enc: "encoding ?new = ENC_RAW" "\<exists>t. ptr ?new = Str t \<and> sds_ok t"
    using new(1) by (auto simp: createRawStringObject_def createObject_def obj_ok_def)
  have "changes {(d, k)} s s' \<and> stored s' d k = stored s d k \<and> exp_of s' d k = exp_of s d k \<and>
    obj_ok ob' \<and> obj_val ob' = obj_val ob \<and> encoding ob' = ENC_RAW \<and> (\<exists>t. ptr ob' = Str t \<and> sds_ok t)"
  proof (cases "refcount ob \<noteq> 1 \<or> encoding ob \<noteq> ENC_RAW")
    case True
    have v: "val_ok (SVal ?new :: 'o val)" "val_of (SVal ?new :: 'o val) = Inl (obj_val ob)"
      using new by (simp_all add: val_ok_def val_of_def)
    have "ob' = ?new" "s' = put_val d k (SVal ?new) s"
      using assms(3) True st by (auto simp: dbUnshareStringValue_def Let_def dbOverwrite_eq)
    with put_val_ok [OF v(1), of d k s] v(2) st new enc show ?thesis by simp
  next
    case False
    then have e: "ob' = ob" "s' = s" using assms(3) by (simp_all add: dbUnshareStringValue_def)
    with False ok show ?thesis by (auto simp: obj_ok_def split: sptr.splits)
  qed
  then show "changes {(d, k)} s s'" "stored s' d k = stored s d k" "exp_of s' d k = exp_of s d k"
    "obj_ok ob'" "obj_val ob' = obj_val ob" "encoding ob' = ENC_RAW" "\<exists>t. ptr ob' = Str t \<and> sds_ok t"
    by simp_all
qed

text \<open>Views.\<close>

definition upd_view :: "(nat \<Rightarrow> bytes \<Rightarrow> 'e option) \<Rightarrow> nat \<Rightarrow> bytes \<Rightarrow> 'e option \<Rightarrow> nat \<Rightarrow> bytes \<Rightarrow> 'e option" where
  "upd_view V d k x = V(d := (V d)(k := x))"

lemma changes_view_none: "changes {} s s' \<Longrightarrow> view s' = view s"
  by (intro ext) (simp add: changes_view)

lemma changes_view_one: "changes {(d, k)} s s' \<Longrightarrow> view s' = upd_view (view s) d k (view s' d k)"
  by (intro ext) (auto simp: upd_view_def dest: changes_view)

lemma view_entry:
  "stored s d k = Some v \<Longrightarrow> \<not> past (now_of s) (exp_of s d k) \<Longrightarrow> view s d k = Some (v, exp_of s d k)"
  "stored s d k = None \<Longrightarrow> view s d k = None"
  by (simp_all add: view_def expired_def)

text \<open>Watching and unwatching.\<close>

lemma changes_watch_inv:
  assumes "changes K s s'" "watch_inv s"
  shows "watch_inv s'"
proof -
  have w: "watchers (dbs s' d) = watchers (dbs s d)" for d using assms(1) by (simp add: changes_def same_watch_def)
  have c: "(\<exists>c. clients s' i = Some c \<and> P (watched_keys c)) \<longleftrightarrow> (\<exists>c. clients s i = Some c \<and> P (watched_keys c))" for i P
  proof -
    have "flagged (clients s i) (clients s' i)" using assms(1) by (simp add: changes_def same_watch_def)
    then show ?thesis by (cases "clients s i") (auto simp: flagged_def)
  qed
  have a: "(\<forall>c. clients s' i = Some c \<longrightarrow> P (watched_keys c)) \<longleftrightarrow> (\<forall>c. clients s i = Some c \<longrightarrow> P (watched_keys c))" for i P
    using c [of i "\<lambda>x. \<not> P x"] by blast
  have n: "(\<forall>c. clients s' i = Some c \<longrightarrow> x \<notin> set (watched_keys c)) \<longleftrightarrow>
    (\<forall>c. clients s i = Some c \<longrightarrow> x \<notin> set (watched_keys c))" for i x
    by (rule a [of i "\<lambda>ks. x \<notin> set ks"])
  have m: "(\<exists>c. clients s' i = Some c \<and> x \<in> set (watched_keys c)) \<longleftrightarrow>
    (\<exists>c. clients s i = Some c \<and> x \<in> set (watched_keys c))" for i x
    by (rule c [of i "\<lambda>ks. x \<in> set ks"])
  from assms(2) show ?thesis unfolding watch_inv_def w n m a .
qed

text \<open>Operations that only change the bookkeeping of watched keys.\<close>

definition same_data :: "('c, 'o) server \<Rightarrow> ('c, 'o) server \<Rightarrow> bool" where
  "same_data s s' \<longleftrightarrow> env_of s' = env_of s \<and> failed s' = failed s \<and> shared s' = shared s \<and>
     (\<forall>d. kdict (dbs s' d) = kdict (dbs s d) \<and> kexpires (dbs s' d) = kexpires (dbs s d))"

lemma same_data_refl [simp]: "same_data s s"
  by (simp add: same_data_def)

lemma same_data_trans: "same_data s t \<Longrightarrow> same_data t u \<Longrightarrow> same_data s u"
  by (simp add: same_data_def)

lemma same_data_entry:
  "same_data s s' \<Longrightarrow> stored s' d k = stored s d k" "same_data s s' \<Longrightarrow> exp_of s' d k = exp_of s d k"
  by (simp_all add: same_data_def stored_def exp_of_def)

lemma same_data_inv: "same_data s s' \<Longrightarrow> db_inv s' = db_inv s"
  by (simp add: same_data_def db_inv_def exp_of_def)

lemma same_data_view: "same_data s s' \<Longrightarrow> view s' = view s"
  by (intro ext) (simp add: view_def same_data_entry expired_def now_of_def, simp add: same_data_def env_of_def
      cong: option.case_cong)

lemma set_client_simps [simp]:
  "clients (set_client i c s) = (clients s)(i := Some c)" "dbs (set_client i c s) = dbs s"
  "same_data s (set_client i c s)"
  by (simp_all add: set_client_def same_data_def env_of_def)

lemma watch_invD:
  assumes "watch_inv s"
  shows "fmlookup (watchers (dbs s d)) k = None \<Longrightarrow> clients s i = Some c \<Longrightarrow> (d, k) \<notin> set (watched_keys c)"
    and "fmlookup (watchers (dbs s d)) k = Some cls \<Longrightarrow> cls \<noteq> [] \<and> distinct cls"
    and "fmlookup (watchers (dbs s d)) k = Some cls \<Longrightarrow>
      i \<in> set cls \<longleftrightarrow> (\<exists>c. clients s i = Some c \<and> (d, k) \<in> set (watched_keys c))"
    and "clients s i = Some c \<Longrightarrow> distinct (watched_keys c)"
  using assms unfolding watch_inv_def by (fastforce split: option.splits)+

lemma watchForKey_ok:
  assumes "watch_inv s" "clients s i = Some c"
  shows "watch_inv (watchForKey i key s)" "same_data s (watchForKey i key s)"
    "clients (watchForKey i key s) = (clients s)(i := Some (c\<lparr>watched_keys :=
       (if (cdb c, key) \<in> set (watched_keys c) then watched_keys c else watched_keys c @ [(cdb c, key)])\<rparr>))"
proof -
  let ?d = "cdb c" and ?t = "watchForKey i key s"
  let ?old = "case fmlookup (watchers (dbs s (cdb c))) key of None \<Rightarrow> [] | Some cls \<Rightarrow> cls"
  have "watch_inv ?t \<and> same_data s ?t \<and> clients ?t = (clients s)(i := Some (c\<lparr>watched_keys :=
       (if (?d, key) \<in> set (watched_keys c) then watched_keys c else watched_keys c @ [(?d, key)])\<rparr>))"
  proof (cases "(?d, key) \<in> set (watched_keys c)")
    case True
    with assms show ?thesis by (auto simp: watchForKey_def)
  next
    case False
    let ?c = "c\<lparr>watched_keys := watched_keys c @ [(?d, key)]\<rparr>"
    have cl: "clients ?t = (clients s)(i := Some ?c)"
      using assms(2) False by (simp add: watchForKey_def Let_def)
    have db: "watchers (dbs ?t d) = (if d = ?d then fmupd key (?old @ [i]) (watchers (dbs s d)) else watchers (dbs s d))" for d
      using assms(2) False by (simp add: watchForKey_def Let_def)
    have data: "same_data s ?t"
      using assms(2) False by (simp add: watchForKey_def Let_def same_data_def set_client_def set_db_def env_of_def)
    have i: "i \<notin> set ?old"
      using watch_invD(3) [OF assms(1), of ?d key _ i] False assms(2) by (auto split: option.split)
    have old: "distinct ?old" "\<And>j. j \<in> set ?old \<longleftrightarrow> (\<exists>c. clients s j = Some c \<and> (?d, key) \<in> set (watched_keys c))"
      using watch_invD(1,2,3) [OF assms(1), of ?d key]
      by (cases "fmlookup (watchers (dbs s (cdb c))) key"; auto)+
    have "watch_inv ?t"
      unfolding watch_inv_def
    proof (intro conjI allI)
      fix d k
      show "case fmlookup (watchers (dbs ?t d)) k of
          None \<Rightarrow> \<forall>i c. clients ?t i = Some c \<longrightarrow> (d, k) \<notin> set (watched_keys c)
        | Some cls \<Rightarrow> cls \<noteq> [] \<and> distinct cls \<and>
            (\<forall>i. i \<in> set cls \<longleftrightarrow> (\<exists>c. clients ?t i = Some c \<and> (d, k) \<in> set (watched_keys c)))"
      proof (cases "d = ?d \<and> k = key")
        case True
        with i old show ?thesis by (auto simp: db cl)
      next
        case f: False
        then have "fmlookup (watchers (dbs ?t d)) k = fmlookup (watchers (dbs s d)) k" by (auto simp: db)
        with f assms(2) watch_invD(1,2,3) [OF assms(1), of d k] show ?thesis
          by (auto simp: cl split: option.split)
      qed
    next
      fix j cj
      show "clients ?t j = Some cj \<longrightarrow> distinct (watched_keys cj)"
        using watch_invD(4) [OF assms(1)] assms(2) False by (auto simp: cl)
    qed
    with cl data False show ?thesis by simp
  qed
  then show "watch_inv ?t" "same_data s ?t" "clients ?t = (clients s)(i := Some (c\<lparr>watched_keys :=
       (if (cdb c, key) \<in> set (watched_keys c) then watched_keys c else watched_keys c @ [(cdb c, key)])\<rparr>))"
    by blast+
qed

definition without :: "nat \<Rightarrow> nat list option \<Rightarrow> nat list option" where
  "without i l =
     (case l of None \<Rightarrow> None | Some cls \<Rightarrow> if remove1 i cls = [] then None else Some (remove1 i cls))"

lemma unwatchKey_ok:
  assumes "fmlookup (watchers (dbs s d)) k \<noteq> None"
  shows "same_data s (unwatchKey i (d, k) s)" "clients (unwatchKey i (d, k) s) = clients s"
    "fmlookup (watchers (dbs (unwatchKey i (d, k) s) d')) k' =
       (if (d', k') = (d, k) then without i (fmlookup (watchers (dbs s d)) k)
        else fmlookup (watchers (dbs s d')) k')"
  using assms
  by (auto simp: unwatchKey_def same_data_def without_def Let_def fmlookup_drop set_db_def env_of_def)

lemma unwatch_fold:
  assumes "distinct ks" "\<forall>(d, k) \<in> set ks. fmlookup (watchers (dbs s d)) k \<noteq> None"
  shows "same_data s (fold (unwatchKey i) ks s) \<and> clients (fold (unwatchKey i) ks s) = clients s \<and>
    (\<forall>d k. fmlookup (watchers (dbs (fold (unwatchKey i) ks s) d)) k =
       (if (d, k) \<in> set ks then without i (fmlookup (watchers (dbs s d)) k)
        else fmlookup (watchers (dbs s d)) k))"
  using assms
proof (induction ks arbitrary: s)
  case (Cons x ks)
  obtain d0 k0 where x: "x = (d0, k0)" by fastforce
  have w: "fmlookup (watchers (dbs s d0)) k0 \<noteq> None" using Cons.prems(2) x by simp
  note u = unwatchKey_ok [OF w, of i]
  have "\<forall>(d, k) \<in> set ks. fmlookup (watchers (dbs (unwatchKey i (d0, k0) s) d)) k \<noteq> None"
    using Cons.prems x by (auto simp: u(3))
  from Cons.IH [OF _ this] Cons.prems(1) show ?case
    using u(1,2) x by (auto simp: u(3) intro: same_data_trans)
qed simp

lemma unwatchAllKeys_ok:
  assumes "watch_inv s" "clients s i = Some c"
  shows "watch_inv (unwatchAllKeys i s)" "same_data s (unwatchAllKeys i s)"
    "clients (unwatchAllKeys i s) = (clients s)(i := Some (c\<lparr>watched_keys := []\<rparr>))"
proof -
  let ?ks = "watched_keys c" and ?t = "unwatchAllKeys i s"
  have "watch_inv ?t \<and> same_data s ?t \<and> clients ?t = (clients s)(i := Some (c\<lparr>watched_keys := []\<rparr>))"
  proof (cases "?ks = []")
    case True
    with assms show ?thesis by (auto simp: unwatchAllKeys_def)
  next
    case False
    have in_watch: "\<forall>(d, k) \<in> set ?ks. fmlookup (watchers (dbs s d)) k \<noteq> None"
      using watch_invD(1) [OF assms(1) _ assms(2)] by auto
    note f = unwatch_fold [OF watch_invD(4) [OF assms] in_watch, of i]
    have cl: "clients ?t = (clients s)(i := Some (c\<lparr>watched_keys := []\<rparr>))"
      using f assms(2) False by (simp add: unwatchAllKeys_def)
    have data: "same_data s ?t"
      using f assms(2) False by (auto simp: unwatchAllKeys_def intro: same_data_trans)
    have wt: "fmlookup (watchers (dbs ?t d)) k =
        (if (d, k) \<in> set ?ks then without i (fmlookup (watchers (dbs s d)) k) else fmlookup (watchers (dbs s d)) k)" for d k
      using f assms(2) False by (simp add: unwatchAllKeys_def)
    have "watch_inv ?t"
      unfolding watch_inv_def
    proof (intro conjI allI)
      fix d k
      show "case fmlookup (watchers (dbs ?t d)) k of
          None \<Rightarrow> \<forall>i c. clients ?t i = Some c \<longrightarrow> (d, k) \<notin> set (watched_keys c)
        | Some cls \<Rightarrow> cls \<noteq> [] \<and> distinct cls \<and>
            (\<forall>i. i \<in> set cls \<longleftrightarrow> (\<exists>c. clients ?t i = Some c \<and> (d, k) \<in> set (watched_keys c)))"
      proof (cases "fmlookup (watchers (dbs s d)) k")
        case None
        with wt watch_invD(1) [OF assms(1) None] in_watch show ?thesis by (auto simp: cl without_def)
      next
        case (Some cls)
        note w = watch_invD(2,3) [OF assms(1) Some]
        show ?thesis
        proof (cases "(d, k) \<in> set ?ks")
          case True
          have r: "set (remove1 i cls) = set cls - {i}" "distinct (remove1 i cls)" using w(1) by simp_all
          have m: "j \<in> set (remove1 i cls) \<longleftrightarrow> (\<exists>c. clients ?t j = Some c \<and> (d, k) \<in> set (watched_keys c))" for j
            using w(2) [of j] by (auto simp: cl r(1))
          show ?thesis
          proof (cases "remove1 i cls = []")
            case e: True
            have "fmlookup (watchers (dbs ?t d)) k = None" using True Some e by (simp add: wt without_def)
            moreover have "\<forall>j c. clients ?t j = Some c \<longrightarrow> (d, k) \<notin> set (watched_keys c)"
              using m unfolding e by auto
            ultimately show ?thesis by simp
          next
            case ne: False
            have "fmlookup (watchers (dbs ?t d)) k = Some (remove1 i cls)" using True Some ne by (simp add: wt without_def)
            with m r(2) ne show ?thesis by simp
          qed
        next
          case f: False
          then have "i \<notin> set cls" using w(2) [of i] assms(2) by auto
          with f w Some show ?thesis by (auto simp: wt cl)
        qed
      qed
    next
      fix j cj
      show "clients ?t j = Some cj \<longrightarrow> distinct (watched_keys cj)"
        using watch_invD(4) [OF assms(1)] by (auto simp: cl)
    qed
    with cl data show ?thesis by simp
  qed
  then show "watch_inv ?t" "same_data s ?t" "clients ?t = (clients s)(i := Some (c\<lparr>watched_keys := []\<rparr>))"
    by blast+
qed

end
