(* ===== verification/Commands.thy ===== *)
theory Commands
  imports Server "HOL-Library.Signed_Division"
begin

text \<open>
  The commands on strings and keys: \<open>src/src/src/t_string.c\<close> and the commands of
  \<open>src/src/src/db.c\<close>. A command gets the number of its client and the argument vector, whose
  element 0 is its name, and returns the replies it adds. Not modelled: \<open>INCRBYFLOAT\<close>
  (floating point), and of \<open>db.c\<close> the commands that list or scan the keys, and the shutdown.
\<close>

datatype err =
    NotInteger
  | OutOfRange
  | OffsetOutOfRange
  | TooLong
  | InvalidExpire
  | SyntaxErr
  | WrongType
  | Overflow
  | WrongArgsMset
  | SameObject
  | NoKey
  | IndexOutOfRange
  | InvalidDb
  | NotInCluster
  | NestedMulti
  | ExecWithoutMulti
  | DiscardWithoutMulti
  | WatchInsideMulti
  | ExecAbort
  | UnknownCommand
  | WrongArity
  | NoAuth
  | Redirected
  | OutOfMemory
  | Misconf
  | NoReplicas
  | ReadOnlyReplica
  | PubsubContext
  | MasterDown
  | LoadingErr
  | BusyScript

datatype reply =
    ROk
  | RNull
  | RNullMulti
  | RInt int
  | RColon bytes
  | RBulk bytes
  | RMultiLen nat
  | RQueued
  | RErr err

text \<open>The commands of the command table that are modelled.\<close>

datatype kcmd =
    CmdGet | CmdSet | CmdSetnx | CmdSetex | CmdPsetex | CmdGetset | CmdSetrange | CmdGetrange
  | CmdAppend | CmdStrlen | CmdMget | CmdMset | CmdMsetnx | CmdIncr | CmdDecr | CmdIncrby | CmdDecrby
  | CmdDel | CmdExists | CmdSelect | CmdRename | CmdRenamenx | CmdMove | CmdExpire | CmdExpireat
  | CmdPexpire | CmdPexpireat | CmdTtl | CmdPttl | CmdPersist | CmdFlushdb | CmdFlushall

datatype cmd = Key kcmd | CmdMulti | CmdExec | CmdDiscard | CmdWatch | CmdUnwatch

type_synonym 'o srv = "(cmd, 'o) server"

type_synonym 'o outcome = "reply list \<times> 'o srv"

definition key_of :: "robj \<Rightarrow> bytes" where
  "key_of ob = sds_val (ptr_sds (ptr ob))"

definition cur_db :: "nat \<Rightarrow> 'o srv \<Rightarrow> nat" where
  "cur_db i s = (case clients s i of None \<Rightarrow> 0 | Some c \<Rightarrow> cdb c)"

definition encode :: "robj \<Rightarrow> 'o srv \<Rightarrow> robj \<times> 'o srv" where
  "encode ob s =
     (case tryObjectEncoding (maxmemory (conf s)) (maxmemory_policy (conf s)) (shared s) ob of
        (ob, sh) \<Rightarrow> (ob, s\<lparr>shared := sh\<rparr>))"

subsection \<open>Strings\<close>

definition checkStringLength :: "int \<Rightarrow> bool" where
  "checkStringLength n \<longleftrightarrow> \<not> n > 512 * 1024 * 1024"

text \<open>The expire argument of the \<open>SET\<close> family in milliseconds. \<open>secs\<close>: the unit is seconds.\<close>

definition set_expire_ms :: "robj option \<Rightarrow> bool \<Rightarrow> err + int" where
  "set_expire_ms expire secs =
     (case expire of
        None \<Rightarrow> Inr 0
      | Some e \<Rightarrow>
          case getLongLongFromObject (Some e) of
            None \<Rightarrow> Inl NotInteger
          | Some ms \<Rightarrow>
              if ms \<le> 0 then Inl InvalidExpire
              else Inr (if secs then wrap_s64 (ms * 1000) else ms))"

definition setGenericCommand ::
  "nat \<Rightarrow> bool \<Rightarrow> bool \<Rightarrow> robj \<Rightarrow> robj \<Rightarrow> robj option \<Rightarrow> bool \<Rightarrow> reply \<Rightarrow> reply \<Rightarrow> 'o srv \<Rightarrow> 'o outcome" where
  "setGenericCommand i nx xx key val expire secs ok_reply abort_reply s =
     (case set_expire_ms expire secs of
        Inl e \<Rightarrow> ([RErr e], s)
      | Inr milliseconds \<Rightarrow>
          let d = cur_db i s;
              k = key_of key;
              (abort1, s) = (if nx then (case lookupKeyWrite d k s of (v, s) \<Rightarrow> (v \<noteq> None, s)) else (False, s));
              (abort2, s) = (if \<not> abort1 \<and> xx then (case lookupKeyWrite d k s of (v, s) \<Rightarrow> (v = None, s)) else (abort1, s))
          in if abort2 then ([abort_reply], s)
             else
               let s = setKey d k (SVal val) s;
                   s = add_dirty 1 s;
                   s = (if expire \<noteq> None then setExpire d k (wrap_s64 (mstime s + milliseconds)) s else s);
                   s = notifyKeyspaceEvent ''set'' k d s;
                   s = (if expire \<noteq> None then notifyKeyspaceEvent ''expire'' k d s else s)
               in ([ok_reply], s))"

text \<open>Comparison with a two letter option; the argument is a C string.\<close>

definition is_option :: "byte \<Rightarrow> byte \<Rightarrow> robj \<Rightarrow> bool" where
  "is_option x y a =
     (let s = cstr (sds_buf (ptr_sds (ptr a)))
      in length s = 2 \<and> (s ! 0 = x \<or> s ! 0 = x - 32) \<and> (s ! 1 = y \<or> s ! 1 = y - 32))"

text \<open>The options of \<open>SET\<close>: the flags, the expire argument and its unit.\<close>

fun set_options :: "robj list \<Rightarrow> bool \<Rightarrow> bool \<Rightarrow> robj option \<Rightarrow> bool \<Rightarrow> (bool \<times> bool \<times> robj option \<times> bool) option" where
  "set_options [] nx xx expire secs = Some (nx, xx, expire, secs)"
| "set_options (a # as) nx xx expire secs =
     (if is_option 110 120 a then set_options as True xx expire secs
      else if is_option 120 120 a then set_options as nx True expire secs
      else if is_option 101 120 a \<and> as \<noteq> [] then set_options (tl as) nx xx (Some (hd as)) True
      else if is_option 112 120 a \<and> as \<noteq> [] then set_options (tl as) nx xx (Some (hd as)) False
      else None)"

definition setCommand :: "nat \<Rightarrow> robj list \<Rightarrow> 'o srv \<Rightarrow> 'o outcome" where
  "setCommand i argv s =
     (case set_options (drop 3 argv) False False None True of
        None \<Rightarrow> ([RErr SyntaxErr], s)
      | Some (nx, xx, expire, secs) \<Rightarrow>
          case encode (argv ! 2) s of
            (val, s) \<Rightarrow> setGenericCommand i nx xx (argv ! 1) val expire secs ROk RNull s)"

definition setnxCommand :: "nat \<Rightarrow> robj list \<Rightarrow> 'o srv \<Rightarrow> 'o outcome" where
  "setnxCommand i argv s =
     (case encode (argv ! 2) s of
        (val, s) \<Rightarrow> setGenericCommand i True False (argv ! 1) val None True (RInt 1) (RInt 0) s)"

definition setexCommand :: "nat \<Rightarrow> robj list \<Rightarrow> 'o srv \<Rightarrow> 'o outcome" where
  "setexCommand i argv s =
     (case encode (argv ! 3) s of
        (val, s) \<Rightarrow> setGenericCommand i False False (argv ! 1) val (Some (argv ! 2)) True ROk RNull s)"

definition psetexCommand :: "nat \<Rightarrow> robj list \<Rightarrow> 'o srv \<Rightarrow> 'o outcome" where
  "psetexCommand i argv s =
     (case encode (argv ! 3) s of
        (val, s) \<Rightarrow> setGenericCommand i False False (argv ! 1) val (Some (argv ! 2)) False ROk RNull s)"

text \<open>The flag is \<open>REDIS_OK\<close>.\<close>

definition getGenericCommand :: "nat \<Rightarrow> robj list \<Rightarrow> 'o srv \<Rightarrow> bool \<times> 'o outcome" where
  "getGenericCommand i argv s =
     (case lookupKeyRead (cur_db i s) (key_of (argv ! 1)) s of
        (None, s) \<Rightarrow> (True, [RNull], s)
      | (Some (OVal x), s) \<Rightarrow> (False, [RErr WrongType], s)
      | (Some (SVal ob), s) \<Rightarrow> (True, [RBulk (obj_val ob)], s))"

definition getCommand :: "nat \<Rightarrow> robj list \<Rightarrow> 'o srv \<Rightarrow> 'o outcome" where
  "getCommand i argv s = snd (getGenericCommand i argv s)"

definition getsetCommand :: "nat \<Rightarrow> robj list \<Rightarrow> 'o srv \<Rightarrow> 'o outcome" where
  "getsetCommand i argv s =
     (case getGenericCommand i argv s of
        (False, r, s) \<Rightarrow> (r, s)
      | (True, r, s) \<Rightarrow>
          case encode (argv ! 2) s of
            (val, s) \<Rightarrow>
              let d = cur_db i s;
                  k = key_of (argv ! 1);
                  s = setKey d k (SVal val) s;
                  s = notifyKeyspaceEvent ''set'' k d s
              in (r, add_dirty 1 s))"

text \<open>The end of \<open>SETRANGE\<close>, with the unshared object. \<open>offset + sdslen(value)\<close> is unsigned.\<close>

definition setrange_write :: "nat \<Rightarrow> bytes \<Rightarrow> nat \<Rightarrow> bytes \<Rightarrow> robj \<Rightarrow> 'o srv \<Rightarrow> 'o outcome" where
  "setrange_write d k offset v ob s =
     (let grown = sdsgrowzero (ptr_sds (ptr ob)) (offset + length v);
          ob = ob\<lparr>ptr := Str (grown\<lparr>sds_buf := splice offset v (sds_buf grown)\<rparr>)\<rparr>;
          s = put_val d k (SVal ob) s;
          s = signalModifiedKey d k s;
          s = notifyKeyspaceEvent ''setrange'' k d s;
          s = add_dirty 1 s
      in ([RInt (int (sds_len (ptr_sds (ptr ob))))], s))"

definition setrangeCommand :: "nat \<Rightarrow> robj list \<Rightarrow> 'o srv \<Rightarrow> 'o outcome" where
  "setrangeCommand i argv s =
     (let v = sds_val (ptr_sds (ptr (argv ! 3))); d = cur_db i s; k = key_of (argv ! 1) in
      case getLongLongFromObject (Some (argv ! 2)) of
        None \<Rightarrow> ([RErr NotInteger], s)
      | Some offset \<Rightarrow>
          if offset < 0 then ([RErr OffsetOutOfRange], s)
          else
            case lookupKeyWrite d k s of
              (None, s) \<Rightarrow>
                if length v = 0 then ([RInt 0], s)
                else if \<not> checkStringLength (wrap_s64 (offset + int (length v))) then ([RErr TooLong], s)
                else
                  let ob = createObject (Str sdsempty)
                  in setrange_write d k (nat offset) v ob (dbAdd d k (SVal ob) s)
            | (Some (OVal x), s) \<Rightarrow> ([RErr WrongType], s)
            | (Some (SVal ob), s) \<Rightarrow>
                if length v = 0 then ([RInt (int (stringObjectLen ob))], s)
                else if \<not> checkStringLength (wrap_s64 (offset + int (length v))) then ([RErr TooLong], s)
                else case dbUnshareStringValue d k ob s of (ob, s) \<Rightarrow> setrange_write d k (nat offset) v ob s)"

text \<open>The two indexes of \<open>GETRANGE\<close> as they are used; \<open>strlen\<close> is unsigned and has 64 bits.\<close>

definition getrange_bounds :: "int \<Rightarrow> int \<Rightarrow> nat \<Rightarrow> int \<times> int" where
  "getrange_bounds start end0 len =
     (let start = (if start < 0 then int len + start else start);
          end1 = (if end0 < 0 then int len + end0 else end0);
          start = (if start < 0 then 0 else start);
          end1 = (if end1 < 0 then 0 else end1);
          end1 = (if end1 \<ge> int len then int len - 1 else end1)
      in (start, end1))"

definition getrangeCommand :: "nat \<Rightarrow> robj list \<Rightarrow> 'o srv \<Rightarrow> 'o outcome" where
  "getrangeCommand i argv s =
     (case getLongLongFromObject (Some (argv ! 2)) of
        None \<Rightarrow> ([RErr NotInteger], s)
      | Some start \<Rightarrow>
          case getLongLongFromObject (Some (argv ! 3)) of
            None \<Rightarrow> ([RErr NotInteger], s)
          | Some end0 \<Rightarrow>
              case lookupKeyRead (cur_db i s) (key_of (argv ! 1)) s of
                (None, s) \<Rightarrow> ([RBulk []], s)
              | (Some (OVal x), s) \<Rightarrow> ([RErr WrongType], s)
              | (Some (SVal ob), s) \<Rightarrow>
                  let (len, str) =
                        (if encoding ob = ENC_INT then ll2string (replicate 32 0) 32 (ptr_num (ptr ob))
                         else (sds_len (ptr_sds (ptr ob)), sds_buf (ptr_sds (ptr ob))));
                      (start, end1) = getrange_bounds start end0 len
                  in if start > end1 \<or> len = 0 then ([RBulk []], s)
                     else ([RBulk (slice (nat start) (nat (end1 - start + 1)) str)], s))"

fun mget_loop :: "nat \<Rightarrow> robj list \<Rightarrow> 'o srv \<Rightarrow> 'o outcome" where
  "mget_loop d [] s = ([], s)"
| "mget_loop d (key # keys) s =
     (case lookupKeyRead d (key_of key) s of
        (v, s) \<Rightarrow>
          let r = (case v of Some (SVal ob) \<Rightarrow> RBulk (obj_val ob) | _ \<Rightarrow> RNull)
          in case mget_loop d keys s of (rs, s) \<Rightarrow> (r # rs, s))"

definition mgetCommand :: "nat \<Rightarrow> robj list \<Rightarrow> 'o srv \<Rightarrow> 'o outcome" where
  "mgetCommand i argv s =
     (case mget_loop (cur_db i s) (drop 1 argv) s of (rs, s) \<Rightarrow> (RMultiLen (length argv - 1) # rs, s))"

fun mset_busy :: "nat \<Rightarrow> robj list \<Rightarrow> 'o srv \<Rightarrow> nat \<times> 'o srv" where
  "mset_busy d (key # val # rest) s =
     (case lookupKeyWrite d (key_of key) s of
        (v, s) \<Rightarrow> case mset_busy d rest s of (n, s) \<Rightarrow> (if v \<noteq> None then n + 1 else n, s))"
| "mset_busy d _ s = (0, s)"

fun mset_loop :: "nat \<Rightarrow> robj list \<Rightarrow> 'o srv \<Rightarrow> 'o srv" where
  "mset_loop d (key # val # rest) s =
     (case encode val s of
        (val, s) \<Rightarrow>
          let s = setKey d (key_of key) (SVal val) s
          in mset_loop d rest (notifyKeyspaceEvent ''set'' (key_of key) d s))"
| "mset_loop d _ s = s"

definition msetGenericCommand :: "nat \<Rightarrow> bool \<Rightarrow> robj list \<Rightarrow> 'o srv \<Rightarrow> 'o outcome" where
  "msetGenericCommand i nx argv s =
     (if length argv mod 2 = 0 then ([RErr WrongArgsMset], s)
      else
        let d = cur_db i s;
            (busy, s) = (if nx then mset_busy d (drop 1 argv) s else (0, s))
        in if busy \<noteq> 0 then ([RInt 0], s)
           else
             let s = mset_loop d (drop 1 argv) s;
                 s = add_dirty (int ((length argv - 1) div 2)) s
             in ([if nx then RInt 1 else ROk], s))"

text \<open>\<open>long\<close> has 32 bits on Windows, and these limits were not ported.\<close>

definition LONG_MIN :: int where "LONG_MIN = - (2 ^ 31)"
definition LONG_MAX :: int where "LONG_MAX = 2 ^ 31 - 1"

definition incrDecrCommand :: "nat \<Rightarrow> int \<Rightarrow> robj list \<Rightarrow> 'o srv \<Rightarrow> 'o outcome" where
  "incrDecrCommand i incr argv s =
     (let d = cur_db i s; k = key_of (argv ! 1) in
      case lookupKeyWrite d k s of
        (Some (OVal x), s) \<Rightarrow> ([RErr WrongType], s)
      | (v, s) \<Rightarrow>
          let ob = (case v of Some (SVal ob) \<Rightarrow> Some ob | _ \<Rightarrow> None) in
          case getLongLongFromObject ob of
            None \<Rightarrow> ([RErr NotInteger], s)
          | Some oldvalue \<Rightarrow>
              if (incr < 0 \<and> oldvalue < 0 \<and> incr < wrap_s64 (LLONG_MIN - oldvalue)) \<or>
                 (incr > 0 \<and> oldvalue > 0 \<and> incr > wrap_s64 (LLONG_MAX - oldvalue))
              then ([RErr Overflow], s)
              else
                let val = wrap_s64 (oldvalue + incr);
                    (new, s) =
                      (case ob of
                         Some ob1 \<Rightarrow>
                           if refcount ob1 = 1 \<and> encoding ob1 = ENC_INT \<and> (val < 0 \<or> val \<ge> SHARED_INTEGERS) \<and>
                              val \<ge> LONG_MIN \<and> val \<le> LONG_MAX
                           then let ob1 = ob1\<lparr>ptr := Num val\<rparr> in (ob1, put_val d k (SVal ob1) s)
                           else case createStringObjectFromLongLong (shared s) val of
                                  (new, sh) \<Rightarrow> (new, dbOverwrite d k (SVal new) (s\<lparr>shared := sh\<rparr>))
                       | None \<Rightarrow>
                           case createStringObjectFromLongLong (shared s) val of
                             (new, sh) \<Rightarrow> (new, dbAdd d k (SVal new) (s\<lparr>shared := sh\<rparr>)));
                    s = signalModifiedKey d k s;
                    s = notifyKeyspaceEvent ''incrby'' k d s;
                    s = add_dirty 1 s
                in ([RColon (obj_val new)], s))"

definition incrbyCommand :: "nat \<Rightarrow> robj list \<Rightarrow> 'o srv \<Rightarrow> 'o outcome" where
  "incrbyCommand i argv s =
     (case getLongLongFromObject (Some (argv ! 2)) of
        None \<Rightarrow> ([RErr NotInteger], s)
      | Some incr \<Rightarrow> incrDecrCommand i incr argv s)"

definition decrbyCommand :: "nat \<Rightarrow> robj list \<Rightarrow> 'o srv \<Rightarrow> 'o outcome" where
  "decrbyCommand i argv s =
     (case getLongLongFromObject (Some (argv ! 2)) of
        None \<Rightarrow> ([RErr NotInteger], s)
      | Some incr \<Rightarrow> incrDecrCommand i (wrap_s64 (- incr)) argv s)"

definition appendCommand :: "nat \<Rightarrow> robj list \<Rightarrow> 'o srv \<Rightarrow> 'o outcome" where
  "appendCommand i argv s =
     (let d = cur_db i s;
          k = key_of (argv ! 1);
          finish = (\<lambda>totlen s.
            let s = signalModifiedKey d k s;
                s = notifyKeyspaceEvent ''append'' k d s;
                s = add_dirty 1 s
            in ([RInt totlen], s))
      in case lookupKeyWrite d k s of
           (None, s) \<Rightarrow>
             (case encode (argv ! 2) s of
                (val, s) \<Rightarrow> finish (int (stringObjectLen val)) (dbAdd d k (SVal (incrRefCount val)) s))
         | (Some (OVal x), s) \<Rightarrow> ([RErr WrongType], s)
         | (Some (SVal ob), s) \<Rightarrow>
             let append = sds_val (ptr_sds (ptr (argv ! 2)))
             in if \<not> checkStringLength (int (stringObjectLen ob + length append)) then ([RErr TooLong], s)
                else
                  case dbUnshareStringValue d k ob s of
                    (ob, s) \<Rightarrow>
                      let ob = ob\<lparr>ptr := Str (sdscatlen (ptr_sds (ptr ob)) append)\<rparr>;
                          s = put_val d k (SVal ob) s
                      in finish (int (sds_len (ptr_sds (ptr ob)))) s)"

definition strlenCommand :: "nat \<Rightarrow> robj list \<Rightarrow> 'o srv \<Rightarrow> 'o outcome" where
  "strlenCommand i argv s =
     (case lookupKeyRead (cur_db i s) (key_of (argv ! 1)) s of
        (None, s) \<Rightarrow> ([RInt 0], s)
      | (Some (OVal x), s) \<Rightarrow> ([RErr WrongType], s)
      | (Some (SVal ob), s) \<Rightarrow> ([RInt (int (stringObjectLen ob))], s))"

subsection \<open>Keys\<close>

fun del_loop :: "nat \<Rightarrow> robj list \<Rightarrow> 'o srv \<Rightarrow> nat \<times> 'o srv" where
  "del_loop d [] s = (0, s)"
| "del_loop d (key # keys) s =
     (let k = key_of key; s = snd (expireIfNeeded d k s) in
      case dbDelete d k s of
        (False, s) \<Rightarrow> del_loop d keys s
      | (True, s) \<Rightarrow>
          let s = signalModifiedKey d k s;
              s = notifyKeyspaceEvent ''del'' k d s
          in case del_loop d keys (add_dirty 1 s) of (n, s) \<Rightarrow> (n + 1, s))"

definition delCommand :: "nat \<Rightarrow> robj list \<Rightarrow> 'o srv \<Rightarrow> 'o outcome" where
  "delCommand i argv s = (case del_loop (cur_db i s) (drop 1 argv) s of (n, s) \<Rightarrow> ([RInt (int n)], s))"

fun exists_loop :: "nat \<Rightarrow> robj list \<Rightarrow> 'o srv \<Rightarrow> nat \<times> 'o srv" where
  "exists_loop d [] s = (0, s)"
| "exists_loop d (key # keys) s =
     (let s = snd (expireIfNeeded d (key_of key) s) in
      case exists_loop d keys s of (n, s') \<Rightarrow> (if dbExists d (key_of key) s then n + 1 else n, s'))"

definition existsCommand :: "nat \<Rightarrow> robj list \<Rightarrow> 'o srv \<Rightarrow> 'o outcome" where
  "existsCommand i argv s = (case exists_loop (cur_db i s) (drop 1 argv) s of (n, s) \<Rightarrow> ([RInt (int n)], s))"

definition selectCommand :: "nat \<Rightarrow> robj list \<Rightarrow> 'o srv \<Rightarrow> 'o outcome" where
  "selectCommand i argv s =
     (case getLongLongFromObject (Some (argv ! 1)) of
        None \<Rightarrow> ([RErr InvalidDb], s)
      | Some ix \<Rightarrow>
          if cluster_enabled (conf s) \<and> ix \<noteq> 0 then ([RErr NotInCluster], s)
          else case selectDb i (sext 4 (ix mod 2 ^ 32)) s of
                 (False, s) \<Rightarrow> ([RErr InvalidDb], s)
               | (True, s) \<Rightarrow> ([ROk], s))"

definition renameGenericCommand :: "nat \<Rightarrow> bool \<Rightarrow> robj list \<Rightarrow> 'o srv \<Rightarrow> 'o outcome" where
  "renameGenericCommand i nx argv s =
     (let d = cur_db i s; k1 = key_of (argv ! 1); k2 = key_of (argv ! 2) in
      if sdscmp (ptr_sds (ptr (argv ! 1))) (ptr_sds (ptr (argv ! 2))) = 0 then ([RErr SameObject], s)
      else
        case lookupKeyWrite d k1 s of
          (None, s) \<Rightarrow> ([RErr NoKey], s)
        | (Some v, s) \<Rightarrow>
            case getExpire d k1 s of
              (expire, s) \<Rightarrow>
                case lookupKeyWrite d k2 s of
                  (old, s) \<Rightarrow>
                    if old \<noteq> None \<and> nx then ([RInt 0], s)
                    else
                      let s = (if old \<noteq> None then snd (dbDelete d k2 s) else s);
                          s = dbAdd d k2 v s;
                          s = (if expire \<noteq> -1 then setExpire d k2 expire s else s);
                          s = snd (dbDelete d k1 s);
                          s = signalModifiedKey d k1 s;
                          s = signalModifiedKey d k2 s;
                          s = notifyKeyspaceEvent ''rename_from'' k1 d s;
                          s = notifyKeyspaceEvent ''rename_to'' k2 d s;
                          s = add_dirty 1 s
                      in ([if nx then RInt 1 else ROk], s))"

definition moveCommand :: "nat \<Rightarrow> robj list \<Rightarrow> 'o srv \<Rightarrow> 'o outcome" where
  "moveCommand i argv s =
     (if cluster_enabled (conf s) then ([RErr NotInCluster], s)
      else
        let src = cur_db i s; k = key_of (argv ! 1) in
        case getLongLongFromObject (Some (argv ! 2)) of
          None \<Rightarrow> ([RErr IndexOutOfRange], s)
        | Some ix \<Rightarrow>
            if ix < - (2 ^ 31) \<or> ix > 2 ^ 31 - 1 \<or> ix < 0 \<or> ix \<ge> int (dbnum (conf s))
            then ([RErr IndexOutOfRange], s)
            else
              let dst = nat ix in
              if src = dst then ([RErr SameObject], s)
              else
                case lookupKeyWrite src k s of
                  (None, s) \<Rightarrow> ([RInt 0], s)
                | (Some v, s) \<Rightarrow>
                    case getExpire src k s of
                      (expire, s) \<Rightarrow>
                        case lookupKeyWrite dst k s of
                          (old, s) \<Rightarrow>
                            if old \<noteq> None then ([RInt 0], s)
                            else
                              let s = dbAdd dst k (incr_val v) s;
                                  s = (if expire \<noteq> -1 then setExpire dst k expire s else s);
                                  s = snd (dbDelete src k s)
                              in ([RInt 1], add_dirty 1 s))"

definition flushdbCommand :: "nat \<Rightarrow> robj list \<Rightarrow> 'o srv \<Rightarrow> 'o outcome" where
  "flushdbCommand i argv s =
     (let d = cur_db i s;
          s = add_dirty (int (dictSizeOf (kdict (dbs s d)))) s;
          s = signalFlushedDb (Some d) s
      in ([ROk], set_db d (empty_db (dbs s d)) s))"

definition flushallCommand :: "nat \<Rightarrow> robj list \<Rightarrow> 'o srv \<Rightarrow> 'o outcome" where
  "flushallCommand i argv s =
     (case emptyDb (signalFlushedDb None s) of
        (n, s) \<Rightarrow> ([ROk], add_dirty 1 (add_dirty (int n) s)))"

subsection \<open>Expiry\<close>

text \<open>\<open>rewriteClientCommandVector\<close>: what is propagated instead of the command that runs.\<close>

definition rewriteClientCommandVector :: "cmd \<Rightarrow> robj list \<Rightarrow> 'o srv \<Rightarrow> 'o srv" where
  "rewriteClientCommandVector c argv s = s\<lparr>rewritten := Some (c, argv)\<rparr>"

definition expireGenericCommand :: "nat \<Rightarrow> int \<Rightarrow> bool \<Rightarrow> robj list \<Rightarrow> 'o srv \<Rightarrow> 'o outcome" where
  "expireGenericCommand i basetime secs argv s =
     (let d = cur_db i s; k = key_of (argv ! 1) in
      case getLongLongFromObject (Some (argv ! 2)) of
        None \<Rightarrow> ([RErr NotInteger], s)
      | Some when \<Rightarrow>
          let when = (if secs then wrap_s64 (when * 1000) else when);
              when = wrap_s64 (when + basetime)
          in case lookupKeyRead d k s of
               (None, s) \<Rightarrow> ([RInt 0], s)
             | (Some v, s) \<Rightarrow>
                 if when \<le> mstime s \<and> \<not> loading s \<and> \<not> masterhost s then
                   case dbDelete d k s of
                     (deleted, s) \<Rightarrow>
                       let s = redisAssert deleted s;
                           s = add_dirty 1 s;
                           s = rewriteClientCommandVector (Key CmdDel) [createStringObject (Some (map of_char ''DEL'')) 3, argv ! 1] s;
                           s = signalModifiedKey d k s;
                           s = notifyKeyspaceEvent ''del'' k d s
                       in ([RInt 1], s)
                 else
                   let s = setExpire d k when s;
                       s = signalModifiedKey d k s;
                       s = notifyKeyspaceEvent ''expire'' k d s
                   in ([RInt 1], add_dirty 1 s))"

definition ttlGenericCommand :: "nat \<Rightarrow> bool \<Rightarrow> robj list \<Rightarrow> 'o srv \<Rightarrow> 'o outcome" where
  "ttlGenericCommand i output_ms argv s =
     (let d = cur_db i s; k = key_of (argv ! 1) in
      case lookupKeyRead d k s of
        (None, s) \<Rightarrow> ([RInt (-2)], s)
      | (Some v, s) \<Rightarrow>
          case getExpire d k s of
            (expire, s) \<Rightarrow>
              let ttl = (if expire \<noteq> -1 then max 0 (wrap_s64 (expire - mstime s)) else -1)
              in if ttl = -1 then ([RInt (-1)], s)
                 else ([RInt (if output_ms then ttl else wrap_s64 (ttl + 500) sdiv 1000)], s))"

definition persistCommand :: "nat \<Rightarrow> robj list \<Rightarrow> 'o srv \<Rightarrow> 'o outcome" where
  "persistCommand i argv s =
     (let d = cur_db i s; k = key_of (argv ! 1) in
      if fmlookup (kdict (dbs s d)) k = None then ([RInt 0], s)
      else case removeExpire d k s of
             (True, s) \<Rightarrow> ([RInt 1], add_dirty 1 s)
           | (False, s) \<Rightarrow> ([RInt 0], s))"

subsection \<open>The command table\<close>

text \<open>\<open>redisCommandTable\<close> of \<open>redis.c\<close>: name, arity (negative: at least), the flags as a string, and
  the position of the first key (0: none). \<open>populateCommandTable\<close> turns a letter of the string
  into a flag.\<close>

record command =
  proc_of :: cmd
  arity :: int
  sflags :: string
  firstkey :: nat

definition redisCommandTable :: "(string \<times> cmd \<times> int \<times> string \<times> nat) list" where
  "redisCommandTable =
     [(''get'', Key CmdGet, 2, ''rF'', 1),
      (''set'', Key CmdSet, -3, ''wm'', 1),
      (''setnx'', Key CmdSetnx, 3, ''wmF'', 1),
      (''setex'', Key CmdSetex, 4, ''wm'', 1),
      (''psetex'', Key CmdPsetex, 4, ''wm'', 1),
      (''append'', Key CmdAppend, 3, ''wm'', 1),
      (''strlen'', Key CmdStrlen, 2, ''rF'', 1),
      (''del'', Key CmdDel, -2, ''w'', 1),
      (''exists'', Key CmdExists, -2, ''rF'', 1),
      (''setrange'', Key CmdSetrange, 4, ''wm'', 1),
      (''getrange'', Key CmdGetrange, 4, ''r'', 1),
      (''substr'', Key CmdGetrange, 4, ''r'', 1),
      (''incr'', Key CmdIncr, 2, ''wmF'', 1),
      (''decr'', Key CmdDecr, 2, ''wmF'', 1),
      (''mget'', Key CmdMget, -2, ''r'', 1),
      (''incrby'', Key CmdIncrby, 3, ''wmF'', 1),
      (''decrby'', Key CmdDecrby, 3, ''wmF'', 1),
      (''getset'', Key CmdGetset, 3, ''wm'', 1),
      (''mset'', Key CmdMset, -3, ''wm'', 1),
      (''msetnx'', Key CmdMsetnx, -3, ''wm'', 1),
      (''select'', Key CmdSelect, 2, ''rlF'', 0),
      (''move'', Key CmdMove, 3, ''wF'', 1),
      (''rename'', Key CmdRename, 3, ''w'', 1),
      (''renamenx'', Key CmdRenamenx, 3, ''wF'', 1),
      (''expire'', Key CmdExpire, 3, ''wF'', 1),
      (''expireat'', Key CmdExpireat, 3, ''wF'', 1),
      (''pexpire'', Key CmdPexpire, 3, ''wF'', 1),
      (''pexpireat'', Key CmdPexpireat, 3, ''wF'', 1),
      (''multi'', CmdMulti, 1, ''rsF'', 0),
      (''exec'', CmdExec, 1, ''sM'', 0),
      (''discard'', CmdDiscard, 1, ''rsF'', 0),
      (''flushdb'', Key CmdFlushdb, 1, ''w'', 0),
      (''flushall'', Key CmdFlushall, 1, ''w'', 0),
      (''ttl'', Key CmdTtl, 2, ''rF'', 1),
      (''pttl'', Key CmdPttl, 2, ''rF'', 1),
      (''persist'', Key CmdPersist, 2, ''wF'', 1),
      (''watch'', CmdWatch, -2, ''rsF'', 1),
      (''unwatch'', CmdUnwatch, 1, ''rsF'', 0)]"

definition populateCommandTable :: "(bytes \<times> command) list" where
  "populateCommandTable =
     map (\<lambda>(name, c, a, f, k). (map of_char name, \<lparr>proc_of = c, arity = a, sflags = f, firstkey = k\<rparr>))
       redisCommandTable"

definition has_flag :: "command \<Rightarrow> char \<Rightarrow> bool" where
  "has_flag c x \<longleftrightarrow> x \<in> set (sflags c)"

text \<open>The check of the number of arguments, the command name included.\<close>

definition arity_ok :: "int \<Rightarrow> nat \<Rightarrow> bool" where
  "arity_ok a n \<longleftrightarrow> \<not> (a > 0 \<and> a \<noteq> int n) \<and> \<not> int n < - a"

text \<open>\<open>cmd->proc\<close> for the commands on keys.\<close>

fun data_proc :: "kcmd \<Rightarrow> nat \<Rightarrow> robj list \<Rightarrow> 'o srv \<Rightarrow> 'o outcome" where
  "data_proc CmdGet i argv s = getCommand i argv s"
| "data_proc CmdSet i argv s = setCommand i argv s"
| "data_proc CmdSetnx i argv s = setnxCommand i argv s"
| "data_proc CmdSetex i argv s = setexCommand i argv s"
| "data_proc CmdPsetex i argv s = psetexCommand i argv s"
| "data_proc CmdGetset i argv s = getsetCommand i argv s"
| "data_proc CmdSetrange i argv s = setrangeCommand i argv s"
| "data_proc CmdGetrange i argv s = getrangeCommand i argv s"
| "data_proc CmdAppend i argv s = appendCommand i argv s"
| "data_proc CmdStrlen i argv s = strlenCommand i argv s"
| "data_proc CmdMget i argv s = mgetCommand i argv s"
| "data_proc CmdMset i argv s = msetGenericCommand i False argv s"
| "data_proc CmdMsetnx i argv s = msetGenericCommand i True argv s"
| "data_proc CmdIncr i argv s = incrDecrCommand i 1 argv s"
| "data_proc CmdDecr i argv s = incrDecrCommand i (-1) argv s"
| "data_proc CmdIncrby i argv s = incrbyCommand i argv s"
| "data_proc CmdDecrby i argv s = decrbyCommand i argv s"
| "data_proc CmdDel i argv s = delCommand i argv s"
| "data_proc CmdExists i argv s = existsCommand i argv s"
| "data_proc CmdSelect i argv s = selectCommand i argv s"
| "data_proc CmdRename i argv s = renameGenericCommand i False argv s"
| "data_proc CmdRenamenx i argv s = renameGenericCommand i True argv s"
| "data_proc CmdMove i argv s = moveCommand i argv s"
| "data_proc CmdExpire i argv s = expireGenericCommand i (mstime s) True argv s"
| "data_proc CmdExpireat i argv s = expireGenericCommand i 0 True argv s"
| "data_proc CmdPexpire i argv s = expireGenericCommand i (mstime s) False argv s"
| "data_proc CmdPexpireat i argv s = expireGenericCommand i 0 False argv s"
| "data_proc CmdTtl i argv s = ttlGenericCommand i False argv s"
| "data_proc CmdPttl i argv s = ttlGenericCommand i True argv s"
| "data_proc CmdPersist i argv s = persistCommand i argv s"
| "data_proc CmdFlushdb i argv s = flushdbCommand i argv s"
| "data_proc CmdFlushall i argv s = flushallCommand i argv s"

end
