(* ===== verification/CommandSpec.thy ===== *)
theory CommandSpec
  imports Commands
begin

text \<open>
  What the commands on strings and keys promise: an abstract store in which a key is a value with
  an optional time of expiry, without encodings, reference counts, shared objects and dead
  entries. The commands of the theory Commands are proved to refine it, and every change of a
  key is proved to flag the clients that watch it.
\<close>

declare One_nat_def [simp del]

subsection \<open>The abstract store\<close>

type_synonym 'o vw = "nat \<Rightarrow> bytes \<Rightarrow> ((bytes + 'o) \<times> int option) option"

text \<open>An integer argument: the bytes before the first NUL, without leading white space.\<close>

definition int_of :: "bytes \<Rightarrow> int option" where
  "int_of b =
     (case strtoll_full (cstr b) of
        (n, rest, erange) \<Rightarrow> if b \<noteq> [] \<and> isspace (hd b) \<or> rest \<noteq> [] \<or> erange then None else Some n)"

definition spec_ms :: "bytes option \<Rightarrow> bool \<Rightarrow> err + int option" where
  "spec_ms expire secs =
     (case expire of
        None \<Rightarrow> Inr None
      | Some b \<Rightarrow>
          case int_of b of
            None \<Rightarrow> Inl NotInteger
          | Some n \<Rightarrow> if n \<le> 0 then Inl InvalidExpire else Inr (Some (if secs then n * 1000 else n)))"

definition spec_set :: "int \<Rightarrow> nat \<Rightarrow> bool \<Rightarrow> bool \<Rightarrow> bytes \<Rightarrow> bytes \<Rightarrow> err + int option \<Rightarrow> reply \<Rightarrow> reply \<Rightarrow> 'o vw \<Rightarrow> reply list \<times> 'o vw" where
  "spec_set now d nx xx k v e ok_reply abort_reply V =
     (case e of
        Inl er \<Rightarrow> ([RErr er], V)
      | Inr ms \<Rightarrow>
          if nx \<and> V d k \<noteq> None \<or> xx \<and> V d k = None then ([abort_reply], V)
          else ([ok_reply], upd_view V d k (Some (Inl v, map_option (\<lambda>m. now + m) ms))))"

definition is_opt :: "byte \<Rightarrow> byte \<Rightarrow> bytes \<Rightarrow> bool" where
  "is_opt x y a \<longleftrightarrow> length (cstr a) = 2 \<and> cstr a ! 0 \<in> {x, x - 32} \<and> cstr a ! 1 \<in> {y, y - 32}"

fun spec_options :: "bytes list \<Rightarrow> bool \<Rightarrow> bool \<Rightarrow> bytes option \<Rightarrow> bool \<Rightarrow> (bool \<times> bool \<times> bytes option \<times> bool) option" where
  "spec_options [] nx xx expire secs = Some (nx, xx, expire, secs)"
| "spec_options (a # as) nx xx expire secs =
     (if is_opt 110 120 a then spec_options as True xx expire secs
      else if is_opt 120 120 a then spec_options as nx True expire secs
      else if is_opt 101 120 a \<and> as \<noteq> [] then spec_options (tl as) nx xx (Some (hd as)) True
      else if is_opt 112 120 a \<and> as \<noteq> [] then spec_options (tl as) nx xx (Some (hd as)) False
      else None)"

text \<open>Reading a string: the replies for a missing key, for another type, and for a string.\<close>

definition on_string :: "'o vw \<Rightarrow> nat \<Rightarrow> bytes \<Rightarrow> 'r \<Rightarrow> 'r \<Rightarrow> (bytes \<Rightarrow> int option \<Rightarrow> 'r) \<Rightarrow> 'r" where
  "on_string V d k none other str =
     (case V d k of None \<Rightarrow> none | Some (Inr x, e) \<Rightarrow> other | Some (Inl b, e) \<Rightarrow> str b e)"

definition spec_get :: "nat \<Rightarrow> bytes \<Rightarrow> 'o vw \<Rightarrow> reply list" where
  "spec_get d k V = on_string V d k [RNull] [RErr WrongType] (\<lambda>b e. [RBulk b])"

definition too_long :: nat where "too_long = 512 * 1024 * 1024 + 1"

definition spec_append :: "nat \<Rightarrow> bytes \<Rightarrow> bytes \<Rightarrow> 'o vw \<Rightarrow> reply list \<times> 'o vw" where
  "spec_append d k a V =
     on_string V d k
       ([RInt (int (length a))], upd_view V d k (Some (Inl a, None)))
       ([RErr WrongType], V)
       (\<lambda>b e. if too_long \<le> length b + length a then ([RErr TooLong], V)
              else ([RInt (int (length b + length a))], upd_view V d k (Some (Inl (b @ a), e))))"

text \<open>Writing at an offset: the string is filled up with NUL bytes.\<close>

definition overwrite :: "nat \<Rightarrow> bytes \<Rightarrow> bytes \<Rightarrow> bytes" where
  "overwrite off v b = take off (b @ replicate (off - length b) 0) @ v @ drop (off + length v) b"

definition spec_setrange :: "nat \<Rightarrow> bytes \<Rightarrow> int \<Rightarrow> bytes \<Rightarrow> 'o vw \<Rightarrow> reply list \<times> 'o vw" where
  "spec_setrange d k off v V =
     (if off < 0 then ([RErr OffsetOutOfRange], V)
      else
        let write = (\<lambda>b e.
              if v = [] then ([RInt (int (length b))], V)
              else if int too_long \<le> off + int (length v) then ([RErr TooLong], V)
              else ([RInt (int (length (overwrite (nat off) v b)))],
                    upd_view V d k (Some (Inl (overwrite (nat off) v b), e))))
        in on_string V d k (write [] None) ([RErr WrongType], V) write)"

definition spec_getrange :: "nat \<Rightarrow> bytes \<Rightarrow> int \<Rightarrow> int \<Rightarrow> 'o vw \<Rightarrow> reply list" where
  "spec_getrange d k a b V =
     on_string V d k [RBulk []] [RErr WrongType] (\<lambda>s e. [RBulk (range_spec a b s)])"

definition spec_incr :: "nat \<Rightarrow> bytes \<Rightarrow> int \<Rightarrow> 'o vw \<Rightarrow> reply list \<times> 'o vw" where
  "spec_incr d k n V =
     (let add = (\<lambda>m e. if in_srange 8 (m + n)
                       then ([RColon (dec_int (m + n))], upd_view V d k (Some (Inl (dec_int (m + n)), e)))
                       else ([RErr Overflow], V))
      in on_string V d k (add 0 None) ([RErr WrongType], V)
           (\<lambda>b e. case int_of b of None \<Rightarrow> ([RErr NotInteger], V) | Some m \<Rightarrow> add m e))"

fun spec_mset :: "nat \<Rightarrow> bytes list \<Rightarrow> 'o vw \<Rightarrow> 'o vw" where
  "spec_mset d (k # v # rest) V = spec_mset d rest (upd_view V d k (Some (Inl v, None)))"
| "spec_mset d _ V = V"

fun spec_busy :: "nat \<Rightarrow> bytes list \<Rightarrow> 'o vw \<Rightarrow> bool" where
  "spec_busy d (k # v # rest) V \<longleftrightarrow> V d k \<noteq> None \<or> spec_busy d rest V"
| "spec_busy d _ V \<longleftrightarrow> False"

fun spec_del :: "nat \<Rightarrow> bytes list \<Rightarrow> 'o vw \<Rightarrow> nat \<times> 'o vw" where
  "spec_del d [] V = (0, V)"
| "spec_del d (k # ks) V =
     (case spec_del d ks (upd_view V d k None) of
        (n, V') \<Rightarrow> (if V d k \<noteq> None then n + 1 else n, V'))"

definition spec_rename :: "nat \<Rightarrow> bool \<Rightarrow> bytes \<Rightarrow> bytes \<Rightarrow> 'o vw \<Rightarrow> reply list \<times> 'o vw" where
  "spec_rename d nx k1 k2 V =
     (if k1 = k2 then ([RErr SameObject], V)
      else case V d k1 of
             None \<Rightarrow> ([RErr NoKey], V)
           | Some x \<Rightarrow>
               if nx \<and> V d k2 \<noteq> None then ([RInt 0], V)
               else ([if nx then RInt 1 else ROk], upd_view (upd_view V d k2 (Some x)) d k1 None))"

definition spec_move :: "nat \<Rightarrow> bool \<Rightarrow> nat \<Rightarrow> bytes \<Rightarrow> int option \<Rightarrow> 'o vw \<Rightarrow> reply list \<times> 'o vw" where
  "spec_move nd cl d k dst V =
     (if cl then ([RErr NotInCluster], V)
      else if dst = None \<or> the dst < 0 \<or> int nd \<le> the dst \<or> 2 ^ 31 \<le> the dst then ([RErr IndexOutOfRange], V)
      else if nat (the dst) = d then ([RErr SameObject], V)
      else if V d k = None \<or> V (nat (the dst)) k \<noteq> None then ([RInt 0], V)
      else ([RInt 1], upd_view (upd_view V (nat (the dst)) k (V d k)) d k None))"

text \<open>\<open>active\<close>: the server expires keys itself (a master that is not loading).\<close>

definition spec_expire :: "int \<Rightarrow> bool \<Rightarrow> nat \<Rightarrow> bytes \<Rightarrow> int option \<Rightarrow> 'o vw \<Rightarrow> reply list \<times> 'o vw" where
  "spec_expire now active d k when V =
     (case when of
        None \<Rightarrow> ([RErr NotInteger], V)
      | Some w \<Rightarrow>
          case V d k of
            None \<Rightarrow> ([RInt 0], V)
          | Some (v, e) \<Rightarrow>
              ([RInt 1], upd_view V d k (if active \<and> w \<le> now then None else Some (v, Some w))))"

definition spec_ttl :: "int \<Rightarrow> bool \<Rightarrow> nat \<Rightarrow> bytes \<Rightarrow> 'o vw \<Rightarrow> reply list" where
  "spec_ttl now ms d k V =
     (case V d k of
        None \<Rightarrow> [RInt (-2)]
      | Some (v, None) \<Rightarrow> [RInt (-1)]
      | Some (v, Some w) \<Rightarrow>
          let left = max 0 (w - now) in [RInt (if ms then left else (left + 500) div 1000)])"

definition spec_persist :: "nat \<Rightarrow> bytes \<Rightarrow> 'o vw \<Rightarrow> reply list \<times> 'o vw" where
  "spec_persist d k V =
     (case V d k of
        Some (v, Some w) \<Rightarrow> ([RInt 1], upd_view V d k (Some (v, None)))
      | _ \<Rightarrow> ([RInt 0], V))"

definition spec_int :: "bytes \<Rightarrow> (int \<Rightarrow> reply list \<times> 'o vw) \<Rightarrow> 'o vw \<Rightarrow> reply list \<times> 'o vw" where
  "spec_int b f V = (case int_of b of None \<Rightarrow> ([RErr NotInteger], V) | Some n \<Rightarrow> f n)"

text \<open>The time of expiry an \<open>EXPIRE\<close> asks for.\<close>

definition expire_at :: "int \<Rightarrow> bool \<Rightarrow> bytes \<Rightarrow> int option" where
  "expire_at base secs b = map_option (\<lambda>n. (if secs then n * 1000 else n) + base) (int_of b)"

fun spec :: "kcmd \<Rightarrow> int \<Rightarrow> bool \<Rightarrow> config \<Rightarrow> nat \<Rightarrow> bytes list \<Rightarrow> 'o vw \<Rightarrow> reply list \<times> 'o vw" where
  "spec CmdGet now act cf d a V = (spec_get d (a ! 1) V, V)"
| "spec CmdSet now act cf d a V =
     (case spec_options (drop 3 a) False False None True of
        None \<Rightarrow> ([RErr SyntaxErr], V)
      | Some (nx, xx, e, secs) \<Rightarrow> spec_set now d nx xx (a ! 1) (a ! 2) (spec_ms e secs) ROk RNull V)"
| "spec CmdSetnx now act cf d a V = spec_set now d True False (a ! 1) (a ! 2) (Inr None) (RInt 1) (RInt 0) V"
| "spec CmdSetex now act cf d a V =
     spec_set now d False False (a ! 1) (a ! 3) (spec_ms (Some (a ! 2)) True) ROk RNull V"
| "spec CmdPsetex now act cf d a V =
     spec_set now d False False (a ! 1) (a ! 3) (spec_ms (Some (a ! 2)) False) ROk RNull V"
| "spec CmdGetset now act cf d a V =
     on_string V d (a ! 1) ([RNull], upd_view V d (a ! 1) (Some (Inl (a ! 2), None))) ([RErr WrongType], V)
       (\<lambda>b e. ([RBulk b], upd_view V d (a ! 1) (Some (Inl (a ! 2), None))))"
| "spec CmdSetrange now act cf d a V = spec_int (a ! 2) (\<lambda>off. spec_setrange d (a ! 1) off (a ! 3) V) V"
| "spec CmdGetrange now act cf d a V =
     spec_int (a ! 2) (\<lambda>x. spec_int (a ! 3) (\<lambda>y. (spec_getrange d (a ! 1) x y V, V)) V) V"
| "spec CmdAppend now act cf d a V = spec_append d (a ! 1) (a ! 2) V"
| "spec CmdStrlen now act cf d a V =
     (on_string V d (a ! 1) [RInt 0] [RErr WrongType] (\<lambda>b e. [RInt (int (length b))]), V)"
| "spec CmdMget now act cf d a V =
     (RMultiLen (length a - 1) # map (\<lambda>k. on_string V d k RNull RNull (\<lambda>b e. RBulk b)) (drop 1 a), V)"
| "spec CmdMset now act cf d a V =
     (if even (length a) then ([RErr WrongArgsMset], V) else ([ROk], spec_mset d (drop 1 a) V))"
| "spec CmdMsetnx now act cf d a V =
     (if even (length a) then ([RErr WrongArgsMset], V)
      else if spec_busy d (drop 1 a) V then ([RInt 0], V) else ([RInt 1], spec_mset d (drop 1 a) V))"
| "spec CmdIncr now act cf d a V = spec_incr d (a ! 1) 1 V"
| "spec CmdDecr now act cf d a V = spec_incr d (a ! 1) (-1) V"
| "spec CmdIncrby now act cf d a V = spec_int (a ! 2) (\<lambda>n. spec_incr d (a ! 1) n V) V"
| "spec CmdDecrby now act cf d a V = spec_int (a ! 2) (\<lambda>n. spec_incr d (a ! 1) (- n) V) V"
| "spec CmdDel now act cf d a V = (case spec_del d (drop 1 a) V of (n, V') \<Rightarrow> ([RInt (int n)], V'))"
| "spec CmdExists now act cf d a V = ([RInt (int (length (filter (\<lambda>k. V d k \<noteq> None) (drop 1 a))))], V)"
| "spec CmdSelect now act cf d a V =
     ([case int_of (a ! 1) of
         None \<Rightarrow> RErr InvalidDb
       | Some n \<Rightarrow> if cluster_enabled cf \<and> n \<noteq> 0 then RErr NotInCluster
                  else if 0 \<le> n \<and> n < int (dbnum cf) then ROk else RErr InvalidDb], V)"
| "spec CmdRename now act cf d a V = spec_rename d False (a ! 1) (a ! 2) V"
| "spec CmdRenamenx now act cf d a V = spec_rename d True (a ! 1) (a ! 2) V"
| "spec CmdMove now act cf d a V = spec_move (dbnum cf) (cluster_enabled cf) d (a ! 1) (int_of (a ! 2)) V"
| "spec CmdExpire now act cf d a V = spec_expire now act d (a ! 1) (expire_at now True (a ! 2)) V"
| "spec CmdExpireat now act cf d a V = spec_expire now act d (a ! 1) (expire_at 0 True (a ! 2)) V"
| "spec CmdPexpire now act cf d a V = spec_expire now act d (a ! 1) (expire_at now False (a ! 2)) V"
| "spec CmdPexpireat now act cf d a V = spec_expire now act d (a ! 1) (expire_at 0 False (a ! 2)) V"
| "spec CmdTtl now act cf d a V = (spec_ttl now False d (a ! 1) V, V)"
| "spec CmdPttl now act cf d a V = (spec_ttl now True d (a ! 1) V, V)"
| "spec CmdPersist now act cf d a V = spec_persist d (a ! 1) V"
| "spec CmdFlushdb now act cf d a V = ([ROk], V(d := \<lambda>k. None))"
| "spec CmdFlushall now act cf d a V = ([ROk], \<lambda>d. if d < dbnum cf then (\<lambda>k. None) else V d)"

subsection \<open>Arguments\<close>

definition arg_ok :: "robj \<Rightarrow> bool" where
  "arg_ok a \<longleftrightarrow> obj_ok a \<and> sdsEncodedObject a \<and> length (obj_val a) < too_long"

lemma arg_cases:
  assumes "arg_ok a"
  obtains s where "ptr a = Str s" "sds_ok s" "obj_val a = sds_val s" "sds_len s = length (sds_val s)"
proof -
  from assms have o: "obj_ok a" and e: "sdsEncodedObject a" by (simp_all add: arg_ok_def)
  from o show thesis
  proof (cases rule: obj_cases)
    case (str s)
    with that [of s] show ?thesis by (simp add: obj_val_def length_sds_val)
  next
    case (num v)
    with e show ?thesis by simp
  qed
qed

lemma arg_key: "arg_ok a \<Longrightarrow> key_of a = obj_val a"
  by (elim arg_cases) (simp add: key_of_def obj_val_def)

lemma cstr_buf:
  assumes "sds_ok s"
  shows "cstr (sds_buf s) = cstr (sds_val s)" "sds_buf s ! 0 = (if sds_val s = [] then 0 else hd (sds_val s))"
proof -
  have b: "sds_buf s = sds_val s @ 0 # drop (sds_len s + 1) (sds_buf s)"
    using assms unfolding sds_ok_def sds_val_def
    by (metis Suc_eq_plus1 id_take_nth_drop less_add_Suc1 add_Suc_right add_Suc)
  have "cstr (v @ 0 # w) = cstr v" for v w :: bytes by (induction v) (auto simp: cstr_def)
  then show "cstr (sds_buf s) = cstr (sds_val s)" by (subst b) simp
  show "sds_buf s ! 0 = (if sds_val s = [] then 0 else hd (sds_val s))"
    by (subst b) (simp add: nth_append hd_conv_nth)
qed

lemma int_of_dec_int: "in_srange 8 v \<Longrightarrow> int_of (dec_int v) = Some v"
  using dec_int_head [of v] by (auto simp: int_of_def cstr_dec_int strtoll_full_dec_int)

lemma int_of_ok:
  assumes "obj_ok ob"
  shows "getLongLongFromObject (Some ob) = int_of (obj_val ob)"
  using assms
proof (cases rule: obj_cases)
  case (str s)
  have "isspace (sds_buf s ! 0) \<longleftrightarrow> sds_val s \<noteq> [] \<and> isspace (hd (sds_val s))"
    using cstr_buf(2) [OF str(4)] by (auto simp: isspace_def)
  then show ?thesis using str
    by (auto simp: getLongLongFromObject_def int_of_def obj_val_def Let_def cstr_buf split: prod.split)
next
  case (num v)
  then show ?thesis by (simp add: getLongLongFromObject_def obj_val_def int_of_dec_int)
qed

lemma int_of_range:
  assumes "int_of b = Some n"
  shows "in_srange 8 n"
proof -
  obtain v rest er where e: "strtoll_full (cstr b) = (v, rest, er)" by (metis prod_cases3)
  have "LLONG_MIN \<le> v \<and> v \<le> LLONG_MAX"
    using e by (auto simp: strtoll_full_def Let_def LLONG_MIN_def LLONG_MAX_def split: if_splits)
  moreover have "v = n" using assms e by (auto simp: int_of_def split: if_splits)
  ultimately show ?thesis by (simp add: in_srange_def LLONG_MIN_def LLONG_MAX_def)
qed

lemma encode_ok:
  assumes "db_inv s" "obj_ok ob" "encode ob s = (ob', s')"
  shows "obj_ok ob'" "obj_val ob' = obj_val ob" "changes {} s s'" "db_inv s'" "clients s' = clients s"
    "view s' = view s" "env_of s' = env_of s" "dbs s' = dbs s"
proof -
  obtain sh where t: "tryObjectEncoding (maxmemory (conf s)) (maxmemory_policy (conf s)) (shared s) ob = (ob', sh)"
    and s': "s' = s\<lparr>shared := sh\<rparr>"
    using assms(3) by (auto simp: encode_def split: prod.splits)
  have sh: "shared_ok (shared s)" using assms(1) by (simp add: db_inv_def)
  note e = tryObjectEncoding_ok [OF assms(2) sh t]
  then show "obj_ok ob'" "obj_val ob' = obj_val ob" by simp_all
  have "db_inv s'" using assms(1) e by (simp add: s' db_inv_def exp_of_def)
  then show c: "changes {} s s'"
    by (simp add: changes_def s' env_of_def same_watch_def kept_def stored_def exp_of_def)
  show "db_inv s'" by fact
  show "view s' = view s" by (rule changes_view_none [OF c])
  show "env_of s' = env_of s" by (rule changes_env [OF c])
qed (use assms(3) in \<open>auto simp: encode_def split: prod.splits\<close>)

subsection \<open>Safe operations\<close>

text \<open>An operation that flags the watchers of every key it changes. (\<open>PERSIST\<close> takes the time of
  expiry away without flagging anyone.)\<close>

definition safe :: "'o srv \<Rightarrow> 'o srv \<Rightarrow> bool" where
  "safe s s' \<longleftrightarrow>
     (\<exists>K. changes K s s' \<and>
       (\<forall>(d, k) \<in> K. all_dirty s' d k \<or> stored s' d k = stored s d k \<and> exp_of s' d k = None))"

lemma safe_none: "changes {} s s' \<Longrightarrow> safe s s'"
  unfolding safe_def by fastforce

lemma safe_one: "changes {(d, k)} s s' \<Longrightarrow> all_dirty s' d k \<Longrightarrow> safe s s'"
  unfolding safe_def by fastforce

lemma safe_one_then: "changes {(d, k)} s s' \<Longrightarrow> changes {(d, k)} s' s'' \<Longrightarrow> all_dirty s' d k \<Longrightarrow> safe s s''"
  by (rule safe_one [OF changes_step [OF _ _ order_refl] all_dirty_mono])

lemma changes_cur_db: "changes K s s' \<Longrightarrow> cur_db i s' = cur_db i s"
proof -
  assume "changes K s s'"
  then have "flagged (clients s i) (clients s' i)" by (simp add: changes_def same_watch_def)
  then show ?thesis by (cases "clients s i") (auto simp: flagged_def cur_db_def)
qed

lemma now_of_mstime: "lua_time s = None \<Longrightarrow> now_of s = mstime s"
  by (simp add: now_of_def)

lemma env_fields:
  assumes "env_of s' = env_of s"
  shows "mstime s' = mstime s" "lua_time s' = lua_time s" "loading s' = loading s" "masterhost s' = masterhost s"
    "conf s' = conf s" "now_of s' = now_of s"
  using assms by (simp_all add: env_of_def now_of_def cong: option.case_cong)

text \<open>The view after a change of one key. A time of expiry is live if the server does not delete
  the key because of it.\<close>

definition live_exp :: "'o srv \<Rightarrow> int option \<Rightarrow> bool" where
  "live_exp s e \<longleftrightarrow> loading s \<or> masterhost s \<or> \<not> past (now_of s) e"

lemma live_exp_iff: "live_exp s (exp_of s d k) \<longleftrightarrow> \<not> expired s d k"
  by (auto simp: live_exp_def expired_def)

lemma live_exp_changes: "changes K s t \<Longrightarrow> live_exp t e = live_exp s e"
  using env_fields [OF changes_env [of K s t]] by (simp add: live_exp_def)

lemma live_exp_None [simp]: "live_exp s None"
  by (simp add: live_exp_def past_def)

lemma view_one:
  assumes "changes {(d, k)} s s'" "stored s' d k = Some v" "exp_of s' d k = e" "live_exp s e"
  shows "view s' = upd_view (view s) d k (Some (v, e))"
proof -
  have "live_exp s' (exp_of s' d k)" using assms(3,4) live_exp_changes [OF assms(1)] by simp
  then have "\<not> expired s' d k" unfolding live_exp_iff .
  then have "view s' d k = Some (v, e)" using assms(2,3) by (simp add: view_def)
  with changes_view_one [OF assms(1)] show ?thesis by simp
qed

lemma view_gone:
  assumes "changes {(d, k)} s s'" "stored s' d k = None"
  shows "view s' = upd_view (view s) d k None"
  using changes_view_one [OF assms(1)] view_entry(2) [OF assms(2)] by simp

lemma past_None [simp]: "\<not> past now None"
  by (simp add: past_def)

lemma looked_up_view:
  assumes "looked_up d k s v s'"
  shows "view s' = view s" "v = None \<longleftrightarrow> view s d k = None"
    "v = Some x \<Longrightarrow> view s d k = Some (val_of x, exp_of s' d k)"
    "v = Some x \<Longrightarrow> val_ok x" "v = Some x \<Longrightarrow> stored s' d k = Some (val_of x)"
    "env_of s' = env_of s"
proof -
  show "view s' = view s" using assms by (intro changes_view_none) (simp add: looked_up_def)
  show "env_of s' = env_of s" using assms by (intro changes_env [of "{}"]) (simp add: looked_up_def)
  show "v = None \<longleftrightarrow> view s d k = None" using assms unfolding looked_up_def by auto
  show "v = Some x \<Longrightarrow> view s d k = Some (val_of x, exp_of s' d k)" "v = Some x \<Longrightarrow> val_ok x"
    "v = Some x \<Longrightarrow> stored s' d k = Some (val_of x)"
    using assms unfolding looked_up_def stored_def by auto
qed

subsection \<open>Setting\<close>

text \<open>The two tests of \<open>SET\<close> as one.\<close>

lemma set_tests:
  assumes "db_inv s"
    "(if nx then (case lookupKeyWrite d k s of (v, s) \<Rightarrow> (v \<noteq> None, s)) else (False, s)) = (a1, s1)"
    "(if \<not> a1 \<and> xx then (case lookupKeyWrite d k s1 of (v, s) \<Rightarrow> (v = None, s)) else (a1, s1)) = (a2, s2)"
  shows "changes {} s s2 \<and> db_inv s2 \<and> view s2 = view s \<and>
    (a2 \<longleftrightarrow> nx \<and> view s d k \<noteq> None \<or> xx \<and> view s d k = None)"
proof -
  have 1: "changes {} s s1 \<and> db_inv s1 \<and> view s1 = view s \<and> (a1 \<longleftrightarrow> nx \<and> view s d k \<noteq> None)"
  proof (cases nx)
    case True
    obtain v t where l: "lookupKeyWrite d k s = (v, t)" by fastforce
    note lu = lookupKeyWrite_ok [OF assms(1) l]
    show ?thesis using True assms(2) l looked_up_simps(1,2) [OF lu] looked_up_view(1,2) [OF lu] by auto
  qed (use assms(1,2) in auto)
  show ?thesis
  proof (cases "\<not> a1 \<and> xx")
    case True
    obtain v t where l: "lookupKeyWrite d k s1 = (v, t)" by fastforce
    have inv1: "db_inv s1" using 1 by simp
    note lu = lookupKeyWrite_ok [OF inv1 l]
    have "changes {} s t" using 1 looked_up_simps(1) [OF lu] by (blast intro: changes_step)
    then show ?thesis using True assms(3) l 1 looked_up_simps(2) [OF lu] looked_up_view(1,2) [OF lu] by auto
  next
    case False
    with assms(3) 1 show ?thesis by auto
  qed
qed

lemma set_expire_ms_spec:
  assumes "\<And>e. expire = Some e \<Longrightarrow> obj_ok e"
  shows "set_expire_ms expire secs =
    (case spec_ms (map_option obj_val expire) secs of
       Inl e \<Rightarrow> Inl e
     | Inr None \<Rightarrow> Inr 0
     | Inr (Some m) \<Rightarrow> Inr (if secs then wrap_s64 m else m))"
  using assms by (auto simp: set_expire_ms_def spec_ms_def int_of_ok split: option.split)

text \<open>The times of expiry of the \<open>SET\<close> family do not overflow.\<close>

definition ms_fits :: "int \<Rightarrow> err + int option \<Rightarrow> bool" where
  "ms_fits now e \<longleftrightarrow> (\<forall>m. e = Inr (Some m) \<longrightarrow> 0 \<le> now \<and> now + m < 2 ^ 63)"

lemma spec_ms_pos: "spec_ms e secs = Inr (Some m) \<Longrightarrow> 0 < m"
  by (auto simp: spec_ms_def split: option.splits if_splits)

lemma spec_ms_expire: "spec_ms (map_option f e) secs = Inr ms \<Longrightarrow> ms = None \<longleftrightarrow> e = None"
  by (cases e; cases "int_of (f (the e))") (auto simp: spec_ms_def split: if_splits dest: sym)

lemma setGenericCommand_ok:
  assumes "db_inv s" "arg_ok key" "obj_ok val" "\<And>e. expire = Some e \<Longrightarrow> obj_ok e"
    and out: "setGenericCommand i nx xx key val expire secs ok_reply abort_reply s = (r, s')"
    and E: "E = spec_ms (map_option obj_val expire) secs"
  shows "safe s s'"
    and "lua_time s = None \<Longrightarrow> ms_fits (mstime s) E \<Longrightarrow>
      (r, view s') = spec_set (mstime s) (cur_db i s) nx xx (obj_val key) (obj_val val) E ok_reply abort_reply (view s)"
proof -
  let ?d = "cur_db i s" and ?k = "obj_val key"
  note k = arg_key [OF assms(2)]
  have main: "safe s s' \<and> (lua_time s = None \<longrightarrow> ms_fits (mstime s) E \<longrightarrow>
      (r, view s') = spec_set (mstime s) ?d nx xx ?k (obj_val val) E ok_reply abort_reply (view s))"
  proof (cases E)
    case (Inl e)
    then show ?thesis
      using out E set_expire_ms_spec [of expire secs, OF assms(4)]
      by (auto simp: setGenericCommand_def spec_set_def intro: safe_none)
  next
    case (Inr ms)
    let ?m = "case ms of None \<Rightarrow> 0 | Some m \<Rightarrow> if secs then wrap_s64 m else m"
    have e: "set_expire_ms expire secs = Inr ?m" "expire \<noteq> None \<longleftrightarrow> ms \<noteq> None"
      using Inr E set_expire_ms_spec [of expire secs, OF assms(4)] spec_ms_expire [of obj_val expire secs ms]
      by (auto split: option.splits)
    obtain a1 s1 where t1: "(if nx then (case lookupKeyWrite ?d ?k s of (v, s) \<Rightarrow> (v \<noteq> None, s)) else (False, s)) = (a1, s1)"
      by (metis surj_pair)
    obtain a2 s2 where t2: "(if \<not> a1 \<and> xx then (case lookupKeyWrite ?d ?k s1 of (v, s) \<Rightarrow> (v = None, s)) else (a1, s1)) = (a2, s2)"
      by (metis surj_pair)
    note t = set_tests [OF assms(1) t1 t2]
    then have c0: "changes {} s s2" and inv2: "db_inv s2" and v2: "view s2 = view s"
      and a2: "a2 \<longleftrightarrow> nx \<and> view s ?d ?k \<noteq> None \<or> xx \<and> view s ?d ?k = None" by simp_all
    show ?thesis
    proof (cases a2)
      case True
      then have "r = [abort_reply]" "s' = s2"
        using out by (simp_all only: setGenericCommand_def e(1) k Let_def t1 t2 sum.case prod.case if_True prod.inject)
      moreover have "spec_set (mstime s) ?d nx xx ?k (obj_val val) E ok_reply abort_reply (view s) = ([abort_reply], view s)"
        using True a2 Inr by (simp only: spec_set_def sum.case if_True)
      ultimately show ?thesis using safe_none [OF c0] v2 by simp
    next
      case False
      have vok: "val_ok (SVal val)" using assms(3) by (simp add: val_ok_def)
      let ?u = "setKey ?d ?k (SVal val) s2"
      note u = setKey_ok [OF inv2 vok, of ?d ?k]
      let ?w = "wrap_s64 (mstime s2 + ?m)"
      let ?x = "if ms \<noteq> None then setExpire ?d ?k ?w (add_dirty 1 ?u) else add_dirty 1 ?u"
      have ms: "mstime (add_dirty 1 ?u) = mstime s2"
        using env_fields(1) [OF changes_env [OF u(1)]] by (simp add: add_dirty_def)
      have s': "r = [ok_reply]" "s' = (if ms \<noteq> None then notifyKeyspaceEvent ''expire'' ?k ?d (notifyKeyspaceEvent ''set'' ?k ?d ?x)
          else notifyKeyspaceEvent ''set'' ?k ?d ?x)"
        using out False
        by (simp_all only: setGenericCommand_def e k Let_def t1 t2 sum.case prod.case if_False prod.inject ms)
      have su: "stored (add_dirty 1 ?u) ?d ?k \<noteq> None" using u(2) by simp
      have cu: "changes {(?d, ?k)} s2 (add_dirty 1 ?u)" by (rule changes_step [OF u(1) changes_add_dirty order_refl])
      have cx: "changes {(?d, ?k)} (add_dirty 1 ?u) s'"
        unfolding s'(2) using setExpire_ok(1) [OF su, of ?w] by (auto intro: changes_step)
      have ad: "all_dirty (add_dirty 1 ?u) ?d ?k" by (rule all_dirty_mono [OF changes_add_dirty u(4)])
      have c: "changes {(?d, ?k)} s (add_dirty 1 ?u)" by (rule changes_then [OF c0 cu]) simp_all
      have st: "stored s' ?d ?k = Some (Inl (obj_val val))" "exp_of s' ?d ?k = (if ms \<noteq> None then Some ?w else None)"
        unfolding s'(2) using setExpire_ok [OF su, of ?w] u(2,3) by (auto simp: val_of_def)
      have cs: "changes {(?d, ?k)} s s'" by (rule changes_step [OF c cx order_refl])
      have sp: "(r, view s') = spec_set (mstime s) ?d nx xx ?k (obj_val val) E ok_reply abort_reply (view s)"
        if lua: "lua_time s = None" and fits: "ms_fits (mstime s) E"
      proof -
        have w: "?w = mstime s + m" "0 < m" if "ms = Some m" for m
        proof -
          have e: "E = Inr (Some m)" using Inr that by simp
          have m: "0 < m" "0 \<le> mstime s" "mstime s + m < 2 ^ 63"
            using spec_ms_pos [OF E [symmetric, unfolded e]] fits e unfolding ms_fits_def by blast+
          then have "in_srange 8 m" "in_srange 8 (mstime s + m)" by (simp_all add: in_srange_def)
          with that show "?w = mstime s + m" "0 < m"
            using m(1) env_fields(1) [OF changes_env [OF c0]] by (simp_all add: wrap_s64_id)
        qed
        have ex: "(if ms \<noteq> None then Some ?w else None) = map_option (\<lambda>m. mstime s + m) ms"
          using w by (cases ms) simp_all
        have "live_exp s (map_option (\<lambda>m. mstime s + m) ms)"
          using w(2) lua by (cases ms) (auto simp: live_exp_def past_def now_of_mstime)
        from view_one [OF cs st(1) st(2) [unfolded ex] this]
        show ?thesis using False a2 Inr s'(1) by (simp only: spec_set_def sum.case if_False)
      qed
      then show ?thesis using safe_one_then [OF c cx ad] by blast
    qed
  qed
  then show "safe s s'" "lua_time s = None \<Longrightarrow> ms_fits (mstime s) E \<Longrightarrow>
      (r, view s') = spec_set (mstime s) ?d nx xx ?k (obj_val val) E ok_reply abort_reply (view s)"
    by simp_all
qed

text \<open>A command is safe and, if \<open>sane\<close>, does what the specification says.\<close>

definition meets :: "'o srv \<Rightarrow> 'o outcome \<Rightarrow> bool \<Rightarrow> reply list \<times> 'o vw \<Rightarrow> bool" where
  "meets s out sane sp \<longleftrightarrow> safe s (snd out) \<and> (sane \<longrightarrow> (fst out, view (snd out)) = sp)"

lemma meetsI: "out = (r, s') \<Longrightarrow> safe s s' \<Longrightarrow> (sane \<Longrightarrow> r = fst sp \<and> view s' = snd sp) \<Longrightarrow> meets s out sane sp"
  by (cases sp) (simp add: meets_def)

lemma meets_read: "out = (r, s') \<Longrightarrow> changes {} s s' \<Longrightarrow> r = fst sp \<Longrightarrow> view s = snd sp \<Longrightarrow> meets s out sane sp"
  using changes_view_none [of s s'] safe_none [of s s'] by (intro meetsI [of out r s']) simp_all

lemma safe_trans:
  assumes "safe s t" "safe t u"
  shows "safe s u"
proof -
  let ?fine = "\<lambda>s u (d, k). all_dirty u d k \<or> stored u d k = stored s d k \<and> exp_of u d k = None"
  obtain K where K: "changes K s t" "\<forall>x \<in> K. ?fine s t x" using assms(1) by (auto simp: safe_def)
  obtain L where L: "changes L t u" "\<forall>x \<in> L. ?fine t u x" using assms(2) by (auto simp: safe_def)
  have c: "changes (K \<union> L) s u" by (rule changes_trans [OF K(1) L(1)])
  have fine: "kept s u d k \<or> ?fine s u (d, k)" for d k
  proof (cases "all_dirty u d k")
    case False
    then have nd: "\<not> all_dirty t d k" using all_dirty_mono [OF L(1)] by blast
    have 1: "kept s t d k \<or> stored t d k = stored s d k \<and> exp_of t d k = None"
      using K nd by (cases "(d, k) \<in> K") (auto simp: changes_def)
    have 2: "kept t u d k \<or> stored u d k = stored t d k \<and> exp_of u d k = None"
      using L False by (cases "(d, k) \<in> L") (auto simp: changes_def)
    from 1 2 kept_trans [OF changes_env [OF K(1)], of d k u] show ?thesis
      by (auto simp: kept_def expired_def)
  qed simp
  have "kept s u d k" if "(d, k) \<notin> {x \<in> K \<union> L. ?fine s u x}" for d k
    using that c fine [of d k] by (cases "(d, k) \<in> K \<union> L") (auto simp: changes_def)
  with c have "changes {x \<in> K \<union> L. ?fine s u x} s u" unfolding changes_def by blast
  moreover have "\<forall>x \<in> {x \<in> K \<union> L. ?fine s u x}. ?fine s u x" by auto
  ultimately show ?thesis unfolding safe_def by (intro exI conjI)
qed

lemma safe_after: "changes {} s t \<Longrightarrow> safe t u \<Longrightarrow> safe s u"
  by (rule safe_trans [OF safe_none])

lemma safe_changes: "safe s s' \<Longrightarrow> \<exists>K. changes K s s'"
  by (auto simp: safe_def)

lemma meets_after:
  assumes "changes {} s t" "view t = view s" "meets t out sane sp"
  shows "meets s out sane sp"
  using assms(3) safe_after [OF assms(1)] by (simp add: meets_def)

definition args_ok :: "robj list \<Rightarrow> nat \<Rightarrow> bool" where
  "args_ok argv n \<longleftrightarrow> n \<le> length argv \<and> (\<forall>a \<in> set argv. arg_ok a)"

lemma args_nth: "args_ok argv n \<Longrightarrow> j < n \<Longrightarrow> arg_ok (argv ! j) \<and> obj_ok (argv ! j) \<and> map obj_val argv ! j = obj_val (argv ! j)"
  unfolding args_ok_def arg_ok_def by (metis less_le_trans nth_map nth_mem)

lemma arg_ok_obj: "arg_ok a \<Longrightarrow> obj_ok a"
  by (simp add: arg_ok_def)

lemma setCommand_options:
  assumes "\<forall>a \<in> set as. arg_ok a"
  shows "spec_options (map obj_val as) nx xx (map_option obj_val e) secs =
      map_option (\<lambda>(nx, xx, e, secs). (nx, xx, map_option obj_val e, secs)) (set_options as nx xx e secs)"
    and "set_options as nx xx e secs = Some (nx', xx', e', secs') \<Longrightarrow> e' = e \<or> (\<exists>a. e' = Some a \<and> arg_ok a)"
proof -
  have o: "is_opt x y (obj_val a) = is_option x y a" if "arg_ok a" for x y a
    using that by (elim arg_cases) (auto simp: is_opt_def is_option_def Let_def cstr_buf)
  have "spec_options (map obj_val as) nx xx (map_option obj_val e) secs =
      map_option (\<lambda>(nx, xx, e, secs). (nx, xx, map_option obj_val e, secs)) (set_options as nx xx e secs) \<and>
      (set_options as nx xx e secs = Some (nx', xx', e', secs') \<longrightarrow> e' = e \<or> (\<exists>a. e' = Some a \<and> arg_ok a))"
    using assms
  proof (induction as nx xx e secs rule: set_options.induct)
    case (2 a as nx xx e secs)
    have a: "arg_ok a" "\<forall>a \<in> set as. arg_ok a" using "2.prems" by simp_all
    have t: "\<forall>a \<in> set (tl as). arg_ok a" "as \<noteq> [] \<Longrightarrow> arg_ok (hd as)"
      "as \<noteq> [] \<Longrightarrow> map_option obj_val (Some (hd as)) = Some (hd (map obj_val as))"
      "tl (map obj_val as) = map obj_val (tl as)"
      using a(2) by (cases as; auto)+
    show ?case
      using "2.IH" a t o [OF a(1)] by (auto simp: map_tl [symmetric] hd_map)
  qed auto
  then show "spec_options (map obj_val as) nx xx (map_option obj_val e) secs =
      map_option (\<lambda>(nx, xx, e, secs). (nx, xx, map_option obj_val e, secs)) (set_options as nx xx e secs)"
    "set_options as nx xx e secs = Some (nx', xx', e', secs') \<Longrightarrow> e' = e \<or> (\<exists>a. e' = Some a \<and> arg_ok a)"
    by blast+
qed

text \<open>What a lookup finds is what the view shows.\<close>

lemma found:
  assumes "looked_up d k s v s'"
  shows "changes {} s s'" "db_inv s'" "view s' = view s" "cur_db i s' = cur_db i s" "\<not> expired s' d k"
    "v = None \<Longrightarrow> view s d k = None \<and> stored s' d k = None"
    "v = Some (OVal x) \<Longrightarrow> view s d k = Some (Inr x, exp_of s' d k)"
    "v = Some (SVal ob) \<Longrightarrow> view s d k = Some (Inl (obj_val ob), exp_of s' d k) \<and> obj_ok ob \<and>
       stored s' d k = Some (Inl (obj_val ob)) \<and> fmlookup (kdict (dbs s' d)) k = Some (SVal ob)"
  using assms looked_up_view [OF assms] changes_cur_db [of "{}" s s' i]
  by (auto simp: looked_up_def val_of_def val_ok_def stored_def)

lemma getGenericCommand_ok:
  assumes "db_inv s" "arg_ok (argv ! 1)" "getGenericCommand i argv s = (b, r, s')"
  shows "changes {} s s'" "db_inv s'" "view s' = view s" "cur_db i s' = cur_db i s" "env_of s' = env_of s"
    "r = spec_get (cur_db i s) (obj_val (argv ! 1)) (view s)"
    "b \<longleftrightarrow> on_string (view s) (cur_db i s) (obj_val (argv ! 1)) True False (\<lambda>b e. True)"
proof -
  obtain v t where l: "lookupKeyRead (cur_db i s) (obj_val (argv ! 1)) s = (v, t)" by fastforce
  note lu = lookupKeyRead_ok [OF assms(1) l]
  have o: "getGenericCommand i argv s = (case v of
      None \<Rightarrow> (True, [RNull], t) | Some (OVal x) \<Rightarrow> (False, [RErr WrongType], t) | Some (SVal ob) \<Rightarrow> (True, [RBulk (obj_val ob)], t))"
    by (simp add: getGenericCommand_def arg_key [OF assms(2)] l split: option.split val.split)
  then have s': "s' = t" using assms(3) by (auto split: option.splits val.splits)
  show "changes {} s s'" "db_inv s'" "view s' = view s" "cur_db i s' = cur_db i s" "env_of s' = env_of s"
    unfolding s' using found [OF lu] looked_up_view(6) [OF lu] by simp_all
  show "r = spec_get (cur_db i s) (obj_val (argv ! 1)) (view s)"
    "b \<longleftrightarrow> on_string (view s) (cur_db i s) (obj_val (argv ! 1)) True False (\<lambda>b e. True)"
    using o assms(3) found(6,7,8) [OF lu]
    by (auto simp: spec_get_def on_string_def split: option.splits val.splits)
qed

lemma getCommand_ok:
  assumes "db_inv s" "args_ok argv 2"
  shows "meets s (getCommand i argv s) sane (spec CmdGet now act cf (cur_db i s) (map obj_val argv) (view s))"
proof -
  obtain b r s' where g: "getGenericCommand i argv s = (b, r, s')" by (metis prod_cases3)
  note a = args_nth [OF assms(2), of 1, simplified]
  show ?thesis
    by (rule meets_read) (use getGenericCommand_ok [OF assms(1) _ g] a g in \<open>simp_all add: getCommand_def\<close>)
qed

lemma setKey_meets:
  assumes "db_inv s" "obj_ok val" "s' = setKey d k (SVal val) s" "changes {(d, k)} s' s''"
    "stored s'' d k = stored s' d k" "exp_of s'' d k = exp_of s' d k"
  shows "safe s s''" "view s'' = upd_view (view s) d k (Some (Inl (obj_val val), None))" "db_inv s''"
    "changes {(d, k)} s s''"
proof -
  have vok: "val_ok (SVal val)" using assms(2) by (simp add: val_ok_def)
  note u = setKey_ok [OF assms(1) vok, of d k, folded assms(3)]
  show "safe s s''" by (rule safe_one_then [OF u(1) assms(4) u(4)])
  show c: "changes {(d, k)} s s''" by (rule changes_step [OF u(1) assms(4) order_refl])
  show "view s'' = upd_view (view s) d k (Some (Inl (obj_val val), None))"
    by (rule view_one [OF c]) (simp_all add: assms(5,6) u(2,3) val_of_def)
  show "db_inv s''" by (rule changes_inv [OF c assms(1)])
qed

lemma getsetCommand_ok:
  assumes "db_inv s" "args_ok argv 3"
  shows "meets s (getsetCommand i argv s) sane (spec CmdGetset now act cf (cur_db i s) (map obj_val argv) (view s))"
proof -
  obtain b r t where g: "getGenericCommand i argv s = (b, r, t)" by (metis prod_cases3)
  have a: "arg_ok (argv ! 1)" "arg_ok (argv ! 2)" "map obj_val argv ! 1 = obj_val (argv ! 1)"
    "map obj_val argv ! 2 = obj_val (argv ! 2)"
    using args_nth [OF assms(2), of 1] args_nth [OF assms(2), of 2] by simp_all
  note gg = getGenericCommand_ok [OF assms(1) a(1) g]
  show ?thesis
  proof (cases b)
    case False
    then have x: "\<exists>x e. view s (cur_db i s) (obj_val (argv ! 1)) = Some (Inr x, e)"
      using gg(7) by (auto simp: on_string_def split: option.splits sum.splits)
    have "getsetCommand i argv s = (r, t)" using g False by (simp add: getsetCommand_def)
    from meets_read [OF this gg(1)] x gg(6) show ?thesis by (auto simp: spec_get_def on_string_def a)
  next
    case True
    let ?d = "cur_db i s" and ?k = "obj_val (argv ! 1)"
    obtain val u where e: "encode (argv ! 2) t = (val, u)" by fastforce
    note en = encode_ok [OF gg(2) arg_ok_obj [OF a(2)] e]
    let ?x = "setKey ?d ?k (SVal val) u"
    let ?s' = "add_dirty 1 (notifyKeyspaceEvent ''set'' ?k ?d ?x)"
    have c: "changes {} s u" by (rule changes_step [OF gg(1) en(3) order_refl])
    have cu: "cur_db i t = ?d" "cur_db i u = ?d" by (rule changes_cur_db [OF gg(1)], rule changes_cur_db [OF c])
    have o: "getsetCommand i argv s = (r, ?s')"
      using g True e cu by (simp add: getsetCommand_def Let_def arg_key [OF a(1)])
    have m: "changes {(?d, ?k)} ?x ?s'" by (rule changes_step [OF changes_notify changes_add_dirty order_refl])
    note sm = setKey_meets [OF en(4,1) refl m]
    have v: "view u = view s" using gg(3) en(6) by simp
    have "r = fst (spec CmdGetset now act cf ?d (map obj_val argv) (view s))"
      "upd_view (view s) ?d ?k (Some (Inl (obj_val (argv ! 2)), None)) = snd (spec CmdGetset now act cf ?d (map obj_val argv) (view s))"
      using True gg(6,7) by (auto simp: spec_get_def on_string_def a split: option.splits sum.splits)
    then show ?thesis
      using sm v en(2) by (intro meetsI [OF o]) (auto intro: safe_after [OF c])
  qed
qed

lemma setGeneric_meets:
  assumes "db_inv s" "db_inv t" "arg_ok key" "obj_ok val" "\<And>e. expire = Some e \<Longrightarrow> obj_ok e"
    "changes {} s t" "view t = view s" "obj_val val = v"
    "sane \<Longrightarrow> lua_time s = None \<and> ms_fits (mstime s) (spec_ms (map_option obj_val expire) secs)"
  shows "meets s (setGenericCommand i nx xx key val expire secs okr abr t) sane
    (spec_set (mstime s) (cur_db i s) nx xx (obj_val key) v (spec_ms (map_option obj_val expire) secs) okr abr (view s))"
proof -
  obtain r s' where o: "setGenericCommand i nx xx key val expire secs okr abr t = (r, s')" by fastforce
  note sg = setGenericCommand_ok [OF assms(2-5) o refl]
  note e = env_fields [OF changes_env [OF assms(6)]]
  show ?thesis
    unfolding o meets_def fst_conv snd_conv
    using safe_after [OF assms(6) sg(1)] sg(2) assms(7,8,9) e changes_cur_db [OF assms(6), of i] by simp
qed

lemma args_map: "args_ok argv n \<Longrightarrow> j < n \<Longrightarrow> map obj_val argv ! j = obj_val (argv ! j)"
  using args_nth by blast

lemma setCommand_ok:
  assumes "db_inv s" "args_ok argv 3"
    "sane \<Longrightarrow> lua_time s = None \<and> (\<forall>nx xx e secs. spec_options (drop 3 (map obj_val argv)) False False None True = Some (nx, xx, e, secs)
       \<longrightarrow> ms_fits (mstime s) (spec_ms e secs))"
  shows "meets s (setCommand i argv s) sane (spec CmdSet (mstime s) act cf (cur_db i s) (map obj_val argv) (view s))"
proof -
  have as: "\<forall>a \<in> set (drop 3 argv). arg_ok a" using assms(2) by (auto simp: args_ok_def dest: in_set_dropD)
  note op = setCommand_options [OF as, of False False None True]
  have sp: "spec_options (drop 3 (map obj_val argv)) False False None True =
      map_option (\<lambda>(nx, xx, e, secs). (nx, xx, map_option obj_val e, secs)) (set_options (drop 3 argv) False False None True)"
    using op(1) by (simp add: drop_map)
  show ?thesis
  proof (cases "set_options (drop 3 argv) False False None True")
    case None
    then show ?thesis by (intro meets_read [of _ _ s]) (simp_all add: setCommand_def sp)
  next
    case (Some x)
    obtain nx xx e secs where x: "x = (nx, xx, e, secs)" by (metis prod_cases4)
    obtain val t where en: "encode (argv ! 2) s = (val, t)" by fastforce
    have a: "arg_ok (argv ! 1)" "obj_ok (argv ! 2)" using args_nth [OF assms(2)] by simp_all
    note k = encode_ok [OF assms(1) a(2) en]
    have eo: "\<And>a. e = Some a \<Longrightarrow> obj_ok a" using op(2) [OF Some [unfolded x]] by (auto simp: arg_ok_def)
    have sane: "sane \<Longrightarrow> lua_time s = None \<and> ms_fits (mstime s) (spec_ms (map_option obj_val e) secs)"
      using assms(3) by (auto simp: sp Some x)
    have o: "setCommand i argv s = setGenericCommand i nx xx (argv ! 1) val e secs ROk RNull t"
      by (simp add: setCommand_def Some x en)
    have sp2: "spec CmdSet (mstime s) act cf (cur_db i s) (map obj_val argv) (view s) =
        spec_set (mstime s) (cur_db i s) nx xx (obj_val (argv ! 1)) (obj_val (argv ! 2)) (spec_ms (map_option obj_val e) secs) ROk RNull (view s)"
      by (simp add: sp Some x args_map [OF assms(2)])
    show ?thesis
      unfolding o sp2 by (rule setGeneric_meets [OF assms(1) k(4) a(1) k(1) eo k(3,6,2) sane])
  qed
qed

lemma setnxCommand_ok:
  assumes "db_inv s" "args_ok argv 3" "sane \<Longrightarrow> lua_time s = None"
  shows "meets s (setnxCommand i argv s) sane (spec CmdSetnx (mstime s) act cf (cur_db i s) (map obj_val argv) (view s))"
proof -
  obtain val t where en: "encode (argv ! 2) s = (val, t)" by fastforce
  have a: "arg_ok (argv ! 1)" "obj_ok (argv ! 2)" using args_nth [OF assms(2)] by simp_all
  note k = encode_ok [OF assms(1) a(2) en]
  have ms: "spec_ms None True = Inr None" by (simp add: spec_ms_def)
  have "sane \<Longrightarrow> lua_time s = None \<and> ms_fits (mstime s) (spec_ms (map_option obj_val None) True)"
    using assms(3) by (simp add: ms ms_fits_def)
  from setGeneric_meets [OF assms(1) k(4) a(1) k(1) _ k(3,6,2) this] show ?thesis
    by (simp add: setnxCommand_def en args_map [OF assms(2)] ms)
qed

lemma setexCommand_ok:
  assumes "db_inv s" "args_ok argv 4"
    "sane \<Longrightarrow> lua_time s = None \<and> ms_fits (mstime s) (spec_ms (Some (obj_val (argv ! 2))) True)"
  shows "meets s (setexCommand i argv s) sane (spec CmdSetex (mstime s) act cf (cur_db i s) (map obj_val argv) (view s))"
proof -
  obtain val t where en: "encode (argv ! 3) s = (val, t)" by fastforce
  have a: "arg_ok (argv ! 1)" "obj_ok (argv ! 3)" "obj_ok (argv ! 2)" using args_nth [OF assms(2)] by simp_all
  note k = encode_ok [OF assms(1) a(2) en]
  from setGeneric_meets [OF assms(1) k(4) a(1) k(1) _ k(3,6,2), where expire = "Some (argv ! 2)" and secs = True]
  show ?thesis using assms(3) a(3) by (simp add: setexCommand_def en args_map [OF assms(2)])
qed

lemma psetexCommand_ok:
  assumes "db_inv s" "args_ok argv 4"
    "sane \<Longrightarrow> lua_time s = None \<and> ms_fits (mstime s) (spec_ms (Some (obj_val (argv ! 2))) False)"
  shows "meets s (psetexCommand i argv s) sane (spec CmdPsetex (mstime s) act cf (cur_db i s) (map obj_val argv) (view s))"
proof -
  obtain val t where en: "encode (argv ! 3) s = (val, t)" by fastforce
  have a: "arg_ok (argv ! 1)" "obj_ok (argv ! 3)" "obj_ok (argv ! 2)" using args_nth [OF assms(2)] by simp_all
  note k = encode_ok [OF assms(1) a(2) en]
  from setGeneric_meets [OF assms(1) k(4) a(1) k(1) _ k(3,6,2), where expire = "Some (argv ! 2)" and secs = False]
  show ?thesis using assms(3) a(3) by (simp add: psetexCommand_def en args_map [OF assms(2)])
qed

lemma strlenCommand_ok:
  assumes "db_inv s" "args_ok argv 2"
  shows "meets s (strlenCommand i argv s) sane (spec CmdStrlen now act cf (cur_db i s) (map obj_val argv) (view s))"
proof -
  let ?k = "obj_val (argv ! 1)"
  have a: "arg_ok (argv ! 1)" using args_nth [OF assms(2)] by simp
  obtain v t where l: "lookupKeyRead (cur_db i s) ?k s = (v, t)" by fastforce
  note f = found [OF lookupKeyRead_ok [OF assms(1) l]]
  obtain r where o: "strlenCommand i argv s = (r, t)"
    "r = (case v of None \<Rightarrow> [RInt 0] | Some (OVal x) \<Rightarrow> [RErr WrongType] | Some (SVal ob) \<Rightarrow> [RInt (int (stringObjectLen ob))])"
    by (simp add: strlenCommand_def arg_key [OF a] l split: option.split val.split)
  show ?thesis
    by (rule meets_read [OF o(1) f(1)])
      (use o(2) f(6-8) in \<open>auto simp: on_string_def args_map [OF assms(2)] stringObjectLen_ok split: option.splits val.splits\<close>)
qed

lemma getrange_bounds_ok:
  assumes "getrange_bounds a b (length v) = (x, y)" "v \<noteq> []" "length str \<ge> length v" "take (length v) str = v"
  shows "(if x > y then [] else slice (nat x) (nat (y - x + 1)) str) = range_spec a b v"
proof -
  define p where "p = (if a < 0 then max 0 (int (length v) + a) else a)"
  define q where "q = (if b < 0 then max 0 (int (length v) + b) else b)"
  have x: "x = p" and y: "y = (if q \<ge> int (length v) then int (length v) - 1 else q)"
    using assms(1) by (auto simp: getrange_bounds_def p_def q_def Let_def split: if_splits)
  have nn: "0 \<le> p" "0 \<le> q" by (auto simp: p_def q_def)
  have r: "range_spec a b v = (if p \<le> q then slice (nat p) (nat (q - p + 1)) v else [])"
    by (simp add: range_spec_def Let_def p_def q_def)
  have s: "slice m n str = slice m n v" if "m + n \<le> length v" for m n
  proof -
    have "slice m n v = take n (drop m (take (length v) str))" by (simp add: slice_def assms(4))
    also have "\<dots> = slice m n str" using that by (simp add: slice_def drop_take take_take min_def)
    finally show ?thesis ..
  qed
  show ?thesis
  proof (cases "q \<ge> int (length v)")
    case True
    show ?thesis
    proof (cases "p < int (length v)")
      case p: True
      have "slice (nat p) (nat (q - p + 1)) v = slice (nat p) (nat (int (length v) - 1 - p + 1)) v"
        using True p nn by (simp add: slice_def)
      then show ?thesis using True p nn x y r s [of "nat p" "nat (int (length v) - 1 - p + 1)"]
        by (auto simp: nat_diff_distrib')
    next
      case f: False
      then show ?thesis using True nn x y r by (auto simp: slice_def)
    qed
  next
    case False
    then show ?thesis using nn x y r s [of "nat p" "nat (q - p + 1)"] by auto
  qed
qed

lemma text_of_ll2string:
  assumes "obj_ok ob" "encoding ob = ENC_INT"
  shows "\<exists>buf. ll2string (replicate 32 0) 32 (ptr_num (ptr ob)) = (length (obj_val ob), buf) \<and>
    length (obj_val ob) \<le> length buf \<and> take (length (obj_val ob)) buf = obj_val ob \<and> obj_val ob \<noteq> []"
  using assms
proof (cases rule: obj_cases)
  case (num v)
  have n: "dec_int v \<noteq> []" by (simp add: dec_int_def)
  have l: "length (dec_int v) \<le> 20" by (rule length_dec_int_le [OF num(4)])
  have "ll2string (replicate 32 0) 32 v = (length (dec_int v), splice 0 (dec_int v @ [0]) (replicate 32 0))"
    using ll2string_small [OF num(4), of 32 "replicate 32 0"] by simp
  with n l num show ?thesis by (simp add: obj_val_def take_splice_0 splice_def)
qed simp

lemma getrangeCommand_ok:
  assumes "db_inv s" "args_ok argv 4"
  shows "meets s (getrangeCommand i argv s) sane (spec CmdGetrange now act cf (cur_db i s) (map obj_val argv) (view s))"
proof -
  let ?d = "cur_db i s" and ?k = "obj_val (argv ! 1)" and ?a = "obj_val (argv ! 2)" and ?b = "obj_val (argv ! 3)"
  have a: "arg_ok (argv ! 1)" "obj_ok (argv ! 2)" "obj_ok (argv ! 3)" using args_nth [OF assms(2)] by simp_all
  note g = int_of_ok [OF a(2)] int_of_ok [OF a(3)]
  note m = args_map [OF assms(2)]
  show ?thesis
  proof (cases "int_of ?a = None \<or> int_of ?b = None")
    case True
    then show ?thesis
      by (intro meets_read [of _ "[RErr NotInteger]" s])
        (auto simp: getrangeCommand_def g spec_int_def m split: option.splits)
  next
    case False
    then obtain x y where xy: "int_of ?a = Some x" "int_of ?b = Some y" by auto
    obtain v t where l: "lookupKeyRead ?d ?k s = (v, t)" by fastforce
    note f = found [OF lookupKeyRead_ok [OF assms(1) l]]
    have sp: "spec CmdGetrange now act cf ?d (map obj_val argv) (view s) = (spec_getrange ?d ?k x y (view s), view s)"
      by (simp add: spec_int_def xy m)
    have o: "getrangeCommand i argv s = (case v of
        None \<Rightarrow> ([RBulk []], t) | Some (OVal x) \<Rightarrow> ([RErr WrongType], t)
      | Some (SVal ob) \<Rightarrow>
          let (len, str) =
                (if encoding ob = ENC_INT then ll2string (replicate 32 0) 32 (ptr_num (ptr ob))
                 else (sds_len (ptr_sds (ptr ob)), sds_buf (ptr_sds (ptr ob))));
              (st, en) = getrange_bounds x y len
          in if st > en \<or> len = 0 then ([RBulk []], t)
             else ([RBulk (slice (nat st) (nat (en - st + 1)) str)], t))"
      by (simp add: getrangeCommand_def g xy arg_key [OF a(1)] l split: option.split val.split)
    show ?thesis
    proof (cases "\<exists>ob. v = Some (SVal ob)")
      case False
      then obtain r where r: "getrangeCommand i argv s = (r, t)" "r = spec_getrange ?d ?k x y (view s)"
        using o f(6,7) by (auto simp: spec_getrange_def on_string_def split: option.splits val.splits)
      then show ?thesis unfolding sp by (intro meets_read [OF r(1) f(1)]) simp_all
    next
      case True
      then obtain ob where ob: "v = Some (SVal ob)" by blast
      note fo = f(8) [OF ob]
      obtain str where str: "(if encoding ob = ENC_INT then ll2string (replicate 32 0) 32 (ptr_num (ptr ob))
            else (sds_len (ptr_sds (ptr ob)), sds_buf (ptr_sds (ptr ob)))) = (length (obj_val ob), str)"
          "length (obj_val ob) \<le> length str" "take (length (obj_val ob)) str = obj_val ob"
      proof (cases "encoding ob = ENC_INT")
        case True
        with text_of_ll2string [of ob] fo that show thesis by auto
      next
        case False
        with fo have "\<exists>s. ptr ob = Str s \<and> sds_ok s" by (auto simp: obj_ok_def split: sptr.splits)
        then obtain s where s: "ptr ob = Str s" "sds_ok s" by blast
        with False that show thesis
          by (auto simp: obj_val_def sds_val_def sds_ok_def min_def)
      qed
      obtain st en where se: "getrange_bounds x y (length (obj_val ob)) = (st, en)" by fastforce
      have r: "getrangeCommand i argv s = ([RBulk (range_spec x y (obj_val ob))], t)"
      proof (cases "obj_val ob = []")
        case True
        then show ?thesis using o ob str(1) se by (simp add: range_spec_def Let_def slice_def)
      next
        case False
        note gb = getrange_bounds_ok [OF se False str(2,3)]
        have "getrangeCommand i argv s = ([RBulk (if st > en then [] else slice (nat st) (nat (en - st + 1)) str)], t)"
          using o ob str(1) se False by simp
        then show ?thesis unfolding gb .
      qed
      show ?thesis
        unfolding sp by (rule meets_read [OF r f(1)]) (simp_all add: spec_getrange_def on_string_def fo)
    qed
  qed
qed

lemma no_exp: "db_inv s \<Longrightarrow> stored s d k = None \<Longrightarrow> exp_of s d k = None"
  unfolding db_inv_def stored_def by fastforce

text \<open>Writing a string object back under its key.\<close>

lemma write_string:
  assumes "db_inv s" "obj_ok ob" "changes {(d, k)} s t" "exp_of t d k = e"
    "s' = signalModifiedKey d k (put_val d k (SVal ob) t)" "changes {} s' s''"
    "stored s'' d k = stored s' d k" "exp_of s'' d k = exp_of s' d k" "live_exp s e"
  shows "safe s s''" "view s'' = upd_view (view s) d k (Some (Inl (obj_val ob), e))"
proof -
  have vok: "val_ok (SVal ob)" using assms(2) by (simp add: val_ok_def)
  note p = put_val_ok [OF vok, of d k t]
  have c1: "changes {(d, k)} s (put_val d k (SVal ob) t)" by (rule changes_step [OF assms(3) p(1) order_refl])
  have c2: "changes {(d, k)} s s'" unfolding assms(5) by (rule changes_step [OF c1 touch_changes order_refl])
  have c3: "changes {(d, k)} s s''" by (rule changes_step [OF c2 assms(6)]) simp
  have "all_dirty s' d k" unfolding assms(5) by (rule signal_all_dirty)
  then have "all_dirty s'' d k" by (rule all_dirty_mono [OF assms(6)])
  then show "safe s s''" by (rule safe_one [OF c3])
  show "view s'' = upd_view (view s) d k (Some (Inl (obj_val ob), e))"
    by (rule view_one [OF c3]) (use assms(4,5,7,8,9) p(2,3) in \<open>simp_all add: val_of_def\<close>)
qed

lemma finish_ok:
  "changes {} s (add_dirty n (notifyKeyspaceEvent e k d s))"
  "stored (add_dirty n (notifyKeyspaceEvent e k d s)) d' k' = stored s d' k'"
  "exp_of (add_dirty n (notifyKeyspaceEvent e k d s)) d' k' = exp_of s d' k'"
  by (rule changes_step [OF changes_notify changes_add_dirty order_refl]) simp_all

lemma finish_live:
  assumes "changes {} s t" "\<not> expired t d k"
  shows "live_exp s (exp_of t d k)"
  using live_exp_changes [OF assms(1)] live_exp_iff [of t d k] assms(2) by simp

lemma appendCommand_ok:
  assumes "db_inv s" "args_ok argv 3"
  shows "meets s (appendCommand i argv s) sane (spec CmdAppend now act cf (cur_db i s) (map obj_val argv) (view s))"
proof -
  let ?d = "cur_db i s" and ?k = "obj_val (argv ! 1)" and ?a = "obj_val (argv ! 2)"
  have a: "arg_ok (argv ! 1)" "arg_ok (argv ! 2)" using args_nth [OF assms(2)] by simp_all
  note k = arg_key [OF a(1)]
  note m = args_map [OF assms(2)]
  have v2: "sds_val (ptr_sds (ptr (argv ! 2))) = ?a" using a(2) by (elim arg_cases) (simp add: obj_val_def)
  have al: "length ?a < too_long" using a(2) by (simp add: arg_ok_def)
  have sp: "spec CmdAppend now act cf ?d (map obj_val argv) (view s) = spec_append ?d ?k ?a (view s)"
    by (simp add: m)
  obtain v t where l: "lookupKeyWrite ?d ?k s = (v, t)" by fastforce
  note f = found [OF lookupKeyWrite_ok [OF assms(1) l]]
  let ?fin = "\<lambda>s. add_dirty 1 (notifyKeyspaceEvent ''append'' ?k ?d s)"
  show ?thesis
    unfolding sp
  proof (cases v)
    case None
    obtain val u where en: "encode (argv ! 2) t = (val, u)" by fastforce
    note e = encode_ok [OF f(2) arg_ok_obj [OF a(2)] en]
    have nu: "stored u ?d ?k = None" using f(6) [OF None] e(8) by (simp add: stored_def)
    have c: "changes {} s u" by (rule changes_step [OF f(1) e(3) order_refl])
    have xu: "exp_of u ?d ?k = None" by (rule no_exp [OF e(4) nu])
    let ?s' = "signalModifiedKey ?d ?k (put_val ?d ?k (SVal (incrRefCount val)) u)"
    have o: "appendCommand i argv s = ([RInt (int (stringObjectLen val))], ?fin ?s')"
      by (simp add: appendCommand_def Let_def k l None en dbAdd_eq [OF nu])
    have inc: "obj_ok (incrRefCount val)" "obj_val (incrRefCount val) = ?a"
      using e(1,2) val_of_incr [of "SVal val"] by (simp_all add: val_ok_def val_of_def)
    note w = write_string [OF assms(1) inc(1) changes_mono [OF c] xu refl finish_ok]
    show "meets s (appendCommand i argv s) sane (spec_append ?d ?k ?a (view s))"
      using w inc(2) f(6) [OF None] stringObjectLen_ok [OF e(1)] e(2)
      by (intro meetsI [OF o]) (simp_all add: spec_append_def on_string_def)
  next
    case (Some x)
    show "meets s (appendCommand i argv s) sane (spec_append ?d ?k ?a (view s))"
    proof (cases x)
      case (OVal y)
      have "appendCommand i argv s = ([RErr WrongType], t)"
        using Some OVal by (simp add: appendCommand_def Let_def k l)
      from meets_read [OF this f(1)] f(7) Some OVal show ?thesis by (simp add: spec_append_def on_string_def)
    next
      case (SVal ob)
      note fo = f(8) [OF Some [unfolded SVal]]
      show ?thesis
      proof (cases "too_long \<le> length (obj_val ob) + length ?a")
        case True
        have "appendCommand i argv s = ([RErr TooLong], t)"
          using Some SVal True fo
          by (simp add: appendCommand_def Let_def k l v2 checkStringLength_def stringObjectLen_ok too_long_def)
        from meets_read [OF this f(1)] fo True show ?thesis by (simp add: spec_append_def on_string_def)
      next
        case False
        obtain ob' u where un: "dbUnshareStringValue ?d ?k ob t = (ob', u)" by fastforce
        note us = dbUnshareStringValue_ok [OF f(2) _ un]
        have us: "changes {(?d, ?k)} t u" "stored u ?d ?k = stored t ?d ?k" "exp_of u ?d ?k = exp_of t ?d ?k"
          "obj_ok ob'" "obj_val ob' = obj_val ob" "encoding ob' = ENC_RAW" "\<exists>t. ptr ob' = Str t \<and> sds_ok t"
          using us fo by simp_all
        then obtain q where q: "ptr ob' = Str q" "sds_ok q" by blast
        let ?ob = "ob'\<lparr>ptr := Str (sdscatlen q ?a)\<rparr>"
        have vq: "sds_val q = obj_val ob" using us(5) q by (simp add: obj_val_def)
        have lq: "sds_len q = length (obj_val ob)" using length_sds_val [OF q(2)] vq by simp
        have cat: "sds_ok (sdscatlen q ?a)" "sds_val (sdscatlen q ?a) = obj_val ob @ ?a"
          using sdscatlen_ok [OF q(2), of ?a] False lq vq
          by (simp_all add: too_long_def SDS_MAX_def SDS_MAX_PREALLOC_def)
        have ob: "obj_ok ?ob" "obj_val ?ob = obj_val ob @ ?a"
          using cat us(6) by (simp_all add: obj_ok_def obj_val_def sdsEncodedObject_def)
        let ?s' = "signalModifiedKey ?d ?k (put_val ?d ?k (SVal ?ob) u)"
        have "appendCommand i argv s = ([RInt (int (sds_len (sdscatlen q ?a)))], ?fin ?s')"
          using Some SVal False fo
          by (simp add: appendCommand_def Let_def k l v2 checkStringLength_def stringObjectLen_ok too_long_def un q)
        moreover have "sds_len (sdscatlen q ?a) = length (obj_val ob) + length ?a"
          using length_sds_val [OF cat(1)] cat(2) by simp
        ultimately have o: "appendCommand i argv s = ([RInt (int (length (obj_val ob) + length ?a))], ?fin ?s')"
          by (simp only:)
        have c: "changes {(?d, ?k)} s u" by (rule changes_then [OF f(1) us(1)]) simp_all
        have live: "live_exp s (exp_of t ?d ?k)" by (rule finish_live [OF f(1,5)])
        note w = write_string [OF assms(1) ob(1) c us(3) refl finish_ok live]
        show ?thesis
          by (rule meetsI [OF o w(1)]) (use w(2) ob(2) fo False in \<open>simp add: spec_append_def on_string_def\<close>)
      qed
    qed
  qed
qed

lemma overwrite_splice:
  assumes "v \<noteq> []"
  shows "splice off v (b @ replicate (off + length v - length b) 0) = overwrite off v b"
proof -
  have "take off (replicate (off + length v - length b) 0) = take off (replicate (off - length b) (0 :: byte))"
    if "length b = 0" using that by simp
  have t: "take (off - length b) (replicate (off + length v - length b) 0) = replicate (off - length b) (0 :: byte)"
    by (simp add: min_def)
  show ?thesis by (simp add: splice_def overwrite_def t)
qed

lemma length_overwrite: "v \<noteq> [] \<Longrightarrow> length (overwrite off v b) = max (length b) (off + length v)"
  by (simp add: overwrite_def)

lemma take_splice:
  assumes "off + length v \<le> n" "n \<le> length b"
  shows "take n (splice off v b) = splice off v (take n b)"
proof -
  have "take (n - off - length v) (drop (off + length v) b) = drop (off + length v) (take n b)"
    by (simp add: drop_take)
  with assms show ?thesis by (simp add: splice_def take_append min_absorb1 min_absorb2)
qed

lemma setrange_write_ok:
  assumes "db_inv s" "obj_ok ob" "encoding ob = ENC_RAW" "ptr ob = Str q" "sds_ok q" "v \<noteq> []"
    "off + length v < too_long" "changes {(d, k)} s t" "exp_of t d k = e" "live_exp s e"
    "setrange_write d k off v ob t = (r, s')"
  shows "safe s s'" "view s' = upd_view (view s) d k (Some (Inl (overwrite off v (obj_val ob)), e))"
    "r = [RInt (int (length (overwrite off v (obj_val ob))))]"
proof -
  let ?b = "sds_val q" and ?g = "sdsgrowzero q (off + length v)"
  let ?q = "?g\<lparr>sds_buf := splice off v (sds_buf ?g)\<rparr>"
  let ?ob = "ob\<lparr>ptr := Str ?q\<rparr>"
  have b: "obj_val ob = ?b" using assms(4) by (simp add: obj_val_def)
  have lq: "sds_len q = length ?b" using length_sds_val [OF assms(5)] by simp
  have g: "sds_ok ?g" "sds_val ?g = ?b @ replicate (off + length v - length ?b) 0"
    using sdsgrowzero_ok [OF assms(5), of "off + length v"] assms(7) lq
    by (simp_all add: too_long_def SDS_MAX_def SDS_MAX_PREALLOC_def)
  have lg: "sds_len ?g = length (sds_val ?g)" using length_sds_val [OF g(1)] by simp
  then have fit: "off + length v \<le> sds_len ?g" unfolding g(2) by simp
  have lb: "sds_len ?g < length (sds_buf ?g)" using g(1) by (simp add: sds_ok_def)
  have q: "sds_ok ?q" using g(1) fit lb by (auto simp: sds_ok_def splice_def nth_append)
  have vq: "sds_val ?q = overwrite off v ?b"
  proof -
    have "sds_val ?q = splice off v (sds_val ?g)"
      using take_splice [OF fit] lb by (simp add: sds_val_def)
    then show ?thesis unfolding g(2) overwrite_splice [OF assms(6)] .
  qed
  have ob: "obj_ok ?ob" "obj_val ?ob = overwrite off v ?b"
    using q vq assms(3) by (simp_all add: obj_ok_def obj_val_def sdsEncodedObject_def)
  let ?w = "signalModifiedKey d k (put_val d k (SVal ?ob) t)"
  have o: "setrange_write d k off v ob t = ([RInt (int (sds_len ?q))], add_dirty 1 (notifyKeyspaceEvent ''setrange'' k d ?w))"
    by (simp add: setrange_write_def Let_def assms(4))
  have "sds_len ?q = length (overwrite off v ?b)" using length_sds_val [OF q] vq by simp
  with o assms(11) show "r = [RInt (int (length (overwrite off v (obj_val ob))))]" by (simp add: b)
  note w = write_string [OF assms(1) ob(1) assms(8,9) refl finish_ok assms(10)]
  show "safe s s'" "view s' = upd_view (view s) d k (Some (Inl (overwrite off v (obj_val ob)), e))"
    using w o assms(11) ob(2) b by auto
qed

lemma setrangeCommand_ok:
  assumes "db_inv s" "args_ok argv 4"
    "\<And>off. int_of (obj_val (argv ! 2)) = Some off \<Longrightarrow> off + int (length (obj_val (argv ! 3))) < 2 ^ 63"
  shows "meets s (setrangeCommand i argv s) sane (spec CmdSetrange now act cf (cur_db i s) (map obj_val argv) (view s))"
proof -
  let ?d = "cur_db i s" and ?k = "obj_val (argv ! 1)" and ?v = "obj_val (argv ! 3)"
  have a: "arg_ok (argv ! 1)" "obj_ok (argv ! 2)" "arg_ok (argv ! 3)" using args_nth [OF assms(2)] by simp_all
  note k = arg_key [OF a(1)] and g = int_of_ok [OF a(2)] and m = args_map [OF assms(2)]
  have v: "sds_val (ptr_sds (ptr (argv ! 3))) = ?v" using a(3) by (elim arg_cases) (simp add: obj_val_def)
  show ?thesis
  proof (cases "int_of (obj_val (argv ! 2))")
    case None
    then show ?thesis
      by (intro meets_read [of _ "[RErr NotInteger]" s]) (simp_all add: setrangeCommand_def Let_def g spec_int_def m)
  next
    case off: (Some off)
    have sp: "spec CmdSetrange now act cf ?d (map obj_val argv) (view s) = spec_setrange ?d ?k off ?v (view s)"
      by (simp add: spec_int_def m off)
    show ?thesis
      unfolding sp
    proof (cases "off < 0")
      case True
      then show "meets s (setrangeCommand i argv s) sane (spec_setrange ?d ?k off ?v (view s))"
        by (intro meets_read [of _ "[RErr OffsetOutOfRange]" s])
          (simp_all add: setrangeCommand_def Let_def g off spec_setrange_def)
    next
      case nn: False
      have wr: "wrap_s64 (off + int (length ?v)) = off + int (length ?v)"
        using assms(3) [OF off] nn by (intro wrap_s64_id) (simp add: in_srange_def)
      obtain x t where l: "lookupKeyWrite ?d ?k s = (x, t)" by fastforce
      note f = found [OF lookupKeyWrite_ok [OF assms(1) l]]
      let ?big = "int too_long \<le> off + int (length ?v)"
      have big: "\<not> checkStringLength (wrap_s64 (off + int (length ?v))) \<longleftrightarrow> ?big"
        unfolding wr by (auto simp: checkStringLength_def too_long_def)
      have fits: "nat off + length ?v < too_long" if "\<not> ?big" using that nn by linarith
      show "meets s (setrangeCommand i argv s) sane (spec_setrange ?d ?k off ?v (view s))"
      proof (cases x)
        case None
        note fn = f(6) [OF None]
        show ?thesis
        proof (cases "?v = [] \<or> ?big")
          case True
          then have "setrangeCommand i argv s = ([if ?v = [] then RInt 0 else RErr TooLong], t)"
            using nn by (auto simp: setrangeCommand_def Let_def g off k l None v big)
          from meets_read [OF this f(1)] True nn fn show ?thesis
            by (auto simp: spec_setrange_def on_string_def Let_def)
        next
          case False
          let ?ob = "createObject (Str sdsempty)"
          have ob: "obj_ok ?ob" "encoding ?ob = ENC_RAW" "ptr ?ob = Str sdsempty" "obj_val ?ob = []"
            by (simp_all add: createObject_def obj_ok_def sdsEncodedObject_def obj_val_def)
          obtain r s' where w: "setrange_write ?d ?k (nat off) ?v ?ob (dbAdd ?d ?k (SVal ?ob) t) = (r, s')" by fastforce
          have o: "setrangeCommand i argv s = (r, s')"
            using False nn w by (simp add: setrangeCommand_def Let_def g off k l None v big)
          have vok: "val_ok (SVal ?ob)" using ob(1) by (simp add: val_ok_def)
          have ne: "?v \<noteq> []" and nb: "nat off + length ?v < too_long" using False fits by blast+
          have st: "stored t ?d ?k = None" using fn by simp
          note p = put_val_ok [OF vok, of ?d ?k t]
          have c: "changes {(?d, ?k)} s (dbAdd ?d ?k (SVal ?ob) t)"
            unfolding dbAdd_eq [OF st] by (rule changes_then [OF f(1) p(1)]) simp_all
          have x: "exp_of (dbAdd ?d ?k (SVal ?ob) t) ?d ?k = None"
            unfolding dbAdd_eq [OF st] using p(3) no_exp [OF f(2) st] by simp
          note sw = setrange_write_ok [OF assms(1) ob(1,2,3) sdsempty_ok(1) ne nb c x live_exp_None w]
          show ?thesis
            by (rule meetsI [OF o sw(1)])
              (use sw(2,3) fn ob(4) False nn in \<open>simp add: spec_setrange_def on_string_def Let_def\<close>)
        qed
      next
        case (Some y)
        show ?thesis
        proof (cases y)
          case (OVal z)
          have "setrangeCommand i argv s = ([RErr WrongType], t)"
            using nn by (simp add: setrangeCommand_def Let_def g off k l Some OVal)
          from meets_read [OF this f(1)] f(7) Some OVal nn show ?thesis
            by (simp add: spec_setrange_def on_string_def Let_def)
        next
          case (SVal ob)
          note fo = f(8) [OF Some [unfolded SVal]]
          show ?thesis
          proof (cases "?v = [] \<or> ?big")
            case True
            then have "setrangeCommand i argv s = ([if ?v = [] then RInt (int (length (obj_val ob))) else RErr TooLong], t)"
              using nn fo by (auto simp: setrangeCommand_def Let_def g off k l Some SVal v big stringObjectLen_ok)
            from meets_read [OF this f(1)] True nn fo show ?thesis
              by (auto simp: spec_setrange_def on_string_def Let_def)
          next
            case False
            obtain ob' u where un: "dbUnshareStringValue ?d ?k ob t = (ob', u)" by fastforce
            have lk: "fmlookup (kdict (dbs t ?d)) ?k = Some (SVal ob)" using fo by simp
            note us = dbUnshareStringValue_ok [OF f(2) lk un]
            obtain q where q: "ptr ob' = Str q" "sds_ok q" using us(7) by blast
            obtain r s' where w: "setrange_write ?d ?k (nat off) ?v ob' u = (r, s')" by fastforce
            have o: "setrangeCommand i argv s = (r, s')"
              using False nn w by (simp add: setrangeCommand_def Let_def g off k l Some SVal v big un)
            have ne: "?v \<noteq> []" and nb: "nat off + length ?v < too_long" using False fits by blast+
            have c: "changes {(?d, ?k)} s u" by (rule changes_then [OF f(1) us(1)]) simp_all
            note sw = setrange_write_ok [OF assms(1) us(4,6) q ne nb c us(3) finish_live [OF f(1,5)] w]
            show ?thesis
              by (rule meetsI [OF o sw(1)])
                (use sw(2,3) fo us(5) False nn in \<open>simp add: spec_setrange_def on_string_def Let_def\<close>)
          qed
        qed
      qed
    qed
  qed
qed

lemma overflow_test:
  assumes "in_srange 8 n" "in_srange 8 m"
  shows "(n < 0 \<and> m < 0 \<and> n < wrap_s64 (LLONG_MIN - m)) \<or> (n > 0 \<and> m > 0 \<and> n > wrap_s64 (LLONG_MAX - m)) \<longleftrightarrow>
    \<not> in_srange 8 (m + n)"
proof -
  have "m < 0 \<Longrightarrow> wrap_s64 (LLONG_MIN - m) = LLONG_MIN - m" "m > 0 \<Longrightarrow> wrap_s64 (LLONG_MAX - m) = LLONG_MAX - m"
    using assms(2) by (intro wrap_s64_id; simp add: in_srange_def LLONG_MIN_def LLONG_MAX_def)+
  with assms show ?thesis by (auto simp: in_srange_def LLONG_MIN_def LLONG_MAX_def)
qed

text \<open>The new value: the object changed in place, or a new one.\<close>

definition incr_store :: "nat \<Rightarrow> bytes \<Rightarrow> robj option \<Rightarrow> int \<Rightarrow> 'o srv \<Rightarrow> robj \<times> 'o srv" where
  "incr_store d k ob val s =
     (case ob of
        Some ob1 \<Rightarrow>
          if refcount ob1 = 1 \<and> encoding ob1 = ENC_INT \<and> (val < 0 \<or> val \<ge> SHARED_INTEGERS) \<and>
             val \<ge> LONG_MIN \<and> val \<le> LONG_MAX
          then let ob1 = ob1\<lparr>ptr := Num val\<rparr> in (ob1, put_val d k (SVal ob1) s)
          else case createStringObjectFromLongLong (shared s) val of
                 (new, sh) \<Rightarrow> (new, dbOverwrite d k (SVal new) (s\<lparr>shared := sh\<rparr>))
      | None \<Rightarrow>
          case createStringObjectFromLongLong (shared s) val of
            (new, sh) \<Rightarrow> (new, dbAdd d k (SVal new) (s\<lparr>shared := sh\<rparr>)))"

lemma incr_store_ok:
  assumes "db_inv s" "in_srange 8 val" "incr_store d k ob val s = (new, s')"
    "ob = None \<longleftrightarrow> stored s d k = None" "\<And>x. ob = Some x \<Longrightarrow> obj_ok x"
  shows "\<exists>t. changes {} s t \<and> exp_of t d k = exp_of s d k \<and> s' = put_val d k (SVal new) t \<and>
    obj_ok new \<and> obj_val new = dec_int val"
proof -
  obtain new' sh where c: "createStringObjectFromLongLong (shared s) val = (new', sh)" by fastforce
  have shok: "shared_ok (shared s)" using assms(1) by (simp add: db_inv_def)
  note cr = createFromLongLong_ok [OF shok assms(2) c]
  let ?t = "s\<lparr>shared := sh\<rparr>"
  have inv: "db_inv ?t" using assms(1) cr by (simp add: db_inv_def exp_of_def)
  have ct: "changes {} s ?t"
    using inv by (simp add: changes_def env_of_def same_watch_def kept_def stored_def exp_of_def)
  have st: "stored ?t d k = stored s d k" "exp_of ?t d k = exp_of s d k" by (simp_all add: stored_def exp_of_def)
  show ?thesis
  proof (cases ob)
    case None
    then have "new = new'" "s' = put_val d k (SVal new') ?t"
      using assms(3,4) c st by (auto simp: incr_store_def dbAdd_eq)
    with ct cr st show ?thesis by (intro exI [of _ ?t]) simp
  next
    case (Some x)
    show ?thesis
    proof (cases "refcount x = 1 \<and> encoding x = ENC_INT \<and> (val < 0 \<or> val \<ge> SHARED_INTEGERS) \<and>
             val \<ge> LONG_MIN \<and> val \<le> LONG_MAX")
      case True
      then have n: "new = x\<lparr>ptr := Num val\<rparr>" "s' = put_val d k (SVal new) s"
        using assms(3) Some by (auto simp: incr_store_def Let_def)
      then show ?thesis
        using True assms(2) by (intro exI [of _ s]) (simp add: obj_ok_def obj_val_def)
    next
      case False
      have "stored ?t d k \<noteq> None" using st assms(4) Some by simp
      then have "new = new'" "s' = put_val d k (SVal new') ?t"
        using assms(3) Some False c by (auto simp: incr_store_def dbOverwrite_eq)
      with ct cr st show ?thesis by (intro exI [of _ ?t]) simp
    qed
  qed
qed

lemma incrDecrCommand_ok:
  assumes "db_inv s" "arg_ok (argv ! 1)" "in_srange 8 n"
  shows "meets s (incrDecrCommand i n argv s) sane (spec_incr (cur_db i s) (obj_val (argv ! 1)) n (view s))"
proof -
  let ?d = "cur_db i s" and ?k = "obj_val (argv ! 1)"
  note k = arg_key [OF assms(2)]
  obtain v t where l: "lookupKeyWrite ?d ?k s = (v, t)" by fastforce
  note f = found [OF lookupKeyWrite_ok [OF assms(1) l]]
  show ?thesis
  proof (cases "\<exists>x. v = Some (OVal x)")
    case True
    then obtain x where x: "v = Some (OVal x)" by blast
    then have "incrDecrCommand i n argv s = ([RErr WrongType], t)"
      by (simp add: incrDecrCommand_def Let_def k l)
    from meets_read [OF this f(1)] f(7) [OF x] show ?thesis by (simp add: spec_incr_def on_string_def Let_def)
  next
    case False
    define ob where "ob = (case v of Some (SVal ob) \<Rightarrow> Some ob | _ \<Rightarrow> None)"
    define e where "e = exp_of t ?d ?k"
    have ob: "v = map_option SVal ob" using False by (cases v) (auto simp: ob_def split: val.splits)
    have okob: "\<And>x. ob = Some x \<Longrightarrow> obj_ok x" using f(8) ob by auto
    have view: "view s ?d ?k = map_option (\<lambda>x. (Inl (obj_val x), e)) ob"
      using f(6,8) ob by (cases ob) (auto simp: e_def)
    have old: "getLongLongFromObject ob = (case ob of None \<Rightarrow> Some 0 | Some x \<Rightarrow> int_of (obj_val x))"
      using okob int_of_ok by (cases ob) (auto simp: getLongLongFromObject_def)
    have o: "incrDecrCommand i n argv s = (case getLongLongFromObject ob of
        None \<Rightarrow> ([RErr NotInteger], t)
      | Some m \<Rightarrow>
          if (n < 0 \<and> m < 0 \<and> n < wrap_s64 (LLONG_MIN - m)) \<or> (n > 0 \<and> m > 0 \<and> n > wrap_s64 (LLONG_MAX - m))
          then ([RErr Overflow], t)
          else case incr_store ?d ?k ob (wrap_s64 (m + n)) t of
                 (new, u) \<Rightarrow> ([RColon (obj_val new)],
                   add_dirty 1 (notifyKeyspaceEvent ''incrby'' ?k ?d (signalModifiedKey ?d ?k u))))"
    proof (cases v)
      case None
      then show ?thesis
        by (simp add: incrDecrCommand_def Let_def k l ob_def incr_store_def split: option.split)
    next
      case (Some y)
      then obtain x where "v = Some (SVal x)" using False by (cases y) auto
      then show ?thesis
        by (simp add: incrDecrCommand_def Let_def k l ob_def incr_store_def split: option.split)
    qed
    show ?thesis
    proof (cases "getLongLongFromObject ob")
      case None
      then have "incrDecrCommand i n argv s = ([RErr NotInteger], t)" using o by simp
      from meets_read [OF this f(1)] None old view show ?thesis
        by (cases ob) (simp_all add: spec_incr_def on_string_def Let_def)
    next
      case (Some m)
      have m: "in_srange 8 m" using Some old int_of_range by (cases ob) (auto simp: in_srange_def)
      let ?e = "if ob = None then None else e"
      have sp: "spec_incr ?d ?k n (view s) = (if in_srange 8 (m + n)
          then ([RColon (dec_int (m + n))], upd_view (view s) ?d ?k (Some (Inl (dec_int (m + n)), ?e)))
          else ([RErr Overflow], view s))"
        using Some old view by (cases ob) (auto simp: spec_incr_def on_string_def Let_def split: option.split dest: sym)
      show ?thesis
      proof (cases "in_srange 8 (m + n)")
        case False
        then have "incrDecrCommand i n argv s = ([RErr Overflow], t)"
          using o Some overflow_test [OF assms(3) m] by simp
        from meets_read [OF this f(1)] False sp show ?thesis by simp
      next
        case True
        obtain new u where st: "incr_store ?d ?k ob (m + n) t = (new, u)" by fastforce
        let ?s' = "add_dirty 1 (notifyKeyspaceEvent ''incrby'' ?k ?d (signalModifiedKey ?d ?k u))"
        have r: "incrDecrCommand i n argv s = ([RColon (obj_val new)], ?s')"
          using o Some overflow_test [OF assms(3) m] True st by (simp add: wrap_s64_id)
        have none: "ob = None \<longleftrightarrow> stored t ?d ?k = None" using f(6,8) ob by (cases ob) auto
        obtain u0 where u: "changes {} t u0" "exp_of u0 ?d ?k = e" "u = put_val ?d ?k (SVal new) u0"
          "obj_ok new" "obj_val new = dec_int (m + n)"
          using incr_store_ok [OF f(2) True st none okob] by (auto simp: e_def)
        have ee: "e = ?e" using no_exp [OF f(2)] none by (auto simp: e_def)
        have c: "changes {(?d, ?k)} s u0" by (rule changes_then [OF f(1) u(1)]) simp_all
        have live: "live_exp s e" unfolding e_def by (rule finish_live [OF f(1,5)])
        note w = write_string [OF assms(1) u(4) c u(2) refl finish_ok live, folded u(3)]
        show ?thesis
          by (rule meetsI [OF r w(1)]) (use w(2) sp True u(5) ee in simp)
      qed
    qed
  qed
qed

lemma incrbyCommand_ok:
  assumes "db_inv s" "args_ok argv 3"
  shows "meets s (incrbyCommand i argv s) sane (spec CmdIncrby now act cf (cur_db i s) (map obj_val argv) (view s))"
proof -
  have a: "arg_ok (argv ! 1)" "obj_ok (argv ! 2)" using args_nth [OF assms(2)] by simp_all
  show ?thesis
  proof (cases "int_of (obj_val (argv ! 2))")
    case None
    then show ?thesis
      by (intro meets_read [of _ "[RErr NotInteger]" s])
        (simp_all add: incrbyCommand_def int_of_ok [OF a(2)] spec_int_def args_map [OF assms(2)])
  next
    case (Some n)
    from incrDecrCommand_ok [OF assms(1) a(1) int_of_range [OF Some]] show ?thesis
      by (simp add: incrbyCommand_def int_of_ok [OF a(2)] Some spec_int_def args_map [OF assms(2)])
  qed
qed

lemma decrbyCommand_ok:
  assumes "db_inv s" "args_ok argv 3" "sane \<Longrightarrow> int_of (obj_val (argv ! 2)) \<noteq> Some (- (2 ^ 63))"
  shows "meets s (decrbyCommand i argv s) sane (spec CmdDecrby now act cf (cur_db i s) (map obj_val argv) (view s))"
proof -
  have a: "arg_ok (argv ! 1)" "obj_ok (argv ! 2)" using args_nth [OF assms(2)] by simp_all
  show ?thesis
  proof (cases "int_of (obj_val (argv ! 2))")
    case None
    then show ?thesis
      by (intro meets_read [of _ "[RErr NotInteger]" s])
        (simp_all add: decrbyCommand_def int_of_ok [OF a(2)] spec_int_def args_map [OF assms(2)])
  next
    case (Some n)
    have w: "in_srange 8 (wrap_s64 (- n))"
    proof -
      have "length (le_bytes 8 (- n)) = 8" by (rule length_le_bytes)
      then have "le_bytes 8 (- n) \<noteq> []" by (metis list.size(3) zero_neq_numeral)
      from le_sint_range [OF this] show ?thesis by (simp add: wrap_s64_def le_sint_def le_uint_le_bytes)
    qed
    have n: "wrap_s64 (- n) = - n" if sane
      using that assms(3) Some int_of_range [OF Some] by (intro wrap_s64_id) (auto simp: in_srange_def)
    from incrDecrCommand_ok [OF assms(1) a(1) w, of i sane] n show ?thesis
      by (auto simp: decrbyCommand_def int_of_ok [OF a(2)] Some spec_int_def args_map [OF assms(2)] meets_def)
  qed
qed

subsection \<open>Commands on many keys\<close>

lemma mget_loop_ok:
  assumes "db_inv s" "\<forall>a \<in> set keys. arg_ok a" "mget_loop d keys s = (rs, s')"
  shows "changes {} s s' \<and> rs = map (\<lambda>k. on_string (view s) d k RNull RNull (\<lambda>b e. RBulk b)) (map obj_val keys)"
  using assms
proof (induction keys arbitrary: s rs s')
  case (Cons key keys)
  have k: "arg_ok key" using Cons.prems(2) by simp
  obtain v t where l: "lookupKeyRead d (obj_val key) s = (v, t)" by fastforce
  note f = found [OF lookupKeyRead_ok [OF Cons.prems(1) l]]
  obtain rs' u where m: "mget_loop d keys t = (rs', u)" by fastforce
  have ih: "changes {} t u \<and> rs' = map (\<lambda>k. on_string (view t) d k RNull RNull (\<lambda>b e. RBulk b)) (map obj_val keys)"
    using Cons.prems(2) by (intro Cons.IH [OF f(2) _ m]) simp
  have c: "changes {} s u" using changes_step [OF f(1) _ order_refl] ih by blast
  show ?case
    using Cons.prems(3) c ih f(3,6,7,8) by (auto simp: arg_key [OF k] l m on_string_def split: option.splits val.splits)
qed simp

lemma args_drop: "args_ok argv n \<Longrightarrow> \<forall>a \<in> set (drop m argv). arg_ok a"
  by (auto simp: args_ok_def dest: in_set_dropD)

lemma mgetCommand_ok:
  assumes "db_inv s" "args_ok argv 2"
  shows "meets s (mgetCommand i argv s) sane (spec CmdMget now act cf (cur_db i s) (map obj_val argv) (view s))"
proof -
  obtain rs s' where m: "mget_loop (cur_db i s) (drop 1 argv) s = (rs, s')" by fastforce
  note l = mget_loop_ok [OF assms(1) args_drop [OF assms(2)] m]
  have o: "mgetCommand i argv s = (RMultiLen (length argv - 1) # rs, s')" by (simp add: mgetCommand_def m)
  show ?thesis by (rule meets_read [OF o conjunct1 [OF l]]) (use l in \<open>simp_all add: drop_map\<close>)
qed

lemma mset_busy_ok:
  assumes "db_inv s" "\<forall>a \<in> set args. arg_ok a" "mset_busy d args s = (n, s')"
  shows "changes {} s s' \<and> db_inv s' \<and> view s' = view s \<and> (n \<noteq> 0 \<longleftrightarrow> spec_busy d (map obj_val args) (view s))"
  using assms
proof (induction d args s arbitrary: n s' rule: mset_busy.induct)
  case (1 d key val rest s)
  have k: "arg_ok key" using "1.prems"(2) by simp
  obtain v t where l: "lookupKeyWrite d (obj_val key) s = (v, t)" by fastforce
  note lu = lookupKeyWrite_ok [OF "1.prems"(1) l]
  note f = found [OF lu]
  obtain m u where b: "mset_busy d rest t = (m, u)" by fastforce
  have ih: "changes {} t u \<and> db_inv u \<and> view u = view t \<and> (m \<noteq> 0 \<longleftrightarrow> spec_busy d (map obj_val rest) (view t))"
    using "1.prems"(2) by (intro "1.IH" [OF _ f(2) _ b]) (simp_all add: arg_key [OF k] l)
  have c: "changes {} s u" using changes_step [OF f(1) _ order_refl] ih by blast
  have "s' = u" "n = (if v \<noteq> None then m + 1 else m)" using "1.prems"(3) by (simp_all add: arg_key [OF k] l b)
  with c ih f(3) looked_up_view(2) [OF lu] show ?case by auto
qed auto

lemma mset_loop_ok:
  assumes "db_inv s" "\<forall>a \<in> set args. arg_ok a"
  shows "safe s (mset_loop d args s) \<and> db_inv (mset_loop d args s) \<and>
    view (mset_loop d args s) = spec_mset d (map obj_val args) (view s)"
  using assms
proof (induction d args s rule: mset_loop.induct)
  case (1 d key val rest s)
  have k: "arg_ok key" "arg_ok val" using "1.prems"(2) by simp_all
  obtain v t where en: "encode val s = (v, t)" by fastforce
  note e = encode_ok [OF "1.prems"(1) arg_ok_obj [OF k(2)] en]
  let ?t = "notifyKeyspaceEvent ''set'' (obj_val key) d (setKey d (obj_val key) (SVal v) t)"
  have m: "changes {(d, obj_val key)} (setKey d (obj_val key) (SVal v) t) ?t" by simp
  note sm = setKey_meets [OF e(4,1) refl m]
  have sm': "safe t ?t" "view ?t = upd_view (view t) d (obj_val key) (Some (Inl (obj_val v), None))" "db_inv ?t"
    using sm by simp_all
  have ih: "safe ?t (mset_loop d rest ?t) \<and> db_inv (mset_loop d rest ?t) \<and>
      view (mset_loop d rest ?t) = spec_mset d (map obj_val rest) (view ?t)"
    using "1.prems"(2) by (intro "1.IH" [OF _ refl sm'(3) [folded arg_key [OF k(1)]], unfolded arg_key [OF k(1)]]) (simp_all add: en)
  show ?case
    using ih sm' e(2,6) safe_trans [OF safe_after [OF e(3) sm'(1)]] by (simp add: en arg_key [OF k(1)] Let_def)
qed (auto intro: safe_none)

lemma msetGenericCommand_ok:
  assumes "db_inv s" "args_ok argv 3"
  shows "meets s (msetGenericCommand i nx argv s) sane
    (spec (if nx then CmdMsetnx else CmdMset) now act cf (cur_db i s) (map obj_val argv) (view s))"
proof (cases "even (length argv)")
  case True
  then show ?thesis
    by (intro meets_read [of _ "[RErr WrongArgsMset]" s]) (simp_all add: msetGenericCommand_def even_iff_mod_2_eq_zero)
next
  case False
  then have odd: "length argv mod 2 \<noteq> 0" by (simp add: even_iff_mod_2_eq_zero)
  let ?d = "cur_db i s"
  note as = args_drop [OF assms(2), of 1]
  obtain busy t where b: "(if nx then mset_busy ?d (drop 1 argv) s else (0, s)) = (busy, t)" by fastforce
  have t: "changes {} s t" "db_inv t" "view t = view s"
    "busy \<noteq> 0 \<longleftrightarrow> nx \<and> spec_busy ?d (drop 1 (map obj_val argv)) (view s)"
    using b mset_busy_ok [OF assms(1) as, of ?d] assms(1) by (cases nx; auto simp: drop_map)+
  show ?thesis
  proof (cases "busy \<noteq> 0")
    case True
    then have o: "msetGenericCommand i nx argv s = ([RInt 0], t)"
      using odd b by (simp only: msetGenericCommand_def Let_def if_False prod.case if_True not_False_eq_True)
    show ?thesis by (rule meets_read [OF o t(1)]) (use True t(4) False in simp_all)
  next
    case nb: False
    let ?u = "mset_loop ?d (drop 1 argv) t"
    have o: "msetGenericCommand i nx argv s =
        ([if nx then RInt 1 else ROk], add_dirty (int ((length argv - 1) div 2)) ?u)"
      using odd b nb by (simp only: msetGenericCommand_def Let_def if_False prod.case)
    note l = mset_loop_ok [OF t(2) as, of ?d]
    have "safe s (add_dirty (int ((length argv - 1) div 2)) ?u)"
      using safe_trans [OF safe_after [OF t(1)] safe_none [OF changes_add_dirty]] l by blast
    moreover have "view (add_dirty (int ((length argv - 1) div 2)) ?u) = view ?u"
      by (rule changes_view_none [OF changes_add_dirty])
    ultimately show ?thesis
      using l t nb False by (intro meetsI [OF o]) (auto simp: drop_map)
  qed
qed

lemma expire_found:
  assumes "db_inv s"
  shows "looked_up d k s (lookupKey d k (snd (expireIfNeeded d k s))) (snd (expireIfNeeded d k s))"
  by (rule lookupKeyWrite_ok [OF assms]) (simp add: lookupKeyWrite_def Let_def)

lemma changes_drop:
  assumes "changes {(d, k)} s s'" "kept s s' d k"
  shows "changes {} s s'"
proof -
  have "kept s s' d' k'" for d' k'
    using assms by (cases "(d', k') = (d, k)") (simp_all add: changes_def)
  with assms(1) show ?thesis by (simp add: changes_def)
qed

lemma exists_loop_ok:
  assumes "db_inv s" "\<forall>a \<in> set keys. arg_ok a" "exists_loop d keys s = (n, s')"
  shows "changes {} s s' \<and> n = length (filter (\<lambda>k. view s d k \<noteq> None) (map obj_val keys))"
  using assms
proof (induction keys arbitrary: s n s')
  case (Cons key keys)
  have k: "arg_ok key" using Cons.prems(2) by simp
  let ?t = "snd (expireIfNeeded d (obj_val key) s)"
  note lu = expire_found [OF Cons.prems(1), of d "obj_val key"]
  note f = found [OF lu]
  obtain m u where e: "exists_loop d keys ?t = (m, u)" by fastforce
  have ih: "changes {} ?t u \<and> m = length (filter (\<lambda>k. view ?t d k \<noteq> None) (map obj_val keys))"
    using Cons.prems(2) by (intro Cons.IH [OF f(2) _ e]) simp
  have c: "changes {} s u" using changes_step [OF f(1) _ order_refl] ih by blast
  have x: "dbExists d (obj_val key) ?t \<longleftrightarrow> view s d (obj_val key) \<noteq> None"
    using looked_up_view(2) [OF lu] by (simp add: dbExists_def lookupKey_def)
  show ?case using Cons.prems(3) c ih f(3) x by (auto simp: arg_key [OF k] e Let_def)
qed simp

lemma existsCommand_ok:
  assumes "db_inv s" "args_ok argv 2"
  shows "meets s (existsCommand i argv s) sane (spec CmdExists now act cf (cur_db i s) (map obj_val argv) (view s))"
proof -
  obtain n s' where m: "exists_loop (cur_db i s) (drop 1 argv) s = (n, s')" by fastforce
  note l = exists_loop_ok [OF assms(1) args_drop [OF assms(2)] m]
  have o: "existsCommand i argv s = ([RInt (int n)], s')" by (simp add: existsCommand_def m)
  show ?thesis by (rule meets_read [OF o conjunct1 [OF l]]) (use l in \<open>simp_all add: drop_map\<close>)
qed

text \<open>Deleting a key that exists, and telling its watchers.\<close>

lemma delete_ok:
  assumes "changes {} s t" "db_inv s" "s' = signalModifiedKey d k (snd (dbDelete d k t))"
  shows "safe s s'" "view s' = upd_view (view s) d k None" "db_inv s'"
proof -
  have c1: "changes {(d, k)} s (snd (dbDelete d k t))" by (rule changes_then [OF assms(1) changes_dbDelete]) simp_all
  have c: "changes {(d, k)} s s'" unfolding assms(3) by (rule changes_step [OF c1 touch_changes order_refl])
  show "safe s s'" by (rule safe_one [OF c]) (simp add: assms(3) signal_all_dirty)
  show "view s' = upd_view (view s) d k None" by (rule view_gone [OF c]) (simp add: assms(3))
  show "db_inv s'" by (rule changes_inv [OF c assms(2)])
qed

lemma upd_view_same: "V d k = x \<Longrightarrow> upd_view V d k x = V"
  by (intro ext) (auto simp: upd_view_def)

lemma del_loop_ok:
  assumes "db_inv s" "\<forall>a \<in> set keys. arg_ok a" "del_loop d keys s = (n, s')"
  shows "safe s s' \<and> db_inv s' \<and> (n, view s') = spec_del d (map obj_val keys) (view s)"
  using assms
proof (induction keys arbitrary: s n s')
  case (Cons key keys)
  let ?k = "obj_val key"
  let ?t = "snd (expireIfNeeded d ?k s)"
  have k: "arg_ok key" and ks: "\<forall>a \<in> set keys. arg_ok a" using Cons.prems(2) by simp_all
  note lu = expire_found [OF Cons.prems(1), of d ?k]
  note f = found [OF lu]
  have st: "stored ?t d ?k = None \<longleftrightarrow> view s d ?k = None"
    using looked_up_view(2) [OF lu] by (simp add: lookupKey_def stored_def)
  show ?case
  proof (cases "view s d ?k = None")
    case True
    then obtain u where same: "dbDelete d ?k ?t = (False, u)"
      using st dbDelete_entry(3) [of d ?k ?t] by (metis prod.collapse)
    then have u: "u = snd (dbDelete d ?k ?t)" by simp
    have cu: "changes {(d, ?k)} ?t u" unfolding u by (rule changes_dbDelete)
    have ku: "kept ?t u d ?k" using st True no_exp [OF f(2)] by (simp add: kept_def u)
    have "changes {} ?t u" by (rule changes_drop [OF cu ku])
    then have c: "changes {} s u" by (rule changes_step [OF f(1) _ order_refl])
    have d: "del_loop d keys u = (n, s')"
      using Cons.prems(3) same by (simp add: arg_key [OF k] Let_def)
    have "safe u s' \<and> db_inv s' \<and> (n, view s') = spec_del d (map obj_val keys) (view u)"
      by (rule Cons.IH [OF changes_inv [OF c Cons.prems(1)] ks d])
    moreover have "view u = view s" by (rule changes_view_none [OF c])
    ultimately show ?thesis
      using safe_after [OF c] True by (auto simp: upd_view_same split: prod.splits)
  next
    case False
    then obtain w0 where same: "dbDelete d ?k ?t = (True, w0)"
      using st dbDelete_entry(3) [of d ?k ?t] by (metis prod.collapse)
    then have w0: "w0 = snd (dbDelete d ?k ?t)" by simp
    let ?w = "signalModifiedKey d ?k w0"
    let ?u = "add_dirty 1 (notifyKeyspaceEvent ''del'' ?k d ?w)"
    note dl = delete_ok [OF f(1) Cons.prems(1) refl, of d ?k, folded w0]
    have c: "changes {} ?w ?u" by (rule finish_ok(1))
    obtain m where d: "del_loop d keys ?u = (m, s')" and n: "n = m + 1"
      using Cons.prems(3) same by (auto simp: arg_key [OF k] Let_def split: prod.splits)
    have "safe ?u s' \<and> db_inv s' \<and> (m, view s') = spec_del d (map obj_val keys) (view ?u)"
      by (rule Cons.IH [OF changes_inv [OF c dl(3)] ks d])
    moreover have "view ?u = upd_view (view s) d ?k None" using changes_view_none [OF c] dl(2) by simp
    ultimately show ?thesis
      using safe_trans [OF safe_trans [OF dl(1) safe_none [OF c]]] n False by (auto split: prod.splits)
  qed
qed (simp add: safe_none)

lemma delCommand_ok:
  assumes "db_inv s" "args_ok argv 2"
  shows "meets s (delCommand i argv s) sane (spec CmdDel now act cf (cur_db i s) (map obj_val argv) (view s))"
proof -
  obtain n s' where m: "del_loop (cur_db i s) (drop 1 argv) s = (n, s')" by fastforce
  note l = del_loop_ok [OF assms(1) args_drop [OF assms(2)] m]
  have o: "delCommand i argv s = ([RInt (int n)], s')" by (simp add: delCommand_def m)
  show ?thesis by (rule meetsI [OF o]) (use l in \<open>auto simp: drop_map split: prod.split\<close>)
qed

lemma persistCommand_ok:
  assumes "db_inv s" "args_ok argv 2" "sane \<Longrightarrow> \<not> expired s (cur_db i s) (obj_val (argv ! 1))"
  shows "meets s (persistCommand i argv s) sane (spec CmdPersist now act cf (cur_db i s) (map obj_val argv) (view s))"
proof -
  let ?d = "cur_db i s" and ?k = "obj_val (argv ! 1)"
  have k: "key_of (argv ! 1) = ?k" using args_nth [OF assms(2)] arg_key by simp
  note m = args_map [OF assms(2)]
  show ?thesis
  proof (cases "stored s ?d ?k = None")
    case True
    then have "persistCommand i argv s = ([RInt 0], s)" by (simp add: persistCommand_def k stored_iff)
    from meets_read [OF this changes_refl] True show ?thesis by (simp add: spec_persist_def m view_def)
  next
    case False
    obtain b t where re: "removeExpire ?d ?k s = (b, t)" by fastforce
    note r = removeExpire_ok [OF False, unfolded re fst_conv snd_conv]
    have safe: "safe s t" using r(1,2,3) unfolding safe_def by (intro exI [of _ "{(?d, ?k)}"]) auto
    show ?thesis
    proof (cases "exp_of s ?d ?k")
      case None
      have o: "persistCommand i argv s = ([RInt 0], t)"
        using False r(4) None by (auto simp: persistCommand_def k stored_iff re Let_def)
      have "kept s t ?d ?k" using r(2,3) None by (simp add: kept_def)
      then have c: "changes {} s t" using changes_drop [OF r(1)] by simp
      show ?thesis
        by (rule meets_read [OF o c]) (auto simp: spec_persist_def m view_def None split: option.split)
    next
      case (Some w)
      have o: "persistCommand i argv s = ([RInt 1], add_dirty 1 t)"
        using False r(4) Some by (auto simp: persistCommand_def k stored_iff re Let_def)
      have sa: "safe s (add_dirty 1 t)" by (rule safe_trans [OF safe safe_none [OF changes_add_dirty]])
      obtain v where v: "stored s ?d ?k = Some v" using False by blast
      have c: "changes {(?d, ?k)} s (add_dirty 1 t)" by (rule changes_step [OF r(1) changes_add_dirty order_refl])
      have "view (add_dirty 1 t) = upd_view (view s) ?d ?k (Some (v, None))"
        by (rule view_one [OF c]) (simp_all add: r(2,3) v)
      then show ?thesis
        using assms(3) by (intro meetsI [OF o sa]) (simp add: spec_persist_def m view_def Some v)
    qed
  qed
qed

lemma ttlGenericCommand_ok:
  assumes "db_inv s" "args_ok argv 2"
    "sane \<Longrightarrow> 500 \<le> mstime s \<and> mstime s < 2 ^ 63 \<and> (\<forall>w. exp_of s (cur_db i s) (obj_val (argv ! 1)) = Some w \<longrightarrow> 0 \<le> w \<and> w < 2 ^ 63)"
  shows "meets s (ttlGenericCommand i ms argv s) sane (spec_ttl (mstime s) ms (cur_db i s) (obj_val (argv ! 1)) (view s), view s)"
proof -
  let ?d = "cur_db i s" and ?k = "obj_val (argv ! 1)"
  have k: "key_of (argv ! 1) = ?k" using args_nth [OF assms(2)] arg_key by simp
  obtain v t where l: "lookupKeyRead ?d ?k s = (v, t)" by fastforce
  note lu = lookupKeyRead_ok [OF assms(1) l]
  note f = found [OF lu]
  note e = env_fields [OF changes_env [OF f(1)]]
  show ?thesis
  proof (cases v)
    case None
    then have "ttlGenericCommand i ms argv s = ([RInt (-2)], t)" by (simp add: ttlGenericCommand_def Let_def k l)
    from meets_read [OF this f(1)] f(6) [OF None] show ?thesis by (simp add: spec_ttl_def)
  next
    case (Some x)
    note vw = looked_up_view(3,5) [OF lu Some]
    show ?thesis
    proof (cases "exp_of t ?d ?k")
      case None
      then have "ttlGenericCommand i ms argv s = ([RInt (-1)], t)"
        using Some by (simp add: ttlGenericCommand_def Let_def k l getExpire_eq [OF f(2)])
      from meets_read [OF this f(1)] vw None show ?thesis by (simp add: spec_ttl_def)
    next
      case w: (Some w)
      define ttl where "ttl = (if w \<noteq> -1 then max 0 (wrap_s64 (w - mstime s)) else -1)"
      define r where "r = [if ttl = -1 then RInt (-1) else RInt (if ms then ttl else wrap_s64 (ttl + 500) sdiv 1000)]"
      have o: "ttlGenericCommand i ms argv s = (r, t)"
        using Some w by (simp add: ttlGenericCommand_def Let_def k l getExpire_eq [OF f(2)] e(1) r_def ttl_def)
      have "r = spec_ttl (mstime s) ms ?d ?k (view s)" if sane
      proof -
        have "kept s t ?d ?k" using f(1) by (simp add: changes_def)
        then have "exp_of s ?d ?k = Some w" using w by (auto simp: kept_def)
        then have b: "0 \<le> w" "w < 2 ^ 63" "500 \<le> mstime s" "mstime s < 2 ^ 63" using assms(3) [OF that] by simp_all
        define left where "left = max 0 (w - mstime s)"
        have "max 0 (wrap_s64 (w - mstime s)) = left"
        proof -
          have "in_srange 8 (w - mstime s)" using b by (simp add: in_srange_def)
          then show ?thesis by (simp add: wrap_s64_id left_def)
        qed
        moreover have "in_srange 8 (left + 500)" "0 \<le> left" using b by (simp_all add: in_srange_def left_def)
        ultimately show ?thesis
          using b(1) vw(1) w
          by (simp add: r_def ttl_def spec_ttl_def Let_def left_def [symmetric] wrap_s64_id signed_divide_int_def)
      qed
      then show ?thesis by (intro meetsI [OF o safe_none [OF f(1)]]) (simp add: f(3))
    qed
  qed
qed

subsection \<open>Renaming, moving, expiring\<close>

lemma sdscmp_eq:
  assumes "arg_ok a" "arg_ok b"
  shows "sdscmp (ptr_sds (ptr a)) (ptr_sds (ptr b)) = 0 \<longleftrightarrow> obj_val a = obj_val b"
proof -
  obtain x where x: "ptr a = Str x" "sds_ok x" "obj_val a = sds_val x" "sds_len x = length (sds_val x)"
    using assms(1) by (elim arg_cases)
  obtain y where y: "ptr b = Str y" "sds_ok y" "obj_val b = sds_val y" "sds_len y = length (sds_val y)"
    using assms(2) by (elim arg_cases)
  have "sds_len x < 2 ^ 31" "sds_len y < 2 ^ 31" using assms x y by (simp_all add: arg_ok_def too_long_def)
  then have "sgn (sdscmp x y) = bytes_cmp (sds_val x) (sds_val y)" by (rule sdscmp_ok [OF x(2) y(2)])
  then show ?thesis using x(1,3) y(1,3) bytes_cmp_0_iff [of "sds_val x" "sds_val y"] by (auto simp: sgn_0_0)
qed

lemma live_view_exp:
  assumes "view s d k = Some (v, e)"
  shows "live_exp s e"
proof -
  have "\<not> expired s d k" "exp_of s d k = e" using assms by (auto simp: view_def split: if_splits)
  then show ?thesis using live_exp_iff [of s d k] by simp
qed

text \<open>Storing a value that is in the data base under another key, with its time of expiry.\<close>

definition store_at :: "nat \<Rightarrow> bytes \<Rightarrow> 'o val \<Rightarrow> int \<Rightarrow> 'o srv \<Rightarrow> 'o srv" where
  "store_at d k v e s = (let s = dbAdd d k v s in if e \<noteq> -1 then setExpire d k e s else s)"

lemma store_at_ok:
  assumes "val_ok v" "stored s d k = None" "exp_of s d k = None"
  shows "changes {(d, k)} s (store_at d k v e s)" "stored (store_at d k v e s) d k = Some (val_of v)"
    "exp_of (store_at d k v e s) d k = (if e \<noteq> -1 then Some e else None)"
proof -
  note p = put_val_ok [OF assms(1), of d k s]
  have n: "stored (put_val d k v s) d k \<noteq> None" using p(2) by simp
  note x = setExpire_ok [OF n, of e]
  show "changes {(d, k)} s (store_at d k v e s)"
    using p(1) changes_step [OF p(1) x(1) order_refl] by (simp add: store_at_def Let_def dbAdd_eq [OF assms(2)])
  show "stored (store_at d k v e s) d k = Some (val_of v)"
    "exp_of (store_at d k v e s) d k = (if e \<noteq> -1 then Some e else None)"
    using p x assms(3) by (simp_all add: store_at_def Let_def dbAdd_eq [OF assms(2)])
qed

lemma view_two:
  assumes "changes {(d1, k1), (d2, k2)} s s'" "(d1, k1) \<noteq> (d2, k2)"
    "stored s' d1 k1 = None" "stored s' d2 k2 = Some v" "exp_of s' d2 k2 = e" "live_exp s e"
  shows "view s' = upd_view (upd_view (view s) d2 k2 (Some (v, e))) d1 k1 None"
proof -
  have "live_exp s' (exp_of s' d2 k2)" using assms(5,6) live_exp_changes [OF assms(1)] by simp
  then have n: "\<not> expired s' d2 k2" unfolding live_exp_iff .
  have v: "view s' d2 k2 = Some (v, e)" using n assms(4,5) by (simp add: view_def)
  have w: "view s' d1 k1 = None" using assms(3) by (simp add: view_def)
  have o: "view s' d k = view s d k" if "(d, k) \<noteq> (d1, k1)" "(d, k) \<noteq> (d2, k2)" for d k
    using that by (intro changes_view [OF assms(1)]) simp
  show ?thesis
  proof (intro ext)
    fix d k
    show "view s' d k = upd_view (upd_view (view s) d2 k2 (Some (v, e))) d1 k1 None d k"
      using v w o [of d k] assms(2) by (auto simp: upd_view_def)
  qed
qed

lemma renameGenericCommand_ok:
  assumes "db_inv s" "args_ok argv 3" "sane \<Longrightarrow> exp_of s (cur_db i s) (obj_val (argv ! 1)) \<noteq> Some (-1)"
  shows "meets s (renameGenericCommand i nx argv s) sane
    (spec_rename (cur_db i s) nx (obj_val (argv ! 1)) (obj_val (argv ! 2)) (view s))"
proof -
  let ?d = "cur_db i s" and ?k1 = "obj_val (argv ! 1)" and ?k2 = "obj_val (argv ! 2)"
  have a: "arg_ok (argv ! 1)" "arg_ok (argv ! 2)" using args_nth [OF assms(2)] by simp_all
  note k = arg_key [OF a(1)] arg_key [OF a(2)] and c = sdscmp_eq [OF a]
  show ?thesis
  proof (cases "?k1 = ?k2")
    case True
    then show ?thesis
      by (intro meets_read [of _ "[RErr SameObject]" s]) (simp_all add: renameGenericCommand_def Let_def c spec_rename_def)
  next
    case ne: False
    obtain v t where l: "lookupKeyWrite ?d ?k1 s = (v, t)" by fastforce
    note lu = lookupKeyWrite_ok [OF assms(1) l]
    note f = found [OF lu]
    show ?thesis
    proof (cases v)
      case None
      then have "renameGenericCommand i nx argv s = ([RErr NoKey], t)"
        using ne by (simp add: renameGenericCommand_def Let_def c k l)
      from meets_read [OF this f(1)] f(6) [OF None] ne show ?thesis by (simp add: spec_rename_def)
    next
      case (Some x)
      note vw = looked_up_view(3,4,5) [OF lu Some]
      let ?e = "exp_of t ?d ?k1"
      define e where "e = (case ?e of None \<Rightarrow> -1 | Some w \<Rightarrow> w)"
      obtain old u where l2: "lookupKeyWrite ?d ?k2 t = (old, u)" by fastforce
      note lu2 = lookupKeyWrite_ok [OF f(2) l2]
      note f2 = found [OF lu2]
      have old: "old = None \<longleftrightarrow> view s ?d ?k2 = None" using looked_up_view(2) [OF lu2] f(3) by simp
      have cu: "changes {} s u" by (rule changes_step [OF f(1) f2(1) order_refl])
      show ?thesis
      proof (cases "old \<noteq> None \<and> nx")
        case True
        then have "renameGenericCommand i nx argv s = ([RInt 0], u)"
          using ne by (simp add: renameGenericCommand_def Let_def c k l Some getExpire_eq [OF f(2)] l2)
        from meets_read [OF this cu] True old vw(1) ne show ?thesis by (simp add: spec_rename_def)
      next
        case False
        let ?u1 = "if old \<noteq> None then snd (dbDelete ?d ?k2 u) else u"
        let ?u2 = "store_at ?d ?k2 x e ?u1"
        let ?u3 = "snd (dbDelete ?d ?k1 ?u2)"
        let ?w = "signalModifiedKey ?d ?k2 (signalModifiedKey ?d ?k1 ?u3)"
        let ?s' = "add_dirty 1 (notifyKeyspaceEvent ''rename_to'' ?k2 ?d (notifyKeyspaceEvent ''rename_from'' ?k1 ?d ?w))"
        have o: "renameGenericCommand i nx argv s = ([if nx then RInt 1 else ROk], ?s')"
          using ne False
          by (simp add: renameGenericCommand_def Let_def c k l Some getExpire_eq [OF f(2)] l2 e_def store_at_def)
        have u1: "changes {(?d, ?k2)} u ?u1" "stored ?u1 ?d ?k2 = None" "exp_of ?u1 ?d ?k2 = None"
          using changes_dbDelete f2(6) no_exp [OF f2(2)] by auto
        note st = store_at_ok [OF vw(2) u1(2,3), of e]
        let ?K = "{(?d, ?k1), (?d, ?k2)}"
        have c2: "changes {(?d, ?k2)} s ?u2"
          by (rule changes_step [OF changes_then [OF cu u1(1)] st(1)]) simp_all
        have c3: "changes ?K s ?u3" by (rule changes_then [OF c2 changes_dbDelete]) simp_all
        have cw: "changes {} ?u3 ?w" by (rule changes_step [OF touch_changes touch_changes order_refl])
        have cs: "changes {} ?w ?s'"
          by (rule changes_step [OF changes_step [OF changes_notify changes_notify order_refl] changes_add_dirty order_refl])
        have call: "changes ?K s ?s'" by (rule changes_step [OF changes_step [OF c3 cw] cs]) simp_all
        have ad: "all_dirty ?w ?d ?k2" by (rule signal_all_dirty)
        have ad1: "all_dirty ?w ?d ?k1" by (rule all_dirty_mono [OF touch_changes signal_all_dirty])
        have safe: "safe s ?s'"
          unfolding safe_def using call all_dirty_mono [OF cs ad] all_dirty_mono [OF cs ad1] by (intro exI [of _ ?K]) simp
        have s1: "stored ?s' ?d ?k1 = None" by simp
        have kept: "kept ?u2 ?u3 ?d ?k2" using changes_dbDelete [of ?d ?k1 ?u2] ne by (auto simp: changes_def)
        have s2: "stored ?s' ?d ?k2 = Some (val_of x)" "exp_of ?s' ?d ?k2 = (if e \<noteq> -1 then Some e else None)"
          if "live_exp s (if e \<noteq> -1 then Some e else None)"
        proof -
          have "\<not> expired ?u2 ?d ?k2"
            using that live_exp_changes [OF c2] st(3) live_exp_iff [of ?u2 ?d ?k2] by simp
          with kept st(2,3) show "stored ?s' ?d ?k2 = Some (val_of x)"
            "exp_of ?s' ?d ?k2 = (if e \<noteq> -1 then Some e else None)" by (auto simp: kept_def)
        qed
        show ?thesis
        proof (rule meetsI [OF o safe])
          assume sane
          have "kept s t ?d ?k1" using f(1) by (simp add: changes_def)
          then have "?e \<noteq> Some (-1)" using assms(3) [OF \<open>sane\<close>] by (auto simp: kept_def)
          then have ee: "(if e \<noteq> -1 then Some e else None) = ?e" by (auto simp: e_def split: option.splits)
          have live: "live_exp s ?e" by (rule live_view_exp [OF vw(1)])
          have "view ?s' = upd_view (upd_view (view s) ?d ?k2 (Some (val_of x, ?e))) ?d ?k1 None"
            using s2 [unfolded ee, OF live] ne live by (intro view_two [OF call _ s1]) simp_all
          then show "[if nx then RInt 1 else ROk] = fst (spec_rename ?d nx ?k1 ?k2 (view s)) \<and>
              view ?s' = snd (spec_rename ?d nx ?k1 ?k2 (view s))"
            using ne vw(1) False old by (auto simp: spec_rename_def)
        qed
      qed
    qed
  qed
qed

text \<open>\<open>MOVE\<close> does not tell the watchers, so only the weaker statement holds for it.\<close>

definition delivers :: "'o srv \<Rightarrow> 'o outcome \<Rightarrow> bool \<Rightarrow> reply list \<times> 'o vw \<Rightarrow> bool" where
  "delivers s out sane sp \<longleftrightarrow> (\<exists>K. changes K s (snd out)) \<and> (sane \<longrightarrow> (fst out, view (snd out)) = sp)"

lemma meets_delivers: "meets s out sane sp \<Longrightarrow> delivers s out sane sp"
  by (auto simp: meets_def delivers_def dest: safe_changes)

lemma deliversI:
  "out = (r, s') \<Longrightarrow> changes K s s' \<Longrightarrow> (sane \<Longrightarrow> r = fst sp \<and> view s' = snd sp) \<Longrightarrow> delivers s out sane sp"
  by (cases sp) (auto simp: delivers_def)

lemma moveCommand_ok:
  assumes "db_inv s" "args_ok argv 3" "sane \<Longrightarrow> exp_of s (cur_db i s) (obj_val (argv ! 1)) \<noteq> Some (-1)"
  shows "delivers s (moveCommand i argv s) sane
    (spec_move (dbnum (conf s)) (cluster_enabled (conf s)) (cur_db i s) (obj_val (argv ! 1)) (int_of (obj_val (argv ! 2))) (view s))"
proof -
  let ?d = "cur_db i s" and ?k = "obj_val (argv ! 1)" and ?dst = "int_of (obj_val (argv ! 2))"
  let ?sp = "spec_move (dbnum (conf s)) (cluster_enabled (conf s)) ?d ?k ?dst (view s)"
  have a: "arg_ok (argv ! 1)" "obj_ok (argv ! 2)" using args_nth [OF assms(2)] by simp_all
  note k = arg_key [OF a(1)] and g = int_of_ok [OF a(2)]
  have stop: "delivers s (moveCommand i argv s) sane ?sp"
    if "moveCommand i argv s = ([r], t)" "changes {} s t" "?sp = ([r], view s)" for r t
    by (rule meets_delivers, rule meets_read [OF that(1,2)]) (simp_all add: that(3))
  consider (cluster) "cluster_enabled (conf s)"
    | (range) "\<not> cluster_enabled (conf s)" "?dst = None \<or> the ?dst < 0 \<or> int (dbnum (conf s)) \<le> the ?dst \<or> 2 ^ 31 \<le> the ?dst"
    | (same) ix where "\<not> cluster_enabled (conf s)" "?dst = Some ix" "0 \<le> ix" "ix < int (dbnum (conf s))" "ix < 2 ^ 31" "nat ix = ?d"
    | (move) ix where "\<not> cluster_enabled (conf s)" "?dst = Some ix" "0 \<le> ix" "ix < int (dbnum (conf s))" "ix < 2 ^ 31" "nat ix \<noteq> ?d"
    by (metis linorder_not_le option.collapse)
  then show ?thesis
  proof cases
    case cluster
    then show ?thesis
      by (intro stop [of "RErr NotInCluster" s]) (simp_all add: moveCommand_def spec_move_def)
  next
    case range
    have "moveCommand i argv s = ([RErr IndexOutOfRange], s)"
      using range by (cases ?dst) (auto simp: moveCommand_def Let_def g)
    then show ?thesis
      by (rule stop) (use range in \<open>auto simp: spec_move_def\<close>)
  next
    case same
    then show ?thesis
      by (intro stop [of "RErr SameObject" s]) (simp_all add: moveCommand_def Let_def g spec_move_def)
  next
    case move
    let ?t = "nat ix"
    have sp: "?sp = (if view s ?d ?k = None \<or> view s ?t ?k \<noteq> None then ([RInt 0], view s)
        else ([RInt 1], upd_view (upd_view (view s) ?t ?k (view s ?d ?k)) ?d ?k None))"
      using move by (simp add: spec_move_def)
    obtain v t where l: "lookupKeyWrite ?d ?k s = (v, t)" by fastforce
    note lu = lookupKeyWrite_ok [OF assms(1) l]
    note f = found [OF lu]
    show ?thesis
    proof (cases v)
      case None
      then have "moveCommand i argv s = ([RInt 0], t)" using move by (simp add: moveCommand_def Let_def g k l)
      then show ?thesis by (rule stop [OF _ f(1)]) (use f(6) [OF None] sp in simp)
    next
      case (Some x)
      note vw = looked_up_view(3,4,5) [OF lu Some]
      let ?e = "exp_of t ?d ?k"
      define e where "e = (case ?e of None \<Rightarrow> -1 | Some w \<Rightarrow> w)"
      obtain old u where l2: "lookupKeyWrite ?t ?k t = (old, u)" by fastforce
      note lu2 = lookupKeyWrite_ok [OF f(2) l2]
      note f2 = found [OF lu2]
      have old: "old = None \<longleftrightarrow> view s ?t ?k = None" using looked_up_view(2) [OF lu2] f(3) by simp
      have cu: "changes {} s u" by (rule changes_step [OF f(1) f2(1) order_refl])
      show ?thesis
      proof (cases "old = None")
        case False
        then have "moveCommand i argv s = ([RInt 0], u)"
          using move by (simp add: moveCommand_def Let_def g k l Some getExpire_eq [OF f(2)] l2)
        then show ?thesis by (rule stop [OF _ cu]) (use False old sp in simp)
      next
        case True
        let ?u2 = "store_at ?t ?k (incr_val x) e u"
        let ?u3 = "snd (dbDelete ?d ?k ?u2)"
        have o: "moveCommand i argv s = ([RInt 1], add_dirty 1 ?u3)"
          using move True
          by (simp add: moveCommand_def Let_def g k l Some getExpire_eq [OF f(2)] l2 e_def store_at_def)
        have st0: "stored u ?t ?k = None" using f2(6) [OF True] by simp
        have vok: "val_ok (incr_val x)" using vw(2) by simp
        note st = store_at_ok [OF vok st0 no_exp [OF f2(2) st0], of e]
        let ?K = "{(?d, ?k), (?t, ?k)}"
        have c2: "changes {(?t, ?k)} s ?u2" by (rule changes_then [OF cu st(1)]) simp_all
        have c3: "changes ?K s ?u3" by (rule changes_then [OF c2 changes_dbDelete]) simp_all
        have call: "changes ?K s (add_dirty 1 ?u3)" by (rule changes_step [OF c3 changes_add_dirty order_refl])
        show ?thesis
        proof (rule deliversI [OF o call])
          assume sane
          have "kept s t ?d ?k" using f(1) by (simp add: changes_def)
          then have "?e \<noteq> Some (-1)" using assms(3) [OF \<open>sane\<close>] by (auto simp: kept_def)
          then have ee: "(if e \<noteq> -1 then Some e else None) = ?e" by (auto simp: e_def split: option.splits)
          have live: "live_exp s ?e" by (rule live_view_exp [OF vw(1)])
          have "kept ?u2 ?u3 ?t ?k" using changes_dbDelete [of ?d ?k ?u2] move(6) by (auto simp: changes_def)
          moreover have "\<not> expired ?u2 ?t ?k"
            using live live_exp_changes [OF c2] st(3) ee live_exp_iff [of ?u2 ?t ?k] by simp
          ultimately have s2: "stored (add_dirty 1 ?u3) ?t ?k = Some (val_of x)" "exp_of (add_dirty 1 ?u3) ?t ?k = ?e"
            using st(2,3) ee by (auto simp: kept_def)
          have "view (add_dirty 1 ?u3) = upd_view (upd_view (view s) ?t ?k (Some (val_of x, ?e))) ?d ?k None"
            by (rule view_two [OF call _ _ s2 live]) (use move(6) in simp_all)
          then show "[RInt 1] = fst ?sp \<and> view (add_dirty 1 ?u3) = snd ?sp"
            using sp vw(1) True old by simp
        qed
      qed
    qed
  qed
qed

lemma rewrite_simps [simp]:
  "dbs (rewriteClientCommandVector c a s) = dbs s" "clients (rewriteClientCommandVector c a s) = clients s"
  "env_of (rewriteClientCommandVector c a s) = env_of s" "shared (rewriteClientCommandVector c a s) = shared s"
  "failed (rewriteClientCommandVector c a s) = failed s"
  by (simp_all add: rewriteClientCommandVector_def env_of_def)

lemma changes_rewrite: "changes K s (rewriteClientCommandVector c a s)"
  by (rule same_core_changes) (simp add: same_core_def)

lemma expireGenericCommand_ok:
  assumes "db_inv s" "args_ok argv 3"
    "sane \<Longrightarrow> lua_time s = None \<and>
       (\<forall>w. expire_at base secs (obj_val (argv ! 2)) = Some w \<longrightarrow> - (2 ^ 63) \<le> w \<and> w < 2 ^ 63) \<and>
       (secs \<longrightarrow> (\<forall>n. int_of (obj_val (argv ! 2)) = Some n \<longrightarrow> in_srange 8 (n * 1000)))"
  shows "meets s (expireGenericCommand i base secs argv s) sane
    (spec_expire (mstime s) (\<not> loading s \<and> \<not> masterhost s) (cur_db i s) (obj_val (argv ! 1))
       (expire_at base secs (obj_val (argv ! 2))) (view s))"
proof -
  let ?d = "cur_db i s" and ?k = "obj_val (argv ! 1)" and ?b = "obj_val (argv ! 2)"
  let ?act = "\<not> loading s \<and> \<not> masterhost s"
  have a: "arg_ok (argv ! 1)" "obj_ok (argv ! 2)" using args_nth [OF assms(2)] by simp_all
  note k = arg_key [OF a(1)] and g = int_of_ok [OF a(2)]
  show ?thesis
  proof (cases "int_of ?b")
    case None
    then show ?thesis
      by (intro meets_read [of _ "[RErr NotInteger]" s])
        (simp_all add: expireGenericCommand_def Let_def g spec_expire_def expire_at_def)
  next
    case n: (Some n)
    define w where "w = wrap_s64 ((if secs then wrap_s64 (n * 1000) else n) + base)"
    have w: "expire_at base secs ?b = Some w \<and> lua_time s = None" if sane
    proof -
      have e: "expire_at base secs ?b = Some ((if secs then n * 1000 else n) + base)" by (simp add: expire_at_def n)
      then have "in_srange 8 ((if secs then n * 1000 else n) + base)" using assms(3) [OF that] by (simp add: in_srange_def)
      moreover have "(if secs then wrap_s64 (n * 1000) else n) = (if secs then n * 1000 else n)"
        using assms(3) [OF that] n by (simp add: wrap_s64_id)
      ultimately show ?thesis using e assms(3) [OF that] unfolding w_def by (simp only: wrap_s64_id)
    qed
    obtain v t where l: "lookupKeyRead ?d ?k s = (v, t)" by fastforce
    note lu = lookupKeyRead_ok [OF assms(1) l]
    note f = found [OF lu]
    note e = env_fields [OF changes_env [OF f(1)]]
    show ?thesis
    proof (cases v)
      case None
      then have "expireGenericCommand i base secs argv s = ([RInt 0], t)"
        by (simp add: expireGenericCommand_def Let_def g n k l)
      then show ?thesis
        by (intro meetsI [OF _ safe_none [OF f(1)]]) (use f(3) f(6) [OF None] w in \<open>auto simp: spec_expire_def\<close>)
    next
      case (Some x)
      note vw = looked_up_view(3,4,5) [OF lu Some]
      have st: "stored t ?d ?k \<noteq> None" using vw(3) by simp
      show ?thesis
      proof (cases "w \<le> mstime s \<and> ?act")
        case True
        obtain b u where de: "dbDelete ?d ?k t = (b, u)" by fastforce
        have b: b "u = snd (dbDelete ?d ?k t)" using de st dbDelete_entry(3) [of ?d ?k t] by simp_all
        let ?r = "rewriteClientCommandVector (Key CmdDel) [createStringObject (Some (map of_char ''DEL'')) 3, argv ! 1]"
        let ?w = "signalModifiedKey ?d ?k (?r (add_dirty 1 u))"
        let ?s' = "notifyKeyspaceEvent ''del'' ?k ?d ?w"
        have o: "expireGenericCommand i base secs argv s = ([RInt 1], ?s')"
          using True Some by (simp add: expireGenericCommand_def Let_def g n k l w_def [symmetric] e de b(1))
        have c1: "changes {(?d, ?k)} s u" unfolding b(2) by (rule changes_then [OF f(1) changes_dbDelete]) simp_all
        have c: "changes {(?d, ?k)} s ?w"
          by (rule changes_step [OF changes_step [OF changes_step [OF c1 changes_add_dirty order_refl]
                changes_rewrite order_refl] touch_changes order_refl])
        have s1: "stored ?s' ?d ?k = None" unfolding b(2) by (simp add: stored_def dbDelete_eq deleted_db_def)
        have cs: "changes {(?d, ?k)} s ?s'" by (rule changes_step [OF c changes_notify order_refl])
        show ?thesis
          by (rule meetsI [OF o safe_one_then [OF c changes_notify signal_all_dirty]])
            (use view_gone [OF cs s1] True vw(1) w in \<open>auto simp: spec_expire_def\<close>)
      next
        case False
        let ?u = "setExpire ?d ?k w t"
        let ?w = "signalModifiedKey ?d ?k ?u"
        let ?s' = "add_dirty 1 (notifyKeyspaceEvent ''expire'' ?k ?d ?w)"
        note x = setExpire_ok [OF st, of w]
        have o: "expireGenericCommand i base secs argv s = ([RInt 1], ?s')"
          using False Some by (auto simp: expireGenericCommand_def Let_def g n k l w_def [symmetric] e)
        have c1: "changes {(?d, ?k)} s ?u" by (rule changes_then [OF f(1) x(1)]) simp_all
        have c: "changes {(?d, ?k)} s ?w" by (rule changes_step [OF c1 touch_changes order_refl])
        have cf: "changes {(?d, ?k)} ?w ?s'" by (rule changes_step [OF changes_notify changes_add_dirty order_refl])
        have cs: "changes {(?d, ?k)} s ?s'" by (rule changes_step [OF c cf order_refl])
        show ?thesis
        proof (rule meetsI [OF o safe_one_then [OF c cf signal_all_dirty]])
          assume sane
          then have live: "live_exp s (Some w)"
            using w False by (auto simp: live_exp_def past_def now_of_mstime)
          have "view ?s' = upd_view (view s) ?d ?k (Some (val_of x, Some w))"
            by (rule view_one [OF cs _ _ live]) (simp_all add: x(2,3) vw(3))
          then show "[RInt 1] = fst (spec_expire (mstime s) ?act ?d ?k (expire_at base secs ?b) (view s)) \<and>
              view ?s' = snd (spec_expire (mstime s) ?act ?d ?k (expire_at base secs ?b) (view s))"
            using w \<open>sane\<close> vw(1) False by (auto simp: spec_expire_def)
        qed
      qed
    qed
  qed
qed

subsection \<open>Flushing and selecting\<close>

definition flushed :: "(nat \<Rightarrow> bool) \<Rightarrow> 'o srv \<Rightarrow> 'o srv" where
  "flushed D s = s\<lparr>dbs := (\<lambda>d. if D d then empty_db (dbs s d) else dbs s d)\<rparr>"

lemma flushed_ok:
  assumes "db_inv s" "watch_inv s" "s' = flushed D (signalFlushedDb dbid s)"
    "\<And>d. D d \<Longrightarrow> dbid = None \<or> dbid = Some d"
  shows "safe s s'" "view s' = (\<lambda>d. if D d then (\<lambda>k. None) else view s d)"
proof -
  let ?t = "signalFlushedDb dbid s"
  let ?K = "{(d, k). D d \<and> stored s d k \<noteq> None}"
  have t: "dbs ?t = dbs s" "changes {} s ?t"
    by (simp_all add: signalFlushedDb_def touchWatchedKeysOnFlush_def flag_dirty_changes)
  have db: "dbs s' d = (if D d then empty_db (dbs s d) else dbs s d)" for d
    by (simp add: assms(3) flushed_def t(1))
  have st: "stored s' d k = (if D d then None else stored s d k)" "exp_of s' d k = (if D d then None else exp_of s d k)" for d k
    by (simp_all add: stored_def exp_of_def db empty_db_def)
  have cl: "clients s' = clients ?t" "env_of s' = env_of ?t" "failed s' = failed ?t" "shared s' = shared ?t"
    by (simp_all add: assms(3) flushed_def env_of_def)
  have wt: "watchers (dbs s' d) = watchers (dbs s d)" for d by (simp add: db empty_db_def)
  have inv: "db_inv s'"
    using assms(1) changes_inv [OF t(2)] cl(4) by (auto simp: db_inv_def db exp_of_def empty_db_def)
  have c: "changes ?K s s'"
    unfolding changes_def
  proof (intro conjI allI impI)
    show "env_of s' = env_of s" "failed s' = failed s"
      using cl changes_env [OF t(2)] changes_failed [OF t(2)] by simp_all
    show "same_watch s s'" using t(2) cl(1) wt by (simp add: changes_def same_watch_def)
    show "db_inv s'" by (rule inv)
    fix d k
    assume n: "(d, k) \<notin> ?K"
    show "kept s s' d k"
      using n no_exp [OF assms(1), of d k] by (auto simp: kept_def st)
  qed
  have "all_dirty s' d k" if "(d, k) \<in> ?K" for d k
    unfolding all_dirty_def
  proof (intro allI impI)
    fix cls i c
    assume w: "fmlookup (watchers (dbs s' d)) k = Some cls" "i \<in> set cls" "clients s' i = Some c"
    then obtain c0 where c0: "clients s i = Some c0" "(d, k) \<in> set (watched_keys c0)"
      using watch_invD(3) [OF assms(2), of d k cls i] by (auto simp: wt)
    have ex: "\<exists>(d, key) \<in> set (watched_keys c0).
        (dbid = None \<or> dbid = Some d) \<and> fmlookup (kdict (dbs s d)) key \<noteq> None"
      using that c0(2) assms(4) [of d] by (intro bexI [of _ "(d, k)"]) (auto simp: stored_def)
    then have "clients ?t i = Some (c0\<lparr>dirty_cas := True\<rparr>)"
      unfolding signalFlushedDb_def touchWatchedKeysOnFlush_def flag_dirty_def using c0(1) by simp
    with w(3) cl(1) show "dirty_cas c" by auto
  qed
  with c show "safe s s'" unfolding safe_def by (intro exI [of _ ?K]) blast
  show "view s' = (\<lambda>d. if D d then (\<lambda>k. None) else view s d)"
  proof (intro ext)
    fix d k
    show "view s' d k = (if D d then (\<lambda>k. None) else view s d) k"
    proof (cases "D d")
      case True
      then show ?thesis by (simp add: view_def st)
    next
      case False
      then show ?thesis using changes_view [OF c, of d k] by simp
    qed
  qed
qed

lemma flushdbCommand_ok:
  assumes "db_inv s" "watch_inv s"
  shows "meets s (flushdbCommand i argv s) sane (spec CmdFlushdb now act cf (cur_db i s) a (view s))"
proof -
  let ?d = "cur_db i s" and ?n = "int (dictSizeOf (kdict (dbs s (cur_db i s))))"
  let ?t = "add_dirty ?n s"
  have dbs: "dbs (signalFlushedDb x u) = dbs u" for x u by (simp add: signalFlushedDb_def touchWatchedKeysOnFlush_def)
  have o: "flushdbCommand i argv s = ([ROk], flushed (\<lambda>d. d = ?d) (signalFlushedDb (Some ?d) ?t))"
    by (simp add: flushdbCommand_def Let_def flushed_def set_db_def fun_upd_def dbs cong: if_cong)
  have inv: "db_inv ?t" "watch_inv ?t"
    using changes_inv [OF changes_add_dirty assms(1)] changes_watch_inv [OF changes_add_dirty assms(2)] by blast+
  note f = flushed_ok [OF inv refl, of "\<lambda>d. d = ?d" "Some ?d"]
  have v: "view ?t = view s" by (rule changes_view_none [OF changes_add_dirty])
  have "safe s (flushed (\<lambda>d. d = ?d) (signalFlushedDb (Some ?d) ?t))"
    by (rule safe_after [OF changes_add_dirty f(1)]) simp
  then show ?thesis
    by (rule meetsI [OF o]) (simp add: f(2) v fun_upd_def cong: if_cong)
qed

lemma flushallCommand_ok:
  assumes "db_inv s" "watch_inv s"
  shows "meets s (flushallCommand i argv s) sane (spec CmdFlushall now act (conf s) d a (view s))"
proof -
  let ?t = "signalFlushedDb None s"
  let ?D = "\<lambda>d. d < dbnum (conf s)"
  have c: "conf ?t = conf s" by (simp add: signalFlushedDb_def touchWatchedKeysOnFlush_def flag_dirty_def)
  obtain n where o: "flushallCommand i argv s = ([ROk], add_dirty 1 (add_dirty n (flushed ?D ?t)))"
    by (simp add: flushallCommand_def emptyDb_def flushed_def c)
  note f = flushed_ok [OF assms refl, of ?D None]
  have ch: "changes {} (flushed ?D ?t) (add_dirty 1 (add_dirty n (flushed ?D ?t)))"
    by (rule changes_step [OF changes_add_dirty changes_add_dirty order_refl])
  have "safe s (add_dirty 1 (add_dirty n (flushed ?D ?t)))"
    by (rule safe_trans [OF f(1) safe_none [OF ch]]) simp
  then show ?thesis
    by (rule meetsI [OF o]) (use f(2) changes_view_none [OF ch] in simp)
qed

text \<open>\<open>SELECT\<close> changes the client and nothing else. An index of more than 32 bits is cut.\<close>

lemma selectCommand_ok:
  assumes "args_ok argv 2" "clients s i = Some c" "selectCommand i argv s = (r, s')"
  shows "same_data s s'" "\<exists>d. clients s' = (clients s)(i := Some (c\<lparr>cdb := d\<rparr>)) \<and> (d = cdb c \<or> d < dbnum (conf s))"
    "dbs s' = dbs s"
    "(\<forall>n. int_of (obj_val (argv ! 1)) = Some n \<longrightarrow> - (2 ^ 31) \<le> n \<and> n < 2 ^ 31) \<Longrightarrow>
       (r, view s') = spec CmdSelect now act (conf s) d0 (map obj_val argv) (view s)"
proof -
  have a: "obj_ok (argv ! 1)" using args_nth [OF assms(1)] by simp
  note g = int_of_ok [OF a]
  have m: "map obj_val argv ! 1 = obj_val (argv ! 1)" by (rule args_map [OF assms(1)]) simp
  have "same_data s s' \<and> (\<exists>d. clients s' = (clients s)(i := Some (c\<lparr>cdb := d\<rparr>)) \<and> (d = cdb c \<or> d < dbnum (conf s))) \<and>
    dbs s' = dbs s \<and> ((\<forall>n. int_of (obj_val (argv ! 1)) = Some n \<longrightarrow> - (2 ^ 31) \<le> n \<and> n < 2 ^ 31) \<longrightarrow>
       r = fst (spec CmdSelect now act (conf s) d0 (map obj_val argv) (view s)))"
  proof (cases "int_of (obj_val (argv ! 1))")
    case None
    then show ?thesis using assms(2,3) by (auto simp: selectCommand_def g m intro!: exI [of _ "cdb c"])
  next
    case (Some n)
    define ix where "ix = sext 4 (n mod 2 ^ 32)"
    have ix: "ix = n" if "- (2 ^ 31) \<le> n" "n < 2 ^ 31"
      using le_sint_le_bytes [of 4 n] that unfolding ix_def
      by (simp add: in_srange_def le_sint_def le_uint_le_bytes)
    show ?thesis
    proof (cases "cluster_enabled (conf s) \<and> n \<noteq> 0")
      case True
      then show ?thesis using assms(2,3) Some by (auto simp: selectCommand_def g m intro!: exI [of _ "cdb c"])
    next
      case False
      have p: "selectCommand i argv s =
          (if ix < 0 \<or> ix \<ge> int (dbnum (conf s)) then ([RErr InvalidDb], s)
           else ([ROk], set_client i (c\<lparr>cdb := nat ix\<rparr>) s))"
        unfolding selectCommand_def g Some ix_def [symmetric] selectDb_def option.case assms(2) if_distrib [of "case_prod _"] prod.case bool.case using False by auto
      have sp: "fst (spec CmdSelect now act (conf s) d0 (map obj_val argv) (view s)) =
          [if 0 \<le> n \<and> n < int (dbnum (conf s)) then ROk else RErr InvalidDb]"
        unfolding spec.simps m Some using False by auto
      show ?thesis
      proof (cases "ix < 0 \<or> ix \<ge> int (dbnum (conf s))")
        case True
        then have q: "r = [RErr InvalidDb]" "s' = s" using assms(3) p by auto
        show ?thesis unfolding sp q using assms(2) True Some ix by (auto simp: fun_upd_idem intro!: exI [of _ "cdb c"])
      next
        case f: False
        then have q: "r = [ROk]" "s' = set_client i (c\<lparr>cdb := nat ix\<rparr>) s" using assms(3) p by auto
        show ?thesis unfolding sp q using f Some ix by (auto intro!: exI [of _ "nat ix"])
      qed
    qed
  qed
  then show "same_data s s'" "\<exists>d. clients s' = (clients s)(i := Some (c\<lparr>cdb := d\<rparr>)) \<and> (d = cdb c \<or> d < dbnum (conf s))"
    "dbs s' = dbs s"
    "(\<forall>n. int_of (obj_val (argv ! 1)) = Some n \<longrightarrow> - (2 ^ 31) \<le> n \<and> n < 2 ^ 31) \<Longrightarrow>
       (r, view s') = spec CmdSelect now act (conf s) d0 (map obj_val argv) (view s)"
    using same_data_view [of s s'] by (auto simp: prod_eq_iff)
qed

end
