(* ===== verification/Refinement.thy ===== *)
theory Refinement
  imports CommandSpec
begin

text \<open>
  All commands on keys together: each keeps the invariants of the server, fails no assertion,
  and, where no number overflows, does what the abstract store of CommandSpec says.
\<close>

text \<open>A command as \<open>processCommand\<close> lets it through: arguments of the parser and a number of them
  that the command table allows. The sum of offset and length of a \<open>SETRANGE\<close> must be in the range
  of 64 bits, else the check of the length is passed by wrap around.\<close>

definition setrange_fits :: "robj list \<Rightarrow> bool" where
  "setrange_fits argv \<longleftrightarrow>
     (case int_of (obj_val (argv ! 2)) of
        None \<Rightarrow> True
      | Some off \<Rightarrow> off + int (length (obj_val (argv ! 3))) < 2 ^ 63)"

definition call_ok :: "kcmd \<Rightarrow> robj list \<Rightarrow> bool" where
  "call_ok k argv \<longleftrightarrow> list_all arg_ok argv \<and>
     list_ex (\<lambda>(name, c, a, f, n). c = Key k \<and> arity_ok a (length argv)) redisCommandTable \<and>
     (k = CmdSetrange \<longrightarrow> setrange_fits argv)"

text \<open>The numbers of a command do not overflow: the times of expiry and the index of \<open>SELECT\<close>. For
  \<open>PERSIST\<close> and \<open>RENAME\<close>, \<open>MOVE\<close> see the findings.\<close>

definition expire_fits :: "int \<Rightarrow> bool \<Rightarrow> bytes \<Rightarrow> bool" where
  "expire_fits base secs b \<longleftrightarrow>
     (case int_of b of
        None \<Rightarrow> True
      | Some n \<Rightarrow> in_srange 8 (if secs then n * 1000 else n) \<and> in_srange 8 ((if secs then n * 1000 else n) + base))"

definition ttl_fits :: "int \<Rightarrow> int option \<Rightarrow> bool" where
  "ttl_fits now e \<longleftrightarrow> 500 \<le> now \<and> now < 2 ^ 63 \<and> (case e of None \<Rightarrow> True | Some w \<Rightarrow> 0 \<le> w \<and> w < 2 ^ 63)"

fun fits :: "kcmd \<Rightarrow> nat \<Rightarrow> robj list \<Rightarrow> 'o srv \<Rightarrow> bool" where
  "fits CmdSet d argv s \<longleftrightarrow> lua_time s = None \<and>
     (case spec_options (drop 3 (map obj_val argv)) False False None True of
        None \<Rightarrow> True
      | Some (nx, xx, e, secs) \<Rightarrow> ms_fits (mstime s) (spec_ms e secs))"
| "fits CmdSetnx d argv s \<longleftrightarrow> lua_time s = None"
| "fits CmdSetex d argv s \<longleftrightarrow> lua_time s = None \<and> ms_fits (mstime s) (spec_ms (Some (obj_val (argv ! 2))) True)"
| "fits CmdPsetex d argv s \<longleftrightarrow> lua_time s = None \<and> ms_fits (mstime s) (spec_ms (Some (obj_val (argv ! 2))) False)"
| "fits CmdDecrby d argv s \<longleftrightarrow> int_of (obj_val (argv ! 2)) \<noteq> Some (- (2 ^ 63))"
| "fits CmdSelect d argv s \<longleftrightarrow>
     (case int_of (obj_val (argv ! 1)) of None \<Rightarrow> True | Some n \<Rightarrow> - (2 ^ 31) \<le> n \<and> n < 2 ^ 31)"
| "fits CmdRename d argv s \<longleftrightarrow> exp_of s d (obj_val (argv ! 1)) \<noteq> Some (- 1)"
| "fits CmdRenamenx d argv s \<longleftrightarrow> exp_of s d (obj_val (argv ! 1)) \<noteq> Some (- 1)"
| "fits CmdMove d argv s \<longleftrightarrow> exp_of s d (obj_val (argv ! 1)) \<noteq> Some (- 1)"
| "fits CmdExpire d argv s \<longleftrightarrow> lua_time s = None \<and> expire_fits (mstime s) True (obj_val (argv ! 2))"
| "fits CmdExpireat d argv s \<longleftrightarrow> lua_time s = None \<and> expire_fits 0 True (obj_val (argv ! 2))"
| "fits CmdPexpire d argv s \<longleftrightarrow> lua_time s = None \<and> expire_fits (mstime s) False (obj_val (argv ! 2))"
| "fits CmdPexpireat d argv s \<longleftrightarrow> lua_time s = None \<and> expire_fits 0 False (obj_val (argv ! 2))"
| "fits CmdTtl d argv s \<longleftrightarrow> ttl_fits (mstime s) (exp_of s d (obj_val (argv ! 1)))"
| "fits CmdPttl d argv s \<longleftrightarrow> ttl_fits (mstime s) (exp_of s d (obj_val (argv ! 1)))"
| "fits CmdPersist d argv s \<longleftrightarrow> \<not> expired s d (obj_val (argv ! 1))"
| "fits _ d argv s \<longleftrightarrow> True"

lemma call_ok_args:
  assumes "call_ok k argv"
  shows "args_ok argv (case k of CmdGet \<Rightarrow> 2 | CmdSet \<Rightarrow> 3 | CmdSetnx \<Rightarrow> 3 | CmdSetex \<Rightarrow> 4 | CmdPsetex \<Rightarrow> 4
      | CmdGetset \<Rightarrow> 3 | CmdSetrange \<Rightarrow> 4 | CmdGetrange \<Rightarrow> 4 | CmdAppend \<Rightarrow> 3 | CmdStrlen \<Rightarrow> 2 | CmdMget \<Rightarrow> 2
      | CmdMset \<Rightarrow> 3 | CmdMsetnx \<Rightarrow> 3 | CmdIncr \<Rightarrow> 2 | CmdDecr \<Rightarrow> 2 | CmdIncrby \<Rightarrow> 3 | CmdDecrby \<Rightarrow> 3
      | CmdDel \<Rightarrow> 2 | CmdExists \<Rightarrow> 2 | CmdSelect \<Rightarrow> 2 | CmdRename \<Rightarrow> 3 | CmdRenamenx \<Rightarrow> 3 | CmdMove \<Rightarrow> 3
      | CmdExpire \<Rightarrow> 3 | CmdExpireat \<Rightarrow> 3 | CmdPexpire \<Rightarrow> 3 | CmdPexpireat \<Rightarrow> 3 | CmdTtl \<Rightarrow> 2 | CmdPttl \<Rightarrow> 2
      | CmdPersist \<Rightarrow> 2 | CmdFlushdb \<Rightarrow> 1 | CmdFlushall \<Rightarrow> 1)"
  using assms unfolding call_ok_def args_ok_def redisCommandTable_def arity_ok_def
  by (cases k) (auto simp: list_all_iff)

text \<open>The commands that flag the watchers of what they change: all but \<open>MOVE\<close> and \<open>SELECT\<close>, which
  changes no key.\<close>

lemma data_proc_meets:
  assumes "db_inv s" "watch_inv s" "call_ok k argv" "k \<noteq> CmdMove" "k \<noteq> CmdSelect"
  shows "meets s (data_proc k i argv s) (fits k (cur_db i s) argv s)
    (spec k (mstime s) (\<not> loading s \<and> \<not> masterhost s) (conf s) (cur_db i s) (map obj_val argv) (view s))"
proof (cases k)
  case CmdGet
  note k = this and a = call_ok_args [OF assms(3)]
  show ?thesis unfolding k data_proc.simps
    by (rule getCommand_ok [OF assms(1)]) (use a k in simp)
next
  case CmdSet
  note k = this and a = call_ok_args [OF assms(3)]
  show ?thesis unfolding k data_proc.simps
    by (rule setCommand_ok [OF assms(1)]) (use a k in \<open>auto split: option.splits\<close>)
next
  case CmdSetnx
  note k = this and a = call_ok_args [OF assms(3)]
  show ?thesis unfolding k data_proc.simps
    by (rule setnxCommand_ok [OF assms(1)]) (use a k in auto)
next
  case CmdSetex
  note k = this and a = call_ok_args [OF assms(3)]
  show ?thesis unfolding k data_proc.simps
    by (rule setexCommand_ok [OF assms(1)]) (use a k in auto)
next
  case CmdPsetex
  note k = this and a = call_ok_args [OF assms(3)]
  show ?thesis unfolding k data_proc.simps
    by (rule psetexCommand_ok [OF assms(1)]) (use a k in auto)
next
  case CmdGetset
  note k = this and a = call_ok_args [OF assms(3)]
  show ?thesis unfolding k data_proc.simps
    by (rule getsetCommand_ok [OF assms(1)]) (use a k in simp)
next
  case CmdSetrange
  note k = this and a = call_ok_args [OF assms(3)]
  show ?thesis unfolding k data_proc.simps
    by (rule setrangeCommand_ok [OF assms(1)]) (use a k assms(3) in \<open>auto simp: call_ok_def setrange_fits_def\<close>)
next
  case CmdGetrange
  note k = this and a = call_ok_args [OF assms(3)]
  show ?thesis unfolding k data_proc.simps
    by (rule getrangeCommand_ok [OF assms(1)]) (use a k in simp)
next
  case CmdAppend
  note k = this and a = call_ok_args [OF assms(3)]
  show ?thesis unfolding k data_proc.simps
    by (rule appendCommand_ok [OF assms(1)]) (use a k in simp)
next
  case CmdStrlen
  note k = this and a = call_ok_args [OF assms(3)]
  show ?thesis unfolding k data_proc.simps
    by (rule strlenCommand_ok [OF assms(1)]) (use a k in simp)
next
  case CmdMget
  note k = this and a = call_ok_args [OF assms(3)]
  show ?thesis unfolding k data_proc.simps
    by (rule mgetCommand_ok [OF assms(1)]) (use a k in simp)
next
  case CmdMset
  note k = this and a = call_ok_args [OF assms(3)]
  show ?thesis unfolding k data_proc.simps
    by (rule msetGenericCommand_ok [of s argv i False, OF assms(1), unfolded if_False if_True]) (use a k in simp)
next
  case CmdMsetnx
  note k = this and a = call_ok_args [OF assms(3)]
  show ?thesis unfolding k data_proc.simps
    by (rule msetGenericCommand_ok [of s argv i True, OF assms(1), unfolded if_False if_True]) (use a k in simp)
next
  case CmdIncr
  note k = this and a = call_ok_args [OF assms(3)]
  show ?thesis unfolding k data_proc.simps
    using incrDecrCommand_ok [OF assms(1), of argv "1" i] a k
    by (simp add: args_nth [of argv 2 1] in_srange_def)
next
  case CmdDecr
  note k = this and a = call_ok_args [OF assms(3)]
  show ?thesis unfolding k data_proc.simps
    using incrDecrCommand_ok [OF assms(1), of argv "-1" i] a k
    by (simp add: args_nth [of argv 2 1] in_srange_def)
next
  case CmdIncrby
  note k = this and a = call_ok_args [OF assms(3)]
  show ?thesis unfolding k data_proc.simps
    by (rule incrbyCommand_ok [OF assms(1)]) (use a k in simp)
next
  case CmdDecrby
  note k = this and a = call_ok_args [OF assms(3)]
  show ?thesis unfolding k data_proc.simps
    by (rule decrbyCommand_ok [OF assms(1)]) (use a k in auto)
next
  case CmdDel
  note k = this and a = call_ok_args [OF assms(3)]
  show ?thesis unfolding k data_proc.simps
    by (rule delCommand_ok [OF assms(1)]) (use a k in simp)
next
  case CmdExists
  note k = this and a = call_ok_args [OF assms(3)]
  show ?thesis unfolding k data_proc.simps
    by (rule existsCommand_ok [OF assms(1)]) (use a k in simp)
next
  case CmdRename
  note k = this and a = call_ok_args [OF assms(3)]
  show ?thesis unfolding k data_proc.simps
    unfolding spec.simps args_map [OF a [unfolded k kcmd.case], of 1, simplified] args_map [OF a [unfolded k kcmd.case], of 2, simplified]
    by (rule renameGenericCommand_ok [OF assms(1)]) (use a k in auto)
next
  case CmdRenamenx
  note k = this and a = call_ok_args [OF assms(3)]
  show ?thesis unfolding k data_proc.simps
    unfolding spec.simps args_map [OF a [unfolded k kcmd.case], of 1, simplified] args_map [OF a [unfolded k kcmd.case], of 2, simplified]
    by (rule renameGenericCommand_ok [OF assms(1)]) (use a k in auto)
next
  case CmdExpire
  note k = this and a = call_ok_args [OF assms(3)]
  show ?thesis unfolding k data_proc.simps
    unfolding spec.simps args_map [OF a [unfolded k kcmd.case], of 1, simplified] args_map [OF a [unfolded k kcmd.case], of 2, simplified]
    by (rule expireGenericCommand_ok [OF assms(1)]) (use a k in \<open>auto simp: expire_fits_def expire_at_def in_srange_def split: option.splits\<close>)
next
  case CmdExpireat
  note k = this and a = call_ok_args [OF assms(3)]
  show ?thesis unfolding k data_proc.simps
    unfolding spec.simps args_map [OF a [unfolded k kcmd.case], of 1, simplified] args_map [OF a [unfolded k kcmd.case], of 2, simplified]
    by (rule expireGenericCommand_ok [OF assms(1)]) (use a k in \<open>auto simp: expire_fits_def expire_at_def in_srange_def split: option.splits\<close>)
next
  case CmdPexpire
  note k = this and a = call_ok_args [OF assms(3)]
  show ?thesis unfolding k data_proc.simps
    unfolding spec.simps args_map [OF a [unfolded k kcmd.case], of 1, simplified] args_map [OF a [unfolded k kcmd.case], of 2, simplified]
    by (rule expireGenericCommand_ok [OF assms(1)]) (use a k in \<open>auto simp: expire_fits_def expire_at_def in_srange_def split: option.splits\<close>)
next
  case CmdPexpireat
  note k = this and a = call_ok_args [OF assms(3)]
  show ?thesis unfolding k data_proc.simps
    unfolding spec.simps args_map [OF a [unfolded k kcmd.case], of 1, simplified] args_map [OF a [unfolded k kcmd.case], of 2, simplified]
    by (rule expireGenericCommand_ok [OF assms(1)]) (use a k in \<open>auto simp: expire_fits_def expire_at_def in_srange_def split: option.splits\<close>)
next
  case CmdTtl
  note k = this and a = call_ok_args [OF assms(3)]
  show ?thesis unfolding k data_proc.simps
    unfolding spec.simps args_map [OF a [unfolded k kcmd.case], of 1, simplified]
    by (rule ttlGenericCommand_ok [OF assms(1)]) (use a k in \<open>auto simp: ttl_fits_def\<close>)
next
  case CmdPttl
  note k = this and a = call_ok_args [OF assms(3)]
  show ?thesis unfolding k data_proc.simps
    unfolding spec.simps args_map [OF a [unfolded k kcmd.case], of 1, simplified]
    by (rule ttlGenericCommand_ok [OF assms(1)]) (use a k in \<open>auto simp: ttl_fits_def\<close>)
next
  case CmdPersist
  note k = this and a = call_ok_args [OF assms(3)]
  show ?thesis unfolding k data_proc.simps
    by (rule persistCommand_ok [OF assms(1)]) (use a k in auto)
next
  case CmdFlushdb
  note k = this and a = call_ok_args [OF assms(3)]
  show ?thesis unfolding k data_proc.simps
    by (rule flushdbCommand_ok [OF assms(1,2)])
next
  case CmdFlushall
  note k = this and a = call_ok_args [OF assms(3)]
  show ?thesis unfolding k data_proc.simps
    by (rule flushallCommand_ok [OF assms(1,2)])
qed (use assms in simp_all)

end
