(* ===== verification/Multi.thy ===== *)
theory Multi
  imports Refinement
begin

text \<open>
  Transactions: \<open>src/src/src/multi.c\<close>, and the execution of commands of \<open>src/src/src/redis.c\<close>
  (\<open>lookupCommand\<close>, \<open>propagate\<close>, \<open>call\<close>, \<open>processCommand\<close>). The clients, the passing of time and
  the expiry of keys in the background are the steps of a relation, and the last part shows what
  \<open>WATCH\<close>, \<open>MULTI\<close> and \<open>EXEC\<close> promise. Not modelled of \<open>call\<close>: monitors, the slow log, the
  latency samples and the statistics, which no command reads.
\<close>

subsection \<open>Execution of a command\<close>

text \<open>Both flags of \<open>propagate\<close> are set for the commands here, so there is one log. \<open>call\<close> runs a
  command and propagates it, or what it was rewritten to, if it changed the data.\<close>

definition propagate :: "cmd \<Rightarrow> nat \<Rightarrow> robj list \<Rightarrow> 'o srv \<Rightarrow> 'o srv" where
  "propagate c d argv s = s\<lparr>prop_log := prop_log s @ [(d, OpCmd c argv)]\<rparr>"

definition call ::
  "(cmd \<Rightarrow> nat \<Rightarrow> robj list \<Rightarrow> 'o srv \<Rightarrow> 'o outcome) \<Rightarrow> cmd \<Rightarrow> nat \<Rightarrow> robj list \<Rightarrow> 'o srv \<Rightarrow> 'o outcome" where
  "call proc c i argv s =
     (case proc c i argv (s\<lparr>rewritten := None\<rparr>) of
        (r, t) \<Rightarrow>
          if dirty t - dirty s > 0 then
            case rewritten t of
              None \<Rightarrow> (r, propagate c (cur_db i t) argv t)
            | Some (c', argv') \<Rightarrow> (r, propagate c' (cur_db i t) argv' t)
          else (r, t))"

subsection \<open>Commands of a transaction\<close>

definition upd_client :: "nat \<Rightarrow> (cmd mclient \<Rightarrow> cmd mclient) \<Rightarrow> 'o srv \<Rightarrow> 'o srv" where
  "upd_client i f s = (case clients s i of None \<Rightarrow> s | Some c \<Rightarrow> set_client i (f c) s)"

definition queueMultiCommand :: "nat \<Rightarrow> cmd \<Rightarrow> robj list \<Rightarrow> 'o srv \<Rightarrow> 'o srv" where
  "queueMultiCommand i cmd argv s = upd_client i (\<lambda>c. c\<lparr>commands := commands c @ [(cmd, map incrRefCount argv)]\<rparr>) s"

definition discardTransaction :: "nat \<Rightarrow> 'o srv \<Rightarrow> 'o srv" where
  "discardTransaction i s =
     unwatchAllKeys i
       (upd_client i (\<lambda>c. c\<lparr>commands := [], multi := False, dirty_cas := False, dirty_exec := False\<rparr>) s)"

definition flagTransaction :: "nat \<Rightarrow> 'o srv \<Rightarrow> 'o srv" where
  "flagTransaction i s = upd_client i (\<lambda>c. if multi c then c\<lparr>dirty_exec := True\<rparr> else c) s"

definition in_multi :: "nat \<Rightarrow> 'o srv \<Rightarrow> bool" where
  "in_multi i s \<longleftrightarrow> (case clients s i of None \<Rightarrow> False | Some c \<Rightarrow> multi c)"

definition multiCommand :: "nat \<Rightarrow> robj list \<Rightarrow> 'o srv \<Rightarrow> 'o outcome" where
  "multiCommand i argv s =
     (if in_multi i s then ([RErr NestedMulti], s)
      else ([ROk], upd_client i (\<lambda>c. c\<lparr>multi := True\<rparr>) s))"

definition discardCommand :: "nat \<Rightarrow> robj list \<Rightarrow> 'o srv \<Rightarrow> 'o outcome" where
  "discardCommand i argv s =
     (if \<not> in_multi i s then ([RErr DiscardWithoutMulti], s) else ([ROk], discardTransaction i s))"

definition watchCommand :: "nat \<Rightarrow> robj list \<Rightarrow> 'o srv \<Rightarrow> 'o outcome" where
  "watchCommand i argv s =
     (if in_multi i s then ([RErr WatchInsideMulti], s)
      else ([ROk], fold (\<lambda>a. watchForKey i (key_of a)) (drop 1 argv) s))"

definition unwatchCommand :: "nat \<Rightarrow> robj list \<Rightarrow> 'o srv \<Rightarrow> 'o outcome" where
  "unwatchCommand i argv s =
     ([ROk], upd_client i (\<lambda>c. c\<lparr>dirty_cas := False\<rparr>) (unwatchAllKeys i s))"

text \<open>The commands that a transaction can hold. \<open>EXEC\<close> itself is never queued, which the
  assertion states.\<close>

fun queued_proc :: "cmd \<Rightarrow> nat \<Rightarrow> robj list \<Rightarrow> 'o srv \<Rightarrow> 'o outcome" where
  "queued_proc (Key k) i argv s = data_proc k i argv s"
| "queued_proc CmdMulti i argv s = multiCommand i argv s"
| "queued_proc CmdDiscard i argv s = discardCommand i argv s"
| "queued_proc CmdWatch i argv s = watchCommand i argv s"
| "queued_proc CmdUnwatch i argv s = unwatchCommand i argv s"
| "queued_proc CmdExec i argv s = ([], redisAssert False s)"

definition readonly_cmd :: "cmd \<Rightarrow> bool" where
  "readonly_cmd c \<longleftrightarrow> list_ex (\<lambda>(name, c', a, f, n). c' = c \<and> CHR ''r'' \<in> set f) redisCommandTable"

definition execCommandPropagateMulti :: "nat \<Rightarrow> 'o srv \<Rightarrow> 'o srv" where
  "execCommandPropagateMulti i s =
     propagate CmdMulti (cur_db i s) [createStringObject (Some (map of_char ''MULTI'')) 5] s"

text \<open>The commands of a transaction read the clock one after the other.\<close>

definition next_reading :: "'o srv \<Rightarrow> 'o srv" where
  "next_reading s = (case clock s of [] \<Rightarrow> s | n # ns \<Rightarrow> s\<lparr>mstime := mstime s + int n, clock := ns\<rparr>)"

text \<open>The loop over the queued commands. \<open>must\<close>: a \<open>MULTI\<close> has been propagated.\<close>

fun exec_commands :: "nat \<Rightarrow> (cmd \<times> robj list) list \<Rightarrow> bool \<Rightarrow> 'o srv \<Rightarrow> bool \<times> 'o outcome" where
  "exec_commands i [] must s = (must, [], s)"
| "exec_commands i ((c, argv) # cs) must s =
     (let start = \<not> must \<and> \<not> readonly_cmd c in
      case call queued_proc c i argv
             (if start then execCommandPropagateMulti i (next_reading s) else next_reading s) of
        (r, s) \<Rightarrow>
          case exec_commands i cs (must \<or> start) s of
            (must, rs, s) \<Rightarrow> (must, r @ rs, s))"

definition execCommand :: "nat \<Rightarrow> robj list \<Rightarrow> 'o srv \<Rightarrow> 'o outcome" where
  "execCommand i argv s =
     (case clients s i of
        None \<Rightarrow> ([], s)
      | Some c \<Rightarrow>
          if \<not> multi c then ([RErr ExecWithoutMulti], s)
          else if dirty_cas c \<or> dirty_exec c then
            ([if dirty_exec c then RErr ExecAbort else RNullMulti], discardTransaction i s)
          else
            case exec_commands i (commands c) False (unwatchAllKeys i s) of
              (must, rs, s) \<Rightarrow>
                let s = discardTransaction i (s\<lparr>rewritten := None\<rparr>);
                    s = (if must then add_dirty 1 s else s)
                in (RMultiLen (length (commands c)) # rs, s))"

fun cmd_proc :: "cmd \<Rightarrow> nat \<Rightarrow> robj list \<Rightarrow> 'o srv \<Rightarrow> 'o outcome" where
  "cmd_proc CmdExec i argv s = execCommand i argv s"
| "cmd_proc c i argv s = queued_proc c i argv s"

subsection \<open>Processing a request\<close>

text \<open>The table is searched without regard to case.\<close>

definition lookupCommand :: "bytes \<Rightarrow> command option" where
  "lookupCommand name = map_option snd (find (\<lambda>(n, c). strcaseeq n name) populateCommandTable)"

text \<open>What \<open>processCommand\<close> asks of the rest of the server: whether the client has yet to
  authenticate, whether the keys of the command belong to another node of the cluster,
  \<open>freeMemoryIfNeeded\<close> (\<open>False\<close>: out of memory), errors of the disk, the number of replicas, whether
  this is a replica that only its master may write to, a client in the subscribed state, a replica
  that lost its master, and a script that does not end.\<close>

record 'o gates =
  noauth :: bool
  misdirected :: bool
  freeMemoryIfNeeded :: "'o srv \<Rightarrow> bool \<times> 'o srv"
  disk_error :: bool
  few_replicas :: bool
  readonly_replica :: bool
  in_pubsub :: bool
  stale_replica :: bool
  lua_timedout :: bool

text \<open>The checks before a command is run, in their order. The boolean says whether the refusal
  flags the transaction.\<close>

definition refusal :: "'o gates \<Rightarrow> command \<Rightarrow> bool \<Rightarrow> 'o srv \<Rightarrow> (err \<times> bool) option" where
  "refusal g c mem_ok s =
     (if maxmemory (conf s) \<noteq> 0 \<and> has_flag c CHR ''m'' \<and> \<not> mem_ok then Some (OutOfMemory, True)
      else if disk_error g \<and> \<not> masterhost s \<and> has_flag c CHR ''w'' then Some (Misconf, True)
      else if few_replicas g \<and> \<not> masterhost s \<and> has_flag c CHR ''w'' then Some (NoReplicas, True)
      else if masterhost s \<and> readonly_replica g \<and> has_flag c CHR ''w'' then Some (ReadOnlyReplica, False)
      else if in_pubsub g then Some (PubsubContext, False)
      else if masterhost s \<and> stale_replica g \<and> \<not> has_flag c CHR ''t'' then Some (MasterDown, True)
      else if loading s \<and> \<not> has_flag c CHR ''l'' then Some (LoadingErr, False)
      else if lua_timedout g then Some (BusyScript, True)
      else None)"

definition early_refusal :: "'o gates \<Rightarrow> command option \<Rightarrow> nat \<Rightarrow> 'o srv \<Rightarrow> err option" where
  "early_refusal g co argc s =
     (case co of
        None \<Rightarrow> Some UnknownCommand
      | Some c \<Rightarrow>
          if \<not> arity_ok (arity c) argc then Some WrongArity
          else if noauth g then Some NoAuth
          else if cluster_enabled (conf s) \<and> firstkey c \<noteq> 0 \<and> misdirected g then Some Redirected
          else None)"

text \<open>The first component: the client stays connected.\<close>

definition processCommand :: "'o gates \<Rightarrow> nat \<Rightarrow> robj list \<Rightarrow> 'o srv \<Rightarrow> bool \<times> 'o outcome" where
  "processCommand g i argv s =
     (if strcaseeq (cstr (key_of (argv ! 0))) (map of_char ''quit'') then (False, [ROk], s)
      else
        let co = lookupCommand (key_of (argv ! 0)) in
        case early_refusal g co (length argv) s of
          Some e \<Rightarrow> (True, [RErr e], flagTransaction i s)
        | None \<Rightarrow>
            let c = the co;
                (mem_ok, s) = (if maxmemory (conf s) \<noteq> 0 then freeMemoryIfNeeded g s else (True, s))
            in case refusal g c mem_ok s of
                 Some (e, flag) \<Rightarrow> (True, [RErr e], if flag then flagTransaction i s else s)
               | None \<Rightarrow>
                   if in_multi i s \<and> proc_of c \<notin> {CmdExec, CmdDiscard, CmdMulti, CmdWatch}
                   then (True, [RQueued], queueMultiCommand i (proc_of c) argv s)
                   else (True, call cmd_proc (proc_of c) i argv s))"

subsection \<open>Clients\<close>

definition new_client :: "cmd mclient" where
  "new_client = \<lparr>cdb = 0, multi = False, dirty_cas = False, dirty_exec = False, commands = [], watched_keys = []\<rparr>"

definition createClient :: "nat \<Rightarrow> 'o srv \<Rightarrow> 'o srv" where
  "createClient i s = set_client i new_client s"

definition freeClient :: "nat \<Rightarrow> 'o srv \<Rightarrow> 'o srv" where
  "freeClient i s = (let s = unwatchAllKeys i s in s\<lparr>clients := (clients s)(i := None)\<rparr>)"

text \<open>The expiry of keys in the background, for one key with a time of expiry.\<close>

definition activeExpireCycleTryExpire :: "nat \<Rightarrow> bytes \<Rightarrow> int \<Rightarrow> 'o srv \<Rightarrow> bool \<times> 'o srv" where
  "activeExpireCycleTryExpire d key now s =
     (case fmlookup (kexpires (dbs s d)) key of
        None \<Rightarrow> (False, s)
      | Some t \<Rightarrow>
          if now > t then
            let s = propagateExpire d key s;
                s = snd (dbDelete d key s);
                s = notifyKeyspaceEvent ''expired'' key d s
            in (True, s\<lparr>stat_expired := stat_expired s + 1\<rparr>)
          else (False, s))"

subsection \<open>Invariant\<close>

text \<open>\<open>A\<close> is the set of commands that the clients may use. A queue holds commands that passed the
  checks and are not about the transaction itself, and it is empty outside of a transaction.\<close>

fun queue_ok :: "cmd set \<Rightarrow> cmd \<times> robj list \<Rightarrow> bool" where
  "queue_ok A (Key k, argv) \<longleftrightarrow> Key k \<in> A \<and> call_ok k argv"
| "queue_ok A (CmdUnwatch, argv) \<longleftrightarrow> CmdUnwatch \<in> A"
| "queue_ok A _ \<longleftrightarrow> False"

definition client_ok :: "cmd set \<Rightarrow> nat \<Rightarrow> cmd mclient \<Rightarrow> bool" where
  "client_ok A n c \<longleftrightarrow> list_all (queue_ok A) (commands c) \<and> cdb c < n \<and>
     (\<not> multi c \<longrightarrow> commands c = [] \<and> \<not> dirty_exec c)"

definition srv_ok :: "cmd set \<Rightarrow> 'o srv \<Rightarrow> bool" where
  "srv_ok A s \<longleftrightarrow> db_inv s \<and> watch_inv s \<and> \<not> failed s \<and> 0 < dbnum (conf s) \<and>
     (\<forall>i c. clients s i = Some c \<longrightarrow> client_ok A (dbnum (conf s)) c)"

text \<open>A key that is as before, except that its time of expiry may be gone, or that was removed when
  its time was over, the latest reading of the clock being \<open>T\<close>.\<close>

definition unchanged :: "int \<Rightarrow> 'o srv \<Rightarrow> 'o srv \<Rightarrow> nat \<Rightarrow> bytes \<Rightarrow> bool" where
  "unchanged T s s' d k \<longleftrightarrow>
     stored s' d k = stored s d k \<and> (exp_of s' d k = exp_of s d k \<or> exp_of s' d k = None) \<or>
     (\<exists>w. exp_of s d k = Some w \<and> w < T) \<and> stored s' d k = None \<and> exp_of s' d k = None"

text \<open>The clients of \<open>P\<close> keep what they watch, and those that are not flagged have their watched keys
  unchanged, while the clock does not go back.\<close>

definition protects :: "nat set \<Rightarrow> 'o srv \<Rightarrow> 'o srv \<Rightarrow> bool" where
  "protects P s s' \<longleftrightarrow> now_of s \<le> now_of s' \<and>
     (\<forall>j \<in> P. \<forall>c. clients s j = Some c \<longrightarrow>
        (\<exists>c'. clients s' j = Some c' \<and> set (watched_keys c) \<subseteq> set (watched_keys c') \<and>
           (\<not> dirty_cas c' \<longrightarrow> \<not> dirty_cas c \<and> (\<forall>(d, k) \<in> set (watched_keys c). unchanged (now_of s') s s' d k))))"

lemma unchanged_refl [simp]: "unchanged T s s d k"
  by (simp add: unchanged_def)

lemma unchanged_mono: "unchanged T s s' d k \<Longrightarrow> T \<le> T' \<Longrightarrow> unchanged T' s s' d k"
  by (auto simp: unchanged_def)

lemma unchanged_trans: "unchanged T s t d k \<Longrightarrow> unchanged T t u d k \<Longrightarrow> unchanged T s u d k"
  by (auto simp: unchanged_def)

lemma kept_unchanged: "kept s s' d k \<Longrightarrow> unchanged (now_of s) s s' d k"
  by (auto simp: kept_def unchanged_def expired_def past_def split: option.splits)

lemma protects_trans:
  assumes "protects P s t" "protects P t u"
  shows "protects P s u"
  unfolding protects_def
proof (intro conjI ballI allI impI)
  have le: "now_of s \<le> now_of t" "now_of t \<le> now_of u" using assms by (simp_all add: protects_def)
  then show "now_of s \<le> now_of u" by simp
  fix j c
  assume j: "j \<in> P" "clients s j = Some c"
  obtain ct where t: "clients t j = Some ct" "set (watched_keys c) \<subseteq> set (watched_keys ct)"
    "\<not> dirty_cas ct \<longrightarrow> \<not> dirty_cas c \<and> (\<forall>(d, k) \<in> set (watched_keys c). unchanged (now_of t) s t d k)"
    using assms(1) j unfolding protects_def by blast
  obtain cu where u: "clients u j = Some cu" "set (watched_keys ct) \<subseteq> set (watched_keys cu)"
    "\<not> dirty_cas cu \<longrightarrow> \<not> dirty_cas ct \<and> (\<forall>(d, k) \<in> set (watched_keys ct). unchanged (now_of u) t u d k)"
    using assms(2) j(1) t(1) unfolding protects_def by blast
  show "\<exists>c'. clients u j = Some c' \<and> set (watched_keys c) \<subseteq> set (watched_keys c') \<and>
      (\<not> dirty_cas c' \<longrightarrow> \<not> dirty_cas c \<and> (\<forall>(d, k) \<in> set (watched_keys c). unchanged (now_of u) s u d k))"
    using t u unchanged_trans unchanged_mono [OF _ le(2)] by (intro exI [of _ cu]) fast
qed

lemma protects_mono: "protects P s t \<Longrightarrow> Q \<subseteq> P \<Longrightarrow> protects Q s t"
  unfolding protects_def by blast

lemma protects_refl [simp]: "protects P s s"
  by (auto simp: protects_def)

text \<open>Operations that change no data: only the clients outside of \<open>P\<close> lose something.\<close>

lemma entries_protect:
  assumes "\<And>d k. stored s' d k = stored s d k \<and> exp_of s' d k = exp_of s d k" "now_of s \<le> now_of s'"
    "\<And>j c. j \<in> P \<Longrightarrow> clients s j = Some c \<Longrightarrow>
      \<exists>c'. clients s' j = Some c' \<and> set (watched_keys c) \<subseteq> set (watched_keys c') \<and> (dirty_cas c \<longrightarrow> dirty_cas c')"
  shows "protects P s s'"
  unfolding protects_def
proof (intro conjI ballI allI impI)
  show "now_of s \<le> now_of s'" by (rule assms(2))
  fix j c
  assume "j \<in> P" "clients s j = Some c"
  from assms(3) [OF this] obtain c' where "clients s' j = Some c'" "set (watched_keys c) \<subseteq> set (watched_keys c')"
    "dirty_cas c \<longrightarrow> dirty_cas c'" by blast
  then show "\<exists>c'. clients s' j = Some c' \<and> set (watched_keys c) \<subseteq> set (watched_keys c') \<and>
      (\<not> dirty_cas c' \<longrightarrow> \<not> dirty_cas c \<and> (\<forall>(d, k) \<in> set (watched_keys c). unchanged (now_of s') s s' d k))"
    using assms(1) by (intro exI [of _ c']) (auto simp: unchanged_def)
qed

lemma env_now: "env_of s' = env_of s \<Longrightarrow> now_of s' = now_of s"
  by (simp add: env_of_def now_of_def cong: option.case_cong)

lemma same_data_protects:
  assumes "same_data s s'"
    "\<And>j c. j \<in> P \<Longrightarrow> clients s j = Some c \<Longrightarrow>
      \<exists>c'. clients s' j = Some c' \<and> set (watched_keys c) \<subseteq> set (watched_keys c') \<and> (dirty_cas c \<longrightarrow> dirty_cas c')"
  shows "protects P s s'"
proof (rule entries_protect)
  show "now_of s \<le> now_of s'" using env_now [of s' s] assms(1) by (simp add: same_data_def)
qed (use assms(2) same_data_entry [OF assms(1)] in auto)

text \<open>A command that flags the watchers of what it changes leaves the keys of the clients that are not
  flagged alone, except that a key whose time was over at this moment may be removed.\<close>

definition left_alone :: "'o srv \<Rightarrow> 'o srv \<Rightarrow> nat \<Rightarrow> bytes \<Rightarrow> bool" where
  "left_alone s s' d k \<longleftrightarrow>
     stored s' d k = stored s d k \<and> (exp_of s' d k = exp_of s d k \<or> exp_of s' d k = None) \<or>
     expired s d k \<and> stored s' d k = None \<and> exp_of s' d k = None"

lemma left_unchanged: "left_alone s s' d k \<Longrightarrow> unchanged (now_of s) s s' d k"
  by (auto simp: left_alone_def unchanged_def expired_def past_def split: option.splits)

lemma safe_left:
  assumes "safe s s'" "watch_inv s" "clients s j = Some c"
  shows "\<exists>c'. clients s' j = Some c' \<and> (c' = c \<or> c' = c\<lparr>dirty_cas := True\<rparr>) \<and>
    (\<not> dirty_cas c' \<longrightarrow> (\<forall>(d, k) \<in> set (watched_keys c). left_alone s s' d k))"
proof -
  obtain K where K: "changes K s s'"
    "\<forall>(d, k) \<in> K. all_dirty s' d k \<or> stored s' d k = stored s d k \<and> exp_of s' d k = None"
    using assms(1) unfolding safe_def by blast
  have wi: "watch_inv s'" by (rule changes_watch_inv [OF K(1) assms(2)])
  have "flagged (clients s j) (clients s' j)" using K(1) by (simp add: changes_def same_watch_def)
  then obtain c' where c': "clients s' j = Some c'" "c' = c \<or> c' = c\<lparr>dirty_cas := True\<rparr>"
    by (auto simp: flagged_def assms(3))
  have "left_alone s s' d k" if nd: "\<not> dirty_cas c'" and w: "(d, k) \<in> set (watched_keys c)" for d k
  proof (cases "(d, k) \<in> K")
    case True
    have w': "(d, k) \<in> set (watched_keys c')" using c'(2) w by auto
    then have "fmlookup (watchers (dbs s' d)) k \<noteq> None" using watch_invD(1) [OF wi _ c'(1)] by blast
    then obtain cls where cls: "fmlookup (watchers (dbs s' d)) k = Some cls" by blast
    then have "j \<in> set cls" using watch_invD(3) [OF wi cls] c'(1) w' by blast
    then have "\<not> all_dirty s' d k" using cls c'(1) nd by (auto simp: all_dirty_def)
    then show ?thesis using K(2) True by (auto simp: left_alone_def)
  next
    case False
    then show ?thesis using K(1) by (auto simp: changes_def kept_def left_alone_def)
  qed
  then show ?thesis using c' by (intro exI [of _ c']) auto
qed

lemma safe_protects:
  assumes "safe s s'" "watch_inv s"
  shows "protects P s s'"
  unfolding protects_def
proof (intro conjI ballI allI impI)
  obtain K where "changes K s s'" using assms(1) unfolding safe_def by blast
  then have n: "now_of s' = now_of s" using env_now changes_env by blast
  then show "now_of s \<le> now_of s'" by simp
  fix j c
  assume j: "clients s j = Some c"
  obtain c' where c': "clients s' j = Some c'" "c' = c \<or> c' = c\<lparr>dirty_cas := True\<rparr>"
    "\<not> dirty_cas c' \<longrightarrow> (\<forall>(d, k) \<in> set (watched_keys c). left_alone s s' d k)"
    using safe_left [OF assms j] by blast
  show "\<exists>c'. clients s' j = Some c' \<and> set (watched_keys c) \<subseteq> set (watched_keys c') \<and>
      (\<not> dirty_cas c' \<longrightarrow> \<not> dirty_cas c \<and> (\<forall>(d, k) \<in> set (watched_keys c). unchanged (now_of s') s s' d k))"
    using c' left_unchanged [of s s'] by (intro exI [of _ c']) (auto simp: n)
qed

lemma changes_srv_ok:
  assumes "changes K s s'" "srv_ok A s"
  shows "srv_ok A s'"
proof -
  have e: "env_of s' = env_of s" by (rule changes_env [OF assms(1)])
  have "client_ok A (dbnum (conf s')) c'" if "clients s' i = Some c'" for i c'
  proof -
    have "flagged (clients s i) (clients s' i)" using assms(1) by (simp add: changes_def same_watch_def)
    with that obtain c where "clients s i = Some c" "c' = c \<or> c' = c\<lparr>dirty_cas := True\<rparr>"
      by (cases "clients s i") (auto simp: flagged_def)
    then show ?thesis using assms(2) e by (auto simp: srv_ok_def client_ok_def env_of_def)
  qed
  then show ?thesis
    using assms(2) e changes_inv [OF assms(1)] changes_watch_inv [OF assms(1)] changes_failed [OF assms(1)]
    by (auto simp: srv_ok_def env_of_def)
qed

text \<open>Operations that change clients and no data.\<close>

lemma same_data_srv_ok:
  assumes "same_data s s'" "srv_ok A s" "watch_inv s'"
    "\<And>i c. clients s' i = Some c \<Longrightarrow> clients s i = Some c \<or> client_ok A (dbnum (conf s)) c"
  shows "srv_ok A s'"
proof -
  have "conf s' = conf s" using assms(1) by (simp add: same_data_def env_of_def)
  then show ?thesis
    using assms(1,2,3) assms(4) same_data_inv [OF assms(1)] unfolding srv_ok_def same_data_def by metis
qed

lemma same_core_ok:
  assumes "same_core s s'"
  shows "srv_ok A s \<Longrightarrow> srv_ok A s'" "protects P s s'"
proof -
  show "srv_ok A s \<Longrightarrow> srv_ok A s'"
    using changes_srv_ok [OF same_core_changes [OF assms]] by blast
  have "same_data s s'" using assms by (simp add: same_core_def same_data_def)
  then show "protects P s s'" by (rule same_data_protects) (use assms in \<open>auto simp: same_core_def\<close>)
qed

subsection \<open>The commands keep the invariant\<close>

text \<open>The same configuration and role, at the same time or later.\<close>

definition later :: "'o srv \<Rightarrow> 'o srv \<Rightarrow> bool" where
  "later s s' \<longleftrightarrow> mstime s \<le> mstime s' \<and> lua_time s' = lua_time s \<and> loading s' = loading s \<and>
     masterhost s' = masterhost s \<and> conf s' = conf s"

lemma later_refl [simp]: "later s s"
  by (simp add: later_def)

lemma later_trans: "later s t \<Longrightarrow> later t u \<Longrightarrow> later s u"
  by (simp add: later_def)

lemma env_later: "env_of s' = env_of s \<Longrightarrow> later s s'"
  by (simp add: later_def env_of_def)

lemma later_now: "later s s' \<Longrightarrow> now_of s \<le> now_of s'"
  by (simp add: later_def now_of_def split: option.split)

text \<open>What a command of client \<open>i\<close> guarantees. \<open>keeps\<close>: it leaves the watched keys of the client
  itself alone.\<close>

definition good :: "cmd set \<Rightarrow> nat \<Rightarrow> bool \<Rightarrow> 'o srv \<Rightarrow> 'o srv \<Rightarrow> bool" where
  "good A i keeps s s' \<longleftrightarrow> srv_ok A s' \<and> later s s' \<and>
     (Key CmdMove \<notin> A \<longrightarrow> protects (if keeps then UNIV else - {i}) s s') \<and>
     (\<forall>c. clients s i = Some c \<longrightarrow>
        (\<exists>c'. clients s' i = Some c' \<and> commands c' = commands c \<and> multi c' = multi c \<and> dirty_exec c' = dirty_exec c \<and>
          (watched_keys c' = watched_keys c \<or> \<not> keeps \<and> watched_keys c' = [])))"

lemma good_trans:
  assumes "good A i b s t" "good A i b t u"
  shows "good A i b s u"
  using assms unfolding good_def by (auto intro: protects_trans later_trans)

lemma good_weaken: "good A i True s t \<Longrightarrow> good A i b s t"
  unfolding good_def by (auto intro: protects_mono)

lemma good_core:
  assumes "same_core s s'" "srv_ok A s"
  shows "good A i b s s'"
  using same_core_ok [OF assms(1)] assms unfolding good_def by (auto simp: same_core_def intro: env_later)

lemma changes_client:
  assumes "changes K s s'" "clients s i = Some c"
  shows "\<exists>c'. clients s' i = Some c' \<and> commands c' = commands c \<and> multi c' = multi c \<and>
    dirty_exec c' = dirty_exec c \<and> watched_keys c' = watched_keys c \<and> cdb c' = cdb c"
proof -
  have "flagged (clients s i) (clients s' i)" using assms(1) by (simp add: changes_def same_watch_def)
  with assms(2) show ?thesis by (auto simp: flagged_def)
qed

definition wk :: "nat \<Rightarrow> 'o srv \<Rightarrow> (nat \<times> bytes) list" where
  "wk i s = (case clients s i of None \<Rightarrow> [] | Some c \<Rightarrow> watched_keys c)"

lemma watch_inv_wk:
  "watch_inv s \<longleftrightarrow>
     (\<forall>d k. case fmlookup (watchers (dbs s d)) k of
              None \<Rightarrow> \<forall>i. (d, k) \<notin> set (wk i s)
            | Some cls \<Rightarrow> cls \<noteq> [] \<and> distinct cls \<and> (\<forall>i. i \<in> set cls \<longleftrightarrow> (d, k) \<in> set (wk i s))) \<and>
     (\<forall>i. distinct (wk i s))"
proof -
  have b: "(\<exists>c. clients s i = Some c \<and> x \<in> set (watched_keys c)) \<longleftrightarrow> x \<in> set (wk i s)" for i x
    by (cases "clients s i") (simp_all add: wk_def)
  have a: "(\<forall>i c. clients s i = Some c \<longrightarrow> x \<notin> set (watched_keys c)) \<longleftrightarrow> (\<forall>i. x \<notin> set (wk i s))" for x
    by (simp add: b [symmetric])
  have c: "(\<forall>i c. clients s i = Some c \<longrightarrow> distinct (watched_keys c)) \<longleftrightarrow> (\<forall>i. distinct (wk i s))"
    by (auto simp: wk_def split: option.split)
  show ?thesis unfolding watch_inv_def a b c ..
qed

lemma watch_inv_clients:
  assumes "\<And>d. watchers (dbs s' d) = watchers (dbs s d)" "\<And>i. wk i s' = wk i s" "watch_inv s"
  shows "watch_inv s'"
  using assms(3) unfolding watch_inv_wk assms(1,2) .

lemma set_client_ok:
  assumes "srv_ok A s" "clients s i = Some c" "watched_keys c' = watched_keys c" "client_ok A (dbnum (conf s)) c'"
  shows "srv_ok A (set_client i c' s)"
proof (rule same_data_srv_ok [OF _ assms(1)])
  show "watch_inv (set_client i c' s)"
    by (rule watch_inv_clients [of _ s]) (use assms in \<open>auto simp: srv_ok_def wk_def\<close>)
qed (use assms in \<open>auto split: if_splits\<close>)

lemma cur_db_lt: "srv_ok A s \<Longrightarrow> cur_db i s < dbnum (conf s)"
  by (auto simp: srv_ok_def client_ok_def cur_db_def split: option.split)

lemma select_good:
  assumes "srv_ok A s" "clients s i = Some c" "args_ok argv 2" "selectCommand i argv s = (r, s')"
  shows "good A i True s s'"
proof -
  note sel = selectCommand_ok(1,2,3) [OF assms(3,2,4)]
  obtain d where d: "clients s' = (clients s)(i := Some (c\<lparr>cdb := d\<rparr>))" "d = cdb c \<or> d < dbnum (conf s)"
    using sel(2) by blast
  have ok: "client_ok A (dbnum (conf s)) (c\<lparr>cdb := d\<rparr>)"
    using assms(1,2) d(2) by (auto simp: srv_ok_def client_ok_def)
  have "srv_ok A s'"
  proof (rule same_data_srv_ok [OF sel(1) assms(1)])
    show "watch_inv s'"
      by (rule watch_inv_clients [of _ s]) (use assms(1,2) d(1) sel(3) in \<open>auto simp: srv_ok_def wk_def\<close>)
  qed (use ok d(1) in \<open>auto split: if_splits\<close>)
  moreover have "protects UNIV s s'"
    by (rule same_data_protects [OF sel(1)]) (use d(1) assms(2) in \<open>auto simp: fun_upd_def\<close>)
  ultimately show ?thesis
    unfolding good_def using sel(1) assms(2) d(1) by (auto simp: same_data_def intro: env_later)
qed

lemma move_changes:
  assumes "db_inv s" "call_ok CmdMove argv"
  shows "\<exists>K. changes K s (snd (moveCommand i argv s))"
proof -
  have "args_ok argv 3" using call_ok_args [OF assms(2)] by simp
  from moveCommand_ok [OF assms(1) this, of False i] show ?thesis by (simp add: delivers_def)
qed

lemma data_proc_changes:
  assumes "db_inv s" "watch_inv s" "call_ok k argv" "k \<noteq> CmdSelect" "data_proc k i argv s = (r, s')"
  obtains K where "changes K s s'" "k \<noteq> CmdMove \<longrightarrow> safe s s'"
proof (cases "k = CmdMove")
  case True
  with move_changes [OF assms(1), of argv i] assms(3,5) that show thesis by auto
next
  case False
  from data_proc_meets [OF assms(1-3) False assms(4), of i] assms(5) have sf: "safe s s'" by (simp add: meets_def)
  then obtain K where "changes K s s'" using safe_changes by blast
  with sf that show thesis by blast
qed

lemma data_proc_good:
  assumes "srv_ok A s" "clients s i = Some c" "queue_ok A (Key k, argv)" "data_proc k i argv s = (r, s')"
  shows "good A i True s s'"
proof -
  have inv: "db_inv s" "watch_inv s" using assms(1) by (simp_all add: srv_ok_def)
  have ok: "call_ok k argv" and A: "Key k \<in> A" using assms(3) by simp_all
  show ?thesis
  proof (cases "k = CmdSelect")
    case True
    then show ?thesis using select_good [OF assms(1,2)] call_ok_args [OF ok] assms(4) by simp
  next
    case False
    obtain K where K: "changes K s s'" "k \<noteq> CmdMove \<longrightarrow> safe s s'"
      by (rule data_proc_changes [OF inv ok False assms(4)])
    have "Key CmdMove \<notin> A \<longrightarrow> protects UNIV s s'" using safe_protects [OF _ inv(2)] K(2) A by auto
    then show ?thesis
      unfolding good_def
      using changes_srv_ok [OF K(1) assms(1)] env_later [OF changes_env [OF K(1)]] changes_client [OF K(1)] by auto
  qed
qed

lemma data_proc_watched:
  assumes "srv_ok A s" "clients s i = Some c" "queue_ok A (Key k, argv)" "data_proc k i argv s = (r, s')"
    "clients s' j = Some cj"
  shows "\<exists>cj0. clients s j = Some cj0 \<and> watched_keys cj0 = watched_keys cj"
proof (cases "k = CmdSelect")
  case True
  have "args_ok argv 2" using call_ok_args [of k argv] assms(3) True by simp
  from selectCommand_ok(2) [OF this assms(2), of r s'] assms(2,4,5) True show ?thesis by (auto split: if_splits)
next
  case False
  have inv: "db_inv s" "watch_inv s" using assms(1) by (simp_all add: srv_ok_def)
  have ok: "call_ok k argv" using assms(3) by simp
  obtain K where K: "changes K s s'" by (rule data_proc_changes [OF inv ok False assms(4)])
  then have "flagged (clients s j) (clients s' j)" by (simp add: changes_def same_watch_def)
  with assms(5) show ?thesis by (cases "clients s j") (auto simp: flagged_def)
qed

lemma unwatch_ok:
  assumes "srv_ok A s" "clients s i = Some c" "watched_keys c' = []" "client_ok A (dbnum (conf s)) c'"
    "s' = set_client i c' (unwatchAllKeys i s)"
  shows "srv_ok A s'" "env_of s' = env_of s" "protects (- {i}) s s'" "clients s' i = Some c'"
    "same_data s s'" "clients s' = (clients s)(i := Some c')"
proof -
  have "watch_inv s" using assms(1) by (simp add: srv_ok_def)
  note u = unwatchAllKeys_ok [OF this assms(2)]
  show data: "same_data s s'" unfolding assms(5) by (rule same_data_trans [OF u(2)]) simp
  show cl: "clients s' = (clients s)(i := Some c')" using assms(5) u(3) by simp
  have w: "watch_inv s'"
    by (rule watch_inv_clients [OF _ _ u(1)]) (use u(3) assms(3,5) in \<open>auto simp: wk_def\<close>)
  show "srv_ok A s'" by (rule same_data_srv_ok [OF data assms(1) w]) (use assms(4) cl in \<open>auto split: if_splits\<close>)
  show "env_of s' = env_of s" using data by (simp add: same_data_def)
  show "protects (- {i}) s s'" by (rule same_data_protects [OF data]) (use cl in auto)
  show "clients s' i = Some c'" using cl by simp
qed

lemma unwatchCommand_good:
  assumes "srv_ok A s" "clients s i = Some c" "unwatchCommand i argv s = (r, s')"
  shows "good A i False s s'" "watched_keys (the (clients s' i)) = []"
proof -
  have "watch_inv s" using assms(1) by (simp add: srv_ok_def)
  note u = unwatchAllKeys_ok [OF this assms(2)]
  let ?c = "c\<lparr>watched_keys := [], dirty_cas := False\<rparr>"
  have "s' = set_client i ?c (unwatchAllKeys i s)"
    using assms(3) u(3) by (simp add: unwatchCommand_def upd_client_def)
  moreover have "client_ok A (dbnum (conf s)) ?c" using assms(1,2) by (auto simp: srv_ok_def client_ok_def)
  ultimately have o: "srv_ok A s'" "env_of s' = env_of s" "protects (- {i}) s s'" "clients s' i = Some ?c"
    using unwatch_ok(1-4) [OF assms(1,2), of ?c s'] by simp_all
  then show "good A i False s s'" using assms(2) env_later by (simp add: good_def)
  show "watched_keys (the (clients s' i)) = []" using o(4) by simp
qed

lemma queued_good:
  assumes "srv_ok A s" "clients s i = Some c" "queue_ok A (cm, argv)" "queued_proc cm i argv s = (r, s')"
  shows "good A i False s s'"
proof (cases cm)
  case (Key k)
  with assms data_proc_good [OF assms(1,2)] show ?thesis by (auto intro: good_weaken)
next
  case CmdUnwatch
  with assms unwatchCommand_good(1) [OF assms(1,2)] show ?thesis by simp
qed (use assms(3) in simp_all)

lemma queued_env:
  assumes "srv_ok A s" "clients s i = Some c" "queue_ok A (cm, argv)" "queued_proc cm i argv s = (r, s')"
  shows "env_of s' = env_of s"
proof (cases cm)
  case (Key k)
  have inv: "db_inv s" "watch_inv s" using assms(1) by (simp_all add: srv_ok_def)
  have ok: "call_ok k argv" and d: "data_proc k i argv s = (r, s')" using assms(3,4) Key by simp_all
  show ?thesis
  proof (cases "k = CmdSelect")
    case True
    then show ?thesis
      using selectCommand_ok(1) [OF _ assms(2), of argv r s'] call_ok_args [OF ok] d by (simp add: same_data_def)
  next
    case False
    obtain K where "changes K s s'" by (rule data_proc_changes [OF inv ok False d])
    then show ?thesis by (rule changes_env)
  qed
next
  case CmdUnwatch
  have wi: "watch_inv s" using assms(1) by (simp add: srv_ok_def)
  note u = unwatchAllKeys_ok [OF wi assms(2)]
  have "same_data s s'"
    using assms(4) CmdUnwatch u(2) by (auto simp: unwatchCommand_def upd_client_def split: option.splits intro: same_data_trans)
  then show ?thesis by (simp add: same_data_def)
qed (use assms(3) in simp_all)

lemma next_reading_simps [simp]:
  "dbs (next_reading s) = dbs s" "clients (next_reading s) = clients s" "shared (next_reading s) = shared s"
  "failed (next_reading s) = failed s" "conf (next_reading s) = conf s" "later s (next_reading s)"
  by (simp_all add: next_reading_def later_def split: list.split)

lemma env_srv_ok:
  assumes "srv_ok A s" "dbs s' = dbs s" "clients s' = clients s" "shared s' = shared s" "failed s' = failed s" "conf s' = conf s"
  shows "srv_ok A s'"
proof -
  have w: "wk i s' = wk i s" for i using assms(3) by (simp add: wk_def)
  have "db_inv s' = db_inv s" "watch_inv s' = watch_inv s"
    using assms by (simp add: db_inv_def exp_of_def, simp only: watch_inv_wk w assms(2))
  then show ?thesis using assms by (simp add: srv_ok_def)
qed

lemma next_reading_good:
  assumes "srv_ok A s"
  shows "good A i b s (next_reading s)"
proof -
  have "protects P s (next_reading s)" for P
    by (rule entries_protect) (simp_all add: stored_def exp_of_def later_now)
  moreover have "srv_ok A (next_reading s)" by (rule env_srv_ok [OF assms]) simp_all
  ultimately show ?thesis by (simp add: good_def)
qed

lemma rewritten_core: "same_core s (s\<lparr>rewritten := x\<rparr>)"
  by (simp add: same_core_def env_of_def)

lemma propagate_core: "same_core s (propagate c d argv s)"
  by (simp add: same_core_def env_of_def propagate_def)

lemma add_dirty_core: "same_core s (add_dirty n s)"
  by (simp add: same_core_def)

lemma same_core_trans: "same_core s t \<Longrightarrow> same_core t u \<Longrightarrow> same_core s u"
  by (simp add: same_core_def)

lemma call_split:
  assumes "call proc c i argv s = (r, s')"
  shows "\<exists>t. proc c i argv (s\<lparr>rewritten := None\<rparr>) = (r, t) \<and> same_core t s'"
proof -
  obtain r0 t where t: "proc c i argv (s\<lparr>rewritten := None\<rparr>) = (r0, t)" by fastforce
  have "r0 = r \<and> same_core t s'"
    using assms by (auto simp: call_def t propagate_core same_core_def split: if_splits option.splits)
      (auto simp: propagate_def env_of_def)
  with t show ?thesis by blast
qed

lemma good_srv_ok: "good A i b s t \<Longrightarrow> srv_ok A t"
  by (simp add: good_def)

lemma good_client:
  assumes "good A i b s t" "clients s i = Some c"
  obtains c' where "clients t i = Some c'" "commands c' = commands c" "multi c' = multi c"
    "dirty_exec c' = dirty_exec c" "watched_keys c' = watched_keys c \<or> \<not> b \<and> watched_keys c' = []"
  using assms unfolding good_def by blast

lemma call_good:
  assumes "srv_ok A s" "call proc c i argv s = (r, s')"
    "\<And>t. srv_ok A (s\<lparr>rewritten := None\<rparr>) \<Longrightarrow> proc c i argv (s\<lparr>rewritten := None\<rparr>) = (r, t) \<Longrightarrow>
      good A i b (s\<lparr>rewritten := None\<rparr>) t"
  shows "good A i b s s'"
proof -
  let ?s = "s\<lparr>rewritten := None\<rparr>"
  obtain t where t: "proc c i argv ?s = (r, t)" "same_core t s'" using call_split [OF assms(2)] by blast
  have s: "good A i b s ?s" by (rule good_core [OF rewritten_core assms(1)])
  have g: "good A i b ?s t" by (rule assms(3) [OF good_srv_ok [OF s] t(1)])
  show ?thesis
    by (rule good_trans [OF good_trans [OF s g] good_core [OF t(2) good_srv_ok [OF g]]])
qed

lemma exec_commands_good:
  assumes "srv_ok A s" "clients s i = Some c" "list_all (queue_ok A) cs" "exec_commands i cs must s = (m, r, s')"
  shows "good A i False s s'"
  using assms
proof (induction i cs must s arbitrary: c m r s' rule: exec_commands.induct)
  case (1 i must s)
  then show ?case using good_core [of s s A i False] by (simp add: same_core_def)
next
  case (2 i cm argv cs must s)
  define start where "start = (\<not> must \<and> \<not> readonly_cmd cm)"
  define s1 where "s1 = (if start then execCommandPropagateMulti i (next_reading s) else next_reading s)"
  have c1: "same_core (next_reading s) s1" by (simp add: s1_def execCommandPropagateMulti_def propagate_core same_core_def)
     (simp add: propagate_def env_of_def)
  obtain r1 s2 where s2: "call queued_proc cm i argv s1 = (r1, s2)" by fastforce
  obtain m3 r3 s3 where s3: "exec_commands i cs (must \<or> start) s2 = (m3, r3, s3)" by (metis prod_cases3)
  have e: "s' = s3" using "2.prems"(4) s2 s3 by (simp add: Let_def start_def s1_def)
  have g0: "good A i False s (next_reading s)" by (rule next_reading_good [OF "2.prems"(1)])
  have g1: "good A i False s s1" by (rule good_trans [OF g0 good_core [OF c1 good_srv_ok [OF g0]]])
  have g2: "good A i False s1 s2"
  proof (rule call_good [OF good_srv_ok [OF g1] s2])
    fix t
    assume "srv_ok A (s1\<lparr>rewritten := None\<rparr>)" "queued_proc cm i argv (s1\<lparr>rewritten := None\<rparr>) = (r1, t)"
    moreover have "clients (s1\<lparr>rewritten := None\<rparr>) i = Some c" using c1 "2.prems"(2) by (simp add: same_core_def)
    ultimately show "good A i False (s1\<lparr>rewritten := None\<rparr>) t" using queued_good "2.prems"(3) by fastforce
  qed
  note g12 = good_trans [OF g1 g2]
  obtain c2 where "clients s2 i = Some c2" using good_client [OF g12 "2.prems"(2)] by blast
  moreover have "list_all (queue_ok A) cs" using "2.prems"(3) by simp
  ultimately have "good A i False s2 s3"
    using "2.IH" [OF start_def s2 [unfolded s1_def, symmetric]] good_srv_ok [OF g12] s3 by blast
  then show ?case unfolding e by (rule good_trans [OF g12])
qed

text \<open>What one step of client \<open>i\<close> guarantees.\<close>

definition fine :: "cmd set \<Rightarrow> nat \<Rightarrow> 'o srv \<Rightarrow> 'o srv \<Rightarrow> bool" where
  "fine A i s s' \<longleftrightarrow> srv_ok A s' \<and> later s s' \<and>
     (Key CmdMove \<notin> A \<longrightarrow> protects (- {i}) s s' \<and>
        (protects {i} s s' \<or> (\<forall>c. clients s' i = Some c \<longrightarrow> watched_keys c = [])))"

lemma good_fine: "good A i True s s' \<Longrightarrow> fine A i s s'"
  unfolding good_def fine_def by (auto intro: protects_mono)

lemma quiet_fine:
  assumes "srv_ok A s'" "same_data s s'"
    "\<And>j c. clients s j = Some c \<Longrightarrow>
      \<exists>c'. clients s' j = Some c' \<and> set (watched_keys c) \<subseteq> set (watched_keys c') \<and> (dirty_cas c \<longrightarrow> dirty_cas c')"
  shows "fine A i s s'"
proof -
  have "protects UNIV s s'" by (rule same_data_protects [OF assms(2)]) (use assms(3) in blast)
  then show ?thesis using assms(1,2) unfolding fine_def
    by (auto intro: protects_mono env_later simp: same_data_def)
qed

lemma upd_client_fine:
  assumes "srv_ok A s" "clients s i = Some c" "watched_keys (f c) = watched_keys c" "dirty_cas (f c) = dirty_cas c"
    "client_ok A (dbnum (conf s)) (f c)"
  shows "fine A i s (upd_client i f s)"
proof (rule quiet_fine)
  show "srv_ok A (upd_client i f s)"
    using set_client_ok [OF assms(1,2,3,5)] assms(2) by (simp add: upd_client_def)
qed (use assms(2,3,4) in \<open>auto simp: upd_client_def\<close>)

lemma fine_refl: "srv_ok A s \<Longrightarrow> fine A i s s"
  by (simp add: fine_def)

lemma srv_ok_client: "srv_ok A s \<Longrightarrow> clients s i = Some c \<Longrightarrow> client_ok A (dbnum (conf s)) c"
  by (simp add: srv_ok_def)

lemma discard_ok:
  assumes "srv_ok A s" "clients s i = Some c" "s' = discardTransaction i s"
  shows "srv_ok A s'" "env_of s' = env_of s" "protects (- {i}) s s'" "same_data s s'"
    "clients s' = (clients s)(i := Some (c\<lparr>commands := [], multi := False, dirty_cas := False,
       dirty_exec := False, watched_keys := []\<rparr>))"
proof -
  let ?c = "c\<lparr>commands := [], multi := False, dirty_cas := False, dirty_exec := False\<rparr>"
  have "client_ok A (dbnum (conf s)) ?c" using srv_ok_client [OF assms(1,2)] by (simp add: client_ok_def)
  then have ok: "srv_ok A (set_client i ?c s)" by (intro set_client_ok [OF assms(1,2)]) simp_all
  have e: "s' = unwatchAllKeys i (set_client i ?c s)" using assms(2,3) by (simp add: discardTransaction_def upd_client_def)
  have w: "watch_inv (set_client i ?c s)" using ok by (simp add: srv_ok_def)
  have "clients (set_client i ?c s) i = Some ?c" by simp
  note u = unwatchAllKeys_ok [OF w this, folded e]
  show cl: "clients s' = (clients s)(i := Some (c\<lparr>commands := [], multi := False, dirty_cas := False,
       dirty_exec := False, watched_keys := []\<rparr>))" using u(3) by simp
  show data: "same_data s s'" by (rule same_data_trans [OF _ u(2)]) simp
  show "srv_ok A s'"
    by (rule same_data_srv_ok [OF data assms(1) u(1)])
      (use cl srv_ok_client [OF assms(1,2)] in \<open>auto simp: client_ok_def split: if_splits\<close>)
  show "env_of s' = env_of s" using data by (simp add: same_data_def)
  show "protects (- {i}) s s'" by (rule same_data_protects [OF data]) (use cl in auto)
qed

lemma discard_fine:
  assumes "srv_ok A s" "clients s i = Some c"
  shows "fine A i s (discardTransaction i s)"
  using discard_ok [OF assms refl] env_later by (simp add: fine_def)

lemma execCommand_fine:
  assumes "srv_ok A s" "clients s i = Some c" "execCommand i argv s = (r, s')"
  shows "fine A i s s'"
proof (cases "multi c \<and> \<not> dirty_cas c \<and> \<not> dirty_exec c")
  case False
  then consider "s' = s" | "s' = discardTransaction i s" using assms(2,3) by (auto simp: execCommand_def split: if_splits)
  then show ?thesis using fine_refl [OF assms(1)] discard_fine [OF assms(1,2)] by metis
next
  case True
  obtain m rs t where t: "exec_commands i (commands c) False (unwatchAllKeys i s) = (m, rs, t)" by (metis prod_cases3)
  have wi: "watch_inv s" using assms(1) by (simp add: srv_ok_def)
  note u = unwatchAllKeys_ok [OF wi assms(2)]
  let ?c = "c\<lparr>watched_keys := []\<rparr>"
  have cok: "client_ok A (dbnum (conf s)) ?c" using srv_ok_client [OF assms(1,2)] by (simp add: client_ok_def)
  have "set_client i ?c (unwatchAllKeys i s) = unwatchAllKeys i s" using u(3) by (simp add: set_client_def)
  note o = unwatch_ok [OF assms(1,2) _ cok, of "unwatchAllKeys i s", unfolded this, simplified]
  have q: "list_all (queue_ok A) (commands c)" using srv_ok_client [OF assms(1,2)] by (simp add: client_ok_def)
  note g = exec_commands_good [OF o(1) o(4) q t]
  obtain ct where ct: "clients t i = Some ct" using good_client [OF g o(4)] by blast
  let ?t = "t\<lparr>rewritten := None\<rparr>"
  have gt: "good A i False t ?t" by (rule good_core [OF rewritten_core good_srv_ok [OF g]])
  have ct': "clients ?t i = Some ct" using ct by simp
  note d = discard_ok [OF good_srv_ok [OF gt] ct' refl]
  let ?u = "discardTransaction i ?t"
  have s': "s' = (if m then add_dirty 1 ?u else ?u)"
    using assms(2,3) t True by (simp add: execCommand_def Let_def)
  have core: "same_core ?u s'" by (simp add: s' same_core_def)
  have p: "Key CmdMove \<notin> A \<longrightarrow> protects (- {i}) s s'"
  proof
    assume "Key CmdMove \<notin> A"
    with good_trans [OF g gt] have "protects (- {i}) (unwatchAllKeys i s) ?t" by (simp add: good_def)
    from protects_trans [OF protects_trans [OF o(3) this] d(3)] same_core_ok(2) [OF core]
    show "protects (- {i}) s s'" by (rule protects_trans)
  qed
  have "srv_ok A s'" by (rule same_core_ok(1) [OF core d(1)])
  moreover have "later s s'"
  proof -
    have "later s t" using later_trans [OF env_later [OF o(2)]] g by (simp add: good_def)
    moreover have "later t ?t" using gt by (simp add: good_def)
    moreover have "later ?u s'" by (rule env_later) (use core in \<open>simp add: same_core_def\<close>)
    ultimately show ?thesis using env_later [OF d(2)] by (blast intro: later_trans)
  qed
  moreover have "watched_keys c' = []" if "clients s' i = Some c'" for c'
    using that d(5) core by (auto simp: same_core_def)
  ultimately show ?thesis using p unfolding fine_def by blast
qed

lemma watch_fold:
  assumes "srv_ok A s" "clients s i = Some c"
  shows "let s' = fold (\<lambda>a. watchForKey i (key_of a)) as s in
    fine A i s s' \<and> same_data s s' \<and>
    (\<exists>w. clients s' = (clients s)(i := Some (c\<lparr>watched_keys := w\<rparr>)) \<and>
      set w = set (watched_keys c) \<union> (\<lambda>a. (cdb c, key_of a)) ` set as)"
  using assms
proof (induction as arbitrary: s c)
  case Nil
  then show ?case by (auto simp: fine_refl fun_upd_idem intro!: exI [of _ "watched_keys c"])
next
  case (Cons a as)
  let ?t = "watchForKey i (key_of a) s"
  have wi: "watch_inv s" using Cons.prems(1) by (simp add: srv_ok_def)
  note w = watchForKey_ok [OF wi Cons.prems(2), of "key_of a"]
  obtain w1 where w1: "clients ?t = (clients s)(i := Some (c\<lparr>watched_keys := w1\<rparr>))"
    "set w1 = insert (cdb c, key_of a) (set (watched_keys c))"
    using w(3) by (intro that) (auto split: if_splits)
  have ok: "srv_ok A ?t"
    by (rule same_data_srv_ok [OF w(2) Cons.prems(1) w(1)])
      (use w1(1) srv_ok_client [OF Cons.prems] in \<open>auto simp: client_ok_def split: if_splits\<close>)
  have f: "protects UNIV s ?t"
    by (rule same_data_protects [OF w(2)]) (use w1 Cons.prems(2) in auto)
  have ci: "clients ?t i = Some (c\<lparr>watched_keys := w1\<rparr>)" using w1(1) by simp
  let ?u = "fold (\<lambda>a. watchForKey i (key_of a)) as ?t"
  from Cons.IH [OF ok ci] obtain w2 where u: "fine A i ?t ?u" "same_data ?t ?u"
    "clients ?u = (clients ?t)(i := Some (c\<lparr>watched_keys := w2\<rparr>))"
    "set w2 = set w1 \<union> (\<lambda>a. (cdb c, key_of a)) ` set as"
    by (auto simp: Let_def fun_upd_def)
  have cl: "clients ?u = (clients s)(i := Some (c\<lparr>watched_keys := w2\<rparr>))" using u(3) w1(1) by simp
  have d: "same_data s ?u" by (rule same_data_trans [OF w(2) u(2)])
  have "fine A i s ?u"
    by (rule quiet_fine [OF _ d]) (use u w1 Cons.prems(2) cl in \<open>auto simp: fine_def\<close>)
  with cl d u(4) w1(2) show ?case by (auto simp: Let_def intro!: exI [of _ w2])
qed

lemma watchCommand_fine:
  assumes "srv_ok A s" "clients s i = Some c" "watchCommand i argv s = (r, s')"
  shows "fine A i s s'"
  using watch_fold [OF assms(1,2), of "drop 1 argv"] assms(3) fine_refl [OF assms(1)]
  by (auto simp: watchCommand_def Let_def split: if_splits)

lemma multiCommand_fine:
  assumes "srv_ok A s" "clients s i = Some c" "multiCommand i argv s = (r, s')"
  shows "fine A i s s'"
  using upd_client_fine [OF assms(1,2), of "\<lambda>c. c\<lparr>multi := True\<rparr>"] assms srv_ok_client [OF assms(1,2)]
  by (auto simp: multiCommand_def client_ok_def fine_refl in_multi_def split: if_splits)

lemma discardCommand_fine:
  assumes "srv_ok A s" "clients s i = Some c" "discardCommand i argv s = (r, s')"
  shows "fine A i s s'"
  using assms discard_fine fine_refl [OF assms(1)] by (auto simp: discardCommand_def split: if_splits)

lemma unwatchCommand_fine:
  assumes "srv_ok A s" "clients s i = Some c" "unwatchCommand i argv s = (r, s')"
  shows "fine A i s s'"
  using unwatchCommand_good [OF assms] unfolding fine_def good_def by auto

text \<open>A request of a client that may use the commands of \<open>A\<close>.\<close>

definition request_ok :: "cmd set \<Rightarrow> robj list \<Rightarrow> bool" where
  "request_ok A argv \<longleftrightarrow> argv \<noteq> [] \<and> list_all arg_ok argv \<and>
     (case lookupCommand (key_of (argv ! 0)) of
        None \<Rightarrow> True
      | Some c \<Rightarrow> proc_of c \<in> A \<and> (proc_of c = Key CmdSetrange \<longrightarrow> setrange_fits argv))"

lemma lookupCommand_table:
  assumes "lookupCommand n = Some c"
  shows "list_ex (\<lambda>(name, c', a, f, n). c' = proc_of c \<and> a = arity c) redisCommandTable"
proof -
  obtain x where x: "find (\<lambda>(m, c). strcaseeq m n) populateCommandTable = Some x" "c = snd x"
    using assms by (auto simp: lookupCommand_def)
  then have "x \<in> set populateCommandTable" by (metis find_Some_iff nth_mem)
  with x(2) have "c \<in> snd ` set populateCommandTable" by (rule image_eqI)
  then show ?thesis by (force simp: populateCommandTable_def list_ex_iff)
qed

lemma lookup_call_ok:
  assumes "lookupCommand n = Some c" "proc_of c = Key k" "arity_ok (arity c) (length argv)"
    "list_all arg_ok argv" "k = CmdSetrange \<longrightarrow> setrange_fits argv"
  shows "call_ok k argv"
  using lookupCommand_table [OF assms(1)] assms(2-) unfolding call_ok_def list_ex_iff by fastforce

lemma cmd_proc_fine:
  assumes "srv_ok A s" "clients s i = Some cl" "cm \<in> A" "\<And>k. cm = Key k \<Longrightarrow> call_ok k argv"
    "cmd_proc cm i argv s = (r, s')"
  shows "fine A i s s'"
proof (cases cm)
  case (Key k)
  then show ?thesis
    using data_proc_good [OF assms(1,2), of k argv r s'] assms(3,4,5) by (auto intro: good_fine)
next
  case CmdMulti
  then show ?thesis using multiCommand_fine [OF assms(1,2)] assms(5) by simp
next
  case CmdExec
  then show ?thesis using execCommand_fine [OF assms(1,2)] assms(5) by simp
next
  case CmdDiscard
  then show ?thesis using discardCommand_fine [OF assms(1,2)] assms(5) by simp
next
  case CmdWatch
  then show ?thesis using watchCommand_fine [OF assms(1,2)] assms(5) by simp
next
  case CmdUnwatch
  then show ?thesis using unwatchCommand_fine [OF assms(1,2)] assms(5) by simp
qed

lemma fine_core_left:
  assumes "same_core s t" "fine A i t u"
  shows "fine A i s u"
  using assms same_core_ok(2) [OF assms(1)] unfolding fine_def
  by (auto simp: same_core_def intro: protects_trans env_later later_trans)

lemma fine_core_right:
  assumes "fine A i s t" "same_core t u"
  shows "fine A i s u"
  using assms same_core_ok [OF assms(2)] unfolding fine_def
  by (auto simp: same_core_def intro: protects_trans env_later later_trans)

lemma call_fine:
  assumes "srv_ok A s" "clients s i = Some cl" "cm \<in> A" "\<And>k. cm = Key k \<Longrightarrow> call_ok k argv"
    "call cmd_proc cm i argv s = (r, s')"
  shows "fine A i s s'"
proof -
  let ?s = "s\<lparr>rewritten := None\<rparr>"
  obtain t where t: "cmd_proc cm i argv ?s = (r, t)" "same_core t s'" using call_split [OF assms(5)] by blast
  have "fine A i ?s t"
    by (rule cmd_proc_fine [OF same_core_ok(1) [OF rewritten_core assms(1)] _ assms(3,4) t(1)])
      (use assms(2) in simp_all)
  then show ?thesis using fine_core_left [OF rewritten_core] fine_core_right t(2) by blast
qed

lemma incr_arg [simp]: "arg_ok (incrRefCount a) = arg_ok a" "obj_val (incrRefCount a) = obj_val a"
proof -
  show v: "obj_val (incrRefCount a) = obj_val a" by (simp add: obj_val_def incrRefCount_def)
  have "obj_ok (incrRefCount a) = obj_ok a"
    by (cases "ptr a") (simp_all add: obj_ok_def incrRefCount_def sdsEncodedObject_def)
  moreover have "sdsEncodedObject (incrRefCount a) = sdsEncodedObject a"
    by (simp add: sdsEncodedObject_def incrRefCount_def)
  ultimately show "arg_ok (incrRefCount a) = arg_ok a" by (simp add: arg_ok_def v)
qed

lemma call_ok_incr: "call_ok k argv \<Longrightarrow> call_ok k (map incrRefCount argv)"
proof (cases "k = CmdSetrange")
  case True
  assume c: "call_ok k argv"
  have "4 \<le> length argv" using call_ok_args [OF c] True by (simp add: args_ok_def)
  then have "setrange_fits (map incrRefCount argv) = setrange_fits argv"
    by (simp add: setrange_fits_def cong: option.case_cong)
  with c show ?thesis by (simp add: call_ok_def list_all_iff)
qed (simp add: call_ok_def list_all_iff)

lemma queueMultiCommand_fine:
  assumes "srv_ok A s" "clients s i = Some c" "multi c" "cm \<in> A" "cm \<notin> {CmdExec, CmdDiscard, CmdMulti, CmdWatch}"
    "\<And>k. cm = Key k \<Longrightarrow> call_ok k argv"
  shows "fine A i s (queueMultiCommand i cm argv s)"
proof -
  have "queue_ok A (cm, map incrRefCount argv)" using assms(4-6) by (cases cm) (auto intro: call_ok_incr)
  then have "client_ok A (dbnum (conf s)) (c\<lparr>commands := commands c @ [(cm, map incrRefCount argv)]\<rparr>)"
    using srv_ok_client [OF assms(1,2)] assms(3) by (simp add: client_ok_def)
  then show ?thesis
    unfolding queueMultiCommand_def by (intro upd_client_fine [OF assms(1,2)]) simp_all
qed

lemma flagTransaction_fine:
  assumes "srv_ok A s" "clients s i = Some c"
  shows "fine A i s (flagTransaction i s)"
  unfolding flagTransaction_def
  by (rule upd_client_fine [OF assms]) (use srv_ok_client [OF assms] in \<open>auto simp: client_ok_def\<close>)

text \<open>What \<open>processCommand\<close> does with a request, by cases.\<close>

lemma processCommand_cases:
  assumes "processCommand g i argv s = (alive, r, s')" "maxmemory (conf s) = 0"
  obtains (quit) "s' = s" "r = [ROk]"
  | (refused) e where "s' = s" "r = [RErr e]"
  | (flagged) e where "s' = flagTransaction i s" "r = [RErr e]"
  | (queued) c where "lookupCommand (key_of (argv ! 0)) = Some c" "arity_ok (arity c) (length argv)" "in_multi i s"
      "proc_of c \<notin> {CmdExec, CmdDiscard, CmdMulti, CmdWatch}" "r = [RQueued]"
      "s' = queueMultiCommand i (proc_of c) argv s"
  | (called) c where "lookupCommand (key_of (argv ! 0)) = Some c" "arity_ok (arity c) (length argv)"
      "call cmd_proc (proc_of c) i argv s = (r, s')"
proof (cases "strcaseeq (cstr (key_of (argv ! 0))) (map of_char ''quit'')")
  case True
  then show thesis using assms(1) quit by (simp add: processCommand_def)
next
  case nq: False
  let ?co = "lookupCommand (key_of (argv ! 0))"
  show thesis
  proof (cases "early_refusal g ?co (length argv) s")
    case (Some e)
    then show thesis using assms(1) nq flagged [of e] by (simp add: processCommand_def)
  next
    case None
    then obtain c where c: "?co = Some c" "arity_ok (arity c) (length argv)"
      by (auto simp: early_refusal_def split: option.splits if_splits)
    show thesis
    proof (cases "refusal g c True s")
      case (Some x)
      then show thesis using assms nq None c flagged refused
        by (cases x) (auto simp: processCommand_def split: if_splits)
    next
      case nr: None
      show thesis
      proof (cases "in_multi i s \<and> proc_of c \<notin> {CmdExec, CmdDiscard, CmdMulti, CmdWatch}")
        case True
        with assms nq None c(1) nr have "r = [RQueued]" "s' = queueMultiCommand i (proc_of c) argv s"
          by (auto simp: processCommand_def)
        with True c queued show thesis by blast
      next
        case False
        with assms nq None c(1) nr have "call cmd_proc (proc_of c) i argv s = (r, s')"
          unfolding processCommand_def Let_def by (simp only: option.case option.sel if_False prod.case simp_thms prod.inject)
        with c called show thesis by blast
      qed
    qed
  qed
qed

lemma processCommand_fine:
  assumes "srv_ok A s" "clients s i = Some c" "request_ok A argv" "maxmemory (conf s) = 0"
    "processCommand g i argv s = (alive, r, s')"
  shows "fine A i s s'"
  using assms(5,4)
proof (cases rule: processCommand_cases)
  case (queued co)
  then have "call_ok k argv" if "proc_of co = Key k" for k
    using lookup_call_ok [OF queued(1) that queued(2)] assms(3) that by (simp add: request_ok_def)
  moreover have "multi c" using queued(3) assms(2) by (simp add: in_multi_def)
  ultimately show ?thesis
    unfolding queued(6) using queueMultiCommand_fine [OF assms(1,2)] queued(1,4) assms(3) by (simp add: request_ok_def)
next
  case (called co)
  then have "call_ok k argv" if "proc_of co = Key k" for k
    using lookup_call_ok [OF called(1) that called(2)] assms(3) that by (simp add: request_ok_def)
  then show ?thesis
    using call_fine [OF assms(1,2) _ _ called(3)] called(1) assms(3) by (simp add: request_ok_def)
qed (use fine_refl [OF assms(1)] flagTransaction_fine [OF assms(1,2)] in simp_all)

subsection \<open>Steps of the server\<close>

text \<open>\<open>initServer\<close> with the shared integers of \<open>createSharedObjects\<close>.\<close>

definition createSharedObjects :: shared_ints where
  "createSharedObjects = (\<lambda>v. \<lparr>encoding = ENC_INT, ptr = Num v, refcount = 1\<rparr>)"

definition initServer :: "config \<Rightarrow> int \<Rightarrow> 'o srv" where
  "initServer cf t =
     \<lparr>dbs = (\<lambda>d. \<lparr>kdict = fmempty, kexpires = fmempty, watchers = fmempty\<rparr>), clients = (\<lambda>i. None),
      shared = createSharedObjects, mstime = t, clock = [], lua_time = None, loading = False, masterhost = False,
      conf = cf, dirty = 0, keyspace_hits = 0, keyspace_misses = 0, stat_expired = 0, events = [],
      prop_log = [], rewritten = None, failed = False\<rparr>"

text \<open>A request of a client, a change of the clock and of its coming readings, a client that comes or goes, the removal of an
  expired key in the background (by a master), and a change of role.\<close>

inductive step :: "cmd set \<Rightarrow> 'o srv \<Rightarrow> 'o srv \<Rightarrow> bool" for A :: "cmd set" where
  request: "clients s i = Some c \<Longrightarrow> request_ok A argv \<Longrightarrow> processCommand g i argv s = (alive, r, s') \<Longrightarrow> step A s s'"
| tick: "step A s (s\<lparr>mstime := t, clock := ds\<rparr>)"
| connect: "clients s i = None \<Longrightarrow> step A s (createClient i s)"
| disconnect: "clients s i = Some c \<Longrightarrow> step A s (freeClient i s)"
| cron: "\<not> masterhost s \<Longrightarrow> activeExpireCycleTryExpire d k (mstime s) s = (b, s') \<Longrightarrow> step A s s'"
| role: "step A s (s\<lparr>masterhost := m, loading := l\<rparr>)"

inductive reachable :: "cmd set \<Rightarrow> config \<Rightarrow> 'o srv \<Rightarrow> bool" for A :: "cmd set" and cf :: config where
  start: "reachable A cf (initServer cf t)"
| more: "reachable A cf s \<Longrightarrow> step A s s' \<Longrightarrow> reachable A cf s'"

definition watches :: "'o srv \<Rightarrow> nat \<Rightarrow> nat \<Rightarrow> bytes \<Rightarrow> bool" where
  "watches s i d k \<longleftrightarrow> (case clients s i of None \<Rightarrow> False | Some c \<Rightarrow> (d, k) \<in> set (watched_keys c))"

text \<open>A run in which client \<open>i\<close> watches a key all the time, and the latest time that the clock showed
  in it.\<close>

inductive guarded :: "cmd set \<Rightarrow> nat \<Rightarrow> nat \<Rightarrow> bytes \<Rightarrow> 'o srv \<Rightarrow> int \<Rightarrow> 'o srv \<Rightarrow> bool"
  for A :: "cmd set" and i d :: nat and k :: bytes where
  here: "watches s i d k \<Longrightarrow> guarded A i d k s (mstime s) s"
| later: "guarded A i d k s T t \<Longrightarrow> step A t u \<Longrightarrow> watches u i d k \<Longrightarrow> guarded A i d k s (max T (mstime u)) u"

text \<open>What every step guarantees to a client that watches a key before and after it.\<close>

definition lock_step :: "'o srv \<Rightarrow> 'o srv \<Rightarrow> bool" where
  "lock_step s s' \<longleftrightarrow>
     (\<forall>i c c' d k. clients s i = Some c \<longrightarrow> clients s' i = Some c' \<longrightarrow> (d, k) \<in> set (watched_keys c) \<longrightarrow>
        (d, k) \<in> set (watched_keys c') \<longrightarrow> \<not> dirty_cas c' \<longrightarrow> \<not> dirty_cas c \<and> unchanged (now_of s') s s' d k)"

lemma protects_lock: "protects UNIV s s' \<Longrightarrow> lock_step s s'"
  unfolding protects_def lock_step_def by fastforce

lemma fine_lock:
  assumes "fine A i s s'" "Key CmdMove \<notin> A"
  shows "lock_step s s'"
  unfolding lock_step_def
proof (intro allI impI)
  fix j c c' d k
  assume a: "clients s j = Some c" "clients s' j = Some c'" "(d, k) \<in> set (watched_keys c)"
    "(d, k) \<in> set (watched_keys c')" "\<not> dirty_cas c'"
  have "protects {j} s s'"
  proof (cases "j = i")
    case True
    with assms a show ?thesis by (fastforce simp: fine_def)
  next
    case False
    with assms have "protects (- {i}) s s'" by (simp add: fine_def)
    then show ?thesis by (rule protects_mono) (use False in blast)
  qed
  with a show "\<not> dirty_cas c \<and> unchanged (now_of s') s s' d k" unfolding protects_def by fastforce
qed

lemma disconnect_ok:
  assumes "srv_ok A s" "clients s i = Some c" "s' = freeClient i s"
  shows "srv_ok A s'" "conf s' = conf s" "lua_time s' = lua_time s" "lock_step s s'"
proof -
  have "watch_inv s" using assms(1) by (simp add: srv_ok_def)
  note u = unwatchAllKeys_ok [OF this assms(2)]
  have cl: "clients s' = (clients s)(i := None)" using u(3) by (simp add: assms(3) freeClient_def Let_def)
  have data: "same_data s s'"
    by (rule same_data_trans [OF u(2)]) (simp add: assms(3) freeClient_def Let_def same_data_def env_of_def)
  have e: "dbs s' = dbs (unwatchAllKeys i s)" by (simp add: assms(3) freeClient_def Let_def)
  have "watch_inv s'"
    by (rule watch_inv_clients [OF _ _ u(1)]) (use e cl u(3) in \<open>auto simp: wk_def\<close>)
  then show "srv_ok A s'" by (rule same_data_srv_ok [OF data assms(1)]) (use cl in \<open>auto split: if_splits\<close>)
  show "conf s' = conf s" "lua_time s' = lua_time s" using data by (simp_all add: same_data_def env_of_def)
  show "lock_step s s'"
    using cl same_data_entry [OF data] by (auto simp: lock_step_def unchanged_def split: if_splits)
qed

lemma connect_ok:
  assumes "srv_ok A s" "clients s i = None" "s' = createClient i s"
  shows "srv_ok A s'" "conf s' = conf s" "lua_time s' = lua_time s" "lock_step s s'"
proof -
  have cl: "clients s' = (clients s)(i := Some new_client)" and data: "same_data s s'" and e: "dbs s' = dbs s"
    by (simp_all add: assms(3) createClient_def)
  have "watch_inv s" using assms(1) by (simp add: srv_ok_def)
  then have "watch_inv s'"
    by (rule watch_inv_clients [rotated -1]) (use e cl assms(2) in \<open>auto simp: wk_def new_client_def\<close>)
  then show "srv_ok A s'"
    by (rule same_data_srv_ok [OF data assms(1)])
      (use assms(1) cl in \<open>auto simp: new_client_def client_ok_def srv_ok_def split: if_splits\<close>)
  show "conf s' = conf s" "lua_time s' = lua_time s" using data by (simp_all add: same_data_def env_of_def)
  show "lock_step s s'"
    using cl same_data_entry [OF data] assms(2) by (auto simp: lock_step_def unchanged_def split: if_splits)
qed

text \<open>A step that only changes the environment.\<close>

lemma env_step_ok:
  assumes "srv_ok A s" "dbs s' = dbs s" "clients s' = clients s" "shared s' = shared s" "failed s' = failed s" "conf s' = conf s"
  shows "srv_ok A s'" "lock_step s s'"
  using env_srv_ok [OF assms] assms by (auto simp: lock_step_def unchanged_def stored_def exp_of_def)

lemma cron_ok:
  assumes "srv_ok A s" "lua_time s = None" "activeExpireCycleTryExpire d k (mstime s) s = (b, s')"
  shows "srv_ok A s'" "conf s' = conf s" "lua_time s' = lua_time s" "lock_step s s'"
proof -
  have "srv_ok A s' \<and> conf s' = conf s \<and> lua_time s' = lua_time s \<and> lock_step s s'"
  proof (cases "b")
    case False
    then have "s' = s" using assms(3) by (auto simp: activeExpireCycleTryExpire_def Let_def split: option.splits if_splits)
    then show ?thesis using assms(1) protects_lock [OF protects_refl] by simp
  next
    case True
    let ?t = "propagateExpire d k s"
    let ?u = "snd (dbDelete d k ?t)"
    have s': "s' = notifyKeyspaceEvent ''expired'' k d ?u\<lparr>stat_expired := stat_expired (notifyKeyspaceEvent ''expired'' k d ?u) + 1\<rparr>"
      and ex: "\<exists>w. exp_of s d k = Some w \<and> w < mstime s"
      using assms(3) True
      by (auto simp: activeExpireCycleTryExpire_def Let_def exp_of_def split: option.splits if_splits)
    have c1: "same_core s ?t" by (simp add: same_core_def)
    have c2: "same_core ?u s'" by (simp add: s' same_core_def) (simp add: env_of_def notifyKeyspaceEvent_def)
    have ch: "changes {(d, k)} s s'"
      using changes_then [OF changes_then [OF same_core_changes [OF c1, of "{}"] changes_dbDelete]
          same_core_changes [OF c2, of "{}"], of "{(d, k)}" "{(d, k)}"] by simp
    have gone: "stored s' d k = None" "exp_of s' d k = None"
      using c2 dbDelete_entry(1,2) [of d k ?t] by (simp_all add: same_core_def stored_def exp_of_def)
    have now: "now_of s' = now_of s" "now_of s = mstime s"
      using env_now [OF changes_env [OF ch]] assms(2) by (simp_all add: now_of_def)
    have un: "unchanged (now_of s') s s' d' k'" for d' k'
    proof (cases "(d', k') = (d, k)")
      case True
      then show ?thesis using gone ex now by (simp add: unchanged_def)
    next
      case False
      then have "kept s s' d' k'" using ch by (auto simp: changes_def)
      then show ?thesis unfolding now(1) by (rule kept_unchanged)
    qed
    have "clients s' = clients s" using c1 c2 by (simp add: same_core_def)
    then have "lock_step s s'" using un by (auto simp: lock_step_def)
    then show ?thesis using changes_srv_ok [OF ch assms(1)] changes_env [OF ch] by (simp add: env_of_def)
  qed
  then show "srv_ok A s'" "conf s' = conf s" "lua_time s' = lua_time s" "lock_step s s'" by simp_all
qed

lemma step_ok:
  assumes "step A s s'" "srv_ok A s" "maxmemory (conf s) = 0" "lua_time s = None"
  shows "srv_ok A s'" "conf s' = conf s" "lua_time s' = None" "Key CmdMove \<notin> A \<Longrightarrow> lock_step s s'"
proof -
  have "srv_ok A s' \<and> conf s' = conf s \<and> lua_time s' = lua_time s \<and> (Key CmdMove \<notin> A \<longrightarrow> lock_step s s')"
    using assms(1)
  proof cases
    case (request i c argv g alive r)
    from processCommand_fine [OF assms(2) request(1,2) assms(3) request(3)] fine_lock show ?thesis
      by (auto simp: fine_def later_def)
  next
    case (tick t ds)
    then show ?thesis using env_step_ok [OF assms(2), of s'] by simp
  next
    case (connect i)
    then show ?thesis using connect_ok [OF assms(2), of i s'] by simp
  next
    case (disconnect i c)
    then show ?thesis using disconnect_ok [OF assms(2), of i c s'] by simp
  next
    case (cron d k b)
    then show ?thesis using cron_ok [OF assms(2,4)] by blast
  next
    case (role m l)
    then show ?thesis using env_step_ok [OF assms(2), of s'] by simp
  qed
  then show "srv_ok A s'" "conf s' = conf s" "lua_time s' = None" "Key CmdMove \<notin> A \<Longrightarrow> lock_step s s'"
    using assms(4) by simp_all
qed

lemma init_ok: "0 < dbnum cf \<Longrightarrow> srv_ok A (initServer cf t)"
  by (simp add: srv_ok_def initServer_def db_inv_def watch_inv_def shared_ok_def createSharedObjects_def exp_of_def)

lemma reachable_ok:
  assumes "reachable A cf s" "0 < dbnum cf" "maxmemory cf = 0"
  shows "srv_ok A s \<and> conf s = cf \<and> lua_time s = None"
  using assms
proof (induction rule: reachable.induct)
  case (start t)
  then show ?case using init_ok by (simp add: initServer_def)
next
  case (more s s')
  then show ?case using step_ok [OF more.hyps(2)] by simp
qed

lemma guarded_ok:
  assumes "guarded A i d k s T s'" "srv_ok A s" "maxmemory (conf s) = 0" "lua_time s = None" "Key CmdMove \<notin> A"
  shows "srv_ok A s' \<and> conf s' = conf s \<and> lua_time s' = None \<and> watches s' i d k \<and>
    (\<forall>c. clients s' i = Some c \<longrightarrow> \<not> dirty_cas c \<longrightarrow> unchanged T s s' d k)"
  using assms
proof (induction rule: guarded.induct)
  case (here s)
  then show ?case by simp
next
  case (later s T t u)
  then have IH: "srv_ok A t" "conf t = conf s" "lua_time t = None" "watches t i d k"
    "\<And>c. clients t i = Some c \<Longrightarrow> \<not> dirty_cas c \<Longrightarrow> unchanged T s t d k" by auto
  note st = step_ok [OF later.hyps(2) IH(1) _ IH(3)]
  have "unchanged (max T (mstime u)) s u d k" if c: "clients u i = Some c" "\<not> dirty_cas c" for c
  proof -
    obtain c0 where c0: "clients t i = Some c0" "(d, k) \<in> set (watched_keys c0)"
      using IH(4) by (auto simp: watches_def split: option.splits)
    have "(d, k) \<in> set (watched_keys c)" using later.hyps(3) c(1) by (simp add: watches_def)
    with st(4) later.prems(2,4) IH(2) c0 c have "\<not> dirty_cas c0 \<and> unchanged (now_of u) t u d k"
      unfolding lock_step_def by simp
    moreover have "now_of u = mstime u" using st(3) later.prems(2) IH(2) by (simp add: now_of_def)
    ultimately have "\<not> dirty_cas c0" "unchanged (max T (mstime u)) t u d k"
      using unchanged_mono [of "mstime u" t u d k "max T (mstime u)"] by simp_all
    moreover from this IH(5) [OF c0(1)] have "unchanged (max T (mstime u)) s t d k"
      using unchanged_mono [of T s t d k "max T (mstime u)"] by simp
    ultimately show ?thesis by (blast intro: unchanged_trans)
  qed
  then show ?case using st IH later.prems later.hyps(3) by simp
qed

subsection \<open>EXEC against the abstract store\<close>

text \<open>The queue run on the abstract store: one command after the other, with the data base that
  \<open>SELECT\<close> chose. \<open>ds\<close> is the time that passes before each command; the keys whose time is over then
  are gone (\<open>act\<close>: on a master that is not loading).\<close>

definition age :: "bool \<Rightarrow> int \<Rightarrow> 'o vw \<Rightarrow> 'o vw" where
  "age act now V = (\<lambda>d k. case V d k of None \<Rightarrow> None | Some (v, e) \<Rightarrow> if act \<and> past now e then None else Some (v, e))"

definition passed :: "nat list \<Rightarrow> int" where
  "passed ds = (case ds of [] \<Rightarrow> 0 | n # _ \<Rightarrow> int n)"

definition spec_db :: "cmd \<Rightarrow> reply list \<Rightarrow> bytes list \<Rightarrow> nat \<Rightarrow> nat" where
  "spec_db c r a d = (if c = Key CmdSelect \<and> r = [ROk] then nat (the (int_of (a ! 1))) else d)"

fun spec_cmd :: "cmd \<Rightarrow> int \<Rightarrow> bool \<Rightarrow> config \<Rightarrow> nat \<Rightarrow> bytes list \<Rightarrow> 'o vw \<Rightarrow> reply list \<times> 'o vw" where
  "spec_cmd (Key k) now act cf d a V = spec k now act cf d a V"
| "spec_cmd c now act cf d a V = ([ROk], V)"

fun spec_queue ::
  "nat list \<Rightarrow> int \<Rightarrow> bool \<Rightarrow> config \<Rightarrow> nat \<Rightarrow> (cmd \<times> bytes list) list \<Rightarrow> 'o vw \<Rightarrow> reply list \<times> 'o vw" where
  "spec_queue ds now act cf d [] V = ([], V)"
| "spec_queue ds now act cf d ((c, a) # cs) V =
     (let now = now + passed ds in
      case spec_cmd c now act cf d a (age act now V) of
        (r, V) \<Rightarrow> case spec_queue (tl ds) now act cf (spec_db c r a d) cs V of (rs, V) \<Rightarrow> (r @ rs, V))"

text \<open>No number overflows in any of the commands, in the state in which it runs.\<close>

fun fits_queue :: "nat \<Rightarrow> (cmd \<times> robj list) list \<Rightarrow> bool \<Rightarrow> 'o srv \<Rightarrow> bool" where
  "fits_queue i [] must s \<longleftrightarrow> True"
| "fits_queue i ((c, argv) # cs) must s \<longleftrightarrow>
     (let start = \<not> must \<and> \<not> readonly_cmd c;
          s = (if start then execCommandPropagateMulti i (next_reading s) else next_reading s)
      in (case c of Key k \<Rightarrow> fits k (cur_db i s) argv s | _ \<Rightarrow> True) \<and>
         fits_queue i cs (must \<or> start) (snd (call queued_proc c i argv s)))"

lemma core_view: "same_core s t \<Longrightarrow> view t = view s"
  using changes_view_none [OF same_core_changes] by blast

lemma core_cur_db: "same_core s t \<Longrightarrow> cur_db i t = cur_db i s"
  by (simp add: same_core_def cur_db_def)

lemma same_core_exp: "same_core s t \<Longrightarrow> exp_of t d k = exp_of s d k"
  by (simp add: same_core_def exp_of_def)

lemma core_env: "same_core s t \<Longrightarrow> mstime t = mstime s \<and> lua_time t = lua_time s \<and> conf t = conf s \<and>
    loading t = loading s \<and> masterhost t = masterhost s"
  by (simp add: same_core_def env_of_def)

lemma core_fits:
  assumes "same_core s t" "fits k d argv s"
  shows "fits k d argv t"
proof -
  have "expired t d x = expired s d x" for x
    using expired_env [of t s d x] same_core_exp [OF assms(1)] assms(1) by (simp add: same_core_def)
  with assms(2) core_env [OF assms(1)] same_core_exp [OF assms(1)] show ?thesis
    by (cases k) (simp_all cong: option.case_cong)
qed

lemma select_db:
  assumes "args_ok argv 2" "clients s i = Some c" "fits CmdSelect d argv s" "selectCommand i argv s = (r, s')"
  shows "cur_db i s' = spec_db (Key CmdSelect) r (map obj_val argv) (cur_db i s)"
proof -
  have a: "obj_ok (argv ! 1)" using args_nth [OF assms(1)] by simp
  have m: "map obj_val argv ! 1 = obj_val (argv ! 1)" by (rule args_map [OF assms(1)]) simp
  show ?thesis
  proof (cases "int_of (obj_val (argv ! 1))")
    case None
    with assms(4) show ?thesis by (auto simp: selectCommand_def int_of_ok [OF a] spec_db_def)
  next
    case (Some n)
    then have n: "sext 4 (n mod 2 ^ 32) = n"
      using assms(3) le_sint_le_bytes [of 4 n] by (simp add: in_srange_def le_sint_def le_uint_le_bytes)
    have "selectCommand i argv s =
        (if cluster_enabled (conf s) \<and> n \<noteq> 0 then ([RErr NotInCluster], s)
         else if n < 0 \<or> n \<ge> int (dbnum (conf s)) then ([RErr InvalidDb], s)
         else ([ROk], set_client i (c\<lparr>cdb := nat n\<rparr>) s))"
      unfolding selectCommand_def int_of_ok [OF a] Some option.case n selectDb_def assms(2) by simp
    moreover have "cur_db i s = cdb c" by (simp add: cur_db_def assms(2))
    ultimately show ?thesis
      using assms(4) Some unfolding spec_db_def m by (auto simp: cur_db_def split: if_splits)
  qed
qed

lemma data_proc_spec:
  assumes inv: "db_inv s" "watch_inv s" and "clients s i = Some c" "call_ok k argv" "fits k (cur_db i s) argv s" "data_proc k i argv s = (r, s')"
  shows "(r, view s') = spec k (mstime s) (\<not> loading s \<and> \<not> masterhost s) (conf s) (cur_db i s) (map obj_val argv) (view s)"
    "cur_db i s' = spec_db (Key k) r (map obj_val argv) (cur_db i s)"
proof -
  consider (select) "k = CmdSelect" | (move) "k = CmdMove" | (other) "k \<noteq> CmdSelect" "k \<noteq> CmdMove" by blast
  then have "(r, view s') = spec k (mstime s) (\<not> loading s \<and> \<not> masterhost s) (conf s) (cur_db i s) (map obj_val argv) (view s) \<and>
    cur_db i s' = spec_db (Key k) r (map obj_val argv) (cur_db i s)"
  proof cases
    case select
    have a: "args_ok argv 2" using call_ok_args [OF assms(4)] select by simp
    have o: "selectCommand i argv s = (r, s')" using assms(6) select by simp
    have "fits CmdSelect (cur_db i s) argv s" using assms(5) select by simp
    moreover from this have "\<forall>n. int_of (obj_val (argv ! 1)) = Some n \<longrightarrow> - (2 ^ 31) \<le> n \<and> n < 2 ^ 31" by auto
    ultimately show ?thesis
      unfolding select using selectCommand_ok(4) [OF a assms(3) o] select_db [OF a assms(3) _ o] by blast
  next
    case move
    have a: "args_ok argv 3" using call_ok_args [OF assms(4)] move by simp
    have o: "moveCommand i argv s = (r, s')" using assms(6) move by simp
    have "exp_of s (cur_db i s) (obj_val (argv ! 1)) \<noteq> Some (-1)" using assms(5) move by simp
    with moveCommand_ok [OF inv(1) a, of True i] o obtain K where
      K: "changes K s s'" and sp: "(r, view s') = spec_move (dbnum (conf s)) (cluster_enabled (conf s)) (cur_db i s)
        (obj_val (argv ! 1)) (int_of (obj_val (argv ! 2))) (view s)"
      by (auto simp: delivers_def)
    show ?thesis
      unfolding move spec.simps args_map [OF a, of 1, simplified] args_map [OF a, of 2, simplified]
      using sp changes_cur_db [OF K] by (simp add: spec_db_def)
  next
    case other
    from data_proc_meets [OF inv assms(4) other(2,1), of i] assms(5,6)
    have "safe s s'" and sp: "(r, view s') = spec k (mstime s) (\<not> loading s \<and> \<not> masterhost s) (conf s) (cur_db i s)
      (map obj_val argv) (view s)" by (simp_all add: meets_def)
    then obtain K where "changes K s s'" using safe_changes by blast
    from changes_cur_db [OF this] sp other show ?thesis by (simp add: spec_db_def)
  qed
  then show "(r, view s') = spec k (mstime s) (\<not> loading s \<and> \<not> masterhost s) (conf s) (cur_db i s) (map obj_val argv) (view s)"
    "cur_db i s' = spec_db (Key k) r (map obj_val argv) (cur_db i s)" by simp_all
qed

lemma view_next:
  assumes "lua_time s = None"
  shows "view (next_reading s) = age (\<not> loading s \<and> \<not> masterhost s) (mstime s + passed (clock s)) (view s)"
    and "mstime (next_reading s) = mstime s + passed (clock s)" "clock (next_reading s) = tl (clock s)"
proof -
  show t: "mstime (next_reading s) = mstime s + passed (clock s)" "clock (next_reading s) = tl (clock s)"
    by (simp_all add: next_reading_def passed_def split: list.split)
  have le: "mstime s \<le> mstime s + passed (clock s)" by (simp add: passed_def split: list.split)
  have e: "stored (next_reading s) d k = stored s d k" "exp_of (next_reading s) d k = exp_of s d k" for d k
    by (simp_all add: stored_def exp_of_def)
  have l: "loading (next_reading s) = loading s" "masterhost (next_reading s) = masterhost s" "lua_time (next_reading s) = None"
    using next_reading_simps(6) [of s] assms by (simp_all add: later_def)
  show "view (next_reading s) = age (\<not> loading s \<and> \<not> masterhost s) (mstime s + passed (clock s)) (view s)"
  proof (intro ext)
    fix d k
    have "past (mstime s) x \<Longrightarrow> past (mstime s + passed (clock s)) x" for x
      using le by (auto simp: past_def split: option.splits)
    then show "view (next_reading s) d k = age (\<not> loading s \<and> \<not> masterhost s) (mstime s + passed (clock s)) (view s) d k"
      by (cases "stored s d k") (auto simp: view_def age_def expired_def now_of_def l e t assms)
  qed
qed

lemma exec_commands_spec:
  assumes "lua_time s = None" "srv_ok A s" "clients s i = Some c" "list_all (queue_ok A) cs" "fits_queue i cs must s"
    "exec_commands i cs must s = (m, r, s')"
  shows "(r, view s') = spec_queue (clock s) (mstime s) (\<not> loading s \<and> \<not> masterhost s) (conf s) (cur_db i s)
    (map (\<lambda>(c, argv). (c, map obj_val argv)) cs) (view s)"
  using assms
proof (induction i cs must s arbitrary: c m r s' rule: exec_commands.induct)
  case (1 i must s)
  then show ?case by simp
next
  case (2 i cm argv cs must s)
  define start where "start = (\<not> must \<and> \<not> readonly_cmd cm)"
  define s1 where "s1 = (if start then execCommandPropagateMulti i (next_reading s) else next_reading s)"
  have c1: "same_core (next_reading s) s1" by (simp add: s1_def execCommandPropagateMulti_def propagate_core same_core_def)
     (simp add: propagate_def env_of_def)
  let ?n = "s1\<lparr>rewritten := None\<rparr>"
  have cn: "same_core (next_reading s) ?n" by (rule same_core_trans [OF c1 rewritten_core])
  obtain r1 s2 where s2: "call queued_proc cm i argv s1 = (r1, s2)" by fastforce
  obtain m3 r3 s3 where s3: "exec_commands i cs (must \<or> start) s2 = (m3, r3, s3)" by (metis prod_cases3)
  have e: "r = r1 @ r3" "s' = s3" using "2.prems"(6) s2 s3 by (simp_all add: Let_def start_def s1_def)
  have fq: "case cm of Key k \<Rightarrow> fits k (cur_db i s1) argv s1 | _ \<Rightarrow> True" "fits_queue i cs (must \<or> start) s2"
    using "2.prems"(5) s2 unfolding fits_queue.simps Let_def start_def [symmetric] s1_def [symmetric] by simp_all
  obtain t where t: "queued_proc cm i argv ?n = (r1, t)" "same_core t s2" using call_split [OF s2] by blast
  have okn: "srv_ok A ?n" by (rule same_core_ok(1) [OF cn good_srv_ok [OF next_reading_good [OF "2.prems"(2)]]])
  have cln: "clients ?n i = Some c" using cn "2.prems"(3) by (simp add: same_core_def)
  have q: "queue_ok A (cm, argv)" "list_all (queue_ok A) cs" using "2.prems"(4) by simp_all
  have g: "good A i False ?n t" by (rule queued_good [OF okn cln q(1) t(1)])
  have ok2: "srv_ok A s2" by (rule same_core_ok(1) [OF t(2) good_srv_ok [OF g]])
  obtain c2 where c2: "clients s2 i = Some c2" using good_client [OF g cln] t(2) by (metis same_core_def)
  have env: "env_of s2 = env_of (next_reading s)"
    using queued_env [OF okn cln q(1) t(1)] cn t(2) by (simp add: same_core_def)
  note vn = view_next [OF "2.prems"(1)]
  let ?now = "mstime s + passed (clock s)" and ?act = "\<not> loading s \<and> \<not> masterhost s"
  have ln: "loading (next_reading s) = loading s" "masterhost (next_reading s) = masterhost s"
    "lua_time (next_reading s) = None"
    using next_reading_simps(6) [of s] "2.prems"(1) by (simp_all add: later_def)
  have dn: "cur_db i (next_reading s) = cur_db i s" by (simp add: cur_db_def)
  have sp: "(r1, view s2) = spec_cmd cm ?now ?act (conf s) (cur_db i s) (map obj_val argv) (age ?act ?now (view s)) \<and>
      cur_db i s2 = spec_db cm r1 (map obj_val argv) (cur_db i s)"
  proof (cases cm)
    case (Key k)
    have "fits k (cur_db i ?n) argv ?n"
      using core_fits [OF rewritten_core, of k "cur_db i s1" argv s1 None] fq(1) Key
      by (simp add: core_cur_db [OF rewritten_core])
    with data_proc_spec [OF _ _ cln, of k argv r1 t] okn [unfolded srv_ok_def] q(1) t Key
    show ?thesis using core_view [OF cn] core_view [OF t(2)] core_cur_db [OF cn, of i] core_cur_db [OF t(2), of i] core_env [OF cn] vn ln dn
      by simp
  next
    case CmdUnwatch
    have wi: "watch_inv ?n" using okn by (simp add: srv_ok_def)
    note u = unwatchAllKeys_ok [OF wi cln]
    have t': "r1 = [ROk]" "t = upd_client i (\<lambda>c. c\<lparr>dirty_cas := False\<rparr>) (unwatchAllKeys i ?n)"
      using t(1) CmdUnwatch by (simp_all add: unwatchCommand_def)
    have "same_data ?n t" unfolding t'(2) upd_client_def by (cases "clients (unwatchAllKeys i ?n) i") (use u(2) in \<open>auto intro: same_data_trans\<close>)
    then have "view t = view ?n" by (rule same_data_view)
    moreover have "cur_db i t = cur_db i ?n" using cln u(3) by (simp add: t'(2) upd_client_def cur_db_def)
    ultimately show ?thesis
      using CmdUnwatch t'(1) core_view [OF cn] core_view [OF t(2)] core_cur_db [OF cn, of i] core_cur_db [OF t(2), of i] vn dn
      by (simp add: spec_db_def)
  qed (use q(1) in simp_all)
  have lu: "lua_time s2 = None" using env ln by (simp add: env_of_def)
  have ih: "(r3, view s3) = spec_queue (clock s2) (mstime s2) (\<not> loading s2 \<and> \<not> masterhost s2) (conf s2) (cur_db i s2)
      (map (\<lambda>(c, argv). (c, map obj_val argv)) cs) (view s2)"
    by (rule "2.IH" [OF start_def s2 [unfolded s1_def, symmetric] lu ok2 c2 q(2) fq(2) s3])
  have en: "clock s2 = tl (clock s)" "mstime s2 = ?now" "loading s2 = loading s" "masterhost s2 = masterhost s" "conf s2 = conf s"
    using env vn ln by (simp_all add: env_of_def)
  from sp have sc: "spec_cmd cm ?now ?act (conf s) (cur_db i s) (map obj_val argv) (age ?act ?now (view s)) = (r1, view s2)"
    "spec_db cm r1 (map obj_val argv) (cur_db i s) = cur_db i s2" by simp_all
  from ih [symmetric] show ?case unfolding e by (simp add: sc en Let_def)
qed

lemma exec_refines:
  assumes "srv_ok A s" "clients s i = Some c" "multi c" "\<not> dirty_cas c" "\<not> dirty_exec c"
    "fits_queue i (commands c) False (unwatchAllKeys i s)" "execCommand i argv s = (r, s')" "lua_time s = None"
  shows "(r, view s') =
    (case spec_queue (clock s) (mstime s) (\<not> loading s \<and> \<not> masterhost s) (conf s) (cdb c)
            (map (\<lambda>(c, argv). (c, map obj_val argv)) (commands c)) (view s) of
       (rs, V) \<Rightarrow> (RMultiLen (length (commands c)) # rs, V))"
proof -
  obtain m rs t where t: "exec_commands i (commands c) False (unwatchAllKeys i s) = (m, rs, t)" by (metis prod_cases3)
  have wi: "watch_inv s" using assms(1) by (simp add: srv_ok_def)
  note u = unwatchAllKeys_ok [OF wi assms(2)]
  let ?c = "c\<lparr>watched_keys := []\<rparr>"
  have cok: "client_ok A (dbnum (conf s)) ?c" using srv_ok_client [OF assms(1,2)] by (simp add: client_ok_def)
  have "set_client i ?c (unwatchAllKeys i s) = unwatchAllKeys i s" using u(3) by (simp add: set_client_def)
  note o = unwatch_ok [OF assms(1,2) _ cok, of "unwatchAllKeys i s", unfolded this, simplified]
  have q: "list_all (queue_ok A) (commands c)" using srv_ok_client [OF assms(1,2)] by (simp add: client_ok_def)
  note g = exec_commands_good [OF o(1) o(4) q t]
  have "lua_time (unwatchAllKeys i s) = None" using o(2) assms(8) by (simp add: env_of_def)
  note sp = exec_commands_spec [OF this o(1) o(4) q assms(6) t]
  obtain ct where ct: "clients t i = Some ct" using good_client [OF g o(4)] by blast
  let ?t = "t\<lparr>rewritten := None\<rparr>"
  have ok: "srv_ok A ?t" by (rule same_core_ok(1) [OF rewritten_core good_srv_ok [OF g]])
  have ct': "clients ?t i = Some ct" using ct by simp
  note d = discard_ok [OF ok ct' refl]
  have s': "r = RMultiLen (length (commands c)) # rs"
    "s' = (if m then add_dirty 1 (discardTransaction i ?t) else discardTransaction i ?t)"
    using assms(2-5,7) t by (auto simp: execCommand_def Let_def)
  have "same_core (discardTransaction i ?t) s'" by (simp add: s' same_core_def)
  from core_view [OF this] same_data_view [OF d(4)] core_view [OF rewritten_core [of t None]] have "view s' = view t" by simp
  moreover have "cur_db i (unwatchAllKeys i s) = cdb c" using o(4) by (simp add: cur_db_def)
  moreover have "env_of (unwatchAllKeys i s) = env_of s" "view (unwatchAllKeys i s) = view s"
    using o(2) same_data_view [OF u(2)] by simp_all
  ultimately have "spec_queue (clock s) (mstime s) (\<not> loading s \<and> \<not> masterhost s) (conf s) (cdb c)
      (map (\<lambda>(c, argv). (c, map obj_val argv)) (commands c)) (view s) = (rs, view s')"
    using sp by (simp add: env_of_def)
  then show ?thesis using s'(1) by simp
qed

end
