(* ===== verification/Transactions.thy ===== *)
theory Transactions
  imports Multi
begin

text \<open>
  The properties of the commands and of transactions, over the definitions of Server, Commands and
  Multi and the abstract store of CommandSpec.
\<close>

subsection \<open>A server for the examples\<close>

definition cf0 :: config where
  "cf0 = \<lparr>dbnum = 16, maxmemory = 0, maxmemory_policy = 0, cluster_enabled = False\<rparr>"

definition s0 :: "unit srv" where
  "s0 = createClient 0 (initServer cf0 1000)"

definition str :: "string \<Rightarrow> robj" where
  "str x = createStringObject (Some (map of_char x)) (length x)"

definition g0 :: "unit gates" where
  "g0 = \<lparr>noauth = False, misdirected = False, freeMemoryIfNeeded = (\<lambda>s. (True, s)), disk_error = False,
     few_replicas = False, readonly_replica = False, in_pubsub = False, stale_replica = False, lua_timedout = False\<rparr>"

lemma str_ok:
  assumes "length x \<le> 39"
  shows "arg_ok (str x)" "obj_val (str x) = map of_char x" "key_of (str x) = map of_char x"
proof -
  from createString_ok [of "length x" "map of_char x"] assms
  have o: "obj_ok (str x)" and v: "obj_val (str x) = map of_char x" by (simp_all add: str_def)
  moreover have "sdsEncodedObject (str x)"
    using assms by (simp add: str_def createStringObject_def EMBSTR_SIZE_LIMIT_def createEmbeddedStringObject_def sdsEncodedObject_def)
  ultimately show a: "arg_ok (str x)" using assms by (simp add: arg_ok_def too_long_def)
  show "obj_val (str x) = map of_char x" by (rule v)
  show "key_of (str x) = map of_char x" using arg_key [OF a] v by simp
qed

lemma s0_ok: "srv_ok A s0"
  unfolding s0_def by (rule connect_ok [OF init_ok _ refl]) (simp_all add: cf0_def initServer_def)

lemma s0_sel [simp]:
  "clients s0 0 = Some new_client" "loading s0 = False" "masterhost s0 = False" "mstime s0 = 1000" "conf s0 = cf0"
  "lua_time s0 = None" "cur_db 0 s0 = 0"
  by (simp_all add: s0_def createClient_def set_client_def initServer_def new_client_def cur_db_def)

lemma s0_view: "view s0 = (\<lambda>d k. None)"
  by (intro ext) (simp add: s0_def createClient_def set_client_def initServer_def view_def stored_def)

subsection \<open>Commands\<close>




text \<open>A server on which client 0 watches the key \<open>k\<close>, and then has a transaction with one command.\<close>

definition s1 :: "unit srv" where
  "s1 = watchForKey 0 (map of_char ''k'') s0"

lemma s1_ok: "srv_ok A s1" "same_data s0 s1"
    "clients s1 = (clients s0)(0 := Some (new_client\<lparr>watched_keys := [(0, map of_char ''k'')]\<rparr>))"
proof -
  have w: "watch_inv s0" using s0_ok [of A] by (simp add: srv_ok_def)
  note f = watchForKey_ok [OF w s0_sel(1), of "map of_char ''k''"]
  show d: "same_data s0 s1" using f(2) by (simp add: s1_def)
  show c: "clients s1 = (clients s0)(0 := Some (new_client\<lparr>watched_keys := [(0, map of_char ''k'')]\<rparr>))"
    using f(3) by (simp add: s1_def new_client_def)
  show "srv_ok A s1"
    by (rule same_data_srv_ok [OF d s0_ok]) (use f(1) c in \<open>auto simp: s1_def client_ok_def new_client_def cf0_def split: if_splits\<close>)
qed

definition c2 :: "cmd mclient" where
  "c2 = new_client\<lparr>multi := True, watched_keys := [(0, map of_char ''k'')], commands := [(Key CmdIncr, [str ''incr'', str ''k''])]\<rparr>"

definition s2 :: "unit srv" where
  "s2 = set_client 0 c2 s1"

lemma s2_ok: "srv_ok {Key CmdIncr, CmdExec} s2" "clients s2 0 = Some c2" "view s2 = (\<lambda>d k. None)" "same_data s0 s2"
    "mstime s2 = 1000" "conf s2 = cf0"
    "lua_time s2 = None" "loading s2 = False" "masterhost s2 = False"
proof -
  have c: "conf s1 = cf0" "mstime s1 = 1000" "lua_time s1 = None" "loading s1 = False" "masterhost s1 = False" using s1_ok(2) by (simp_all add: same_data_def env_of_def)
  have q: "call_ok CmdIncr [str ''incr'', str ''k'']"
    by (simp add: call_ok_def redisCommandTable_def arity_ok_def str_ok)
  show "srv_ok {Key CmdIncr, CmdExec} s2"
    unfolding s2_def
    by (rule set_client_ok [OF s1_ok(1), of 0 "new_client\<lparr>watched_keys := [(0, map of_char ''k'')]\<rparr>"])
      (use q c in \<open>simp_all add: s1_ok(3) c2_def client_ok_def new_client_def cf0_def\<close>)
  show d: "same_data s0 s2" unfolding s2_def by (rule same_data_trans [OF s1_ok(2)]) simp
  show "view s2 = (\<lambda>d k. None)" using same_data_view [OF d] s0_view by simp
  show "clients s2 0 = Some c2" by (simp add: s2_def)
  show "mstime s2 = 1000" "conf s2 = cf0" "lua_time s2 = None" "loading s2 = False" "masterhost s2 = False" using c by (simp_all add: s2_def set_client_def)
qed


subsection \<open>Transactions\<close>

lemma unwatchKey_dirty [simp]: "dirty (unwatchKey i x s) = dirty s"
  by (simp add: unwatchKey_def Let_def set_db_def redisAssert_def split: prod.split option.split)

lemma fold_unwatch_dirty [simp]: "dirty (fold (unwatchKey i) xs s) = dirty s"
  by (induction xs arbitrary: s) simp_all

lemma unwatch_dirty: "dirty (unwatchAllKeys i s) = dirty s"
  by (simp add: unwatchAllKeys_def set_client_def split: option.split)

lemma discard_dirty: "dirty (discardTransaction i s) = dirty s"
  by (simp add: discardTransaction_def unwatch_dirty upd_client_def set_client_def split: option.split)

text \<open>
  C12. The invariant of a running server without a memory limit: in every state that any number of
  clients can reach with requests of the modelled commands, under any clock, with keys that expire and
  changes of role, only existing keys have a time of expiry, the stored objects are well formed, the two sides of the bookkeeping of watched
  keys agree, no assertion has failed, each client is on an existing data base, and a queue holds
  checked commands, and none outside of a transaction. The requests are those of \<open>request_ok\<close>: any
  number of arguments of at most 512 MB, except that the offset and the length of a \<open>SETRANGE\<close> must not
  overflow 64 bits together, where the code checks the wrong sum (\<open>t_string.c\<close> line 194).
\<close>

theorem reachable_invariant:
  assumes "reachable A cf s" "0 < dbnum cf" "maxmemory cf = 0"
  shows "db_inv s \<and> watch_inv s \<and> \<not> failed s \<and> (\<forall>i. case clients s i of None \<Rightarrow> True | Some c \<Rightarrow> client_ok A (dbnum cf) c)"
  using reachable_ok [OF assms] by (auto simp: srv_ok_def split: option.split)

lemma s0_reachable: "reachable A cf0 s0"
  unfolding s0_def by (rule reachable.more [OF reachable.start step.connect]) (simp add: initServer_def)

lemma reachable_invariant_witness: "db_inv s0 \<and> watch_inv s0 \<and> \<not> failed s0"
  using reachable_invariant [OF s0_reachable [of UNIV]] by (simp add: cf0_def)

text \<open>
  C11. Optimistic locking, on a server without a memory limit: if a client watches a key from one
  reachable state to another, whatever all clients do in between (commands, transactions, connecting
  and leaving, the clock, expiry), and its \<open>EXEC\<close> then runs the transaction, the key has the value it
  had, unless it had a time of expiry which is before the latest time \<open>T\<close> that the clock showed in
  between, and it is gone. The commands are those of C12 other than \<open>MOVE\<close>, which does not flag the
  watchers. With a memory limit the statement is false of the code: \<open>freeMemoryIfNeeded\<close> removes keys
  and does not flag their watchers.
\<close>

theorem optimistic_locking:
  assumes "reachable A cf s" "0 < dbnum cf" "maxmemory cf = 0" "Key CmdMove \<notin> A" "guarded A i d k s T s'"
    "execCommand i argv s' = (RMultiLen n # rs, s'')"
  shows "stored s' d k = stored s d k \<or> (\<exists>w. exp_of s d k = Some w \<and> w < T \<and> stored s' d k = None)"
proof -
  from reachable_ok [OF assms(1-3)] have s: "srv_ok A s" "maxmemory (conf s) = 0" "lua_time s = None"
    using assms(3) by auto
  note g = guarded_ok [OF assms(5) s assms(4)]
  then obtain c where c: "clients s' i = Some c" by (auto simp: watches_def split: option.splits)
  with assms(6) have "\<not> dirty_cas c" by (auto simp: execCommand_def split: if_splits)
  with g c show ?thesis by (auto simp: unchanged_def)
qed

text \<open>The run of the example: \<open>WATCH k\<close> leads from \<open>s0\<close> to \<open>s1\<close>, then \<open>MULTI\<close>.\<close>

abbreviation no_data :: "cmd set" where
  "no_data \<equiv> {CmdWatch, CmdMulti, CmdExec}"

lemma lookups:
  "lookupCommand (map of_char ''watch'') = Some \<lparr>proc_of = CmdWatch, arity = -2, sflags = ''rsF'', firstkey = 1\<rparr>"
  "lookupCommand (map of_char ''multi'') = Some \<lparr>proc_of = CmdMulti, arity = 1, sflags = ''rsF'', firstkey = 0\<rparr>"
  by code_simp+

lemma not_quit:
  "\<not> strcaseeq (cstr (map of_char ''watch'')) (map of_char ''quit'')"
  "\<not> strcaseeq (cstr (map of_char ''multi'')) (map of_char ''quit'')"
  by code_simp+

lemma rewritten_s1: "s0\<lparr>rewritten := None\<rparr> = s0" "s1\<lparr>rewritten := None\<rparr> = s1"
proof -
  have r: "rewritten s0 = None" by (simp add: s0_def createClient_def set_client_def initServer_def)
  then show "s0\<lparr>rewritten := None\<rparr> = s0" by simp
  have "rewritten s1 = None"
    by (simp add: s1_def watchForKey_def set_client_def set_db_def Let_def r split: option.split)
  then show "s1\<lparr>rewritten := None\<rparr> = s1" by simp
qed

lemma dirty_s1: "dirty s1 = dirty s0"
  by (simp add: s1_def watchForKey_def set_client_def set_db_def Let_def)

lemma watch_request: "processCommand g0 0 [str ''watch'', str ''k''] s0 = (True, [ROk], s1)"
  by (simp add: processCommand_def lookups [simplified] not_quit [simplified] str_ok early_refusal_def refusal_def arity_ok_def g0_def cf0_def has_flag_def
      call_def rewritten_s1 watchCommand_def in_multi_def new_client_def drop_Cons'
      s1_def [symmetric, simplified] dirty_s1)

definition s1m :: "unit srv" where
  "s1m = upd_client 0 (\<lambda>c. c\<lparr>multi := True\<rparr>) s1"

lemma multi_request: "processCommand g0 0 [str ''multi''] s1 = (True, [ROk], s1m)"
proof -
  have c: "conf s1 = cf0" "masterhost s1 = False" "loading s1 = False"
    using s1_ok(2) by (simp_all add: same_data_def env_of_def)
  show ?thesis
    by (simp add: processCommand_def lookups [simplified] not_quit [simplified] str_ok early_refusal_def refusal_def
        arity_ok_def g0_def cf0_def has_flag_def call_def rewritten_s1 multiCommand_def in_multi_def new_client_def c
        s1_ok(3) s1m_def)
      (simp add: upd_client_def set_client_def s1_ok(3))
qed

lemma s1_run:
  "reachable no_data cf0 s1" "guarded no_data 0 0 (map of_char ''k'') s1 1000 s1m" "clients s1m 0 = Some (new_client\<lparr>multi := True, watched_keys := [(0, map of_char ''k'')]\<rparr>)"
proof -
  have c1: "clients s1 0 = Some (new_client\<lparr>watched_keys := [(0, map of_char ''k'')]\<rparr>)" by (simp add: s1_ok(3))
  show c: "clients s1m 0 = Some (new_client\<lparr>multi := True, watched_keys := [(0, map of_char ''k'')]\<rparr>)"
    by (simp add: s1m_def upd_client_def c1 new_client_def)
  have "request_ok no_data [str ''watch'', str ''k'']" "request_ok no_data [str ''multi'']"
    by (simp_all add: request_ok_def str_ok lookups [simplified])
  then have s: "step no_data s0 s1" "step no_data s1 s1m"
    using step.request [OF s0_sel(1) _ watch_request] step.request [OF c1 _ multi_request] by blast+
  show "reachable no_data cf0 s1" by (rule reachable.more [OF s0_reachable s(1)])
  have m: "mstime s1 = 1000" using s1_ok(2) by (simp add: same_data_def env_of_def)
  then have "mstime s1m = 1000" by (simp add: s1m_def upd_client_def set_client_def c1)
  moreover have "guarded no_data 0 0 (map of_char ''k'') s1 1000 s1"
    using guarded.here [of s1 0 0 "map of_char ''k''" no_data] m by (simp add: watches_def c1)
  ultimately show "guarded no_data 0 0 (map of_char ''k'') s1 1000 s1m"
    using guarded.later [OF _ s(2), of 0 0 "map of_char ''k''" s1 1000] by (simp add: watches_def c)
qed

lemma optimistic_locking_witness:
  "stored s1m 0 (map of_char ''k'') = stored s1 0 (map of_char ''k'') \<or>
   (\<exists>w. exp_of s1 0 (map of_char ''k'') = Some w \<and> w < 1000 \<and> stored s1m 0 (map of_char ''k'') = None)"
proof -
  have "execCommand 0 [] s1m = (RMultiLen 0 # [], snd (execCommand 0 [] s1m))"
    by (simp add: execCommand_def s1_run(3) new_client_def Let_def)
  from optimistic_locking [OF s1_run(1) _ _ _ s1_run(2) this] show ?thesis by (simp add: cf0_def)
qed

text \<open>
  C32. An aborted transaction: \<open>EXEC\<close> of a client that was flagged replies with a null, or with an
  error if queueing failed, changes no key, and ends the transaction and the watching of keys.
\<close>

theorem exec_aborts:
  assumes "srv_ok A s" "clients s i = Some c" "multi c" "dirty_cas c \<or> dirty_exec c" "execCommand i argv s = (r, s')"
  shows "r = [if dirty_exec c then RErr ExecAbort else RNullMulti] \<and> view s' = view s \<and> dirty s' = dirty s \<and>
    clients s' = (clients s)(i := Some (c\<lparr>commands := [], multi := False, dirty_cas := False,
      dirty_exec := False, watched_keys := []\<rparr>)) \<and> watch_inv s'"
proof -
  from assms(2-5) have r: "r = [if dirty_exec c then RErr ExecAbort else RNullMulti]" and s': "s' = discardTransaction i s"
    by (auto simp: execCommand_def)
  note d = discard_ok [OF assms(1,2) s']
  show ?thesis using r d(5) same_data_view [OF d(4)] d(1) discard_dirty [of i s] by (simp add: srv_ok_def s')
qed

definition s3 :: "unit srv" where
  "s3 = set_client 0 (c2\<lparr>dirty_cas := True\<rparr>) s2"

lemma s3_ok: "srv_ok {Key CmdIncr, CmdExec} s3" "clients s3 0 = Some (c2\<lparr>dirty_cas := True\<rparr>)" "same_data s2 s3"
proof -
  have "client_ok {Key CmdIncr, CmdExec} (dbnum (conf s2)) (c2\<lparr>dirty_cas := True\<rparr>)"
    using srv_ok_client [OF s2_ok(1,2)] by (simp add: client_ok_def)
  then show "srv_ok {Key CmdIncr, CmdExec} s3"
    unfolding s3_def by (intro set_client_ok [OF s2_ok(1,2)]) simp_all
qed (simp_all add: s3_def)

lemma exec_aborts_witness:
  "fst (execCommand 0 [] s3) = [RNullMulti] \<and> view (snd (execCommand 0 [] s3)) = view s3 \<and>
   clients (snd (execCommand 0 [] s3)) 0 = Some new_client"
proof -
  obtain r s' where o: "execCommand 0 [] s3 = (r, s')" by fastforce
  from exec_aborts [OF s3_ok(1,2) _ _ o] show ?thesis
    unfolding o by (simp add: c2_def new_client_def)
qed

text \<open>
  C13. A transaction is one block: \<open>EXEC\<close> of a client that is not flagged replies with the number of
  queued commands and their replies in order, and its effect is that of the specifications of the
  queued commands one after the other, with nothing in between but time: \<open>clock s\<close> gives the
  milliseconds that pass before each command, and a key whose time is over by then is gone for it.
  The caller is not a script (which may not call \<open>EXEC\<close>), and each command meets the conditions
  of C6 in the state in which it runs: no overflow, and no \<open>PERSIST\<close> of a key that is past its time.
\<close>

theorem exec_is_sequence:
  assumes "srv_ok A s" "clients s i = Some c" "multi c" "\<not> dirty_cas c" "\<not> dirty_exec c"
    "fits_queue i (commands c) False (unwatchAllKeys i s)" "execCommand i argv s = (r, s')" "lua_time s = None"
  shows "(r, view s') =
    (case spec_queue (clock s) (mstime s) (\<not> loading s \<and> \<not> masterhost s) (conf s) (cdb c)
            (map (\<lambda>(c, argv). (c, map obj_val argv)) (commands c)) (view s) of
       (rs, V) \<Rightarrow> (RMultiLen (length (commands c)) # rs, V))"
  using assms by (rule exec_refines)

text \<open>The key has the value 1 until the time 1002, it is 1000, and 5 milliseconds pass before the
  \<open>INCR\<close> of the transaction, which therefore starts from nothing.\<close>

definition s6 :: "unit srv" where
  "s6 = (setExpire 0 (map of_char ''k'') 1002 (put_val 0 (map of_char ''k'') (SVal (str ''1'')) s2))\<lparr>clock := [5]\<rparr>"

lemma s6_ok:
  "srv_ok {Key CmdIncr, CmdExec} s6" "clients s6 0 = Some c2" "lua_time s6 = None" "clock s6 = [5]" "mstime s6 = 1000"
  "conf s6 = cf0" "loading s6 = False" "masterhost s6 = False"
  "view s6 = upd_view (\<lambda>d k. None) 0 (map of_char ''k'') (Some (Inl (map of_char ''1''), Some 1002))"
proof -
  let ?k = "map of_char ''k'' :: bytes"
  have v: "val_ok (SVal (str ''1'') :: unit val)" using str_ok(1) [of "''1''"] by (simp add: val_ok_def arg_ok_def)
  define p where "p = put_val 0 ?k (SVal (str ''1'')) s2"
  define q where "q = setExpire 0 ?k 1002 p"
  note p = put_val_ok [OF v, of 0 ?k s2, folded p_def]
  have st: "stored p 0 ?k \<noteq> None" using p(2) by simp
  note q = setExpire_ok [OF st, of 1002, folded q_def]
  have c: "changes {(0, ?k)} s2 q" using changes_then [OF p(1) q(1), of "{(0, ?k)}"] by simp
  have e: "env_of q = env_of s2" by (rule changes_env [OF c])
  have s6: "s6 = q\<lparr>clock := [5]\<rparr>" by (simp add: s6_def q_def p_def)
  show "srv_ok {Key CmdIncr, CmdExec} s6"
    by (rule env_srv_ok [OF changes_srv_ok [OF c s2_ok(1)]]) (simp_all add: s6)
  show "clients s6 0 = Some c2" by (simp add: s6 q(4) p(5) s2_ok(2))
  show l: "lua_time s6 = None" "clock s6 = [5]" "mstime s6 = 1000" "conf s6 = cf0" "loading s6 = False" "masterhost s6 = False"
    using e s2_ok(5-9) by (simp_all add: s6 env_of_def)
  have n: "now_of q = 1000" using env_now [OF e] s2_ok(5,7) by (simp add: now_of_def)
  have "view s6 d k = view q d k" for d k
    using l e s2_ok(5-9) by (simp add: view_def expired_def now_of_def stored_def exp_of_def s6 env_of_def)
  moreover have "view q = upd_view (\<lambda>d k. None) 0 ?k (view q 0 ?k)" using changes_view_one [OF c] by (simp add: s2_ok(3))
  moreover have "view q 0 ?k = Some (Inl (map of_char ''1''), Some 1002)"
    using view_entry(1) [of q 0 ?k "Inl (map of_char ''1'')"] q(2,3) p(2) n by (simp add: past_def val_of_def str_ok)
  ultimately show "view s6 = upd_view (\<lambda>d k. None) 0 ?k (Some (Inl (map of_char ''1''), Some 1002))"
    by (metis ext)
qed

lemma exec_is_sequence_witness:
  "fst (execCommand 0 [] s6) = [RMultiLen 1, RColon (map of_char ''1'')] \<and>
   view (snd (execCommand 0 [] s6)) 0 (map of_char ''k'') = Some (Inl (map of_char ''1''), None)"
proof -
  obtain r s' where o: "execCommand 0 [] s6 = (r, s')" by fastforce
  have f: "fits_queue 0 (commands c2) False (unwatchAllKeys 0 s6)" by (simp add: c2_def Let_def)
  have "multi c2" "\<not> dirty_cas c2" "\<not> dirty_exec c2" by (simp_all add: c2_def new_client_def)
  from exec_is_sequence [OF s6_ok(1,2) this f o s6_ok(3)] show ?thesis
    unfolding o
    by (simp add: c2_def new_client_def spec_incr_def on_string_def s6_ok(4-9) str_ok in_srange_def dec_int_def
        dec_nat_small digit_def upd_view_def Let_def passed_def age_def past_def)
qed


lemma lookup_incr:
  "lookupCommand (map of_char ''incr'') = Some \<lparr>proc_of = Key CmdIncr, arity = 2, sflags = ''wmF'', firstkey = 1\<rparr>"
  "\<not> strcaseeq (cstr (map of_char ''incr'')) (map of_char ''quit'')"
  by code_simp+


text \<open>
  C38. Not every refusal aborts: a write that a read only replica refuses while a client queues its
  transaction leaves the transaction as it was, so that \<open>EXEC\<close> runs the other commands without it.
\<close>

theorem readonly_refusal_keeps_transaction:
  assumes "\<not> strcaseeq (cstr (key_of (argv ! 0))) (map of_char ''quit'')"
    "lookupCommand (key_of (argv ! 0)) = Some c" "early_refusal g (Some c) (length argv) s = None"
    "has_flag c CHR ''w''" "masterhost s" "readonly_replica g" "maxmemory (conf s) = 0"
  shows "processCommand g i argv s = (True, [RErr ReadOnlyReplica], s)"
  using assms by (simp add: processCommand_def refusal_def)

lemma readonly_refusal_keeps_transaction_witness:
  "processCommand (g0\<lparr>readonly_replica := True\<rparr>) 0 [str ''incr'', str ''k''] (s2\<lparr>masterhost := True\<rparr>) =
     (True, [RErr ReadOnlyReplica], s2\<lparr>masterhost := True\<rparr>)"
  by (rule readonly_refusal_keeps_transaction)
    (simp_all add: str_ok lookup_incr [simplified] early_refusal_def arity_ok_def has_flag_def s2_ok(6), simp_all add: g0_def cf0_def)

subsection \<open>Where the code differs\<close>

text \<open>
  \<open>MOVE\<close> is not seen by watchers: when it moves a key, the key is gone from the data base of the
  client for every reader, and no client is flagged, not even those that watch the key.
\<close>

theorem move_flags_nobody:
  assumes "db_inv s" "moveCommand i argv s = ([RInt 1], s')"
  shows "clients s' = clients s \<and> stored s' (cur_db i s) (key_of (argv ! 1)) = None \<and>
    view s (cur_db i s) (key_of (argv ! 1)) \<noteq> None"
proof -
  let ?d = "cur_db i s" and ?k = "key_of (argv ! 1)"
  from assms(2) obtain ix where ix: "getLongLongFromObject (Some (argv ! 2)) = Some ix"
    by (auto simp: moveCommand_def Let_def split: if_splits option.splits)
  obtain v t where t: "lookupKeyWrite ?d ?k s = (v, t)" by fastforce
  note lt = lookupKeyWrite_ok [OF assms(1) t]
  then have it: "db_inv t" by (simp add: looked_up_def)
  obtain x where x: "v = Some x" using assms(2) ix t by (auto simp: moveCommand_def Let_def split: if_splits option.splits)
  obtain old u where u: "lookupKeyWrite (nat ix) ?k t = (old, u)" by fastforce
  note lu = lookupKeyWrite_ok [OF it u]
  let ?a = "dbAdd (nat ix) ?k (incr_val x) u"
  define e where "e = fst (getExpire ?d ?k t)"
  have ge: "getExpire ?d ?k t = (e, t)" unfolding e_def using getExpire_eq [OF it, of ?d ?k] by simp
  have s': "s' = add_dirty 1 (snd (dbDelete ?d ?k (if e \<noteq> -1 then setExpire (nat ix) ?k e ?a else ?a)))"
    using assms(2) ix t u x ge by (auto simp: moveCommand_def Let_def split: if_splits)
  have "clients ?a = clients u" by (simp add: dbAdd_def put_val_def Let_def redisAssert_def)
  moreover have "clients (setExpire d k e w) = clients w" for d k e and w :: "'a srv"
    by (simp add: setExpire_def Let_def redisAssert_def)
  ultimately have "clients s' = clients s" using lt lu by (simp add: s' looked_up_def)
  moreover have "stored s' ?d ?k = None" by (simp add: s')
  moreover have "view s ?d ?k \<noteq> None" using lt x by (simp add: looked_up_def)
  ultimately show ?thesis by blast
qed

text \<open>A key \<open>k\<close> with the value 1, and the time of expiry 500, which is over.\<close>

definition s4 :: "unit srv" where
  "s4 = put_val 0 (map of_char ''k'') (SVal (str ''1'')) s0"

definition s5 :: "unit srv" where
  "s5 = setExpire 0 (map of_char ''k'') 500 s4"

lemma s4_ok: "db_inv s4" "watch_inv s4" "db_inv s5" "watch_inv s5"
proof -
  have v: "val_ok (SVal (str ''1''))" using str_ok(1) [of "''1''"] by (simp add: val_ok_def arg_ok_def)
  have c: "changes {(0, map of_char ''k'')} s0 s4" unfolding s4_def by (rule put_val_ok(1) [OF v])
  have i: "db_inv s0" "watch_inv s0" using s0_ok [of UNIV] by (simp_all add: srv_ok_def)
  have st: "stored s4 0 (map of_char ''k'') \<noteq> None" unfolding s4_def put_val_ok(2) [OF v] by simp
  show "db_inv s4" "watch_inv s4" using changes_inv [OF c i(1)] changes_watch_inv [OF c i(2)] by simp_all
  with changes_inv [OF setExpire_ok(1) [OF st]] changes_watch_inv [OF setExpire_ok(1) [OF st]]
  show "db_inv s5" "watch_inv s5" unfolding s5_def by blast+
qed

lemma move_flags_nobody_witness:
  "clients (snd (moveCommand 0 [str ''move'', str ''k'', str ''1''] s4)) = clients s4 \<and>
   stored (snd (moveCommand 0 [str ''move'', str ''k'', str ''1''] s4)) 0 (map of_char ''k'') = None"
proof -
  let ?a = "[str ''move'', str ''k'', str ''1'']"
  have n: "getLongLongFromObject (Some (str ''1'')) = Some 1"
    using int_of_ok [of "str ''1''"] str_ok(1,2) [of "''1''"] int_of_dec_int [of 1]
    by (simp add: arg_ok_def in_srange_def dec_int_def dec_nat_small digit_def)
  have "fst (moveCommand 0 ?a s4) = [RInt 1]"
    by (simp add: moveCommand_def n str_ok Let_def s4_def put_val_def lookupKeyWrite_def lookupKey_def expireIfNeeded_def
        getExpire_def dictSizeOf_def s0_def createClient_def initServer_def cf0_def cur_db_def set_client_def set_db_def new_client_def
        split: prod.split)
  then have "moveCommand 0 ?a s4 = ([RInt 1], snd (moveCommand 0 ?a s4))" by (simp add: prod_eq_iff)
  from move_flags_nobody [OF s4_ok(1) this] show ?thesis
    by (simp add: str_ok s4_def put_val_def Let_def cur_db_def new_client_def)
qed

text \<open>
  \<open>PERSIST\<close> revives dead keys: on a master, a key whose time is over reads as missing, but if
  nobody has read it yet, \<open>PERSIST\<close> takes the time away and the key is there again for good.
\<close>

theorem persist_revives:
  assumes "expired s (cur_db i s) (key_of (argv ! 1))" "stored s (cur_db i s) (key_of (argv ! 1)) = Some v"
  shows "view s (cur_db i s) (key_of (argv ! 1)) = None \<and>
    fst (persistCommand i argv s) = [RInt 1] \<and>
    view (snd (persistCommand i argv s)) (cur_db i s) (key_of (argv ! 1)) = Some (v, None)"
proof -
  let ?d = "cur_db i s" and ?k = "key_of (argv ! 1)"
  have e: "exp_of s ?d ?k \<noteq> None" using assms(1) by (auto simp: expired_def past_def split: option.splits)
  have k: "fmlookup (kdict (dbs s ?d)) ?k \<noteq> None" using assms(2) by (auto simp: stored_def)
  let ?t = "snd (removeExpire ?d ?k s)"
  have p: "persistCommand i argv s = ([RInt 1], add_dirty 1 ?t)"
    using e k by (auto simp: persistCommand_def Let_def removeExpire_def exp_of_def)
  have "stored ?t ?d ?k = Some v" "exp_of ?t ?d ?k = None"
    using assms(2) k by (auto simp: removeExpire_def Let_def stored_def exp_of_def)
  then have "view (add_dirty 1 ?t) ?d ?k = Some (v, None)" by (simp add: view_def expired_def past_def)
  with p assms(1) show ?thesis by (simp add: view_def)
qed

lemma persist_revives_witness:
  "view s5 0 (map of_char ''k'') = None \<and>
   view (snd (persistCommand 0 [str ''persist'', str ''k''] s5)) 0 (map of_char ''k'') = Some (Inl (map of_char ''1''), None)"
proof -
  have c: "cur_db 0 s5 = 0"
    by (simp add: s5_def s4_def setExpire_def put_val_def redisAssert_def Let_def set_db_def cur_db_def new_client_def)
  have st: "stored s4 0 (map of_char ''k'') = Some (Inl (map of_char ''1''))"
    by (simp add: s4_def put_val_def Let_def stored_def val_of_def str_ok)
  then have x: "stored s5 0 (map of_char ''k'') = Some (Inl (map of_char ''1''))" "exp_of s5 0 (map of_char ''k'') = Some 500"
    using setExpire_ok(2,3) [of s4 0 "map of_char ''k''" 500] by (simp_all add: s5_def)
  have "expired s5 0 (map of_char ''k'')"
    unfolding expired_def x(2)
    by (simp add: s5_def s4_def setExpire_def put_val_def redisAssert_def Let_def set_db_def past_def now_of_def)
  with persist_revives [of s5 0 "[str ''persist'', str ''k'']"] x(1) c show ?thesis by (simp add: str_ok)
qed

end
