(* ===== verification/Output.thy ===== *)
theory Output
  imports Object "HOL-Library.Signed_Division"
begin

text \<open>
  The reply side of \<open>src/src/src/networking.c\<close>: the output buffer of a client (16 KB, then a list of
  objects), the functions that add replies to it, and the sending of the Windows port, where a
  write is handed to the operating system (\<open>WSIOCP_SocketSend\<close>) and a callback runs when it is
  done. Not modelled: the accounting of memory with the limits of the output buffer, and
  \<open>addReplyDouble\<close>.
\<close>

definition REDIS_REPLY_CHUNK_BYTES :: nat where "REDIS_REPLY_CHUNK_BYTES = 16 * 1024"

definition REDIS_MAX_WRITE_PER_EVENT :: nat where "REDIS_MAX_WRITE_PER_EVENT = 1024 * 64"

subsection \<open>State\<close>

text \<open>A request handed to the socket: a part of the buffer, with the offset of its end, or an object.\<close>

datatype request = BufReq nat nat | ObjReq robj

text \<open>\<open>obuf\<close> is the used part of \<open>c->buf\<close>, so \<open>bufpos\<close> is its length. A node of the list is \<open>None\<close> while
  its length is deferred (\<open>ptr == NULL\<close>). \<open>online\<close>: not a replica that is still loading. \<open>wire\<close> is what
  the socket has been given, and \<open>inflight\<close> the requests that are not done.\<close>

record oclient =
  lua_client :: bool
  is_master :: bool
  force_reply :: bool
  fd :: int
  online :: bool
  close_after :: bool
  close_asap :: bool
  handler :: bool
  obuf :: bytes
  sentlen :: nat
  oreply :: "robj option list"
  wire :: bytes
  inflight :: "request list"

definition freeClientAsync :: "oclient \<Rightarrow> oclient" where
  "freeClientAsync c = (if close_asap c \<or> lua_client c then c else c\<lparr>close_asap := True\<rparr>)"

text \<open>\<open>ae_ok\<close>: the event handler can be installed.\<close>

definition prepareClientToWrite :: "bool \<Rightarrow> oclient \<Rightarrow> bool \<times> oclient" where
  "prepareClientToWrite ae_ok c =
     (if lua_client c then (True, c)
      else if is_master c \<and> \<not> force_reply c then (False, c)
      else if fd c \<le> 0 then (False, c)
      else if obuf c = [] \<and> oreply c = [] \<and> online c then
        if ae_ok then (True, c\<lparr>handler := True\<rparr>) else (False, freeClientAsync c)
      else (True, c))"

subsection \<open>Adding to the buffer and to the list\<close>

definition addReplyToBuffer :: "oclient \<Rightarrow> bytes \<Rightarrow> bool \<times> oclient" where
  "addReplyToBuffer c s =
     (if close_after c then (True, c)
      else if oreply c \<noteq> [] then (False, c)
      else if length s > REDIS_REPLY_CHUNK_BYTES - length (obuf c) then (False, c)
      else (True, c\<lparr>obuf := obuf c @ s\<rparr>))"

definition dupLastObjectIfNeeded :: "robj \<Rightarrow> robj" where
  "dupLastObjectIfNeeded cur = (if refcount cur > 1 then dupStringObject cur else cur)"

text \<open>The three functions that add to the list append \<open>s\<close> to the last object when it is a string of its
  own with room, and add a new object \<open>ob\<close> otherwise.\<close>

definition append_or_add :: "bytes \<Rightarrow> robj \<Rightarrow> robj option list \<Rightarrow> robj option list" where
  "append_or_add s ob l =
     (if l = [] then [Some ob]
      else case last l of
             None \<Rightarrow> l @ [Some ob]
           | Some tail \<Rightarrow>
               if encoding tail = ENC_RAW \<and> sds_len (ptr_sds (ptr tail)) + length s \<le> REDIS_REPLY_CHUNK_BYTES then
                 let tail = dupLastObjectIfNeeded tail
                 in butlast l @ [Some (tail\<lparr>ptr := Str (sdscatlen (ptr_sds (ptr tail)) s)\<rparr>)]
               else l @ [Some ob])"

definition addReplyObjectToList :: "oclient \<Rightarrow> robj \<Rightarrow> oclient" where
  "addReplyObjectToList c ob =
     (if close_after c then c
      else c\<lparr>oreply := append_or_add (sds_val (ptr_sds (ptr ob))) (incrRefCount ob) (oreply c)\<rparr>)"

definition addReplySdsToList :: "oclient \<Rightarrow> sds \<Rightarrow> oclient" where
  "addReplySdsToList c s =
     (if close_after c then c
      else c\<lparr>oreply := append_or_add (sds_val s) (createObject (Str s)) (oreply c)\<rparr>)"

definition addReplyStringToList :: "oclient \<Rightarrow> bytes \<Rightarrow> oclient" where
  "addReplyStringToList c s =
     (if close_after c then c
      else c\<lparr>oreply := append_or_add s (createStringObject (Some s) (length s)) (oreply c)\<rparr>)"

subsection \<open>Adding replies\<close>

definition addReply :: "bool \<Rightarrow> oclient \<Rightarrow> robj \<Rightarrow> oclient" where
  "addReply ae_ok c ob =
     (case prepareClientToWrite ae_ok c of
        (False, c) \<Rightarrow> c
      | (True, c) \<Rightarrow>
          let slow = (\<lambda>ob. case addReplyToBuffer c (sds_val (ptr_sds (ptr ob))) of
                             (True, c) \<Rightarrow> c
                           | (False, c) \<Rightarrow> addReplyObjectToList c ob)
          in if sdsEncodedObject ob then slow ob
             else if oreply c = [] \<and> REDIS_REPLY_CHUNK_BYTES - length (obuf c) \<ge> 32 then
               case ll2string (replicate 32 0) 32 (ptr_num (ptr ob)) of
                 (len, buf) \<Rightarrow>
                   case addReplyToBuffer c (take len buf) of
                     (True, c) \<Rightarrow> c
                   | (False, c) \<Rightarrow> slow (getDecodedObject ob)
             else slow (getDecodedObject ob))"

definition addReplySds :: "bool \<Rightarrow> oclient \<Rightarrow> sds \<Rightarrow> oclient" where
  "addReplySds ae_ok c s =
     (case prepareClientToWrite ae_ok c of
        (False, c) \<Rightarrow> c
      | (True, c) \<Rightarrow>
          case addReplyToBuffer c (sds_val s) of
            (True, c) \<Rightarrow> c
          | (False, c) \<Rightarrow> addReplySdsToList c s)"

definition addReplyString :: "bool \<Rightarrow> oclient \<Rightarrow> bytes \<Rightarrow> oclient" where
  "addReplyString ae_ok c s =
     (case prepareClientToWrite ae_ok c of
        (False, c) \<Rightarrow> c
      | (True, c) \<Rightarrow>
          case addReplyToBuffer c s of
            (True, c) \<Rightarrow> c
          | (False, c) \<Rightarrow> addReplyStringToList c s)"

abbreviation crlf :: bytes where "crlf \<equiv> [13, 10]"

definition addReplyErrorLength :: "bool \<Rightarrow> oclient \<Rightarrow> bytes \<Rightarrow> oclient" where
  "addReplyErrorLength a c s =
     addReplyString a (addReplyString a (addReplyString a c (map of_char ''-ERR '')) s) crlf"

definition addReplyStatusLength :: "bool \<Rightarrow> oclient \<Rightarrow> bytes \<Rightarrow> oclient" where
  "addReplyStatusLength a c s =
     addReplyString a (addReplyString a (addReplyString a c (map of_char ''+'')) s) crlf"

text \<open>The formatted message of an error, without line ends.\<close>

definition addReplyErrorFormat :: "bool \<Rightarrow> oclient \<Rightarrow> bytes \<Rightarrow> oclient" where
  "addReplyErrorFormat a c s = addReplyErrorLength a c (map (\<lambda>b. if b = 13 \<or> b = 10 then 32 else b) s)"

text \<open>\<open>shared.mbulkhdr\<close>, \<open>shared.bulkhdr\<close> and the other constant replies: a string object each.\<close>

definition shared_reply :: "bytes \<Rightarrow> robj" where
  "shared_reply s = createObject (Str (sdsnewlen (Some s) (length s)))"

definition header_line :: "byte \<Rightarrow> int \<Rightarrow> bytes" where
  "header_line prefix n = prefix # dec_int n @ crlf"

text \<open>The tables hold 32 replies; a negative number reads memory before them.\<close>

definition shared_header :: "byte \<Rightarrow> int \<Rightarrow> robj" where
  "shared_header prefix n = (if n < 0 then undefined else shared_reply (header_line prefix n))"

definition addReplyLongLongWithPrefix :: "bool \<Rightarrow> oclient \<Rightarrow> int \<Rightarrow> byte \<Rightarrow> oclient" where
  "addReplyLongLongWithPrefix a c ll prefix =
     (if (prefix = 42 \<or> prefix = 36) \<and> ll < 32 then addReply a c (shared_header prefix ll)
      else
        case ll2string (replicate 127 0) 127 ll of
          (len, buf) \<Rightarrow> addReplyString a c (prefix # take len buf @ crlf))"

definition addReplyLongLong :: "bool \<Rightarrow> oclient \<Rightarrow> int \<Rightarrow> oclient" where
  "addReplyLongLong a c ll =
     (if ll = 0 then addReply a c (shared_reply (map of_char '':0'' @ crlf))
      else if ll = 1 then addReply a c (shared_reply (map of_char '':1'' @ crlf))
      else addReplyLongLongWithPrefix a c ll 58)"

definition addReplyMultiBulkLen :: "bool \<Rightarrow> oclient \<Rightarrow> int \<Rightarrow> oclient" where
  "addReplyMultiBulkLen a c n =
     (if n < 32 then addReply a c (shared_header 42 n)
      else addReplyLongLongWithPrefix a c n 42)"

text \<open>The digits of a number and its sign, counted by dividing; the division truncates.\<close>

function count_digits :: "int \<Rightarrow> nat" where
  "count_digits n = (if n sdiv 10 = 0 then 1 else 1 + count_digits (n sdiv 10))"
  by pat_completeness auto
termination
  by (relation "measure (\<lambda>n. nat \<bar>n\<bar>)")
    (auto simp: signed_divide_int_def abs_mult abs_sgn_eq dest: zdiv_mono1)

declare count_digits.simps [simp del]

definition decimal_length :: "int \<Rightarrow> nat" where
  "decimal_length n = (if n < 0 then 1 + count_digits (wrap_s64 (- n)) else count_digits n)"

definition addReplyBulkLen :: "bool \<Rightarrow> oclient \<Rightarrow> robj \<Rightarrow> oclient" where
  "addReplyBulkLen a c ob =
     (let len = (if sdsEncodedObject ob then sds_len (ptr_sds (ptr ob)) else decimal_length (ptr_num (ptr ob)))
      in if len < 32 then addReply a c (shared_header 36 (int len))
         else addReplyLongLongWithPrefix a c (int len) 36)"

definition addReplyBulk :: "bool \<Rightarrow> oclient \<Rightarrow> robj \<Rightarrow> oclient" where
  "addReplyBulk a c ob = addReply a (addReply a (addReplyBulkLen a c ob) ob) (shared_reply crlf)"

definition addReplyBulkCBuffer :: "bool \<Rightarrow> oclient \<Rightarrow> bytes \<Rightarrow> oclient" where
  "addReplyBulkCBuffer a c p =
     addReply a (addReplyString a (addReplyLongLongWithPrefix a c (int (length p)) 36) p) (shared_reply crlf)"

definition addReplyBulkLongLong :: "bool \<Rightarrow> oclient \<Rightarrow> int \<Rightarrow> oclient" where
  "addReplyBulkLongLong a c ll =
     (case ll2string (replicate 64 0) 64 ll of (len, buf) \<Rightarrow> addReplyBulkCBuffer a c (take len buf))"

subsection \<open>Deferred lengths\<close>

text \<open>A node is given by its position in the list; until its length is set, only later nodes change.\<close>

definition addDeferredMultiBulkLength :: "bool \<Rightarrow> oclient \<Rightarrow> nat option \<times> oclient" where
  "addDeferredMultiBulkLength a c =
     (case prepareClientToWrite a c of
        (False, c) \<Rightarrow> (None, c)
      | (True, c) \<Rightarrow> (Some (length (oreply c)), c\<lparr>oreply := oreply c @ [None]\<rparr>))"

text \<open>\<open>%ld\<close> prints a \<open>long\<close>, of 32 bits with this compiler.\<close>

definition setDeferredMultiBulkLength :: "oclient \<Rightarrow> nat option \<Rightarrow> int \<Rightarrow> oclient" where
  "setDeferredMultiBulkLength c node n =
     (case node of
        None \<Rightarrow> c
      | Some i \<Rightarrow>
          let line = header_line 42 (sext 4 (n mod 2 ^ 32));
              len = sdsnewlen (Some line) (length line);
              l = oreply c
          in case (if i + 1 < length l then l ! (i + 1) else None) of
               Some nxt \<Rightarrow>
                 c\<lparr>oreply := take i l
                   @ [Some (createObject (Str (sdscatlen len (sds_val (ptr_sds (ptr nxt))))))]
                   @ drop (i + 2) l\<rparr>
             | None \<Rightarrow> c\<lparr>oreply := l[i := Some (createObject (Str len))]\<rparr>)"

subsection \<open>Sending\<close>

text \<open>The loop of \<open>sendReplyToClient\<close> of the Windows port. \<open>sock\<close> says whether the socket takes a request,
  by what it has been given before; \<open>over\<close>: the memory limit is exceeded. The results: the client, or
  \<open>None\<close> when it was freed because of an error.\<close>

definition chunk_val :: "robj option \<Rightarrow> bytes" where
  "chunk_val ch = (case ch of None \<Rightarrow> [] | Some ob \<Rightarrow> sds_val (ptr_sds (ptr ob)))"

function send_loop :: "(bytes \<Rightarrow> bool) \<Rightarrow> bool \<Rightarrow> nat \<Rightarrow> oclient \<Rightarrow> oclient option" where
  "send_loop sock over tot c =
     (if length (obuf c) > sentlen c then
        if \<not> sock (wire c) then None
        else
          let part = drop (sentlen c) (obuf c);
              tot = tot + length part;
              c' = c\<lparr>wire := wire c @ part, inflight := inflight c @ [BufReq (sentlen c) (length (obuf c))],
                    sentlen := length (obuf c)\<rparr>
          in if tot > REDIS_MAX_WRITE_PER_EVENT \<and> \<not> over then Some c' else send_loop sock over tot c'
      else
        case oreply c of
          [] \<Rightarrow> Some c
        | ch # rest \<Rightarrow>
            if chunk_val ch = [] then send_loop sock over tot (c\<lparr>oreply := rest\<rparr>)
            else if \<not> sock (wire c) then None
            else
              let tot = tot + length (chunk_val ch);
                  c' = c\<lparr>wire := wire c @ chunk_val ch, inflight := inflight c @ [ObjReq (the ch)], oreply := rest\<rparr>
              in if tot > REDIS_MAX_WRITE_PER_EVENT \<and> \<not> over then Some c' else send_loop sock over tot c')"
  by pat_completeness auto
termination
  by (relation "measure (\<lambda>(sock, over, tot, c). (length (obuf c) - sentlen c) + length (oreply c))") auto

definition sendReplyToClient :: "(bytes \<Rightarrow> bool) \<Rightarrow> bool \<Rightarrow> oclient \<Rightarrow> oclient option" where
  "sendReplyToClient sock over c = send_loop sock over 0 c"

text \<open>The callbacks. Requests are done in the order in which they were handed over.\<close>

definition all_sent :: "oclient \<Rightarrow> oclient" where
  "all_sent c =
     (let c = c\<lparr>handler := False\<rparr> in if close_after c then freeClientAsync c else c)"

definition sendReplyBufferDone :: "nat \<Rightarrow> oclient \<Rightarrow> oclient" where
  "sendReplyBufferDone offset c =
     (let c = (if length (obuf c) = offset then c\<lparr>obuf := [], sentlen := 0\<rparr> else c)
      in if obuf c = [] \<and> oreply c = [] then all_sent c else c)"

definition sendReplyListDone :: "oclient \<Rightarrow> oclient" where
  "sendReplyListDone c = (if obuf c = [] \<and> oreply c = [] then all_sent (c\<lparr>sentlen := 0\<rparr>) else c)"

definition request_done :: "oclient \<Rightarrow> oclient" where
  "request_done c =
     (case inflight c of
        [] \<Rightarrow> c
      | BufReq start offset # rest \<Rightarrow> sendReplyBufferDone offset (c\<lparr>inflight := rest\<rparr>)
      | ObjReq ob # rest \<Rightarrow> sendReplyListDone (c\<lparr>inflight := rest\<rparr>))"

subsection \<open>Facts about the parts\<close>

lemma dupString_ok:
  assumes "obj_ok o1" "sdsEncodedObject o1"
  shows "obj_ok (dupStringObject o1)" "obj_val (dupStringObject o1) = obj_val o1"
    "sdsEncodedObject (dupStringObject o1)"
proof -
  from assms obtain s where s: "ptr o1 = Str s" "sds_ok s" "encoding o1 \<noteq> ENC_INT"
    by (cases rule: obj_cases) auto
  have b: "sds_len s < 2 ^ 32" "sds_len s \<le> length (sds_buf s)" using s(2) by (auto simp: sds_ok_def)
  show "obj_ok (dupStringObject o1)" "obj_val (dupStringObject o1) = obj_val o1"
    "sdsEncodedObject (dupStringObject o1)"
    using s createRaw_ok [OF b] createEmbedded_ok [OF b]
    by (cases "encoding o1"; simp add: dupStringObject_def obj_val_def sds_val_def sdsEncodedObject_def
        createRawStringObject_def createEmbeddedStringObject_def createObject_def)+
qed

text \<open>A chunk of the list is a string object.\<close>

definition chunk_ok :: "robj \<Rightarrow> bool" where
  "chunk_ok ob \<longleftrightarrow> obj_ok ob \<and> sdsEncodedObject ob"

lemma chunk_sds:
  assumes "chunk_ok ob"
  obtains s where "ptr ob = Str s" "sds_ok s" "obj_val ob = sds_val s" "sds_len s = length (obj_val ob)"
proof -
  from assms obtain s where "ptr ob = Str s" "sds_ok s"
    unfolding chunk_ok_def by (auto elim: obj_cases)
  with that length_sds_val [of s] show thesis by (simp add: obj_val_def)
qed

lemma chunk_val_Some: "chunk_ok ob \<Longrightarrow> chunk_val (Some ob) = obj_val ob"
  by (auto elim!: chunk_sds simp: chunk_val_def)

lemma chunk_val_None [simp]: "chunk_val None = []"
  by (simp add: chunk_val_def)

lemma chunk_raw:
  assumes "sds_ok s"
  shows "chunk_ok (createObject (Str s))" "obj_val (createObject (Str s)) = sds_val s"
  using assms by (simp_all add: chunk_ok_def obj_ok_def obj_val_def createObject_def sdsEncodedObject_def)

lemma chunk_string:
  assumes "length s < 2 ^ 32"
  shows "chunk_ok (createStringObject (Some s) (length s))"
    "obj_val (createStringObject (Some s) (length s)) = s"
  using createString_ok [of "length s" s] assms by (simp_all add: chunk_ok_def)

lemma chunk_incr [simp]: "chunk_ok (incrRefCount ob) = chunk_ok ob" "obj_val (incrRefCount ob) = obj_val ob"
  by (simp_all add: chunk_ok_def incrRefCount_def obj_ok_def obj_val_def sdsEncodedObject_def
      split: sptr.split)

definition vals :: "robj option list \<Rightarrow> bytes" where
  "vals l = concat (map chunk_val l)"

lemma vals_simps [simp]:
  "vals [] = []" "vals (x # l) = chunk_val x @ vals l" "vals (l @ m) = vals l @ vals m"
  by (simp_all add: vals_def)

definition chunks_ok :: "robj option list \<Rightarrow> bool" where
  "chunks_ok l \<longleftrightarrow> (\<forall>ob. Some ob \<in> set l \<longrightarrow> chunk_ok ob)"

lemma chunks_ok_simps [simp]:
  "chunks_ok []" "chunks_ok (None # l) = chunks_ok l" "chunks_ok (Some ob # l) = (chunk_ok ob \<and> chunks_ok l)"
  "chunks_ok (l @ m) = (chunks_ok l \<and> chunks_ok m)"
  by (auto simp: chunks_ok_def)

text \<open>The bound on the length of a reply: twice the longest string.\<close>

definition REPLY_MAX :: nat where "REPLY_MAX = 2 ^ 30"

definition plain :: "robj option list \<Rightarrow> bool" where
  "plain l \<longleftrightarrow> (\<forall>ch \<in> set l. \<exists>ob. ch = Some ob \<and> length (obj_val ob) \<le> REPLY_MAX)"

lemma plain_simps [simp]:
  "plain []" "plain (x # l) = ((\<exists>ob. x = Some ob \<and> length (obj_val ob) \<le> REPLY_MAX) \<and> plain l)"
  "plain (l @ m) = (plain l \<and> plain m)"
  by (auto simp: plain_def)

lemma append_or_add_ok:
  assumes "chunks_ok l" "chunk_ok ob" "obj_val ob = s" "length s \<le> REPLY_MAX"
  shows "chunks_ok (append_or_add s ob l)" "vals (append_or_add s ob l) = vals l @ s"
    "plain l \<Longrightarrow> plain (append_or_add s ob l)" "append_or_add s ob l \<noteq> []"
    "None \<notin> set l \<Longrightarrow> None \<notin> set (append_or_add s ob l)"
proof -
  have add: "chunks_ok (l @ [Some ob]) \<and> vals (l @ [Some ob]) = vals l @ s \<and>
      (plain l \<longrightarrow> plain (l @ [Some ob])) \<and> l @ [Some ob] \<noteq> [] \<and>
      (None \<notin> set l \<longrightarrow> None \<notin> set (l @ [Some ob]))"
    using assms by (simp add: chunk_val_Some)
  have "chunks_ok (append_or_add s ob l) \<and> vals (append_or_add s ob l) = vals l @ s \<and>
      (plain l \<longrightarrow> plain (append_or_add s ob l)) \<and> append_or_add s ob l \<noteq> [] \<and>
      (None \<notin> set l \<longrightarrow> None \<notin> set (append_or_add s ob l))"
  proof (cases "l = [] \<or> last l = None")
    case True
    with add show ?thesis by (auto simp: append_or_add_def)
  next
    case False
    then obtain k tail where l: "l = k @ [Some tail]"
      by (cases l rule: rev_cases) auto
    have t: "chunk_ok tail" "chunks_ok k" using assms(1) l by auto
    show ?thesis
    proof (cases "encoding tail = ENC_RAW \<and> sds_len (ptr_sds (ptr tail)) + length s \<le> REDIS_REPLY_CHUNK_BYTES")
      case False
      then have "append_or_add s ob l = l @ [Some ob]" using l by (auto simp: append_or_add_def)
      with add show ?thesis by simp
    next
      case room: True
      define d where "d = dupLastObjectIfNeeded tail"
      have d: "chunk_ok d" "obj_val d = obj_val tail"
        using t dupString_ok [of tail] by (auto simp: d_def dupLastObjectIfNeeded_def chunk_ok_def)
      obtain u where u: "ptr d = Str u" "sds_ok u" "obj_val d = sds_val u" "sds_len u = length (obj_val d)"
        using d(1) by (rule chunk_sds)
      have len: "length (obj_val tail) + length s \<le> REDIS_REPLY_CHUNK_BYTES"
        using room t(1) by (auto elim!: chunk_sds)
      then have "sds_len u + length s \<le> SDS_MAX"
        using u(4) d(2) by (simp add: REDIS_REPLY_CHUNK_BYTES_def SDS_MAX_def SDS_MAX_PREALLOC_def)
      note cat = sdscatlen_ok [OF u(2) this]
      define e where "e = d\<lparr>ptr := Str (sdscatlen u s)\<rparr>"
      have e: "chunk_ok e" "obj_val e = obj_val tail @ s"
        using d u cat by (auto simp: e_def chunk_ok_def obj_ok_def obj_val_def sdsEncodedObject_def)
      have "append_or_add s ob l = k @ [Some e]"
        using room l u by (simp add: append_or_add_def e_def flip: d_def)
      moreover have "length (obj_val e) \<le> REPLY_MAX"
        using e(2) len by (simp add: REDIS_REPLY_CHUNK_BYTES_def REPLY_MAX_def)
      ultimately show ?thesis using l e t by (auto simp: chunk_val_Some)
    qed
  qed
  then show "chunks_ok (append_or_add s ob l)" "vals (append_or_add s ob l) = vals l @ s"
    "plain l \<Longrightarrow> plain (append_or_add s ob l)" "append_or_add s ob l \<noteq> []"
    "None \<notin> set l \<Longrightarrow> None \<notin> set (append_or_add s ob l)"
    by auto
qed

lemma append_or_add_hole: "append_or_add s ob (pre @ None # suf) = pre @ None # append_or_add s ob suf"
  by (simp add: append_or_add_def butlast_append Let_def split: option.split)

subsection \<open>What a reply adds\<close>

text \<open>The client takes replies; the write handler is there when something is to be sent.\<close>

definition takes :: "oclient \<Rightarrow> bool" where
  "takes c \<longleftrightarrow> (lua_client c \<or> ((is_master c \<longrightarrow> force_reply c) \<and> fd c > 0)) \<and> \<not> close_after c"

definition awake :: "oclient \<Rightarrow> bool" where
  "awake c \<longleftrightarrow> (\<not> lua_client c \<and> online c \<and> (obuf c \<noteq> [] \<or> oreply c \<noteq> []) \<longrightarrow> handler c)"

definition out_ok :: "oclient \<Rightarrow> bool" where
  "out_ok c \<longleftrightarrow> sentlen c \<le> length (obuf c) \<and> length (obuf c) \<le> REDIS_REPLY_CHUNK_BYTES \<and> chunks_ok (oreply c)"

text \<open>What adding replies leaves alone.\<close>

definition same_out :: "oclient \<Rightarrow> oclient \<Rightarrow> bool" where
  "same_out c d \<longleftrightarrow>
     lua_client d = lua_client c \<and> is_master d = is_master c \<and> force_reply d = force_reply c \<and>
     fd d = fd c \<and> online d = online c \<and> close_after d = close_after c \<and> close_asap d = close_asap c \<and>
     sentlen d = sentlen c \<and> wire d = wire c \<and> inflight d = inflight c"

lemma same_out_takes: "same_out c d \<Longrightarrow> takes d = takes c"
  by (simp add: same_out_def takes_def)

text \<open>\<open>d\<close> is \<open>c\<close> with \<open>s\<close> at its end. After a node whose length is deferred nothing goes to the buffer and
  nothing before the node changes.\<close>

definition adds :: "bytes \<Rightarrow> oclient \<Rightarrow> oclient \<Rightarrow> bool" where
  "adds s c d \<longleftrightarrow>
     same_out c d \<and> out_ok d \<and> (awake c \<longrightarrow> awake d) \<and>
     (\<exists>t. obuf d = obuf c @ t) \<and>
     obuf d @ vals (oreply d) = obuf c @ vals (oreply c) @ s \<and>
     (None \<notin> set (oreply c) \<longrightarrow> None \<notin> set (oreply d)) \<and>
     (\<forall>pre suf. oreply c = pre @ None # suf \<and> plain suf \<longrightarrow>
        obuf d = obuf c \<and> (\<exists>suf'. oreply d = pre @ None # suf' \<and> plain suf'))"

lemma addsD:
  assumes "adds s c d"
  shows "same_out c d" "out_ok d" "awake c \<Longrightarrow> awake d" "\<exists>t. obuf d = obuf c @ t"
    "obuf d @ vals (oreply d) = obuf c @ vals (oreply c) @ s"
    "None \<notin> set (oreply c) \<Longrightarrow> None \<notin> set (oreply d)"
    "oreply c = pre @ None # suf \<Longrightarrow> plain suf \<Longrightarrow>
      obuf d = obuf c \<and> (\<exists>suf'. oreply d = pre @ None # suf' \<and> plain suf')"
  using assms by (auto simp: adds_def)

lemma adds_none: "out_ok c \<Longrightarrow> adds [] c c"
  by (auto simp: adds_def same_out_def)

lemma adds_trans:
  assumes "adds s c d" "adds t d e"
  shows "adds (s @ t) c e"
proof -
  note a = addsD [OF assms(1)] and b = addsD [OF assms(2)]
  have "obuf e = obuf c \<and> (\<exists>suf'. oreply e = pre @ None # suf' \<and> plain suf')"
    if h: "oreply c = pre @ None # suf" "plain suf" for pre suf
    using a(7) [OF h] b(7) by metis
  moreover have "\<exists>t. obuf e = obuf c @ t" using a(4) b(4) by auto
  moreover have "obuf e @ vals (oreply e) = obuf c @ vals (oreply c) @ s @ t"
    using a(5) b(5) by (metis append.assoc)
  ultimately show ?thesis
    unfolding adds_def using a(1-3,6) b(1-3,6) by (simp add: same_out_def)
qed

lemma adds_takes: "adds s c d \<Longrightarrow> takes d = takes c"
  by (rule same_out_takes [OF addsD(1)])

lemma prepare_takes:
  assumes "takes c"
  obtains h where "prepareClientToWrite True c = (True, c\<lparr>handler := h\<rparr>)" "handler c \<longrightarrow> h"
    "awake c \<longrightarrow> \<not> lua_client c \<and> online c \<longrightarrow> h"
proof -
  have "\<exists>h. prepareClientToWrite True c = (True, c\<lparr>handler := h\<rparr>) \<and> (handler c \<longrightarrow> h) \<and>
      (awake c \<longrightarrow> \<not> lua_client c \<and> online c \<longrightarrow> h)"
    using assms by (cases c) (auto simp: prepareClientToWrite_def takes_def awake_def)
  with that show thesis by blast
qed

text \<open>The pattern of all functions that add: the buffer, and the list when it does not fit.\<close>

definition add_to :: "oclient \<Rightarrow> bytes \<Rightarrow> robj \<Rightarrow> oclient" where
  "add_to c s ob =
     (case addReplyToBuffer c s of
        (True, c) \<Rightarrow> c
      | (False, c) \<Rightarrow> c\<lparr>oreply := append_or_add s ob (oreply c)\<rparr>)"

lemma add_to_adds:
  assumes "takes c" "out_ok c" "prepareClientToWrite True c = (True, c1)"
    "chunk_ok ob" "obj_val ob = s" "length s \<le> REPLY_MAX"
  shows "adds s c (add_to c1 s ob)"
proof -
  obtain h where h: "c1 = c\<lparr>handler := h\<rparr>" "handler c \<longrightarrow> h"
    "awake c \<longrightarrow> \<not> lua_client c \<and> online c \<longrightarrow> h"
    using prepare_takes [OF assms(1)] assms(3) by (metis prod.inject)
  have ca: "\<not> close_after c" using assms(1) by (simp add: takes_def)
  show ?thesis
  proof (cases "oreply c = [] \<and> length s \<le> REDIS_REPLY_CHUNK_BYTES - length (obuf c)")
    case True
    then have "add_to c1 s ob = c\<lparr>obuf := obuf c @ s, oreply := oreply c, handler := h\<rparr>"
      using h ca by (simp add: add_to_def addReplyToBuffer_def not_le [symmetric])
    with True h assms(2) show ?thesis
      by (auto simp: adds_def same_out_def out_ok_def awake_def)
  next
    case False
    note l = append_or_add_ok [OF _ assms(4-6), of "oreply c"]
    have r: "add_to c1 s ob = c\<lparr>obuf := obuf c, oreply := append_or_add s ob (oreply c), handler := h\<rparr>"
      using False h ca by (auto simp: add_to_def addReplyToBuffer_def)
    have ck: "chunks_ok (oreply c)" using assms(2) by (simp add: out_ok_def)
    have "\<exists>suf'. append_or_add s ob (pre @ None # suf) = pre @ None # suf' \<and> plain suf'"
      if "oreply c = pre @ None # suf" "plain suf" for pre suf
      using append_or_add_ok(3) [of suf ob s] that ck assms(4-6) by (simp add: append_or_add_hole)
    with l [OF ck] assms(2) h show ?thesis
      unfolding r adds_def by (auto simp: same_out_def out_ok_def awake_def)
  qed
qed

subsection \<open>What each reply adds\<close>

lemma addReplyString_adds:
  assumes "takes c" "out_ok c" "length s \<le> REPLY_MAX"
  shows "adds s c (addReplyString True c s)"
proof -
  obtain h where p: "prepareClientToWrite True c = (True, c\<lparr>handler := h\<rparr>)"
    using assms(1) by (rule prepare_takes)
  have "length s < 2 ^ 32" using assms(3) by (simp add: REPLY_MAX_def)
  note o = chunk_string [OF this]
  have "addReplyString True c s =
      add_to (c\<lparr>handler := h\<rparr>) s (createStringObject (Some s) (length s))"
    using assms(1) p
    by (auto simp: addReplyString_def add_to_def addReplyToBuffer_def addReplyStringToList_def takes_def)
  with add_to_adds [OF assms(1,2) p o assms(3)] show ?thesis by simp
qed

lemma addReplySds_adds:
  assumes "takes c" "out_ok c" "sds_ok s" "length (sds_val s) \<le> REPLY_MAX"
  shows "adds (sds_val s) c (addReplySds True c s)"
proof -
  obtain h where p: "prepareClientToWrite True c = (True, c\<lparr>handler := h\<rparr>)"
    using assms(1) by (rule prepare_takes)
  have "addReplySds True c s = add_to (c\<lparr>handler := h\<rparr>) (sds_val s) (createObject (Str s))"
    using assms(1) p
    by (auto simp: addReplySds_def add_to_def addReplyToBuffer_def addReplySdsToList_def takes_def)
  with add_to_adds [OF assms(1,2) p chunk_raw [OF assms(3)] assms(4)] show ?thesis by simp
qed

lemma addReply_adds:
  assumes "takes c" "out_ok c" "obj_ok ob" "length (obj_val ob) \<le> REPLY_MAX"
  shows "adds (obj_val ob) c (addReply True c ob)"
proof -
  obtain h where p: "prepareClientToWrite True c = (True, c\<lparr>handler := h\<rparr>)"
    using assms(1) by (rule prepare_takes)
  define c1 where "c1 = c\<lparr>handler := h\<rparr>"
  define slow where "slow = (\<lambda>ob. case addReplyToBuffer c1 (sds_val (ptr_sds (ptr ob))) of
      (True, c) \<Rightarrow> c | (False, c) \<Rightarrow> addReplyObjectToList c ob)"
  have ca: "\<not> close_after c1" using assms(1) by (simp add: c1_def takes_def)
  have slow: "slow b = add_to c1 (obj_val b) (incrRefCount b)" if "chunk_ok b" for b
    using that ca
    by (auto elim!: chunk_sds simp: slow_def add_to_def addReplyToBuffer_def addReplyObjectToList_def)
  have a: "adds (obj_val ob) c (slow b)" if "chunk_ok b" "obj_val b = obj_val ob" for b
    using add_to_adds [OF assms(1,2) p, of "incrRefCount b" "obj_val ob"] slow [OF that(1)] that assms(4)
    by (simp add: c1_def)
  have r: "addReply True c ob =
      (if sdsEncodedObject ob then slow ob
       else if oreply c1 = [] \<and> REDIS_REPLY_CHUNK_BYTES - length (obuf c1) \<ge> 32 then
         case ll2string (replicate 32 0) 32 (ptr_num (ptr ob)) of
           (len, buf) \<Rightarrow>
             case addReplyToBuffer c1 (take len buf) of
               (True, c) \<Rightarrow> c
             | (False, c) \<Rightarrow> slow (getDecodedObject ob)
       else slow (getDecodedObject ob))"
    unfolding addReply_def p slow_def c1_def [symmetric] Let_def
    by (auto simp: addReplyToBuffer_def split: prod.splits bool.splits if_splits)
  from assms(3) show ?thesis
  proof (cases rule: obj_cases)
    case (str s)
    then have "chunk_ok ob" using assms(3) by (simp add: chunk_ok_def)
    with a r str(2) show ?thesis by simp
  next
    case (num v)
    have d: "chunk_ok (getDecodedObject ob)" "obj_val (getDecodedObject ob) = obj_val ob"
      using getDecodedObject_ok [OF assms(3)] by (simp_all add: chunk_ok_def)
    show ?thesis
    proof (cases "oreply c1 = [] \<and> REDIS_REPLY_CHUNK_BYTES - length (obuf c1) \<ge> 32")
      case True
      have l: "length (dec_int v) \<le> 20" using num(4) by (rule length_dec_int_le)
      have n: "ll2string (replicate 32 0) 32 v = (length (dec_int v), splice 0 (dec_int v @ [0]) (replicate 32 0))"
        using ll2string_small [OF num(4), of 32 "replicate 32 0"] by simp
      have t: "take (length (dec_int v)) (splice 0 (dec_int v @ [0]) (replicate 32 0)) = dec_int v"
        by (simp add: splice_def)
      have v: "obj_val ob = dec_int v" using num(1) by (simp add: obj_val_def)
      have "addReply True c ob = add_to c1 (obj_val ob) (incrRefCount (getDecodedObject ob))"
        using r num True n t v l ca by (simp add: add_to_def addReplyToBuffer_def)
      with add_to_adds [OF assms(1,2) p, of "incrRefCount (getDecodedObject ob)" "obj_val ob"] d assms(4)
      show ?thesis by (simp add: c1_def)
    next
      case False
      then have "addReply True c ob = slow (getDecodedObject ob)" 
        unfolding r if_not_P [OF num(2)] if_not_P [OF False] by simp
      with a d show ?thesis by simp
    qed
  qed
qed

lemma count_digits_dec: "count_digits n = length (dec_nat (nat \<bar>n\<bar>))"
proof (induction n rule: count_digits.induct)
  case (1 n)
  have q: "nat \<bar>n sdiv 10\<bar> = nat \<bar>n\<bar> div 10"
    by (simp add: signed_divide_int_def abs_mult abs_sgn_eq nat_div_distrib)
  have z: "n sdiv 10 = 0 \<longleftrightarrow> nat \<bar>n\<bar> < 10"
    using q by (metis abs_eq_0 div_eq_0_iff nat_0_iff abs_ge_zero antisym zero_neq_numeral)
  show ?case
    using 1 q z by (subst count_digits.simps, subst dec_nat.simps) simp
qed

lemma decimal_length_ok:
  assumes "in_srange 8 n"
  shows "decimal_length n = length (dec_int n)"
proof (cases "n = LLONG_MIN")
  case True
  have "wrap_s64 (- LLONG_MIN) = LLONG_MIN" by (simp add: wrap_s64_def sext_def LLONG_MIN_def)
  then show ?thesis
    using True by (simp add: decimal_length_def count_digits_dec dec_int_def LLONG_MIN_def)
next
  case False
  then have "in_srange 8 (- n)" using assms by (auto simp: in_srange_def LLONG_MIN_def)
  then show ?thesis
    by (simp add: decimal_length_def count_digits_dec dec_int_def wrap_s64_id)
qed

lemma shared_reply_adds:
  assumes "takes c" "out_ok c" "length s \<le> REPLY_MAX"
  shows "adds s c (addReply True c (shared_reply s))"
proof -
  have "length s < 2 ^ 32" using assms(3) by (simp add: REPLY_MAX_def)
  then have "sds_ok (sdsnewlen (Some s) (length s))" "sds_val (sdsnewlen (Some s) (length s)) = s"
    using sdsnewlen_ok [of "length s" "Some s"] by simp_all
  then have "obj_ok (shared_reply s)" "obj_val (shared_reply s) = s"
    using chunk_raw by (auto simp: shared_reply_def chunk_ok_def)
  with addReply_adds [OF assms(1,2), of "shared_reply s"] assms(3) show ?thesis by simp
qed

lemma header_line_len: "in_srange 8 n \<Longrightarrow> length (header_line p n) \<le> REPLY_MAX"
  using length_dec_int_le [of n] by (simp add: header_line_def REPLY_MAX_def)

lemma addReplyLongLongWithPrefix_adds:
  assumes "takes c" "out_ok c" "in_srange 8 n" "p = 42 \<or> p = 36 \<longrightarrow> 0 \<le> n"
  shows "adds (header_line p n) c (addReplyLongLongWithPrefix True c n p)"
proof (cases "(p = 42 \<or> p = 36) \<and> n < 32")
  case True
  then have "addReplyLongLongWithPrefix True c n p = addReply True c (shared_reply (header_line p n))"
    using assms(4) by (auto simp: addReplyLongLongWithPrefix_def shared_header_def)
  with shared_reply_adds [OF assms(1,2) header_line_len [OF assms(3)]] show ?thesis by simp
next
  case False
  have l: "ll2string (replicate 127 0) 127 n = (length (dec_int n), splice 0 (dec_int n @ [0]) (replicate 127 0))"
    using ll2string_small [OF assms(3), of 127 "replicate 127 0"] by simp
  have t: "take (length (dec_int n)) (splice 0 (dec_int n @ [0]) (replicate 127 0)) = dec_int n"
    by (simp add: splice_def)
  have "addReplyLongLongWithPrefix True c n p = addReplyString True c (header_line p n)"
    by (simp only: addReplyLongLongWithPrefix_def if_not_P [OF False] l t prod.case header_line_def)
  with addReplyString_adds [OF assms(1,2) header_line_len [OF assms(3)]] show ?thesis by simp
qed

subsection \<open>The replies\<close>

text \<open>A call of the functions above, and the bytes of the protocol that it stands for.\<close>

datatype reply =
    OStr bytes | OSds sds | OObj robj | OError bytes | OErrorFormat bytes | OStatus bytes
  | OInt int | OMulti int | OBulk robj | OBulkBuf bytes | OBulkInt int

fun emit :: "bool \<Rightarrow> oclient \<Rightarrow> reply \<Rightarrow> oclient" where
  "emit a c (OStr s) = addReplyString a c s"
| "emit a c (OSds s) = addReplySds a c s"
| "emit a c (OObj ob) = addReply a c ob"
| "emit a c (OError s) = addReplyErrorLength a c s"
| "emit a c (OErrorFormat s) = addReplyErrorFormat a c s"
| "emit a c (OStatus s) = addReplyStatusLength a c s"
| "emit a c (OInt n) = addReplyLongLong a c n"
| "emit a c (OMulti n) = addReplyMultiBulkLen a c n"
| "emit a c (OBulk ob) = addReplyBulk a c ob"
| "emit a c (OBulkBuf s) = addReplyBulkCBuffer a c s"
| "emit a c (OBulkInt n) = addReplyBulkLongLong a c n"

definition bulk_bytes :: "bytes \<Rightarrow> bytes" where
  "bulk_bytes s = header_line 36 (int (length s)) @ s @ crlf"

fun reply_bytes :: "reply \<Rightarrow> bytes" where
  "reply_bytes (OStr s) = s"
| "reply_bytes (OSds s) = sds_val s"
| "reply_bytes (OObj ob) = obj_val ob"
| "reply_bytes (OError s) = map of_char ''-ERR '' @ s @ crlf"
| "reply_bytes (OErrorFormat s) = map of_char ''-ERR '' @ map (\<lambda>b. if b \<in> {13, 10} then 32 else b) s @ crlf"
| "reply_bytes (OStatus s) = map of_char ''+'' @ s @ crlf"
| "reply_bytes (OInt n) = map of_char '':'' @ dec_int n @ crlf"
| "reply_bytes (OMulti n) = header_line 42 n"
| "reply_bytes (OBulk ob) = bulk_bytes (obj_val ob)"
| "reply_bytes (OBulkBuf s) = bulk_bytes s"
| "reply_bytes (OBulkInt n) = bulk_bytes (dec_int n)"

fun reply_ok :: "reply \<Rightarrow> bool" where
  "reply_ok (OStr s) = (length s \<le> REPLY_MAX)"
| "reply_ok (OSds s) = (sds_ok s \<and> length (sds_val s) \<le> REPLY_MAX)"
| "reply_ok (OObj ob) = (obj_ok ob \<and> length (obj_val ob) \<le> REPLY_MAX)"
| "reply_ok (OError s) = (length s \<le> REPLY_MAX)"
| "reply_ok (OErrorFormat s) = (length s \<le> REPLY_MAX)"
| "reply_ok (OStatus s) = (length s \<le> REPLY_MAX)"
| "reply_ok (OInt n) = in_srange 8 n"
| "reply_ok (OMulti n) = (in_srange 8 n \<and> 0 \<le> n)"
| "reply_ok (OBulk ob) = (obj_ok ob \<and> length (obj_val ob) \<le> REPLY_MAX)"
| "reply_ok (OBulkBuf s) = (length s \<le> REPLY_MAX)"
| "reply_ok (OBulkInt n) = in_srange 8 n"

lemma adds_step:
  assumes "adds s c d" "takes c" "takes d \<Longrightarrow> out_ok d \<Longrightarrow> adds t d e"
  shows "adds (s @ t) c e"
  using adds_trans [OF assms(1) assms(3)] adds_takes [OF assms(1)] addsD(2) [OF assms(1)] assms(2) by simp

lemma three_strings_adds:
  assumes "takes c" "out_ok c" "length s \<le> REPLY_MAX" "length p \<le> REPLY_MAX"
  shows "adds (p @ s @ crlf) c (addReplyString True (addReplyString True (addReplyString True c p) s) crlf)"
  using adds_step [OF adds_step [OF addReplyString_adds [OF assms(1,2,4)] assms(1) addReplyString_adds] assms(1)
      addReplyString_adds [of _ crlf]] assms(3)
  by (simp add: REPLY_MAX_def)

lemma addReplyBulkLen_adds:
  assumes "takes c" "out_ok c" "obj_ok ob" "length (obj_val ob) \<le> REPLY_MAX"
  shows "adds (header_line 36 (int (length (obj_val ob)))) c (addReplyBulkLen True c ob)"
proof -
  let ?n = "length (obj_val ob)"
  have n: "(if sdsEncodedObject ob then sds_len (ptr_sds (ptr ob)) else decimal_length (ptr_num (ptr ob))) = ?n"
    using assms(3) by (cases rule: obj_cases) (simp_all add: obj_val_def length_sds_val decimal_length_ok)
  have i: "in_srange 8 (int ?n)" using assms(4) by (simp add: in_srange_def REPLY_MAX_def)
  show ?thesis
  proof (cases "?n < 32")
    case True
    then have "addReplyBulkLen True c ob = addReply True c (shared_reply (header_line 36 (int ?n)))"
      by (simp add: addReplyBulkLen_def n shared_header_def)
    with shared_reply_adds [OF assms(1,2) header_line_len [OF i]] show ?thesis by simp
  next
    case False
    then have "addReplyBulkLen True c ob = addReplyLongLongWithPrefix True c (int ?n) 36"
      by (simp add: addReplyBulkLen_def n)
    with addReplyLongLongWithPrefix_adds [OF assms(1,2) i] show ?thesis by simp
  qed
qed

lemma addReplyBulkCBuffer_adds:
  assumes "takes c" "out_ok c" "length s \<le> REPLY_MAX"
  shows "adds (bulk_bytes s) c (addReplyBulkCBuffer True c s)"
proof -
  have i: "in_srange 8 (int (length s))" using assms(3) by (simp add: in_srange_def REPLY_MAX_def)
  show ?thesis
    using adds_step [OF adds_step [OF addReplyLongLongWithPrefix_adds [OF assms(1,2) i] assms(1)
          addReplyString_adds] assms(1) shared_reply_adds [of _ crlf]] assms(3)
    by (simp add: addReplyBulkCBuffer_def bulk_bytes_def REPLY_MAX_def)
qed

lemma addReplyBulk_adds:
  assumes "takes c" "out_ok c" "obj_ok ob" "length (obj_val ob) \<le> REPLY_MAX"
  shows "adds (bulk_bytes (obj_val ob)) c (addReplyBulk True c ob)"
  using adds_step [OF adds_step [OF addReplyBulkLen_adds [OF assms] assms(1) addReply_adds [OF _ _ assms(3,4)]]
      assms(1) shared_reply_adds [of _ crlf]]
  by (simp add: addReplyBulk_def bulk_bytes_def REPLY_MAX_def)

lemma emit_adds:
  assumes "takes c" "out_ok c" "reply_ok r"
  shows "adds (reply_bytes r) c (emit True c r)"
proof (cases r)
  case (OInt n)
  consider "n = 0" | "n = 1" | "n \<noteq> 0" "n \<noteq> 1" by blast
  then show ?thesis
  proof cases
    case 3
    with OInt assms addReplyLongLongWithPrefix_adds [OF assms(1,2), of n 58] show ?thesis
      by (simp add: addReplyLongLong_def header_line_def)
  qed (use OInt shared_reply_adds [OF assms(1,2)] in
      \<open>simp_all add: addReplyLongLong_def dec_int_def dec_nat_small digit_def REPLY_MAX_def\<close>)
next
  case (OMulti n)
  then show ?thesis
    using assms shared_reply_adds [OF assms(1,2) header_line_len, of n 42]
      addReplyLongLongWithPrefix_adds [OF assms(1,2), of n 42]
    by (simp add: addReplyMultiBulkLen_def shared_header_def)
next
  case (OBulkInt n)
  have n: "in_srange 8 n" using OBulkInt assms(3) by simp
  have "addReplyBulkLongLong True c n = addReplyBulkCBuffer True c (dec_int n)"
    using ll2string_small [OF n, of 64 "replicate 64 0"] by (simp add: addReplyBulkLongLong_def splice_def)
  with OBulkInt length_dec_int_le [OF n] addReplyBulkCBuffer_adds [OF assms(1,2), of "dec_int n"]
  show ?thesis by (simp add: REPLY_MAX_def)
next
  case (OError s)
  then show ?thesis
    using assms three_strings_adds [OF assms(1,2), of s "map of_char ''-ERR ''"]
    by (simp add: addReplyErrorLength_def REPLY_MAX_def)
next
  case (OErrorFormat s)
  then show ?thesis
    using assms three_strings_adds [OF assms(1,2), of "map (\<lambda>b. if b = 13 \<or> b = 10 then 32 else b) s"
        "map of_char ''-ERR ''"]
    by (simp add: addReplyErrorFormat_def addReplyErrorLength_def REPLY_MAX_def)
next
  case (OStatus s)
  then show ?thesis
    using assms three_strings_adds [OF assms(1,2), of s "map of_char ''+''"]
    by (simp add: addReplyStatusLength_def REPLY_MAX_def)
qed (use assms in \<open>auto intro!: addReplyString_adds addReplySds_adds addReply_adds
    addReplyBulk_adds addReplyBulkCBuffer_adds\<close>)

subsection \<open>Sending\<close>

text \<open>The bytes that a request covers are read from the buffer of the client while it is in flight.\<close>

fun req_bytes :: "bytes \<Rightarrow> request \<Rightarrow> bytes" where
  "req_bytes b (BufReq start offset) = take (offset - start) (drop start b)"
| "req_bytes b (ObjReq ob) = obj_val ob"

fun buf_ends :: "request list \<Rightarrow> nat list" where
  "buf_ends [] = []"
| "buf_ends (BufReq start offset # l) = offset # buf_ends l"
| "buf_ends (ObjReq ob # l) = buf_ends l"

lemma buf_ends_append [simp]: "buf_ends (l @ m) = buf_ends l @ buf_ends m"
  by (induction l rule: buf_ends.induct) simp_all

definition in_flight :: "oclient \<Rightarrow> bytes" where
  "in_flight c = concat (map (req_bytes (obuf c)) (inflight c))"

definition to_send :: "oclient \<Rightarrow> bytes" where
  "to_send c = drop (sentlen c) (obuf c) @ vals (oreply c)"

definition send_ok :: "oclient \<Rightarrow> bool" where
  "send_ok c \<longleftrightarrow>
     out_ok c \<and> awake c \<and> sorted_wrt (<) (buf_ends (inflight c)) \<and>
     (\<forall>e \<in> set (buf_ends (inflight c)). e \<le> sentlen c) \<and>
     (obuf c \<noteq> [] \<and> sentlen c = length (obuf c) \<longrightarrow> sentlen c \<in> set (buf_ends (inflight c))) \<and>
     (\<exists>w. wire c = w @ in_flight c)"

lemma req_bytes_append:
  assumes "\<forall>e \<in> set (buf_ends l). e \<le> length b"
  shows "map (req_bytes (b @ t)) l = map (req_bytes b) l"
  using assms by (induction l rule: buf_ends.induct) auto

lemma adds_send_ok:
  assumes "adds s c d" "send_ok c"
  shows "send_ok d" "wire d @ to_send d = wire c @ to_send c @ s"
proof -
  note a = addsD [OF assms(1)]
  have o: "sentlen c \<le> length (obuf c)" using assms(2) by (simp add: send_ok_def out_ok_def)
  obtain t where t: "obuf d = obuf c @ t" using a(4) by blast
  have e: "\<forall>e \<in> set (buf_ends (inflight c)). e \<le> length (obuf c)"
    using assms(2) o by (auto simp: send_ok_def)
  have f: "in_flight d = in_flight c"
    using a(1) t by (simp add: in_flight_def same_out_def req_bytes_append [OF e])
  show "send_ok d"
    using a(1-3) assms(2) f t o by (auto simp: send_ok_def same_out_def)
  show "wire d @ to_send d = wire c @ to_send c @ s"
    using a(1,5) o t by (auto simp: to_send_def same_out_def)
qed

text \<open>The three steps of the loop.\<close>

definition send_buffer :: "oclient \<Rightarrow> oclient" where
  "send_buffer c = c\<lparr>wire := wire c @ drop (sentlen c) (obuf c),
     inflight := inflight c @ [BufReq (sentlen c) (length (obuf c))], sentlen := length (obuf c)\<rparr>"

definition send_chunk :: "oclient \<Rightarrow> oclient" where
  "send_chunk c = c\<lparr>wire := wire c @ chunk_val (hd (oreply c)),
     inflight := inflight c @ [ObjReq (the (hd (oreply c)))], oreply := tl (oreply c)\<rparr>"

definition skip_chunk :: "oclient \<Rightarrow> oclient" where
  "skip_chunk c = c\<lparr>oreply := tl (oreply c)\<rparr>"

definition same_flags :: "oclient \<Rightarrow> oclient \<Rightarrow> bool" where
  "same_flags c d \<longleftrightarrow>
     lua_client d = lua_client c \<and> is_master d = is_master c \<and> force_reply d = force_reply c \<and>
     fd d = fd c \<and> online d = online c \<and> close_after d = close_after c"

definition sends :: "oclient \<Rightarrow> oclient \<Rightarrow> bool" where
  "sends c d \<longleftrightarrow>
     same_flags c d \<and> obuf d = obuf c \<and> handler d = handler c \<and> close_asap d = close_asap c \<and>
     (send_ok c \<longrightarrow> send_ok d) \<and> (None \<notin> set (oreply c) \<longrightarrow> None \<notin> set (oreply d)) \<and>
     wire d @ to_send d = wire c @ to_send c \<and> length (oreply d) \<le> length (oreply c) \<and>
     (inflight d = [] \<longrightarrow> inflight c = [] \<and> wire d = wire c)"

lemma sends_refl: "sends c c"
  by (simp add: sends_def same_flags_def)

lemma sends_trans: "sends c d \<Longrightarrow> sends d e \<Longrightarrow> sends c e"
  unfolding sends_def same_flags_def by (metis append.assoc le_trans)

lemma send_buffer_sends:
  assumes "sentlen c < length (obuf c)"
  shows "sends c (send_buffer c)"
  using assms
  by (auto simp: sends_def same_flags_def send_ok_def out_ok_def awake_def send_buffer_def to_send_def
      in_flight_def sorted_wrt_append)

lemma send_chunk_sends:
  assumes "oreply c = Some ob # l" "chunk_ok ob" "sentlen c \<ge> length (obuf c)"
  shows "sends c (send_chunk c)"
  using assms
  by (auto simp: sends_def same_flags_def send_ok_def out_ok_def awake_def send_chunk_def to_send_def
      in_flight_def chunk_val_Some)

lemma skip_chunk_sends:
  assumes "oreply c = ch # l" "chunk_val ch = []"
  shows "sends c (skip_chunk c)"
  using assms
  by (cases ch) (auto simp: sends_def same_flags_def send_ok_def out_ok_def awake_def skip_chunk_def to_send_def
      in_flight_def)

lemma send_loop_steps:
  "send_loop sock over tot c =
     (if sentlen c < length (obuf c) then
        if \<not> sock (wire c) then None
        else
          let tot = tot + length (drop (sentlen c) (obuf c))
          in if tot > REDIS_MAX_WRITE_PER_EVENT \<and> \<not> over then Some (send_buffer c)
             else send_loop sock over tot (send_buffer c)
      else
        case oreply c of
          [] \<Rightarrow> Some c
        | ch # rest \<Rightarrow>
            if chunk_val ch = [] then send_loop sock over tot (skip_chunk c)
            else if \<not> sock (wire c) then None
            else
              let tot = tot + length (chunk_val ch)
              in if tot > REDIS_MAX_WRITE_PER_EVENT \<and> \<not> over then Some (send_chunk c)
                 else send_loop sock over tot (send_chunk c))"
  by (subst send_loop.simps)
    (auto simp: send_buffer_def send_chunk_def skip_chunk_def Let_def split: list.splits)

declare send_loop.simps [simp del]

text \<open>How much there is to do, in steps of the loop.\<close>

definition work :: "oclient \<Rightarrow> nat" where
  "work c = (if sentlen c < length (obuf c) then 1 else 0) + length (oreply c)"

lemma send_loop_sends:
  assumes "send_loop sock over tot c = Some d" "chunks_ok (oreply c)" "None \<notin> set (oreply c)"
  shows "sends c d \<and> work d \<le> work c \<and> (work c > 0 \<longrightarrow> work d < work c)"
  using assms
proof (induction "work c" arbitrary: tot c rule: less_induct)
  case less
  have step: "sends c d \<and> work d \<le> work c \<and> (work c > 0 \<longrightarrow> work d < work c)"
    if "d = e \<or> (\<exists>t. send_loop sock over t e = Some d)"
      "\<And>t. send_loop sock over t e = Some d \<Longrightarrow> sends e d \<and> work d \<le> work e \<and> (work e > 0 \<longrightarrow> work d < work e)"
      "sends c e" "work e < work c" for e
  proof -
    have "sends e d \<and> work d \<le> work e"
      using that(1,2) by (auto simp: sends_refl)
    with sends_trans [OF that(3)] that(4) show ?thesis by auto
  qed
  show ?case
  proof (cases "sentlen c < length (obuf c)")
    case True
    let ?c = "send_buffer c"
    have s: "sends c ?c" using True by (rule send_buffer_sends)
    have w: "work ?c < work c" "oreply ?c = oreply c" using True by (simp_all add: work_def send_buffer_def)
    have "d = ?c \<or> (\<exists>t. send_loop sock over t ?c = Some d)"
      using less.prems(1) True unfolding send_loop_steps [of sock over tot c]
      by (simp add: Let_def split: if_splits) blast
    moreover have "sends ?c d \<and> work d \<le> work ?c \<and> (work ?c > 0 \<longrightarrow> work d < work ?c)" if "send_loop sock over t ?c = Some d" for t
      using less.hyps [OF w(1) that] less.prems(2,3) w(2) by simp
    ultimately show ?thesis using s w(1) by (rule step)
  next
    case False
    show ?thesis
    proof (cases "oreply c")
      case Nil
      with less.prems(1) False show ?thesis
        by (subst (asm) send_loop_steps) (simp add: sends_refl work_def)
    next
      case (Cons ch l)
      with less.prems(3) obtain ob where ob: "ch = Some ob" by (cases ch) auto
      have ck: "chunk_ok ob" using less.prems(2) Cons ob by simp
      define e where "e = (if chunk_val ch = [] then skip_chunk c else send_chunk c)"
      have s: "sends c e"
        using skip_chunk_sends [OF Cons] send_chunk_sends [of c ob l] Cons ob ck False by (auto simp: e_def)
      have w: "work e < work c" "oreply e = l"
        using Cons False by (auto simp: e_def work_def skip_chunk_def send_chunk_def)
      have "d = e \<or> (\<exists>t. send_loop sock over t e = Some d)"
        using less.prems(1) False Cons unfolding send_loop_steps [of sock over tot c]
        by (simp add: Let_def e_def split: if_splits) blast+
      moreover have "sends e d \<and> work d \<le> work e \<and> (work e > 0 \<longrightarrow> work d < work e)" if "send_loop sock over t e = Some d" for t
        using less.hyps [OF w(1) that] less.prems(2,3) w(2) Cons ob by simp
      ultimately show ?thesis using s w(1) by (rule step)
    qed
  qed
qed

lemma send_ok_buf:
  assumes "send_ok c" "inflight c = BufReq start (length (obuf c)) # l"
  shows "buf_ends l = []"
proof (rule ccontr)
  assume "buf_ends l \<noteq> []"
  then obtain e where "e \<in> set (buf_ends l)" by (cases "buf_ends l") auto
  with assms show False by (fastforce simp: send_ok_def out_ok_def)
qed

lemma req_bytes_objs: "buf_ends l = [] \<Longrightarrow> map (req_bytes b) l = map (req_bytes b') l"
  by (induction l rule: buf_ends.induct) auto

definition finishes :: "oclient \<Rightarrow> oclient \<Rightarrow> bool" where
  "finishes c d \<longleftrightarrow>
     same_flags c d \<and> send_ok d \<and> oreply d = oreply c \<and> wire d = wire c \<and> to_send d = to_send c \<and>
     inflight d = tl (inflight c) \<and> (work c = 0 \<longrightarrow> work d = 0) \<and>
     (work c = 0 \<and> inflight c \<noteq> [] \<and> tl (inflight c) = [] \<longrightarrow> obuf d = [] \<and> \<not> handler d)"

lemma request_done_finishes:
  assumes "send_ok c"
  shows "finishes c (request_done c)"
proof (cases "inflight c")
  case Nil
  with assms show ?thesis by (simp add: finishes_def request_done_def same_flags_def)
next
  case (Cons r l)
  obtain w where w: "wire c = w @ in_flight c" using assms by (auto simp: send_ok_def)
  have w': "\<exists>w. wire c = w @ concat (map (req_bytes (obuf c)) l)"
    using w Cons by (auto simp: in_flight_def)
  show ?thesis
  proof (cases r)
    case (ObjReq ob)
    show ?thesis
      using assms w' Cons ObjReq
      by (auto simp: finishes_def request_done_def sendReplyListDone_def all_sent_def freeClientAsync_def
          same_flags_def send_ok_def out_ok_def awake_def in_flight_def to_send_def work_def Let_def)
  next
    case (BufReq start offset)
    show ?thesis
    proof (cases "length (obuf c) = offset")
      case True
      then have l: "buf_ends l = []" using send_ok_buf [OF assms, of start l] Cons BufReq by simp
      have s: "sentlen c = length (obuf c)" using assms Cons BufReq True by (auto simp: send_ok_def out_ok_def)
      have "\<exists>w. wire c = w @ concat (map (req_bytes []) l)" using w' req_bytes_objs [OF l] by metis
      with assms Cons BufReq True l s show ?thesis
        by (auto simp: finishes_def request_done_def sendReplyBufferDone_def all_sent_def freeClientAsync_def
            same_flags_def send_ok_def out_ok_def awake_def in_flight_def to_send_def work_def Let_def)
    next
      case False
      with assms w' Cons BufReq show ?thesis
        by (auto simp: finishes_def request_done_def sendReplyBufferDone_def all_sent_def freeClientAsync_def
            same_flags_def send_ok_def out_ok_def awake_def in_flight_def to_send_def work_def Let_def)
    qed
  qed
qed

subsection \<open>Sequences of events\<close>

text \<open>A call of a function that adds a reply, a reply whose length comes after its body, the socket
  being writable, and the completion of the oldest request.\<close>

datatype oevent = Reply reply | Counted "reply list" int | Writable "bytes \<Rightarrow> bool" bool | Done

definition counted :: "oclient \<Rightarrow> reply list \<Rightarrow> int \<Rightarrow> oclient" where
  "counted c rs n =
     (case addDeferredMultiBulkLength True c of
        (node, c) \<Rightarrow> setDeferredMultiBulkLength (foldl (emit True) c rs) node n)"

fun output_step :: "oevent \<Rightarrow> oclient \<Rightarrow> oclient option" where
  "output_step (Reply r) c = Some (emit True c r)"
| "output_step (Counted rs n) c = Some (counted c rs n)"
| "output_step (Writable sock over) c = sendReplyToClient sock over c"
| "output_step Done c = Some (request_done c)"

fun output_run :: "oevent list \<Rightarrow> oclient \<Rightarrow> oclient option" where
  "output_run [] c = Some c"
| "output_run (e # es) c = (case output_step e c of None \<Rightarrow> None | Some c \<Rightarrow> output_run es c)"

fun event_bytes :: "oevent \<Rightarrow> bytes" where
  "event_bytes (Reply r) = reply_bytes r"
| "event_bytes (Counted rs n) = header_line 42 n @ concat (map reply_bytes rs)"
| "event_bytes (Writable sock over) = []"
| "event_bytes Done = []"

fun event_ok :: "oevent \<Rightarrow> bool" where
  "event_ok (Reply r) = reply_ok r"
| "event_ok (Counted rs n) = (list_all reply_ok rs \<and> 0 \<le> n \<and> n < 2 ^ 31)"
| "event_ok (Writable sock over) = True"
| "event_ok Done = True"

lemma emits_adds:
  "takes c \<Longrightarrow> out_ok c \<Longrightarrow> list_all reply_ok rs \<Longrightarrow> adds (concat (map reply_bytes rs)) c (foldl (emit True) c rs)"
proof (induction rs arbitrary: c)
  case Nil
  then show ?case by (simp add: adds_none)
next
  case (Cons r rs)
  then show ?case using adds_step [OF emit_adds] by simp
qed

lemma set_deferred:
  assumes "oreply d = pre @ None # suf" "plain suf" "chunks_ok suf" "0 \<le> n" "n < 2 ^ 31"
  shows "\<exists>l. setDeferredMultiBulkLength d (Some (length pre)) n = d\<lparr>oreply := pre @ l\<rparr> \<and> chunks_ok l \<and>
    vals l = header_line 42 n @ vals suf \<and> None \<notin> set l \<and> l \<noteq> []"
proof -
  define line where "line = header_line 42 n"
  define len where "len = sdsnewlen (Some line) (length line)"
  have sp: "None \<notin> set suf" using assms(2) by (auto simp: plain_def)
  have n: "in_srange 8 n" "sext 4 (n mod 4294967296) = n" using assms(4,5) by (simp_all add: in_srange_def sext_def)
  have ll: "length line \<le> 30" using length_dec_int_le [OF n(1)] by (simp add: line_def header_line_def)
  then have len: "sds_ok len" "sds_val len = line" "sds_len len = length line"
    using sdsnewlen_ok [of "length line" "Some line"] by (simp_all add: len_def length_sds_val [symmetric])
  show ?thesis
  proof (cases suf)
    case Nil
    then have "setDeferredMultiBulkLength d (Some (length pre)) n = d\<lparr>oreply := pre @ [Some (createObject (Str len))]\<rparr>"
      using assms(1) by (simp add: setDeferredMultiBulkLength_def n(2) len_def line_def Let_def list_update_append)
    with Nil chunk_raw [OF len(1)] len(2) show ?thesis
      by (intro exI [of _ "[Some (createObject (Str len))]"]) (simp add: chunk_val_Some line_def)
  next
    case (Cons x rest)
    with assms(2) obtain nxt where x: "x = Some nxt" "length (obj_val nxt) \<le> REPLY_MAX" by auto
    have nx: "chunk_ok nxt" using assms(3) Cons x by simp
    then have nv: "sds_val (ptr_sds (ptr nxt)) = obj_val nxt" by (auto elim!: chunk_sds)
    define ob where "ob = createObject (Str (sdscatlen len (obj_val nxt)))"
    have "sds_ok (sdscatlen len (obj_val nxt))" "sds_val (sdscatlen len (obj_val nxt)) = line @ obj_val nxt"
      using sdscatlen_ok [OF len(1), of "obj_val nxt"] len(2,3) ll x(2)
      by (simp_all add: SDS_MAX_def SDS_MAX_PREALLOC_def REPLY_MAX_def)
    then have ob: "chunk_ok ob" "obj_val ob = line @ obj_val nxt" using chunk_raw by (simp_all add: ob_def)
    have "setDeferredMultiBulkLength d (Some (length pre)) n = d\<lparr>oreply := pre @ Some ob # rest\<rparr>"
      using assms(1) Cons x nv
      by (simp add: setDeferredMultiBulkLength_def n(2) len_def line_def ob_def Let_def nth_append)
    with Cons x assms(3) sp ob nx show ?thesis
      by (intro exI [of _ "Some ob # rest"]) (simp add: chunk_val_Some line_def)
  qed
qed

lemma counted_adds:
  assumes "takes c" "out_ok c" "None \<notin> set (oreply c)" "list_all reply_ok rs" "0 \<le> n" "n < 2 ^ 31"
  defines "s \<equiv> concat (map reply_bytes rs)"
  shows "same_out c (counted c rs n)" "out_ok (counted c rs n)" "awake c \<longrightarrow> awake (counted c rs n)"
    "obuf (counted c rs n) = obuf c" "None \<notin> set (oreply (counted c rs n))"
    "vals (oreply (counted c rs n)) = vals (oreply c) @ header_line 42 n @ s"
proof -
  obtain h where p: "prepareClientToWrite True c = (True, c\<lparr>handler := h\<rparr>)" "handler c \<longrightarrow> h"
    "awake c \<longrightarrow> \<not> lua_client c \<and> online c \<longrightarrow> h"
    using assms(1) by (rule prepare_takes)
  define c1 where "c1 = c\<lparr>handler := h, oreply := oreply c @ [None]\<rparr>"
  define d where "d = foldl (emit True) c1 rs"
  have c1: "takes c1" "out_ok c1" "same_out c c1" "awake c \<longrightarrow> awake c1"
    using assms(1,2) p by (simp_all add: c1_def takes_def out_ok_def same_out_def awake_def)
  note a = addsD [OF emits_adds [OF c1(1,2) assms(4)], folded d_def s_def]
  have "oreply c1 = oreply c @ None # []" by (simp add: c1_def)
  from a(7) [OF this] obtain suf where suf: "obuf d = obuf c" "oreply d = oreply c @ None # suf" "plain suf"
    by (auto simp: c1_def)
  have v: "vals suf = s" using a(5) suf by (simp add: c1_def)
  have sck: "chunks_ok suf" using a(2) suf by (simp add: out_ok_def)
  have "counted c rs n = setDeferredMultiBulkLength d (Some (length (oreply c))) n"
    by (simp add: counted_def addDeferredMultiBulkLength_def p(1) d_def c1_def)
  with set_deferred [OF suf(2,3) sck assms(5,6)] v
  obtain l where l: "counted c rs n = d\<lparr>oreply := oreply c @ l\<rparr>" "chunks_ok l" "vals l = header_line 42 n @ s"
    "None \<notin> set l" "l \<noteq> []" by auto
  show "same_out c (counted c rs n)" using l(1) a(1) c1(3) by (simp add: same_out_def)
  show "out_ok (counted c rs n)" using l(1,2) a(2) suf assms(2) by (simp add: out_ok_def)
  show "awake c \<longrightarrow> awake (counted c rs n)" using l a(3) c1(4) suf(2) by (auto simp: awake_def)
  show "obuf (counted c rs n) = obuf c" "None \<notin> set (oreply (counted c rs n))"
    "vals (oreply (counted c rs n)) = vals (oreply c) @ header_line 42 n @ s"
    using l suf(1) assms(3) by simp_all
qed

definition out_inv :: "oclient \<Rightarrow> bool" where
  "out_inv c \<longleftrightarrow> takes c \<and> send_ok c \<and> None \<notin> set (oreply c)"

lemma output_step_inv:
  assumes "out_inv c" "event_ok e" "output_step e c = Some d"
  shows "out_inv d \<and> wire d @ to_send d = wire c @ to_send c @ event_bytes e"
proof -
  have i: "takes c" "send_ok c" "out_ok c" "None \<notin> set (oreply c)"
    using assms(1) by (auto simp: out_inv_def send_ok_def)
  show ?thesis
  proof (cases e)
    case (Reply r)
    then have a: "adds (reply_bytes r) c d" using emit_adds [OF i(1,3)] assms(2,3) by auto
    show ?thesis
      using adds_send_ok [OF a i(2)] addsD(6) [OF a i(4)] adds_takes [OF a] i(1) Reply
      by (simp add: out_inv_def)
  next
    case (Counted rs n)
    then have d: "d = counted c rs n" and ok: "list_all reply_ok rs" "0 \<le> n" "n < 2 ^ 31"
      using assms(2,3) by auto
    note k = counted_adds [OF i(1,3,4) ok, folded d]
    have "send_ok d" "wire d @ to_send d = wire c @ to_send c @ event_bytes e"
      using k i(2) Counted by (auto simp: send_ok_def same_out_def in_flight_def to_send_def)
    with k(5) same_out_takes [OF k(1)] i(1) show ?thesis by (simp add: out_inv_def)
  next
    case (Writable sock over)
    then have "sends c d"
      using send_loop_sends [of sock over 0 c d] assms(3) i by (simp add: sendReplyToClient_def out_ok_def)
    then show ?thesis
      using i Writable by (auto simp: sends_def out_inv_def same_flags_def takes_def)
  next
    case Done
    then show ?thesis
      using request_done_finishes [OF i(2)] i assms(3)
      by (auto simp: finishes_def out_inv_def same_flags_def takes_def)
  qed
qed

lemma output_run_inv:
  assumes "output_run es c = Some d" "out_inv c" "list_all event_ok es"
  shows "out_inv d \<and> wire d @ to_send d = wire c @ to_send c @ concat (map event_bytes es)"
  using assms
proof (induction es arbitrary: c)
  case Nil
  then show ?case by simp
next
  case (Cons e es)
  then obtain c1 where c1: "output_step e c = Some c1" "output_run es c1 = Some d"
    by (auto split: option.splits)
  from output_step_inv [OF Cons.prems(2) _ c1(1)] Cons.prems(3) Cons.IH [OF c1(2)] show ?case by simp
qed

lemma output_run_append:
  "output_run (es @ fs) c = (case output_run es c of None \<Rightarrow> None | Some d \<Rightarrow> output_run fs d)"
  by (induction es arbitrary: c) (simp_all split: option.split)

text \<open>A connected client that has sent and received nothing.\<close>

definition new_client :: "int \<Rightarrow> oclient" where
  "new_client f = \<lparr>lua_client = False, is_master = False, force_reply = False, fd = f, online = True,
     close_after = False, close_asap = False, handler = False, obuf = [], sentlen = 0, oreply = [],
     wire = [], inflight = []\<rparr>"

lemma new_client_inv: "f > 0 \<Longrightarrow> out_inv (new_client f) \<and> wire (new_client f) = [] \<and> to_send (new_client f) = []"
  by (simp add: new_client_def out_inv_def takes_def send_ok_def out_ok_def awake_def in_flight_def to_send_def
      REDIS_REPLY_CHUNK_BYTES_def)

lemma send_loop_some: "\<exists>d. send_loop (\<lambda>w. True) over tot c = Some d"
proof (induction "work c" arbitrary: tot c rule: less_induct)
  case less
  have w: "sentlen c < length (obuf c) \<Longrightarrow> work (send_buffer c) < work c"
    "\<not> sentlen c < length (obuf c) \<Longrightarrow> oreply c \<noteq> [] \<Longrightarrow> work (skip_chunk c) < work c"
    "\<not> sentlen c < length (obuf c) \<Longrightarrow> oreply c \<noteq> [] \<Longrightarrow> work (send_chunk c) < work c"
    by (auto simp: work_def send_buffer_def skip_chunk_def send_chunk_def)
  show ?case
    using less w by (subst send_loop_steps) (auto simp: Let_def split: list.split)
qed

subsection \<open>Properties\<close>

text \<open>
  C7. The client gets the replies and nothing else, in order: after any sequence of replies of
  any kind and length (those whose element count is only known after the elements included),
  of writes and of completions, what the socket was given followed by what is still in the buffer
  and in the list is the concatenation of the encodings of the replies.
\<close>
theorem output_stream:
  assumes "f > 0" "list_all event_ok es" "output_run es (new_client f) = Some c"
  shows "wire c @ to_send c = concat (map event_bytes es)"
  using output_run_inv [OF assms(3) _ assms(2)] new_client_inv [OF assms(1)] by simp

theorem output_stream_witness:
  "\<exists>c. output_run [Reply (OStatus [79, 75]), Writable (\<lambda>w. True) False, Reply (OInt 7)] (new_client 5) = Some c \<and>
     wire c @ to_send c = [43, 79, 75, 13, 10, 58, 55, 13, 10]"
proof -
  obtain d where "sendReplyToClient (\<lambda>w. True) False (emit True (new_client 5) (OStatus [79, 75])) = Some d"
    unfolding sendReplyToClient_def using send_loop_some by blast
  then have r: "output_run [Reply (OStatus [79, 75]), Writable (\<lambda>w. True) False, Reply (OInt 7)] (new_client 5)
      = Some (emit True d (OInt 7))"
    by (simp only: output_run.simps output_step.simps option.case)
  have "list_all event_ok [Reply (OStatus [79, 75]), Writable (\<lambda>w. True) False, Reply (OInt 7)]"
    by (simp add: REPLY_MAX_def in_srange_def)
  from output_stream [OF _ this r] r show ?thesis by (simp add: dec_int_def dec_nat_small digit_def)
qed

text \<open>
  C14. A request is read from the memory of the client after the call that made it, and this memory
  does not change under it: at any time the bytes that the requests in flight cover, read from
  the buffer as it is now, are the last bytes that the socket was given. The buffer is not
  reset before its last request is done, and adding replies leaves its used part alone.
\<close>
theorem in_flight_stable:
  assumes "f > 0" "list_all event_ok es" "output_run es (new_client f) = Some c"
  shows "\<exists>w. wire c = w @ in_flight c"
proof -
  have "out_inv c" using output_run_inv [OF assms(3) _ assms(2)] new_client_inv [OF assms(1)] by simp
  then show ?thesis by (simp add: out_inv_def send_ok_def)
qed

text \<open>A reply is added while the request for the one before it is in flight.\<close>

theorem in_flight_stable_witness:
  "\<exists>c. output_run [Reply (OStr [1]), Writable (\<lambda>w. True) True, Reply (OStr [2])] (new_client 5) = Some c \<and>
     inflight c = [BufReq 0 1] \<and> obuf c = [1, 2] \<and> (\<exists>w. wire c = w @ in_flight c)"
proof -
  define c1 where "c1 = (new_client 5)\<lparr>handler := True, obuf := [1]\<rparr>"
  define c2 where "c2 = c1\<lparr>sentlen := 1, inflight := [BufReq 0 1], wire := [1]\<rparr>"
  define c3 where "c3 = c2\<lparr>obuf := [1, 2]\<rparr>"
  have 1: "emit True (new_client 5) (OStr [1]) = c1"
    by (simp add: c1_def new_client_def addReplyString_def prepareClientToWrite_def addReplyToBuffer_def
        REDIS_REPLY_CHUNK_BYTES_def)
  have 2: "sendReplyToClient (\<lambda>w. True) True c1 = Some c2"
    unfolding sendReplyToClient_def c2_def by (simp add: send_loop.simps c1_def new_client_def Let_def)
  have 3: "emit True c2 (OStr [2]) = c3"
    by (simp add: c3_def c2_def c1_def new_client_def addReplyString_def prepareClientToWrite_def addReplyToBuffer_def
        REDIS_REPLY_CHUNK_BYTES_def)
  have r: "output_run [Reply (OStr [1]), Writable (\<lambda>w. True) True, Reply (OStr [2])] (new_client 5) = Some c3"
    by (simp only: output_run.simps output_step.simps option.case 1 2 3)
  have "list_all event_ok [Reply (OStr [1]), Writable (\<lambda>w. True) True, Reply (OStr [2])]"
    by (simp add: REPLY_MAX_def)
  from in_flight_stable [OF _ this r] r show ?thesis
    by (intro exI [of _ c3]) (simp add: c3_def c2_def)
qed

lemma writes_drain:
  assumes "out_inv c"
  shows "\<exists>d. output_run (replicate (work c) (Writable (\<lambda>w. True) over)) c = Some d \<and> out_inv d \<and>
    work d = 0 \<and> wire d @ to_send d = wire c @ to_send c \<and> (inflight d = [] \<longrightarrow> wire d = wire c)"
proof -
  have "\<exists>d. output_run (replicate n (Writable (\<lambda>w. True) over)) c = Some d \<and> out_inv d \<and>
      work d = 0 \<and> wire d @ to_send d = wire c @ to_send c \<and> (inflight d = [] \<longrightarrow> inflight c = [] \<and> wire d = wire c)"
    if "work c \<le> n" "out_inv c" for n c
    using that
  proof (induction n arbitrary: c)
    case 0
    then show ?case by simp
  next
    case (Suc n)
    obtain d where d: "sendReplyToClient (\<lambda>w. True) over c = Some d"
      unfolding sendReplyToClient_def using send_loop_some by blast
    have i: "out_inv d \<and> wire d @ to_send d = wire c @ to_send c"
      using output_step_inv [OF Suc.prems(2), of "Writable (\<lambda>w. True) over" d] d by simp
    have s: "sends c d" and w: "work d \<le> work c \<and> (work c > 0 \<longrightarrow> work d < work c)"
      using send_loop_sends [of "\<lambda>w. True" over 0 c d] d Suc.prems(2)
      by (simp_all add: sendReplyToClient_def out_inv_def send_ok_def out_ok_def)
    from w have "work d \<le> n" using Suc.prems(1) by (cases "work c") auto
    from Suc.IH [OF this] i d s show ?case by (fastforce simp: sends_def)
  qed
  from this [OF order_refl assms] show ?thesis by blast
qed

lemma completions_drain:
  assumes "send_ok c" "work c = 0"
  shows "\<exists>d. output_run (replicate (length (inflight c)) Done) c = Some d \<and> inflight d = [] \<and>
    wire d = wire c \<and> (inflight c \<noteq> [] \<longrightarrow> obuf d = [] \<and> oreply d = [] \<and> \<not> handler d)"
  using assms
proof (induction "length (inflight c)" arbitrary: c)
  case 0
  then show ?case by simp
next
  case (Suc n)
  define d where "d = request_done c"
  have f: "finishes c d" using request_done_finishes [OF Suc.prems(1)] by (simp add: d_def)
  have r: "replicate (length (inflight c)) Done = Done # replicate (length (inflight d)) Done"
    using Suc.hyps(2) f by (cases "inflight c") (simp_all add: finishes_def)
  have d: "send_ok d" "work d = 0" "n = length (inflight d)" "wire d = wire c" "oreply d = []"
    using f Suc.hyps(2) Suc.prems(2) by (auto simp: finishes_def work_def)
  from Suc.hyps(1) [OF d(3,1,2)]
  obtain e where e: "output_run (replicate (length (inflight d)) Done) d = Some e" "inflight e = []"
    "wire e = wire d" "inflight d \<noteq> [] \<longrightarrow> obuf e = [] \<and> oreply e = [] \<and> \<not> handler e" by blast
  show ?case
  proof (cases "inflight d")
    case Nil
    then have "obuf d = [] \<and> \<not> handler d"
      using f Suc.prems(2) Suc.hyps(2) by (auto simp: finishes_def)
    with Nil r e d show ?thesis by (simp add: d_def)
  qed (use r e d in \<open>simp add: d_def\<close>)
qed

text \<open>
  C15. Everything is delivered: from any reachable state in which something is left to send, when the
  socket takes requests, finitely
  many calls of the write handler give it all that is left to send, and after the completions of
  the requests nothing is in flight, the buffer is empty and the write handler is gone.
\<close>
theorem output_drains:
  assumes "f > 0" "list_all event_ok es" "output_run es (new_client f) = Some c" "to_send c \<noteq> []"
  shows "\<exists>k m d. output_run (replicate k (Writable (\<lambda>w. True) over) @ replicate m Done) c = Some d \<and>
    wire d = concat (map event_bytes es) \<and> inflight d = [] \<and> obuf d = [] \<and> oreply d = [] \<and> \<not> handler d"
proof -
  have c: "out_inv c" "wire c @ to_send c = concat (map event_bytes es)"
    using output_run_inv [OF assms(3) _ assms(2)] new_client_inv [OF assms(1)] by simp_all
  obtain e where e: "output_run (replicate (work c) (Writable (\<lambda>w. True) over)) c = Some e" "out_inv e" "work e = 0"
    "wire e @ to_send e = wire c @ to_send c" "inflight e = [] \<longrightarrow> wire e = wire c"
    using writes_drain [OF c(1)] by blast
  have "to_send e = []" using e(3) by (auto simp: work_def to_send_def split: if_splits)
  with e(4,5) assms(4) have i: "inflight e \<noteq> []" "wire e = concat (map event_bytes es)" using c(2) by auto
  from e(2) have "send_ok e" by (simp add: out_inv_def)
  from completions_drain [OF this e(3)] i obtain d where
    "output_run (replicate (length (inflight e)) Done) e = Some d" "inflight d = []"
    "wire d = concat (map event_bytes es)" "obuf d = []" "oreply d = []" "\<not> handler d" by auto
  with e(1) show ?thesis by (metis output_run_append option.simps(5))
qed

theorem output_drains_witness:
  "\<exists>c. output_run [Reply (OInt 7)] (new_client 5) = Some c \<and>
     (\<exists>k m d. output_run (replicate k (Writable (\<lambda>w. True) True) @ replicate m Done) c = Some d \<and>
       wire d = [58, 55, 13, 10] \<and> inflight d = [] \<and> obuf d = [] \<and> oreply d = [] \<and> \<not> handler d)"
proof -
  define c where "c = emit True (new_client 5) (OInt 7)"
  have b: "event_bytes (Reply (OInt 7)) = [58, 55, 13, 10]" by (simp add: dec_int_def dec_nat_small digit_def)
  have ok: "list_all event_ok [Reply (OInt 7)]" by (simp add: in_srange_def)
  have r: "output_run [Reply (OInt 7)] (new_client 5) = Some c" by (simp add: c_def)
  have "wire c @ to_send c = [58, 55, 13, 10]"
    using output_run_inv [OF r _ ok] new_client_inv [of 5] b by simp
  moreover have "wire c = []"
    using addsD(1) [OF emit_adds, of "new_client 5" "OInt 7"] new_client_inv [of 5]
    by (simp add: c_def same_out_def out_inv_def send_ok_def in_srange_def)
  ultimately have "to_send c \<noteq> []" by simp
  from output_drains [OF _ ok r this, of True] r b show ?thesis by auto
qed

text \<open>
  C39. A client that is to be closed after its reply can be closed before: when the completion of the
  buffer runs, the list is empty because its objects were handed to the socket, not because they
  were sent, and the client is scheduled to be closed with the request for an object in flight.
\<close>
theorem close_before_sent:
  "\<exists>es c ob. list_all event_ok es \<and> output_run es (new_client 5) = Some c \<and>
     (let d = request_done (c\<lparr>close_after := True\<rparr>)
      in close_asap d \<and> inflight d = [ObjReq ob] \<and> obj_val ob \<noteq> [])"
proof -
  define line where "line = sdsnewlen (Some (header_line 42 3)) (length (header_line 42 3))"
  define ob where "ob = createObject (Str line)"
  define c1 where "c1 = (new_client 5)\<lparr>handler := True, obuf := [1]\<rparr>"
  define c2 where "c2 = c1\<lparr>oreply := [Some ob]\<rparr>"
  define c3 where "c3 = c2\<lparr>oreply := [], sentlen := 1, inflight := [BufReq 0 1, ObjReq ob], wire := 1 # obj_val ob\<rparr>"
  have h: "header_line 42 3 = [42, 51, 13, 10]" by (simp add: header_line_def dec_int_def dec_nat_small digit_def)
  have l: "sds_ok line" "sds_val line = header_line 42 3"
    using sdsnewlen_ok [of "length (header_line 42 3)" "Some (header_line 42 3)"] by (simp_all add: line_def h)
  have ob: "chunk_ok ob" "obj_val ob = [42, 51, 13, 10]" using chunk_raw [OF l(1)] l(2) h by (simp_all add: ob_def)
  have cv: "chunk_val (Some ob) = [42, 51, 13, 10]" using chunk_val_Some [OF ob(1)] ob(2) by simp
  have 1: "emit True (new_client 5) (OStr [1]) = c1"
    by (simp add: c1_def new_client_def addReplyString_def prepareClientToWrite_def addReplyToBuffer_def
        REDIS_REPLY_CHUNK_BYTES_def)
  have 2: "counted c1 [] 3 = c2"
    by (simp add: c2_def c1_def ob_def line_def counted_def addDeferredMultiBulkLength_def prepareClientToWrite_def
        setDeferredMultiBulkLength_def sext_def new_client_def Let_def)
  have 3: "sendReplyToClient (\<lambda>w. True) True c2 = Some c3"
    unfolding sendReplyToClient_def c3_def
    by (simp add: send_loop.simps c2_def c1_def new_client_def cv ob(2) Let_def)
  have "output_run [Reply (OStr [1]), Counted [] 3, Writable (\<lambda>w. True) True] (new_client 5) = Some c3"
    by (simp only: output_run.simps output_step.simps option.case 1 2 3)
  moreover have "list_all event_ok [Reply (OStr [1]), Counted [] 3, Writable (\<lambda>w. True) True]"
    by (simp add: REPLY_MAX_def)
  moreover have "let d = request_done (c3\<lparr>close_after := True\<rparr>)
      in close_asap d \<and> inflight d = [ObjReq ob] \<and> obj_val ob \<noteq> []"
    by (simp add: request_done_def sendReplyBufferDone_def all_sent_def freeClientAsync_def c3_def c2_def c1_def
        new_client_def ob(2) Let_def)
  ultimately show ?thesis by blast
qed

end
