(* ===== verification/RdbFile.thy ===== *)
theory RdbFile
  imports Rdb Crc Server
begin

text \<open>
  Whole dump files, \<open>src/src/src/rdb.c\<close>: \<open>rdbSaveRio\<close> and \<open>rdbLoad\<close> with the opcodes, the times of
  expiry, the data base numbers and the checksum, and \<open>rdbSave\<close> with its temporary file. A file is a
  channel of the theory Rdb: its contents and a position. The keys of a data base are written in
  the order of the iterator of \<open>dict.c\<close>, an argument here (the theory DictIter shows that it
  visits every entry once). The bodies of lists, sets, hashes and sorted sets are written and read
  by the functions \<open>save_o\<close> and \<open>load_o\<close>, arguments as well. Not modelled: the child process of a
  background save, and the serving of clients while loading.
\<close>

subsection \<open>Chunks and the checksum\<close>

text \<open>\<open>rioWrite\<close> and \<open>rioRead\<close> of \<open>rio.h\<close> pass chunks of at most \<open>m\<close> bytes (0: no limit) to the channel
  and to the checksum, whose function may be missing.\<close>

record chan =
  crio :: rio
  cksum :: "64 word"

definition rioGenericUpdateChecksum :: "chan \<Rightarrow> bytes \<Rightarrow> chan" where
  "rioGenericUpdateChecksum c buf = c\<lparr>cksum := crc64 (cksum c) buf\<rparr>"

function rioWrite :: "nat \<Rightarrow> bool \<Rightarrow> chan \<Rightarrow> bytes \<Rightarrow> nat \<times> chan" where
  "rioWrite m upd c buf =
     (if buf = [] then (1, c)
      else
        let n = (if m \<noteq> 0 \<and> m < length buf then m else length buf);
            c = (if upd then rioGenericUpdateChecksum c (take n buf) else c)
        in case rioFileWrite (crio c) (take n buf) of
             (k, r) \<Rightarrow> if k = 0 then (0, c\<lparr>crio := r\<rparr>) else rioWrite m upd (c\<lparr>crio := r\<rparr>) (drop n buf))"
  by pat_completeness auto
termination
  by (relation "measure (\<lambda>(m, upd, c, buf). length buf)") auto

function rioRead :: "nat \<Rightarrow> bool \<Rightarrow> chan \<Rightarrow> nat \<Rightarrow> (bytes \<times> chan) option" where
  "rioRead m upd c len =
     (if len = 0 then Some ([], c)
      else
        let n = (if m \<noteq> 0 \<and> m < len then m else len)
        in case rioBufferRead (crio c) n of
             None \<Rightarrow> None
           | Some (b, r) \<Rightarrow>
               let c = (if upd then rioGenericUpdateChecksum c b else c)
               in case rioRead m upd (c\<lparr>crio := r\<rparr>) (len - n) of
                    None \<Rightarrow> None
                  | Some (b', c) \<Rightarrow> Some (b @ b', c))"
  by pat_completeness auto
termination
  by (relation "measure (\<lambda>(m, upd, c, len). len)") auto

declare rioWrite.simps [simp del] rioRead.simps [simp del]

lemma crc64_append: "crc64 c (a @ b) = crc64 (crc64 c a) b"
  by (simp add: crc64_def)

text \<open>The chunks do not matter: the checksum is that of all bytes that passed.\<close>

lemma rioWrite_ok:
  assumes "io_faults (crio c) = []"
  shows "rioWrite m upd c buf =
     (1, \<lparr>crio = appended (crio c) buf, cksum = (if upd then crc64 (cksum c) buf else cksum c)\<rparr>)"
  using assms
proof (induction m upd c buf rule: rioWrite.induct)
  case (1 m upd c buf)
  note f = 1(2)
  show ?case
  proof (cases "buf = []")
    case True
    then show ?thesis by (subst rioWrite.simps) (simp add: crc64_def)
  next
    case False
    define n where "n = (if m \<noteq> 0 \<and> m < length buf then m else length buf)"
    have "take n buf @ drop n buf = buf" by simp
    then have e: "crc64 (crc64 (cksum c) (take n buf)) (drop n buf) = crc64 (cksum c) buf"
      "appended (appended (crio c) (take n buf)) (drop n buf) = appended (crio c) buf"
      by (metis crc64_append) simp
    define c1 where "c1 = (if upd then rioGenericUpdateChecksum c (take n buf) else c)"
    have w: "rioFileWrite (crio c1) (take n buf) = (1, appended (crio c) (take n buf))"
      using f by (simp add: rioFileWrite_appended c1_def rioGenericUpdateChecksum_def)
    have "rioWrite m upd c buf = rioWrite m upd (c1\<lparr>crio := appended (crio c) (take n buf)\<rparr>) (drop n buf)"
      unfolding rioWrite.simps [of m upd c buf] Let_def n_def [symmetric] c1_def [symmetric] w
      using False by simp
    also have "\<dots> = (1, \<lparr>crio = appended (crio c) buf, cksum = (if upd then crc64 (cksum c) buf else cksum c)\<rparr>)"
      using 1(1) [OF False n_def c1_def w [symmetric] one_neq_zero] e f
      by (simp add: c1_def rioGenericUpdateChecksum_def)
    finally show ?thesis .
  qed
qed

lemma rioRead_ok:
  "rioRead m upd c len =
     (case rioBufferRead (crio c) len of
        None \<Rightarrow> None
      | Some (b, r) \<Rightarrow> Some (b, \<lparr>crio = r, cksum = (if upd then crc64 (cksum c) b else cksum c)\<rparr>))"
proof (induction m upd c len rule: rioRead.induct)
  case (1 m upd c len)
  show ?case
  proof (cases "len = 0")
    case True
    then show ?thesis by (subst rioRead.simps) (simp add: rioBufferRead_avail crc64_def)
  next
    case False
    define n where "n = (if m \<noteq> 0 \<and> m < len then m else len)"
    have n: "n \<le> len" by (simp add: n_def)
    show ?thesis
    proof (cases "n \<le> length (avail (crio c))")
      case no: False
      then show ?thesis
        unfolding rioRead.simps [of m upd c len] Let_def n_def [symmetric]
        using False n by (simp add: rioBufferRead_avail)
    next
      case True
      define b where "b = take n (avail (crio c))"
      define c1 where "c1 = (if upd then rioGenericUpdateChecksum c b else c)"
      have r: "rioBufferRead (crio c) n = Some (b, advance (crio c) n)"
        using True by (simp add: rioBufferRead_avail b_def)
      have s: "take n (avail (crio c)) @ take (len - n) (drop n (avail (crio c))) = take len (avail (crio c))"
        using n by (simp flip: take_add)
      show ?thesis
        unfolding rioRead.simps [of m upd c len] Let_def n_def [symmetric]
        using False n True s crc64_append [of "cksum c" b "take (len - n) (drop n (avail (crio c)))"]
          1 [OF False n_def r [symmetric, symmetric] refl c1_def]
        by (simp add: r c1_def [symmetric]) (auto simp: rioBufferRead_avail c1_def b_def rioGenericUpdateChecksum_def)
    qed
  qed
qed

subsection \<open>Saving\<close>

definition RDB_VERSION :: int where "RDB_VERSION = 6"
definition RDB_TYPE_STRING :: byte where "RDB_TYPE_STRING = 0"
definition RDB_OPCODE_EXPIRETIME_MS :: byte where "RDB_OPCODE_EXPIRETIME_MS = 252"
definition RDB_OPCODE_EXPIRETIME :: byte where "RDB_OPCODE_EXPIRETIME = 253"
definition RDB_OPCODE_SELECTDB :: byte where "RDB_OPCODE_SELECTDB = 254"
definition RDB_OPCODE_EOF :: byte where "RDB_OPCODE_EOF = 255"

text \<open>How objects are written: whether strings are compressed, what the hash table of the compressor
  holds when a string is written at a position, and the type and the body of the other objects.\<close>

record 'o saver =
  compression :: bool
  stack :: "nat \<Rightarrow> nat \<Rightarrow> int"
  save_o :: "'o \<Rightarrow> byte \<times> bytes"

definition rdbSaveString :: "'o saver \<Rightarrow> rio \<Rightarrow> robj \<Rightarrow> int \<times> rio" where
  "rdbSaveString sv r ob = rdbSaveStringObject (compression sv) (stack sv (io_pos r)) r ob"

definition rdbSaveObjectType :: "'o saver \<Rightarrow> rio \<Rightarrow> 'o val \<Rightarrow> int \<times> rio" where
  "rdbSaveObjectType sv r v =
     (case v of SVal ob \<Rightarrow> rdbSaveType r RDB_TYPE_STRING | OVal x \<Rightarrow> rdbSaveType r (fst (save_o sv x)))"

definition rdbSaveObject :: "'o saver \<Rightarrow> rio \<Rightarrow> 'o val \<Rightarrow> int \<times> rio" where
  "rdbSaveObject sv r v =
     (case v of SVal ob \<Rightarrow> rdbSaveString sv r ob | OVal x \<Rightarrow> rdbWriteRaw r (snd (save_o sv x)))"

definition initStaticStringObject :: "bytes \<Rightarrow> robj" where
  "initStaticStringObject k = createObject (Str (sdsnewlen (Some k) (length k)))"

definition rdbSaveExpire :: "rio \<Rightarrow> int \<Rightarrow> int \<times> rio" where
  "rdbSaveExpire r t =
     (case rdbSaveType r RDB_OPCODE_EXPIRETIME_MS of
        (n, r) \<Rightarrow> if n = -1 then (-1, r) else rdbSaveMillisecondTime r t)"

definition rdbSaveKeyValuePair :: "'o saver \<Rightarrow> rio \<Rightarrow> bytes \<Rightarrow> 'o val \<Rightarrow> int \<Rightarrow> int \<Rightarrow> int \<times> rio" where
  "rdbSaveKeyValuePair sv r key v expiretime now =
     (if expiretime \<noteq> -1 \<and> expiretime < now then (0, r)
      else
        case (if expiretime \<noteq> -1 then rdbSaveExpire r expiretime else (0, r)) of
          (n, r) \<Rightarrow>
            if n = -1 then (-1, r)
            else case rdbSaveObjectType sv r v of
              (n, r) \<Rightarrow>
                if n = -1 then (-1, r)
                else case rdbSaveString sv r (initStaticStringObject key) of
                  (n, r) \<Rightarrow>
                    if n = -1 then (-1, r)
                    else case rdbSaveObject sv r v of
                      (n, r) \<Rightarrow> if n = -1 then (-1, r) else (1, r))"

text \<open>The loop over the entries of a data base; \<open>False\<close> is \<open>werr\<close>.\<close>

fun save_entries ::
  "'o saver \<Rightarrow> ('c, 'o) server \<Rightarrow> int \<Rightarrow> nat \<Rightarrow> (bytes \<times> 'o val) list \<Rightarrow> rio \<Rightarrow> bool \<times> rio" where
  "save_entries sv s now j [] r = (True, r)"
| "save_entries sv s now j ((k, v) # es) r =
     (case rdbSaveKeyValuePair sv r k v (fst (getExpire j k s)) now of
        (n, r) \<Rightarrow> if n = -1 then (False, r) else save_entries sv s now j es r)"

definition save_db ::
  "'o saver \<Rightarrow> ('c, 'o) server \<Rightarrow> int \<Rightarrow> nat \<Rightarrow> (bytes \<times> 'o val) list \<Rightarrow> rio \<Rightarrow> bool \<times> rio" where
  "save_db sv s now j es r =
     (if dictSizeOf (kdict (dbs s j)) = 0 then (True, r)
      else case rdbSaveType r RDB_OPCODE_SELECTDB of
        (n, r) \<Rightarrow>
          if n = -1 then (False, r)
          else case rdbSaveLen r j of
            (n, r) \<Rightarrow> if n = -1 then (False, r) else save_entries sv s now j es r)"

fun save_dbs ::
  "'o saver \<Rightarrow> ('c, 'o) server \<Rightarrow> int \<Rightarrow> (nat \<Rightarrow> (bytes \<times> 'o val) list) \<Rightarrow> nat list \<Rightarrow> rio \<Rightarrow> bool \<times> rio" where
  "save_dbs sv s now order [] r = (True, r)"
| "save_dbs sv s now order (j # js) r =
     (case save_db sv s now j (order j) r of
        (ok, r) \<Rightarrow> if \<not> ok then (False, r) else save_dbs sv s now order js r)"

text \<open>\<open>now\<close> is \<open>mstime()\<close>. The checksum is that of all bytes written so far (\<open>rioWrite_ok\<close>).\<close>

definition rdbSaveRio ::
  "'o saver \<Rightarrow> bool \<Rightarrow> ('c, 'o) server \<Rightarrow> (nat \<Rightarrow> (bytes \<times> 'o val) list) \<Rightarrow> rio \<Rightarrow> bool \<times> rio" where
  "rdbSaveRio sv rdb_checksum s order r =
     (case rdbWriteRaw r (map of_char ''REDIS0006'') of
        (n, r) \<Rightarrow>
          if n = -1 then (False, r)
          else case save_dbs sv s (mstime s) order [0..<dbnum (conf s)] r of
            (ok, r) \<Rightarrow>
              if \<not> ok then (False, r)
              else case rdbSaveType r RDB_OPCODE_EOF of
                (n, r) \<Rightarrow>
                  if n = -1 then (False, r)
                  else
                    let sum = (if rdb_checksum then crc64 0 (io_ptr r) else 0)
                    in case rioFileWrite r (le_bytes 8 (uint sum)) of
                         (n, r) \<Rightarrow> if n = 0 then (False, r) else (True, r))"











subsection \<open>Loading\<close>

text \<open>\<open>LoadErr\<close>: \<open>REDIS_ERR\<close>; \<open>LoadExit\<close>: \<open>exit(1)\<close> after an unexpected end of file, a wrong
  checksum or a data base number that is too large; \<open>LoadAbort\<close>: the panic of an unknown type or a read
  outside of the compressed data; \<open>LoadFuel\<close>: the fuel of the loop is used up.\<close>

datatype 's load_result = LoadDone 's | LoadErr | LoadExit | LoadAbort | LoadFuel

definition is_string_type :: "int \<Rightarrow> bool" where
  "is_string_type t \<longleftrightarrow> t = uint RDB_TYPE_STRING"

definition rdbLoadObject ::
  "(int \<Rightarrow> rio \<Rightarrow> load_error + 'o \<times> rio) \<Rightarrow> ('c, 'o) server \<Rightarrow> int \<Rightarrow> rio \<Rightarrow> load_error + 'o val \<times> ('c, 'o) server \<times> rio" where
  "rdbLoadObject load_o s t r =
     (if is_string_type t then
        case rdbGenericLoadStringObject (shared s) r True of
          Inl e \<Rightarrow> Inl e
        | Inr (o1, sh, r) \<Rightarrow>
            (case tryObjectEncoding (maxmemory (conf s)) (maxmemory_policy (conf s)) sh o1 of
               (o1, sh) \<Rightarrow> Inr (SVal o1, s\<lparr>shared := sh\<rparr>, r))
      else case load_o t r of Inl e \<Rightarrow> Inl e | Inr (x, r) \<Rightarrow> Inr (OVal x, s, r))"

text \<open>The time and the type at the start of an entry; the type is -1 at the end of the file, and
  \<open>None\<close> is a time that was not read.\<close>

definition load_head :: "rio \<Rightarrow> (int \<times> int \<times> rio) option" where
  "load_head r =
     (case rdbLoadType r of
        (t, r) \<Rightarrow>
          if t = uint RDB_OPCODE_EXPIRETIME then
            (case rdbLoadTime r of
               (e, r) \<Rightarrow>
                 if e = -1 then None
                 else case rdbLoadType r of (t, r) \<Rightarrow> Some (wrap_s64 (e * 1000), t, r))
          else if t = uint RDB_OPCODE_EXPIRETIME_MS then
            (case rdbLoadMillisecondTime r of
               (e, r) \<Rightarrow>
                 if e = -1 then None
                 else case rdbLoadType r of (t, r) \<Rightarrow> Some (e, t, r))
          else Some (-1, t, r))"

text \<open>One round of the loop: it goes on with a data base, stops at the end mark, or fails.\<close>

datatype 's round = Go nat 's rio | Eof rio | Fail "'s load_result"

definition load_failure :: "load_error \<Rightarrow> 's load_result" where
  "load_failure e = (case e of LoadNull \<Rightarrow> LoadExit | _ \<Rightarrow> LoadAbort)"

definition load_pair ::
  "(int \<Rightarrow> rio \<Rightarrow> load_error + 'o \<times> rio) \<Rightarrow> int \<Rightarrow> nat \<Rightarrow> ('c, 'o) server \<Rightarrow> int \<Rightarrow> int \<Rightarrow> rio \<Rightarrow> ('c, 'o) server round" where
  "load_pair load_o now d s expiretime t r =
     (case rdbGenericLoadStringObject (shared s) r False of
        Inl e \<Rightarrow> Fail (load_failure e)
      | Inr (key, sh, r) \<Rightarrow>
          (case rdbLoadObject load_o (s\<lparr>shared := sh\<rparr>) t r of
             Inl e \<Rightarrow> Fail (load_failure e)
           | Inr (v, s, r) \<Rightarrow>
               if \<not> masterhost s \<and> expiretime \<noteq> -1 \<and> expiretime < now then Go d s r
               else
                 let k = sds_val (ptr_sds (ptr key));
                     s = dbAdd d k v s;
                     s = (if expiretime \<noteq> -1 then setExpire d k expiretime s else s)
                 in Go d s r))"

definition load_round ::
  "(int \<Rightarrow> rio \<Rightarrow> load_error + 'o \<times> rio) \<Rightarrow> int \<Rightarrow> nat \<Rightarrow> ('c, 'o) server \<Rightarrow> rio \<Rightarrow> ('c, 'o) server round" where
  "load_round load_o now d s r =
     (case load_head r of
        None \<Rightarrow> Fail LoadExit
      | Some (expiretime, t, r) \<Rightarrow>
          if t = -1 then Fail LoadExit
          else if t = uint RDB_OPCODE_EOF then Eof r
          else if t = uint RDB_OPCODE_SELECTDB then
            (case rdbLoadLen r of
               (_, dbid, r) \<Rightarrow>
                 if dbid = RDB_LENERR then Fail LoadExit
                 else if dbid \<ge> dbnum (conf s) then Fail LoadExit
                 else Go dbid s r)
          else load_pair load_o now d s expiretime t r)"

fun load_loop ::
  "(int \<Rightarrow> rio \<Rightarrow> load_error + 'o \<times> rio) \<Rightarrow> int \<Rightarrow> nat \<Rightarrow> nat \<Rightarrow> ('c, 'o) server \<Rightarrow> rio \<Rightarrow>
   (('c, 'o) server \<times> rio) load_result" where
  "load_loop load_o now 0 d s r = LoadFuel"
| "load_loop load_o now (Suc n) d s r =
     (case load_round load_o now d s r of
        Go d s r \<Rightarrow> load_loop load_o now n d s r
      | Eof r \<Rightarrow> LoadDone (s, r)
      | Fail LoadAbort \<Rightarrow> LoadAbort
      | Fail _ \<Rightarrow> LoadExit)"

definition check_sum :: "bool \<Rightarrow> int \<Rightarrow> rio \<Rightarrow> bool" where
  "check_sum rdb_checksum rdbver r =
     (if rdbver \<ge> 5 \<and> rdb_checksum then
        let expected = crc64 0 (take (io_pos r) (io_ptr r))
        in case rioBufferRead r 8 of
             None \<Rightarrow> False
           | Some (b, r) \<Rightarrow> let sum = word_of_int (le_uint b) in sum = 0 \<or> sum = expected
      else True)"

text \<open>\<open>atoi\<close> on the four bytes of the version.\<close>

definition rdbLoad ::
  "(int \<Rightarrow> rio \<Rightarrow> load_error + 'o \<times> rio) \<Rightarrow> bool \<Rightarrow> nat \<Rightarrow> bytes option \<Rightarrow> ('c, 'o) server \<Rightarrow> ('c, 'o) server load_result" where
  "rdbLoad load_o rdb_checksum fuel file s =
     (case file of
        None \<Rightarrow> LoadErr
      | Some file \<Rightarrow>
          (case rioBufferRead (rioInitWithBuffer file) 9 of
             None \<Rightarrow> LoadExit
           | Some (buf, r) \<Rightarrow>
               if memcmp buf (map of_char ''REDIS'') 5 \<noteq> 0 then LoadErr
               else
                 let rdbver = fst (strtoll_full (cstr (drop 5 buf @ [0])))
                 in if rdbver < 1 \<or> rdbver > RDB_VERSION then LoadErr
                    else case load_loop load_o (mstime s) fuel 0 (s\<lparr>loading := True\<rparr>) r of
                      LoadDone (s, r) \<Rightarrow>
                        if check_sum rdb_checksum rdbver r then LoadDone (s\<lparr>loading := False\<rparr>) else LoadExit
                    | LoadErr \<Rightarrow> LoadErr
                    | LoadExit \<Rightarrow> LoadExit
                    | LoadAbort \<Rightarrow> LoadAbort
                    | LoadFuel \<Rightarrow> LoadFuel))"

subsection \<open>What an entry looks like in the file\<close>

definition type_byte :: "'o saver \<Rightarrow> 'o val \<Rightarrow> byte" where
  "type_byte sv v = (case v of SVal ob \<Rightarrow> RDB_TYPE_STRING | OVal x \<Rightarrow> fst (save_o sv x))"

definition body_bytes :: "'o saver \<Rightarrow> 'o val \<Rightarrow> bytes \<Rightarrow> bool" where
  "body_bytes sv v w \<longleftrightarrow> (case v of SVal ob \<Rightarrow> Rdb.stored (obj_val ob) w | OVal x \<Rightarrow> w = snd (save_o sv x))"

definition kv_bytes :: "'o saver \<Rightarrow> bytes \<Rightarrow> 'o val \<Rightarrow> int \<Rightarrow> bytes \<Rightarrow> bool" where
  "kv_bytes sv k v e w \<longleftrightarrow>
     (\<exists>wk wv. Rdb.stored k wk \<and> body_bytes sv v wv \<and>
        w = (if e = -1 then [] else RDB_OPCODE_EXPIRETIME_MS # le_bytes 8 e) @ type_byte sv v # wk @ wv)"

lemma static_ok:
  assumes "length k < 2 ^ 32"
  shows "obj_ok (initStaticStringObject k)" "obj_val (initStaticStringObject k) = k"
  using sdsnewlen_ok [of "length k" "Some k"] assms
  by (simp_all add: initStaticStringObject_def createObject_def obj_ok_def obj_val_def sdsEncodedObject_def)

lemma save_string_ok:
  assumes "obj_ok ob" "io_faults r = []"
  obtains w where "rdbSaveString sv r ob = (int (length w), appended r w)" "Rdb.stored (obj_val ob) w"
  unfolding rdbSaveString_def using rdbSaveStringObject_ok [OF assms] by blast

lemma save_pair_ok:
  assumes "val_ok v" "length k < 2 ^ 32" "\<not> (e \<noteq> -1 \<and> e < now)" and r: "io_faults r = []"
  shows "\<exists>w. rdbSaveKeyValuePair sv r k v e now = (1, appended r w) \<and> kv_bytes sv k v e w"
proof -
  define we where "we = (if e = -1 then [] else RDB_OPCODE_EXPIRETIME_MS # le_bytes 8 e)"
  have 1: "(if e \<noteq> -1 then rdbSaveExpire r e else (0, r)) = (if e = -1 then 0 else 8, appended r we)"
    by (simp add: we_def rdbSaveExpire_def rdbSaveType_def rdbSaveMillisecondTime_def r)
  have 2: "rdbSaveObjectType sv q v = (1, appended q [type_byte sv v])" if "io_faults q = []" for q
    using that by (cases v) (simp_all add: rdbSaveObjectType_def type_byte_def rdbSaveType_def)
  obtain wk where wk: "rdbSaveString sv (appended r (we @ [type_byte sv v])) (initStaticStringObject k)
      = (int (length wk), appended r (we @ type_byte sv v # wk))" "Rdb.stored k wk"
    using save_string_ok [OF static_ok(1) [OF assms(2)], of "appended r (we @ [type_byte sv v])" sv]
      static_ok(2) [OF assms(2)] r by auto
  have ob: "\<exists>wv n. rdbSaveObject sv q v = (int n, appended q wv) \<and> body_bytes sv v wv"
    if q: "io_faults q = []" for q
  proof (cases v)
    case (SVal ob)
    with assms(1) have "obj_ok ob" by (simp add: val_ok_def)
    then obtain w where "rdbSaveString sv q ob = (int (length w), appended q w)" "Rdb.stored (obj_val ob) w"
      using q by (rule save_string_ok)
    with SVal show ?thesis by (auto simp: rdbSaveObject_def body_bytes_def)
  qed (use q in \<open>auto simp: rdbSaveObject_def body_bytes_def\<close>)
  obtain wv n where wv: "rdbSaveObject sv (appended r (we @ type_byte sv v # wk)) v
      = (int n, appended r (we @ type_byte sv v # wk @ wv))" "body_bytes sv v wv"
    using ob [of "appended r (we @ type_byte sv v # wk)"] r by auto
  have "rdbSaveKeyValuePair sv r k v e now = (1, appended r (we @ type_byte sv v # wk @ wv))"
    unfolding rdbSaveKeyValuePair_def if_not_P [OF assms(3)] 1 prod.case
    using wk(1) wv(1) by (simp add: 2 r)
  with wk(2) wv(2) show ?thesis by (auto simp: kv_bytes_def we_def)
qed

subsection \<open>Reading an entry\<close>

text \<open>What is relied on for the other objects: their types are neither that of strings nor opcodes,
  and what is written is read again, leaving what follows.\<close>

definition codec_ok :: "'o saver \<Rightarrow> (int \<Rightarrow> rio \<Rightarrow> load_error + 'o \<times> rio) \<Rightarrow> bool" where
  "codec_ok sv load_o \<longleftrightarrow>
     (\<forall>x. fst (save_o sv x) \<notin> {0, 252, 253, 254, 255} \<and>
        (\<forall>r rest. avail r = snd (save_o sv x) @ rest \<longrightarrow>
           load_o (uint (fst (save_o sv x))) r = Inr (x, advance r (length (snd (save_o sv x))))))"

definition val_fits :: "'o val \<Rightarrow> bool" where
  "val_fits v \<longleftrightarrow> val_ok v \<and> (case v of SVal ob \<Rightarrow> length (obj_val ob) < RDB_LENERR | OVal x \<Rightarrow> True)"

lemma rdbLoadType_avail: "avail r = t # rest \<Longrightarrow> rdbLoadType r = (uint t, advance r 1)"
  by (simp add: rdbLoadType_def rioBufferRead_avail)

lemma load_time_avail:
  "avail r = le_bytes 8 e @ rest \<Longrightarrow> in_srange 8 e \<Longrightarrow> rdbLoadMillisecondTime r = (e, advance r 8)"
  by (simp add: rdbLoadMillisecondTime_def rioBufferRead_avail le_sint_le_bytes)

lemma load_object_ok:
  assumes "codec_ok sv load_o" "shared_ok (shared s)" "val_fits v" "body_bytes sv v w" "avail r = w @ rest"
  shows "\<exists>v' sh. rdbLoadObject load_o s (uint (type_byte sv v)) r = Inr (v', s\<lparr>shared := sh\<rparr>, advance r (length w)) \<and>
    val_ok v' \<and> val_of v' = val_of v \<and> shared_ok sh"
proof (cases v)
  case (SVal ob)
  have st: "Rdb.stored (obj_val ob) w" "length (obj_val ob) < RDB_LENERR"
    using assms(3,4) SVal by (simp_all add: body_bytes_def val_fits_def)
  obtain o1 sh1 where o1: "rdbGenericLoadStringObject (shared s) r True = Inr (o1, sh1, advance r (length w))"
    "obj_ok o1" "obj_val o1 = obj_val ob" "shared_ok sh1"
    using rdbLoadString_ok [OF st assms(2,5)] by blast
  obtain o2 sh2 where o2: "tryObjectEncoding (maxmemory (conf s)) (maxmemory_policy (conf s)) sh1 o1 = (o2, sh2)"
    by fastforce
  from tryObjectEncoding_ok [OF o1(2,4) o2] o1 o2 SVal show ?thesis
    by (auto simp: rdbLoadObject_def is_string_type_def type_byte_def val_ok_def val_of_def)
next
  case (OVal x)
  have "fst (save_o sv x) \<noteq> 0" using assms(1) by (simp add: codec_ok_def)
  then have "\<not> is_string_type (uint (fst (save_o sv x)))"
    by (auto simp: is_string_type_def RDB_TYPE_STRING_def word_uint_eq_iff)
  moreover have "load_o (uint (fst (save_o sv x))) r = Inr (x, advance r (length w))"
    using assms(1,4,5) OVal by (simp add: codec_ok_def body_bytes_def)
  ultimately show ?thesis
    using assms(2) OVal by (auto simp: rdbLoadObject_def type_byte_def val_ok_def val_of_def intro!: exI [of _ "shared s"])
qed

text \<open>A key is read into a string of its own.\<close>

lemma load_key_str:
  assumes "rdbGenericLoadStringObject sh r False = Inr (o1, sh', r')"
  shows "\<exists>s. ptr o1 = Str s"
  using assms
  by (auto simp: rdbGenericLoadStringObject_def rdbLoadIntegerObject_def rdbLoadLzfStringObject_def int_object_def
      createObject_def createRawStringObject_def set_contents_def Let_def
      split: prod.splits option.splits sum.splits if_splits lzf_error.splits)

subsection \<open>Loading an entry\<close>

text \<open>The contents of the key space: the value and the time of each key.\<close>

definition contents :: "('c, 'o) server \<Rightarrow> nat \<times> bytes \<Rightarrow> ((bytes + 'o) \<times> int option) option" where
  "contents s = (\<lambda>(d, k). map_option (\<lambda>v. (v, exp_of s d k)) (Server.stored s d k))"

definition exp_opt :: "int \<Rightarrow> int option" where
  "exp_opt e = (if e = -1 then None else Some e)"

text \<open>What holds of a server in the middle of a load.\<close>

definition load_inv :: "('c, 'o) server \<Rightarrow> ('c, 'o) server \<Rightarrow> bool" where
  "load_inv s0 s \<longleftrightarrow> db_inv s \<and> loading s \<and> masterhost s = masterhost s0 \<and> conf s = conf s0 \<and> failed s = failed s0"

lemma contents_iff: "contents s (d, k) = None \<longleftrightarrow> Server.stored s d k = None"
  by (simp add: contents_def)

lemma set_shared_ok:
  assumes "shared_ok sh" "load_inv s0 s"
  shows "load_inv s0 (s\<lparr>shared := sh\<rparr>)" "contents (s\<lparr>shared := sh\<rparr>) = contents s"
  using assms by (simp_all add: load_inv_def db_inv_def contents_def stored_def exp_of_def)

lemma changes_contents:
  assumes "changes {(d, k)} s s'" "loading s"
  shows "contents s' = (contents s)((d, k) := contents s' (d, k))"
proof
  fix x :: "nat \<times> bytes"
  obtain d' k' where x: "x = (d', k')" by fastforce
  show "contents s' x = ((contents s)((d, k) := contents s' (d, k))) x"
    using assms x by (auto simp: changes_def kept_def contents_def expired_def)
qed

lemma add_key_ok:
  fixes e :: int
  assumes "load_inv s0 s" "val_ok v" "contents s (d, k) = None"
  defines "s' \<equiv> (if e \<noteq> -1 then setExpire d k e (dbAdd d k v s) else dbAdd d k v s)"
  shows "load_inv s0 s'" "contents s' = (contents s)((d, k) := Some (val_of v, exp_opt e))"
proof -
  have n: "Server.stored s d k = None" using assms(3) by (simp add: contents_iff)
  then have "fmlookup (kdict (dbs s d)) k = None" by (simp add: stored_def)
  then have x: "exp_of s d k = None" using assms(1) unfolding load_inv_def db_inv_def by metis
  define s1 where "s1 = put_val d k v s"
  note p = put_val_ok [OF assms(2), of d k s, folded s1_def]
  have d: "dbAdd d k v s = s1" using n by (simp add: dbAdd_eq s1_def)
  have st: "Server.stored s1 d k \<noteq> None" using p(2) by simp
  note e = setExpire_ok [OF st, of e]
  have c: "changes {(d, k)} s s'"
    using p(1) changes_trans [OF p(1) e(1)] by (simp add: s'_def d)
  have k: "contents s' (d, k) = Some (val_of v, exp_opt e)"
    using p(2,3) e(2,3) x by (auto simp: s'_def d contents_def exp_opt_def)
  have l: "loading s" using assms(1) by (simp add: load_inv_def)
  show "contents s' = (contents s)((d, k) := Some (val_of v, exp_opt e))"
    using changes_contents [OF c l] k by simp
  show "load_inv s0 s'"
    using c assms(1) by (auto simp: load_inv_def changes_def env_of_def)
qed

text \<open>A loaded entry is dropped when its time is over, but not by a replica.\<close>

definition dropped :: "bool \<Rightarrow> int \<Rightarrow> int \<Rightarrow> bool" where
  "dropped replica now e \<longleftrightarrow> \<not> replica \<and> e \<noteq> -1 \<and> e < now"

lemma load_head_ok:
  assumes "in_srange 8 e" "t \<notin> {252, 253}"
    "avail r = (if e = -1 then [] else RDB_OPCODE_EXPIRETIME_MS # le_bytes 8 e) @ t # rest"
  shows "load_head r = Some (e, uint t, advance r (if e = -1 then 1 else 10))"
proof -
  have t: "uint t \<noteq> uint RDB_OPCODE_EXPIRETIME" "uint t \<noteq> uint RDB_OPCODE_EXPIRETIME_MS"
    using assms(2) by (auto simp: RDB_OPCODE_EXPIRETIME_def RDB_OPCODE_EXPIRETIME_MS_def word_uint_eq_iff)
  show ?thesis
  proof (cases "e = -1")
    case True
    with assms(3) t rdbLoadType_avail [of r t rest] show ?thesis by (simp add: load_head_def)
  next
    case False
    have 1: "rdbLoadType r = (uint RDB_OPCODE_EXPIRETIME_MS, advance r 1)"
      using False assms(3) rdbLoadType_avail by simp
    have 2: "rdbLoadMillisecondTime (advance r 1) = (e, advance r 9)"
      using load_time_avail [OF _ assms(1), of "advance r 1" "t # rest"] False assms(3) by simp
    have 3: "rdbLoadType (advance r 9) = (uint t, advance r 10)"
      using rdbLoadType_avail [of "advance r 9" t rest] False assms(3) by (simp add: eval_nat_numeral)
    have 4: "uint RDB_OPCODE_EXPIRETIME_MS \<noteq> uint RDB_OPCODE_EXPIRETIME"
      by (simp add: RDB_OPCODE_EXPIRETIME_def RDB_OPCODE_EXPIRETIME_MS_def)
    show ?thesis unfolding load_head_def 1 prod.case if_not_P [OF 4] using 2 3 False by simp
  qed
qed

lemma type_byte_ok:
  assumes "codec_ok sv load_o"
  shows "type_byte sv v \<notin> {252, 253, 254, 255}"
  using assms by (cases v) (auto simp: type_byte_def codec_ok_def RDB_TYPE_STRING_def)

lemma load_round_ok:
  assumes "codec_ok sv load_o" "load_inv s0 s" "val_fits v" "length k < RDB_LENERR" "in_srange 8 e"
    "kv_bytes sv k v e w" "avail r = w @ rest" "contents s (d, k) = None"
  shows "\<exists>s'. load_round load_o now d s r = Go d s' (advance r (length w)) \<and> load_inv s0 s' \<and>
    contents s' = (if dropped (masterhost s0) now e then contents s
                   else (contents s)((d, k) := Some (val_of v, exp_opt e)))"
proof -
  obtain wk wv where w: "Rdb.stored k wk" "body_bytes sv v wv"
    "w = (if e = -1 then [] else RDB_OPCODE_EXPIRETIME_MS # le_bytes 8 e) @ type_byte sv v # wk @ wv"
    using assms(6) by (auto simp: kv_bytes_def)
  define t where "t = type_byte sv v"
  define r1 where "r1 = advance r (if e = -1 then 1 else 10)"
  have t: "t \<notin> {252, 253, 254, 255}" using type_byte_ok [OF assms(1)] by (simp add: t_def)
  have h: "load_head r = Some (e, uint t, r1)"
    using load_head_ok [OF assms(5), of t r "wk @ wv @ rest"] t assms(7) w(3) by (simp add: r1_def t_def)
  have a1: "avail r1 = wk @ wv @ rest" using assms(7) w(3) by (simp add: r1_def eval_nat_numeral)
  have sh: "shared_ok (shared s)" using assms(2) by (simp add: load_inv_def db_inv_def)
  obtain key sh1 where k: "rdbGenericLoadStringObject (shared s) r1 False = Inr (key, sh1, advance r1 (length wk))"
    "obj_ok key" "obj_val key = k" "shared_ok sh1"
    using rdbLoadString_ok [OF w(1) assms(4) sh a1] by blast
  have kv: "sds_val (ptr_sds (ptr key)) = k" using load_key_str [OF k(1)] k(3) by (auto simp: obj_val_def)
  have sh1: "shared_ok (shared (s\<lparr>shared := sh1\<rparr>))" using k(4) by simp
  have a2: "avail (advance r1 (length wk)) = wv @ rest" using a1 by simp
  from load_object_ok [OF assms(1) sh1 assms(3) w(2) a2] obtain v' sh2 where
    v0: "rdbLoadObject load_o (s\<lparr>shared := sh1\<rparr>) (uint (type_byte sv v)) (advance r1 (length wk))
      = Inr (v', s\<lparr>shared := sh1\<rparr>\<lparr>shared := sh2\<rparr>, advance (advance r1 (length wk)) (length wv))"
    and v: "val_ok v'" "val_of v' = val_of v" "shared_ok sh2" by blast
  have v1: "rdbLoadObject load_o (s\<lparr>shared := sh1\<rparr>) (uint t) (advance r1 (length wk))
      = Inr (v', s\<lparr>shared := sh2\<rparr>, advance r (length w))"
    using v0 w(3) by (simp add: t_def r1_def eval_nat_numeral)
  define s2 where "s2 = s\<lparr>shared := sh2\<rparr>"
  note s2 = set_shared_ok [OF v(3) assms(2), folded s2_def]
  have m: "masterhost s2 = masterhost s0" using s2(1) by (simp add: load_inv_def)
  have "load_round load_o now d s r = load_pair load_o now d s e (uint t) r1"
  proof -
    have "uint t \<noteq> -1" using uint_ge_0 [of t] by linarith
    moreover have "uint t \<noteq> uint RDB_OPCODE_EOF" "uint t \<noteq> uint RDB_OPCODE_SELECTDB"
      using t by (auto simp: RDB_OPCODE_EOF_def RDB_OPCODE_SELECTDB_def word_uint_eq_iff)
    ultimately show ?thesis by (simp add: load_round_def h)
  qed
  also have "\<dots> = Go d (if dropped (masterhost s0) now e then s2
      else if e \<noteq> -1 then setExpire d k e (dbAdd d k v' s2) else dbAdd d k v' s2) (advance r (length w))"
    using k(1) v1 m kv by (simp add: load_pair_def dropped_def Let_def flip: s2_def)
  finally show ?thesis
    using s2 add_key_ok [OF s2(1) v(1), of d k e] assms(8) v(2) by auto
qed

subsection \<open>Loading all entries\<close>

definition exp_int :: "('c, 'o) server \<Rightarrow> nat \<Rightarrow> bytes \<Rightarrow> int" where
  "exp_int s d k = (case exp_of s d k of None \<Rightarrow> -1 | Some w \<Rightarrow> w)"

text \<open>What a dump of \<open>s\<close> at the time \<open>now\<close>, loaded at the time \<open>lnow\<close>, makes of a key: a key whose time
  was over is not written, and not loaded except by a replica.\<close>

definition survives :: "('c, 'o) server \<Rightarrow> int \<Rightarrow> bool \<Rightarrow> int \<Rightarrow> nat \<Rightarrow> bytes \<Rightarrow> bool" where
  "survives s now replica lnow d k \<longleftrightarrow>
     (case exp_of s d k of None \<Rightarrow> True | Some w \<Rightarrow> now \<le> w \<and> (replica \<or> lnow \<le> w))"

definition reloaded :: "('c, 'o) server \<Rightarrow> int \<Rightarrow> bool \<Rightarrow> int \<Rightarrow> nat \<times> bytes \<Rightarrow> ((bytes + 'o) \<times> int option) option" where
  "reloaded s now replica lnow = (\<lambda>(d, k). if survives s now replica lnow d k then contents s (d, k) else None)"

fun entries_bytes ::
  "'o saver \<Rightarrow> ('c, 'o) server \<Rightarrow> int \<Rightarrow> nat \<Rightarrow> (bytes \<times> 'o val) list \<Rightarrow> bytes \<Rightarrow> bool" where
  "entries_bytes sv s now j [] w = (w = [])"
| "entries_bytes sv s now j ((k, v) # es) w =
     (if exp_int s j k \<noteq> -1 \<and> exp_int s j k < now then entries_bytes sv s now j es w
      else \<exists>a b. w = a @ b \<and> kv_bytes sv k v (exp_int s j k) a \<and> entries_bytes sv s now j es b)"

lemma save_entries_ok:
  assumes "db_inv s" "\<forall>(k, v) \<in> set es. val_ok v \<and> length k < 2 ^ 32" "io_faults r = []"
  shows "\<exists>w. save_entries sv s now j es r = (True, appended r w) \<and> entries_bytes sv s now j es w"
  using assms(2,3)
proof (induction es arbitrary: r)
  case Nil
  then show ?case by simp
next
  case (Cons kv es)
  obtain k v where kv: "kv = (k, v)" by fastforce
  have g: "fst (getExpire j k s) = exp_int s j k" by (simp add: getExpire_eq [OF assms(1)] exp_int_def)
  show ?case
  proof (cases "exp_int s j k \<noteq> -1 \<and> exp_int s j k < now")
    case True
    have "rdbSaveKeyValuePair sv r k v (exp_int s j k) now = (0, r)"
      using True by (simp add: rdbSaveKeyValuePair_def)
    with Cons kv g True show ?thesis by auto
  next
    case False
    obtain a where a: "rdbSaveKeyValuePair sv r k v (exp_int s j k) now = (1, appended r a)"
      "kv_bytes sv k v (exp_int s j k) a"
      using save_pair_ok [OF _ _ False, of v k r sv] Cons.prems kv by auto
    obtain b where b: "save_entries sv s now j es (appended r a) = (True, appended r (a @ b))"
      "entries_bytes sv s now j es b"
      using Cons.IH [of "appended r a"] Cons.prems by auto
    have "save_entries sv s now j (kv # es) r = (True, appended r (a @ b))" using kv g a(1) b(1) by simp
    with kv a(2) b(2) False show ?thesis by auto
  qed
qed

definition times_ok :: "('c, 'o) server \<Rightarrow> bool" where
  "times_ok s \<longleftrightarrow> (\<forall>d k w. exp_of s d k = Some w \<longrightarrow> in_srange 8 w \<and> w \<noteq> -1)"

lemma times_okD:
  assumes "times_ok s"
  shows "in_srange 8 (exp_int s d k)" "exp_opt (exp_int s d k) = exp_of s d k"
    "survives s now replica lnow d k \<longleftrightarrow>
      \<not> (exp_int s d k \<noteq> -1 \<and> exp_int s d k < now) \<and> \<not> dropped replica lnow (exp_int s d k)"
proof -
  have "w \<noteq> -1" if "exp_of s d k = Some w" for w using that assms unfolding times_ok_def by blast
  then show "exp_opt (exp_int s d k) = exp_of s d k"
    "survives s now replica lnow d k \<longleftrightarrow>
      \<not> (exp_int s d k \<noteq> -1 \<and> exp_int s d k < now) \<and> \<not> dropped replica lnow (exp_int s d k)"
    by (auto simp: exp_int_def exp_opt_def survives_def dropped_def split: option.split)
  show "in_srange 8 (exp_int s d k)"
    using assms by (auto simp: exp_int_def times_ok_def in_srange_def split: option.split)
qed

definition entry_ok :: "('c, 'o) server \<Rightarrow> nat \<Rightarrow> bytes \<times> 'o val \<Rightarrow> bool" where
  "entry_ok s j = (\<lambda>(k, v). val_fits v \<and> length k < RDB_LENERR \<and> fmlookup (kdict (dbs s j)) k = Some v)"

lemma load_entries_ok:
  assumes "codec_ok sv load_o" "times_ok s" "distinct (map fst es)" "list_all (entry_ok s j) es"
    "entries_bytes sv s now j es w" "avail r = w @ rest"
    "load_inv s0 s1" "\<forall>k \<in> fst ` set es. contents s1 (j, k) = None"
  shows "\<exists>N s2. (\<forall>n. load_loop load_o lnow (N + n) j s1 r = load_loop load_o lnow n j s2 (advance r (length w))) \<and>
    load_inv s0 s2 \<and>
    contents s2 = (\<lambda>(d, k). if d = j \<and> k \<in> fst ` set es then reloaded s now (masterhost s0) lnow (d, k)
                          else contents s1 (d, k))"
  using assms(3-8)
proof (induction es arbitrary: w r s1)
  case Nil
  then show ?case by (intro exI [of _ 0] exI [of _ s1]) auto
next
  case (Cons kv es)
  obtain k v where kv: "kv = (k, v)" by fastforce
  define e where "e = exp_int s j k"
  have en: "val_fits v" "length k < RDB_LENERR" "fmlookup (kdict (dbs s j)) k = Some v" "list_all (entry_ok s j) es"
    using Cons.prems(2) kv by (simp_all add: entry_ok_def)
  have d: "distinct (map fst es)" "k \<notin> fst ` set es" using Cons.prems(1) kv by auto
  have ck: "contents s (j, k) = Some (val_of v, exp_of s j k)" using en(3) by (simp add: contents_def stored_def)
  note t = times_okD [OF assms(2), where d = j and k = k, folded e_def]
  have none: "contents s1 (j, k) = None" using Cons.prems(6) kv by simp
  show ?case
  proof (cases "e \<noteq> -1 \<and> e < now")
    case True
    then have g: "reloaded s now (masterhost s0) lnow (j, k) = None" by (simp add: reloaded_def t(3))
    have "entries_bytes sv s now j es w" using Cons.prems(3) kv True by (simp add: e_def)
    from Cons.IH [OF d(1) en(4) this Cons.prems(4,5)] Cons.prems(6) kv obtain N s2 where
      "\<forall>n. load_loop load_o lnow (N + n) j s1 r = load_loop load_o lnow n j s2 (advance r (length w))"
      "load_inv s0 s2"
      "contents s2 = (\<lambda>(d, k). if d = j \<and> k \<in> fst ` set es then reloaded s now (masterhost s0) lnow (d, k)
                          else contents s1 (d, k))" by auto
    then show ?thesis using g none kv by (intro exI [of _ N] exI [of _ s2]) (auto simp: fun_eq_iff)
  next
    case False
    with Cons.prems(3) kv obtain a b where ab: "w = a @ b" "kv_bytes sv k v e a" "entries_bytes sv s now j es b"
      by (auto simp: e_def)
    have av: "avail r = a @ b @ rest" using Cons.prems(4) ab(1) by simp
    obtain s' where s': "load_round load_o lnow j s1 r = Go j s' (advance r (length a))" "load_inv s0 s'"
      "contents s' = (if dropped (masterhost s0) lnow e then contents s1
                   else (contents s1)((j, k) := Some (val_of v, exp_opt e)))"
      using load_round_ok [OF assms(1) Cons.prems(5) en(1,2) t(1) ab(2) av none, of lnow] by blast
    have c': "contents s' = (contents s1)((j, k) := reloaded s now (masterhost s0) lnow (j, k))"
      using s'(3) t(2,3) False ck none by (auto simp: reloaded_def)
    have "\<forall>k \<in> fst ` set es. contents s' (j, k) = None" using c' Cons.prems(6) d(2) kv by auto
    from Cons.IH [OF d(1) en(4) ab(3) _ s'(2) this, of "advance r (length a)"] av obtain N s2 where
      i: "\<forall>n. load_loop load_o lnow (N + n) j s' (advance r (length a)) =
        load_loop load_o lnow n j s2 (advance r (length w))"
      "load_inv s0 s2"
      "contents s2 = (\<lambda>(d, k). if d = j \<and> k \<in> fst ` set es then reloaded s now (masterhost s0) lnow (d, k)
                          else contents s' (d, k))" using ab(1) by auto
    have "\<forall>n. load_loop load_o lnow (Suc N + n) j s1 r = load_loop load_o lnow n j s2 (advance r (length w))"
      using i(1) s'(1) by simp
    moreover have "contents s2 = (\<lambda>(d, k). if d = j \<and> k \<in> fst ` set (kv # es)
        then reloaded s now (masterhost s0) lnow (d, k) else contents s1 (d, k))"
      using i(3) c' kv d(2) by (auto simp: fun_eq_iff)
    ultimately show ?thesis using i(2) by blast
  qed
qed

subsection \<open>All data bases\<close>

text \<open>The order in which the iterator of \<open>dict.c\<close> visits the entries: every entry once.\<close>

definition iterates :: "('c, 'o) server \<Rightarrow> (nat \<Rightarrow> (bytes \<times> 'o val) list) \<Rightarrow> bool" where
  "iterates s order \<longleftrightarrow>
     (\<forall>j. distinct (map fst (order j)) \<and> map_of (order j) = fmlookup (kdict (dbs s j)))"

text \<open>Lengths that a dump can hold: less than 4 GB.\<close>

definition dump_fits :: "('c, 'o) server \<Rightarrow> bool" where
  "dump_fits s \<longleftrightarrow> db_inv s \<and> times_ok s \<and> dbnum (conf s) \<le> RDB_LENERR \<and>
     (\<forall>d k v. fmlookup (kdict (dbs s d)) k = Some v \<longrightarrow> val_fits v \<and> length k < RDB_LENERR)"

definition db_bytes ::
  "'o saver \<Rightarrow> ('c, 'o) server \<Rightarrow> int \<Rightarrow> nat \<Rightarrow> (bytes \<times> 'o val) list \<Rightarrow> bytes \<Rightarrow> bool" where
  "db_bytes sv s now j es w \<longleftrightarrow>
     (if dictSizeOf (kdict (dbs s j)) = 0 then w = []
      else \<exists>b. w = RDB_OPCODE_SELECTDB # len_bytes j @ b \<and> entries_bytes sv s now j es b)"

fun dbs_bytes ::
  "'o saver \<Rightarrow> ('c, 'o) server \<Rightarrow> int \<Rightarrow> (nat \<Rightarrow> (bytes \<times> 'o val) list) \<Rightarrow> nat list \<Rightarrow> bytes \<Rightarrow> bool" where
  "dbs_bytes sv s now order [] w = (w = [])"
| "dbs_bytes sv s now order (j # js) w =
     (\<exists>a b. w = a @ b \<and> db_bytes sv s now j (order j) a \<and> dbs_bytes sv s now order js b)"

lemma iterates_entry_ok:
  assumes "iterates s order" "dump_fits s"
  shows "list_all (entry_ok s j) (order j)"
proof -
  have "entry_ok s j (k, v)" if "(k, v) \<in> set (order j)" for k v
  proof -
    have "fmlookup (kdict (dbs s j)) k = Some v"
      using that assms(1) map_of_is_SomeI by (fastforce simp: iterates_def)
    with assms(2) show ?thesis by (auto simp: dump_fits_def entry_ok_def)
  qed
  then show ?thesis by (auto simp: list_all_iff)
qed

lemma save_dbs_ok:
  assumes "iterates s order" "dump_fits s" "io_faults r = []"
  shows "\<exists>w. save_dbs sv s now order js r = (True, appended r w) \<and> dbs_bytes sv s now order js w"
  using assms(3)
proof (induction js arbitrary: r)
  case Nil
  then show ?case by simp
next
  case (Cons j js)
  have ok: "\<forall>(k, v) \<in> set (order j). val_ok v \<and> length k < 2 ^ 32"
    using iterates_entry_ok [OF assms(1,2), of j]
    by (fastforce simp: list_all_iff entry_ok_def val_fits_def RDB_LENERR_def)
  have inv: "db_inv s" using assms(2) by (simp add: dump_fits_def)
  obtain a where a: "save_db sv s now j (order j) r = (True, appended r a)" "db_bytes sv s now j (order j) a"
  proof (cases "dictSizeOf (kdict (dbs s j)) = 0")
    case True
    with that [of "[]"] show thesis by (simp add: save_db_def db_bytes_def)
  next
    case False
    obtain b where "save_entries sv s now j (order j) (appended r (RDB_OPCODE_SELECTDB # len_bytes j))
        = (True, appended r ((RDB_OPCODE_SELECTDB # len_bytes j) @ b))" "entries_bytes sv s now j (order j) b"
      using save_entries_ok [OF inv ok, where sv = sv and now = now
        and r = "appended r (RDB_OPCODE_SELECTDB # len_bytes j)"] Cons.prems by auto
    with False that [of "RDB_OPCODE_SELECTDB # len_bytes j @ b"] show thesis
      using Cons.prems by (simp add: save_db_def db_bytes_def rdbSaveType_def rdbSaveLen_ok)
  qed
  obtain b where "save_dbs sv s now order js (appended r a) = (True, appended r (a @ b))" "dbs_bytes sv s now order js b"
    using Cons.IH [of "appended r a"] Cons.prems by auto
  with a show ?case by auto
qed

lemma load_select_ok:
  assumes "avail r = RDB_OPCODE_SELECTDB # len_bytes j @ rest" "j < dbnum (conf s)" "dbnum (conf s) \<le> RDB_LENERR"
  shows "load_round load_o now d s r = Go j s (advance r (Suc (length (len_bytes j))))"
proof -
  have n: "uint RDB_OPCODE_SELECTDB \<notin> {uint RDB_OPCODE_EXPIRETIME, uint RDB_OPCODE_EXPIRETIME_MS, -1, uint RDB_OPCODE_EOF}"
    by (simp add: RDB_OPCODE_SELECTDB_def RDB_OPCODE_EXPIRETIME_def RDB_OPCODE_EXPIRETIME_MS_def RDB_OPCODE_EOF_def)
  have h: "load_head r = Some (-1, uint RDB_OPCODE_SELECTDB, advance r 1)"
    using rdbLoadType_avail [OF assms(1)] n by (simp add: load_head_def)
  have l: "rdbLoadLen (advance r 1) = (False, j, advance r (Suc (length (len_bytes j))))"
    using rdbLoadLen_ok [of "advance r 1" j rest] assms by (simp add: RDB_LENERR_def)
  show ?thesis using n l assms(2,3) by (simp add: load_round_def h)
qed

lemma load_dbs_ok:
  assumes "codec_ok sv load_o" "iterates s order" "dump_fits s" "dbnum (conf s0) = dbnum (conf s)"
    "distinct js" "\<forall>j \<in> set js. j < dbnum (conf s)" "dbs_bytes sv s now order js w" "avail r = w @ rest"
    "load_inv s0 s1" "\<forall>j \<in> set js. \<forall>k. contents s1 (j, k) = None"
  shows "\<exists>N d' s2. (\<forall>n. load_loop load_o lnow (N + n) d s1 r = load_loop load_o lnow n d' s2 (advance r (length w))) \<and>
    load_inv s0 s2 \<and>
    contents s2 = (\<lambda>(j, k). if j \<in> set js then reloaded s now (masterhost s0) lnow (j, k) else contents s1 (j, k))"
  using assms(5-10)
proof (induction js arbitrary: w r d s1)
  case Nil
  then show ?case by (intro exI [of _ 0] exI [of _ d] exI [of _ s1]) auto
next
  case (Cons j js)
  let ?g = "reloaded s now (masterhost s0) lnow"
  obtain a b where ab: "w = a @ b" "db_bytes sv s now j (order j) a" "dbs_bytes sv s now order js b"
    using Cons.prems(3) by auto
  have it: "distinct (map fst (order j))" "map_of (order j) = fmlookup (kdict (dbs s j))"
    using assms(2) by (simp_all add: iterates_def)
  have ks: "k \<in> fst ` set (order j) \<longleftrightarrow> fmlookup (kdict (dbs s j)) k \<noteq> None" for k
    using it(2) by (metis map_of_eq_None_iff)
  have gn: "?g (j, k) = None" if "k \<notin> fst ` set (order j)" for k
    using that ks [of k] by (simp add: reloaded_def contents_def stored_def)
  have d1: "conf s1 = conf s0" using Cons.prems(5) by (simp add: load_inv_def)
  have "\<exists>N d1 s2. (\<forall>n. load_loop load_o lnow (N + n) d s1 r = load_loop load_o lnow n d1 s2 (advance r (length a))) \<and>
      load_inv s0 s2 \<and> contents s2 = (\<lambda>(i, k). if i = j then ?g (j, k) else contents s1 (i, k))"
  proof (cases "dictSizeOf (kdict (dbs s j)) = 0")
    case True
    have "?g (j, k) = None" for k using True by (simp add: dictSizeOf_0 reloaded_def contents_def stored_def)
    then have "contents s1 = (\<lambda>(i, k). if i = j then ?g (j, k) else contents s1 (i, k))"
      using Cons.prems(6) by (auto simp: fun_eq_iff)
    with True ab(2) Cons.prems(5) show ?thesis
      by (intro exI [of _ 0] exI [of _ d] exI [of _ s1]) (simp add: db_bytes_def)
  next
    case False
    with ab(2) obtain c where c: "a = RDB_OPCODE_SELECTDB # len_bytes j @ c" "entries_bytes sv s now j (order j) c"
      by (auto simp: db_bytes_def)
    define r1 where "r1 = advance r (Suc (length (len_bytes j)))"
    have sel: "load_round load_o lnow d s1 r = Go j s1 r1"
      using load_select_ok [of r j "c @ b @ rest" s1] Cons.prems(2,4) ab(1) c(1) d1 assms(3,4)
      by (simp add: r1_def dump_fits_def)
    have av: "avail r1 = c @ b @ rest" using Cons.prems(4) ab(1) c(1) by (simp add: r1_def)
    have t: "times_ok s" using assms(3) by (simp add: dump_fits_def)
    obtain N s2 where
      n: "\<forall>n. load_loop load_o lnow (N + n) j s1 r1 = load_loop load_o lnow n j s2 (advance r1 (length c))"
      "load_inv s0 s2"
      "contents s2 = (\<lambda>(i, k). if i = j \<and> k \<in> fst ` set (order j) then ?g (i, k) else contents s1 (i, k))"
      using load_entries_ok [OF assms(1) t it(1) iterates_entry_ok [OF assms(2,3)] c(2) av Cons.prems(5), of lnow]
        Cons.prems(6) by auto
    have "contents s2 = (\<lambda>(i, k). if i = j then ?g (j, k) else contents s1 (i, k))"
      using n(3) gn Cons.prems(6) by (auto simp: fun_eq_iff)
    moreover have "\<forall>n. load_loop load_o lnow (Suc N + n) d s1 r = load_loop load_o lnow n j s2 (advance r (length a))"
      using n(1) sel c(1) by (simp add: r1_def)
    ultimately show ?thesis using n(2) by blast
  qed
  then obtain N d1 s2 where
    n: "\<forall>n. load_loop load_o lnow (N + n) d s1 r = load_loop load_o lnow n d1 s2 (advance r (length a))"
    "load_inv s0 s2" "contents s2 = (\<lambda>(i, k). if i = j then ?g (j, k) else contents s1 (i, k))" by blast
  have "\<forall>i \<in> set js. \<forall>k. contents s2 (i, k) = None" using n(3) Cons.prems(1,6) by auto
  from Cons.IH [OF _ _ ab(3) _ n(2) this, of "advance r (length a)" d1] Cons.prems(1,2,4) ab(1) obtain M d2 s3 where
    m: "\<forall>n. load_loop load_o lnow (M + n) d1 s2 (advance r (length a)) = load_loop load_o lnow n d2 s3 (advance r (length w))"
    "load_inv s0 s3" "contents s3 = (\<lambda>(i, k). if i \<in> set js then ?g (i, k) else contents s2 (i, k))"
    by auto
  have "\<forall>n. load_loop load_o lnow ((N + M) + n) d s1 r = load_loop load_o lnow n d2 s3 (advance r (length w))"
    using n(1) m(1) by (simp add: add.assoc)
  moreover have "contents s3 = (\<lambda>(i, k). if i \<in> set (j # js) then ?g (i, k) else contents s1 (i, k))"
    using m(3) n(3) Cons.prems(1) by (auto simp: fun_eq_iff)
  ultimately show ?case using m(2) by blast
qed

subsection \<open>The whole file\<close>

definition magic_bytes :: bytes where "magic_bytes = map of_char ''REDIS0006''"

lemma magic_eq: "magic_bytes = [82, 69, 68, 73, 83, 48, 48, 48, 54]"
  by (simp add: magic_bytes_def)

lemma length_magic: "length magic_bytes = 9"
  by (simp add: magic_eq)

lemma magic_version: "fst (strtoll_full (cstr (drop 5 magic_bytes @ [0]))) = 6"
  by code_simp

text \<open>A dump: the magic, the data bases, the end mark and the checksum.\<close>

definition dump_bytes :: "'o saver \<Rightarrow> bool \<Rightarrow> ('c, 'o) server \<Rightarrow> (nat \<Rightarrow> (bytes \<times> 'o val) list) \<Rightarrow> bytes \<Rightarrow> bytes \<Rightarrow> bool" where
  "dump_bytes sv chk s order w file \<longleftrightarrow>
     dbs_bytes sv s (mstime s) order [0..<dbnum (conf s)] w \<and>
     file = magic_bytes @ w @ [RDB_OPCODE_EOF] @
       le_bytes 8 (uint (if chk then crc64 0 (magic_bytes @ w @ [RDB_OPCODE_EOF]) else 0))"

lemma rdbSaveRio_ok:
  assumes "iterates s order" "dump_fits s"
  shows "\<exists>w file. rdbSaveRio sv chk s order (rioInitWithBuffer []) = (True, appended (rioInitWithBuffer []) file) \<and>
    dump_bytes sv chk s order w file"
proof -
  obtain w where w: "save_dbs sv s (mstime s) order [0..<dbnum (conf s)] (appended (rioInitWithBuffer []) magic_bytes)
      = (True, appended (rioInitWithBuffer []) (magic_bytes @ w))"
    "dbs_bytes sv s (mstime s) order [0..<dbnum (conf s)] w"
    using save_dbs_ok [OF assms, where sv = sv and now = "mstime s" and js = "[0..<dbnum (conf s)]"
        and r = "appended (rioInitWithBuffer []) magic_bytes"] by auto
  define dump where "dump = magic_bytes @ w @ [RDB_OPCODE_EOF] @
       le_bytes 8 (uint (if chk then crc64 0 (magic_bytes @ w @ [RDB_OPCODE_EOF]) else 0))"
  have p: "io_ptr (appended (rioInitWithBuffer []) b) = b" for b
    by (simp add: appended_def rioInitWithBuffer_def)
  have "rdbSaveRio sv chk s order (rioInitWithBuffer []) = (True, appended (rioInitWithBuffer []) dump)"
    unfolding rdbSaveRio_def magic_bytes_def [symmetric]
    using w(1) by (simp add: rdbSaveType_def p rioFileWrite_appended dump_def Let_def)
  with w(2) show ?thesis by (auto simp: dump_bytes_def dump_def)
qed

lemma load_eof_ok:
  assumes "avail r = RDB_OPCODE_EOF # rest"
  shows "load_round load_o now d s r = Eof (advance r 1)"
proof -
  have n: "uint RDB_OPCODE_EOF \<notin> {uint RDB_OPCODE_EXPIRETIME, uint RDB_OPCODE_EXPIRETIME_MS, -1}"
    by (simp add: RDB_OPCODE_EXPIRETIME_def RDB_OPCODE_EXPIRETIME_MS_def RDB_OPCODE_EOF_def)
  have "load_head r = Some (-1, uint RDB_OPCODE_EOF, advance r 1)"
    using rdbLoadType_avail [OF assms] n by (simp add: load_head_def)
  with n show ?thesis by (simp add: load_round_def)
qed

lemma check_sum_ok:
  assumes "file = body @ le_bytes 8 (uint (if chk then crc64 0 body else 0))"
    "io_ptr r = file" "io_pos r = length body"
  shows "check_sum chk' v r"
proof -
  have "avail r = le_bytes 8 (uint (if chk then crc64 0 body else 0))" using assms by (simp add: avail_def)
  then have "rioBufferRead r 8 = Some (le_bytes 8 (uint (if chk then crc64 0 body else 0)), advance r 8)"
    by (simp add: rioBufferRead_avail)
  moreover have "le_uint (le_bytes 8 (uint (x :: 64 word))) = uint x" for x
    using uint_lt2p [of x] by (simp add: le_uint_le_bytes)
  ultimately show ?thesis using assms by (simp add: check_sum_def Let_def)
qed

text \<open>Reading the header of a dump.\<close>

lemma rdbLoad_magic:
  assumes "file = magic_bytes @ rest"
  shows "rdbLoad load_o chk n (Some file) s =
    (case load_loop load_o (mstime s) n 0 (s\<lparr>loading := True\<rparr>) (advance (rioInitWithBuffer file) 9) of
       LoadDone (s, r) \<Rightarrow> if check_sum chk 6 r then LoadDone (s\<lparr>loading := False\<rparr>) else LoadExit
     | LoadErr \<Rightarrow> LoadErr | LoadExit \<Rightarrow> LoadExit | LoadAbort \<Rightarrow> LoadAbort | LoadFuel \<Rightarrow> LoadFuel)"
proof -
  have r: "rioBufferRead (rioInitWithBuffer file) 9 = Some (magic_bytes, advance (rioInitWithBuffer file) 9)"
    using assms by (simp add: rioBufferRead_avail avail_def rioInitWithBuffer_def magic_eq)
  have m: "memcmp magic_bytes (map of_char ''REDIS'') 5 = 0" by (simp add: magic_eq eval_nat_numeral)
  show ?thesis
    unfolding rdbLoad_def option.case r prod.case m Let_def magic_version by (simp add: RDB_VERSION_def)
qed

lemma loaded_state:
  assumes "load_inv s0 s"
  shows "contents (s\<lparr>loading := False\<rparr>) = contents s" "db_inv (s\<lparr>loading := False\<rparr>)"
  using assms by (simp_all add: contents_def stored_def exp_of_def load_inv_def db_inv_def)

lemma rdb_load_dump:
  assumes "codec_ok sv load_o" "iterates s order" "dump_fits s" "dump_bytes sv chk s order w file"
    "db_inv s0" "dbnum (conf s0) = dbnum (conf s)" "\<forall>x. contents s0 x = None"
  shows "\<exists>N s' r. (\<forall>n. load_loop load_o (mstime s0) (N + n) 0 (s0\<lparr>loading := True\<rparr>) (advance (rioInitWithBuffer file) 9)
        = LoadDone (s', r)) \<and> io_ptr r = file \<and> io_pos r + 8 = length file \<and> load_inv s0 s' \<and>
    (\<forall>d k. contents s' (d, k) =
       (if d < dbnum (conf s) \<and> survives s (mstime s) (masterhost s0) (mstime s0) d k then contents s (d, k) else None))"
proof -
  define r0 where "r0 = advance (rioInitWithBuffer file) 9"
  define s1 where "s1 = s0\<lparr>loading := True\<rparr>"
  have inv: "load_inv s0 s1" using assms(5) by (simp add: load_inv_def s1_def db_inv_def stored_def exp_of_def)
  have c1: "contents s1 = contents s0" by (simp add: s1_def contents_def stored_def exp_of_def)
  obtain sum where f: "file = magic_bytes @ w @ [RDB_OPCODE_EOF] @ sum" "length sum = 8"
    "dbs_bytes sv s (mstime s) order [0..<dbnum (conf s)] w"
    using assms(4) by (auto simp: dump_bytes_def)
  have av: "avail r0 = w @ RDB_OPCODE_EOF # sum"
    using f(1) by (simp add: r0_def avail_def advance_def rioInitWithBuffer_def magic_eq)
  obtain N d' s2 where n:
    "\<forall>n. load_loop load_o (mstime s0) (N + n) 0 s1 r0 = load_loop load_o (mstime s0) n d' s2 (advance r0 (length w))"
    "load_inv s0 s2"
    "contents s2 = (\<lambda>(j, k). if j \<in> set [0..<dbnum (conf s)]
        then reloaded s (mstime s) (masterhost s0) (mstime s0) (j, k) else contents s1 (j, k))"
    using load_dbs_ok [OF assms(1-3,6) distinct_upt _ f(3) av inv, of "mstime s0" 0] assms(7) c1 by auto
  have "load_round load_o (mstime s0) d' s2 (advance r0 (length w)) = Eof (advance r0 (Suc (length w)))"
    using load_eof_ok [of "advance r0 (length w)" sum] av by simp
  then have "\<forall>n. load_loop load_o (mstime s0) (Suc N + n) 0 s1 r0 = LoadDone (s2, advance r0 (Suc (length w)))"
    using n(1) [rule_format, of "Suc n" for n] by simp
  moreover have "io_ptr (advance r0 (Suc (length w))) = file" "io_pos (advance r0 (Suc (length w))) + 8 = length file"
    using f by (simp_all add: r0_def advance_def rioInitWithBuffer_def magic_eq)
  moreover have "\<forall>d k. contents s2 (d, k) = (if d < dbnum (conf s) \<and>
      survives s (mstime s) (masterhost s0) (mstime s0) d k then contents s (d, k) else None)"
    using n(3) c1 assms(7) by (simp add: reloaded_def)
  ultimately show ?thesis using n(2) unfolding s1_def r0_def by blast
qed

subsection \<open>A longer file\<close>

text \<open>Reading does not depend on what comes after the bytes read: with more bytes at the end, a result
  other than the end of the file stays the same.\<close>

definition ext :: "bytes \<Rightarrow> rio \<Rightarrow> rio" where "ext q r = r\<lparr>io_ptr := io_ptr r @ q\<rparr>"

definition reads :: "rio \<Rightarrow> rio \<Rightarrow> bool" where
  "reads r r' \<longleftrightarrow> (\<exists>k \<le> length (avail r). r' = advance r k)"

lemma reads_refl [simp]: "reads r r"
  unfolding reads_def by (rule exI [of _ 0]) simp

lemma reads_trans:
  assumes "reads r s" "reads s t"
  shows "reads r t"
proof -
  obtain k m where "k \<le> length (avail r)" "s = advance r k" "m \<le> length (avail s)" "t = advance s m"
    using assms by (auto simp: reads_def)
  then show ?thesis unfolding reads_def by (intro exI [of _ "k + m"]) simp
qed

lemma rioBufferRead_ext:
  assumes "rioBufferRead r n = Some (b, r')"
  shows "reads r r'" "rioBufferRead (ext q r) n = Some (b, ext q r')"
proof -
  have n: "n \<le> length (avail r)" "b = take n (avail r)" "r' = advance r n"
    using assms by (auto simp: rioBufferRead_avail split: if_splits)
  then show "reads r r'" by (auto simp: reads_def)
  have "avail (ext q r) = avail r @ drop (io_pos r - length (io_ptr r)) q"
    by (simp add: avail_def ext_def)
  with n show "rioBufferRead (ext q r) n = Some (b, ext q r')"
    by (simp add: rioBufferRead_avail) (simp add: advance_def ext_def)
qed

lemma rdbLoadType_ext:
  assumes "rdbLoadType r = (t, r')" "t \<noteq> -1"
  shows "rdbLoadType (ext q r) = (t, ext q r')" "r' = advance r 1" "avail r \<noteq> []"
proof -
  from assms obtain b where b: "rioBufferRead r 1 = Some (b, r')" "t = uint (hd b)"
    by (auto simp: rdbLoadType_def split: option.splits)
  then show "rdbLoadType (ext q r) = (t, ext q r')"
    using rioBufferRead_ext(2) [OF b(1)] by (simp add: rdbLoadType_def)
  show "r' = advance r 1" "avail r \<noteq> []"
    using b(1) by (auto simp: rioBufferRead_avail split: if_splits)
qed

lemma load_times_ext:
  "rdbLoadTime r = (e, r') \<Longrightarrow> e \<noteq> -1 \<Longrightarrow> reads r r' \<and> rdbLoadTime (ext q r) = (e, ext q r')"
  "rdbLoadMillisecondTime r = (e, r') \<Longrightarrow> e \<noteq> -1 \<Longrightarrow> reads r r' \<and> rdbLoadMillisecondTime (ext q r) = (e, ext q r')"
  using rioBufferRead_ext
  by (auto simp: rdbLoadTime_def rdbLoadMillisecondTime_def split: option.splits)

lemma rdbLoadLen_ext:
  assumes "rdbLoadLen r = (b, n, r')" "n \<noteq> RDB_LENERR"
  shows "reads r r' \<and> rdbLoadLen (ext q r) = (b, n, ext q r')"
proof -
  obtain buf r1 where r1: "rioBufferRead r 1 = Some (buf, r1)"
    using assms by (auto simp: rdbLoadLen_def split: option.splits)
  note e = rioBufferRead_ext [OF r1]
  define t where "t = drop_bit 6 (hd buf AND 192)"
  define m where "m = (if t = RDB_ENCVAL \<or> t = RDB_6BITLEN then 0 else if t = RDB_14BITLEN then 1 else 4 :: nat)"
  have l: "rdbLoadLen x = (if m = 0 then (t = RDB_ENCVAL, unat (hd buf AND 63), y)
      else case rioBufferRead y m of None \<Rightarrow> (False, RDB_LENERR, y)
        | Some (c, z) \<Rightarrow> (False, if m = 1 then unat (hd buf AND 63) * 256 + unat (hd c) else nat (le_uint (rev c)), z))"
    if "rioBufferRead x 1 = Some (buf, y)" for x y :: rio
    using rdb_types [symmetric] unfolding rdbLoadLen_def that option.case prod.case Let_def t_def [symmetric] m_def
    by (simp split: option.split)
  show ?thesis
  proof (cases "m = 0")
    case True
    then show ?thesis using l [OF r1] l [OF e(2)] e(1) assms by simp
  next
    case False
    obtain c z where c: "rioBufferRead r1 m = Some (c, z)"
      using l [OF r1] assms False by (cases "rioBufferRead r1 m") auto
    note f = rioBufferRead_ext [OF c]
    show ?thesis using l [OF r1] l [OF e(2)] assms False c f(2) reads_trans [OF e(1) f(1)] by auto
  qed
qed

lemma rdbLoadLen_err: "rdbLoadLen r = (i, RDB_LENERR, r') \<Longrightarrow> \<not> i"
proof -
  have "unat (x :: byte) \<noteq> RDB_LENERR" for x using unsigned_less [of x, where ?'a = nat] by (simp add: RDB_LENERR_def)
  then show "rdbLoadLen r = (i, RDB_LENERR, r') \<Longrightarrow> \<not> i"
    by (auto simp: rdbLoadLen_def Let_def split: option.splits if_splits)
qed

lemma rdbLoadIntegerObject_ext:
  "rdbLoadIntegerObject sh r t enc = Inr (o1, sh', r') \<Longrightarrow>
     reads r r' \<and> rdbLoadIntegerObject sh (ext q r) t enc = Inr (o1, sh', ext q r')"
  "rdbLoadIntegerObject sh r t enc = Inl e \<Longrightarrow> e \<noteq> LoadNull \<Longrightarrow> rdbLoadIntegerObject sh (ext q r) t enc = Inl e"
  unfolding rdbLoadIntegerObject_def
  by (auto simp: rioBufferRead_ext split: option.splits if_splits prod.splits dest: rioBufferRead_ext)

lemma rdbLoadLzf_ext:
  "rdbLoadLzfStringObject r = Inr (o1, r') \<Longrightarrow>
     reads r r' \<and> rdbLoadLzfStringObject (ext q r) = Inr (o1, ext q r')" (is "?A \<Longrightarrow> ?B")
  "rdbLoadLzfStringObject r = Inl e \<Longrightarrow> e \<noteq> LoadNull \<Longrightarrow> rdbLoadLzfStringObject (ext q r) = Inl e" (is "?C \<Longrightarrow> ?D \<Longrightarrow> ?E")
proof -
  have "(?A \<longrightarrow> ?B) \<and> (?C \<and> ?D \<longrightarrow> ?E)"
  proof (cases "?A \<or> ?C \<and> ?D")
    case True
    obtain i1 clen r1 where 1: "rdbLoadLen r = (i1, clen, r1)" by (cases "rdbLoadLen r") auto
    obtain i2 len r2 where 2: "rdbLoadLen r1 = (i2, len, r2)" by (cases "rdbLoadLen r1") auto
    from True 1 2 have n: "clen \<noteq> RDB_LENERR" "len \<noteq> RDB_LENERR"
      unfolding rdbLoadLzfStringObject_def by (auto split: if_splits)
    from True 1 2 n obtain c r3 where 3: "rioBufferRead r2 clen = Some (c, r3)"
      unfolding rdbLoadLzfStringObject_def by (cases "rioBufferRead r2 clen") auto
    note e = rdbLoadLen_ext [OF 1 n(1), of q] rdbLoadLen_ext [OF 2 n(2), of q] rioBufferRead_ext [OF 3]
    have "reads r r3" using e reads_trans by blast
    then show ?thesis
      using e(1,2) n unfolding rdbLoadLzfStringObject_def 1 2 3 e(4) prod.case option.case Let_def
      by (auto simp: e(4) split: sum.splits lzf_error.splits if_splits)
  qed auto
  then show "?A \<Longrightarrow> ?B" "?C \<Longrightarrow> ?D \<Longrightarrow> ?E" by blast+
qed

lemma rdbGenericLoad_ext:
  "rdbGenericLoadStringObject sh r enc = Inr (o1, sh', r') \<Longrightarrow>
     reads r r' \<and> rdbGenericLoadStringObject sh (ext q r) enc = Inr (o1, sh', ext q r')" (is "?A \<Longrightarrow> ?B")
  "rdbGenericLoadStringObject sh r enc = Inl e \<Longrightarrow> e \<noteq> LoadNull \<Longrightarrow>
     rdbGenericLoadStringObject sh (ext q r) enc = Inl e" (is "?C \<Longrightarrow> ?D \<Longrightarrow> ?E")
proof -
  have "(?A \<longrightarrow> ?B) \<and> (?C \<and> ?D \<longrightarrow> ?E)"
  proof (cases "?A \<or> ?C \<and> ?D")
    case True
    obtain i n r1 where 1: "rdbLoadLen r = (i, n, r1)" by (cases "rdbLoadLen r") auto
    have n: "n \<noteq> RDB_LENERR"
    proof
      assume n: "n = RDB_LENERR"
      then have "\<not> i" using 1 rdbLoadLen_err by blast
      then have "rdbGenericLoadStringObject sh r enc = Inl LoadNull"
        using n by (simp add: rdbGenericLoadStringObject_def 1)
      with True show False by auto
    qed
    note e = rdbLoadLen_ext [OF 1 n, of q]
    consider (int) "i" "n = RDB_ENC_INT8 \<or> n = RDB_ENC_INT16 \<or> n = RDB_ENC_INT32"
      | (lzf) "i" "\<not> (n = RDB_ENC_INT8 \<or> n = RDB_ENC_INT16 \<or> n = RDB_ENC_INT32)" "n = RDB_ENC_LZF"
      | (bad) "i" "\<not> (n = RDB_ENC_INT8 \<or> n = RDB_ENC_INT16 \<or> n = RDB_ENC_INT32)" "n \<noteq> RDB_ENC_LZF"
      | (raw) "\<not> i" by blast
    then have "(?A \<longrightarrow> ?B) \<and> (?C \<and> ?D \<longrightarrow> ?E)"
    proof cases
      case int
      then have g: "rdbGenericLoadStringObject sh x enc = rdbLoadIntegerObject sh y n enc"
        if "rdbLoadLen x = (i, n, y)" for x y
        by (simp only: rdbGenericLoadStringObject_def that prod.case if_True)
      show ?thesis
        unfolding g [OF 1] g [OF conjunct2 [OF e]]
        using rdbLoadIntegerObject_ext [of sh r1 n enc] conjunct1 [OF e] reads_trans by blast
    next
      case lzf
      then have g: "rdbGenericLoadStringObject sh x enc =
          (case rdbLoadLzfStringObject y of Inl e \<Rightarrow> Inl e | Inr (o1, r) \<Rightarrow> Inr (o1, sh, r))"
        if "rdbLoadLen x = (i, n, y)" for x y
        by (simp only: rdbGenericLoadStringObject_def that prod.case if_True if_False simp_thms)
      show ?thesis
      proof (cases "rdbLoadLzfStringObject r1")
        case (Inl x)
        then show ?thesis
          using rdbLoadLzf_ext(2) [OF Inl, of q] unfolding g [OF 1] g [OF conjunct2 [OF e]] by auto
      next
        case (Inr y)
        obtain o2 r2 where y: "y = (o2, r2)" by (cases y) auto
        from rdbLoadLzf_ext(1) [OF Inr [unfolded y], of q] reads_trans [OF conjunct1 [OF e]] Inr y
        show ?thesis unfolding g [OF 1] g [OF conjunct2 [OF e]] by auto
      qed
    next
      case bad
      then have "rdbGenericLoadStringObject sh x enc = Inl LoadPanic" if "rdbLoadLen x = (i, n, y)" for x y
        by (simp only: rdbGenericLoadStringObject_def that prod.case if_True if_False)
      with 1 e show ?thesis by simp
    next
      case raw
      define o2 where "o2 = (if enc then createStringObject None n else createRawStringObject None n)"
      have g: "rdbGenericLoadStringObject sh x enc =
          (if n \<noteq> 0 then case rioBufferRead y n of None \<Rightarrow> Inl LoadNull
                        | Some (b, r) \<Rightarrow> Inr (set_contents o2 b, sh, r)
           else Inr (o2, sh, y))" if "rdbLoadLen x = (i, n, y)" for x y
        using raw n by (simp only: rdbGenericLoadStringObject_def that prod.case if_False Let_def o2_def)
      show ?thesis
        unfolding g [OF 1] g [OF conjunct2 [OF e]]
        using rioBufferRead_ext [of r1 n] conjunct1 [OF e] reads_trans [OF conjunct1 [OF e]]
        by (cases "rioBufferRead r1 n") auto
    qed
    then show ?thesis .
  qed auto
  then show "?A \<Longrightarrow> ?B" "?C \<Longrightarrow> ?D \<Longrightarrow> ?E" by blast+
qed

text \<open>The same of the other objects.\<close>

definition loader_ok :: "(int \<Rightarrow> rio \<Rightarrow> load_error + 'o \<times> rio) \<Rightarrow> bool" where
  "loader_ok load_o \<longleftrightarrow>
     (\<forall>t r q. (\<forall>x r'. load_o t r = Inr (x, r') \<longrightarrow> reads r r' \<and> load_o t (ext q r) = Inr (x, ext q r')) \<and>
        (\<forall>e. load_o t r = Inl e \<and> e \<noteq> LoadNull \<longrightarrow> load_o t (ext q r) = Inl e))"

lemma rdbLoadObject_ext:
  assumes "loader_ok load_o"
  shows "rdbLoadObject load_o s t r = Inr (v, s', r') \<Longrightarrow>
      reads r r' \<and> rdbLoadObject load_o s t (ext q r) = Inr (v, s', ext q r')"
    "rdbLoadObject load_o s t r = Inl e \<Longrightarrow> e \<noteq> LoadNull \<Longrightarrow> rdbLoadObject load_o s t (ext q r) = Inl e"
  using assms rdbGenericLoad_ext [of "shared s" r True]
  unfolding rdbLoadObject_def loader_ok_def
  by (auto split: if_splits sum.splits prod.splits)

lemma load_head_ext:
  assumes "load_head r = Some (e, t, r')" "t \<noteq> -1"
  shows "load_head (ext q r) = Some (e, t, ext q r')" "\<exists>k > 0. k \<le> length (avail r) \<and> r' = advance r k"
proof -
  obtain t0 r1 where 1: "rdbLoadType r = (t0, r1)" by (cases "rdbLoadType r") auto
  have t0: "t0 \<noteq> -1" using assms 1 by (auto simp: load_head_def RDB_OPCODE_EXPIRETIME_def RDB_OPCODE_EXPIRETIME_MS_def)
  note x = rdbLoadType_ext [OF 1 t0]
  have step: "\<exists>k > 0. k \<le> length (avail r) \<and> y = advance r k" if "reads r1 y" for y
  proof -
    from that obtain m where "m \<le> length (avail r1)" "y = advance r1 m" by (auto simp: reads_def)
    with x(2,3) show ?thesis by (cases "avail r") (auto intro!: exI [of _ "Suc m"])
  qed
  have type: "rdbLoadType (ext q y) = (t, ext q r') \<and> (\<exists>k > 0. k \<le> length (avail r) \<and> r' = advance r k)"
    if "rdbLoadType y = (t, r')" "reads r1 y" for y
  proof -
    note z = rdbLoadType_ext [OF that(1) assms(2)]
    have "reads y r'" unfolding reads_def using z(2,3) by (intro exI [of _ 1]) (simp add: Suc_le_eq)
    with z(1) step reads_trans [OF that(2)] show ?thesis by blast
  qed
  consider (sec) "t0 = uint RDB_OPCODE_EXPIRETIME" | (ms) "t0 \<noteq> uint RDB_OPCODE_EXPIRETIME" "t0 = uint RDB_OPCODE_EXPIRETIME_MS"
    | (none) "t0 \<noteq> uint RDB_OPCODE_EXPIRETIME" "t0 \<noteq> uint RDB_OPCODE_EXPIRETIME_MS" by blast
  then have "load_head (ext q r) = Some (e, t, ext q r') \<and> (\<exists>k > 0. k \<le> length (avail r) \<and> r' = advance r k)"
  proof cases
    case sec
    obtain e0 r2 where 2: "rdbLoadTime r1 = (e0, r2)" by (cases "rdbLoadTime r1") auto
    have e0: "e0 \<noteq> -1" using assms(1) 1 2 sec by (auto simp: load_head_def)
    obtain t1 r3 where 3: "rdbLoadType r2 = (t1, r3)" by (cases "rdbLoadType r2") auto
    have eq: "e = wrap_s64 (e0 * 1000)" "t1 = t" "r3 = r'" using assms(1) 1 2 3 sec e0 by (auto simp: load_head_def)
    note y = load_times_ext(1) [OF 2 e0, of q]
    from type [of r2] 3 eq y show ?thesis using x(1) sec e0 by (simp add: load_head_def)
  next
    case ms
    obtain e0 r2 where 2: "rdbLoadMillisecondTime r1 = (e0, r2)" by (cases "rdbLoadMillisecondTime r1") auto
    have e0: "e0 \<noteq> -1" using assms(1) 1 2 ms by (auto simp: load_head_def)
    obtain t1 r3 where 3: "rdbLoadType r2 = (t1, r3)" by (cases "rdbLoadType r2") auto
    have eq: "e = e0" "t1 = t" "r3 = r'" using assms(1) 1 2 3 ms e0 by (auto simp: load_head_def)
    note y = load_times_ext(2) [OF 2 e0, of q]
    from type [of r2] 3 eq y show ?thesis using x(1) ms e0 by (simp add: load_head_def)
  next
    case none
    then have "e = -1" "t0 = t" "r1 = r'" using assms(1) 1 by (auto simp: load_head_def)
    with none x(1) step [of r1] show ?thesis by (simp add: load_head_def)
  qed
  then show "load_head (ext q r) = Some (e, t, ext q r')" "\<exists>k > 0. k \<le> length (avail r) \<and> r' = advance r k"
    by blast+
qed

fun ext_round :: "bytes \<Rightarrow> 's round \<Rightarrow> 's round" where
  "ext_round q (Go d s r) = Go d s (ext q r)"
| "ext_round q (Eof r) = Eof (ext q r)"
| "ext_round q (Fail x) = Fail x"

lemma load_pair_ext:
  assumes "loader_ok load_o" "load_pair load_o now d s e t r \<noteq> Fail LoadExit"
  shows "load_pair load_o now d s e t (ext q r) = ext_round q (load_pair load_o now d s e t r) \<and>
    (\<forall>d' s' r'. load_pair load_o now d s e t r = Go d' s' r' \<longrightarrow> reads r r')"
proof (cases "rdbGenericLoadStringObject (shared s) r False")
  case (Inl x)
  with assms(2) have "x \<noteq> LoadNull" by (auto simp: load_pair_def load_failure_def)
  from rdbGenericLoad_ext(2) [OF Inl this] Inl show ?thesis by (simp add: load_pair_def)
next
  case (Inr y)
  obtain key sh r1 where y: "y = (key, sh, r1)" by (cases y) auto
  note k = rdbGenericLoad_ext(1) [OF Inr [unfolded y], of q]
  show ?thesis
  proof (cases "rdbLoadObject load_o (s\<lparr>shared := sh\<rparr>) t r1")
    case o: (Inl x)
    with assms(2) Inr y have "x \<noteq> LoadNull" by (auto simp: load_pair_def load_failure_def)
    from rdbLoadObject_ext(2) [OF assms(1) o this] o Inr y k show ?thesis by (simp add: load_pair_def)
  next
    case o: (Inr z)
    obtain v s' r2 where z: "z = (v, s', r2)" by (cases z) auto
    note v = rdbLoadObject_ext(1) [OF assms(1) o [unfolded z], of q]
    have "reads r r2" using k v reads_trans by blast
    then show ?thesis using Inr y k o z v by (simp add: load_pair_def Let_def)
  qed
qed

lemma load_round_ext:
  assumes "loader_ok load_o" "load_round load_o now d s r \<noteq> Fail LoadExit"
  shows "load_round load_o now d s (ext q r) = ext_round q (load_round load_o now d s r)"
    "load_round load_o now d s r = Go d' s' r' \<Longrightarrow> \<exists>k > 0. k \<le> length (avail r) \<and> r' = advance r k"
    "load_round load_o now d s r = Eof r' \<Longrightarrow> reads r r'"
proof -
  obtain e t r1 where h: "load_head r = Some (e, t, r1)" and t: "t \<noteq> -1"
    using assms(2) by (auto simp: load_round_def split: option.splits if_splits)
  note x = load_head_ext [OF h t]
  obtain k where k: "k > 0" "k \<le> length (avail r)" "r1 = advance r k" using x(2) by blast
  have more: "\<exists>k > 0. k \<le> length (avail r) \<and> r' = advance r k" if "reads r1 r'" for r'
  proof -
    from that obtain m where "m \<le> length (avail r1)" "r' = advance r1 m" by (auto simp: reads_def)
    with k show ?thesis by (intro exI [of _ "k + m"]) simp
  qed
  consider (eof) "t = uint RDB_OPCODE_EOF" | (sel) "t \<noteq> uint RDB_OPCODE_EOF" "t = uint RDB_OPCODE_SELECTDB"
    | (pair) "t \<noteq> uint RDB_OPCODE_EOF" "t \<noteq> uint RDB_OPCODE_SELECTDB" by blast
  then have "load_round load_o now d s (ext q r) = ext_round q (load_round load_o now d s r) \<and>
    (\<forall>d' s' r'. load_round load_o now d s r = Go d' s' r' \<longrightarrow> reads r1 r') \<and>
    (\<forall>r'. load_round load_o now d s r = Eof r' \<longrightarrow> r' = r1)"
  proof cases
    case eof
    then show ?thesis using x(1) h t by (simp add: load_round_def)
  next
    case sel
    obtain i n r2 where l: "rdbLoadLen r1 = (i, n, r2)" by (cases "rdbLoadLen r1") auto
    have n: "n \<noteq> RDB_LENERR" using assms(2) h t sel l by (auto simp: load_round_def)
    from rdbLoadLen_ext [OF l n, of q] show ?thesis
      using x(1) h t sel l n by (simp add: load_round_def)
  next
    case pair
    then have "load_pair load_o now d s e t r1 \<noteq> Fail LoadExit" using assms(2) h t by (simp add: load_round_def)
    moreover have "load_pair load_o now d s e t r1 \<noteq> Eof r'" for r'
      by (simp add: load_pair_def Let_def split: sum.split prod.split)
    ultimately show ?thesis
      using load_pair_ext [OF assms(1), of now d s e t r1 q] pair x(1) h t by (simp add: load_round_def)
  qed
  note all = this
  show "load_round load_o now d s (ext q r) = ext_round q (load_round load_o now d s r)" using all by blast
  show "load_round load_o now d s r = Go d' s' r' \<Longrightarrow> \<exists>k > 0. k \<le> length (avail r) \<and> r' = advance r k"
    using all more by blast
  show "load_round load_o now d s r = Eof r' \<Longrightarrow> reads r r'" using all k by (auto simp: reads_def)
qed

lemma load_loop_ext:
  assumes "loader_ok load_o"
  shows "load_loop load_o now n d s r = LoadDone (s', r') \<Longrightarrow>
      load_loop load_o now n d s (ext q r) = LoadDone (s', ext q r')"
    "load_loop load_o now n d s r = LoadAbort \<Longrightarrow> load_loop load_o now n d s (ext q r) = LoadAbort"
    "load_loop load_o now n d s r = LoadFuel \<Longrightarrow> load_loop load_o now n d s (ext q r) = LoadFuel"
    "load_loop load_o now n d s r \<noteq> LoadErr"
proof (induction n arbitrary: d s r)
  case (Suc n)
  {
    case 1
    then have "load_round load_o now d s r \<noteq> Fail LoadExit" by auto
    from load_round_ext(1) [OF assms this, of q] 1 Suc.IH(1) show ?case
      by (auto split: round.splits load_result.splits)
  next
    case 2
    then have "load_round load_o now d s r \<noteq> Fail LoadExit" by auto
    from load_round_ext(1) [OF assms this, of q] 2 Suc.IH(2) show ?case
      by (auto split: round.splits load_result.splits)
  next
    case 3
    then have "load_round load_o now d s r \<noteq> Fail LoadExit" by auto
    from load_round_ext(1) [OF assms this, of q] 3 Suc.IH(3) show ?case
      by (auto split: round.splits load_result.splits)
  next
    case 4
    show ?case using Suc.IH(4) by (auto split: round.splits load_result.splits)
  }
qed simp_all

lemma load_loop_reads:
  assumes "loader_ok load_o"
  shows "load_loop load_o now n d s r = LoadDone (s', r') \<Longrightarrow> reads r r'"
proof (induction n arbitrary: d s r)
  case (Suc n)
  show ?case
  proof (cases "load_round load_o now d s r")
    case (Go d1 s1 r1)
    from load_round_ext(2) [OF assms _ Go] Go have "reads r r1" by (auto simp: reads_def)
    with Suc Go show ?thesis by (auto intro: reads_trans)
  next
    case (Eof r1)
    with load_round_ext(3) [OF assms _ Eof] Suc.prems show ?thesis by simp
  qed (use Suc.prems in \<open>simp split: load_result.splits\<close>)
qed simp

lemma load_loop_fuel:
  assumes "loader_ok load_o"
  shows "length (avail r) < n \<Longrightarrow> load_loop load_o now n d s r \<noteq> LoadFuel"
proof (induction n arbitrary: d s r)
  case (Suc n)
  show ?case
  proof (cases "load_round load_o now d s r")
    case (Go d' s' r')
    from load_round_ext(2) [OF assms _ Go] Go obtain k where "k > 0" "k \<le> length (avail r)" "r' = advance r k" by auto
    with Suc.prems have "length (avail r') < n" by simp
    from Suc.IH [OF this] Go show ?thesis by simp
  qed (simp_all split: load_result.split)
qed simp

lemma load_loop_more:
  "load_loop load_o now n d s r \<noteq> LoadFuel \<Longrightarrow> load_loop load_o now (n + m) d s r = load_loop load_o now n d s r"
proof (induction n arbitrary: d s r)
  case (Suc n)
  then show ?case by (cases "load_round load_o now d s r") simp_all
qed simp

subsection \<open>Properties\<close>

text \<open>
  C5. What a restart makes of the key space. Saving all data bases, with or without compression and
  checksum, and loading the file into an empty server gives, in every data base, every key with its
  value and its time of expiry, except the keys whose time was over when the file was written
  or, unless the server is a replica, is over when it is loaded; no assertion fails. The file
  does not depend on the encodings of the strings, and the number of rounds that the loop of
  the loader makes is bounded.
\<close>
theorem rdb_file_roundtrip:
  fixes chk :: bool
  assumes "codec_ok sv load_o" "iterates s order" "dump_fits s"
    and "db_inv s0" "dbnum (conf s0) = dbnum (conf s)" "\<forall>x. contents s0 x = None"
  defines "w \<equiv> rdbSaveRio sv chk s order (rioInitWithBuffer [])"
  shows "fst w \<and>
    (\<exists>N s'. (\<forall>n. rdbLoad load_o chk' (N + n) (Some (io_ptr (snd w))) s0 = LoadDone s') \<and>
       (\<forall>d k. contents s' (d, k) =
          (if d < dbnum (conf s) \<and> survives s (mstime s) (masterhost s0) (mstime s0) d k
           then contents s (d, k) else None)) \<and>
       db_inv s' \<and> \<not> loading s' \<and> failed s' = failed s0)"
proof -
  obtain b f where f: "rdbSaveRio sv chk s order (rioInitWithBuffer []) = (True, appended (rioInitWithBuffer []) f)"
    "dump_bytes sv chk s order b f" using rdbSaveRio_ok [OF assms(2,3)] by blast
  then have w: "fst w" "io_ptr (snd w) = f" by (simp_all add: w_def appended_def rioInitWithBuffer_def)
  obtain N s' r where l:
    "\<forall>n. load_loop load_o (mstime s0) (N + n) 0 (s0\<lparr>loading := True\<rparr>) (advance (rioInitWithBuffer f) 9) = LoadDone (s', r)"
    "io_ptr r = f" "io_pos r + 8 = length f" "load_inv s0 s'"
    "\<forall>d k. contents s' (d, k) =
       (if d < dbnum (conf s) \<and> survives s (mstime s) (masterhost s0) (mstime s0) d k then contents s (d, k) else None)"
    using rdb_load_dump [OF assms(1-3) f(2) assms(4-6)] by blast
  obtain body where body: "f = body @ le_bytes 8 (uint (if chk then crc64 0 body else 0))" "\<exists>t. f = magic_bytes @ t"
    using f(2) unfolding dump_bytes_def by (metis append.assoc)
  have "io_pos r = length body" using l(3) body(1) by simp
  then have c: "check_sum chk' 6 r" using check_sum_ok [OF body(1) l(2)] by blast
  obtain t where t: "f = magic_bytes @ t" using body(2) by blast
  have "\<forall>n. rdbLoad load_o chk' (N + n) (Some f) s0 = LoadDone (s'\<lparr>loading := False\<rparr>)"
    using l(1) c by (simp add: rdbLoad_magic [OF t])
  moreover have "failed (s'\<lparr>loading := False\<rparr>) = failed s0" using l(4) by (simp add: load_inv_def)
  ultimately show ?thesis
    using w l(5) loaded_state [OF l(4)] by (intro conjI exI [of _ N] exI [of _ "s'\<lparr>loading := False\<rparr>"]) auto
qed

text \<open>A server with one key that has a time of expiry, an empty one, and a type of one byte that stands for
  the other objects.\<close>

definition ex_srv :: "(unit, byte) server" where
  "ex_srv =
     \<lparr>dbs = (\<lambda>d. \<lparr>kdict = fmempty, kexpires = fmempty, watchers = fmempty\<rparr>), clients = (\<lambda>i. None),
      shared = (\<lambda>v. \<lparr>encoding = ENC_INT, ptr = Num v, refcount = 1\<rparr>), mstime = 1000, clock = [], lua_time = None,
      loading = False, masterhost = False,
      conf = \<lparr>dbnum = 1, maxmemory = 0, maxmemory_policy = 0, cluster_enabled = False\<rparr>,
      dirty = 0, keyspace_hits = 0, keyspace_misses = 0, stat_expired = 0, events = [], prop_log = [],
      rewritten = None, failed = False\<rparr>"

definition ex_full :: "(unit, byte) server" where
  "ex_full = ex_srv\<lparr>dbs := (dbs ex_srv)(0 := \<lparr>kdict = fmupd [107] (SVal (initStaticStringObject [118])) fmempty,
     kexpires = fmupd [107] 5000 fmempty, watchers = fmempty\<rparr>)\<rparr>"

definition ex_order :: "nat \<Rightarrow> (bytes \<times> byte val) list" where
  "ex_order j = (if j = 0 then [([107], SVal (initStaticStringObject [118]))] else [])"

definition ex_saver :: "byte saver" where
  "ex_saver = \<lparr>compression = True, stack = (\<lambda>p i. 0), save_o = (\<lambda>x. (11, [x]))\<rparr>"

definition ex_loader :: "int \<Rightarrow> rio \<Rightarrow> load_error + byte \<times> rio" where
  "ex_loader t r =
     (if t = 11 then (case rioBufferRead r 1 of None \<Rightarrow> Inl LoadNull | Some (b, r) \<Rightarrow> Inr (hd b, r))
      else Inl LoadPanic)"

lemma ex_codec: "codec_ok ex_saver ex_loader"
  by (auto simp: codec_ok_def ex_saver_def ex_loader_def rioBufferRead_avail)

lemma ex_loader_ok: "loader_ok ex_loader"
  by (auto simp: loader_ok_def ex_loader_def rioBufferRead_ext split: option.splits if_splits dest: rioBufferRead_ext)

lemma ex_ok:
  "iterates ex_full ex_order" "dump_fits ex_full" "db_inv ex_srv" "dbnum (conf ex_srv) = dbnum (conf ex_full)"
  "\<forall>x. contents ex_srv x = None"
proof -
  note s = static_ok [of "[118]"]
  have sh: "shared_ok (shared ex_srv)" by (simp add: ex_srv_def shared_ok_def)
  show "iterates ex_full ex_order" by (auto simp: iterates_def ex_order_def ex_full_def ex_srv_def fun_eq_iff)
  show "db_inv ex_srv" using sh by (simp add: db_inv_def exp_of_def ex_srv_def)
  have "db_inv ex_full"
    using sh s by (auto simp: db_inv_def exp_of_def ex_full_def val_ok_def) (auto simp: ex_srv_def)
  then show "dump_fits ex_full"
    using s by (auto simp: dump_fits_def times_ok_def exp_of_def ex_full_def val_fits_def val_ok_def
        RDB_LENERR_def in_srange_def split: if_splits) (auto simp: ex_srv_def split: if_splits)
  show "dbnum (conf ex_srv) = dbnum (conf ex_full)" by (simp add: ex_full_def)
  show "\<forall>x. contents ex_srv x = None" by (simp add: contents_def stored_def ex_srv_def)
qed

lemma ex_contents: "contents ex_full (0, [107]) = Some (Inl [118], Some 5000)"
  using static_ok(2) [of "[118]"] by (simp add: contents_def stored_def exp_of_def ex_full_def val_of_def)

theorem rdb_file_roundtrip_witness:
  "\<exists>N s'. rdbLoad ex_loader True N (Some (io_ptr (snd (rdbSaveRio ex_saver True ex_full ex_order (rioInitWithBuffer [])))))
      ex_srv = LoadDone s' \<and> contents s' (0, [107]) = Some (Inl [118], Some 5000)"
proof -
  have "survives ex_full (mstime ex_full) (masterhost ex_srv) (mstime ex_srv) 0 [107]" "0 < dbnum (conf ex_full)"
    by (simp_all add: survives_def exp_of_def ex_full_def ex_srv_def)
  with rdb_file_roundtrip [OF ex_codec ex_ok, of True True] ex_contents show ?thesis
    by (metis (no_types, lifting) add_0_right)
qed

text \<open>
  C16. A dump that is cut short is never taken for a complete one: if the last bytes of the file are
  missing, wherever it was cut, the loader ends the process, and there is no fuel with which it returns.
  (Without the check of the checksum the last eight bytes are not read.)
\<close>
theorem rdb_cut_refused:
  fixes chk :: bool
  assumes "codec_ok sv load_o" "loader_ok load_o" "iterates s order" "dump_fits s"
    and "db_inv s0" "dbnum (conf s0) = dbnum (conf s)" "\<forall>x. contents s0 x = None"
  defines "f \<equiv> io_ptr (snd (rdbSaveRio sv chk s order (rioInitWithBuffer [])))"
  assumes "k < (if chk' then length f else length f - 8)" "length f < n"
  shows "rdbLoad load_o chk' n (Some (take k f)) s0 = LoadExit"
proof (cases "k < 9")
  case True
  then have "rioBufferRead (rioInitWithBuffer (take k f)) 9 = None"
    by (simp add: rioBufferRead_avail avail_def rioInitWithBuffer_def)
  then show ?thesis by (simp add: rdbLoad_def)
next
  case False
  obtain b f1 where f1: "rdbSaveRio sv chk s order (rioInitWithBuffer []) = (True, appended (rioInitWithBuffer []) f1)"
    "dump_bytes sv chk s order b f1" using rdbSaveRio_ok [OF assms(3,4)] by blast
  then have f: "f1 = f" by (simp add: f_def appended_def rioInitWithBuffer_def)
  let ?r = "advance (rioInitWithBuffer f) 9" and ?s = "s0\<lparr>loading := True\<rparr>"
  let ?p = "advance (rioInitWithBuffer (take k f)) 9"
  obtain N s' r where l: "\<forall>n. load_loop load_o (mstime s0) (N + n) 0 ?s ?r = LoadDone (s', r)"
    "io_pos r + 8 = length f"
    using rdb_load_dump [OF assms(1,3,4) f1(2) assms(5-7)] f by blast
  have fin: "load_loop load_o (mstime s0) n 0 ?s ?r = LoadDone (s', r)"
  proof -
    have "load_loop load_o (mstime s0) n 0 ?s ?r \<noteq> LoadFuel"
      using assms(10) by (intro load_loop_fuel [OF assms(2)]) (simp add: avail_def advance_def rioInitWithBuffer_def)
    from load_loop_more [OF this, of N] l(1) show ?thesis by (metis add.commute)
  qed
  obtain t where "f = magic_bytes @ t" using f1(2) f by (auto simp: dump_bytes_def)
  then have m: "take k f = magic_bytes @ take (k - 9) t" 
    using False length_magic by simp
  have e: "?r = ext (drop k f) ?p" by (simp add: ext_def advance_def rioInitWithBuffer_def)
  note x = load_loop_ext(1-3) [OF assms(2), where now = "mstime s0" and n = n and d = 0 and s = ?s and r = ?p
      and q = "drop k f"]
    load_loop_ext(4) [OF assms(2), where now = "mstime s0" and n = n and d = 0 and s = ?s and r = ?p]
  show ?thesis
  proof (cases "load_loop load_o (mstime s0) n 0 ?s ?p")
    case (LoadDone y)
    obtain s1 r1 where y: "y = (s1, r1)" by fastforce
    from x(1) [OF LoadDone [unfolded y]] fin e have r: "r = ext (drop k f) r1" by simp
    from load_loop_reads [OF assms(2) LoadDone [unfolded y]]
    have p: "io_ptr r1 = take k f" "io_pos r1 \<le> k" using False assms(9)
      by (auto simp: reads_def advance_def rioInitWithBuffer_def avail_def split: if_splits)
    have q: "io_pos r1 + 8 = length f" using l(2) r by (simp add: ext_def)
    have "\<not> check_sum chk' 6 r1"
      using p q assms(9) by (auto simp: check_sum_def rioBufferRead_avail avail_def Let_def split: if_splits)
    with LoadDone y show ?thesis by (simp add: rdbLoad_magic [OF m])
  qed (use x e fin in \<open>simp_all add: rdbLoad_magic [OF m]\<close>)
qed

theorem rdb_cut_refused_witness:
  "\<exists>n f. f = io_ptr (snd (rdbSaveRio ex_saver True ex_full ex_order (rioInitWithBuffer []))) \<and> length f < n \<and>
     rdbLoad ex_loader True n (Some (take 12 f)) ex_srv = LoadExit"
proof -
  define f where "f = io_ptr (snd (rdbSaveRio ex_saver True ex_full ex_order (rioInitWithBuffer [])))"
  obtain b g where "rdbSaveRio ex_saver True ex_full ex_order (rioInitWithBuffer []) = (True, appended (rioInitWithBuffer []) g)"
    "dump_bytes ex_saver True ex_full ex_order b g"
    using rdbSaveRio_ok [OF ex_ok(1,2)] by blast
  then have "12 < length f" by (simp add: f_def appended_def rioInitWithBuffer_def dump_bytes_def length_magic)
  then have "rdbLoad ex_loader True (Suc (length f)) (Some (take 12 f)) ex_srv = LoadExit"
    using rdb_cut_refused [OF ex_codec ex_loader_ok ex_ok, of 12 True True "Suc (length f)"] by (simp add: f_def)
  then show ?thesis unfolding f_def by blast
qed

text \<open>
  C25. The loader always returns, whatever is in the file: as many rounds as the file has bytes are
  enough for its loop.
\<close>
theorem rdbLoad_terminates:
  assumes "loader_ok load_o" "length f < n"
  shows "rdbLoad load_o chk n (Some f) s \<noteq> LoadFuel"
proof -
  have "length (avail (advance (rioInitWithBuffer f) 9)) < n" using assms(2)
    by (simp add: avail_def advance_def rioInitWithBuffer_def)
  note l = load_loop_fuel [OF assms(1) this, of "mstime s" 0 "s\<lparr>loading := True\<rparr>"]
  show ?thesis
    using l by (auto simp: rdbLoad_def rioBufferRead_avail Let_def split: load_result.split)
qed

theorem rdbLoad_terminates_witness: "rdbLoad ex_loader True 4 (Some [1, 2, 3]) ex_srv \<noteq> LoadFuel"
  by (rule rdbLoad_terminates [OF ex_loader_ok]) simp



end
