(* ===== verification/Replication.thy ===== *)
theory Replication
  imports CommandSpec Aof Output
begin

text \<open>
  Replication (\<open>src/src/src/replication.c\<close>): the backlog of the replication stream, a ring buffer;
  the feeding of the replicas; the synchronisation of a replica, partial (\<open>PSYNC\<close> with an offset
  that the backlog still has) or full (a dump and the stream that follows it); and the side of the
  replica. The data set is the history of what built it: the bytes of the stream, and the commands
  that were executed while nobody listened. A dump is a copy of it. The theory Output shows that the reply
  buffers of a client deliver what was added to them, so the output of a replica is a list of
  bytes here. Offsets are integers; the streams are assumed to be shorter than \<open>2 ^ 62\<close> bytes.
\<close>

subsection \<open>State\<close>

datatype replstate = WAIT_BGSAVE_START | WAIT_BGSAVE_END | SEND_BULK | REPL_ONLINE

text \<open>A piece of the history of a data set.\<close>

datatype item = Sent byte | Unsent int "bytes list"

text \<open>What the master writes to the socket of a replica: a line, a dump, or bytes of the stream.\<close>

datatype msg = MLine bytes | MDump "item list" | MByte byte

text \<open>The part of a \<open>redisClient\<close> that replication uses in a master. \<open>out\<close> is the pending output, and
  \<open>rdbfile\<close> what \<open>repldbfd\<close> reads.\<close>

record slave =
  cid :: nat
  replstate :: replstate
  psync_initial_offset :: int
  put_online_on_ack :: bool
  ack_off :: int
  capa_eof :: bool
  pre_psync :: bool
  out :: bytes
  rdbfile :: "item list"

text \<open>The child that saves, with the data set it was forked with.\<close>

datatype rdb_child = NoChild | DiskChild "item list" | SocketChild "item list"

text \<open>\<open>link_down\<close>: the server is itself a replica and not connected. \<open>sock\<close> is what was written to the
  socket of each client and not yet read. \<open>broken\<close> records a failed assertion or a loop that does
  not end.\<close>

record repl =
  runid :: bytes
  master_repl_offset :: int
  slaveseldb :: int
  repl_backlog :: "bytes option"
  repl_backlog_size :: int
  repl_backlog_histlen :: int
  repl_backlog_idx :: int
  repl_backlog_off :: int
  slaves :: "slave list"
  rdb_child :: rdb_child
  repl_diskless_sync :: bool
  link_down :: bool
  dataset :: "item list"
  sock :: "nat \<Rightarrow> msg list"
  broken :: bool

definition replAssert :: "bool \<Rightarrow> repl \<Rightarrow> repl" where
  "replAssert b m = (if b then m else m\<lparr>broken := True\<rparr>)"

definition write_sock :: "nat \<Rightarrow> msg list \<Rightarrow> repl \<Rightarrow> repl" where
  "write_sock c ms m = m\<lparr>sock := (sock m)(c := sock m c @ ms)\<rparr>"

subsection \<open>Backlog\<close>

definition REPL_BACKLOG_MIN_SIZE :: int where "REPL_BACKLOG_MIN_SIZE = 1024 * 16"

text \<open>The contents of fresh memory are arbitrary; zeros stand for them.\<close>

definition createReplicationBacklog :: "repl \<Rightarrow> repl" where
  "createReplicationBacklog m =
     (let m = replAssert (repl_backlog m = None) m;
          m = m\<lparr>repl_backlog := Some (replicate (nat (repl_backlog_size m)) 0),
                repl_backlog_histlen := 0, repl_backlog_idx := 0,
                master_repl_offset := master_repl_offset m + 1\<rparr>
      in m\<lparr>repl_backlog_off := master_repl_offset m + 1\<rparr>)"

definition resizeReplicationBacklog :: "int \<Rightarrow> repl \<Rightarrow> repl" where
  "resizeReplicationBacklog newsize m =
     (let newsize = (if newsize < REPL_BACKLOG_MIN_SIZE then REPL_BACKLOG_MIN_SIZE else newsize) in
      if repl_backlog_size m = newsize then m
      else
        let m = m\<lparr>repl_backlog_size := newsize\<rparr>
        in if repl_backlog m = None then m
           else m\<lparr>repl_backlog := Some (replicate (nat newsize) 0),
                  repl_backlog_histlen := 0, repl_backlog_idx := 0,
                  repl_backlog_off := master_repl_offset m + 1\<rparr>)"

definition freeReplicationBacklog :: "repl \<Rightarrow> repl" where
  "freeReplicationBacklog m = (replAssert (slaves m = []) m)\<lparr>repl_backlog := None\<rparr>"

text \<open>The loop of \<open>feedReplicationBacklog\<close>: buffer, index and length of the history. \<open>None\<close>: it does
  not end, because no byte fits.\<close>

function backlog_loop :: "int \<Rightarrow> bytes \<Rightarrow> bytes \<Rightarrow> int \<Rightarrow> int \<Rightarrow> (bytes \<times> int \<times> int) option" where
  "backlog_loop bsize p buf idx histlen =
     (if p = [] then Some (buf, idx, histlen)
      else
        let thislen = nat (bsize - idx);
            thislen = (if thislen > length p then length p else thislen)
        in if thislen = 0 then None
           else
             let buf = splice (nat idx) (take thislen p) buf;
                 idx = idx + int thislen;
                 idx = (if idx = bsize then 0 else idx)
             in backlog_loop bsize (drop thislen p) buf idx (histlen + int thislen))"
  by pat_completeness auto
termination
  by (relation "measure (\<lambda>(bsize, p, buf, idx, histlen). length p)") auto

declare backlog_loop.simps [simp del]

definition feedReplicationBacklog :: "bytes \<Rightarrow> repl \<Rightarrow> repl" where
  "feedReplicationBacklog p m =
     (let m = m\<lparr>master_repl_offset := master_repl_offset m + int (length p)\<rparr> in
      case repl_backlog m of
        None \<Rightarrow> m\<lparr>broken := True\<rparr>
      | Some buf \<Rightarrow>
          case backlog_loop (repl_backlog_size m) p buf (repl_backlog_idx m) (repl_backlog_histlen m) of
            None \<Rightarrow> m\<lparr>broken := True\<rparr>
          | Some (buf, idx, histlen) \<Rightarrow>
              let histlen = (if histlen > repl_backlog_size m then repl_backlog_size m else histlen)
              in m\<lparr>repl_backlog := Some buf, repl_backlog_idx := idx, repl_backlog_histlen := histlen,
                   repl_backlog_off := master_repl_offset m - histlen + 1\<rparr>)"

definition feedReplicationBacklogWithObject :: "robj \<Rightarrow> repl \<Rightarrow> repl" where
  "feedReplicationBacklogWithObject ob m =
     (if encoding ob = ENC_INT then
        case ll2string (replicate 21 0) 21 (ptr_num (ptr ob)) of
          (len, llstr) \<Rightarrow> feedReplicationBacklog (take len llstr) m
      else feedReplicationBacklog (sds_val (ptr_sds (ptr ob))) m)"

text \<open>The ring read from index \<open>j\<close> on.\<close>

function ring_read :: "bytes \<Rightarrow> int \<Rightarrow> int \<Rightarrow> int \<Rightarrow> bytes option" where
  "ring_read buf bsize j len =
     (if len = 0 then Some []
      else
        let thislen = (if bsize - j < len then bsize - j else len)
        in if thislen \<le> 0 then None
           else map_option (\<lambda>r. slice (nat j) (nat thislen) buf @ r) (ring_read buf bsize 0 (len - thislen)))"
  by pat_completeness auto
termination
  by (relation "measure (\<lambda>(buf, bsize, j, len). nat len)") (auto split: if_splits)

declare ring_read.simps [simp del]

text \<open>The bytes \<open>addReplyReplicationBacklog\<close> adds to the output of a replica.\<close>

definition addReplyReplicationBacklog :: "int \<Rightarrow> repl \<Rightarrow> bytes option" where
  "addReplyReplicationBacklog offset m =
     (if repl_backlog_histlen m = 0 then Some []
      else
        let skip = offset - repl_backlog_off m;
            j = (repl_backlog_idx m + (repl_backlog_size m - repl_backlog_histlen m)) smod repl_backlog_size m;
            j = (j + skip) smod repl_backlog_size m;
            len = repl_backlog_histlen m - skip
        in case repl_backlog m of
             None \<Rightarrow> None
           | Some buf \<Rightarrow> ring_read buf (repl_backlog_size m) j len)"

subsection \<open>Feeding the replicas\<close>

definition select_cmd :: "int \<Rightarrow> bytes" where
  "select_cmd dictid =
     (case ll2string (replicate 21 0) 21 dictid of
        (len, llstr) \<Rightarrow>
          [42, 50, 13, 10, 36, 54, 13, 10, 83, 69, 76, 69, 67, 84, 13, 10, 36] @ dec_nat len @ [13, 10] @
          take len llstr @ [13, 10])"

definition aux_line :: "byte \<Rightarrow> int \<Rightarrow> bytes" where
  "aux_line c n =
     (case ll2string (replicate 23 0) 23 n of
        (len, digits) \<Rightarrow> take (len + 3) (((c # digits)[len + 1 := 13])[len + 2 := 10]))"

definition feed_slave :: "bytes \<Rightarrow> slave \<Rightarrow> slave" where
  "feed_slave bs c = (if replstate c = WAIT_BGSAVE_START then c else c\<lparr>out := out c @ bs\<rparr>)"

definition feed_slaves :: "bytes \<Rightarrow> repl \<Rightarrow> repl" where
  "feed_slaves bs m = m\<lparr>slaves := map (feed_slave bs) (slaves m)\<rparr>"

definition backlog_arg :: "robj \<Rightarrow> repl \<Rightarrow> repl" where
  "backlog_arg a m =
     feedReplicationBacklog [13, 10]
       (feedReplicationBacklogWithObject a (feedReplicationBacklog (aux_line 36 (int (stringObjectLen a))) m))"

definition replicationFeedSlaves :: "int \<Rightarrow> robj list \<Rightarrow> repl \<Rightarrow> repl" where
  "replicationFeedSlaves dictid args m =
     (if repl_backlog m = None \<and> slaves m = [] then m
      else
        let m = replAssert (\<not> (slaves m \<noteq> [] \<and> repl_backlog m = None)) m;
            m = (if slaveseldb m \<noteq> dictid then
                   let m = (if repl_backlog m \<noteq> None then feedReplicationBacklog (select_cmd dictid) m else m)
                   in feed_slaves (select_cmd dictid) m
                 else m);
            m = m\<lparr>slaveseldb := dictid\<rparr>;
            m = (if repl_backlog m \<noteq> None
                 then fold backlog_arg args (feedReplicationBacklog (aux_line 42 (int (length args))) m)
                 else m)
        in feed_slaves (reply_bytes (OMulti (int (length args))) @ concat (map (\<lambda>a. reply_bytes (OBulk a)) args)) m)"

subsection \<open>Synchronisation\<close>

definition getPsyncInitialOffset :: "repl \<Rightarrow> int" where
  "getPsyncInitialOffset m =
     (if repl_backlog m = None then master_repl_offset m + 1 else master_repl_offset m)"

definition update_slave :: "nat \<Rightarrow> (slave \<Rightarrow> slave) \<Rightarrow> repl \<Rightarrow> repl" where
  "update_slave c f m = m\<lparr>slaves := map (\<lambda>x. if cid x = c then f x else x) (slaves m)\<rparr>"

definition fullresync_line :: "bytes \<Rightarrow> int \<Rightarrow> bytes" where
  "fullresync_line r offset = map of_char ''+FULLRESYNC '' @ r @ [32] @ dec_int offset"

text \<open>A replica that came with \<open>SYNC\<close> is not told.\<close>

definition replicationSetupSlaveForFullResync :: "slave \<Rightarrow> int \<Rightarrow> repl \<Rightarrow> repl" where
  "replicationSetupSlaveForFullResync c offset m =
     (let m = update_slave (cid c) (\<lambda>x. x\<lparr>psync_initial_offset := offset, replstate := WAIT_BGSAVE_END\<rparr>) m;
          m = m\<lparr>slaveseldb := -1\<rparr>
      in if pre_psync c then m else write_sock (cid c) [MLine (fullresync_line (runid m) offset)] m)"

text \<open>All replicas that wait for a save are set up, in the order of the list.\<close>

definition setup_waiting :: "repl \<Rightarrow> repl" where
  "setup_waiting m =
     fold (\<lambda>x m. if replstate x = WAIT_BGSAVE_START
                 then replicationSetupSlaveForFullResync x (getPsyncInitialOffset m) m else m)
       (slaves m) m"

text \<open>\<open>fork_ok\<close>: the child could be created.\<close>

definition rdbSaveBackground :: "bool \<Rightarrow> repl \<Rightarrow> bool \<times> repl" where
  "rdbSaveBackground fork_ok m =
     (if rdb_child m \<noteq> NoChild \<or> \<not> fork_ok then (False, m)
      else (True, m\<lparr>rdb_child := DiskChild (dataset m)\<rparr>))"

definition rdbSaveToSlavesSockets :: "bool \<Rightarrow> repl \<Rightarrow> bool \<times> repl" where
  "rdbSaveToSlavesSockets fork_ok m =
     (if rdb_child m \<noteq> NoChild then (False, m)
      else
        let ids = map cid (filter (\<lambda>x. replstate x = WAIT_BGSAVE_START) (slaves m));
            m = setup_waiting m
        in if fork_ok then (True, m\<lparr>rdb_child := SocketChild (dataset m)\<rparr>)
           else (False, m\<lparr>slaves := map (\<lambda>x. if cid x \<in> set ids then x\<lparr>replstate := WAIT_BGSAVE_START\<rparr> else x)
                                      (slaves m)\<rparr>))"

definition bgsave_failed_line :: bytes where
  "bgsave_failed_line = map of_char ''-ERR BGSAVE failed, replication can't continue''"

text \<open>When the save cannot start, the waiting replicas leave the list and an error is added to their
  output. Their state is still \<open>WAIT_BGSAVE_START\<close>, so \<open>prepareClientToWrite\<close> installs no write handler:
  the line is only sent if there was output before, whose handler is still installed. The others are
  told nothing and stay connected.\<close>

definition startBgsaveForReplication :: "bool \<Rightarrow> bool \<Rightarrow> repl \<Rightarrow> bool \<times> repl" where
  "startBgsaveForReplication fork_ok mincapa_eof m =
     (let socket_target = (repl_diskless_sync m \<and> mincapa_eof) in
      case (if socket_target then rdbSaveToSlavesSockets fork_ok m else rdbSaveBackground fork_ok m) of
        (False, m) \<Rightarrow>
          (False,
           fold (\<lambda>x. write_sock (cid x) (map MByte (out x) @ [MLine bgsave_failed_line]))
             (filter (\<lambda>x. replstate x = WAIT_BGSAVE_START \<and> out x \<noteq> []) (slaves m))
             (m\<lparr>slaves := filter (\<lambda>x. replstate x \<noteq> WAIT_BGSAVE_START) (slaves m)\<rparr>))
      | (True, m) \<Rightarrow> (True, if socket_target then m else setup_waiting m))"

definition add_error :: "string \<Rightarrow> slave \<Rightarrow> slave" where
  "add_error e c = c\<lparr>out := out c @ map of_char ''-ERR '' @ map of_char e @ [13, 10]\<rparr>"

text \<open>\<open>args\<close> has the run id and the offset of the request. The replica is added at the end of the list,
  and the answer is written to the socket.\<close>

definition masterTryPartialResynchronization :: "slave \<Rightarrow> robj list \<Rightarrow> repl \<Rightarrow> bool \<times> slave \<times> repl" where
  "masterTryPartialResynchronization c args m =
     (if \<not> strcaseeq (cstr (key_of (args ! 1))) (cstr (runid m)) then (False, c, m)
      else
        case getLongLongFromObject (Some (args ! 2)) of
          None \<Rightarrow> (False, add_error ''value is not an integer or out of range'' c, m)
        | Some psync_offset \<Rightarrow>
            if repl_backlog m = None \<or> psync_offset < repl_backlog_off m \<or>
               psync_offset > repl_backlog_off m + repl_backlog_histlen m
            then (False, c, m)
            else
              let c = c\<lparr>replstate := REPL_ONLINE, put_online_on_ack := False\<rparr>;
                  m = write_sock (cid c) [MLine (map of_char ''+CONTINUE'')] m
              in case addReplyReplicationBacklog psync_offset m of
                   None \<Rightarrow> (True, c, m\<lparr>slaves := slaves m @ [c], broken := True\<rparr>)
                 | Some bs \<Rightarrow>
                     let c = c\<lparr>out := out c @ bs\<rparr>
                     in (True, c, m\<lparr>slaves := slaves m @ [c]\<rparr>))"

text \<open>The end of \<open>syncCommand\<close>.\<close>

definition sync_backlog :: "repl \<Rightarrow> repl" where
  "sync_backlog m =
     (if length (slaves m) = 1 \<and> repl_backlog m = None then createReplicationBacklog m else m)"

definition full_resync :: "bool \<Rightarrow> slave \<Rightarrow> repl \<Rightarrow> repl" where
  "full_resync fork_ok c m =
     (let c = c\<lparr>replstate := WAIT_BGSAVE_START\<rparr>;
          m = m\<lparr>slaves := slaves m @ [c]\<rparr>
      in case rdb_child m of
           DiskChild snap \<Rightarrow>
             (case find (\<lambda>x. replstate x = WAIT_BGSAVE_END) (slaves m) of
                Some x \<Rightarrow>
                  if capa_eof x \<longrightarrow> capa_eof c then
                    let m = update_slave (cid c) (\<lambda>y. y\<lparr>out := out x\<rparr>) m
                    in sync_backlog (replicationSetupSlaveForFullResync c (psync_initial_offset x) m)
                  else sync_backlog m
              | None \<Rightarrow> sync_backlog m)
         | SocketChild snap \<Rightarrow> sync_backlog m
         | NoChild \<Rightarrow>
             if repl_diskless_sync m \<and> capa_eof c then sync_backlog m
             else case startBgsaveForReplication fork_ok (capa_eof c) m of
                    (False, m) \<Rightarrow> m
                  | (True, m) \<Rightarrow> sync_backlog m)"

text \<open>The client is returned as well: if it was not put in the list of replicas, it has the error to be
  sent.\<close>

definition syncCommand :: "bool \<Rightarrow> slave \<Rightarrow> robj list \<Rightarrow> repl \<Rightarrow> slave \<times> repl" where
  "syncCommand fork_ok c args m =
     (if cid c \<in> cid ` set (slaves m) then (c, m)
      else if link_down m then (add_error ''Can't SYNC while not connected with my master'' c, m)
      else if out c \<noteq> [] then (add_error ''SYNC and PSYNC are invalid with pending output'' c, m)
      else if strcaseeq (cstr (key_of (args ! 0))) (map of_char ''psync'') then
        case masterTryPartialResynchronization c args m of
          (True, c, m) \<Rightarrow> (c, m)
        | (False, c, m) \<Rightarrow> (c\<lparr>out := []\<rparr>, full_resync fork_ok c m)
      else let c = c\<lparr>pre_psync := True\<rparr> in (c\<lparr>out := []\<rparr>, full_resync fork_ok c m))"

subsection \<open>The end of a save, and the transfer\<close>

definition repl_free_client :: "nat \<Rightarrow> repl \<Rightarrow> repl" where
  "repl_free_client c m = m\<lparr>slaves := filter (\<lambda>x. cid x \<noteq> c) (slaves m)\<rparr>"

text \<open>\<open>file\<close> is the dump file that was saved, and \<open>copied\<close> tells for which clients it could be copied and opened.\<close>

definition bgsave_done_slave :: "bool \<Rightarrow> bool \<Rightarrow> item list \<Rightarrow> (nat \<Rightarrow> bool) \<Rightarrow> slave \<Rightarrow> slave option" where
  "bgsave_done_slave ok to_socket file copied x =
     (if replstate x \<noteq> WAIT_BGSAVE_END then Some x
      else if to_socket then Some (x\<lparr>replstate := REPL_ONLINE, put_online_on_ack := True\<rparr>)
      else if \<not> ok \<or> \<not> copied (cid x) then None
      else Some (x\<lparr>replstate := SEND_BULK, rdbfile := file\<rparr>))"

text \<open>A replica that is freed leaves the list.\<close>

definition updateSlavesWaitingBgsave ::
  "bool \<Rightarrow> bool \<Rightarrow> item list \<Rightarrow> (nat \<Rightarrow> bool) \<Rightarrow> bool \<Rightarrow> repl \<Rightarrow> repl" where
  "updateSlavesWaitingBgsave ok to_socket file copied fork_ok m =
     (let waiting_slaves = filter (\<lambda>x. replstate x = WAIT_BGSAVE_START) (slaves m);
          m = m\<lparr>slaves := List.map_filter (bgsave_done_slave ok to_socket file copied) (slaves m)\<rparr>
      in if waiting_slaves = [] then m
         else snd (startBgsaveForReplication fork_ok (list_all capa_eof waiting_slaves) m))"

text \<open>The child that writes to the sockets has sent the dump to some clients; the others are dropped.\<close>

definition socket_child_sent :: "item list \<Rightarrow> (nat \<Rightarrow> bool) \<Rightarrow> repl \<Rightarrow> repl" where
  "socket_child_sent snap sent_ok m =
     m\<lparr>slaves := filter (\<lambda>x. replstate x = WAIT_BGSAVE_END \<longrightarrow> sent_ok (cid x)) (slaves m),
       sock := (\<lambda>c. sock m c @
         (if \<exists>x \<in> set (slaves m). cid x = c \<and> replstate x = WAIT_BGSAVE_END \<and> sent_ok c then [MDump snap] else []))\<rparr>"

definition backgroundSaveDoneHandler :: "bool \<Rightarrow> (nat \<Rightarrow> bool) \<Rightarrow> bool \<Rightarrow> repl \<Rightarrow> repl" where
  "backgroundSaveDoneHandler ok sent_ok fork_ok m =
     (case rdb_child m of
        NoChild \<Rightarrow> m
      | DiskChild snap \<Rightarrow>
          updateSlavesWaitingBgsave ok False snap sent_ok fork_ok (m\<lparr>rdb_child := NoChild\<rparr>)
      | SocketChild snap \<Rightarrow>
          let m = m\<lparr>rdb_child := NoChild\<rparr>;
              m = socket_child_sent snap (\<lambda>c. ok \<and> sent_ok c) m
          in updateSlavesWaitingBgsave ok True snap sent_ok fork_ok m)"

definition putSlaveOnline :: "nat \<Rightarrow> repl \<Rightarrow> repl" where
  "putSlaveOnline c = update_slave c (\<lambda>x. x\<lparr>replstate := REPL_ONLINE, put_online_on_ack := False\<rparr>)"

text \<open>The whole of the dump has been sent from the file.\<close>

definition sendBulkToSlaveDone :: "slave \<Rightarrow> repl \<Rightarrow> repl" where
  "sendBulkToSlaveDone x m = putSlaveOnline (cid x) (write_sock (cid x) [MDump (rdbfile x)] m)"

definition replconfAck :: "slave \<Rightarrow> int \<Rightarrow> repl \<Rightarrow> repl" where
  "replconfAck x offset m =
     (let m = update_slave (cid x) (\<lambda>y. if offset > ack_off y then y\<lparr>ack_off := offset\<rparr> else y) m
      in if put_online_on_ack x \<and> replstate x = REPL_ONLINE then putSlaveOnline (cid x) m else m)"

text \<open>Some of the output of a replica that is online is written to its socket.\<close>

definition send_output :: "slave \<Rightarrow> nat \<Rightarrow> repl \<Rightarrow> repl" where
  "send_output x n m =
     write_sock (cid x) (map MByte (take n (out x))) (update_slave (cid x) (\<lambda>y. y\<lparr>out := drop n (out y)\<rparr>) m)"

subsection \<open>The replica\<close>

datatype rphase = R_CONNECT | R_RECEIVE_PSYNC | R_TRANSFER | R_CONNECTED

text \<open>A master and a cached master have a run id and an offset.\<close>

record replica =
  rphase :: rphase
  conn :: nat
  cached_master :: "(bytes \<times> int) option"
  rmaster :: "(bytes \<times> int) option"
  repl_master_initial_offset :: int
  repl_master_runid :: bytes
  rdata :: "item list"

text \<open>The writing half of \<open>slaveTryPartialResynchronization\<close>.\<close>

definition psync_request :: "replica \<Rightarrow> bytes list" where
  "psync_request r =
     (case cached_master r of
        Some (rid, off) \<Rightarrow> [map of_char ''PSYNC'', rid, dec_int (off + 1)]
      | None \<Rightarrow> [map of_char ''PSYNC'', map of_char ''?'', map of_char ''-1''])"

datatype psync_result = PSYNC_WAIT_REPLY | PSYNC_CONTINUE | PSYNC_FULLRESYNC | PSYNC_NOT_SUPPORTED

text \<open>\<open>+FULLRESYNC <runid> <offset>\<close>.\<close>

definition fullresync_args :: "bytes \<Rightarrow> (bytes \<times> int) option" where
  "fullresync_args reply =
     (case strchr reply 32 of
        None \<Rightarrow> None
      | Some i \<Rightarrow>
          let rest = drop (i + 1) reply in
          case strchr rest 32 of
            None \<Rightarrow> None
          | Some j \<Rightarrow> if j = 40 then Some (take 40 rest, fst (strtoll_full (cstr (drop (j + 1) rest)))) else None)"

definition slaveTryPartialResynchronization :: "bytes \<Rightarrow> replica \<Rightarrow> psync_result \<times> replica" where
  "slaveTryPartialResynchronization reply r =
     (if reply = [] then (PSYNC_WAIT_REPLY, r)
      else if take 11 reply = map of_char ''+FULLRESYNC'' then
        (PSYNC_FULLRESYNC,
         (case fullresync_args reply of
            None \<Rightarrow> r\<lparr>repl_master_runid := replicate 41 0\<rparr>
          | Some (rid, off) \<Rightarrow> r\<lparr>repl_master_runid := rid, repl_master_initial_offset := off\<rparr>)
         \<lparr>cached_master := None\<rparr>)
      else if take 9 reply = map of_char ''+CONTINUE'' then
        (PSYNC_CONTINUE, r\<lparr>rmaster := cached_master r, cached_master := None, rphase := R_CONNECTED\<rparr>)
      else (PSYNC_NOT_SUPPORTED, r\<lparr>cached_master := None\<rparr>))"

text \<open>What the replica does with a message. After \<open>PSYNC_NOT_SUPPORTED\<close> it sends \<open>SYNC\<close>.\<close>

definition rconnect :: "replica \<Rightarrow> replica" where
  "rconnect r = r\<lparr>rphase := R_CONNECT\<rparr>"

fun receive :: "msg \<Rightarrow> replica \<Rightarrow> replica" where
  "receive (MLine reply) r =
     (case rphase r of
        R_RECEIVE_PSYNC \<Rightarrow>
          (case slaveTryPartialResynchronization reply r of
             (PSYNC_WAIT_REPLY, r) \<Rightarrow> r
           | (PSYNC_CONTINUE, r) \<Rightarrow> r
           | (_, r) \<Rightarrow> r\<lparr>rphase := R_TRANSFER\<rparr>)
      | R_TRANSFER \<Rightarrow> if reply = [] then r else rconnect r
      | _ \<Rightarrow> r)"
| "receive (MDump snap) r =
     (if rphase r = R_TRANSFER then
        r\<lparr>rdata := snap, rmaster := Some (repl_master_runid r, repl_master_initial_offset r), rphase := R_CONNECTED\<rparr>
      else r)"
| "receive (MByte b) r =
     (case rphase r of
        R_CONNECTED \<Rightarrow>
          r\<lparr>rmaster := map_option (\<lambda>(rid, off). (rid, off + 1)) (rmaster r), rdata := rdata r @ [Sent b]\<rparr>
      | R_TRANSFER \<Rightarrow> rconnect r
      | _ \<Rightarrow> r)"

text \<open>The connection is lost: \<open>replicationCacheMaster\<close>, \<open>replicationAbortSyncTransfer\<close>.\<close>

definition lose_master :: "replica \<Rightarrow> replica" where
  "lose_master r =
     (if rphase r = R_CONNECTED then rconnect (r\<lparr>cached_master := rmaster r, rmaster := None\<rparr>) else rconnect r)"

subsection \<open>The server around it\<close>

text \<open>The bytes a write adds to the stream.\<close>

definition stream_of :: "int \<Rightarrow> robj list \<Rightarrow> repl \<Rightarrow> bytes" where
  "stream_of d args m = (if slaveseldb m \<noteq> d then select_cmd d else []) @ enc_cmd (map obj_val args)"

text \<open>The execution of a write command: the data set changes, and the replicas are fed.\<close>

definition write_command :: "int \<Rightarrow> robj list \<Rightarrow> repl \<Rightarrow> repl" where
  "write_command d args m =
     (replicationFeedSlaves d args m)\<lparr>dataset := dataset m @
        (if repl_backlog m = None \<and> slaves m = [] then [Unsent d (map obj_val args)]
         else map Sent (stream_of d args m))\<rparr>"

text \<open>What was added for a client that is no replica is sent to it.\<close>

definition answer :: "slave \<times> repl \<Rightarrow> repl" where
  "answer cm = (case cm of (c, m) \<Rightarrow>
     if cid c \<in> cid ` set (slaves m) \<or> out c = [] then m else write_sock (cid c) [MLine (out c)] m)"

text \<open>The request as it arrives.\<close>

definition str_arg :: "bytes \<Rightarrow> robj" where
  "str_arg b = createStringObject (Some b) (length b)"

end
