(* ===== verification/ReplicationProofs.thy ===== *)
theory ReplicationProofs
  imports Replication
begin

text \<open>
  What the operations of replication do: the ring buffer holds the end of the stream (\<open>holds\<close>); a
  replica is at a position of the history of the master (\<open>exact\<close>, \<open>good\<close>); the invariant of the
  master (\<open>master_inv\<close>) and how a step of it looks to the replicas (\<open>evolves\<close>, \<open>joins\<close>).
\<close>

subsection \<open>The ring\<close>

text \<open>A ring of \<open>N\<close> bytes into which the bytes \<open>s\<close> were written.\<close>

definition ring :: "nat \<Rightarrow> bytes \<Rightarrow> bytes \<Rightarrow> bool" where
  "ring N buf s \<longleftrightarrow> 0 < N \<and> length buf = N \<and>
     (\<forall>j < length s. length s \<le> j + N \<longrightarrow> buf ! (j mod N) = s ! j)"

lemma mod_near:
  fixes a b N :: nat
  assumes "a mod N = b mod N" "a < b" shows "N \<le> b - a"
proof -
  have "N dvd b - a" using assms mod_eq_dvd_iff_nat [of a b N] by simp
  with assms(2) show ?thesis by (intro dvd_imp_le) simp_all
qed

lemma ring_put:
  assumes "ring N buf s" "length p \<le> N - length s mod N"
  shows "ring N (splice (length s mod N) p buf) (s @ p)"
proof -
  let ?i = "length s mod N"
  have N: "0 < N" "length buf = N" and i: "?i < N" using assms(1) by (simp_all add: ring_def)
  have fits: "?i + length p \<le> length buf" using assms(2) N i by simp
  have "splice ?i p buf ! (j mod N) = (s @ p) ! j" if j: "j < length (s @ p)" "length (s @ p) \<le> j + N" for j
  proof (cases "length s \<le> j")
    case True
    then obtain t where t: "j = length s + t" "t < length p" using j(1) by (auto simp: le_iff_add)
    have it: "?i + t < N" using t fits N by simp
    have "j mod N = (?i + t) mod N" by (simp add: t(1) mod_add_left_eq)
    then have "j mod N = ?i + t" using it by simp
    with t fits N show ?thesis by (simp add: nth_splice nth_append)
  next
    case False
    then have js: "j < length s" by simp
    have out: "j mod N < ?i \<or> ?i + length p \<le> j mod N"
    proof (rule ccontr)
      assume "\<not> ?thesis"
      then obtain t where t: "j mod N = ?i + t" "t < length p" by (metis le_iff_add linorder_not_le nat_add_left_cancel_less)
      have "?i + t < N" using t fits N by simp
      then have "j mod N = (length s + t) mod N" using t(1) by (metis mod_add_left_eq mod_less)
      from mod_near [OF this] js j(2) t(2) show False by simp
    qed
    have "buf ! (j mod N) = s ! j" using assms(1) js j(2) by (simp add: ring_def)
    moreover have "j mod N < length buf" using N by simp
    ultimately show ?thesis using out fits js by (auto simp: nth_splice nth_append)
  qed
  with N fits show ?thesis by (simp add: ring_def length_splice)
qed

lemma backlog_loop_ok:
  assumes "ring N buf s"
  shows "\<exists>buf'. backlog_loop (int N) p buf (int (length s mod N)) h =
      Some (buf', int (length (s @ p) mod N), h + int (length p)) \<and> ring N buf' (s @ p)"
  using assms
proof (induction "length p" arbitrary: p buf s h rule: less_induct)
  case less
  have N: "0 < N" using less.prems by (simp add: ring_def)
  then have i: "length s mod N < N" by simp
  show ?case
  proof (cases "p = []")
    case True
    with less.prems show ?thesis by (simp add: backlog_loop.simps [of _ "[]"])
  next
    case False
    let ?i = "length s mod N"
    let ?t = "if N - ?i > length p then length p else N - ?i"
    let ?q = "take ?t p" and ?r = "drop ?t p"
    have t: "0 < ?t" "?t \<le> length p" "?t \<le> N - ?i" using False i by auto
    have lq: "length ?q = ?t" using t by simp
    have nat: "nat (int N - int ?i) = N - ?i" by simp
    have ix: "(if int ?i + int ?t = int N then 0 else int ?i + int ?t) = int (length (s @ ?q) mod N)"
    proof (cases "?i + ?t = N")
      case True
      then have "(length s + ?t) mod N = 0" by (metis mod_add_left_eq mod_self)
      with True lq show ?thesis by (simp del: of_nat_add add: of_nat_add [symmetric])
    next
      case f: False
      have "?i + x < N" if "x \<le> N - ?i" "?i + x \<noteq> N" for x using that i by linarith
      then have "?i + ?t < N" using t f by metis
      then have "(length s + ?t) mod N = ?i + ?t" by (metis mod_add_left_eq mod_less)
      with f lq show ?thesis by (simp del: of_nat_add add: of_nat_add [symmetric])
    qed
    have r: "ring N (splice ?i ?q buf) (s @ ?q)" using ring_put [OF less.prems, of ?q] t lq by simp
    have step: "backlog_loop (int N) p buf (int ?i) h =
      backlog_loop (int N) ?r (splice ?i ?q buf) (int (length (s @ ?q) mod N)) (h + int ?t)"
      using False t by (subst backlog_loop.simps) (simp only: Let_def nat nat_int ix if_False simp_thms neq0_conv [symmetric])
    have "length ?r < length p" using t False by simp
    from less.hyps [OF this r, of "h + int ?t"] t show ?thesis unfolding step by simp
  qed
qed

lemma ring_read_step:
  assumes "0 < t" "t = (if bsize - j < len then bsize - j else len)"
  shows "ring_read buf bsize j len = map_option (\<lambda>r. slice (nat j) (nat t) buf @ r) (ring_read buf bsize 0 (len - t))"
proof -
  have "len \<noteq> 0" using assms by (auto split: if_splits)
  then show ?thesis
    unfolding ring_read.simps [of buf bsize j len] Let_def assms(2) [symmetric] using assms(1) by simp
qed

lemma ring_slice:
  assumes "ring N buf s" "length s \<le> a + N" "a + t \<le> length s" "a mod N + t \<le> N"
  shows "slice (a mod N) t buf = take t (drop a s)"
proof (intro nth_equalityI)
  have l: "length buf = N" using assms(1) by (simp add: ring_def)
  show "length (slice (a mod N) t buf) = length (take t (drop a s))" using assms(3,4) l by (simp add: length_slice)
  fix k assume "k < length (slice (a mod N) t buf)"
  then have k: "k < t" by (simp add: length_slice)
  then have "(a + k) mod N = a mod N + k"
    by (metis assms(4) mod_add_left_eq mod_less nat_add_left_cancel_less order_less_le_trans)
  moreover have "buf ! ((a + k) mod N) = s ! (a + k)"
  proof -
    have "a + k < length s" "length s \<le> a + k + N" using k assms(2,3) by linarith+
    with assms(1) show ?thesis unfolding ring_def by blast
  qed
  ultimately show "slice (a mod N) t buf ! k = take t (drop a s) ! k" using k assms(3,4) l by (simp add: nth_slice)
qed

lemma ring_read_ok:
  assumes "ring N buf s" "a \<le> length s" "length s \<le> a + N"
  shows "ring_read buf (int N) (int (a mod N)) (int (length s - a)) = Some (drop a s)"
  using assms(2,3)
proof (induction "length s - a" arbitrary: a rule: less_induct)
  case less
  have N: "0 < N" using assms(1) by (simp add: ring_def)
  show ?case
  proof (cases "a = length s")
    case True
    then show ?thesis by (simp add: ring_read.simps)
  next
    case False
    let ?j = "a mod N" and ?len = "length s - a"
    have j: "?j < N" using N by simp
    define t where "t = min (N - ?j) ?len"
    have "0 < t" "t \<le> ?len" "t \<le> N - ?j" using False less.prems j by (auto simp: t_def)
    then have t: "0 < t" "t \<le> ?len" "?j + t \<le> N" "a + t \<le> length s" using less.prems j by linarith+
    have ti: "int t = (if int N - int ?j < int ?len then int N - int ?j else int ?len)" using j by (auto simp: t_def)
    have rest: "ring_read buf (int N) 0 (int ?len - int t) = Some (drop (a + t) s)"
    proof (cases "?len = t")
      case True
      then have "a + t = length s" using less.prems by linarith
      with True show ?thesis by (simp add: ring_read.simps)
    next
      case f: False
      then have "?j + t = N" using j by (auto simp: t_def min_def split: if_splits)
      then have m: "(a + t) mod N = 0" by (metis mod_add_left_eq mod_self)
      have "length s - (a + t) < length s - a" "a + t \<le> length s" "length s \<le> a + t + N"
        using t less.prems False by linarith+
      from less.hyps [OF this] have "ring_read buf (int N) (int 0) (int (length s - (a + t))) = Some (drop (a + t) s)"
        unfolding m .
      moreover have "int (length s - (a + t)) = int ?len - int t" using t(4) by linarith
      ultimately show ?thesis by simp

    qed
    have "0 < int t" using t(1) by simp
    from ring_read_step [OF this ti, of buf] have "ring_read buf (int N) (int ?j) (int ?len) =
      Some (slice ?j t buf @ drop (a + t) s)" unfolding rest by simp
    also have "slice ?j t buf = take t (drop a s)" by (rule ring_slice [OF assms(1) less.prems(2) t(4,3)])
    also have "\<dots> @ drop (a + t) s = drop a s" by (metis add.commute append_take_drop_id drop_drop)
    finally show ?thesis .
  qed
qed

subsection \<open>What the backlog holds\<close>

text \<open>\<open>s\<close>: all bytes fed since the backlog is empty.\<close>

definition holds :: "repl \<Rightarrow> bytes \<Rightarrow> bool" where
  "holds m s \<longleftrightarrow>
     (\<exists>buf N. repl_backlog m = Some buf \<and> ring N buf s \<and> repl_backlog_size m = int N \<and>
        repl_backlog_idx m = int (length s mod N) \<and> repl_backlog_histlen m = int (min (length s) N) \<and>
        repl_backlog_off m = master_repl_offset m - int (min (length s) N) + 1)"

definition same_rest :: "repl \<Rightarrow> repl \<Rightarrow> bool" where
  "same_rest m m' \<longleftrightarrow>
     runid m' = runid m \<and> repl_backlog_size m' = repl_backlog_size m \<and> rdb_child m' = rdb_child m \<and>
     repl_diskless_sync m' = repl_diskless_sync m \<and> link_down m' = link_down m \<and> dataset m' = dataset m \<and>
     sock m' = sock m \<and> broken m' = broken m"

lemma same_rest_refl [simp]: "same_rest m m"
  by (simp add: same_rest_def)

lemma same_rest_trans: "same_rest m m' \<Longrightarrow> same_rest m' m'' \<Longrightarrow> same_rest m m''"
  by (simp add: same_rest_def)

text \<open>The bytes \<open>bs\<close> have been added to the stream.\<close>

definition fed :: "bytes \<Rightarrow> repl \<Rightarrow> repl \<Rightarrow> bool" where
  "fed bs m m' \<longleftrightarrow>
     (\<forall>s. holds m s \<longrightarrow> holds m' (s @ bs)) \<and> master_repl_offset m' = master_repl_offset m + int (length bs) \<and>
     slaves m' = slaves m \<and> slaveseldb m' = slaveseldb m \<and> same_rest m m'"

lemma fed_trans: "fed a m m' \<Longrightarrow> fed b m' m'' \<Longrightarrow> fed (a @ b) m m''"
  by (auto simp: fed_def intro: same_rest_trans)

lemma feedReplicationBacklog_fed:
  assumes "holds m s"
  shows "fed p m (feedReplicationBacklog p m)"
proof -
  let ?m' = "feedReplicationBacklog p m"
  have h: "holds ?m' (t @ p) \<and> same_rest m ?m' \<and> master_repl_offset ?m' = master_repl_offset m + int (length p) \<and>
     slaves ?m' = slaves m \<and> slaveseldb ?m' = slaveseldb m" if hm: "holds m t" for t
  proof -
    obtain buf N where b: "repl_backlog m = Some buf" "ring N buf t" "repl_backlog_size m = int N"
      "repl_backlog_idx m = int (length t mod N)" "repl_backlog_histlen m = int (min (length t) N)"
      using hm unfolding holds_def by blast
    obtain buf' where l: "backlog_loop (int N) p buf (int (length t mod N)) (int (min (length t) N)) =
        Some (buf', int (length (t @ p) mod N), int (min (length t) N) + int (length p))" "ring N buf' (t @ p)"
      using backlog_loop_ok [OF b(2), of p "int (min (length t) N)"] by blast
    have eq: "?m' = m\<lparr>master_repl_offset := master_repl_offset m + int (length p), repl_backlog := Some buf',
        repl_backlog_idx := int (length (t @ p) mod N), repl_backlog_histlen := int (min (length (t @ p)) N),
        repl_backlog_off := master_repl_offset m + int (length p) - int (min (length (t @ p)) N) + 1\<rparr>"
    proof (cases "int N < int (min (length t) N) + int (length p)")
      case True
      then have "int (min (length (t @ p)) N) = int N" by (auto simp: min_def split: if_splits)
      with True show ?thesis
        by (simp add: feedReplicationBacklog_def b l(1) Let_def del: of_nat_add of_nat_min length_append)
    next
      case False
      then have "int (min (length (t @ p)) N) = int (min (length t) N) + int (length p)"
        by (auto simp: min_def split: if_splits)
      with False show ?thesis
        by (simp add: feedReplicationBacklog_def b l(1) Let_def del: of_nat_add of_nat_min length_append)
    qed
    show ?thesis unfolding eq using b l(2) by (simp add: holds_def same_rest_def)
  qed
  from h [OF assms] h show ?thesis by (simp add: fed_def)
qed

lemma fed_step:
  assumes "fed a m m'" "holds m s" "\<And>m'. holds m' (s @ a) \<Longrightarrow> fed b m' (f m')"
  shows "fed (a @ b) m (f m')"
  using fed_trans [OF assms(1) assms(3)] assms(1,2) by (simp add: fed_def)

lemma ll2string_take:
  assumes "in_srange 8 n" "21 \<le> N"
  shows "ll2string (replicate N 0) N n = (length (dec_int n), dec_int n @ replicate (N - length (dec_int n)) 0)"
proof -
  have l: "length (dec_int n) \<le> 20" by (rule length_dec_int_le [OF assms(1)])
  have "ll2string (replicate N 0) N n = (length (dec_int n), splice 0 (dec_int n @ [0]) (replicate N 0))"
    using assms l by (simp add: ll2string_splice)
  moreover have "splice 0 (dec_int n @ [0]) (replicate N 0) = dec_int n @ replicate (N - length (dec_int n)) (0 :: byte)"
    using l assms(2) by (simp add: splice_def replicate_append_same Suc_diff_le flip: replicate_Suc)
  ultimately show ?thesis by simp
qed

lemma aux_line_ok:
  assumes "in_srange 8 (int n)"
  shows "aux_line c (int n) = enc_line c n"
proof -
  let ?d = "dec_int (int n)"
  have l: "length ?d \<le> 20" by (rule length_dec_int_le [OF assms])
  have r: "replicate (23 - length ?d) (0 :: byte) = 0 # 0 # replicate (21 - length ?d) 0"
    using l by (simp add: numeral_eq_Suc Suc_diff_le flip: replicate_Suc)
  have t: "take (length ?d + 3) (c # ?d @ 13 # 10 # w) = c # ?d @ [13, 10]" for w by (simp add: numeral_eq_Suc)
  have "aux_line c (int n) = c # ?d @ [13, 10]"
    using t by (simp add: aux_line_def ll2string_take [OF assms] r list_update_append)
  then show ?thesis by (simp add: enc_line_def dec_int_def)
qed

lemma select_cmd_ok:
  assumes "in_srange 8 d"
  shows "select_cmd d = enc_cmd [map of_char ''SELECT'', dec_int d]"
  using assms by (simp add: select_cmd_def ll2string_take enc_cmd_def enc_arg_def enc_line_def dec_nat.simps digit_def)

text \<open>An argument of a command that is replicated.\<close>

definition repl_arg :: "robj \<Rightarrow> bool" where
  "repl_arg a \<longleftrightarrow> obj_ok a \<and> length (obj_val a) < 2 ^ 62"

lemma backlog_arg_fed:
  assumes "repl_arg a" "holds m s"
  shows "fed (enc_arg (obj_val a)) m (backlog_arg a m)"
proof -
  have a: "obj_ok a" "length (obj_val a) < 2 ^ 62" using assms(1) by (simp_all add: repl_arg_def)
  have len: "stringObjectLen a = length (obj_val a)" by (rule stringObjectLen_ok [OF a(1)])
  have r: "in_srange 8 (int (length (obj_val a)))" using a(2) by (simp add: in_srange_def)
  have ob: "fed (obj_val a) m (feedReplicationBacklogWithObject a m)" if "holds m t" for m t
    using a(1)
  proof (cases rule: obj_cases)
    case (str x)
    then show ?thesis
      using feedReplicationBacklog_fed [OF that, of "obj_val a"]
      by (auto simp: feedReplicationBacklogWithObject_def obj_val_def)
  next
    case (num v)
    then show ?thesis
      using feedReplicationBacklog_fed [OF that, of "obj_val a"]
      by (simp add: feedReplicationBacklogWithObject_def obj_val_def ll2string_take)
  qed
  show ?thesis
    unfolding backlog_arg_def len aux_line_ok [OF r] enc_arg_def
    using fed_step [OF fed_step [OF feedReplicationBacklog_fed [OF assms(2)] assms(2) ob] assms(2)
        feedReplicationBacklog_fed] by simp
qed

lemma backlog_args_fed:
  "\<forall>a \<in> set args. repl_arg a \<Longrightarrow> holds m s \<Longrightarrow>
   fed (concat (map (\<lambda>a. enc_arg (obj_val a)) args)) m (fold backlog_arg args m)"
proof (induction args arbitrary: m s)
  case Nil
  then show ?case by (simp add: fed_def)
next
  case (Cons a args)
  then have a: "fed (enc_arg (obj_val a)) m (backlog_arg a m)" by (intro backlog_arg_fed) simp_all
  then have "holds (backlog_arg a m) (s @ enc_arg (obj_val a))" using Cons.prems(2) by (simp add: fed_def)
  from fed_trans [OF a Cons.IH [OF _ this]] Cons.prems(1) show ?case by simp
qed

lemma feed_slaves_simps [simp]:
  "holds (feed_slaves bs m) = holds m" "master_repl_offset (feed_slaves bs m) = master_repl_offset m"
  "slaves (feed_slaves bs m) = map (feed_slave bs) (slaves m)" "slaveseldb (feed_slaves bs m) = slaveseldb m"
  "repl_backlog (feed_slaves bs m) = repl_backlog m"
  "same_rest x (feed_slaves bs m) = same_rest x m"
  by (auto simp: feed_slaves_def holds_def same_rest_def fun_eq_iff)

lemma seldb_simps [simp]:
  "holds (m\<lparr>slaveseldb := d\<rparr>) = holds m" "same_rest x (m\<lparr>slaveseldb := d\<rparr>) = same_rest x m"
  by (auto simp: holds_def same_rest_def fun_eq_iff)

lemma feed_slave_feed [simp]: "feed_slave b (feed_slave a x) = feed_slave (a @ b) x"
  by (simp add: feed_slave_def)

lemma feed_slave_nil [simp]: "feed_slave [] x = x" "feed_slave [] = (\<lambda>x. x)"
  by (simp_all add: feed_slave_def fun_eq_iff)

lemma header_bytes:
  "reply_bytes (OMulti (int n)) = enc_line 42 n" "reply_bytes (OBulk a) = enc_arg (obj_val a)"
  by (simp_all add: header_line_def bulk_bytes_def enc_line_def enc_arg_def dec_int_def)

lemma holds_backlog: "holds m s \<Longrightarrow> repl_backlog m \<noteq> None"
  by (auto simp: holds_def)

lemma replicationFeedSlaves_ok:
  fixes d :: int
  assumes "holds m s" "\<forall>a \<in> set args. repl_arg a" "length args < 2 ^ 62"
  defines "st \<equiv> stream_of d args m" and "m' \<equiv> replicationFeedSlaves d args m"
  shows "holds m' (s @ st)" "master_repl_offset m' = master_repl_offset m + int (length st)"
    "slaves m' = map (feed_slave st) (slaves m)" "slaveseldb m' = d" "same_rest m m'"
proof -
  let ?sel = "if slaveseldb m \<noteq> d then select_cmd d else []"
  let ?m1 = "if slaveseldb m \<noteq> d then feed_slaves (select_cmd d) (feedReplicationBacklog (select_cmd d) m) else m"
  have b: "repl_backlog m \<noteq> None" by (rule holds_backlog [OF assms(1)])
  have m1: "holds ?m1 (s @ ?sel) \<and> master_repl_offset ?m1 = master_repl_offset m + int (length ?sel) \<and>
    slaves ?m1 = map (feed_slave ?sel) (slaves m) \<and> same_rest m ?m1"
    using feedReplicationBacklog_fed [OF assms(1), of "select_cmd d"] assms(1) by (simp add: fed_def)
  define m2 where "m2 = ?m1\<lparr>slaveseldb := d\<rparr>"
  have m2: "holds m2 (s @ ?sel)" "master_repl_offset m2 = master_repl_offset m + int (length ?sel)"
    "slaves m2 = map (feed_slave ?sel) (slaves m)" "slaveseldb m2 = d" "same_rest m m2"
    using m1 by (simp_all add: m2_def)
  have r: "in_srange 8 (int (length args))" using assms(3) by (simp add: in_srange_def)
  let ?cmd = "enc_cmd (map obj_val args)"
  define m3 where "m3 = fold backlog_arg args (feedReplicationBacklog (aux_line 42 (int (length args))) m2)"
  have f1: "fed (enc_line 42 (length args)) m2 (feedReplicationBacklog (aux_line 42 (int (length args))) m2)"
    unfolding aux_line_ok [OF r] by (rule feedReplicationBacklog_fed [OF m2(1)])
  have "fed ?cmd m2 m3"
    unfolding m3_def enc_cmd_def
    using fed_step [OF f1 m2(1) backlog_args_fed [OF assms(2)]] by (simp add: comp_def)
  then have m3: "holds m3 ((s @ ?sel) @ ?cmd)" "master_repl_offset m3 = master_repl_offset m2 + int (length ?cmd)"
    "slaves m3 = slaves m2" "slaveseldb m3 = d" "same_rest m m3"
    using m2 by (auto simp: fed_def intro: same_rest_trans)
  have b2: "repl_backlog m2 \<noteq> None" by (rule holds_backlog [OF m2(1)])
  have st: "st = ?sel @ ?cmd" by (simp add: st_def stream_of_def)
  have cmd: "enc_line 42 (length args) @ concat (map (\<lambda>a. enc_arg (obj_val a)) args) = ?cmd"
    by (simp add: enc_cmd_def comp_def)
  obtain bb where bb: "repl_backlog m = Some bb" using b by blast
  obtain bc where bc: "repl_backlog m2 = Some bc" using b2 by blast
  have "m' = feed_slaves ?cmd m3"
    unfolding m'_def replicationFeedSlaves_def header_bytes cmd
    using bb bc by (cases "slaveseldb m = d") (simp_all add: Let_def replAssert_def m3_def m2_def)
  with m2 m3 st show "holds m' (s @ st)" "master_repl_offset m' = master_repl_offset m + int (length st)"
    "slaves m' = map (feed_slave st) (slaves m)" "slaveseldb m' = d" "same_rest m m'" by simp_all
qed

subsection \<open>Positions\<close>

text \<open>\<open>exact m off D p\<close>: a copy \<open>D\<close> at offset \<open>off\<close> lacks exactly the bytes \<open>p\<close>. \<open>good m off D\<close>: a copy that the
  master will serve correctly: if it accepts the offset, the copy is at that offset.\<close>

definition exact :: "repl \<Rightarrow> int \<Rightarrow> item list \<Rightarrow> bytes \<Rightarrow> bool" where
  "exact m off D p \<longleftrightarrow> D @ map Sent p = dataset m \<and> off + int (length p) = getPsyncInitialOffset m \<and> 0 \<le> off"

definition good :: "repl \<Rightarrow> int \<Rightarrow> item list \<Rightarrow> bool" where
  "good m off D \<longleftrightarrow> (\<exists>q. dataset m = D @ q) \<and> 0 \<le> off \<and> off \<le> master_repl_offset m \<and>
     (repl_backlog m \<noteq> None \<longrightarrow> repl_backlog_off m - 1 \<le> off \<longrightarrow> (\<exists>p. exact m off D p))"

lemma getPsync_backlog: "repl_backlog m \<noteq> None \<Longrightarrow> getPsyncInitialOffset m = master_repl_offset m"
  by (simp add: getPsyncInitialOffset_def)

lemma exact_now: "exact m off D p \<Longrightarrow> repl_backlog m \<noteq> None \<Longrightarrow> good m off D"
  unfolding good_def exact_def getPsyncInitialOffset_def by (auto intro: exI [of _ "map Sent p"])

lemma exact_good:
  assumes "exact m off D p" "repl_backlog m \<noteq> None"
  shows "good m (off + int (length (take k p))) (D @ map Sent (take k p))"
proof -
  have e: "D @ map Sent p = dataset m" "off + int (length p) = master_repl_offset m" "0 \<le> off"
    using assms by (simp_all add: exact_def getPsync_backlog)
  have "(D @ map Sent (take k p)) @ map Sent (drop k p) = dataset m"
    using e(1) by (metis append.assoc append_take_drop_id map_append)
  moreover have "off + int (length (take k p)) + int (length (drop k p)) = master_repl_offset m"
    using e(2) by simp
  ultimately have "exact m (off + int (length (take k p))) (D @ map Sent (take k p)) (drop k p)"
    using e(3) assms(2) by (simp add: exact_def getPsync_backlog)
  then show ?thesis by (rule exact_now [OF _ assms(2)])
qed

lemma holds_off: "holds m s \<Longrightarrow> repl_backlog_off m \<le> master_repl_offset m + 1"
  by (auto simp: holds_def)

text \<open>The three ways in which the position of a master changes.\<close>

lemma good_write:
  assumes "good m off D" "holds m s" "holds m' (s @ st)" "dataset m' = dataset m @ map Sent st"
    "master_repl_offset m' = master_repl_offset m + int (length st)"
    "repl_backlog_size m' = repl_backlog_size m"
  shows "good m' off D"
proof -
  obtain N where N: "repl_backlog_off m = master_repl_offset m - int (min (length s) N) + 1"
    "repl_backlog_size m = int N" using assms(2) by (auto simp: holds_def)
  obtain N' where N': "repl_backlog_off m' = master_repl_offset m' - int (min (length (s @ st)) N') + 1"
    "repl_backlog_size m' = int N'" using assms(3) by (auto simp: holds_def)
  have le: "repl_backlog_off m \<le> repl_backlog_off m'"
    using N N' assms(5,6) by auto
  have b: "repl_backlog m \<noteq> None" "repl_backlog m' \<noteq> None" using holds_backlog assms(2,3) by blast+
  have "exact m' off D (p @ st)" if "exact m off D p" for p
    using that b assms(4,5) by (simp add: exact_def getPsync_backlog)
  with assms(1,4,5) le b show ?thesis unfolding good_def by fastforce
qed

lemma good_lost:
  assumes "good m off D" "repl_backlog m' = None" "dataset m' = dataset m @ q"
    "master_repl_offset m' = master_repl_offset m"
  shows "good m' off D"
  using assms by (auto simp: good_def)

lemma good_restart:
  assumes "good m off D" "dataset m' = dataset m" "master_repl_offset m' \<ge> master_repl_offset m"
    "repl_backlog_off m' > master_repl_offset m + 1"
  shows "good m' off D"
  using assms by (auto simp: good_def)

lemma good_same:
  assumes "good m off D" "dataset m' = dataset m" "master_repl_offset m' = master_repl_offset m"
    "repl_backlog m' = None \<longleftrightarrow> repl_backlog m = None" "repl_backlog_off m' \<ge> repl_backlog_off m"
  shows "good m' off D"
proof -
  have "exact m' off D p \<longleftrightarrow> exact m off D p" for p
    using assms(2-4) by (simp add: exact_def getPsyncInitialOffset_def)
  with assms show ?thesis by (auto simp: good_def)
qed

subsection \<open>Replicas and the master\<close>

definition valid_runid :: "bytes \<Rightarrow> bool" where
  "valid_runid r \<longleftrightarrow> length r = 40 \<and> (\<forall>b \<in> set r. 48 \<le> b \<and> b \<le> 57 \<or> 97 \<le> b \<and> b \<le> 102)"

text \<open>Whatever the replica may ask the master of this run for, or holds from it, is \<open>good\<close>.\<close>

definition okay :: "repl \<Rightarrow> bytes list \<Rightarrow> replica \<Rightarrow> bool" where
  "okay m used r \<longleftrightarrow>
     (\<forall>rid off. cached_master r = Some (rid, off) \<or> rmaster r = Some (rid, off) \<longrightarrow>
        rid \<in> set used \<and> (rid = runid m \<longrightarrow> good m off (rdata r)))"

text \<open>How the replica stands when it has read everything the master wrote for it so far.\<close>

definition linked :: "repl \<Rightarrow> slave \<Rightarrow> replica \<Rightarrow> bool" where
  "linked m x f \<longleftrightarrow>
     (case replstate x of
        WAIT_BGSAVE_START \<Rightarrow> rphase f = R_RECEIVE_PSYNC
      | REPL_ONLINE \<Rightarrow>
          rphase f = R_CONNECTED \<and> cached_master f = None \<and>
          (\<exists>off. rmaster f = Some (runid m, off) \<and> exact m off (rdata f) (out x))
      | _ \<Rightarrow>
          rphase f = R_TRANSFER \<and> cached_master f = None \<and>
          repl_master_runid f = runid m \<and> repl_master_initial_offset f = psync_initial_offset x)"

text \<open>\<open>sn\<close>: what the child saves.\<close>

definition slave_inv :: "item list option \<Rightarrow> repl \<Rightarrow> slave \<Rightarrow> bool" where
  "slave_inv sn m x \<longleftrightarrow> \<not> pre_psync x \<and>
     (case replstate x of
        WAIT_BGSAVE_START \<Rightarrow> out x = []
      | WAIT_BGSAVE_END \<Rightarrow> (\<exists>D. sn = Some D \<and> exact m (psync_initial_offset x) D (out x))
      | SEND_BULK \<Rightarrow> exact m (psync_initial_offset x) (rdbfile x) (out x)
      | REPL_ONLINE \<Rightarrow> True)"

definition core_inv :: "item list option \<Rightarrow> repl \<Rightarrow> bool" where
  "core_inv sn m \<longleftrightarrow>
     \<not> broken m \<and> 0 < repl_backlog_size m \<and> 0 \<le> master_repl_offset m \<and> valid_runid (runid m) \<and>
     (repl_backlog m \<noteq> None \<longrightarrow> (\<exists>s D. holds m s \<and> dataset m = D @ map Sent s)) \<and>
     distinct (map cid (slaves m)) \<and> (\<forall>x \<in> set (slaves m). slave_inv sn m x)"

fun child_snap :: "rdb_child \<Rightarrow> item list option" where
  "child_snap NoChild = None"
| "child_snap (DiskChild D) = Some D"
| "child_snap (SocketChild D) = Some D"

definition master_inv :: "repl \<Rightarrow> bool" where
  "master_inv m \<longleftrightarrow> core_inv (child_snap (rdb_child m)) m \<and> (slaves m \<noteq> [] \<longrightarrow> repl_backlog m \<noteq> None)"

definition conn_fin :: "repl \<Rightarrow> bytes list \<Rightarrow> nat \<Rightarrow> replica \<Rightarrow> bool" where
  "conn_fin m used c f \<longleftrightarrow> okay m used f \<and> (\<forall>x \<in> set (slaves m). cid x = c \<longrightarrow> linked m x f)"

text \<open>A replica on connection \<open>c\<close>, now and after each of the messages that wait for it.\<close>

definition conn_ok :: "repl \<Rightarrow> bytes list \<Rightarrow> nat \<Rightarrow> replica \<Rightarrow> bool" where
  "conn_ok m used c r \<longleftrightarrow>
     (\<forall>k. okay m used (fold receive (take k (sock m c)) r)) \<and> conn_fin m used c (fold receive (sock m c) r)"

definition serves :: "repl \<Rightarrow> repl \<Rightarrow> nat \<Rightarrow> msg list \<Rightarrow> bool" where
  "serves m m' c ms \<longleftrightarrow>
     (\<forall>used f. runid m \<in> set used \<longrightarrow> conn_fin m used c f \<longrightarrow>
        (\<forall>k. okay m' used (fold receive (take k ms) f)) \<and>
        (\<forall>x \<in> set (slaves m'). cid x = c \<longrightarrow> linked m' x (fold receive ms f)))"

definition keeps_good :: "repl \<Rightarrow> repl \<Rightarrow> bool" where
  "keeps_good m m' \<longleftrightarrow> runid m' = runid m \<and> (\<forall>off D. good m off D \<longrightarrow> good m' off D)"

definition cids :: "repl \<Rightarrow> nat set" where
  "cids m = cid ` set (slaves m)"

text \<open>A step of the master: good positions stay good, no replica is added, and what is written to a replica
  serves it.\<close>

definition evolves :: "repl \<Rightarrow> repl \<Rightarrow> bool" where
  "evolves m m' \<longleftrightarrow> keeps_good m m' \<and> cids m' \<subseteq> cids m \<and>
     (\<forall>c. \<exists>ms. sock m' c = sock m c @ ms \<and> (c \<notin> cids m \<longrightarrow> ms = []) \<and> serves m m' c ms)"

lemma okay_mono: "keeps_good m m' \<Longrightarrow> okay m used r \<Longrightarrow> okay m' used r"
  by (simp add: okay_def keeps_good_def)

lemma keeps_good_trans: "keeps_good m m' \<Longrightarrow> keeps_good m' m'' \<Longrightarrow> keeps_good m m''"
  by (simp add: keeps_good_def)

lemma serves_okay: "serves m m' c ms \<Longrightarrow> runid m \<in> set used \<Longrightarrow> conn_fin m used c f \<Longrightarrow> conn_fin m' used c (fold receive ms f)"
  unfolding serves_def conn_fin_def by (metis order_refl take_all_iff)

lemma serves_trans:
  assumes "serves m m' c a" "serves m' m'' c b" "keeps_good m m'" "keeps_good m' m''"
  shows "serves m m'' c (a @ b)"
  unfolding serves_def
proof (intro allI impI)
  fix used f
  assume u: "runid m \<in> set used" and f: "conn_fin m used c f"
  have u': "runid m' \<in> set used" using u assms(3) by (simp add: keeps_good_def)
  have f': "conn_fin m' used c (fold receive a f)" by (rule serves_okay [OF assms(1) u f])
  have "okay m'' used (fold receive (take k (a @ b)) f)" for k
  proof (cases "k \<le> length a")
    case True
    with assms(1) u f show ?thesis by (auto simp: serves_def intro: okay_mono [OF assms(4)])
  next
    case False
    with assms(2) u' f' show ?thesis by (simp add: serves_def)
  qed
  moreover have "\<forall>x \<in> set (slaves m''). cid x = c \<longrightarrow> linked m'' x (fold receive (a @ b) f)"
    using assms(2) u' f' by (simp add: serves_def)
  ultimately show "(\<forall>k. okay m'' used (fold receive (take k (a @ b)) f)) \<and>
    (\<forall>x \<in> set (slaves m''). cid x = c \<longrightarrow> linked m'' x (fold receive (a @ b) f))" by blast
qed

lemma evolves_trans: "evolves m m' \<Longrightarrow> evolves m' m'' \<Longrightarrow> evolves m m''"
proof -
  assume a: "evolves m m'" and b: "evolves m' m''"
  then have k: "keeps_good m m'" "keeps_good m' m''" "cids m' \<subseteq> cids m" "cids m'' \<subseteq> cids m'" by (simp_all add: evolves_def)
  have "\<exists>ms. sock m'' c = sock m c @ ms \<and> (c \<notin> cids m \<longrightarrow> ms = []) \<and> serves m m'' c ms" for c
  proof -
    obtain x where x: "sock m' c = sock m c @ x" "c \<notin> cids m \<longrightarrow> x = []" "serves m m' c x" using a unfolding evolves_def by blast
    obtain y where y: "sock m'' c = sock m' c @ y" "c \<notin> cids m' \<longrightarrow> y = []" "serves m' m'' c y" using b unfolding evolves_def by blast
    have "serves m m'' c (x @ y)" by (rule serves_trans [OF x(3) y(3) k(1,2)])
    with x y k(3) show ?thesis by (intro exI [of _ "x @ y"]) auto
  qed
  with k keeps_good_trans show "evolves m m''" unfolding evolves_def by blast
qed

lemma evolves_refl [simp]: "evolves m m"
  by (auto simp: evolves_def keeps_good_def serves_def conn_fin_def)

lemma evolves_conn_ok:
  assumes "evolves m m'" "runid m \<in> set used" "conn_ok m used c r"
  shows "conn_ok m' used c r"
proof -
  obtain ms where ms: "sock m' c = sock m c @ ms" "serves m m' c ms" and g: "keeps_good m m'"
    using assms(1) unfolding evolves_def by blast
  let ?f = "fold receive (sock m c) r"
  have f: "conn_fin m used c ?f" using assms(3) by (simp add: conn_ok_def)
  have "okay m' used (fold receive (take k (sock m' c)) r)" for k
  proof (cases "k \<le> length (sock m c)")
    case True
    with assms(3) show ?thesis by (auto simp: ms(1) conn_ok_def intro: okay_mono [OF g])
  next
    case False
    with ms(2) assms(2) f show ?thesis by (simp add: ms(1) serves_def)
  qed
  with serves_okay [OF ms(2) assms(2) f] show ?thesis by (simp add: conn_ok_def ms(1))
qed

text \<open>A master that writes nothing.\<close>

lemma quiet_evolves:
  assumes "keeps_good m m'" "sock m' = sock m"
    "\<And>x' f. x' \<in> set (slaves m') \<Longrightarrow> \<exists>x \<in> set (slaves m). cid x = cid x' \<and> (linked m x f \<longrightarrow> linked m' x' f)"
  shows "evolves m m'"
proof -
  have "serves m m' c []" for c
    unfolding serves_def
  proof (intro allI impI conjI ballI)
    fix used f k
    assume f: "conn_fin m used c f"
    then show "okay m' used (fold receive (take k []) f)" by (auto simp: conn_fin_def intro: okay_mono [OF assms(1)])
    fix x' assume "x' \<in> set (slaves m')" "cid x' = c"
    with assms(3) [of x' f] f show "linked m' x' (fold receive [] f)" by (auto simp: conn_fin_def)
  qed
  moreover have "cids m' \<subseteq> cids m"
  proof
    fix c assume "c \<in> cids m'"
    then obtain y where y: "y \<in> set (slaves m')" "c = cid y" by (auto simp: cids_def)
    from assms(3) [OF y(1), of undefined] obtain x where "x \<in> set (slaves m)" "cid x = cid y" by blast
    with y(2) show "c \<in> cids m" by (metis cids_def image_eqI)
  qed
  ultimately show ?thesis using assms(1,2) by (simp add: evolves_def)
qed

text \<open>States that agree on everything but the list of replicas and what was written to the sockets.\<close>

definition same_store :: "repl \<Rightarrow> repl \<Rightarrow> bool" where
  "same_store m m' \<longleftrightarrow>
     runid m' = runid m \<and> master_repl_offset m' = master_repl_offset m \<and> repl_backlog m' = repl_backlog m \<and>
     repl_backlog_size m' = repl_backlog_size m \<and> repl_backlog_histlen m' = repl_backlog_histlen m \<and>
     repl_backlog_idx m' = repl_backlog_idx m \<and> repl_backlog_off m' = repl_backlog_off m \<and>
     dataset m' = dataset m \<and> broken m' = broken m"

lemma same_store_refl [simp]: "same_store m m"
  by (simp add: same_store_def)

lemma same_store_trans: "same_store m m' \<Longrightarrow> same_store m' m'' \<Longrightarrow> same_store m m''"
  by (simp add: same_store_def)

lemma same_storeD:
  assumes "same_store m m'"
  shows "holds m' = holds m" "exact m' = exact m" "good m' = good m" "linked m' = linked m" "okay m' = okay m"
    "slave_inv sn m' = slave_inv sn m" "keeps_good m m'"
proof -
  show h: "holds m' = holds m" "exact m' = exact m"
    using assms by (auto simp: same_store_def holds_def exact_def getPsyncInitialOffset_def fun_eq_iff)
  then show g: "good m' = good m" using assms by (auto simp: same_store_def good_def fun_eq_iff)
  show "linked m' = linked m" "okay m' = okay m" "slave_inv sn m' = slave_inv sn m" "keeps_good m m'"
    using assms h g by (auto simp: same_store_def linked_def okay_def slave_inv_def keeps_good_def fun_eq_iff
        split: replstate.splits)
qed

lemma evolves_one:
  assumes "keeps_good m m'" "sock m' = (sock m)(c := sock m c @ ms)" "serves m m' c ms"
    "\<And>c'. c' \<noteq> c \<Longrightarrow> serves m m' c' []" "cids m' \<subseteq> cids m" "c \<notin> cids m \<longrightarrow> ms = []"
  shows "evolves m m'"
  unfolding evolves_def
proof (intro conjI allI)
  fix c'
  show "\<exists>ms. sock m' c' = sock m c' @ ms \<and> (c' \<notin> cids m \<longrightarrow> ms = []) \<and> serves m m' c' ms"
    using assms(3,4,6) by (cases "c' = c") (auto simp: assms(2))
qed fact+

lemma slave_unique: "distinct (map cid l) \<Longrightarrow> x \<in> set l \<Longrightarrow> y \<in> set l \<Longrightarrow> cid x = cid y \<Longrightarrow> x = y"
  by (auto simp: distinct_map inj_on_def)

lemma core_inv_same:
  assumes "core_inv sn m" "same_store m m'" "distinct (map cid (slaves m'))"
    "\<And>x. x \<in> set (slaves m') \<Longrightarrow> slave_inv sn' m x"
  shows "core_inv sn' m'"
proof -
  note s = same_storeD [OF assms(2)]
  have "runid m' = runid m" "broken m' = broken m" "repl_backlog_size m' = repl_backlog_size m"
    "master_repl_offset m' = master_repl_offset m" "repl_backlog m' = repl_backlog m" "dataset m' = dataset m"
    using assms(2) by (simp_all add: same_store_def)
  with assms(1,3,4) show ?thesis by (simp add: core_inv_def s)
qed

text \<open>One replica changes, and something is written to its socket.\<close>

lemma slave_step:
  assumes "core_inv sn m" "same_store m m'" "x \<in> set (slaves m)"
    "slaves m' = map (\<lambda>y. if cid y = cid x then g y else y) (slaves m)"
    "sock m' = (sock m)(cid x := sock m (cid x) @ ms)" "\<And>y. cid (g y) = cid y" "slave_inv sn m (g x)"
    "\<And>used f. runid m \<in> set used \<Longrightarrow> okay m used f \<Longrightarrow> linked m x f \<Longrightarrow>
       (\<forall>k. okay m used (fold receive (take k ms) f)) \<and> linked m (g x) (fold receive ms f)"
  shows "core_inv sn m'" "evolves m m'"
proof -
  note s = same_storeD [OF assms(2)]
  have d: "distinct (map cid (slaves m))" using assms(1) by (simp add: core_inv_def)
  have u: "y = x" if "y \<in> set (slaves m)" "cid y = cid x" for y using slave_unique [OF d that(1) assms(3) that(2)] .
  have m: "map cid (slaves m') = map cid (slaves m)" using assms(6) by (simp add: assms(4) comp_def)
  have mem: "(y \<in> set (slaves m) \<and> cid y \<noteq> cid x) \<or> y = g x" if "y \<in> set (slaves m')" for y
    using that u by (auto simp: assms(4) split: if_splits)
  show "core_inv sn m'"
    using assms(1,7) mem by (intro core_inv_same [OF assms(1,2)]) (auto simp: m d core_inv_def)
  show "evolves m m'"
  proof (rule evolves_one [OF s(7) assms(5)])
    show "serves m m' (cid x) ms"
      using assms(3,8) mem by (auto simp: serves_def conn_fin_def s assms(6))
    fix c' assume c: "c' \<noteq> cid x"
    have "linked m y f" if "okay m used f" "\<forall>x\<in>set (slaves m). cid x = c' \<longrightarrow> linked m x f" "y \<in> set (slaves m')" "cid y = c'"
      for y f used using mem [OF that(3)] that c assms(6) by auto
    then show "serves m m' c' []" by (auto simp: serves_def conn_fin_def s)
  next
    show "cids m' \<subseteq> cids m" unfolding cids_def using arg_cong [OF m, of set] by simp
    show "cid x \<notin> cids m \<longrightarrow> ms = []" using assms(3) by (simp add: cids_def)
  qed
qed

text \<open>A replica is dropped, with a last message for it perhaps.\<close>

lemma slave_removed:
  assumes "core_inv sn m" "same_store m m'" "slaves m' = filter (\<lambda>y. cid y \<noteq> c) (slaves m)"
    "sock m' = (sock m)(c := sock m c @ ms)"
    "\<And>used f k. okay m used f \<Longrightarrow> okay m used (fold receive (take k ms) f)" "c \<notin> cids m \<longrightarrow> ms = []"
  shows "core_inv sn m'" "evolves m m'"
proof -
  note s = same_storeD [OF assms(2)]
  show "core_inv sn m'"
    using assms(1) by (intro core_inv_same [OF assms(1,2)]) (auto simp: assms(3) core_inv_def distinct_map_filter)
  show "evolves m m'"
    using assms(5,6) by (intro evolves_one [OF s(7) assms(4)]) (auto simp: serves_def conn_fin_def s assms(3) cids_def)
qed

lemma okay_rconnect [simp]: "okay m used (rconnect r) = okay m used r"
  by (simp add: okay_def rconnect_def)

lemma okay_no_cache: "okay m used r \<Longrightarrow> okay m used (r\<lparr>cached_master := None\<rparr>)"
  by (simp add: okay_def)

lemma okay_phase [simp]: "okay m used (r\<lparr>rphase := p\<rparr>) = okay m used r"
  "okay m used (r\<lparr>repl_master_runid := a\<rparr>) = okay m used r"
  "okay m used (r\<lparr>repl_master_initial_offset := i\<rparr>) = okay m used r"
  by (simp_all add: okay_def)

text \<open>No line does harm.\<close>

lemma okay_line: "okay m used r \<Longrightarrow> okay m used (receive (MLine l) r)"
  by (auto simp: slaveTryPartialResynchronization_def okay_def rconnect_def split: rphase.splits option.splits)

lemma okay_lines: "okay m used f \<Longrightarrow> okay m used (fold receive (take k (map MLine ls)) f)"
proof (induction ls arbitrary: k f)
  case (Cons l ls)
  then show ?case by (cases k) (simp_all add: okay_line del: receive.simps)
qed simp

lemmas okay_one_line = okay_lines [where ls = "[_]", simplified]

subsection \<open>Setting up replicas\<close>

lemma strchr_at: "\<forall>b \<in> set xs. b \<noteq> c \<and> b \<noteq> 0 \<Longrightarrow> strchr (xs @ c # ys) c = Some (length xs)"
  by (induction xs) auto

lemma valid_runid_bytes: "valid_runid r \<Longrightarrow> b \<in> set r \<Longrightarrow> b \<noteq> 32 \<and> b \<noteq> 0"
  by (auto simp: valid_runid_def word_le_nat_alt)

lemma fullresync_parsed:
  assumes "valid_runid r" "in_srange 8 off"
  shows "take 11 (fullresync_line r off) = map of_char ''+FULLRESYNC''"
    "fullresync_args (fullresync_line r off) = Some (r, off)"
proof -
  let ?l = "fullresync_line r off"
  have l: "?l = map of_char ''+FULLRESYNC'' @ 32 # r @ 32 # dec_int off" by (simp add: fullresync_line_def)
  show "take 11 ?l = map of_char ''+FULLRESYNC''" unfolding l by simp
  have "strchr ?l 32 = Some (length (map of_char ''+FULLRESYNC'' :: bytes))"
    unfolding l by (rule strchr_at) simp
  then have a: "strchr ?l 32 = Some 11" by simp
  have d: "drop 12 ?l = r @ 32 # dec_int off" by (simp add: l)
  have n: "length r = 40" using assms(1) by (simp add: valid_runid_def)
  have "strchr (r @ 32 # dec_int off) 32 = Some (length r)"
    using valid_runid_bytes [OF assms(1)] by (intro strchr_at) blast
  then show "fullresync_args ?l = Some (r, off)"
    using assms(2) n by (simp add: fullresync_args_def a d Let_def strtoll_full_dec_int)
qed

lemma receive_fullresync:
  assumes "valid_runid (runid m)" "in_srange 8 off" "rphase f = R_RECEIVE_PSYNC"
  shows "receive (MLine (fullresync_line (runid m) off)) f =
    f\<lparr>repl_master_runid := runid m, repl_master_initial_offset := off, cached_master := None, rphase := R_TRANSFER\<rparr>"
proof -
  have "fullresync_line (runid m) off \<noteq> []" by (simp add: fullresync_line_def)
  then show ?thesis
    using assms(3) fullresync_parsed [OF assms(1,2)] by (simp add: slaveTryPartialResynchronization_def)
qed

lemma replicationSetup_ok:
  assumes "core_inv (Some D) m" "x \<in> set (slaves m)" "replstate x = WAIT_BGSAVE_START"
    "in_srange 8 off" "exact m off D (out x)"
  defines "m' \<equiv> replicationSetupSlaveForFullResync x off m"
  shows "core_inv (Some D) m'" "evolves m m'" "same_store m m'" "rdb_child m' = rdb_child m"
    "slaves m' = map (\<lambda>y. if cid y = cid x then y\<lparr>psync_initial_offset := off, replstate := WAIT_BGSAVE_END\<rparr> else y) (slaves m)"
proof -
  let ?g = "\<lambda>y. y\<lparr>psync_initial_offset := off, replstate := WAIT_BGSAVE_END\<rparr>"
  have v: "valid_runid (runid m)" using assms(1) by (simp add: core_inv_def)
  have np: "\<not> pre_psync x" using assms(1,2) by (auto simp: core_inv_def slave_inv_def)
  show st: "same_store m m'" "rdb_child m' = rdb_child m"
    and sl: "slaves m' = map (\<lambda>y. if cid y = cid x then ?g y else y) (slaves m)"
    by (simp_all add: m'_def replicationSetupSlaveForFullResync_def write_sock_def update_slave_def same_store_def Let_def)
  have so: "sock m' = (sock m)(cid x := sock m (cid x) @ [MLine (fullresync_line (runid m) off)])"
    using np by (simp add: m'_def replicationSetupSlaveForFullResync_def write_sock_def update_slave_def Let_def)
  have g: "cid (?g y) = cid y" for y by simp
  have si: "slave_inv (Some D) m (?g x)" using assms(5) np by (simp add: slave_inv_def)
  have li: "(\<forall>k. okay m used (fold receive (take k [MLine (fullresync_line (runid m) off)]) f)) \<and>
      linked m (?g x) (fold receive [MLine (fullresync_line (runid m) off)] f)"
    if "runid m \<in> set used" "okay m used f" "linked m x f" for used f
  proof -
    have "rphase f = R_RECEIVE_PSYNC" using that(3) assms(3) by (simp add: linked_def)
    from receive_fullresync [OF v assms(4) this] okay_one_line [OF that(2)] show ?thesis
      by (simp add: linked_def del: receive.simps)
  qed
  show "core_inv (Some D) m'" "evolves m m'"
    by (rule slave_step [OF assms(1) st(1) assms(2) sl so g si li]; assumption)+
qed

lemma exact_same: "same_store m m' \<Longrightarrow> getPsyncInitialOffset m' = getPsyncInitialOffset m"
  by (simp add: same_store_def getPsyncInitialOffset_def)

lemma exact_snapshot: "0 \<le> master_repl_offset m \<Longrightarrow> exact m (getPsyncInitialOffset m) (dataset m) []"
  by (simp add: exact_def getPsyncInitialOffset_def)

definition set_up :: "repl \<Rightarrow> slave \<Rightarrow> slave" where
  "set_up m x = (if replstate x = WAIT_BGSAVE_START
                 then x\<lparr>psync_initial_offset := getPsyncInitialOffset m, replstate := WAIT_BGSAVE_END\<rparr> else x)"

lemma setup_fold:
  assumes "core_inv (Some (dataset m)) m" "set xs \<subseteq> set (slaves m)" "distinct (map cid xs)" "master_repl_offset m < 2 ^ 62"
  defines "m' \<equiv> fold (\<lambda>x m. if replstate x = WAIT_BGSAVE_START
                 then replicationSetupSlaveForFullResync x (getPsyncInitialOffset m) m else m) xs m"
  shows "core_inv (Some (dataset m)) m' \<and> evolves m m' \<and> same_store m m' \<and> rdb_child m' = rdb_child m \<and>
    slaves m' = map (\<lambda>x. if cid x \<in> cid ` set xs then set_up m x else x) (slaves m)"
  using assms(1-4) unfolding m'_def
proof (induction xs arbitrary: m)
  case (Cons x xs)
  let ?f = "\<lambda>x m. if replstate x = WAIT_BGSAVE_START
                 then replicationSetupSlaveForFullResync x (getPsyncInitialOffset m) m else m"
  let ?m1 = "?f x m"
  have x: "x \<in> set (slaves m)" using Cons.prems(2) by simp
  have d: "distinct (map cid (slaves m))" using Cons.prems(1) by (simp add: core_inv_def)
  have nx: "cid x \<notin> cid ` set xs" using Cons.prems(3) by simp
  have pos: "0 \<le> master_repl_offset m" using Cons.prems(1) by (simp add: core_inv_def)
  have r: "in_srange 8 (getPsyncInitialOffset m)"
    using pos Cons.prems(4) by (simp add: in_srange_def getPsyncInitialOffset_def)
  have m1: "core_inv (Some (dataset m)) ?m1 \<and> evolves m ?m1 \<and> same_store m ?m1 \<and> rdb_child ?m1 = rdb_child m \<and>
    slaves ?m1 = map (\<lambda>y. if cid y = cid x then set_up m y else y) (slaves m)"
  proof (cases "replstate x = WAIT_BGSAVE_START")
    case True
    have "slave_inv (Some (dataset m)) m x" using Cons.prems(1) x by (simp add: core_inv_def)
    then have o: "out x = []" using True by (simp add: slave_inv_def)
    have u: "y = x" if "y \<in> set (slaves m)" "cid y = cid x" for y using slave_unique [OF d that(1) x that(2)] .
    note s = replicationSetup_ok [OF Cons.prems(1) x True r exact_snapshot [OF pos, folded o]]
    have "slaves ?m1 = map (\<lambda>y. if cid y = cid x then set_up m y else y) (slaves m)"
      using True s(5) u by (auto simp: set_up_def)
    with True s show ?thesis by simp
  next
    case False
    have "set_up m y = y" if "y \<in> set (slaves m)" "cid y = cid x" for y
      using slave_unique [OF d that(1) x that(2)] False by (simp add: set_up_def)
    then have "slaves m = map (\<lambda>y. if cid y = cid x then set_up m y else y) (slaves m)"
      by (intro map_idI [symmetric]) simp
    with False Cons.prems(1) show ?thesis by simp
  qed
  then have ds: "dataset ?m1 = dataset m" "master_repl_offset ?m1 = master_repl_offset m" and ss: "same_store m ?m1"
    by (simp_all add: same_store_def)
  have su: "set_up ?m1 = set_up m" using exact_same [OF ss] by (simp add: set_up_def fun_eq_iff)
  have sub: "set xs \<subseteq> set (slaves ?m1)"
  proof
    fix y assume y: "y \<in> set xs"
    then have "cid y \<in> cid ` set xs" by simp
    with nx have "cid y \<noteq> cid x" by metis
    moreover have "y \<in> set (slaves m)" using y Cons.prems(2) by auto
    ultimately have "cid y \<noteq> cid x" "y \<in> set (slaves m)" by blast+
    moreover have "slaves ?m1 = map (\<lambda>y. if cid y = cid x then set_up m y else y) (slaves m)" using m1 by (elim conjE)
    ultimately show "y \<in> set (slaves ?m1)" by (auto simp: image_iff intro!: bexI [of _ y])
  qed
  have i: "core_inv (Some (dataset ?m1)) ?m1" "distinct (map cid xs)" "master_repl_offset ?m1 < 2 ^ 62"
    using m1 ds Cons.prems(3,4) by simp_all
  let ?m2 = "fold ?f xs ?m1"
  have ih: "core_inv (Some (dataset ?m1)) ?m2 \<and> evolves ?m1 ?m2 \<and> same_store ?m1 ?m2 \<and> rdb_child ?m2 = rdb_child ?m1 \<and>
    slaves ?m2 = map (\<lambda>x. if cid x \<in> cid ` set xs then set_up ?m1 x else x) (slaves ?m1)"
    by (rule Cons.IH [OF i(1) sub i(2,3)])
  have cs: "cid (set_up m y) = cid y" for y by (simp add: set_up_def)
  have "slaves ?m2 = map (\<lambda>y. if cid y \<in> cid ` set (x # xs) then set_up m y else y) (slaves m)"
    using ih m1 nx by (auto simp: su cs)
  with ih m1 ds show ?case by (auto intro: evolves_trans same_store_trans)
qed simp

lemma core_inv_None: "core_inv None m \<Longrightarrow> core_inv (Some D) m"
  by (fastforce simp: core_inv_def slave_inv_def split: replstate.splits)

lemma core_inv_no_save:
  assumes "core_inv sn m" "\<forall>x \<in> set (slaves m). replstate x \<noteq> WAIT_BGSAVE_END"
  shows "core_inv sn' m"
  using assms by (auto simp: core_inv_def slave_inv_def split: replstate.splits)

lemma core_inv_None_iff: "core_inv None m \<Longrightarrow> x \<in> set (slaves m) \<Longrightarrow> replstate x \<noteq> WAIT_BGSAVE_END"
  by (auto simp: core_inv_def slave_inv_def)

lemma child_change:
  assumes "core_inv sn m"
  shows "core_inv sn (m\<lparr>rdb_child := c\<rparr>)" "evolves m (m\<lparr>rdb_child := c\<rparr>)" "same_store m (m\<lparr>rdb_child := c\<rparr>)"
proof -
  show s: "same_store m (m\<lparr>rdb_child := c\<rparr>)" by (simp add: same_store_def)
  show "core_inv sn (m\<lparr>rdb_child := c\<rparr>)"
    using assms by (intro core_inv_same [OF assms s]) (simp_all add: core_inv_def)
  show "evolves m (m\<lparr>rdb_child := c\<rparr>)"
    using same_storeD(4,7) [OF s] by (intro quiet_evolves) auto
qed

text \<open>Some replicas are sent an error and dropped.\<close>

lemma kicked:
  assumes "core_inv sn m" "same_store m m'" "slaves m' = filter (\<lambda>x. cid x \<notin> K) (slaves m)" "sock m' = sock m"
  shows "core_inv sn m'" "evolves m m'"
proof -
  note s = same_storeD [OF assms(2)]
  show "core_inv sn m'"
    using assms(1) by (intro core_inv_same [OF assms(1,2)]) (auto simp: assms(3) core_inv_def distinct_map_filter)
  have "serves m m' c []" for c
    by (auto simp: serves_def conn_fin_def s assms(3))
  moreover have "cids m' \<subseteq> cids m" by (auto simp: cids_def assms(3))
  ultimately show "evolves m m'" using s(7) by (auto simp: evolves_def assms(4) intro: exI [of _ "[]"])
qed

lemma kick_waiting:
  fixes l :: bytes
  assumes "core_inv sn m" "slaves m2 = map (\<lambda>x. if cid x \<in> K then x\<lparr>replstate := WAIT_BGSAVE_START\<rparr> else x) (slaves m)"
    "same_store m m2" "sock m2 = sock m" "rdb_child m2 = rdb_child m"
    "\<forall>x \<in> set (slaves m). cid x \<in> K \<longrightarrow> out x = []" "\<forall>x \<in> set (slaves m). cid x \<notin> K \<longrightarrow> replstate x \<noteq> WAIT_BGSAVE_START"
  defines "m' \<equiv> fold (\<lambda>x. write_sock (cid x) (map MByte (out x) @ [MLine l]))
             (filter (\<lambda>x. replstate x = WAIT_BGSAVE_START \<and> out x \<noteq> []) (slaves m2))
             (m2\<lparr>slaves := filter (\<lambda>x. replstate x \<noteq> WAIT_BGSAVE_START) (slaves m2)\<rparr>)"
  shows "core_inv sn m'" "evolves m m'" "same_store m m'" "rdb_child m' = rdb_child m"
    "slaves m' = filter (\<lambda>x. cid x \<notin> K) (slaves m)"
proof -
  let ?h = "\<lambda>x. if cid x \<in> K then x\<lparr>replstate := WAIT_BGSAVE_START\<rparr> else x"
  have h: "replstate (?h x) = WAIT_BGSAVE_START \<longleftrightarrow> cid x \<in> K" if "x \<in> set (slaves m)" for x using assms(7) that by auto
  have w: "filter (\<lambda>x. replstate x = WAIT_BGSAVE_START \<and> out x \<noteq> []) (slaves m2) = []"
    using assms(6,7) unfolding assms(2) by (auto simp: filter_empty_conv)
  have nw: "filter (\<lambda>x. replstate x \<noteq> WAIT_BGSAVE_START) (slaves m2) = filter (\<lambda>x. cid x \<notin> K) (slaves m)"
  proof -
    have "filter (\<lambda>x. replstate x \<noteq> WAIT_BGSAVE_START) (slaves m2) = map ?h (filter (\<lambda>x. cid x \<notin> K) (slaves m))"
      using h unfolding assms(2) filter_map comp_def by (intro arg_cong [of _ _ "map _"] filter_cong) auto
    also have "\<dots> = filter (\<lambda>x. cid x \<notin> K) (slaves m)" by (intro map_idI) auto
    finally show ?thesis .
  qed
  have m': "m' = m2\<lparr>slaves := filter (\<lambda>x. cid x \<notin> K) (slaves m)\<rparr>" unfolding m'_def w nw by simp
  show st: "same_store m m'" and "rdb_child m' = rdb_child m"
    using assms(3,5) by (simp_all add: m' same_store_def)
  show sl: "slaves m' = filter (\<lambda>x. cid x \<notin> K) (slaves m)" by (simp add: m')
  from kicked [OF assms(1) st sl] show "core_inv sn m'" "evolves m m'" using assms(4) by (simp_all add: m')
qed

lemma setup_waiting_ok:
  assumes "core_inv (Some (dataset m)) m" "master_repl_offset m < 2 ^ 62"
  shows "core_inv (Some (dataset m)) (setup_waiting m)" "evolves m (setup_waiting m)" "same_store m (setup_waiting m)"
    "rdb_child (setup_waiting m) = rdb_child m" "slaves (setup_waiting m) = map (set_up m) (slaves m)"
proof -
  have d: "distinct (map cid (slaves m))" using assms(1) by (simp add: core_inv_def)
  note s = setup_fold [OF assms(1) order_refl d assms(2), folded setup_waiting_def]
  show "core_inv (Some (dataset m)) (setup_waiting m)" "evolves m (setup_waiting m)" "same_store m (setup_waiting m)"
    "rdb_child (setup_waiting m) = rdb_child m" using s by blast+
  have "slaves (setup_waiting m) = map (\<lambda>x. if cid x \<in> cid ` set (slaves m) then set_up m x else x) (slaves m)"
    using s by blast
  also have "\<dots> = map (set_up m) (slaves m)" by (intro map_cong) auto
  finally show "slaves (setup_waiting m) = map (set_up m) (slaves m)" .
qed

lemma set_up_simps [simp]: "cid (set_up m x) = cid x" "out (set_up m x) = out x" "replstate (set_up m x) \<noteq> WAIT_BGSAVE_START"
  by (simp_all add: set_up_def)

lemma startBgsave_ok:
  assumes "core_inv None m" "rdb_child m = NoChild" "master_repl_offset m < 2 ^ 62"
    "startBgsaveForReplication fork_ok mincapa m = (b, m')"
  shows "core_inv (child_snap (rdb_child m')) m' \<and> evolves m m' \<and> same_store m m' \<and>
    (\<exists>P. map cid (slaves m') = map cid (filter P (slaves m)) \<and> (b \<longrightarrow> P = (\<lambda>x. True)) \<and>
       (\<not> b \<longrightarrow> (\<forall>x \<in> set (slaves m). replstate x = WAIT_BGSAVE_START \<longrightarrow> \<not> P x)))"
proof -
  let ?D = "dataset m"
  have D: "core_inv (Some ?D) m" by (rule core_inv_None [OF assms(1)])
  have d: "distinct (map cid (slaves m))" using D by (simp add: core_inv_def)
  let ?K = "cid ` set (filter (\<lambda>x. replstate x = WAIT_BGSAVE_START) (slaves m))"
  have K: "cid x \<in> ?K \<longleftrightarrow> replstate x = WAIT_BGSAVE_START" if "x \<in> set (slaves m)" for x
    using slave_unique [OF d that] that by auto
  have o: "out x = []" if "x \<in> set (slaves m)" "replstate x = WAIT_BGSAVE_START" for x
    using assms(1) that by (fastforce simp: core_inv_def slave_inv_def)
  note su = setup_waiting_ok [OF D assms(3)]
  show ?thesis
  proof (cases "repl_diskless_sync m \<and> mincapa")
    case True
    show ?thesis
    proof (cases fork_ok)
      case t: True
      have m': "m' = (setup_waiting m)\<lparr>rdb_child := SocketChild (dataset (setup_waiting m))\<rparr>" "b"
        using assms(2,4) True t by (auto simp: startBgsaveForReplication_def rdbSaveToSlavesSockets_def Let_def)
      have ds: "dataset (setup_waiting m) = ?D" using su(3) by (simp add: same_store_def)
      note cc = child_change [OF su(1), of "SocketChild ?D"]
      have "evolves m m'" "same_store m m'"
        using evolves_trans [OF su(2) cc(2)] same_store_trans [OF su(3) cc(3)] by (simp_all add: m' ds)
      with cc(1) su(5) show ?thesis by (auto simp: m' ds comp_def intro!: exI [of _ "\<lambda>x. True"])
    next
      case f: False
      let ?m1 = "setup_waiting m"
      let ?m2 = "?m1\<lparr>slaves := map (\<lambda>x. if cid x \<in> ?K then x\<lparr>replstate := WAIT_BGSAVE_START\<rparr> else x) (slaves ?m1)\<rparr>"
      have m': "m' = fold (\<lambda>x. write_sock (cid x) (map MByte (out x) @ [MLine bgsave_failed_line]))
             (filter (\<lambda>x. replstate x = WAIT_BGSAVE_START \<and> out x \<noteq> []) (slaves ?m2))
             (?m2\<lparr>slaves := filter (\<lambda>x. replstate x \<noteq> WAIT_BGSAVE_START) (slaves ?m2)\<rparr>)" "\<not> b"
        using assms(2,4) True f by (auto simp: startBgsaveForReplication_def rdbSaveToSlavesSockets_def Let_def)
      have a: "\<forall>x \<in> set (slaves ?m1). cid x \<in> ?K \<longrightarrow> out x = []"
        unfolding su(5) using K o by auto
      have nw: "\<forall>x \<in> set (slaves ?m1). cid x \<notin> ?K \<longrightarrow> replstate x \<noteq> WAIT_BGSAVE_START"
        unfolding su(5) by auto
      have p: "slaves ?m2 = map (\<lambda>x. if cid x \<in> ?K then x\<lparr>replstate := WAIT_BGSAVE_START\<rparr> else x) (slaves ?m1)"
        "same_store ?m1 ?m2" "sock ?m2 = sock ?m1" "rdb_child ?m2 = rdb_child ?m1" by (simp_all add: same_store_def)
      have kw: "core_inv (Some ?D) m'" "evolves ?m1 m'" "same_store ?m1 m'" "rdb_child m' = rdb_child ?m1"
        "slaves m' = filter (\<lambda>x. cid x \<notin> ?K) (slaves ?m1)"
        by (rule kick_waiting [OF su(1) p a nw, of bgsave_failed_line, folded m'(1)])+
      have ch: "rdb_child m' = NoChild" using kw(4) su(4) assms(2) by simp
      have "replstate x \<noteq> WAIT_BGSAVE_END" if x: "x \<in> set (slaves m')" for x
      proof -
        obtain y where y: "y \<in> set (slaves m)" "x = set_up m y" "cid y \<notin> ?K" using x unfolding kw(5) su(5) by auto
        then show ?thesis using K core_inv_None_iff [OF assms(1)] by (auto simp: set_up_def)
      qed
      then have "core_inv None m'" using core_inv_no_save [OF kw(1)] by blast
      moreover have "map cid (slaves m') = map cid (filter (\<lambda>x. cid x \<notin> ?K) (slaves m))"
        unfolding kw(5) su(5) by (simp add: filter_map comp_def)
      moreover have "evolves m m'" "same_store m m'"
        using evolves_trans [OF su(2) kw(2)] same_store_trans [OF su(3) kw(3)] .
      ultimately show ?thesis
        using ch m'(2) K by (intro conjI exI [of _ "\<lambda>x. cid x \<notin> ?K"]) auto
    qed
  next
    case False
    show ?thesis
    proof (cases fork_ok)
      case True
      let ?m1 = "m\<lparr>rdb_child := DiskChild ?D\<rparr>"
      have m': "m' = setup_waiting ?m1" "b"
        using assms(2,4) True False by (auto simp: startBgsaveForReplication_def rdbSaveBackground_def Let_def)
      note cc = child_change [OF D, of "DiskChild ?D"]
      have i: "core_inv (Some (dataset ?m1)) ?m1" using cc(1) by simp
      have b: "master_repl_offset ?m1 < 2 ^ 62" using assms(3) by simp
      note su = setup_waiting_ok [OF i b]
      show ?thesis
        using su m' evolves_trans [OF cc(2) su(2)] same_store_trans [OF cc(3) su(3)]
        by (auto simp: comp_def intro!: exI [of _ "\<lambda>x. True"])
    next
      case f: False
      have m': "m' = fold (\<lambda>x. write_sock (cid x) (map MByte (out x) @ [MLine bgsave_failed_line]))
             (filter (\<lambda>x. replstate x = WAIT_BGSAVE_START \<and> out x \<noteq> []) (slaves m))
             (m\<lparr>slaves := filter (\<lambda>x. replstate x \<noteq> WAIT_BGSAVE_START) (slaves m)\<rparr>)" "\<not> b"
        using assms(4) False f by (auto simp: startBgsaveForReplication_def rdbSaveBackground_def Let_def)
      have sl: "slaves m = map (\<lambda>x. if cid x \<in> ?K then x\<lparr>replstate := WAIT_BGSAVE_START\<rparr> else x) (slaves m)"
        using K by (intro map_idI [symmetric]) auto
      have "\<forall>x \<in> set (slaves m). cid x \<in> ?K \<longrightarrow> out x = []"
        "\<forall>x \<in> set (slaves m). cid x \<notin> ?K \<longrightarrow> replstate x \<noteq> WAIT_BGSAVE_START" using K o by auto
      note kw = kick_waiting [OF assms(1) sl same_store_refl refl refl this, of bgsave_failed_line, folded m'(1)]
      from kw m'(2) assms(2) K show ?thesis by (intro conjI exI [of _ "\<lambda>x. cid x \<notin> ?K"]) auto
    qed
  qed
qed

lemma cids_map_filter:
  assumes "\<And>x y. f x = Some y \<Longrightarrow> cid y = cid x"
  shows "map cid (List.map_filter f xs) = map cid (filter (\<lambda>x. f x \<noteq> None) xs)"
  using assms by (induction xs) (auto simp: List.map_filter_def)

lemma in_map_filter: "y \<in> set (List.map_filter f xs) \<longleftrightarrow> (\<exists>x \<in> set xs. f x = Some y)"
  by (force simp: List.map_filter_def)

text \<open>The list of replicas is worked through when a save has ended.\<close>

lemma bgsave_done_cid: "bgsave_done_slave ok to_socket D copied x = Some y \<Longrightarrow> cid y = cid x"
  by (auto simp: bgsave_done_slave_def split: if_splits)

lemma disk_done:
  fixes ok :: bool and copied :: "nat \<Rightarrow> bool"
  assumes "core_inv (Some D) m"
  defines "m' \<equiv> m\<lparr>slaves := List.map_filter (bgsave_done_slave ok False D copied) (slaves m)\<rparr>"
  shows "core_inv None m'" "evolves m m'" "same_store m m'"
proof -
  let ?f = "bgsave_done_slave ok False D copied"
  have sl: "slaves m' = List.map_filter ?f (slaves m)" by (simp add: m'_def)
  show st: "same_store m m'" by (simp add: m'_def same_store_def)
  note s = same_storeD [OF st]
  have mc: "map cid (List.map_filter ?f xs) = map cid (filter (\<lambda>x. ?f x \<noteq> None) xs)" for xs
    by (rule cids_map_filter) (rule bgsave_done_cid)
  have "distinct (map cid (slaves m'))"
    unfolding sl mc using assms(1) by (simp add: core_inv_def distinct_map_filter)
  moreover have "slave_inv None m y" if "y \<in> set (slaves m')" for y
  proof -
    obtain x where x: "x \<in> set (slaves m)" "?f x = Some y" using \<open>y \<in> set (slaves m')\<close> unfolding sl in_map_filter by blast
    then have "slave_inv (Some D) m x" using assms(1) by (simp add: core_inv_def)
    with x(2) show ?thesis by (auto simp: bgsave_done_slave_def slave_inv_def split: if_splits replstate.splits)
  qed
  ultimately show "core_inv None m'" by (rule core_inv_same [OF assms(1) st])
  show "evolves m m'"
  proof (rule quiet_evolves [OF s(7)])
    fix y f assume "y \<in> set (slaves m')"
    then obtain x where x: "x \<in> set (slaves m)" "?f x = Some y" unfolding sl in_map_filter by blast
    then have "linked m x f \<longrightarrow> linked m' y f"
      by (auto simp: s bgsave_done_slave_def linked_def split: if_splits)
    with x bgsave_done_cid show "\<exists>x \<in> set (slaves m). cid x = cid y \<and> (linked m x f \<longrightarrow> linked m' y f)" by metis
  qed (simp add: m'_def)
qed

lemma receive_dump:
  assumes "rphase f = R_TRANSFER" "okay m used f" "repl_master_runid f = runid m" "repl_master_initial_offset f = off"
    "cached_master f = None" "exact m off D p" "repl_backlog m \<noteq> None" "runid m \<in> set used"
  shows "okay m used (receive (MDump D) f) \<and> rphase (receive (MDump D) f) = R_CONNECTED \<and>
    cached_master (receive (MDump D) f) = None \<and> rmaster (receive (MDump D) f) = Some (runid m, off) \<and>
    rdata (receive (MDump D) f) = D"
  using assms exact_now [OF assms(6,7)] by (simp add: okay_def)

lemma socket_done:
  fixes ok :: bool and copied sent_ok :: "nat \<Rightarrow> bool"
  assumes "core_inv (Some D) m" "slaves m \<noteq> [] \<longrightarrow> repl_backlog m \<noteq> None"
  defines "m1 \<equiv> socket_child_sent D sent_ok m"
  defines "m' \<equiv> m1\<lparr>slaves := List.map_filter (bgsave_done_slave ok True D copied) (slaves m1)\<rparr>"
  shows "core_inv None m'" "evolves m m'" "same_store m m'"
proof -
  let ?f = "bgsave_done_slave ok True D copied"
  let ?P = "\<lambda>x. replstate x = WAIT_BGSAVE_END \<longrightarrow> sent_ok (cid x)"
  let ?S = "\<lambda>c. \<exists>x \<in> set (slaves m). cid x = c \<and> replstate x = WAIT_BGSAVE_END \<and> sent_ok c"
  have sl: "slaves m' = List.map_filter ?f (filter ?P (slaves m))" by (simp add: m'_def m1_def socket_child_sent_def)
  have so: "sock m' = (\<lambda>c. sock m c @ (if ?S c then [MDump D] else []))" by (simp add: m'_def m1_def socket_child_sent_def)
  have d: "distinct (map cid (slaves m))" using assms(1) by (simp add: core_inv_def)
  show st: "same_store m m'" by (simp add: m'_def m1_def same_store_def socket_child_sent_def)
  note s = same_storeD [OF st]
  have mem: "\<exists>x \<in> set (slaves m). cid y = cid x \<and> ?P x \<and>
      y = (if replstate x = WAIT_BGSAVE_END then x\<lparr>replstate := REPL_ONLINE, put_online_on_ack := True\<rparr> else x)"
    if "y \<in> set (slaves m')" for y
    using that unfolding sl in_map_filter by (force simp: bgsave_done_slave_def split: if_splits)
  have mc: "map cid (List.map_filter ?f xs) = map cid (filter (\<lambda>x. ?f x \<noteq> None) xs)" for xs
    by (rule cids_map_filter) (rule bgsave_done_cid)
  have dm: "distinct (map cid (slaves m'))"
    unfolding sl mc using d by (simp add: distinct_map_filter)
  have sv: "slave_inv None m y" if "y \<in> set (slaves m')" for y
    using mem [OF that] assms(1) by (fastforce simp: core_inv_def slave_inv_def split: replstate.splits if_splits)
  show "core_inv None m'" by (rule core_inv_same [OF assms(1) st dm sv])
  have "serves m m' c (if ?S c then [MDump D] else [])" for c
  proof (cases "?S c")
    case False
    then have "linked m y f" if "y \<in> set (slaves m')" "cid y = c" "\<forall>x \<in> set (slaves m). cid x = c \<longrightarrow> linked m x f" for y f
      using mem [OF that(1)] that by (auto split: if_splits)
    with False show ?thesis by (auto simp: serves_def conn_fin_def s)
  next
    case True
    then obtain x where x: "x \<in> set (slaves m)" "cid x = c" "replstate x = WAIT_BGSAVE_END" by blast
    have b: "repl_backlog m \<noteq> None" using assms(2) x(1) by auto
    have "slave_inv (Some D) m x" using assms(1) x(1) by (simp add: core_inv_def)
    then have e: "exact m (psync_initial_offset x) D (out x)" using x(3) by (simp add: slave_inv_def)
    have y: "y = x\<lparr>replstate := REPL_ONLINE, put_online_on_ack := True\<rparr>" if "y \<in> set (slaves m')" "cid y = c" for y
      using mem [OF that(1)] slave_unique [OF d _ x(1)] x(2,3) that(2) by auto
    have "(\<forall>k. okay m used (fold receive (take k [MDump D]) f)) \<and>
        (\<forall>y \<in> set (slaves m'). cid y = c \<longrightarrow> linked m y (fold receive [MDump D] f))"
      if u: "runid m \<in> set used" and f: "conn_fin m used c f" for used f
    proof -
      have l: "linked m x f" and o: "okay m used f" using f x by (simp_all add: conn_fin_def)
      then have "rphase f = R_TRANSFER" "repl_master_runid f = runid m" "cached_master f = None"
        "repl_master_initial_offset f = psync_initial_offset x" using x(3) by (simp_all add: linked_def)
      note r = receive_dump [OF this(1) o this(2,4,3) e b u]
      then have "linked m (x\<lparr>replstate := REPL_ONLINE, put_online_on_ack := True\<rparr>) (receive (MDump D) f)"
        using e by (simp add: linked_def del: receive.simps)
      then have "linked m y (receive (MDump D) f)" if "y \<in> set (slaves m')" "cid y = c" for y
        using y [OF that] by simp
      with r o show ?thesis by (simp add: take_Cons' del: receive.simps)
    qed
    with True show ?thesis by (simp add: serves_def s)
  qed
  moreover have "cids m' \<subseteq> cids m" unfolding cids_def using mem by force
  moreover have "?S c \<Longrightarrow> c \<in> cids m" for c by (auto simp: cids_def)
  moreover have "\<exists>ms. sock m' c = sock m c @ ms \<and> (c \<notin> cids m \<longrightarrow> ms = []) \<and> serves m m' c ms" for c
    using calculation(1) [of c] calculation(3) [of c]
    by (intro exI [of _ "if ?S c then [MDump D] else []"]) (simp add: so)
  ultimately show "evolves m m'" using s(7) unfolding evolves_def by blast
qed

lemma start_if_waiting:
  assumes "core_inv None m" "rdb_child m = NoChild" "master_repl_offset m < 2 ^ 62" "slaves m \<noteq> [] \<longrightarrow> repl_backlog m \<noteq> None"
    "m' = (if w then m else snd (startBgsaveForReplication fork_ok mincapa m))"
  shows "master_inv m'" "evolves m m'"
proof -
  obtain b m1 where s: "startBgsaveForReplication fork_ok mincapa m = (b, m1)" by fastforce
  note st = startBgsave_ok [OF assms(1-3) s]
  have "slaves m1 \<noteq> [] \<longrightarrow> repl_backlog m1 \<noteq> None"
    using st assms(4) by (auto simp: same_store_def)
  with st assms s show "master_inv m'" "evolves m m'" by (auto simp: master_inv_def)
qed

lemma backgroundSaveDone_ok:
  fixes ok fork_ok :: bool and sent_ok :: "nat \<Rightarrow> bool"
  assumes "master_inv m" "master_repl_offset m < 2 ^ 62"
  defines "m' \<equiv> backgroundSaveDoneHandler ok sent_ok fork_ok m"
  shows "master_inv m'" "evolves m m'"
proof -
  have ci: "core_inv (child_snap (rdb_child m)) m" and b: "slaves m \<noteq> [] \<longrightarrow> repl_backlog m \<noteq> None"
    using assms(1) by (simp_all add: master_inv_def)
  have "master_inv m' \<and> evolves m m'"
  proof (cases "rdb_child m")
    case NoChild
    then show ?thesis using assms(1) by (simp add: m'_def backgroundSaveDoneHandler_def)
  next
    case (DiskChild D)
    let ?m1 = "m\<lparr>rdb_child := NoChild\<rparr>"
    have ci': "core_inv (Some D) m" using ci DiskChild by simp
    note cc = child_change [OF ci', of NoChild]
    note dd = disk_done [OF cc(1), of ok sent_ok]
    let ?m2 = "?m1\<lparr>slaves := List.map_filter (bgsave_done_slave ok False D sent_ok) (slaves ?m1)\<rparr>"
    let ?w = "filter (\<lambda>x. replstate x = WAIT_BGSAVE_START) (slaves m)"
    have m': "m' = (if ?w = [] then ?m2 else snd (startBgsaveForReplication fork_ok (list_all capa_eof ?w) ?m2))"
      using DiskChild by (simp add: m'_def backgroundSaveDoneHandler_def updateSlavesWaitingBgsave_def Let_def)
    have b2: "slaves ?m2 \<noteq> [] \<longrightarrow> repl_backlog ?m2 \<noteq> None" using b by (auto simp: List.map_filter_simps)
    from start_if_waiting [OF dd(1) _ _ b2 m'] assms(2) evolves_trans [OF cc(2) dd(2)] show ?thesis
      by (auto intro: evolves_trans)
  next
    case (SocketChild D)
    let ?m1 = "m\<lparr>rdb_child := NoChild\<rparr>"
    have ci': "core_inv (Some D) m" using ci SocketChild by simp
    note cc = child_change [OF ci', of NoChild]
    have b1: "slaves ?m1 \<noteq> [] \<longrightarrow> repl_backlog ?m1 \<noteq> None" using b by simp
    let ?s = "\<lambda>c. ok \<and> sent_ok c"
    note dd = socket_done [OF cc(1) b1, where sent_ok = ?s and ok = ok and copied = sent_ok]
    let ?m2 = "socket_child_sent D ?s ?m1"
    let ?m3 = "?m2\<lparr>slaves := List.map_filter (bgsave_done_slave ok True D sent_ok) (slaves ?m2)\<rparr>"
    let ?w = "filter (\<lambda>x. replstate x = WAIT_BGSAVE_START) (slaves ?m2)"
    have m': "m' = (if ?w = [] then ?m3 else snd (startBgsaveForReplication fork_ok (list_all capa_eof ?w) ?m3))"
      using SocketChild by (simp add: m'_def backgroundSaveDoneHandler_def updateSlavesWaitingBgsave_def Let_def)
    have b3: "slaves ?m3 \<noteq> [] \<longrightarrow> repl_backlog ?m3 \<noteq> None" "rdb_child ?m3 = NoChild" "master_repl_offset ?m3 < 2 ^ 62"
      using b assms(2) by (auto simp: List.map_filter_simps socket_child_sent_def)
    from start_if_waiting [OF dd(1) b3(2,3,1) m'] evolves_trans [OF cc(2) dd(2)] show ?thesis
      by (auto intro: evolves_trans)
  qed
  then show "master_inv m'" "evolves m m'" by simp_all
qed

subsection \<open>Other steps of the master\<close>

text \<open>Steps that leave the child and the backlog alone.\<close>

lemma master_inv_step:
  assumes "master_inv m" "core_inv (child_snap (rdb_child m)) m'" "same_store m m'" "rdb_child m' = rdb_child m"
    "slaves m = [] \<Longrightarrow> slaves m' = []"
  shows "master_inv m'"
  using assms by (auto simp: master_inv_def same_store_def)

lemma slaves_backlog: "master_inv m \<Longrightarrow> x \<in> set (slaves m) \<Longrightarrow> repl_backlog m \<noteq> None"
  by (auto simp: master_inv_def)

lemma sendBulk_ok:
  assumes "master_inv m" "x \<in> set (slaves m)" "replstate x = SEND_BULK"
  shows "master_inv (sendBulkToSlaveDone x m)" "evolves m (sendBulkToSlaveDone x m)"
proof -
  let ?m' = "sendBulkToSlaveDone x m" and ?g = "\<lambda>x. x\<lparr>replstate := REPL_ONLINE, put_online_on_ack := False\<rparr>"
  let ?ms = "[MDump (rdbfile x)]"
  have ci: "core_inv (child_snap (rdb_child m)) m" using assms(1) by (simp add: master_inv_def)
  have b: "repl_backlog m \<noteq> None" by (rule slaves_backlog [OF assms(1,2)])
  have st: "same_store m ?m'" "slaves ?m' = map (\<lambda>y. if cid y = cid x then ?g y else y) (slaves m)"
    "sock ?m' = (sock m)(cid x := sock m (cid x) @ ?ms)" "rdb_child ?m' = rdb_child m"
    by (simp_all add: sendBulkToSlaveDone_def putSlaveOnline_def update_slave_def write_sock_def same_store_def)
  have "slave_inv (child_snap (rdb_child m)) m x" using ci assms(2) by (simp add: core_inv_def)
  then have e: "exact m (psync_initial_offset x) (rdbfile x) (out x)" using assms(3) by (simp add: slave_inv_def)
  have g: "cid (?g y) = cid y" for y by simp
  have sv: "slave_inv (child_snap (rdb_child m)) m (?g x)"
    using ci assms(2) by (auto simp: core_inv_def slave_inv_def)
  have li: "(\<forall>k. okay m used (fold receive (take k ?ms) f)) \<and> linked m (?g x) (fold receive ?ms f)"
    if u: "runid m \<in> set used" and o: "okay m used f" and l: "linked m x f" for used f
  proof -
    have "rphase f = R_TRANSFER" "repl_master_runid f = runid m" "cached_master f = None"
      "repl_master_initial_offset f = psync_initial_offset x" using l assms(3) by (simp_all add: linked_def)
    from receive_dump [OF this(1) o this(2,4,3) e b u] o e show ?thesis
      by (simp add: take_Cons' linked_def del: receive.simps)
  qed
  note ss = slave_step [OF ci st(1) assms(2) st(2,3) g sv li]
  then show "evolves m ?m'" by blast
  show "master_inv ?m'" by (rule master_inv_step [OF assms(1) ss(1) st(1,4)]) (simp_all add: st(2))
qed

lemma receive_bytes:
  "rphase f = R_CONNECTED \<Longrightarrow> rmaster f = Some (rid, off) \<Longrightarrow>
   fold receive (map MByte p) f = f\<lparr>rmaster := Some (rid, off + int (length p)), rdata := rdata f @ map Sent p\<rparr>"
  by (induction p arbitrary: f off) (auto simp: ac_simps)

lemma send_output_ok:
  assumes "master_inv m" "x \<in> set (slaves m)" "replstate x = REPL_ONLINE"
  shows "master_inv (send_output x n m)" "evolves m (send_output x n m)"
proof -
  let ?m' = "send_output x n m" and ?g = "\<lambda>y. y\<lparr>out := drop n (out y)\<rparr>"
  let ?ms = "map MByte (take n (out x))"
  have ci: "core_inv (child_snap (rdb_child m)) m" using assms(1) by (simp add: master_inv_def)
  have b: "repl_backlog m \<noteq> None" by (rule slaves_backlog [OF assms(1,2)])
  have st: "same_store m ?m'" "slaves ?m' = map (\<lambda>y. if cid y = cid x then ?g y else y) (slaves m)"
    "sock ?m' = (sock m)(cid x := sock m (cid x) @ ?ms)" "rdb_child ?m' = rdb_child m"
    by (simp_all add: send_output_def update_slave_def write_sock_def same_store_def)
  have g: "cid (?g y) = cid y" for y by simp
  have sv: "slave_inv (child_snap (rdb_child m)) m (?g x)"
    using ci assms(2,3) by (auto simp: core_inv_def slave_inv_def)
  have li: "(\<forall>k. okay m used (fold receive (take k ?ms) f)) \<and> linked m (?g x) (fold receive ?ms f)"
    if u: "runid m \<in> set used" and o: "okay m used f" and l: "linked m x f" for used f
  proof -
    obtain off where f: "rphase f = R_CONNECTED" "cached_master f = None" "rmaster f = Some (runid m, off)"
      "exact m off (rdata f) (out x)" using l assms(3) by (auto simp: linked_def)
    have tk: "take k ?ms = map MByte (take (min k n) (out x))" for k by (simp add: take_map)
    have "okay m used (fold receive (take k ?ms) f)" for k
      unfolding tk receive_bytes [OF f(1,3)] using exact_good [OF f(4) b] u f(2) by (auto simp: okay_def)
    moreover have "exact m (off + int (length (take n (out x)))) (rdata f @ map Sent (take n (out x))) (drop n (out x))"
      using f(4) by (auto simp: exact_def min_def map_append [symmetric] simp del: map_append)
    then have "linked m (?g x) (fold receive ?ms f)"
      unfolding receive_bytes [OF f(1,3)] using f assms(3) by (simp add: linked_def)
    ultimately show ?thesis by blast
  qed
  note ss = slave_step [OF ci st(1) assms(2) st(2,3) g sv li]
  then show "evolves m ?m'" by blast
  show "master_inv ?m'" by (rule master_inv_step [OF assms(1) ss(1) st(1,4)]) (simp_all add: st(2))
qed

lemma replconfAck_ok:
  assumes "master_inv m" "x \<in> set (slaves m)"
  shows "master_inv (replconfAck x off m)" "evolves m (replconfAck x off m)"
proof -
  let ?m' = "replconfAck x off m"
  let ?a = "\<lambda>y. if off > ack_off y then y\<lparr>ack_off := off\<rparr> else y"
  let ?g = "\<lambda>y. if put_online_on_ack x \<and> replstate x = REPL_ONLINE
                then (?a y)\<lparr>replstate := REPL_ONLINE, put_online_on_ack := False\<rparr> else ?a y"
  have ci: "core_inv (child_snap (rdb_child m)) m" using assms(1) by (simp add: master_inv_def)
  have st: "same_store m ?m'" "slaves ?m' = map (\<lambda>y. if cid y = cid x then ?g y else y) (slaves m)"
    "sock ?m' = (sock m)(cid x := sock m (cid x) @ [])" "rdb_child ?m' = rdb_child m"
    by (auto simp: replconfAck_def putSlaveOnline_def update_slave_def same_store_def Let_def)
  have g: "cid (?g y) = cid y" for y by simp
  have "slave_inv (child_snap (rdb_child m)) m x" using ci assms(2) by (simp add: core_inv_def)
  then have sv: "slave_inv (child_snap (rdb_child m)) m (?g x)"
    by (auto simp: slave_inv_def cong: replstate.case_cong)
  have li: "(\<forall>k. okay m used (fold receive (take k []) f)) \<and> linked m (?g x) (fold receive [] f)"
    if u: "runid m \<in> set used" and o: "okay m used f" and l: "linked m x f" for used f
    using o l by (auto simp: linked_def cong: replstate.case_cong)
  note ss = slave_step [OF ci st(1) assms(2) st(2,3) g sv li]
  then show "evolves m ?m'" by blast
  show "master_inv ?m'" by (rule master_inv_step [OF assms(1) ss(1) st(1,4)]) (simp_all add: st(2))
qed

lemma repl_free_client_ok:
  assumes "master_inv m"
  shows "master_inv (repl_free_client c m)" "evolves m (repl_free_client c m)"
proof -
  let ?m' = "repl_free_client c m"
  have ci: "core_inv (child_snap (rdb_child m)) m" using assms(1) by (simp add: master_inv_def)
  have st: "same_store m ?m'" "slaves ?m' = filter (\<lambda>y. cid y \<noteq> c) (slaves m)"
    "sock ?m' = (sock m)(c := sock m c @ [])" "rdb_child ?m' = rdb_child m"
    by (simp_all add: repl_free_client_def same_store_def)
  note ss = slave_removed [OF ci st(1-3)]
  show "evolves m ?m'" by (rule ss(2)) simp_all
  have "core_inv (child_snap (rdb_child m)) ?m'" by (rule ss(1)) simp_all
  then show "master_inv ?m'" by (rule master_inv_step [OF assms(1) _ st(1,4)]) (simp_all add: st(2))
qed

text \<open>Without replicas nothing is linked.\<close>

lemma alone_evolves:
  assumes "keeps_good m m'" "sock m' = sock m" "slaves m' = []"
  shows "evolves m m'"
  using assms by (intro quiet_evolves) simp_all

lemma freeReplicationBacklog_ok:
  assumes "master_inv m" "slaves m = []"
  shows "master_inv (freeReplicationBacklog m)" "evolves m (freeReplicationBacklog m)"
proof -
  let ?m' = "freeReplicationBacklog m"
  have f: "?m' = m\<lparr>repl_backlog := None\<rparr>" using assms(2) by (simp add: freeReplicationBacklog_def replAssert_def)
  have "good ?m' off D" if "good m off D" for off D
    by (rule good_lost [OF that, of _ "[]"]) (simp_all add: f)
  then have "keeps_good m ?m'" by (simp add: keeps_good_def f)
  then show "evolves m ?m'" by (rule alone_evolves) (simp_all add: f assms(2))
  show "master_inv ?m'" using assms by (simp add: f master_inv_def core_inv_def)
qed

lemma ring_fresh: "0 < N \<Longrightarrow> ring N (replicate N 0) []"
  by (simp add: ring_def)

lemma holds_fresh:
  assumes "0 < repl_backlog_size m" "repl_backlog m = Some (replicate (nat (repl_backlog_size m)) 0)"
    "repl_backlog_histlen m = 0" "repl_backlog_idx m = 0" "repl_backlog_off m = master_repl_offset m + 1"
  shows "holds m []"
  using assms ring_fresh [of "nat (repl_backlog_size m)"]
  unfolding holds_def by (intro exI [of _ "replicate (nat (repl_backlog_size m)) 0"] exI [of _ "nat (repl_backlog_size m)"]) simp

lemma slave_inv_exact: "exact m' = exact m \<Longrightarrow> slave_inv sn m' = slave_inv sn m"
  by (simp add: slave_inv_def fun_eq_iff split: replstate.split)

lemma linked_exact: "exact m' = exact m \<Longrightarrow> runid m' = runid m \<Longrightarrow> linked m' = linked m"
  by (simp add: linked_def fun_eq_iff split: replstate.split)

lemma createReplicationBacklog_ok:
  assumes "core_inv sn m" "repl_backlog m = None"
  shows "core_inv sn (createReplicationBacklog m)" "evolves m (createReplicationBacklog m)"
    "repl_backlog (createReplicationBacklog m) \<noteq> None" "rdb_child (createReplicationBacklog m) = rdb_child m"
    "slaves (createReplicationBacklog m) = slaves m" "runid (createReplicationBacklog m) = runid m"
proof -
  let ?m' = "createReplicationBacklog m"
  have sz: "0 < repl_backlog_size m" using assms(1) by (simp add: core_inv_def)
  have f: "?m' = m\<lparr>repl_backlog := Some (replicate (nat (repl_backlog_size m)) 0), repl_backlog_histlen := 0,
      repl_backlog_idx := 0, master_repl_offset := master_repl_offset m + 1,
      repl_backlog_off := master_repl_offset m + 2\<rparr>"
    using assms(2) by (simp add: createReplicationBacklog_def replAssert_def Let_def)
  have h: "holds ?m' []" using sz by (intro holds_fresh) (simp_all add: f)
  have e: "exact ?m' = exact m" using assms(2) by (auto simp: exact_def getPsyncInitialOffset_def f fun_eq_iff)
  have r: "runid ?m' = runid m" by (simp add: f)
  have "dataset ?m' = dataset m @ map Sent []" by (simp add: f)
  with h assms(1) show "core_inv sn ?m'"
    unfolding core_inv_def slave_inv_exact [OF e] by (auto simp: f)
  have "good ?m' off D" if "good m off D" for off D
    by (rule good_restart [OF that]) (simp_all add: f)
  then have "keeps_good m ?m'" by (simp add: keeps_good_def f)
  then show "evolves m ?m'" by (rule quiet_evolves) (auto simp: linked_exact [OF e r], auto simp: f)
  show "repl_backlog ?m' \<noteq> None" "rdb_child ?m' = rdb_child m" "slaves ?m' = slaves m" "runid ?m' = runid m"
    by (simp_all add: f)
qed

lemma resizeReplicationBacklog_ok:
  assumes "master_inv m"
  shows "master_inv (resizeReplicationBacklog n m)" "evolves m (resizeReplicationBacklog n m)"
proof -
  let ?m' = "resizeReplicationBacklog n m"
  let ?n = "if n < REPL_BACKLOG_MIN_SIZE then REPL_BACKLOG_MIN_SIZE else n"
  have n: "0 < ?n" by (simp add: REPL_BACKLOG_MIN_SIZE_def)
  have "master_inv ?m' \<and> evolves m ?m'"
  proof (cases "repl_backlog_size m = ?n")
    case True
    then have "?m' = m" by (simp add: resizeReplicationBacklog_def Let_def)
    then show ?thesis using assms by simp
  next
    case c: False
    show ?thesis
    proof (cases "repl_backlog m")
      case None
      then have f: "?m' = m\<lparr>repl_backlog_size := ?n\<rparr>" using c by (simp add: resizeReplicationBacklog_def Let_def)
      have sl: "slaves m = []" using assms None by (auto simp: master_inv_def)
      have "good ?m' off D" if "good m off D" for off D by (rule good_same [OF that]) (simp_all add: f)
      then have "keeps_good m ?m'" by (simp add: keeps_good_def f)
      then have "evolves m ?m'" by (rule alone_evolves) (simp_all add: f sl)
      moreover have "master_inv ?m'" using assms None n sl by (simp add: f master_inv_def core_inv_def)
      ultimately show ?thesis by blast
    next
      case (Some buf)
      then have f: "?m' = m\<lparr>repl_backlog_size := ?n, repl_backlog := Some (replicate (nat ?n) 0), repl_backlog_histlen := 0,
          repl_backlog_idx := 0, repl_backlog_off := master_repl_offset m + 1\<rparr>"
        using c by (simp add: resizeReplicationBacklog_def Let_def)
      obtain s where s: "holds m s" using assms Some by (auto simp: master_inv_def core_inv_def)
      have h: "holds ?m' []" using n by (intro holds_fresh) (simp_all add: f)
      have e: "exact ?m' = exact m" using Some by (auto simp: exact_def getPsyncInitialOffset_def f fun_eq_iff)
      have r: "runid ?m' = runid m" by (simp add: f)
      have "good ?m' off D" if "good m off D" for off D
        using holds_off [OF s] Some by (intro good_same [OF that]) (simp_all add: f)
      then have "keeps_good m ?m'" by (simp add: keeps_good_def f)
      then have "evolves m ?m'" by (rule quiet_evolves) (auto simp: linked_exact [OF e r], auto simp: f)
      moreover have "dataset ?m' = dataset m @ map Sent []" "rdb_child ?m' = rdb_child m" "slaves ?m' = slaves m"
        "repl_backlog_size ?m' = ?n" "\<not> broken ?m' \<longleftrightarrow> \<not> broken m" "master_repl_offset ?m' = master_repl_offset m"
        "repl_backlog ?m' \<noteq> None" by (simp_all add: f)
      with h n assms have "master_inv ?m'"
        unfolding master_inv_def core_inv_def slave_inv_exact [OF e] r by auto
      ultimately show ?thesis by blast
    qed
  qed
  then show "master_inv ?m'" "evolves m ?m'" by simp_all
qed

lemma bgsave_ok:
  assumes "master_inv m"
  shows "master_inv (snd (rdbSaveBackground fork_ok m))" "evolves m (snd (rdbSaveBackground fork_ok m))"
proof -
  have ci: "core_inv (child_snap (rdb_child m)) m" using assms by (simp add: master_inv_def)
  have "master_inv (snd (rdbSaveBackground fork_ok m)) \<and> evolves m (snd (rdbSaveBackground fork_ok m))"
  proof (cases "rdb_child m \<noteq> NoChild \<or> \<not> fork_ok")
    case True
    then show ?thesis using assms by (simp add: rdbSaveBackground_def)
  next
    case False
    then have n: "core_inv (Some (dataset m)) m" using ci by (intro core_inv_None) simp
    have "snd (rdbSaveBackground fork_ok m) = m\<lparr>rdb_child := DiskChild (dataset m)\<rparr>"
      using False by (simp add: rdbSaveBackground_def)
    with child_change [OF n, of "DiskChild (dataset m)"] assms show ?thesis by (simp add: master_inv_def)
  qed
  then show "master_inv (snd (rdbSaveBackground fork_ok m))" "evolves m (snd (rdbSaveBackground fork_ok m))" by simp_all
qed

lemma feed_slave_simps [simp]: "cid (feed_slave bs x) = cid x" "replstate (feed_slave bs x) = replstate x"
  "psync_initial_offset (feed_slave bs x) = psync_initial_offset x" "rdbfile (feed_slave bs x) = rdbfile x" "pre_psync (feed_slave bs x) = pre_psync x"
  by (simp_all add: feed_slave_def)

lemma out_feed: "replstate x \<noteq> WAIT_BGSAVE_START \<Longrightarrow> out (feed_slave bs x) = out x @ bs"
  "replstate x = WAIT_BGSAVE_START \<Longrightarrow> feed_slave bs x = x"
  by (simp_all add: feed_slave_def)

lemma write_command_ok:
  assumes "master_inv m" "\<forall>a \<in> set args. repl_arg a" "length args < 2 ^ 62"
  shows "master_inv (write_command d args m)" "evolves m (write_command d args m)"
proof -
  let ?m' = "write_command d args m"
  have ci: "core_inv (child_snap (rdb_child m)) m" using assms(1) by (simp add: master_inv_def)
  have "master_inv ?m' \<and> evolves m ?m'"
  proof (cases "repl_backlog m = None")
    case True
    then have sl: "slaves m = []" using assms(1) by (auto simp: master_inv_def)
    then have f: "?m' = m\<lparr>dataset := dataset m @ [Unsent d (map obj_val args)]\<rparr>"
      using True by (simp add: write_command_def replicationFeedSlaves_def)
    have "good ?m' off D" if "good m off D" for off D
      using True by (intro good_lost [OF that]) (simp_all add: f)
    then have "keeps_good m ?m'" by (simp add: keeps_good_def f)
    then have "evolves m ?m'" by (rule alone_evolves) (simp_all add: f sl)
    moreover have "master_inv ?m'" using assms(1) True sl by (simp add: f master_inv_def core_inv_def)
    ultimately show ?thesis by blast
  next
    case False
    then obtain s D where s: "holds m s" "dataset m = D @ map Sent s" using ci by (auto simp: core_inv_def)
    let ?st = "stream_of d args m" and ?f = "replicationFeedSlaves d args m"
    note rf = replicationFeedSlaves_ok [OF s(1) assms(2,3), of d]
    have eq: "?m' = ?f\<lparr>dataset := dataset m @ map Sent ?st\<rparr>" using False by (auto simp: write_command_def)
    have h: "holds ?m' (s @ ?st)" using rf(1) by (simp add: eq holds_def)
    have fld: "dataset ?m' = dataset m @ map Sent ?st" "master_repl_offset ?m' = master_repl_offset m + int (length ?st)"
      "repl_backlog_size ?m' = repl_backlog_size m" "runid ?m' = runid m" "sock ?m' = sock m" "broken ?m' = broken m"
      "rdb_child ?m' = rdb_child m" "slaves ?m' = map (feed_slave ?st) (slaves m)"
      using rf by (simp_all add: eq same_rest_def)
    have b: "repl_backlog ?m' \<noteq> None" by (rule holds_backlog [OF h])
    have ex: "exact ?m' off D (p @ ?st)" if "exact m off D p" for off D p
      using that False b fld(1,2) by (simp add: exact_def getPsync_backlog)
    have "good ?m' off D" if "good m off D" for off D
      by (rule good_write [OF that s(1) h fld(1,2,3)])
    then have kg: "keeps_good m ?m'" by (simp add: keeps_good_def fld)
    have "\<exists>x \<in> set (slaves m). cid x = cid y \<and> (linked m x f \<longrightarrow> linked ?m' y f)" if "y \<in> set (slaves ?m')" for y f
    proof -
      obtain x where x: "x \<in> set (slaves m)" "y = feed_slave ?st x" using \<open>y \<in> set (slaves ?m')\<close> fld(8) by auto
      then have "linked m x f \<longrightarrow> linked ?m' y f"
        using ex by (auto simp: linked_def fld(4) out_feed split: replstate.splits)
      with x show ?thesis by auto
    qed
    then have "evolves m ?m'" by (intro quiet_evolves [OF kg fld(5)])
    moreover have "slave_inv sn ?m' (feed_slave ?st x)" if "slave_inv sn m x" for sn x
      using that ex by (auto simp: slave_inv_def out_feed split: replstate.splits)
    then have "core_inv (child_snap (rdb_child m)) ?m'"
      using ci h b fld s(2) unfolding core_inv_def by (auto simp: comp_def intro!: exI [of _ "s @ ?st"] exI [of _ D])
    then have "master_inv ?m'" using b fld(7) by (simp add: master_inv_def)
    ultimately show ?thesis by blast
  qed
  then show "master_inv ?m'" "evolves m ?m'" by simp_all
qed

subsection \<open>Requests for synchronisation\<close>

lemma tolower_hex: "48 \<le> b \<and> b \<le> 57 \<or> 97 \<le> b \<and> b \<le> 102 \<Longrightarrow> tolower_b b = b"
  by (auto simp: tolower_b_def word_le_nat_alt)

lemma same_runid:
  assumes "valid_runid a" "valid_runid b" "strcaseeq (cstr a) (cstr b)"
  shows "a = b"
proof -
  have c: "cstr r = r \<and> map tolower_b r = r" if "valid_runid r" for r
    using that valid_runid_bytes [OF that] by (auto simp: valid_runid_def tolower_hex intro!: cstr_id map_idI)
  with assms show ?thesis by (metis strcaseeq_def)
qed

lemma str_arg_ok:
  assumes "length b < 2 ^ 29"
  shows "key_of (str_arg b) = b" "obj_ok (str_arg b)" "obj_val (str_arg b) = b"
proof -
  have "length b < 2 ^ 32" using assms by simp
  then show o: "obj_ok (str_arg b)" "obj_val (str_arg b) = b"
    using createString_ok [of "length b" b] by (simp_all add: str_arg_def)
  have "sdsEncodedObject (str_arg b)" by (simp add: str_arg_def)
  with o show "key_of (str_arg b) = b"
    by (cases rule: obj_cases [OF o(1)]) (auto simp: key_of_def obj_val_def)
qed

lemma smod_nat: "0 < N \<Longrightarrow> int a smod int N = int (a mod N)"
  by (simp add: smod_int_alt_def zmod_int sgn_if)

text \<open>The answer of the backlog.\<close>

lemma backlog_serves:
  assumes "holds m s" "repl_backlog_off m \<le> off + 1" "off \<le> master_repl_offset m" "exact m off D p" "dataset m = D' @ map Sent s"
  shows "addReplyReplicationBacklog (off + 1) m = Some p"
proof -
  obtain buf N where b: "repl_backlog m = Some buf" "ring N buf s" "repl_backlog_size m = int N"
    "repl_backlog_idx m = int (length s mod N)" "repl_backlog_histlen m = int (min (length s) N)"
    "repl_backlog_off m = master_repl_offset m - int (min (length s) N) + 1"
    using assms(1) unfolding holds_def by blast
  let ?h = "min (length s) N"
  have N: "0 < N" using b(2) by (simp add: ring_def)
  have p: "D @ map Sent p = dataset m" "off + int (length p) = master_repl_offset m"
    using assms(4) b(1) by (simp_all add: exact_def getPsync_backlog)
  have lp: "length p \<le> ?h" using p(2) b(6) assms(2) by linarith
  define a where "a = length s - length p"
  have a: "a \<le> length s" "length s \<le> a + N" "length s - a = length p" using lp by (auto simp: a_def)
  have pd: "p = drop a s"
  proof -
    have "D @ map Sent p = D' @ map Sent s" using p(1) assms(5) by simp
    then have "drop (length (D @ map Sent p) - length p) (D @ map Sent p) = drop (length (D' @ map Sent s) - length p) (D' @ map Sent s)"
      by simp
    then have "map Sent p = map Sent (drop a s)" using lp by (simp add: a_def drop_map)
    then show ?thesis by (metis item.inject(1) list.inj_map_strong)
  qed
  show ?thesis
  proof (cases "?h = 0")
    case True
    then show ?thesis using lp by (simp add: addReplyReplicationBacklog_def b(5))
  next
    case False
    have hN: "?h \<le> N" "?h \<le> length s" by simp_all
    have skip: "off + 1 - repl_backlog_off m = int (?h - length p)" using p(2) b(6) lp by simp
    have "int (length s mod N) + (int N - int ?h) = int (length s mod N + (N - ?h))" using hN by simp
    then have j0: "(int (length s mod N) + (int N - int ?h)) smod int N = int ((length s + (N - ?h)) mod N)"
      by (simp only: smod_nat [OF N] mod_add_left_eq)
    have "(length s + (N - ?h) + (?h - length p)) mod N = (a + N) mod N"
    proof -
      have "length s + (N - ?h) + (?h - length p) = a + N" using lp hN by (simp add: a_def)
      then show ?thesis by simp
    qed
    then have j1: "((length s + (N - ?h)) mod N + (?h - length p)) mod N = a mod N" by (simp add: mod_add_left_eq)
    have j: "(int ((length s + (N - ?h)) mod N) + int (?h - length p)) smod int N = int (a mod N)"
      by (simp only: smod_nat [OF N] j1 flip: of_nat_add)
    have len: "int ?h - int (?h - length p) = int (length s - a)" using lp a(3) by simp
    have h0: "int ?h \<noteq> 0" using False by simp
    show ?thesis
      unfolding addReplyReplicationBacklog_def b(1,3,4,5) skip Let_def j0 j len if_not_P [OF h0] option.case
      using ring_read_ok [OF b(2) a(1,2)] pd by simp
  qed
qed

text \<open>A new replica \<open>r\<close> on connection \<open>c\<close>: the others see the master evolve, and \<open>r\<close> is served well.\<close>

definition joins :: "repl \<Rightarrow> repl \<Rightarrow> nat \<Rightarrow> replica \<Rightarrow> bool" where
  "joins m m' c r \<longleftrightarrow> keeps_good m m' \<and> cids m' \<subseteq> insert c (cids m) \<and>
     (\<forall>c'. c' \<noteq> c \<longrightarrow> c' \<notin> cids m \<longrightarrow> sock m' c' = sock m c') \<and>
     (\<forall>used. runid m \<in> set used \<longrightarrow>
        (\<forall>c' q. c' \<noteq> c \<longrightarrow> conn_ok m used c' q \<longrightarrow> conn_ok m' used c' q) \<and>
        (okay m used r \<longrightarrow> conn_ok m' used c r))"

lemma joins_evolves:
  assumes "joins m m' c r" "evolves m' m''"
  shows "joins m m'' c r"
proof -
  have "runid m' = runid m" using assms(1) by (simp add: joins_def keeps_good_def)
  moreover have "sock m'' c' = sock m' c'" if "c' \<notin> cids m'" for c'
    using assms(2) that unfolding evolves_def by fastforce
  moreover have "cids m'' \<subseteq> cids m'" "keeps_good m' m''" using assms(2) by (simp_all add: evolves_def)
  moreover have "keeps_good m m'" "cids m' \<subseteq> insert c (cids m)"
    "\<forall>c'. c' \<noteq> c \<longrightarrow> c' \<notin> cids m \<longrightarrow> sock m' c' = sock m c'"
    "\<forall>used. runid m \<in> set used \<longrightarrow>
        (\<forall>c' q. c' \<noteq> c \<longrightarrow> conn_ok m used c' q \<longrightarrow> conn_ok m' used c' q) \<and>
        (okay m used r \<longrightarrow> conn_ok m' used c r)" using assms(1) by (simp_all add: joins_def)
  ultimately show ?thesis
    using evolves_conn_ok [OF assms(2)] keeps_good_trans [of m m' m'']
    unfolding joins_def by (intro conjI allI impI) (blast, blast, metis insert_iff subsetD, auto)
qed

lemma joins_new:
  assumes "core_inv sn m" "same_store m m'" "slaves m' = slaves m @ [x]" "cid x \<notin> cid ` set (slaves m)"
    "sock m (cid x) = []" "sock m' = (sock m)(cid x := ms)" "slave_inv sn m x"
    "\<And>used. runid m \<in> set used \<Longrightarrow> okay m used r \<Longrightarrow>
       (\<forall>k. okay m used (fold receive (take k ms) r)) \<and> linked m x (fold receive ms r)"
  shows "core_inv sn m'" "joins m m' (cid x) r"
proof -
  note s = same_storeD [OF assms(2)]
  have "distinct (map cid (slaves m'))" using assms(1,3,4) by (simp add: core_inv_def)
  moreover have "slave_inv sn m y" if "y \<in> set (slaves m')" for y
    using that assms(1,3,7) by (auto simp: core_inv_def)
  ultimately show "core_inv sn m'" by (rule core_inv_same [OF assms(1,2)])
  have n: "y = x" if "y \<in> set (slaves m')" "cid y = cid x" for y
  proof (cases "y \<in> set (slaves m)")
    case True
    then have "cid y \<in> cid ` set (slaves m)" by simp
    with that(2) assms(4) show ?thesis by metis
  qed (use that assms(3) in simp)
  have "conn_ok m' used c' q" if "c' \<noteq> cid x" "conn_ok m used c' q" for used c' q
    using that by (auto simp: conn_ok_def conn_fin_def s assms(3,6))
  moreover have "conn_ok m' used (cid x) r" if u: "runid m \<in> set used" and o: "okay m used r" for used
  proof -
    note l = assms(8) [OF u o]
    have "linked m y (fold receive ms r)" if "y \<in> set (slaves m')" "cid y = cid x" for y
      using l n [OF that] by simp
    moreover have "okay m used (fold receive ms r)" using l by (metis order_refl take_all_iff)
    ultimately show ?thesis using l by (auto simp: conn_ok_def conn_fin_def s assms(6))
  qed
  moreover have "cids m' \<subseteq> insert (cid x) (cids m)" "c' \<noteq> cid x \<Longrightarrow> sock m' c' = sock m c'" for c'
    by (auto simp: cids_def assms(3,6))
  ultimately show "joins m m' (cid x) r" using s(7) by (simp add: joins_def)
qed

lemma sync_backlog_ok:
  assumes "core_inv (child_snap (rdb_child m)) m" "repl_backlog m = None \<Longrightarrow> length (slaves m) \<le> 1"
  shows "master_inv (sync_backlog m)" "evolves m (sync_backlog m)"
proof -
  have "master_inv (sync_backlog m) \<and> evolves m (sync_backlog m)"
  proof (cases "length (slaves m) = 1 \<and> repl_backlog m = None")
    case True
    then have "sync_backlog m = createReplicationBacklog m" by (simp add: sync_backlog_def)
    with createReplicationBacklog_ok [OF assms(1) conjunct2 [OF True]] show ?thesis by (simp add: master_inv_def)
  next
    case False
    then have "sync_backlog m = m" by (simp only: sync_backlog_def if_False)
    moreover have "slaves m = []" if "repl_backlog m = None" using False assms(2) [OF that] that by (cases "slaves m") auto
    ultimately show ?thesis using assms(1) by (auto simp: master_inv_def)
  qed
  then show "master_inv (sync_backlog m)" "evolves m (sync_backlog m)" by simp_all
qed

lemma find_in: "find P xs = Some x \<Longrightarrow> x \<in> set xs \<and> P x"
  by (induction xs) (auto split: if_splits)

lemma full_resync_ok:
  assumes "master_inv m" "master_repl_offset m < 2 ^ 62" "cid c \<notin> cid ` set (slaves m)" "sock m (cid c) = []"
    "out c = []" "rphase r = R_RECEIVE_PSYNC" "\<not> pre_psync c"
  shows "master_inv (full_resync fork_ok c m)" "joins m (full_resync fork_ok c m) (cid c) r"
proof -
  let ?c = "c\<lparr>replstate := WAIT_BGSAVE_START\<rparr>"
  let ?m1 = "m\<lparr>slaves := slaves m @ [?c]\<rparr>" and ?m' = "full_resync fork_ok c m"
  have ci: "core_inv (child_snap (rdb_child m)) m" and bl: "slaves m \<noteq> [] \<longrightarrow> repl_backlog m \<noteq> None"
    using assms(1) by (simp_all add: master_inv_def)
  have si: "slave_inv sn m ?c" for sn using assms(5,7) by (simp add: slave_inv_def)
  have st1: "same_store m ?m1" "slaves ?m1 = slaves m @ [?c]" "sock ?m1 = (sock m)(cid ?c := [])"
    using assms(4) by (auto simp: same_store_def)
  have li: "(\<forall>k. okay m used (fold receive (take k []) r)) \<and> linked m ?c (fold receive [] r)"
    if "okay m used r" for used using that assms(6) by (simp add: linked_def)
  have c': "cid ?c \<notin> cid ` set (slaves m)" "sock m (cid ?c) = []" using assms(3,4) by simp_all
  note j1 = joins_new [OF ci st1(1,2) c' st1(3) si li]
  have J: "joins m ?m1 (cid c) r" using j1(2) by simp
  have fin: "master_inv (sync_backlog m2) \<and> joins m (sync_backlog m2) (cid c) r"
    if "core_inv (child_snap (rdb_child m2)) m2" "evolves ?m1 m2" "same_store ?m1 m2"
      "map cid (slaves m2) = map cid (slaves ?m1)" for m2
  proof -
    have "length (slaves m2) = length (slaves m) + 1" using arg_cong [OF that(4), of length] by simp
    moreover have "repl_backlog m2 = repl_backlog m" using that(3) by (simp add: same_store_def)
    ultimately have "length (slaves m2) \<le> 1" if "repl_backlog m2 = None" using bl that by auto
    from sync_backlog_ok [OF that(1) this] show ?thesis
      using joins_evolves [OF J evolves_trans [OF that(2)]] by blast
  qed
  have idle: "master_inv (sync_backlog ?m1) \<and> joins m (sync_backlog ?m1) (cid c) r"
    using j1(1) by (intro fin) simp_all
  have "master_inv ?m' \<and> joins m ?m' (cid c) r"
  proof (cases "rdb_child m")
    case (SocketChild D)
    then show ?thesis using idle by (simp add: full_resync_def Let_def)
  next
    case NoChild
    show ?thesis
    proof (cases "repl_diskless_sync m \<and> capa_eof c")
      case True
      then show ?thesis using idle NoChild by (simp add: full_resync_def Let_def)
    next
      case False
      obtain b m2 where s: "startBgsaveForReplication fork_ok (capa_eof c) ?m1 = (b, m2)" by fastforce
      have m': "?m' = (if b then sync_backlog m2 else m2)"
        using NoChild False s by (auto simp: full_resync_def Let_def)
      have ci1: "core_inv None ?m1" "rdb_child ?m1 = NoChild" "master_repl_offset ?m1 < 2 ^ 62"
        using j1(1) NoChild assms(2) by simp_all
      note sb = startBgsave_ok [OF ci1 s]
      then obtain P where P: "map cid (slaves m2) = map cid (filter P (slaves ?m1))" "b \<longrightarrow> P = (\<lambda>x. True)"
        "\<not> b \<longrightarrow> (\<forall>x \<in> set (slaves ?m1). replstate x = WAIT_BGSAVE_START \<longrightarrow> \<not> P x)" by blast
      show ?thesis
      proof (cases b)
        case True
        then have "map cid (slaves m2) = map cid (slaves ?m1)" using P(1,2) by simp
        with sb fin [of m2] True m' show ?thesis by simp
      next
        case f: False
        then have "\<not> P ?c" using P(3) by simp
        then have "slaves m2 \<noteq> [] \<longrightarrow> slaves m \<noteq> []" using P(1) by (cases "slaves m") auto
        moreover have "repl_backlog m2 = repl_backlog m" using sb by (simp add: same_store_def)
        ultimately show ?thesis using sb bl f m' joins_evolves [OF J] by (simp add: master_inv_def)
      qed
    qed
  next
    case (DiskChild D)
    show ?thesis
    proof (cases "find (\<lambda>x. replstate x = WAIT_BGSAVE_END) (slaves ?m1)")
      case None
      then show ?thesis using idle DiskChild by (simp add: full_resync_def Let_def)
    next
      case (Some x)
      show ?thesis
      proof (cases "capa_eof x \<longrightarrow> capa_eof c")
        case False
        then show ?thesis using idle DiskChild Some by (simp add: full_resync_def Let_def)
      next
        case True
        let ?off = "psync_initial_offset x"
        let ?g = "\<lambda>y. y\<lparr>out := out x, psync_initial_offset := ?off, replstate := WAIT_BGSAVE_END\<rparr>"
        let ?m2 = "replicationSetupSlaveForFullResync ?c ?off (update_slave (cid c) (\<lambda>y. y\<lparr>out := out x\<rparr>) ?m1)"
        let ?l = "fullresync_line (runid m) ?off"
        have x: "x \<in> set (slaves ?m1)" "replstate x = WAIT_BGSAVE_END"
          using find_in [OF Some] by blast+
        have ci1: "core_inv (Some D) ?m1" using j1(1) DiskChild by simp
        then have "slave_inv (Some D) ?m1 x" using x(1) unfolding core_inv_def by blast
        then have e: "exact ?m1 ?off D (out x)" using x(2) by (simp add: slave_inv_def)
        have "?off \<le> master_repl_offset m + 1" "0 \<le> ?off"
          using e by (auto simp: exact_def getPsyncInitialOffset_def split: if_splits)
        then have r: "in_srange 8 ?off" using assms(2) by (simp add: in_srange_def)
        have v: "valid_runid (runid ?m1)" using ci1 unfolding core_inv_def by blast
        have st: "same_store ?m1 ?m2" "slaves ?m2 = map (\<lambda>y. if cid y = cid ?c then ?g y else y) (slaves ?m1)"
          "sock ?m2 = (sock ?m1)(cid ?c := sock ?m1 (cid ?c) @ [MLine ?l])" "rdb_child ?m2 = rdb_child m"
          using assms(7) by (auto simp: replicationSetupSlaveForFullResync_def write_sock_def update_slave_def same_store_def Let_def)
        have g: "cid (?g y) = cid y" for y by simp
        have sv: "slave_inv (Some D) ?m1 (?g ?c)" using e assms(7) by (simp add: slave_inv_def)
        have mem: "?c \<in> set (slaves ?m1)" by simp
        have li: "(\<forall>k. okay ?m1 used (fold receive (take k [MLine ?l]) f)) \<and> linked ?m1 (?g ?c) (fold receive [MLine ?l] f)"
          if "runid ?m1 \<in> set used" "okay ?m1 used f" "linked ?m1 ?c f" for used f
        proof -
          have "rphase f = R_RECEIVE_PSYNC" using that(3) by (simp add: linked_def)
          from receive_fullresync [OF v r this] okay_one_line [OF that(2)] show ?thesis
            by (simp add: linked_def del: receive.simps)
        qed
        note ss = slave_step [OF ci1 st(1) mem st(2,3) g sv li]
        have "map cid (slaves ?m2) = map cid (slaves ?m1)" unfolding st(2) by simp
        with ss st(1,4) fin [of ?m2] DiskChild have "master_inv (sync_backlog ?m2) \<and> joins m (sync_backlog ?m2) (cid c) r"
          by simp
        moreover have "?m' = sync_backlog ?m2" using DiskChild Some True by (simp add: full_resync_def Let_def)
        ultimately show ?thesis by simp
      qed
    qed
  qed
  then show "master_inv ?m'" "joins m ?m' (cid c) r" by simp_all
qed

lemma answer_joins:
  assumes "master_inv m" "cid c \<notin> cid ` set (slaves m)" "sock m (cid c) = []" "cid d = cid c"
  shows "master_inv (answer (d, m))" "joins m (answer (d, m)) (cid c) r"
proof -
  let ?m' = "answer (d, m)"
  let ?ms = "if out d = [] then [] else [MLine (out d)]"
  have st: "same_store m ?m'" "slaves ?m' = slaves m" "rdb_child ?m' = rdb_child m" "sock ?m' = (sock m)(cid c := ?ms)"
    using assms(2-4) by (auto simp: answer_def write_sock_def same_store_def fun_eq_iff)
  note s = same_storeD [OF st(1)]
  have ci: "core_inv (child_snap (rdb_child m)) m" using assms(1) by (simp add: master_inv_def)
  have "core_inv (child_snap (rdb_child m)) ?m'"
    using ci by (intro core_inv_same [OF ci st(1)]) (simp_all add: st(2) core_inv_def)
  then show "master_inv ?m'" by (rule master_inv_step [OF assms(1) _ st(1,3)]) (simp add: st(2))
  have "conn_ok m used c' q \<Longrightarrow> conn_ok ?m' used c' q" if "c' \<noteq> cid c" for c' q used
    using that by (simp add: conn_ok_def conn_fin_def s st)
  moreover have "conn_ok ?m' used (cid c) r" if "okay m used r" for used
  proof -
    have "okay m used (fold receive (take k ?ms) r)" for k
      using that okay_one_line by (simp del: receive.simps)
    moreover from this [of 1] have "okay m used (fold receive ?ms r)" by (simp split: if_splits del: receive.simps)
    moreover have "cid x \<noteq> cid c" if "x \<in> set (slaves m)" for x using that assms(2) by (metis image_eqI)
    ultimately show ?thesis by (auto simp: conn_ok_def conn_fin_def s st simp del: receive.simps)
  qed
  moreover have "cids ?m' \<subseteq> insert (cid c) (cids m)" "c' \<noteq> cid c \<Longrightarrow> sock ?m' c' = sock m c'" for c'
    by (auto simp: cids_def st)
  ultimately show "joins m ?m' (cid c) r" using s(7) by (simp add: joins_def)
qed

lemma psync_request_args:
  assumes "cached_master r = Some (rid, off)" "valid_runid rid" "in_srange 8 (off + 1)"
  shows "key_of (map str_arg (psync_request r) ! 1) = rid"
    "getLongLongFromObject (Some (map str_arg (psync_request r) ! 2)) = Some (off + 1)"
proof -
  have "length rid < 2 ^ 29" using assms(2) by (simp add: valid_runid_def)
  from str_arg_ok(1) [OF this] assms(1) show "key_of (map str_arg (psync_request r) ! 1) = rid"
    by (simp add: psync_request_def)
  have "length (dec_int (off + 1)) < 2 ^ 29" using length_dec_int_le [OF assms(3)] by simp
  from str_arg_ok(2,3) [OF this] int_of_ok [of "str_arg (dec_int (off + 1))"] int_of_dec_int [OF assms(3)] assms(1)
  show "getLongLongFromObject (Some (map str_arg (psync_request r) ! 2)) = Some (off + 1)"
    by (simp add: psync_request_def numeral_2_eq_2)
qed

lemma receive_continue:
  "rphase r = R_RECEIVE_PSYNC \<Longrightarrow> receive (MLine (map of_char ''+CONTINUE'')) r =
   r\<lparr>rmaster := cached_master r, cached_master := None, rphase := R_CONNECTED\<rparr>"
  by (simp add: slaveTryPartialResynchronization_def)

lemma try_partial_ok:
  assumes "master_inv m" "master_repl_offset m < 2 ^ 62" "cid c \<notin> cid ` set (slaves m)" "sock m (cid c) = []"
    "out c = []" "rphase r = R_RECEIVE_PSYNC" "okay m used r" "\<forall>u \<in> set used. valid_runid u" "\<not> pre_psync c"
    "masterTryPartialResynchronization c (map str_arg (psync_request r)) m = (b, c', m')"
  shows "if b then master_inv m' \<and> joins m m' (cid c) r \<and> cid c \<in> cid ` set (slaves m') else c' = c \<and> m' = m"
    "cid c' = cid c"
proof -
  let ?args = "map str_arg (psync_request r)"
  have ci: "core_inv (child_snap (rdb_child m)) m" using assms(1) by (simp add: master_inv_def)
  have v: "valid_runid (runid m)" using ci by (simp add: core_inv_def)
  have "(if b then master_inv m' \<and> joins m m' (cid c) r \<and> cid c \<in> cid ` set (slaves m') else c' = c \<and> m' = m) \<and> cid c' = cid c"
  proof (cases "strcaseeq (cstr (key_of (?args ! 1))) (cstr (runid m))")
    case False
    then show ?thesis using assms(10) by (simp add: masterTryPartialResynchronization_def)
  next
    case True
    have "cached_master r \<noteq> None"
    proof
      assume n: "cached_master r = None"
      have "key_of (?args ! 1) = map of_char ''?''" using n str_arg_ok(1) [of "map of_char ''?''"] by (simp add: psync_request_def)
      with True have "strcaseeq (cstr [63]) (cstr (runid m))" by simp
      then have "length (map tolower_b (cstr [63])) = length (map tolower_b (cstr (runid m)))" unfolding strcaseeq_def by simp
      then have "length (cstr (runid m)) = 1" by (simp add: cstr_def)
      moreover have "cstr (runid m) = runid m" using valid_runid_bytes [OF v] by (intro cstr_id) blast
      ultimately show False using v by (simp add: valid_runid_def)
    qed
    then obtain rid off where cm: "cached_master r = Some (rid, off)" by auto
    then have ru: "rid \<in> set used" and gd: "rid = runid m \<longrightarrow> good m off (rdata r)" using assms(7) by (auto simp: okay_def)
    have vr: "valid_runid rid" using ru assms(8) by blast
    have key: "key_of (?args ! 1) = rid"
    proof -
      have "length rid < 2 ^ 29" using vr by (simp add: valid_runid_def)
      from str_arg_ok(1) [OF this] cm show ?thesis by (simp add: psync_request_def)
    qed
    have rid: "rid = runid m" using same_runid [OF vr v] True key by simp
    with gd have g: "good m off (rdata r)" by simp
    then have off: "0 \<le> off" "off \<le> master_repl_offset m" by (simp_all add: good_def)
    have rg: "in_srange 8 (off + 1)" using off assms(2) by (simp add: in_srange_def)
    note arg = psync_request_args [OF cm vr rg]
    show ?thesis
    proof (cases "repl_backlog m = None \<or> off + 1 < repl_backlog_off m \<or> off + 1 > repl_backlog_off m + repl_backlog_histlen m")
      case f: True
      then show ?thesis using assms(10) True by (simp add: masterTryPartialResynchronization_def arg)
    next
      case False
      then have b: "repl_backlog m \<noteq> None" "repl_backlog_off m \<le> off + 1" by auto
      obtain s D where s: "holds m s" "dataset m = D @ map Sent s" using ci b(1) by (auto simp: core_inv_def)
      obtain p where p: "exact m off (rdata r) p" using g b by (auto simp: good_def)
      let ?line = "map of_char ''+CONTINUE'' :: bytes"
      let ?m1 = "write_sock (cid c) [MLine ?line] m"
      have s1: "holds ?m1 s" "exact ?m1 = exact m"
        using s(1) by (auto simp: write_sock_def holds_def exact_def getPsyncInitialOffset_def fun_eq_iff)
      have "addReplyReplicationBacklog (off + 1) ?m1 = Some p"
        using backlog_serves [OF s1(1), of off "rdata r" p D] b(2) off(2) p s(2) s1(2) by (simp add: write_sock_def)
      then have bs: "addReplyReplicationBacklog (off + 1) (write_sock (cid c) [MLine ?line] m) = Some p" .
      let ?x = "c\<lparr>replstate := REPL_ONLINE, put_online_on_ack := False, out := p\<rparr>"
      have res: "b" "c' = ?x" "m' = ?m1\<lparr>slaves := slaves m @ [?x]\<rparr>"
        using assms(10,5) True False bs by (auto simp: masterTryPartialResynchronization_def arg Let_def write_sock_def)
      have st: "same_store m m'" "slaves m' = slaves m @ [?x]" "sock m' = (sock m)(cid ?x := [MLine ?line])"
        "rdb_child m' = rdb_child m"
        using assms(4) by (simp_all add: res(3) write_sock_def same_store_def)
      have si: "slave_inv sn m ?x" for sn using assms(9) by (simp add: slave_inv_def)
      have li: "(\<forall>k. okay m used (fold receive (take k [MLine ?line]) r)) \<and> linked m ?x (fold receive [MLine ?line] r)"
        if "okay m used r" for used
        using okay_one_line [OF that, of _ ?line] receive_continue [OF assms(6)] cm rid p
        by (simp add: linked_def del: receive.simps)
      have cx: "cid ?x \<notin> cid ` set (slaves m)" "sock m (cid ?x) = []" using assms(3,4) by simp_all
      note j = joins_new [OF ci st(1,2) cx st(3) si li]
      have "master_inv m'" using j(1) st b(1) by (simp add: master_inv_def same_store_def)
      with j(2) res st(2) show ?thesis by simp
    qed
  qed
  then show "if b then master_inv m' \<and> joins m m' (cid c) r \<and> cid c \<in> cid ` set (slaves m') else c' = c \<and> m' = m"
    "cid c' = cid c" by blast+
qed

lemma joins_refl_answer:
  assumes "master_inv m" "cid c \<notin> cid ` set (slaves m)" "sock m (cid c) = []" "cid d = cid c"
  shows "master_inv (answer (d, m)) \<and> joins m (answer (d, m)) (cid c) r"
  using answer_joins [OF assms] by blast

lemma syncCommand_ok:
  fixes fork_ok :: bool
  assumes "master_inv m" "master_repl_offset m < 2 ^ 62" "cid c \<notin> cid ` set (slaves m)" "sock m (cid c) = []"
    "out c = []" "rphase r = R_RECEIVE_PSYNC" "okay m used r" "\<forall>u \<in> set used. valid_runid u" "\<not> pre_psync c"
  defines "m' \<equiv> answer (syncCommand fork_ok c (map str_arg (psync_request r)) m)"
  shows "master_inv m'" "joins m m' (cid c) r"
proof -
  let ?args = "map str_arg (psync_request r)"
  have k0: "key_of (?args ! 0) = map of_char ''PSYNC''"
    using str_arg_ok(1) [of "map of_char ''PSYNC''"] by (simp add: psync_request_def split: option.split prod.split)
  have ps: "strcaseeq (cstr (key_of (?args ! 0))) (map of_char ''psync'')"
    unfolding k0 by (simp add: strcaseeq_def tolower_b_def cstr_def)
  have "master_inv m' \<and> joins m m' (cid c) r"
  proof (cases "link_down m")
    case True
    have "m' = answer (add_error ''Can't SYNC while not connected with my master'' c, m)"
      using True assms(3) by (simp add: m'_def syncCommand_def)
    with joins_refl_answer [OF assms(1,3,4), of "add_error ''Can't SYNC while not connected with my master'' c" r]
    show ?thesis by (simp add: add_error_def)
  next
    case False
    obtain b c' m1 where t: "masterTryPartialResynchronization c ?args m = (b, c', m1)" by (metis prod_cases3)
    note tp = try_partial_ok [OF assms(1-9) t]
    show ?thesis
    proof (cases b)
      case True
      then have "m' = answer (c', m1)" using False assms(3,5) ps t by (simp add: m'_def syncCommand_def)
      then have "m' = m1" using tp True by (simp add: answer_def)
      with tp(1) True show ?thesis by simp
    next
      case f: False
      then have "m' = answer (c\<lparr>out := []\<rparr>, full_resync fork_ok c m)"
        using False assms(3,5) ps t tp by (simp add: m'_def syncCommand_def)
      then have "m' = full_resync fork_ok c m" using assms(5) by (simp add: answer_def)
      with full_resync_ok [OF assms(1-6,9)] show ?thesis by simp
    qed
  qed
  then show "master_inv m'" "joins m m' (cid c) r" by blast+
qed

end
