(* ===== verification/ReplicaSync.thy ===== *)
theory ReplicaSync
  imports ReplicationProofs
begin

text \<open>
  A master and its replicas together: any number of replicas that connect, lose the connection and
  connect again, and a master that writes, saves, resizes and frees its backlog, drops clients and
  restarts with a new run id. Shown: a replica never leaves the history of its master, and what it lacks is
  what is on its way to it. Role changes keep the run id, and break this.
\<close>

subsection \<open>The system\<close>

record sys =
  mst :: repl
  reps :: "nat \<Rightarrow> replica"
  next_conn :: nat
  used_ids :: "bytes list"

definition new_slave :: "nat \<Rightarrow> bool \<Rightarrow> slave" where
  "new_slave c capa =
     \<lparr>cid = c, replstate = WAIT_BGSAVE_START, psync_initial_offset = 0, put_online_on_ack = False, ack_off = 0,
      capa_eof = capa, pre_psync = False, out = [], rdbfile = []\<rparr>"

text \<open>The start of a server: what is on the sockets of an earlier process may still be read.\<close>

definition start_master :: "bytes \<Rightarrow> item list \<Rightarrow> repl \<Rightarrow> repl" where
  "start_master rid D m =
     m\<lparr>runid := rid, master_repl_offset := 0, slaveseldb := -1, repl_backlog := None, repl_backlog_histlen := 0,
       repl_backlog_idx := 0, repl_backlog_off := 0, slaves := [], rdb_child := NoChild, dataset := D\<rparr>"

definition connecting :: "nat \<Rightarrow> replica \<Rightarrow> replica" where
  "connecting c r = r\<lparr>rphase := R_RECEIVE_PSYNC, conn := c, repl_master_initial_offset := -1\<rparr>"

inductive sync_step :: "sys \<Rightarrow> sys \<Rightarrow> bool" where
  Write: "\<forall>a \<in> set args. repl_arg a \<Longrightarrow> length args < 2 ^ 62 \<Longrightarrow> sync_step S (S\<lparr>mst := write_command d args (mst S)\<rparr>)"
| Save: "sync_step S (S\<lparr>mst := snd (rdbSaveBackground fork_ok (mst S))\<rparr>)"
| SaveDone: "sync_step S (S\<lparr>mst := backgroundSaveDoneHandler ok sent_ok fork_ok (mst S)\<rparr>)"
| Diskless: "rdb_child (mst S) = NoChild \<Longrightarrow>
    sync_step S (S\<lparr>mst := snd (startBgsaveForReplication fork_ok mincapa (mst S))\<rparr>)"
| Bulk: "x \<in> set (slaves (mst S)) \<Longrightarrow> replstate x = SEND_BULK \<Longrightarrow> sync_step S (S\<lparr>mst := sendBulkToSlaveDone x (mst S)\<rparr>)"
| Send: "x \<in> set (slaves (mst S)) \<Longrightarrow> replstate x = REPL_ONLINE \<Longrightarrow> \<not> put_online_on_ack x \<Longrightarrow>
    sync_step S (S\<lparr>mst := send_output x n (mst S)\<rparr>)"
| Ack: "x \<in> set (slaves (mst S)) \<Longrightarrow> sync_step S (S\<lparr>mst := replconfAck x off (mst S)\<rparr>)"
| Close: "sync_step S (S\<lparr>mst := repl_free_client c (mst S)\<rparr>)"
| Free: "slaves (mst S) = [] \<Longrightarrow> sync_step S (S\<lparr>mst := freeReplicationBacklog (mst S)\<rparr>)"
| Resize: "sync_step S (S\<lparr>mst := resizeReplicationBacklog n (mst S)\<rparr>)"
| Restart: "valid_runid rid \<Longrightarrow> rid \<notin> set (used_ids S) \<Longrightarrow>
    sync_step S (S\<lparr>mst := start_master rid D (mst S), used_ids := rid # used_ids S\<rparr>)"
| Connect: "rphase (reps S r) = R_CONNECT \<Longrightarrow> rep = connecting (next_conn S) (reps S r) \<Longrightarrow>
    sync_step S (S\<lparr>mst := answer (syncCommand fork_ok (new_slave (next_conn S) capa) (map str_arg (psync_request rep)) (mst S)),
                   reps := (reps S)(r := rep), next_conn := next_conn S + 1\<rparr>)"
| Receive: "rphase (reps S r) \<noteq> R_CONNECT \<Longrightarrow> sock (mst S) (conn (reps S r)) = x # xs \<Longrightarrow>
    sync_step S (S\<lparr>mst := (mst S)\<lparr>sock := (sock (mst S))(conn (reps S r) := xs)\<rparr>,
                   reps := (reps S)(r := receive x (reps S r))\<rparr>)"
| Lose: "sync_step S (S\<lparr>reps := (reps S)(r := lose_master (reps S r))\<rparr>)"

definition sync_init :: "sys \<Rightarrow> bool" where
  "sync_init S \<longleftrightarrow>
     (\<exists>rid D m. mst S = start_master rid D m \<and> valid_runid rid \<and> used_ids S = [rid] \<and> 0 < repl_backlog_size m \<and>
        \<not> broken m \<and> (\<forall>c. sock m c = [])) \<and>
     (\<forall>r. rphase (reps S r) = R_CONNECT \<and> cached_master (reps S r) = None \<and> rmaster (reps S r) = None)"

text \<open>The states that are reached while the stream is shorter than \<open>2 ^ 62\<close> bytes.\<close>

inductive sync_reach :: "sys \<Rightarrow> bool" where
  Init: "sync_init S \<Longrightarrow> sync_reach S"
| Step: "sync_reach S \<Longrightarrow> sync_step S S' \<Longrightarrow> master_repl_offset (mst S') < 2 ^ 62 \<Longrightarrow> sync_reach S'"

subsection \<open>The invariant\<close>

definition sync_inv :: "sys \<Rightarrow> bool" where
  "sync_inv S \<longleftrightarrow>
     master_inv (mst S) \<and> master_repl_offset (mst S) < 2 ^ 62 \<and> runid (mst S) \<in> set (used_ids S) \<and>
     (\<forall>u \<in> set (used_ids S). valid_runid u) \<and>
     (\<forall>c. next_conn S \<le> c \<longrightarrow> c \<notin> cids (mst S) \<and> sock (mst S) c = []) \<and>
     (\<forall>r. okay (mst S) (used_ids S) (reps S r)) \<and>
     (\<forall>r. rphase (reps S r) \<noteq> R_CONNECT \<longrightarrow>
        conn (reps S r) < next_conn S \<and> conn_ok (mst S) (used_ids S) (conn (reps S r)) (reps S r) \<and>
        (\<forall>q. rphase (reps S q) \<noteq> R_CONNECT \<longrightarrow> conn (reps S q) = conn (reps S r) \<longrightarrow> q = r))"

lemma sync_invD:
  assumes "sync_inv S"
  shows "master_inv (mst S)" "master_repl_offset (mst S) < 2 ^ 62" "runid (mst S) \<in> set (used_ids S)"
    "\<forall>u \<in> set (used_ids S). valid_runid u"
    "next_conn S \<le> c \<Longrightarrow> c \<notin> cids (mst S)" "next_conn S \<le> c \<Longrightarrow> sock (mst S) c = []"
    "okay (mst S) (used_ids S) (reps S r)"
    "rphase (reps S r) \<noteq> R_CONNECT \<Longrightarrow> conn (reps S r) < next_conn S"
    "rphase (reps S r) \<noteq> R_CONNECT \<Longrightarrow> conn_ok (mst S) (used_ids S) (conn (reps S r)) (reps S r)"
    "rphase (reps S r) \<noteq> R_CONNECT \<Longrightarrow> rphase (reps S q) \<noteq> R_CONNECT \<Longrightarrow> conn (reps S q) = conn (reps S r) \<Longrightarrow> q = r"
  using assms by (simp_all add: sync_inv_def)

lemma sync_invI:
  assumes "master_inv (mst S)" "master_repl_offset (mst S) < 2 ^ 62" "runid (mst S) \<in> set (used_ids S)"
    "\<forall>u \<in> set (used_ids S). valid_runid u" "\<And>c. next_conn S \<le> c \<Longrightarrow> c \<notin> cids (mst S) \<and> sock (mst S) c = []"
    "\<And>r. okay (mst S) (used_ids S) (reps S r)"
    "\<And>r. rphase (reps S r) \<noteq> R_CONNECT \<Longrightarrow>
        conn (reps S r) < next_conn S \<and> conn_ok (mst S) (used_ids S) (conn (reps S r)) (reps S r)"
    "\<And>r q. rphase (reps S r) \<noteq> R_CONNECT \<Longrightarrow> rphase (reps S q) \<noteq> R_CONNECT \<Longrightarrow> conn (reps S q) = conn (reps S r) \<Longrightarrow> q = r"
  shows "sync_inv S"
  unfolding sync_inv_def using assms by blast

text \<open>A step of the master alone.\<close>

lemma sync_inv_master:
  assumes "sync_inv S" "master_inv m'" "evolves (mst S) m'" "master_repl_offset m' < 2 ^ 62"
  shows "sync_inv (S\<lparr>mst := m'\<rparr>)"
proof -
  note i = sync_invD [OF assms(1)]
  have k: "keeps_good (mst S) m'" "cids m' \<subseteq> cids (mst S)" using assms(3) by (simp_all add: evolves_def)
  have "sock m' c = []" if "next_conn S \<le> c" for c
    using assms(3) i(5,6) [OF that] unfolding evolves_def by fastforce
  moreover have "runid m' = runid (mst S)" using k by (simp add: keeps_good_def)
  ultimately show ?thesis
    using i k(2) assms(2,4) okay_mono [OF k(1)] evolves_conn_ok [OF assms(3) i(3)]
    unfolding sync_inv_def by auto
qed

lemma sync_inv_connect:
  assumes "sync_inv S" "rphase (reps S r) = R_CONNECT" "rep = connecting (next_conn S) (reps S r)"
    "master_inv m'" "joins (mst S) m' (next_conn S) rep" "master_repl_offset m' < 2 ^ 62"
  shows "sync_inv (S\<lparr>mst := m', reps := (reps S)(r := rep), next_conn := next_conn S + 1\<rparr>)"
proof -
  note i = sync_invD [OF assms(1)]
  have k: "keeps_good (mst S) m'" "cids m' \<subseteq> insert (next_conn S) (cids (mst S))"
    "\<And>c. c \<noteq> next_conn S \<Longrightarrow> c \<notin> cids (mst S) \<Longrightarrow> sock m' c = sock (mst S) c"
    "\<And>c q. c \<noteq> next_conn S \<Longrightarrow> conn_ok (mst S) (used_ids S) c q \<Longrightarrow> conn_ok m' (used_ids S) c q"
    using assms(5) i(3) by (simp_all add: joins_def)
  have o: "okay (mst S) (used_ids S) rep" using i(7) [of r] by (simp add: assms(3) connecting_def okay_def)
  have cr: "conn rep = next_conn S" "rphase rep \<noteq> R_CONNECT" by (simp_all add: assms(3) connecting_def)
  have new: "conn_ok m' (used_ids S) (next_conn S) rep" using assms(5) i(3) o by (simp add: joins_def)
  have fresh: "c \<notin> cids m' \<and> sock m' c = []" if "next_conn S + 1 \<le> c" for c
    using k(2) k(3) [of c] i(5,6) [of c] that by auto
  have old: "conn (reps S q) < next_conn S \<and> conn_ok m' (used_ids S) (conn (reps S q)) (reps S q)"
    if "rphase (reps S q) \<noteq> R_CONNECT" for q
    using i(8,9) [OF that] k(4) by force
  have ru: "runid m' = runid (mst S)" using k(1) by (simp add: keeps_good_def)
  have uniq: "q = q'" if "rphase (((reps S)(r := rep)) q) \<noteq> R_CONNECT" "rphase (((reps S)(r := rep)) q') \<noteq> R_CONNECT"
    "conn (((reps S)(r := rep)) q) = conn (((reps S)(r := rep)) q')" for q q'
  proof -
    have ne: "conn (reps S p) \<noteq> conn rep" if "rphase (reps S p) \<noteq> R_CONNECT" for p using old [OF that] cr(1) by simp
    show ?thesis
      using that ne [of q] ne [of q'] i(10) [of q' q] by (cases "q = r"; cases "q' = r") auto
  qed
  have act: "conn (((reps S)(r := rep)) q) < next_conn S + 1 \<and> conn_ok m' (used_ids S) (conn (((reps S)(r := rep)) q)) (((reps S)(r := rep)) q)"
    if "rphase (((reps S)(r := rep)) q) \<noteq> R_CONNECT" for q
    using that old [of q] new cr by (cases "q = r") (auto simp: less_Suc_eq)
  have ok: "okay m' (used_ids S) (((reps S)(r := rep)) q)" for q using o i(7) okay_mono [OF k(1)] by simp
  show ?thesis
  proof (rule sync_invI)
    fix q q'
    let ?S = "S\<lparr>mst := m', reps := (reps S)(r := rep), next_conn := next_conn S + 1\<rparr>"
    assume "rphase (reps ?S q) \<noteq> R_CONNECT" "rphase (reps ?S q') \<noteq> R_CONNECT" "conn (reps ?S q') = conn (reps ?S q)"
    then show "q' = q" using uniq [of q' q] by simp
  qed (use i assms(4,6) fresh act ok in \<open>simp_all add: ru\<close>)
qed

lemma conn_ok_receive:
  assumes "conn_ok m used c r" "sock m c = x # xs" "m' = m\<lparr>sock := (sock m)(c := xs)\<rparr>"
  shows "conn_ok m' used c (receive x r)" "okay m used (receive x r)"
proof -
  have st: "same_store m m'" by (simp add: assms(3) same_store_def)
  note s = same_storeD [OF st]
  have k: "okay m used (fold receive (take k xs) (receive x r))" for k
    using assms(1,2) unfolding conn_ok_def by (metis fold_simps(2) take_Suc_Cons)
  have so: "sock m' c = xs" "slaves m' = slaves m" by (simp_all add: assms(3))
  from k show "conn_ok m' used c (receive x r)"
    using assms(1) so by (auto simp: conn_ok_def conn_fin_def s assms(2))
  show "okay m used (receive x r)" using k [of 0] by simp
qed

lemma sync_inv_receive:
  assumes "sync_inv S" "rphase (reps S r) \<noteq> R_CONNECT" "sock (mst S) (conn (reps S r)) = x # xs"
  shows "sync_inv (S\<lparr>mst := (mst S)\<lparr>sock := (sock (mst S))(conn (reps S r) := xs)\<rparr>,
                   reps := (reps S)(r := receive x (reps S r))\<rparr>)"
proof -
  note i = sync_invD [OF assms(1)]
  let ?c = "conn (reps S r)"
  let ?m' = "(mst S)\<lparr>sock := (sock (mst S))(?c := xs)\<rparr>"
  let ?r' = "receive x (reps S r)"
  have st: "same_store (mst S) ?m'" by (simp add: same_store_def)
  note s = same_storeD [OF st]
  have cr: "conn ?r' = ?c"
    by (cases x) (auto simp: rconnect_def slaveTryPartialResynchronization_def split: rphase.split option.split)
  note co = conn_ok_receive [OF i(9) [OF assms(2)] assms(3) refl]
  have ci: "core_inv (child_snap (rdb_child (mst S))) (mst S)" using i(1) by (simp add: master_inv_def)
  have "core_inv (child_snap (rdb_child (mst S))) ?m'"
    using ci by (intro core_inv_same [OF ci st]) (simp_all add: core_inv_def)
  then have mi: "master_inv ?m'" by (rule master_inv_step [OF i(1) _ st]) simp_all
  have old: "conn_ok ?m' (used_ids S) (conn (reps S q)) (reps S q)"
    if "q \<noteq> r" "rphase (reps S q) \<noteq> R_CONNECT" for q
  proof -
    have "conn (reps S q) \<noteq> ?c" using i(10) [OF assms(2) that(2)] that(1) by blast
    with i(9) [OF that(2)] show ?thesis by (simp add: conn_ok_def conn_fin_def s)
  qed
  have cn: "?c < next_conn S" by (rule i(8) [OF assms(2)])
  let ?S = "S\<lparr>mst := ?m', reps := (reps S)(r := ?r')\<rparr>"
  have same: "conn (reps ?S q) = conn (reps S q)" "rphase (reps ?S q) \<noteq> R_CONNECT \<Longrightarrow> rphase (reps S q) \<noteq> R_CONNECT" for q
    using cr assms(2) by (cases "q = r"; simp)+
  show ?thesis
  proof (rule sync_invI)
    show "c \<notin> cids (mst ?S) \<and> sock (mst ?S) c = []" if "next_conn ?S \<le> c" for c
      using i(5,6) [of c] that cn by (auto simp: cids_def)
    show "okay (mst ?S) (used_ids ?S) (reps ?S q)" for q using i(7) co(2) by (simp add: s)
    show "conn (reps ?S q) < next_conn ?S \<and> conn_ok (mst ?S) (used_ids ?S) (conn (reps ?S q)) (reps ?S q)"
      if "rphase (reps ?S q) \<noteq> R_CONNECT" for q
      using i(8) [OF same(2) [OF that]] old [of q] co(1) cr same(2) [OF that] by (cases "q = r") auto
    show "q = p" if "rphase (reps ?S p) \<noteq> R_CONNECT" "rphase (reps ?S q) \<noteq> R_CONNECT" "conn (reps ?S q) = conn (reps ?S p)" for p q
      using i(10) [OF same(2) [OF that(1)] same(2) [OF that(2)]] that(3) unfolding same(1) .
  qed (use i mi in simp_all)
qed

lemma okay_lose: "okay m used r \<Longrightarrow> okay m used (lose_master r)"
  by (auto simp: okay_def lose_master_def rconnect_def)

lemma sync_step_inv:
  assumes "sync_step S S'" "sync_inv S" "master_repl_offset (mst S') < 2 ^ 62"
  shows "sync_inv S'"
  using assms
proof (induction rule: sync_step.induct)
  case (Write args S d)
  then show ?case using sync_inv_master [OF Write.prems(1) write_command_ok [OF sync_invD(1) [OF Write.prems(1)] Write.hyps]] by simp
next
  case (Save S fork_ok)
  then show ?case using sync_inv_master [OF _ bgsave_ok] sync_invD(1) by simp
next
  case (SaveDone S ok sent_ok fork_ok)
  then show ?case
    using sync_inv_master [OF _ backgroundSaveDone_ok [OF sync_invD(1,2)]] by simp
next
  case (Diskless S fork_ok mincapa)
  have ci: "core_inv None (mst S)" "slaves (mst S) \<noteq> [] \<longrightarrow> repl_backlog (mst S) \<noteq> None"
    using sync_invD(1) [OF Diskless.prems(1)] Diskless.hyps by (simp_all add: master_inv_def)
  show ?case
    using start_if_waiting [OF ci(1) Diskless.hyps sync_invD(2) [OF Diskless.prems(1)] ci(2),
        of "snd (startBgsaveForReplication fork_ok mincapa (mst S))" False fork_ok mincapa]
      sync_inv_master [OF Diskless.prems(1)] Diskless.prems(2) by simp
next
  case (Bulk x S)
  then show ?case using sync_inv_master [OF Bulk.prems(1) sendBulk_ok [OF sync_invD(1) [OF Bulk.prems(1)] Bulk.hyps]] by simp
next
  case (Send x S n)
  then show ?case using sync_inv_master [OF Send.prems(1) send_output_ok [OF sync_invD(1) [OF Send.prems(1)] Send.hyps(1,2)]] by simp
next
  case (Ack x S off)
  then show ?case using sync_inv_master [OF Ack.prems(1) replconfAck_ok [OF sync_invD(1) [OF Ack.prems(1)] Ack.hyps]] by simp
next
  case (Close S c)
  then show ?case using sync_inv_master [OF Close.prems(1) repl_free_client_ok [OF sync_invD(1) [OF Close.prems(1)]]] by simp
next
  case (Free S)
  then show ?case using sync_inv_master [OF Free.prems(1) freeReplicationBacklog_ok [OF sync_invD(1) [OF Free.prems(1)] Free.hyps]] by simp
next
  case (Resize S n)
  then show ?case using sync_inv_master [OF Resize.prems(1) resizeReplicationBacklog_ok [OF sync_invD(1) [OF Resize.prems(1)]]] by simp
next
  case (Restart rid S D)
  note i = sync_invD [OF Restart.prems(1)]
  let ?m = "start_master rid D (mst S)" and ?used = "rid # used_ids S"
  have ci: "core_inv (child_snap (rdb_child (mst S))) (mst S)" using i(1) by (simp add: master_inv_def)
  have mi: "master_inv ?m" using ci Restart.hyps(1) by (simp add: start_master_def master_inv_def core_inv_def)
  have ok: "okay ?m ?used q" if "okay (mst S) (used_ids S) q" for q
    using that Restart.hyps(2) by (auto simp: okay_def start_master_def)
  have "conn_ok ?m ?used c q" if "conn_ok (mst S) (used_ids S) c q" for c q
    using that ok unfolding conn_ok_def conn_fin_def by (simp add: start_master_def)
  with i mi ok Restart.hyps show ?case
    unfolding sync_inv_def by (auto simp: start_master_def cids_def)
next
  case (Connect S r rep fork_ok capa)
  note i = sync_invD [OF Connect.prems(1)]
  let ?c = "new_slave (next_conn S) capa"
  have c: "cid ?c = next_conn S" "out ?c = []" "\<not> pre_psync ?c" by (simp_all add: new_slave_def)
  have n: "cid ?c \<notin> cid ` set (slaves (mst S))" "sock (mst S) (cid ?c) = []"
    using i(5,6) [of "next_conn S"] by (simp_all add: c cids_def)
  have rp: "rphase rep = R_RECEIVE_PSYNC" "okay (mst S) (used_ids S) rep"
    using i(7) [of r] by (simp_all add: Connect.hyps(2) connecting_def okay_def)
  note sc = syncCommand_ok [OF i(1,2) n c(2) rp i(4) c(3), of fork_ok, unfolded c]
  show ?case
    using sync_inv_connect [OF Connect.prems(1) Connect.hyps sc] Connect.prems(2) by simp
next
  case (Receive S r x xs)
  then show ?case using sync_inv_receive by blast
next
  case (Lose S r)
  note i = sync_invD [OF Lose.prems(1)]
  have "rphase (lose_master (reps S r)) = R_CONNECT" by (simp add: lose_master_def rconnect_def)
  with i okay_lose [OF i(7)] show ?case unfolding sync_inv_def by auto
qed

lemma sync_init_inv:
  assumes "sync_init S"
  shows "sync_inv S"
proof -
  from assms obtain rid D m where m: "mst S = start_master rid D m" "valid_runid rid" "used_ids S = [rid]"
    "0 < repl_backlog_size m" "\<not> broken m" "\<forall>c. sock m c = []" by (auto simp: sync_init_def)
  with assms show ?thesis
    by (auto simp: sync_init_def sync_inv_def start_master_def master_inv_def core_inv_def cids_def okay_def)
qed

lemma sync_reach_inv: "sync_reach S \<Longrightarrow> sync_inv S"
  by (induction rule: sync_reach.induct) (auto intro: sync_init_inv sync_step_inv)

subsection \<open>An example\<close>

definition ex_master :: repl where
  "ex_master =
     \<lparr>runid = replicate 40 97, master_repl_offset = 0, slaveseldb = -1, repl_backlog = None, repl_backlog_size = 100,
      repl_backlog_histlen = 0, repl_backlog_idx = 0, repl_backlog_off = 0, slaves = [], rdb_child = NoChild,
      repl_diskless_sync = False, link_down = False, dataset = [], sock = (\<lambda>c. []), broken = False\<rparr>"

definition ex_replica :: replica where
  "ex_replica =
     \<lparr>rphase = R_CONNECT, conn = 0, cached_master = None, rmaster = None, repl_master_initial_offset = -1,
      repl_master_runid = [], rdata = []\<rparr>"

definition ex_sys :: sys where
  "ex_sys = \<lparr>mst = ex_master, reps = (\<lambda>r. ex_replica), next_conn = 0, used_ids = [replicate 40 97]\<rparr>"

definition ex_write :: "robj list" where
  "ex_write = map str_arg [map of_char ''SET'', [107], [118]]"

definition sys_connect :: "nat \<Rightarrow> sys \<Rightarrow> sys" where
  "sys_connect r S =
     (let rep = connecting (next_conn S) (reps S r) in
      S\<lparr>mst := answer (syncCommand True (new_slave (next_conn S) False) (map str_arg (psync_request rep)) (mst S)),
        reps := (reps S)(r := rep), next_conn := next_conn S + 1\<rparr>)"

definition sys_receive :: "nat \<Rightarrow> sys \<Rightarrow> sys" where
  "sys_receive r S =
     S\<lparr>mst := (mst S)\<lparr>sock := (sock (mst S))(conn (reps S r) := tl (sock (mst S) (conn (reps S r))))\<rparr>,
       reps := (reps S)(r := receive (hd (sock (mst S) (conn (reps S r)))) (reps S r))\<rparr>"

text \<open>A replica connects and gets a dump; then there is a write.\<close>

definition ex_joined :: sys where
  "ex_joined = (let S = sys_connect 0 ex_sys;
                    S = S\<lparr>mst := backgroundSaveDoneHandler True (\<lambda>c. True) True (mst S)\<rparr>
                in S\<lparr>mst := sendBulkToSlaveDone (hd (slaves (mst S))) (mst S)\<rparr>)"

definition ex_online :: sys where
  "ex_online = (let S = sys_receive 0 (sys_receive 0 ex_joined) in S\<lparr>mst := write_command 0 ex_write (mst S)\<rparr>)"

lemma sys_connect_reach:
  assumes "sync_reach S" "rphase (reps S r) = R_CONNECT" "master_repl_offset (mst (sys_connect r S)) < 2 ^ 62"
  shows "sync_reach (sys_connect r S)"
  using assms(3) unfolding sys_connect_def Let_def by (intro Step [OF assms(1) Connect [OF assms(2) refl]])

lemma sys_receive_reach:
  assumes "sync_reach S" "rphase (reps S r) \<noteq> R_CONNECT" "sock (mst S) (conn (reps S r)) \<noteq> []"
  shows "sync_reach (sys_receive r S)"
proof -
  have "sock (mst S) (conn (reps S r)) = hd (sock (mst S) (conn (reps S r))) # tl (sock (mst S) (conn (reps S r)))"
    using assms(3) by simp
  from Step [OF assms(1) Receive [OF assms(2) this]] sync_invD(2) [OF sync_reach_inv [OF assms(1)]] show ?thesis
    by (simp add: sys_receive_def)
qed

lemma ex_sys_reach: "sync_reach ex_sys"
proof (rule Init)
  have "mst ex_sys = start_master (replicate 40 97) [] ex_master" by (simp add: ex_sys_def ex_master_def start_master_def)
  then show "sync_init ex_sys"
    unfolding sync_init_def by (auto simp: ex_sys_def ex_replica_def ex_master_def valid_runid_def intro!: exI [of _ ex_master])
qed

lemma ex_joined_reach: "sync_reach ex_joined"
proof -
  let ?S = "sys_connect 0 ex_sys"
  let ?T = "?S\<lparr>mst := backgroundSaveDoneHandler True (\<lambda>c. True) True (mst ?S)\<rparr>"
  have "sync_reach ?S" by (rule sys_connect_reach [OF ex_sys_reach]; code_simp)
  then have T: "sync_reach ?T" by (rule Step [OF _ SaveDone]) code_simp
  have "slaves (mst ?T) \<noteq> [] \<and> replstate (hd (slaves (mst ?T))) = SEND_BULK" by code_simp
  then have "hd (slaves (mst ?T)) \<in> set (slaves (mst ?T))" "replstate (hd (slaves (mst ?T))) = SEND_BULK" by simp_all
  from Step [OF T Bulk [OF this]] have "master_repl_offset (mst ex_joined) < 2 ^ 62 \<Longrightarrow> sync_reach ex_joined"
    unfolding ex_joined_def Let_def .
  moreover have "master_repl_offset (mst ex_joined) < 2 ^ 62" by code_simp
  ultimately show ?thesis by blast
qed

lemma ex_online_reach: "sync_reach ex_online"
proof -
  have "sync_reach (sys_receive 0 ex_joined)" by (rule sys_receive_reach [OF ex_joined_reach]; code_simp)
  then have S: "sync_reach (sys_receive 0 (sys_receive 0 ex_joined))" by (rule sys_receive_reach; code_simp)
  have w: "\<forall>a \<in> set ex_write. repl_arg a" "length ex_write < 2 ^ 62"
    using str_arg_ok by (auto simp: ex_write_def repl_arg_def)
  have "master_repl_offset (mst ex_online) < 2 ^ 62" by code_simp
  then show ?thesis unfolding ex_online_def Let_def by (intro Step [OF S Write [OF w]])
qed

subsection \<open>Properties\<close>

text \<open>
  C8. Whatever happens between a master and its replicas (writes, saves that succeed or fail, lost
  connections, partial and full synchronisations, a backlog that is resized or freed, restarts of the master),
  the data set of a replica that is connected to a run of the master is what the data set of the master once
  was in its history: it is never a mixture, and nothing is skipped.
\<close>

theorem replica_in_history:
  assumes "sync_reach S" "rmaster (reps S r) = Some (runid (mst S), off)"
  shows "(\<exists>later. dataset (mst S) = rdata (reps S r) @ later) \<and> 0 \<le> off \<and> off \<le> master_repl_offset (mst S)"
  using sync_invD(7) [OF sync_reach_inv [OF assms(1)], of r] assms(2) by (auto simp: okay_def good_def)

theorem replica_in_history_witness:
  "(\<exists>later. dataset (mst ex_online) = rdata (reps ex_online 0) @ later) \<and> 0 \<le> (1 :: int) \<and>
   1 \<le> master_repl_offset (mst ex_online)"
proof (rule replica_in_history [OF ex_online_reach])
  show "rmaster (reps ex_online 0) = Some (runid (mst ex_online), 1)" by code_simp
qed

text \<open>
  C9. A replica that the master counts as online gets everything: when it has read what waits in the socket and what
  is still in the output buffer, its data set is the data set of the master and its offset the offset of the master.
\<close>

theorem replica_converges:
  assumes "sync_reach S" "rphase (reps S r) \<noteq> R_CONNECT" "x \<in> set (slaves (mst S))" "cid x = conn (reps S r)"
    "replstate x = REPL_ONLINE"
  defines "f \<equiv> fold receive (sock (mst S) (conn (reps S r)) @ map MByte (out x)) (reps S r)"
  shows "rdata f = dataset (mst S) \<and> rmaster f = Some (runid (mst S), master_repl_offset (mst S)) \<and> rphase f = R_CONNECTED"
proof -
  note i = sync_invD [OF sync_reach_inv [OF assms(1)]]
  let ?g = "fold receive (sock (mst S) (conn (reps S r))) (reps S r)"
  have "linked (mst S) x ?g" using i(9) [OF assms(2)] assms(3,4) by (simp add: conn_ok_def conn_fin_def)
  then obtain off where g: "rphase ?g = R_CONNECTED" "rmaster ?g = Some (runid (mst S), off)"
    "exact (mst S) off (rdata ?g) (out x)" using assms(5) by (auto simp: linked_def)
  have "repl_backlog (mst S) \<noteq> None" by (rule slaves_backlog [OF i(1) assms(3)])
  then have "off + int (length (out x)) = master_repl_offset (mst S)" "rdata ?g @ map Sent (out x) = dataset (mst S)"
    using g(3) by (simp_all add: exact_def getPsync_backlog)
  then show ?thesis using receive_bytes [OF g(1,2)] g(1) by (simp add: f_def)
qed

theorem replica_converges_witness:
  "rdata (fold receive (sock (mst ex_online) (conn (reps ex_online 0)) @ map MByte (out (hd (slaves (mst ex_online)))))
      (reps ex_online 0)) = dataset (mst ex_online) \<and>
   length (dataset (mst ex_online)) = 50"
proof
  have "slaves (mst ex_online) \<noteq> []" by code_simp
  then have x: "hd (slaves (mst ex_online)) \<in> set (slaves (mst ex_online))" by simp
  have o: "rphase (reps ex_online 0) \<noteq> R_CONNECT" "cid (hd (slaves (mst ex_online))) = conn (reps ex_online 0)"
    "replstate (hd (slaves (mst ex_online))) = REPL_ONLINE" by code_simp+
  show "rdata (fold receive (sock (mst ex_online) (conn (reps ex_online 0)) @ map MByte (out (hd (slaves (mst ex_online)))))
      (reps ex_online 0)) = dataset (mst ex_online)"
    using replica_converges [OF ex_online_reach o(1) x o(2,3)] by simp
  show "length (dataset (mst ex_online)) = 50" by code_simp
qed

text \<open>The bytes of the backlog from an offset on.\<close>

lemma backlog_answer:
  assumes "core_inv sn m" "repl_backlog m \<noteq> None" "repl_backlog_off m \<le> off" "off \<le> master_repl_offset m + 1" "1 \<le> off"
  shows "\<exists>D p. addReplyReplicationBacklog off m = Some p \<and> dataset m = D @ map Sent p \<and>
    off + int (length p) = master_repl_offset m + 1"
proof -
  obtain s D where s: "holds m s" "dataset m = D @ map Sent s" using assms(1,2) by (auto simp: core_inv_def)
  obtain N where N: "repl_backlog_off m = master_repl_offset m - int (min (length s) N) + 1" using s(1) by (auto simp: holds_def)
  define n where "n = nat (master_repl_offset m + 1 - off)"
  have n: "n \<le> length s" "int n = master_repl_offset m + 1 - off" using N assms(3,4) by (auto simp: n_def)
  let ?p = "drop (length s - n) s" and ?D = "D @ map Sent (take (length s - n) s)"
  have d: "dataset m = ?D @ map Sent ?p" unfolding s(2) append_assoc map_append [symmetric] append_take_drop_id ..
  have "exact m (off - 1) ?D ?p" using d n assms(2,5) by (simp add: exact_def getPsync_backlog)
  from backlog_serves [OF s(1) _ _ this s(2)] assms(3,4) have "addReplyReplicationBacklog off m = Some ?p" by simp
  with d n show ?thesis by (intro exI [of _ ?D] exI [of _ ?p]) simp
qed

text \<open>
  C18. The backlog is a window on the end of the stream: for every offset from its first byte to the next byte to come,
  what a replica is sent is exactly the end of the history from that offset on, however often the ring has wrapped
  around; and no assertion fails and no loop runs for ever.
\<close>

theorem backlog_window:
  assumes "sync_reach S" "repl_backlog (mst S) \<noteq> None" "repl_backlog_off (mst S) \<le> off"
    "off \<le> master_repl_offset (mst S) + 1" "1 \<le> off"
  shows "\<exists>D p. addReplyReplicationBacklog off (mst S) = Some p \<and> dataset (mst S) = D @ map Sent p \<and>
    off + int (length p) = master_repl_offset (mst S) + 1 \<and> \<not> broken (mst S)"
proof -
  have ci: "core_inv (child_snap (rdb_child (mst S))) (mst S)"
    using sync_invD(1) [OF sync_reach_inv [OF assms(1)]] by (simp add: master_inv_def)
  then have "\<not> broken (mst S)" by (simp add: core_inv_def)
  with backlog_answer [OF ci assms(2-5)] show ?thesis by simp
qed

theorem backlog_window_witness:
  "\<exists>D p. addReplyReplicationBacklog 30 (mst ex_online) = Some p \<and> dataset (mst ex_online) = D @ map Sent p \<and>
    30 + int (length p) = master_repl_offset (mst ex_online) + 1 \<and> \<not> broken (mst ex_online)"
proof (rule backlog_window [OF ex_online_reach])
  show "repl_backlog (mst ex_online) \<noteq> None" by code_simp
  show "repl_backlog_off (mst ex_online) \<le> 30" by code_simp
  show "30 \<le> master_repl_offset (mst ex_online) + 1" by code_simp
qed simp

subsection \<open>Role changes\<close>

text \<open>The two role changes as far as they concern a master with replicas. \<open>masterhost\<close> is set when the link is down or
  \<open>server.master\<close> exists, whose offset is the argument.\<close>

definition replicationSetMaster :: "repl \<Rightarrow> repl" where
  "replicationSetMaster m = (freeReplicationBacklog (m\<lparr>slaves := []\<rparr>))\<lparr>link_down := True, master_repl_offset := 0\<rparr>"

definition replicationUnsetMaster :: "int option \<Rightarrow> repl \<Rightarrow> repl" where
  "replicationUnsetMaster master_off m =
     (if \<not> link_down m \<and> master_off = None then m
      else
        let m = (case master_off of
                   Some off \<Rightarrow> if slaves m = [] then freeReplicationBacklog (m\<lparr>master_repl_offset := off\<rparr>) else m
                 | None \<Rightarrow> m)
        in m\<lparr>link_down := False\<rparr>)"

text \<open>The system with role changes: the master is made a replica of another server, which it does not reach, or a
  replica that is not connected is made a master.\<close>

inductive role_step :: "sys \<Rightarrow> sys \<Rightarrow> bool" where
  Sync: "sync_step S S' \<Longrightarrow> role_step S S'"
| Demote: "role_step S (S\<lparr>mst := replicationSetMaster (mst S)\<rparr>)"
| Promote: "role_step S (S\<lparr>mst := replicationUnsetMaster None (mst S)\<rparr>)"

inductive role_reach :: "sys \<Rightarrow> bool" where
  Init: "sync_init S \<Longrightarrow> role_reach S"
| Step: "role_reach S \<Longrightarrow> role_step S S' \<Longrightarrow> master_repl_offset (mst S') < 2 ^ 62 \<Longrightarrow> role_reach S'"

lemma sync_role: "sync_reach S \<Longrightarrow> role_reach S"
  by (induction rule: sync_reach.induct) (auto intro: role_reach.intros role_step.intros)

lemma role_sync: "role_reach S \<Longrightarrow> sync_step S S' \<Longrightarrow> master_repl_offset (mst S') < 2 ^ 62 \<Longrightarrow> role_reach S'"
  by (rule role_reach.Step [OF _ role_step.Sync])

text \<open>The whole output of the first replica in the list is sent, and a replica reads all there is.\<close>

definition sys_send :: "sys \<Rightarrow> sys" where
  "sys_send S = (let x = hd (slaves (mst S)) in S\<lparr>mst := send_output x (length (out x)) (mst S)\<rparr>)"

definition sys_drain :: "nat \<Rightarrow> sys \<Rightarrow> sys" where
  "sys_drain r S =
     S\<lparr>mst := (mst S)\<lparr>sock := (sock (mst S))(conn (reps S r) := [])\<rparr>,
       reps := (reps S)(r := fold receive (sock (mst S) (conn (reps S r))) (reps S r))\<rparr>"

definition sys_close :: "nat \<Rightarrow> sys \<Rightarrow> sys" where
  "sys_close r S = S\<lparr>mst := repl_free_client (conn (reps S r)) (mst S)\<rparr>"

definition sys_lose :: "nat \<Rightarrow> sys \<Rightarrow> sys" where
  "sys_lose r S = S\<lparr>reps := (reps S)(r := lose_master (reps S r))\<rparr>"

lemma receive_conn: "conn (receive x r) = conn r"
  by (cases x) (auto simp: rconnect_def slaveTryPartialResynchronization_def split: rphase.split option.split)

fun stays :: "msg list \<Rightarrow> replica \<Rightarrow> bool" where
  "stays [] r \<longleftrightarrow> True"
| "stays (x # xs) r \<longleftrightarrow> rphase r \<noteq> R_CONNECT \<and> stays xs (receive x r)"

lemma sys_drain_reach:
  assumes "role_reach S" "stays (sock (mst S) (conn (reps S r))) (reps S r)" "master_repl_offset (mst S) < 2 ^ 62"
  shows "role_reach (sys_drain r S)"
  using assms
proof (induction "sock (mst S) (conn (reps S r))" arbitrary: S)
  case Nil
  then have "sys_drain r S = S" by (simp add: sys_drain_def fun_upd_idem)
  with Nil show ?case by simp
next
  case (Cons x xs)
  define T where "T = S\<lparr>mst := (mst S)\<lparr>sock := (sock (mst S))(conn (reps S r) := xs)\<rparr>,
    reps := (reps S)(r := receive x (reps S r))\<rparr>"
  have st: "rphase (reps S r) \<noteq> R_CONNECT" "stays xs (receive x (reps S r))"
    using Cons.prems(2) Cons.hyps(2) [symmetric] by simp_all
  have T: "role_reach T"
    using role_sync [OF Cons.prems(1) Receive [OF st(1) Cons.hyps(2) [symmetric]]] Cons.prems(3) by (simp add: T_def)
  have xs: "sock (mst T) (conn (reps T r)) = xs" by (simp add: T_def receive_conn)
  have "role_reach (sys_drain r T)"
  proof (rule Cons.hyps(1) [OF _ T])
    show "xs = sock (mst T) (conn (reps T r))" by (rule xs [symmetric])
    show "stays (sock (mst T) (conn (reps T r))) (reps T r)" unfolding xs using st(2) by (simp add: T_def)
    show "master_repl_offset (mst T) < 2 ^ 62" using Cons.prems(3) by (simp add: T_def)
  qed
  moreover have "sys_drain r T = sys_drain r S"
    unfolding sys_drain_def xs unfolding T_def Cons.hyps(2) [symmetric] by (simp add: receive_conn)
  ultimately show ?case by simp
qed

text \<open>Runs of the system, checked action by action.\<close>

datatype act = A_send | A_drain nat | A_close nat | A_lose nat | A_demote | A_promote | A_connect nat | A_saved | A_write

fun act_do :: "act \<Rightarrow> sys \<Rightarrow> sys" where
  "act_do A_send S = sys_send S"
| "act_do (A_drain r) S = sys_drain r S"
| "act_do (A_close r) S = sys_close r S"
| "act_do (A_lose r) S = sys_lose r S"
| "act_do A_demote S = S\<lparr>mst := replicationSetMaster (mst S)\<rparr>"
| "act_do A_promote S = S\<lparr>mst := replicationUnsetMaster None (mst S)\<rparr>"
| "act_do (A_connect r) S = sys_connect r S"
| "act_do A_saved S = S\<lparr>mst := backgroundSaveDoneHandler True (\<lambda>c. True) True (mst S)\<rparr>"
| "act_do A_write S = S\<lparr>mst := write_command 0 ex_write (mst S)\<rparr>"

fun act_ok :: "act \<Rightarrow> sys \<Rightarrow> bool" where
  "act_ok A_send S \<longleftrightarrow>
     (case slaves (mst S) of [] \<Rightarrow> False | x # _ \<Rightarrow> replstate x = REPL_ONLINE \<and> \<not> put_online_on_ack x)"
| "act_ok (A_drain r) S \<longleftrightarrow>
     stays (sock (mst S) (conn (reps S r))) (reps S r) \<and> master_repl_offset (mst S) < 2 ^ 62"
| "act_ok (A_connect r) S \<longleftrightarrow> rphase (reps S r) = R_CONNECT"
| "act_ok _ S \<longleftrightarrow> True"

fun act_run :: "act list \<Rightarrow> sys \<Rightarrow> sys option" and act_next :: "act list \<Rightarrow> sys \<Rightarrow> sys option" where
  "act_run [] S = Some S"
| "act_run (a # as) S = (if act_ok a S then act_next as (act_do a S) else None)"
| "act_next as S = (if master_repl_offset (mst S) < 2 ^ 62 then act_run as S else None)"

lemma act_reach:
  assumes "role_reach S" "act_ok a S" "master_repl_offset (mst (act_do a S)) < 2 ^ 62"
  shows "role_reach (act_do a S)"
proof (cases a)
  case A_send
  then obtain x xs where x: "slaves (mst S) = x # xs" "replstate x = REPL_ONLINE" "\<not> put_online_on_ack x"
    using assms(2) by (auto split: list.splits)
  from role_sync [OF assms(1) Send [OF _ x(2,3)], of "length (out x)"] A_send x(1) assms(3) show ?thesis
    by (simp add: sys_send_def)
next
  case (A_drain r)
  then show ?thesis using sys_drain_reach assms by simp
next
  case (A_close r)
  with role_sync [OF assms(1) Close] assms(3) show ?thesis by (simp add: sys_close_def)
next
  case (A_lose r)
  with role_sync [OF assms(1) Lose] assms(3) show ?thesis by (simp add: sys_lose_def)
next
  case A_demote
  with role_reach.Step [OF assms(1) Demote] assms(3) show ?thesis by simp
next
  case A_promote
  with role_reach.Step [OF assms(1) Promote] assms(3) show ?thesis by simp
next
  case (A_connect r)
  then have "rphase (reps S r) = R_CONNECT" using assms(2) by simp
  from role_sync [OF assms(1) Connect [OF this refl, of True False]] A_connect assms(3) show ?thesis
    by (simp add: sys_connect_def Let_def)
next
  case A_saved
  with role_sync [OF assms(1) SaveDone] assms(3) show ?thesis by simp
next
  case A_write
  have "\<forall>a \<in> set ex_write. repl_arg a" "length ex_write < 2 ^ 62"
    using str_arg_ok by (auto simp: ex_write_def repl_arg_def)
  from role_sync [OF assms(1) Write [OF this]] A_write assms(3) show ?thesis by simp
qed

lemma act_run_reach:
  "role_reach S \<Longrightarrow> act_run as S = Some T \<Longrightarrow> role_reach T"
  "role_reach S \<Longrightarrow> act_next as S = Some T \<Longrightarrow> role_reach T"
  by (induction as S and as S rule: act_run_act_next.induct) (auto intro: act_reach [simplified] split: if_splits)

text \<open>Replica 0 has received the first write and is cut off. The master becomes a replica of another server that it
  cannot reach, and a master again; another replica connects and gets a dump, there is a second write, and the
  first replica comes back and reads what it is sent.\<close>

definition ex_acts :: "act list" where
  "ex_acts = [A_send, A_drain 0, A_close 0, A_lose 0, A_demote, A_promote, A_connect 1, A_saved, A_write,
     A_connect 0, A_drain 0]"

text \<open>A replica that is online, has read everything and agrees with its master on run and offset lacks a
  part of the data.\<close>

definition diverged :: "sys \<Rightarrow> nat \<Rightarrow> slave \<Rightarrow> bytes \<Rightarrow> bool" where
  "diverged S r x lost \<longleftrightarrow> rphase (reps S r) = R_CONNECTED \<and>
     x \<in> set (slaves (mst S)) \<and> cid x = conn (reps S r) \<and> replstate x = REPL_ONLINE \<and>
     out x = [] \<and> sock (mst S) (conn (reps S r)) = [] \<and>
     rmaster (reps S r) = Some (runid (mst S), master_repl_offset (mst S)) \<and>
     dataset (mst S) = rdata (reps S r) @ map Sent lost \<and> lost \<noteq> []"

fun ends_diverged :: "sys option \<Rightarrow> bool" where
  "ends_diverged None = False"
| "ends_diverged (Some S) = diverged S 0 (last (slaves (mst S)))
     (enc_cmd [map of_char ''SELECT'', map of_char ''0''] @ enc_cmd [map of_char ''SET'', [107], [118]])"

text \<open>
  C19. A change of roles breaks the history: with the two role changes added to the steps of the system, a state can
  be reached in which a replica is online and connected, has read all that the master has for it, and is at the
  offset of the master in the same run, but lacks a write. (Without role changes this is excluded by C9.) The master
  keeps its run id when it was a replica in between, but starts counting again, so it accepts an offset of its
  first life.
\<close>

theorem role_change_diverges:
  "\<exists>S r x lost. role_reach S \<and> rphase (reps S r) = R_CONNECTED \<and>
     x \<in> set (slaves (mst S)) \<and> cid x = conn (reps S r) \<and> replstate x = REPL_ONLINE \<and>
     out x = [] \<and> sock (mst S) (conn (reps S r)) = [] \<and>
     rmaster (reps S r) = Some (runid (mst S), master_repl_offset (mst S)) \<and>
     dataset (mst S) = rdata (reps S r) @ map Sent lost \<and> lost \<noteq> []"
proof -
  have "ends_diverged (act_run ex_acts ex_online)" by code_simp
  then obtain S x lost where S: "act_run ex_acts ex_online = Some S" "diverged S 0 x lost"
    by (cases "act_run ex_acts ex_online") auto
  have "role_reach S" by (rule act_run_reach(1) [OF sync_role [OF ex_online_reach] S(1)])
  with S(2) show ?thesis unfolding diverged_def by blast
qed

subsection \<open>Waiting for replicas\<close>

text \<open>\<open>WAIT\<close>: a client that waits has the offset of its last write and the number of replicas it asks for.\<close>

record waiter =
  wclient :: nat
  reploffset :: int
  numreplicas :: int

definition replicationCountAcksByOffset :: "int \<Rightarrow> repl \<Rightarrow> int" where
  "replicationCountAcksByOffset off m =
     int (length (filter (\<lambda>x. replstate x = REPL_ONLINE \<and> ack_off x \<ge> off) (slaves m)))"

text \<open>An answer, or the client joins the waiting ones.\<close>

definition waitCommand :: "bool \<Rightarrow> waiter \<Rightarrow> repl \<Rightarrow> int + waiter" where
  "waitCommand multi_flag c m =
     (let n = replicationCountAcksByOffset (reploffset c) m
      in if n \<ge> numreplicas c \<or> multi_flag then Inl n else Inr c)"

text \<open>The answers, and who still waits.\<close>

fun wait_loop :: "repl \<Rightarrow> int \<Rightarrow> int \<Rightarrow> waiter list \<Rightarrow> (nat \<times> int) list \<times> waiter list" where
  "wait_loop m last_offset last_num [] = ([], [])"
| "wait_loop m last_offset last_num (c # cs) =
     (if last_offset \<noteq> 0 \<and> last_offset > reploffset c \<and> last_num > numreplicas c then
        case wait_loop m last_offset last_num cs of (as, ws) \<Rightarrow> ((wclient c, last_num) # as, ws)
      else
        let n = replicationCountAcksByOffset (reploffset c) m
        in if n \<ge> numreplicas c then
             case wait_loop m (reploffset c) n cs of (as, ws) \<Rightarrow> ((wclient c, n) # as, ws)
           else case wait_loop m last_offset last_num cs of (as, ws) \<Rightarrow> (as, c # ws))"

definition processClientsWaitingReplicas :: "repl \<Rightarrow> waiter list \<Rightarrow> (nat \<times> int) list \<times> waiter list" where
  "processClientsWaitingReplicas m cs = wait_loop m 0 0 cs"

lemma acks_mono: "a \<le> b \<Longrightarrow> replicationCountAcksByOffset b m \<le> replicationCountAcksByOffset a m"
proof -
  assume "a \<le> b"
  then have "length (filter (\<lambda>x. replstate x = REPL_ONLINE \<and> ack_off x \<ge> b) xs) \<le>
    length (filter (\<lambda>x. replstate x = REPL_ONLINE \<and> ack_off x \<ge> a) xs)" for xs :: "slave list"
    by (induction xs) auto
  then show ?thesis by (simp add: replicationCountAcksByOffset_def)
qed

text \<open>The clients that are released, and what they are told.\<close>

definition released :: "repl \<Rightarrow> waiter list \<Rightarrow> waiter list" where
  "released m cs = filter (\<lambda>c. numreplicas c \<le> replicationCountAcksByOffset (reploffset c) m) cs"

definition told :: "repl \<Rightarrow> waiter \<Rightarrow> nat \<times> int \<Rightarrow> bool" where
  "told m c a \<longleftrightarrow> fst a = wclient c \<and> numreplicas c \<le> snd a \<and> snd a \<le> replicationCountAcksByOffset (reploffset c) m"

lemma wait_loop_ok:
  assumes "last_offset \<noteq> 0 \<Longrightarrow> last_num = replicationCountAcksByOffset last_offset m"
  shows "snd (wait_loop m last_offset last_num cs) =
      filter (\<lambda>c. replicationCountAcksByOffset (reploffset c) m < numreplicas c) cs \<and>
    list_all2 (told m) (released m cs) (fst (wait_loop m last_offset last_num cs))"
  using assms
proof (induction m last_offset last_num cs rule: wait_loop.induct)
  case (2 m last_offset last_num c cs)
  let ?n = "replicationCountAcksByOffset (reploffset c) m"
  show ?case
  proof (cases "last_offset \<noteq> 0 \<and> last_offset > reploffset c \<and> last_num > numreplicas c")
    case True
    then have "last_num \<le> ?n"
      using acks_mono [of "reploffset c" last_offset m] 2(4) by simp
    with True 2(1) [OF True 2(4)] show ?thesis
      by (auto simp: released_def told_def split: prod.splits)
  next
    case f: False
    show ?thesis
    proof (cases "?n \<ge> numreplicas c")
      case True
      with f 2(2) [OF f refl True] show ?thesis
        by (auto simp: Let_def released_def told_def split: prod.splits)
    next
      case False
      with f 2(3) [OF f refl False 2(4)] show ?thesis
        by (auto simp: Let_def released_def split: prod.splits)
    qed
  qed
qed (simp add: released_def)

text \<open>
  C24. \<open>WAIT\<close> is answered to exactly the clients whose last write enough replicas have acknowledged, each of them
  once and in the order in which they wait, with a number that is at least what was asked for and at most what
  was acknowledged; the others go on waiting. The shortcut for clients behind a satisfied one never answers
  too early, and forgets nobody.
\<close>

theorem wait_answers:
  "case processClientsWaitingReplicas m cs of (answers, blocked) \<Rightarrow>
     blocked = filter (\<lambda>c. replicationCountAcksByOffset (reploffset c) m < numreplicas c) cs \<and>
     list_all2 (\<lambda>c (i, n). i = wclient c \<and> numreplicas c \<le> n \<and> n \<le> replicationCountAcksByOffset (reploffset c) m)
       (filter (\<lambda>c. numreplicas c \<le> replicationCountAcksByOffset (reploffset c) m) cs) answers"
proof -
  have "told m = (\<lambda>c (i, n). i = wclient c \<and> numreplicas c \<le> n \<and> n \<le> replicationCountAcksByOffset (reploffset c) m)"
    by (auto simp: told_def fun_eq_iff)
  with wait_loop_ok [of 0 0 m cs] show ?thesis
    unfolding processClientsWaitingReplicas_def released_def by (auto split: prod.split)
qed

end
