(* ===== verification/Cluster.thy ===== *)
theory Cluster
  imports Prelude
begin

text \<open>
  The cluster bus (\<open>src/src/src/cluster.c\<close>, \<open>cluster.h\<close>): what a node knows of the others, the table of the
  hash slots, the processing of packets, the detection of failures, and the election in which a
  replica takes over the slots of its failed master. Names of nodes are numbers, ordered as \<open>memcmp\<close>
  orders them. The nodes of a cluster know each other: the handshake, the addresses, and \<open>CLUSTER FORGET\<close>
  are not modelled. Epochs are natural numbers, as \<open>2 ^ 64\<close> elections do not happen. A bitmap of slots is
  a set of numbers below \<open>REDIS_CLUSTER_SLOTS\<close>, and a loop that tests each bit visits its elements in order.
\<close>

subsection \<open>State\<close>

record cnode =
  is_master :: bool
  is_slave :: bool
  nfail :: bool
  pfail :: bool
  handshake :: bool
  has_link :: bool
  configEpoch :: nat
  bitmap :: "nat set"
  numslots :: int
  replicas :: "nat list"
  slaveof :: "nat option"
  ping_sent :: int
  pong_received :: int
  fail_time :: int
  voted_time :: int
  repl_offset :: int
  fail_reports :: "(nat \<times> int) list"

text \<open>The packets: the fields of the header and of the body that are read. A gossip entry has a name
  and whether one of the flags \<open>FAIL\<close> and \<open>PFAIL\<close> is set.\<close>

datatype body =
    PING "(nat \<times> bool) list"
  | PONG "(nat \<times> bool) list"
  | FAIL nat
  | AUTH_REQUEST
  | AUTH_ACK
  | MFSTART
  | UPDATE nat nat "nat set"

record cmsg =
  sender :: nat
  msgEpoch :: nat
  msgConfigEpoch :: nat
  myslots :: "nat set"
  msg_slaveof :: "nat option"
  msg_offset :: int
  flag_paused :: bool
  flag_forceack :: bool
  body :: body

text \<open>What a function does besides changing the state: packets sent, calls of other files.\<close>

datatype effect =
    Post nat cmsg
  | SetReplication nat
  | UnsetReplication
  | DelKeysInSlot nat
  | PauseClients int
  | Unpause

text \<open>What is saved in \<open>nodes.conf\<close>, and \<open>clusterState\<close>. \<open>names\<close> are the keys of the dictionary of nodes.\<close>

record cfile =
  saved_epoch :: nat
  saved_vote :: nat
  saved_nodes :: "nat \<Rightarrow> cnode"
  saved_importing :: "nat \<Rightarrow> bool"

record cstate =
  myself :: nat
  names :: "nat list"
  nodes :: "nat \<Rightarrow> cnode"
  currentEpoch :: nat
  state_ok :: bool
  csize :: int
  slot_owner :: "nat \<Rightarrow> nat option"
  importing :: "nat \<Rightarrow> bool"
  failover_auth_time :: int
  failover_auth_count :: int
  failover_auth_sent :: bool
  failover_auth_rank :: int
  failover_auth_epoch :: nat
  mf_end :: int
  mf_slave :: "nat option"
  mf_master_offset :: int
  mf_can_start :: bool
  lastVoteEpoch :: nat
  todo_failover :: bool
  todo_update :: bool
  todo_save :: bool
  among_minority_time :: int
  first_call_time :: int
  config_file :: cfile
  effects :: "effect list"
  assert_failed :: bool

text \<open>What a call reads from outside: the clock, a random number below 500, the offsets of replication,
  the seconds since the last contact with the master, the nodes picked for the gossip of each packet, the
  keys in each slot, and the configuration.\<close>

record cenv =
  now :: int
  random500 :: int
  slave_offset :: int
  master_offset :: int
  seconds_apart :: int
  picks :: "nat \<Rightarrow> nat list"
  keys_in_slot :: "nat \<Rightarrow> nat"
  node_timeout :: int
  validity_factor :: int
  ping_period :: int
  full_coverage :: bool

definition SLOTS :: nat where "SLOTS = 16384"

definition me :: "cstate \<Rightarrow> cnode" where "me st = nodes st (myself st)"

definition upd_node :: "nat \<Rightarrow> (cnode \<Rightarrow> cnode) \<Rightarrow> cstate \<Rightarrow> cstate" where
  "upd_node n f st = st\<lparr>nodes := (nodes st)(n := f (nodes st n))\<rparr>"

definition emit :: "effect \<Rightarrow> cstate \<Rightarrow> cstate" where
  "emit e st = st\<lparr>effects := effects st @ [e]\<rparr>"

definition cassert :: "bool \<Rightarrow> cstate \<Rightarrow> cstate" where
  "cassert b st = (if b then st else st\<lparr>assert_failed := True\<rparr>)"

definition clusterLookupNode :: "nat \<Rightarrow> cstate \<Rightarrow> nat option" where
  "clusterLookupNode n st = (if n \<in> set (names st) then Some n else None)"

subsection \<open>Slots\<close>

definition clusterNodeSetSlotBit :: "nat \<Rightarrow> nat \<Rightarrow> cstate \<Rightarrow> bool \<times> cstate" where
  "clusterNodeSetSlotBit n j st =
     (let old = (j \<in> bitmap (nodes st n))
      in (old, upd_node n (\<lambda>x. x\<lparr>bitmap := insert j (bitmap x),
                              numslots := (if old then numslots x else numslots x + 1)\<rparr>) st))"

definition clusterNodeClearSlotBit :: "nat \<Rightarrow> nat \<Rightarrow> cstate \<Rightarrow> bool \<times> cstate" where
  "clusterNodeClearSlotBit n j st =
     (let old = (j \<in> bitmap (nodes st n))
      in (old, upd_node n (\<lambda>x. x\<lparr>bitmap := bitmap x - {j},
                              numslots := (if old then numslots x - 1 else numslots x)\<rparr>) st))"

definition clusterAddSlot :: "nat \<Rightarrow> nat \<Rightarrow> cstate \<Rightarrow> bool \<times> cstate" where
  "clusterAddSlot n j st =
     (if slot_owner st j \<noteq> None then (False, st)
      else
        let st = snd (clusterNodeSetSlotBit n j st)
        in (True, st\<lparr>slot_owner := (slot_owner st)(j := Some n)\<rparr>))"

definition clusterDelSlot :: "nat \<Rightarrow> cstate \<Rightarrow> bool \<times> cstate" where
  "clusterDelSlot j st =
     (case slot_owner st j of
        None \<Rightarrow> (False, st)
      | Some n \<Rightarrow>
          case clusterNodeClearSlotBit n j st of
            (old, st) \<Rightarrow>
              let st = cassert old st
              in (True, st\<lparr>slot_owner := (slot_owner st)(j := None)\<rparr>))"

definition clusterDelNodeSlots :: "nat \<Rightarrow> cstate \<Rightarrow> cstate" where
  "clusterDelNodeSlots n st =
     fold (\<lambda>j st. if j \<in> bitmap (nodes st n) then snd (clusterDelSlot j st) else st)
       (sorted_list_of_set (bitmap (nodes st n))) st"

definition clusterCloseAllSlots :: "cstate \<Rightarrow> cstate" where
  "clusterCloseAllSlots st = st\<lparr>importing := (\<lambda>_. False)\<rparr>"

subsection \<open>Masters and replicas\<close>

definition clusterNodeRemoveSlave :: "nat \<Rightarrow> nat \<Rightarrow> cstate \<Rightarrow> cstate" where
  "clusterNodeRemoveSlave m n = upd_node m (\<lambda>x. x\<lparr>replicas := remove1 n (replicas x)\<rparr>)"

definition clusterNodeAddSlave :: "nat \<Rightarrow> nat \<Rightarrow> cstate \<Rightarrow> cstate" where
  "clusterNodeAddSlave m n = upd_node m (\<lambda>x. if n \<in> set (replicas x) then x else x\<lparr>replicas := replicas x @ [n]\<rparr>)"

definition clusterNodeResetSlaves :: "nat \<Rightarrow> cstate \<Rightarrow> cstate" where
  "clusterNodeResetSlaves n = upd_node n (\<lambda>x. x\<lparr>replicas := []\<rparr>)"

definition clusterSetNodeAsMaster :: "nat \<Rightarrow> cstate \<Rightarrow> cstate" where
  "clusterSetNodeAsMaster n st =
     (if is_master (nodes st n) then st
      else
        let st = (case slaveof (nodes st n) of None \<Rightarrow> st | Some m \<Rightarrow> clusterNodeRemoveSlave m n st);
            st = upd_node n (\<lambda>x. x\<lparr>is_slave := False, is_master := True, slaveof := None\<rparr>) st
        in st\<lparr>todo_save := True, todo_update := True\<rparr>)"

definition resetManualFailover :: "cstate \<Rightarrow> cstate" where
  "resetManualFailover st =
     (let st = (if mf_end st \<noteq> 0 then emit Unpause st else st)
      in st\<lparr>mf_end := 0, mf_can_start := False, mf_slave := None, mf_master_offset := 0\<rparr>)"

definition clusterSetMaster :: "nat \<Rightarrow> cstate \<Rightarrow> cstate" where
  "clusterSetMaster n st =
     (let st = cassert (n \<noteq> myself st) st;
          st = cassert (numslots (me st) = 0) st;
          st = (if is_master (me st) then
                  clusterCloseAllSlots (upd_node (myself st) (\<lambda>x. x\<lparr>is_master := False, is_slave := True\<rparr>) st)
                else case slaveof (me st) of None \<Rightarrow> st | Some m \<Rightarrow> clusterNodeRemoveSlave m (myself st) st);
          st = upd_node (myself st) (\<lambda>x. x\<lparr>slaveof := Some n\<rparr>) st;
          st = clusterNodeAddSlave n (myself st) st;
          st = emit (SetReplication n) st
      in resetManualFailover st)"

subsection \<open>The state of the cluster and its file\<close>

definition voting :: "cnode \<Rightarrow> bool" where
  "voting x \<longleftrightarrow> is_master x \<and> numslots x \<noteq> 0"

definition clusterUpdateState :: "cenv \<Rightarrow> cstate \<Rightarrow> cstate" where
  "clusterUpdateState env st =
     (let st = st\<lparr>todo_update := False\<rparr>;
          st = (if first_call_time st = 0 then st\<lparr>first_call_time := now env\<rparr> else st)
      in
      if is_master (me st) \<and> \<not> state_ok st \<and> now env - first_call_time st < 2000 then st
      else
        let covered = (if full_coverage env then
              list_all (\<lambda>j. case slot_owner st j of None \<Rightarrow> False | Some n \<Rightarrow> \<not> nfail (nodes st n)) [0..<SLOTS] else True);
            masters = filter (\<lambda>n. voting (nodes st n)) (names st);
            reachable = filter (\<lambda>n. \<not> (nfail (nodes st n) \<or> pfail (nodes st n))) masters;
            st = st\<lparr>csize := int (length masters)\<rparr>;
            minority = (int (length reachable) < csize st div 2 + 1);
            new_ok = (covered \<and> \<not> minority);
            st = (if minority then st\<lparr>among_minority_time := now env\<rparr> else st)
        in
        if new_ok = state_ok st then st
        else
          let rejoin_delay = min (node_timeout env) 5000;
              rejoin_delay = max rejoin_delay 500
          in if new_ok \<and> is_master (me st) \<and> now env - among_minority_time st < rejoin_delay then st
             else st\<lparr>state_ok := new_ok\<rparr>)"

definition clusterSaveConfig :: "cstate \<Rightarrow> cstate" where
  "clusterSaveConfig st =
     st\<lparr>todo_save := False,
        config_file := \<lparr>saved_epoch = currentEpoch st, saved_vote = lastVoteEpoch st, saved_nodes = nodes st,
          saved_importing = importing st\<rparr>\<rparr>"

definition clusterGetMaxEpoch :: "cstate \<Rightarrow> nat" where
  "clusterGetMaxEpoch st =
     (let m = foldl (\<lambda>m n. if configEpoch (nodes st n) > m then configEpoch (nodes st n) else m) 0 (names st)
      in if m < currentEpoch st then currentEpoch st else m)"

definition clusterBumpConfigEpochWithoutConsensus :: "cstate \<Rightarrow> bool \<times> cstate" where
  "clusterBumpConfigEpochWithoutConsensus st =
     (let maxEpoch = clusterGetMaxEpoch st in
      if configEpoch (me st) = 0 \<or> configEpoch (me st) \<noteq> maxEpoch then
        let st = st\<lparr>currentEpoch := currentEpoch st + 1\<rparr>;
            st = upd_node (myself st) (\<lambda>x. x\<lparr>configEpoch := currentEpoch st\<rparr>) st
        in (True, st\<lparr>todo_save := True\<rparr>)
      else (False, st))"

definition clusterHandleConfigEpochCollision :: "nat \<Rightarrow> cstate \<Rightarrow> cstate" where
  "clusterHandleConfigEpochCollision n st =
     (if configEpoch (nodes st n) \<noteq> configEpoch (me st) \<or> \<not> is_master (nodes st n) \<or> \<not> is_master (me st) then st
      else if n \<le> myself st then st
      else
        let st = st\<lparr>currentEpoch := currentEpoch st + 1\<rparr>;
            st = upd_node (myself st) (\<lambda>x. x\<lparr>configEpoch := currentEpoch st\<rparr>) st
        in clusterSaveConfig st)"

text \<open>A start of the server reads the file: what it does not hold has the values of \<open>createClusterNode\<close>.\<close>

definition loaded_node :: "cenv \<Rightarrow> cnode \<Rightarrow> cnode" where
  "loaded_node env x =
     x\<lparr>has_link := False, ping_sent := 0, pong_received := 0, fail_time := (if nfail x then now env else 0),
       voted_time := 0, repl_offset := 0, fail_reports := []\<rparr>"

definition clusterInit :: "cenv \<Rightarrow> cstate \<Rightarrow> cstate" where
  "clusterInit env st =
     (let f = config_file st;
          st = st\<lparr>state_ok := False, csize := 1, todo_failover := False, todo_update := False, todo_save := False,
            failover_auth_time := 0, failover_auth_count := 0, failover_auth_sent := False, failover_auth_rank := 0,
            failover_auth_epoch := 0, importing := saved_importing f, among_minority_time := 0, first_call_time := 0,
            nodes := (\<lambda>n. loaded_node env (saved_nodes f n)),
            slot_owner := (\<lambda>j. find (\<lambda>n. j \<in> bitmap (saved_nodes f n)) (names st)),
            currentEpoch := saved_epoch f, lastVoteEpoch := saved_vote f, effects := [],
            mf_end := 0, mf_can_start := False, mf_slave := None, mf_master_offset := 0\<rparr>
      in if clusterGetMaxEpoch st > currentEpoch st then st\<lparr>currentEpoch := clusterGetMaxEpoch st\<rparr> else st)"

subsection \<open>Packets\<close>

definition clusterBuildMessageHdr :: "cenv \<Rightarrow> body \<Rightarrow> cstate \<Rightarrow> cmsg" where
  "clusterBuildMessageHdr env b st =
     (let master = (case slaveof (me st) of Some m \<Rightarrow> if is_slave (me st) then m else myself st | None \<Rightarrow> myself st)
      in \<lparr>sender = myself st, msgEpoch = currentEpoch st, msgConfigEpoch = configEpoch (nodes st master),
          myslots = bitmap (nodes st master), msg_slaveof = slaveof (me st),
          msg_offset = (if is_slave (me st) then slave_offset env else master_offset env),
          flag_paused = (is_master (me st) \<and> mf_end st \<noteq> 0), flag_forceack = False, body = b\<rparr>)"

text \<open>To a node whose link exists.\<close>

definition send_to :: "nat \<Rightarrow> cmsg \<Rightarrow> cstate \<Rightarrow> cstate" where
  "send_to n m st = (if has_link (nodes st n) then emit (Post n m) st else st)"

definition clusterBroadcastMessage :: "cmsg \<Rightarrow> cstate \<Rightarrow> cstate" where
  "clusterBroadcastMessage m st =
     fold (\<lambda>n st. if n = myself st \<or> handshake (nodes st n) then st else send_to n m st) (names st) st"

definition gossip :: "cenv \<Rightarrow> nat \<Rightarrow> cstate \<Rightarrow> (nat \<times> bool) list" where
  "gossip env n st = map (\<lambda>i. (i, nfail (nodes st i) \<or> pfail (nodes st i))) (picks env n)"

definition clusterBroadcastPong :: "cenv \<Rightarrow> bool \<Rightarrow> cstate \<Rightarrow> cstate" where
  "clusterBroadcastPong env local_slaves st =
     fold (\<lambda>n st.
        if n = myself st \<or> handshake (nodes st n) then st
        else if local_slaves \<and> \<not> (is_slave (nodes st n) \<and> slaveof (nodes st n) \<noteq> None \<and>
                  (slaveof (nodes st n) = Some (myself st) \<or> slaveof (nodes st n) = slaveof (me st))) then st
        else send_to n (clusterBuildMessageHdr env (PONG (gossip env n st)) st) st)
       (names st) st"

text \<open>A \<open>PING\<close>, and a link that \<open>clusterCron\<close> opens or drops.\<close>

definition send_ping :: "cenv \<Rightarrow> nat \<Rightarrow> cstate \<Rightarrow> cstate" where
  "send_ping env n st =
     (if has_link (nodes st n) then
        let st = upd_node n (\<lambda>x. x\<lparr>ping_sent := now env\<rparr>) st
        in send_to n (clusterBuildMessageHdr env (PING (gossip env n st)) st) st
      else st)"

definition set_link :: "nat \<Rightarrow> bool \<Rightarrow> cstate \<Rightarrow> cstate" where
  "set_link n up = upd_node n (\<lambda>x. x\<lparr>has_link := up\<rparr>)"

definition clusterSendFail :: "cenv \<Rightarrow> nat \<Rightarrow> cstate \<Rightarrow> cstate" where
  "clusterSendFail env n st = clusterBroadcastMessage (clusterBuildMessageHdr env (FAIL n) st) st"

definition clusterSendUpdate :: "cenv \<Rightarrow> nat \<Rightarrow> nat \<Rightarrow> cstate \<Rightarrow> cstate" where
  "clusterSendUpdate env to_node n st =
     send_to to_node (clusterBuildMessageHdr env (UPDATE n (configEpoch (nodes st n)) (bitmap (nodes st n))) st) st"

definition clusterSendMFStart :: "cenv \<Rightarrow> nat \<Rightarrow> cstate \<Rightarrow> cstate" where
  "clusterSendMFStart env n st = send_to n (clusterBuildMessageHdr env MFSTART st) st"

subsection \<open>Failures\<close>

text \<open>The first entry of a list with a name.\<close>

fun update_first :: "nat \<Rightarrow> int \<Rightarrow> (nat \<times> int) list \<Rightarrow> (nat \<times> int) list option" where
  "update_first n t [] = None"
| "update_first n t ((i, u) # rs) =
     (if i = n then Some ((i, t) # rs) else map_option (Cons (i, u)) (update_first n t rs))"

fun delete_first :: "nat \<Rightarrow> (nat \<times> int) list \<Rightarrow> (nat \<times> int) list option" where
  "delete_first n [] = None"
| "delete_first n ((i, u) # rs) = (if i = n then Some rs else map_option (Cons (i, u)) (delete_first n rs))"

definition clusterNodeAddFailureReport :: "cenv \<Rightarrow> nat \<Rightarrow> nat \<Rightarrow> cstate \<Rightarrow> cstate" where
  "clusterNodeAddFailureReport env failing n =
     upd_node failing (\<lambda>x. x\<lparr>fail_reports :=
       (case update_first n (now env) (fail_reports x) of
          Some rs \<Rightarrow> rs
        | None \<Rightarrow> fail_reports x @ [(n, now env)])\<rparr>)"

definition clusterNodeCleanupFailureReports :: "cenv \<Rightarrow> nat \<Rightarrow> cstate \<Rightarrow> cstate" where
  "clusterNodeCleanupFailureReports env n =
     upd_node n (\<lambda>x. x\<lparr>fail_reports := filter (\<lambda>(i, t). \<not> now env - t > node_timeout env * 2) (fail_reports x)\<rparr>)"

definition clusterNodeDelFailureReport :: "cenv \<Rightarrow> nat \<Rightarrow> nat \<Rightarrow> cstate \<Rightarrow> cstate" where
  "clusterNodeDelFailureReport env n reporter st =
     (case delete_first reporter (fail_reports (nodes st n)) of
        None \<Rightarrow> st
      | Some rs \<Rightarrow> clusterNodeCleanupFailureReports env n (upd_node n (\<lambda>x. x\<lparr>fail_reports := rs\<rparr>) st))"

definition clusterNodeFailureReportsCount :: "cenv \<Rightarrow> nat \<Rightarrow> cstate \<Rightarrow> int \<times> cstate" where
  "clusterNodeFailureReportsCount env n st =
     (let st = clusterNodeCleanupFailureReports env n st in (int (length (fail_reports (nodes st n))), st))"

definition markNodeAsFailingIfNeeded :: "cenv \<Rightarrow> nat \<Rightarrow> cstate \<Rightarrow> cstate" where
  "markNodeAsFailingIfNeeded env n st =
     (let needed_quorum = csize st div 2 + 1 in
      if \<not> pfail (nodes st n) then st
      else if nfail (nodes st n) then st
      else
        case clusterNodeFailureReportsCount env n st of
          (failures, st) \<Rightarrow>
            let failures = (if is_master (me st) then failures + 1 else failures) in
            if failures < needed_quorum then st
            else
              let st = upd_node n (\<lambda>x. x\<lparr>pfail := False, nfail := True, fail_time := now env\<rparr>) st;
                  st = (if is_master (me st) then clusterSendFail env n st else st)
              in st\<lparr>todo_update := True, todo_save := True\<rparr>)"

definition clear_fail :: "nat \<Rightarrow> cstate \<Rightarrow> cstate" where
  "clear_fail n st = (upd_node n (\<lambda>x. x\<lparr>nfail := False\<rparr>) st)\<lparr>todo_update := True, todo_save := True\<rparr>"

definition clearNodeFailureIfNeeded :: "cenv \<Rightarrow> nat \<Rightarrow> cstate \<Rightarrow> cstate" where
  "clearNodeFailureIfNeeded env n st =
     (let st = cassert (nfail (nodes st n)) st;
          st = (if is_slave (nodes st n) \<or> numslots (nodes st n) = 0 then clear_fail n st else st)
      in if is_master (nodes st n) \<and> numslots (nodes st n) > 0 \<and> now env - fail_time (nodes st n) > node_timeout env * 2
         then clear_fail n st else st)"

text \<open>The entries about known nodes; \<open>from\<close> is the node of the link or the sender.\<close>

definition gossip_entry :: "cenv \<Rightarrow> nat option \<Rightarrow> nat \<times> bool \<Rightarrow> cstate \<Rightarrow> cstate" where
  "gossip_entry env from_node g st =
     (case g of (n, failing) \<Rightarrow>
        case (clusterLookupNode n st, from_node) of
          (Some n, Some s) \<Rightarrow>
            if is_master (nodes st s) \<and> n \<noteq> myself st then
              if failing then markNodeAsFailingIfNeeded env n (clusterNodeAddFailureReport env n s st)
              else clusterNodeDelFailureReport env n s st
            else st
        | _ \<Rightarrow> st)"

definition clusterProcessGossipSection :: "cenv \<Rightarrow> nat option \<Rightarrow> nat \<Rightarrow> (nat \<times> bool) list \<Rightarrow> cstate \<Rightarrow> cstate" where
  "clusterProcessGossipSection env link_node s gs st =
     (let from_node = (case link_node of Some n \<Rightarrow> Some n | None \<Rightarrow> clusterLookupNode s st)
      in fold (gossip_entry env from_node) gs st)"

subsection \<open>Packets that change the table of slots\<close>

text \<open>One bit of \<open>clusterUpdateSlotsConfigWith\<close>. With the state: whether the table of \<open>curmaster\<close> lost a slot, and the
  lost slots that still have keys.\<close>

definition update_slot ::
  "cenv \<Rightarrow> nat \<Rightarrow> nat \<Rightarrow> nat option \<Rightarrow> nat \<Rightarrow> bool \<times> nat list \<times> cstate \<Rightarrow> bool \<times> nat list \<times> cstate" where
  "update_slot env n epoch curmaster j acc =
     (case acc of (newmaster, dirty_slots, st) \<Rightarrow>
        if slot_owner st j = Some n then acc
        else if importing st j then acc
        else if (case slot_owner st j of None \<Rightarrow> True | Some x \<Rightarrow> configEpoch (nodes st x) < epoch) then
          let dirty_slots = (if slot_owner st j = Some (myself st) \<and> keys_in_slot env j \<noteq> 0 \<and> n \<noteq> myself st
                             then dirty_slots @ [j] else dirty_slots);
              newmaster = (if slot_owner st j = curmaster then True else newmaster);
              st = snd (clusterDelSlot j st);
              st = snd (clusterAddSlot n j st)
          in (newmaster, dirty_slots, st\<lparr>todo_save := True, todo_update := True\<rparr>)
        else acc)"

text \<open>\<open>curmaster\<close> is dereferenced if there is a new master; the null pointer fails.\<close>

definition clusterUpdateSlotsConfigWith :: "cenv \<Rightarrow> nat \<Rightarrow> nat \<Rightarrow> nat set \<Rightarrow> cstate \<Rightarrow> cstate" where
  "clusterUpdateSlotsConfigWith env n epoch claimed st =
     (let curmaster = (if is_master (me st) then Some (myself st) else slaveof (me st)) in
      if n = myself st then st
      else
        case fold (update_slot env n epoch curmaster) (sorted_list_of_set claimed) (False, [], st) of
          (newmaster, dirty_slots, st) \<Rightarrow>
            let left = (case curmaster of None \<Rightarrow> False | Some m \<Rightarrow> numslots (nodes st m) = 0);
                st = cassert (newmaster \<longrightarrow> curmaster \<noteq> None) st
            in if newmaster \<and> left then (clusterSetMaster n st)\<lparr>todo_save := True, todo_update := True\<rparr>
               else fold (\<lambda>j. emit (DelKeysInSlot j)) dirty_slots st)"

subsection \<open>Votes\<close>

definition clusterRequestFailoverAuth :: "cenv \<Rightarrow> cstate \<Rightarrow> cstate" where
  "clusterRequestFailoverAuth env st =
     (let m = clusterBuildMessageHdr env AUTH_REQUEST st;
          m = (if mf_end st \<noteq> 0 then m\<lparr>flag_forceack := True\<rparr> else m)
      in clusterBroadcastMessage m st)"

definition clusterSendFailoverAuth :: "cenv \<Rightarrow> nat \<Rightarrow> cstate \<Rightarrow> cstate" where
  "clusterSendFailoverAuth env n st = send_to n (clusterBuildMessageHdr env AUTH_ACK st) st"

text \<open>The vote: \<open>n\<close> is the replica that asks.\<close>

definition clusterSendFailoverAuthIfNeeded :: "cenv \<Rightarrow> nat \<Rightarrow> cmsg \<Rightarrow> cstate \<Rightarrow> cstate" where
  "clusterSendFailoverAuthIfNeeded env n m st =
     (let master = slaveof (nodes st n) in
      if is_slave (me st) \<or> numslots (me st) = 0 then st
      else if msgEpoch m < currentEpoch st then st
      else if lastVoteEpoch st = currentEpoch st then st
      else if is_master (nodes st n) \<or> master = None \<or> (\<not> nfail (nodes st (the master)) \<and> \<not> flag_forceack m) then st
      else if now env - voted_time (nodes st (the master)) < node_timeout env * 2 then st
      else if \<exists>j \<in> myslots m. case slot_owner st j of None \<Rightarrow> False
              | Some x \<Rightarrow> \<not> configEpoch (nodes st x) \<le> msgConfigEpoch m then st
      else
        let st = clusterSendFailoverAuth env n st;
            st = st\<lparr>lastVoteEpoch := currentEpoch st\<rparr>
        in upd_node (the master) (\<lambda>x. x\<lparr>voted_time := now env\<rparr>) st)"

subsection \<open>Processing a packet\<close>

text \<open>What every packet of a known node tells. The result is the pair of epochs, \<open>0\<close> for others.\<close>

definition packet_header :: "cenv \<Rightarrow> cmsg \<Rightarrow> cstate \<Rightarrow> nat \<times> nat \<times> cstate" where
  "packet_header env m st =
     (if sender m \<in> set (names st) \<and> \<not> handshake (nodes st (sender m)) then
        let st = (if msgEpoch m > currentEpoch st then st\<lparr>currentEpoch := msgEpoch m\<rparr> else st);
            st = (if msgConfigEpoch m > configEpoch (nodes st (sender m))
                  then (upd_node (sender m) (\<lambda>x. x\<lparr>configEpoch := msgConfigEpoch m\<rparr>) st)\<lparr>todo_save := True\<rparr> else st);
            st = upd_node (sender m) (\<lambda>x. x\<lparr>repl_offset := msg_offset m\<rparr>) st;
            st = (if mf_end st \<noteq> 0 \<and> is_slave (me st) \<and> slaveof (me st) = Some (sender m) \<and> flag_paused m \<and>
                     mf_master_offset st = 0
                  then st\<lparr>mf_master_offset := msg_offset m\<rparr> else st)
        in (msgEpoch m, msgConfigEpoch m, st)
      else (0, 0, st))"

definition role_switch :: "cmsg \<Rightarrow> cstate \<Rightarrow> cstate" where
  "role_switch m st =
     (let n = sender m in
      case msg_slaveof m of
        None \<Rightarrow> clusterSetNodeAsMaster n st
      | Some master_name \<Rightarrow>
          let st = (if is_master (nodes st n) then
                      let st = clusterDelNodeSlots n st;
                          st = upd_node n (\<lambda>x. x\<lparr>is_master := False, is_slave := True\<rparr>) st;
                          st = (if replicas (nodes st n) \<noteq> [] then clusterNodeResetSlaves n st else st)
                      in st\<lparr>todo_save := True, todo_update := True\<rparr>
                    else st)
          in case clusterLookupNode master_name st of
               None \<Rightarrow> st
             | Some master \<Rightarrow>
                 if slaveof (nodes st n) \<noteq> Some master then
                   let st = (case slaveof (nodes st n) of None \<Rightarrow> st | Some o1 \<Rightarrow> clusterNodeRemoveSlave o1 n st);
                       st = clusterNodeAddSlave master n st
                   in (upd_node n (\<lambda>x. x\<lparr>slaveof := Some master\<rparr>) st)\<lparr>todo_save := True\<rparr>
                 else st)"

text \<open>The slots that the sender claims, \<open>epoch\<close> as read from the header.\<close>

definition slots_info :: "cenv \<Rightarrow> cmsg \<Rightarrow> nat \<Rightarrow> cstate \<Rightarrow> cstate" where
  "slots_info env m epoch st =
     (let n = sender m;
          sender_master = (if is_master (nodes st n) then Some n else slaveof (nodes st n));
          dirty_slots = (case sender_master of None \<Rightarrow> False | Some x \<Rightarrow> bitmap (nodes st x) \<noteq> myslots m);
          st = (if is_master (nodes st n) \<and> dirty_slots then clusterUpdateSlotsConfigWith env n epoch (myslots m) st else st)
      in if dirty_slots then
           case find (\<lambda>j. case slot_owner st j of None \<Rightarrow> False
                          | Some x \<Rightarrow> x \<noteq> n \<and> configEpoch (nodes st x) > epoch)
                  (sorted_list_of_set (myslots m)) of
             None \<Rightarrow> st
           | Some j \<Rightarrow> clusterSendUpdate env n (the (slot_owner st j)) st
         else st)"

text \<open>\<open>PING\<close> and \<open>PONG\<close>. \<open>link_node\<close> is the node of the link, which an incoming link does not have.\<close>

definition process_ping ::
  "cenv \<Rightarrow> nat option \<Rightarrow> cmsg \<Rightarrow> bool \<Rightarrow> nat \<Rightarrow> (nat \<times> bool) list \<Rightarrow> cstate \<Rightarrow> cstate" where
  "process_ping env link_node m pong epoch gs st =
     (let n = sender m;
          st = (if pong then st else emit (Post n (clusterBuildMessageHdr env (PONG (gossip env n st)) st)) st)
      in
      if link_node \<noteq> None \<and> link_node \<noteq> Some n then
        (upd_node (the link_node) (\<lambda>x. x\<lparr>has_link := False\<rparr>) st)\<lparr>todo_save := True\<rparr>
      else
        let st = (case link_node of
                    Some x \<Rightarrow>
                      if pong then
                        let st = upd_node x (\<lambda>x. x\<lparr>pong_received := now env, ping_sent := 0\<rparr>) st
                        in if pfail (nodes st x)
                           then (upd_node x (\<lambda>x. x\<lparr>pfail := False\<rparr>) st)\<lparr>todo_save := True, todo_update := True\<rparr>
                           else if nfail (nodes st x) then clearNodeFailureIfNeeded env x st else st
                      else st
                  | None \<Rightarrow> st)
        in
        if clusterLookupNode n st = None then st
        else
          let st = role_switch m st;
              st = slots_info env m epoch st;
              st = (if is_master (me st) \<and> is_master (nodes st n) \<and> epoch = configEpoch (me st)
                    then clusterHandleConfigEpochCollision n st else st)
          in clusterProcessGossipSection env link_node n gs st)"

definition clusterProcessPacket :: "cenv \<Rightarrow> nat option \<Rightarrow> cmsg \<Rightarrow> cstate \<Rightarrow> cstate" where
  "clusterProcessPacket env link_node m st =
     (case packet_header env m st of
        (senderCurrentEpoch, senderConfigEpoch, st) \<Rightarrow>
          let n = sender m; known = (clusterLookupNode n st \<noteq> None) in
          case body m of
            PING gs \<Rightarrow> process_ping env link_node m False senderConfigEpoch gs st
          | PONG gs \<Rightarrow> process_ping env link_node m True senderConfigEpoch gs st
          | FAIL f \<Rightarrow>
              if known \<and> clusterLookupNode f st \<noteq> None \<and> \<not> nfail (nodes st f) \<and> f \<noteq> myself st then
                (upd_node f (\<lambda>x. x\<lparr>nfail := True, fail_time := now env, pfail := False\<rparr>) st)
                \<lparr>todo_save := True, todo_update := True\<rparr>
              else st
          | AUTH_REQUEST \<Rightarrow> if known then clusterSendFailoverAuthIfNeeded env n m st else st
          | AUTH_ACK \<Rightarrow>
              if known \<and> is_master (nodes st n) \<and> numslots (nodes st n) > 0 \<and>
                 senderCurrentEpoch \<ge> failover_auth_epoch st
              then st\<lparr>failover_auth_count := failover_auth_count st + 1, todo_failover := True\<rparr>
              else st
          | MFSTART \<Rightarrow>
              if \<not> known \<or> slaveof (nodes st n) \<noteq> Some (myself st) then st
              else
                let st = resetManualFailover st;
                    st = st\<lparr>mf_end := now env + 5000, mf_slave := Some n\<rparr>
                in emit (PauseClients (now env + 10000)) st
          | UPDATE x reportedConfigEpoch claimed \<Rightarrow>
              if \<not> known \<or> clusterLookupNode x st = None \<or> configEpoch (nodes st x) \<ge> reportedConfigEpoch then st
              else
                let st = (if is_slave (nodes st x) then clusterSetNodeAsMaster x st else st);
                    st = upd_node x (\<lambda>y. y\<lparr>configEpoch := reportedConfigEpoch\<rparr>) st;
                    st = st\<lparr>todo_save := True\<rparr>
                in clusterUpdateSlotsConfigWith env x reportedConfigEpoch claimed st)"

subsection \<open>The failover of a replica\<close>

definition clusterGetSlaveRank :: "cenv \<Rightarrow> cstate \<Rightarrow> int \<times> cstate" where
  "clusterGetSlaveRank env st =
     (let st = cassert (is_slave (me st)) st in
      case slaveof (me st) of
        None \<Rightarrow> (0, st)
      | Some m \<Rightarrow>
          (int (length (filter (\<lambda>n. n \<noteq> myself st \<and> repl_offset (nodes st n) > slave_offset env) (replicas (nodes st m)))), st))"

definition clusterFailoverReplaceYourMaster :: "cenv \<Rightarrow> cstate \<Rightarrow> cstate" where
  "clusterFailoverReplaceYourMaster env st =
     (case slaveof (me st) of
        None \<Rightarrow> st
      | Some oldmaster \<Rightarrow>
          if is_master (me st) then st
          else
            let st = clusterSetNodeAsMaster (myself st) st;
                st = emit UnsetReplication st;
                st = fold (\<lambda>j st. if j \<in> bitmap (nodes st oldmaster)
                                  then snd (clusterAddSlot (myself st) j (snd (clusterDelSlot j st))) else st)
                       (sorted_list_of_set (bitmap (nodes st oldmaster))) st;
                st = clusterUpdateState env st;
                st = clusterSaveConfig st;
                st = clusterBroadcastPong env False st
            in resetManualFailover st)"

text \<open>A new attempt: the election is put off by a fixed, a random, and a part that grows with the rank.\<close>

definition schedule_election :: "cenv \<Rightarrow> cstate \<Rightarrow> cstate" where
  "schedule_election env st =
     (let st = st\<lparr>failover_auth_time := now env + 500 + random500 env, failover_auth_count := 0, failover_auth_sent := False\<rparr>
      in case clusterGetSlaveRank env st of
           (rank, st) \<Rightarrow>
             let st = st\<lparr>failover_auth_rank := rank, failover_auth_time := failover_auth_time st + rank * 1000\<rparr>;
                 st = (if mf_end st \<noteq> 0 then st\<lparr>failover_auth_time := now env, failover_auth_rank := 0\<rparr> else st)
             in clusterBroadcastPong env True st)"

definition update_rank :: "cenv \<Rightarrow> cstate \<Rightarrow> cstate" where
  "update_rank env st =
     (if \<not> failover_auth_sent st \<and> mf_end st = 0 then
        case clusterGetSlaveRank env st of
          (newrank, st) \<Rightarrow>
            if newrank > failover_auth_rank st then
              st\<lparr>failover_auth_time := failover_auth_time st + (newrank - failover_auth_rank st) * 1000,
                 failover_auth_rank := newrank\<rparr>
            else st
      else st)"

definition start_election :: "cenv \<Rightarrow> cstate \<Rightarrow> cstate" where
  "start_election env st =
     (let st = st\<lparr>currentEpoch := currentEpoch st + 1\<rparr>;
          st = st\<lparr>failover_auth_epoch := currentEpoch st\<rparr>;
          st = clusterRequestFailoverAuth env st
      in st\<lparr>failover_auth_sent := True, todo_save := True, todo_update := True\<rparr>)"

definition win_election :: "cenv \<Rightarrow> cstate \<Rightarrow> cstate" where
  "win_election env st =
     (let st = (if configEpoch (me st) < failover_auth_epoch st
                then upd_node (myself st) (\<lambda>x. x\<lparr>configEpoch := failover_auth_epoch st\<rparr>) st else st)
      in clusterFailoverReplaceYourMaster env st)"

definition clusterHandleSlaveFailover :: "cenv \<Rightarrow> cstate \<Rightarrow> cstate" where
  "clusterHandleSlaveFailover env st =
     (let auth_age = now env - failover_auth_time st;
          needed_quorum = csize st div 2 + 1;
          manual_failover = (mf_end st \<noteq> 0 \<and> mf_can_start st);
          st = st\<lparr>todo_failover := False\<rparr>;
          auth_timeout = max (node_timeout env * 2) 2000;
          auth_retry_time = auth_timeout * 2
      in case slaveof (me st) of
           None \<Rightarrow> st
         | Some m \<Rightarrow>
             if is_master (me st) \<or> (\<not> nfail (nodes st m) \<and> \<not> manual_failover) \<or> numslots (nodes st m) = 0 then st
             else
               let data_age = seconds_apart env * 1000;
                   data_age = (if data_age > node_timeout env then data_age - node_timeout env else data_age)
               in
               if validity_factor env \<noteq> 0 \<and> data_age > ping_period env * 1000 + node_timeout env * validity_factor env \<and>
                  \<not> manual_failover then st
               else if auth_age > auth_retry_time then schedule_election env st
               else
                 let st = update_rank env st in
                 if now env < failover_auth_time st then st
                 else if auth_age > auth_timeout then st
                 else if \<not> failover_auth_sent st then start_election env st
                 else if failover_auth_count st \<ge> needed_quorum then win_election env st
                 else st)"

subsection \<open>Manual failover, the end of an event loop\<close>

definition manualFailoverCheckTimeout :: "cenv \<Rightarrow> cstate \<Rightarrow> cstate" where
  "manualFailoverCheckTimeout env st = (if mf_end st \<noteq> 0 \<and> mf_end st < now env then resetManualFailover st else st)"

definition clusterHandleManualFailover :: "cenv \<Rightarrow> cstate \<Rightarrow> cstate" where
  "clusterHandleManualFailover env st =
     (if mf_end st = 0 \<or> mf_can_start st \<or> mf_master_offset st = 0 then st
      else if mf_master_offset st = slave_offset env then st\<lparr>mf_can_start := True\<rparr> else st)"

text \<open>\<open>CLUSTER FAILOVER\<close>: \<open>None\<close> when the command is refused.\<close>

definition cluster_failover :: "cenv \<Rightarrow> bool \<Rightarrow> bool \<Rightarrow> cstate \<Rightarrow> cstate option" where
  "cluster_failover env force takeover st =
     (let force = (force \<or> takeover) in
      if is_master (me st) then None
      else case slaveof (me st) of
             None \<Rightarrow> None
           | Some m \<Rightarrow>
               if \<not> force \<and> (nfail (nodes st m) \<or> \<not> has_link (nodes st m)) then None
               else
                 let st = resetManualFailover st;
                     st = st\<lparr>mf_end := now env + 5000\<rparr>
                 in Some (if takeover then
                            clusterFailoverReplaceYourMaster env (snd (clusterBumpConfigEpochWithoutConsensus st))
                          else if force then st\<lparr>mf_can_start := True\<rparr>
                          else clusterSendMFStart env m st))"

definition clusterBeforeSleep :: "cenv \<Rightarrow> cstate \<Rightarrow> cstate" where
  "clusterBeforeSleep env st =
     (let st = (if todo_failover st then clusterHandleSlaveFailover env st else st);
          st = (if todo_update st then clusterUpdateState env st else st);
          st = (if todo_save st then clusterSaveConfig st else st)
      in st\<lparr>todo_failover := False, todo_update := False, todo_save := False\<rparr>)"

text \<open>A node that did not answer a ping for too long.\<close>

definition cron_timeout :: "cenv \<Rightarrow> nat \<Rightarrow> cstate \<Rightarrow> cstate" where
  "cron_timeout env n st =
     (if ping_sent (nodes st n) = 0 then st
      else if now env - ping_sent (nodes st n) > node_timeout env \<and> \<not> (pfail (nodes st n) \<or> nfail (nodes st n))
           then clusterUpdateState env (upd_node n (\<lambda>x. x\<lparr>pfail := True\<rparr>) st)
           else st)"

text \<open>The end of \<open>clusterCron\<close>.\<close>

definition cron_failover :: "cenv \<Rightarrow> cstate \<Rightarrow> cstate" where
  "cron_failover env st =
     (let st = manualFailoverCheckTimeout env st in
      if is_slave (me st) then clusterHandleSlaveFailover env (clusterHandleManualFailover env st) else st)"

end
