(* ===== verification/Election.thy ===== *)
theory Election
  imports Cluster "HOL-Library.AList"
begin

text \<open>
  A cluster of nodes that run \<open>cluster.c\<close>, with a network that loses, delays and reorders packets. At
  most one replica is elected in an epoch, as long as the nodes agree on the masters that have slots,
  a node that stops has saved its vote, and votes do not arrive between two elections. The code
  guarantees neither of the last two, and then two replicas are elected in the same epoch.
\<close>

subsection \<open>The system\<close>

text \<open>The states of the nodes by their names; the state of a name without node is \<open>idle\<close>.\<close>

record csys =
  members :: "(nat \<times> cstate) list"
  net :: "(nat \<times> nat \<times> cmsg) list"
  history :: "(nat \<times> nat \<times> cmsg) list"
  elected :: "(nat \<times> nat) list"

definition idle_node :: cnode where
  "idle_node = \<lparr>is_master = True, is_slave = False, nfail = False, pfail = False, handshake = False, has_link = False,
     configEpoch = 0, bitmap = {}, numslots = 0, replicas = [], slaveof = None, ping_sent = 0, pong_received = 0,
     fail_time = 0, voted_time = 0, repl_offset = 0, fail_reports = []\<rparr>"

definition idle :: "nat \<Rightarrow> cstate" where
  "idle n = \<lparr>myself = n, names = [], nodes = (\<lambda>_. idle_node), currentEpoch = 0, state_ok = False,
     csize = 0, slot_owner = (\<lambda>_. None), importing = (\<lambda>_. False),
     failover_auth_time = 0, failover_auth_count = 0, failover_auth_sent = False, failover_auth_rank = 0, failover_auth_epoch = 0,
     mf_end = 0, mf_slave = None, mf_master_offset = 0, mf_can_start = False, lastVoteEpoch = 0,
     todo_failover = False, todo_update = False, todo_save = False, among_minority_time = 0, first_call_time = 0,
     config_file = \<lparr>saved_epoch = 0, saved_vote = 0, saved_nodes = (\<lambda>_. idle_node), saved_importing = (\<lambda>_. False)\<rparr>,
     effects = [], assert_failed = False\<rparr>"

definition member :: "csys \<Rightarrow> nat \<Rightarrow> cstate" where
  "member S n = (case map_of (members S) n of Some st \<Rightarrow> st | None \<Rightarrow> idle n)"

fun posts :: "nat \<Rightarrow> effect list \<Rightarrow> (nat \<times> nat \<times> cmsg) list" where
  "posts n [] = []"
| "posts n (e # es) = (case e of Post x m \<Rightarrow> (n, x, m) # posts n es | _ \<Rightarrow> posts n es)"

text \<open>Node \<open>n\<close> runs \<open>f\<close>; the packets it sends go to the network. \<open>won\<close> names the election that it won.\<close>

definition run :: "nat \<Rightarrow> (cstate \<Rightarrow> cstate) \<Rightarrow> csys \<Rightarrow> csys" where
  "run n f S =
     (let st = f (member S n); ps = posts n (effects st)
      in S\<lparr>members := AList.update n (st\<lparr>effects := []\<rparr>) (members S), net := net S @ ps, history := history S @ ps\<rparr>)"

definition won :: "cstate \<Rightarrow> cstate \<Rightarrow> bool" where
  "won st st' \<longleftrightarrow> \<not> is_master (me st) \<and> is_master (me st')"

definition run_failover :: "nat \<Rightarrow> (cstate \<Rightarrow> cstate) \<Rightarrow> csys \<Rightarrow> csys" where
  "run_failover n f S =
     (let S' = run n f S
      in S'\<lparr>elected := elected S @ (if won (member S n) (member S' n)
                                   then [(failover_auth_epoch (member S n), n)] else [])\<rparr>)"

definition take_packet :: "nat \<Rightarrow> csys \<Rightarrow> csys" where
  "take_packet i S = S\<lparr>net := take i (net S) @ drop (Suc i) (net S)\<rparr>"

text \<open>The masters with slots are \<open>M\<close>, for all that other nodes know.\<close>

definition node_agrees :: "nat set \<Rightarrow> nat \<Rightarrow> cstate \<Rightarrow> bool" where
  "node_agrees M n st \<longleftrightarrow>
     (is_master (me st) \<or> csize st = int (card M)) \<and>
     list_all (\<lambda>v. v = n \<or> \<not> is_master (nodes st v) \<or> \<not> numslots (nodes st v) > 0 \<or> v \<in> M) (names st)"

definition agreed :: "nat set \<Rightarrow> csys \<Rightarrow> bool" where
  "agreed M S \<longleftrightarrow> (\<forall>n. node_agrees M n (member S n))"

text \<open>\<open>late\<close>: votes may arrive while no election runs. \<open>lossy\<close>: a node may stop before it saved its
  epochs. A node that starts evaluates the state of the cluster before anything else.\<close>

inductive cl_step :: "bool \<Rightarrow> bool \<Rightarrow> csys \<Rightarrow> csys \<Rightarrow> bool" for late :: bool and lossy :: bool where
  Packet: "i < length (net S) \<Longrightarrow> net S ! i = (f, n, m) \<Longrightarrow> link_node = None \<or> link_node = Some f \<Longrightarrow>
    late \<or> body m \<noteq> AUTH_ACK \<or> failover_auth_sent (member S n) \<Longrightarrow>
    cl_step late lossy S (run n (clusterProcessPacket env link_node m) (take_packet i S))"
| Drop: "i < length (net S) \<Longrightarrow> cl_step late lossy S (take_packet i S)"
| Cron: "cl_step late lossy S (run_failover n (cron_failover env) S)"
| Sleep: "cl_step late lossy S (run_failover n (clusterBeforeSleep env) S)"
| Timeout: "cl_step late lossy S (run n (cron_timeout env x) S)"
| Ping: "cl_step late lossy S (run n (send_ping env x) S)"
| Link: "cl_step late lossy S (run n (set_link x up) S)"
| Failover: "cluster_failover env force False (member S n) = Some st \<Longrightarrow> cl_step late lossy S (run n (\<lambda>_. st) S)"
| Bump: "cl_step late lossy S (run n (\<lambda>st. snd (clusterBumpConfigEpochWithoutConsensus st)) S)"
| Restart: "lossy \<or> saved_epoch (config_file (member S n)) = currentEpoch (member S n) \<and>
      saved_vote (config_file (member S n)) = lastVoteEpoch (member S n) \<Longrightarrow>
    cl_step late lossy S (run n (\<lambda>st. clusterUpdateState env (clusterInit env st)) S)"

definition cl_init :: "csys \<Rightarrow> bool" where
  "cl_init S \<longleftrightarrow> net S = [] \<and> history S = [] \<and> elected S = [] \<and>
     (\<forall>n. myself (member S n) = n \<and> effects (member S n) = [] \<and> \<not> failover_auth_sent (member S n) \<and>
          failover_auth_count (member S n) = 0 \<and> lastVoteEpoch (member S n) \<le> currentEpoch (member S n))"

inductive cl_reach :: "nat set \<Rightarrow> bool \<Rightarrow> bool \<Rightarrow> csys \<Rightarrow> bool" for M :: "nat set" and late :: bool and lossy :: bool where
  Init: "cl_init S \<Longrightarrow> agreed M S \<Longrightarrow> cl_reach M late lossy S"
| Step: "cl_reach M late lossy S \<Longrightarrow> cl_step late lossy S S' \<Longrightarrow> agreed M S' \<Longrightarrow> cl_reach M late lossy S'"

subsection \<open>Operations that do not concern the election\<close>

definition is_auth :: "cmsg \<Rightarrow> bool" where
  "is_auth m \<longleftrightarrow> body m = AUTH_REQUEST \<or> body m = AUTH_ACK"

definition calm :: "nat \<Rightarrow> effect \<Rightarrow> bool" where
  "calm n e \<longleftrightarrow> (case e of Post x m \<Rightarrow> \<not> is_auth m \<and> sender m = n | _ \<Rightarrow> True)"

definition quiet :: "cstate \<Rightarrow> cstate \<Rightarrow> bool" where
  "quiet st st' \<longleftrightarrow> myself st' = myself st \<and> currentEpoch st \<le> currentEpoch st' \<and>
     lastVoteEpoch st' = lastVoteEpoch st \<and> failover_auth_count st' = failover_auth_count st \<and>
     failover_auth_sent st' = failover_auth_sent st \<and> failover_auth_epoch st' = failover_auth_epoch st \<and>
     (\<exists>es. effects st' = effects st @ es \<and> list_all (calm (myself st)) es)"

lemma quiet_refl [simp, intro!]: "quiet st st"
  by (simp add: quiet_def)

lemma quiet_trans: "quiet a b \<Longrightarrow> quiet b c \<Longrightarrow> quiet a c"
  unfolding quiet_def by fastforce

lemma quiet_upd_node [intro!]: "quiet a b \<Longrightarrow> quiet a (upd_node n f b)"
  by (simp add: quiet_def upd_node_def)

lemma quiet_fields [intro!]:
  "quiet a b \<Longrightarrow> quiet a (b\<lparr>todo_save := x\<rparr>)" "quiet a b \<Longrightarrow> quiet a (b\<lparr>todo_update := x\<rparr>)"
  "quiet a b \<Longrightarrow> quiet a (b\<lparr>todo_failover := x\<rparr>)" "quiet a b \<Longrightarrow> quiet a (b\<lparr>slot_owner := w\<rparr>)"
  "quiet a b \<Longrightarrow> quiet a (b\<lparr>importing := y\<rparr>)" "quiet a b \<Longrightarrow> quiet a (b\<lparr>csize := z\<rparr>)"
  "quiet a b \<Longrightarrow> quiet a (b\<lparr>state_ok := x\<rparr>)" "quiet a b \<Longrightarrow> quiet a (b\<lparr>among_minority_time := z\<rparr>)"
  "quiet a b \<Longrightarrow> quiet a (b\<lparr>first_call_time := z\<rparr>)" "quiet a b \<Longrightarrow> quiet a (b\<lparr>mf_end := z\<rparr>)"
  "quiet a b \<Longrightarrow> quiet a (b\<lparr>mf_can_start := x\<rparr>)" "quiet a b \<Longrightarrow> quiet a (b\<lparr>mf_slave := u\<rparr>)"
  "quiet a b \<Longrightarrow> quiet a (b\<lparr>mf_master_offset := z\<rparr>)" "quiet a b \<Longrightarrow> quiet a (b\<lparr>assert_failed := x\<rparr>)"
  "quiet a b \<Longrightarrow> quiet a (b\<lparr>config_file := f\<rparr>)" "quiet a b \<Longrightarrow> quiet a (b\<lparr>failover_auth_time := z\<rparr>)"
  "quiet a b \<Longrightarrow> quiet a (b\<lparr>failover_auth_rank := z\<rparr>)"
  by (simp_all add: quiet_def)

lemma quiet_epoch [intro]: "quiet a b \<Longrightarrow> currentEpoch b \<le> e \<Longrightarrow> quiet a (b\<lparr>currentEpoch := e\<rparr>)"
  by (auto simp: quiet_def)

lemma quiet_emit [intro]: "quiet a b \<Longrightarrow> calm (myself b) e \<Longrightarrow> quiet a (emit e b)"
  by (auto simp: quiet_def emit_def)

lemma quiet_cassert [intro!]: "quiet a b \<Longrightarrow> quiet a (cassert c b)"
  by (simp add: cassert_def quiet_fields(14))

lemma quiet_fold: "(\<And>x b. quiet b (f x b)) \<Longrightarrow> quiet a b \<Longrightarrow> quiet a (fold f xs b)"
proof (induction xs arbitrary: b)
  case (Cons x xs)
  show ?case using Cons.IH [OF Cons.prems(1) quiet_trans [OF Cons.prems(2) Cons.prems(1)]] by simp
qed simp

lemma quiet_if [intro!]: "(c \<Longrightarrow> quiet a x) \<Longrightarrow> (\<not> c \<Longrightarrow> quiet a y) \<Longrightarrow> quiet a (if c then x else y)"
  by simp

lemma hdr_simps [simp]:
  "sender (clusterBuildMessageHdr env b st) = myself st" "body (clusterBuildMessageHdr env b st) = b"
  "msgEpoch (clusterBuildMessageHdr env b st) = currentEpoch st"
  by (simp_all add: clusterBuildMessageHdr_def Let_def)

lemma quiet_send [intro]: "quiet a b \<Longrightarrow> \<not> is_auth m \<Longrightarrow> sender m = myself b \<Longrightarrow> quiet a (send_to n m b)"
  by (auto simp: send_to_def calm_def)

lemma quiet_myself: "quiet a b \<Longrightarrow> myself b = myself a"
  by (simp add: quiet_def)


text \<open>All functions but those that ask for votes, give them, and count them.\<close>

lemma quiet_slot_bits:
  "quiet st (snd (clusterNodeSetSlotBit n j st))" "quiet st (snd (clusterNodeClearSlotBit n j st))"
  by (auto simp: clusterNodeSetSlotBit_def clusterNodeClearSlotBit_def Let_def)

lemma quiet_add_slot: "quiet st (snd (clusterAddSlot n j st))"
  by (auto simp: clusterAddSlot_def Let_def intro: quiet_slot_bits)

lemma quiet_del_slot: "quiet st (snd (clusterDelSlot j st))"
proof (cases "slot_owner st j")
  case (Some n)
  show ?thesis using quiet_slot_bits(2) [of st n j] Some
    by (auto simp: clusterDelSlot_def Let_def split: prod.split)
qed (simp add: clusterDelSlot_def)

lemma quiet_del_node_slots: "quiet st (clusterDelNodeSlots n st)"
  unfolding clusterDelNodeSlots_def by (rule quiet_fold) (auto intro: quiet_del_slot)

lemma quiet_slaves:
  "quiet st (clusterNodeRemoveSlave m n st)" "quiet st (clusterNodeAddSlave m n st)" "quiet st (clusterNodeResetSlaves n st)"
  by (auto simp: clusterNodeRemoveSlave_def clusterNodeAddSlave_def clusterNodeResetSlaves_def)

lemma quiet_set_master_node: "quiet st (clusterSetNodeAsMaster n st)"
  by (auto simp: clusterSetNodeAsMaster_def Let_def split: option.split intro: quiet_slaves)

lemma quiet_reset: "quiet st (resetManualFailover st)"
  by (auto simp: resetManualFailover_def Let_def calm_def)

lemma quiet_close: "quiet a b \<Longrightarrow> quiet a (clusterCloseAllSlots b)"
  by (auto simp: clusterCloseAllSlots_def)

lemma quiet_set_master: "quiet st (clusterSetMaster n st)"
proof -
  let ?s = "cassert (numslots (me (cassert (n \<noteq> myself st) st)) = 0) (cassert (n \<noteq> myself st) st)"
  have "quiet st (if is_master (me ?s) then
                  clusterCloseAllSlots (upd_node (myself ?s) (\<lambda>x. x\<lparr>is_master := False, is_slave := True\<rparr>) ?s)
                else case slaveof (me ?s) of None \<Rightarrow> ?s | Some m \<Rightarrow> clusterNodeRemoveSlave m (myself ?s) ?s)" (is "quiet st ?t")
    by (auto intro!: quiet_close split: option.split intro: quiet_trans [OF _ quiet_slaves(1)])
  then have "quiet st (upd_node (myself ?t) (\<lambda>x. x\<lparr>slaveof := Some n\<rparr>) ?t)" (is "quiet st ?u") by (rule quiet_upd_node)
  then have "quiet st (clusterNodeAddSlave n (myself ?u) ?u)" (is "quiet st ?v") by (rule quiet_trans [OF _ quiet_slaves(2)])
  then have "quiet st (emit (SetReplication n) ?v)" (is "quiet st ?w") by (rule quiet_emit) (simp add: calm_def)
  then have "quiet st (resetManualFailover ?w)" by (rule quiet_trans [OF _ quiet_reset])
  then show ?thesis by (simp only: clusterSetMaster_def Let_def)
qed

lemma quiet_update_state: "quiet st (clusterUpdateState env st)"
  by (auto simp: clusterUpdateState_def Let_def)

lemma quiet_save: "quiet st (clusterSaveConfig st)"
  by (auto simp: clusterSaveConfig_def)

lemma quiet_bump: "quiet st (snd (clusterBumpConfigEpochWithoutConsensus st))"
  by (auto simp: clusterBumpConfigEpochWithoutConsensus_def Let_def)

lemma quiet_collision: "quiet st (clusterHandleConfigEpochCollision n st)"
  by (auto simp: clusterHandleConfigEpochCollision_def Let_def intro!: quiet_trans [OF _ quiet_save])

lemma quiet_broadcast: "\<not> is_auth m \<Longrightarrow> sender m = myself st \<Longrightarrow> quiet st (clusterBroadcastMessage m st)"
proof -
  assume m: "\<not> is_auth m" "sender m = myself st"
  have "quiet a b \<Longrightarrow> sender m = myself b \<Longrightarrow>
    quiet a (fold (\<lambda>n st. if n = myself st \<or> handshake (nodes st n) then st else send_to n m st) ns b)" for a b ns
  proof (induction ns arbitrary: b)
    case (Cons n ns)
    have q: "quiet b (send_to n m b)" by (rule quiet_send [OF quiet_refl m(1) Cons.prems(2)])
    show ?case
      using Cons.IH [OF Cons.prems] Cons.IH [of "send_to n m b", OF quiet_trans [OF Cons.prems(1) q]] Cons.prems(2) quiet_myself [OF q]
      by simp
  qed simp
  then show ?thesis using m by (simp add: clusterBroadcastMessage_def)
qed

lemma not_auth [simp]:
  "\<not> is_auth (clusterBuildMessageHdr env (PONG g) st)" "\<not> is_auth (clusterBuildMessageHdr env (PING g) st)"
  "\<not> is_auth (clusterBuildMessageHdr env (FAIL n) st)" "\<not> is_auth (clusterBuildMessageHdr env (UPDATE n e b) st)"
  "\<not> is_auth (clusterBuildMessageHdr env MFSTART st)"
  by (simp_all add: is_auth_def)

lemma quiet_pong: "quiet st (clusterBroadcastPong env l st)"
  unfolding clusterBroadcastPong_def by (rule quiet_fold) auto

lemma quiet_sends:
  "quiet st (clusterSendFail env n st)" "quiet st (clusterSendUpdate env x n st)" "quiet st (clusterSendMFStart env n st)"
  "quiet st (send_ping env n st)" "quiet st (set_link n up st)"
  by (auto simp: clusterSendFail_def clusterSendUpdate_def clusterSendMFStart_def send_ping_def set_link_def Let_def
      intro: quiet_broadcast)

lemma quiet_reports:
  "quiet st (clusterNodeAddFailureReport env f n st)" "quiet st (clusterNodeCleanupFailureReports env n st)"
  "quiet st (clusterNodeDelFailureReport env n r st)" "quiet st (snd (clusterNodeFailureReportsCount env n st))"
  by (auto simp: clusterNodeAddFailureReport_def clusterNodeCleanupFailureReports_def clusterNodeDelFailureReport_def
      clusterNodeFailureReportsCount_def Let_def split: option.split)

lemma quiet_mark: "quiet st (markNodeAsFailingIfNeeded env n st)"
proof -
  obtain k s where c: "clusterNodeFailureReportsCount env n st = (k, s)" by fastforce
  have s: "quiet st s" using quiet_reports(4) [of st env n] by (simp add: c)
  let ?t = "upd_node n (\<lambda>x. x\<lparr>pfail := False, nfail := True, fail_time := now env\<rparr>) s"
  have "quiet st (clusterSendFail env n ?t)" by (rule quiet_trans [OF quiet_upd_node [OF s] quiet_sends(1)])
  then show ?thesis using s by (auto simp: markNodeAsFailingIfNeeded_def c Let_def)
qed

lemma quiet_clear: "quiet st (clearNodeFailureIfNeeded env n st)"
  by (auto simp: clearNodeFailureIfNeeded_def clear_fail_def Let_def)

lemma quiet_gossip: "quiet st (clusterProcessGossipSection env l s gs st)"
proof -
  have "quiet b (gossip_entry env fn g b)" for fn g b
    by (auto simp: gossip_entry_def split: option.split prod.split
        intro: quiet_reports quiet_trans [OF quiet_reports(1) quiet_mark])
  then show ?thesis unfolding clusterProcessGossipSection_def Let_def by (auto intro: quiet_fold)
qed


lemma quiet_update_slots: "quiet st (clusterUpdateSlotsConfigWith env n epoch claimed st)"
proof -
  have one: "quiet s (snd (snd (update_slot env n epoch c j (a, d, s))))" for c j a d s
    unfolding update_slot_def Let_def
    by (auto intro: quiet_trans [OF quiet_del_slot quiet_add_slot])
  have loop: "quiet s (snd (snd (fold (update_slot env n epoch c) js (a, d, s))))" for c js a d s
  proof (induction js arbitrary: a d s)
    case (Cons j js)
    obtain a' d' s' where u: "update_slot env n epoch c j (a, d, s) = (a', d', s')" by (metis prod_cases3)
    have "quiet s s'" using one [of s c j a d] by (simp add: u)
    then show ?case using Cons.IH [of s' a' d'] by (auto simp: u intro: quiet_trans)
  qed simp
  have keys: "quiet a b \<Longrightarrow> quiet a (fold (\<lambda>j. emit (DelKeysInSlot j)) js b)" for a b js
    by (rule quiet_fold) (auto simp: calm_def)
  define c where "c = (if is_master (me st) then Some (myself st) else slaveof (me st))"
  obtain a d s where f: "fold (update_slot env n epoch c) (sorted_list_of_set claimed) (False, [], st) = (a, d, s)" by (metis prod_cases3)
  have s: "quiet st s" using loop [of st c "sorted_list_of_set claimed" False "[]"] by (simp add: f)
  show ?thesis
    unfolding clusterUpdateSlotsConfigWith_def Let_def c_def [symmetric] f
    using s by (auto intro!: keys intro: quiet_trans [OF _ quiet_set_master])
qed

lemma quiet_role: "quiet st (role_switch m st)"
proof -
  let ?n = "sender m"
  have demote: "quiet a (let st = clusterDelNodeSlots ?n a;
                          st = upd_node ?n (\<lambda>x. x\<lparr>is_master := False, is_slave := True\<rparr>) st;
                          st = (if replicas (nodes st ?n) \<noteq> [] then clusterNodeResetSlaves ?n st else st)
                      in st\<lparr>todo_save := True, todo_update := True\<rparr>)" for a
    by (auto simp: Let_def intro: quiet_del_node_slots quiet_trans [OF _ quiet_slaves(3)])
  have move: "quiet a (let st = (case slaveof (nodes a ?n) of None \<Rightarrow> a | Some o1 \<Rightarrow> clusterNodeRemoveSlave o1 ?n a);
                       st = clusterNodeAddSlave x ?n st
                   in (upd_node ?n (\<lambda>x. x\<lparr>slaveof := Some y\<rparr>) st)\<lparr>todo_save := True\<rparr>)" for a x y
    by (auto simp: Let_def split: option.split intro: quiet_slaves quiet_trans [OF _ quiet_slaves(2)])
  show ?thesis
  proof (cases "msg_slaveof m")
    case None
    then show ?thesis by (simp add: role_switch_def quiet_set_master_node)
  next
    case (Some x)
    define s where "s = (if is_master (nodes st ?n) then
                    let st = clusterDelNodeSlots ?n st;
                          st = upd_node ?n (\<lambda>x. x\<lparr>is_master := False, is_slave := True\<rparr>) st;
                          st = (if replicas (nodes st ?n) \<noteq> [] then clusterNodeResetSlaves ?n st else st)
                      in st\<lparr>todo_save := True, todo_update := True\<rparr> else st)"
    have s: "quiet st s" unfolding s_def using demote by (rule quiet_if) simp
    have "role_switch m st = (case clusterLookupNode x s of None \<Rightarrow> s | Some master \<Rightarrow>
                 if slaveof (nodes s ?n) \<noteq> Some master then
                   let st = (case slaveof (nodes s ?n) of None \<Rightarrow> s | Some o1 \<Rightarrow> clusterNodeRemoveSlave o1 ?n s);
                       st = clusterNodeAddSlave master ?n st
                   in (upd_node ?n (\<lambda>x. x\<lparr>slaveof := Some master\<rparr>) st)\<lparr>todo_save := True\<rparr>
                 else s)"
      unfolding role_switch_def Let_def Some option.case s_def ..
    also have "quiet st \<dots>"
    proof (cases "clusterLookupNode x s")
      case (Some y)
      then show ?thesis using s quiet_trans [OF s move [of s y y]] by simp
    qed (simp add: s)
    finally show ?thesis .
  qed
qed

lemma quiet_slots_info: "quiet st (slots_info env m epoch st)"
  by (auto simp: slots_info_def Let_def split: option.split
      intro: quiet_update_slots quiet_sends(2) quiet_trans [OF quiet_update_slots quiet_sends(2)])

lemma quiet_ping:
  assumes "n = sender m"
  shows "quiet st (process_ping env l m pong epoch gs st)"
proof -
  define a where "a = (if pong then st else emit (Post n (clusterBuildMessageHdr env (PONG (gossip env n st)) st)) st)"
  have a: "quiet st a" by (auto simp: a_def calm_def)
  define b where "b = (case l of
                    Some x \<Rightarrow>
                      if pong then
                        let st = upd_node x (\<lambda>x. x\<lparr>pong_received := now env, ping_sent := 0\<rparr>) a
                        in if pfail (nodes st x)
                           then (upd_node x (\<lambda>x. x\<lparr>pfail := False\<rparr>) st)\<lparr>todo_save := True, todo_update := True\<rparr>
                           else if nfail (nodes st x) then clearNodeFailureIfNeeded env x st else st
                      else a
                  | None \<Rightarrow> a)"
  have b: "quiet st b" using a
    by (auto simp: b_def Let_def split: option.split intro: quiet_trans [OF _ quiet_clear])
  define c where "c = slots_info env m epoch (role_switch m b)"
  have c: "quiet st c" unfolding c_def by (rule quiet_trans [OF quiet_trans [OF b quiet_role] quiet_slots_info])
  define d where "d = (if is_master (me c) \<and> is_master (nodes c n) \<and> epoch = configEpoch (me c)
                    then clusterHandleConfigEpochCollision n c else c)"
  have d: "quiet st d" using c by (auto simp: d_def intro: quiet_trans [OF _ quiet_collision])
  have "process_ping env l m pong epoch gs st =
    (if l \<noteq> None \<and> l \<noteq> Some n then (upd_node (the l) (\<lambda>x. x\<lparr>has_link := False\<rparr>) a)\<lparr>todo_save := True\<rparr>
     else if clusterLookupNode n b = None then b else clusterProcessGossipSection env l n gs d)"
    unfolding process_ping_def Let_def assms [symmetric] a_def [symmetric]
    unfolding b_def [unfolded Let_def, symmetric] c_def [symmetric] d_def [symmetric] ..
  then show ?thesis using a b quiet_trans [OF d quiet_gossip] by auto
qed


subsection \<open>The invariant\<close>

fun ack_in :: "nat \<Rightarrow> nat \<times> nat \<times> cmsg \<Rightarrow> bool" where
  "ack_in e (v, c, m) \<longleftrightarrow> body m = AUTH_ACK \<and> msgEpoch m = e"

text \<open>The votes of the masters \<open>M\<close> for \<open>n\<close> in the epoch \<open>e\<close>, in a list of packets.\<close>

fun vote_for :: "nat set \<Rightarrow> nat \<Rightarrow> nat \<Rightarrow> nat \<times> nat \<times> cmsg \<Rightarrow> bool" where
  "vote_for M n e (v, c, m) \<longleftrightarrow> c = n \<and> v \<in> M \<and> body m = AUTH_ACK \<and> msgEpoch m = e"

definition votes_for :: "nat set \<Rightarrow> nat \<Rightarrow> nat \<Rightarrow> (nat \<times> nat \<times> cmsg) list \<Rightarrow> int" where
  "votes_for M n e h = int (length (filter (vote_for M n e) h))"

text \<open>A packet that was sent.\<close>

fun packet_ok :: "csys \<Rightarrow> nat \<times> nat \<times> cmsg \<Rightarrow> bool" where
  "packet_ok S (f, t, m) \<longleftrightarrow> sender m = f \<and>
     (body m = AUTH_REQUEST \<longrightarrow> t \<noteq> f \<and> msgEpoch m \<le> currentEpoch (member S f) \<and>
        (failover_auth_sent (member S f) \<longrightarrow> msgEpoch m \<le> failover_auth_epoch (member S f))) \<and>
     (body m = AUTH_ACK \<longrightarrow> t \<noteq> f \<and> msgEpoch m \<le> lastVoteEpoch (member S f) \<and> msgEpoch m \<le> currentEpoch (member S t) \<and>
        (failover_auth_sent (member S t) \<longrightarrow> msgEpoch m \<le> failover_auth_epoch (member S t)))"

definition member_ok :: "nat set \<Rightarrow> csys \<Rightarrow> nat \<Rightarrow> bool" where
  "member_ok M S n \<longleftrightarrow> (let st = member S n in
     myself st = n \<and> effects st = [] \<and> lastVoteEpoch st \<le> currentEpoch st \<and>
     (\<not> failover_auth_sent st \<longrightarrow> failover_auth_count st = 0) \<and>
     (failover_auth_sent st \<longrightarrow> 0 < failover_auth_epoch st \<and>
        failover_auth_count st + votes_for M n (failover_auth_epoch st) (net S)
          \<le> votes_for M n (failover_auth_epoch st) (history S)))"

definition el_inv :: "nat set \<Rightarrow> csys \<Rightarrow> bool" where
  "el_inv M S \<longleftrightarrow> (\<forall>n. member_ok M S n) \<and> set (net S) \<subseteq> set (history S) \<and> (\<forall>p \<in> set (history S). packet_ok S p) \<and>
     (\<forall>e. distinct (map fst (filter (ack_in e) (history S)))) \<and>
     (\<forall>(e, n) \<in> set (elected S). int (card M) div 2 + 1 \<le> votes_for M n e (history S))"

lemma votes_append [simp]: "votes_for M n e (a @ b) = votes_for M n e a + votes_for M n e b"
  by (simp add: votes_for_def)

lemma votes_nonneg: "0 \<le> votes_for M n e h"
  by (simp add: votes_for_def)

text \<open>What the end \<open>st\<close> of a call of node \<open>n\<close>, which was \<open>s\<close> before, has to satisfy.\<close>

definition call_end :: "nat set \<Rightarrow> csys \<Rightarrow> nat \<Rightarrow> cstate \<Rightarrow> bool" where
  "call_end M S n st \<longleftrightarrow> (let s = member S n; ps = posts n (effects st) in
     myself st = n \<and> currentEpoch s \<le> currentEpoch st \<and> lastVoteEpoch s \<le> lastVoteEpoch st \<and>
     lastVoteEpoch st \<le> currentEpoch st \<and>
     (\<forall>(f, t, m) \<in> set ps. sender m = n \<and>
        (body m = AUTH_REQUEST \<longrightarrow> t \<noteq> n \<and> msgEpoch m \<le> currentEpoch st \<and> (failover_auth_sent st \<longrightarrow> msgEpoch m \<le> failover_auth_epoch st)) \<and>
        (body m = AUTH_ACK \<longrightarrow> t \<noteq> n \<and> msgEpoch m = lastVoteEpoch st \<and> lastVoteEpoch s < lastVoteEpoch st \<and>
           msgEpoch m \<le> currentEpoch (member S t) \<and>
           (failover_auth_sent (member S t) \<longrightarrow> msgEpoch m \<le> failover_auth_epoch (member S t)))) \<and>
     (\<forall>e. length (filter (ack_in e) ps) \<le> 1) \<and>
     (failover_auth_sent st \<longrightarrow> failover_auth_sent s \<and> failover_auth_epoch st = failover_auth_epoch s \<or>
        currentEpoch s < failover_auth_epoch st) \<and>
     (\<not> failover_auth_sent st \<longrightarrow> failover_auth_count st = 0) \<and>
     (failover_auth_sent st \<longrightarrow> 0 < failover_auth_epoch st \<and>
        failover_auth_count st + votes_for M n (failover_auth_epoch st) (net S)
          \<le> votes_for M n (failover_auth_epoch st) (history S)))"

definition put :: "nat \<Rightarrow> cstate \<Rightarrow> csys \<Rightarrow> csys" where
  "put n st S = S\<lparr>members := AList.update n (st\<lparr>effects := []\<rparr>) (members S), net := net S @ posts n (effects st),
                  history := history S @ posts n (effects st)\<rparr>"

lemma run_put: "run n f S = put n (f (member S n)) S"
  by (simp add: run_def put_def Let_def)

lemma member_cong: "members S = members T \<Longrightarrow> member S = member T"
  by (rule ext) (simp add: member_def)

lemma member_put [simp]: "member (put n st S) = (member S)(n := st\<lparr>effects := []\<rparr>)"
  by (rule ext) (simp add: member_def put_def update_conv')

lemma put_simps [simp]:
  "net (put n st S) = net S @ posts n (effects st)"
  "history (put n st S) = history S @ posts n (effects st)" "elected (put n st S) = elected S"
  by (simp_all add: put_def)

lemma posts_from: "(f, t, m) \<in> set (posts n es) \<Longrightarrow> f = n"
  by (induction es) (auto split: effect.splits)

lemma el_inv_put:
  assumes I: "el_inv M S" and E: "call_end M S n st"
  shows "el_inv M (put n st S)"
proof -
  let ?s = "member S n" and ?ps = "posts n (effects st)"
  note e = E [unfolded call_end_def Let_def]
  have mo: "member_ok M S x" for x using I by (simp add: el_inv_def)
  have po: "p \<in> set (history S) \<Longrightarrow> packet_ok S p" for p using I by (simp add: el_inv_def)
  have ps: "sender m = n" "body m = AUTH_ACK \<Longrightarrow> t \<noteq> n \<and> msgEpoch m = lastVoteEpoch st \<and> lastVoteEpoch ?s < lastVoteEpoch st \<and>
           msgEpoch m \<le> currentEpoch (member S t) \<and>
           (failover_auth_sent (member S t) \<longrightarrow> msgEpoch m \<le> failover_auth_epoch (member S t))"
    "body m = AUTH_REQUEST \<Longrightarrow> t \<noteq> n \<and> msgEpoch m \<le> currentEpoch st \<and> (failover_auth_sent st \<longrightarrow> msgEpoch m \<le> failover_auth_epoch st)"
    if "(f, t, m) \<in> set ?ps" for f t m using e that by fastforce+
  have none: "votes_for M n k ?ps = 0" for k
  proof -
    have "\<not> vote_for M n k p" if "p \<in> set ?ps" for p
    proof -
      obtain a b c where "p = (a, b, c)" by (metis prod_cases3)
      then show ?thesis using that ps(2) [of a b c] by auto
    qed
    then have "filter (vote_for M n k) ?ps = []" by (simp add: filter_empty_conv)
    then show ?thesis by (simp add: votes_for_def)
  qed
  have "member_ok M (put n st S) x" for x
  proof (cases "x = n")
    case True then show ?thesis using e none by (simp add: member_ok_def Let_def)
  next
    case False then show ?thesis using mo [of x] by (simp add: member_ok_def Let_def)
  qed
  moreover have "set (net (put n st S)) \<subseteq> set (history (put n st S))" using I by (auto simp: el_inv_def)
  moreover have "packet_ok (put n st S) p" if p: "p \<in> set (history (put n st S))" for p
  proof -
    obtain f t m where ftm: "p = (f, t, m)" by (metis prod_cases3)
    let ?S' = "put n st S"
    have cur: "currentEpoch (member S x) \<le> currentEpoch (member ?S' x)"
      and vote: "lastVoteEpoch (member S x) \<le> lastVoteEpoch (member ?S' x)"
      and up: "k \<le> currentEpoch (member S x) \<Longrightarrow> (failover_auth_sent (member S x) \<longrightarrow> k \<le> failover_auth_epoch (member S x)) \<Longrightarrow>
        failover_auth_sent (member ?S' x) \<Longrightarrow> k \<le> failover_auth_epoch (member ?S' x)" for x k
      using e by auto
    show ?thesis
    proof (cases "p \<in> set (history S)")
      case True
      from po [OF this] have "packet_ok S (f, t, m)" by (simp add: ftm)
      then have o1: "sender m = f"
        and o2: "body m = AUTH_REQUEST \<Longrightarrow> t \<noteq> f \<and> msgEpoch m \<le> currentEpoch (member S f) \<and>
          (failover_auth_sent (member S f) \<longrightarrow> msgEpoch m \<le> failover_auth_epoch (member S f))"
        and o3: "body m = AUTH_ACK \<Longrightarrow> t \<noteq> f \<and> msgEpoch m \<le> lastVoteEpoch (member S f) \<and> msgEpoch m \<le> currentEpoch (member S t) \<and>
          (failover_auth_sent (member S t) \<longrightarrow> msgEpoch m \<le> failover_auth_epoch (member S t))"
        by auto
      have "body m = AUTH_REQUEST \<Longrightarrow> t \<noteq> f \<and> msgEpoch m \<le> currentEpoch (member ?S' f) \<and>
          (failover_auth_sent (member ?S' f) \<longrightarrow> msgEpoch m \<le> failover_auth_epoch (member ?S' f))"
        using o2 up [of "msgEpoch m" f] le_trans [OF _ cur [of f], of "msgEpoch m"] by blast
      moreover have "body m = AUTH_ACK \<Longrightarrow> t \<noteq> f \<and> msgEpoch m \<le> lastVoteEpoch (member ?S' f) \<and> msgEpoch m \<le> currentEpoch (member ?S' t) \<and>
          (failover_auth_sent (member ?S' t) \<longrightarrow> msgEpoch m \<le> failover_auth_epoch (member ?S' t))"
        using o3 up [of "msgEpoch m" t] le_trans [OF _ cur [of t], of "msgEpoch m"] le_trans [OF _ vote [of f], of "msgEpoch m"] by blast
      ultimately show ?thesis unfolding ftm packet_ok.simps using o1 by blast
    next
      case False
      with p have q: "(f, t, m) \<in> set ?ps" by (auto simp: ftm)
      show ?thesis unfolding ftm packet_ok.simps using ps [OF q] posts_from [OF q] by auto
    qed
  qed
  moreover have "distinct (map fst (filter (ack_in k) (history (put n st S))))" for k
  proof (cases "filter (ack_in k) ?ps = []")
    case True
    then show ?thesis using I by (simp add: el_inv_def)
  next
    case False
    moreover have "length (filter (ack_in k) ?ps) \<le> 1" using e by blast
    ultimately obtain q where q: "filter (ack_in k) ?ps = [q]" by (cases "filter (ack_in k) ?ps") auto
    obtain f t m where ftm: "q = (f, t, m)" by (metis prod_cases3)
    have "q \<in> set (filter (ack_in k) ?ps)" using q by simp
    then have m: "(f, t, m) \<in> set ?ps" "body m = AUTH_ACK" "msgEpoch m = k" by (auto simp: ftm)
    have k: "lastVoteEpoch ?s < k" using ps(2) [OF m(1,2)] m(3) by simp
    have "n \<notin> fst ` set (filter (ack_in k) (history S))"
    proof
      assume "n \<in> fst ` set (filter (ack_in k) (history S))"
      then obtain t' m' where "(n, t', m') \<in> set (history S)" "body m' = AUTH_ACK" "msgEpoch m' = k" by auto
      then show False using po [of "(n, t', m')"] k by simp
    qed
    then show ?thesis using I posts_from [OF m(1)] by (simp add: el_inv_def q ftm)
  qed
  moreover have "int (card M) div 2 + 1 \<le> votes_for M x k (history (put n st S))" if "(k, x) \<in> set (elected S)" for k x
    using I that votes_nonneg [of M x k ?ps] by (fastforce simp: el_inv_def)
  ultimately show ?thesis unfolding el_inv_def by auto
qed


subsection \<open>The failover of a replica as a move\<close>

text \<open>An effect that is allowed while a replica asks for votes in the epoch \<open>k\<close>.\<close>

definition asks :: "nat \<Rightarrow> nat \<Rightarrow> effect \<Rightarrow> bool" where
  "asks n k e \<longleftrightarrow> calm n e \<or>
     (case e of Post x m \<Rightarrow> x \<noteq> n \<and> body m = AUTH_REQUEST \<and> msgEpoch m = k \<and> sender m = n | _ \<Rightarrow> False)"

definition scheduled :: "cstate \<Rightarrow> cstate \<Rightarrow> bool" where
  "scheduled st st' \<longleftrightarrow> myself st' = myself st \<and> currentEpoch st \<le> currentEpoch st' \<and>
     lastVoteEpoch st' = lastVoteEpoch st \<and> failover_auth_count st' = 0 \<and> \<not> failover_auth_sent st' \<and>
     (\<exists>es. effects st' = effects st @ es \<and> list_all (calm (myself st)) es)"

definition started :: "cstate \<Rightarrow> cstate \<Rightarrow> bool" where
  "started st st' \<longleftrightarrow> myself st' = myself st \<and> currentEpoch st < failover_auth_epoch st' \<and>
     failover_auth_epoch st' \<le> currentEpoch st' \<and> lastVoteEpoch st' = lastVoteEpoch st \<and>
     failover_auth_count st' = failover_auth_count st \<and> \<not> failover_auth_sent st \<and> failover_auth_sent st' \<and>
     (\<exists>es. effects st' = effects st @ es \<and> list_all (asks (myself st) (failover_auth_epoch st')) es)"

definition moved :: "cstate \<Rightarrow> cstate \<Rightarrow> bool" where
  "moved st st' \<longleftrightarrow> quiet st st' \<or> scheduled st st' \<or> started st st'"

lemma calm_asks: "list_all (calm n) es \<Longrightarrow> list_all (asks n k) es"
  by (auto simp: list_all_iff asks_def)

lemma moved_quiet: "moved a b \<Longrightarrow> quiet b c \<Longrightarrow> moved a c"
proof -
  assume m: "moved a b" and q: "quiet b c"
  consider "quiet a b" | "scheduled a b" | "started a b" using m by (auto simp: moved_def)
  then show ?thesis
  proof cases
    case 1 then show ?thesis using quiet_trans [OF _ q] by (auto simp: moved_def)
  next
    case 2 then have "scheduled a c" using q by (fastforce simp: scheduled_def quiet_def)
    then show ?thesis by (simp add: moved_def)
  next
    case 3 then have "started a c" using q by (fastforce simp: started_def quiet_def dest: calm_asks)
    then show ?thesis by (simp add: moved_def)
  qed
qed

lemma quiet_moved: "quiet a b \<Longrightarrow> moved b c \<Longrightarrow> moved a c"
proof -
  assume q: "quiet a b" and m: "moved b c"
  consider "quiet b c" | "scheduled b c" | "started b c" using m by (auto simp: moved_def)
  then show ?thesis
  proof cases
    case 1 then show ?thesis using quiet_trans [OF q] by (auto simp: moved_def)
  next
    case 2 then have "scheduled a c" using q by (fastforce simp: scheduled_def quiet_def)
    then show ?thesis by (simp add: moved_def)
  next
    case 3 then have "started a c" using q by (fastforce simp: started_def quiet_def dest: calm_asks)
    then show ?thesis by (simp add: moved_def)
  qed
qed

lemma posts_effects:
  assumes "p \<in> set (posts n es)" "list_all P es"
  shows "\<exists>x m. p = (n, x, m) \<and> P (Post x m)"
  using assms by (induction es) (auto split: effect.splits)

lemma no_acks:
  assumes "\<And>x m. (n, x, m) \<in> set ps \<Longrightarrow> body m \<noteq> AUTH_ACK" "\<And>p. p \<in> set ps \<Longrightarrow> fst p = n"
  shows "filter (ack_in e) ps = []"
proof -
  have "\<not> ack_in e p" if "p \<in> set ps" for p
  proof -
    obtain a x m where p: "p = (a, x, m)" by (metis prod_cases3)
    then show ?thesis using assms(1) [of x m] assms(2) [OF that] that by auto
  qed
  then show ?thesis by (simp add: filter_empty_conv)
qed

text \<open>What a call may end with if it asks for votes only in the epoch of its election.\<close>

lemma call_endI:
  assumes I: "el_inv M S" and es: "list_all (asks n k) (effects st)" and k: "k = failover_auth_epoch st" "k \<le> currentEpoch st"
      "failover_auth_sent st \<or> list_all (calm n) (effects st)"
    and st: "myself st = n" "currentEpoch (member S n) \<le> currentEpoch st" "lastVoteEpoch st = lastVoteEpoch (member S n)"
      "failover_auth_sent st \<Longrightarrow> failover_auth_sent (member S n) \<and> failover_auth_epoch st = failover_auth_epoch (member S n) \<or>
         currentEpoch (member S n) < failover_auth_epoch st"
      "\<not> failover_auth_sent st \<Longrightarrow> failover_auth_count st = 0"
      "failover_auth_sent st \<Longrightarrow> 0 < failover_auth_epoch st \<and>
         failover_auth_count st + votes_for M n (failover_auth_epoch st) (net S)
           \<le> votes_for M n (failover_auth_epoch st) (history S)"
  shows "call_end M S n st"
proof -
  have mo: "lastVoteEpoch (member S n) \<le> currentEpoch (member S n)"
    using I by (auto simp: el_inv_def member_ok_def Let_def)
  have ps: "sender m = n \<and> body m \<noteq> AUTH_ACK \<and> (body m = AUTH_REQUEST \<longrightarrow> t \<noteq> n \<and> msgEpoch m = k)"
    if "(f, t, m) \<in> set (posts n (effects st))" for f t m
    using posts_effects [OF that es] by (auto simp: asks_def calm_def is_auth_def)
  have "filter (ack_in e) (posts n (effects st)) = []" for e
    by (rule no_acks) (use ps posts_from in fastforce)+
  then show ?thesis unfolding call_end_def Let_def
    using st mo k ps by (auto simp: le_trans [OF mo])
qed

lemma asks_calm: "list_all (calm n) es \<Longrightarrow> list_all (asks n k) es"
  by (auto simp: list_all_iff asks_def)

lemma calm_call:
  assumes I: "el_inv M S" and es: "list_all (calm n) (effects st)"
    and st: "myself st = n" "currentEpoch (member S n) \<le> currentEpoch st" "lastVoteEpoch st = lastVoteEpoch (member S n)"
      "failover_auth_sent st \<Longrightarrow> failover_auth_sent (member S n) \<and> failover_auth_epoch st = failover_auth_epoch (member S n)"
      "\<not> failover_auth_sent st \<Longrightarrow> failover_auth_count st = 0"
      "failover_auth_sent st \<Longrightarrow> failover_auth_count st + votes_for M n (failover_auth_epoch st) (net S)
           \<le> votes_for M n (failover_auth_epoch st) (history S)"
  shows "call_end M S n st"
proof -
  have mo: "lastVoteEpoch (member S n) \<le> currentEpoch (member S n)"
      "failover_auth_sent (member S n) \<Longrightarrow> 0 < failover_auth_epoch (member S n)"
    using I by (auto simp: el_inv_def member_ok_def Let_def)
  have ps: "sender m = n \<and> body m \<noteq> AUTH_ACK \<and> body m \<noteq> AUTH_REQUEST"
    if "(f, t, m) \<in> set (posts n (effects st))" for f t m
    using posts_effects [OF that es] by (auto simp: calm_def is_auth_def)
  have "filter (ack_in e) (posts n (effects st)) = []" for e
    by (rule no_acks) (use ps posts_from in fastforce)+
  then show ?thesis unfolding call_end_def Let_def
    using st mo ps by (auto simp: le_trans [OF mo(1)])
qed

lemma moved_call:
  assumes I: "el_inv M S" and m: "moved (member S n) st"
  shows "call_end M S n st"
proof -
  let ?s = "member S n"
  have s: "myself ?s = n" "effects ?s = []" "lastVoteEpoch ?s \<le> currentEpoch ?s"
    "\<not> failover_auth_sent ?s \<Longrightarrow> failover_auth_count ?s = 0"
    "failover_auth_sent ?s \<Longrightarrow> failover_auth_count ?s + votes_for M n (failover_auth_epoch ?s) (net S)
          \<le> votes_for M n (failover_auth_epoch ?s) (history S)"
    using I by (auto simp: el_inv_def member_ok_def Let_def)
  have old: "packet_ok S p" if "p \<in> set (net S)" for p using I that by (auto simp: el_inv_def)
  consider "quiet ?s st" | "scheduled ?s st" | "started ?s st" using m by (auto simp: moved_def)
  then show ?thesis
  proof cases
    case 1
    then show ?thesis by (intro calm_call [OF I]) (use s in \<open>auto simp: quiet_def\<close>)
  next
    case 2
    then show ?thesis by (intro calm_call [OF I]) (use s in \<open>auto simp: scheduled_def\<close>)
  next
    case 3
    then have c: "currentEpoch ?s < failover_auth_epoch st" "failover_auth_count st = 0" using s by (auto simp: started_def)
    have "\<not> vote_for M n (failover_auth_epoch st) p" if p: "p \<in> set (net S)" for p
    proof -
      obtain a b d where p3: "p = (a, b, d)" by (metis prod_cases3)
      show ?thesis using old [OF p] c(1) by (auto simp: p3)
    qed
    then have "votes_for M n (failover_auth_epoch st) (net S) = 0" by (simp add: votes_for_def filter_empty_conv)
    then show ?thesis using 3 c s votes_nonneg
      by (intro call_endI [OF I, of n "failover_auth_epoch st"]) (auto simp: started_def)
  qed
qed


subsection \<open>Steps\<close>

lemma quiet_header:
  assumes "packet_header env m st = (e, c, s)"
  shows "quiet st s" "e = 0 \<or> e = msgEpoch m" "0 < e \<Longrightarrow> e \<le> currentEpoch s" "effects s = effects st"
    "\<And>v. is_master (nodes s v) = is_master (nodes st v) \<and> numslots (nodes s v) = numslots (nodes st v)"
    "names s = names st"
  using assms by (auto simp: packet_header_def Let_def upd_node_def quiet_def split: if_splits)

text \<open>A vote: at most one packet, in an epoch in which the node had not voted.\<close>

lemma vote_cases:
  assumes "clusterSendFailoverAuthIfNeeded env c m st = st'"
  shows "st' = st \<or>
    currentEpoch st \<le> msgEpoch m \<and> lastVoteEpoch st \<noteq> currentEpoch st \<and> lastVoteEpoch st' = currentEpoch st \<and>
    myself st' = myself st \<and> currentEpoch st' = currentEpoch st \<and> failover_auth_count st' = failover_auth_count st \<and>
    failover_auth_sent st' = failover_auth_sent st \<and> failover_auth_epoch st' = failover_auth_epoch st \<and>
    (effects st' = effects st \<or> effects st' = effects st @ [Post c (clusterBuildMessageHdr env AUTH_ACK st)])"
  using assms unfolding clusterSendFailoverAuthIfNeeded_def Let_def
  by (simp add: upd_node_def clusterSendFailoverAuth_def send_to_def emit_def split: if_splits) (elim disjE; force)+

lemma take_packet_inv:
  assumes I: "el_inv M S" and i: "i < length (net S)"
  shows "el_inv M (take_packet i S)" "votes_for M n e (net S) = votes_for M n e (net (take_packet i S)) + (if vote_for M n e (net S ! i) then 1 else 0)"
proof -
  have n: "net S = take i (net S) @ net S ! i # drop (Suc i) (net S)" using i by (simp add: id_take_nth_drop)
  show v: "votes_for M n e (net S) = votes_for M n e (net (take_packet i S)) + (if vote_for M n e (net S ! i) then 1 else 0)" for n e
    by (subst n) (simp add: take_packet_def votes_for_def)
  have le: "votes_for M n e (net (take_packet i S)) \<le> votes_for M n e (net S)" for n e using v [of n e] by simp
  have sub: "set (net (take_packet i S)) \<subseteq> set (net S)"
    by (auto simp: take_packet_def dest: in_set_takeD in_set_dropD)
  have [simp]: "member (take_packet i S) = member S"
    by (rule member_cong) (simp add: take_packet_def)
  have [simp]: "history (take_packet i S) = history S" "elected (take_packet i S) = elected S"
    by (simp_all add: take_packet_def)
  have pk: "packet_ok (take_packet i S) p = packet_ok S p" for p by (cases p) simp
  have "member_ok M (take_packet i S) x" for x
  proof -
    have "member_ok M S x" using I by (simp add: el_inv_def)
    then show ?thesis using le [of x "failover_auth_epoch (member S x)"] by (auto simp: member_ok_def Let_def)
  qed
  then show "el_inv M (take_packet i S)" using I sub by (auto simp: el_inv_def pk)
qed

lemma member_take_packet [simp]: "member (take_packet i S) = member S"
  by (rule member_cong) (simp add: take_packet_def)

lemma take_packet_simps [simp]:
  "history (take_packet i S) = history S" "elected (take_packet i S) = elected S"
  by (simp_all add: take_packet_def)

lemma sent_ok: "el_inv M S \<Longrightarrow> p \<in> set (history S) \<Longrightarrow> packet_ok S p"
  unfolding el_inv_def by blast

lemma net_sent: "el_inv M S \<Longrightarrow> i < length (net S) \<Longrightarrow> net S ! i = p \<Longrightarrow> p \<in> set (history S)"
  unfolding el_inv_def using nth_mem by blast

text \<open>The call that votes.\<close>

lemma vote_call:
  assumes I: "el_inv M S" and p: "(f, n, m) \<in> set (history S)" "body m = AUTH_REQUEST"
    and q: "quiet (member S n) s" "effects s = []"
    and v: "clusterSendFailoverAuthIfNeeded env (sender m) m s = st"
  shows "call_end M S n st"
proof -
  have "packet_ok S (f, n, m)" by (rule sent_ok [OF I p(1)])
  then have m: "sender m = f" "n \<noteq> f" "msgEpoch m \<le> currentEpoch (member S f)"
    "failover_auth_sent (member S f) \<Longrightarrow> msgEpoch m \<le> failover_auth_epoch (member S f)" using p(2) by auto
  have z: "myself (member S n) = n" "effects (member S n) = []" "lastVoteEpoch (member S n) \<le> currentEpoch (member S n)"
    "\<not> failover_auth_sent (member S n) \<Longrightarrow> failover_auth_count (member S n) = 0"
    "failover_auth_sent (member S n) \<Longrightarrow> 0 < failover_auth_epoch (member S n) \<and>
        failover_auth_count (member S n) + votes_for M n (failover_auth_epoch (member S n)) (net S)
          \<le> votes_for M n (failover_auth_epoch (member S n)) (history S)"
    using I by (auto simp: el_inv_def member_ok_def Let_def)
  have s: "myself s = n" "currentEpoch (member S n) \<le> currentEpoch s" "lastVoteEpoch s = lastVoteEpoch (member S n)"
    "failover_auth_count s = failover_auth_count (member S n)" "failover_auth_sent s = failover_auth_sent (member S n)"
    "failover_auth_epoch s = failover_auth_epoch (member S n)" using q z by (auto simp: quiet_def)
  show ?thesis
  proof (cases "st = s")
    case True
    then show ?thesis using q(1) moved_call [OF I] by (simp add: moved_def)
  next
    case False
    with vote_cases [OF v] have c: "currentEpoch s \<le> msgEpoch m" "lastVoteEpoch s \<noteq> currentEpoch s" "lastVoteEpoch st = currentEpoch s"
      "myself st = n" "currentEpoch st = currentEpoch s" "failover_auth_count st = failover_auth_count s"
      "failover_auth_sent st = failover_auth_sent s" "failover_auth_epoch st = failover_auth_epoch s"
      "effects st = [] \<or> effects st = [Post f (clusterBuildMessageHdr env AUTH_ACK s)]"
      using s(1) m(1) q(2) by auto
    have lt: "lastVoteEpoch (member S n) < currentEpoch s" using c(2) s(2,3) z(3) by simp
    show ?thesis unfolding call_end_def Let_def
      using c(9) c(1-8) s z m lt by (elim disjE) auto
  qed
qed

text \<open>The call that counts a vote.\<close>

lemma count_call:
  assumes I: "el_inv M S" and i: "i < length (net S)" "net S ! i = (f, n, m)" and b: "body m = AUTH_ACK" and f: "f \<in> M"
    and sent: "failover_auth_sent (member S n)" and q: "quiet (member S n) s"
    and e: "failover_auth_epoch s \<le> e" "e = 0 \<or> e = msgEpoch m"
  shows "call_end M (take_packet i S) n (s\<lparr>failover_auth_count := failover_auth_count s + 1, todo_failover := True\<rparr>)"
proof -
  have p: "packet_ok S (f, n, m)" by (rule sent_ok [OF I net_sent [OF I i]])
  have z: "myself (member S n) = n" "effects (member S n) = []" "0 < failover_auth_epoch (member S n)"
      "failover_auth_count (member S n) + votes_for M n (failover_auth_epoch (member S n)) (net S)
          \<le> votes_for M n (failover_auth_epoch (member S n)) (history S)"
    using I sent by (auto simp: el_inv_def member_ok_def Let_def)
  have s: "failover_auth_epoch s = failover_auth_epoch (member S n)" "failover_auth_count s = failover_auth_count (member S n)"
    "failover_auth_sent s" using q sent by (simp_all add: quiet_def)
  have em: "msgEpoch m = failover_auth_epoch (member S n)" using p b sent e s(1) z(3) by auto
  then have v: "votes_for M n (failover_auth_epoch (member S n)) (net S) =
    votes_for M n (failover_auth_epoch (member S n)) (net (take_packet i S)) + 1"
    using take_packet_inv(2) [OF I i(1), of n "failover_auth_epoch (member S n)"] i(2) b f by simp
  have "quiet (member S n) s" by (rule q)
  then show ?thesis
    by (intro calm_call [OF take_packet_inv(1) [OF I i(1)]]) (use s sent z v in \<open>auto simp: quiet_def\<close>)
qed

lemma packet_step:
  assumes I: "el_inv M S" and A: "agreed M S" and i: "i < length (net S)" "net S ! i = (f, n, m)"
    and late: "body m \<noteq> AUTH_ACK \<or> failover_auth_sent (member S n)"
  shows "el_inv M (run n (clusterProcessPacket env l m) (take_packet i S))"
proof -
  let ?S = "take_packet i S" and ?s = "member S n"
  have I': "el_inv M ?S" by (rule take_packet_inv(1) [OF I i(1)])
  have eff: "effects ?s = []" "myself ?s = n" using I by (auto simp: el_inv_def member_ok_def Let_def)
  have hist: "(f, n, m) \<in> set (history S)" by (rule net_sent [OF I i])
  have sm: "sender m = f" "body m = AUTH_ACK \<Longrightarrow> n \<noteq> f" using sent_ok [OF I hist] by auto
  obtain e c s where h: "packet_header env m ?s = (e, c, s)" by (metis prod_cases3)
  note hd = quiet_header [OF h]
  have quiet_ends: "call_end M ?S n st" if "quiet s st" for st
    using moved_call [OF I'] quiet_trans [OF hd(1) that] by (simp add: moved_def)
  have "call_end M ?S n (clusterProcessPacket env l m ?s)"
  proof (cases "body m")
    case AUTH_REQUEST
    show ?thesis
    proof (cases "clusterLookupNode f s = None")
      case True
      then show ?thesis using quiet_ends [of s] by (simp add: clusterProcessPacket_def h AUTH_REQUEST sm(1) Let_def)
    next
      case False
      then have "clusterProcessPacket env l m ?s = clusterSendFailoverAuthIfNeeded env (sender m) m s"
        by (simp add: clusterProcessPacket_def h AUTH_REQUEST sm(1) Let_def)
      with vote_call [OF I' _ AUTH_REQUEST, of f n s env] hist hd eff show ?thesis by simp
    qed
  next
    case AUTH_ACK
    show ?thesis
    proof (cases "clusterLookupNode f s \<noteq> None \<and> is_master (nodes s f) \<and> numslots (nodes s f) > 0 \<and> e \<ge> failover_auth_epoch s")
      case True
      have sent: "failover_auth_sent ?s" using late AUTH_ACK by simp
      have "f \<in> M"
        using A [unfolded agreed_def, THEN spec [of _ n]] True hd(5) [of f] hd(6) sm(2) [OF AUTH_ACK]
        by (auto simp: node_agrees_def list_all_iff clusterLookupNode_def split: if_splits)
      from count_call [OF I i AUTH_ACK this sent hd(1) _ hd(2)] True show ?thesis
        by (simp add: clusterProcessPacket_def h AUTH_ACK sm(1) Let_def)
    next
      case False
      then show ?thesis using quiet_ends [of s] by (auto simp: clusterProcessPacket_def h AUTH_ACK sm(1) Let_def)
    qed
  next
    case (PING gs)
    then show ?thesis using quiet_ends [OF quiet_ping [OF refl]] by (simp add: clusterProcessPacket_def h Let_def)
  next
    case (PONG gs)
    then show ?thesis using quiet_ends [OF quiet_ping [OF refl]] by (simp add: clusterProcessPacket_def h Let_def)
  next
    case (FAIL x)
    have "quiet s (clusterProcessPacket env l m ?s)" by (auto simp: clusterProcessPacket_def h FAIL Let_def)
    then show ?thesis by (rule quiet_ends)
  next
    case MFSTART
    have "quiet s (clusterProcessPacket env l m ?s)"
      by (auto simp: clusterProcessPacket_def h MFSTART Let_def calm_def quiet_reset)
    then show ?thesis by (rule quiet_ends)
  next
    case (UPDATE x re cl)
    have "quiet s (clusterProcessPacket env l m ?s)"
      by (auto simp: clusterProcessPacket_def h UPDATE Let_def quiet_set_master_node intro!: quiet_trans [OF _ quiet_update_slots])
    then show ?thesis by (rule quiet_ends)
  qed
  then show ?thesis using el_inv_put [OF I'] by (simp add: run_put)
qed


text \<open>The calls that may win an election. Sending changes no node.\<close>

lemma nodes_send [simp]: "nodes (send_to n m st) = nodes st" "myself (send_to n m st) = myself st"
  by (simp_all add: send_to_def emit_def)

lemma nodes_fold:
  "(\<And>x b. nodes (f x b) = nodes b \<and> myself (f x b) = myself b) \<Longrightarrow> nodes (fold f xs b) = nodes b \<and> myself (fold f xs b) = myself b"
  by (induction xs arbitrary: b) auto

lemma nodes_broadcast [simp]:
  "nodes (clusterBroadcastMessage m st) = nodes st" "myself (clusterBroadcastMessage m st) = myself st"
  "nodes (clusterBroadcastPong env l st) = nodes st" "myself (clusterBroadcastPong env l st) = myself st"
  unfolding clusterBroadcastMessage_def clusterBroadcastPong_def by (simp_all add: nodes_fold)

lemma rank_state: "clusterGetSlaveRank env st = (r, s) \<Longrightarrow> s = cassert (is_slave (me st)) st"
  by (auto simp: clusterGetSlaveRank_def Let_def split: option.splits)

lemma nodes_cassert [simp]: "nodes (cassert b st) = nodes st" "myself (cassert b st) = myself st" "mf_end (cassert b st) = mf_end st"
  by (simp_all add: cassert_def)

lemma schedule_ok: "scheduled st (schedule_election env st) \<and> nodes (schedule_election env st) = nodes st"
proof -
  let ?a = "st\<lparr>failover_auth_time := now env + 500 + random500 env, failover_auth_count := 0, failover_auth_sent := False\<rparr>"
  obtain r s where r: "clusterGetSlaveRank env ?a = (r, s)" by fastforce
  have s: "s = cassert (is_slave (me ?a)) ?a" by (rule rank_state [OF r])
  let ?b = "s\<lparr>failover_auth_rank := r, failover_auth_time := failover_auth_time s + r * 1000\<rparr>"
  define t where "t = (if mf_end ?b \<noteq> 0 then ?b\<lparr>failover_auth_time := now env, failover_auth_rank := 0\<rparr> else ?b)"
  have e: "schedule_election env st = clusterBroadcastPong env True t"
    unfolding schedule_election_def Let_def r prod.case t_def ..
  have t: "quiet ?a t" unfolding t_def s by (auto intro: quiet_cassert)
  have "quiet ?a (clusterBroadcastPong env True t)" by (rule quiet_trans [OF t quiet_pong])
  then show ?thesis unfolding e by (simp add: scheduled_def quiet_def) (simp add: t_def s)
qed

lemma rank_ok: "quiet st (update_rank env st)" "nodes (update_rank env st) = nodes st" "csize (update_rank env st) = csize st"
proof -
  obtain r s where r: "clusterGetSlaveRank env st = (r, s)" by fastforce
  note s = rank_state [OF r]
  show "quiet st (update_rank env st)" unfolding update_rank_def r by (auto simp: s)
  show "nodes (update_rank env st) = nodes st" by (simp add: update_rank_def r s)
  show "csize (update_rank env st) = csize st" by (simp add: update_rank_def r s cassert_def)
qed

lemma request_asks:
  assumes "list_all (asks (myself st) k) es" "body m = AUTH_REQUEST" "msgEpoch m = k" "sender m = myself st"
  shows "\<exists>es'. effects (clusterBroadcastMessage m st) = effects st @ es' \<and> list_all (asks (myself st) k) es'"
proof -
  have "\<exists>es'. effects (fold (\<lambda>n st. if n = myself st \<or> handshake (nodes st n) then st else send_to n m st) ns b) = effects b @ es' \<and>
      list_all (asks (myself st) k) es'" if "myself b = myself st" for ns b
    using that
  proof (induction ns arbitrary: b)
    case (Cons n ns)
    let ?c = "if n = myself b \<or> handshake (nodes b n) then b else send_to n m b"
    have c: "\<exists>es1. effects ?c = effects b @ es1 \<and> list_all (asks (myself st) k) es1"
      using assms(2-4) Cons.prems by (auto simp: send_to_def emit_def asks_def)
    have "myself ?c = myself st" using Cons.prems by simp
    from Cons.IH [OF this] c show ?case by fastforce
  qed simp
  then show ?thesis by (simp add: clusterBroadcastMessage_def)
qed

lemma broadcast_fields [simp]:
  "currentEpoch (clusterBroadcastMessage m st) = currentEpoch st" "lastVoteEpoch (clusterBroadcastMessage m st) = lastVoteEpoch st"
  "failover_auth_count (clusterBroadcastMessage m st) = failover_auth_count st"
  "failover_auth_epoch (clusterBroadcastMessage m st) = failover_auth_epoch st"
proof -
  have "currentEpoch (fold (\<lambda>n st. if n = myself st \<or> handshake (nodes st n) then st else send_to n m st) ns b) = currentEpoch b \<and>
    lastVoteEpoch (fold (\<lambda>n st. if n = myself st \<or> handshake (nodes st n) then st else send_to n m st) ns b) = lastVoteEpoch b \<and>
    failover_auth_count (fold (\<lambda>n st. if n = myself st \<or> handshake (nodes st n) then st else send_to n m st) ns b) = failover_auth_count b \<and>
    failover_auth_epoch (fold (\<lambda>n st. if n = myself st \<or> handshake (nodes st n) then st else send_to n m st) ns b) = failover_auth_epoch b"
    for ns b by (induction ns arbitrary: b) (auto simp: send_to_def emit_def)
  then show "currentEpoch (clusterBroadcastMessage m st) = currentEpoch st" "lastVoteEpoch (clusterBroadcastMessage m st) = lastVoteEpoch st"
    "failover_auth_count (clusterBroadcastMessage m st) = failover_auth_count st"
    "failover_auth_epoch (clusterBroadcastMessage m st) = failover_auth_epoch st"
    by (simp_all add: clusterBroadcastMessage_def)
qed

lemma start_ok:
  assumes "\<not> failover_auth_sent st"
  shows "started st (start_election env st) \<and> nodes (start_election env st) = nodes st"
proof -
  let ?a = "st\<lparr>currentEpoch := currentEpoch st + 1, failover_auth_epoch := currentEpoch st + 1\<rparr>"
  define m where "m = (let m = clusterBuildMessageHdr env AUTH_REQUEST ?a in if mf_end ?a \<noteq> 0 then m\<lparr>flag_forceack := True\<rparr> else m)"
  have m: "body m = AUTH_REQUEST" "msgEpoch m = currentEpoch st + 1" "sender m = myself st" by (auto simp: m_def Let_def)
  have e: "start_election env st = (clusterBroadcastMessage m ?a)\<lparr>failover_auth_sent := True, todo_save := True, todo_update := True\<rparr>"
    by (simp add: start_election_def clusterRequestFailoverAuth_def Let_def m_def)
  show ?thesis unfolding e using request_asks [of ?a "currentEpoch st + 1" "[]" m] m assms
    by (auto simp: started_def)
qed

lemma quiet_replace: "quiet st (clusterFailoverReplaceYourMaster env st)"
proof (cases "slaveof (me st)")
  case (Some x)
  define a where "a = emit UnsetReplication (clusterSetNodeAsMaster (myself st) st)"
  have a: "quiet st a" unfolding a_def by (rule quiet_emit [OF quiet_set_master_node]) (simp add: calm_def)
  define b where "b = fold (\<lambda>j st. if j \<in> bitmap (nodes st x) then snd (clusterAddSlot (myself st) j (snd (clusterDelSlot j st))) else st)
    (sorted_list_of_set (bitmap (nodes a x))) a"
  have b: "quiet st b" unfolding b_def
    by (rule quiet_fold [OF _ a]) (auto intro: quiet_trans [OF quiet_del_slot quiet_add_slot])
  have "quiet st (resetManualFailover (clusterBroadcastPong env False (clusterSaveConfig (clusterUpdateState env b))))"
    by (intro quiet_trans [OF _ quiet_reset] quiet_trans [OF _ quiet_pong] quiet_trans [OF _ quiet_save]
        quiet_trans [OF _ quiet_update_state] b)
  then show ?thesis using Some by (simp add: clusterFailoverReplaceYourMaster_def Let_def a_def b_def)
qed (simp add: clusterFailoverReplaceYourMaster_def)

lemma quiet_win: "quiet st (win_election env st)"
  unfolding win_election_def Let_def by (rule quiet_trans [OF _ quiet_replace]) auto

text \<open>Who wins has counted a majority of votes for the election that runs.\<close>

definition quorum :: "cstate \<Rightarrow> bool" where
  "quorum st \<longleftrightarrow> failover_auth_sent st \<and> csize st div 2 + 1 \<le> failover_auth_count st \<and> \<not> is_master (me st)"

lemma failover_moves:
  "moved st (clusterHandleSlaveFailover env st) \<and>
   (quorum st \<or> nodes (clusterHandleSlaveFailover env st) = nodes st)"
proof (cases "slaveof (me (st\<lparr>todo_failover := False\<rparr>))")
  case None
  then show ?thesis by (auto simp: clusterHandleSlaveFailover_def Let_def moved_def)
next
  case (Some x)
  let ?a = "st\<lparr>todo_failover := False\<rparr>" and ?b = "update_rank env (st\<lparr>todo_failover := False\<rparr>)"
  have a: "quiet st ?a" and b: "quiet st ?b" by (auto intro: quiet_trans [OF _ rank_ok(1)])
  have nb: "nodes ?b = nodes st" "csize ?b = csize st" by (simp_all add: rank_ok)
  have cb: "failover_auth_sent ?b = failover_auth_sent st" "failover_auth_count ?b = failover_auth_count st"
    using b by (simp_all add: quiet_def)
  define P where "P s \<longleftrightarrow> moved st s \<and> (quorum st \<or> nodes s = nodes st)" for s
  have 1: "P ?a" by (simp add: P_def moved_def a)
  have 2: "P (schedule_election env ?a)" using quiet_moved [OF a] schedule_ok [of ?a env] by (simp add: P_def moved_def)
  have 3: "P ?b" by (simp add: P_def moved_def b nb)
  have 4: "P (start_election env ?b)" if "\<not> failover_auth_sent ?b"
    using quiet_moved [OF b] start_ok [OF that, of env] nb by (simp add: P_def moved_def)
  have 5: "P (win_election env ?b)" if "failover_auth_sent ?b" "csize ?b div 2 + 1 \<le> failover_auth_count ?b" "\<not> is_master (me ?a)"
    using quiet_trans [OF b quiet_win] cb nb that by (simp add: P_def moved_def quorum_def me_def)
  have "P (clusterHandleSlaveFailover env st)"
    unfolding clusterHandleSlaveFailover_def Let_def Some option.case
    using 1 2 3 4 5 nb by (simp split: if_split)
  then show ?thesis by (simp add: P_def)
qed


lemma manual_ok:
  "quiet st (clusterHandleManualFailover env (manualFailoverCheckTimeout env st))"
  "nodes (clusterHandleManualFailover env (manualFailoverCheckTimeout env st)) = nodes st"
  "csize (clusterHandleManualFailover env (manualFailoverCheckTimeout env st)) = csize st"
  "quiet st (manualFailoverCheckTimeout env st)" "nodes (manualFailoverCheckTimeout env st) = nodes st"
proof -
  have r: "nodes (resetManualFailover st) = nodes st" "csize (resetManualFailover st) = csize st"
    by (simp_all add: resetManualFailover_def Let_def emit_def)
  show "quiet st (manualFailoverCheckTimeout env st)" by (auto simp: manualFailoverCheckTimeout_def quiet_reset)
  then show "quiet st (clusterHandleManualFailover env (manualFailoverCheckTimeout env st))"
    by (auto simp: clusterHandleManualFailover_def)
qed (simp_all add: clusterHandleManualFailover_def manualFailoverCheckTimeout_def resetManualFailover_def Let_def emit_def)

lemma quorum_cong:
  "quiet st a \<Longrightarrow> nodes a = nodes st \<Longrightarrow> csize a = csize st \<Longrightarrow> quorum a = quorum st"
  by (simp add: quorum_def quiet_def me_def)

text \<open>A call that moves, and that makes the node a master only if it has a quorum.\<close>

definition elects :: "cstate \<Rightarrow> cstate \<Rightarrow> bool" where
  "elects st st' \<longleftrightarrow> moved st st' \<and> (quorum st \<or> nodes st' = nodes st)"

lemma cron_elects: "elects st (cron_failover env st)"
proof -
  let ?a = "manualFailoverCheckTimeout env st"
  let ?b = "clusterHandleManualFailover env ?a"
  note m = manual_ok [where st = st and env = env]
  have "elects st (clusterHandleSlaveFailover env ?b)"
    using failover_moves [of ?b env] quiet_moved [OF m(1)] quorum_cong [OF m(1-3)] m(2) by (auto simp: elects_def)
  moreover have "elects st ?a" using m by (simp add: elects_def moved_def)
  ultimately show ?thesis by (simp add: cron_failover_def Let_def)
qed

lemma nodes_state [simp]: "nodes (clusterUpdateState env st) = nodes st" "nodes (clusterSaveConfig st) = nodes st"
  by (simp_all add: clusterUpdateState_def clusterSaveConfig_def Let_def)

lemma sleep_elects: "elects st (clusterBeforeSleep env st)"
proof -
  define a where "a = (if todo_failover st then clusterHandleSlaveFailover env st else st)"
  have a: "elects st a" using failover_moves [of st env] by (simp add: a_def elects_def moved_def)
  define b where "b = (if todo_update a then clusterUpdateState env a else a)"
  define c where "c = (if todo_save b then clusterSaveConfig b else b)"
  have c: "quiet a c" "nodes c = nodes a"
    by (auto simp: c_def b_def intro: quiet_update_state quiet_save quiet_trans [OF quiet_update_state quiet_save])
  have "quiet a (clusterBeforeSleep env st)" "nodes (clusterBeforeSleep env st) = nodes a"
    using c by (auto simp: clusterBeforeSleep_def a_def b_def c_def Let_def)
  then show ?thesis using a moved_quiet by (auto simp: elects_def)
qed

lemma run_failover_inv:
  assumes I: "el_inv M S" and A: "agreed M S" and e: "elects (member S n) (f (member S n))"
  shows "el_inv M (run_failover n f S)"
proof -
  let ?s = "member S n" and ?S = "run n f S"
  have I': "el_inv M ?S" using el_inv_put [OF I moved_call [OF I]] e by (simp add: run_put elects_def)
  have q: "int (card M) div 2 + 1 \<le> votes_for M n (failover_auth_epoch ?s) (history ?S)" if "won ?s (member ?S n)"
  proof -
    have "myself (f ?s) = myself ?s" using e by (auto simp: elects_def moved_def quiet_def scheduled_def started_def)
    then have "nodes (f ?s) \<noteq> nodes ?s" using that by (auto simp: won_def me_def run_put)
    then have "quorum ?s" using e by (simp add: elects_def)
    moreover have "member_ok M S n" using I by (simp add: el_inv_def)
    moreover have "\<not> is_master (me ?s) \<Longrightarrow> csize ?s = int (card M)" using A by (auto simp: agreed_def node_agrees_def)
    ultimately have "int (card M) div 2 + 1 \<le> votes_for M n (failover_auth_epoch ?s) (history S)"
      using votes_nonneg [of M n "failover_auth_epoch ?s" "net S"] by (auto simp: quorum_def member_ok_def Let_def)
    then show ?thesis using votes_nonneg [of M n "failover_auth_epoch ?s" "posts n (effects (f ?s))"] by (simp add: run_put)
  qed
  have el: "elected ?S = elected S" by (simp add: run_put)
  have "int (card M) div 2 + 1 \<le> votes_for M x k (history (run_failover n f S))" if "(k, x) \<in> set (elected (run_failover n f S))" for k x
  proof -
    have h: "history (run_failover n f S) = history ?S" by (simp add: run_failover_def Let_def)
    from that have "(k, x) \<in> set (elected S) \<or> won ?s (member ?S n) \<and> k = failover_auth_epoch ?s \<and> x = n"
      by (auto simp: run_failover_def Let_def split: if_splits)
    then show ?thesis using q I' by (auto simp: h el_inv_def el)
  qed
  then have "\<forall>(k, x) \<in> set (elected (run_failover n f S)). int (card M) div 2 + 1 \<le> votes_for M x k (history (run_failover n f S))"
    by auto
  moreover have me: "member (run_failover n f S) = member ?S"
    by (rule member_cong) (simp add: run_failover_def Let_def)
  moreover have "member_ok M (run_failover n f S) x = member_ok M ?S x" for x
    unfolding member_ok_def me
    by (simp add: run_failover_def Let_def member_ok_def)
  moreover have "packet_ok (run_failover n f S) p = packet_ok ?S p" for p
    by (cases p) (simp add: me)
  ultimately show ?thesis using I' by (simp add: el_inv_def run_failover_def Let_def)
qed

lemma max_epoch: "currentEpoch st \<le> clusterGetMaxEpoch st"
  by (simp add: clusterGetMaxEpoch_def Let_def)

lemma restart_call:
  assumes I: "el_inv M S"
    and f: "saved_epoch (config_file (member S n)) = currentEpoch (member S n)"
      "saved_vote (config_file (member S n)) = lastVoteEpoch (member S n)"
  shows "call_end M S n (clusterUpdateState env (clusterInit env (member S n)))"
proof -
  have s: "myself (member S n) = n" "effects (member S n) = []" using I by (auto simp: el_inv_def member_ok_def Let_def)
  let ?i = "clusterInit env (member S n)"
  have i: "myself ?i = n" "effects ?i = []" "currentEpoch (member S n) \<le> currentEpoch ?i"
    "lastVoteEpoch ?i = lastVoteEpoch (member S n)" "\<not> failover_auth_sent ?i" "failover_auth_count ?i = 0"
    using s f by (auto simp: clusterInit_def Let_def)
  have "quiet ?i (clusterUpdateState env ?i)" by (rule quiet_update_state)
  then show ?thesis by (intro calm_call [OF I]) (use i in \<open>auto simp: quiet_def\<close>)
qed

lemma quiet_run: "el_inv M S \<Longrightarrow> quiet (member S n) (f (member S n)) \<Longrightarrow> el_inv M (run n f S)"
  unfolding run_put by (rule el_inv_put) (auto intro: moved_call simp: moved_def)

lemma quiet_failover_command:
  assumes "cluster_failover env force False st = Some st'" shows "quiet st st'"
proof -
  let ?a = "(resetManualFailover st)\<lparr>mf_end := now env + 5000\<rparr>"
  have a: "quiet st ?a" by (rule quiet_fields(10) [OF quiet_reset])
  then have "quiet st (clusterSendMFStart env m ?a)" for m by (rule quiet_trans [OF _ quiet_sends(3)])
  with a assms show ?thesis by (auto simp: cluster_failover_def Let_def split: option.splits if_splits)
qed

lemma cl_step_inv:
  assumes "el_inv M S" "agreed M S" "cl_step False False S S'"
  shows "el_inv M S'"
  using assms(3)
proof cases
  case (Packet i f n m l env)
  then show ?thesis using packet_step [OF assms(1,2)] by auto
next
  case (Drop i)
  then show ?thesis using take_packet_inv(1) [OF assms(1)] by simp
next
  case (Cron n env)
  then show ?thesis using run_failover_inv [OF assms(1,2), of n "cron_failover env"] cron_elects by simp
next
  case (Sleep n env)
  then show ?thesis using run_failover_inv [OF assms(1,2), of n "clusterBeforeSleep env"] sleep_elects by simp
next
  case (Timeout n env x)
  have "quiet st (cron_timeout env x st)" for st
    by (auto simp: cron_timeout_def intro: quiet_trans [OF _ quiet_update_state])
  then show ?thesis using Timeout quiet_run [OF assms(1)] by simp
next
  case (Ping n env x)
  then show ?thesis using quiet_run [OF assms(1)] quiet_sends(4) by simp
next
  case (Link n x up)
  then show ?thesis using quiet_run [OF assms(1)] quiet_sends(5) by simp
next
  case (Failover env force n st)
  then show ?thesis using quiet_run [OF assms(1), of n "\<lambda>_. st"] quiet_failover_command by simp
next
  case (Bump n)
  then show ?thesis using quiet_run [OF assms(1)] quiet_bump by simp
next
  case (Restart n env)
  then show ?thesis using el_inv_put [OF assms(1) restart_call [OF assms(1)]] by (simp add: run_put)
qed

lemma cl_init_inv: "cl_init S \<Longrightarrow> el_inv M S"
  by (auto simp: cl_init_def el_inv_def member_ok_def Let_def votes_for_def)

lemma cl_reach_inv: "cl_reach M False False S \<Longrightarrow> el_inv M S \<and> agreed M S"
  by (induction rule: cl_reach.induct) (auto intro: cl_init_inv cl_step_inv)

text \<open>Votes for two replicas in one epoch are votes of different masters.\<close>

lemma distinct_voters:
  assumes "distinct (map fst xs)" "\<forall>p \<in> set xs. fst p \<in> M" "finite M"
  shows "length xs \<le> card M"
proof -
  have "length xs = card (fst ` set xs)" using distinct_card [OF assms(1)] by simp
  also have "\<dots> \<le> card M" by (rule card_mono [OF assms(3)]) (use assms(2) in auto)
  finally show ?thesis .
qed

lemma filter_sum:
  "(\<And>p. \<not> (P p \<and> Q p)) \<Longrightarrow> length (filter P xs) + length (filter Q xs) = length (filter (\<lambda>p. P p \<or> Q p) xs)"
  by (induction xs) auto

lemma votes_disjoint:
  assumes "el_inv M S" "finite M" "a \<noteq> b"
  shows "votes_for M a e (history S) + votes_for M b e (history S) \<le> int (card M)"
proof -
  let ?P = "\<lambda>p. vote_for M a e p \<or> vote_for M b e p"
  have d: "distinct (map fst (filter (ack_in e) (history S)))" using assms(1) by (simp add: el_inv_def)
  have i: "?P p \<Longrightarrow> ack_in e p \<and> fst p \<in> M" for p by (cases p) auto
  have f: "filter ?P (history S) = filter ?P (filter (ack_in e) (history S))"
    unfolding filter_filter by (rule filter_cong) (use i in auto)
  have "distinct (map fst (filter ?P (history S)))" unfolding f by (rule distinct_map_filter [OF d])
  then have "length (filter ?P (history S)) \<le> card M" using i by (intro distinct_voters [OF _ _ assms(2)]) auto
  moreover have "\<not> (vote_for M a e p \<and> vote_for M b e p)" for p using assms(3) by (cases p) auto
  ultimately show ?thesis using filter_sum [of "vote_for M a e" "vote_for M b e" "history S"] by (simp add: votes_for_def)
qed

text \<open>
  C10. At most one replica is elected in an epoch, if the nodes agree on the masters that have slots, a node that stops has
  saved its last vote, and no vote arrives at a replica between two of its elections. The set \<open>M\<close> of these masters is
  the same in the whole run: the run covers the elections of any number of replicas and epochs, up to the point where
  a node learns that a winner has taken over the slots of its master.
\<close>

theorem one_winner_per_epoch:
  assumes "cl_reach M False False S" "finite M" "(e, a) \<in> set (elected S)" "(e, b) \<in> set (elected S)"
  shows "a = b"
proof (rule ccontr)
  assume "a \<noteq> b"
  have i: "el_inv M S" using cl_reach_inv [OF assms(1)] by simp
  then have "int (card M) div 2 + 1 \<le> votes_for M a e (history S)" "int (card M) div 2 + 1 \<le> votes_for M b e (history S)"
    using assms(3,4) by (auto simp: el_inv_def)
  with votes_disjoint [OF i assms(2) \<open>a \<noteq> b\<close>, of e] show False by linarith
qed

end
