(* ===== verification/Winners.thy ===== *)
theory Winners
  imports Election
begin

definition ex_node :: "nat \<Rightarrow> cnode" where
  "ex_node n = \<lparr>is_master = (n < 3), is_slave = (n \<ge> 3), nfail = (n = 0), pfail = False, handshake = False, has_link = True,
     configEpoch = 0, bitmap = (if n < 3 then {n} else {}), numslots = (if n < 3 then 1 else 0),
     replicas = (if n = 0 then [3, 4] else []), slaveof = (if n < 3 then None else Some 0), ping_sent = 0, pong_received = 0,
     fail_time = 0, voted_time = 0, repl_offset = 0, fail_reports = []\<rparr>"

definition ex_member :: "nat \<Rightarrow> cstate" where
  "ex_member n = \<lparr>myself = n, names = [0, 1, 2, 3, 4], nodes = ex_node, currentEpoch = 0, state_ok = True,
     csize = 3, slot_owner = (\<lambda>j. if j < 3 then Some j else None), importing = (\<lambda>_. False),
     failover_auth_time = 0, failover_auth_count = 0, failover_auth_sent = False, failover_auth_rank = 0, failover_auth_epoch = 0,
     mf_end = 0, mf_slave = None, mf_master_offset = 0, mf_can_start = False, lastVoteEpoch = 0,
     todo_failover = False, todo_update = False, todo_save = False, among_minority_time = 0, first_call_time = 1,
     config_file = \<lparr>saved_epoch = 0, saved_vote = 0, saved_nodes = ex_node, saved_importing = (\<lambda>_. False)\<rparr>,
     effects = [], assert_failed = False\<rparr>"

definition ex_cluster :: csys where
  "ex_cluster = \<lparr>members = map (\<lambda>n. (n, ex_member n)) [0, 1, 2, 3, 4], net = [], history = [], elected = []\<rparr>"

definition at_time :: "int \<Rightarrow> cenv" where
  "at_time t = \<lparr>now = t, random500 = 0, slave_offset = 0, master_offset = 0, seconds_apart = 0, picks = (\<lambda>_. []),
     keys_in_slot = (\<lambda>_. 0), node_timeout = 100, validity_factor = 10, ping_period = 10, full_coverage = False\<rparr>"

text \<open>A run of the cluster, as a list of actions that are checked one by one.\<close>

datatype action = Tick int nat | Deliver int nat | Lost nat | Boot int nat | Relink nat nat

definition node_of :: "action \<Rightarrow> csys \<Rightarrow> nat" where
  "node_of a S = (case a of Tick t n \<Rightarrow> n | Deliver t i \<Rightarrow> fst (snd (net S ! i)) | Lost i \<Rightarrow> 0 | Boot t n \<Rightarrow> n | Relink n x \<Rightarrow> n)"

definition perform :: "bool \<Rightarrow> bool \<Rightarrow> action \<Rightarrow> csys \<Rightarrow> csys option" where
  "perform late lossy a S =
     (case a of
        Tick t n \<Rightarrow> Some (run_failover n (cron_failover (at_time t)) S)
      | Deliver t i \<Rightarrow>
          if i < length (net S) then
            case net S ! i of (f, n, m) \<Rightarrow>
              if late \<or> body m \<noteq> AUTH_ACK \<or> failover_auth_sent (member S n)
              then Some (run n (clusterProcessPacket (at_time t) None m) (take_packet i S)) else None
          else None
      | Lost i \<Rightarrow> if i < length (net S) then Some (take_packet i S) else None
      | Boot t n \<Rightarrow>
          if lossy \<or> saved_epoch (config_file (member S n)) = currentEpoch (member S n) \<and>
             saved_vote (config_file (member S n)) = lastVoteEpoch (member S n)
          then Some (run n (\<lambda>st. clusterUpdateState (at_time t) (clusterInit (at_time t) st)) S) else None
      | Relink n x \<Rightarrow> Some (run n (set_link x True) S))"

fun script :: "nat set \<Rightarrow> bool \<Rightarrow> bool \<Rightarrow> action list \<Rightarrow> csys \<Rightarrow> csys option" where
  "script M late lossy [] S = Some S"
| "script M late lossy (a # as) S =
     (case perform late lossy a S of
        None \<Rightarrow> None
      | Some S' \<Rightarrow> if node_agrees M (node_of a S) (member S' (node_of a S)) then script M late lossy as S' else None)"

lemma member_run_failover: "member (run_failover n f S) = member (run n f S)"
  by (rule member_cong) (simp add: run_failover_def Let_def)

lemma member_run: "member (run n f S) x = (if x = n then f (member S n)\<lparr>effects := []\<rparr> else member S x)"
  by (simp add: run_put)

lemma perform_member:
  "perform late lossy a S = Some S' \<Longrightarrow> x \<noteq> node_of a S \<Longrightarrow> member S' x = member S x"
  by (auto simp: perform_def node_of_def member_run member_run_failover split: action.splits prod.splits if_splits)

lemma perform_step: "perform late lossy a S = Some S' \<Longrightarrow> cl_step late lossy S S'"
  by (auto simp: perform_def split: action.splits prod.splits if_splits intro: cl_step.intros)

lemma script_reach:
  "cl_reach M late lossy S \<Longrightarrow> agreed M S \<Longrightarrow> script M late lossy as S = Some S' \<Longrightarrow> cl_reach M late lossy S'"
proof (induction as arbitrary: S)
  case (Cons a as)
  then obtain T where T: "perform late lossy a S = Some T" "node_agrees M (node_of a S) (member T (node_of a S))"
    "script M late lossy as T = Some S'" by (auto split: option.splits if_splits)
  have "node_agrees M x (member T x)" for x
    using T(2) perform_member [OF T(1), of x] Cons.prems(2) by (cases "x = node_of a S") (auto simp: agreed_def)
  then have "agreed M T" by (simp add: agreed_def)
  with Cons.IH [OF cl_reach.Step [OF Cons.prems(1) perform_step [OF T(1)]] _ T(3)] show ?case by simp
qed simp

lemma ex_cluster_member: "member ex_cluster n = (if n \<in> {0, 1, 2, 3, 4} then ex_member n else idle n)"
  by (simp add: member_def ex_cluster_def)

lemma ex_cluster_agreed: "agreed {0, 1, 2} ex_cluster"
  by (auto simp: agreed_def node_agrees_def ex_cluster_member ex_member_def idle_def idle_node_def ex_node_def me_def)

lemma ex_cluster_reach: "cl_reach {0, 1, 2} late lossy ex_cluster"
proof (rule cl_reach.Init [OF _ ex_cluster_agreed])
  have "net ex_cluster = []" "history ex_cluster = []" "elected ex_cluster = []" by (simp_all add: ex_cluster_def)
  then show "cl_init ex_cluster" by (simp add: cl_init_def ex_cluster_member ex_member_def idle_def)
qed

lemma script_ex:
  assumes "case script {0, 1, 2} late lossy as ex_cluster of None \<Rightarrow> False | Some S \<Rightarrow> elected S = e"
  shows "\<exists>S. cl_reach {0, 1, 2} late lossy S \<and> elected S = e"
proof (cases "script {0, 1, 2} late lossy as ex_cluster")
  case (Some S)
  from script_reach [OF ex_cluster_reach ex_cluster_agreed this] assms Some show ?thesis by auto
qed (use assms in simp)

definition ex_election :: "action list" where
  "ex_election = [Tick 10000 3, Lost 0, Tick 10600 3, Deliver 10700 1, Deliver 10700 1, Deliver 10800 2, Deliver 10800 2, Tick 11000 3]"

theorem one_winner_per_epoch_witness:
  "\<exists>S. cl_reach {0, 1, 2} False False S \<and> elected S = [(1, 3)] \<and> (\<forall>b. (1, b) \<in> set (elected S) \<longrightarrow> 3 = b)"
proof -
  have "case script {0, 1, 2} False False ex_election ex_cluster of None \<Rightarrow> False | Some S \<Rightarrow> elected S = [(1, 3)]" by code_simp
  then obtain S where S: "cl_reach {0, 1, 2} False False S" "elected S = [(1, 3)]" using script_ex by blast
  have "3 = b" if "(1, b) \<in> set (elected S)" for b
    by (rule one_winner_per_epoch [OF S(1) _ _ that]) (simp_all add: S(2))
  with S show ?thesis by blast
qed

definition ex_restart :: "action list" where
  "ex_restart = [Tick 10000 3, Lost 0, Tick 10100 4, Lost 0, Tick 10600 3, Tick 10700 4,
     Deliver 10700 1, Deliver 10700 1, Deliver 10800 6, Deliver 10800 6, Tick 11000 3,
     Boot 11100 1, Boot 11100 2, Relink 1 4, Relink 2 4,
     Deliver 11200 3, Deliver 11200 3, Deliver 11250 8, Deliver 11250 8, Tick 11300 4]"

definition ex_late :: "action list" where
  "ex_late = [Tick 10000 3, Lost 0, Tick 10600 3, Deliver 10700 1, Deliver 10700 1, Deliver 10700 1,
     Tick 15000 3, Deliver 15100 1, Deliver 15100 1, Tick 15000 4, Tick 15700 4, Deliver 15700 4, Deliver 15700 4,
     Deliver 15800 5, Deliver 15800 5, Tick 15900 4, Tick 15700 3, Tick 15900 3]"

text \<open>
  C20. A master that stops after its vote can vote again in the same epoch, because \<open>lastVoteEpoch\<close> is not saved when it
  votes: two replicas of the same master are elected in the same epoch.
\<close>

theorem restart_votes_twice:
  "\<exists>S. cl_reach {0, 1, 2} False True S \<and> elected S = [(1, 3), (1, 4)]"
proof (rule script_ex)
  show "case script {0, 1, 2} False True ex_restart ex_cluster of None \<Rightarrow> False | Some S \<Rightarrow> elected S = [(1, 3), (1, 4)]"
    by code_simp
qed

text \<open>
  C21. A replica counts votes that arrive after it gave up an election and before it starts the next one, and they are votes for the
  old epoch: two replicas of the same master are elected in the same epoch, though no node stopped.
\<close>

theorem late_votes_counted:
  "\<exists>S. cl_reach {0, 1, 2} True False S \<and> elected S = [(2, 4), (2, 3)]"
proof (rule script_ex)
  show "case script {0, 1, 2} True False ex_late ex_cluster of None \<Rightarrow> False | Some S \<Rightarrow> elected S = [(2, 4), (2, 3)]"
    by code_simp
qed

end
