(* ===== verification/Slots.thy ===== *)
theory Slots
  imports Cluster
begin

text \<open>
  The table of the hash slots in \<open>cluster.c\<close>: it agrees with the bitmaps of the nodes whatever packets
  arrive, so that the assertion of \<open>clusterDelSlot\<close> holds, and a claim of slots takes over exactly those
  that are free or have an older configuration.
\<close>

subsection \<open>The table and the bitmaps\<close>

definition slots_ok :: "cstate \<Rightarrow> bool" where
  "slots_ok st \<longleftrightarrow> (\<forall>j n. j \<in> bitmap (nodes st n) \<longleftrightarrow> slot_owner st j = Some n) \<and>
     (\<forall>n. finite (bitmap (nodes st n)) \<and> numslots (nodes st n) = int (card (bitmap (nodes st n))))"

text \<open>Nothing about slots changes.\<close>

definition same_slots :: "cstate \<Rightarrow> cstate \<Rightarrow> bool" where
  "same_slots st st' \<longleftrightarrow> slot_owner st' = slot_owner st \<and>
     (\<forall>n. bitmap (nodes st' n) = bitmap (nodes st n) \<and> numslots (nodes st' n) = numslots (nodes st n))"

lemma same_slots_ok: "same_slots st st' \<Longrightarrow> slots_ok st' = slots_ok st"
  by (simp add: same_slots_def slots_ok_def)

lemma same_refl [simp, intro!]: "same_slots st st"
  by (simp add: same_slots_def)

lemma same_trans: "same_slots a b \<Longrightarrow> same_slots b c \<Longrightarrow> same_slots a c"
  by (simp add: same_slots_def)

lemma same_upd_node [intro!]:
  "same_slots a b \<Longrightarrow> (\<And>x. bitmap (f x) = bitmap x \<and> numslots (f x) = numslots x) \<Longrightarrow> same_slots a (upd_node n f b)"
  by (simp add: same_slots_def upd_node_def)

lemma same_fields [intro!]:
  "same_slots a b \<Longrightarrow> same_slots a (b\<lparr>todo_save := x\<rparr>)" "same_slots a b \<Longrightarrow> same_slots a (b\<lparr>todo_update := x\<rparr>)"
  "same_slots a b \<Longrightarrow> same_slots a (b\<lparr>todo_failover := x\<rparr>)" "same_slots a b \<Longrightarrow> same_slots a (b\<lparr>importing := y\<rparr>)"
  "same_slots a b \<Longrightarrow> same_slots a (b\<lparr>csize := z\<rparr>)" "same_slots a b \<Longrightarrow> same_slots a (b\<lparr>state_ok := x\<rparr>)"
  "same_slots a b \<Longrightarrow> same_slots a (b\<lparr>among_minority_time := z\<rparr>)" "same_slots a b \<Longrightarrow> same_slots a (b\<lparr>first_call_time := z\<rparr>)"
  "same_slots a b \<Longrightarrow> same_slots a (b\<lparr>mf_end := z\<rparr>)" "same_slots a b \<Longrightarrow> same_slots a (b\<lparr>mf_can_start := x\<rparr>)"
  "same_slots a b \<Longrightarrow> same_slots a (b\<lparr>mf_slave := u\<rparr>)" "same_slots a b \<Longrightarrow> same_slots a (b\<lparr>mf_master_offset := z\<rparr>)"
  "same_slots a b \<Longrightarrow> same_slots a (b\<lparr>assert_failed := x\<rparr>)" "same_slots a b \<Longrightarrow> same_slots a (b\<lparr>config_file := f\<rparr>)"
  "same_slots a b \<Longrightarrow> same_slots a (b\<lparr>failover_auth_time := z\<rparr>)" "same_slots a b \<Longrightarrow> same_slots a (b\<lparr>failover_auth_rank := z\<rparr>)"
  "same_slots a b \<Longrightarrow> same_slots a (b\<lparr>failover_auth_count := z\<rparr>)" "same_slots a b \<Longrightarrow> same_slots a (b\<lparr>failover_auth_sent := x\<rparr>)"
  "same_slots a b \<Longrightarrow> same_slots a (b\<lparr>failover_auth_epoch := k\<rparr>)" "same_slots a b \<Longrightarrow> same_slots a (b\<lparr>currentEpoch := k\<rparr>)"
  "same_slots a b \<Longrightarrow> same_slots a (b\<lparr>lastVoteEpoch := k\<rparr>)" "same_slots a b \<Longrightarrow> same_slots a (b\<lparr>effects := es\<rparr>)"
  by (simp_all add: same_slots_def)

lemma same_emit [intro!]: "same_slots a b \<Longrightarrow> same_slots a (emit e b)"
  by (simp add: same_slots_def emit_def)

lemma same_send [intro!]: "same_slots a b \<Longrightarrow> same_slots a (send_to n m b)"
  by (simp add: send_to_def same_emit)

lemma same_cassert [intro!]: "same_slots a b \<Longrightarrow> same_slots a (cassert c b)"
  by (simp add: cassert_def same_fields)

lemma same_fold: "(\<And>x b. same_slots b (f x b)) \<Longrightarrow> same_slots a b \<Longrightarrow> same_slots a (fold f xs b)"
proof (induction xs arbitrary: b)
  case (Cons x xs)
  show ?case using Cons.IH [OF Cons.prems(1) same_trans [OF Cons.prems(2) Cons.prems(1)]] by simp
qed simp

lemma same_broadcast: "same_slots a b \<Longrightarrow> same_slots a (clusterBroadcastMessage m b)" "same_slots a b \<Longrightarrow> same_slots a (clusterBroadcastPong env l b)"
  unfolding clusterBroadcastMessage_def clusterBroadcastPong_def by (auto intro!: same_fold)

lemma same_slaves:
  "same_slots a b \<Longrightarrow> same_slots a (clusterNodeRemoveSlave m n b)" "same_slots a b \<Longrightarrow> same_slots a (clusterNodeAddSlave m n b)"
  "same_slots a b \<Longrightarrow> same_slots a (clusterNodeResetSlaves n b)"
  by (auto simp: clusterNodeRemoveSlave_def clusterNodeAddSlave_def clusterNodeResetSlaves_def split: if_splits)

lemma same_reset: "same_slots a b \<Longrightarrow> same_slots a (resetManualFailover b)"
  by (auto simp: resetManualFailover_def Let_def)

lemma same_node_master: "same_slots a b \<Longrightarrow> same_slots a (clusterSetNodeAsMaster n b)"
  by (auto simp: clusterSetNodeAsMaster_def Let_def split: option.split intro: same_slaves)

lemma same_set_master: "same_slots a b \<Longrightarrow> same_slots a (clusterSetMaster n b)"
  unfolding clusterSetMaster_def Let_def clusterCloseAllSlots_def
  by (intro same_reset same_emit same_slaves(2) same_upd_node) (auto split: option.split intro!: same_slaves(1))

lemma same_state: "same_slots a b \<Longrightarrow> same_slots a (clusterUpdateState env b)" "same_slots a b \<Longrightarrow> same_slots a (clusterSaveConfig b)"
  by (auto simp: clusterUpdateState_def clusterSaveConfig_def Let_def)

lemma same_reports:
  "same_slots a b \<Longrightarrow> same_slots a (clusterNodeAddFailureReport env f n b)"
  "same_slots a b \<Longrightarrow> same_slots a (clusterNodeCleanupFailureReports env n b)"
  "same_slots a b \<Longrightarrow> same_slots a (clusterNodeDelFailureReport env n r b)"
  by (auto simp: clusterNodeAddFailureReport_def clusterNodeCleanupFailureReports_def clusterNodeDelFailureReport_def
      split: option.split)

lemma same_mark: "same_slots a b \<Longrightarrow> same_slots a (markNodeAsFailingIfNeeded env n b)"
  by (auto simp: markNodeAsFailingIfNeeded_def clusterNodeFailureReportsCount_def clusterSendFail_def Let_def
      intro!: same_broadcast intro: same_reports)

lemma same_clear: "same_slots a b \<Longrightarrow> same_slots a (clearNodeFailureIfNeeded env n b)"
  by (auto simp: clearNodeFailureIfNeeded_def clear_fail_def Let_def)

lemma same_gossip: "same_slots a b \<Longrightarrow> same_slots a (clusterProcessGossipSection env l s gs b)"
proof -
  have "same_slots b (gossip_entry env fn g b)" for fn g b
    by (auto simp: gossip_entry_def split: option.split prod.split intro: same_reports same_mark)
  then show "same_slots a b \<Longrightarrow> same_slots a (clusterProcessGossipSection env l s gs b)"
    unfolding clusterProcessGossipSection_def Let_def by (auto intro: same_fold)
qed

lemma same_vote: "same_slots a b \<Longrightarrow> same_slots a (clusterSendFailoverAuthIfNeeded env n m b)"
  by (auto simp: clusterSendFailoverAuthIfNeeded_def clusterSendFailoverAuth_def Let_def)

lemma same_header: "packet_header env m st = (e, c, s) \<Longrightarrow> same_slots st s"
  by (auto simp: packet_header_def Let_def upd_node_def same_slots_def split: if_splits)

lemma same_collision: "same_slots a b \<Longrightarrow> same_slots a (clusterHandleConfigEpochCollision n b)"
  by (auto simp: clusterHandleConfigEpochCollision_def Let_def intro!: same_state)

lemma same_rank: "same_slots a b \<Longrightarrow> same_slots a (snd (clusterGetSlaveRank env b))"
  by (auto simp: clusterGetSlaveRank_def Let_def split: option.split)

lemma same_election:
  "same_slots st (schedule_election env st)" "same_slots st (update_rank env st)" "same_slots st (start_election env st)"
proof -
  show "same_slots st (schedule_election env st)"
    using same_rank [of st _ env] unfolding schedule_election_def Let_def
    by (auto split: prod.split intro!: same_broadcast) (metis same_fields(15,17,18) same_refl snd_conv)+
  show "same_slots st (update_rank env st)"
    using same_rank [of st st env] unfolding update_rank_def by (auto split: prod.split)
  show "same_slots st (start_election env st)"
    unfolding start_election_def clusterRequestFailoverAuth_def Let_def by (auto intro!: same_broadcast)
qed


text \<open>A packet that is counted, asked or sent concerns no slot. These do.\<close>

definition keeps :: "cstate \<Rightarrow> cstate \<Rightarrow> bool" where
  "keeps st st' \<longleftrightarrow> (slots_ok st \<longrightarrow> slots_ok st')"

lemma keeps_same: "same_slots a b \<Longrightarrow> keeps a b"
  by (simp add: keeps_def same_slots_ok)

lemma keeps_trans: "keeps a b \<Longrightarrow> keeps b c \<Longrightarrow> keeps a c"
  by (simp add: keeps_def)

lemma keeps_fold: "(\<And>x b. keeps b (f x b)) \<Longrightarrow> keeps a b \<Longrightarrow> keeps a (fold f xs b)"
proof (induction xs arbitrary: b)
  case (Cons x xs)
  show ?case using Cons.IH [OF Cons.prems(1) keeps_trans [OF Cons.prems(2) Cons.prems(1)]] by simp
qed simp

lemma keeps_then: "keeps a b \<Longrightarrow> same_slots b c \<Longrightarrow> keeps a c"
  by (rule keeps_trans [OF _ keeps_same])

lemma add_slot_state:
  assumes "slots_ok st" "slot_owner st j = None"
  shows "slots_ok (snd (clusterAddSlot n j st))"
  using assms unfolding clusterAddSlot_def clusterNodeSetSlotBit_def Let_def slots_ok_def upd_node_def
  by (auto simp: card_insert_if)

lemma keeps_add: "keeps st (snd (clusterAddSlot n j st))"
proof (cases "slot_owner st j")
  case None then show ?thesis by (simp add: keeps_def add_slot_state)
next
  case (Some x) then show ?thesis by (simp add: keeps_def clusterAddSlot_def)
qed

lemma del_slot_state:
  assumes "slots_ok st"
  shows "slots_ok (snd (clusterDelSlot j st))" "assert_failed (snd (clusterDelSlot j st)) = assert_failed st"
    "slot_owner (snd (clusterDelSlot j st)) = (slot_owner st)(j := None)"
proof -
  note ok = assms [unfolded slots_ok_def]
  have "slots_ok (snd (clusterDelSlot j st)) \<and> assert_failed (snd (clusterDelSlot j st)) = assert_failed st \<and>
    slot_owner (snd (clusterDelSlot j st)) = (slot_owner st)(j := None)"
  proof (cases "slot_owner st j")
    case None
    then show ?thesis using assms by (auto simp: clusterDelSlot_def)
  next
    case (Some x)
    then have x: "j \<in> bitmap (nodes st x)" using ok by simp
    have "0 < card (bitmap (nodes st x))" using ok x by (auto simp: card_gt_0_iff)
    then show ?thesis using ok x Some
      by (auto simp: clusterDelSlot_def clusterNodeClearSlotBit_def Let_def cassert_def upd_node_def slots_ok_def card_Diff_singleton
          of_nat_diff)
  qed
  then show "slots_ok (snd (clusterDelSlot j st))" "assert_failed (snd (clusterDelSlot j st)) = assert_failed st"
    "slot_owner (snd (clusterDelSlot j st)) = (slot_owner st)(j := None)" by blast+
qed

lemma keeps_del: "keeps st (snd (clusterDelSlot j st))"
  by (simp add: keeps_def del_slot_state)

lemma keeps_del_node: "keeps st (clusterDelNodeSlots n st)"
  unfolding clusterDelNodeSlots_def by (rule keeps_fold) (auto intro: keeps_del keeps_same)

lemma keeps_update_slots: "keeps st (clusterUpdateSlotsConfigWith env n epoch claimed st)"
proof -
  have ch: "keeps s ((snd (clusterAddSlot n j (snd (clusterDelSlot j s))))\<lparr>todo_save := True, todo_update := True\<rparr>)" for j s
    by (rule keeps_then [OF keeps_trans [OF keeps_del keeps_add]]) auto
  have one: "keeps s (snd (snd (update_slot env n epoch c j (a, d, s))))" for c j a d s
    unfolding update_slot_def Let_def using ch keeps_same [OF same_refl] by auto
  have loop: "keeps s (snd (snd (fold (update_slot env n epoch c) js (a, d, s))))" for c js a d s
  proof (induction js arbitrary: a d s)
    case (Cons j js)
    obtain a' d' s' where u: "update_slot env n epoch c j (a, d, s) = (a', d', s')" by (metis prod_cases3)
    have "keeps s s'" using one [of s c j a d] by (simp add: u)
    then show ?case using Cons.IH [of s' a' d'] by (auto simp: u intro: keeps_trans)
  qed (simp add: keeps_same)
  have keys: "same_slots a b \<Longrightarrow> same_slots a (fold (\<lambda>j. emit (DelKeysInSlot j)) js b)" for a b js
    by (rule same_fold) auto
  define c where "c = (if is_master (me st) then Some (myself st) else slaveof (me st))"
  obtain a d s where f: "fold (update_slot env n epoch c) (sorted_list_of_set claimed) (False, [], st) = (a, d, s)" by (metis prod_cases3)
  have s: "keeps st s" using loop [of st c "sorted_list_of_set claimed" False "[]"] by (simp add: f)
  show ?thesis
  proof (cases "n = myself st")
    case False
    then show ?thesis unfolding clusterUpdateSlotsConfigWith_def Let_def c_def [symmetric] f
      by (auto intro!: keys keeps_then [OF s] same_set_master)
  qed (simp add: clusterUpdateSlotsConfigWith_def Let_def keeps_same)
qed

lemma keeps_role: "keeps st (role_switch m st)"
proof (cases "msg_slaveof m")
  case None
  then show ?thesis by (simp add: role_switch_def keeps_same same_node_master)
next
  case (Some x)
  define a where "a = (if is_master (nodes st (sender m)) then
     let s = clusterDelNodeSlots (sender m) st;
         s = upd_node (sender m) (\<lambda>x. x\<lparr>is_master := False, is_slave := True\<rparr>) s;
         s = (if replicas (nodes s (sender m)) \<noteq> [] then clusterNodeResetSlaves (sender m) s else s)
     in s\<lparr>todo_save := True, todo_update := True\<rparr> else st)"
  have a: "keeps st a"
  proof (cases "is_master (nodes st (sender m))")
    case True
    then show ?thesis unfolding a_def Let_def by (auto intro!: keeps_then [OF keeps_del_node] same_slaves)
  qed (simp add: a_def keeps_same)
  have "same_slots a (role_switch m st)"
    unfolding role_switch_def Some option.case Let_def a_def [unfolded Let_def, symmetric]
    by (auto split: option.split intro!: same_slaves)
  with a show ?thesis by (rule keeps_then)
qed

lemma keeps_slots_info: "keeps st (slots_info env m epoch st)"
proof -
  define a where "a = (if is_master (nodes st (sender m)) \<and> (case (if is_master (nodes st (sender m)) then Some (sender m) else slaveof (nodes st (sender m)))
     of None \<Rightarrow> False | Some x \<Rightarrow> bitmap (nodes st x) \<noteq> myslots m)
     then clusterUpdateSlotsConfigWith env (sender m) epoch (myslots m) st else st)"
  have "keeps st a" by (auto simp: a_def intro: keeps_update_slots keeps_same)
  moreover have "same_slots a (slots_info env m epoch st)"
    unfolding slots_info_def Let_def a_def [symmetric] clusterSendUpdate_def by (auto split: option.split)
  ultimately show ?thesis by (rule keeps_then)
qed

lemma keeps_ping: "keeps st (process_ping env l m pong epoch gs st)"
proof -
  define n where "n = sender m"
  define a where "a = (if pong then st else emit (Post n (clusterBuildMessageHdr env (PONG (gossip env n st)) st)) st)"
  have a: "same_slots st a" by (auto simp: a_def)
  define b where "b = (case l of
                    Some x \<Rightarrow>
                      if pong then
                        let st = upd_node x (\<lambda>x. x\<lparr>pong_received := now env, ping_sent := 0\<rparr>) a
                        in if pfail (nodes st x)
                           then (upd_node x (\<lambda>x. x\<lparr>pfail := False\<rparr>) st)\<lparr>todo_save := True, todo_update := True\<rparr>
                           else if nfail (nodes st x) then clearNodeFailureIfNeeded env x st else st
                      else a
                  | None \<Rightarrow> a)"
  have b: "same_slots st b" using a by (auto simp: b_def Let_def split: option.split intro!: same_clear)
  define c where "c = slots_info env m epoch (role_switch m b)"
  have c: "keeps st c" unfolding c_def by (rule keeps_trans [OF keeps_trans [OF keeps_same [OF b] keeps_role] keeps_slots_info])
  define d where "d = (if is_master (me c) \<and> is_master (nodes c n) \<and> epoch = configEpoch (me c)
                    then clusterHandleConfigEpochCollision n c else c)"
  have d: "keeps st d" by (rule keeps_then [OF c]) (auto simp: d_def intro: same_collision)
  have "process_ping env l m pong epoch gs st =
    (if l \<noteq> None \<and> l \<noteq> Some n then (upd_node (the l) (\<lambda>x. x\<lparr>has_link := False\<rparr>) a)\<lparr>todo_save := True\<rparr>
     else if clusterLookupNode n b = None then b else clusterProcessGossipSection env l n gs d)"
    unfolding process_ping_def Let_def n_def [symmetric] a_def [symmetric]
    unfolding b_def [unfolded Let_def, symmetric] c_def [symmetric] d_def [symmetric] ..
  moreover have "same_slots st ((upd_node (the l) (\<lambda>x. x\<lparr>has_link := False\<rparr>) a)\<lparr>todo_save := True\<rparr>)" using a by auto
  ultimately show ?thesis using b keeps_then [OF d same_gossip [OF same_refl]] by (simp add: keeps_same)
qed

lemma keeps_replace: "keeps st (clusterFailoverReplaceYourMaster env st)"
proof (cases "slaveof (me st)")
  case (Some x)
  define a where "a = emit UnsetReplication (clusterSetNodeAsMaster (myself st) st)"
  have a: "same_slots st a" unfolding a_def by (intro same_emit same_node_master same_refl)
  define b where "b = fold (\<lambda>j st. if j \<in> bitmap (nodes st x) then snd (clusterAddSlot (myself st) j (snd (clusterDelSlot j st))) else st)
    (sorted_list_of_set (bitmap (nodes a x))) a"
  have b: "keeps st b" unfolding b_def
    by (rule keeps_fold [OF _ keeps_same [OF a]]) (auto intro: keeps_trans [OF keeps_del keeps_add] keeps_same)
  have "same_slots b (resetManualFailover (clusterBroadcastPong env False (clusterSaveConfig (clusterUpdateState env b))))"
    by (intro same_reset same_broadcast same_state same_refl)
  with b Some show ?thesis by (auto simp: clusterFailoverReplaceYourMaster_def Let_def a_def b_def keeps_same intro: keeps_then)
qed (simp add: clusterFailoverReplaceYourMaster_def keeps_same)

lemma keeps_failover: "keeps st (clusterHandleSlaveFailover env st)"
proof (cases "slaveof (me (st\<lparr>todo_failover := False\<rparr>))")
  case None
  then show ?thesis by (auto simp: clusterHandleSlaveFailover_def Let_def intro: keeps_same)
next
  case (Some x)
  let ?a = "st\<lparr>todo_failover := False\<rparr>"
  have a: "same_slots st ?a" by auto
  have b: "same_slots st (update_rank env ?a)" by (rule same_trans [OF a same_election(2)])
  have 1: "keeps st ?a" "keeps st (update_rank env ?a)" using a b by (simp_all add: keeps_same)
  have 2: "keeps st (schedule_election env ?a)" by (rule keeps_then [OF 1(1) same_election(1)])
  have 3: "keeps st (start_election env (update_rank env ?a))" by (rule keeps_then [OF 1(2) same_election(3)])
  have 4: "keeps st (win_election env (update_rank env ?a))" unfolding win_election_def Let_def
    by (rule keeps_trans [OF keeps_then [OF 1(2)] keeps_replace]) auto
  show ?thesis unfolding clusterHandleSlaveFailover_def Let_def Some option.case
    using 1 2 3 4 by (simp split: if_split)
qed


lemma keeps_packet: "keeps st (clusterProcessPacket env l m st)"
proof -
  obtain e c s where h: "packet_header env m st = (e, c, s)" by (metis prod_cases3)
  note q = same_header [OF h]
  have *: "keeps st s'" if "same_slots s s'" for s' by (rule keeps_same [OF same_trans [OF q that]])
  have ping: "keeps st (process_ping env l m p x gs s)" for p x gs by (rule keeps_trans [OF keeps_same [OF q] keeps_ping])
  show ?thesis
  proof (cases "body m")
    case (UPDATE x re cl)
    have 1: "keeps st (clusterUpdateSlotsConfigWith env x re cl s')" if "same_slots s s'" for s'
      by (rule keeps_trans [OF * [OF that] keeps_update_slots])
    let ?n = "if is_slave (nodes s x) then clusterSetNodeAsMaster x s else s"
    have "same_slots s ((upd_node x (\<lambda>y. y\<lparr>configEpoch := re\<rparr>) ?n)\<lparr>todo_save := True\<rparr>)"
      by (auto intro: same_node_master)
    from 1 [OF this] * [OF same_refl] show ?thesis unfolding clusterProcessPacket_def h prod.case UPDATE body.case Let_def
      by (simp split: if_split)
  qed (auto simp: clusterProcessPacket_def h Let_def intro!: ping * same_vote same_reset)
qed

lemma keeps_calls:
  "keeps st (cron_failover env st)" "keeps st (clusterBeforeSleep env st)" "keeps st (cron_timeout env n st)"
  "cluster_failover env force takeover st = Some st' \<Longrightarrow> keeps st st'"
proof -
  have m: "same_slots st (manualFailoverCheckTimeout env st)" for st
    by (auto simp: manualFailoverCheckTimeout_def intro: same_reset)
  have h: "same_slots st (clusterHandleManualFailover env st)" for st
    by (auto simp: clusterHandleManualFailover_def)
  show "keeps st (cron_failover env st)"
    unfolding cron_failover_def Let_def
    using keeps_trans [OF keeps_same [OF same_trans [OF m h]] keeps_failover] keeps_same [OF m] by simp
  have f: "keeps st (if todo_failover st then clusterHandleSlaveFailover env st else st)" (is "keeps st ?a")
    by (simp add: keeps_failover keeps_same)
  show "keeps st (clusterBeforeSleep env st)"
    unfolding clusterBeforeSleep_def Let_def by (rule keeps_then [OF f]) (auto intro: same_state)
  show "keeps st (cron_timeout env n st)"
    by (auto simp: cron_timeout_def intro!: keeps_same same_state)
  assume c: "cluster_failover env force takeover st = Some st'"
  have a: "same_slots st ((resetManualFailover st)\<lparr>mf_end := now env + 5000\<rparr>)" (is "same_slots st ?b") by (auto intro: same_reset)
  have "same_slots st (snd (clusterBumpConfigEpochWithoutConsensus ?b))"
    using a by (auto simp: clusterBumpConfigEpochWithoutConsensus_def Let_def)
  then have "keeps st (clusterFailoverReplaceYourMaster env (snd (clusterBumpConfigEpochWithoutConsensus ?b)))"
    by (rule keeps_trans [OF keeps_same keeps_replace])
  then show "keeps st st'" using c a
    by (auto simp: cluster_failover_def clusterSendMFStart_def Let_def split: option.splits if_splits intro!: keeps_same)
qed

subsection \<open>Claims\<close>

text \<open>Slot \<open>j\<close> goes to node \<open>n\<close>: it is free, or its owner has an older configuration.\<close>

definition takes_over :: "nat \<Rightarrow> nat \<Rightarrow> cstate \<Rightarrow> nat \<Rightarrow> bool" where
  "takes_over n epoch st j \<longleftrightarrow> \<not> importing st j \<and>
     (case slot_owner st j of None \<Rightarrow> True | Some x \<Rightarrow> x \<noteq> n \<and> configEpoch (nodes st x) < epoch)"

lemma update_slot_owner:
  assumes "slots_ok st" "update_slot env n epoch c j (a, d, st) = (a', d', st')"
  shows "slots_ok st'" "slot_owner st' = (if takes_over n epoch st j then (slot_owner st)(j := Some n) else slot_owner st)"
    "importing st' = importing st" "\<And>x. configEpoch (nodes st' x) = configEpoch (nodes st x)"
    "assert_failed st' = assert_failed st"
proof -
  note d = del_slot_state [OF assms(1), of j]
  let ?d = "snd (clusterDelSlot j st)"
  have o: "slot_owner ?d j = None" using d(3) by simp
  have a: "slots_ok (snd (clusterAddSlot n j ?d))" by (rule add_slot_state [OF d(1) o])
  have f: "slot_owner (snd (clusterAddSlot n j ?d)) = (slot_owner st)(j := Some n)"
    "importing (snd (clusterAddSlot n j ?d)) = importing st"
    "configEpoch (nodes (snd (clusterAddSlot n j ?d)) x) = configEpoch (nodes st x)"
    "assert_failed (snd (clusterAddSlot n j ?d)) = assert_failed st" for x
    using o d(2,3)
    by (auto simp: clusterAddSlot_def clusterNodeSetSlotBit_def clusterDelSlot_def clusterNodeClearSlotBit_def Let_def upd_node_def
        cassert_def split: option.splits)
  have "st' = (if takes_over n epoch st j then (snd (clusterAddSlot n j ?d))\<lparr>todo_save := True, todo_update := True\<rparr> else st)"
    using assms(2) by (auto simp: update_slot_def takes_over_def Let_def split: option.splits if_splits)
  then show "slots_ok st'" "slot_owner st' = (if takes_over n epoch st j then (slot_owner st)(j := Some n) else slot_owner st)"
    "importing st' = importing st" "configEpoch (nodes st' x) = configEpoch (nodes st x)" "assert_failed st' = assert_failed st" for x
    using assms(1) a f same_slots_ok [OF same_fields(2) [OF same_fields(1) [OF same_refl]]] by auto
qed

lemma update_loop_owner:
  assumes "slots_ok st" "distinct js" "fold (update_slot env n epoch c) js (a, d, st) = (a', d', st')"
  shows "slots_ok st' \<and> slot_owner st' = (\<lambda>j. if j \<in> set js \<and> takes_over n epoch st j then Some n else slot_owner st j) \<and>
    assert_failed st' = assert_failed st"
  using assms
proof (induction js arbitrary: a d st)
  case (Cons j js)
  obtain a1 d1 s1 where u: "update_slot env n epoch c j (a, d, st) = (a1, d1, s1)" by (metis prod_cases3)
  note s1 = update_slot_owner [OF Cons.prems(1) u]
  have j: "j \<notin> set js" "distinct js" using Cons.prems(2) by auto
  have "takes_over n epoch s1 i = takes_over n epoch st i" if "i \<in> set js" for i
  proof -
    have "i \<noteq> j" using that j(1) by auto
    then show ?thesis using s1 by (simp add: takes_over_def split: option.split)
  qed
  with j show ?case using Cons.IH [OF s1(1) _ Cons.prems(3) [unfolded fold.simps o_apply u]] s1(2,5) by (auto simp: fun_eq_iff)
qed auto

lemma set_master_owner: "slot_owner (clusterSetMaster n st) = slot_owner st"
  using same_set_master [OF same_refl, of st n] by (simp add: same_slots_def)

lemma emits_owner: "slot_owner (fold (\<lambda>j. emit (DelKeysInSlot j)) js st) = slot_owner st"
  by (induction js arbitrary: st) (simp_all add: emit_def)

text \<open>
  C22. A node that claims slots gets exactly those that are not being imported and are free or belong to a node with
  an older configuration; no other slot changes its owner, so the newest configuration wins.
\<close>

theorem newest_configuration_wins:
  assumes "slots_ok st" "n \<noteq> myself st" "finite claimed"
  shows "slot_owner (clusterUpdateSlotsConfigWith env n epoch claimed st) j =
    (if j \<in> claimed \<and> \<not> importing st j \<and>
        (case slot_owner st j of None \<Rightarrow> True | Some x \<Rightarrow> x \<noteq> n \<and> configEpoch (nodes st x) < epoch)
     then Some n else slot_owner st j)"
proof -
  define c where "c = (if is_master (me st) then Some (myself st) else slaveof (me st))"
  obtain a d s where f: "fold (update_slot env n epoch c) (sorted_list_of_set claimed) (False, [], st) = (a, d, s)" by (metis prod_cases3)
  have l: "slot_owner s = (\<lambda>j. if j \<in> claimed \<and> takes_over n epoch st j then Some n else slot_owner st j)"
    using update_loop_owner [OF assms(1) _ f] assms(3) by simp
  have k: "slot_owner (cassert b s) = slot_owner s" for b by (simp add: cassert_def)
  have "slot_owner (clusterUpdateSlotsConfigWith env n epoch claimed st) = slot_owner s"
    using assms(2) unfolding clusterUpdateSlotsConfigWith_def Let_def c_def [symmetric] f
    by (simp add: set_master_owner emits_owner k)
  then show ?thesis by (simp add: l takes_over_def)
qed

definition ex_slots :: cstate where
  "ex_slots = \<lparr>myself = 0, names = [0, 1, 2],
     nodes = (\<lambda>n. \<lparr>is_master = True, is_slave = False, nfail = False, pfail = False, handshake = False, has_link = True,
       configEpoch = n + 1, bitmap = (if n < 2 then {n} else {}), numslots = (if n < 2 then 1 else 0), replicas = [], slaveof = None,
       ping_sent = 0, pong_received = 0, fail_time = 0, voted_time = 0, repl_offset = 0, fail_reports = []\<rparr>),
     currentEpoch = 3, state_ok = True, csize = 2, slot_owner = (\<lambda>j. if j < 2 then Some j else None), importing = (\<lambda>_. False),
     failover_auth_time = 0, failover_auth_count = 0, failover_auth_sent = False, failover_auth_rank = 0, failover_auth_epoch = 0,
     mf_end = 0, mf_slave = None, mf_master_offset = 0, mf_can_start = False, lastVoteEpoch = 0,
     todo_failover = False, todo_update = False, todo_save = False, among_minority_time = 0, first_call_time = 1,
     config_file = \<lparr>saved_epoch = 0, saved_vote = 0, saved_nodes = (\<lambda>_. undefined), saved_importing = (\<lambda>_. False)\<rparr>,
     effects = [], assert_failed = False\<rparr>"

definition ex_slots_env :: cenv where
  "ex_slots_env = \<lparr>now = 1000, random500 = 0, slave_offset = 0, master_offset = 0, seconds_apart = 0, picks = (\<lambda>_. []),
     keys_in_slot = (\<lambda>_. 3), node_timeout = 100, validity_factor = 10, ping_period = 10, full_coverage = False\<rparr>"

lemma ex_slots_ok: "slots_ok ex_slots"
  by (auto simp: slots_ok_def ex_slots_def)

theorem newest_configuration_wins_witness:
  "map (slot_owner (clusterUpdateSlotsConfigWith ex_slots_env 2 2 {0, 1, 5} ex_slots)) [0, 1, 5, 7] = [Some 2, Some 1, Some 2, None]"
  using newest_configuration_wins [OF ex_slots_ok, of 2 "{0, 1, 5}" ex_slots_env 2] by (simp add: ex_slots_def)

text \<open>
  C23. Whatever packet a node processes, and whatever its cron and the end of its event loop do, the table of the slots agrees
  with the bitmaps of the nodes and with their numbers of slots; the assertion of \<open>clusterDelSlot\<close> holds in such a state.
\<close>

theorem slots_table_agrees:
  assumes "slots_ok st"
  shows "slots_ok (clusterProcessPacket env l m st) \<and> slots_ok (cron_failover env st) \<and> slots_ok (clusterBeforeSleep env st) \<and>
    slots_ok (cron_timeout env n st) \<and> assert_failed (snd (clusterDelSlot j st)) = assert_failed st"
  using assms keeps_packet [of st env l m] keeps_calls(1-3) [of st env] del_slot_state(2) [OF assms] by (simp add: keeps_def)

theorem slots_table_agrees_witness:
  "slots_ok (clusterProcessPacket ex_slots_env None
     \<lparr>sender = 2, msgEpoch = 4, msgConfigEpoch = 4, myslots = {0, 1}, msg_slaveof = None, msg_offset = 0,
      flag_paused = False, flag_forceack = False, body = PONG []\<rparr> ex_slots) \<and>
   slots_ok (clusterBeforeSleep ex_slots_env ex_slots)"
  using slots_table_agrees [OF ex_slots_ok] by blast

end
