(* ===== verification/Spec2Isabelle.thy ===== *)
theory Spec2Isabelle
  imports Intset Glob Rdb Crc Rand Adlist DictScan DictIter Proto Aof Transactions
    Output RdbFile ReplicaSync Winners Slots
begin

text \<open>
  Verification of the session store of ISP Session.

  The program. ISP Session keeps the session state of web applications outside of the web server. A
  COM component (\<open>src/src/COM\<close>, C++) and .NET libraries put a session, as one binary value with a
  time of expiry, into a key of a session store. The store is the Redis server of the repository
  (\<open>src/src/src\<close>, C, the Windows port of Redis 3.0), and this development models its core: what
  happens to the bytes of a request from the socket to the key space, and from there to the files
  on disk. The Redis server is the largest part of the repository that is written in C.

  From bytes to commands and back. Proto models the parser of \<open>networking.c\<close> that turns the bytes of a
  client into argument vectors, in both forms of the protocol, however the bytes are cut into
  packets. Output models the way back: the output buffer and the list of a client, the functions that
  add replies, and the sending of the Windows port, where writes complete later. Sds, Util and Clib model the strings (\<open>sds.c\<close>), the conversions of numbers (\<open>util.c\<close>)
  and the functions of the C library they use; Glob models the matcher of \<open>KEYS\<close> and \<open>PSUBSCRIBE\<close>.

  Commands. Server models the state of \<open>redis.h\<close> that the commands share and the interface of
  \<open>db.c\<close> to the key space, with the expiry of keys; Commands models the commands of \<open>t_string.c\<close>
  and the key commands of \<open>db.c\<close>, and the command table; Multi models the transactions of
  \<open>multi.c\<close> and, from \<open>redis.c\<close>, \<open>processCommand\<close> and \<open>call\<close>. Each function of the C code is a
  function on the state, a record; a command returns the replies it adds and the new state. A
  failed assertion of the code sets a field of the state. Clients, the clock and the background
  expiry are the rules of the relation \<open>step\<close>.

  Data. Object models string objects and their encodings (\<open>object.c\<close>), Intset the compact sets of
  integers (\<open>intset.c\<close>, on bytes), Adlist the linked lists (\<open>adlist.c\<close>, on an explicit heap), Dict,
  DictScan and DictIter the hash tables with incremental rehashing, the stateless scan and the
  iterators (\<open>dict.c\<close>). Dict shows that the hash tables implement finite maps with fewer than \<open>2 ^ 30\<close>
  keys at a time (the number of a bucket is returned as an \<open>int\<close>), which is why the data bases of Server
  are finite maps.

  Persistence. RdbFile models whole dump files, saved and loaded, and Rdb the encoding of lengths,
  integers and strings in a dump (\<open>rdb.c\<close>) over the channels of \<open>rio.c\<close>, to a buffer or to a file of which
  any write can fail, with the compressor of Lzf (\<open>lzf_c.c\<close>, \<open>lzf_d.c\<close>) and the checksum of Crc (\<open>crc64.c\<close>; \<open>crc16.c\<close> gives the
  slot of a key in a cluster). Aof models the writer and the loader of the append only file
  (\<open>aof.c\<close>). Rand models the random numbers of scripts (\<open>rand.c\<close>) and the byte order conversions
  (\<open>endianconv.c\<close>).

  Replication. Replication models \<open>replication.c\<close>: the ring buffer of the last bytes of the stream of
  writes (\<open>feedReplicationBacklog\<close>, \<open>addReplyReplicationBacklog\<close>), the feeding of replicas, \<open>SYNC\<close> and
  \<open>PSYNC\<close> with their saves to disk or to sockets, and the replica's side. ReplicationProofs has the
  invariant of a master and what each operation keeps of it, and ReplicaSync a master with any number
  of replicas as a step relation in which connections are lost and the master restarts; a data set is
  there the history of the writes that made it. \<open>WAIT\<close> is in ReplicaSync, and so are the changes of role, as two
  more steps of the system.

  Cluster. Cluster models \<open>cluster.c\<close> for nodes that know each other: the table of hash slots, the
  packets, failure reports, the election of a replica and manual failover; a function returns the state
  with a list of what it sent. Slots shows that the table agrees with the bitmaps of the nodes and
  that the newest configuration wins. Election is a step relation of nodes and a network that loses,
  delays and reorders packets; Winners has its concrete runs, checked action by action.

  The theories. Prelude holds what all share: blocks of memory as lists of bytes, integers of a
  given width as integers with their wrap around written out, decimal notation. Interfaces holds
  the locales between components, each interpreted on the model's own definitions where these are:
  sets that count what they add, finite maps, buffers. CommandSpec states the abstract store that
  Commands refines, one equation per command, in which a key is a value with an optional time and
  there are no encodings and no dead keys; Refinement puts all commands together, and Transactions
  holds the properties of commands and transactions with their examples.

  What is shown. The groups of lemmas are: well formedness and its preservation for each data
  structure; refinement of finite sets, maps and sequences by the data structures, and of the
  abstract store by the commands; round trips of the encodings on disk and of the protocol; safety
  of the output of a client (replies arrive complete and in order, the memory of a pending write does
  not change); safety of the decoders on any input (the decompressor, the parser and the loader stay in their buffers
  and fail cleanly); termination of the scan, the rehashing and the random search; completeness of
  the scan; the invariant of the whole server in every reachable state, and what \<open>WATCH\<close>, \<open>MULTI\<close>
  and \<open>EXEC\<close> promise; and that a replica, however it lost and found its master, holds a prefix of the
  master's history and converges to it; at most one replica elected in an epoch. Where the code does not do what it is meant to, the property states what it
  does: a client can be closed before its reply is sent, a scan of a table that shrinks can miss keys, a dictionary with
  \<open>2 ^ 32\<close> buckets can lose a key, classes of the glob matcher read beyond the
  string, a glob with a NUL byte can match the empty string, an inline request that ends with a newline alone swallows a byte, \<open>MOVE\<close> is not seen by
  watchers, nor is the eviction of a key when memory is short (so what \<open>WATCH\<close> promises is stated for a
  server without a memory limit), \<open>PERSIST\<close> revives dead keys, a master that was a replica for a while lets its old replicas
  continue at offsets of its first life, a master that restarts can vote twice in an epoch, late votes
  count for the next election, a refusal of a read only replica does not abort a
  transaction, a replica is not told that the save for it could not start.

  Bounds and fuel. Memory is unlimited, and the conditions under which a length would not fit its C
  type are premises where the code relies on them. Loops are structural recursions or functions
  with a proved measure; the loops of the scan and of the random search take fuel, and the
  theorems say how much is enough (the number of buckets; the number of
  bytes of a dump for its loader; the first random number that hits a
  non-empty bucket). The offsets of replication are below \<open>2 ^ 62\<close>. The counts of bytes that the
  functions of \<open>rdb.c\<close> return as \<open>int\<close>, and the lengths of strings in the append only file, are integers without
  a bound here: the strings of the server have at most 512 MB. The decompressor reads and writes through checked
  accesses, which give an error of their own outside of the buffers. The clock may change in any way between
  requests; a command reads it once, and \<open>EXEC\<close> once more for each queued command (the field \<open>clock\<close>). In the
  cluster, the masters with slots are one set for a whole run.

  Not modelled. Of the modelled files: floating point (\<open>INCRBYFLOAT\<close>, scores in dumps), the commands
  on lists, sets, hashes and sorted sets, whose values are an opaque type here, \<open>KEYS\<close>, \<open>SCAN\<close>
  as commands, the LRU clock and eviction, blocked clients, the slot index, child processes and
  file descriptors; of replication, the handshake before \<open>PSYNC\<close>, timeouts, the chunks and marks of the
  transfer of a dump, monitors, and the step in which a replica falls back to \<open>SYNC\<close>; of the cluster, the
  handshake, addresses, the text of \<open>nodes.conf\<close>, slave migration, redirections and the commands
  except \<open>CLUSTER FAILOVER\<close>. Of the store: sentinel, scripting, configuration,
  Pub/Sub, the event loop, the slow log and latency monitors, the other data types and their
  encodings (ziplists, zipmaps, skip lists), HyperLogLog, bit operations, and the command line
  tools. Of the repository: the COM component in C++ and the libraries and demos in C#, the Windows
  layer \<open>Win32_Interop\<close> and the vendored allocators, Lua, hiredis and linenoise, which are other
  languages, glue to the operating system, or third party code.
\<close>

end
